(* ===== verification/Prelude.thy ===== *)
theory Prelude
  imports Main "HOL-Library.Word"
begin

text \<open>
  Shared vocabulary of the development: the machine types of the kernel's Rust sources,
  Linux error numbers, the bit-level helpers the sources use on \<open>u64\<close> words
  (\<open>1 << n\<close>, \<open>trailing_zeros\<close>, \<open>div_ceil\<close>), the byte memory and its block copies, and
  the generic list lemmas that several components need.

  Conventions used in every theory. Bit fields and bitmaps are \<open>'w word\<close>; addresses,
  sizes, lengths and counters are \<open>nat\<close>, with the width written out where the source
  checks it (\<open>checked_add\<close>, \<open>saturating_add\<close>) or wraps. \<open>Result<T, i64>\<close> is
  \<open>errno + 'a\<close>, with \<open>Inl\<close> the error.
\<close>

unbundle bit_operations_syntax

type_synonym u8 = "8 word"
type_synonym u16 = "16 word"
type_synonym u32 = "32 word"
type_synonym u64 = "64 word"
type_synonym errno = int
type_synonym mem = "nat \<Rightarrow> u8"

named_theorems errno_defs
named_theorems bit_facts

definition ESRCH :: errno where [errno_defs]: "ESRCH = 3"
definition EAGAIN :: errno where [errno_defs]: "EAGAIN = 11"
definition ENOMEM :: errno where [errno_defs]: "ENOMEM = 12"
definition EFAULT :: errno where [errno_defs]: "EFAULT = 14"
definition EEXIST :: errno where [errno_defs]: "EEXIST = 17"
definition EINVAL :: errno where [errno_defs]: "EINVAL = 22"
definition EFBIG :: errno where [errno_defs]: "EFBIG = 27"
definition EPIPE :: errno where [errno_defs]: "EPIPE = 32"
definition EMSGSIZE :: errno where [errno_defs]: "EMSGSIZE = 90"
definition EADDRINUSE :: errno where [errno_defs]: "EADDRINUSE = 98"
definition ENOBUFS :: errno where [errno_defs]: "ENOBUFS = 105"
definition ECONNREFUSED :: errno where [errno_defs]: "ECONNREFUSED = 111"
definition EPERM :: errno where [errno_defs]: "EPERM = 1"
definition ENOENT :: errno where [errno_defs]: "ENOENT = 2"
definition EIO :: errno where [errno_defs]: "EIO = 5"
definition ENOTDIR :: errno where [errno_defs]: "ENOTDIR = 20"
definition EISDIR :: errno where [errno_defs]: "EISDIR = 21"
definition ENOSPC :: errno where [errno_defs]: "ENOSPC = 28"
definition EMLINK :: errno where [errno_defs]: "EMLINK = 31"
definition ENAMETOOLONG :: errno where [errno_defs]: "ENAMETOOLONG = 36"
definition ENOTEMPTY :: errno where [errno_defs]: "ENOTEMPTY = 39"
definition ELOOP :: errno where [errno_defs]: "ELOOP = 40"

text \<open>The \<open>?\<close> operator on a call that changes the state: an error ends the caller with the state as it is.\<close>

definition and_then :: "(errno + 'a) \<times> 's \<Rightarrow> ('a \<Rightarrow> 's \<Rightarrow> (errno + 'b) \<times> 's) \<Rightarrow> (errno + 'b) \<times> 's" where
  "and_then r k = (case r of (Inl e, st) \<Rightarrow> (Inl e, st) | (Inr a, st) \<Rightarrow> k a st)"

section \<open>Integers of the sources\<close>

definition u64_max :: nat where "u64_max = 2 ^ 64 - 1"

text \<open>\<open>u64::checked_add\<close> and \<open>u64::saturating_add\<close>.\<close>

definition checked_add :: "nat \<Rightarrow> nat \<Rightarrow> nat option" where
  "checked_add a b = (if a + b \<le> u64_max then Some (a + b) else None)"

definition saturating_add :: "nat \<Rightarrow> nat \<Rightarrow> nat" where
  "saturating_add a b = min (a + b) u64_max"

definition div_ceil :: "nat \<Rightarrow> nat \<Rightarrow> nat" where
  "div_ceil a b = (a + b - 1) div b"

lemma checked_add_Some [simp]:
  "checked_add a b = Some c \<longleftrightarrow> c = a + b \<and> a + b \<le> u64_max"
  by (auto simp: checked_add_def)

lemma checked_add_None [simp]: "checked_add a b = None \<longleftrightarrow> u64_max < a + b"
  by (auto simp: checked_add_def)

lemma div_ceil_ge: "0 < b \<Longrightarrow> a \<le> div_ceil a b * b"
proof -
  assume b: "0 < b"
  have "a + b - 1 = div_ceil a b * b + (a + b - 1) mod b"
    by (simp add: div_ceil_def)
  moreover have "(a + b - 1) mod b < b" using b by simp
  ultimately show ?thesis using b by linarith
qed

lemma div_ceil_less_iff: "0 < b \<Longrightarrow> k < div_ceil a b \<longleftrightarrow> k * b < a"
proof -
  assume b: "0 < b"
  have "k < div_ceil a b \<longleftrightarrow> Suc k \<le> (a + b - 1) div b"
    by (auto simp: div_ceil_def)
  also have "\<dots> \<longleftrightarrow> Suc k * b \<le> a + b - 1"
    using b by (metis less_eq_div_iff_mult_less_eq)
  also have "\<dots> \<longleftrightarrow> k * b < a" using b by auto
  finally show ?thesis .
qed

lemma div_ceil_le_iff: "0 < b \<Longrightarrow> div_ceil a b \<le> k \<longleftrightarrow> a \<le> k * b"
  using div_ceil_less_iff [of b k a] by auto

lemma div_ceil_exact [simp]: "0 < b \<Longrightarrow> div_ceil (k * b) b = k"
  by (metis div_ceil_le_iff div_ceil_less_iff mult_less_cancel2 leI le_antisym order_refl nat_neq_iff)

lemma div_ceil_mono: "0 < b \<Longrightarrow> a \<le> c \<Longrightarrow> div_ceil a b \<le> div_ceil c b"
  by (simp add: div_ceil_le_iff) (meson div_ceil_ge order_trans)

lemma div_ceil_rem:
  assumes "a mod b \<noteq> 0" "0 < b"
  shows "div_ceil a b = a div b + 1"
proof (rule antisym)
  show "div_ceil a b \<le> a div b + 1"
    using assms(2) dividend_less_div_times [of b a] by (simp add: div_ceil_le_iff)
  have "0 < a mod b" using assms(1) by simp
  then have "a div b * b < a" using div_mult_mod_eq [of a b] by linarith
  then have "a div b < div_ceil a b" using assms(2) by (simp add: div_ceil_less_iff)
  then show "a div b + 1 \<le> div_ceil a b" by simp
qed

lemma div_mod_le:
  "(a :: nat) \<le> b \<longleftrightarrow> a div n < b div n \<or> (a div n = b div n \<and> a mod n \<le> b mod n)"
proof -
  have "a \<le> b" if "a div n < b div n" using that by (metis div_le_mono leD nat_le_linear)
  moreover have "a div n \<le> b div n" if "a \<le> b" using that by (rule div_le_mono)
  ultimately show ?thesis
    by (metis add_le_cancel_left div_mult_mod_eq order_le_imp_less_or_eq)
qed

section \<open>Bits of a word\<close>

text \<open>\<open>1 << n\<close> on the width of the context.\<close>

definition bit1 :: "nat \<Rightarrow> 'a::len word" where
  "bit1 n = push_bit n 1"

definition trailing_zeros :: "'a::len word \<Rightarrow> nat" where
  "trailing_zeros w = length (takeWhile (\<lambda>i. \<not> bit w i) [0..<LENGTH('a)])"

lemma bit_bit1 [bit_facts]: "bit (bit1 n :: 'a::len word) m \<longleftrightarrow> m = n \<and> n < LENGTH('a)"
  by (auto simp: bit1_def bit_simps)

lemma and_bit1_eq_0 [bit_facts]:
  "n < LENGTH('a) \<Longrightarrow> (w AND bit1 n = (0 :: 'a::len word)) \<longleftrightarrow> \<not> bit w n"
  by (auto simp: bit_eq_iff [of "w AND bit1 n"] bit_and_iff bit_bit1)

lemma or_bit1 [bit_facts]:
  "n < LENGTH('a) \<Longrightarrow> bit (w OR bit1 n :: 'a::len word) m \<longleftrightarrow> bit w m \<or> m = n"
  by (auto simp: bit_or_iff bit_bit1)

lemma clear_bit1 [bit_facts]:
  "bit (w AND NOT (bit1 n) :: 'a::len word) m \<longleftrightarrow> bit w m \<and> m \<noteq> n"
  by (auto simp: bit_simps bit_bit1 dest: bit_imp_le_length)

lemma neq_all_ones:
  fixes w :: "'a::len word"
  shows "w \<noteq> - 1 \<longleftrightarrow> (\<exists>n < LENGTH('a). \<not> bit w n)"
  by (auto simp: bit_eq_iff bit_simps)

lemma nth_takeWhile_length:
  "length (takeWhile P xs) < length xs \<Longrightarrow> \<not> P (xs ! length (takeWhile P xs))"
  by (rule nth_length_takeWhile)

lemma trailing_zeros_props:
  fixes w :: "'a::len word"
  assumes "w \<noteq> 0"
  shows trailing_zeros_less: "trailing_zeros w < LENGTH('a)"
    and bit_trailing_zeros: "bit w (trailing_zeros w)"
    and below_trailing_zeros: "i < trailing_zeros w \<Longrightarrow> \<not> bit w i"
proof -
  let ?t = "takeWhile (\<lambda>i. \<not> bit w i) [0..<LENGTH('a)]"
  from assms obtain n where n: "n < LENGTH('a)" "bit w n"
    by (auto simp: bit_eq_iff dest: bit_imp_le_length)
  have "length ?t \<noteq> LENGTH('a)"
  proof
    assume "length ?t = LENGTH('a)"
    then have "?t = [0..<LENGTH('a)]"
      by (metis length_upt minus_nat.diff_0 takeWhile_eq_take take_all order_refl)
    then have "\<forall>i \<in> set [0..<LENGTH('a)]. \<not> bit w i"
      by (metis set_takeWhileD)
    with n show False by auto
  qed
  moreover have "length ?t \<le> length [0..<LENGTH('a)]" by (rule length_takeWhile_le)
  ultimately show less: "trailing_zeros w < LENGTH('a)"
    by (simp add: trailing_zeros_def)
  then show "bit w (trailing_zeros w)"
    using nth_takeWhile_length [of "\<lambda>i. \<not> bit w i" "[0..<LENGTH('a)]"]
    by (simp add: trailing_zeros_def)
  show "\<not> bit w i" if "i < trailing_zeros w"
  proof -
    from that less have "i < LENGTH('a)" by simp
    with that have "?t ! i = i"
      by (simp add: trailing_zeros_def takeWhile_nth)
    moreover have "?t ! i \<in> set ?t" using that by (simp add: trailing_zeros_def)
    ultimately show ?thesis by (metis set_takeWhileD)
  qed
qed

section \<open>Byte memory\<close>

text \<open>\<open>ptr::copy_nonoverlapping\<close> of a byte block and \<open>ptr::write_bytes\<close>.\<close>

definition mem_read :: "mem \<Rightarrow> nat \<Rightarrow> nat \<Rightarrow> u8 list" where
  "mem_read m a n = map m [a..<a + n]"

definition mem_write :: "mem \<Rightarrow> nat \<Rightarrow> u8 list \<Rightarrow> mem" where
  "mem_write m a bs = (\<lambda>x. if a \<le> x \<and> x < a + length bs then bs ! (x - a) else m x)"

lemma length_mem_read [simp]: "length (mem_read m a n) = n"
  by (simp add: mem_read_def)

lemma nth_mem_read [simp]: "i < n \<Longrightarrow> mem_read m a n ! i = m (a + i)"
  by (simp add: mem_read_def)

lemma mem_write_Nil [simp]: "mem_write m a [] = m"
  by (rule ext) (auto simp: mem_write_def)

lemma mem_write_out: "x < a \<or> a + length bs \<le> x \<Longrightarrow> mem_write m a bs x = m x"
  by (auto simp: mem_write_def)

lemma mem_write_in: "i < length bs \<Longrightarrow> mem_write m a bs (a + i) = bs ! i"
  by (simp add: mem_write_def)

lemma mem_read_cong: "(\<And>i. i < n \<Longrightarrow> m (a + i) = m' (a' + i)) \<Longrightarrow> mem_read m a n = mem_read m' a' n"
  by (rule nth_equalityI) auto

lemma mem_read_write_same [simp]: "mem_read (mem_write m a bs) a (length bs) = bs"
  by (rule nth_equalityI) (auto simp: mem_write_in)

lemma mem_read_write_disjoint:
  "a + n \<le> b \<or> b + length bs \<le> a \<Longrightarrow> mem_read (mem_write m b bs) a n = mem_read m a n"
  by (intro mem_read_cong mem_write_out) auto

section \<open>Lists\<close>

text \<open>\<open>iter().position(p)\<close>.\<close>

fun position :: "('a \<Rightarrow> bool) \<Rightarrow> 'a list \<Rightarrow> nat option" where
  "position p [] = None"
| "position p (x # xs) = (if p x then Some 0 else map_option Suc (position p xs))"

lemma position_Some:
  "position p xs = Some i \<Longrightarrow> i < length xs \<and> p (xs ! i) \<and> (\<forall>j < i. \<not> p (xs ! j))"
proof (induction xs arbitrary: i)
  case (Cons x xs)
  then show ?case
    by (auto split: if_splits simp: less_Suc_eq_0_disj)
qed simp

lemma position_None: "position p xs = None \<longleftrightarrow> (\<forall>x \<in> set xs. \<not> p x)"
  by (induction xs) auto

lemma position_Some_iff:
  "position p xs = Some i \<longleftrightarrow> i < length xs \<and> p (xs ! i) \<and> (\<forall>j < i. \<not> p (xs ! j))"
proof
  assume R: "i < length xs \<and> p (xs ! i) \<and> (\<forall>j < i. \<not> p (xs ! j))"
  then obtain k where k: "position p xs = Some k"
    by (cases "position p xs") (auto simp: position_None)
  from position_Some [OF k] R have "k = i" by (metis linorder_neqE_nat)
  with k show "position p xs = Some i" by simp
qed (rule position_Some)

lemma set_list_update_subset: "set (xs[i := x]) \<subseteq> insert x (set xs)"
  by (rule set_update_subset_insert)

lemma distinct_map_nth_update:
  assumes "distinct xs" "x \<notin> set xs"
  shows "distinct (xs[i := x])"
  using assms by (simp add: distinct_list_update)

lemma card_remove_Suc: "finite A \<Longrightarrow> x \<in> A \<Longrightarrow> Suc (card (A - {x})) = card A"
  by (rule card.remove [symmetric])

lemma distinct_filter_nth:
  assumes "distinct (filter P xs)" "i < length xs" "j < length xs" "xs ! i = xs ! j" "P (xs ! i)"
  shows "i = j"
  using assms
proof (induction xs arbitrary: i j)
  case (Cons x xs)
  have tail: "distinct (filter P xs)" using Cons.prems(1) by (auto split: if_splits)
  show ?case
  proof (cases i; cases j)
    fix i' j' assume "i = Suc i'" "j = Suc j'"
    then show ?thesis using Cons.IH [OF tail, of i' j'] Cons.prems by simp
  next
    fix j' assume "i = 0" "j = Suc j'"
    then have "x \<in> set (filter P xs)" using Cons.prems by (auto simp: in_set_conv_nth)
    then show ?thesis using Cons.prems(1) by auto
  next
    fix i' assume "i = Suc i'" "j = 0"
    then have "x \<in> set (filter P xs)" using Cons.prems by (auto simp: in_set_conv_nth)
    then show ?thesis using Cons.prems(1) by auto
  qed simp
qed simp

lemma distinct_filter_update:
  assumes "distinct (filter P xs)" "y \<notin> set (filter P xs)"
  shows "distinct (filter P (xs[i := y]))"
  using assms
proof (induction xs arbitrary: i)
  case (Cons x xs)
  have sub: "set (xs[j := y]) \<subseteq> insert y (set xs)" for j by (rule set_update_subset_insert)
  show ?case
  proof (cases i)
    case 0
    then show ?thesis using Cons.prems by (auto split: if_splits)
  next
    case (Suc j)
    then show ?thesis using Cons.IH [of j] Cons.prems sub [of j] by (auto split: if_splits)
  qed
qed simp

lemma set_update_hole:
  assumes "i < length xs" "xs ! i = z"
  shows "set (xs[i := y]) - {z} = insert y (set xs) - {z}"
proof -
  have "x \<in> set (xs[i := y])" if x: "x \<in> set xs" "x \<noteq> z" for x
  proof -
    obtain j where j: "j < length xs" "xs ! j = x" using x(1) by (auto simp: in_set_conv_nth)
    then have "xs[i := y] ! j = x" using assms x(2) by (cases "j = i") auto
    then show ?thesis using j(1) by (metis length_list_update nth_mem)
  qed
  moreover have "y \<in> set (xs[i := y])" using assms(1) by (rule set_update_memI)
  ultimately show ?thesis using set_update_subset_insert [of xs i y] by auto
qed

section \<open>Little-endian integers in memory\<close>

fun le_bytes :: "nat \<Rightarrow> nat \<Rightarrow> u8 list" where
  "le_bytes 0 v = []"
| "le_bytes (Suc n) v = word_of_nat v # le_bytes n (v div 256)"

fun le_val :: "u8 list \<Rightarrow> nat" where
  "le_val [] = 0"
| "le_val (b # bs) = unat b + 256 * le_val bs"

lemma length_le_bytes [simp]: "length (le_bytes n v) = n"
  by (induction n arbitrary: v) auto

lemma le_val_bytes [simp]: "le_val (le_bytes n v) = v mod 256 ^ n"
  by (induction n arbitrary: v) (simp_all add: unat_of_nat mod_mult2_eq)

lemma le_val_less: "le_val bs < 256 ^ length bs"
proof (induction bs)
  case (Cons b bs)
  have "unat b < 256" using unsigned_less [of b] by simp
  then show ?case using Cons by simp
qed simp

end
