(* ===== verification/Frames.thy ===== *)
theory Frames
  imports Prelude
begin

text \<open>
  The physical frame allocator (\<open>kernel/src/frame_allocator.rs\<close>): a bitmap of 4 KiB
  frames over \<open>[HEAP_START, HEAP_START + HEAP_SIZE)\<close>, a saturating 16-bit reference
  count per frame, a next-fit hint and a free counter. The platform constants
  (\<open>arch/*/mod.rs\<close>) are a field of the state that no operation writes.

  The abstraction is \<open>frame_refs\<close>: the number of references each frame holds, 0 for a
  free one. Every operation is characterised by its effect on it; the locale
  \<open>frame_source\<close> is that contract, as the other components use it.
\<close>

section \<open>State\<close>

record platform =
  heap_start :: nat
  heap_size :: nat
  fb_pa :: nat
  fb_region_bytes :: nat

definition PAGE_SIZE :: nat where "PAGE_SIZE = 4096"

definition aarch64_platform :: platform where
  "aarch64_platform = \<lparr>heap_start = 0x41000000, heap_size = 0x140000000 - 0x41000000,
     fb_pa = 0x46000000, fb_region_bytes = 176 * 1024 * 1024\<rparr>"

definition riscv64_platform :: platform where
  "riscv64_platform = \<lparr>heap_start = 0x81200000, heap_size = 0x180000000 - 0x81200000,
     fb_pa = 0x86000000, fb_region_bytes = 176 * 1024 * 1024\<rparr>"

definition x86_64_platform :: platform where
  "x86_64_platform = \<lparr>heap_start = 0x54000000, heap_size = 0xC0000000 - 0x54000000,
     fb_pa = 0x46000000, fb_region_bytes = 176 * 1024 * 1024\<rparr>"

record frames =
  plat :: platform
  bitmap :: "u64 list"
  refcount :: "nat list"
  fhint :: nat
  nfree :: nat

definition num_frames :: "platform \<Rightarrow> nat" where
  "num_frames p = heap_size p div PAGE_SIZE"

definition num_words :: "platform \<Rightarrow> nat" where
  "num_words p = div_ceil (num_frames p) 64"

abbreviation NUM_FRAMES :: "frames \<Rightarrow> nat" where "NUM_FRAMES fa \<equiv> num_frames (plat fa)"
abbreviation WORDS :: "frames \<Rightarrow> nat" where "WORDS fa \<equiv> num_words (plat fa)"
abbreviation heap_end :: "platform \<Rightarrow> nat" where "heap_end p \<equiv> heap_start p + heap_size p"

section \<open>Operations\<close>

definition reserved :: "platform \<Rightarrow> nat \<Rightarrow> bool" where
  "reserved p addr \<longleftrightarrow>
     (fb_pa p \<le> addr \<and> addr < fb_pa p + fb_region_bytes p) \<or> addr < heap_start p"

definition is_free :: "frames \<Rightarrow> nat \<Rightarrow> bool" where
  "is_free fa idx \<longleftrightarrow> (bitmap fa ! (idx div 64)) AND bit1 (idx mod 64) = 0"

definition set_used :: "nat \<Rightarrow> frames \<Rightarrow> frames" where
  "set_used idx fa = fa
     \<lparr>bitmap := (bitmap fa)[idx div 64 := (bitmap fa ! (idx div 64)) OR bit1 (idx mod 64)],
      refcount := (refcount fa)[idx := 1],
      nfree := nfree fa - 1\<rparr>"

definition addr_of :: "platform \<Rightarrow> nat \<Rightarrow> nat" where
  "addr_of p idx = heap_start p + idx * PAGE_SIZE"

definition idx_of :: "platform \<Rightarrow> nat \<Rightarrow> nat" where
  "idx_of p addr = (addr - heap_start p) div PAGE_SIZE"

text \<open>\<open>init\<close>: pad the last bitmap word, then reserve the graphics region frame by frame.\<close>

definition frames_boot :: "platform \<Rightarrow> frames" where
  "frames_boot p = \<lparr>plat = p, bitmap = replicate (num_words p) 0,
     refcount = replicate (num_frames p) 0, fhint = 0, nfree = num_frames p\<rparr>"

definition pad_last_word :: "frames \<Rightarrow> frames" where
  "pad_last_word fa =
     (let extra = WORDS fa * 64 - NUM_FRAMES fa in
      if extra > 0
      then fa\<lparr>bitmap := (bitmap fa)[WORDS fa - 1 :=
                 (bitmap fa ! (WORDS fa - 1)) OR push_bit (64 - extra) (NOT 0)]\<rparr>
      else fa)"

function reserve_fb :: "nat \<Rightarrow> frames \<Rightarrow> frames" where
  "reserve_fb a fa =
     (if a < fb_pa (plat fa) + fb_region_bytes (plat fa) \<and> a < heap_end (plat fa)
      then reserve_fb (a + PAGE_SIZE) (set_used (idx_of (plat fa) a) fa)
      else fa)"
  by pat_completeness auto
termination
  by (relation "measure (\<lambda>(a, fa). heap_end (plat fa) - a)")
     (auto simp: set_used_def PAGE_SIZE_def)

declare reserve_fb.simps [simp del]

definition frames_init :: "frames \<Rightarrow> frames" where
  "frames_init fa =
     (let fa = pad_last_word fa; p = plat fa in
      if heap_start p \<le> fb_pa p \<and> fb_pa p < heap_end p then reserve_fb (fb_pa p) fa else fa)"

definition inc_ref :: "nat \<Rightarrow> frames \<Rightarrow> frames" where
  "inc_ref addr fa =
     (if addr < heap_start (plat fa) \<or> heap_end (plat fa) \<le> addr \<or> reserved (plat fa) addr then fa
      else let idx = idx_of (plat fa) addr in
           fa\<lparr>refcount := (refcount fa)[idx := min (refcount fa ! idx + 1) 65535]\<rparr>)"

definition ref_count :: "frames \<Rightarrow> nat \<Rightarrow> nat" where
  "ref_count fa addr =
     (if addr < heap_start (plat fa) \<or> heap_end (plat fa) \<le> addr \<or> reserved (plat fa) addr then 1
      else refcount fa ! idx_of (plat fa) addr)"

text \<open>The next-fit search of \<open>alloc_frame\<close>: the words in ring order from the hint's.\<close>

fun alloc_scan :: "frames \<Rightarrow> nat \<Rightarrow> nat list \<Rightarrow> nat option" where
  "alloc_scan fa start [] = None"
| "alloc_scan fa start (k # ks) =
     (let w = (start + k) mod WORDS fa; word = bitmap fa ! w in
      if word \<noteq> - 1 then Some (w * 64 + trailing_zeros (NOT word))
      else alloc_scan fa start ks)"

definition alloc_frame :: "frames \<Rightarrow> (nat \<times> frames) option" where
  "alloc_frame fa =
     (case alloc_scan fa (fhint fa div 64) [0..<WORDS fa] of
        None \<Rightarrow> None
      | Some idx \<Rightarrow> Some (addr_of (plat fa) idx, (set_used idx fa)\<lparr>fhint := idx\<rparr>))"

definition free_idx_locked :: "nat \<Rightarrow> frames \<Rightarrow> frames" where
  "free_idx_locked idx fa =
     (if is_free fa idx then fa
      else if refcount fa ! idx > 1
      then fa\<lparr>refcount := (refcount fa)[idx := refcount fa ! idx - 1]\<rparr>
      else fa
        \<lparr>refcount := (refcount fa)[idx := 0],
         bitmap := (bitmap fa)[idx div 64 := (bitmap fa ! (idx div 64)) AND NOT (bit1 (idx mod 64))],
         nfree := nfree fa + 1,
         fhint := (if idx < fhint fa then idx else fhint fa)\<rparr>)"

definition free_frame :: "nat \<Rightarrow> frames \<Rightarrow> frames" where
  "free_frame addr fa =
     (if addr < heap_start (plat fa) \<or> heap_end (plat fa) \<le> addr \<or> reserved (plat fa) addr then fa
      else free_idx_locked (idx_of (plat fa) addr) fa)"

definition free_count :: "frames \<Rightarrow> nat" where "free_count fa = nfree fa"

definition total_count :: "frames \<Rightarrow> nat" where "total_count fa = NUM_FRAMES fa"

text \<open>The run search of \<open>alloc_contig\<close>, with the whole-word skip.\<close>

function contig_scan :: "frames \<Rightarrow> nat \<Rightarrow> nat \<Rightarrow> nat \<Rightarrow> nat \<Rightarrow> nat option" where
  "contig_scan fa n idx run start =
     (if idx < NUM_FRAMES fa then
        if run = 0 \<and> idx mod 64 = 0 \<and> bitmap fa ! (idx div 64) = - 1
        then contig_scan fa n (idx + 64) run start
        else if is_free fa idx then
          let start = (if run = 0 then idx else start); run = run + 1 in
          if run = n then Some start else contig_scan fa n (idx + 1) run start
        else contig_scan fa n (idx + 1) 0 start
      else None)"
  by pat_completeness auto
termination
  by (relation "measure (\<lambda>(fa, n, idx, run, start). NUM_FRAMES fa - idx)") auto

declare contig_scan.simps [simp del]

definition alloc_contig :: "nat \<Rightarrow> frames \<Rightarrow> (nat \<times> frames) option" where
  "alloc_contig n fa =
     (if n = 0 then None
      else if n = 1 then alloc_frame fa
      else case contig_scan fa n 0 0 0 of
             None \<Rightarrow> None
           | Some start \<Rightarrow> Some (addr_of (plat fa) start, fold set_used [start..<start + n] fa))"

definition free_contig :: "nat \<Rightarrow> nat \<Rightarrow> frames \<Rightarrow> frames" where
  "free_contig addr n fa =
     (if addr < heap_start (plat fa) \<or> heap_end (plat fa) \<le> addr \<or> reserved (plat fa) addr \<or> n = 0
      then fa
      else let base = idx_of (plat fa) addr; end_idx = min (base + n) (NUM_FRAMES fa) in
           fold free_idx_locked [base..<end_idx] fa)"

section \<open>Invariant and abstraction\<close>

text \<open>Platform constants as the three architectures define them.\<close>

definition plat_ok :: "platform \<Rightarrow> bool" where
  "plat_ok p \<longleftrightarrow> 4096 dvd heap_start p \<and> 4096 dvd heap_size p \<and> 4096 dvd fb_pa p \<and>
     4096 dvd fb_region_bytes p \<and> 0 < heap_start p \<and> heap_end p \<le> 2 ^ 56 \<and>
     (heap_start p \<le> fb_pa p \<or> fb_pa p + fb_region_bytes p \<le> heap_start p)"

definition used :: "frames \<Rightarrow> nat \<Rightarrow> bool" where
  "used fa idx \<longleftrightarrow> bit (bitmap fa ! (idx div 64)) (idx mod 64)"

definition frames_wf :: "frames \<Rightarrow> bool" where
  "frames_wf fa \<longleftrightarrow> plat_ok (plat fa) \<and>
     length (bitmap fa) = WORDS fa \<and> length (refcount fa) = NUM_FRAMES fa \<and>
     (\<forall>i. NUM_FRAMES fa \<le> i \<and> i < WORDS fa * 64 \<longrightarrow> used fa i) \<and>
     (\<forall>i < NUM_FRAMES fa. used fa i \<longrightarrow> 1 \<le> refcount fa ! i) \<and>
     (\<forall>i < NUM_FRAMES fa. refcount fa ! i \<le> 65535) \<and>
     nfree fa = card {i. i < NUM_FRAMES fa \<and> \<not> used fa i}"

definition frames_inv :: "frames \<Rightarrow> bool" where
  "frames_inv fa \<longleftrightarrow> frames_wf fa \<and>
     (\<forall>i < NUM_FRAMES fa. reserved (plat fa) (addr_of (plat fa) i) \<longrightarrow> used fa i)"

definition frame_refs :: "frames \<Rightarrow> nat \<Rightarrow> nat" where
  "frame_refs fa i = (if i < NUM_FRAMES fa \<and> used fa i then refcount fa ! i else 0)"

text \<open>A frame of the heap that the allocator hands out: its address and its index.\<close>

definition heap_frame :: "platform \<Rightarrow> nat \<Rightarrow> bool" where
  "heap_frame p a \<longleftrightarrow> heap_start p \<le> a \<and> a < heap_end p \<and> \<not> reserved p a"

section \<open>Bits and indices\<close>

named_theorems frame_simps

lemma plat_simps [simp]:
  "plat (set_used i fa) = plat fa"
  "plat (free_idx_locked i fa) = plat fa"
  "plat (free_frame a fa) = plat fa"
  "plat (inc_ref a fa) = plat fa"
  "plat (pad_last_word fa) = plat fa"
  by (auto simp: set_used_def free_idx_locked_def free_frame_def inc_ref_def pad_last_word_def Let_def)

lemma plat_fold [simp]:
  "plat (fold set_used is fa) = plat fa"
  "plat (fold free_idx_locked is fa) = plat fa"
  by (induction "is" arbitrary: fa) auto

lemma word_index: "idx < num_frames p \<Longrightarrow> idx div 64 < num_words p"
  by (simp add: num_words_def div_ceil_less_iff)

lemma words_cover: "num_frames p \<le> num_words p * 64"
  by (simp add: num_words_def div_ceil_ge)

lemma same_word: "i div 64 = j div 64 \<Longrightarrow> i mod 64 = j mod (64 :: nat) \<longleftrightarrow> i = j"
  by (metis div_mod_decomp)

lemma is_free_iff: "is_free fa i \<longleftrightarrow> \<not> used fa i"
  by (simp add: is_free_def used_def and_bit1_eq_0)

lemma used_set_used:
  assumes "idx div 64 < length (bitmap fa)"
  shows "used (set_used idx fa) i \<longleftrightarrow> used fa i \<or> i = idx"
  using assms same_word [of i idx]
  by (auto simp: used_def set_used_def nth_list_update or_bit1)

lemma used_hint [simp]: "used (fa\<lparr>fhint := h\<rparr>) i = used fa i"
  by (simp add: used_def)

lemma used_refcount [simp]: "used (fa\<lparr>refcount := r\<rparr>) i = used fa i"
  by (simp add: used_def)

lemma used_clear:
  assumes "idx div 64 < length (bitmap fa)"
  shows "used (fa\<lparr>refcount := r,
            bitmap := (bitmap fa)[idx div 64 := (bitmap fa ! (idx div 64)) AND NOT (bit1 (idx mod 64))],
            nfree := n, fhint := h\<rparr>) i \<longleftrightarrow> used fa i \<and> i \<noteq> idx"
  using assms same_word [of i idx]
  by (auto simp: used_def nth_list_update clear_bit1)

lemma num_frames_addr:
  assumes "plat_ok p" "i < num_frames p"
  shows "heap_start p \<le> addr_of p i" "addr_of p i < heap_end p" "4096 dvd addr_of p i"
    "idx_of p (addr_of p i) = i"
proof -
  have "i * 4096 < heap_size p"
  proof -
    have "Suc i * 4096 \<le> heap_size p"
      using assms(2) unfolding num_frames_def PAGE_SIZE_def
      by (metis Suc_leI less_eq_div_iff_mult_less_eq zero_less_numeral)
    then show ?thesis by simp
  qed
  then show "heap_start p \<le> addr_of p i" "addr_of p i < heap_end p"
    by (auto simp: addr_of_def PAGE_SIZE_def)
  show "4096 dvd addr_of p i" "idx_of p (addr_of p i) = i"
    using assms(1) by (auto simp: addr_of_def idx_of_def plat_ok_def PAGE_SIZE_def)
qed

lemma idx_of_less:
  assumes "plat_ok p" "heap_start p \<le> a" "a < heap_end p"
  shows "idx_of p a < num_frames p" "addr_of p (idx_of p a) \<le> a"
    "a < addr_of p (idx_of p a) + 4096"
proof -
  obtain k where k: "heap_size p = 4096 * k" using assms(1) by (auto simp: plat_ok_def dvd_def)
  have "a - heap_start p < 4096 * k" using assms(2,3) k by linarith
  then show "idx_of p a < num_frames p"
    by (simp add: idx_of_def num_frames_def PAGE_SIZE_def k div_less_iff_less_mult mult.commute)
  have "(a - heap_start p) div 4096 * 4096 \<le> a - heap_start p"
    "a - heap_start p < (a - heap_start p) div 4096 * 4096 + 4096"
    using dividend_less_div_times [of 4096 "a - heap_start p"]
    by (auto simp: div_times_less_eq_dividend)
  with assms(2) show "addr_of p (idx_of p a) \<le> a" "a < addr_of p (idx_of p a) + 4096"
    by (auto simp: addr_of_def idx_of_def PAGE_SIZE_def)
qed

text \<open>The pages of the graphics region are whole frames, so \<open>reserved\<close> is a property of the frame.\<close>

lemma reserved_page:
  assumes "plat_ok p" "heap_start p \<le> a" "a < heap_end p"
  shows "reserved p a \<longleftrightarrow> reserved p (addr_of p (idx_of p a))"
proof -
  let ?b = "addr_of p (idx_of p a)"
  have b: "?b \<le> a" "a < ?b + 4096" "heap_start p \<le> ?b" "4096 dvd ?b"
    using idx_of_less [OF assms] num_frames_addr [OF assms(1) idx_of_less(1) [OF assms]] by auto
  have page: "f \<le> a \<longleftrightarrow> f \<le> ?b" if "4096 dvd f" for f
  proof
    assume "f \<le> a"
    then have "f div 4096 \<le> a div 4096" by (rule div_le_mono)
    also have "a div 4096 = ?b div 4096"
      using b by (intro div_nat_eqI) (auto simp: dvd_def)
    finally show "f \<le> ?b"
      using that b(4) by (metis dvd_div_mult_self mult_le_mono1)
  qed (use b in simp)
  have f: "4096 dvd fb_pa p" "4096 dvd fb_pa p + fb_region_bytes p"
    using assms(1) by (auto simp: plat_ok_def)
  show ?thesis
    using page [OF f(1)] page [OF f(2)] b(3) assms(2)
    unfolding reserved_def by (metis leD leI)
qed

section \<open>Each operation on the abstraction\<close>

lemma frames_wfD:
  assumes "frames_wf fa"
  shows "plat_ok (plat fa)" "length (bitmap fa) = WORDS fa" "length (refcount fa) = NUM_FRAMES fa"
    "\<And>i. NUM_FRAMES fa \<le> i \<Longrightarrow> i < WORDS fa * 64 \<Longrightarrow> used fa i"
    "\<And>i. i < NUM_FRAMES fa \<Longrightarrow> used fa i \<Longrightarrow> 1 \<le> refcount fa ! i"
    "\<And>i. i < NUM_FRAMES fa \<Longrightarrow> refcount fa ! i \<le> 65535"
    "nfree fa = card {i. i < NUM_FRAMES fa \<and> \<not> used fa i}"
  using assms by (auto simp: frames_wf_def)

lemma frames_invD:
  assumes "frames_inv fa"
  shows "frames_wf fa"
    "\<And>i. i < NUM_FRAMES fa \<Longrightarrow> reserved (plat fa) (addr_of (plat fa) i) \<Longrightarrow> used fa i"
  using assms by (auto simp: frames_inv_def)

lemma nfree_card_remove:
  assumes "i < (n :: nat)" "\<not> P i"
  shows "card {j. j < n \<and> \<not> (P j \<or> j = i)} = card {j. j < n \<and> \<not> P j} - (1 :: nat)"
proof -
  have "{j. j < n \<and> \<not> (P j \<or> j = i)} = {j. j < n \<and> \<not> P j} - {i}" by auto
  then show ?thesis using assms by (simp add: card_Diff_singleton)
qed

lemma nfree_card_insert:
  assumes "i < (n :: nat)" "P i"
  shows "card {j. j < n \<and> \<not> (P j \<and> j \<noteq> i)} = Suc (card {j. j < n \<and> \<not> P j})"
proof -
  have "{j. j < n \<and> \<not> (P j \<and> j \<noteq> i)} = insert i {j. j < n \<and> \<not> P j}" using assms by auto
  then show ?thesis using assms(2) by simp
qed

lemma set_used_wf:
  assumes wf: "frames_wf fa" and i: "i < NUM_FRAMES fa" "\<not> used fa i"
  shows "frames_wf (set_used i fa)"
    and "used (set_used i fa) j \<longleftrightarrow> used fa j \<or> j = i"
    and "frame_refs (set_used i fa) = (frame_refs fa)(i := 1)"
proof -
  note w = frames_wfD [OF wf]
  have len: "i div 64 < length (bitmap fa)" using i w(2) by (simp add: word_index)
  note u = used_set_used [OF len]
  show "used (set_used i fa) j \<longleftrightarrow> used fa j \<or> j = i" by (rule u)
  have r: "refcount (set_used i fa) ! j = (if j = i then 1 else refcount fa ! j)"
    if "j < NUM_FRAMES fa" for j
    using that w(3) i by (simp add: set_used_def nth_list_update)
  have "nfree (set_used i fa) = card {j. j < NUM_FRAMES fa \<and> \<not> used (set_used i fa) j}"
    unfolding u using nfree_card_remove [of i "NUM_FRAMES fa" "used fa"] i w(7)
    by (simp add: set_used_def)
  moreover have "length (bitmap (set_used i fa)) = WORDS fa"
    "length (refcount (set_used i fa)) = NUM_FRAMES fa"
    using w(2,3) by (auto simp: set_used_def)
  ultimately show "frames_wf (set_used i fa)"
    using w r by (auto simp: frames_wf_def u)
  show "frame_refs (set_used i fa) = (frame_refs fa)(i := 1)"
    using i r by (auto simp: frame_refs_def u fun_eq_iff)
qed

lemma hint_irrelevant [simp]:
  "frames_wf (fa\<lparr>fhint := h\<rparr>) = frames_wf fa"
  "frames_inv (fa\<lparr>fhint := h\<rparr>) = frames_inv fa"
  "frame_refs (fa\<lparr>fhint := h\<rparr>) = frame_refs fa"
  by (auto simp: frames_wf_def frames_inv_def frame_refs_def fun_eq_iff)

lemma set_used_inv:
  assumes "frames_inv fa" "i < NUM_FRAMES fa" "\<not> used fa i"
  shows "frames_inv (set_used i fa)"
  using set_used_wf [OF frames_invD(1) [OF assms(1)] assms(2,3)] frames_invD(2) [OF assms(1)]
  by (auto simp: frames_inv_def)

lemma fold_set_used:
  assumes "frames_inv fa" "\<forall>i \<in> set is. i < NUM_FRAMES fa \<and> \<not> used fa i" "distinct is"
  shows "frames_inv (fold set_used is fa)"
    and "frame_refs (fold set_used is fa) j = (if j \<in> set is then 1 else frame_refs fa j)"
    and "nfree (fold set_used is fa) = nfree fa - length is"
proof -
  have "frames_inv (fold set_used is fa) \<and>
    (\<forall>j. frame_refs (fold set_used is fa) j = (if j \<in> set is then 1 else frame_refs fa j)) \<and>
    nfree (fold set_used is fa) = nfree fa - length is"
    using assms
  proof (induction "is" arbitrary: fa)
    case (Cons i "is")
    let ?fa = "set_used i fa"
    have i: "i < NUM_FRAMES fa" "\<not> used fa i" using Cons.prems by auto
    note s = set_used_wf [OF frames_invD(1) [OF Cons.prems(1)] i]
    have "frames_inv ?fa" using Cons.prems(1) i by (rule set_used_inv)
    moreover have "\<forall>j \<in> set is. j < NUM_FRAMES ?fa \<and> \<not> used ?fa j"
      using Cons.prems by (auto simp: s(2))
    moreover have "nfree ?fa = nfree fa - 1" by (simp add: set_used_def)
    ultimately show ?case using Cons.IH [of ?fa] Cons.prems(3) by (auto simp: s(3))
  qed simp
  then show "frames_inv (fold set_used is fa)"
    "frame_refs (fold set_used is fa) j = (if j \<in> set is then 1 else frame_refs fa j)"
    "nfree (fold set_used is fa) = nfree fa - length is" by auto
qed

subsection \<open>Single-frame allocation\<close>

lemma alloc_scan_Some:
  assumes "frames_wf fa" "alloc_scan fa start ks = Some idx" "0 < WORDS fa"
  shows "idx < NUM_FRAMES fa \<and> \<not> used fa idx"
  using assms(2)
proof (induction ks)
  case (Cons k ks)
  let ?w = "(start + k) mod WORDS fa"
  show ?case
  proof (cases "bitmap fa ! ?w = - 1")
    case True
    with Cons show ?thesis by (simp add: Let_def)
  next
    case False
    then have n0: "NOT (bitmap fa ! ?w) \<noteq> 0" by (metis bit.double_compl bit.compl_zero)
    let ?b = "trailing_zeros (NOT (bitmap fa ! ?w))"
    have b: "?b < 64" "\<not> bit (bitmap fa ! ?w) ?b"
      using trailing_zeros_less [OF n0] bit_trailing_zeros [OF n0]
      by (auto simp: bit_not_iff)
    have idx: "idx = ?w * 64 + ?b" using Cons.prems False by (simp add: Let_def)
    have "idx div 64 = ?w" "idx mod 64 = ?b" using idx b(1) by auto
    then have "\<not> used fa idx" using b(2) by (simp add: used_def)
    moreover have "idx < WORDS fa * 64"
    proof -
      have "?w < WORDS fa" using assms(3) by simp
      then have "Suc ?w * 64 \<le> WORDS fa * 64" by (intro mult_le_mono1) simp
      then show ?thesis using idx b(1) by simp
    qed
    ultimately show ?thesis using frames_wfD(4) [OF assms(1)] by (meson leI)
  qed
qed simp

lemma alloc_scan_None:
  assumes "alloc_scan fa start ks = None"
  shows "\<forall>k \<in> set ks. bitmap fa ! ((start + k) mod WORDS fa) = - 1"
  using assms by (induction ks) (auto simp: Let_def split: if_splits)

lemma ring_index:
  assumes "w < (n :: nat)"
  shows "\<exists>k < n. (start + k) mod n = w"
proof -
  have n: "0 < n" using assms by simp
  let ?k = "(w + (n - start mod n)) mod n"
  have "(start + ?k) mod n = (start mod n + (w + (n - start mod n))) mod n"
    by (simp add: mod_simps)
  also have "start mod n + (w + (n - start mod n)) = w + n"
    using mod_less_divisor [OF n, of start] by linarith
  finally show ?thesis using assms n by (intro exI [of _ ?k]) simp
qed

lemma alloc_frame_None_iff:
  assumes "frames_wf fa"
  shows "alloc_frame fa = None \<longleftrightarrow> (\<forall>i < NUM_FRAMES fa. used fa i)"
proof
  assume "alloc_frame fa = None"
  then have none: "alloc_scan fa (fhint fa div 64) [0..<WORDS fa] = None"
    by (auto simp: alloc_frame_def split: option.splits)
  show "\<forall>i < NUM_FRAMES fa. used fa i"
  proof (intro allI impI)
    fix i assume "i < NUM_FRAMES fa"
    then have "i div 64 < WORDS fa" by (rule word_index)
    with ring_index obtain k where "k < WORDS fa" "(fhint fa div 64 + k) mod WORDS fa = i div 64"
      by blast
    with alloc_scan_None [OF none] have "bitmap fa ! (i div 64) = - 1"
      by (metis atLeastLessThan_iff set_upt zero_le)
    then show "used fa i" by (simp add: used_def)
  qed
next
  assume all: "\<forall>i < NUM_FRAMES fa. used fa i"
  show "alloc_frame fa = None"
  proof (cases "0 < WORDS fa")
    case True
    have "alloc_scan fa s ks \<noteq> Some i" for s ks i
      using alloc_scan_Some [OF assms _ True] all by blast
    then show ?thesis by (auto simp: alloc_frame_def split: option.splits)
  qed (simp add: alloc_frame_def)
qed

lemma alloc_frame_Some:
  assumes inv: "frames_inv fa" and al: "alloc_frame fa = Some (a, fa')"
  obtains i where "a = addr_of (plat fa) i" "i < NUM_FRAMES fa" "\<not> used fa i"
    "frames_inv fa'" "frame_refs fa' = (frame_refs fa)(i := 1)" "plat fa' = plat fa"
    "heap_frame (plat fa) a" "4096 dvd a" "nfree fa' = nfree fa - 1"
proof -
  note wf = frames_invD(1) [OF inv]
  from al obtain i where sc: "alloc_scan fa (fhint fa div 64) [0..<WORDS fa] = Some i"
    and a: "a = addr_of (plat fa) i" and fa': "fa' = (set_used i fa)\<lparr>fhint := i\<rparr>"
    by (auto simp: alloc_frame_def split: option.splits)
  have "0 < WORDS fa" using sc by (cases "WORDS fa") auto
  with alloc_scan_Some [OF wf sc] have i: "i < NUM_FRAMES fa" "\<not> used fa i" by auto
  have "\<not> reserved (plat fa) a" using frames_invD(2) [OF inv i(1)] i(2) a by auto
  then have "heap_frame (plat fa) a"
    using num_frames_addr [OF frames_wfD(1) [OF wf] i(1)] a by (auto simp: heap_frame_def)
  moreover have "nfree fa' = nfree fa - 1" by (simp add: fa' set_used_def)
  ultimately show thesis
    using that [OF a i] set_used_inv [OF inv i] set_used_wf(3) [OF wf i]
      num_frames_addr(3) [OF frames_wfD(1) [OF wf] i(1)] by (simp add: fa' a)
qed

subsection \<open>Releasing and sharing a frame\<close>

lemma free_idx_locked_wf:
  assumes wf: "frames_wf fa" and i: "i < NUM_FRAMES fa"
  shows "frames_wf (free_idx_locked i fa)"
    and "frame_refs (free_idx_locked i fa) = (frame_refs fa)(i := frame_refs fa i - 1)"
    and "used (free_idx_locked i fa) j \<longleftrightarrow> used fa j \<and> (j = i \<longrightarrow> 1 < refcount fa ! i)"
proof -
  note w = frames_wfD [OF wf]
  have len: "i div 64 < length (bitmap fa)" using i w(2) by (simp add: word_index)
  consider (free) "\<not> used fa i" | (shared) "used fa i" "1 < refcount fa ! i"
    | (last) "used fa i" "refcount fa ! i = 1"
    using w(5) [OF i] by fastforce
  then have "frames_wf (free_idx_locked i fa) \<and>
    frame_refs (free_idx_locked i fa) = (frame_refs fa)(i := frame_refs fa i - 1) \<and>
    (used (free_idx_locked i fa) j \<longleftrightarrow> used fa j \<and> (j = i \<longrightarrow> 1 < refcount fa ! i))"
  proof cases
    case free
    then show ?thesis using wf by (auto simp: free_idx_locked_def is_free_iff frame_refs_def fun_eq_iff)
  next
    case shared
    let ?fa = "fa\<lparr>refcount := (refcount fa)[i := refcount fa ! i - 1]\<rparr>"
    have eq: "free_idx_locked i fa = ?fa" using shared by (simp add: free_idx_locked_def is_free_iff)
    have "refcount ?fa ! k = (if k = i then refcount fa ! i - 1 else refcount fa ! k)"
      if "k < NUM_FRAMES fa" for k using that w(3) by (simp add: nth_list_update)
    then show ?thesis unfolding eq using w shared i le_trans [OF diff_le_self w(6) [OF i]]
      by (auto simp: frames_wf_def frame_refs_def fun_eq_iff)
  next
    case last
    have eq: "free_idx_locked i fa = fa
        \<lparr>refcount := (refcount fa)[i := 0],
         bitmap := (bitmap fa)[i div 64 := (bitmap fa ! (i div 64)) AND NOT (bit1 (i mod 64))],
         nfree := nfree fa + 1, fhint := (if i < fhint fa then i else fhint fa)\<rparr>" (is "_ = ?fa")
      using last by (simp add: free_idx_locked_def is_free_iff)
    have u: "used ?fa k \<longleftrightarrow> used fa k \<and> k \<noteq> i" for k by (rule used_clear [OF len])
    have r: "refcount ?fa ! k = (if k = i then 0 else refcount fa ! k)" if "k < NUM_FRAMES fa" for k
      using that w(3) by (simp add: nth_list_update)
    have "nfree ?fa = card {k. k < NUM_FRAMES fa \<and> \<not> used ?fa k}"
      unfolding u using nfree_card_insert [of i "NUM_FRAMES fa" "used fa"] i last w(7) by simp
    moreover have "length (bitmap ?fa) = WORDS fa" "length (refcount ?fa) = NUM_FRAMES fa"
      "plat ?fa = plat fa" using w(2,3) by auto
    ultimately have "frames_wf ?fa"
      unfolding frames_wf_def using w(1,4-6) r u i by auto
    then show ?thesis unfolding eq using w(3) r u i last
      by (auto simp: frame_refs_def fun_eq_iff)
  qed
  then show "frames_wf (free_idx_locked i fa)"
    "frame_refs (free_idx_locked i fa) = (frame_refs fa)(i := frame_refs fa i - 1)"
    "used (free_idx_locked i fa) j \<longleftrightarrow> used fa j \<and> (j = i \<longrightarrow> 1 < refcount fa ! i)" by auto
qed

lemma free_idx_locked_inv:
  assumes inv: "frames_inv fa" and i: "i < NUM_FRAMES fa"
    and nr: "\<not> reserved (plat fa) (addr_of (plat fa) i)"
  shows "frames_inv (free_idx_locked i fa)"
  using free_idx_locked_wf [OF frames_invD(1) [OF inv] i] frames_invD(2) [OF inv] nr
  by (auto simp: frames_inv_def)

lemma heap_frame_idx:
  assumes "plat_ok p" "heap_frame p a"
  shows "idx_of p a < num_frames p" "\<not> reserved p (addr_of p (idx_of p a))"
    "\<not> (a < heap_start p \<or> heap_end p \<le> a \<or> reserved p a)"
  using assms idx_of_less [OF assms(1)] reserved_page [OF assms(1)]
  by (auto simp: heap_frame_def)

text \<open>Outside the window (MMIO, graphics region, kernel image) the operations do nothing.\<close>

lemma not_heap_frame_ops:
  assumes "\<not> heap_frame (plat fa) a"
  shows "free_frame a fa = fa" "inc_ref a fa = fa" "ref_count fa a = 1"
  using assms by (auto simp: free_frame_def inc_ref_def ref_count_def heap_frame_def)

lemma free_frame_inv:
  assumes "frames_inv fa"
  shows "frames_inv (free_frame a fa)"
proof (cases "heap_frame (plat fa) a")
  case True
  then show ?thesis
    using heap_frame_idx [OF frames_wfD(1) [OF frames_invD(1) [OF assms]] True] assms
    by (auto simp: free_frame_def intro: free_idx_locked_inv)
qed (use assms in \<open>simp add: not_heap_frame_ops\<close>)

lemma free_frame_refs:
  assumes "frames_inv fa" "heap_frame (plat fa) a"
  shows "frame_refs (free_frame a fa) =
    (frame_refs fa)(idx_of (plat fa) a := frame_refs fa (idx_of (plat fa) a) - 1)"
  using heap_frame_idx [OF frames_wfD(1) [OF frames_invD(1) [OF assms(1)]] assms(2)]
    free_idx_locked_wf(2) [OF frames_invD(1) [OF assms(1)]]
  by (simp add: free_frame_def)

lemma inc_ref_inv:
  assumes "frames_inv fa"
  shows "frames_inv (inc_ref a fa)"
proof (cases "heap_frame (plat fa) a")
  case True
  let ?i = "idx_of (plat fa) a"
  let ?fa = "fa\<lparr>refcount := (refcount fa)[?i := min (refcount fa ! ?i + 1) 65535]\<rparr>"
  note wf = frames_invD(1) [OF assms]
  note w = frames_wfD [OF wf]
  note h = heap_frame_idx [OF w(1) True]
  have eq: "inc_ref a fa = ?fa" using h(3) by (simp add: inc_ref_def Let_def)
  have "refcount ?fa ! k = (if k = ?i then min (refcount fa ! ?i + 1) 65535 else refcount fa ! k)"
    if "k < NUM_FRAMES fa" for k using that w(3) by (simp add: nth_list_update)
  then have "frames_wf ?fa" using w by (auto simp: frames_wf_def)
  then show ?thesis unfolding eq using frames_invD(2) [OF assms] by (simp add: frames_inv_def)
qed (use assms in \<open>simp add: not_heap_frame_ops\<close>)

lemma inc_ref_refs:
  assumes inv: "frames_inv fa" and a: "heap_frame (plat fa) a"
    and u: "0 < frame_refs fa (idx_of (plat fa) a)"
  shows "frame_refs (inc_ref a fa) =
    (frame_refs fa)(idx_of (plat fa) a := min (frame_refs fa (idx_of (plat fa) a) + 1) 65535)"
proof -
  note w = frames_wfD [OF frames_invD(1) [OF inv]]
  note h = heap_frame_idx [OF w(1) a]
  show ?thesis using h u w(3)
    by (auto simp: inc_ref_def Let_def frame_refs_def fun_eq_iff nth_list_update split: if_splits)
qed

lemma ref_count_refs:
  assumes "frames_inv fa" "heap_frame (plat fa) a" "0 < frame_refs fa (idx_of (plat fa) a)"
  shows "ref_count fa a = frame_refs fa (idx_of (plat fa) a)"
  using assms heap_frame_idx [OF frames_wfD(1) [OF frames_invD(1) [OF assms(1)]] assms(2)]
  by (auto simp: ref_count_def frame_refs_def split: if_splits)

subsection \<open>Contiguous allocation\<close>

text \<open>A reference search: the first index from \<open>s\<close> on where \<open>n\<close> free frames start.\<close>

definition free_run :: "frames \<Rightarrow> nat \<Rightarrow> nat \<Rightarrow> bool" where
  "free_run fa n s \<longleftrightarrow> s + n \<le> NUM_FRAMES fa \<and> (\<forall>i. s \<le> i \<and> i < s + n \<longrightarrow> \<not> used fa i)"

text \<open>
  The scan's invariant: the \<open>run\<close> frames below \<open>idx\<close> (from \<open>start\<close>, where there is a run)
  are free, and no run of \<open>n\<close> free frames starts before them.
\<close>

definition scan_inv :: "frames \<Rightarrow> nat \<Rightarrow> nat \<Rightarrow> nat \<Rightarrow> nat \<Rightarrow> bool" where
  "scan_inv fa n idx run start \<longleftrightarrow> run < n \<and> run \<le> idx \<and> (0 < run \<longrightarrow> start = idx - run) \<and>
     (\<forall>i. idx - run \<le> i \<and> i < idx \<longrightarrow> \<not> used fa i) \<and>
     (\<forall>s < idx - run. \<not> free_run fa n s)"

lemma no_run_over_used:
  assumes "\<forall>s < b. \<not> free_run fa n s" "used fa i" "b \<le> Suc i" "i < b + n"
  shows "\<forall>s < Suc i. \<not> free_run fa n s"
proof (intro allI impI)
  fix s assume "s < Suc i"
  show "\<not> free_run fa n s"
  proof (cases "s < b")
    case False
    then have "s \<le> i" "i < s + n" using \<open>s < Suc i\<close> assms(4) by auto
    then show ?thesis using assms(2) by (auto simp: free_run_def)
  qed (use assms(1) in blast)
qed

lemma contig_scan_first:
  assumes "length (bitmap fa) = WORDS fa" "scan_inv fa n idx run start"
  shows "(case contig_scan fa n idx run start of
      None \<Rightarrow> \<forall>s. \<not> free_run fa n s
    | Some s \<Rightarrow> free_run fa n s \<and> (\<forall>t < s. \<not> free_run fa n t))"
  using assms
proof (induction fa n idx run start rule: contig_scan.induct)
  case (1 fa n idx run start)
  note inv = 1(5)[unfolded scan_inv_def]
  show ?case
  proof (cases "idx < NUM_FRAMES fa")
    case False
    have "\<not> free_run fa n s" for s
      using inv False by (cases "s < idx - run") (auto simp: free_run_def)
    with False show ?thesis by (subst contig_scan.simps) simp
  next
    case lt: True
    show ?thesis
    proof (cases "run = 0 \<and> idx mod 64 = 0 \<and> bitmap fa ! (idx div 64) = - 1")
      case skip: True
      have "used fa i" if "idx \<le> i" "i < idx + 64" for i
      proof -
        have "i div 64 = idx div 64" using skip that by (auto intro!: div_nat_eqI)
        then show ?thesis using skip by (simp add: used_def)
      qed
      then have "\<not> free_run fa n s" if "s < idx + 64" for s
        using that inv skip by (cases "s < idx") (force simp: free_run_def)+
      then have "scan_inv fa n (idx + 64) run start"
        using skip inv by (auto simp: scan_inv_def)
      with "1.IH"(1) [OF lt skip 1(4)] lt skip show ?thesis by (subst contig_scan.simps) simp
    next
      case noskip: False
      show ?thesis
      proof (cases "is_free fa idx")
        case free: True
        let ?s = "if run = 0 then idx else start"
        have s: "?s = idx - run" using inv by simp
        show ?thesis
        proof (cases "run + 1 = n")
          case True
          have "free_run fa n (idx - run)"
            unfolding free_run_def
          proof (intro conjI allI impI)
            show "idx - run + n \<le> NUM_FRAMES fa" using True inv lt by linarith
            fix i assume "idx - run \<le> i \<and> i < idx - run + n"
            then show "\<not> used fa i" using True inv free is_free_iff [of fa idx]
              by (cases "i = idx") auto
          qed
          then show ?thesis using lt noskip free True s inv
            by (subst contig_scan.simps) (auto simp: Let_def)
        next
          case False
          have "\<not> used fa i" if "idx - run \<le> i" "i < Suc idx" for i
            using that inv free is_free_iff [of fa idx] by (cases "i = idx") auto
          then have "scan_inv fa n (idx + 1) (run + 1) ?s"
            using inv False s by (auto simp: scan_inv_def)
          with "1.IH"(2) [OF lt noskip free refl refl False 1(4)] lt noskip free False
          show ?thesis by (subst contig_scan.simps) (auto simp: Let_def)
        qed
      next
        case used: False
        have "\<forall>s < Suc idx. \<not> free_run fa n s"
          using inv used by (intro no_run_over_used [of "idx - run"]) (auto simp: is_free_iff)
        then have "scan_inv fa n (idx + 1) 0 start" using inv by (auto simp: scan_inv_def)
        with "1.IH"(3) [OF lt noskip used 1(4)] lt noskip used
        show ?thesis by (subst contig_scan.simps) auto
      qed
    qed
  qed
qed

lemma contig_scan_run:
  assumes "frames_wf fa" "0 < n"
  shows contig_scan_Some: "contig_scan fa n 0 0 0 = Some s \<Longrightarrow>
      free_run fa n s \<and> (\<forall>t < s. \<not> free_run fa n t)"
    and contig_scan_None: "contig_scan fa n 0 0 0 = None \<Longrightarrow> \<not> free_run fa n s"
  using contig_scan_first [of fa n 0 0 0] frames_wfD(2) [OF assms(1)] assms(2)
  by (auto simp: scan_inv_def)

lemma free_run_1: "free_run fa 1 i \<longleftrightarrow> i < NUM_FRAMES fa \<and> \<not> used fa i"
  by (auto simp: free_run_def less_Suc_eq_le le_antisym)

lemma alloc_contig_None_iff:
  assumes "frames_wf fa" "0 < n"
  shows "alloc_contig n fa = None \<longleftrightarrow> (\<forall>s. \<not> free_run fa n s)"
proof (cases "n = 1")
  case True
  then show ?thesis using alloc_frame_None_iff [OF assms(1)] free_run_1 [of fa]
    by (auto simp: alloc_contig_def)
next
  case False
  then show ?thesis using contig_scan_run [OF assms] assms(2)
    by (auto simp: alloc_contig_def split: option.splits)
qed

lemma alloc_contig_Some:
  assumes inv: "frames_inv fa" and al: "alloc_contig n fa = Some (a, fa')"
  obtains s where "a = addr_of (plat fa) s" "free_run fa n s" "0 < n"
    "frames_inv fa'" "frame_refs fa' = (\<lambda>i. if s \<le> i \<and> i < s + n then 1 else frame_refs fa i)"
    "plat fa' = plat fa" "heap_frame (plat fa) a" "nfree fa' = nfree fa - n"
proof (cases "n = 1")
  case True
  with al have "alloc_frame fa = Some (a, fa')" by (simp add: alloc_contig_def)
  with inv obtain i where i: "a = addr_of (plat fa) i" "i < NUM_FRAMES fa" "\<not> used fa i"
    "frames_inv fa'" "frame_refs fa' = (frame_refs fa)(i := 1)" "plat fa' = plat fa"
    "heap_frame (plat fa) a" "nfree fa' = nfree fa - 1"
    by (rule alloc_frame_Some)
  have "free_run fa n i" using True i free_run_1 [of fa i] by simp
  moreover have "frame_refs fa' = (\<lambda>j. if i \<le> j \<and> j < i + n then 1 else frame_refs fa j)"
    using True i(5) by (auto simp: fun_eq_iff)
  ultimately show thesis using that i True by simp
next
  case False
  note wf = frames_invD(1) [OF inv]
  from al False obtain s where n: "0 < n" and sc: "contig_scan fa n 0 0 0 = Some s"
    and a: "a = addr_of (plat fa) s" and fa': "fa' = fold set_used [s..<s + n] fa"
    by (auto simp: alloc_contig_def split: if_splits option.splits)
  have run: "free_run fa n s" using contig_scan_Some [OF wf n sc] by simp
  then have s: "s < NUM_FRAMES fa" "\<not> used fa s" using n by (auto simp: free_run_def)
  have all: "\<forall>i \<in> set [s..<s + n]. i < NUM_FRAMES fa \<and> \<not> used fa i"
    using run by (auto simp: free_run_def)
  note f = fold_set_used [OF inv all distinct_upt]
  have "heap_frame (plat fa) a"
    using num_frames_addr [OF frames_wfD(1) [OF wf] s(1)] frames_invD(2) [OF inv s(1)] s(2)
    by (auto simp: heap_frame_def a)
  then show thesis using that [OF a run n] f by (simp add: fa' fun_eq_iff)
qed

lemma fold_free_refs:
  assumes "frames_inv fa" "distinct is"
    "\<forall>i \<in> set is. i < NUM_FRAMES fa \<and> \<not> reserved (plat fa) (addr_of (plat fa) i)"
  shows "frames_inv (fold free_idx_locked is fa) \<and>
    frame_refs (fold free_idx_locked is fa) =
      (\<lambda>i. if i \<in> set is then frame_refs fa i - 1 else frame_refs fa i)"
  using assms
proof (induction "is" arbitrary: fa)
  case (Cons i "is")
  let ?fa = "free_idx_locked i fa"
  have "frames_inv ?fa" using Cons.prems by (intro free_idx_locked_inv) auto
  moreover have "frame_refs ?fa = (frame_refs fa)(i := frame_refs fa i - 1)"
    using Cons.prems frames_invD(1) by (intro free_idx_locked_wf(2)) auto
  ultimately show ?case using Cons.IH [of ?fa] Cons.prems(2,3) by (auto simp: fun_eq_iff)
qed auto

text \<open>
  Freeing the block of an \<open>alloc_contig\<close>: every frame of it is in the heap and outside the
  graphics region, because the allocator never hands out a reserved frame.
\<close>

lemma used_not_reserved_block:
  assumes "free_run fa n s" "frames_inv fa" "s \<le> i" "i < s + n"
  shows "i < NUM_FRAMES fa" "\<not> reserved (plat fa) (addr_of (plat fa) i)"
  using assms frames_invD(2) [OF assms(2)] by (auto simp: free_run_def)

definition unreserved_block :: "platform \<Rightarrow> nat \<Rightarrow> nat \<Rightarrow> bool" where
  "unreserved_block p s n \<longleftrightarrow> s + n \<le> num_frames p \<and>
     (\<forall>i. s \<le> i \<and> i < s + n \<longrightarrow> \<not> reserved p (addr_of p i))"

lemma free_contig_refs:
  assumes inv: "frames_inv fa" and b: "unreserved_block (plat fa) s n" and n: "0 < n"
  shows "frames_inv (free_contig (addr_of (plat fa) s) n fa)"
    and "frame_refs (free_contig (addr_of (plat fa) s) n fa) =
      (\<lambda>i. if s \<le> i \<and> i < s + n then frame_refs fa i - 1 else frame_refs fa i)"
    and "plat (free_contig (addr_of (plat fa) s) n fa) = plat fa"
proof -
  note p = frames_wfD(1) [OF frames_invD(1) [OF inv]]
  have s: "s < NUM_FRAMES fa" "\<not> reserved (plat fa) (addr_of (plat fa) s)"
    using b n by (auto simp: unreserved_block_def)
  have eq: "free_contig (addr_of (plat fa) s) n fa = fold free_idx_locked [s..<s + n] fa"
    using num_frames_addr [OF p s(1)] s b n by (auto simp: free_contig_def unreserved_block_def Let_def min_def)
  have "\<forall>i \<in> set [s..<s + n]. i < NUM_FRAMES fa \<and> \<not> reserved (plat fa) (addr_of (plat fa) i)"
    using b by (auto simp: unreserved_block_def)
  from fold_free_refs [OF inv distinct_upt this]
  show "frames_inv (free_contig (addr_of (plat fa) s) n fa)"
    "frame_refs (free_contig (addr_of (plat fa) s) n fa) =
      (\<lambda>i. if s \<le> i \<and> i < s + n then frame_refs fa i - 1 else frame_refs fa i)"
    "plat (free_contig (addr_of (plat fa) s) n fa) = plat fa"
    unfolding eq by auto
qed

section \<open>Boot\<close>

lemma boot_simps [simp]:
  "plat (frames_boot p) = p" "length (bitmap (frames_boot p)) = num_words p"
  "length (refcount (frames_boot p)) = num_frames p"
  by (auto simp: frames_boot_def)

lemma used_boot: "i < num_words p * 64 \<Longrightarrow> \<not> used (frames_boot p) i"
  by (auto simp: used_def frames_boot_def div_less_iff_less_mult)

lemma used_pad_boot:
  assumes "i < num_words p * 64"
  shows "used (pad_last_word (frames_boot p)) i \<longleftrightarrow> num_frames p \<le> i"
proof -
  let ?extra = "num_words p * 64 - num_frames p"
  have W: "num_frames p \<le> num_words p * 64" "0 < num_words p"
    using words_cover assms by (auto intro: gr0I)
  have lt: "(num_words p - 1) * 64 < num_frames p" if "0 < num_frames p"
    using div_ceil_less_iff [of 64 "num_words p - 1" "num_frames p"] W
    by (simp add: num_words_def [symmetric])
  have pos: "0 < num_frames p"
    using W(2) by (cases "num_frames p") (auto simp: num_words_def div_ceil_def)
  have b: "bit (push_bit n (NOT 0) :: u64) j \<longleftrightarrow> n \<le> j" if "j < 64" for n j
    using that by (auto simp: bit_simps)
  have nb: "\<not> bit (bitmap (frames_boot p) ! (i div 64)) (i mod 64)"
    using used_boot [OF assms] by (simp add: used_def)
  show ?thesis
  proof (cases "i div 64 = num_words p - 1")
    case True
    then have i: "i = (num_words p - 1) * 64 + i mod 64" by (metis div_mod_decomp)
    have "64 - ?extra \<le> i mod 64 \<longleftrightarrow> num_frames p \<le> i"
      using i lt [OF pos] W by linarith
    moreover have "\<not> bit (bitmap (frames_boot p) ! (num_words p - 1)) (i mod 64)"
      using nb True by simp
    ultimately show ?thesis using True W b [of "i mod 64"] nb assms i
      by (cases "?extra = 0") (auto simp: used_def pad_last_word_def Let_def bit_or_iff)
  next
    case False
    have "i div 64 < num_words p" using assms by (simp add: div_less_iff_less_mult)
    with False have "Suc (i div 64) \<le> num_words p - 1" by linarith
    then have "Suc (i div 64) * 64 \<le> (num_words p - 1) * 64" by (rule mult_le_mono1)
    then have "i < num_frames p"
      using lt [OF pos] dividend_less_div_times [of 64 i] by simp
    moreover have "\<not> used (pad_last_word (frames_boot p)) i"
      using False nb by (auto simp: used_def pad_last_word_def Let_def nth_list_update)
    ultimately show ?thesis by simp
  qed
qed

lemma pad_boot_wf:
  assumes "plat_ok p"
  shows "frames_wf (pad_last_word (frames_boot p))"
proof -
  let ?fa = "pad_last_word (frames_boot p)"
  have l: "length (bitmap ?fa) = num_words p" "length (refcount ?fa) = num_frames p"
    "refcount ?fa = replicate (num_frames p) 0" "nfree ?fa = num_frames p"
    by (auto simp: pad_last_word_def frames_boot_def Let_def)
  have u: "used ?fa i \<longleftrightarrow> num_frames p \<le> i" if "i < num_words p * 64" for i
    using that by (rule used_pad_boot)
  then have "{i. i < num_frames p \<and> \<not> used ?fa i} = {..< num_frames p}"
    using words_cover [of p] by auto
  with l u words_cover [of p] assms show ?thesis by (auto simp: frames_wf_def)
qed

lemma reserve_fb_wf:
  assumes "frames_wf fa" "heap_start (plat fa) \<le> a" "4096 dvd a"
    "\<forall>i < NUM_FRAMES fa. a \<le> addr_of (plat fa) i \<longrightarrow> \<not> used fa i"
  shows "frames_wf (reserve_fb a fa) \<and> plat (reserve_fb a fa) = plat fa \<and>
    (\<forall>i < NUM_FRAMES fa. used (reserve_fb a fa) i \<longleftrightarrow> used fa i \<or>
       (a \<le> addr_of (plat fa) i \<and> addr_of (plat fa) i < fb_pa (plat fa) + fb_region_bytes (plat fa)))"
  using assms
proof (induction a fa rule: reserve_fb.induct)
  case (1 a fa)
  let ?p = "plat fa"
  note p = frames_wfD(1) [OF "1.prems"(1)]
  show ?case
  proof (cases "a < fb_pa ?p + fb_region_bytes ?p \<and> a < heap_end ?p")
    case True
    let ?i = "idx_of ?p a"
    let ?fa = "set_used ?i fa"
    have i: "?i < NUM_FRAMES fa" "addr_of ?p ?i \<le> a" "a < addr_of ?p ?i + 4096"
      using idx_of_less [OF p "1.prems"(2)] True by auto
    have "4096 dvd addr_of ?p ?i" by (rule num_frames_addr(3) [OF p i(1)])
    with "1.prems"(3) i(2,3) have addr: "addr_of ?p ?i = a" by (auto simp: dvd_def)
    have nu: "\<not> used fa ?i" using "1.prems"(4) i(1) addr by simp
    note s = set_used_wf [OF "1.prems"(1) i(1) nu]
    have step: "a + PAGE_SIZE \<le> addr_of ?p j \<longleftrightarrow> a \<le> addr_of ?p j \<and> j \<noteq> ?i"
      if "j < NUM_FRAMES fa" for j
    proof -
      have "addr_of ?p j \<noteq> a" if "j \<noteq> ?i"
        using that addr num_frames_addr(4) [OF p \<open>j < _\<close>] by metis
      moreover have "addr_of ?p j < a \<or> addr_of ?p j = a \<or> a + 4096 \<le> addr_of ?p j"
        using num_frames_addr(3) [OF p that] "1.prems"(3) by (auto simp: dvd_def)
      ultimately show ?thesis using addr by (auto simp: PAGE_SIZE_def)
    qed
    have "frames_wf (reserve_fb (a + PAGE_SIZE) ?fa) \<and>
        plat (reserve_fb (a + PAGE_SIZE) ?fa) = plat ?fa \<and>
        (\<forall>j < NUM_FRAMES ?fa. used (reserve_fb (a + PAGE_SIZE) ?fa) j \<longleftrightarrow> used ?fa j \<or>
          (a + PAGE_SIZE \<le> addr_of (plat ?fa) j \<and>
           addr_of (plat ?fa) j < fb_pa (plat ?fa) + fb_region_bytes (plat ?fa)))"
      using "1.IH" [OF True] s(1) "1.prems"(2-4) step
      by (auto simp: s(2) PAGE_SIZE_def dvd_add)
    with True step show ?thesis
      by (subst (1 2 3) reserve_fb.simps) (auto simp: s(2) addr)
  next
    case False
    have "\<not> (a \<le> addr_of ?p i \<and> addr_of ?p i < fb_pa ?p + fb_region_bytes ?p)"
      if "i < NUM_FRAMES fa" for i
      using False num_frames_addr(2) [OF p that] by linarith
    with False "1.prems"(1) show ?thesis by (subst (1 2 3) reserve_fb.simps) auto
  qed
qed

lemma frames_init_inv:
  assumes "plat_ok p"
  shows "frames_inv (frames_init (frames_boot p))"
    and "plat (frames_init (frames_boot p)) = p"
    and "i < num_frames p \<Longrightarrow>
      used (frames_init (frames_boot p)) i \<longleftrightarrow> reserved p (addr_of p i)"
proof -
  let ?fa = "pad_last_word (frames_boot p)"
  note wf = pad_boot_wf [OF assms]
  have nu: "\<not> used ?fa i" if "i < num_frames p" for i
    using that words_cover [of p] used_pad_boot [of i p] by simp
  have lo: "heap_start p \<le> addr_of p i" if "i < num_frames p" for i
    by (rule num_frames_addr(1) [OF assms that])
  have "frames_wf (frames_init (frames_boot p)) \<and> plat (frames_init (frames_boot p)) = p \<and>
    (\<forall>i < num_frames p. used (frames_init (frames_boot p)) i \<longleftrightarrow> reserved p (addr_of p i))"
  proof (cases "heap_start p \<le> fb_pa p \<and> fb_pa p < heap_end p")
    case True
    have "4096 dvd fb_pa p" using assms by (simp add: plat_ok_def)
    with reserve_fb_wf [OF wf, of "fb_pa p"] nu lo True show ?thesis
      by (auto simp: frames_init_def Let_def reserved_def) (meson leD)
  next
    case False
    have "\<not> reserved p (addr_of p i)" if "i < num_frames p" for i
      using assms False lo [OF that] num_frames_addr(2) [OF assms that]
      by (auto simp: reserved_def plat_ok_def)
    with False wf nu show ?thesis by (auto simp: frames_init_def Let_def)
  qed
  then show "frames_inv (frames_init (frames_boot p))" "plat (frames_init (frames_boot p)) = p"
    "i < num_frames p \<Longrightarrow> used (frames_init (frames_boot p)) i \<longleftrightarrow> reserved p (addr_of p i)"
    by (auto simp: frames_inv_def)
qed

lemma platforms_ok:
  "plat_ok aarch64_platform" "plat_ok riscv64_platform" "plat_ok x86_64_platform"
  by (simp_all add: plat_ok_def aarch64_platform_def riscv64_platform_def x86_64_platform_def)

section \<open>Reachable allocator states\<close>

text \<open>
  The steps the rest of the kernel takes. A block is given to \<open>free_contig\<close> only if it is one
  that \<open>alloc_contig\<close> could have returned (\<open>unreserved_block\<close>): the code checks the graphics
  region for the first frame of the block only.
\<close>

inductive frames_step :: "frames \<Rightarrow> frames \<Rightarrow> bool" where
  step_alloc: "alloc_frame fa = Some (a, fa') \<Longrightarrow> frames_step fa fa'"
| step_contig: "alloc_contig n fa = Some (a, fa') \<Longrightarrow> frames_step fa fa'"
| step_free: "frames_step fa (free_frame a fa)"
| step_inc: "frames_step fa (inc_ref a fa)"
| step_free_contig: "unreserved_block (plat fa) s n \<Longrightarrow>
    frames_step fa (free_contig (addr_of (plat fa) s) n fa)"

inductive frames_reachable :: "platform \<Rightarrow> frames \<Rightarrow> bool" for p where
  boot: "frames_reachable p (frames_init (frames_boot p))"
| step: "frames_reachable p fa \<Longrightarrow> frames_step fa fa' \<Longrightarrow> frames_reachable p fa'"

lemma frames_step_inv: "frames_step fa fa' \<Longrightarrow> frames_inv fa \<Longrightarrow> frames_inv fa' \<and> plat fa' = plat fa"
proof (induction rule: frames_step.induct)
  case (step_alloc fa a fa')
  then show ?case by (metis alloc_frame_Some)
next
  case (step_contig n fa a fa')
  then show ?case by (metis alloc_contig_Some)
next
  case (step_free_contig fa s n)
  then show ?case using free_contig_refs [of fa s n]
    by (cases "n = 0") (auto simp: free_contig_def)
qed (simp_all add: free_frame_inv inc_ref_inv)

lemma frames_reachable_inv:
  assumes "plat_ok p" "frames_reachable p fa"
  shows "frames_inv fa \<and> plat fa = p"
  using assms(2)
proof (induction rule: frames_reachable.induct)
  case boot
  then show ?case using frames_init_inv [OF assms(1)] by simp
next
  case (step fa fa')
  then show ?case using frames_step_inv by metis
qed

section \<open>The contract the other components rely on\<close>

text \<open>
  What a client of the allocator may assume, over frame addresses: \<open>refs f a\<close> is the number of
  references frame \<open>a\<close> holds. \<open>block f a n\<close> says that the \<open>n\<close> frames from \<open>a\<close> on are
  frames the allocator manages.
\<close>

locale frame_source =
  fixes inv :: "'f \<Rightarrow> bool"
    and refs :: "'f \<Rightarrow> nat \<Rightarrow> nat"
    and alloc :: "'f \<Rightarrow> (nat \<times> 'f) option"
    and release :: "nat \<Rightarrow> 'f \<Rightarrow> 'f"
    and alloc_block :: "nat \<Rightarrow> 'f \<Rightarrow> (nat \<times> 'f) option"
    and release_block :: "nat \<Rightarrow> nat \<Rightarrow> 'f \<Rightarrow> 'f"
  assumes alloc_law: "inv f \<Longrightarrow> alloc f = Some (a, f') \<Longrightarrow>
      inv f' \<and> 0 < a \<and> 4096 dvd a \<and> refs f a = 0 \<and> refs f' = (refs f)(a := 1)"
    and release_law: "inv f \<Longrightarrow> 0 < refs f a \<Longrightarrow>
      inv (release a f) \<and> refs (release a f) = (refs f)(a := refs f a - 1)"
    and alloc_block_law: "inv f \<Longrightarrow> alloc_block n f = Some (a, f') \<Longrightarrow>
      inv f' \<and> 0 < a \<and> 0 < n \<and> 4096 dvd a \<and> (\<forall>i < n. refs f (a + i * 4096) = 0) \<and>
      refs f' = (\<lambda>x. if \<exists>i < n. x = a + i * 4096 then 1 else refs f x)"
    and release_block_law: "inv f \<Longrightarrow> 4096 dvd a \<Longrightarrow> \<forall>i < n. 0 < refs f (a + i * 4096) \<Longrightarrow>
      inv (release_block a n f) \<and>
      refs (release_block a n f) = (\<lambda>x. if \<exists>i < n. x = a + i * 4096 then refs f x - 1 else refs f x)"
begin

lemma alloc_fresh:
  assumes "inv f" "alloc f = Some (a, f')" "0 < refs f b"
  shows "a \<noteq> b" "refs f' b = refs f b"
  using alloc_law [OF assms(1,2)] assms(3) by auto

lemma alloc_block_fresh:
  assumes "inv f" "alloc_block n f = Some (a, f')" "0 < refs f b" "i < n"
  shows "a + i * 4096 \<noteq> b"
  using alloc_block_law [OF assms(1,2)] assms(3,4) by auto

lemma alloc_block_keeps:
  assumes "inv f" "alloc_block n f = Some (a, f')" "0 < refs f b"
  shows "refs f' b = refs f b"
  using alloc_block_law [OF assms(1,2)] assms(3) by auto

lemma alloc_then_release:
  assumes "inv f" "alloc f = Some (a, f')"
  shows "refs (release a f') = refs f"
  using alloc_law [OF assms] release_law [of f' a] by (auto simp: fun_eq_iff)

lemma alloc_then_release_block:
  assumes "inv f" "alloc_block n f = Some (a, f')"
  shows "refs (release_block a n f') = refs f"
proof -
  note l = alloc_block_law [OF assms]
  have "\<forall>i < n. 0 < refs f' (a + i * 4096)" using l by auto
  with l release_block_law [of f' a n] show ?thesis by (auto simp: fun_eq_iff)
qed

lemma release_block_other:
  assumes "inv f" "4096 dvd a" "\<forall>i < n. 0 < refs f (a + i * 4096)" "\<forall>i < n. b \<noteq> a + i * 4096"
  shows "refs (release_block a n f) b = refs f b"
  using release_block_law [OF assms(1-3)] assms(4) by auto

end

text \<open>References by address: a frame of the heap is addressed by its first byte.\<close>

definition addr_refs :: "frames \<Rightarrow> nat \<Rightarrow> nat" where
  "addr_refs fa a = (if 4096 dvd a \<and> heap_frame (plat fa) a
     then frame_refs fa (idx_of (plat fa) a) else 0)"

lemma aligned_heap:
  assumes "plat_ok p" "4096 dvd a" "heap_frame p a"
  shows "addr_of p (idx_of p a) = a"
proof -
  have a: "heap_start p \<le> a" "a < heap_end p" using assms(3) by (auto simp: heap_frame_def)
  note i = idx_of_less [OF assms(1) a]
  have "4096 dvd addr_of p (idx_of p a)" by (rule num_frames_addr(3) [OF assms(1) i(1)])
  with i(2,3) assms(2) show ?thesis by (auto simp: dvd_def)
qed

lemma idx_of_inj:
  assumes "plat_ok p" "4096 dvd a" "heap_frame p a" "i < num_frames p"
  shows "idx_of p a = i \<longleftrightarrow> a = addr_of p i"
  using aligned_heap [OF assms(1-3)] num_frames_addr(4) [OF assms(1,4)] by auto

lemma addr_of_plus: "addr_of p s + i * 4096 = addr_of p (s + i)"
  by (simp add: addr_of_def PAGE_SIZE_def algebra_simps)

lemma addr_refs_addr_of:
  assumes "plat_ok (plat fa)" "i < NUM_FRAMES fa" "\<not> reserved (plat fa) (addr_of (plat fa) i)"
  shows "addr_refs fa (addr_of (plat fa) i) = frame_refs fa i"
  using num_frames_addr [OF assms(1,2)] assms(3) by (simp add: addr_refs_def heap_frame_def)

lemma addr_refs_upd:
  assumes "plat_ok (plat fa)" "plat fa' = plat fa" "4096 dvd a" "heap_frame (plat fa) a"
    "frame_refs fa' = (frame_refs fa)(idx_of (plat fa) a := n)"
  shows "addr_refs fa' = (addr_refs fa)(a := n)"
proof
  fix b
  show "addr_refs fa' b = ((addr_refs fa)(a := n)) b"
  proof (cases "4096 dvd b \<and> heap_frame (plat fa) b")
    case True
    then have "idx_of (plat fa) b = idx_of (plat fa) a \<longleftrightarrow> b = a"
      using aligned_heap [OF assms(1)] assms(3,4) by metis
    then show ?thesis using assms True by (simp add: addr_refs_def)
  next
    case False
    then have "b \<noteq> a" using assms by auto
    with False show ?thesis using assms(2) by (auto simp: addr_refs_def)
  qed
qed

lemma addr_refs_block:
  assumes p: "plat_ok (plat fa)" "plat fa' = plat fa" and b: "unreserved_block (plat fa) s n"
    and r: "frame_refs fa' = (\<lambda>i. if s \<le> i \<and> i < s + n then g (frame_refs fa i) else frame_refs fa i)"
  shows "addr_refs fa' = (\<lambda>x. if \<exists>i < n. x = addr_of (plat fa) s + i * 4096 then g (addr_refs fa x)
    else addr_refs fa x)"
proof
  fix x
  show "addr_refs fa' x = (if \<exists>i < n. x = addr_of (plat fa) s + i * 4096 then g (addr_refs fa x)
    else addr_refs fa x)"
  proof (cases "4096 dvd x \<and> heap_frame (plat fa) x")
    case True
    let ?j = "idx_of (plat fa) x"
    have "(\<exists>i < n. x = addr_of (plat fa) s + i * 4096) \<longleftrightarrow> s \<le> ?j \<and> ?j < s + n"
    proof
      assume "\<exists>i < n. x = addr_of (plat fa) s + i * 4096"
      then obtain i where i: "i < n" "x = addr_of (plat fa) (s + i)" by (auto simp: addr_of_plus)
      have "?j = s + i" using idx_of_inj [OF p(1), of x "s + i"] True i b
        by (auto simp: unreserved_block_def)
      then show "s \<le> ?j \<and> ?j < s + n" using i by simp
    next
      assume j: "s \<le> ?j \<and> ?j < s + n"
      then have "x = addr_of (plat fa) (s + (?j - s))" using aligned_heap [OF p(1)] True by simp
      then show "\<exists>i < n. x = addr_of (plat fa) s + i * 4096"
        using j by (intro exI [of _ "?j - s"]) (auto simp: addr_of_plus)
    qed
    then show ?thesis using True p(2) r by (simp add: addr_refs_def)
  next
    case False
    have "x \<noteq> addr_of (plat fa) s + i * 4096" if "i < n" for i
    proof -
      have si: "s + i < NUM_FRAMES fa" "\<not> reserved (plat fa) (addr_of (plat fa) (s + i))"
        using b that by (auto simp: unreserved_block_def)
      then show ?thesis using num_frames_addr [OF p(1) si(1)] False
        by (auto simp: addr_of_plus heap_frame_def)
    qed
    with False p(2) show ?thesis by (auto simp: addr_refs_def)
  qed
qed

lemma free_run_block: "frames_inv fa \<Longrightarrow> free_run fa n s \<Longrightarrow> unreserved_block (plat fa) s n"
  using frames_invD(2) [of fa] by (fastforce simp: unreserved_block_def free_run_def)

lemma refs_block:
  assumes p: "plat_ok (plat fa)" and a: "4096 dvd a" and n: "0 < n"
    and r: "\<forall>i < n. 0 < addr_refs fa (a + i * 4096)"
  shows "unreserved_block (plat fa) (idx_of (plat fa) a) n"
    and "addr_of (plat fa) (idx_of (plat fa) a) = a"
proof -
  have h: "heap_frame (plat fa) (a + i * 4096)" if "i < n" for i
    using r that by (auto simp: addr_refs_def split: if_splits)
  show eq: "addr_of (plat fa) (idx_of (plat fa) a) = a" using aligned_heap [OF p a] h [of 0] n by simp
  have j: "idx_of (plat fa) (a + i * 4096) = idx_of (plat fa) a + i" for i
  proof -
    have "heap_start (plat fa) \<le> a" using h [of 0] n by (simp add: heap_frame_def)
    then have "a + i * 4096 - heap_start (plat fa) = (a - heap_start (plat fa)) + i * 4096" by simp
    then show ?thesis by (simp add: idx_of_def PAGE_SIZE_def)
  qed
  have al: "4096 dvd a + i * 4096" for i using a by simp
  have "idx_of (plat fa) a + i < num_frames (plat fa)
      \<and> \<not> reserved (plat fa) (addr_of (plat fa) (idx_of (plat fa) a + i))" if "i < n" for i
    using heap_frame_idx [OF p h [OF that]] j by metis
  moreover from this [of "n - 1"] n have "idx_of (plat fa) a + n \<le> num_frames (plat fa)" by linarith
  ultimately show "unreserved_block (plat fa) (idx_of (plat fa) a) n"
    unfolding unreserved_block_def by (metis le_iff_add nat_add_left_cancel_less)
qed

interpretation fs: frame_source frames_inv addr_refs alloc_frame free_frame alloc_contig free_contig
proof
  fix f a f'
  assume inv: "frames_inv f" and al: "alloc_frame f = Some (a, f')"
  note p = frames_wfD(1) [OF frames_invD(1) [OF inv]]
  from inv al obtain i where i: "a = addr_of (plat f) i" "i < NUM_FRAMES f" "\<not> used f i"
    "frames_inv f'" "frame_refs f' = (frame_refs f)(i := 1)" "plat f' = plat f"
    "heap_frame (plat f) a" "4096 dvd a" "nfree f' = nfree f - 1"
    by (rule alloc_frame_Some)
  have idx: "idx_of (plat f) a = i" using num_frames_addr(4) [OF p i(2)] i(1) by simp
  then have "addr_refs f a = 0" using i(3) by (simp add: addr_refs_def frame_refs_def)
  moreover have "addr_refs f' = (addr_refs f)(a := 1)"
    by (rule addr_refs_upd [OF p i(6,8,7)]) (simp add: i(5) idx)
  moreover have "0 < a" using i(7) p by (auto simp: heap_frame_def plat_ok_def)
  ultimately show "frames_inv f' \<and> 0 < a \<and> 4096 dvd a \<and> addr_refs f a = 0 \<and>
      addr_refs f' = (addr_refs f)(a := 1)" using i by simp
next
  fix f a
  assume inv: "frames_inv f" and r: "0 < addr_refs f a"
  note p = frames_wfD(1) [OF frames_invD(1) [OF inv]]
  from r have h: "4096 dvd a" "heap_frame (plat f) a" "addr_refs f a = frame_refs f (idx_of (plat f) a)"
    by (auto simp: addr_refs_def split: if_splits)
  show "frames_inv (free_frame a f) \<and> addr_refs (free_frame a f) = (addr_refs f)(a := addr_refs f a - 1)"
    using free_frame_inv [OF inv] addr_refs_upd [OF p plat_simps(3) h(1,2)]
      free_frame_refs [OF inv h(2)] h(3) by simp
next
  fix f n a f'
  assume inv: "frames_inv f" and al: "alloc_contig n f = Some (a, f')"
  note p = frames_wfD(1) [OF frames_invD(1) [OF inv]]
  from inv al obtain s where s: "a = addr_of (plat f) s" "free_run f n s" "0 < n" "frames_inv f'"
    "frame_refs f' = (\<lambda>i. if s \<le> i \<and> i < s + n then 1 else frame_refs f i)" "plat f' = plat f"
    "heap_frame (plat f) a" "nfree f' = nfree f - n"
    by (rule alloc_contig_Some)
  note b = free_run_block [OF inv s(2)]
  have "addr_refs f' = (\<lambda>x. if \<exists>i < n. x = a + i * 4096 then 1 else addr_refs f x)"
    using addr_refs_block [OF p s(6) b, where g = "\<lambda>_. 1"] s(1,5) by simp
  moreover have "addr_refs f (a + i * 4096) = 0" if "i < n" for i
    using addr_refs_addr_of [OF p, of "s + i"] b s(1,2) that
    by (auto simp: unreserved_block_def free_run_def addr_of_plus frame_refs_def)
  moreover have "0 < a" using s(7) p by (auto simp: heap_frame_def plat_ok_def)
  moreover have "4096 dvd a"
    using num_frames_addr(3) [OF p, of s] s(1-3) by (auto simp: free_run_def)
  ultimately show "frames_inv f' \<and> 0 < a \<and> 0 < n \<and> 4096 dvd a \<and>
      (\<forall>i < n. addr_refs f (a + i * 4096) = 0) \<and>
      addr_refs f' = (\<lambda>x. if \<exists>i < n. x = a + i * 4096 then 1 else addr_refs f x)"
    using s(3,4) by simp
next
  fix f :: frames and a n
  assume inv: "frames_inv f" and a: "4096 dvd a" and r: "\<forall>i < n. 0 < addr_refs f (a + i * 4096)"
  note p = frames_wfD(1) [OF frames_invD(1) [OF inv]]
  show "frames_inv (free_contig a n f) \<and> addr_refs (free_contig a n f) =
      (\<lambda>x. if \<exists>i < n. x = a + i * 4096 then addr_refs f x - 1 else addr_refs f x)"
  proof (cases "n = 0")
    case True
    then show ?thesis using inv by (auto simp: free_contig_def)
  next
    case False
    then have n: "0 < n" by simp
    note b = refs_block [OF p a n r]
    show ?thesis
      using free_contig_refs [OF inv b(1) n] addr_refs_block [OF p _ b(1), where g = "\<lambda>x. x - 1"] b(2)
      by simp
  qed
qed

section \<open>Properties\<close>

text \<open>C1. On each of the three architectures \<open>init\<close> leaves a well-formed allocator in which
  exactly the frames of the graphics region (those that fall in the heap) are taken.\<close>

theorem frames_boot_ok:
  "\<forall>p \<in> {aarch64_platform, riscv64_platform, x86_64_platform}.
     frames_inv (frames_init (frames_boot p)) \<and>
     (\<forall>i < num_frames p. used (frames_init (frames_boot p)) i \<longleftrightarrow> reserved p (addr_of p i))"
  using platforms_ok frames_init_inv by blast

theorem frames_boot_ok_witness:
  "aarch64_platform \<in> {aarch64_platform, riscv64_platform, x86_64_platform} \<and>
   0 < num_frames aarch64_platform \<and>
   \<not> used (frames_init (frames_boot aarch64_platform)) 0"
proof -
  have n: "0 < num_frames aarch64_platform"
    by (simp add: num_frames_def aarch64_platform_def PAGE_SIZE_def)
  have "used (frames_init (frames_boot aarch64_platform)) 0 \<longleftrightarrow>
      reserved aarch64_platform (addr_of aarch64_platform 0)"
    using frames_boot_ok n by blast
  moreover have "\<not> reserved aarch64_platform (addr_of aarch64_platform 0)"
    by (simp add: addr_of_def reserved_def aarch64_platform_def)
  ultimately show ?thesis using n by blast
qed

text \<open>A small machine for the concrete runs: three heap frames from \<open>0x1000\<close> on.\<close>

definition tiny_platform :: platform where
  "tiny_platform = \<lparr>heap_start = 4096, heap_size = 3 * 4096, fb_pa = 0, fb_region_bytes = 4096\<rparr>"

definition tiny_frames :: frames where
  "tiny_frames = frames_init (frames_boot tiny_platform)"

lemma tiny_reachable: "plat_ok tiny_platform" "frames_reachable tiny_platform tiny_frames"
  by (auto simp: plat_ok_def tiny_platform_def tiny_frames_def intro: frames_reachable.boot)

lemma tiny_inv: "frames_inv tiny_frames" "plat tiny_frames = tiny_platform"
  using frames_reachable_inv [OF tiny_reachable] by auto

lemma alloc_frame_free:
  assumes "frames_inv fa" "0 < nfree fa"
  obtains a fa' where "alloc_frame fa = Some (a, fa')" "nfree fa' = nfree fa - 1"
proof (cases "alloc_frame fa")
  case None
  note wf = frames_invD(1) [OF assms(1)]
  have "{i. i < NUM_FRAMES fa \<and> \<not> used fa i} = {}" using None alloc_frame_None_iff [OF wf] by auto
  then have "nfree fa = 0" using frames_wfD(7) [OF wf] by (metis card.empty)
  then show ?thesis using assms(2) by simp
next
  case (Some r)
  obtain a fa' where r: "alloc_frame fa = Some (a, fa')" using Some by (cases r) auto
  have "nfree fa' = nfree fa - 1" by (rule alloc_frame_Some [OF assms(1) r]) simp
  with r that show ?thesis by blast
qed

lemma alloc_frame_plat: "alloc_frame fa = Some (a, fa') \<Longrightarrow> plat fa' = plat fa"
  by (auto simp: alloc_frame_def split: option.splits if_splits)

lemma tiny_free: "\<not> used tiny_frames 0" "num_frames tiny_platform = 3" "free_run tiny_frames 2 0"
proof -
  show n: "num_frames tiny_platform = 3"
    by (simp add: num_frames_def tiny_platform_def PAGE_SIZE_def)
  have nr: "\<not> reserved tiny_platform (addr_of tiny_platform i)" for i
    by (simp add: reserved_def addr_of_def tiny_platform_def)
  then have u: "\<not> used tiny_frames i" if "i < 3" for i
    using frames_init_inv(3) [OF tiny_reachable(1)] n that by (simp add: tiny_frames_def)
  then show "\<not> used tiny_frames 0" by simp
  show "free_run tiny_frames 2 0" using u n by (simp add: free_run_def tiny_inv)
qed

lemma tiny_nfree: "nfree tiny_frames = 3"
proof -
  have "\<not> used tiny_frames i" if "i < 3" for i
  proof -
    have "\<not> reserved tiny_platform (addr_of tiny_platform i)"
      by (simp add: reserved_def addr_of_def tiny_platform_def)
    then show ?thesis
      using frames_init_inv(3) [OF tiny_reachable(1)] tiny_free(2) that by (simp add: tiny_frames_def)
  qed
  then have "{i. i < NUM_FRAMES tiny_frames \<and> \<not> used tiny_frames i} = {..<3}"
    using tiny_free(2) by (auto simp: tiny_inv)
  then show ?thesis using frames_wfD(7) [OF frames_invD(1) [OF tiny_inv(1)]] by simp
qed

text \<open>C2. In every reachable state \<open>alloc_frame\<close> fails only when no frame is free; otherwise it
  returns a page-aligned frame of the heap outside the graphics region that nobody references,
  and takes exactly that one.\<close>

theorem alloc_frame_correct:
  assumes "plat_ok p" and "frames_reachable p fa"
  shows "case alloc_frame fa of
      None \<Rightarrow> \<forall>i < num_frames p. used fa i
    | Some (a, fa') \<Rightarrow> 4096 dvd a \<and> heap_frame p a \<and> addr_refs fa a = 0 \<and>
        addr_refs fa' = (addr_refs fa)(a := 1) \<and> free_count fa' = free_count fa - 1 \<and>
        0 < free_count fa"
proof (cases "alloc_frame fa")
  case None
  have "frames_wf fa" "plat fa = p" using frames_reachable_inv [OF assms] frames_invD(1) by auto
  then have "\<forall>i < num_frames p. used fa i" using alloc_frame_None_iff [of fa] None by simp
  with None show ?thesis by simp
next
  case (Some r)
  obtain a fa' where r: "alloc_frame fa = Some (a, fa')" using Some by (cases r) auto
  have inv: "frames_inv fa" "plat fa = p" using frames_reachable_inv [OF assms] by auto
  obtain i where i: "i < NUM_FRAMES fa" "\<not> used fa i" "heap_frame p a" "nfree fa' = nfree fa - 1"
    using alloc_frame_Some [OF inv(1) r] inv(2) by metis
  have "{j. j < NUM_FRAMES fa \<and> \<not> used fa j} \<noteq> {}" using i by auto
  then have "0 < nfree fa"
    using frames_wfD(7) [OF frames_invD(1) [OF inv(1)]] by (simp add: card_gt_0_iff)
  with fs.alloc_law [OF inv(1) r] i show ?thesis by (simp add: r free_count_def)
qed

theorem alloc_frame_correct_witness:
  "\<exists>a fa'. alloc_frame tiny_frames = Some (a, fa') \<and> heap_frame tiny_platform a \<and>
     addr_refs fa' a = 1 \<and> free_count fa' = free_count tiny_frames - 1"
proof -
  have "alloc_frame tiny_frames \<noteq> None"
    using alloc_frame_None_iff [OF frames_invD(1) [OF tiny_inv(1)]] tiny_free tiny_inv(2) by auto
  then show ?thesis using alloc_frame_correct [OF tiny_reachable] by (auto split: option.splits)
qed

text \<open>C3. The word-skipping, run-counting scan of \<open>alloc_contig\<close> is the reference first-fit search:
  it fails only when no \<open>n\<close> consecutive frames are free, and otherwise returns the lowest such
  block (for one frame, any free frame), taking exactly its frames.\<close>

theorem alloc_contig_first_fit:
  assumes "plat_ok p" and "frames_reachable p fa" and "0 < n"
  shows "case alloc_contig n fa of
      None \<Rightarrow> \<forall>s. \<not> free_run fa n s
    | Some (a, fa') \<Rightarrow> (\<exists>s. a = addr_of p s \<and> free_run fa n s \<and>
        (1 < n \<longrightarrow> (\<forall>t < s. \<not> free_run fa n t)) \<and>
        frame_refs fa' = (\<lambda>i. if s \<le> i \<and> i < s + n then 1 else frame_refs fa i))"
proof (cases "alloc_contig n fa")
  case None
  have "frames_wf fa" using frames_reachable_inv [OF assms(1,2)] frames_invD(1) by auto
  then have "\<forall>s. \<not> free_run fa n s" using alloc_contig_None_iff [OF _ assms(3)] None by simp
  with None show ?thesis by simp
next
  case (Some r)
  obtain a fa' where r: "alloc_contig n fa = Some (a, fa')" using Some by (cases r) auto
  have inv: "frames_inv fa" "plat fa = p" using frames_reachable_inv [OF assms(1,2)] by auto
  obtain s where s: "a = addr_of p s" "free_run fa n s"
    "frame_refs fa' = (\<lambda>i. if s \<le> i \<and> i < s + n then 1 else frame_refs fa i)"
    using alloc_contig_Some [OF inv(1) r] inv(2) by metis
  have "\<forall>t < s. \<not> free_run fa n t" if "1 < n"
  proof -
    from r that obtain s' where "contig_scan fa n 0 0 0 = Some s'" "a = addr_of p s'"
      by (auto simp: alloc_contig_def inv(2) split: option.splits)
    with s(1) contig_scan_Some [OF frames_invD(1) [OF inv(1)] assms(3)] show ?thesis
      by (auto simp: addr_of_def PAGE_SIZE_def)
  qed
  with s show ?thesis by (auto simp: r)
qed

theorem alloc_contig_first_fit_witness:
  "\<exists>a fa'. alloc_contig 2 tiny_frames = Some (a, fa') \<and> a = addr_of tiny_platform 0"
proof -
  have n0: "alloc_contig 2 tiny_frames \<noteq> None"
    using alloc_contig_None_iff [OF frames_invD(1) [OF tiny_inv(1)], of 2] tiny_free(3) by auto
  have "s = 0" if "\<forall>t < s. \<not> free_run tiny_frames 2 t" for s
    using that tiny_free(3) by (cases s) auto
  then show ?thesis using n0 alloc_contig_first_fit [OF tiny_reachable, of 2]
    by (auto split: option.splits)
qed

lemma inc_ref_funpow:
  assumes "frames_inv fa" "0 < addr_refs fa a" "addr_refs fa a + k \<le> 65535"
  shows "frames_inv ((inc_ref a ^^ k) fa) \<and> plat ((inc_ref a ^^ k) fa) = plat fa \<and>
    addr_refs ((inc_ref a ^^ k) fa) = (addr_refs fa)(a := addr_refs fa a + k)"
  using assms(3)
proof (induction k)
  case (Suc k)
  let ?fa = "(inc_ref a ^^ k) fa"
  have IH: "frames_inv ?fa" "plat ?fa = plat fa"
    "addr_refs ?fa = (addr_refs fa)(a := addr_refs fa a + k)" using Suc by auto
  note p = frames_wfD(1) [OF frames_invD(1) [OF IH(1)]]
  have pos: "0 < addr_refs ?fa a" using IH(3) assms(2) by simp
  then have h: "4096 dvd a" "heap_frame (plat ?fa) a"
    "addr_refs ?fa a = frame_refs ?fa (idx_of (plat ?fa) a)"
    by (auto simp: addr_refs_def split: if_splits)
  have "addr_refs (inc_ref a ?fa) = (addr_refs ?fa)(a := min (addr_refs ?fa a + 1) 65535)"
    by (rule addr_refs_upd [OF p plat_simps(4) h(1,2)])
      (use inc_ref_refs [OF IH(1) h(2)] pos h(3) in simp)
  then show ?case using IH inc_ref_inv [OF IH(1)] Suc.prems by simp
qed (use assms in auto)

lemma free_frame_funpow:
  assumes "frames_inv fa" "k \<le> addr_refs fa a"
  shows "frames_inv ((free_frame a ^^ k) fa) \<and>
    addr_refs ((free_frame a ^^ k) fa) = (addr_refs fa)(a := addr_refs fa a - k)"
  using assms(2)
proof (induction k)
  case (Suc k)
  then have IH: "frames_inv ((free_frame a ^^ k) fa)"
    "addr_refs ((free_frame a ^^ k) fa) = (addr_refs fa)(a := addr_refs fa a - k)" by auto
  with fs.release_law [OF IH(1), of a] Suc.prems show ?case by simp
qed (use assms in auto)

text \<open>C4. Copy-on-write counting: a frame shared \<open>k\<close> more times (below the 16-bit saturation
  point) survives \<open>k\<close> releases with its old count, and the allocator gets it back exactly at the
  release of the last reference; \<open>ref_count\<close> reads the count the fault handler decides by.\<close>

theorem shared_frame_lifecycle:
  assumes "frames_inv fa" and "0 < addr_refs fa a" and "addr_refs fa a + k \<le> 65535"
  shows "ref_count ((inc_ref a ^^ k) fa) a = addr_refs fa a + k \<and>
    addr_refs ((free_frame a ^^ k) ((inc_ref a ^^ k) fa)) = addr_refs fa \<and>
    addr_refs ((free_frame a ^^ (addr_refs fa a + k)) ((inc_ref a ^^ k) fa)) =
      (addr_refs fa)(a := 0)"
proof (intro conjI)
  let ?fa = "(inc_ref a ^^ k) fa"
  have i: "frames_inv ?fa" "addr_refs ?fa = (addr_refs fa)(a := addr_refs fa a + k)"
    using inc_ref_funpow [OF assms] by auto
  have pos: "0 < addr_refs ?fa a" using i(2) assms(2) by simp
  then have h: "heap_frame (plat ?fa) a" "addr_refs ?fa a = frame_refs ?fa (idx_of (plat ?fa) a)"
    by (auto simp: addr_refs_def split: if_splits)
  show "ref_count ?fa a = addr_refs fa a + k"
    using ref_count_refs [OF i(1) h(1)] h(2) pos i(2) by simp
  show "addr_refs ((free_frame a ^^ k) ?fa) = addr_refs fa"
    using free_frame_funpow [OF i(1), of k a] i(2) by (auto simp: fun_eq_iff)
  show "addr_refs ((free_frame a ^^ (addr_refs fa a + k)) ?fa) = (addr_refs fa)(a := 0)"
    using free_frame_funpow [OF i(1), of "addr_refs fa a + k" a] i(2) by (auto simp: fun_eq_iff)
qed

theorem shared_frame_lifecycle_witness:
  "\<exists>a fa. alloc_frame tiny_frames = Some (a, fa) \<and> ref_count ((inc_ref a ^^ 2) fa) a = 3 \<and>
     addr_refs ((free_frame a ^^ 3) ((inc_ref a ^^ 2) fa)) = (addr_refs fa)(a := 0)"
proof -
  obtain a fa where al: "alloc_frame tiny_frames = Some (a, fa)"
    using alloc_frame_None_iff [OF frames_invD(1) [OF tiny_inv(1)]] tiny_free tiny_inv(2)
    by (cases "alloc_frame tiny_frames") auto
  have l: "frames_inv fa" "addr_refs fa a = 1" using fs.alloc_law [OF tiny_inv(1) al] by auto
  then have three: "addr_refs fa a + 2 = 3" by simp
  have "0 < addr_refs fa a" "addr_refs fa a + 2 \<le> 65535" using l by auto
  from shared_frame_lifecycle [OF l(1) this, unfolded three] al show ?thesis by blast
qed

end
