(* ===== verification/Locks.thy ===== *)
theory Locks
  imports Prelude
begin

text \<open>
  The spinlocks of \<open>kernel/src/sync.rs\<close>: the lock word, the per-CPU record of held locks
  (\<open>HELD\<close>, \<open>NHELD\<close>, 16 slots) that the oops recovery releases.
\<close>

section \<open>State and operations\<close>

definition MAX_HELD :: nat where "MAX_HELD = 16"
definition MAX_CPUS :: nat where "MAX_CPUS = 8"

text \<open>\<open>locked\<close> is the lock word of the lock at an address; \<open>held c\<close> the 16 slots of CPU \<open>c\<close>.\<close>

record locks =
  locked :: "nat \<Rightarrow> bool"
  held :: "nat \<Rightarrow> nat list"
  nheld :: "nat \<Rightarrow> nat"

definition locks_boot :: locks where
  "locks_boot = \<lparr>locked = (\<lambda>_. False), held = (\<lambda>_. replicate MAX_HELD 0), nheld = (\<lambda>_. 0)\<rparr>"

text \<open>One round of \<open>lock\<close>: \<open>None\<close> when the compare-exchange fails and the CPU spins on.\<close>

definition lock :: "nat \<Rightarrow> nat \<Rightarrow> locks \<Rightarrow> locks option" where
  "lock c l st =
     (if locked st l then None
      else let n = nheld st c in
        Some (st\<lparr>locked := (locked st)(l := True),
          held := (if n < MAX_HELD then (held st)(c := (held st c)[n := l]) else held st),
          nheld := (nheld st)(c := n + 1)\<rparr>))"

text \<open>\<open>copy_within(i + 1..n, i)\<close>: the slots above \<open>i\<close> move down one; slot \<open>n - 1\<close> keeps its value.\<close>

definition shift_down :: "nat \<Rightarrow> nat \<Rightarrow> 'a list \<Rightarrow> 'a list" where
  "shift_down i n xs = take i xs @ drop (i + 1) (take n xs) @ drop (n - 1) xs"

text \<open>The search of \<open>unlock\<close>, from the top slot down.\<close>

fun find_held :: "nat \<Rightarrow> nat \<Rightarrow> nat list \<Rightarrow> nat option" where
  "find_held 0 l xs = None"
| "find_held (Suc i) l xs = (if xs ! i = l then Some i else find_held i l xs)"

definition unlock :: "nat \<Rightarrow> nat \<Rightarrow> locks \<Rightarrow> locks" where
  "unlock c l st =
     (let n = nheld st c; m = min n MAX_HELD;
          h = (case find_held m l (held st c) of
                 Some i \<Rightarrow> (held st)(c := shift_down i m (held st c))
               | None \<Rightarrow> held st)
      in st\<lparr>locked := (locked st)(l := False), held := h, nheld := (nheld st)(c := n - 1)\<rparr>)"

definition force_release_all :: "nat \<Rightarrow> locks \<Rightarrow> nat \<times> locks" where
  "force_release_all c st =
     (let n = nheld st c in
      (n, st\<lparr>locked := fold (\<lambda>i lk. lk(held st c ! i := False)) (rev [0..<min n MAX_HELD]) (locked st),
             nheld := (nheld st)(c := 0)\<rparr>))"

section \<open>The lock stacks\<close>

text \<open>The locks CPU \<open>c\<close> holds, oldest first.\<close>

definition lock_stack :: "locks \<Rightarrow> nat \<Rightarrow> nat list" where
  "lock_stack st c = take (nheld st c) (held st c)"

text \<open>
  Well-formed: no CPU nests deeper than the 16 slots, a lock is recorded once, by one CPU, and
  the lock words say exactly which locks are recorded.
\<close>

definition locks_inv :: "locks \<Rightarrow> bool" where
  "locks_inv st \<longleftrightarrow>
     (\<forall>c. length (held st c) = MAX_HELD \<and> nheld st c \<le> MAX_HELD \<and> distinct (lock_stack st c)) \<and>
     (\<forall>c d l. l \<in> set (lock_stack st c) \<and> l \<in> set (lock_stack st d) \<longrightarrow> c = d) \<and>
     (\<forall>l. locked st l \<longleftrightarrow> (\<exists>c. l \<in> set (lock_stack st c)))"

lemma locks_invD:
  assumes "locks_inv st"
  shows "length (held st c) = MAX_HELD" "nheld st c \<le> MAX_HELD" "distinct (lock_stack st c)"
    "l \<in> set (lock_stack st c) \<Longrightarrow> l \<in> set (lock_stack st d) \<Longrightarrow> c = d"
    "locked st l \<longleftrightarrow> (\<exists>c. l \<in> set (lock_stack st c))"
    "length (lock_stack st c) = nheld st c"
  using assms by (auto simp: locks_inv_def lock_stack_def)

text \<open>The membership clause after the stack of one CPU changed.\<close>

lemma ex_stack_upd:
  "(\<exists>d. x \<in> set (if d = c then xs else f d)) \<longleftrightarrow> x \<in> set xs \<or> (\<exists>d. d \<noteq> c \<and> x \<in> set (f d))"
  by auto

lemma locks_invI:
  assumes "\<And>c. length (held st c) = MAX_HELD" "\<And>c. nheld st c \<le> MAX_HELD"
    "\<And>l. locked st l \<longleftrightarrow> (\<exists>c. l \<in> set (lock_stack st c))"
    "\<And>c. distinct (lock_stack st c)"
    "\<And>c d l. l \<in> set (lock_stack st c) \<Longrightarrow> l \<in> set (lock_stack st d) \<Longrightarrow> c = d"
  shows "locks_inv st"
  using assms unfolding locks_inv_def by blast

lemma locked_split:
  assumes "locks_inv st"
  shows "locked st x \<longleftrightarrow> x \<in> set (lock_stack st c) \<or> (\<exists>d. d \<noteq> c \<and> x \<in> set (lock_stack st d))"
  using locks_invD(5) [OF assms, of x] by metis

lemma only_here:
  "locks_inv st \<Longrightarrow> x \<in> set (lock_stack st c) \<Longrightarrow> d \<noteq> c \<Longrightarrow> x \<notin> set (lock_stack st d)"
  using locks_invD(4) by blast

lemma locks_boot_inv: "locks_inv locks_boot"
  by (simp add: locks_inv_def locks_boot_def lock_stack_def)

lemma lock_None: "lock c l st = None \<longleftrightarrow> locked st l"
  by (simp add: lock_def Let_def)

lemma take_Suc_update: "n < length xs \<Longrightarrow> take (Suc n) (xs[n := x]) = take n xs @ [x]"
  by (simp add: take_Suc_conv_app_nth)

lemma lock_stack_lock:
  assumes "locks_inv st" "lock c l st = Some st'" "nheld st c < MAX_HELD"
  shows "lock_stack st' d = (if d = c then lock_stack st c @ [l] else lock_stack st d)"
  using assms locks_invD(1) [OF assms(1), of c] take_Suc_update [of "nheld st c" "held st c" l]
  by (auto simp: lock_def Let_def lock_stack_def split: if_splits)

lemma lock_inv:
  assumes inv: "locks_inv st" and lk: "lock c l st = Some st'" and n: "nheld st c < MAX_HELD"
  shows "locks_inv st'"
proof -
  note s = lock_stack_lock [OF assms]
  have nl: "\<not> locked st l" using lk by (auto simp: lock_def split: if_splits)
  then have nin: "l \<notin> set (lock_stack st d)" for d using locks_invD(5) [OF inv] by auto
  have k: "locked st' = (locked st)(l := True)"
    using lk by (auto simp: lock_def Let_def split: if_splits)
  have "length (held st' d) = MAX_HELD" "nheld st' d \<le> MAX_HELD" for d
    using lk n locks_invD(1,2) [OF inv] by (auto simp: lock_def Let_def split: if_splits)
  moreover have "locked st' x \<longleftrightarrow> (\<exists>d. x \<in> set (lock_stack st' d))" for x
    using locked_split [OF inv, of x c] unfolding s ex_stack_upd k by auto
  moreover have "distinct (lock_stack st' d)" for d
    using locks_invD(3) [OF inv] nin by (simp add: s)
  moreover have "a = b" if "x \<in> set (lock_stack st' a)" "x \<in> set (lock_stack st' b)" for x a b
    using that locks_invD(4) [OF inv, of x a b] nin by (auto simp: s split: if_splits)
  ultimately show ?thesis by (rule locks_invI)
qed

lemma find_held_Some: "find_held m l xs = Some i \<Longrightarrow> i < m \<and> xs ! i = l"
  by (induction m) (auto split: if_splits)

lemma find_held_None: "find_held m l xs = None \<Longrightarrow> \<forall>i < m. xs ! i \<noteq> l"
  by (induction m) (auto split: if_splits simp: less_Suc_eq)

lemma take_shift_down:
  assumes "i < n" "n \<le> length xs"
  shows "take (n - 1) (shift_down i n xs) = take i xs @ drop (i + 1) (take n xs)"
    and "length (shift_down i n xs) = length xs"
  using assms by (auto simp: shift_down_def)

lemma remove_nth_distinct:
  assumes "distinct xs" "i < length xs"
  shows "take i xs @ drop (Suc i) xs = remove1 (xs ! i) xs"
proof -
  have "xs = take i xs @ xs ! i # drop (Suc i) xs" using assms(2) by (rule id_take_nth_drop)
  moreover have "xs ! i \<notin> set (take i xs)"
    using assms by (metis distinct_take distinct_append not_distinct_conv_prefix id_take_nth_drop)
  ultimately show ?thesis by (metis remove1.simps(2) remove1_append)
qed

lemma lock_stack_unlock:
  assumes inv: "locks_inv st" and l: "l \<in> set (lock_stack st c)"
  shows "lock_stack (unlock c l st) d =
    (if d = c then remove1 l (lock_stack st c) else lock_stack st d)"
proof (cases "d = c")
  case True
  note v = locks_invD(1-3,6) [OF inv, of c]
  have m: "min (nheld st c) MAX_HELD = nheld st c" using v by simp
  obtain i where i: "find_held (nheld st c) l (held st c) = Some i"
    using find_held_None [of "nheld st c" l "held st c"] l v
    by (cases "find_held (nheld st c) l (held st c)") (auto simp: lock_stack_def in_set_conv_nth)
  note f = find_held_Some [OF i]
  have "lock_stack (unlock c l st) c = take (nheld st c - 1) (shift_down i (nheld st c) (held st c))"
    by (simp add: unlock_def Let_def m i lock_stack_def)
  also have "\<dots> = take i (lock_stack st c) @ drop (Suc i) (lock_stack st c)"
    using take_shift_down [of i "nheld st c" "held st c"] f v by (simp add: lock_stack_def min_def)
  also have "\<dots> = remove1 l (lock_stack st c)"
    using remove_nth_distinct [OF v(3), of i] f v by (simp add: lock_stack_def)
  finally show ?thesis using True by simp
qed (auto simp: unlock_def Let_def lock_stack_def split: option.splits)

lemma unlock_inv:
  assumes inv: "locks_inv st" and l: "l \<in> set (lock_stack st c)"
  shows "locks_inv (unlock c l st)"
proof -
  note s = lock_stack_unlock [OF assms]
  have "length (held (unlock c l st) d) = MAX_HELD" for d
    using locks_invD(1,2) [OF inv] find_held_Some [of "nheld st c" l "held st c"]
    by (auto simp: unlock_def Let_def take_shift_down min_absorb1 split: option.splits)
  moreover have "nheld (unlock c l st) d \<le> MAX_HELD" for d
    using locks_invD(2) [OF inv, of d] by (auto simp: unlock_def Let_def)
  moreover have "locked (unlock c l st) x \<longleftrightarrow> (\<exists>d. x \<in> set (lock_stack (unlock c l st) d))" for x
  proof -
    have "locked (unlock c l st) = (locked st)(l := False)" by (simp add: unlock_def Let_def)
    then show ?thesis unfolding s ex_stack_upd
      using locked_split [OF inv, of x c] only_here [OF inv l] locks_invD(3) [OF inv, of c]
      by (auto simp: set_remove1_eq)
  qed
  moreover have "distinct (lock_stack (unlock c l st) d)" for d
    using locks_invD(3) [OF inv] by (simp add: s)
  moreover have "a = b"
    if "x \<in> set (lock_stack (unlock c l st) a)" "x \<in> set (lock_stack (unlock c l st) b)" for x a b
    using that locks_invD(4) [OF inv, of x a b] set_remove1_subset [of l "lock_stack st c"]
    by (auto simp: s split: if_splits)
  ultimately show ?thesis by (rule locks_invI)
qed

lemma fold_clear: "fold (\<lambda>i lk. lk(g i := False)) is lk l \<longleftrightarrow> lk l \<and> l \<notin> g ` set is"
  by (induction "is" arbitrary: lk) auto

lemma force_release_stack:
  "lock_stack (snd (force_release_all c st)) d = (if d = c then [] else lock_stack st d)"
  by (simp add: force_release_all_def Let_def lock_stack_def)

lemma force_release_locked:
  assumes "locks_inv st"
  shows "locked (snd (force_release_all c st)) l \<longleftrightarrow> locked st l \<and> l \<notin> set (lock_stack st c)"
proof -
  have "(!) (held st c) ` {0..<nheld st c} = set (lock_stack st c)"
    using locks_invD(1,2) [OF assms, of c] by (simp add: lock_stack_def nth_image)
  then show ?thesis using locks_invD(2) [OF assms, of c]
    by (simp add: force_release_all_def Let_def fold_clear min_absorb1)
qed

lemma force_release_inv:
  assumes "locks_inv st"
  shows "locks_inv (snd (force_release_all c st))"
proof -
  have "length (held (snd (force_release_all c st)) d) = MAX_HELD"
    "nheld (snd (force_release_all c st)) d \<le> MAX_HELD" for d
    using locks_invD(1,2) [OF assms] by (auto simp: force_release_all_def Let_def)
  moreover have "locked (snd (force_release_all c st)) x \<longleftrightarrow>
      (\<exists>d. x \<in> set (lock_stack (snd (force_release_all c st)) d))" for x
    unfolding force_release_stack force_release_locked [OF assms] ex_stack_upd
    using locked_split [OF assms, of x c] only_here [OF assms] by auto
  moreover have "distinct (lock_stack (snd (force_release_all c st)) d)" for d
    using locks_invD(3) [OF assms] by (simp add: force_release_stack)
  moreover have "a = b" if "x \<in> set (lock_stack (snd (force_release_all c st)) a)"
      "x \<in> set (lock_stack (snd (force_release_all c st)) b)" for x a b
    using that locks_invD(4) [OF assms, of x a b] by (auto simp: force_release_stack split: if_splits)
  ultimately show ?thesis by (rule locks_invI)
qed

section \<open>Runs of the machine\<close>

text \<open>
  What the CPUs do: a successful acquisition within the 16 slots, the release of a lock the CPU
  holds (a \<open>Guard\<close> going out of scope, in any order), or the recovery from an oops.
\<close>

inductive locks_step :: "locks \<Rightarrow> locks \<Rightarrow> bool" where
  acquire: "lock c l st = Some st' \<Longrightarrow> nheld st c < MAX_HELD \<Longrightarrow> locks_step st st'"
| release: "l \<in> set (lock_stack st c) \<Longrightarrow> locks_step st (unlock c l st)"
| recover: "locks_step st (snd (force_release_all c st))"

inductive locks_reachable :: "locks \<Rightarrow> bool" where
  start: "locks_reachable locks_boot"
| step: "locks_reachable st \<Longrightarrow> locks_step st st' \<Longrightarrow> locks_reachable st'"

lemma locks_step_inv: "locks_step st st' \<Longrightarrow> locks_inv st \<Longrightarrow> locks_inv st'"
  by (induction rule: locks_step.induct) (auto intro: lock_inv unlock_inv force_release_inv)

lemma locks_reachable_inv: "locks_reachable st \<Longrightarrow> locks_inv st"
  by (induction rule: locks_reachable.induct) (auto intro: locks_boot_inv locks_step_inv)

lemma locks_example:
  "\<exists>st. locks_reachable st \<and> lock_stack st 0 = [1, 2] \<and> lock_stack st 1 = []"
proof -
  define s1 where "s1 = the (lock 0 1 locks_boot)"
  have l1: "lock 0 1 locks_boot = Some s1"
    by (simp add: s1_def lock_def locks_boot_def)
  note r1 = locks_reachable.step [OF start acquire [OF l1]]
  have n: "nheld locks_boot 0 < MAX_HELD" by (simp add: locks_boot_def MAX_HELD_def)
  have i0: "locks_inv locks_boot" by (rule locks_boot_inv)
  have i1: "locks_inv s1" by (rule lock_inv [OF i0 l1 n])
  have st1: "lock_stack s1 d = (if d = 0 then [1] else [])" for d
    using lock_stack_lock [OF i0 l1 n, of d] by (simp add: lock_stack_def locks_boot_def)
  have "\<not> locked s1 2" using locks_invD(5) [OF i1] by (simp add: st1)
  then obtain s2 where l2: "lock 0 2 s1 = Some s2" using lock_None by fastforce
  have n1: "nheld s1 0 < MAX_HELD" using locks_invD(6) [OF i1, of 0] by (simp add: st1 MAX_HELD_def)
  have "locks_reachable s2"
    using r1 n locks_reachable.step acquire [OF l2 n1] by blast
  then show ?thesis using lock_stack_lock [OF i1 l2 n1] st1 by auto
qed

text \<open>C5. Mutual exclusion and the \<open>HELD\<close> bookkeeping: in every reachable state no lock is held by
  two CPUs, a lock word is set exactly if some CPU records the lock, and a lock that is set
  cannot be acquired.\<close>

theorem locks_mutual_exclusion:
  assumes "locks_reachable st"
  shows "(l \<in> set (lock_stack st c) \<and> l \<in> set (lock_stack st d) \<longrightarrow> c = d) \<and>
    (locked st l \<longleftrightarrow> (\<exists>e. l \<in> set (lock_stack st e))) \<and>
    (l \<in> set (lock_stack st c) \<longrightarrow> lock d l st = None)"
  using locks_invD(4,5) [OF locks_reachable_inv [OF assms]] by (auto simp: lock_None)

theorem locks_mutual_exclusion_witness:
  "\<exists>st. locks_reachable st \<and> 1 \<in> set (lock_stack st 0) \<and> lock 1 1 st = None"
proof -
  obtain st where st: "locks_reachable st" "lock_stack st 0 = [1, 2]" using locks_example by blast
  then show ?thesis using locks_mutual_exclusion [OF st(1), of 1 0 1] by auto
qed

text \<open>C6. Oops recovery: along every run of the CPUs, \<open>force_release_all\<close> clears exactly the lock words of the locks the failing
  CPU holds, reports their number, and leaves every other CPU's locks held.\<close>

theorem force_release_exact:
  assumes "locks_reachable st"
  shows "fst (force_release_all c st) = length (lock_stack st c) \<and>
    lock_stack (snd (force_release_all c st)) d = (if d = c then [] else lock_stack st d) \<and>
    (locked (snd (force_release_all c st)) l \<longleftrightarrow> (\<exists>e. e \<noteq> c \<and> l \<in> set (lock_stack st e)))"
proof -
  note inv = locks_reachable_inv [OF assms]
  have "fst (force_release_all c st) = length (lock_stack st c)"
    using locks_invD(6) [OF inv] by (simp add: force_release_all_def Let_def)
  moreover have "locked (snd (force_release_all c st)) l \<longleftrightarrow>
      (\<exists>e. e \<noteq> c \<and> l \<in> set (lock_stack st e))"
    unfolding force_release_locked [OF inv]
    using locked_split [OF inv, of l c] only_here [OF inv] by auto
  ultimately show ?thesis by (simp add: force_release_stack)
qed

theorem force_release_exact_witness:
  "\<exists>st. locks_reachable st \<and> fst (force_release_all 0 st) = 2 \<and>
     \<not> locked (snd (force_release_all 0 st)) 1"
proof -
  obtain st where st: "locks_reachable st" "lock_stack st 0 = [1, 2]" using locks_example by blast
  have "1 \<in> set (lock_stack st 0)" using st(2) by simp
  then have "\<forall>e. e \<noteq> 0 \<longrightarrow> 1 \<notin> set (lock_stack st e)"
    using locks_invD(4) [OF locks_reachable_inv [OF st(1)]] by blast
  then show ?thesis using force_release_exact [OF st(1), of 0 0 1] st by auto
qed

end
