(* ===== verification/Mmu.thy ===== *)
theory Mmu
  imports Frames
begin

text \<open>
  The Sv39 page tables of \<open>kernel/src/arch/riscv64/mmu.rs\<close>: three levels of 512 entries, tables
  allocated on demand from the frame allocator, a software bit for shared-memory pages. The
  state is the contents of the table frames (\<open>pts\<close>), the frame allocator and the address of
  the kernel's root. \<open>page_entry\<close> is the flat view, virtual address to leaf entry, in which
  every range operation is specified.
\<close>

section \<open>Entries\<close>

definition PTE_V :: u64 where "PTE_V = bit1 0"
definition PTE_R :: u64 where "PTE_R = bit1 1"
definition PTE_W :: u64 where "PTE_W = bit1 2"
definition PTE_X :: u64 where "PTE_X = bit1 3"
definition PTE_U :: u64 where "PTE_U = bit1 4"
definition PTE_G :: u64 where "PTE_G = bit1 5"
definition PTE_A :: u64 where "PTE_A = bit1 6"
definition PTE_D :: u64 where "PTE_D = bit1 7"
definition PTE_LEAF :: u64 where "PTE_LEAF = PTE_R OR PTE_W OR PTE_X"
definition RSW_SHARED :: u64 where "RSW_SHARED = bit1 8"

lemmas pte_bit_defs = PTE_V_def PTE_R_def PTE_W_def PTE_X_def PTE_U_def PTE_G_def PTE_A_def
  PTE_D_def PTE_LEAF_def RSW_SHARED_def

definition kernel_rwx :: u64 where
  "kernel_rwx = PTE_R OR PTE_W OR PTE_X OR PTE_A OR PTE_D OR PTE_G"

definition device_flags :: u64 where
  "device_flags = PTE_R OR PTE_W OR PTE_A OR PTE_D OR PTE_G"

definition user_code :: u64 where "user_code = PTE_R OR PTE_X OR PTE_U OR PTE_A"
definition user_data :: u64 where "user_data = PTE_R OR PTE_W OR PTE_U OR PTE_A OR PTE_D"
definition shared_flags :: "u64 \<Rightarrow> u64" where "shared_flags b = b OR RSW_SHARED"

definition user_prot :: "u64 \<Rightarrow> u64" where
  "user_prot prot =
     (if prot AND 7 = 0 then PTE_R OR PTE_A
      else let b = PTE_R OR PTE_U OR PTE_A;
               b = (if prot AND 2 \<noteq> 0 then b OR (PTE_W OR PTE_D) else b)
           in (if prot AND 4 \<noteq> 0 then b OR PTE_X else b))"

definition pte_pa :: "u64 \<Rightarrow> nat" where
  "pte_pa e = unat (push_bit 12 (drop_bit 10 e))"

definition pa_pte :: "nat \<Rightarrow> u64" where
  "pa_pte pa = push_bit 10 (drop_bit 12 (of_nat pa))"

definition vpn :: "nat \<Rightarrow> nat \<Rightarrow> nat" where
  "vpn va level = (va div 2 ^ (12 + 9 * level)) mod 512"

section \<open>State\<close>

record mmu =
  pts :: "nat \<Rightarrow> nat \<Rightarrow> u64"
  mfa :: frames
  kroot :: nat

definition IDX_RAM :: nat where "IDX_RAM = 2"
definition NRAM :: nat where "NRAM = 4"
definition IDX_MMIO :: nat where "IDX_MMIO = 256"

definition is_ram_idx :: "nat \<Rightarrow> bool" where
  "is_ram_idx i \<longleftrightarrow> IDX_RAM \<le> i \<and> i < IDX_RAM + NRAM"

definition entry :: "mmu \<Rightarrow> nat \<Rightarrow> nat \<Rightarrow> u64" where "entry st t i = pts st t i"

definition set_entry :: "nat \<Rightarrow> nat \<Rightarrow> u64 \<Rightarrow> mmu \<Rightarrow> mmu" where
  "set_entry t i v st = st\<lparr>pts := (pts st)(t := (pts st t)(i := v))\<rparr>"

definition zero_table :: "nat \<Rightarrow> mmu \<Rightarrow> mmu" where
  "zero_table t st = st\<lparr>pts := (pts st)(t := (\<lambda>_. 0))\<rparr>"

definition valid :: "u64 \<Rightarrow> bool" where "valid e \<longleftrightarrow> e AND PTE_V \<noteq> 0"
definition leaf :: "u64 \<Rightarrow> bool" where "leaf e \<longleftrightarrow> e AND PTE_LEAF \<noteq> 0"
definition is_shared :: "u64 \<Rightarrow> bool" where "is_shared e \<longleftrightarrow> e AND RSW_SHARED \<noteq> 0"
definition writable :: "u64 \<Rightarrow> bool" where "writable e \<longleftrightarrow> e AND PTE_W \<noteq> 0"
definition readable :: "u64 \<Rightarrow> bool" where "readable e \<longleftrightarrow> e AND PTE_R \<noteq> 0"
definition executable :: "u64 \<Rightarrow> bool" where "executable e \<longleftrightarrow> e AND PTE_X \<noteq> 0"
definition user_page :: "u64 \<Rightarrow> bool" where "user_page e \<longleftrightarrow> e AND PTE_U \<noteq> 0"

section \<open>Operations\<close>

definition mmu_alloc :: "mmu \<Rightarrow> (nat \<times> mmu) option" where
  "mmu_alloc st = map_option (\<lambda>(a, fa). (a, st\<lparr>mfa := fa\<rparr>)) (alloc_frame (mfa st))"

definition mmu_free :: "nat \<Rightarrow> mmu \<Rightarrow> mmu" where
  "mmu_free a st = st\<lparr>mfa := free_frame a (mfa st)\<rparr>"

definition mmu_inc_ref :: "nat \<Rightarrow> mmu \<Rightarrow> mmu" where
  "mmu_inc_ref a st = st\<lparr>mfa := inc_ref a (mfa st)\<rparr>"

definition kernel_init :: "mmu \<Rightarrow> mmu" where
  "kernel_init st = set_entry (kroot st) IDX_MMIO (pa_pte 0 OR device_flags OR PTE_V)
     (fold (\<lambda>k. set_entry (kroot st) (IDX_RAM + k)
        (pa_pte ((IDX_RAM + k) * 2 ^ 30) OR kernel_rwx OR PTE_V)) [0..<NRAM] st)"

definition next_table :: "nat \<Rightarrow> nat \<Rightarrow> mmu \<Rightarrow> nat option \<times> mmu" where
  "next_table t i st =
     (let e = entry st t i in
      if valid e then (if leaf e then (None, st) else (Some (pte_pa e), st))
      else case mmu_alloc st of
             None \<Rightarrow> (None, st)
           | Some (new, st) \<Rightarrow> (Some new, set_entry t i (pa_pte new OR PTE_V) (zero_table new st)))"

definition map_page :: "nat \<Rightarrow> nat \<Rightarrow> nat \<Rightarrow> u64 \<Rightarrow> mmu \<Rightarrow> bool \<times> mmu" where
  "map_page root va pa flags st =
     (case next_table root (vpn va 2) st of
        (None, st) \<Rightarrow> (False, st)
      | (Some l1, st) \<Rightarrow>
          (case next_table l1 (vpn va 1) st of
             (None, st) \<Rightarrow> (False, st)
           | (Some l0, st) \<Rightarrow>
               (True, set_entry l0 (vpn va 0) (pa_pte pa OR flags OR PTE_V) st)))"

definition create_user_space :: "mmu \<Rightarrow> (nat \<times> mmu) option" where
  "create_user_space st =
     (case mmu_alloc st of
        None \<Rightarrow> None
      | Some (root, st) \<Rightarrow>
          let st = zero_table root st;
              st = fold (\<lambda>k st. set_entry root k (entry st (kroot st) k) st) [IDX_RAM..<IDX_RAM + NRAM] st;
              st = set_entry root IDX_MMIO (entry st (kroot st) IDX_MMIO) st
          in Some (root, st))"

definition free_leaf :: "nat \<Rightarrow> nat \<Rightarrow> mmu \<Rightarrow> mmu" where
  "free_leaf l0 i0 st =
     (let e0 = entry st l0 i0 in
      if valid e0 \<and> leaf e0 \<and> \<not> is_shared e0 then mmu_free (pte_pa e0) st else st)"

definition free_l1_slot :: "nat \<Rightarrow> nat \<Rightarrow> mmu \<Rightarrow> mmu" where
  "free_l1_slot l1 i1 st =
     (let e1 = entry st l1 i1 in
      if \<not> valid e1 \<or> leaf e1 then st
      else let l0 = pte_pa e1 in mmu_free l0 (fold (free_leaf l0) [0..<512] st))"

definition free_root_slot :: "nat \<Rightarrow> nat \<Rightarrow> mmu \<Rightarrow> mmu" where
  "free_root_slot root i2 st =
     (if is_ram_idx i2 \<or> i2 = IDX_MMIO then st
      else let e2 = entry st root i2 in
        if \<not> valid e2 \<or> leaf e2 then st
        else let l1 = pte_pa e2 in mmu_free l1 (fold (free_l1_slot l1) [0..<512] st))"

definition free_user_space :: "nat \<Rightarrow> mmu \<Rightarrow> mmu" where
  "free_user_space root st = mmu_free root (fold (free_root_slot root) [0..<512] st)"

text \<open>\<open>translate_user\<close>: the walk that also accepts large leaves.\<close>

fun translate_from :: "mmu \<Rightarrow> nat \<Rightarrow> nat \<Rightarrow> nat \<Rightarrow> bool \<Rightarrow> nat option" where
  "translate_from st table level va wr =
     (let e = entry st table (vpn va level) in
      if \<not> valid e then None
      else if leaf e then
        if \<not> user_page e then None
        else if wr \<and> \<not> writable e then None
        else let size = 2 ^ (12 + 9 * level) in
          Some (pte_pa e - pte_pa e mod size + va mod size)
      else case level of 0 \<Rightarrow> None | Suc l \<Rightarrow> translate_from st (pte_pa e) l va wr)"

declare translate_from.simps [simp del]

definition translate_user :: "mmu \<Rightarrow> nat \<Rightarrow> nat \<Rightarrow> bool \<Rightarrow> nat option" where
  "translate_user st root va wr = (if 2 ^ 38 \<le> va then None else translate_from st root 2 va wr)"

text \<open>
  \<open>walk_leaves\<close>: visits the 4 KiB leaf slots of \<open>[va, end)\<close> whose tables exist, skipping absent
  levels whole; \<open>f\<close> gets the address and the slot \<open>(table, index)\<close>.
\<close>

definition next_at :: "nat \<Rightarrow> nat \<Rightarrow> nat" where
  "next_at va shift = (va div 2 ^ shift + 1) * 2 ^ shift"

lemma next_at_gt: "va < next_at va shift"
  unfolding next_at_def using dividend_less_div_times [of "2 ^ shift" va] by simp

function walk_leaves ::
  "(nat \<Rightarrow> nat \<Rightarrow> nat \<Rightarrow> mmu \<times> 'a \<Rightarrow> mmu \<times> 'a) \<Rightarrow> nat \<Rightarrow> nat \<Rightarrow> nat \<Rightarrow> mmu \<times> 'a \<Rightarrow> mmu \<times> 'a" where
  "walk_leaves f root va end_va s =
     (if va < end_va then
        let e2 = entry (fst s) root (vpn va 2) in
        if \<not> valid e2 \<or> leaf e2 then walk_leaves f root (next_at va 30) end_va s
        else let e1 = entry (fst s) (pte_pa e2) (vpn va 1) in
          if \<not> valid e1 \<or> leaf e1 then walk_leaves f root (next_at va 21) end_va s
          else walk_leaves f root (va + 4096) end_va (f va (pte_pa e1) (vpn va 0) s)
      else s)"
  by pat_completeness auto
termination
proof (relation "measure (\<lambda>(f, root, va, end_va, s). end_va - va)", goal_cases)
  case (2 f root va end_va s)
  then show ?case using next_at_gt [of va 30] by auto
next
  case (3 f root va end_va s)
  then show ?case using next_at_gt [of va 21] by auto
qed auto

declare walk_leaves.simps [simp del]

definition page_down :: "nat \<Rightarrow> nat" where "page_down x = x - x mod 4096"

definition leaves ::
  "(nat \<Rightarrow> nat \<Rightarrow> nat \<Rightarrow> mmu \<times> 'a \<Rightarrow> mmu \<times> 'a) \<Rightarrow> nat \<Rightarrow> nat \<Rightarrow> nat \<Rightarrow> mmu \<times> 'a \<Rightarrow> mmu \<times> 'a" where
  "leaves f root start end_va s = walk_leaves f root (page_down start) (min end_va (2 ^ 38)) s"

text \<open>The range operations count the entries they change: the callers flush when it is not 0.\<close>

fun unmap_leaf :: "nat \<Rightarrow> nat \<Rightarrow> nat \<Rightarrow> mmu \<times> nat \<Rightarrow> mmu \<times> nat" where
  "unmap_leaf va t i (st, n) =
     (let e = entry st t i in
      if valid e then
        let st = set_entry t i 0 st in
        (if \<not> is_shared e then mmu_free (pte_pa e) st else st, n + 1)
      else (st, n))"

definition unmap_range :: "nat \<Rightarrow> nat \<Rightarrow> nat \<Rightarrow> mmu \<Rightarrow> mmu \<times> nat" where
  "unmap_range root start end_va st = leaves unmap_leaf root start end_va (st, 0)"

fun protect_leaf :: "u64 \<Rightarrow> nat \<Rightarrow> nat \<Rightarrow> nat \<Rightarrow> mmu \<times> nat \<Rightarrow> mmu \<times> nat" where
  "protect_leaf flags va t i (st, n) =
     (let e = entry st t i in
      if valid e then
        let new_e = pa_pte (pte_pa e) OR flags OR PTE_V OR (e AND RSW_SHARED) in
        if new_e \<noteq> e then (set_entry t i new_e st, n + 1) else (st, n)
      else (st, n))"

definition protect_range :: "nat \<Rightarrow> nat \<Rightarrow> nat \<Rightarrow> u64 \<Rightarrow> mmu \<Rightarrow> mmu \<times> nat" where
  "protect_range root start end_va flags st = leaves (protect_leaf flags) root start end_va (st, 0)"

fun move_leaf :: "nat \<Rightarrow> nat \<Rightarrow> nat \<Rightarrow> nat \<Rightarrow> nat \<Rightarrow> nat \<Rightarrow> mmu \<times> nat \<Rightarrow> mmu \<times> nat" where
  "move_leaf root old_start new_start va t i (st, n) =
     (let e = entry st t i in
      if valid e then
        let dst_va = new_start + (va - old_start); flags = e AND 0x3FE;
            (ok, st) = map_page root dst_va (pte_pa e) flags st
        in if ok then (set_entry t i 0 st, n + 1) else (st, n)
      else (st, n))"

definition move_range :: "nat \<Rightarrow> nat \<Rightarrow> nat \<Rightarrow> nat \<Rightarrow> mmu \<Rightarrow> mmu \<times> nat" where
  "move_range root old_start old_end new_start st =
     leaves (move_leaf root old_start new_start) root old_start old_end (st, 0)"

fun probe_leaf :: "nat \<Rightarrow> nat \<Rightarrow> nat \<Rightarrow> mmu \<times> bool \<Rightarrow> mmu \<times> bool" where
  "probe_leaf va t i (st, found) = (st, valid (entry st t i))"

definition is_mapped :: "nat \<Rightarrow> nat \<Rightarrow> mmu \<Rightarrow> bool" where
  "is_mapped root va st = snd (leaves probe_leaf root va (va + 1) (st, False))"

declare unmap_leaf.simps [simp del] protect_leaf.simps [simp del] move_leaf.simps [simp del]

text \<open>
  \<open>clone_user_space\<close>: the three loops with the early return; \<open>None\<close> is the failed clone, whose
  state is kept for the clean-up of the new space.
\<close>

type_synonym clone_run = "bool \<times> mmu"

definition clone_leaf :: "nat \<Rightarrow> nat \<Rightarrow> nat \<Rightarrow> nat \<Rightarrow> nat \<Rightarrow> mmu \<Rightarrow> clone_run" where
  "clone_leaf dst i2 i1 l0 i0 st =
     (let e0 = entry st l0 i0 in
      if \<not> valid e0 \<or> \<not> leaf e0 then (True, st)
      else
        let va = i2 * 2 ^ 30 + i1 * 2 ^ 21 + i0 * 2 ^ 12;
            pa = pte_pa e0; flags = e0 AND 0x3FE; read_only = \<not> writable e0;
            (child_flags, st) =
              (if reserved (plat (mfa st)) pa \<or> is_shared e0 then (flags, st)
               else if read_only then (flags, mmu_inc_ref pa st)
               else (flags AND NOT PTE_W,
                     mmu_inc_ref pa (set_entry l0 i0 (e0 AND NOT PTE_W) st)));
            (ok, st) = map_page dst va pa child_flags st
        in if ok then (True, st)
           else if \<not> reserved (plat (mfa st)) pa \<and> \<not> is_shared e0 then (False, mmu_free pa st)
           else (False, st))"

definition then_clone :: "(mmu \<Rightarrow> clone_run) \<Rightarrow> clone_run \<Rightarrow> clone_run" where
  "then_clone f r = (if fst r then f (snd r) else r)"

definition clone_l1_slot :: "nat \<Rightarrow> nat \<Rightarrow> nat \<Rightarrow> nat \<Rightarrow> mmu \<Rightarrow> clone_run" where
  "clone_l1_slot dst i2 l1 i1 st =
     (let e1 = entry st l1 i1 in
      if \<not> valid e1 \<or> leaf e1 then (True, st)
      else fold (\<lambda>i0. then_clone (clone_leaf dst i2 i1 (pte_pa e1) i0)) [0..<512] (True, st))"

definition clone_root_slot :: "nat \<Rightarrow> nat \<Rightarrow> nat \<Rightarrow> mmu \<Rightarrow> clone_run" where
  "clone_root_slot src dst i2 st =
     (if is_ram_idx i2 \<or> i2 = IDX_MMIO then (True, st)
      else let e2 = entry st src i2 in
        if \<not> valid e2 \<or> leaf e2 then (True, st)
        else fold (\<lambda>i1. then_clone (clone_l1_slot dst i2 (pte_pa e2) i1)) [0..<512] (True, st))"

definition clone_user_space :: "nat \<Rightarrow> mmu \<Rightarrow> nat option \<times> mmu" where
  "clone_user_space src st =
     (case create_user_space st of
        None \<Rightarrow> (None, st)
      | Some (dst, st) \<Rightarrow>
          (case fold (\<lambda>i2. then_clone (clone_root_slot src dst i2)) [0..<512] (True, st) of
             (True, st) \<Rightarrow> (Some dst, st)
           | (False, st) \<Rightarrow> (None, free_user_space dst st)))"

text \<open>The leaf entry of a virtual address: the flat view of a space.\<close>

definition sub_table :: "mmu \<Rightarrow> nat \<Rightarrow> nat \<Rightarrow> nat option" where
  "sub_table st t i =
     (let e = entry st t i in if \<not> valid e \<or> leaf e then None else Some (pte_pa e))"

definition leaf_table :: "mmu \<Rightarrow> nat \<Rightarrow> nat \<Rightarrow> nat option" where
  "leaf_table st root va =
     (case sub_table st root (vpn va 2) of None \<Rightarrow> None | Some l1 \<Rightarrow> sub_table st l1 (vpn va 1))"

definition page_entry :: "mmu \<Rightarrow> nat \<Rightarrow> nat \<Rightarrow> u64" where
  "page_entry st root va =
     (case leaf_table st root va of None \<Rightarrow> 0 | Some l0 \<Rightarrow> entry st l0 (vpn va 0))"

section \<open>Bits of an entry\<close>

lemma entry_bits:
  "valid e \<longleftrightarrow> bit e 0" "writable e \<longleftrightarrow> bit e 2" "user_page e \<longleftrightarrow> bit e 4" "is_shared e \<longleftrightarrow> bit e 8"
  by (simp_all add: valid_def writable_def user_page_def is_shared_def pte_bit_defs and_bit1_eq_0)

lemma leaf_bits: "leaf e \<longleftrightarrow> bit e 1 \<or> bit e 2 \<or> bit e 3"
proof -
  have "leaf e \<longleftrightarrow> e AND PTE_R \<noteq> 0 \<or> e AND PTE_W \<noteq> 0 \<or> e AND PTE_X \<noteq> 0"
    unfolding leaf_def PTE_LEAF_def bit.conj_disj_distrib by (simp add: or_eq_0_iff)
  then show ?thesis by (simp add: pte_bit_defs and_bit1_eq_0)
qed

lemma bit_pa_pte: "bit (pa_pte pa) n \<longleftrightarrow> 10 \<le> n \<and> n < 64 \<and> bit (of_nat pa :: u64) (n + 2)"
  by (auto simp: pa_pte_def bit_simps dest: bit_imp_le_length)

lemma valid_0 [simp]: "\<not> valid 0"
  by (simp add: entry_bits)

definition flag_bits :: "u64 \<Rightarrow> bool" where
  "flag_bits f \<longleftrightarrow> (\<forall>n. bit f n \<longrightarrow> n < 10)"

lemma pte_pa_entry:
  assumes "4096 dvd pa" "pa < 2 ^ 64" "flag_bits f"
  shows "pte_pa (pa_pte pa OR f OR PTE_V) = pa"
proof -
  have low: "\<not> bit (of_nat pa :: u64) n" if "n < 12" for n
  proof -
    from assms(1) obtain k where "pa = 4096 * k" by (auto simp: dvd_def)
    then have "(of_nat pa :: u64) = push_bit 12 (of_nat k)" by (simp add: push_bit_eq_mult)
    then show ?thesis using that by (simp add: bit_push_bit_iff)
  qed
  have "push_bit 12 (drop_bit 10 (pa_pte pa OR f OR PTE_V)) = (of_nat pa :: u64)"
  proof (rule bit_word_eqI)
    fix n :: nat assume n: "n < LENGTH(64)"
    show "bit (push_bit 12 (drop_bit 10 (pa_pte pa OR f OR PTE_V)) :: u64) n = bit (of_nat pa :: u64) n"
    proof (cases "n < 12")
      case False
      then have "10 + (n - 12) = n - 2" "10 \<le> n - 2" "n - 2 + 2 = n" "\<not> bit f (n - 2)"
        using assms(3) by (auto simp: flag_bits_def)
      then show ?thesis using False n
        by (auto simp: bit_push_bit_iff bit_drop_bit_eq bit_or_iff bit_pa_pte PTE_V_def bit_bit1)
    next
      case True
      then show ?thesis using low [OF True] by (simp only: bit_push_bit_iff) simp
    qed
  qed
  then show ?thesis using assms(2) by (simp add: pte_pa_def unat_of_nat)
qed

lemma entry_flags:
  assumes "flag_bits f"
  shows "valid (pa_pte pa OR f OR PTE_V)" "leaf (pa_pte pa OR f OR PTE_V) \<longleftrightarrow> leaf f"
    "writable (pa_pte pa OR f OR PTE_V) \<longleftrightarrow> writable f"
    "user_page (pa_pte pa OR f OR PTE_V) \<longleftrightarrow> user_page f"
    "is_shared (pa_pte pa OR f OR PTE_V) \<longleftrightarrow> is_shared f"
  by (simp_all add: entry_bits leaf_bits bit_or_iff bit_pa_pte PTE_V_def bit_bit1)

lemma flag_bits_0 [simp]: "flag_bits 0" by (simp add: flag_bits_def)

lemma flag_bits_or: "flag_bits a \<Longrightarrow> flag_bits b \<Longrightarrow> flag_bits (a OR b)"
  by (auto simp: flag_bits_def bit_or_iff)

lemma flag_bits_consts [simp]:
  "flag_bits PTE_R" "flag_bits PTE_W" "flag_bits PTE_X" "flag_bits PTE_U" "flag_bits PTE_G"
  "flag_bits PTE_A" "flag_bits PTE_D" "flag_bits RSW_SHARED" "flag_bits PTE_V"
  by (simp_all add: flag_bits_def pte_bit_defs bit_bit1)

lemma flag_bits_user_prot [simp]: "flag_bits (user_prot prot)"
  by (simp add: user_prot_def Let_def flag_bits_or)

lemma table_entry:
  assumes "4096 dvd pa" "pa < 2 ^ 64"
  shows "pte_pa (pa_pte pa OR PTE_V) = pa" "valid (pa_pte pa OR PTE_V)" "\<not> leaf (pa_pte pa OR PTE_V)"
  using pte_pa_entry [OF assms, of 0] entry_flags [of 0 pa] by (auto simp: leaf_bits)

section \<open>Address spaces\<close>

definition user_idx :: "nat \<Rightarrow> bool" where
  "user_idx i \<longleftrightarrow> i < 512 \<and> \<not> is_ram_idx i \<and> i \<noteq> IDX_MMIO"

definition l1_tables :: "mmu \<Rightarrow> nat \<Rightarrow> nat set" where
  "l1_tables st root = {l1. \<exists>i. sub_table st root i = Some l1}"

definition l0_tables :: "mmu \<Rightarrow> nat \<Rightarrow> nat set" where
  "l0_tables st root = {l0. \<exists>i j l1. sub_table st root i = Some l1 \<and> sub_table st l1 j = Some l0}"

definition space_tables :: "mmu \<Rightarrow> nat \<Rightarrow> nat set" where
  "space_tables st root = insert root (l1_tables st root \<union> l0_tables st root)"

text \<open>
  A well-formed address space: below the user slots of the root the tables form a tree (every
  table has one parent slot, no table serves two levels), all of them frames the allocator
  has handed out.
\<close>

definition space_wf :: "mmu \<Rightarrow> nat \<Rightarrow> bool" where
  "space_wf st root \<longleftrightarrow>
     (\<forall>i. \<not> user_idx i \<longrightarrow> sub_table st root i = None) \<and>
     (\<forall>i i' l. sub_table st root i = Some l \<and> sub_table st root i' = Some l \<longrightarrow> i = i') \<and>
     (\<forall>i j i' j' l1 l1' l. sub_table st root i = Some l1 \<and> sub_table st l1 j = Some l \<and>
        sub_table st root i' = Some l1' \<and> sub_table st l1' j' = Some l \<longrightarrow> i = i' \<and> j = j') \<and>
     root \<notin> l1_tables st root \<and> root \<notin> l0_tables st root \<and>
     l1_tables st root \<inter> l0_tables st root = {} \<and>
     (\<forall>t \<in> space_tables st root. 0 < addr_refs (mfa st) t)"

lemma space_wfI:
  assumes "\<And>i. \<not> user_idx i \<Longrightarrow> sub_table st root i = None"
    and "\<And>i i' l. sub_table st root i = Some l \<Longrightarrow> sub_table st root i' = Some l \<Longrightarrow> i = i'"
    and "\<And>i j i' j' l1 l1' l. sub_table st root i = Some l1 \<Longrightarrow> sub_table st l1 j = Some l \<Longrightarrow>
      sub_table st root i' = Some l1' \<Longrightarrow> sub_table st l1' j' = Some l \<Longrightarrow> i = i' \<and> j = j'"
    and "root \<notin> l1_tables st root" "root \<notin> l0_tables st root"
    and "l1_tables st root \<inter> l0_tables st root = {}"
    and "\<And>t. t \<in> space_tables st root \<Longrightarrow> 0 < addr_refs (mfa st) t"
  shows "space_wf st root"
  unfolding space_wf_def using assms by blast

definition same_page :: "nat \<Rightarrow> nat \<Rightarrow> bool" where
  "same_page va va' \<longleftrightarrow> va div 4096 = va' div 4096"

definition user_va :: "nat \<Rightarrow> bool" where
  "user_va va \<longleftrightarrow> va < 2 ^ 38 \<and> user_idx (vpn va 2)"

lemma space_wfD:
  assumes "space_wf st root"
  shows "sub_table st root i = Some l \<Longrightarrow> user_idx i"
    "sub_table st root i = Some l \<Longrightarrow> sub_table st root i' = Some l \<Longrightarrow> i = i'"
    "sub_table st root i = Some l1 \<Longrightarrow> sub_table st l1 j = Some l \<Longrightarrow>
      sub_table st root i' = Some l1' \<Longrightarrow> sub_table st l1' j' = Some l \<Longrightarrow> i = i' \<and> j = j'"
    "root \<notin> l1_tables st root" "root \<notin> l0_tables st root"
    "l1_tables st root \<inter> l0_tables st root = {}"
    "t \<in> space_tables st root \<Longrightarrow> 0 < addr_refs (mfa st) t"
  using assms unfolding space_wf_def by (metis option.distinct(1), blast+)

lemma same_page_vpn:
  assumes "va < 2 ^ 38" "va' < 2 ^ 38"
  shows "same_page va va' \<longleftrightarrow> vpn va 2 = vpn va' 2 \<and> vpn va 1 = vpn va' 1 \<and> vpn va 0 = vpn va' 0"
proof -
  define p where "p = va div 4096"
  define q where "q = va' div 4096"
  have small: "p < 2 ^ 26" "q < 2 ^ 26"
    using assms by (auto simp: p_def q_def div_less_iff_less_mult)
  have v: "vpn va 2 = p div 262144 mod 512" "vpn va 1 = p div 512 mod 512" "vpn va 0 = p mod 512"
    "vpn va' 2 = q div 262144 mod 512" "vpn va' 1 = q div 512 mod 512" "vpn va' 0 = q mod 512"
    by (simp_all add: vpn_def p_def q_def div_mult2_eq [symmetric])
  have hi: "p div 262144 mod 512 = p div 262144" "q div 262144 mod 512 = q div 262144"
    using small by (simp_all add: div_less_iff_less_mult)
  have "p = q" if "p div 262144 = q div 262144" "p div 512 mod 512 = q div 512 mod 512"
    "p mod 512 = q mod 512"
  proof -
    have d: "n = (n div 262144) * 262144 + (n div 512 mod 512) * 512 + n mod 512" for n :: nat
    proof -
      have "n div 512 div 512 = n div 262144" by (simp add: div_mult2_eq [symmetric])
      then show ?thesis
        using div_mult_mod_eq [of n 512] div_mult_mod_eq [of "n div 512" 512] by linarith
    qed
    from d [of p] d [of q] that show ?thesis by simp
  qed
  then show ?thesis unfolding same_page_def v hi p_def [symmetric] q_def [symmetric] by auto
qed

lemma leaf_table_Some:
  "leaf_table st root va = Some l0 \<longleftrightarrow>
    (\<exists>l1. sub_table st root (vpn va 2) = Some l1 \<and> sub_table st l1 (vpn va 1) = Some l0)"
  by (auto simp: leaf_table_def split: option.splits)

lemma leaf_slot_inj:
  assumes "space_wf st root" "leaf_table st root va = Some l0" "leaf_table st root va' = Some l0"
    "vpn va 0 = vpn va' 0" "va < 2 ^ 38" "va' < 2 ^ 38"
  shows "same_page va va'"
proof -
  obtain l1 l1' where
    "sub_table st root (vpn va 2) = Some l1" "sub_table st l1 (vpn va 1) = Some l0"
    "sub_table st root (vpn va' 2) = Some l1'" "sub_table st l1' (vpn va' 1) = Some l0"
    using assms(2,3) by (auto simp: leaf_table_Some)
  from space_wfD(3) [OF assms(1) this] assms(4) same_page_vpn [OF assms(5,6)] show ?thesis by simp
qed

lemma leaf_table_mem:
  assumes "leaf_table st root va = Some l0"
  shows "l0 \<in> l0_tables st root" "l0 \<in> space_tables st root"
  using assms by (auto simp: leaf_table_Some l0_tables_def space_tables_def)

text \<open>Only the contents of a space's own tables matter to it.\<close>

lemma space_frame:
  assumes "\<And>t. t \<in> space_tables st root \<Longrightarrow> pts st' t = pts st t"
  shows "sub_table st' root i = sub_table st root i"
    and "sub_table st root i = Some l1 \<Longrightarrow> sub_table st' l1 j = sub_table st l1 j"
    and "leaf_table st' root va = leaf_table st root va"
    and "page_entry st' root va = page_entry st root va"
    and "l1_tables st' root = l1_tables st root" and "l0_tables st' root = l0_tables st root"
    and "space_tables st' root = space_tables st root"
proof -
  have r: "pts st' root = pts st root" using assms by (simp add: space_tables_def)
  show s: "sub_table st' root i = sub_table st root i" for i
    by (simp add: sub_table_def entry_def r)
  show s1: "sub_table st' l1 j = sub_table st l1 j" if "sub_table st root i = Some l1" for i l1 j
    using assms [of l1] that by (force simp: sub_table_def entry_def space_tables_def l1_tables_def)
  show lt: "leaf_table st' root va = leaf_table st root va" for va
    using s s1 by (auto simp: leaf_table_def split: option.splits)
  show "page_entry st' root va = page_entry st root va"
    using assms leaf_table_mem [of st root va] by (auto simp: page_entry_def lt entry_def split: option.splits)
  show l1: "l1_tables st' root = l1_tables st root" by (simp add: l1_tables_def s)
  show l0: "l0_tables st' root = l0_tables st root"
    using s s1 by (auto simp: l0_tables_def) metis+
  show "space_tables st' root = space_tables st root" by (simp add: space_tables_def l1 l0)
qed

lemma space_frame_wf:
  assumes "space_wf st root" "\<And>t. t \<in> space_tables st root \<Longrightarrow> pts st' t = pts st t"
    "\<And>t. t \<in> space_tables st root \<Longrightarrow> 0 < addr_refs (mfa st') t"
  shows "space_wf st' root"
proof -
  note f = space_frame [of st root st', OF assms(2)]
  note w = space_wfD [OF assms(1)]
  show ?thesis
  proof (rule space_wfI)
    fix i assume "\<not> user_idx i"
    then show "sub_table st' root i = None" using w(1) f(1) by (cases "sub_table st root i") auto
  next
    fix i i' l assume "sub_table st' root i = Some l" "sub_table st' root i' = Some l"
    then show "i = i'" using w(2) f(1) by simp
  next
    fix i j i' j' l1 l1' l
    assume a: "sub_table st' root i = Some l1" "sub_table st' l1 j = Some l"
      "sub_table st' root i' = Some l1'" "sub_table st' l1' j' = Some l"
    then have b: "sub_table st root i = Some l1" "sub_table st root i' = Some l1'" by (simp_all add: f(1))
    then have "sub_table st l1 j = Some l" "sub_table st l1' j' = Some l" using a f(2) by simp_all
    with b show "i = i' \<and> j = j'" using w(3) by blast
  qed (use w(4-7) assms(3) f(5-7) in auto)
qed

section \<open>Writing one leaf slot\<close>

lemma set_entry_simps [simp]:
  "mfa (set_entry t i v st) = mfa st" "kroot (set_entry t i v st) = kroot st"
  "entry (set_entry t i v st) t' i' = (if t' = t \<and> i' = i then v else entry st t' i')"
  by (auto simp: set_entry_def entry_def)

lemma pts_set_entry: "t' \<noteq> t \<Longrightarrow> pts (set_entry t i v st) t' = pts st t'"
  by (simp add: set_entry_def)

text \<open>Writing into a last-level table leaves the upper levels alone.\<close>

lemma set_leaf_tables:
  assumes "space_wf st root" "l0 \<in> l0_tables st root"
  shows "sub_table (set_entry l0 j v st) root i = sub_table st root i"
    and "sub_table st root i = Some l1 \<Longrightarrow> sub_table (set_entry l0 j v st) l1 k = sub_table st l1 k"
    and "leaf_table (set_entry l0 j v st) root va = leaf_table st root va"
    and "space_tables (set_entry l0 j v st) root = space_tables st root"
    and "space_wf (set_entry l0 j v st) root"
proof -
  let ?st = "set_entry l0 j v st"
  note w = space_wfD [OF assms(1)]
  have nr: "l0 \<noteq> root" using assms(2) w(5) by auto
  have n1: "l0 \<noteq> l1" if "sub_table st root i = Some l1" for i l1
    using that assms(2) w(6) by (auto simp: l1_tables_def)
  show s: "sub_table ?st root i = sub_table st root i" for i
    using nr by (simp add: sub_table_def)
  show s1: "sub_table ?st l1 k = sub_table st l1 k" if "sub_table st root i = Some l1" for i l1 k
    using n1 [OF that] by (simp add: sub_table_def)
  show "leaf_table ?st root va = leaf_table st root va"
    using s s1 by (auto simp: leaf_table_def split: option.splits)
  have t: "l1_tables ?st root = l1_tables st root" "l0_tables ?st root = l0_tables st root"
    using s s1 by (auto simp: l1_tables_def l0_tables_def) metis+
  then show sp: "space_tables ?st root = space_tables st root" by (simp add: space_tables_def)
  show "space_wf ?st root"
  proof (rule space_wfI)
    fix i assume "\<not> user_idx i"
    then show "sub_table ?st root i = None" using w(1) s by (cases "sub_table st root i") auto
  next
    fix i i' l assume "sub_table ?st root i = Some l" "sub_table ?st root i' = Some l"
    then show "i = i'" using w(2) s by simp
  next
    fix i j i' j' l1 l1' l
    assume a: "sub_table ?st root i = Some l1" "sub_table ?st l1 j = Some l"
      "sub_table ?st root i' = Some l1'" "sub_table ?st l1' j' = Some l"
    then have b: "sub_table st root i = Some l1" "sub_table st root i' = Some l1'" by (simp_all add: s)
    then have "sub_table st l1 j = Some l" "sub_table st l1' j' = Some l" using a s1 by simp_all
    with b show "i = i' \<and> j = j'" using w(3) by blast
  qed (use w(4-7) t sp in auto)
qed

lemma set_leaf_entry:
  assumes "space_wf st root" "leaf_table st root va = Some l0" "va < 2 ^ 38" "va' < 2 ^ 38"
  shows "page_entry (set_entry l0 (vpn va 0) v st) root va' =
    (if same_page va va' then v else page_entry st root va')"
proof -
  note l0 = leaf_table_mem [OF assms(2)]
  note t = set_leaf_tables(3) [OF assms(1) l0(1)]
  show ?thesis
  proof (cases "same_page va va'")
    case True
    then have "vpn va 2 = vpn va' 2" "vpn va 1 = vpn va' 1" "vpn va 0 = vpn va' 0"
      using same_page_vpn [OF assms(3,4)] by auto
    moreover from this have "leaf_table st root va' = Some l0"
      using assms(2) by (metis leaf_table_Some)
    ultimately show ?thesis using True by (simp add: page_entry_def t)
  next
    case False
    have "\<not> (x = l0 \<and> vpn va' 0 = vpn va 0)" if "leaf_table st root va' = Some x" for x
      using leaf_slot_inj [OF assms(1,2) _ _ assms(3,4)] that False by auto
    then show ?thesis using False by (auto simp: page_entry_def t split: option.splits)
  qed
qed

section \<open>Creating tables\<close>

definition mmu_ok :: "mmu \<Rightarrow> bool" where "mmu_ok st \<longleftrightarrow> frames_inv (mfa st)"

lemma mmu_allocD:
  assumes "mmu_ok st" "mmu_alloc st = Some (a, st')"
  shows "mmu_ok st'" "pts st' = pts st" "kroot st' = kroot st" "4096 dvd a" "a < 2 ^ 64" "0 < a"
    "addr_refs (mfa st) a = 0" "addr_refs (mfa st') = (addr_refs (mfa st))(a := 1)"
proof -
  obtain fa where fa: "alloc_frame (mfa st) = Some (a, fa)" "st' = st\<lparr>mfa := fa\<rparr>"
    using assms(2) by (auto simp: mmu_alloc_def)
  have inv: "frames_inv (mfa st)" using assms(1) by (simp add: mmu_ok_def)
  note l = fs.alloc_law [OF inv fa(1)]
  have "heap_frame (plat (mfa st)) a" using alloc_frame_Some [OF inv fa(1)] by metis
  moreover have "heap_end (plat (mfa st)) \<le> 2 ^ 56"
    using frames_wfD(1) [OF frames_invD(1) [OF inv]] by (simp add: plat_ok_def)
  ultimately show "a < 2 ^ 64" by (simp add: heap_frame_def)
  show "mmu_ok st'" "pts st' = pts st" "kroot st' = kroot st" "4096 dvd a" "0 < a"
    "addr_refs (mfa st) a = 0" "addr_refs (mfa st') = (addr_refs (mfa st))(a := 1)"
    using l fa(2) by (auto simp: mmu_ok_def)
qed

text \<open>What a step that only creates empty tables keeps: the flat view, and all allocated frames.\<close>

definition extends :: "mmu \<Rightarrow> mmu \<Rightarrow> bool" where
  "extends st st' \<longleftrightarrow> mmu_ok st' \<and> kroot st' = kroot st \<and>
     (\<forall>a. 0 < addr_refs (mfa st) a \<longrightarrow> addr_refs (mfa st') a = addr_refs (mfa st) a)"

lemma extends_refl: "mmu_ok st \<Longrightarrow> extends st st"
  by (simp add: extends_def)

lemma extends_trans: "extends st st' \<Longrightarrow> extends st' st'' \<Longrightarrow> extends st st''"
  by (auto simp: extends_def)

lemma extends_set_entry: "extends st st' \<Longrightarrow> extends st (set_entry t i v st')"
  by (simp add: extends_def mmu_ok_def)

lemma new_table:
  assumes "mmu_ok st" "mmu_alloc st = Some (new, st1)" "st' = set_entry t i (pa_pte new OR PTE_V) (zero_table new st1)"
    "0 < addr_refs (mfa st) t"
  shows "extends st st'" "new \<noteq> t"
    "sub_table st' t' j = (if t' = t \<and> j = i then Some new else if t' = new then None else sub_table st t' j)"
    "t' \<noteq> t \<Longrightarrow> t' \<noteq> new \<Longrightarrow> pts st' t' = pts st t'"
    "entry st' new j = 0" "t' \<noteq> new \<Longrightarrow> (t', j) \<noteq> (t, i) \<Longrightarrow> entry st' t' j = entry st t' j"
    "0 < addr_refs (mfa st') new"
proof -
  note a = mmu_allocD [OF assms(1,2)]
  show ne: "new \<noteq> t" using a(7) assms(4) by auto
  have e: "entry st' t' j = (if t' = t \<and> j = i then pa_pte new OR PTE_V else if t' = new then 0
      else entry st t' j)" for t' j
    using ne by (simp add: assms(3)) (simp add: entry_def zero_table_def a(2))
  show "sub_table st' t' j = (if t' = t \<and> j = i then Some new else if t' = new then None
      else sub_table st t' j)"
    using table_entry [OF a(4,5)] by (simp add: sub_table_def e)
  show "entry st' new j = 0" using ne by (simp add: e)
  show "t' \<noteq> new \<Longrightarrow> (t', j) \<noteq> (t, i) \<Longrightarrow> entry st' t' j = entry st t' j" by (auto simp: e)
  show "t' \<noteq> t \<Longrightarrow> t' \<noteq> new \<Longrightarrow> pts st' t' = pts st t'"
    by (simp add: assms(3) pts_set_entry zero_table_def a(2))
  show "extends st st'" "0 < addr_refs (mfa st') new" using a
    by (auto simp: extends_def assms(3) zero_table_def mmu_ok_def)
qed

lemma next_table_cases:
  assumes "mmu_ok st" "next_table t i st = (r, st')"
  obtains (found) l where "sub_table st t i = Some l" "r = Some l" "st' = st"
  | (none) "r = None" "st' = st"
  | (created) new st1 where "mmu_alloc st = Some (new, st1)" "\<not> valid (entry st t i)" "r = Some new"
      "st' = set_entry t i (pa_pte new OR PTE_V) (zero_table new st1)"
proof (cases "valid (entry st t i)")
  case True
  show thesis
  proof (cases "leaf (entry st t i)")
    case l: True
    with True assms(2) have "r = None" "st' = st" by (auto simp: next_table_def)
    then show thesis by (rule none)
  next
    case l: False
    with True assms(2) have "sub_table st t i = Some (pte_pa (entry st t i))"
      "r = Some (pte_pa (entry st t i))" "st' = st" by (auto simp: next_table_def sub_table_def)
    then show thesis by (rule found)
  qed
next
  case False
  show thesis
  proof (cases "mmu_alloc st")
    case None
    with False assms(2) have "r = None" "st' = st" by (auto simp: next_table_def)
    then show thesis by (rule none)
  next
    case (Some p)
    obtain new st1 where m: "mmu_alloc st = Some (new, st1)" using Some by (cases p) auto
    with False assms(2) have "r = Some new"
      "st' = set_entry t i (pa_pte new OR PTE_V) (zero_table new st1)"
      by (auto simp: next_table_def)
    with m False show thesis by (rule created)
  qed
qed

text \<open>One level of the walk at the root, and one below it.\<close>

lemma next_table_root:
  assumes wf: "space_wf st root" and ok: "mmu_ok st" and i: "user_idx i"
    and nt: "next_table root i st = (r, st')"
  shows "space_wf st' root" "extends st st'"
    and "page_entry st' root va = page_entry st root va"
    and "r = Some l1 \<Longrightarrow> sub_table st' root i = Some l1"
    and "space_tables st root \<subseteq> space_tables st' root"
    and "t \<in> space_tables st' root - space_tables st root \<Longrightarrow> addr_refs (mfa st) t = 0"
    and "t \<notin> space_tables st' root \<Longrightarrow> pts st' t = pts st t"
proof -
  note w = space_wfD [OF wf]
  have "space_wf st' root \<and> extends st st' \<and> (\<forall>va. page_entry st' root va = page_entry st root va) \<and>
    (\<forall>l1. r = Some l1 \<longrightarrow> sub_table st' root i = Some l1) \<and>
    space_tables st root \<subseteq> space_tables st' root \<and>
    (\<forall>t \<in> space_tables st' root - space_tables st root. addr_refs (mfa st) t = 0) \<and>
    (\<forall>t. t \<notin> space_tables st' root \<longrightarrow> pts st' t = pts st t)"
    using ok nt
  proof (cases rule: next_table_cases)
    case (found l)
    then show ?thesis using wf ok by (auto intro: extends_refl)
  next
    case none
    then show ?thesis using wf ok by (auto intro: extends_refl)
  next
    case (created new st1)
    have rt: "0 < addr_refs (mfa st) root" using w(7) by (simp add: space_tables_def)
    note n = new_table [OF ok created(1,4) rt]
    have fresh: "new \<notin> space_tables st root"
      using w(7) [of new] mmu_allocD(7) [OF ok created(1)] by auto
    have none: "sub_table st root i = None" using created(2) by (simp add: sub_table_def)
    have s: "sub_table st' root j = (if j = i then Some new else sub_table st root j)" for j
      using n(2) by (auto simp: n(3))
    have s1: "sub_table st' l j = sub_table st l j" if "sub_table st root k = Some l" for k l j
      using that w(4) fresh by (auto simp: n(3) l1_tables_def space_tables_def)
    have s2: "sub_table st' new j = None" for j using n(2) by (simp add: n(3))
    have l1: "l1_tables st' root = insert new (l1_tables st root)"
      unfolding l1_tables_def s using none by (auto; metis option.distinct(1))
    have l0: "l0_tables st' root = l0_tables st root"
      unfolding l0_tables_def using s s1 s2 none by (auto; metis option.distinct(1) option.inject)
    have sp: "space_tables st' root = insert new (space_tables st root)"
      by (auto simp: space_tables_def l1 l0)
    have wf': "space_wf st' root"
    proof (rule space_wfI)
      fix j assume "\<not> user_idx j"
      then show "sub_table st' root j = None" using w(1) s i by (cases "sub_table st root j") auto
    next
      fix j j' l assume "sub_table st' root j = Some l" "sub_table st' root j' = Some l"
      then show "j = j'" using w(2) s fresh
        by (auto simp: space_tables_def l1_tables_def split: if_splits)
    next
      fix a b a' b' l1 l1' l
      assume "sub_table st' root a = Some l1" "sub_table st' l1 b = Some l"
        "sub_table st' root a' = Some l1'" "sub_table st' l1' b' = Some l"
      then have "sub_table st root a = Some l1" "sub_table st l1 b = Some l"
        "sub_table st root a' = Some l1'" "sub_table st l1' b' = Some l"
        using s s1 s2 by (auto split: if_splits)
      then show "a = a' \<and> b = b'" by (rule w(3))
    next
      fix t assume "t \<in> space_tables st' root"
      then show "0 < addr_refs (mfa st') t" using sp w(7) n(1,7) by (auto simp: extends_def)
    qed (use w(4-6) l1 l0 fresh n(2) in \<open>auto simp: space_tables_def\<close>)
    have "page_entry st' root va = page_entry st root va" for va
    proof (cases "vpn va 2 = i")
      case True
      then show ?thesis using s2 none by (simp add: page_entry_def leaf_table_def s)
    next
      case False
      have "leaf_table st' root va = leaf_table st root va"
        using False s1 by (auto simp: leaf_table_def s split: option.splits)
      moreover have "entry st' l0 j = entry st l0 j" if "leaf_table st root va = Some l0" for l0 j
        using n(6) [of l0 j] leaf_table_mem [OF that] fresh w(5) by auto
      ultimately show ?thesis by (auto simp: page_entry_def split: option.splits)
    qed
    with wf' n(1,4) sp created(3) s mmu_allocD(7) [OF ok created(1)] show ?thesis
      by (auto simp: space_tables_def)
  qed
  then show "space_wf st' root" "extends st st'" "page_entry st' root va = page_entry st root va"
    "r = Some l1 \<Longrightarrow> sub_table st' root i = Some l1"
    "space_tables st root \<subseteq> space_tables st' root"
    "t \<in> space_tables st' root - space_tables st root \<Longrightarrow> addr_refs (mfa st) t = 0"
    "t \<notin> space_tables st' root \<Longrightarrow> pts st' t = pts st t" by auto
qed

lemma next_table_l1:
  assumes wf: "space_wf st root" and ok: "mmu_ok st" and l1: "sub_table st root i = Some l1"
    and nt: "next_table l1 j st = (r, st')"
  shows "space_wf st' root" "extends st st'"
    and "page_entry st' root va = page_entry st root va"
    and "sub_table st' root i = Some l1"
    and "r = Some l0 \<Longrightarrow> sub_table st' l1 j = Some l0"
    and "space_tables st root \<subseteq> space_tables st' root"
    and "t \<in> space_tables st' root - space_tables st root \<Longrightarrow> addr_refs (mfa st) t = 0"
    and "t \<notin> space_tables st' root \<Longrightarrow> pts st' t = pts st t"
proof -
  note w = space_wfD [OF wf]
  have "space_wf st' root \<and> extends st st' \<and> (\<forall>va. page_entry st' root va = page_entry st root va) \<and>
    sub_table st' root i = Some l1 \<and> (\<forall>l0. r = Some l0 \<longrightarrow> sub_table st' l1 j = Some l0) \<and>
    space_tables st root \<subseteq> space_tables st' root \<and>
    (\<forall>t \<in> space_tables st' root - space_tables st root. addr_refs (mfa st) t = 0) \<and>
    (\<forall>t. t \<notin> space_tables st' root \<longrightarrow> pts st' t = pts st t)"
    using ok nt
  proof (cases rule: next_table_cases)
    case (found l)
    then show ?thesis using wf ok l1 by (auto intro: extends_refl)
  next
    case none
    then show ?thesis using wf ok l1 by (auto intro: extends_refl)
  next
    case (created new st1)
    have m1: "l1 \<in> l1_tables st root" using l1 by (auto simp: l1_tables_def)
    then have rt: "0 < addr_refs (mfa st) l1" and nr: "l1 \<noteq> root"
      using w(4,7) by (auto simp: space_tables_def)
    note n = new_table [OF ok created(1,4) rt]
    have fresh: "new \<notin> space_tables st root"
      using w(7) [of new] mmu_allocD(7) [OF ok created(1)] by auto
    have none: "sub_table st l1 j = None" using created(2) by (simp add: sub_table_def)
    have s: "sub_table st' root k = sub_table st root k" for k
      using nr fresh by (simp add: n(3) space_tables_def)
    have s1: "sub_table st' l k = (if l = l1 \<and> k = j then Some new else sub_table st l k)"
      if "sub_table st root k' = Some l" for k' l k
      using that fresh by (auto simp: n(3) l1_tables_def space_tables_def)
    have t1: "l1_tables st' root = l1_tables st root" by (simp add: l1_tables_def s)
    have t0: "l0_tables st' root = insert new (l0_tables st root)"
    proof (intro set_eqI iffI)
      fix x assume "x \<in> l0_tables st' root"
      then show "x \<in> insert new (l0_tables st root)"
        using s s1 by (auto simp: l0_tables_def split: if_splits)
    next
      fix x assume x: "x \<in> insert new (l0_tables st root)"
      show "x \<in> l0_tables st' root"
      proof (cases "x = new")
        case True
        then show ?thesis using l1 s s1 [OF l1, of j] by (auto simp: l0_tables_def)
      next
        case False
        then obtain a b l where *: "sub_table st root a = Some l" "sub_table st l b = Some x"
          using x by (auto simp: l0_tables_def)
        then have "sub_table st' l b = Some x" using s1 [OF *(1), of b] none by auto
        then show ?thesis using * s by (auto simp: l0_tables_def)
      qed
    qed
    have sp: "space_tables st' root = insert new (space_tables st root)"
      by (auto simp: space_tables_def t1 t0)
    have old: "new \<noteq> l" if "sub_table st root a = Some k" "sub_table st k b = Some l" for a b k l
      using that fresh by (auto simp: space_tables_def l0_tables_def)
    have wf': "space_wf st' root"
    proof (rule space_wfI)
      fix k assume "\<not> user_idx k"
      then show "sub_table st' root k = None" using w(1) s by (cases "sub_table st root k") auto
    next
      fix k k' l assume "sub_table st' root k = Some l" "sub_table st' root k' = Some l"
      then show "k = k'" using w(2) s by simp
    next
      fix a b a' b' k k' l
      assume *: "sub_table st' root a = Some k" "sub_table st' k b = Some l"
        "sub_table st' root a' = Some k'" "sub_table st' k' b' = Some l"
      then have r: "sub_table st root a = Some k" "sub_table st root a' = Some k'" by (auto simp: s)
      show "a = a' \<and> b = b'"
      proof (cases "l = new")
        case True
        then have "k = l1 \<and> b = j" "k' = l1 \<and> b' = j"
          using *(2,4) s1 [OF r(1), of b] s1 [OF r(2), of b'] old r by (auto split: if_splits)
        then show ?thesis using r w(2) by blast
      next
        case False
        then have "sub_table st k b = Some l" "sub_table st k' b' = Some l"
          using *(2,4) s1 [OF r(1), of b] s1 [OF r(2), of b'] by (auto split: if_splits)
        then show ?thesis using w(3) r by blast
      qed
    next
      fix t assume "t \<in> space_tables st' root"
      then show "0 < addr_refs (mfa st') t" using sp w(7) n(1,7) by (auto simp: extends_def)
    qed (use w(4-6) t1 t0 fresh m1 in \<open>auto simp: space_tables_def\<close>)
    have "page_entry st' root va = page_entry st root va" for va
    proof (cases "vpn va 2 = i \<and> vpn va 1 = j")
      case True
      then have "leaf_table st root va = None" "leaf_table st' root va = Some new"
        using l1 none s s1 [OF l1, of j] by (simp_all add: leaf_table_def)
      then show ?thesis by (simp add: page_entry_def n(5))
    next
      case False
      have "leaf_table st' root va = leaf_table st root va"
      proof (cases "sub_table st root (vpn va 2)")
        case (Some k)
        have "k = l1 \<Longrightarrow> vpn va 2 = i" using w(2) Some l1 by simp
        then show ?thesis using False Some s s1 [OF Some, of "vpn va 1"] by (auto simp: leaf_table_def)
      qed (simp add: leaf_table_def s)
      moreover have "entry st' l0 k = entry st l0 k" if "leaf_table st root va = Some l0" for l0 k
        using n(6) [of l0 k] leaf_table_mem [OF that] fresh w(6) m1 by auto
      ultimately show ?thesis by (auto simp: page_entry_def split: option.splits)
    qed
    moreover have "pts st' t = pts st t" if "t \<notin> space_tables st' root" for t
      using that sp m1 by (intro n(4)) (auto simp: space_tables_def)
    ultimately show ?thesis
      using wf' n(1) sp created(3) s s1 [OF l1, of j] l1 mmu_allocD(7) [OF ok created(1)] by auto
  qed
  then show "space_wf st' root" "extends st st'" "page_entry st' root va = page_entry st root va"
    "sub_table st' root i = Some l1" "r = Some l0 \<Longrightarrow> sub_table st' l1 j = Some l0"
    "space_tables st root \<subseteq> space_tables st' root"
    "t \<in> space_tables st' root - space_tables st root \<Longrightarrow> addr_refs (mfa st) t = 0"
    "t \<notin> space_tables st' root \<Longrightarrow> pts st' t = pts st t" by auto
qed

section \<open>Mapping a page\<close>

text \<open>
  \<open>map_page\<close> either fails (no memory for a table) with the flat view unchanged, or changes the
  entry of its own page only. In both cases the space stays well-formed, it only gains fresh
  tables, and tables of other spaces are not written.
\<close>

lemma map_page_spec:
  assumes wf: "space_wf st root" and ok: "mmu_ok st" and va: "user_va va"
    and mp: "map_page root va pa flags st = (b, st')"
  shows "space_wf st' root" "extends st st'"
    and "va' < 2 ^ 38 \<Longrightarrow> page_entry st' root va' =
      (if b \<and> same_page va va' then pa_pte pa OR flags OR PTE_V else page_entry st root va')"
    and "space_tables st root \<subseteq> space_tables st' root"
    and "t \<in> space_tables st' root - space_tables st root \<Longrightarrow> addr_refs (mfa st) t = 0"
    and "t \<notin> space_tables st' root \<Longrightarrow> pts st' t = pts st t"
proof -
  obtain r1 s1 where n1: "next_table root (vpn va 2) st = (r1, s1)" by force
  have i: "user_idx (vpn va 2)" "va < 2 ^ 38" using va by (auto simp: user_va_def)
  note a = next_table_root [OF wf ok i(1) n1]
  have ok1: "mmu_ok s1" using a(2) by (simp add: extends_def)
  have "space_wf st' root \<and> extends st st' \<and>
    (\<forall>va' < 2 ^ 38. page_entry st' root va' =
      (if b \<and> same_page va va' then pa_pte pa OR flags OR PTE_V else page_entry st root va')) \<and>
    space_tables st root \<subseteq> space_tables st' root \<and>
    (\<forall>t \<in> space_tables st' root - space_tables st root. addr_refs (mfa st) t = 0) \<and>
    (\<forall>t. t \<notin> space_tables st' root \<longrightarrow> pts st' t = pts st t)"
  proof (cases r1)
    case None
    with n1 mp have "b = False" "st' = s1" by (auto simp: map_page_def)
    with a show ?thesis by auto
  next
    case (Some l1)
    obtain r0 s0 where n0: "next_table l1 (vpn va 1) s1 = (r0, s0)" by force
    note sub1 = a(4) [OF Some]
    note c = next_table_l1 [OF a(1) ok1 sub1 n0]
    have ext: "extends st s0" using a(2) c(2) by (rule extends_trans)
    have fresh: "addr_refs (mfa st) t = 0" if "t \<in> space_tables s0 root - space_tables st root" for t
    proof (cases "t \<in> space_tables s1 root")
      case True
      then show ?thesis using that a(6) by auto
    next
      case False
      then have "addr_refs (mfa s1) t = 0" using that c(7) by auto
      then show ?thesis using a(2) by (metis extends_def gr0I)
    qed
    have other: "pts s0 t = pts st t" if "t \<notin> space_tables s0 root" for t
      using that c(6,8) a(7) by (metis subsetD)
    have sub: "space_tables st root \<subseteq> space_tables s0 root" using a(5) c(6) by blast
    show ?thesis
    proof (cases r0)
      case None
      with Some n1 n0 mp have "b = False" "st' = s0" by (auto simp: map_page_def)
      with c ext sub fresh other a(3) show ?thesis by auto
    next
      case r0: (Some l0)
      let ?e = "pa_pte pa OR flags OR PTE_V"
      have st': "b = True" "st' = set_entry l0 (vpn va 0) ?e s0"
        using Some r0 n1 n0 mp by (auto simp: map_page_def)
      have lt: "leaf_table s0 root va = Some l0" using c(4) c(5) [OF r0] by (auto simp: leaf_table_Some)
      note l = set_leaf_tables [OF c(1) leaf_table_mem(1) [OF lt]]
      have "page_entry st' root va' = (if same_page va va' then ?e else page_entry st root va')"
        if "va' < 2 ^ 38" for va'
        using set_leaf_entry [OF c(1) lt i(2) that] c(3) a(3) st' by simp
      moreover have "pts st' t = pts st t" if "t \<notin> space_tables st' root" for t
        using that other leaf_table_mem(2) [OF lt] l(4) st'(2) pts_set_entry [of t l0] by metis
      ultimately show ?thesis using st' l(4,5) ext sub fresh by (simp add: extends_set_entry)
    qed
  qed
  then show "space_wf st' root" "extends st st'"
    "va' < 2 ^ 38 \<Longrightarrow> page_entry st' root va' =
      (if b \<and> same_page va va' then pa_pte pa OR flags OR PTE_V else page_entry st root va')"
    "space_tables st root \<subseteq> space_tables st' root"
    "t \<in> space_tables st' root - space_tables st root \<Longrightarrow> addr_refs (mfa st) t = 0"
    "t \<notin> space_tables st' root \<Longrightarrow> pts st' t = pts st t" by auto
qed

section \<open>Translation\<close>

lemma translate_page:
  assumes "leaf_table st root va = Some l0" "va < 2 ^ 38"
  shows "translate_user st root va wr =
    (let e = page_entry st root va in
     if \<not> valid e \<or> \<not> leaf e \<or> \<not> user_page e \<or> (wr \<and> \<not> writable e) then None
     else Some (pte_pa e - pte_pa e mod 4096 + va mod 4096))"
proof -
  obtain l1 where s: "sub_table st root (vpn va 2) = Some l1" "sub_table st l1 (vpn va 1) = Some l0"
    using assms(1) by (auto simp: leaf_table_Some)
  have e2: "valid (entry st root (vpn va 2))" "\<not> leaf (entry st root (vpn va 2))"
    "pte_pa (entry st root (vpn va 2)) = l1"
    using s(1) by (auto simp: sub_table_def Let_def split: if_splits)
  have e1: "valid (entry st l1 (vpn va 1))" "\<not> leaf (entry st l1 (vpn va 1))"
    "pte_pa (entry st l1 (vpn va 1)) = l0"
    using s(2) by (auto simp: sub_table_def Let_def split: if_splits)
  have "translate_from st root (Suc (Suc 0)) va wr = translate_from st l1 (Suc 0) va wr"
    using e2 by (subst translate_from.simps) (simp add: Let_def numeral_2_eq_2)
  also have "translate_from st l1 (Suc 0) va wr = translate_from st l0 0 va wr"
    using e1 by (subst translate_from.simps) (simp add: Let_def)
  finally have "translate_user st root va wr = translate_from st l0 0 va wr"
    using assms(2) by (simp add: translate_user_def numeral_2_eq_2)
  moreover have "page_entry st root va = entry st l0 (vpn va 0)"
    using assms(1) by (simp add: page_entry_def)
  ultimately show ?thesis by (simp add: translate_from.simps [of st l0 0] Let_def)
qed

lemma valid_leaf_table: "valid (page_entry st root va) \<Longrightarrow> \<exists>l0. leaf_table st root va = Some l0"
  by (cases "leaf_table st root va") (auto simp: page_entry_def)

section \<open>Range operations\<close>

lemma page_down_simps:
  "page_down x \<le> x" "x < page_down x + 4096" "4096 dvd page_down x"
  unfolding page_down_def
  using mod_less_divisor [of 4096 x] by (auto intro: dvd_minus_mod)

lemma page_down_ge: "4096 dvd a \<Longrightarrow> a \<le> page_down x \<longleftrightarrow> a \<le> x"
  using page_down_simps [of x] by (auto simp: dvd_def)

lemma page_down_next:
  assumes "4096 dvd a"
  shows "a + 4096 \<le> page_down x \<longleftrightarrow> a \<le> page_down x \<and> \<not> same_page a x"
proof -
  obtain k where a: "a = 4096 * k" using assms by (auto simp: dvd_def)
  have p: "page_down x = 4096 * (x div 4096)" by (simp add: page_down_def minus_mod_eq_mult_div)
  show ?thesis unfolding p same_page_def a by (auto simp: less_eq_Suc_le)
qed

lemma page_entry_pts: "pts st' = pts st \<Longrightarrow> page_entry st' root va = page_entry st root va"
  by (rule space_frame(4)) simp

lemma leaf_table_pts: "pts st' = pts st \<Longrightarrow> leaf_table st' root va = leaf_table st root va"
  by (rule space_frame(3)) simp

lemma next_at_props:
  "va \<le> x \<Longrightarrow> x < next_at va n \<Longrightarrow> x div 2 ^ n = va div 2 ^ n"
  "12 \<le> n \<Longrightarrow> 4096 dvd next_at va n"
proof -
  assume "va \<le> x" "x < next_at va n"
  then have "va div 2 ^ n \<le> x div 2 ^ n" "x div 2 ^ n < va div 2 ^ n + 1"
    by (auto simp: next_at_def div_le_mono less_mult_imp_div_less)
  then show "x div 2 ^ n = va div 2 ^ n" by simp
next
  assume "12 \<le> n"
  then have "(2 ^ 12 :: nat) dvd 2 ^ n" by (rule le_imp_power_dvd)
  then show "4096 dvd next_at va n" by (simp add: next_at_def)
qed

lemma skipped_no_table:
  assumes "sub_table st root (vpn va 2) = None" "va \<le> x" "x < next_at va 30"
  shows "page_entry st root x = 0"
proof -
  have "vpn x 2 = vpn va 2" using next_at_props(1) [OF assms(2,3)] by (simp add: vpn_def)
  then show ?thesis using assms(1) by (simp add: page_entry_def leaf_table_def)
qed

lemma skipped_no_leaf:
  assumes "sub_table st root (vpn va 2) = Some l1" "sub_table st l1 (vpn va 1) = None"
    "va \<le> x" "x < next_at va 21"
  shows "page_entry st root x = 0"
proof -
  have d: "x div 2 ^ 21 = va div 2 ^ 21" by (rule next_at_props(1) [OF assms(3,4)])
  have "y div 2 ^ 30 = y div 2 ^ 21 div 2 ^ 9" for y :: nat
    by (simp only: div_mult2_eq [symmetric] power_add [symmetric]) simp
  then have "vpn x 2 = vpn va 2" using d by (simp add: vpn_def)
  moreover have "vpn x 1 = vpn va 1" using d by (simp add: vpn_def)
  ultimately show ?thesis using assms(1,2) by (simp add: page_entry_def leaf_table_def)
qed

lemma page_entry_same:
  assumes "same_page va x" "va < 2 ^ 38" "x < 2 ^ 38"
  shows "page_entry st root x = page_entry st root va"
proof -
  have "vpn x 2 = vpn va 2" "vpn x 1 = vpn va 1" "vpn x 0 = vpn va 0"
    using same_page_vpn [OF assms(2,3)] assms(1) by auto
  then show ?thesis unfolding page_entry_def leaf_table_def by (simp only:)
qed

text \<open>
  A visitor that rewrites the entry it is given by \<open>g\<close> (and may touch the frame allocator) has
  the effect of \<open>g\<close> on the flat view of the range: the level skipping loses nothing.
\<close>

lemma walk_leaves_spec:
  assumes P: "\<And>s. P s \<Longrightarrow> space_wf (fst s) root"
    and step: "\<And>s va l0. P s \<Longrightarrow> va < 2 ^ 38 \<Longrightarrow> leaf_table (fst s) root va = Some l0 \<Longrightarrow>
      P (f va l0 (vpn va 0) s) \<and>
      pts (fst (f va l0 (vpn va 0) s)) =
        pts (set_entry l0 (vpn va 0) (g (page_entry (fst s) root va)) (fst s))"
    and g0: "g 0 = 0"
    and st: "P s" "4096 dvd va" "end_va \<le> 2 ^ 38"
  shows "P (walk_leaves f root va end_va s) \<and>
    (\<forall>x < 2 ^ 38. page_entry (fst (walk_leaves f root va end_va s)) root x =
      (if va \<le> page_down x \<and> page_down x < end_va then g (page_entry (fst s) root x)
       else page_entry (fst s) root x))"
  using st
proof (induction "end_va - va" arbitrary: va s rule: less_induct)
  case less
  let ?st = "fst s"
  show ?case
  proof (cases "va < end_va")
    case False
    then show ?thesis using less.prems by (subst (1 2) walk_leaves.simps) auto
  next
    case lt: True
    let ?e2 = "entry ?st root (vpn va 2)"
    have skip: ?thesis
      if nx: "va < nx" "4096 dvd nx" "walk_leaves f root va end_va s = walk_leaves f root nx end_va s"
      and zero: "\<And>x. va \<le> x \<Longrightarrow> x < nx \<Longrightarrow> page_entry ?st root x = 0" for nx
    proof -
      have IH: "P (walk_leaves f root nx end_va s) \<and>
        (\<forall>x < 2 ^ 38. page_entry (fst (walk_leaves f root nx end_va s)) root x =
          (if nx \<le> page_down x \<and> page_down x < end_va then g (page_entry ?st root x)
           else page_entry ?st root x))"
        using lt nx(1,2) less.prems by (intro less.hyps) auto
      have "page_entry ?st root x = 0" if "va \<le> page_down x" "\<not> nx \<le> page_down x" for x
        using that page_down_simps [of x] page_down_ge [OF less.prems(2)] page_down_ge [OF nx(2)]
        by (intro zero) auto
      then show ?thesis using IH nx(1) g0 unfolding nx(3) by auto
    qed
    show ?thesis
    proof (cases "sub_table ?st root (vpn va 2)")
      case None
      then have eq: "walk_leaves f root va end_va s = walk_leaves f root (next_at va 30) end_va s"
        using lt by (subst walk_leaves.simps) (auto simp: sub_table_def Let_def split: if_splits)
      show ?thesis
        by (rule skip [OF next_at_gt next_at_props(2) eq]) (use skipped_no_table [OF None] in auto)
    next
      case l1: (Some l1)
      then have e2: "valid ?e2" "\<not> leaf ?e2" "pte_pa ?e2 = l1"
        by (auto simp: sub_table_def Let_def split: if_splits)
      show ?thesis
      proof (cases "sub_table ?st l1 (vpn va 1)")
        case None
        then have eq: "walk_leaves f root va end_va s = walk_leaves f root (next_at va 21) end_va s"
          using lt e2 by (subst walk_leaves.simps) (auto simp: sub_table_def Let_def split: if_splits)
        show ?thesis
          by (rule skip [OF next_at_gt next_at_props(2) eq]) (use skipped_no_leaf [OF l1 None] in auto)
      next
        case l0: (Some l0)
        then have e1: "valid (entry ?st l1 (vpn va 1))" "\<not> leaf (entry ?st l1 (vpn va 1))"
          "pte_pa (entry ?st l1 (vpn va 1)) = l0"
          by (auto simp: sub_table_def Let_def split: if_splits)
        let ?s = "f va l0 (vpn va 0) s"
        have va: "va < 2 ^ 38" using lt less.prems(3) by simp
        have t: "leaf_table ?st root va = Some l0" using l1 l0 by (auto simp: leaf_table_Some)
        note s = step [OF less.prems(1) va t]
        have eq: "walk_leaves f root va end_va s = walk_leaves f root (va + 4096) end_va ?s"
          using lt e2 e1 by (subst walk_leaves.simps) (simp add: Let_def)
        have IH: "P (walk_leaves f root (va + 4096) end_va ?s) \<and>
          (\<forall>x < 2 ^ 38. page_entry (fst (walk_leaves f root (va + 4096) end_va ?s)) root x =
            (if va + 4096 \<le> page_down x \<and> page_down x < end_va then g (page_entry (fst ?s) root x)
             else page_entry (fst ?s) root x))"
          using lt less.prems s by (intro less.hyps) auto
        have pe: "page_entry (fst ?s) root x =
            (if same_page va x then g (page_entry ?st root va) else page_entry ?st root x)"
          if "x < 2 ^ 38" for x
          using page_entry_pts [of "fst ?s" "set_entry l0 (vpn va 0) (g (page_entry ?st root va)) ?st"] s
            set_leaf_entry [OF P [OF less.prems(1)] t va that] by simp
        have sp: "page_entry ?st root x = page_entry ?st root va" if "same_page va x" "x < 2 ^ 38" for x
          using that va by (intro page_entry_same) auto
        have "same_page va x \<longleftrightarrow> page_down x = va" for x
          using less.prems(2) by (auto simp: same_page_def page_down_def minus_mod_eq_mult_div)
        then show ?thesis unfolding eq using IH pe sp page_down_next [OF less.prems(2)] lt by auto
      qed
    qed
  qed
qed

text \<open>\<open>is_mapped\<close> reads the flat view.\<close>

lemma walk_probe_state: "fst (walk_leaves probe_leaf root va end_va s) = fst s"
proof (induction "end_va - va" arbitrary: va s rule: less_induct)
  case less
  note n = next_at_gt [of va 30] next_at_gt [of va 21]
  have IH: "fst (walk_leaves probe_leaf root nx end_va s') = fst s'" if "va < nx" "va < end_va" for nx s'
    using that by (intro less.hyps) auto
  have f: "fst (probe_leaf v t i s') = fst s'" for v t i s' by (cases s') simp
  show ?case
    by (subst walk_leaves.simps) (simp add: Let_def IH [OF n(1)] IH [OF n(2)] IH [of "va + 4096"] f)
qed

lemma walk_leaves_stop: "end_va \<le> va \<Longrightarrow> walk_leaves f root va end_va s = s"
  by (subst walk_leaves.simps) simp

lemma is_mapped_flat:
  assumes "va < 2 ^ 38"
  shows "is_mapped root va st \<longleftrightarrow> valid (page_entry st root va)"
proof -
  let ?p = "page_down va" and ?e = "min (va + 1) (2 ^ 38)"
  have p: "?p < ?e" "4096 dvd ?p" using page_down_simps [of va] assms by auto
  have "same_page ?p va" by (simp add: same_page_def page_down_def minus_mod_eq_mult_div)
  then have pe: "page_entry st root ?p = page_entry st root va"
    using page_entry_same [of ?p va] page_down_simps(1) [of va] assms by auto
  have nx: "?e \<le> next_at ?p n" if "12 \<le> n" for n
  proof -
    have "?p + 4096 \<le> next_at ?p n"
      using p(2) next_at_props(2) [OF that, of ?p] next_at_gt [of ?p n] by (auto simp: dvd_def)
    then show ?thesis using page_down_simps(2) [of va] by simp
  qed
  have e: "?e \<le> ?p + 4096" using page_down_simps(2) [of va] by simp
  show ?thesis
  proof (cases "leaf_table st root ?p")
    case None
    then have "walk_leaves probe_leaf root ?p ?e (st, False) = (st, False)"
      using nx [of 30] nx [of 21]
      by (subst walk_leaves.simps)
        (auto simp: leaf_table_def sub_table_def Let_def walk_leaves_stop split: if_splits option.splits)
    then show ?thesis using None pe by (simp add: is_mapped_def leaves_def page_entry_def)
  next
    case (Some l0)
    then have "walk_leaves probe_leaf root ?p ?e (st, False) = (st, valid (entry st l0 (vpn ?p 0)))"
      using p(1) e
      by (subst walk_leaves.simps)
        (auto simp: leaf_table_Some sub_table_def Let_def walk_leaves_stop split: if_splits)
    then show ?thesis using Some pe by (simp add: is_mapped_def leaves_def page_entry_def)
  qed
qed

text \<open>\<open>protect_range\<close> replaces the permissions, and nothing else.\<close>

definition protect_entry :: "u64 \<Rightarrow> u64 \<Rightarrow> u64" where
  "protect_entry flags e =
     (if valid e then pa_pte (pte_pa e) OR flags OR PTE_V OR (e AND RSW_SHARED) else e)"

definition in_range :: "nat \<Rightarrow> nat \<Rightarrow> nat \<Rightarrow> bool" where
  "in_range start end_va x \<longleftrightarrow> page_down start \<le> page_down x \<and> page_down x < end_va"

definition same_outside :: "mmu \<Rightarrow> mmu \<Rightarrow> nat \<Rightarrow> bool" where
  "same_outside st st' root \<longleftrightarrow> kroot st' = kroot st \<and> space_tables st' root = space_tables st root \<and>
     (\<forall>t. t \<notin> space_tables st root \<longrightarrow> pts st' t = pts st t)"

lemma pts_set_same: "v = pts st t i \<Longrightarrow> pts (set_entry t i v st) = pts st"
  by (simp add: set_entry_def)

lemma same_outside_set:
  assumes "same_outside st st' root" "space_wf st' root" "leaf_table st' root va = Some l0"
    and "pts st'' = pts (set_entry l0 i v st')" "kroot st'' = kroot st'"
  shows "same_outside st st'' root"
proof -
  note m = leaf_table_mem [OF assms(3)]
  have "space_tables st'' root = space_tables (set_entry l0 i v st') root"
    by (rule space_frame(7)) (simp add: assms(4))
  also have "\<dots> = space_tables st' root" by (rule set_leaf_tables(4) [OF assms(2) m(1)])
  finally have "space_tables st'' root = space_tables st root" using assms(1) by (simp add: same_outside_def)
  moreover have "pts st'' t = pts st t" if "t \<notin> space_tables st root" for t
  proof -
    have "t \<noteq> l0" using that m(2) assms(1) by (auto simp: same_outside_def)
    then show ?thesis using that assms(1,4) by (simp add: pts_set_entry same_outside_def)
  qed
  ultimately show ?thesis using assms(1,5) by (simp add: same_outside_def)
qed

lemma protect_range_flat:
  assumes wf: "space_wf st root" and pr: "protect_range root start end_va flags st = (st', n)"
  shows "space_wf st' root" "mfa st' = mfa st" "same_outside st st' root"
    and "x < 2 ^ 38 \<Longrightarrow> page_entry st' root x =
      (if in_range start end_va x then protect_entry flags (page_entry st root x) else page_entry st root x)"
proof -
  let ?P = "\<lambda>s :: mmu \<times> nat. space_wf (fst s) root \<and> mfa (fst s) = mfa st \<and> same_outside st (fst s) root"
  let ?f = "protect_leaf flags"
  have step: "?P (?f va l0 (vpn va 0) s) \<and>
      pts (fst (?f va l0 (vpn va 0) s)) =
        pts (set_entry l0 (vpn va 0) (protect_entry flags (page_entry (fst s) root va)) (fst s))"
    if P: "?P s" and va: "va < 2 ^ 38" "leaf_table (fst s) root va = Some l0" for s va l0
  proof -
    obtain s1 k where s: "s = (s1, k)" by force
    have P1: "space_wf s1 root" "mfa s1 = mfa st" "same_outside st s1 root"
      "leaf_table s1 root va = Some l0" using P va(2) s by simp_all
    have e: "page_entry s1 root va = entry s1 l0 (vpn va 0)" using P1(4) by (simp add: page_entry_def)
    have w: "pts (fst (?f va l0 (vpn va 0) s)) =
        pts (set_entry l0 (vpn va 0) (protect_entry flags (page_entry s1 root va)) s1)"
      unfolding s e by (simp add: protect_leaf.simps protect_entry_def Let_def pts_set_same entry_def)
    have m: "mfa (fst (?f va l0 (vpn va 0) s)) = mfa s1" "kroot (fst (?f va l0 (vpn va 0) s)) = kroot s1"
      by (simp_all add: s protect_leaf.simps Let_def)
    have wf': "space_wf (set_entry l0 (vpn va 0) (protect_entry flags (page_entry s1 root va)) s1) root"
      by (rule set_leaf_tables(5) [OF P1(1) leaf_table_mem(1) [OF P1(4)]])
    then have "space_wf (fst (?f va l0 (vpn va 0) s)) root"
      by (rule space_frame_wf) (use w m space_wfD(7) [OF wf'] in auto)
    moreover have "same_outside st (fst (?f va l0 (vpn va 0) s)) root"
      by (rule same_outside_set [OF P1(3,1,4) w m(2)])
    ultimately show ?thesis using P1(2) w m(1) s by simp
  qed
  have init: "?P (st, 0)" using wf by (auto simp: same_outside_def)
  have "?P (st', n) \<and> (\<forall>x < 2 ^ 38. page_entry (fst (st', n)) root x =
      (if page_down start \<le> page_down x \<and> page_down x < min end_va (2 ^ 38)
       then protect_entry flags (page_entry (fst (st, 0 :: nat)) root x)
       else page_entry (fst (st, 0 :: nat)) root x))"
    unfolding pr [symmetric] protect_range_def leaves_def
  proof (rule walk_leaves_spec [where P = ?P and g = "protect_entry flags"])
    show "?P (st, 0)" by (rule init)
    show "protect_entry flags 0 = 0" by (simp add: protect_entry_def)
    show "4096 dvd page_down start" by (rule page_down_simps(3))
  qed (use step in simp_all)
  then show "space_wf st' root" "mfa st' = mfa st" "same_outside st st' root"
    "x < 2 ^ 38 \<Longrightarrow> page_entry st' root x =
      (if in_range start end_va x then protect_entry flags (page_entry st root x) else page_entry st root x)"
    using page_down_simps(1) [of x] by (auto simp: in_range_def)
qed

section \<open>Frames owned by a space\<close>

definition private_at :: "mmu \<Rightarrow> nat \<Rightarrow> nat \<Rightarrow> nat \<Rightarrow> bool" where
  "private_at st root x a \<longleftrightarrow>
     (let e = page_entry st root x in valid e \<and> \<not> is_shared e \<and> pte_pa e = a)"

text \<open>
  A space that owns its pages: a private page on a heap frame holds a reference to it, the frame
  is none of the space's tables, and no two pages of the space share it.
\<close>

definition space_ok :: "mmu \<Rightarrow> nat \<Rightarrow> bool" where
  "space_ok st root \<longleftrightarrow> space_wf st root \<and> mmu_ok st \<and>
     (\<forall>x < 2 ^ 38. \<forall>a. private_at st root x a \<and> heap_frame (plat (mfa st)) a \<longrightarrow>
        0 < addr_refs (mfa st) a \<and> a \<notin> space_tables st root) \<and>
     (\<forall>x < 2 ^ 38. \<forall>y < 2 ^ 38. \<forall>a. private_at st root x a \<and> private_at st root y a \<and>
        heap_frame (plat (mfa st)) a \<longrightarrow> same_page x y)"

lemma space_okI:
  assumes "space_wf st root" "mmu_ok st"
    and "\<And>x a. x < 2 ^ 38 \<Longrightarrow> private_at st root x a \<Longrightarrow> heap_frame (plat (mfa st)) a \<Longrightarrow>
      0 < addr_refs (mfa st) a \<and> a \<notin> space_tables st root"
    and "\<And>x y a. x < 2 ^ 38 \<Longrightarrow> y < 2 ^ 38 \<Longrightarrow> private_at st root x a \<Longrightarrow> private_at st root y a \<Longrightarrow>
      heap_frame (plat (mfa st)) a \<Longrightarrow> same_page x y"
  shows "space_ok st root"
  unfolding space_ok_def using assms by blast

lemma space_okD:
  assumes "space_ok st root"
  shows "space_wf st root" "mmu_ok st"
    and "x < 2 ^ 38 \<Longrightarrow> private_at st root x a \<Longrightarrow> heap_frame (plat (mfa st)) a \<Longrightarrow>
      0 < addr_refs (mfa st) a"
    and "x < 2 ^ 38 \<Longrightarrow> private_at st root x a \<Longrightarrow> heap_frame (plat (mfa st)) a \<Longrightarrow>
      a \<notin> space_tables st root"
    and "x < 2 ^ 38 \<Longrightarrow> y < 2 ^ 38 \<Longrightarrow> private_at st root x a \<Longrightarrow> private_at st root y a \<Longrightarrow>
      heap_frame (plat (mfa st)) a \<Longrightarrow> same_page x y"
  using assms unfolding space_ok_def by blast+

lemma pte_pa_aligned: "4096 dvd pte_pa e"
proof -
  have "push_bit 12 (drop_bit 10 e) = 4096 * drop_bit 10 e" by (simp add: push_bit_eq_mult)
  then have "pte_pa e = 4096 * unat (drop_bit 10 e) mod 2 ^ 64"
    by (simp add: pte_pa_def unat_word_ariths)
  moreover have "(4096 :: nat) dvd 2 ^ 64" by simp
  ultimately show ?thesis by (simp add: dvd_mod)
qed

lemma free_refs:
  assumes "frames_inv fa" "4096 dvd a" "heap_frame (plat fa) a \<Longrightarrow> 0 < addr_refs fa a"
  shows "frames_inv (free_frame a fa)"
    "addr_refs (free_frame a fa) = (addr_refs fa)(a := addr_refs fa a - 1)"
proof (atomize(full), cases "heap_frame (plat fa) a")
  case True
  then show "frames_inv (free_frame a fa) \<and>
    addr_refs (free_frame a fa) = (addr_refs fa)(a := addr_refs fa a - 1)"
    using fs.release_law [OF assms(1)] assms(3) by auto
next
  case False
  then show "frames_inv (free_frame a fa) \<and>
    addr_refs (free_frame a fa) = (addr_refs fa)(a := addr_refs fa a - 1)"
    using assms(1) not_heap_frame_ops [of fa a] by (auto simp: addr_refs_def fun_eq_iff)
qed

text \<open>The page entry of \<open>x\<close> after \<open>unmap_range\<close>, and the frames it gives back.\<close>

definition released :: "mmu \<Rightarrow> mmu \<Rightarrow> nat \<Rightarrow> nat \<Rightarrow> bool" where
  "released st st' root a \<longleftrightarrow>
     (\<exists>x < 2 ^ 38. private_at st root x a \<and> \<not> valid (page_entry st' root x))"

definition unmapping :: "mmu \<Rightarrow> nat \<Rightarrow> mmu \<Rightarrow> bool" where
  "unmapping st root st' \<longleftrightarrow> space_ok st' root \<and> same_outside st st' root \<and>
     plat (mfa st') = plat (mfa st) \<and>
     (\<forall>x < 2 ^ 38. valid (page_entry st' root x) \<longrightarrow> page_entry st' root x = page_entry st root x) \<and>
     (\<forall>a. addr_refs (mfa st') a = addr_refs (mfa st) a - (if released st st' root a then 1 else 0))"

lemma unmap_leaf_step:
  assumes ok: "space_ok st root" and u: "unmapping st root s1"
    and va: "va < 2 ^ 38" and lt: "leaf_table s1 root va = Some l0"
    and v: "valid (page_entry s1 root va)"
    and s2: "s2 = fst (unmap_leaf va l0 (vpn va 0) (s1, n))"
  shows "unmapping st root s2 \<and> pts s2 = pts (set_entry l0 (vpn va 0) 0 s1)"
proof -
  let ?e = "page_entry s1 root va" and ?a = "pte_pa (page_entry s1 root va)"
  let ?w = "set_entry l0 (vpn va 0) 0 s1"
  have u1: "space_ok s1 root" "same_outside st s1 root" "plat (mfa s1) = plat (mfa st)"
    "\<And>x. x < 2 ^ 38 \<Longrightarrow> valid (page_entry s1 root x) \<Longrightarrow> page_entry s1 root x = page_entry st root x"
    "\<And>a. addr_refs (mfa s1) a = addr_refs (mfa st) a - (if released st s1 root a then 1 else 0)"
    using u by (auto simp: unmapping_def)
  note ok1 = space_okD [OF u1(1)]
  have e: "entry s1 l0 (vpn va 0) = ?e" using lt by (simp add: page_entry_def)
  have s2': "s2 = (if is_shared ?e then ?w else mmu_free ?a ?w)"
    using v by (simp add: s2 unmap_leaf.simps e Let_def)
  have p2: "pts s2 = pts ?w" by (simp add: s2' mmu_free_def)
  have k2: "kroot s2 = kroot ?w" "plat (mfa s2) = plat (mfa s1)" by (simp_all add: s2' mmu_free_def)
  have pe: "page_entry s2 root x = (if same_page va x then 0 else page_entry s1 root x)"
    if "x < 2 ^ 38" for x
    using page_entry_pts [OF p2] set_leaf_entry [OF ok1(1) lt va that] by simp
  have pr: "private_at s2 root x b \<longleftrightarrow> \<not> same_page va x \<and> private_at s1 root x b" if "x < 2 ^ 38" for x b
    using pe [OF that] by (simp add: private_at_def)
  have inv1: "frames_inv (mfa s1)" using ok1(2) by (simp add: mmu_ok_def)
  have pa: "\<not> is_shared ?e \<Longrightarrow> private_at s1 root va ?a" using v by (simp add: private_at_def)
  have refs: "frames_inv (mfa s2) \<and> addr_refs (mfa s2) =
      (if is_shared ?e then addr_refs (mfa s1) else (addr_refs (mfa s1))(?a := addr_refs (mfa s1) ?a - 1))"
  proof (cases "is_shared ?e")
    case False
    then show ?thesis
      using free_refs [OF inv1 pte_pa_aligned, of ?e] ok1(3) [OF va pa [OF False]]
      by (simp add: s2' mmu_free_def)
  qed (use inv1 in \<open>simp add: s2'\<close>)
  have so: "same_outside st s2 root"
    by (rule same_outside_set [OF u1(2) ok1(1) lt p2]) (simp add: k2)
  then have tabs: "space_tables s2 root = space_tables s1 root"
    using u1(2) by (simp add: same_outside_def)
  have notab: "0 < addr_refs (mfa s2) t" if "t \<in> space_tables s1 root" for t
  proof -
    have "0 < addr_refs (mfa s1) t" using space_wfD(7) [OF ok1(1) that] .
    moreover have "\<not> is_shared ?e \<Longrightarrow> t = ?a \<Longrightarrow> False"
      using ok1(4) [OF va pa] that \<open>0 < addr_refs (mfa s1) t\<close> by (auto simp: addr_refs_def split: if_splits)
    ultimately show ?thesis using refs by auto
  qed
  have wfw: "space_wf ?w root" by (rule set_leaf_tables(5) [OF ok1(1) leaf_table_mem(1) [OF lt]])
  have wf2: "space_wf s2 root"
    by (rule space_frame_wf [OF wfw])
      (use p2 notab set_leaf_tables(4) [OF ok1(1) leaf_table_mem(1) [OF lt]] in auto)
  have "space_ok s2 root"
  proof (rule space_okI)
    show "space_wf s2 root" by (rule wf2)
    show "mmu_ok s2" using refs by (simp add: mmu_ok_def)
  next
    fix x b assume x: "x < 2 ^ 38" "private_at s2 root x b" "heap_frame (plat (mfa s2)) b"
    then have x1: "private_at s1 root x b" "\<not> same_page va x" "heap_frame (plat (mfa s1)) b"
      using pr k2 by auto
    then have "\<not> is_shared ?e \<Longrightarrow> b \<noteq> ?a" using ok1(5) [OF va x(1) pa] by auto
    then show "0 < addr_refs (mfa s2) b \<and> b \<notin> space_tables s2 root"
      using ok1(3,4) [OF x(1) x1(1,3)] refs tabs by auto
  next
    fix x y b assume "x < 2 ^ 38" "y < 2 ^ 38" "private_at s2 root x b" "private_at s2 root y b"
      "heap_frame (plat (mfa s2)) b"
    then show "same_page x y" using pr k2 ok1(5) by auto
  qed
  moreover have "addr_refs (mfa s2) b = addr_refs (mfa st) b - (if released st s2 root b then 1 else 0)" for b
  proof (cases "\<not> is_shared ?e \<and> b = ?a \<and> heap_frame (plat (mfa st)) b")
    case True
    have va_st: "private_at st root va b"
      using True v u1(4) [OF va v] by (simp add: private_at_def Let_def)
    have "\<not> released st s1 root b"
    proof
      assume "released st s1 root b"
      then obtain x where x: "x < 2 ^ 38" "private_at st root x b" "\<not> valid (page_entry s1 root x)"
        by (auto simp: released_def)
      have "heap_frame (plat (mfa st)) b" using True by blast
      then have "same_page va x" by (rule space_okD(5) [OF ok va x(1) va_st x(2)])
      then show False using page_entry_same [OF _ va x(1)] x(3) v by simp
    qed
    moreover have "released st s2 root b"
      using va va_st pe [OF va] by (auto simp: released_def same_page_def)
    ultimately show ?thesis using True refs u1(5) [of b] by simp
  next
    case False
    have "released st s2 root b \<longleftrightarrow> released st s1 root b"
      if h: "0 < addr_refs (mfa st) b"
    proof -
      have hb: "heap_frame (plat (mfa st)) b" using h by (auto simp: addr_refs_def split: if_splits)
      have no: "\<not> private_at st root x b" if "x < 2 ^ 38" "same_page va x" for x
        using False hb page_entry_same [OF that(2) va that(1)] u1(4) [OF va v] v
        by (auto simp: private_at_def Let_def)
      have "private_at st root x b \<and> \<not> valid (page_entry s2 root x) \<longleftrightarrow>
        private_at st root x b \<and> \<not> valid (page_entry s1 root x)" if "x < 2 ^ 38" for x
        using no [OF that] pe [OF that] by (cases "same_page va x") auto
      then show ?thesis unfolding released_def by blast
    qed
    moreover have "addr_refs (mfa s2) b = addr_refs (mfa s1) b"
      using False refs u1(3) by (auto simp: addr_refs_def)
    ultimately show ?thesis using u1(5) [of b] by (cases "addr_refs (mfa st) b = 0") auto
  qed
  ultimately show ?thesis
    using so k2 u1(3,4) pe p2 by (auto simp: unmapping_def)
qed

lemma unmap_range_flat:
  assumes ok: "space_ok st root" and ur: "unmap_range root start end_va st = (st', n)"
  shows "unmapping st root st'"
    and "x < 2 ^ 38 \<Longrightarrow> page_entry st' root x =
      (if in_range start end_va x \<and> valid (page_entry st root x) then 0 else page_entry st root x)"
proof -
  let ?P = "\<lambda>s :: mmu \<times> nat. unmapping st root (fst s)"
  let ?g = "\<lambda>e. if valid e then 0 else e"
  have step: "?P (unmap_leaf va l0 (vpn va 0) s) \<and>
      pts (fst (unmap_leaf va l0 (vpn va 0) s)) =
        pts (set_entry l0 (vpn va 0) (?g (page_entry (fst s) root va)) (fst s))"
    if P: "?P s" and va: "va < 2 ^ 38" "leaf_table (fst s) root va = Some l0" for s va l0
  proof -
    obtain s1 k where s: "s = (s1, k)" by force
    have e: "page_entry s1 root va = entry s1 l0 (vpn va 0)" using va s by (simp add: page_entry_def)
    show ?thesis
    proof (cases "valid (page_entry s1 root va)")
      case True
      have "unmapping st root s1" "leaf_table s1 root va = Some l0" using P va s by simp_all
      from unmap_leaf_step [OF ok this(1) va(1) this(2) True refl, of k] True s show ?thesis by simp
    next
      case False
      then have "unmap_leaf va l0 (vpn va 0) s = s" by (simp add: s e unmap_leaf.simps)
      then show ?thesis using P False s e by (simp add: pts_set_same entry_def)
    qed
  qed
  have init: "?P (st, 0)" using ok by (auto simp: unmapping_def same_outside_def released_def private_at_def Let_def)
  have "?P (st', n) \<and> (\<forall>x < 2 ^ 38. page_entry (fst (st', n)) root x =
      (if page_down start \<le> page_down x \<and> page_down x < min end_va (2 ^ 38)
       then ?g (page_entry (fst (st, 0 :: nat)) root x)
       else page_entry (fst (st, 0 :: nat)) root x))"
    unfolding ur [symmetric] unmap_range_def leaves_def
  proof (rule walk_leaves_spec [where P = ?P and g = ?g])
    show "?P (st, 0)" by (rule init)
    show "space_wf (fst s) root" if "?P s" for s using that by (auto simp: unmapping_def dest: space_okD(1))
    show "4096 dvd page_down start" by (rule page_down_simps(3))
  qed (use step in simp_all)
  then show "unmapping st root st'"
    "x < 2 ^ 38 \<Longrightarrow> page_entry st' root x =
      (if in_range start end_va x \<and> valid (page_entry st root x) then 0 else page_entry st root x)"
    using page_down_simps(1) [of x] by (auto simp: in_range_def)
qed

section \<open>New spaces\<close>

definition kernel_ok :: "mmu \<Rightarrow> bool" where
  "kernel_ok st \<longleftrightarrow> \<not> heap_frame (plat (mfa st)) (kroot st) \<and>
     (\<forall>k < 512. \<not> user_idx k \<longrightarrow> leaf (entry st (kroot st) k))"

lemma user_idx_iff: "user_idx i \<longleftrightarrow> i < 512 \<and> i \<noteq> 2 \<and> i \<noteq> 3 \<and> i \<noteq> 4 \<and> i \<noteq> 5 \<and> i \<noteq> 256"
  by (auto simp: user_idx_def is_ram_idx_def IDX_RAM_def NRAM_def IDX_MMIO_def)

lemma zero_table_simps [simp]:
  "entry (zero_table t st) t' i = (if t' = t then 0 else entry st t' i)"
  "mfa (zero_table t st) = mfa st" "kroot (zero_table t st) = kroot st"
  by (simp_all add: zero_table_def entry_def)

lemma pts_zero_table: "t' \<noteq> t \<Longrightarrow> pts (zero_table t st) t' = pts st t'"
  by (simp add: zero_table_def)

lemma mmu_alloc_root:
  assumes "mmu_ok st" "kernel_ok st" "mmu_alloc st = Some (root, st')"
  shows "root \<noteq> kroot st"
proof -
  have "heap_frame (plat (mfa st)) root"
    using assms(1,3) by (auto simp: mmu_alloc_def mmu_ok_def elim: alloc_frame_Some)
  then show ?thesis using assms(2) by (auto simp: kernel_ok_def)
qed

lemma create_user_space_entries:
  assumes "mmu_ok st" "kernel_ok st" "create_user_space st = Some (root, st')"
  shows "entry st' root j = (if j < 512 \<and> \<not> user_idx j then entry st (kroot st) j else 0)"
    and "t \<noteq> root \<Longrightarrow> pts st' t = pts st t" "kroot st' = kroot st"
    and "mmu_alloc st = Some (root, st\<lparr>mfa := mfa st'\<rparr>)"
proof -
  obtain s1 where a: "mmu_alloc st = Some (root, s1)"
    using assms(3) by (auto simp: create_user_space_def Let_def split: option.splits)
  have s1: "s1 = st\<lparr>mfa := mfa s1\<rparr>" using a by (auto simp: mmu_alloc_def)
  have r: "root \<noteq> kroot st" using mmu_alloc_root [OF assms(1,2) a] .
  have k: "kroot s1 = kroot st" "\<And>t i. entry s1 t i = entry st t i" "pts s1 = pts st"
    using mmu_allocD [OF assms(1) a] by (simp_all add: entry_def)
  have st': "st' = set_entry root 256 (entry st (kroot st) 256)
    (set_entry root 5 (entry st (kroot st) 5) (set_entry root 4 (entry st (kroot st) 4)
      (set_entry root 3 (entry st (kroot st) 3) (set_entry root 2 (entry st (kroot st) 2)
        (zero_table root s1)))))"
    using assms(3) a r k
    by (simp add: create_user_space_def Let_def IDX_RAM_def NRAM_def IDX_MMIO_def upt_rec [of 2]
        upt_rec [of 3] upt_rec [of 4] upt_rec [of 5])
  show "entry st' root j = (if j < 512 \<and> \<not> user_idx j then entry st (kroot st) j else 0)"
    using r k by (auto simp: st' user_idx_iff)
  show "t \<noteq> root \<Longrightarrow> pts st' t = pts st t" using k by (simp add: st' pts_set_entry pts_zero_table)
  show "kroot st' = kroot st" using k by (simp add: st')
  have "mfa st' = mfa s1" by (simp add: st')
  then show "mmu_alloc st = Some (root, st\<lparr>mfa := mfa st'\<rparr>)" using a s1 by simp
qed

lemma create_user_space_spec:
  assumes ok: "mmu_ok st" and k: "kernel_ok st" and c: "create_user_space st = Some (root, st')"
  shows "space_ok st' root" "space_tables st' root = {root}" "page_entry st' root x = 0"
    and "addr_refs (mfa st) root = 0" "addr_refs (mfa st') = (addr_refs (mfa st))(root := 1)"
    and "mmu_ok st'"
proof -
  note e = create_user_space_entries [OF assms]
  note a = mmu_allocD [OF ok e(4)]
  have none: "sub_table st' root i = None" for i
    using k by (auto simp: sub_table_def e(1) Let_def kernel_ok_def)
  then have t: "l1_tables st' root = {}" "l0_tables st' root = {}"
    by (auto simp: l1_tables_def l0_tables_def)
  then show sp: "space_tables st' root = {root}" by (simp add: space_tables_def)
  show refs: "addr_refs (mfa st) root = 0" "addr_refs (mfa st') = (addr_refs (mfa st))(root := 1)"
    using a by auto
  show ok': "mmu_ok st'" using a(1) by (simp add: mmu_ok_def)
  show pe: "page_entry st' root x = 0" for x by (simp add: page_entry_def leaf_table_def none)
  have "space_wf st' root" by (rule space_wfI) (use none t sp refs in auto)
  then show "space_ok st' root" using ok' pe by (intro space_okI) (auto simp: private_at_def)
qed

text \<open>In a space without the two tables of a page, two free frames are enough to map it.\<close>

lemma map_page_enough:
  assumes wf: "space_wf st root" and ok: "mmu_ok st" and e: "entry st root (vpn va 2) = 0"
    and n: "2 \<le> nfree (mfa st)"
  shows "fst (map_page root va pa flags st)" "nfree (mfa (snd (map_page root va pa flags st))) = nfree (mfa st) - 2"
proof -
  have inv: "frames_inv (mfa st)" using ok by (simp add: mmu_ok_def)
  obtain l1 fa1 where a: "alloc_frame (mfa st) = Some (l1, fa1)" "nfree fa1 = nfree (mfa st) - 1"
    using alloc_frame_free [OF inv] n by auto
  have inv1: "frames_inv fa1" using alloc_frame_Some [OF inv a(1)] by metis
  obtain l0 fa0 where b: "alloc_frame fa1 = Some (l0, fa0)" "nfree fa0 = nfree fa1 - 1"
    using alloc_frame_free [OF inv1] n a(2) by auto
  have ne: "l1 \<noteq> root"
    using fs.alloc_law [OF inv a(1)] space_wfD(7) [OF wf, of root] by (auto simp: space_tables_def)
  have nt: "next_table root (vpn va 2) st =
      (Some l1, set_entry root (vpn va 2) (pa_pte l1 OR PTE_V) (zero_table l1 (st\<lparr>mfa := fa1\<rparr>)))"
    by (simp add: next_table_def e mmu_alloc_def a)
  show "fst (map_page root va pa flags st)" "nfree (mfa (snd (map_page root va pa flags st))) = nfree (mfa st) - 2"
    using a b ne nt by (simp_all add: map_page_def next_table_def [of l1] mmu_alloc_def)
qed

section \<open>A machine to run on\<close>

definition demo_platform :: platform where
  "demo_platform = \<lparr>heap_start = 4096, heap_size = 8 * 4096, fb_pa = 0, fb_region_bytes = 4096\<rparr>"

definition demo_mmu :: mmu where
  "demo_mmu = kernel_init \<lparr>pts = (\<lambda>_ _. 0), mfa = frames_init (frames_boot demo_platform), kroot = 0\<rparr>"

lemma demo_mmu_ok: "mmu_ok demo_mmu" "kernel_ok demo_mmu" "nfree (mfa demo_mmu) = 8" "kroot demo_mmu = 0"
  "plat (mfa demo_mmu) = demo_platform"
proof -
  let ?m = "\<lparr>pts = (\<lambda>_ _. 0), mfa = frames_init (frames_boot demo_platform), kroot = 0\<rparr>"
  have ok: "plat_ok demo_platform" by (auto simp: plat_ok_def demo_platform_def)
  note f = frames_init_inv [OF ok]
  have u: "[0..<4] = [0, 1, 2, 3 :: nat]" by code_simp
  have d: "demo_mmu = set_entry 0 256 (pa_pte 0 OR device_flags OR PTE_V)
    (set_entry 0 5 (pa_pte (5 * 2 ^ 30) OR kernel_rwx OR PTE_V)
    (set_entry 0 4 (pa_pte (4 * 2 ^ 30) OR kernel_rwx OR PTE_V)
    (set_entry 0 3 (pa_pte (3 * 2 ^ 30) OR kernel_rwx OR PTE_V)
    (set_entry 0 2 (pa_pte (2 * 2 ^ 30) OR kernel_rwx OR PTE_V) ?m))))"
    by (simp add: demo_mmu_def kernel_init_def NRAM_def IDX_RAM_def IDX_MMIO_def set_entry_def u
        del: add_2_eq_Suc add_2_eq_Suc')
  have m: "mfa demo_mmu = frames_init (frames_boot demo_platform)" by (simp add: d)
  have n: "num_frames demo_platform = 8"
    by (simp add: num_frames_def demo_platform_def PAGE_SIZE_def)
  have nr: "\<not> reserved demo_platform (addr_of demo_platform i)" for i
    by (simp add: reserved_def addr_of_def demo_platform_def)
  have "{i. i < NUM_FRAMES (mfa demo_mmu) \<and> \<not> used (mfa demo_mmu) i} = {..<8}"
    using f(3) nr n by (auto simp: m f(2))
  then show "nfree (mfa demo_mmu) = 8"
    using frames_wfD(7) [OF frames_invD(1) [OF f(1)]] by (simp add: m)
  show "mmu_ok demo_mmu" using f(1) by (simp add: mmu_ok_def m)
  show "kroot demo_mmu = 0" by (simp add: d)
  show pl: "plat (mfa demo_mmu) = demo_platform" by (simp add: m f(2))
  have nk: "\<not> heap_frame demo_platform 0" by (simp add: heap_frame_def demo_platform_def)
  have fl: "leaf (pa_pte p OR kernel_rwx OR PTE_V)" "leaf (pa_pte p OR device_flags OR PTE_V)" for p
    by (simp_all add: leaf_bits bit_or_iff kernel_rwx_def device_flags_def pte_bit_defs bit_bit1)
  show "kernel_ok demo_mmu"
    using pl nk by (auto simp: kernel_ok_def user_idx_iff d fl)
qed

lemma demo_space:
  obtains root st where "create_user_space demo_mmu = Some (root, st)" "space_ok st root"
    "nfree (mfa st) = 7" "\<And>x. page_entry st root x = 0" "entry st root 0 = 0"
    "\<And>i. user_idx i \<Longrightarrow> entry st root i = 0" "space_tables st root = {root}"
proof -
  have inv: "frames_inv (mfa demo_mmu)" using demo_mmu_ok(1) by (simp add: mmu_ok_def)
  obtain a fa where a: "alloc_frame (mfa demo_mmu) = Some (a, fa)" "nfree fa = 7"
    using alloc_frame_free [OF inv] demo_mmu_ok(3) by auto
  then obtain st where c: "create_user_space demo_mmu = Some (a, st)"
    by (simp add: create_user_space_def mmu_alloc_def Let_def)
  note sp = create_user_space_spec [OF demo_mmu_ok(1,2) c]
  note e = create_user_space_entries [OF demo_mmu_ok(1,2) c]
  have "demo_mmu\<lparr>mfa := fa\<rparr> = demo_mmu\<lparr>mfa := mfa st\<rparr>" using e(4) a(1) by (simp add: mmu_alloc_def)
  from arg_cong [OF this, of mfa] have "nfree (mfa st) = 7" using a(2) by simp
  with c sp e(1) [of 0] e(1) show ?thesis by (intro that) (auto simp: user_idx_iff)
qed

lemma user_prot_bits:
  "user_page (pa_pte pa OR user_prot prot OR PTE_V) \<longleftrightarrow> prot AND 7 \<noteq> 0"
  "writable (pa_pte pa OR user_prot prot OR PTE_V) \<longleftrightarrow> prot AND 2 \<noteq> 0"
  "leaf (pa_pte pa OR user_prot prot OR PTE_V)" "valid (pa_pte pa OR user_prot prot OR PTE_V)"
  "\<not> is_shared (pa_pte pa OR user_prot prot OR PTE_V)"
proof -
  have "prot AND 2 = 0" if "prot AND 7 = 0"
  proof -
    have "prot AND 2 = (prot AND 7) AND 2" by (simp add: and.assoc)
    then show ?thesis using that by simp
  qed
  then show "user_page (pa_pte pa OR user_prot prot OR PTE_V) \<longleftrightarrow> prot AND 7 \<noteq> 0"
    "writable (pa_pte pa OR user_prot prot OR PTE_V) \<longleftrightarrow> prot AND 2 \<noteq> 0"
    "leaf (pa_pte pa OR user_prot prot OR PTE_V)" "valid (pa_pte pa OR user_prot prot OR PTE_V)"
    "\<not> is_shared (pa_pte pa OR user_prot prot OR PTE_V)"
    by (auto simp: entry_bits leaf_bits bit_or_iff bit_pa_pte user_prot_def Let_def pte_bit_defs
        bit_bit1)
qed

lemma map_page_plat: "map_page root va pa flags st = (b, st') \<Longrightarrow> plat (mfa st') = plat (mfa st)"
proof -
  have n: "next_table t i st = (r, st') \<Longrightarrow> plat (mfa st') = plat (mfa st)" for t i st r st'
    by (auto simp: next_table_def mmu_alloc_def Let_def split: if_splits option.splits
        dest: alloc_frame_plat)
  show "map_page root va pa flags st = (b, st') \<Longrightarrow> plat (mfa st') = plat (mfa st)"
    by (auto simp: map_page_def split: prod.splits option.splits dest!: n)
qed

text \<open>Mapping a fresh private frame keeps the ownership invariant.\<close>

lemma map_page_owns:
  assumes ok: "space_ok st root" and va: "user_va va"
    and a: "4096 dvd a" "a < 2 ^ 64" "0 < addr_refs (mfa st) a" "a \<notin> space_tables st root"
      "\<And>x. x < 2 ^ 38 \<Longrightarrow> \<not> private_at st root x a"
    and mp: "map_page root va a (user_prot prot) st = (b, st')"
  shows "space_ok st' root"
proof -
  note o = space_okD [OF ok]
  note m = map_page_spec [OF o(1,2) va mp]
  note pl = map_page_plat [OF mp]
  have pr: "private_at st' root x f \<longleftrightarrow>
      (if b \<and> same_page va x then f = a else private_at st root x f)" if "x < 2 ^ 38" for x f
    using m(3) [OF that] user_prot_bits pte_pa_entry [OF a(1,2) flag_bits_user_prot]
    by (auto simp: private_at_def Let_def)
  have old: "0 < addr_refs (mfa st') f" "f \<notin> space_tables st' root"
    if "0 < addr_refs (mfa st) f" "f \<notin> space_tables st root" for f
    using that m(2) m(5) [of f] by (auto simp: extends_def)
  show ?thesis
  proof (rule space_okI)
    show "space_wf st' root" "mmu_ok st'" using m by (auto simp: extends_def)
  next
    fix x f assume "x < 2 ^ 38" "private_at st' root x f" "heap_frame (plat (mfa st')) f"
    then show "0 < addr_refs (mfa st') f \<and> f \<notin> space_tables st' root"
      using pr pl old [of f] a(3,4) o(3,4) by (auto split: if_splits)
  next
    fix x y f assume x: "x < 2 ^ 38" "y < 2 ^ 38" "private_at st' root x f" "private_at st' root y f"
      "heap_frame (plat (mfa st')) f"
    then have h: "heap_frame (plat (mfa st)) f" by (simp add: pl)
    from pr [OF x(1), of f] x(3) have px: "(b \<and> same_page va x \<and> f = a) \<or> private_at st root x f"
      by (metis (full_types))
    from pr [OF x(2), of f] x(4) have py: "(b \<and> same_page va y \<and> f = a) \<or> private_at st root y f"
      by (metis (full_types))
    show "same_page x y"
    proof (cases "f = a")
      case True
      then show ?thesis using px py a(5) [OF x(1)] a(5) [OF x(2)] by (simp add: same_page_def)
    next
      case False
      then show ?thesis using px py o(5) [OF x(1,2) _ _ h] by blast
    qed
  qed
qed

text \<open>A space with one private page, at \<open>0x1000\<close>.\<close>

lemma demo_mapped:
  obtains root a st where "space_ok st root" "page_entry st root 4660 = pa_pte a OR user_prot 3 OR PTE_V"
    "0 < a" "heap_frame demo_platform a" "4096 dvd a" "a < 2 ^ 64" "addr_refs (mfa st) a = 1"
    "\<And>x. x < 2 ^ 38 \<Longrightarrow> \<not> same_page 4660 x \<Longrightarrow> page_entry st root x = 0"
    "plat (mfa st) = demo_platform" "nfree (mfa st) = 4"
proof -
  obtain root s0 where s: "create_user_space demo_mmu = Some (root, s0)" "space_ok s0 root"
    "nfree (mfa s0) = 7" "\<And>x. page_entry s0 root x = 0" "entry s0 root 0 = 0"
    by (rule demo_space) blast
  note sp = create_user_space_spec [OF demo_mmu_ok(1,2) s(1)]
  note ce = create_user_space_entries [OF demo_mmu_ok(1,2) s(1)]
  have wf: "space_wf s0 root" "mmu_ok s0" using s(2) by (auto dest: space_okD)
  have pl: "plat (mfa s0) = demo_platform"
  proof -
    obtain fb where fb: "alloc_frame (mfa demo_mmu) = Some (root, fb)"
      "demo_mmu\<lparr>mfa := fb\<rparr> = demo_mmu\<lparr>mfa := mfa s0\<rparr>" using ce(4) by (auto simp: mmu_alloc_def)
    from arg_cong [OF fb(2), of mfa] alloc_frame_plat [OF fb(1)] demo_mmu_ok(5) show ?thesis by simp
  qed
  obtain a fa where a: "alloc_frame (mfa s0) = Some (a, fa)" "nfree fa = 6"
    using alloc_frame_free [of "mfa s0"] wf(2) s(3) by (auto simp: mmu_ok_def)
  let ?s1 = "s0\<lparr>mfa := fa\<rparr>"
  have al: "mmu_alloc s0 = Some (a, ?s1)" by (simp add: mmu_alloc_def a)
  note as = mmu_allocD [OF wf(2) al]
  have "root \<noteq> a" using as(7) sp(5) by auto
  have ts: "space_tables ?s1 root = {root}" using space_frame(7) [of s0 root ?s1] sp(2) by simp
  have pe: "page_entry ?s1 root x = 0" for x using page_entry_pts [of ?s1 s0] s(4) by simp
  have wf1: "space_wf ?s1 root"
    by (rule space_frame_wf [OF wf(1)]) (use as(8) sp(2,5) in auto)
  have ok1: "space_ok ?s1 root"
    by (rule space_okI [OF wf1 as(1)]) (simp_all add: private_at_def pe)
  have v: "user_va 4660" by (simp add: user_va_def vpn_def user_idx_iff)
  have e0: "entry ?s1 root (vpn 4660 2) = 0" using s(5) by (simp add: vpn_def entry_def)
  obtain st where m: "map_page root 4660 a (user_prot 3) ?s1 = (True, st)" "nfree (mfa st) = 4"
    using map_page_enough [OF wf1 as(1) e0, of a "user_prot 3"] a(2)
    by (cases "map_page root 4660 a (user_prot 3) ?s1") auto
  note ms = map_page_spec [OF wf1 as(1) v m(1)]
  have h: "heap_frame demo_platform a"
    using alloc_frame_Some [OF _ a(1)] wf(2) pl by (metis mmu_ok_def)
  show ?thesis
  proof (rule that)
    show "space_ok st root"
      by (rule map_page_owns [OF ok1 v as(4,5) _ _ _ m(1)])
        (use as(8) ts \<open>root \<noteq> a\<close> pe in \<open>simp_all add: private_at_def\<close>)
    show "page_entry st root 4660 = pa_pte a OR user_prot 3 OR PTE_V"
      using ms(3) [of 4660] by (simp add: same_page_def)
    show "page_entry st root x = 0" if "x < 2 ^ 38" "\<not> same_page 4660 x" for x
      using ms(3) [OF that(1)] that(2) pe by simp
    show "addr_refs (mfa st) a = 1" using ms(2) as(8) by (simp add: extends_def)
    show "plat (mfa st) = demo_platform" using map_page_plat [OF m(1)] alloc_frame_plat [OF a(1)] pl by simp
  qed (use as h m(2) in auto)
qed

text \<open>C7. A page mapped with a protection is translated to its frame exactly for the accesses that
  protection allows; no other page of the space changes, and no page of a space with other
  tables.\<close>

theorem map_page_translates:
  assumes "space_wf st root" "mmu_ok st" "user_va va" "4096 dvd pa" "pa < 2 ^ 64"
    and "map_page root va pa (user_prot prot) st = (True, st')"
  shows "translate_user st' root va wr =
      (if prot AND 7 = 0 \<or> (wr \<and> prot AND 2 = 0) then None else Some (pa + va mod 4096)) \<and>
    (\<forall>x < 2 ^ 38. \<not> same_page va x \<longrightarrow> page_entry st' root x = page_entry st root x) \<and>
    (\<forall>other. space_wf st other \<and> space_tables st other \<inter> space_tables st root = {} \<longrightarrow>
      (\<forall>x. page_entry st' other x = page_entry st other x))"
proof (intro conjI)
  have va: "va < 2 ^ 38" using assms(3) by (simp add: user_va_def)
  note m = map_page_spec [OF assms(1-3,6)]
  have pe: "page_entry st' root va = pa_pte pa OR user_prot prot OR PTE_V"
    using m(3) [OF va] by (simp add: same_page_def)
  then obtain l0 where "leaf_table st' root va = Some l0"
    using valid_leaf_table [of st' root va] user_prot_bits(4) by auto
  from translate_page [OF this va, of wr] show "translate_user st' root va wr =
      (if prot AND 7 = 0 \<or> (wr \<and> prot AND 2 = 0) then None else Some (pa + va mod 4096))"
    using pte_pa_entry [OF assms(4,5) flag_bits_user_prot, of prot] assms(4)
    by (auto simp: pe user_prot_bits Let_def mod_eq_0_iff_dvd)
  show "\<forall>x < 2 ^ 38. \<not> same_page va x \<longrightarrow> page_entry st' root x = page_entry st root x"
    using m(3) by simp
  show "\<forall>other. space_wf st other \<and> space_tables st other \<inter> space_tables st root = {} \<longrightarrow>
      (\<forall>x. page_entry st' other x = page_entry st other x)"
  proof (intro allI impI, elim conjE)
    fix other x assume o: "space_wf st other" "space_tables st other \<inter> space_tables st root = {}"
    have "pts st' t = pts st t" if "t \<in> space_tables st other" for t
      using that o(2) m(5) [of t] m(6) [of t] space_wfD(7) [OF o(1) that] by force
    then show "page_entry st' other x = page_entry st other x" by (rule space_frame(4))
  qed
qed

theorem map_page_translates_witness:
  "\<exists>root st st'. map_page root 4660 1073741824 (user_prot 3) st = (True, st') \<and>
     translate_user st' root 4660 True = Some 1073742388"
proof -
  obtain root st where s: "space_ok st root" "nfree (mfa st) = 7" "entry st root 0 = 0"
    by (rule demo_space) blast
  note ok = space_okD(1,2) [OF s(1)]
  have "entry st root (vpn 4660 2) = 0" using s(3) by (simp add: vpn_def)
  then obtain st' where m: "map_page root 4660 1073741824 (user_prot 3) st = (True, st')"
    using map_page_enough(1) [OF ok, of 4660 1073741824 "user_prot 3"] s(2)
    by (cases "map_page root 4660 1073741824 (user_prot 3) st") auto
  have "translate_user st' root 4660 True = Some 1073742388"
    using map_page_translates [OF ok _ _ _ m, of True]
    by (simp add: user_va_def vpn_def user_idx_iff)
  with m show ?thesis by blast
qed

text \<open>C8. \<open>unmap_range\<close> removes exactly the pages of the range and drops exactly one reference to
  each private frame they held (shared-memory pages drop none), keeps the ownership invariant,
  and writes no table of another space.\<close>

theorem unmap_range_releases:
  assumes "space_ok st root" and "unmap_range root start end_va st = (st', n)"
  shows "space_ok st' root \<and>
    (\<forall>x < 2 ^ 38. page_entry st' root x =
      (if in_range start end_va x \<and> valid (page_entry st root x) then 0 else page_entry st root x)) \<and>
    (\<forall>a. addr_refs (mfa st') a = addr_refs (mfa st) a -
      (if \<exists>x < 2 ^ 38. in_range start end_va x \<and> private_at st root x a then 1 else 0)) \<and>
    (\<forall>t. t \<notin> space_tables st root \<longrightarrow> pts st' t = pts st t)"
proof -
  note u = unmap_range_flat [OF assms]
  have "private_at st root x a \<and> \<not> valid (page_entry st' root x) \<longleftrightarrow>
      in_range start end_va x \<and> private_at st root x a" if "x < 2 ^ 38" for x a
    using u(2) [OF that] by (cases "in_range start end_va x") (auto simp: private_at_def Let_def)
  then have "released st st' root a \<longleftrightarrow>
      (\<exists>x < 2 ^ 38. in_range start end_va x \<and> private_at st root x a)" for a
    unfolding released_def by blast
  then show ?thesis using u by (auto simp: unmapping_def same_outside_def)
qed

theorem unmap_range_releases_witness:
  "\<exists>st root a. addr_refs (mfa st) a = 1 \<and>
     addr_refs (mfa (fst (unmap_range root 4096 8192 st))) a = 0 \<and>
     page_entry (fst (unmap_range root 4096 8192 st)) root 4660 = 0"
proof -
  obtain root a st where s: "space_ok st root" "page_entry st root 4660 = pa_pte a OR user_prot 3 OR PTE_V"
    "4096 dvd a" "a < 2 ^ 64" "addr_refs (mfa st) a = 1"
    by (rule demo_mapped) blast
  obtain st' n where u: "unmap_range root 4096 8192 st = (st', n)" by force
  have p: "private_at st root 4660 a" "valid (page_entry st root 4660)"
    using s(2) user_prot_bits pte_pa_entry [OF s(3,4) flag_bits_user_prot]
    by (auto simp: private_at_def Let_def)
  have r: "in_range 4096 8192 4660" by (simp add: in_range_def page_down_def)
  note t = unmap_range_releases [OF s(1) u]
  have "page_entry st' root 4660 = 0" using t p r by simp
  moreover have "\<exists>x < 2 ^ 38. in_range 4096 8192 x \<and> private_at st root x a"
    using p r by (intro exI [of _ 4660]) simp
  then have "addr_refs (mfa st') a = 0" using t s(5) by simp
  ultimately show ?thesis using u s(5) by (intro exI [of _ st] exI [of _ root] exI [of _ a]) simp
qed

lemma is_shared_keep:
  "is_shared (pa_pte p OR f OR PTE_V OR (e AND RSW_SHARED)) \<longleftrightarrow> is_shared e \<or> bit f 8"
  "writable (pa_pte p OR f OR PTE_V OR (e AND RSW_SHARED)) \<longleftrightarrow> writable f"
  "valid (pa_pte p OR f OR PTE_V OR (e AND RSW_SHARED))"
  by (auto simp: entry_bits bit_or_iff bit_and_iff bit_pa_pte pte_bit_defs bit_bit1)

lemma flag_bits_keep: "flag_bits f \<Longrightarrow> flag_bits (f OR (e AND RSW_SHARED))"
  by (auto simp: flag_bits_def bit_or_iff bit_and_iff RSW_SHARED_def bit_bit1)

lemma protect_entry_pa:
  assumes "flag_bits f"
  shows "pte_pa (protect_entry f e) = pte_pa e"
proof (cases "valid e")
  case True
  have "pa_pte (pte_pa e) OR f OR PTE_V OR (e AND RSW_SHARED) =
    pa_pte (pte_pa e) OR (f OR (e AND RSW_SHARED)) OR PTE_V"
    by (simp add: or.assoc or.commute or.left_commute)
  moreover have "pte_pa e < 2 ^ 64"
    using unsigned_less [of "push_bit 12 (drop_bit 10 e)"] by (simp add: pte_pa_def)
  ultimately show ?thesis
    using pte_pa_entry [OF pte_pa_aligned _ flag_bits_keep [OF assms]] True
    by (simp add: protect_entry_def)
qed (simp add: protect_entry_def)

lemma bit_user_prot:
  "bit (user_prot prot) (Suc 0)" "bit (user_prot prot) 2 \<longleftrightarrow> prot AND 2 \<noteq> 0" "bit (user_prot prot) 3 \<longleftrightarrow> prot AND 4 \<noteq> 0"
  "bit (user_prot prot) 4 \<longleftrightarrow> prot AND 7 \<noteq> 0" "\<not> bit (user_prot prot) 5" "\<not> bit (user_prot prot) 8"
proof -
  have "prot AND 2 = (prot AND 7) AND 2" "prot AND 4 = (prot AND 7) AND 4" by (simp_all add: and.assoc)
  then have "prot AND 7 = 0 \<Longrightarrow> prot AND 2 = 0" "prot AND 7 = 0 \<Longrightarrow> prot AND 4 = 0" by simp_all
  then show "bit (user_prot prot) (Suc 0)" "bit (user_prot prot) 2 \<longleftrightarrow> prot AND 2 \<noteq> 0" "bit (user_prot prot) 3 \<longleftrightarrow> prot AND 4 \<noteq> 0"
    "bit (user_prot prot) 4 \<longleftrightarrow> prot AND 7 \<noteq> 0" "\<not> bit (user_prot prot) 5" "\<not> bit (user_prot prot) 8"
    by (auto simp: user_prot_def Let_def bit_or_iff pte_bit_defs bit_bit1)
qed

lemma bit_user_prot_8: "\<not> bit (user_prot prot) 8" "writable (user_prot prot) \<longleftrightarrow> prot AND 2 \<noteq> 0"
  by (simp_all add: bit_user_prot entry_bits)

text \<open>The permissions of an entry, each as its own bit: what a protection allows and nothing more. No entry of a
  process is global.\<close>

definition allows :: "u64 \<Rightarrow> u64 \<Rightarrow> bool" where
  "allows prot e \<longleftrightarrow> (user_page e \<longleftrightarrow> prot AND 7 \<noteq> 0) \<and> readable e \<and> (writable e \<longleftrightarrow> prot AND 2 \<noteq> 0) \<and>
     (executable e \<longleftrightarrow> prot AND 4 \<noteq> 0) \<and> e AND PTE_G = 0"

lemma allows_protected: "allows prot (pa_pte p OR user_prot prot OR PTE_V OR (e AND RSW_SHARED))"
  by (simp add: allows_def readable_def executable_def PTE_R_def PTE_X_def PTE_G_def bit_facts entry_bits bit_or_iff bit_and_iff
      bit_pa_pte PTE_V_def RSW_SHARED_def bit_user_prot)

text \<open>C9. \<open>protect_range\<close> gives every present page of the range exactly the new permissions: user
  access iff the protection is not empty, writing and execution iff it has them, reading always, never global. The
  page keeps its frame and its shared mark, no other page changes and no frame is allocated or released.\<close>

theorem protect_range_keeps_frames:
  assumes "space_wf st root" and "protect_range root start end_va (user_prot prot) st = (st', n)"
  shows "mfa st' = mfa st \<and>
    (\<forall>x < 2 ^ 38. let e = page_entry st root x; e' = page_entry st' root x in
      if in_range start end_va x \<and> valid e
      then valid e' \<and> pte_pa e' = pte_pa e \<and> (is_shared e' \<longleftrightarrow> is_shared e) \<and>
        (user_page e' \<longleftrightarrow> prot AND 7 \<noteq> 0) \<and> readable e' \<and> (writable e' \<longleftrightarrow> prot AND 2 \<noteq> 0) \<and>
        (executable e' \<longleftrightarrow> prot AND 4 \<noteq> 0) \<and> e' AND PTE_G = 0
      else e' = e) \<and>
    (\<forall>t. t \<notin> space_tables st root \<longrightarrow> pts st' t = pts st t)"
proof -
  note p = protect_range_flat [OF assms]
  have "page_entry st' root x = page_entry st root x"
    if "x < 2 ^ 38" "\<not> (in_range start end_va x \<and> valid (page_entry st root x))" for x
    using p(4) [OF that(1)] that(2) by (auto simp: protect_entry_def)
  moreover have "valid (page_entry st' root x) \<and> pte_pa (page_entry st' root x) = pte_pa (page_entry st root x) \<and>
      (is_shared (page_entry st' root x) \<longleftrightarrow> is_shared (page_entry st root x)) \<and> allows prot (page_entry st' root x)"
    if x: "x < 2 ^ 38" and r: "in_range start end_va x" "valid (page_entry st root x)" for x
  proof -
    have "page_entry st' root x = protect_entry (user_prot prot) (page_entry st root x)" using p(4) [OF x] r by simp
    then show ?thesis
      using r is_shared_keep [of "pte_pa (page_entry st root x)" "user_prot prot" "page_entry st root x"]
        protect_entry_pa [OF flag_bits_user_prot, of prot "page_entry st root x"] bit_user_prot_8 allows_protected
      by (simp add: protect_entry_def)
  qed
  ultimately show ?thesis using p(2,3) unfolding Let_def allows_def [symmetric] same_outside_def by simp
qed

theorem protect_range_keeps_frames_witness:
  "\<exists>st root. writable (page_entry st root 4660) \<and> \<not> executable (page_entry st root 4660) \<and>
     \<not> writable (page_entry (fst (protect_range root 4096 8192 (user_prot 5) st)) root 4660) \<and>
     executable (page_entry (fst (protect_range root 4096 8192 (user_prot 5) st)) root 4660)"
proof -
  obtain root a st where s: "space_ok st root" "page_entry st root 4660 = pa_pte a OR user_prot 3 OR PTE_V"
    by (rule demo_mapped) blast
  obtain st' n where u: "protect_range root 4096 8192 (user_prot 5) st = (st', n)" by force
  have r: "in_range 4096 8192 4660" by (simp add: in_range_def page_down_def)
  have v: "valid (page_entry st root 4660)" "writable (page_entry st root 4660)"
    using s(2) user_prot_bits by auto
  have x: "\<not> executable (page_entry st root 4660)"
    using allows_protected [of 3 a 0] s(2) by (simp add: allows_def)
  have "\<not> writable (page_entry st' root 4660)" "executable (page_entry st' root 4660)"
    using protect_range_keeps_frames [OF space_okD(1) [OF s(1)] u] r v(1) by (auto simp: Let_def)
  then show ?thesis using u v(2) x by (intro exI [of _ st] exI [of _ root]) simp
qed

end
