(* ===== verification/Shm.thy ===== *)
theory Shm
  imports Frames
begin

text \<open>
  Shared-memory objects (\<open>kernel/src/shm.rs\<close>): a table of 512 objects, each a size and a vector
  of page addresses that are allocated on first use, counted by descriptor and by mapping
  references. The state is the table, the frame allocator and the physical memory; the vector
  of addresses of an object (its \<open>index\<close> block) is the list \<open>so_slots\<close>, 0 for a page not yet
  created. User buffers are byte lists.
\<close>

section \<open>State\<close>

definition MAX_OBJS :: nat where "MAX_OBJS = 512"
definition NAME_MAX :: nat where "NAME_MAX = 64"
definition MAX_SIZE :: nat where "MAX_SIZE = 2 ^ 30"

record shm_obj =
  so_used :: bool
  so_size :: nat
  so_index :: nat
  so_iframes :: nat
  so_slots :: "nat list"
  so_fd :: nat
  so_map :: nat
  so_named :: bool
  so_name :: "u8 list"

definition shm_empty :: shm_obj where
  "shm_empty = \<lparr>so_used = False, so_size = 0, so_index = 0, so_iframes = 0, so_slots = [],
     so_fd = 0, so_map = 0, so_named = False, so_name = []\<rparr>"

record shm =
  objs :: "shm_obj list"
  sfa :: frames
  smem :: mem

definition shm_boot :: "frames \<Rightarrow> mem \<Rightarrow> shm" where
  "shm_boot fa m = \<lparr>objs = replicate MAX_OBJS shm_empty, sfa = fa, smem = m\<rparr>"

text \<open>\<open>obj\<close>: public ids start at 1; an unused slot has no object.\<close>

definition obj_at :: "shm \<Rightarrow> nat \<Rightarrow> shm_obj option" where
  "obj_at st oid =
     (if 0 < oid \<and> oid - 1 < length (objs st) \<and> so_used (objs st ! (oid - 1))
      then Some (objs st ! (oid - 1)) else None)"

definition put_obj :: "nat \<Rightarrow> shm_obj \<Rightarrow> shm \<Rightarrow> shm" where
  "put_obj oid ob st = st\<lparr>objs := (objs st)[oid - 1 := ob]\<rparr>"

section \<open>Operations\<close>

definition free_slots :: "nat list \<Rightarrow> frames \<Rightarrow> frames" where
  "free_slots pas = fold (\<lambda>pa fa. if pa \<noteq> 0 then free_frame pa fa else fa) pas"

definition maybe_free :: "nat \<Rightarrow> shm \<Rightarrow> shm" where
  "maybe_free oid st =
     (case obj_at st oid of
        None \<Rightarrow> st
      | Some ob \<Rightarrow>
          if 0 < so_fd ob \<or> 0 < so_map ob \<or> so_named ob then st
          else
            let fa = free_slots (so_slots ob) (sfa st);
                fa = (if so_index ob \<noteq> 0 then free_contig (so_index ob) (so_iframes ob) fa else fa)
            in put_obj oid shm_empty (st\<lparr>sfa := fa\<rparr>))"

definition grow_index :: "shm_obj \<Rightarrow> nat \<Rightarrow> frames \<Rightarrow> (shm_obj \<times> frames) option" where
  "grow_index ob pages fa =
     (if pages \<le> length (so_slots ob) then Some (ob, fa)
      else
        let n = max (div_ceil (pages * 8) 4096) 1 in
        case alloc_contig n fa of
          None \<Rightarrow> None
        | Some (ix, fa) \<Rightarrow>
            let fa = (if so_index ob \<noteq> 0 then free_contig (so_index ob) (so_iframes ob) fa else fa)
            in Some (ob\<lparr>so_index := ix, so_iframes := n,
                 so_slots := so_slots ob @ replicate (n * 4096 div 8 - length (so_slots ob)) 0\<rparr>, fa))"

definition create :: "u8 list option \<Rightarrow> shm \<Rightarrow> (nat \<times> shm) option" where
  "create name st =
     (case position (\<lambda>ob. \<not> so_used ob) (objs st) of
        None \<Rightarrow> None
      | Some i \<Rightarrow>
          let ob = shm_empty\<lparr>so_used := True, so_fd := 1\<rparr>;
              ob = (case name of None \<Rightarrow> ob
                    | Some n \<Rightarrow> ob\<lparr>so_named := True, so_name := take NAME_MAX n\<rparr>)
          in Some (i + 1, put_obj (i + 1) ob st))"

definition create_anon :: "nat \<Rightarrow> shm \<Rightarrow> nat option \<times> shm" where
  "create_anon sz st =
     (case create None st of
        None \<Rightarrow> (None, st)
      | Some (oid, st) \<Rightarrow>
          (case obj_at st oid of
             None \<Rightarrow> (None, st)
           | Some ob \<Rightarrow>
               let ob = ob\<lparr>so_fd := 0\<rparr>; st = put_obj oid ob st in
               if sz > MAX_SIZE then (None, maybe_free oid st)
               else case grow_index ob (div_ceil sz 4096) (sfa st) of
                      None \<Rightarrow> (None, maybe_free oid st)
                    | Some (ob, fa) \<Rightarrow> (Some oid, put_obj oid (ob\<lparr>so_size := sz\<rparr>) (st\<lparr>sfa := fa\<rparr>))))"

definition release_unused :: "nat \<Rightarrow> shm \<Rightarrow> shm" where
  "release_unused oid st = maybe_free oid st"

definition named :: "u8 list \<Rightarrow> shm_obj \<Rightarrow> bool" where
  "named n ob \<longleftrightarrow> so_used ob \<and> so_named ob \<and> so_name ob = n"

definition open_named :: "u8 list \<Rightarrow> shm \<Rightarrow> (nat \<times> shm) option" where
  "open_named n st =
     map_option (\<lambda>i. (i + 1, put_obj (i + 1) ((objs st ! i)\<lparr>so_fd := so_fd (objs st ! i) + 1\<rparr>) st))
       (position (named n) (objs st))"

definition unlink :: "u8 list \<Rightarrow> shm \<Rightarrow> bool \<times> shm" where
  "unlink n st =
     (case position (named n) (objs st) of
        None \<Rightarrow> (False, st)
      | Some i \<Rightarrow>
          (True, maybe_free (i + 1) (put_obj (i + 1) ((objs st ! i)\<lparr>so_named := False\<rparr>) st)))"

definition add_refs :: "nat \<Rightarrow> int \<Rightarrow> nat" where
  "add_refs n delta = nat (max 0 (int n + delta))"

definition fd_ref :: "nat \<Rightarrow> int \<Rightarrow> shm \<Rightarrow> shm" where
  "fd_ref oid delta st =
     (let st = (case obj_at st oid of None \<Rightarrow> st
                | Some ob \<Rightarrow> put_obj oid (ob\<lparr>so_fd := add_refs (so_fd ob) delta\<rparr>) st)
      in if delta < 0 then maybe_free oid st else st)"

definition map_ref :: "nat \<Rightarrow> int \<Rightarrow> shm \<Rightarrow> shm" where
  "map_ref oid delta st =
     (let st = (case obj_at st oid of None \<Rightarrow> st
                | Some ob \<Rightarrow> put_obj oid (ob\<lparr>so_map := add_refs (so_map ob) delta\<rparr>) st)
      in if delta < 0 then maybe_free oid st else st)"

definition shm_size :: "shm \<Rightarrow> nat \<Rightarrow> nat" where
  "shm_size st oid = (case obj_at st oid of None \<Rightarrow> 0 | Some ob \<Rightarrow> so_size ob)"

definition truncate :: "nat \<Rightarrow> nat \<Rightarrow> shm \<Rightarrow> (errno + unit) \<times> shm" where
  "truncate oid sz st =
     (if sz > MAX_SIZE then (Inl EFBIG, st)
      else case obj_at st oid of
        None \<Rightarrow> (Inl ENOMEM, st)
      | Some ob \<Rightarrow>
          let pages = div_ceil sz 4096 in
          case grow_index ob pages (sfa st) of
            None \<Rightarrow> (Inl ENOMEM, st)
          | Some (ob, fa) \<Rightarrow>
              let fa = free_slots (drop pages (so_slots ob)) fa;
                  slots = take pages (so_slots ob) @ replicate (length (so_slots ob) - pages) 0;
                  m = (if sz mod 4096 \<noteq> 0 \<and> 0 < pages \<and> slots ! (pages - 1) \<noteq> 0
                       then mem_write (smem st) (slots ! (pages - 1) + sz mod 4096)
                              (replicate (4096 - sz mod 4096) 0)
                       else smem st)
              in (Inr (), put_obj oid (ob\<lparr>so_slots := slots, so_size := sz\<rparr>)
                    (st\<lparr>sfa := fa, smem := m\<rparr>)))"

definition page :: "nat \<Rightarrow> nat \<Rightarrow> bool \<Rightarrow> shm \<Rightarrow> nat option \<times> shm" where
  "page oid pg alloc st =
     (case obj_at st oid of
        None \<Rightarrow> (None, st)
      | Some ob \<Rightarrow>
          if div_ceil (so_size ob) 4096 \<le> pg then (None, st)
          else let pa = so_slots ob ! pg in
            if pa \<noteq> 0 then (Some pa, st)
            else if \<not> alloc then (None, st)
            else case alloc_frame (sfa st) of
                   None \<Rightarrow> (None, st)
                 | Some (f, fa) \<Rightarrow>
                     (Some f, put_obj oid (ob\<lparr>so_slots := (so_slots ob)[pg := f]\<rparr>)
                        (st\<lparr>sfa := fa, smem := mem_write (smem st) f (replicate 4096 0)\<rparr>)))"

text \<open>The two directions of \<open>rw\<close>; the loop goes page by page.\<close>

function write_loop :: "nat \<Rightarrow> nat \<Rightarrow> u8 list \<Rightarrow> shm \<Rightarrow> (errno + unit) \<times> shm" where
  "write_loop oid at bs st =
     (if bs = [] then (Inr (), st)
      else let inpg = at mod 4096; n = min (4096 - inpg) (length bs) in
        case page oid (at div 4096) True st of
          (None, st) \<Rightarrow> (Inl ENOMEM, st)
        | (Some pa, st) \<Rightarrow>
            write_loop oid (at + n) (drop n bs) (st\<lparr>smem := mem_write (smem st) (pa + inpg) (take n bs)\<rparr>))"
  by pat_completeness auto
termination
  by (relation "measure (\<lambda>(oid, at, bs, st). length bs)") auto

definition rw_write :: "nat \<Rightarrow> nat \<Rightarrow> u8 list \<Rightarrow> shm \<Rightarrow> (errno + nat) \<times> shm" where
  "rw_write oid off bs st =
     (case checked_add off (length bs) of
        None \<Rightarrow> (Inl EFBIG, st)
      | Some e \<Rightarrow>
          (case (if e > shm_size st oid then truncate oid e st else (Inr (), st)) of
             (Inl err, st) \<Rightarrow> (Inl err, st)
           | (Inr _, st) \<Rightarrow>
               (case write_loop oid off bs st of
                  (Inl err, st) \<Rightarrow> (Inl err, st)
                | (Inr _, st) \<Rightarrow> (Inr (e - off), st))))"

function read_loop :: "nat \<Rightarrow> nat \<Rightarrow> nat \<Rightarrow> shm \<Rightarrow> u8 list" where
  "read_loop oid at e st =
     (if at < e then
        let inpg = at mod 4096; n = min (4096 - inpg) (e - at) in
        (case fst (page oid (at div 4096) False st) of
           Some pa \<Rightarrow> mem_read (smem st) (pa + inpg) n
         | None \<Rightarrow> replicate n 0) @ read_loop oid (at + n) e st
      else [])"
  by pat_completeness auto
termination
  by (relation "measure (\<lambda>(oid, at, e, st). e - at)") auto

text \<open>\<open>off + len\<close> is an unchecked 64-bit addition.\<close>

definition rw_read :: "nat \<Rightarrow> nat \<Rightarrow> nat \<Rightarrow> shm \<Rightarrow> u8 list \<times> nat" where
  "rw_read oid off len st =
     (if shm_size st oid \<le> off then ([], 0)
      else let e = min ((off + len) mod 2 ^ 64) (shm_size st oid)
           in (read_loop oid off e st, (e + 2 ^ 64 - off) mod 2 ^ 64))"

declare write_loop.simps [simp del] read_loop.simps [simp del]

section \<open>Invariant\<close>

definition obj_frames :: "shm_obj \<Rightarrow> nat list" where
  "obj_frames ob = filter (\<lambda>pa. pa \<noteq> 0) (so_slots ob) @ map (\<lambda>k. so_index ob + k * 4096) [0..<so_iframes ob]"

definition obj_wf :: "shm_obj \<Rightarrow> bool" where
  "obj_wf ob \<longleftrightarrow> length (so_slots ob) = so_iframes ob * 512 \<and> 4096 dvd so_index ob \<and>
     (so_index ob = 0 \<longleftrightarrow> so_iframes ob = 0) \<and>
     div_ceil (so_size ob) 4096 \<le> length (so_slots ob) \<and>
     (\<forall>pg < length (so_slots ob). div_ceil (so_size ob) 4096 \<le> pg \<longrightarrow> so_slots ob ! pg = 0) \<and>
     distinct (obj_frames ob)"

definition shm_inv :: "shm \<Rightarrow> bool" where
  "shm_inv st \<longleftrightarrow> frames_inv (sfa st) \<and> length (objs st) = MAX_OBJS \<and>
     (\<forall>ob \<in> set (objs st). obj_wf ob \<and> (\<not> so_used ob \<longrightarrow> ob = shm_empty) \<and>
        (\<forall>a \<in> set (obj_frames ob). addr_refs (sfa st) a = 1)) \<and>
     (\<forall>i < MAX_OBJS. \<forall>j < MAX_OBJS. i \<noteq> j \<longrightarrow>
        set (obj_frames (objs st ! i)) \<inter> set (obj_frames (objs st ! j)) = {})"

lemma shm_invD:
  assumes "shm_inv st"
  shows "frames_inv (sfa st)" "length (objs st) = MAX_OBJS"
    and "i < MAX_OBJS \<Longrightarrow> obj_wf (objs st ! i)"
    and "i < MAX_OBJS \<Longrightarrow> \<not> so_used (objs st ! i) \<Longrightarrow> objs st ! i = shm_empty"
    and "i < MAX_OBJS \<Longrightarrow> a \<in> set (obj_frames (objs st ! i)) \<Longrightarrow> addr_refs (sfa st) a = 1"
    and "i < MAX_OBJS \<Longrightarrow> j < MAX_OBJS \<Longrightarrow> i \<noteq> j \<Longrightarrow>
      set (obj_frames (objs st ! i)) \<inter> set (obj_frames (objs st ! j)) = {}"
  using assms unfolding shm_inv_def by (auto dest!: bspec nth_mem)

lemma shm_invI:
  assumes "frames_inv (sfa st)" "length (objs st) = MAX_OBJS"
    and "\<And>i. i < MAX_OBJS \<Longrightarrow> obj_wf (objs st ! i)"
    and "\<And>i. i < MAX_OBJS \<Longrightarrow> \<not> so_used (objs st ! i) \<Longrightarrow> objs st ! i = shm_empty"
    and "\<And>i a. i < MAX_OBJS \<Longrightarrow> a \<in> set (obj_frames (objs st ! i)) \<Longrightarrow> addr_refs (sfa st) a = 1"
    and "\<And>i j. i < MAX_OBJS \<Longrightarrow> j < MAX_OBJS \<Longrightarrow> i \<noteq> j \<Longrightarrow>
      set (obj_frames (objs st ! i)) \<inter> set (obj_frames (objs st ! j)) = {}"
  shows "shm_inv st"
proof -
  have "obj_wf ob \<and> (\<not> so_used ob \<longrightarrow> ob = shm_empty) \<and>
      (\<forall>a \<in> set (obj_frames ob). addr_refs (sfa st) a = 1)" if ob: "ob \<in> set (objs st)" for ob
  proof -
    obtain i where "i < MAX_OBJS" "ob = objs st ! i" using ob assms(2) by (auto simp: in_set_conv_nth)
    then show ?thesis using assms(3-5) by blast
  qed
  then show ?thesis unfolding shm_inv_def using assms(1,2,6) by blast
qed

lemma put_obj_simps [simp]:
  "sfa (put_obj oid ob st) = sfa st" "smem (put_obj oid ob st) = smem st"
  "objs (put_obj oid ob st) = (objs st)[oid - 1 := ob]"
  by (simp_all add: put_obj_def)

lemma obj_frames_empty [simp]: "obj_frames shm_empty = []"
  by (simp add: obj_frames_def shm_empty_def)

lemma obj_wf_empty [simp]: "obj_wf shm_empty"
  by (simp add: obj_wf_def obj_frames_def shm_empty_def div_ceil_def)

lemma obj_at_Some:
  "obj_at st oid = Some ob \<longleftrightarrow> 0 < oid \<and> oid - 1 < length (objs st) \<and> ob = objs st ! (oid - 1) \<and> so_used ob"
  by (auto simp: obj_at_def)

section \<open>Moving frames between owners\<close>

text \<open>
  \<open>owned F fa\<close>: the frames of \<open>F\<close> have one reference each. \<open>moved F fa F' fa'\<close>: the owner of \<open>F\<close>
  now owns \<open>F'\<close>; what it gave up is free, what it took was free, no other frame changed.
\<close>

definition owned :: "nat set \<Rightarrow> frames \<Rightarrow> bool" where
  "owned F fa \<longleftrightarrow> frames_inv fa \<and> (\<forall>a \<in> F. addr_refs fa a = 1)"

definition moved :: "nat set \<Rightarrow> frames \<Rightarrow> nat set \<Rightarrow> frames \<Rightarrow> bool" where
  "moved F fa F' fa' \<longleftrightarrow> frames_inv fa' \<and>
     (\<forall>a. addr_refs fa' a = (if a \<in> F' then 1 else if a \<in> F then 0 else addr_refs fa a)) \<and>
     (\<forall>a \<in> F'. a \<in> F \<or> addr_refs fa a = 0)"

lemma moved_refl: "owned F fa \<Longrightarrow> moved F fa F fa"
  by (auto simp: moved_def owned_def)

lemma moved_owned: "moved F fa F' fa' \<Longrightarrow> owned F' fa'"
  by (auto simp: moved_def owned_def)

lemma moved_trans: "moved F fa F' fa' \<Longrightarrow> moved F' fa' F'' fa'' \<Longrightarrow> moved F fa F'' fa''"
  unfolding moved_def
  by (intro conjI allI ballI) (blast, metis, metis zero_neq_one)

lemma moved_alloc:
  assumes "owned F fa" "alloc_frame fa = Some (a, fa')"
  shows "moved F fa (insert a F) fa'" "0 < a" "4096 dvd a" "a \<notin> F"
  using fs.alloc_law [of fa a fa'] assms by (auto simp: moved_def owned_def)

lemma moved_free:
  assumes "owned F fa" "a \<in> F"
  shows "moved F fa (F - {a}) (free_frame a fa)"
  using fs.release_law [of fa a] assms by (auto simp: moved_def owned_def)

definition block :: "nat \<Rightarrow> nat \<Rightarrow> nat set" where
  "block a n = (\<lambda>k. a + k * 4096) ` {..<n}"

lemma moved_alloc_block:
  assumes "owned F fa" "alloc_contig n fa = Some (a, fa')"
  shows "moved F fa (F \<union> block a n) fa'" "0 < a" "4096 dvd a" "0 < n" "F \<inter> block a n = {}"
  using fs.alloc_block_law [of fa n a fa'] assms
  by (auto simp: moved_def owned_def block_def image_iff Bex_def)

lemma moved_free_block:
  assumes "owned F fa" "block a n \<subseteq> F" "4096 dvd a"
  shows "moved F fa (F - block a n) (free_contig a n fa)"
proof -
  have "\<forall>i < n. 0 < addr_refs fa (a + i * 4096)"
    using assms(1,2) by (auto simp: owned_def block_def image_subset_iff)
  with assms(1) fs.release_block_law [of fa a n] assms(3)
  have "frames_inv (free_contig a n fa)" "addr_refs (free_contig a n fa) =
      (\<lambda>x. if x \<in> block a n then addr_refs fa x - 1 else addr_refs fa x)"
    by (auto simp: owned_def block_def image_iff Bex_def)
  then show ?thesis using assms(1,2) by (auto simp: moved_def owned_def subset_iff)
qed

lemma moved_free_slots:
  assumes "owned F fa" "distinct (filter (\<lambda>pa. pa \<noteq> 0) pas)" "set pas - {0} \<subseteq> F"
  shows "moved F fa (F - (set pas - {0})) (free_slots pas fa)"
  using assms
proof (induction pas arbitrary: F fa)
  case Nil
  then show ?case by (simp add: free_slots_def moved_refl)
next
  case (Cons x pas)
  show ?case
  proof (cases "x = 0")
    case True
    then show ?thesis using Cons.IH [OF Cons.prems(1)] Cons.prems(2,3) by (simp add: free_slots_def)
  next
    case False
    then have m: "moved F fa (F - {x}) (free_frame x fa)"
      using Cons.prems by (intro moved_free) auto
    have "moved (F - {x}) (free_frame x fa) (F - {x} - (set pas - {0})) (free_slots pas (free_frame x fa))"
      by (rule Cons.IH [OF moved_owned [OF m]]) (use Cons.prems(2,3) False in auto)
    moreover have "F - {x} - (set pas - {0}) = F - (set (x # pas) - {0})" using False by auto
    ultimately show ?thesis using moved_trans [OF m] False by (simp add: free_slots_def)
  qed
qed

lemma shm_inv_owned:
  "shm_inv st \<Longrightarrow> i < MAX_OBJS \<Longrightarrow> owned (set (obj_frames (objs st ! i))) (sfa st)"
  using shm_invD(1,5) by (auto simp: owned_def)

lemma obj_frames_set:
  "set (obj_frames ob) = (set (so_slots ob) - {0}) \<union> block (so_index ob) (so_iframes ob)"
  by (auto simp: obj_frames_def block_def image_iff)

text \<open>Replacing one object: its new frames are its own, and the others keep theirs.\<close>

lemma put_obj_inv:
  assumes inv: "shm_inv st" and i: "oid - 1 < MAX_OBJS"
    and wf: "obj_wf ob" and used: "\<not> so_used ob \<Longrightarrow> ob = shm_empty"
    and mv: "moved (set (obj_frames (objs st ! (oid - 1)))) (sfa st) (set (obj_frames ob)) fa"
  shows "shm_inv (put_obj oid ob (st\<lparr>sfa := fa, smem := m\<rparr>))"
proof -
  note d = shm_invD [OF inv]
  let ?i = "oid - 1"
  have fa: "frames_inv fa" using mv by (simp add: moved_def)
  have own: "addr_refs fa a = 1 \<and> (a \<in> set (obj_frames (objs st ! ?i)) \<or> addr_refs (sfa st) a = 0)"
    if "a \<in> set (obj_frames ob)" for a using mv that by (auto simp: moved_def)
  have keep: "addr_refs fa a = 1"
    if "addr_refs (sfa st) a = 1" "a \<notin> set (obj_frames (objs st ! ?i))" for a
    using mv that by (auto simp: moved_def)
  have nth: "objs (put_obj oid ob (st\<lparr>sfa := fa, smem := m\<rparr>)) ! j = (if j = ?i then ob else objs st ! j)"
    if "j < MAX_OBJS" for j using that i d(2) by auto
  have disj: "set (obj_frames ob) \<inter> set (obj_frames (objs st ! j)) = {}" if "j < MAX_OBJS" "j \<noteq> ?i" for j
    using own d(5) [OF that(1)] d(6) [OF that(1) i that(2)] by fastforce
  show ?thesis
  proof (rule shm_invI)
    fix k a assume k: "k < MAX_OBJS"
      and a: "a \<in> set (obj_frames (objs (put_obj oid ob (st\<lparr>sfa := fa, smem := m\<rparr>)) ! k))"
    show "addr_refs (sfa (put_obj oid ob (st\<lparr>sfa := fa, smem := m\<rparr>))) a = 1"
    proof (cases "k = ?i")
      case True
      then show ?thesis using a own nth [OF k] by simp
    next
      case False
      then have "a \<in> set (obj_frames (objs st ! k))" using a nth [OF k] by simp
      then show ?thesis using keep d(5) [OF k] d(6) [OF k i False] by auto
    qed
  next
    fix k j assume kj: "k < MAX_OBJS" "j < MAX_OBJS" "k \<noteq> j"
    then show "set (obj_frames (objs (put_obj oid ob (st\<lparr>sfa := fa, smem := m\<rparr>)) ! k)) \<inter>
        set (obj_frames (objs (put_obj oid ob (st\<lparr>sfa := fa, smem := m\<rparr>)) ! j)) = {}"
      using nth disj d(6) by (cases "k = ?i"; cases "j = ?i") (auto simp: Int_commute)
  next
    fix k assume k: "k < MAX_OBJS"
    show "obj_wf (objs (put_obj oid ob (st\<lparr>sfa := fa, smem := m\<rparr>)) ! k)"
      using nth [OF k] d(3) [OF k] wf by presburger
    show "objs (put_obj oid ob (st\<lparr>sfa := fa, smem := m\<rparr>)) ! k = shm_empty"
      if "\<not> so_used (objs (put_obj oid ob (st\<lparr>sfa := fa, smem := m\<rparr>)) ! k)"
      using that nth [OF k] d(4) [OF k] used by metis
  qed (use d fa in simp_all)
qed

text \<open>\<open>maybe_free\<close>: the object and everything it owns, or nothing.\<close>

definition unreferenced :: "shm_obj \<Rightarrow> bool" where
  "unreferenced ob \<longleftrightarrow> so_fd ob = 0 \<and> so_map ob = 0 \<and> \<not> so_named ob"

lemma maybe_free_spec:
  assumes inv: "shm_inv st"
  shows "shm_inv (maybe_free oid st)"
    and "obj_at st oid = Some ob \<Longrightarrow> unreferenced ob \<Longrightarrow>
      obj_at (maybe_free oid st) oid = None \<and> objs (maybe_free oid st) = (objs st)[oid - 1 := shm_empty] \<and>
      moved (set (obj_frames ob)) (sfa st) {} (sfa (maybe_free oid st))"
    and "(\<And>ob. obj_at st oid = Some ob \<Longrightarrow> \<not> unreferenced ob) \<Longrightarrow> maybe_free oid st = st"
    and "smem (maybe_free oid st) = smem st"
proof -
  have "shm_inv (maybe_free oid st) \<and>
    (\<forall>ob. obj_at st oid = Some ob \<and> unreferenced ob \<longrightarrow>
      obj_at (maybe_free oid st) oid = None \<and> objs (maybe_free oid st) = (objs st)[oid - 1 := shm_empty] \<and>
      moved (set (obj_frames ob)) (sfa st) {} (sfa (maybe_free oid st)))"
  proof (cases "\<exists>ob. obj_at st oid = Some ob \<and> unreferenced ob")
    case True
    then obtain ob where ob: "obj_at st oid = Some ob" "unreferenced ob" by blast
    then have i: "oid - 1 < MAX_OBJS" "ob = objs st ! (oid - 1)"
      using shm_invD(2) [OF inv] by (auto simp: obj_at_Some)
    let ?F = "set (obj_frames ob)" and ?fa = "free_slots (so_slots ob) (sfa st)"
    let ?fa' = "if so_index ob \<noteq> 0 then free_contig (so_index ob) (so_iframes ob) ?fa else ?fa"
    have wf: "obj_wf ob" using shm_invD(3) [OF inv i(1)] i(2) by simp
    have own: "owned ?F (sfa st)" using shm_inv_owned [OF inv i(1)] i(2) by simp
    have dj: "(set (so_slots ob) - {0}) \<inter> block (so_index ob) (so_iframes ob) = {}"
      using wf by (auto simp: obj_wf_def obj_frames_def block_def)
    have m1: "moved ?F (sfa st) (?F - (set (so_slots ob) - {0})) ?fa"
      by (rule moved_free_slots [OF own]) (use wf in \<open>auto simp: obj_wf_def obj_frames_def\<close>)
    have F1: "?F - (set (so_slots ob) - {0}) = block (so_index ob) (so_iframes ob)"
      using dj by (auto simp: obj_frames_set)
    have m2: "moved (block (so_index ob) (so_iframes ob)) ?fa {} ?fa'"
    proof (cases "so_index ob = 0")
      case True
      then have "block (so_index ob) (so_iframes ob) = {}" using wf by (simp add: obj_wf_def block_def)
      then show ?thesis using True moved_refl [OF moved_owned [OF m1]] F1 by simp
    next
      case False
      then show ?thesis
        using moved_free_block [OF moved_owned [OF m1], of "so_index ob" "so_iframes ob"] F1 wf
        by (simp add: obj_wf_def)
    qed
    have m: "moved ?F (sfa st) {} ?fa'" by (rule moved_trans [OF m1 [unfolded F1] m2])
    have eq: "maybe_free oid st = put_obj oid shm_empty (st\<lparr>sfa := ?fa', smem := smem st\<rparr>)"
      using ob by (simp add: maybe_free_def unreferenced_def Let_def)
    have "shm_inv (maybe_free oid st)"
      unfolding eq by (rule put_obj_inv [OF inv i(1)]) (use m i(2) in simp_all)
    moreover have "obj_at (maybe_free oid st) oid = None"
      using i(1) shm_invD(2) [OF inv] by (simp add: obj_at_def eq shm_empty_def)
    ultimately show ?thesis using m ob(1) by (auto simp: eq)
  next
    case False
    then have "maybe_free oid st = st"
      by (auto simp: maybe_free_def unreferenced_def split: option.splits)
    then show ?thesis using False inv by auto
  qed
  then show "shm_inv (maybe_free oid st)"
    "obj_at st oid = Some ob \<Longrightarrow> unreferenced ob \<Longrightarrow>
      obj_at (maybe_free oid st) oid = None \<and> objs (maybe_free oid st) = (objs st)[oid - 1 := shm_empty] \<and>
      moved (set (obj_frames ob)) (sfa st) {} (sfa (maybe_free oid st))" by auto
  show "(\<And>ob. obj_at st oid = Some ob \<Longrightarrow> \<not> unreferenced ob) \<Longrightarrow> maybe_free oid st = st"
    by (auto simp: maybe_free_def unreferenced_def split: option.splits)
  show "smem (maybe_free oid st) = smem st"
    by (auto simp: maybe_free_def Let_def split: option.splits)
qed

text \<open>Changing only the counters, the name or the used mark of an object.\<close>

definition same_pages :: "shm_obj \<Rightarrow> shm_obj \<Rightarrow> bool" where
  "same_pages ob ob' \<longleftrightarrow> so_size ob' = so_size ob \<and> so_index ob' = so_index ob \<and>
     so_iframes ob' = so_iframes ob \<and> so_slots ob' = so_slots ob"

lemma same_pagesD:
  assumes "same_pages ob ob'"
  shows "obj_frames ob' = obj_frames ob" "obj_wf ob' = obj_wf ob"
  using assms by (simp_all add: same_pages_def obj_frames_def obj_wf_def)

lemma put_same_pages:
  assumes inv: "shm_inv st" and i: "oid - 1 < MAX_OBJS"
    and same: "same_pages (objs st ! (oid - 1)) ob" and used: "so_used ob"
  shows "shm_inv (put_obj oid ob st)"
proof -
  have "shm_inv (put_obj oid ob (st\<lparr>sfa := sfa st, smem := smem st\<rparr>))"
    using same_pagesD [OF same] shm_invD(3) [OF inv i] used moved_refl [OF shm_inv_owned [OF inv i]]
    by (intro put_obj_inv [OF inv i]) simp_all
  then show ?thesis by simp
qed

text \<open>\<open>grow_index\<close> keeps the pages and adds empty slots.\<close>

lemma grow_index_spec:
  assumes wf: "obj_wf ob" and own: "owned (set (obj_frames ob)) fa"
    and g: "grow_index ob pages fa = Some (ob', fa')"
  shows "obj_wf ob'" "moved (set (obj_frames ob)) fa (set (obj_frames ob')) fa'"
    and "\<exists>k. so_slots ob' = so_slots ob @ replicate k 0" "pages \<le> length (so_slots ob')"
    and "so_size ob' = so_size ob" "so_used ob' = so_used ob" "so_fd ob' = so_fd ob"
    "so_map ob' = so_map ob" "so_named ob' = so_named ob" "so_name ob' = so_name ob"
proof -
  have "obj_wf ob' \<and> moved (set (obj_frames ob)) fa (set (obj_frames ob')) fa' \<and>
    (\<exists>k. so_slots ob' = so_slots ob @ replicate k 0) \<and> pages \<le> length (so_slots ob')"
  proof (cases "pages \<le> length (so_slots ob)")
    case True
    then show ?thesis using g wf moved_refl [OF own] by (auto simp: grow_index_def intro: exI [of _ 0])
  next
    case False
    define n where "n = max (div_ceil (pages * 8) 4096) 1"
    have gd: "grow_index ob pages fa = (case alloc_contig n fa of None \<Rightarrow> None
      | Some (ix, fa) \<Rightarrow> Some (ob\<lparr>so_index := ix, so_iframes := n,
          so_slots := so_slots ob @ replicate (n * 4096 div 8 - length (so_slots ob)) 0\<rparr>,
          if so_index ob \<noteq> 0 then free_contig (so_index ob) (so_iframes ob) fa else fa))"
      by (simp only: grow_index_def Let_def n_def False if_False)
    obtain ix fa1 where al: "alloc_contig n fa = Some (ix, fa1)"
      using g gd by (auto split: option.splits)
    let ?k = "n * 512 - length (so_slots ob)"
    have ob': "ob' = ob\<lparr>so_index := ix, so_iframes := n, so_slots := so_slots ob @ replicate ?k 0\<rparr>"
      and fa': "fa' = (if so_index ob \<noteq> 0 then free_contig (so_index ob) (so_iframes ob) fa1 else fa1)"
      using g gd al by auto
    note b = moved_alloc_block [OF own al]
    have n: "pages \<le> n * 512"
    proof -
      have "pages * 8 \<le> div_ceil (pages * 8) 4096 * 4096" by (rule div_ceil_ge) simp
      then show ?thesis unfolding n_def by (simp add: max_def split: if_splits)
    qed
    have F': "set (obj_frames ob') = (set (so_slots ob) - {0}) \<union> block ix n"
      by (auto simp: ob' obj_frames_set)
    have dj: "(set (so_slots ob) - {0}) \<inter> block (so_index ob) (so_iframes ob) = {}"
      using wf by (auto simp: obj_wf_def obj_frames_def block_def)
    have F1: "set (obj_frames ob) \<union> block ix n - block (so_index ob) (so_iframes ob) = set (obj_frames ob')"
      using dj b(5) unfolding F' by (auto simp: obj_frames_set)
    have m2: "moved (set (obj_frames ob) \<union> block ix n) fa1 (set (obj_frames ob')) fa'"
    proof (cases "so_index ob = 0")
      case True
      then have "block (so_index ob) (so_iframes ob) = {}" using wf by (simp add: obj_wf_def block_def)
      then show ?thesis using True moved_refl [OF moved_owned [OF b(1)]] F1 fa' by auto
    next
      case False
      then show ?thesis
        using moved_free_block [OF moved_owned [OF b(1)], of "so_index ob" "so_iframes ob"] F1 wf fa'
        by (auto simp: obj_wf_def obj_frames_set)
    qed
    have "distinct (obj_frames ob')"
    proof -
      have "distinct (filter (\<lambda>pa. pa \<noteq> 0) (so_slots ob))" using wf by (simp add: obj_wf_def obj_frames_def)
      moreover have "distinct (map (\<lambda>k. ix + k * 4096) [0..<n])" by (simp add: distinct_map inj_on_def)
      moreover have "set (filter (\<lambda>pa. pa \<noteq> 0) (so_slots ob)) \<inter> set (map (\<lambda>k. ix + k * 4096) [0..<n]) = {}"
        using b(5) by (auto simp: obj_frames_set block_def)
      ultimately show ?thesis by (simp add: obj_frames_def ob')
    qed
    moreover have "so_slots ob' ! pg = 0" if "pg < length (so_slots ob')" "div_ceil (so_size ob) 4096 \<le> pg" for pg
      using that wf by (auto simp: ob' nth_append obj_wf_def)
    ultimately have "obj_wf ob'"
      using wf b False n by (auto simp: obj_wf_def ob')
    then show ?thesis using moved_trans [OF b(1) m2] n False by (auto simp: ob')
  qed
  then show "obj_wf ob'" "moved (set (obj_frames ob)) fa (set (obj_frames ob')) fa'"
    "\<exists>k. so_slots ob' = so_slots ob @ replicate k 0" "pages \<le> length (so_slots ob')" by auto
  show "so_size ob' = so_size ob" "so_used ob' = so_used ob" "so_fd ob' = so_fd ob"
    "so_map ob' = so_map ob" "so_named ob' = so_named ob" "so_name ob' = so_name ob"
    using g by (auto simp: grow_index_def Let_def split: if_splits option.splits)
qed

section \<open>The contents of an object\<close>

text \<open>
  \<open>shm_byte st oid pos\<close> is the byte a reader sees at offset \<open>pos\<close>: that of the page's frame, 0 in a
  page that does not exist yet.
\<close>

definition slot_of :: "shm_obj \<Rightarrow> nat \<Rightarrow> nat" where
  "slot_of ob pg = (if pg < length (so_slots ob) then so_slots ob ! pg else 0)"

definition page_of :: "shm \<Rightarrow> nat \<Rightarrow> nat \<Rightarrow> nat" where
  "page_of st oid pg = (case obj_at st oid of None \<Rightarrow> 0 | Some ob \<Rightarrow> slot_of ob pg)"

definition shm_byte :: "shm \<Rightarrow> nat \<Rightarrow> nat \<Rightarrow> u8" where
  "shm_byte st oid pos =
     (let pa = page_of st oid (pos div 4096) in if pa = 0 then 0 else smem st (pa + pos mod 4096))"

lemma page_of_frames:
  assumes "shm_inv st" "page_of st oid pg \<noteq> 0"
  shows "0 < oid" "oid - 1 < MAX_OBJS" "page_of st oid pg \<in> set (obj_frames (objs st ! (oid - 1)))"
    "addr_refs (sfa st) (page_of st oid pg) = 1" "4096 dvd page_of st oid pg"
proof -
  show i: "0 < oid" "oid - 1 < MAX_OBJS"
    using assms shm_invD(2) [OF assms(1)]
    by (auto simp: page_of_def obj_at_def split: option.splits if_splits)
  show f: "page_of st oid pg \<in> set (obj_frames (objs st ! (oid - 1)))"
  proof -
    obtain ob where ob: "obj_at st oid = Some ob" "pg < length (so_slots ob)" "so_slots ob ! pg \<noteq> 0"
      "page_of st oid pg = so_slots ob ! pg"
      using assms(2) by (auto simp: page_of_def slot_of_def split: option.splits if_splits)
    then have "so_slots ob ! pg \<in> set (filter (\<lambda>pa. pa \<noteq> 0) (so_slots ob))" by simp
    then show ?thesis using ob by (simp add: obj_frames_def obj_at_Some)
  qed
  show "addr_refs (sfa st) (page_of st oid pg) = 1" by (rule shm_invD(5) [OF assms(1) i(2) f])
  then show "4096 dvd page_of st oid pg" by (auto simp: addr_refs_def split: if_splits)
qed

lemma page_of_inj:
  assumes "shm_inv st" "page_of st oid pg = page_of st oid' pg'" "page_of st oid pg \<noteq> 0"
  shows "oid = oid' \<and> pg = pg'"
proof -
  have n': "page_of st oid' pg' \<noteq> 0" using assms(2,3) by simp
  note f = page_of_frames [OF assms(1,3)] and f' = page_of_frames [OF assms(1) n']
  have "oid - 1 = oid' - 1"
    using shm_invD(6) [OF assms(1) f(2) f'(2)] f(3) f'(3) assms(2) by auto
  then have o: "oid = oid'" using f(1) f'(1) by simp
  let ?ob = "objs st ! (oid - 1)"
  have s: "pg < length (so_slots ?ob)" "so_slots ?ob ! pg = page_of st oid pg"
    "pg' < length (so_slots ?ob)" "so_slots ?ob ! pg' = page_of st oid pg"
    using assms(2,3) n' o by (auto simp: page_of_def slot_of_def obj_at_Some split: option.splits if_splits)
  have "distinct (filter (\<lambda>pa. pa \<noteq> 0) (so_slots ?ob))"
    using shm_invD(3) [OF assms(1) f(2)] by (simp add: obj_wf_def obj_frames_def)
  then have "pg = pg'"
    using s assms(3) distinct_filter_nth [of "\<lambda>pa. pa \<noteq> 0" "so_slots ?ob" pg pg'] by simp
  with o show ?thesis by simp
qed

text \<open>Writing inside one page of one object.\<close>

lemma frame_bytes:
  assumes "4096 dvd a" "4096 dvd (b :: nat)" "i < 4096" "a \<le> b + i" "b + i < a + 4096"
  shows "a = b"
  using assms by (auto simp: dvd_def)

lemma shm_byte_write:
  assumes inv: "shm_inv st" and p: "page_of st oid pg \<noteq> 0" and len: "k + length bs \<le> 4096"
  shows "shm_byte (st\<lparr>smem := mem_write (smem st) (page_of st oid pg + k) bs\<rparr>) oid' pos =
    (if oid' = oid \<and> pos div 4096 = pg \<and> k \<le> pos mod 4096 \<and> pos mod 4096 < k + length bs
     then bs ! (pos mod 4096 - k) else shm_byte st oid' pos)"
proof -
  let ?pa = "page_of st oid pg" and ?qa = "page_of st oid' (pos div 4096)"
  have same: "page_of (st\<lparr>smem := m\<rparr>) o' q = page_of st o' q" for m o' q
    by (simp add: page_of_def obj_at_def)
  show ?thesis
  proof (cases "?qa = ?pa")
    case True
    then have "oid' = oid \<and> pos div 4096 = pg" using page_of_inj [OF inv] p by metis
    then show ?thesis using p True by (auto simp: shm_byte_def Let_def same mem_write_def)
  next
    case False
    then have n: "\<not> (oid' = oid \<and> pos div 4096 = pg)" by auto
    show ?thesis
    proof (cases "?qa = 0")
      case True
      then show ?thesis using n by (auto simp: shm_byte_def same)
    next
      case q: False
      have "\<not> (?pa \<le> ?qa + pos mod 4096 \<and> ?qa + pos mod 4096 < ?pa + 4096)"
        using frame_bytes [OF page_of_frames(5) [OF inv p] page_of_frames(5) [OF inv q], of "pos mod 4096"]
          False by auto
      then have "?qa + pos mod 4096 < ?pa + k \<or> ?pa + k + length bs \<le> ?qa + pos mod 4096"
        using len by linarith
      then show ?thesis using n q by (auto simp: shm_byte_def Let_def same mem_write_out)
    qed
  qed
qed

lemma obj_at_put:
  assumes "oid - 1 < length (objs st)" "0 < oid"
  shows "obj_at (put_obj oid ob st) oid' =
    (if oid' = oid then (if so_used ob then Some ob else None) else obj_at st oid')"
proof (cases "oid' = oid")
  case True
  then show ?thesis using assms by (simp add: obj_at_def)
next
  case False
  show ?thesis
  proof (cases "0 < oid'")
    case True
    then have "oid - 1 \<noteq> oid' - 1" using assms(2) False by simp
    then show ?thesis using False by (simp add: obj_at_def del: One_nat_def)
  qed (use False in \<open>simp add: obj_at_def\<close>)
qed

lemma obj_at_upd [simp]:
  "obj_at (st\<lparr>sfa := fa\<rparr>) oid = obj_at st oid" "obj_at (st\<lparr>smem := m\<rparr>) oid = obj_at st oid"
  by (simp_all add: obj_at_def)

lemma page_of_smem: "page_of (st\<lparr>smem := m\<rparr>) oid pg = page_of st oid pg"
  by (simp add: page_of_def)

text \<open>\<open>page\<close>: what it returns, and that creating a page changes no byte.\<close>

lemma page_spec:
  assumes inv: "shm_inv st" and p: "page oid pg al st = (r, st')"
  shows "shm_inv st'" "r = Some pa \<Longrightarrow> page_of st' oid pg = pa \<and> pa \<noteq> 0"
    and "shm_byte st' o' pos = shm_byte st o' pos" "shm_size st' o' = shm_size st o'"
    and "r = None \<Longrightarrow> st' = st"
    and "\<not> al \<Longrightarrow> st' = st \<and> (pg < div_ceil (shm_size st oid) 4096 \<longrightarrow>
      r = (if page_of st oid pg = 0 then None else Some (page_of st oid pg)))"
proof -
  consider (none) "r = None" "st' = st" "\<not> al \<longrightarrow>
        pg < div_ceil (shm_size st oid) 4096 \<longrightarrow> page_of st oid pg = 0"
    | (old) "r = Some (page_of st oid pg)" "page_of st oid pg \<noteq> 0" "st' = st"
    | (new) ob f fa where "obj_at st oid = Some ob" "pg < length (so_slots ob)" "so_slots ob ! pg = 0"
        "pg < div_ceil (so_size ob) 4096"
        "alloc_frame (sfa st) = Some (f, fa)" "r = Some f" "al"
        "st' = put_obj oid (ob\<lparr>so_slots := (so_slots ob)[pg := f]\<rparr>)
           (st\<lparr>sfa := fa, smem := mem_write (smem st) f (replicate 4096 0)\<rparr>)"
  proof (cases "obj_at st oid")
    case None
    then show ?thesis using p none by (simp add: page_def page_of_def)
  next
    case (Some ob)
    then have i: "oid - 1 < MAX_OBJS" "ob = objs st ! (oid - 1)" using shm_invD(2) [OF inv] by (auto simp: obj_at_Some)
    have wf: "obj_wf ob" using shm_invD(3) [OF inv i(1)] i(2) by simp
    show ?thesis
    proof (cases "div_ceil (so_size ob) 4096 \<le> pg")
      case True
      then show ?thesis using p Some none by (simp add: page_def shm_size_def)
    next
      case False
      then have len: "pg < length (so_slots ob)" using wf by (simp add: obj_wf_def)
      then have po: "page_of st oid pg = so_slots ob ! pg" using Some by (simp add: page_of_def slot_of_def)
      show ?thesis
      proof (cases "so_slots ob ! pg = 0 \<and> al")
        case True
        show ?thesis
        proof (cases "alloc_frame (sfa st)")
          case None
          then have "r = None" "st' = st"
            using p \<open>obj_at st oid = Some ob\<close> False True by (simp_all add: page_def Let_def)
          then show ?thesis by (rule none) (use True in simp)
        next
          case (Some r')
          then obtain f fa where al: "alloc_frame (sfa st) = Some (f, fa)" by (cases r') auto
          then have "r = Some f" "st' = put_obj oid (ob\<lparr>so_slots := (so_slots ob)[pg := f]\<rparr>)
              (st\<lparr>sfa := fa, smem := mem_write (smem st) f (replicate 4096 0)\<rparr>)"
            using p \<open>obj_at st oid = Some ob\<close> False True by (simp_all add: page_def Let_def)
          then show ?thesis using \<open>obj_at st oid = Some ob\<close> False True len al
            by (intro new) simp_all
        qed
      next
        case nt: False
        show ?thesis
        proof (cases "so_slots ob ! pg = 0")
          case True
          then have "r = None" "st' = st" using p Some False nt by (simp_all add: page_def Let_def)
          then show ?thesis by (rule none) (simp add: po True)
        next
          case sl: False
          then have "r = Some (page_of st oid pg)" "st' = st"
            using p Some False po by (simp_all add: page_def Let_def)
          then show ?thesis using old sl po by simp
        qed
      qed
    qed
  qed
  then have "shm_inv st' \<and> (\<forall>pa. r = Some pa \<longrightarrow> page_of st' oid pg = pa \<and> pa \<noteq> 0) \<and>
    (\<forall>o' pos. shm_byte st' o' pos = shm_byte st o' pos) \<and> (\<forall>o'. shm_size st' o' = shm_size st o') \<and>
    (r = None \<longrightarrow> st' = st) \<and> (\<not> al \<longrightarrow> st' = st \<and> (pg < div_ceil (shm_size st oid) 4096 \<longrightarrow>
      r = (if page_of st oid pg = 0 then None else Some (page_of st oid pg))))"
  proof cases
    case none
    then show ?thesis using inv by simp
  next
    case old
    then show ?thesis using inv by auto
  next
    case (new ob f fa)
    let ?ob = "ob\<lparr>so_slots := (so_slots ob)[pg := f]\<rparr>"
    have i: "0 < oid" "oid - 1 < MAX_OBJS" "ob = objs st ! (oid - 1)" "so_used ob"
      using new(1) shm_invD(2) [OF inv] by (auto simp: obj_at_Some)
    have wf: "obj_wf ob" using shm_invD(3) [OF inv i(2)] i(3) by simp
    have own: "owned (set (obj_frames ob)) (sfa st)" using shm_inv_owned [OF inv i(2)] i(3) by simp
    note a = moved_alloc [OF own new(5)]
    have "set ((so_slots ob)[pg := f]) - {0} = insert f (set (so_slots ob) - {0})"
      using set_update_hole [OF new(2,3), of f] a(2) by auto
    then have F: "set (obj_frames ?ob) = insert f (set (obj_frames ob))" by (auto simp: obj_frames_set)
    have "distinct (obj_frames ?ob)"
    proof -
      have d: "distinct (filter (\<lambda>pa. pa \<noteq> 0) (so_slots ob))" "distinct (map (\<lambda>k. so_index ob + k * 4096) [0..<so_iframes ob])"
        "set (filter (\<lambda>pa. pa \<noteq> 0) (so_slots ob)) \<inter> set (map (\<lambda>k. so_index ob + k * 4096) [0..<so_iframes ob]) = {}"
        using wf by (auto simp: obj_wf_def obj_frames_def)
      have "distinct (filter (\<lambda>pa. pa \<noteq> 0) ((so_slots ob)[pg := f]))"
        by (rule distinct_filter_update [OF d(1)]) (use a(4) in \<open>auto simp: obj_frames_def\<close>)
      moreover have "f \<notin> set (map (\<lambda>k. so_index ob + k * 4096) [0..<so_iframes ob])"
        using a(4) by (simp add: obj_frames_def)
      ultimately show ?thesis using d(2,3) set_update_subset_insert [of "so_slots ob" pg f]
        by (auto simp: obj_frames_def)
    qed
    then have wf': "obj_wf ?ob"
      using wf new(4) by (auto simp: obj_wf_def nth_list_update)
    have inv': "shm_inv st'"
      unfolding new(8) by (rule put_obj_inv [OF inv i(2) wf']) (use i(3,4) a(1) F in auto)
    have at: "obj_at st' o' = (if o' = oid then Some ?ob else obj_at st o')" for o'
      using i(1,2,4) shm_invD(2) [OF inv] unfolding new(8) by (subst obj_at_put) auto
    have po: "page_of st' o' q = (if o' = oid \<and> q = pg then f else page_of st o' q)" for o' q
      using new(1-3) by (auto simp: page_of_def at slot_of_def nth_list_update)
    have p0: "page_of st oid pg = 0" using new(1-3) by (simp add: page_of_def slot_of_def)
    have zero: "smem st' (f + k) = 0" if "k < 4096" for k
      using that by (simp add: new(8) mem_write_def)
    have "shm_byte st' o' pos = shm_byte st o' pos" for o' pos
    proof (cases "o' = oid \<and> pos div 4096 = pg")
      case True
      then show ?thesis using p0 zero [of "pos mod 4096"] by (simp add: shm_byte_def po Let_def)
    next
      case False
      have "smem st' (page_of st o' (pos div 4096) + pos mod 4096) =
          smem st (page_of st o' (pos div 4096) + pos mod 4096)" if q: "page_of st o' (pos div 4096) \<noteq> 0"
      proof -
        let ?q = "page_of st o' (pos div 4096)"
        have "?q \<noteq> f"
          using page_of_frames(4) [OF inv q] fs.alloc_law [OF shm_invD(1) [OF inv] new(5)] by auto
        then have "\<not> (f \<le> ?q + pos mod 4096 \<and> ?q + pos mod 4096 < f + 4096)"
          using frame_bytes [OF a(3) page_of_frames(5) [OF inv q], of "pos mod 4096"] by auto
        then show ?thesis by (auto simp: new(8) mem_write_out)
      qed
      then show ?thesis using False by (auto simp: shm_byte_def Let_def po)
    qed
    moreover have "shm_size st' o' = shm_size st o'" for o'
      using new(1) by (simp add: shm_size_def at)
    ultimately show ?thesis using inv' new(6,7) po a(2) by auto
  qed
  then show "shm_inv st'" "r = Some pa \<Longrightarrow> page_of st' oid pg = pa \<and> pa \<noteq> 0"
    "shm_byte st' o' pos = shm_byte st o' pos" "shm_size st' o' = shm_size st o'"
    "r = None \<Longrightarrow> st' = st"
    "\<not> al \<Longrightarrow> st' = st \<and> (pg < div_ceil (shm_size st oid) 4096 \<longrightarrow>
      r = (if page_of st oid pg = 0 then None else Some (page_of st oid pg)))" by auto
qed

text \<open>\<open>truncate\<close>: the pages kept, the frames given back, the zeroed tail.\<close>

lemma truncate_cases:
  assumes inv: "shm_inv st" and t: "truncate oid sz st = (r, st')"
  obtains (err) e where "r = Inl e" "st' = st"
  | (ok) ob ob' fa slots where "r = Inr ()" "sz \<le> MAX_SIZE" "obj_at st oid = Some ob"
      "grow_index ob (div_ceil sz 4096) (sfa st) = Some (ob', fa)"
      "slots = take (div_ceil sz 4096) (so_slots ob') @
        replicate (length (so_slots ob') - div_ceil sz 4096) 0"
      "st' = put_obj oid (ob'\<lparr>so_slots := slots, so_size := sz\<rparr>)
        (st\<lparr>sfa := free_slots (drop (div_ceil sz 4096) (so_slots ob')) fa,
            smem := (if sz mod 4096 \<noteq> 0 \<and> 0 < div_ceil sz 4096 \<and> slots ! (div_ceil sz 4096 - 1) \<noteq> 0
              then mem_write (smem st) (slots ! (div_ceil sz 4096 - 1) + sz mod 4096)
                     (replicate (4096 - sz mod 4096) 0) else smem st)\<rparr>)"
proof (cases "MAX_SIZE < sz \<or> obj_at st oid = None \<or>
    grow_index (the (obj_at st oid)) (div_ceil sz 4096) (sfa st) = None")
  case True
  then show ?thesis using t err by (cases "obj_at st oid") (auto simp: truncate_def Let_def split: if_splits)
next
  case False
  then obtain ob ob' fa where ob: "sz \<le> MAX_SIZE" "obj_at st oid = Some ob"
    "grow_index ob (div_ceil sz 4096) (sfa st) = Some (ob', fa)" by (auto simp: not_less)
  show ?thesis by (rule ok [OF _ ob refl]) (use t ob in \<open>simp_all add: truncate_def Let_def\<close>)
qed

lemma truncate_spec:
  assumes inv: "shm_inv st" and t: "truncate oid sz st = (Inr (), st')"
  shows "shm_inv st'" "shm_size st' o' = (if o' = oid then sz else shm_size st o')" "sz \<le> MAX_SIZE"
    and "o' \<noteq> oid \<or> pos < sz \<Longrightarrow> shm_byte st' o' pos = shm_byte st o' pos"
    and "sz \<le> pos \<Longrightarrow> shm_byte st' oid pos = 0"
    and "div_ceil sz 4096 \<le> pg \<Longrightarrow> page_of st oid pg \<noteq> 0 \<Longrightarrow>
      addr_refs (sfa st') (page_of st oid pg) = 0"
    and "\<exists>ob ob'. obj_at st oid = Some ob \<and> obj_at st' oid = Some ob' \<and> so_fd ob' = so_fd ob \<and>
      so_map ob' = so_map ob"
    and "\<exists>ob. oid - 1 < MAX_OBJS \<and> objs st' = (objs st)[oid - 1 := ob] \<and>
      moved (set (obj_frames (objs st ! (oid - 1)))) (sfa st) (set (obj_frames ob)) (sfa st')"
proof -
  let ?n = "div_ceil sz 4096"
  from truncate_cases [OF inv t] obtain ob ob' fa slots where
    sz: "sz \<le> MAX_SIZE" and ob: "obj_at st oid = Some ob"
    and g: "grow_index ob ?n (sfa st) = Some (ob', fa)"
    and sl: "slots = take ?n (so_slots ob') @ replicate (length (so_slots ob') - ?n) 0"
    and st': "st' = put_obj oid (ob'\<lparr>so_slots := slots, so_size := sz\<rparr>)
        (st\<lparr>sfa := free_slots (drop ?n (so_slots ob')) fa,
            smem := (if sz mod 4096 \<noteq> 0 \<and> 0 < ?n \<and> slots ! (?n - 1) \<noteq> 0
              then mem_write (smem st) (slots ! (?n - 1) + sz mod 4096)
                     (replicate (4096 - sz mod 4096) 0) else smem st)\<rparr>)"
    by (metis Inl_Inr_False)
  let ?ob = "ob'\<lparr>so_slots := slots, so_size := sz\<rparr>"
  let ?fa = "free_slots (drop ?n (so_slots ob')) fa"
  have i: "0 < oid" "oid - 1 < MAX_OBJS" "ob = objs st ! (oid - 1)" "so_used ob"
    using ob shm_invD(2) [OF inv] by (auto simp: obj_at_Some)
  have wf: "obj_wf ob" using shm_invD(3) [OF inv i(2)] i(3) by simp
  have own: "owned (set (obj_frames ob)) (sfa st)" using shm_inv_owned [OF inv i(2)] i(3) by simp
  note gs = grow_index_spec [OF wf own g]
  let ?S = "so_slots ob'"
  have d: "distinct (filter (\<lambda>pa. pa \<noteq> 0) (take ?n ?S @ drop ?n ?S))" "so_index ob' + 0 = so_index ob'"
    using gs(1) by (simp_all add: obj_wf_def obj_frames_def)
  have dj: "(set ?S - {0}) \<inter> block (so_index ob') (so_iframes ob') = {}"
    using gs(1) by (auto simp: obj_wf_def obj_frames_def block_def)
  have dts: "(set (take ?n ?S) - {0}) \<inter> (set (drop ?n ?S) - {0}) = {}"
    "distinct (filter (\<lambda>pa. pa \<noteq> 0) (drop ?n ?S))" "distinct (filter (\<lambda>pa. pa \<noteq> 0) (take ?n ?S))"
    using d(1) unfolding filter_append distinct_append by auto
  have setS: "set ?S = set (take ?n ?S) \<union> set (drop ?n ?S)"
    by (metis append_take_drop_id set_append)
  have m2: "moved (set (obj_frames ob')) fa (set (obj_frames ob') - (set (drop ?n ?S) - {0})) ?fa"
    by (rule moved_free_slots [OF moved_owned [OF gs(2)] dts(2)]) (use setS in \<open>auto simp: obj_frames_set\<close>)
  have F: "set (obj_frames ob') - (set (drop ?n ?S) - {0}) = set (obj_frames ?ob)"
    using dj dts(1) setS by (auto simp: obj_frames_set sl)
  have mv: "moved (set (obj_frames ob)) (sfa st) (set (obj_frames ?ob)) ?fa"
    by (rule moved_trans [OF gs(2) m2 [unfolded F]])
  have wf': "obj_wf ?ob"
  proof -
    have "distinct (obj_frames ?ob)"
    proof -
      have "distinct (map (\<lambda>k. so_index ob' + k * 4096) [0..<so_iframes ob'])"
        using gs(1) by (simp add: obj_wf_def obj_frames_def)
      moreover have "set (filter (\<lambda>pa. pa \<noteq> 0) (take ?n ?S)) \<inter>
          set (map (\<lambda>k. so_index ob' + k * 4096) [0..<so_iframes ob']) = {}"
        using dj setS by (auto simp: block_def)
      ultimately show ?thesis using dts(3) by (simp add: obj_frames_def sl)
    qed
    then show ?thesis using gs(1,4) by (auto simp: obj_wf_def sl nth_append)
  qed
  show inv': "shm_inv st'"
    unfolding st' by (rule put_obj_inv [OF inv i(2) wf']) (use mv i(3,4) gs(6) in simp_all)
  have at: "obj_at st' o' = (if o' = oid then Some ?ob else obj_at st o')" for o'
    using i(1,2,4) gs(6) shm_invD(2) [OF inv] unfolding st' by (subst obj_at_put) auto
  have slot: "slot_of ?ob pg = (if pg < ?n then slot_of ob pg else 0)" for pg
    using gs(3,4) by (auto simp: slot_of_def sl nth_append)
  have po: "page_of st' o' pg = (if o' = oid \<and> ?n \<le> pg then 0 else page_of st o' pg)" for o' pg
    using ob slot by (auto simp: page_of_def at)
  show "shm_size st' o' = (if o' = oid then sz else shm_size st o')"
    by (simp add: shm_size_def at)
  show "sz \<le> MAX_SIZE" by (rule sz)
  show "\<exists>ob ob'. obj_at st oid = Some ob \<and> obj_at st' oid = Some ob' \<and> so_fd ob' = so_fd ob \<and>
      so_map ob' = so_map ob" using ob gs(7,8) by (simp add: at)
  show "\<exists>ob. oid - 1 < MAX_OBJS \<and> objs st' = (objs st)[oid - 1 := ob] \<and>
      moved (set (obj_frames (objs st ! (oid - 1)))) (sfa st) (set (obj_frames ob)) (sfa st')"
    using mv i(2,3) by (intro exI [of _ ?ob]) (simp add: st')
  show "addr_refs (sfa st') (page_of st oid pg) = 0" if pg: "?n \<le> pg" "page_of st oid pg \<noteq> 0"
  proof -
    have pf: "page_of st oid pg = slot_of ob pg" using ob by (simp add: page_of_def)
    have f1: "page_of st oid pg \<in> set (obj_frames ob)" using page_of_frames(3) [OF inv pg(2)] i(3) by simp
    have len: "pg < length (so_slots ob)" using pg(2) pf by (auto simp: slot_of_def split: if_splits)
    have "page_of st oid pg = ?S ! pg" "pg < length ?S" using gs(3) len pf by (auto simp: slot_of_def nth_append)
    then have "page_of st oid pg \<in> set (drop ?n ?S)" using pg(1)
      by (auto simp: in_set_conv_nth intro!: exI [of _ "pg - ?n"])
    then have "page_of st oid pg \<notin> set (obj_frames ?ob)" using F pg(2) by auto
    then show ?thesis using mv f1 by (simp add: moved_def st')
  qed
  have div: "pos div 4096 < ?n \<longleftrightarrow> pos div 4096 * 4096 < sz" for pos by (simp add: div_ceil_less_iff)
  have last_page: "slots ! (?n - 1) = page_of st oid (?n - 1)" if n: "0 < ?n"
  proof -
    have l: "?n - 1 < length slots" "?n - 1 < ?n" using n gs(4) by (auto simp: sl)
    then have "slots ! (?n - 1) = slot_of ?ob (?n - 1)" by (simp add: slot_of_def)
    also have "\<dots> = slot_of ob (?n - 1)" using slot [of "?n - 1"] l(2) by simp
    finally show ?thesis using ob by (simp add: page_of_def)
  qed
  have tail: "shm_byte st' o' pos = (if o' = oid \<and> sz \<le> pos then 0 else shm_byte st o' pos)" for o' pos
  proof (cases "sz mod 4096 \<noteq> 0 \<and> 0 < ?n \<and> slots ! (?n - 1) \<noteq> 0")
    case True
    then have ns: "slots ! (?n - 1) = page_of st oid (?n - 1)" by (intro last_page) simp
    then have n1: "page_of st oid (?n - 1) \<noteq> 0" using True by simp
    have q: "?n = sz div 4096 + 1" using True by (intro div_ceil_rem) simp_all
    have bytes: "smem st' = mem_write (smem st) (page_of st oid (?n - 1) + sz mod 4096)
        (replicate (4096 - sz mod 4096) 0)"
      using True ns by (simp add: st')
    note w = shm_byte_write [OF inv n1, of "sz mod 4096" "replicate (4096 - sz mod 4096) 0" o' pos]
    have w': "shm_byte (st\<lparr>smem := mem_write (smem st) (page_of st oid (?n - 1) + sz mod 4096)
        (replicate (4096 - sz mod 4096) 0)\<rparr>) o' pos =
      (if o' = oid \<and> pos div 4096 = ?n - 1 \<and> sz mod 4096 \<le> pos mod 4096 then 0 else shm_byte st o' pos)"
      using w diff_less_mono [of "pos mod 4096" 4096 "sz mod 4096"] by auto
    have le: "sz \<le> pos \<longleftrightarrow> ?n \<le> pos div 4096 \<or> (pos div 4096 = ?n - 1 \<and> sz mod 4096 \<le> pos mod 4096)"
      using div_mod_le [of sz pos 4096] q True by auto
    show ?thesis
    proof (cases "o' = oid \<and> ?n \<le> pos div 4096")
      case True
      then show ?thesis using le by (simp add: shm_byte_def po)
    next
      case False
      then have "shm_byte st' o' pos = shm_byte (st\<lparr>smem := mem_write (smem st) (page_of st oid (?n - 1) + sz mod 4096)
        (replicate (4096 - sz mod 4096) 0)\<rparr>) o' pos"
        using po [of o' "pos div 4096"] by (auto simp: bytes shm_byte_def page_of_smem Let_def)
      then show ?thesis using w' le False by auto
    qed
  next
    case False
    then have m: "smem st' = smem st" by (auto simp: st')
    have z: "page_of st oid (pos div 4096) = 0" if "sz \<le> pos" "pos div 4096 < ?n"
    proof -
      have lt: "pos div 4096 * 4096 < sz" using that(2) div by simp
      then have "pos div 4096 \<le> sz div 4096" by (simp add: less_eq_div_iff_mult_less_eq)
      then have e: "sz div 4096 = pos div 4096" using that(1) div_le_mono [of sz pos 4096] by simp
      then have "sz mod 4096 \<noteq> 0" using lt div_mult_mod_eq [of sz 4096] by auto
      then have "?n = pos div 4096 + 1" "sz mod 4096 \<noteq> 0" using div_ceil_rem [of sz 4096] e by auto
      then show ?thesis using False last_page by simp
    qed
    moreover have "sz \<le> pos" if "?n \<le> pos div 4096"
      using that div_ceil_le_iff [of 4096 sz "pos div 4096"] div_mult_mod_eq [of pos 4096] by linarith
    ultimately show ?thesis by (auto simp: shm_byte_def po m Let_def)
  qed
  show "o' \<noteq> oid \<or> pos < sz \<Longrightarrow> shm_byte st' o' pos = shm_byte st o' pos"
    "sz \<le> pos \<Longrightarrow> shm_byte st' oid pos = 0" using tail by auto
qed

section \<open>Reading and writing\<close>

lemma chunk_pos:
  assumes "(n :: nat) = min (4096 - at mod 4096) l" "0 < l"
  shows "0 < n" "pos div 4096 = at div 4096 \<and> at mod 4096 \<le> pos mod 4096 \<and>
      pos mod 4096 < at mod 4096 + n \<longleftrightarrow> at \<le> pos \<and> pos < at + n"
    and "at \<le> pos \<Longrightarrow> pos < at + n \<Longrightarrow> pos mod 4096 - at mod 4096 = pos - at"
    and "at \<le> pos \<Longrightarrow> pos < at + n \<Longrightarrow> pos div 4096 = at div 4096 \<and> pos mod 4096 = at mod 4096 + (pos - at)"
proof -
  have m: "at mod 4096 < 4096" by simp
  then show n: "0 < n" using assms by simp
  have le: "at mod 4096 + n \<le> 4096" using assms(1) m by simp
  have in_page: "pos div 4096 = at div 4096 \<and> pos mod 4096 = at mod 4096 + (pos - at)"
    if "at \<le> pos" "pos < at + n" for pos
  proof -
    define q where "q = at div 4096"
    define r where "r = at mod 4096 + (pos - at)"
    have e: "pos = q * 4096 + r" and r: "r < 4096"
      using that le div_mult_mod_eq [of at 4096] unfolding q_def r_def by linarith+
    have "(q * 4096 + r) div 4096 = q" "(q * 4096 + r) mod 4096 = r" using r by simp_all
    then have "pos div 4096 = q" "pos mod 4096 = r" unfolding e by simp_all
    then show ?thesis unfolding q_def r_def by simp
  qed
  show "pos mod 4096 - at mod 4096 = pos - at" if "at \<le> pos" "pos < at + n"
    using in_page [OF that] by linarith
  show "at \<le> pos \<Longrightarrow> pos < at + n \<Longrightarrow> pos div 4096 = at div 4096 \<and> pos mod 4096 = at mod 4096 + (pos - at)"
    by (rule in_page)
  have "at \<le> pos \<and> pos < at + n" if "pos div 4096 = at div 4096" "at mod 4096 \<le> pos mod 4096"
    "pos mod 4096 < at mod 4096 + n"
    using that div_mult_mod_eq [of pos 4096] div_mult_mod_eq [of at 4096] by linarith
  moreover have "at mod 4096 \<le> pos mod 4096 \<and> pos mod 4096 < at mod 4096 + n \<and> pos div 4096 = at div 4096"
    if "at \<le> pos" "pos < at + n" using in_page [OF that] that by linarith
  ultimately show "pos div 4096 = at div 4096 \<and> at mod 4096 \<le> pos mod 4096 \<and>
      pos mod 4096 < at mod 4096 + n \<longleftrightarrow> at \<le> pos \<and> pos < at + n" by blast
qed

lemma shm_inv_smem: "shm_inv st \<Longrightarrow> shm_inv (st\<lparr>smem := m\<rparr>)"
  by (simp add: shm_inv_def)

lemma shm_size_smem [simp]: "shm_size (st\<lparr>smem := m\<rparr>) oid = shm_size st oid"
  by (simp add: shm_size_def)

lemma write_loop_spec:
  assumes "shm_inv st" "write_loop oid at bs st = (Inr (), st')"
  shows "shm_inv st' \<and> (\<forall>o'. shm_size st' o' = shm_size st o') \<and>
    (\<forall>o' pos. shm_byte st' o' pos = (if o' = oid \<and> at \<le> pos \<and> pos < at + length bs
      then bs ! (pos - at) else shm_byte st o' pos))"
  using assms
proof (induction "length bs" arbitrary: at bs st rule: less_induct)
  case less
  show ?case
  proof (cases "bs = []")
    case True
    then show ?thesis using less.prems by (subst (asm) write_loop.simps) auto
  next
    case False
    define n where "n = min (4096 - at mod 4096) (length bs)"
    note c = chunk_pos [OF n_def] 
    have len: "0 < length bs" using False by simp
    obtain r s1 where p: "page oid (at div 4096) True st = (r, s1)" by force
    note ps = page_spec [OF less.prems(1) p]
    obtain pa where r: "r = Some pa" and
      w: "write_loop oid (at + n) (drop n bs)
        (s1\<lparr>smem := mem_write (smem s1) (pa + at mod 4096) (take n bs)\<rparr>) = (Inr (), st')"
      using less.prems(2) False p unfolding n_def
      by (subst (asm) write_loop.simps) (auto simp: Let_def split: option.splits)
    let ?s2 = "s1\<lparr>smem := mem_write (smem s1) (pa + at mod 4096) (take n bs)\<rparr>"
    have pa: "page_of s1 oid (at div 4096) = pa" "pa \<noteq> 0" using ps(2) [OF r] by auto
    have ln: "length (take n bs) = n" "n \<le> length bs" by (simp_all add: n_def)
    have fit: "at mod 4096 + length (take n bs) \<le> 4096"
      unfolding ln using mod_less_divisor [of 4096 at] by (simp add: n_def)
    have tk: "at \<le> pos \<Longrightarrow> pos < at + n \<Longrightarrow> take n bs ! (pos - at) = bs ! (pos - at)" for pos
      by (rule nth_take) linarith
    have b2: "shm_byte ?s2 o' pos = (if o' = oid \<and> at \<le> pos \<and> pos < at + n then bs ! (pos - at)
        else shm_byte st o' pos)" for o' pos
    proof -
      have "shm_byte ?s2 o' pos =
        (if o' = oid \<and> pos div 4096 = at div 4096 \<and> at mod 4096 \<le> pos mod 4096 \<and> pos mod 4096 < at mod 4096 + n
         then take n bs ! (pos mod 4096 - at mod 4096) else shm_byte s1 o' pos)"
        using shm_byte_write [OF ps(1), of oid "at div 4096" "at mod 4096" "take n bs" o' pos] pa fit ln
        by simp
      then show ?thesis
        using c(2) [OF len, of pos] c(3) [OF len, of pos] tk [of pos] ps(3) by (metis (no_types))
    qed
    have "shm_inv st' \<and> (\<forall>o'. shm_size st' o' = shm_size ?s2 o') \<and>
      (\<forall>o' pos. shm_byte st' o' pos = (if o' = oid \<and> at + n \<le> pos \<and> pos < at + n + length (drop n bs)
        then drop n bs ! (pos - (at + n)) else shm_byte ?s2 o' pos))"
      by (rule less.hyps [OF _ _ w]) (use c(1) [OF len] len shm_inv_smem [OF ps(1)] in simp_all)
    then show ?thesis using b2 ps(4) ln by auto
  qed
qed

lemma read_loop_spec:
  assumes "shm_inv st" "e \<le> shm_size st oid" "at \<le> e"
  shows "read_loop oid at e st = map (shm_byte st oid) [at..<e]"
  using assms(3)
proof (induction "e - at" arbitrary: at rule: less_induct)
  case less
  show ?case
  proof (cases "at < e")
    case False
    then show ?thesis by (subst read_loop.simps) simp
  next
    case True
    define n where "n = min (4096 - at mod 4096) (e - at)"
    have len: "0 < e - at" using True by simp
    note c = chunk_pos [OF n_def len]
    have "at div 4096 * 4096 \<le> at" by simp
    then have pg: "at div 4096 < div_ceil (shm_size st oid) 4096"
      using True assms(2) unfolding div_ceil_less_iff [of 4096, simplified] by linarith
    obtain r s1 where p: "page oid (at div 4096) False st = (r, s1)" by force
    have r: "r = (if page_of st oid (at div 4096) = 0 then None else Some (page_of st oid (at div 4096)))"
      using page_spec(6) [OF assms(1) p] pg by simp
    have "(case r of Some pa \<Rightarrow> mem_read (smem st) (pa + at mod 4096) n | None \<Rightarrow> replicate n 0) =
        map (shm_byte st oid) [at..<at + n]"
    proof (rule nth_equalityI)
      fix i assume "i < length (case r of Some pa \<Rightarrow> mem_read (smem st) (pa + at mod 4096) n | None \<Rightarrow> replicate n 0)"
      then have i: "i < n" by (simp split: option.splits)
      have "(at + i) div 4096 = at div 4096 \<and> (at + i) mod 4096 = at mod 4096 + i" using c(4) [of "at + i"] i by simp
      then show "(case r of Some pa \<Rightarrow> mem_read (smem st) (pa + at mod 4096) n | None \<Rightarrow> replicate n 0) ! i =
          map (shm_byte st oid) [at..<at + n] ! i"
        using i by (simp add: r shm_byte_def add.assoc)
    qed (simp split: option.splits)
    moreover have "read_loop oid (at + n) e st = map (shm_byte st oid) [at + n..<e]"
      using c(1) len by (intro less.hyps) (auto simp: n_def)
    moreover have "[at..<e] = [at..<at + n] @ [at + n..<e]"
    proof -
      have "at + n \<le> e" using len by (simp add: n_def)
      then show ?thesis using upt_add_eq_append [of at "at + n" "e - (at + n)"] by simp
    qed
    ultimately show ?thesis
      using True unfolding n_def by (subst read_loop.simps) (simp add: Let_def p)
  qed
qed

text \<open>What one write through a descriptor does.\<close>

lemma rw_write_spec:
  assumes "shm_inv st" "rw_write oid off bs st = (Inr n, st')"
  shows "n = length bs" "shm_inv st'" "off + length bs \<le> u64_max"
    and "shm_size st' o' = (if o' = oid then max (shm_size st oid) (off + length bs) else shm_size st o')"
    and "o' \<noteq> oid \<or> pos < max (shm_size st oid) (off + length bs) \<Longrightarrow>
      shm_byte st' o' pos = (if o' = oid \<and> off \<le> pos \<and> pos < off + length bs
        then bs ! (pos - off) else shm_byte st o' pos)"
proof -
  let ?e = "off + length bs"
  obtain s1 where e: "?e \<le> u64_max" and n: "n = length bs"
    and t: "(if ?e > shm_size st oid then truncate oid ?e st else (Inr (), st)) = (Inr (), s1)"
    and w: "write_loop oid off bs s1 = (Inr (), st')"
    using assms(2) by (auto simp: rw_write_def split: option.splits prod.splits sum.splits)
  have s1: "shm_inv s1" "\<And>o'. shm_size s1 o' = (if o' = oid then max (shm_size st oid) ?e else shm_size st o')"
    "\<And>o' pos. o' \<noteq> oid \<or> pos < max (shm_size st oid) ?e \<Longrightarrow> shm_byte s1 o' pos = shm_byte st o' pos"
  proof (atomize (full), cases "?e > shm_size st oid")
    case True
    then have "truncate oid ?e st = (Inr (), s1)" using t by simp
    from truncate_spec [OF assms(1) this] True
    show "shm_inv s1 \<and> (\<forall>o'. shm_size s1 o' = (if o' = oid then max (shm_size st oid) ?e else shm_size st o')) \<and>
      (\<forall>o' pos. o' \<noteq> oid \<or> pos < max (shm_size st oid) ?e \<longrightarrow> shm_byte s1 o' pos = shm_byte st o' pos)"
      by auto
  qed (use t assms(1) in auto)
  note l = write_loop_spec [OF s1(1) w]
  show "n = length bs" "off + length bs \<le> u64_max" by (rule n, rule e)
  show "shm_inv st'" "shm_size st' o' = (if o' = oid then max (shm_size st oid) ?e else shm_size st o')"
    "o' \<noteq> oid \<or> pos < max (shm_size st oid) ?e \<Longrightarrow>
      shm_byte st' o' pos = (if o' = oid \<and> off \<le> pos \<and> pos < ?e then bs ! (pos - off) else shm_byte st o' pos)"
    using l s1 by auto
qed

section \<open>Reachable tables\<close>

text \<open>
  Every operation, and any activity of the other owners of frames: they may take free frames and
  release their own, not those of the objects.
\<close>

inductive shm_step :: "shm \<Rightarrow> shm \<Rightarrow> bool" where
  create: "create nm st = Some (oid, st') \<Longrightarrow> shm_step st st'"
| create_anon: "create_anon sz st = (r, st') \<Longrightarrow> shm_step st st'"
| release: "shm_step st (release_unused oid st)"
| open_named: "open_named nm st = Some (oid, st') \<Longrightarrow> shm_step st st'"
| unlink: "unlink nm st = (b, st') \<Longrightarrow> shm_step st st'"
| fd_ref: "shm_step st (fd_ref oid d st)"
| map_ref: "shm_step st (map_ref oid d st)"
| truncate: "truncate oid sz st = (r, st') \<Longrightarrow> shm_step st st'"
| page: "page oid pg al st = (p, st') \<Longrightarrow> shm_step st st'"
| write_bytes: "rw_write oid off bs st = (w, st') \<Longrightarrow> shm_step st st'"
| others: "frames_inv fa \<Longrightarrow>
    (\<And>i a. i < MAX_OBJS \<Longrightarrow> a \<in> set (obj_frames (objs st ! i)) \<Longrightarrow> addr_refs fa a = 1) \<Longrightarrow>
    shm_step st (st\<lparr>sfa := fa, smem := m\<rparr>)"

inductive shm_reachable :: "frames \<Rightarrow> mem \<Rightarrow> shm \<Rightarrow> bool" for fa m where
  boot: "shm_reachable fa m (shm_boot fa m)"
| step: "shm_reachable fa m st \<Longrightarrow> shm_step st st' \<Longrightarrow> shm_reachable fa m st'"

lemma shm_boot_inv: "frames_inv fa \<Longrightarrow> shm_inv (shm_boot fa m)"
  by (auto simp: shm_inv_def shm_boot_def)

lemma create_spec:
  assumes inv: "shm_inv st" and c: "create nm st = Some (oid, st')"
  shows "shm_inv st'" "0 < oid" "oid - 1 < MAX_OBJS" "obj_at st oid = None" "sfa st' = sfa st"
    "smem st' = smem st"
    "\<exists>ob. obj_at st' oid = Some ob \<and> so_fd ob = 1 \<and> so_map ob = 0 \<and> so_size ob = 0 \<and> so_slots ob = [] \<and>
      so_named ob = (nm \<noteq> None) \<and> so_index ob = 0 \<and> so_iframes ob = 0"
proof -
  define ob where "ob = (let ob = shm_empty\<lparr>so_used := True, so_fd := 1\<rparr> in
    case nm of None \<Rightarrow> ob | Some n \<Rightarrow> ob\<lparr>so_named := True, so_name := take NAME_MAX n\<rparr>)"
  obtain i where i: "position (\<lambda>ob. \<not> so_used ob) (objs st) = Some i" "oid = i + 1"
    and st': "st' = put_obj (i + 1) ob st"
    using c by (auto simp: create_def Let_def ob_def split: option.splits)
  have ob: "st' = put_obj (i + 1) ob st" "so_used ob" "same_pages shm_empty ob" "so_fd ob = 1"
    "so_map ob = 0" "so_named ob = (nm \<noteq> None)"
    by (simp_all add: st' ob_def Let_def same_pages_def shm_empty_def split: option.split)
  note p = position_Some [OF i(1)]
  have i': "i < MAX_OBJS" using p shm_invD(2) [OF inv] by simp
  have e: "objs st ! i = shm_empty" using shm_invD(4) [OF inv i'] p by simp
  show "shm_inv st'" unfolding ob(1) by (rule put_same_pages [OF inv]) (use i' ob e in simp_all)
  show "0 < oid" "oid - 1 < MAX_OBJS" "sfa st' = sfa st" "smem st' = smem st" using i(2) i' ob(1) by simp_all
  show "obj_at st oid = None" using i(2) p by (simp add: obj_at_def)
  have "obj_at st' oid = Some ob"
    using i(2) ob(1,2) p by (simp add: obj_at_put)
  then show "\<exists>ob. obj_at st' oid = Some ob \<and> so_fd ob = 1 \<and> so_map ob = 0 \<and> so_size ob = 0 \<and> so_slots ob = [] \<and>
      so_named ob = (nm \<noteq> None) \<and> so_index ob = 0 \<and> so_iframes ob = 0"
    using ob by (auto simp: same_pages_def shm_empty_def)
qed

lemma create_anon_inv:
  assumes inv: "shm_inv st" and c: "create_anon sz st = (r, st')"
  shows "shm_inv st'"
proof (cases "create None st")
  case None
  then show ?thesis using c inv by (simp add: create_anon_def)
next
  case (Some p)
  then obtain oid s1 where cr: "create None st = Some (oid, s1)" by (cases p) auto
  note cs = create_spec [OF inv cr]
  obtain ob where ob: "obj_at s1 oid = Some ob" using cs(7) by blast
  let ?ob = "ob\<lparr>so_fd := 0\<rparr>" and ?s2 = "put_obj oid (ob\<lparr>so_fd := 0\<rparr>) s1"
  have o: "ob = objs s1 ! (oid - 1)" "so_used ob" using ob by (auto simp: obj_at_Some)
  have inv2: "shm_inv ?s2"
    by (rule put_same_pages [OF cs(1,3)]) (use o in \<open>simp_all add: same_pages_def\<close>)
  have at2: "objs ?s2 ! (oid - 1) = ?ob" using cs(3) shm_invD(2) [OF cs(1)] by simp
  show ?thesis
  proof (cases "MAX_SIZE < sz \<or> grow_index ?ob (div_ceil sz 4096) (sfa ?s2) = None")
    case True
    then have "st' = maybe_free oid ?s2"
      using c cr ob by (auto simp: create_anon_def Let_def split: if_splits)
    then show ?thesis using maybe_free_spec(1) [OF inv2] by simp
  next
    case False
    then obtain ob' fa where g: "grow_index ?ob (div_ceil sz 4096) (sfa ?s2) = Some (ob', fa)" by auto
    have st': "st' = put_obj oid (ob'\<lparr>so_size := sz\<rparr>) (?s2\<lparr>sfa := fa, smem := smem ?s2\<rparr>)"
      using c cr ob g False by (cases s1) (simp add: create_anon_def Let_def put_obj_def)
    have wf: "obj_wf ?ob" "owned (set (obj_frames ?ob)) (sfa ?s2)"
      using shm_invD(3) [OF inv2 cs(3)] shm_inv_owned [OF inv2 cs(3)] at2 by simp_all
    note gs = grow_index_spec [OF wf g]
    have "so_slots ob = []" using cs(7) ob by auto
    then have "\<And>pg. pg < length (so_slots ob') \<Longrightarrow> so_slots ob' ! pg = 0" using gs(3) by auto
    then have wf': "obj_wf (ob'\<lparr>so_size := sz\<rparr>)" "obj_frames (ob'\<lparr>so_size := sz\<rparr>) = obj_frames ob'"
      using gs(1,4) by (auto simp: obj_wf_def obj_frames_def)
    show ?thesis unfolding st'
      by (rule put_obj_inv [OF inv2 cs(3) wf'(1)]) (use gs wf'(2) at2 o in simp_all)
  qed
qed

lemma put_used_inv:
  assumes "shm_inv st" "obj_at st oid = Some ob" "so_used ob'" "same_pages ob ob'"
  shows "shm_inv (put_obj oid ob' st)"
  using assms shm_invD(2) [OF assms(1)] by (intro put_same_pages) (auto simp: obj_at_Some)

lemma refs_inv:
  assumes "shm_inv st"
  shows "shm_inv (fd_ref oid d st)" "shm_inv (map_ref oid d st)"
  using assms maybe_free_spec(1) put_used_inv [OF assms, of oid]
  by (auto simp: fd_ref_def map_ref_def Let_def same_pages_def obj_at_Some split: option.splits)

lemma named_inv:
  assumes inv: "shm_inv st"
  shows "open_named nm st = Some (oid, st') \<Longrightarrow> shm_inv st'" "unlink nm st = (b, st') \<Longrightarrow> shm_inv st'"
proof -
  have p: "shm_inv (put_obj (i + 1) ob st)"
    if "position (named nm) (objs st) = Some i" "same_pages (objs st ! i) ob" "so_used ob" for i ob
    using position_Some [OF that(1)] that shm_invD(2) [OF inv] by (intro put_same_pages [OF inv]) auto
  show "open_named nm st = Some (oid, st') \<Longrightarrow> shm_inv st'"
    using p position_Some [of "named nm" "objs st"]
    by (auto simp: open_named_def same_pages_def named_def)
  show "unlink nm st = (b, st') \<Longrightarrow> shm_inv st'"
    using p position_Some [of "named nm" "objs st"] inv
    by (auto simp: unlink_def same_pages_def named_def split: option.splits intro!: maybe_free_spec(1))
qed

lemma write_inv:
  assumes "shm_inv st"
  shows "shm_inv (snd (write_loop oid at bs st))"
  using assms
proof (induction "length bs" arbitrary: at bs st rule: less_induct)
  case less
  obtain r s1 where p: "page oid (at div 4096) True st = (r, s1)" by force
  note ps = page_spec(1) [OF less.prems p]
  have n: "bs \<noteq> [] \<Longrightarrow> length (drop (min (4096 - at mod 4096) (length bs)) bs) < length bs"
    using mod_less_divisor [of 4096 at] by auto
  show ?case
    using less.hyps [OF n shm_inv_smem [OF ps]] less.prems p ps
    by (subst write_loop.simps) (auto simp: Let_def split: option.splits)
qed

lemma truncate_inv:
  assumes "shm_inv st" "truncate oid sz st = (r, st')"
  shows "shm_inv st'"
proof (cases r)
  case (Inl e)
  then show ?thesis using truncate_cases [OF assms] assms(1) by (metis Inl_Inr_False)
next
  case (Inr u)
  then have "truncate oid sz st = (Inr (), st')" using assms(2) by simp
  then show ?thesis by (rule truncate_spec(1) [OF assms(1)])
qed

lemma rw_write_inv:
  assumes "shm_inv st" "rw_write oid off bs st = (w, st')"
  shows "shm_inv st'"
  using assms(2) truncate_inv [OF assms(1)] write_inv assms(1)
  by (auto simp: rw_write_def split: option.splits if_splits prod.splits sum.splits)
    (metis snd_conv)+

lemma shm_step_inv: "shm_step st st' \<Longrightarrow> shm_inv st \<Longrightarrow> shm_inv st'"
proof (induction rule: shm_step.induct)
  case (others fa st m)
  note d = shm_invD [OF others.prems]
  show ?case by (rule shm_invI) (use others.hyps d in auto)
qed (auto intro: create_spec(1) create_anon_inv maybe_free_spec(1) named_inv refs_inv truncate_inv
      page_spec(1) rw_write_inv simp: release_unused_def)

lemma shm_reachable_inv: "shm_reachable fa m st \<Longrightarrow> frames_inv fa \<Longrightarrow> shm_inv st"
  by (induction rule: shm_reachable.induct) (auto intro: shm_boot_inv shm_step_inv)

section \<open>A run on the small machine\<close>

lemma shm_demo:
  obtains s1 s2 where "create None (shm_boot tiny_frames m) = Some (1, s1)"
    "rw_write 1 0 [7, 8, 9] s1 = (Inr 3, s2)" "shm_inv s1" "shm_inv s2"
    "\<exists>ob. obj_at s2 1 = Some ob \<and> so_fd ob = 1 \<and> so_map ob = 0 \<and> \<not> so_named ob"
    "page_of s2 1 0 \<noteq> 0" "shm_reachable tiny_frames m s2"
proof -
  let ?s0 = "shm_boot tiny_frames m"
  have inv0: "shm_inv ?s0" by (rule shm_boot_inv [OF tiny_inv(1)])
  have "position (\<lambda>ob. \<not> so_used ob) (objs ?s0) = Some 0"
    by (simp add: position_Some_iff shm_boot_def shm_empty_def MAX_OBJS_def)
  then obtain s1 where c: "create None ?s0 = Some (1, s1)" by (simp add: create_def Let_def)
  note cs = create_spec [OF inv0 c]
  obtain ob where ob: "obj_at s1 1 = Some ob" "so_fd ob = 1" "so_map ob = 0" "so_size ob = 0"
    "so_slots ob = []" "so_index ob = 0" "\<not> so_named ob" using cs(7) by auto
  have fa1: "sfa s1 = tiny_frames" using cs(5) by (simp add: shm_boot_def)
  obtain a fa where a: "alloc_frame tiny_frames = Some (a, fa)" "nfree fa = 2"
    using alloc_frame_free [OF tiny_inv(1)] tiny_nfree by auto
  have n1: "div_ceil 3 4096 = 1" "max (div_ceil (1 * 8) 4096) 1 = 1"
    by (simp_all add: div_ceil_def)
  have g: "grow_index ob 1 (sfa s1) = Some (ob\<lparr>so_index := a, so_iframes := 1, so_slots := replicate 512 0\<rparr>, fa)"
    using ob n1(2) a(1) by (simp add: grow_index_def fa1 alloc_contig_def)
  define Z where "Z = replicate 512 (0 :: nat)"
  let ?ob = "ob\<lparr>so_index := a, so_iframes := 1, so_slots := Z, so_size := 3\<rparr>"
  have used: "so_used ob" "0 < length (objs s1)" using ob(1) by (auto simp: obj_at_Some)
  have Z: "take 1 Z @ replicate 511 0 = Z" "drop 1 Z = replicate 511 0" "Z ! 0 = 0" "length Z = 512"
  proof -
    have "Z = 0 # replicate 511 0" unfolding Z_def by (simp add: replicate_Suc [symmetric])
    then show "take 1 Z @ replicate 511 0 = Z" "drop 1 Z = replicate 511 0" "Z ! 0 = 0"
      "length Z = 512" by simp_all
  qed
  have free0: "free_slots (replicate k 0) fb = fb" for k fb by (induction k) (simp_all add: free_slots_def)
  obtain s2 where s2: "s2 = put_obj 1 ?ob (s1\<lparr>sfa := fa, smem := smem s1\<rparr>)" by blast
  have t: "truncate 1 3 s1 = (Inr (), s2)"
    using ob(1) g n1(1) Z(3) unfolding truncate_def s2 Let_def
    by (simp add: MAX_SIZE_def Z_def [symmetric] Z(1,2,4) free0 del: One_nat_def)
  note ts = truncate_spec [OF cs(1) t]
  have at2: "obj_at s2 1 = Some ?ob" using used unfolding s2 by (subst obj_at_put) auto
  obtain f fb where f: "alloc_frame fa = Some (f, fb)"
    by (rule alloc_frame_free [of fa]) (use a(2) shm_invD(1) [OF ts(1)] s2 in simp_all)
  obtain s3 where p: "page 1 0 True s2 = (Some f, s3)"
    using at2 Z(3) f by (simp add: page_def div_ceil_def s2 del: One_nat_def)
  have w: "write_loop 1 0 [7, 8, 9] s2 = (Inr (), s3\<lparr>smem := mem_write (smem s3) f [7, 8, 9]\<rparr>)"
    by (subst write_loop.simps) (simp add: p Let_def write_loop.simps del: One_nat_def)
  let ?s4 = "s3\<lparr>smem := mem_write (smem s3) f [7, 8, 9]\<rparr>"
  have rw: "rw_write 1 0 [7, 8, 9] s1 = (Inr 3, ?s4)"
  proof -
    have c: "checked_add 0 (length [7, 8, 9 :: u8]) = Some 3" by (simp add: checked_add_def u64_max_def)
    have z: "shm_size s1 1 = 0" using ob by (simp add: shm_size_def)
    show ?thesis unfolding rw_write_def c by (simp add: z t w del: One_nat_def)
  qed
  note ps = page_spec [OF ts(1) p]
  have "\<exists>ob. obj_at s3 1 = Some ob \<and> so_fd ob = 1 \<and> so_map ob = 0 \<and> \<not> so_named ob"
  proof -
    have "s3 = put_obj 1 (?ob\<lparr>so_slots := Z[0 := f]\<rparr>)
        (s2\<lparr>sfa := fb, smem := mem_write (smem s2) f (replicate 4096 0)\<rparr>)"
      using p at2 Z(3) f by (simp add: page_def div_ceil_def s2 del: One_nat_def)
    moreover have "0 < length (objs s2)" using at2 by (simp add: obj_at_Some)
    ultimately show ?thesis using ob used by (simp add: obj_at_put)
  qed
  moreover have "page_of ?s4 1 0 \<noteq> 0" using ps(2) by (simp add: page_of_smem)
  moreover have "shm_reachable tiny_frames m ?s4"
    using shm_reachable.step [OF shm_reachable.step [OF shm_reachable.boot shm_step.create [OF c]]
        shm_step.write_bytes [OF rw]] .
  ultimately show ?thesis
    using that [OF c rw cs(1)] rw_write_inv [OF cs(1) rw] by simp
qed

lemma page_in_size:
  assumes "shm_inv st" "page_of st oid pg \<noteq> 0"
  shows "pg < div_ceil (shm_size st oid) 4096"
proof (rule ccontr)
  assume "\<not> pg < div_ceil (shm_size st oid) 4096"
  then show False
    using assms(2) page_of_frames(1,2) [OF assms] shm_invD(3) [OF assms(1) page_of_frames(2) [OF assms]]
    by (auto simp: page_of_def slot_of_def shm_size_def obj_at_Some obj_wf_def
        split: option.splits if_splits)
qed

text \<open>C10. In every reachable state each page of a live object is one frame with exactly one
  reference, no two pages (of the same or of different objects) share a frame, and an object
  no longer than its vector: no page is handed out twice or lost.\<close>

theorem shm_pages_owned:
  assumes "frames_inv fa" and "shm_reachable fa m st"
  shows "\<forall>oid pg. page_of st oid pg \<noteq> 0 \<longrightarrow>
      addr_refs (sfa st) (page_of st oid pg) = 1 \<and> 4096 dvd page_of st oid pg \<and>
      pg < div_ceil (shm_size st oid) 4096 \<and>
      (\<forall>oid' pg'. page_of st oid' pg' = page_of st oid pg \<longrightarrow> oid' = oid \<and> pg' = pg)"
proof (intro allI impI)
  fix oid pg assume p: "page_of st oid pg \<noteq> 0"
  have inv: "shm_inv st" by (rule shm_reachable_inv [OF assms(2,1)])
  note f = page_of_frames [OF inv p]
  have "pg < div_ceil (shm_size st oid) 4096" by (rule page_in_size [OF inv p])
  then show "addr_refs (sfa st) (page_of st oid pg) = 1 \<and> 4096 dvd page_of st oid pg \<and>
      pg < div_ceil (shm_size st oid) 4096 \<and>
      (\<forall>oid' pg'. page_of st oid' pg' = page_of st oid pg \<longrightarrow> oid' = oid \<and> pg' = pg)"
    using f page_of_inj [OF inv _ p] by metis
qed

theorem shm_pages_owned_witness:
  "\<exists>st. page_of st 1 0 \<noteq> 0 \<and> addr_refs (sfa st) (page_of st 1 0) = 1 \<and> shm_byte st 1 1 = 8"
proof -
  obtain s1 s2 where s: "rw_write 1 0 [7, 8, 9] s1 = (Inr 3, s2)" "shm_inv s1"
    "page_of s2 1 0 \<noteq> 0" "shm_reachable tiny_frames (\<lambda>_. 0) s2"
    by (rule shm_demo [of "\<lambda>_. 0"]) blast
  have "shm_byte s2 1 1 = 8" using rw_write_spec(5) [OF s(2,1), of 1 1] by simp
  then show ?thesis using shm_pages_owned [OF tiny_inv(1) s(4)] s(3) by blast
qed

text \<open>C11. Dropping a descriptor or a mapping reference frees an object exactly when it was the last
  one and the object has no name: then all its frames go back and the slot is empty; otherwise
  only the counter changes.\<close>

theorem shm_release_exact:
  assumes "shm_inv st" and "obj_at st oid = Some ob" and "drop_fd \<longrightarrow> 0 < so_fd ob" and "\<not> drop_fd \<longrightarrow> 0 < so_map ob"
  shows "let ob' = (if drop_fd then ob\<lparr>so_fd := so_fd ob - 1\<rparr> else ob\<lparr>so_map := so_map ob - 1\<rparr>);
      st' = (if drop_fd then fd_ref oid (- 1) st else map_ref oid (- 1) st) in
    (if unreferenced ob'
     then obj_at st' oid = None \<and> (\<forall>a. addr_refs (sfa st') a =
       (if a \<in> set (obj_frames ob) then 0 else addr_refs (sfa st) a))
     else obj_at st' oid = Some ob' \<and> sfa st' = sfa st) \<and>
    (\<forall>oid'. oid' \<noteq> oid \<longrightarrow> obj_at st' oid' = obj_at st oid')"
proof -
  define ob' where "ob' = (if drop_fd then ob\<lparr>so_fd := so_fd ob - 1\<rparr> else ob\<lparr>so_map := so_map ob - 1\<rparr>)"
  let ?s1 = "put_obj oid ob' st"
  have dec: "0 < n \<Longrightarrow> add_refs n (- 1) = n - 1" for n by (simp add: add_refs_def nat_diff_distrib)
  have eq: "(if drop_fd then fd_ref oid (- 1) st else map_ref oid (- 1) st) = maybe_free oid ?s1"
    using assms(2-4) dec by (auto simp: fd_ref_def map_ref_def ob'_def)
  have sp: "same_pages ob ob'" "so_used ob'" using assms(2) by (auto simp: ob'_def same_pages_def obj_at_Some)
  have inv1: "shm_inv ?s1" by (rule put_used_inv [OF assms(1,2) sp(2,1)])
  have i: "0 < oid" "oid - 1 < length (objs st)" using assms(2) by (auto simp: obj_at_Some)
  have at1: "obj_at ?s1 oid' = (if oid' = oid then Some ob' else obj_at st oid')" for oid'
    using obj_at_put [OF i(2,1)] sp(2) by simp
  note mf = maybe_free_spec [OF inv1, of oid]
  have "(if unreferenced ob'
     then obj_at (maybe_free oid ?s1) oid = None \<and> (\<forall>a. addr_refs (sfa (maybe_free oid ?s1)) a =
       (if a \<in> set (obj_frames ob) then 0 else addr_refs (sfa st) a))
     else obj_at (maybe_free oid ?s1) oid = Some ob' \<and> sfa (maybe_free oid ?s1) = sfa st) \<and>
    (\<forall>oid'. oid' \<noteq> oid \<longrightarrow> obj_at (maybe_free oid ?s1) oid' = obj_at st oid')"
  proof (cases "unreferenced ob'")
    case True
    have m: "obj_at (maybe_free oid ?s1) oid = None \<and>
        objs (maybe_free oid ?s1) = (objs ?s1)[oid - 1 := shm_empty] \<and>
        moved (set (obj_frames ob')) (sfa ?s1) {} (sfa (maybe_free oid ?s1))"
      by (rule mf(2)) (simp_all add: at1 True)
    have "obj_at (maybe_free oid ?s1) oid' = obj_at ?s1 oid'" if "oid' \<noteq> oid" for oid'
    proof -
      have "obj_at (maybe_free oid ?s1) oid' = obj_at (put_obj oid shm_empty ?s1) oid'"
        using m by (simp add: obj_at_def)
      also have "\<dots> = obj_at ?s1 oid'" using that i by (subst obj_at_put) auto
      finally show ?thesis .
    qed
    then show ?thesis using m True at1 same_pagesD(1) [OF sp(1)] by (simp add: moved_def)
  next
    case False
    then have "maybe_free oid ?s1 = ?s1" using mf(3) at1 by simp
    then show ?thesis using False at1 by simp
  qed
  then show ?thesis unfolding Let_def ob'_def [symmetric] eq .
qed

theorem shm_release_exact_witness:
  "\<exists>st a. addr_refs (sfa st) a = 1 \<and> addr_refs (sfa (fd_ref 1 (- 1) st)) a = 0"
proof -
  obtain s1 s2 where s: "shm_inv s2"
    "\<exists>ob. obj_at s2 1 = Some ob \<and> so_fd ob = 1 \<and> so_map ob = 0 \<and> \<not> so_named ob" "page_of s2 1 0 \<noteq> 0"
    by (rule shm_demo [of "\<lambda>_. 0"]) blast
  obtain ob where ob: "obj_at s2 1 = Some ob" "so_fd ob = 1" "so_map ob = 0" "\<not> so_named ob"
    using s(2) by blast
  have f: "page_of s2 1 0 \<in> set (obj_frames ob)"
    using page_of_frames(3) [OF s(1,3)] ob(1) by (simp add: obj_at_Some)
  have "addr_refs (sfa (fd_ref 1 (- 1) s2)) (page_of s2 1 0) = 0"
    using shm_release_exact [OF s(1) ob(1), of True] f ob by (simp add: unreferenced_def Let_def)
  then show ?thesis using page_of_frames(4) [OF s(1,3)] by blast
qed

text \<open>C12. What was written through a descriptor is what a read returns, also across pages not yet
  created; the size grows to the end of the write, bytes outside it (below the new size) and
  every other object keep their contents.\<close>

theorem shm_write_read:
  assumes "shm_inv st" and "rw_write oid off bs st = (Inr n, st')"
  shows "n = length bs \<and> rw_read oid off (length bs) st' = (bs, length bs) \<and>
    shm_size st' oid = max (shm_size st oid) (off + length bs) \<and>
    (\<forall>pos < shm_size st' oid. pos < off \<or> off + length bs \<le> pos \<longrightarrow>
      shm_byte st' oid pos = shm_byte st oid pos) \<and>
    (\<forall>oid' pos. oid' \<noteq> oid \<longrightarrow> shm_byte st' oid' pos = shm_byte st oid' pos)"
proof -
  note w = rw_write_spec [OF assms]
  let ?e = "off + length bs"
  have e: "?e < 2 ^ 64" using w(3) by (simp add: u64_max_def)
  have sz: "shm_size st' oid = max (shm_size st oid) ?e" using w(4) by simp
  have "rw_read oid off (length bs) st' = (bs, length bs)"
  proof (cases "shm_size st' oid \<le> off")
    case True
    then have "bs = []" using sz by (auto simp: max_def split: if_splits)
    then show ?thesis using True by (simp add: rw_read_def)
  next
    case False
    have m: "min (?e mod 2 ^ 64) (shm_size st' oid) = ?e" using e sz by simp
    have "read_loop oid off ?e st' = map (shm_byte st' oid) [off..<?e]"
      by (rule read_loop_spec [OF w(2)]) (use sz in simp_all)
    also have "\<dots> = bs" by (rule nth_equalityI) (use w(5) in auto)
    finally have "read_loop oid off ?e st' = bs" .
    moreover have "(?e + 2 ^ 64 - off) mod 2 ^ 64 = length bs" using e by simp
    ultimately show ?thesis using False m by (simp add: rw_read_def Let_def)
  qed
  then show ?thesis using w sz by auto
qed

theorem shm_write_read_witness:
  "\<exists>s1 s2. rw_write 1 0 [7, 8, 9] s1 = (Inr 3, s2) \<and> rw_read 1 0 3 s2 = ([7, 8, 9], 3)"
proof -
  obtain s1 s2 where s: "rw_write 1 0 [7, 8, 9] s1 = (Inr 3, s2)" "shm_inv s1"
    by (rule shm_demo [of "\<lambda>_. 0"]) blast
  have "rw_read 1 0 3 s2 = ([7, 8, 9], 3)"
    using shm_write_read [OF s(2,1)] by (simp add: numeral_3_eq_3)
  with s(1) show ?thesis by blast
qed

text \<open>C13. Shrinking an object (\<open>ftruncate\<close>) returns the frames past the new end to the allocator
  whatever the number of mappings: the counters do not change, so the frames \<open>page\<close> had handed
  to still-live mappings are free for anyone while those page-table entries remain.\<close>

theorem truncate_frees_mapped_pages:
  assumes "shm_inv st" and "obj_at st oid = Some ob" and "0 < so_map ob"
    and "fst (page oid pg al st) = Some pa" and "page_of st oid pg = pa"
    and "div_ceil sz 4096 \<le> pg" and "truncate oid sz st = (Inr (), st')"
  shows "addr_refs (sfa st) pa = 1 \<and> addr_refs (sfa st') pa = 0 \<and>
    (\<exists>ob'. obj_at st' oid = Some ob' \<and> so_map ob' = so_map ob)"
proof -
  obtain s1 where "page oid pg al st = (Some pa, s1)" using assms(4) by (metis prod.collapse)
  from page_spec(2) [OF assms(1) this refl] have "pa \<noteq> 0" by simp
  then have p: "page_of st oid pg \<noteq> 0" using assms(5) by simp
  note t = truncate_spec [OF assms(1,7)]
  show ?thesis using t(6) [OF assms(6) p] t(7) assms(2,5) page_of_frames(4) [OF assms(1) p] by auto
qed

theorem truncate_frees_mapped_pages_witness:
  "\<exists>st pa. fst (page 1 0 False st) = Some pa \<and> addr_refs (sfa st) pa = 1 \<and>
     addr_refs (sfa (snd (truncate 1 0 st))) pa = 0"
proof -
  obtain s1 s2 where s: "shm_inv s2"
    "\<exists>ob. obj_at s2 1 = Some ob \<and> so_fd ob = 1 \<and> so_map ob = 0 \<and> \<not> so_named ob" "page_of s2 1 0 \<noteq> 0"
    "rw_write 1 0 [7, 8, 9] s1 = (Inr 3, s2)" "shm_inv s1"
    by (rule shm_demo [of "\<lambda>_. 0"]) blast
  obtain ob where ob: "obj_at s2 1 = Some ob" "so_map ob = 0" using s(2) by blast
  let ?s3 = "map_ref 1 1 s2" and ?ob = "ob\<lparr>so_map := 1\<rparr>"
  have i: "(0 :: nat) < 1" "1 - 1 < length (objs s2)" "so_used ob" using ob(1) by (auto simp: obj_at_Some)
  have m: "?s3 = put_obj 1 ?ob s2" using ob by (simp add: map_ref_def add_refs_def)
  have at3: "obj_at ?s3 1 = Some ?ob" unfolding m using i by (subst obj_at_put) auto
  have inv3: "shm_inv ?s3" by (rule refs_inv(2) [OF s(1)])
  have po: "page_of ?s3 1 0 = page_of s2 1 0" using at3 ob(1) by (simp add: page_of_def slot_of_def)
  have n0: "page_of ?s3 1 0 \<noteq> 0" using po s(3) by simp
  obtain r s4 where p: "page 1 0 False ?s3 = (r, s4)" by force
  have r: "fst (page 1 0 False ?s3) = Some (page_of ?s3 1 0)"
    using page_spec(6) [OF inv3 p] page_in_size [OF inv3 n0] n0 p by simp
  obtain s5 where t: "truncate 1 0 ?s3 = (Inr (), s5)"
    using at3 by (simp add: truncate_def Let_def div_ceil_def grow_index_def del: One_nat_def)
  have "addr_refs (sfa ?s3) (page_of ?s3 1 0) = 1 \<and> addr_refs (sfa s5) (page_of ?s3 1 0) = 0"
    using truncate_frees_mapped_pages [OF inv3 at3 _ r refl _ t] by (simp add: div_ceil_def)
  with r t show ?thesis by (intro exI [of _ ?s3] exI [of _ "page_of ?s3 1 0"]) simp
qed

end
