(* ===== verification/Vmas.thy ===== *)
theory Vmas
  imports Prelude
begin

text \<open>
  The table of virtual memory areas of an address space (\<open>kernel/src/vm.rs\<close>, \<open>Vma\<close> and
  \<open>Space\<close>): a vector sorted by address, searched by bisection, cut, split, inserted into and
  merged. The functions here are those on the vector; they return the references to
  shared-memory objects they take and drop (\<open>obj_ref\<close>) as a list of changes, in order. The flat
  view \<open>view\<close> gives the attributes of every address.
\<close>

section \<open>Data\<close>

definition MMAP_BASE :: nat where "MMAP_BASE = 0x2000000000"
definition MMAP_END :: nat where "MMAP_END = 0x3F00000000"

record vma =
  v_start :: nat
  v_end :: nat
  v_prot :: u64
  v_obj :: nat
  v_ino :: nat
  v_pgoff :: nat

definition anon :: "nat \<Rightarrow> nat \<Rightarrow> u64 \<Rightarrow> vma" where
  "anon start stop prot = \<lparr>v_start = start, v_end = stop, v_prot = prot, v_obj = 0, v_ino = 0, v_pgoff = 0\<rparr>"

type_synonym obj_change = "nat \<times> int"

section \<open>Operations on the vector\<close>

text \<open>\<open>lower\<close>: index of the first area that ends past \<open>addr\<close>.\<close>

function lower_loop :: "nat \<Rightarrow> nat \<Rightarrow> nat \<Rightarrow> vma list \<Rightarrow> nat" where
  "lower_loop addr lo hi vs =
     (if lo < hi then
        let mid = (lo + hi) div 2 in
        if v_end (vs ! mid) \<le> addr then lower_loop addr (mid + 1) hi vs else lower_loop addr lo mid vs
      else lo)"
  by pat_completeness auto
termination by (relation "measure (\<lambda>(addr, lo, hi, vs). hi - lo)") auto

declare lower_loop.simps [simp del]

definition lower :: "nat \<Rightarrow> vma list \<Rightarrow> nat" where
  "lower addr vs = lower_loop addr 0 (length vs) vs"

definition find_vma :: "nat \<Rightarrow> vma list \<Rightarrow> vma option" where
  "find_vma addr vs =
     (let i = lower addr vs in if i < length vs \<and> v_start (vs ! i) \<le> addr then Some (vs ! i) else None)"

definition insert_at :: "nat \<Rightarrow> vma \<Rightarrow> vma list \<Rightarrow> vma list" where
  "insert_at i v vs = take i vs @ v # drop i vs"

definition remove_at :: "nat \<Rightarrow> nat \<Rightarrow> vma list \<Rightarrow> vma list" where
  "remove_at i n vs = take i vs @ drop (i + n) vs"

definition overlaps :: "nat \<Rightarrow> nat \<Rightarrow> vma list \<Rightarrow> bool" where
  "overlaps start stop vs = (let i = lower start vs in i < length vs \<and> v_start (vs ! i) < stop)"

function covered_loop :: "nat \<Rightarrow> nat \<Rightarrow> nat \<Rightarrow> vma list \<Rightarrow> bool" where
  "covered_loop at stop i vs =
     (if at < stop then
        if length vs \<le> i \<or> at < v_start (vs ! i) then False
        else covered_loop (v_end (vs ! i)) stop (i + 1) vs
      else True)"
  by pat_completeness auto
termination by (relation "measure (\<lambda>(at, stop, i, vs). length vs - i)") auto

declare covered_loop.simps [simp del]

definition covered :: "nat \<Rightarrow> nat \<Rightarrow> vma list \<Rightarrow> bool" where
  "covered start stop vs = covered_loop start stop (lower start vs) vs"

definition tail_of :: "vma \<Rightarrow> nat \<Rightarrow> vma" where
  "tail_of v at = v\<lparr>v_start := at, v_pgoff := v_pgoff v + (at - v_start v) div 4096\<rparr>"

function carve_loop :: "nat \<Rightarrow> nat \<Rightarrow> nat \<Rightarrow> vma list \<Rightarrow> vma list \<times> obj_change list" where
  "carve_loop start stop i vs =
     (if i < length vs then
        let v = vs ! i in
        if stop \<le> v_start v then (vs, [])
        else if v_start v < start \<and> stop < v_end v then
          (insert_at (i + 1) (tail_of v stop) (vs[i := v\<lparr>v_end := start\<rparr>]), [(v_obj v, 1)])
        else if v_start v < start then carve_loop start stop (i + 1) (vs[i := v\<lparr>v_end := start\<rparr>])
        else if stop < v_end v then (vs[i := tail_of v stop], [])
        else let (vs', cs) = carve_loop start stop i (remove_at i 1 vs) in (vs', (v_obj v, - 1) # cs)
      else (vs, []))"
  by pat_completeness auto
termination
  by (relation "measure (\<lambda>(start, stop, i, vs). length vs - i)") (auto simp: remove_at_def)

declare carve_loop.simps [simp del]

definition carve :: "nat \<Rightarrow> nat \<Rightarrow> vma list \<Rightarrow> vma list \<times> obj_change list" where
  "carve start stop vs = carve_loop start stop (lower start vs) vs"

definition mergeable :: "vma \<Rightarrow> vma \<Rightarrow> bool" where
  "mergeable x y \<longleftrightarrow> v_end x = v_start y \<and> v_prot x = v_prot y \<and> v_obj x = v_obj y \<and> v_ino x = v_ino y \<and>
     ((v_obj x = 0 \<and> v_ino x = 0) \<or> v_pgoff x + (v_end x - v_start x) div 4096 = v_pgoff y)"

text \<open>Fusing the areas \<open>i\<close> and \<open>i + 1\<close> into \<open>i\<close>.\<close>

definition fuse :: "nat \<Rightarrow> vma list \<Rightarrow> vma list \<times> obj_change list" where
  "fuse i vs =
     (let b = vs ! (i + 1) in
      (remove_at (i + 1) 1 (vs[i := (vs ! i)\<lparr>v_end := v_end b\<rparr>]), [(v_obj b, - 1)]))"

definition add_vma :: "vma \<Rightarrow> vma list \<Rightarrow> vma list \<times> obj_change list" where
  "add_vma v vs =
     (let i = lower (v_start v) vs; vs = insert_at i v vs;
          (i, vs, cs) =
            (if 0 < i \<and> mergeable (vs ! (i - 1)) (vs ! i)
             then let (vs, cs) = fuse (i - 1) vs in (i - 1, vs, cs) else (i, vs, []));
          (vs, cs') =
            (if i + 1 < length vs \<and> mergeable (vs ! i) (vs ! (i + 1)) then fuse i vs else (vs, []))
      in (vs, cs @ cs'))"

definition split_at :: "nat \<Rightarrow> vma list \<Rightarrow> vma list \<times> obj_change list" where
  "split_at addr vs =
     (let i = lower addr vs in
      if length vs \<le> i then (vs, [])
      else let v = vs ! i in
        if addr \<le> v_start v \<or> v_end v \<le> addr then (vs, [])
        else (insert_at (i + 1) (tail_of v addr) (vs[i := v\<lparr>v_end := addr\<rparr>]), [(v_obj v, 1)]))"

text \<open>The protection loop of \<open>mprotect\<close>.\<close>

function set_prot_loop :: "nat \<Rightarrow> u64 \<Rightarrow> nat \<Rightarrow> vma list \<Rightarrow> vma list" where
  "set_prot_loop stop prot i vs =
     (if i < length vs \<and> v_start (vs ! i) < stop
      then set_prot_loop stop prot (i + 1) (vs[i := (vs ! i)\<lparr>v_prot := prot\<rparr>]) else vs)"
  by pat_completeness auto
termination by (relation "measure (\<lambda>(stop, prot, i, vs). length vs - i)") auto

declare set_prot_loop.simps [simp del]

text \<open>\<open>gap_from\<close>: next fit from \<open>from\<close> on; \<open>gap\<close> starts again from the base.\<close>

function gap_loop :: "nat \<Rightarrow> nat \<Rightarrow> nat \<Rightarrow> vma list \<Rightarrow> nat option" where
  "gap_loop cand len i vs =
     (case checked_add cand len of
        None \<Rightarrow> None
      | Some stop \<Rightarrow>
          if MMAP_END < stop then None
          else if length vs \<le> i \<or> stop \<le> v_start (vs ! i) then Some cand
          else gap_loop (max cand (v_end (vs ! i))) len (i + 1) vs)"
  by pat_completeness auto
termination by (relation "measure (\<lambda>(cand, len, i, vs). length vs - i)") auto

declare gap_loop.simps [simp del]

definition gap_from :: "nat \<Rightarrow> nat \<Rightarrow> vma list \<Rightarrow> nat option" where
  "gap_from start len vs = (let cand = max start MMAP_BASE in gap_loop cand len (lower cand vs) vs)"

definition gap :: "nat \<Rightarrow> nat \<Rightarrow> vma list \<Rightarrow> nat option" where
  "gap hint len vs =
     (case gap_from hint len vs of Some a \<Rightarrow> Some a | None \<Rightarrow> gap_from MMAP_BASE len vs)"

section \<open>Sorted tables\<close>

definition vma_wf :: "vma \<Rightarrow> bool" where
  "vma_wf v \<longleftrightarrow> v_start v < v_end v \<and> 4096 dvd v_start v \<and> 4096 dvd v_end v"

definition before :: "vma \<Rightarrow> vma \<Rightarrow> bool" where
  "before a b \<longleftrightarrow> v_end a \<le> v_start b"

definition table_wf :: "vma list \<Rightarrow> bool" where
  "table_wf vs \<longleftrightarrow> (\<forall>v \<in> set vs. vma_wf v) \<and> sorted_wrt before vs"

definition covers :: "vma \<Rightarrow> nat \<Rightarrow> bool" where
  "covers v x \<longleftrightarrow> v_start v \<le> x \<and> x < v_end v"

text \<open>What a fault sees at an address: protection, object, inode, page of the object or file.\<close>

type_synonym attr = "u64 \<times> nat \<times> nat \<times> nat"

definition attr_at :: "vma \<Rightarrow> nat \<Rightarrow> attr" where
  "attr_at v x = (v_prot v, v_obj v, v_ino v,
     if v_obj v = 0 \<and> v_ino v = 0 then 0 else v_pgoff v + (x - v_start v) div 4096)"

definition view :: "vma list \<Rightarrow> nat \<Rightarrow> attr option" where
  "view vs x = map_option (\<lambda>v. attr_at v x) (List.find (\<lambda>v. covers v x) vs)"

lemma table_wf_Nil [simp]: "table_wf []"
  by (simp add: table_wf_def)

lemma table_wf_Cons [simp]:
  "table_wf (v # vs) \<longleftrightarrow> vma_wf v \<and> (\<forall>w \<in> set vs. before v w) \<and> table_wf vs"
  by (auto simp: table_wf_def)

lemma table_wf_append [simp]:
  "table_wf (us @ vs) \<longleftrightarrow> table_wf us \<and> table_wf vs \<and> (\<forall>u \<in> set us. \<forall>v \<in> set vs. before u v)"
  by (auto simp: table_wf_def sorted_wrt_append)

lemma table_wf_nth:
  assumes "table_wf vs" "i < j" "j < length vs"
  shows "v_end (vs ! i) \<le> v_start (vs ! j)" "v_end (vs ! i) < v_end (vs ! j)"
proof -
  show b: "v_end (vs ! i) \<le> v_start (vs ! j)"
    using assms by (auto simp: table_wf_def sorted_wrt_iff_nth_less before_def)
  have "vma_wf (vs ! j)" using assms by (auto simp: table_wf_def)
  then show "v_end (vs ! i) < v_end (vs ! j)" using b by (simp add: vma_wf_def)
qed

lemma table_unique:
  assumes "table_wf vs" "v \<in> set vs" "w \<in> set vs" "covers v x" "covers w x"
  shows "v = w"
  using assms by (induction vs) (auto simp: before_def covers_def)

lemma view_Some:
  assumes "table_wf vs"
  shows "view vs x = Some A \<longleftrightarrow> (\<exists>v \<in> set vs. covers v x \<and> A = attr_at v x)"
proof
  assume "view vs x = Some A"
  then show "\<exists>v \<in> set vs. covers v x \<and> A = attr_at v x"
    by (auto simp: view_def find_Some_iff)
next
  assume "\<exists>v \<in> set vs. covers v x \<and> A = attr_at v x"
  then obtain v where v: "v \<in> set vs" "covers v x" "A = attr_at v x" by blast
  then have "List.find (\<lambda>v. covers v x) vs \<noteq> None" by (auto simp: find_None_iff)
  then obtain w where w: "List.find (\<lambda>v. covers v x) vs = Some w" by auto
  then have "w \<in> set vs" "covers w x" by (auto simp: find_Some_iff)
  then show "view vs x = Some A" using table_unique [OF assms v(1) _ v(2)] w v(3) by (simp add: view_def)
qed

lemma view_None: "view vs x = None \<longleftrightarrow> (\<forall>v \<in> set vs. \<not> covers v x)"
  by (auto simp: view_def find_None_iff)

lemma view_eqI:
  assumes "\<And>A. view vs x = Some A \<longleftrightarrow> f = Some A"
  shows "view vs x = f"
  using assms by (metis not_Some_eq)

section \<open>Bisection\<close>

lemma lower_loop_spec:
  assumes "table_wf vs" "lo \<le> hi" "hi \<le> length vs"
    and "\<forall>j < lo. v_end (vs ! j) \<le> addr" "\<forall>j. hi \<le> j \<and> j < length vs \<longrightarrow> addr < v_end (vs ! j)"
  shows "let i = lower_loop addr lo hi vs in i \<le> length vs \<and> (\<forall>j < i. v_end (vs ! j) \<le> addr) \<and>
    (\<forall>j. i \<le> j \<and> j < length vs \<longrightarrow> addr < v_end (vs ! j))"
  using assms
proof (induction addr lo hi vs rule: lower_loop.induct)
  case (1 addr lo hi vs)
  show ?case
  proof (cases "lo < hi")
    case False
    then show ?thesis using "1.prems" by (subst lower_loop.simps) (auto simp: Let_def)
  next
    case True
    let ?mid = "(lo + hi) div 2"
    have mid: "lo \<le> ?mid" "?mid < hi" "?mid < length vs" using True "1.prems"(3) by auto
    show ?thesis
    proof (cases "v_end (vs ! ?mid) \<le> addr")
      case le: True
      have "\<forall>j < ?mid + 1. v_end (vs ! j) \<le> addr"
      proof (intro allI impI)
        fix j assume "j < ?mid + 1"
        then show "v_end (vs ! j) \<le> addr"
          using table_wf_nth(2) [OF "1.prems"(1), of j ?mid] mid le by (cases "j = ?mid") auto
      qed
      then show ?thesis using "1.IH"(1) [OF True refl le] "1.prems" mid le True
        by (subst lower_loop.simps) simp
    next
      case gt: False
      have "\<forall>j. ?mid \<le> j \<and> j < length vs \<longrightarrow> addr < v_end (vs ! j)"
      proof (intro allI impI, elim conjE)
        fix j assume "?mid \<le> j" "j < length vs"
        then show "addr < v_end (vs ! j)"
          using table_wf_nth(2) [OF "1.prems"(1), of ?mid j] gt by (cases "j = ?mid") auto
      qed
      then show ?thesis using "1.IH"(2) [OF True refl gt] "1.prems" mid gt True
        by (subst lower_loop.simps) simp
    qed
  qed
qed

lemma lower_spec:
  assumes "table_wf vs"
  shows "lower addr vs \<le> length vs" "\<And>v. v \<in> set (take (lower addr vs) vs) \<Longrightarrow> v_end v \<le> addr"
    "\<And>v. v \<in> set (drop (lower addr vs) vs) \<Longrightarrow> addr < v_end v"
proof -
  have l: "lower addr vs \<le> length vs" "\<forall>j < lower addr vs. v_end (vs ! j) \<le> addr"
    "\<forall>j. lower addr vs \<le> j \<and> j < length vs \<longrightarrow> addr < v_end (vs ! j)"
    using lower_loop_spec [OF assms, of 0 "length vs" addr] by (simp_all add: lower_def Let_def)
  then show "lower addr vs \<le> length vs" by simp
  show "v_end v \<le> addr" if "v \<in> set (take (lower addr vs) vs)" for v
    using that l by (auto simp: in_set_conv_nth)
  show "addr < v_end v" if "v \<in> set (drop (lower addr vs) vs)" for v
    using that l by (auto simp: in_set_conv_nth)
qed

text \<open>The split of the vector at \<open>lower\<close>.\<close>

lemma lower_split:
  assumes "table_wf vs"
  obtains us ws where "vs = us @ ws" "lower addr vs = length us"
    "\<And>v. v \<in> set us \<Longrightarrow> v_end v \<le> addr" "\<And>v. v \<in> set ws \<Longrightarrow> addr < v_end v"
proof
  note l = lower_spec [OF assms, where addr = addr]
  show "vs = take (lower addr vs) vs @ drop (lower addr vs) vs" by simp
  show "lower addr vs = length (take (lower addr vs) vs)" using l(1) by simp
qed (use lower_spec(2,3) [OF assms] in auto)

lemma find_vma_covers:
  assumes "table_wf vs"
  shows "find_vma x vs = Some v \<longleftrightarrow> v \<in> set vs \<and> covers v x"
proof -
  obtain us ws where s: "vs = us @ ws" "lower x vs = length us"
    "\<And>v. v \<in> set us \<Longrightarrow> v_end v \<le> x" "\<And>v. v \<in> set ws \<Longrightarrow> x < v_end v"
    by (rule lower_split [OF assms, of x]) blast
  show ?thesis
  proof (cases ws)
    case Nil
    then show ?thesis using s by (fastforce simp: find_vma_def Let_def covers_def)
  next
    case (Cons w ws')
    have "find_vma x vs = Some v \<longleftrightarrow> v_start w \<le> x \<and> v = w"
      using s Cons by (auto simp: find_vma_def Let_def)
    moreover have "v \<in> set vs \<and> covers v x \<longleftrightarrow> v_start w \<le> x \<and> v = w"
    proof
      assume v: "v \<in> set vs \<and> covers v x"
      then have "v \<in> set ws" using s(1,3) by (force simp: covers_def)
      then have "v = w \<or> before w v" using assms s(1) Cons by auto
      then show "v_start w \<le> x \<and> v = w"
        using v s(4) [of w] Cons by (auto simp: before_def covers_def)
    next
      assume "v_start w \<le> x \<and> v = w"
      then show "v \<in> set vs \<and> covers v x" using s Cons by (auto simp: covers_def)
    qed
    ultimately show ?thesis by simp
  qed
qed

lemma overlaps_iff:
  assumes "table_wf vs" "start < stop"
  shows "overlaps start stop vs \<longleftrightarrow> (\<exists>x. start \<le> x \<and> x < stop \<and> view vs x \<noteq> None)"
proof -
  obtain us ws where s: "vs = us @ ws" "lower start vs = length us"
    "\<And>v. v \<in> set us \<Longrightarrow> v_end v \<le> start" "\<And>v. v \<in> set ws \<Longrightarrow> start < v_end v"
    by (rule lower_split [OF assms(1), of start]) blast
  have ov: "overlaps start stop vs \<longleftrightarrow> ws \<noteq> [] \<and> v_start (hd ws) < stop"
    using s by (cases ws) (auto simp: overlaps_def Let_def)
  show ?thesis
  proof
    assume "overlaps start stop vs"
    then obtain w ws' where w: "ws = w # ws'" "v_start w < stop" using ov by (cases ws) auto
    have wf: "vma_wf w" using assms(1) s(1) w(1) by simp
    let ?x = "max start (v_start w)"
    have "covers w ?x" using wf s(4) [of w] w(1) by (auto simp: covers_def vma_wf_def)
    then have "view vs ?x \<noteq> None" using s(1) w(1) by (auto simp: view_None)
    then show "\<exists>x. start \<le> x \<and> x < stop \<and> view vs x \<noteq> None"
      using w(2) assms(2) by (intro exI [of _ ?x]) auto
  next
    assume "\<exists>x. start \<le> x \<and> x < stop \<and> view vs x \<noteq> None"
    then obtain x v where x: "start \<le> x" "x < stop" "v \<in> set vs" "covers v x" by (auto simp: view_None)
    then have "v \<in> set ws" using s(1,3) by (force simp: covers_def)
    then obtain w ws' where w: "ws = w # ws'" by (cases ws) auto
    then have "v = w \<or> before w v" "vma_wf w" using assms(1) s(1) \<open>v \<in> set ws\<close> by auto
    then have "v_start w < stop" using x(2,4) by (auto simp: before_def covers_def vma_wf_def)
    then show "overlaps start stop vs" using ov w by simp
  qed
qed

section \<open>Cutting a range out\<close>

text \<open>The reference: what is left of each area.\<close>

definition cut :: "nat \<Rightarrow> nat \<Rightarrow> vma \<Rightarrow> vma list" where
  "cut start stop v =
     (if v_end v \<le> start \<or> stop \<le> v_start v then [v]
      else (if v_start v < start then [v\<lparr>v_end := start\<rparr>] else []) @
           (if stop < v_end v then [tail_of v stop] else []))"

text \<open>Net change of the references to an object in a list of changes, and its uses in a table.\<close>

definition net :: "nat \<Rightarrow> obj_change list \<Rightarrow> int" where
  "net ob cs = sum_list (map snd (filter (\<lambda>c. fst c = ob) cs))"

definition uses :: "nat \<Rightarrow> vma list \<Rightarrow> nat" where
  "uses ob vs = length (filter (\<lambda>v. v_obj v = ob) vs)"

lemma net_simps [simp]:
  "net ob [] = 0" "net ob (c # cs) = (if fst c = ob then snd c else 0) + net ob cs"
  "net ob (cs @ cs') = net ob cs + net ob cs'"
  by (simp_all add: net_def)

lemma uses_simps [simp]:
  "uses ob [] = 0" "uses ob (v # vs) = (if v_obj v = ob then 1 else 0) + uses ob vs"
  "uses ob (us @ vs) = uses ob us + uses ob vs"
  by (simp_all add: uses_def)

lemma tail_of_simps [simp]:
  "v_obj (tail_of v a) = v_obj v" "v_ino (tail_of v a) = v_ino v" "v_prot (tail_of v a) = v_prot v"
  "v_start (tail_of v a) = a" "v_end (tail_of v a) = v_end v"
  by (simp_all add: tail_of_def)

lemma cut_later: "table_wf ws \<Longrightarrow> \<forall>v \<in> set ws. stop \<le> v_start v \<Longrightarrow> concat (map (cut start stop) ws) = ws"
  by (induction ws) (auto simp: cut_def)

lemma cut_earlier: "\<forall>v \<in> set us. v_end v \<le> start \<Longrightarrow> concat (map (cut start stop) us) = us"
  by (induction us) (auto simp: cut_def)

lemma carve_loop_ref:
  assumes "table_wf ws" "start < stop" "\<forall>v \<in> set ws. start < v_end v"
  shows "fst (carve_loop start stop (length us) (us @ ws)) = us @ concat (map (cut start stop) ws)"
    and "int (uses ob (concat (map (cut start stop) ws))) =
      int (uses ob ws) + net ob (snd (carve_loop start stop (length us) (us @ ws)))"
proof -
  have "fst (carve_loop start stop (length us) (us @ ws)) = us @ concat (map (cut start stop) ws) \<and>
    int (uses ob (concat (map (cut start stop) ws))) =
      int (uses ob ws) + net ob (snd (carve_loop start stop (length us) (us @ ws)))"
    using assms
  proof (induction ws arbitrary: us)
    case Nil
    then show ?case by (simp add: carve_loop.simps)
  next
    case (Cons v ws)
    have v: "start < v_end v" "vma_wf v" "\<forall>w \<in> set ws. v_end v \<le> v_start w"
      using Cons.prems by (auto simp: before_def)
    have IH: "fst (carve_loop start stop (length us') (us' @ ws)) = us' @ concat (map (cut start stop) ws) \<and>
      int (uses ob (concat (map (cut start stop) ws))) =
        int (uses ob ws) + net ob (snd (carve_loop start stop (length us') (us' @ ws)))" for us'
      using Cons.prems by (intro Cons.IH) auto
    have upd: "(us @ v # ws)[length us := w] = us @ w # ws" for w by simp
    consider "stop \<le> v_start v" | "v_start v < stop" "v_start v < start" "stop < v_end v"
      | "v_start v < stop" "v_start v < start" "v_end v \<le> stop"
      | "v_start v < stop" "start \<le> v_start v" "stop < v_end v"
      | "v_start v < stop" "start \<le> v_start v" "v_end v \<le> stop" by linarith
    then show ?case
    proof cases
      case 1
      then have "\<forall>w \<in> set (v # ws). stop \<le> v_start w" using v by (auto simp: vma_wf_def)
      then have "concat (map (cut start stop) (v # ws)) = v # ws" by (rule cut_later [OF Cons.prems(1)])
      then show ?thesis using 1 by (subst (1 2) carve_loop.simps) (auto simp: nth_append)
    next
      case 2
      then have later: "concat (map (cut start stop) ws) = ws"
        using Cons.prems(1) v(3) by (intro cut_later) auto
      have ins: "insert_at (Suc (length us)) (tail_of v stop) (us @ v\<lparr>v_end := start\<rparr> # ws) =
          us @ v\<lparr>v_end := start\<rparr> # tail_of v stop # ws" by (simp add: insert_at_def)
      have c: "cut start stop v = [v\<lparr>v_end := start\<rparr>, tail_of v stop]"
        using 2 v(1) by (simp add: cut_def)
      have "carve_loop start stop (length us) (us @ v # ws) =
          (us @ v\<lparr>v_end := start\<rparr> # tail_of v stop # ws, [(v_obj v, 1)])"
        using 2 ins by (subst carve_loop.simps) (simp add: nth_append upd Let_def)
      then show ?thesis using later c by simp
    next
      case 3
      have c: "cut start stop v = [v\<lparr>v_end := start\<rparr>]" using 3 v(1) by (simp add: cut_def)
      have "carve_loop start stop (length us) (us @ v # ws) =
          carve_loop start stop (length (us @ [v\<lparr>v_end := start\<rparr>])) ((us @ [v\<lparr>v_end := start\<rparr>]) @ ws)"
        using 3 by (subst carve_loop.simps) (simp add: nth_append upd Let_def)
      then show ?thesis using IH [of "us @ [v\<lparr>v_end := start\<rparr>]"] c by simp
    next
      case 4
      then have later: "concat (map (cut start stop) ws) = ws"
        using Cons.prems(1) v(3) by (intro cut_later) auto
      have c: "cut start stop v = [tail_of v stop]" using 4 v(1) by (simp add: cut_def)
      have "carve_loop start stop (length us) (us @ v # ws) = (us @ tail_of v stop # ws, [])"
        using 4 by (subst carve_loop.simps) (simp add: nth_append upd Let_def)
      then show ?thesis using later c by simp
    next
      case 5
      have c: "cut start stop v = []" using 5 v(1) by (simp add: cut_def)
      have "remove_at (length us) 1 (us @ v # ws) = us @ ws" by (simp add: remove_at_def)
      then have "carve_loop start stop (length us) (us @ v # ws) =
          (let (vs', cs) = carve_loop start stop (length us) (us @ ws) in (vs', (v_obj v, - 1) # cs))"
        using 5 by (subst carve_loop.simps) (simp add: nth_append Let_def)
      then show ?thesis using IH [of us] c by (simp add: case_prod_beta)
    qed
  qed
  then show "fst (carve_loop start stop (length us) (us @ ws)) = us @ concat (map (cut start stop) ws)"
    "int (uses ob (concat (map (cut start stop) ws))) =
      int (uses ob ws) + net ob (snd (carve_loop start stop (length us) (us @ ws)))" by auto
qed

lemma carve_ref:
  assumes "table_wf vs" "start < stop"
  shows "fst (carve start stop vs) = concat (map (cut start stop) vs)"
    and "int (uses ob (fst (carve start stop vs))) = int (uses ob vs) + net ob (snd (carve start stop vs))"
proof -
  obtain us ws where s: "vs = us @ ws" "lower start vs = length us"
    "\<And>v. v \<in> set us \<Longrightarrow> v_end v \<le> start" "\<And>v. v \<in> set ws \<Longrightarrow> start < v_end v"
    by (rule lower_split [OF assms(1), of start]) blast
  have c: "carve start stop vs = carve_loop start stop (length us) (us @ ws)"
    by (simp add: carve_def s(2)) (simp add: s(1))
  have us: "concat (map (cut start stop) us) = us" using s(3) by (intro cut_earlier) auto
  have r: "table_wf ws" "\<forall>v \<in> set ws. start < v_end v" using assms(1) s by auto
  show f: "fst (carve start stop vs) = concat (map (cut start stop) vs)"
    unfolding c using carve_loop_ref(1) [OF r(1) assms(2) r(2), of us] us s(1) by simp
  show "int (uses ob (fst (carve start stop vs))) = int (uses ob vs) + net ob (snd (carve start stop vs))"
    unfolding f unfolding c using carve_loop_ref(2) [OF r(1) assms(2) r(2), of ob us] us s(1) by simp
qed

lemma attr_tail:
  assumes "vma_wf v" "v_start v \<le> a" "a \<le> x" "4096 dvd a"
  shows "attr_at (tail_of v a) x = attr_at v x"
proof -
  have "4096 dvd a - v_start v" using assms by (intro dvd_diff_nat) (auto simp: vma_wf_def)
  then obtain m where "a - v_start v = 4096 * m" by (auto simp: dvd_def)
  then have m: "a = v_start v + 4096 * m" using assms(2) by simp
  obtain d where d: "x = a + d" using assms(3) le_Suc_ex by blast
  have "(a - v_start v) div 4096 + (x - a) div 4096 = (x - v_start v) div 4096"
    by (simp add: m d)
  then show ?thesis by (auto simp: attr_at_def tail_of_def add.assoc)
qed

text \<open>A table whose areas are replaced by pieces of themselves.\<close>

definition piece :: "vma \<Rightarrow> vma \<Rightarrow> bool" where
  "piece v p \<longleftrightarrow> vma_wf p \<and> v_start v \<le> v_start p \<and> v_end p \<le> v_end v"

lemma pieces_wf:
  assumes "table_wf vs" "\<And>v p. v \<in> set vs \<Longrightarrow> p \<in> set (f v) \<Longrightarrow> piece v p"
    and "\<And>v. v \<in> set vs \<Longrightarrow> table_wf (f v)"
  shows "table_wf (concat (map f vs))"
  using assms
proof (induction vs)
  case (Cons v vs)
  have "before p q" if "p \<in> set (f v)" "w \<in> set vs" "q \<in> set (f w)" for p w q
  proof -
    have "before v w" using Cons.prems(1) that(2) by simp
    moreover have "piece v p" "piece w q" using Cons.prems(2) that by auto
    ultimately show ?thesis by (simp add: before_def piece_def)
  qed
  then show ?case using Cons by auto
qed simp

lemma cut_piece:
  assumes "vma_wf v" "start < stop" "4096 dvd start" "4096 dvd stop"
  shows "p \<in> set (cut start stop v) \<Longrightarrow> piece v p" "table_wf (cut start stop v)"
  using assms by (auto simp: cut_def piece_def vma_wf_def before_def split: if_splits)

lemma cut_covers:
  assumes "vma_wf v" "start < stop" "4096 dvd start" "4096 dvd stop"
  shows "(\<exists>p \<in> set (cut start stop v). covers p x \<and> A = attr_at p x) \<longleftrightarrow>
    \<not> (start \<le> x \<and> x < stop) \<and> covers v x \<and> A = attr_at v x"
proof -
  have t: "stop \<le> x \<Longrightarrow> v_start v < stop \<Longrightarrow> attr_at (tail_of v stop) x = attr_at v x"
    using assms by (intro attr_tail) auto
  have h: "attr_at (v\<lparr>v_end := start\<rparr>) x = attr_at v x" by (simp add: attr_at_def)
  show ?thesis using assms(1,2) t h by (auto simp: cut_def covers_def vma_wf_def)
qed

lemma carve_spec:
  assumes "table_wf vs" "start < stop" "4096 dvd start" "4096 dvd stop"
  shows "table_wf (fst (carve start stop vs))"
    and "view (fst (carve start stop vs)) x = (if start \<le> x \<and> x < stop then None else view vs x)"
proof -
  note c = carve_ref(1) [OF assms(1,2)]
  have v: "v \<in> set vs \<Longrightarrow> vma_wf v" for v using assms(1) by (auto simp: table_wf_def)
  show wf: "table_wf (fst (carve start stop vs))"
    unfolding c by (rule pieces_wf [OF assms(1)]) (use cut_piece [OF v assms(2-4)] in auto)
  show "view (fst (carve start stop vs)) x = (if start \<le> x \<and> x < stop then None else view vs x)"
  proof (rule view_eqI)
    fix A
    have "view (fst (carve start stop vs)) x = Some A \<longleftrightarrow>
        (\<exists>v \<in> set vs. \<exists>p \<in> set (cut start stop v). covers p x \<and> A = attr_at p x)"
      unfolding view_Some [OF wf] unfolding c by auto
    also have "\<dots> \<longleftrightarrow> \<not> (start \<le> x \<and> x < stop) \<and> view vs x = Some A"
      unfolding view_Some [OF assms(1)] using cut_covers [OF v assms(2-4)] by blast
    finally show "view (fst (carve start stop vs)) x = Some A \<longleftrightarrow>
        (if start \<le> x \<and> x < stop then None else view vs x) = Some A" by simp
  qed
qed

lemma length_concat_cut:
  "table_wf vs \<Longrightarrow> start < stop \<Longrightarrow> length (concat (map (cut start stop) vs)) \<le> length vs + 1"
proof (induction vs)
  case (Cons v vs)
  then have v: "vma_wf v" "\<forall>w \<in> set vs. v_end v \<le> v_start w" "table_wf vs" by (auto simp: before_def)
  show ?case
  proof (cases "stop < v_end v")
    case True
    then have "concat (map (cut start stop) vs) = vs" using v(2) by (intro cut_later v(3)) auto
    moreover have "length (cut start stop v) \<le> 2" by (simp add: cut_def)
    ultimately show ?thesis by simp
  next
    case False
    then have "length (cut start stop v) \<le> 1" using v(1) by (auto simp: cut_def vma_wf_def)
    then show ?thesis using Cons.IH [OF v(3) Cons.prems(2)] by simp
  qed
qed simp

lemma length_carve:
  "table_wf vs \<Longrightarrow> start < stop \<Longrightarrow> length (fst (carve start stop vs)) \<le> length vs + 1"
  using length_concat_cut [of vs start stop] carve_ref(1) [of vs start stop] by simp

section \<open>Splitting and changing the protection\<close>

definition split_ref :: "nat \<Rightarrow> vma \<Rightarrow> vma list" where
  "split_ref a v = (if v_start v < a \<and> a < v_end v then [v\<lparr>v_end := a\<rparr>, tail_of v a] else [v])"

lemma split_at_ref:
  assumes "table_wf vs"
  shows "fst (split_at a vs) = concat (map (split_ref a) vs)"
    and "int (uses ob (fst (split_at a vs))) = int (uses ob vs) + net ob (snd (split_at a vs))"
    and "length (fst (split_at a vs)) \<le> length vs + 1"
proof -
  obtain us ws where s: "vs = us @ ws" "lower a vs = length us"
    "\<And>v. v \<in> set us \<Longrightarrow> v_end v \<le> a" "\<And>v. v \<in> set ws \<Longrightarrow> a < v_end v"
    by (rule lower_split [OF assms, of a]) blast
  have us: "concat (map (split_ref a) us) = us" if "\<forall>v \<in> set us. v_end v \<le> a" for us
    using that by (induction us) (auto simp: split_ref_def)
  have later: "concat (map (split_ref a) ws) = ws" if "\<forall>v \<in> set ws. a \<le> v_start v" for ws
    using that by (induction ws) (auto simp: split_ref_def)
  have us': "concat (map (split_ref a) us) = us" using s(3) by (intro us) auto
  have "fst (split_at a vs) = concat (map (split_ref a) vs) \<and>
    int (uses ob (fst (split_at a vs))) = int (uses ob vs) + net ob (snd (split_at a vs)) \<and>
    length (fst (split_at a vs)) \<le> length vs + 1"
  proof (cases ws)
    case Nil
    then show ?thesis using s(1,2) us' by (simp add: split_at_def Let_def)
  next
    case (Cons w ws')
    have w: "a < v_end w" "\<forall>v \<in> set ws'. v_end w \<le> v_start v"
      using s(4) assms s(1) Cons by (auto simp: before_def)
    then have lt: "concat (map (split_ref a) ws') = ws'" by (intro later) auto
    have vs: "vs = us @ w # ws'" using s(1) Cons by simp
    show ?thesis
    proof (cases "v_start w < a")
      case True
      have "split_at a vs = (us @ w\<lparr>v_end := a\<rparr> # tail_of w a # ws', [(v_obj w, 1)])"
        using s(2) True w(1) by (simp add: split_at_def Let_def vs insert_at_def)
      then show ?thesis using us' lt True w(1) by (simp add: vs split_ref_def)
    next
      case False
      have "split_at a vs = (vs, [])" using s(2) False by (simp add: split_at_def Let_def vs)
      then show ?thesis using us' lt False by (simp add: vs split_ref_def)
    qed
  qed
  then show "fst (split_at a vs) = concat (map (split_ref a) vs)"
    "int (uses ob (fst (split_at a vs))) = int (uses ob vs) + net ob (snd (split_at a vs))"
    "length (fst (split_at a vs)) \<le> length vs + 1" by auto
qed

text \<open>No area of the table straddles \<open>a\<close>.\<close>

definition cut_free :: "nat \<Rightarrow> vma list \<Rightarrow> bool" where
  "cut_free a vs \<longleftrightarrow> (\<forall>v \<in> set vs. v_end v \<le> a \<or> a \<le> v_start v)"

lemma split_at_spec:
  assumes wf: "table_wf vs" and a: "4096 dvd a"
  shows "table_wf (fst (split_at a vs))" "view (fst (split_at a vs)) x = view vs x"
    and "cut_free a (fst (split_at a vs))" "cut_free b vs \<Longrightarrow> cut_free b (fst (split_at a vs))"
proof -
  note r = split_at_ref(1) [OF wf]
  have v: "v \<in> set vs \<Longrightarrow> vma_wf v" for v using wf by (auto simp: table_wf_def)
  have pc: "vma_wf v \<Longrightarrow> p \<in> set (split_ref a v) \<Longrightarrow> piece v p" "vma_wf v \<Longrightarrow> table_wf (split_ref a v)" for v p
    using a by (auto simp: split_ref_def piece_def vma_wf_def before_def split: if_splits)
  show wf': "table_wf (fst (split_at a vs))"
    unfolding r by (rule pieces_wf [OF wf]) (use pc v in auto)
  have cov: "(\<exists>p \<in> set (split_ref a v). covers p x \<and> A = attr_at p x) \<longleftrightarrow> covers v x \<and> A = attr_at v x"
    if "vma_wf v" for v A
  proof -
    have "a \<le> x \<Longrightarrow> v_start v < a \<Longrightarrow> attr_at (tail_of v a) x = attr_at v x"
      using a that by (intro attr_tail) auto
    moreover have "attr_at (v\<lparr>v_end := a\<rparr>) x = attr_at v x" by (simp add: attr_at_def)
    ultimately show ?thesis by (cases "a \<le> x") (auto simp: split_ref_def covers_def)
  qed
  show "view (fst (split_at a vs)) x = view vs x"
  proof (rule view_eqI)
    fix A
    have "view (fst (split_at a vs)) x = Some A \<longleftrightarrow>
        (\<exists>v \<in> set vs. \<exists>p \<in> set (split_ref a v). covers p x \<and> A = attr_at p x)"
      unfolding view_Some [OF wf'] unfolding r by auto
    also have "\<dots> \<longleftrightarrow> view vs x = Some A" unfolding view_Some [OF wf] using cov v by blast
    finally show "view (fst (split_at a vs)) x = Some A \<longleftrightarrow> view vs x = Some A" .
  qed
  show "cut_free a (fst (split_at a vs))" unfolding r by (auto simp: cut_free_def split_ref_def)
  show "cut_free b (fst (split_at a vs))" if "cut_free b vs"
    unfolding r using that by (fastforce simp: cut_free_def split_ref_def split: if_splits)
qed

text \<open>The protection loop over a table split at both ends of the range.\<close>

definition prot_ref :: "nat \<Rightarrow> nat \<Rightarrow> u64 \<Rightarrow> vma \<Rightarrow> vma" where
  "prot_ref start stop prot v = (if start \<le> v_start v \<and> v_start v < stop then v\<lparr>v_prot := prot\<rparr> else v)"

lemma set_prot_loop_map:
  assumes "table_wf ws"
  shows "set_prot_loop stop prot (length us) (us @ ws) =
    us @ map (\<lambda>v. if v_start v < stop then v\<lparr>v_prot := prot\<rparr> else v) ws"
  using assms
proof (induction ws arbitrary: us)
  case Nil
  then show ?case by (simp add: set_prot_loop.simps)
next
  case (Cons v ws)
  show ?case
  proof (cases "v_start v < stop")
    case True
    then show ?thesis using Cons.IH [of "us @ [v\<lparr>v_prot := prot\<rparr>]"] Cons.prems
      by (subst set_prot_loop.simps) (simp add: nth_append)
  next
    case False
    then have "\<forall>w \<in> set ws. \<not> v_start w < stop" using Cons.prems by (auto simp: before_def vma_wf_def)
    then have "map (\<lambda>v. if v_start v < stop then v\<lparr>v_prot := prot\<rparr> else v) ws = ws"
      by (induction ws) auto
    then show ?thesis using False by (subst set_prot_loop.simps) (simp add: nth_append)
  qed
qed

lemma set_prot_ref:
  assumes wf: "table_wf vs" and s: "cut_free start vs"
  shows "set_prot_loop stop prot (lower start vs) vs = map (prot_ref start stop prot) vs"
proof -
  obtain us ws where sp: "vs = us @ ws" "lower start vs = length us"
    "\<And>v. v \<in> set us \<Longrightarrow> v_end v \<le> start" "\<And>v. v \<in> set ws \<Longrightarrow> start < v_end v"
    by (rule lower_split [OF wf, of start]) blast
  have "set_prot_loop stop prot (length us) vs =
      us @ map (\<lambda>v. if v_start v < stop then v\<lparr>v_prot := prot\<rparr> else v) ws"
    using set_prot_loop_map [of ws stop prot us] wf sp(1) by simp
  then have l: "set_prot_loop stop prot (lower start vs) vs =
      us @ map (\<lambda>v. if v_start v < stop then v\<lparr>v_prot := prot\<rparr> else v) ws"
    by (simp only: sp(2))
  have u: "prot_ref start stop prot v = v" if "v \<in> set us" for v
  proof -
    have "v_start v < v_end v" using wf sp(1) that by (simp add: table_wf_def vma_wf_def)
    then show ?thesis using sp(3) [OF that] by (simp add: prot_ref_def)
  qed
  have w: "prot_ref start stop prot v = (if v_start v < stop then v\<lparr>v_prot := prot\<rparr> else v)"
    if "v \<in> set ws" for v
  proof -
    have "v_end v \<le> start \<or> start \<le> v_start v" using s sp(1) that by (simp add: cut_free_def)
    then show ?thesis using sp(4) [OF that] by (simp add: prot_ref_def)
  qed
  have "map (prot_ref start stop prot) us = us" using u by (simp add: map_idI)
  then have "map (prot_ref start stop prot) vs =
      us @ map (\<lambda>v. if v_start v < stop then v\<lparr>v_prot := prot\<rparr> else v) ws"
    using w sp(1) by simp
  then show ?thesis using l by simp
qed

lemma set_prot_spec:
  fixes prot :: u64
  assumes wf: "table_wf vs" and s: "cut_free start vs" "cut_free stop vs" "start < stop"
    and vs': "vs' = set_prot_loop stop prot (lower start vs) vs"
  shows "table_wf vs'" "length vs' = length vs" "uses ob vs' = uses ob vs"
    and "view vs' x = (if start \<le> x \<and> x < stop
      then map_option (\<lambda>(p, r). (prot, r)) (view vs x) else view vs x)"
proof -
  have m: "vs' = map (prot_ref start stop prot) vs" unfolding vs' by (rule set_prot_ref [OF wf s(1)])
  have same: "v_start (prot_ref start stop prot v) = v_start v" "v_end (prot_ref start stop prot v) = v_end v"
    "v_obj (prot_ref start stop prot v) = v_obj v" for v by (simp_all add: prot_ref_def)
  show wf': "table_wf vs'"
    using wf by (auto simp: m table_wf_def vma_wf_def sorted_wrt_map before_def [abs_def] same)
  show "length vs' = length vs" by (simp add: m)
  show "uses ob vs' = uses ob vs" by (simp add: m uses_def filter_map o_def same)
  have at: "attr_at (prot_ref start stop prot v) x =
      (if start \<le> x \<and> x < stop then (prot, snd (attr_at v x)) else attr_at v x)"
    if "v \<in> set vs" "covers v x" for v
    using that s by (auto simp: prot_ref_def attr_at_def covers_def cut_free_def)
  have key: "(\<exists>v \<in> set vs. covers v x \<and> A = F (attr_at v x)) \<longleftrightarrow> (\<exists>B. view vs x = Some B \<and> A = F B)"
    for A :: attr and F unfolding view_Some [OF wf] by (auto simp del: split_paired_Ex)
  show "view vs' x = (if start \<le> x \<and> x < stop
      then map_option (\<lambda>(p, r). (prot, r)) (view vs x) else view vs x)"
  proof (rule view_eqI)
    fix A
    have "view vs' x = Some A \<longleftrightarrow> (\<exists>v \<in> set vs. covers v x \<and> A = attr_at (prot_ref start stop prot v) x)"
      unfolding view_Some [OF wf'] unfolding m by (auto simp: covers_def same)
    also have "\<dots> \<longleftrightarrow> (\<exists>v \<in> set vs. covers v x \<and>
        A = (if start \<le> x \<and> x < stop then (prot, snd (attr_at v x)) else attr_at v x))"
      by (intro bex_cong refl conj_cong) (simp add: at)
    also have "\<dots> \<longleftrightarrow> (\<exists>B. view vs x = Some B \<and>
        A = (if start \<le> x \<and> x < stop then (prot, snd B) else B))"
      by (rule key [of A "\<lambda>B. if start \<le> x \<and> x < stop then (prot, snd B) else B"])
    also have "\<dots> \<longleftrightarrow> (if start \<le> x \<and> x < stop
      then map_option (\<lambda>(p, r). (prot, r)) (view vs x) else view vs x) = Some A"
      by (cases "view vs x") (auto simp: case_prod_beta)
    finally show "view vs' x = Some A \<longleftrightarrow> (if start \<le> x \<and> x < stop
      then map_option (\<lambda>(p, r). (prot, r)) (view vs x) else view vs x) = Some A" .
  qed
qed

section \<open>Coverage and gaps\<close>

lemma covered_loop_iff:
  assumes "table_wf ws" "\<forall>v \<in> set ws. at < v_end v"
  shows "covered_loop at stop (length us) (us @ ws) \<longleftrightarrow>
    (\<forall>x. at \<le> x \<and> x < stop \<longrightarrow> (\<exists>v \<in> set ws. covers v x))"
  using assms
proof (induction ws arbitrary: us at)
  case Nil
  then show ?case by (subst covered_loop.simps) auto
next
  case (Cons w ws)
  have w: "vma_wf w" "at < v_end w" "\<forall>v \<in> set ws. v_end w \<le> v_start v" "table_wf ws"
    using Cons.prems by (auto simp: before_def)
  have lt: "\<forall>v \<in> set ws. v_end w < v_end v"
    using w(3,4) by (auto simp: table_wf_def vma_wf_def) fastforce
  show ?case
  proof (cases "at < stop \<and> v_start w \<le> at")
    case True
    have "covered_loop at stop (length us) (us @ w # ws) \<longleftrightarrow>
        covered_loop (v_end w) stop (length (us @ [w])) ((us @ [w]) @ ws)"
      using True by (subst covered_loop.simps) (simp add: nth_append)
    also have "\<dots> \<longleftrightarrow> (\<forall>x. v_end w \<le> x \<and> x < stop \<longrightarrow> (\<exists>v \<in> set ws. covers v x))"
      by (rule Cons.IH [OF w(4) lt])
    also have "\<dots> \<longleftrightarrow> (\<forall>x. at \<le> x \<and> x < stop \<longrightarrow> (\<exists>v \<in> set (w # ws). covers v x))"
    proof -
      have "covers w x \<longleftrightarrow> x < v_end w" if "at \<le> x" for x using that True by (auto simp: covers_def)
      then show ?thesis using w(2) by (metis less_imp_le list.set_intros(1) not_less order_trans set_ConsD list.set_intros(2))
    qed
    finally show ?thesis .
  next
    case False
    show ?thesis
    proof (cases "at < stop")
      case True
      then have "\<not> covers v at" if "v \<in> set (w # ws)" for v
        using that False w(1,3) by (auto simp: covers_def vma_wf_def)
      then show ?thesis using True False by (subst covered_loop.simps) (auto simp: nth_append)
    qed (subst covered_loop.simps, auto)
  qed
qed

lemma covered_iff:
  assumes "table_wf vs"
  shows "covered start stop vs \<longleftrightarrow> (\<forall>x. start \<le> x \<and> x < stop \<longrightarrow> view vs x \<noteq> None)"
proof -
  obtain us ws where s: "vs = us @ ws" "lower start vs = length us"
    "\<And>v. v \<in> set us \<Longrightarrow> v_end v \<le> start" "\<And>v. v \<in> set ws \<Longrightarrow> start < v_end v"
    by (rule lower_split [OF assms, of start]) blast
  have "covered start stop vs \<longleftrightarrow> covered_loop start stop (length us) (us @ ws)"
    by (simp only: covered_def s(2)) (simp only: s(1))
  also have "\<dots> \<longleftrightarrow> (\<forall>x. start \<le> x \<and> x < stop \<longrightarrow> (\<exists>v \<in> set ws. covers v x))"
    using assms s by (intro covered_loop_iff) auto
  also have "\<dots> \<longleftrightarrow> (\<forall>x. start \<le> x \<and> x < stop \<longrightarrow> view vs x \<noteq> None)"
  proof -
    have "(\<exists>v \<in> set ws. covers v x) \<longleftrightarrow> view vs x \<noteq> None" if "start \<le> x" for x
    proof -
      have "\<not> covers v x" if "v \<in> set us" for v using s(3) [OF that] \<open>start \<le> x\<close> by (simp add: covers_def)
      then show ?thesis using s(1) by (auto simp: view_None)
    qed
    then show ?thesis by blast
  qed
  finally show ?thesis .
qed

definition free_range :: "nat \<Rightarrow> nat \<Rightarrow> vma list \<Rightarrow> bool" where
  "free_range a len vs \<longleftrightarrow> (\<forall>v \<in> set vs. v_end v \<le> a \<or> a + len \<le> v_start v)"

lemma free_range_view:
  "\<forall>v \<in> set vs. vma_wf v \<Longrightarrow> free_range a len vs \<Longrightarrow> a \<le> x \<Longrightarrow> x < a + len \<Longrightarrow> view vs x = None"
  by (fastforce simp: free_range_def view_None covers_def)

lemma MMAP_bound: "MMAP_END \<le> u64_max"
  by (simp add: MMAP_END_def u64_max_def)

text \<open>The gap found is free; a failed search means there is none from its start on.\<close>

lemma gap_loop_spec:
  assumes "table_wf ws" "\<forall>v \<in> set us. v_end v \<le> cand"
  shows "case gap_loop cand len (length us) (us @ ws) of
      Some a \<Rightarrow> cand \<le> a \<and> a + len \<le> MMAP_END \<and> free_range a len (us @ ws) \<and>
        (a = cand \<or> a \<in> v_end ` set ws) \<and>
        (\<forall>b. cand \<le> b \<and> b < a \<longrightarrow> \<not> free_range b len ws)
    | None \<Rightarrow> \<forall>b. cand \<le> b \<and> b + len \<le> MMAP_END \<longrightarrow> \<not> free_range b len ws"
  using assms
proof (induction ws arbitrary: us cand)
  case Nil
  show ?case using MMAP_bound Nil.prems
    by (subst gap_loop.simps) (auto simp: free_range_def checked_add_def)
next
  case (Cons w ws)
  have w: "vma_wf w" "\<forall>v \<in> set ws. v_end w \<le> v_start v" "table_wf ws"
    using Cons.prems by (auto simp: before_def)
  consider "MMAP_END < cand + len" | "cand + len \<le> MMAP_END" "cand + len \<le> v_start w"
    | "cand + len \<le> MMAP_END" "v_start w < cand + len" by linarith
  then show ?case
  proof cases
    case 1
    then have "gap_loop cand len (length us) (us @ w # ws) = None"
      by (subst gap_loop.simps) (auto simp: checked_add_def)
    then show ?thesis using 1 by auto
  next
    case 2
    have "gap_loop cand len (length us) (us @ w # ws) = Some cand"
      using 2 MMAP_bound by (subst gap_loop.simps) (auto simp: checked_add_def nth_append)
    moreover have "free_range cand len (us @ w # ws)"
      using Cons.prems(2) 2(2) w by (fastforce simp: free_range_def vma_wf_def)
    ultimately show ?thesis using 2 by auto
  next
    case 3
    let ?c = "max cand (v_end w)"
    have eq: "gap_loop cand len (length us) (us @ w # ws) = gap_loop ?c len (length (us @ [w])) ((us @ [w]) @ ws)"
      using 3 MMAP_bound by (subst gap_loop.simps) (auto simp: checked_add_def nth_append)
    have "\<forall>v \<in> set (us @ [w]). v_end v \<le> ?c" using Cons.prems(2) by auto
    note IH = Cons.IH [OF w(3) this]
    have nf: "\<not> free_range b len (w # ws)" if "cand \<le> b" "b < ?c" for b
      using that 3(2) by (auto simp: free_range_def max_def split: if_splits)
    have sub: "free_range b len (w # ws) \<Longrightarrow> free_range b len ws" for b by (simp add: free_range_def)
    show ?thesis
    proof (cases "gap_loop ?c len (length (us @ [w])) ((us @ [w]) @ ws)")
      case None
      have "\<not> free_range b len (w # ws)" if "cand \<le> b" "b + len \<le> MMAP_END" for b
      proof (cases "b < ?c")
        case False
        then have "\<not> free_range b len ws" using IH that(2) unfolding None by (simp add: less_max_iff_disj not_less)
        then show ?thesis using sub by blast
      qed (rule nf [OF that(1)])
      then show ?thesis unfolding eq None by simp
    next
      case (Some a)
      have "\<not> free_range b len (w # ws)" if "cand \<le> b" "b < a" for b
      proof (cases "b < ?c")
        case False
        then have "\<not> free_range b len ws" using IH that(2) unfolding Some by (simp add: less_max_iff_disj not_less)
        then show ?thesis using sub by blast
      qed (rule nf [OF that(1)])
      moreover have "a = cand \<or> a \<in> v_end ` set (w # ws)" using IH Some by (auto simp: max_def split: if_splits)
      ultimately show ?thesis using IH Some unfolding eq by auto
    qed
  qed
qed

lemma gap_from_spec:
  assumes "table_wf vs"
  shows "case gap_from start len vs of
      Some a \<Rightarrow> max start MMAP_BASE \<le> a \<and> a + len \<le> MMAP_END \<and> free_range a len vs \<and>
        (a = max start MMAP_BASE \<or> a \<in> v_end ` set vs)
    | None \<Rightarrow> \<forall>b. max start MMAP_BASE \<le> b \<and> b + len \<le> MMAP_END \<longrightarrow> \<not> free_range b len vs"
proof -
  let ?c = "max start MMAP_BASE"
  obtain us ws where s: "vs = us @ ws" "lower ?c vs = length us"
    "\<And>v. v \<in> set us \<Longrightarrow> v_end v \<le> ?c" "\<And>v. v \<in> set ws \<Longrightarrow> ?c < v_end v"
    by (rule lower_split [OF assms, of ?c]) blast
  have g: "gap_from start len vs = gap_loop ?c len (length us) (us @ ws)"
    by (simp only: gap_from_def Let_def s(2)) (simp only: s(1))
  have "table_wf ws" "\<forall>v \<in> set us. v_end v \<le> ?c" using assms s by auto
  note l = gap_loop_spec [OF this, of len]
  show ?thesis
  proof (cases "gap_loop ?c len (length us) (us @ ws)")
    case None
    then have "\<forall>b. ?c \<le> b \<and> b + len \<le> MMAP_END \<longrightarrow> \<not> free_range b len vs"
      using l s(1) by (auto simp: free_range_def)
    then show ?thesis unfolding g None by simp
  next
    case (Some a)
    then show ?thesis using l s(1) unfolding g by auto
  qed
qed

lemma gap_spec:
  assumes "table_wf vs" "4096 dvd hint"
  shows "gap hint len vs = Some a \<Longrightarrow> MMAP_BASE \<le> a \<and> a + len \<le> MMAP_END \<and> free_range a len vs \<and> 4096 dvd a"
    and "gap hint len vs = None \<Longrightarrow> MMAP_BASE \<le> b \<Longrightarrow> b + len \<le> MMAP_END \<Longrightarrow> \<not> free_range b len vs"
proof -
  have al: "4096 dvd a" if "a = max h MMAP_BASE \<or> a \<in> v_end ` set vs" "4096 dvd h" for a h
    using that assms(1) by (auto simp: table_wf_def vma_wf_def max_def MMAP_BASE_def)
  note f = gap_from_spec [OF assms(1), of hint len] gap_from_spec [OF assms(1), of MMAP_BASE len]
  have mb: "4096 dvd MMAP_BASE" by (simp add: MMAP_BASE_def)
  show "MMAP_BASE \<le> a \<and> a + len \<le> MMAP_END \<and> free_range a len vs \<and> 4096 dvd a"
    if "gap hint len vs = Some a"
    using that f al [OF _ assms(2)] al [OF _ mb] by (auto simp: gap_def split: option.splits)
  show "\<not> free_range b len vs" if "gap hint len vs = None" "MMAP_BASE \<le> b" "b + len \<le> MMAP_END"
    using that f(2) by (auto simp: gap_def split: option.splits)
qed

section \<open>Adding an area\<close>

lemma fuse_spec:
  assumes wf: "table_wf (us @ a # b # ws)" and m: "mergeable a b"
  shows "fuse (length us) (us @ a # b # ws) = (us @ a\<lparr>v_end := v_end b\<rparr> # ws, [(v_obj b, - 1)])"
    and "table_wf (us @ a\<lparr>v_end := v_end b\<rparr> # ws)"
    and "view (us @ a\<lparr>v_end := v_end b\<rparr> # ws) x = view (us @ a # b # ws) x"
    and "v_obj a = v_obj b"
proof -
  let ?a = "a\<lparr>v_end := v_end b\<rparr>"
  have ab: "v_end a = v_start b" "vma_wf a" "vma_wf b" "v_obj a = v_obj b" using wf m by (auto simp: mergeable_def)
  show "v_obj a = v_obj b" by (rule ab(4))
  have "(us @ a # b # ws)[length us := ?a] = us @ ?a # b # ws" by simp
  then show "fuse (length us) (us @ a # b # ws) = (us @ ?a # ws, [(v_obj b, - 1)])"
    by (simp add: fuse_def Let_def nth_append remove_at_def)
  show wf': "table_wf (us @ ?a # ws)" using wf ab by (auto simp: before_def vma_wf_def)
  have at: "attr_at ?a x = attr_at a x" by (simp add: attr_at_def)
  have bt: "attr_at b x = attr_at a x" if "v_start b \<le> x"
  proof -
    have "attr_at (tail_of a (v_end a)) x = attr_at a x"
      using that ab by (intro attr_tail) (auto simp: vma_wf_def)
    moreover have "attr_at b x = attr_at (tail_of a (v_end a)) x"
      using m that by (auto simp: mergeable_def attr_at_def tail_of_def)
    ultimately show ?thesis by simp
  qed
  have cov: "covers ?a x \<longleftrightarrow> covers a x \<or> covers b x"
    using ab by (auto simp: covers_def vma_wf_def)
  have bs: "covers b x \<Longrightarrow> attr_at b x = attr_at a x" by (rule bt) (simp add: covers_def)
  show "view (us @ ?a # ws) x = view (us @ a # b # ws) x"
  proof (rule view_eqI)
    fix A
    show "view (us @ ?a # ws) x = Some A \<longleftrightarrow> view (us @ a # b # ws) x = Some A"
      unfolding view_Some [OF wf'] view_Some [OF wf] using cov at bs by auto
  qed
qed

lemma add_vma_spec:
  assumes wf: "table_wf vs" and v: "vma_wf v" and free: "free_range (v_start v) (v_end v - v_start v) vs"
  shows "table_wf (fst (add_vma v vs))"
    and "view (fst (add_vma v vs)) x = (if covers v x then Some (attr_at v x) else view vs x)"
    and "length (fst (add_vma v vs)) \<le> length vs + 1"
    and "int (uses ob (fst (add_vma v vs))) =
      int (uses ob vs) + (if v_obj v = ob then 1 else 0) + net ob (snd (add_vma v vs))"
proof -
  obtain us ws where s: "vs = us @ ws" "lower (v_start v) vs = length us"
    "\<And>u. u \<in> set us \<Longrightarrow> v_end u \<le> v_start v" "\<And>w. w \<in> set ws \<Longrightarrow> v_start v < v_end w"
    by (rule lower_split [OF wf, of "v_start v"]) blast
  have after: "v_end v \<le> v_start w" if "w \<in> set ws" for w
  proof -
    have "v_start v < v_end v" "w \<in> set vs" using v s(1) that by (auto simp: vma_wf_def)
    then show ?thesis using bspec [OF free [unfolded free_range_def], of w] s(4) [OF that] by simp
  qed
  let ?vs1 = "us @ v # ws"
  have ins: "insert_at (lower (v_start v) vs) v vs = ?vs1" by (simp add: insert_at_def s(2)) (simp add: s(1))
  have wf1: "table_wf ?vs1" using wf s(1,3) after v by (auto simp: before_def)
  have view1: "view ?vs1 x = (if covers v x then Some (attr_at v x) else view vs x)"
  proof (rule view_eqI)
    fix A
    have "\<not> covers u x" if "covers v x" "u \<in> set vs" for u
      using table_unique [OF wf1, of v u x] that s(1) wf1 v
      by (auto simp: before_def covers_def)
    then show "view ?vs1 x = Some A \<longleftrightarrow> (if covers v x then Some (attr_at v x) else view vs x) = Some A"
      unfolding view_Some [OF wf1] using view_Some [OF wf, of x A] s(1) by auto
  qed
  obtain vs2 i cs us2 c ws2 where st2: "(if 0 < length us \<and> mergeable (?vs1 ! (length us - 1)) (?vs1 ! length us)
             then let (vs, cs) = fuse (length us - 1) ?vs1 in (length us - 1, vs, cs) else (length us, ?vs1, [])) =
      (i, vs2, cs)"
    and p2: "vs2 = us2 @ c # ws2" "i = length us2" "table_wf vs2" "view vs2 x = view ?vs1 x"
      "length vs2 \<le> length ?vs1" "int (uses ob vs2) = int (uses ob ?vs1) + net ob cs"
  proof (cases "0 < length us \<and> mergeable (?vs1 ! (length us - 1)) (?vs1 ! length us)")
    case True
    then obtain us' u where us: "us = us' @ [u]" by (cases us rule: rev_cases) auto
    have m: "mergeable u v" using True by (simp add: us nth_append)
    have wfu: "table_wf (us' @ u # v # ws)" using wf1 us by simp
    note f = fuse_spec [OF wfu m]
    have "fuse (length us - 1) ?vs1 = (us' @ u\<lparr>v_end := v_end v\<rparr> # ws, [(v_obj v, - 1)])"
      using f(1) by (simp add: us)
    then show ?thesis using True f(2-4) us
      by (intro that [of "length us'" "us' @ u\<lparr>v_end := v_end v\<rparr> # ws" "[(v_obj v, - 1)]"]) auto
  next
    case False
    then show ?thesis using wf1 by (intro that [of "length us" ?vs1 "[]" us v ws]) auto
  qed
  obtain vs3 cs' where st3: "(if i + 1 < length vs2 \<and> mergeable (vs2 ! i) (vs2 ! (i + 1)) then fuse i vs2 else (vs2, [])) =
      (vs3, cs')"
    and p3: "table_wf vs3" "view vs3 x = view vs2 x" "length vs3 \<le> length vs2"
      "int (uses ob vs3) = int (uses ob vs2) + net ob cs'"
  proof (cases "i + 1 < length vs2 \<and> mergeable (vs2 ! i) (vs2 ! (i + 1))")
    case True
    then obtain w ws' where ws: "ws2 = w # ws'" using p2(1,2) by (cases ws2) auto
    have m: "mergeable c w" using True p2(1,2) ws by (simp add: nth_append)
    have wfu: "table_wf (us2 @ c # w # ws')" using p2(1,3) ws by simp
    note f = fuse_spec [OF wfu m]
    have "fuse i vs2 = (us2 @ c\<lparr>v_end := v_end w\<rparr> # ws', [(v_obj w, - 1)])"
      using f(1) p2(1,2) ws by simp
    then show ?thesis using True f(2-4) p2(1) ws
      by (intro that [of "us2 @ c\<lparr>v_end := v_end w\<rparr> # ws'" "[(v_obj w, - 1)]"]) auto
  next
    case False
    then show ?thesis using p2 by (intro that [of vs2 "[]"]) auto
  qed
  have eq: "add_vma v vs = (vs3, cs @ cs')"
    by (simp only: add_vma_def Let_def s(2) ins [unfolded s(2)] st2 [unfolded Let_def] st3 prod.case)
  show "table_wf (fst (add_vma v vs))"
    "view (fst (add_vma v vs)) x = (if covers v x then Some (attr_at v x) else view vs x)"
    "length (fst (add_vma v vs)) \<le> length vs + 1"
    "int (uses ob (fst (add_vma v vs))) =
      int (uses ob vs) + (if v_obj v = ob then 1 else 0) + net ob (snd (add_vma v vs))"
    unfolding eq fst_conv snd_conv using p2 p3 view1 s(1) by simp_all
qed

end
