(* ===== verification/Vm.thy ===== *)
theory Vm
  imports Vmas Mmu Shm
begin

text \<open>
  The virtual memory calls (\<open>kernel/src/vm.rs\<close>): mmap, munmap, mprotect, mremap, madvise, the
  page fault, fork and exit of an address space. The state joins the area tables of all
  processes with the page tables, the shared-memory objects, the frame allocator and the
  physical memory; \<open>cur\<close> is the result of \<open>process::current_space\<close> (leader slot and root table),
  and the ext2 reads of a file fault are the argument \<open>rd\<close>. TLB flushes have no effect here.
\<close>

section \<open>State\<close>

definition MAX_PROCS :: nat where "MAX_PROCS = 256"
definition VMA_SIZE :: nat where "VMA_SIZE = 40"
definition FIRST_PAGES :: nat where "FIRST_PAGES = 4"
definition MAX_PAGES :: nat where "MAX_PAGES = 256"

record space =
  sp_table :: nat
  sp_pages :: nat
  sp_vmas :: "vma list"
  sp_hint :: nat

definition space_empty :: space where
  "space_empty = \<lparr>sp_table = 0, sp_pages = 0, sp_vmas = [], sp_hint = MMAP_BASE\<rparr>"

record vm =
  vspaces :: "space list"
  vpts :: "nat \<Rightarrow> nat \<Rightarrow> u64"
  vkroot :: nat
  vfa :: frames
  vobjs :: "shm_obj list"
  vmem :: mem

definition mmu_view :: "vm \<Rightarrow> mmu" where
  "mmu_view st = \<lparr>pts = vpts st, mfa = vfa st, kroot = vkroot st\<rparr>"

definition set_mmu :: "mmu \<Rightarrow> vm \<Rightarrow> vm" where
  "set_mmu m st = st\<lparr>vpts := pts m, vfa := mfa m\<rparr>"

definition shm_view :: "vm \<Rightarrow> shm" where
  "shm_view st = \<lparr>objs = vobjs st, sfa = vfa st, smem = vmem st\<rparr>"

definition set_shm :: "shm \<Rightarrow> vm \<Rightarrow> vm" where
  "set_shm s st = st\<lparr>vobjs := objs s, vfa := sfa s, vmem := smem s\<rparr>"

definition with_mmu :: "(mmu \<Rightarrow> 'a \<times> mmu) \<Rightarrow> vm \<Rightarrow> 'a \<times> vm" where
  "with_mmu f st = (let (r, m) = f (mmu_view st) in (r, set_mmu m st))"

definition with_shm :: "(shm \<Rightarrow> 'a \<times> shm) \<Rightarrow> vm \<Rightarrow> 'a \<times> vm" where
  "with_shm f st = (let (r, s) = f (shm_view st) in (r, set_shm s st))"

definition space_of :: "vm \<Rightarrow> nat \<Rightarrow> space" where "space_of st l = vspaces st ! l"

definition put_space :: "nat \<Rightarrow> space \<Rightarrow> vm \<Rightarrow> vm" where
  "put_space l sp st = st\<lparr>vspaces := (vspaces st)[l := sp]\<rparr>"

abbreviation areas :: "vm \<Rightarrow> nat \<Rightarrow> vma list" where "areas st l \<equiv> sp_vmas (space_of st l)"

text \<open>\<open>obj_ref\<close>, for a list of changes.\<close>

definition obj_ref :: "obj_change \<Rightarrow> vm \<Rightarrow> vm" where
  "obj_ref c st = (if fst c \<noteq> 0 then set_shm (map_ref (fst c) (snd c) (shm_view st)) st else st)"

definition obj_refs :: "obj_change list \<Rightarrow> vm \<Rightarrow> vm" where
  "obj_refs cs st = fold obj_ref cs st"

text \<open>An operation on the vector of a space, with its changes to the objects.\<close>

definition on_areas :: "nat \<Rightarrow> (vma list \<Rightarrow> vma list \<times> obj_change list) \<Rightarrow> vm \<Rightarrow> vm" where
  "on_areas l f st =
     (let (vs, cs) = f (areas st l)
      in obj_refs cs (put_space l ((space_of st l)\<lparr>sp_vmas := vs\<rparr>) st))"

section \<open>The vector's memory\<close>

definition cap :: "space \<Rightarrow> nat" where "cap sp = sp_pages sp * 4096 div VMA_SIZE"

definition reserve :: "nat \<Rightarrow> nat \<Rightarrow> vm \<Rightarrow> bool \<times> vm" where
  "reserve l extra st =
     (let sp = space_of st l in
      if length (sp_vmas sp) + extra \<le> cap sp then (True, st)
      else
        let pages = (if sp_pages sp = 0 then FIRST_PAGES else sp_pages sp * 2) in
        if MAX_PAGES < pages then (False, st)
        else case alloc_contig pages (vfa st) of
               None \<Rightarrow> (False, st)
             | Some (t, fa) \<Rightarrow>
                 let fa = (if sp_table sp \<noteq> 0 then free_contig (sp_table sp) (sp_pages sp) fa else fa)
                 in (True, put_space l (sp\<lparr>sp_table := t, sp_pages := pages\<rparr>) (st\<lparr>vfa := fa\<rparr>)))"

section \<open>The calls\<close>

definition page_up :: "nat \<Rightarrow> nat option" where
  "page_up x = map_option page_down (checked_add x 4095)"

definition MAP_FIXED :: u64 where "MAP_FIXED = bit1 8"
definition MAP_NOREPLACE :: u64 where "MAP_NOREPLACE = bit1 9"

type_synonym cur_space = "(nat \<times> nat) option"

definition mmap_fixed ::
  "nat \<Rightarrow> nat \<Rightarrow> nat \<Rightarrow> nat \<Rightarrow> u64 \<Rightarrow> vm \<Rightarrow> (errno + nat) \<times> vm" where
  "mmap_fixed l root addr len flags st =
     (if addr mod 4096 \<noteq> 0 then (Inl EINVAL, st)
      else case checked_add addr len of
        None \<Rightarrow> (Inl ENOMEM, st)
      | Some stop \<Rightarrow>
          if addr < MMAP_BASE \<or> MMAP_END < stop then (Inl ENOMEM, st)
          else if overlaps addr stop (areas st l) then
            if flags AND MAP_NOREPLACE \<noteq> 0 then (Inl EEXIST, st)
            else
              let st = on_areas l (carve addr stop) st;
                  (n, st) = with_mmu (\<lambda>m. prod.swap (unmap_range root addr stop m)) st
              in (Inr addr, st)
          else (Inr addr, st))"

definition mmap_any :: "nat \<Rightarrow> nat \<Rightarrow> nat \<Rightarrow> vm \<Rightarrow> (errno + nat) \<times> vm" where
  "mmap_any l addr len st =
     (let hinted = page_down addr;
          free_hint = (MMAP_BASE \<le> hinted \<and>
            (case checked_add hinted len of None \<Rightarrow> False | Some e \<Rightarrow> e \<le> MMAP_END) \<and>
            \<not> overlaps hinted (hinted + len) (areas st l))
      in if free_hint then (Inr hinted, st)
         else case gap (sp_hint (space_of st l)) len (areas st l) of
                None \<Rightarrow> (Inl ENOMEM, st)
              | Some a \<Rightarrow> (Inr a, put_space l ((space_of st l)\<lparr>sp_hint := a + len\<rparr>) st))"

definition mmap_full ::
  "cur_space \<Rightarrow> nat \<Rightarrow> nat \<Rightarrow> u64 \<Rightarrow> u64 \<Rightarrow> nat \<Rightarrow> nat \<Rightarrow> nat \<Rightarrow> vm \<Rightarrow> (errno + nat) \<times> vm" where
  "mmap_full cur addr len prot flags ob ino pgoff st =
     (case page_up len of
        None \<Rightarrow> (Inl ENOMEM, st)
      | Some len \<Rightarrow>
          if len = 0 \<or> prot AND NOT 7 \<noteq> 0 then (Inl EINVAL, st)
          else case cur of
            None \<Rightarrow> (Inl EINVAL, st)
          | Some (l, root) \<Rightarrow>
              (case reserve l 2 st of
                 (False, st) \<Rightarrow> (Inl ENOMEM, st)
               | (True, st) \<Rightarrow>
                   (case (if flags AND MAP_FIXED \<noteq> 0 then mmap_fixed l root addr len flags st
                          else mmap_any l addr len st) of
                      (Inl e, st) \<Rightarrow> (Inl e, st)
                    | (Inr start, st) \<Rightarrow>
                        (Inr start,
                         on_areas l (add_vma \<lparr>v_start = start, v_end = start + len, v_prot = prot,
                             v_obj = ob, v_ino = ino, v_pgoff = pgoff\<rparr>) (obj_ref (ob, 1) st)))))"

definition mmap :: "cur_space \<Rightarrow> nat \<Rightarrow> nat \<Rightarrow> u64 \<Rightarrow> u64 \<Rightarrow> vm \<Rightarrow> (errno + nat) \<times> vm" where
  "mmap cur addr len prot flags = mmap_full cur addr len prot flags 0 0 0"

definition mmap_obj :: "cur_space \<Rightarrow> nat \<Rightarrow> nat \<Rightarrow> u64 \<Rightarrow> u64 \<Rightarrow> nat \<Rightarrow> nat \<Rightarrow> vm \<Rightarrow> (errno + nat) \<times> vm" where
  "mmap_obj cur addr len prot flags ob pgoff = mmap_full cur addr len prot flags ob 0 pgoff"

definition mmap_file :: "cur_space \<Rightarrow> nat \<Rightarrow> nat \<Rightarrow> u64 \<Rightarrow> u64 \<Rightarrow> nat \<Rightarrow> nat \<Rightarrow> vm \<Rightarrow> (errno + nat) \<times> vm" where
  "mmap_file cur addr len prot flags ino pgoff = mmap_full cur addr len prot flags 0 ino pgoff"

definition munmap :: "cur_space \<Rightarrow> nat \<Rightarrow> nat \<Rightarrow> vm \<Rightarrow> (errno + unit) \<times> vm" where
  "munmap cur addr len st =
     (if addr mod 4096 \<noteq> 0 then (Inl EINVAL, st)
      else case page_up len of
        None \<Rightarrow> (Inl EINVAL, st)
      | Some len \<Rightarrow>
          (case checked_add addr len of
             None \<Rightarrow> (Inl EINVAL, st)
           | Some stop \<Rightarrow>
               if len = 0 \<or> addr < MMAP_BASE \<or> MMAP_END < stop then (Inl EINVAL, st)
               else case cur of
                 None \<Rightarrow> (Inl EINVAL, st)
               | Some (l, root) \<Rightarrow>
                   (case reserve l 1 st of
                      (False, st) \<Rightarrow> (Inl ENOMEM, st)
                    | (True, st) \<Rightarrow>
                        (Inr (), snd (with_mmu (\<lambda>m. prod.swap (unmap_range root addr stop m))
                           (on_areas l (carve addr stop) st))))))"

definition mprotect :: "cur_space \<Rightarrow> nat \<Rightarrow> nat \<Rightarrow> u64 \<Rightarrow> vm \<Rightarrow> (errno + unit) \<times> vm" where
  "mprotect cur addr len prot st =
     (if addr mod 4096 \<noteq> 0 \<or> prot AND NOT 7 \<noteq> 0 then (Inl EINVAL, st)
      else case page_up len of
        None \<Rightarrow> (Inl ENOMEM, st)
      | Some len \<Rightarrow>
          (case checked_add addr len of
             None \<Rightarrow> (Inl ENOMEM, st)
           | Some stop \<Rightarrow>
               if len = 0 then (Inr (), st)
               else case cur of
                 None \<Rightarrow> (Inl EINVAL, st)
               | Some (l, root) \<Rightarrow>
                   if \<not> covered addr stop (areas st l) then (Inl ENOMEM, st)
                   else case reserve l 2 st of
                     (False, st) \<Rightarrow> (Inl ENOMEM, st)
                   | (True, st) \<Rightarrow>
                       let st = on_areas l (split_at addr) st;
                           st = on_areas l (split_at stop) st;
                           st = on_areas l (\<lambda>vs. (set_prot_loop stop prot (lower addr vs) vs, [])) st
                       in (Inr (), snd (with_mmu
                            (\<lambda>m. prod.swap (protect_range root addr stop (user_prot prot) m)) st))))"

definition MREMAP_MAYMOVE :: u64 where "MREMAP_MAYMOVE = 1"

text \<open>The growing part of \<open>mremap\<close>: in place or to a new range.\<close>

definition mremap_grow :: "nat \<Rightarrow> nat \<Rightarrow> nat \<Rightarrow> nat \<Rightarrow> nat \<Rightarrow> u64 \<Rightarrow> u64 \<Rightarrow> vm \<Rightarrow> (errno + nat) \<times> vm" where
  "mremap_grow l root old_addr old_end n prot flags st =
    (let new_end = saturating_add old_addr n in
     if new_end \<le> MMAP_END \<and> \<not> overlaps old_end new_end (areas st l)
     then (Inr old_addr, on_areas l (add_vma (anon old_end new_end prot)) st)
     else if flags AND MREMAP_MAYMOVE = 0 then (Inl ENOMEM, st)
     else case gap (sp_hint (space_of st l)) n (areas st l) of
       None \<Rightarrow> (Inl ENOMEM, st)
     | Some na \<Rightarrow>
         let st = put_space l ((space_of st l)\<lparr>sp_hint := na + n\<rparr>) st;
             st = on_areas l (carve old_addr old_end) st;
             st = on_areas l (add_vma (anon na (na + n) prot)) st
         in (Inr na, snd (with_mmu (\<lambda>m. prod.swap (move_range root old_addr old_end na m)) st)))"

definition mremap :: "cur_space \<Rightarrow> nat \<Rightarrow> nat \<Rightarrow> nat \<Rightarrow> u64 \<Rightarrow> vm \<Rightarrow> (errno + nat) \<times> vm" where
  "mremap cur old_addr old_len new_len flags st =
     (if old_addr mod 4096 \<noteq> 0 \<or> old_addr < MMAP_BASE \<or> old_len = 0 \<or> new_len = 0 \<or>
         flags AND NOT MREMAP_MAYMOVE \<noteq> 0 then (Inl EINVAL, st)
      else case page_up old_len of
        None \<Rightarrow> (Inl ENOMEM, st)
      | Some old_len \<Rightarrow>
          (case page_up new_len of
             None \<Rightarrow> (Inl ENOMEM, st)
           | Some new_len \<Rightarrow>
               (case checked_add old_addr old_len of
                  None \<Rightarrow> (Inl EINVAL, st)
                | Some old_end \<Rightarrow>
                    if MMAP_END < old_end then (Inl EINVAL, st)
                    else if new_len = old_len then (Inr old_addr, st)
                    else if new_len < old_len then
                      (case munmap cur (old_addr + new_len) (old_len - new_len) st of
                         (Inl e, st) \<Rightarrow> (Inl e, st)
                       | (Inr _, st) \<Rightarrow> (Inr old_addr, st))
                    else case cur of
                      None \<Rightarrow> (Inl EINVAL, st)
                    | Some (l, root) \<Rightarrow>
                        (case find_vma old_addr (areas st l) of
                           None \<Rightarrow> (Inl EINVAL, st)
                         | Some v \<Rightarrow>
                             if old_addr < v_start v \<or> v_end v < old_end \<or> v_obj v \<noteq> 0 \<or> v_ino v \<noteq> 0
                             then (Inl ENOMEM, st)
                             else case reserve l 2 st of
                               (False, st) \<Rightarrow> (Inl ENOMEM, st)
                             | (True, st) \<Rightarrow>
                                 mremap_grow l root old_addr old_end new_len (v_prot v) flags st))))"

definition discard :: "cur_space \<Rightarrow> nat \<Rightarrow> nat \<Rightarrow> vm \<Rightarrow> (errno + unit) \<times> vm" where
  "discard cur addr len st =
     (if addr mod 4096 \<noteq> 0 then (Inl EINVAL, st)
      else case page_up len of
        None \<Rightarrow> (Inl EINVAL, st)
      | Some len \<Rightarrow>
          let start = max addr MMAP_BASE; stop = min (saturating_add addr len) MMAP_END in
          if stop \<le> start then (Inr (), st)
          else case cur of
            None \<Rightarrow> (Inl EINVAL, st)
          | Some (l, root) \<Rightarrow>
              (Inr (), snd (with_mmu (\<lambda>m. prod.swap (unmap_range root start stop m)) st)))"

definition add_region :: "nat \<Rightarrow> nat \<Rightarrow> nat \<Rightarrow> u64 \<Rightarrow> vm \<Rightarrow> bool \<times> vm" where
  "add_region l start stop prot st =
     (case reserve l 1 st of
        (False, st) \<Rightarrow> (False, st)
      | (True, st) \<Rightarrow>
          if overlaps start stop (areas st l) then (False, st)
          else (True, on_areas l (add_vma (anon start stop prot)) st))"

definition add_region_over :: "nat \<Rightarrow> nat \<Rightarrow> nat \<Rightarrow> u64 \<Rightarrow> vm \<Rightarrow> vm" where
  "add_region_over l start stop prot st =
     (if stop \<le> start then st
      else case reserve l 2 st of
        (False, st) \<Rightarrow> st
      | (True, st) \<Rightarrow> on_areas l (add_vma (anon start stop prot)) (on_areas l (carve start stop) st))"

definition clone_space :: "nat \<Rightarrow> nat \<Rightarrow> vm \<Rightarrow> vm" where
  "clone_space src dst st =
     (let s = space_of st src;
          st = put_space dst (space_empty\<lparr>sp_hint := sp_hint s\<rparr>) st
      in if sp_table s = 0 \<or> sp_vmas s = [] then st
         else case alloc_contig (sp_pages s) (vfa st) of
                None \<Rightarrow> st
              | Some (t, fa) \<Rightarrow>
                  obj_refs (map (\<lambda>v. (v_obj v, 1)) (sp_vmas s))
                    (put_space dst \<lparr>sp_table = t, sp_pages = sp_pages s, sp_vmas = sp_vmas s,
                       sp_hint = sp_hint s\<rparr> (st\<lparr>vfa := fa\<rparr>)))"

definition release_space :: "nat \<Rightarrow> vm \<Rightarrow> vm" where
  "release_space l st =
     (let st = obj_refs (map (\<lambda>v. (v_obj v, - 1)) (areas st l)) st;
          sp = space_of st l;
          st = (if sp_table sp \<noteq> 0 then st\<lparr>vfa := free_contig (sp_table sp) (sp_pages sp) (vfa st)\<rparr> else st)
      in put_space l space_empty st)"

definition is_mapped_ino :: "nat \<Rightarrow> vm \<Rightarrow> bool" where
  "is_mapped_ino ino st =
     (if ino = 0 then False
      else list_ex (\<lambda>l. sp_table (space_of st l) \<noteq> 0 \<and>
             list_ex (\<lambda>v. v_ino v = ino) (areas st l)) [0..<MAX_PROCS])"

section \<open>Page faults\<close>

datatype access = Read | Write | Exec

definition PROT_READ :: u64 where "PROT_READ = 1"
definition PROT_WRITE :: u64 where "PROT_WRITE = 2"
definition PROT_EXEC :: u64 where "PROT_EXEC = 4"

fun access_ok :: "access \<Rightarrow> u64 \<Rightarrow> bool" where
  "access_ok Read prot \<longleftrightarrow> prot AND (PROT_READ OR PROT_WRITE OR PROT_EXEC) \<noteq> 0"
| "access_ok Write prot \<longleftrightarrow> prot AND PROT_WRITE \<noteq> 0"
| "access_ok Exec prot \<longleftrightarrow> prot AND PROT_EXEC \<noteq> 0"

text \<open>The part under the VM lock: it is over, or the pages of a file are to be read.\<close>

datatype fault_step = Done bool | Load vma nat

definition zero_frame :: "nat \<Rightarrow> vm \<Rightarrow> vm" where
  "zero_frame f st = st\<lparr>vmem := mem_write (vmem st) f (replicate 4096 0)\<rparr>"

definition drop_frame :: "nat \<Rightarrow> vm \<Rightarrow> vm" where
  "drop_frame f st = st\<lparr>vfa := free_frame f (vfa st)\<rparr>"

definition map_frame :: "nat \<Rightarrow> nat \<Rightarrow> nat \<Rightarrow> u64 \<Rightarrow> vm \<Rightarrow> bool \<times> vm" where
  "map_frame root va f flags = with_mmu (map_page root va f flags)"

text \<open>A write to a page whose frame other spaces use too: copy it, map the copy, drop the frame.\<close>

definition copy_on_write :: "nat \<Rightarrow> nat \<Rightarrow> nat \<Rightarrow> u64 \<Rightarrow> vm \<Rightarrow> bool \<times> vm" where
  "copy_on_write root pg frame_pa flags st =
     (case alloc_frame (vfa st) of
        None \<Rightarrow> (False, st)
      | Some (new_f, fa) \<Rightarrow>
          let st = st\<lparr>vfa := fa, vmem := mem_write (vmem st) new_f (mem_read (vmem st) frame_pa 4096)\<rparr>
          in case map_frame root pg new_f flags st of
               (False, st) \<Rightarrow> (False, drop_frame new_f st)
             | (True, st) \<Rightarrow> (True, drop_frame frame_pa st))"

definition fault_mapped :: "nat \<Rightarrow> nat \<Rightarrow> access \<Rightarrow> u64 \<Rightarrow> vm \<Rightarrow> bool \<times> vm" where
  "fault_mapped root pg acc prot st =
     (let flags = user_prot prot;
          protect = (True, snd (with_mmu (\<lambda>m. prod.swap (protect_range root pg (pg + 4096) flags m)) st))
      in if acc = Write \<and> prot AND PROT_WRITE \<noteq> 0 then
           case translate_user (mmu_view st) root pg False of
             Some pa \<Rightarrow>
               let frame_pa = page_down pa in
               if 1 < ref_count (vfa st) frame_pa then copy_on_write root pg frame_pa flags st else protect
           | None \<Rightarrow> protect
         else protect)"

definition fault_object :: "nat \<Rightarrow> nat \<Rightarrow> vma \<Rightarrow> vm \<Rightarrow> bool \<times> vm" where
  "fault_object root pg v st =
     (let opg = v_pgoff v + (pg - v_start v) div 4096 in
      case with_shm (page (v_obj v) opg True) st of
        (None, st) \<Rightarrow> (False, st)
      | (Some frame, st) \<Rightarrow> map_frame root pg frame (shared_flags (user_prot (v_prot v))) st)"

definition fault_anon :: "nat \<Rightarrow> nat \<Rightarrow> vma \<Rightarrow> vm \<Rightarrow> bool \<times> vm" where
  "fault_anon root pg v st =
     (case alloc_frame (vfa st) of
        None \<Rightarrow> (False, st)
      | Some (frame, fa) \<Rightarrow>
          (case map_frame root pg frame (user_prot (v_prot v)) (zero_frame frame (st\<lparr>vfa := fa\<rparr>)) of
             (False, st) \<Rightarrow> (False, drop_frame frame st)
           | (True, st) \<Rightarrow> (True, st)))"

text \<open>Fault-around: how many of the next pages are not mapped yet.\<close>

function around :: "nat \<Rightarrow> nat \<Rightarrow> nat \<Rightarrow> nat \<Rightarrow> mmu \<Rightarrow> nat" where
  "around root pg n max_n m =
     (if n < max_n \<and> \<not> is_mapped root (pg + n * 4096) m then around root pg (n + 1) max_n m else n)"
  by pat_completeness auto
termination by (relation "measure (\<lambda>(root, pg, n, max_n, m). max_n - n)") auto

declare around.simps [simp del]

definition fault_locked :: "nat \<Rightarrow> nat \<Rightarrow> nat \<Rightarrow> access \<Rightarrow> vm \<Rightarrow> fault_step \<times> vm" where
  "fault_locked l root addr acc st =
     (let pg = page_down addr in
      case find_vma addr (areas st l) of
        None \<Rightarrow> (Done False, st)
      | Some v \<Rightarrow>
          if \<not> access_ok acc (v_prot v) then (Done False, st)
          else if is_mapped root pg (mmu_view st) then
            map_prod Done (\<lambda>st. st) (fault_mapped root pg acc (v_prot v) st)
          else if v_obj v \<noteq> 0 then map_prod Done (\<lambda>st. st) (fault_object root pg v st)
          else if pg < MMAP_BASE \<or> MMAP_END \<le> pg then (Done False, st)
          else if v_ino v = 0 then map_prod Done (\<lambda>st. st) (fault_anon root pg v st)
          else (Load v (around root pg 1 (min ((v_end v - pg) div 4096) 8) (mmu_view st)), st))"

text \<open>The file part: frames are taken and filled outside the lock, then mapped under it again.\<close>

fun alloc_zeroed :: "nat \<Rightarrow> vm \<Rightarrow> nat list \<times> vm" where
  "alloc_zeroed 0 st = ([], st)"
| "alloc_zeroed (Suc n) st =
     (case alloc_frame (vfa st) of
        None \<Rightarrow> ([], st)
      | Some (f, fa) \<Rightarrow>
          let (fs, st) = alloc_zeroed n (zero_frame f (st\<lparr>vfa := fa\<rparr>)) in (f # fs, st))"

type_synonym ino_read = "nat \<Rightarrow> nat \<Rightarrow> errno + u8 list"

fun read_ino_pages :: "ino_read \<Rightarrow> nat \<Rightarrow> nat \<Rightarrow> nat list \<Rightarrow> vm \<Rightarrow> bool \<times> vm" where
  "read_ino_pages rd ino off [] st = (True, st)"
| "read_ino_pages rd ino off (f # fs) st =
     (case rd ino off of
        Inl e \<Rightarrow> (False, st)
      | Inr bs \<Rightarrow> read_ino_pages rd ino (off + 4096) fs (st\<lparr>vmem := mem_write (vmem st) f (take 4096 bs)\<rparr>))"

definition drop_frames :: "nat list \<Rightarrow> vm \<Rightarrow> vm" where
  "drop_frames fs st = fold drop_frame fs st"

fun install_pages :: "nat \<Rightarrow> nat \<Rightarrow> vma \<Rightarrow> vma \<Rightarrow> nat \<Rightarrow> nat list \<Rightarrow> vm \<Rightarrow> bool \<times> vm" where
  "install_pages root pg v cur_v i [] st = (True, st)"
| "install_pages root pg v cur_v i (f # fs) st =
     (let pva = pg + i * 4096; flags = user_prot (v_prot cur_v) in
      if pva < v_end cur_v \<and> v_ino cur_v = v_ino v \<and> \<not> is_mapped root pva (mmu_view st) then
        case map_frame root pva f flags st of
          (True, st) \<Rightarrow> install_pages root pg v cur_v (i + 1) fs st
        | (False, st) \<Rightarrow>
            let st = drop_frame f st in
            if i = 0 then (False, st) else install_pages root pg v cur_v (i + 1) fs st
      else
        let st = drop_frame f st;
            st = (if i = 0 then snd (with_mmu (\<lambda>m. prod.swap (protect_range root pg (pg + 4096) flags m)) st)
                  else st)
        in install_pages root pg v cur_v (i + 1) fs st)"

definition fault_load :: "nat \<Rightarrow> ino_read \<Rightarrow> vma \<Rightarrow> nat \<Rightarrow> vm \<Rightarrow> nat list option \<times> vm" where
  "fault_load pg rd v n st =
     (let (fs, st) = alloc_zeroed n st in
      if fs = [] then (None, st)
      else
        let base_off = (v_pgoff v + (pg - v_start v) div 4096) * 4096 in
        case read_ino_pages rd (v_ino v) base_off fs st of
          (False, st) \<Rightarrow> (None, drop_frames fs st)
        | (True, st) \<Rightarrow> (Some fs, st))"

definition fault_install :: "nat \<Rightarrow> nat \<Rightarrow> nat \<Rightarrow> vma \<Rightarrow> nat list \<Rightarrow> vm \<Rightarrow> bool \<times> vm" where
  "fault_install l root addr v fs st =
     (case find_vma addr (areas st l) of
        None \<Rightarrow> (False, drop_frames fs st)
      | Some cur_v \<Rightarrow> install_pages root (page_down addr) v cur_v 0 fs st)"

definition fault :: "ino_read \<Rightarrow> cur_space \<Rightarrow> nat \<Rightarrow> access \<Rightarrow> vm \<Rightarrow> bool \<times> vm" where
  "fault rd cur addr acc st =
     (case cur of
        None \<Rightarrow> (False, st)
      | Some (l, root) \<Rightarrow>
          (case fault_locked l root addr acc st of
             (Done b, st) \<Rightarrow> (b, st)
           | (Load v n, st) \<Rightarrow>
               (case fault_load (page_down addr) rd v n st of
                  (None, st) \<Rightarrow> (False, st)
                | (Some fs, st) \<Rightarrow> fault_install l root addr v fs st)))"

end
