(* ===== verification/Vm_Pages.thy ===== *)
theory Vm_Pages
  imports Vm
begin

text \<open>
  What the range operations of the page tables do to the flat view, for any state of the frame allocator: the calls
  of \<open>Vm\<close> release frames (of the shared objects whose last mapping goes) between looking at the page tables and
  changing them.
\<close>

lemma entry_pts: "pts m = pts m' \<Longrightarrow> entry m t i = entry m' t i"
  by (simp add: entry_def)

text \<open>A walk changes the tables by the tables alone.\<close>

lemma walk_leaves_pts:
  assumes fg: "\<And>s s' va t i. pts (fst s) = pts (fst s') \<Longrightarrow> pts (fst (f va t i s)) = pts (fst (g va t i s'))"
    and s: "pts (fst s) = pts (fst s')"
  shows "pts (fst (walk_leaves f root va stop s)) = pts (fst (walk_leaves g root va stop s'))"
  using s
proof (induction "stop - va" arbitrary: va s s' rule: less_induct)
  case less
  note e = entry_pts [OF less.prems]
  show ?case
  proof (cases "va < stop")
    case True
    have "stop - next_at va 30 < stop - va" "stop - next_at va 21 < stop - va" "stop - (va + 4096) < stop - va"
      using True next_at_gt [of va 30] next_at_gt [of va 21] by auto
    note IH = this [THEN less.hyps]
    show ?thesis
      using True IH(1,2) [OF less.prems] IH(3) [OF fg [OF less.prems]]
      by (simp add: walk_leaves.simps [of f root va] walk_leaves.simps [of g root va] Let_def e)
  qed (use less.prems in \<open>simp add: walk_leaves_stop\<close>)
qed

definition clear_entry :: "u64 \<Rightarrow> u64" where "clear_entry e = (if valid e then 0 else e)"

text \<open>\<open>unmap_leaf\<close> without the release of the frame.\<close>

definition clear_leaf :: "nat \<Rightarrow> nat \<Rightarrow> nat \<Rightarrow> mmu \<times> nat \<Rightarrow> mmu \<times> nat" where
  "clear_leaf va t i s = (set_entry t i (clear_entry (entry (fst s) t i)) (fst s), snd s)"

lemma pts_set_entry_cong: "pts m = pts m' \<Longrightarrow> pts (set_entry t i v m) = pts (set_entry t i v m')"
  by (simp add: set_entry_def)

lemma unmap_clear:
  assumes "pts (fst s) = pts (fst s')"
  shows "pts (fst (unmap_leaf va t i s)) = pts (fst (clear_leaf va t i s'))"
proof -
  obtain m n where s: "s = (m, n)" by force
  have e: "entry (fst s') t i = entry m t i" using entry_pts [OF assms] s by simp
  have k: "pts (mmu_free a x) = pts x" for a x by (simp add: mmu_free_def)
  show ?thesis
  proof (cases "valid (entry m t i)")
    case True
    then show ?thesis using pts_set_entry_cong [OF assms] e by (simp add: s unmap_leaf.simps clear_leaf_def clear_entry_def Let_def k)
  next
    case False
    have "pts (set_entry t i (entry m t i) (fst s')) = pts (fst s')" by (rule pts_set_same) (simp add: e [symmetric, unfolded entry_def] entry_def assms [unfolded s, simplified])
    then show ?thesis using False e assms by (simp add: s unmap_leaf.simps clear_leaf_def clear_entry_def)
  qed
qed

lemma protect_leaf_pts:
  assumes "pts (fst s) = pts (fst s')"
  shows "pts (fst (protect_leaf flags va t i s)) = pts (fst (protect_leaf flags va t i s'))"
proof -
  obtain m n m' n' where s: "s = (m, n)" "s' = (m', n')" by (cases s; cases s')
  have "pts m = pts m'" using assms s by simp
  then show ?thesis using entry_pts [of m m' t i] pts_set_entry_cong [of m m'] by (simp add: s protect_leaf.simps Let_def)
qed

lemma clear_range_flat:
  assumes wf: "Mmu.space_wf m root" and m': "m' = fst (leaves clear_leaf root start stop (m, 0))"
  shows "Mmu.space_wf m' root" "same_outside m m' root"
    and "x < 2 ^ 38 \<Longrightarrow> page_entry m' root x =
      (if in_range start stop x then clear_entry (page_entry m root x) else page_entry m root x)"
proof -
  let ?P = "\<lambda>s :: mmu \<times> nat. Mmu.space_wf (fst s) root \<and> same_outside m (fst s) root"
  have step: "?P (clear_leaf va l0 (vpn va 0) s) \<and>
      pts (fst (clear_leaf va l0 (vpn va 0) s)) =
        pts (set_entry l0 (vpn va 0) (clear_entry (page_entry (fst s) root va)) (fst s))"
    if P: "?P s" and va: "va < 2 ^ 38" "leaf_table (fst s) root va = Some l0" for s va l0
  proof -
    let ?m = "fst s" and ?s' = "clear_leaf va l0 (vpn va 0) s"
    have e: "page_entry ?m root va = entry ?m l0 (vpn va 0)" using va(2) by (simp add: page_entry_def)
    have w: "fst ?s' = set_entry l0 (vpn va 0) (clear_entry (page_entry ?m root va)) ?m"
      by (simp add: clear_leaf_def e)
    have "Mmu.space_wf (fst ?s') root"
      unfolding w by (rule set_leaf_tables(5) [OF conjunct1 [OF P] leaf_table_mem(1) [OF va(2)]])
    moreover have "same_outside m (fst ?s') root"
      by (rule same_outside_set [OF conjunct2 [OF P] conjunct1 [OF P] va(2)]) (simp_all add: w)
    ultimately show ?thesis by (simp add: w)
  qed
  have "?P (leaves clear_leaf root start stop (m, 0)) \<and>
    (\<forall>x < 2 ^ 38. page_entry (fst (leaves clear_leaf root start stop (m, 0))) root x =
      (if page_down start \<le> page_down x \<and> page_down x < min stop (2 ^ 38)
       then clear_entry (page_entry (fst (m, 0 :: nat)) root x) else page_entry (fst (m, 0 :: nat)) root x))"
    unfolding leaves_def
  proof (rule walk_leaves_spec [where P = ?P and g = clear_entry])
    show "?P (m, 0)" using wf by (simp add: same_outside_def)
    show "clear_entry 0 = 0" by (simp add: clear_entry_def)
    show "4096 dvd page_down start" by (rule page_down_simps(3))
  qed (use step in simp_all)
  then show "Mmu.space_wf m' root" "same_outside m m' root"
    "x < 2 ^ 38 \<Longrightarrow> page_entry m' root x =
      (if in_range start stop x then clear_entry (page_entry m root x) else page_entry m root x)"
    using page_down_simps(1) [of x] by (auto simp: m' in_range_def)
qed

text \<open>The effect on the tables \<open>m0\<close> a call began with, at the tables \<open>m\<close> that only the allocator has moved since.\<close>

lemma unmap_pages:
  assumes wf: "Mmu.space_wf m0 root" and m: "pts m = pts m0" and u: "unmap_range root start stop m = (m', n)"
  shows "x < 2 ^ 38 \<Longrightarrow> page_entry m' root x =
      (if in_range start stop x \<and> valid (page_entry m0 root x) then 0 else page_entry m0 root x)"
    and "t \<notin> space_tables m0 root \<Longrightarrow> pts m' t = pts m0 t"
proof -
  let ?c = "fst (leaves clear_leaf root start stop (m0, 0))"
  have "pts (fst (leaves unmap_leaf root start stop (m, 0 :: nat))) = pts ?c"
    unfolding leaves_def by (rule walk_leaves_pts, erule unmap_clear) (simp add: m)
  then have p: "pts m' = pts ?c" using u by (simp add: unmap_range_def)
  note c = clear_range_flat [OF wf refl, where start = start and stop = stop]
  show "x < 2 ^ 38 \<Longrightarrow> page_entry m' root x =
      (if in_range start stop x \<and> valid (page_entry m0 root x) then 0 else page_entry m0 root x)"
    unfolding page_entry_pts [OF p] using c(3) [of x] by (auto simp: clear_entry_def)
  show "t \<notin> space_tables m0 root \<Longrightarrow> pts m' t = pts m0 t" unfolding p using c(2) by (simp add: same_outside_def)
qed

lemma protect_pages:
  assumes wf: "Mmu.space_wf m0 root" and m: "pts m = pts m0"
    and u: "protect_range root start stop (user_prot prot) m = (m', n)"
  shows "x < 2 ^ 38 \<Longrightarrow> \<not> (in_range start stop x \<and> valid (page_entry m0 root x)) \<Longrightarrow>
      page_entry m' root x = page_entry m0 root x"
    and "x < 2 ^ 38 \<Longrightarrow> in_range start stop x \<Longrightarrow> valid (page_entry m0 root x) \<Longrightarrow>
      valid (page_entry m' root x) \<and> pte_pa (page_entry m' root x) = pte_pa (page_entry m0 root x) \<and>
      is_shared (page_entry m' root x) = is_shared (page_entry m0 root x) \<and> allows prot (page_entry m' root x)"
    and "t \<notin> space_tables m0 root \<Longrightarrow> pts m' t = pts m0 t"
proof -
  obtain c k where c: "protect_range root start stop (user_prot prot) m0 = (c, k)" by fastforce
  have "pts (fst (leaves (protect_leaf (user_prot prot)) root start stop (m, 0 :: nat))) =
      pts (fst (leaves (protect_leaf (user_prot prot)) root start stop (m0, 0 :: nat)))"
    unfolding leaves_def by (rule walk_leaves_pts, erule protect_leaf_pts) (simp add: m)
  then have p: "pts m' = pts c" using u c by (simp add: protect_range_def)
  note P = protect_range_flat [OF wf c]
  have e: "page_entry m' root x = (if in_range start stop x then protect_entry (user_prot prot) (page_entry m0 root x)
      else page_entry m0 root x)" if "x < 2 ^ 38" for x
    using P(4) [OF that] unfolding page_entry_pts [OF p] .
  show "x < 2 ^ 38 \<Longrightarrow> \<not> (in_range start stop x \<and> valid (page_entry m0 root x)) \<Longrightarrow>
      page_entry m' root x = page_entry m0 root x"
    using e [of x] by (auto simp: protect_entry_def)
  show "x < 2 ^ 38 \<Longrightarrow> in_range start stop x \<Longrightarrow> valid (page_entry m0 root x) \<Longrightarrow>
      valid (page_entry m' root x) \<and> pte_pa (page_entry m' root x) = pte_pa (page_entry m0 root x) \<and>
      is_shared (page_entry m' root x) = is_shared (page_entry m0 root x) \<and> allows prot (page_entry m' root x)"
    using e [of x] is_shared_keep [of "pte_pa (page_entry m0 root x)" "user_prot prot" "page_entry m0 root x"]
      protect_entry_pa [OF flag_bits_user_prot, of prot "page_entry m0 root x"] bit_user_prot_8 allows_protected
    by (simp add: protect_entry_def)
  show "t \<notin> space_tables m0 root \<Longrightarrow> pts m' t = pts m0 t" unfolding p using P(3) by (simp add: same_outside_def)
qed

lemma in_range_iff:
  assumes "4096 dvd start" "4096 dvd stop"
  shows "in_range start stop x \<longleftrightarrow> start \<le> x \<and> x < stop"
proof -
  have "page_down start = start" using assms(1) by (simp add: page_down_def)
  moreover have "page_down x < stop \<longleftrightarrow> x < stop"
    using page_down_ge [OF assms(2), of x] by (meson linorder_not_le)
  ultimately show ?thesis using page_down_ge [OF assms(1), of x] by (auto simp: in_range_def)
qed

text \<open>The tables stay when areas, objects and frames move.\<close>

lemma vpts_steps [simp]:
  "vpts (obj_ref c st) = vpts st" "vpts (put_space l sp st) = vpts st" "vpts (set_shm s st) = vpts st"
  by (simp_all add: obj_ref_def set_shm_def put_space_def)

lemma vpts_obj_refs [simp]: "vpts (obj_refs cs st) = vpts st"
  by (induction cs arbitrary: st) (simp_all add: obj_refs_def)

lemma vpts_on_areas [simp]: "vpts (on_areas l f st) = vpts st"
  by (simp add: on_areas_def split_def Let_def)

lemma vpts_reserve: "reserve l k st = (b, st') \<Longrightarrow> vpts st' = vpts st"
  by (auto simp: reserve_def Let_def split: if_splits option.splits prod.splits)

lemma pts_mmu_view [simp]: "pts (mmu_view st) = vpts st"
  by (simp add: mmu_view_def)

lemma vpts_with_mmu: "vpts (snd (with_mmu (\<lambda>m. prod.swap (f m)) st)) = pts (fst (f (mmu_view st)))"
  by (simp add: with_mmu_def set_mmu_def split_def)

end
