(* ===== verification/Vm_Props.thy ===== *)
theory Vm_Props
  imports Vm_Pages
begin

text \<open>
  The properties of the virtual memory calls: the invariant of the area tables of all processes
  and the agreement of the mapping counts of the shared objects with the areas that use them,
  along every sequence of calls; what mmap, munmap and mprotect do to the flat view of the
  caller's space; and what a page fault makes of a page.
\<close>

section \<open>The changes of a table operation\<close>

text \<open>Only references dropped, or one more reference to an object already in the table.\<close>

definition shaped :: "vma list \<Rightarrow> obj_change list \<Rightarrow> bool" where
  "shaped vs cs \<longleftrightarrow> (\<forall>c \<in> set cs. snd c = - 1) \<or> (\<exists>v \<in> set vs. cs = [(v_obj v, 1)])"

lemma shaped_simps [simp, intro]: "shaped vs []" "shaped vs [(x, - 1)]" "shaped vs [(x, - 1), (y, - 1)]"
  "v \<in> set vs \<Longrightarrow> shaped vs [(v_obj v, 1)]"
  by (auto simp: shaped_def)

lemma carve_loop_downs:
  assumes "\<forall>v \<in> set ws. start \<le> v_start v"
  shows "\<forall>c \<in> set (snd (carve_loop start stop (length us) (us @ ws))). snd c = - 1"
  using assms
proof (induction ws)
  case Nil
  then show ?case by (simp add: carve_loop.simps)
next
  case (Cons v ws)
  have "remove_at (length us) 1 (us @ v # ws) = us @ ws" by (simp add: remove_at_def)
  then show ?case using Cons by (subst carve_loop.simps) (simp add: nth_append Let_def split: prod.splits)
qed

lemma carve_shaped:
  assumes wf: "table_wf vs" and "start < stop"
  shows "shaped vs (snd (carve start stop vs))"
proof -
  obtain us ws where s: "vs = us @ ws" "lower start vs = length us"
    "\<And>v. v \<in> set us \<Longrightarrow> v_end v \<le> start" "\<And>v. v \<in> set ws \<Longrightarrow> start < v_end v"
    by (rule lower_split [OF wf, of start]) blast
  have c: "carve start stop vs = carve_loop start stop (length us) (us @ ws)"
    by (simp add: carve_def s(2)) (simp add: s(1))
  show ?thesis
  proof (cases ws)
    case Nil
    then show ?thesis unfolding c by (simp add: carve_loop.simps)
  next
    case (Cons v ws')
    have upd: "(us @ v # ws')[length us := w] = us @ w # ws'" for w by simp
    have later: "\<forall>w \<in> set ws'. start \<le> v_start w" using wf s Cons by (fastforce simp: before_def)
    have downs: "\<forall>c \<in> set (snd (carve_loop start stop (length us') (us' @ ws'))). snd c = - 1" for us'
      by (rule carve_loop_downs [OF later])
    have vin: "v \<in> set vs" using s(1) Cons by simp
    consider "stop \<le> v_start v" | "v_start v < stop" "v_start v < start" "stop < v_end v"
      | "v_start v < stop" "v_start v < start" "v_end v \<le> stop"
      | "v_start v < stop" "start \<le> v_start v" "stop < v_end v"
      | "v_start v < stop" "start \<le> v_start v" "v_end v \<le> stop" by linarith
    then show ?thesis
    proof cases
      case 2
      then show ?thesis unfolding c Cons
        by (subst carve_loop.simps) (simp add: nth_append Let_def vin del: One_nat_def)
    next
      case 3
      let ?us = "us @ [v\<lparr>v_end := start\<rparr>]"
      have "carve_loop start stop (length us) (us @ v # ws') = carve_loop start stop (length ?us) (?us @ ws')"
        using 3 by (subst carve_loop.simps) (simp add: nth_append upd Let_def)
      then show ?thesis using downs [of ?us] unfolding c Cons by (simp add: shaped_def)
    next
      case 5
      have "remove_at (length us) 1 (us @ v # ws') = us @ ws'" by (simp add: remove_at_def)
      then have "\<forall>c \<in> set (snd (carve_loop start stop (length us) (us @ v # ws'))). snd c = - 1"
        using 5 downs [of us] by (subst carve_loop.simps) (simp add: nth_append Let_def split: prod.splits)
      then show ?thesis unfolding c Cons by (simp add: shaped_def)
    qed (simp add: c Cons, subst carve_loop.simps, simp add: nth_append Let_def)+
  qed
qed

lemma split_at_shaped: "lower a vs \<le> length vs \<Longrightarrow> shaped vs (snd (split_at a vs))"
  by (simp add: split_at_def Let_def not_le)

lemma add_vma_shaped: "shaped vs (snd (add_vma v vs))"
  by (simp add: add_vma_def fuse_def Let_def)

section \<open>Counting the mappings of an object\<close>

definition maps :: "shm \<Rightarrow> nat \<Rightarrow> nat" where
  "maps st ob = (case obj_at st ob of None \<Rightarrow> 0 | Some x \<Rightarrow> so_map x)"

text \<open>An object that the loss of a mapping does not free: it has a counted descriptor, or a name.\<close>

definition opened :: "shm \<Rightarrow> nat \<Rightarrow> bool" where
  "opened st ob \<longleftrightarrow> (\<exists>x. obj_at st ob = Some x \<and> (0 < so_fd x \<or> so_named x))"

text \<open>
  What the callers of \<open>mmap_obj\<close> hand over: an object of a counted descriptor, a named one (an open of a name under
  \<open>/dev/shm\<close> leaves no count, see \<open>Files_Props\<close>), or one that nothing maps yet, as \<open>create_anon\<close> makes it for
  \<open>MAP_SHARED | MAP_ANONYMOUS\<close>. Left out is only the object that nothing but mappings keeps, through a descriptor
  that was never counted: \<open>MAP_FIXED\<close> over its own last mapping frees it before the new mapping is counted.
\<close>

definition pinned :: "shm \<Rightarrow> nat \<Rightarrow> bool" where
  "pinned st ob \<longleftrightarrow> (\<exists>x. obj_at st ob = Some x \<and> (0 < so_fd x \<or> so_named x \<or> so_map x = 0))"

lemma pinned_cases: "pinned st ob \<Longrightarrow> opened st ob \<or> (obj_at st ob \<noteq> None \<and> maps st ob = 0)"
  by (auto simp: pinned_def opened_def maps_def)

lemma obj_at_index: "obj_at st ob = Some x \<Longrightarrow> 0 < ob \<and> ob - 1 < length (objs st) \<and> so_used x"
  by (auto simp: obj_at_Some)

lemma obj_at_maybe_free:
  "obj_at (maybe_free oid st) ob =
     (case obj_at st oid of None \<Rightarrow> obj_at st ob
      | Some x \<Rightarrow> if ob = oid \<and> so_fd x = 0 \<and> so_map x = 0 \<and> \<not> so_named x then None else obj_at st ob)"
proof (cases "obj_at st oid")
  case (Some x)
  note i = obj_at_index [OF Some]
  have "obj_at (put_obj oid shm_empty (st\<lparr>sfa := fa\<rparr>)) ob = (if ob = oid then None else obj_at st ob)" for fa
    using i by (subst obj_at_put) (auto simp: shm_empty_def)
  then show ?thesis using Some by (auto simp: maybe_free_def Let_def)
qed (simp add: maybe_free_def)

lemma maps_maybe_free [simp]: "maps (maybe_free oid st) ob = maps st ob"
  by (auto simp: maps_def obj_at_maybe_free split: option.splits)

lemma opened_maybe_free [simp]: "opened (maybe_free oid st) ob = opened st ob"
  by (auto simp: opened_def obj_at_maybe_free split: option.splits)

lemma map_ref_up:
  assumes "obj_at st oid = Some x"
  shows "maps (map_ref oid 1 st) ob = maps st ob + (if ob = oid then 1 else 0)"
    "opened (map_ref oid 1 st) ob = opened st ob" "obj_at (map_ref oid 1 st) ob \<noteq> None \<longleftrightarrow> obj_at st ob \<noteq> None"
proof -
  note i = obj_at_index [OF assms]
  have "obj_at (map_ref oid 1 st) ob = (if ob = oid then Some (x\<lparr>so_map := so_map x + 1\<rparr>) else obj_at st ob)"
    using i assms by (auto simp: map_ref_def obj_at_put add_refs_def nat_add_distrib)
  then show "maps (map_ref oid 1 st) ob = maps st ob + (if ob = oid then 1 else 0)"
    "opened (map_ref oid 1 st) ob = opened st ob" "obj_at (map_ref oid 1 st) ob \<noteq> None \<longleftrightarrow> obj_at st ob \<noteq> None"
    using assms by (simp_all add: maps_def opened_def)
qed

lemma map_ref_down:
  assumes "0 < maps st oid"
  shows "maps (map_ref oid (- 1) st) ob = maps st ob - (if ob = oid then 1 else 0)"
    "opened (map_ref oid (- 1) st) ob = opened st ob"
proof -
  obtain x where x: "obj_at st oid = Some x" "0 < so_map x"
    using assms by (auto simp: maps_def split: option.splits)
  let ?st = "put_obj oid (x\<lparr>so_map := so_map x - 1\<rparr>) st"
  have n: "add_refs (so_map x) (- 1) = so_map x - 1" using x(2) by (simp add: add_refs_def)
  have m: "map_ref oid (- 1) st = maybe_free oid ?st" using x(1) n by (simp add: map_ref_def)
  have obj: "obj_at ?st ob = (if ob = oid then Some (x\<lparr>so_map := so_map x - 1\<rparr>) else obj_at st ob)" for ob
    using obj_at_index [OF x(1)] by (subst obj_at_put) auto
  have "maps ?st ob = maps st ob - (if ob = oid then 1 else 0)" "opened ?st ob = opened st ob"
    using x(1) by (simp_all add: maps_def opened_def obj del: One_nat_def)
  then show "maps (map_ref oid (- 1) st) ob = maps st ob - (if ob = oid then 1 else 0)"
    "opened (map_ref oid (- 1) st) ob = opened st ob"
    unfolding m by simp_all
qed

lemma map_ref_other: "ob \<noteq> oid \<Longrightarrow> obj_at (map_ref oid d st) ob = obj_at st ob"
proof (cases "obj_at st oid")
  case (Some x)
  assume n: "ob \<noteq> oid"
  have "obj_at (put_obj oid y st) ob = obj_at st ob" for y
    using obj_at_index [OF Some] n by (subst obj_at_put) auto
  then show ?thesis using Some n by (auto simp: map_ref_def obj_at_maybe_free Let_def split: option.split)
qed (simp add: map_ref_def maybe_free_def)

text \<open>A list of changes on the state of the calls.\<close>

abbreviation vmaps :: "vm \<Rightarrow> nat \<Rightarrow> nat" where "vmaps st \<equiv> maps (shm_view st)"
abbreviation vopened :: "vm \<Rightarrow> nat \<Rightarrow> bool" where "vopened st \<equiv> opened (shm_view st)"

lemma shm_view_set [simp]: "shm_view (set_shm s st) = s" "vspaces (set_shm s st) = vspaces st"
  "vpts (set_shm s st) = vpts st" "vkroot (set_shm s st) = vkroot st"
  by (simp_all add: shm_view_def set_shm_def)

lemma obj_ref_up:
  assumes "o1 \<noteq> 0 \<longrightarrow> obj_at (shm_view st) o1 \<noteq> None"
  shows "ob \<noteq> 0 \<Longrightarrow> vmaps (obj_ref (o1, 1) st) ob = vmaps st ob + (if ob = o1 then 1 else 0)"
    "vopened (obj_ref (o1, 1) st) ob = vopened st ob" "vspaces (obj_ref (o1, 1) st) = vspaces st"
    "obj_at (shm_view (obj_ref (o1, 1) st)) ob \<noteq> None \<longleftrightarrow> obj_at (shm_view st) ob \<noteq> None"
proof -
  have "(ob \<noteq> 0 \<longrightarrow> vmaps (obj_ref (o1, 1) st) ob = vmaps st ob + (if ob = o1 then 1 else 0)) \<and>
    vopened (obj_ref (o1, 1) st) ob = vopened st ob \<and> vspaces (obj_ref (o1, 1) st) = vspaces st \<and>
    (obj_at (shm_view (obj_ref (o1, 1) st)) ob \<noteq> None \<longleftrightarrow> obj_at (shm_view st) ob \<noteq> None)"
  proof (cases "o1 = 0")
    case False
    then obtain x where "obj_at (shm_view st) o1 = Some x" using assms by auto
    from map_ref_up [OF this] False show ?thesis by (simp add: obj_ref_def)
  qed (simp add: obj_ref_def)
  then show "ob \<noteq> 0 \<Longrightarrow> vmaps (obj_ref (o1, 1) st) ob = vmaps st ob + (if ob = o1 then 1 else 0)"
    "vopened (obj_ref (o1, 1) st) ob = vopened st ob" "vspaces (obj_ref (o1, 1) st) = vspaces st"
    "obj_at (shm_view (obj_ref (o1, 1) st)) ob \<noteq> None \<longleftrightarrow> obj_at (shm_view st) ob \<noteq> None"
    by auto
qed

lemma obj_ref_down:
  assumes "o1 \<noteq> 0 \<longrightarrow> 0 < vmaps st o1"
  shows "ob \<noteq> 0 \<Longrightarrow> vmaps (obj_ref (o1, - 1) st) ob = vmaps st ob - (if ob = o1 then 1 else 0)"
    "vopened (obj_ref (o1, - 1) st) ob = vopened st ob" "vspaces (obj_ref (o1, - 1) st) = vspaces st"
  using assms map_ref_down [of "shm_view st" o1] by (auto simp: obj_ref_def)

lemma obj_refs_other:
  "ob \<notin> fst ` set cs \<Longrightarrow> obj_at (shm_view (obj_refs cs st)) ob = obj_at (shm_view st) ob"
proof (induction cs arbitrary: st)
  case (Cons c cs)
  have "obj_at (shm_view (obj_ref c st)) ob = obj_at (shm_view st) ob"
    using Cons.prems map_ref_other [of ob "fst c"] by (auto simp: obj_ref_def)
  then show ?case using Cons by (simp add: obj_refs_def)
qed (simp add: obj_refs_def)

lemma net_downs: "\<forall>c \<in> set cs. snd c = - 1 \<Longrightarrow> 0 \<le> net ob cs \<Longrightarrow> ob \<notin> fst ` set cs"
proof (induction cs)
  case (Cons c cs)
  have "net ob cs \<le> 0" using Cons.prems(1) unfolding net_def by (intro sum_list_nonpos) auto
  then show ?case using Cons by (auto simp: net_def split: if_splits)
qed simp

lemma obj_refs_downs:
  assumes "\<forall>c \<in> set cs. snd c = - 1" "\<And>ob. ob \<noteq> 0 \<Longrightarrow> 0 \<le> int (vmaps st ob) + net ob cs"
  shows "(ob \<noteq> 0 \<longrightarrow> int (vmaps (obj_refs cs st) ob) = int (vmaps st ob) + net ob cs) \<and>
    vopened (obj_refs cs st) ob = vopened st ob \<and> vspaces (obj_refs cs st) = vspaces st"
  using assms
proof (induction cs arbitrary: st)
  case (Cons c cs)
  obtain o1 where c: "c = (o1, - 1)" using Cons.prems(1) by (cases c) auto
  have neg: "net ob cs \<le> 0" for ob using Cons.prems(1) unfolding net_def by (intro sum_list_nonpos) auto
  have pos: "o1 \<noteq> 0 \<longrightarrow> 0 < vmaps st o1" using Cons.prems(2) [of o1] neg [of o1] c by auto
  note d = obj_ref_down [OF pos]
  have "0 \<le> int (vmaps (obj_ref c st) ob) + net ob cs" if "ob \<noteq> 0" for ob
    using Cons.prems(2) [OF that] d(1) [OF that] pos that unfolding c by (auto simp: of_nat_diff)
  from Cons.IH [OF _ this] Cons.prems(1)
  have "(ob \<noteq> 0 \<longrightarrow> int (vmaps (obj_refs cs (obj_ref c st)) ob) = int (vmaps (obj_ref c st) ob) + net ob cs) \<and>
    vopened (obj_refs cs (obj_ref c st)) ob = vopened (obj_ref c st) ob \<and>
    vspaces (obj_refs cs (obj_ref c st)) = vspaces (obj_ref c st)" by simp
  moreover have "obj_refs (c # cs) st = obj_refs cs (obj_ref c st)" by (simp add: obj_refs_def)
  ultimately show ?case using d pos unfolding c by (auto simp: of_nat_diff)
qed (simp add: obj_refs_def)

lemma obj_refs_ups:
  assumes "\<forall>c \<in> set cs. snd c = 1 \<and> (fst c \<noteq> 0 \<longrightarrow> obj_at (shm_view st) (fst c) \<noteq> None)"
  shows "(ob \<noteq> 0 \<longrightarrow> int (vmaps (obj_refs cs st) ob) = int (vmaps st ob) + net ob cs) \<and>
    vopened (obj_refs cs st) ob = vopened st ob \<and> vspaces (obj_refs cs st) = vspaces st"
  using assms
proof (induction cs arbitrary: st)
  case (Cons c cs)
  obtain o1 where c: "c = (o1, 1)" using Cons.prems by (cases c) auto
  have live: "o1 \<noteq> 0 \<longrightarrow> obj_at (shm_view st) o1 \<noteq> None" using Cons.prems c by auto
  note d = obj_ref_up [OF live]
  have "\<forall>c' \<in> set cs. snd c' = 1 \<and> (fst c' \<noteq> 0 \<longrightarrow> obj_at (shm_view (obj_ref c st)) (fst c') \<noteq> None)"
    using Cons.prems unfolding c d(4) by auto
  from Cons.IH [OF this] show ?case using d unfolding c by (auto simp: obj_refs_def)
qed (simp add: obj_refs_def)

lemma obj_refs_shaped:
  assumes "shaped vs cs" "\<And>ob. ob \<noteq> 0 \<Longrightarrow> 0 \<le> int (vmaps st ob) + net ob cs"
    and "\<And>v. v \<in> set vs \<Longrightarrow> v_obj v \<noteq> 0 \<Longrightarrow> 0 < vmaps st (v_obj v)"
  shows "ob \<noteq> 0 \<Longrightarrow> int (vmaps (obj_refs cs st) ob) = int (vmaps st ob) + net ob cs"
    "vopened (obj_refs cs st) ob = vopened st ob" "vspaces (obj_refs cs st) = vspaces st"
proof -
  have "(ob \<noteq> 0 \<longrightarrow> int (vmaps (obj_refs cs st) ob) = int (vmaps st ob) + net ob cs) \<and>
    vopened (obj_refs cs st) ob = vopened st ob \<and> vspaces (obj_refs cs st) = vspaces st"
  proof (cases "\<forall>c \<in> set cs. snd c = - 1")
    case False
    then obtain v where v: "v \<in> set vs" "cs = [(v_obj v, 1)]" using assms(1) by (auto simp: shaped_def)
    have "v_obj v \<noteq> 0 \<longrightarrow> obj_at (shm_view st) (v_obj v) \<noteq> None"
      using assms(3) [OF v(1)] by (auto simp: maps_def split: option.splits)
    then show ?thesis using v(2) by (intro obj_refs_ups) auto
  qed (intro obj_refs_downs assms(2); simp)
  then show "ob \<noteq> 0 \<Longrightarrow> int (vmaps (obj_refs cs st) ob) = int (vmaps st ob) + net ob cs"
    "vopened (obj_refs cs st) ob = vopened st ob" "vspaces (obj_refs cs st) = vspaces st" by auto
qed

section \<open>The invariant\<close>

definition total :: "nat \<Rightarrow> space list \<Rightarrow> nat" where
  "total ob sps = sum_list (map (\<lambda>sp. uses ob (sp_vmas sp)) sps)"

definition space_inv :: "space \<Rightarrow> bool" where
  "space_inv sp \<longleftrightarrow> table_wf (sp_vmas sp) \<and> length (sp_vmas sp) \<le> cap sp \<and> 4096 dvd sp_hint sp"

text \<open>\<open>e\<close>: references counted but not yet held by an area, in the middle of a call.\<close>

definition vm_off :: "(nat \<Rightarrow> int) \<Rightarrow> vm \<Rightarrow> bool" where
  "vm_off e st \<longleftrightarrow> length (vspaces st) = MAX_PROCS \<and> (\<forall>sp \<in> set (vspaces st). space_inv sp) \<and>
     (\<forall>ob. ob \<noteq> 0 \<longrightarrow> int (vmaps st ob) = int (total ob (vspaces st)) + e ob)"

abbreviation vm_ok :: "vm \<Rightarrow> bool" where "vm_ok \<equiv> vm_off (\<lambda>_. 0)"

lemma vm_offD:
  assumes "vm_off e st"
  shows "length (vspaces st) = MAX_PROCS" "l < MAX_PROCS \<Longrightarrow> space_inv (space_of st l)"
    "ob \<noteq> 0 \<Longrightarrow> int (vmaps st ob) = int (total ob (vspaces st)) + e ob"
  using assms by (auto simp: vm_off_def space_of_def)

lemma vm_off_cong:
  "vspaces st' = vspaces st \<Longrightarrow> (\<And>ob. vmaps st' ob = vmaps st ob) \<Longrightarrow> vm_off e st' = vm_off e st"
  by (simp add: vm_off_def)

lemma space_invD: "space_inv sp \<Longrightarrow> table_wf (sp_vmas sp)" "space_inv sp \<Longrightarrow> length (sp_vmas sp) \<le> cap sp"
  "space_inv sp \<Longrightarrow> 4096 dvd sp_hint sp"
  by (simp_all add: space_inv_def)

lemma total_ge: "l < length sps \<Longrightarrow> uses ob (sp_vmas (sps ! l)) \<le> total ob sps"
  unfolding total_def by (rule elem_le_sum_list [of l "map (\<lambda>sp. uses ob (sp_vmas sp)) sps", simplified])

lemma total_update:
  "l < length sps \<Longrightarrow> int (total ob (sps[l := sp])) =
     int (total ob sps) - int (uses ob (sp_vmas (sps ! l))) + int (uses ob (sp_vmas sp))"
  using total_ge [of l sps ob]
  by (simp add: total_def map_update sum_list_update of_nat_diff)

lemma uses_pos: "v \<in> set vs \<Longrightarrow> 0 < uses (v_obj v) vs"
  by (auto simp: uses_def filter_empty_conv)

lemma put_space_simps [simp]:
  "vspaces (put_space l sp st) = (vspaces st)[l := sp]" "shm_view (put_space l sp st) = shm_view st"
  "mmu_view (put_space l sp st) = mmu_view st"
  by (simp_all add: put_space_def shm_view_def mmu_view_def)

lemma space_of_put: "l < length (vspaces st) \<Longrightarrow>
  space_of (put_space l sp st) k = (if k = l then sp else space_of st k)"
  by (simp add: space_of_def)

lemma vm_off_live:
  assumes "vm_off e st" "l < MAX_PROCS" "\<And>ob. ob \<noteq> 0 \<Longrightarrow> 0 \<le> e ob" "v \<in> set (areas st l)" "v_obj v \<noteq> 0"
  shows "0 < vmaps st (v_obj v)"
proof -
  have "0 < uses (v_obj v) (areas st l)" by (rule uses_pos [OF assms(4)])
  moreover have "uses (v_obj v) (areas st l) \<le> total (v_obj v) (vspaces st)"
    unfolding space_of_def by (rule total_ge) (use vm_offD(1) [OF assms(1)] assms(2) in simp)
  ultimately show ?thesis using vm_offD(3) [OF assms(1,5)] assms(3) [OF assms(5)] by linarith
qed

lemma on_areas_off:
  assumes off: "vm_off e st" and l: "l < MAX_PROCS" and f: "f (areas st l) = (vs, cs)"
    and sh: "shaped (areas st l) cs" and wf: "table_wf vs" and len: "length vs \<le> cap (space_of st l)"
    and us: "\<And>ob. int (uses ob vs) = int (uses ob (areas st l)) + net ob cs + g ob"
    and e: "\<And>ob. ob \<noteq> 0 \<Longrightarrow> 0 \<le> e ob" "\<And>ob. ob \<noteq> 0 \<Longrightarrow> g ob \<le> e ob"
  shows "vm_off (\<lambda>ob. e ob - g ob) (on_areas l f st)"
    and "vopened (on_areas l f st) ob = vopened st ob"
    and "space_of (on_areas l f st) k = (if k = l then (space_of st l)\<lparr>sp_vmas := vs\<rparr> else space_of st k)"
proof -
  let ?sp = "(space_of st l)\<lparr>sp_vmas := vs\<rparr>"
  let ?st = "put_space l ?sp st"
  note D = vm_offD [OF off]
  have ll: "l < length (vspaces st)" using D(1) l by simp
  have eq: "on_areas l f st = obj_refs cs ?st" by (simp add: on_areas_def f)
  have tot: "int (total ob (vspaces ?st)) = int (total ob (vspaces st)) + net ob cs + g ob" for ob
    using total_update [OF ll, of ob ?sp] us [of ob] by (simp add: space_of_def)
  have pos: "0 \<le> int (vmaps ?st ob) + net ob cs" if "ob \<noteq> 0" for ob
    using D(3) [OF that] tot [of ob] e(2) [OF that] by simp
  have live: "0 < vmaps ?st (v_obj v)" if "v \<in> set (areas st l)" "v_obj v \<noteq> 0" for v
    using vm_off_live [OF off l e(1) that] by simp
  have r: "ob \<noteq> 0 \<Longrightarrow> int (vmaps (obj_refs cs ?st) ob) = int (vmaps ?st ob) + net ob cs"
    "vopened (obj_refs cs ?st) ob = vopened ?st ob" "vspaces (obj_refs cs ?st) = vspaces ?st" for ob
    using obj_refs_shaped [OF sh pos live] by blast+
  have spw: "space_inv ?sp" using D(2) [OF l] wf len by (simp add: space_inv_def cap_def)
  have "int (vmaps (obj_refs cs ?st) ob) = int (total ob (vspaces (obj_refs cs ?st))) + (e ob - g ob)" if "ob \<noteq> 0" for ob
  proof -
    have v: "vspaces (obj_refs cs ?st) = vspaces ?st" using r(3) by simp
    have m: "vmaps ?st ob = vmaps st ob" by simp
    show ?thesis unfolding v m using r(1) [OF that] D(3) [OF that] tot [of ob] by simp
  qed
  moreover have "\<forall>sp \<in> set ((vspaces st)[l := ?sp]). space_inv sp"
    using off spw set_update_subset_insert [of "vspaces st" l ?sp] by (auto simp: vm_off_def)
  ultimately show "vm_off (\<lambda>ob. e ob - g ob) (on_areas l f st)"
    unfolding eq using r(3) D(1) by (simp add: vm_off_def)
  show "vopened (on_areas l f st) ob = vopened st ob" unfolding eq using r(2) by simp
  show "space_of (on_areas l f st) k = (if k = l then ?sp else space_of st k)"
    unfolding eq using r(3) space_of_put [OF ll] by (simp add: space_of_def)
qed

section \<open>The table operations on the state\<close>

text \<open>Only the areas of space \<open>l\<close> change.\<close>

definition only :: "nat \<Rightarrow> vm \<Rightarrow> vm \<Rightarrow> bool" where
  "only l st st' \<longleftrightarrow> (\<forall>k. k \<noteq> l \<longrightarrow> space_of st' k = space_of st k) \<and>
     cap (space_of st' l) = cap (space_of st l) \<and> sp_hint (space_of st' l) = sp_hint (space_of st l) \<and>
     (\<forall>ob. vopened st' ob = vopened st ob)"

lemma only_refl [simp]: "only l st st"
  by (simp add: only_def)

lemma only_trans: "only l st st' \<Longrightarrow> only l st' st'' \<Longrightarrow> only l st st''"
  by (simp add: only_def)

lemma onlyD: "only l st st' \<Longrightarrow> cap (space_of st' l) = cap (space_of st l)"
  "only l st st' \<Longrightarrow> sp_hint (space_of st' l) = sp_hint (space_of st l)"
  "only l st st' \<Longrightarrow> vopened st' ob = vopened st ob" "only l st st' \<Longrightarrow> k \<noteq> l \<Longrightarrow> space_of st' k = space_of st k"
  by (simp_all add: only_def)

lemma on_areas_step:
  assumes "vm_off e st" "l < MAX_PROCS" "shaped (areas st l) (snd (f (areas st l)))"
    "table_wf (fst (f (areas st l)))" "length (fst (f (areas st l))) \<le> cap (space_of st l)"
    "\<And>ob. int (uses ob (fst (f (areas st l)))) = int (uses ob (areas st l)) + net ob (snd (f (areas st l))) + g ob"
    "\<And>ob. ob \<noteq> 0 \<Longrightarrow> 0 \<le> e ob" "\<And>ob. ob \<noteq> 0 \<Longrightarrow> g ob \<le> e ob"
  shows "vm_off (\<lambda>ob. e ob - g ob) (on_areas l f st)" "areas (on_areas l f st) l = fst (f (areas st l))"
    "only l st (on_areas l f st)"
proof -
  let ?vs = "fst (f (areas st l))"
  let ?cs = "snd (f (areas st l))"
  have f: "f (areas st l) = (?vs, ?cs)" by simp
  note o = on_areas_off [where f = f and vs = ?vs and cs = ?cs and g = g and e = e, OF assms(1,2) f assms(3-8)]
  show "vm_off (\<lambda>ob. e ob - g ob) (on_areas l f st)" by (rule o(1))
  show "areas (on_areas l f st) l = fst (f (areas st l))" using o(3) by simp
  show "only l st (on_areas l f st)" using o(2,3) by (simp add: only_def cap_def)
qed

lemma carve_off:
  assumes off: "vm_off e st" and l: "l < MAX_PROCS" and e: "\<And>ob. ob \<noteq> 0 \<Longrightarrow> 0 \<le> e ob"
    and r: "start < stop" "4096 dvd start" "4096 dvd stop" and room: "length (areas st l) + 1 \<le> cap (space_of st l)"
  shows "vm_off e (on_areas l (carve start stop) st)"
    "areas (on_areas l (carve start stop) st) l = fst (carve start stop (areas st l))"
    "only l st (on_areas l (carve start stop) st)"
proof -
  note wf = space_invD(1) [OF vm_offD(2) [OF off l]]
  have len: "length (fst (carve start stop (areas st l))) \<le> cap (space_of st l)"
    using length_carve [OF wf r(1)] room by simp
  have u: "int (uses ob (fst (carve start stop (areas st l)))) =
      int (uses ob (areas st l)) + net ob (snd (carve start stop (areas st l))) + 0" for ob
    using carve_ref(2) [OF wf r(1)] by simp
  note o = on_areas_step [where f = "carve start stop" and g = "\<lambda>_. 0", OF off l carve_shaped [OF wf r(1)] carve_spec(1) [OF wf r] len u]
  show "vm_off e (on_areas l (carve start stop) st)" using o(1) e by simp
  show "areas (on_areas l (carve start stop) st) l = fst (carve start stop (areas st l))" using o(2) e by simp
  show "only l st (on_areas l (carve start stop) st)" using o(3) e by simp
qed

lemma add_off:
  assumes off: "vm_off e st" and l: "l < MAX_PROCS" and e: "\<And>ob. ob \<noteq> 0 \<Longrightarrow> (if v_obj v = ob then 1 else 0) \<le> e ob"
    and v: "vma_wf v" "free_range (v_start v) (v_end v - v_start v) (areas st l)"
    and room: "length (areas st l) + 1 \<le> cap (space_of st l)"
  shows "vm_off (\<lambda>ob. e ob - (if v_obj v = ob then 1 else 0)) (on_areas l (add_vma v) st)"
    "areas (on_areas l (add_vma v) st) l = fst (add_vma v (areas st l))"
    "only l st (on_areas l (add_vma v) st)"
proof -
  note wf = space_invD(1) [OF vm_offD(2) [OF off l]]
  note a = add_vma_spec [OF wf v]
  have len: "length (fst (add_vma v (areas st l))) \<le> cap (space_of st l)" using a(3) room by simp
  have u: "int (uses ob (fst (add_vma v (areas st l)))) = int (uses ob (areas st l)) +
      net ob (snd (add_vma v (areas st l))) + (if v_obj v = ob then 1 else 0)" for ob using a(4) [of ob] by simp
  have e0: "0 \<le> e ob" if "ob \<noteq> 0" for ob using e [OF that] by (auto split: if_splits)
  note o = on_areas_step [where f = "add_vma v" and g = "\<lambda>ob. if v_obj v = ob then 1 else 0", OF off l add_vma_shaped a(1) len u]
  show "vm_off (\<lambda>ob. e ob - (if v_obj v = ob then 1 else 0)) (on_areas l (add_vma v) st)" by (rule o(1)) (use e e0 in auto)
  show "areas (on_areas l (add_vma v) st) l = fst (add_vma v (areas st l))" by (rule o(2)) (use e e0 in auto)
  show "only l st (on_areas l (add_vma v) st)" by (rule o(3)) (use e e0 in auto)
qed

lemma split_off:
  assumes ok: "vm_ok st" and l: "l < MAX_PROCS" and a: "4096 dvd a"
    and room: "length (areas st l) + 1 \<le> cap (space_of st l)"
  shows "vm_ok (on_areas l (split_at a) st)" "areas (on_areas l (split_at a) st) l = fst (split_at a (areas st l))"
    "only l st (on_areas l (split_at a) st)"
proof -
  note wf = space_invD(1) [OF vm_offD(2) [OF ok l]]
  have len: "length (fst (split_at a (areas st l))) \<le> cap (space_of st l)" using split_at_ref(3) [OF wf, of a] room by simp
  have u: "int (uses ob (fst (split_at a (areas st l)))) =
      int (uses ob (areas st l)) + net ob (snd (split_at a (areas st l))) + 0" for ob
    using split_at_ref(2) [OF wf] by simp
  note o = on_areas_step [where f = "split_at a" and g = "\<lambda>_. 0", OF ok l split_at_shaped [OF lower_spec(1) [OF wf]] split_at_spec(1) [OF wf a] len u]
  show "vm_ok (on_areas l (split_at a) st)" using o(1) by simp
  show "areas (on_areas l (split_at a) st) l = fst (split_at a (areas st l))" using o(2) by simp
  show "only l st (on_areas l (split_at a) st)" using o(3) by simp
qed

lemma set_prot_off:
  assumes ok: "vm_ok st" and l: "l < MAX_PROCS" and s: "cut_free start (areas st l)" "cut_free stop (areas st l)" "start < stop"
    and f_def: "f = (\<lambda>vs. (set_prot_loop stop prot (lower start vs) vs, []))"
  shows "vm_ok (on_areas l f st)" "areas (on_areas l f st) l = set_prot_loop stop prot (lower start (areas st l)) (areas st l)"
    "only l st (on_areas l f st)"
proof -
  note W = vm_offD(2) [OF ok l]
  note p = set_prot_spec [where prot = prot, OF space_invD(1) [OF W] s refl]
  have sh: "shaped (areas st l) (snd (f (areas st l)))" by (simp add: f_def)
  have wf: "table_wf (fst (f (areas st l)))" by (simp add: f_def p(1))
  have len: "length (fst (f (areas st l))) \<le> cap (space_of st l)"
    using p(2) space_invD(2) [OF W] by (simp add: f_def)
  have u: "int (uses ob (fst (f (areas st l)))) = int (uses ob (areas st l)) + net ob (snd (f (areas st l))) + 0" for ob
    by (simp add: f_def p(3))
  note o = on_areas_step [where f = f and g = "\<lambda>_. 0", OF ok l sh wf len u]
  show "vm_ok (on_areas l f st)" using o(1) by simp
  show "areas (on_areas l f st) l = set_prot_loop stop prot (lower start (areas st l)) (areas st l)"
    using o(2) by (simp add: f_def)
  show "only l st (on_areas l f st)" using o(3) by simp
qed

lemma reserve_off:
  assumes off: "vm_off e st" and l: "l < MAX_PROCS" and k: "k \<le> 2" and r: "reserve l k st = (b, st')"
  shows "vm_off e st'" "areas st' m = areas st m" "sp_hint (space_of st' m) = sp_hint (space_of st m)"
    "b \<Longrightarrow> length (areas st' l) + k \<le> cap (space_of st' l)" "vopened st' ob = vopened st ob"
    "vmaps st' ob = vmaps st ob"
proof -
  note D = vm_offD [OF off]
  have ll: "l < length (vspaces st)" using D(1) l by simp
  define sp where "sp = space_of st l"
  have len: "length (sp_vmas sp) \<le> cap sp" using space_invD(2) [OF D(2) [OF l]] by (simp add: sp_def)
  consider "st' = st" "b \<longrightarrow> length (sp_vmas sp) + k \<le> cap sp" | t fb pages where
    "pages = (if sp_pages sp = 0 then FIRST_PAGES else sp_pages sp * 2)"
    "st' = put_space l (sp\<lparr>sp_table := t, sp_pages := pages\<rparr>) (st\<lparr>vfa := fb\<rparr>)" "b"
    using r unfolding reserve_def Let_def sp_def [symmetric] by (auto split: if_splits option.splits prod.splits)
  then have "vm_off e st' \<and> areas st' m = areas st m \<and> sp_hint (space_of st' m) = sp_hint (space_of st m) \<and>
    (b \<longrightarrow> length (areas st' l) + k \<le> cap (space_of st' l)) \<and> vopened st' ob = vopened st ob \<and> vmaps st' ob = vmaps st ob"
  proof cases
    case 1
    then show ?thesis using off by (simp add: sp_def)
  next
    case (2 t fb pages)
    let ?sp = "sp\<lparr>sp_table := t, sp_pages := pages\<rparr>"
    have grow: "cap sp + 2 \<le> cap ?sp"
      unfolding cap_def 2(1) FIRST_PAGES_def VMA_SIZE_def by (auto split: if_splits)
    have v: "vspaces st' = (vspaces st)[l := ?sp]" by (simp add: 2(2) put_space_def)
    have so: "space_of st' m = (if m = l then ?sp else space_of st m)" for m
      using ll by (simp add: space_of_def v)
    have oa: "obj_at (shm_view st') ob = obj_at (shm_view st) ob" for ob
      by (simp add: 2(2) put_space_def shm_view_def obj_at_def)
    have vm: "vmaps st' ob = vmaps st ob" "vopened st' ob = vopened st ob" for ob
      by (simp_all add: maps_def opened_def oa)
    have tot: "total ob (vspaces st') = total ob (vspaces st)" for ob
      using total_update [OF ll, of ob ?sp] by (simp add: v sp_def space_of_def)
    have "space_inv ?sp" using D(2) [OF l] grow unfolding space_inv_def sp_def [symmetric] by simp
    then have "\<forall>x \<in> set (vspaces st'). space_inv x"
      using off set_update_subset_insert [of "vspaces st" l ?sp] by (auto simp: vm_off_def v)
    then have "vm_off e st'" using D(1,3) by (simp add: vm_off_def tot vm) (simp add: v)
    then show ?thesis using len grow k by (auto simp: so vm) (simp_all add: sp_def)
  qed
  then show "vm_off e st'" "areas st' m = areas st m" "sp_hint (space_of st' m) = sp_hint (space_of st m)"
    "b \<Longrightarrow> length (areas st' l) + k \<le> cap (space_of st' l)" "vopened st' ob = vopened st ob" "vmaps st' ob = vmaps st ob"
    by blast+
qed

section \<open>The calls keep the invariant\<close>

text \<open>The page tables and the frames are apart from the area tables.\<close>

lemma with_mmu_keeps [simp]:
  "vspaces (snd (with_mmu f st)) = vspaces st" "vmaps (snd (with_mmu f st)) ob = vmaps st ob"
  "vopened (snd (with_mmu f st)) ob = vopened st ob" "space_of (snd (with_mmu f st)) k = space_of st k"
  "vm_off e (snd (with_mmu f st)) = vm_off e st"
proof -
  show s: "vspaces (snd (with_mmu f st)) = vspaces st"
    by (simp add: with_mmu_def set_mmu_def split_def Let_def)
  have o: "obj_at (shm_view (snd (with_mmu f st))) ob = obj_at (shm_view st) ob" for ob
    by (simp add: with_mmu_def set_mmu_def split_def Let_def shm_view_def obj_at_def)
  then show m: "vmaps (snd (with_mmu f st)) ob = vmaps st ob" "vopened (snd (with_mmu f st)) ob = vopened st ob" for ob
    by (simp_all add: maps_def opened_def)
  show "space_of (snd (with_mmu f st)) k = space_of st k" by (simp add: space_of_def s)
  show "vm_off e (snd (with_mmu f st)) = vm_off e st" by (rule vm_off_cong) (simp_all add: s m)
qed

lemma not_overlaps_free:
  assumes "table_wf vs" "\<not> overlaps start stop vs" "start < stop"
  shows "free_range start (stop - start) vs"
  unfolding free_range_def
proof
  fix v assume v: "v \<in> set vs"
  show "v_end v \<le> start \<or> start + (stop - start) \<le> v_start v"
  proof (rule ccontr)
    assume n: "\<not> ?thesis"
    have "vma_wf v" using v assms(1) by (auto simp: table_wf_def)
    then have "covers v (max start (v_start v))" "max start (v_start v) < stop"
      using n assms(3) by (auto simp: covers_def vma_wf_def max_def)
    then have "\<exists>x. start \<le> x \<and> x < stop \<and> view vs x \<noteq> None"
      using v by (intro exI [of _ "max start (v_start v)"]) (auto simp: view_None)
    then show False using assms overlaps_iff by blast
  qed
qed

lemma cut_inside: "p \<in> set (cut start stop v) \<Longrightarrow> v_end p \<le> max start (v_end v) \<and> v_start v \<le> v_start p \<and> v_end p \<le> v_end v
    \<and> (v_end p \<le> start \<or> stop \<le> v_start p)"
  by (auto simp: cut_def split: if_splits)

lemma carve_free:
  assumes "table_wf vs" "start < stop"
  shows "free_range start (stop - start) (fst (carve start stop vs))"
    "free_range a len vs \<Longrightarrow> free_range a len (fst (carve start stop vs))"
proof -
  note c = carve_ref(1) [OF assms]
  show "free_range start (stop - start) (fst (carve start stop vs))"
    unfolding c free_range_def using assms(2) by (fastforce dest: cut_inside)
  show "free_range a len (fst (carve start stop vs))" if "free_range a len vs"
    using that unfolding c free_range_def by (fastforce dest: cut_inside)
qed

lemma page_up_Some: "page_up x = Some y \<Longrightarrow> 4096 dvd y \<and> x \<le> y \<and> y < x + 4096 \<and> y \<le> u64_max"
  using page_down_simps [of "x + 4095"] by (auto simp: page_up_def checked_add_def split: if_splits)

lemma page_up_0: "page_up 0 = Some 0"
  by (simp add: page_up_def checked_add_def u64_max_def page_down_def)

definition caller :: "cur_space \<Rightarrow> bool" where
  "caller cur \<longleftrightarrow> (case cur of None \<Rightarrow> True | Some (l, root) \<Rightarrow> l < MAX_PROCS)"

text \<open>Nothing but the space of the caller changes, and no descriptor is closed.\<close>

definition mine :: "nat \<Rightarrow> vm \<Rightarrow> vm \<Rightarrow> bool" where
  "mine l st st' \<longleftrightarrow> (\<forall>k. k \<noteq> l \<longrightarrow> areas st' k = areas st k) \<and> (\<forall>ob. vopened st' ob = vopened st ob)"

lemma mine_simps: "mine l st st" "mine l st st' \<Longrightarrow> mine l st' st'' \<Longrightarrow> mine l st st''" "only l st st' \<Longrightarrow> mine l st st'"
  by (simp_all add: mine_def only_def)

lemma mine_mmu [simp]: "mine l st (snd (with_mmu f st')) = mine l st st'"
  by (simp add: mine_def)

lemma reserve_mine: "vm_off e st \<Longrightarrow> l < MAX_PROCS \<Longrightarrow> k \<le> 2 \<Longrightarrow> reserve l k st = (b, st') \<Longrightarrow> mine l st st'"
  unfolding mine_def using reserve_off(2,5) by blast

lemma munmap_cases:
  assumes m: "munmap (Some (l, root)) addr len st = (r, st')"
  obtains "st' = st" "\<exists>e. r = Inl e"
    | s1 where "r = Inl ENOMEM" "reserve l 1 st = (False, s1)" "st' = s1"
    | s1 n where "page_up len = Some n" "0 < n" "4096 dvd addr" "MMAP_BASE \<le> addr" "addr + n \<le> MMAP_END"
        "reserve l 1 st = (True, s1)" "r = Inr ()"
        "st' = snd (with_mmu (\<lambda>m. prod.swap (unmap_range root addr (addr + n) m)) (on_areas l (carve addr (addr + n)) s1))"
    using m unfolding munmap_def Let_def
    by (auto simp: checked_add_def mod_eq_0_iff_dvd split: if_splits option.splits prod.splits bool.splits)

lemma munmap_spec:
  assumes ok: "vm_ok st" and l: "l < MAX_PROCS" and m: "munmap (Some (l, root)) addr len st = (r, st')"
  shows "vm_ok st'" "mine l st st'"
    "view (areas st' l) x = (if r = Inr () \<and> addr \<le> x \<and> x < addr + the (page_up len) then None else view (areas st l) x)"
    "r = Inr () \<Longrightarrow> 4096 dvd addr \<and> page_up len \<noteq> None \<and> 0 < len \<and> MMAP_BASE \<le> addr \<and> addr + the (page_up len) \<le> MMAP_END"
proof -
  have "vm_ok st' \<and> mine l st st' \<and>
      view (areas st' l) x = (if r = Inr () \<and> addr \<le> x \<and> x < addr + the (page_up len) then None else view (areas st l) x) \<and>
      (r = Inr () \<longrightarrow> 4096 dvd addr \<and> page_up len \<noteq> None \<and> 0 < len \<and> MMAP_BASE \<le> addr \<and> addr + the (page_up len) \<le> MMAP_END)"
    using m
  proof (cases rule: munmap_cases)
    case 1
    then show ?thesis using ok by (auto simp: mine_simps)
  next
    case (2 s1)
    note R = reserve_off [OF ok l _ 2(2), simplified]
    show ?thesis using R(1,2) reserve_mine [OF ok l _ 2(2)] by (simp add: 2)
  next
    case (3 s1 n)
    note R = reserve_off [OF ok l _ 3(6), simplified]
    have al: "addr < addr + n" "4096 dvd addr + n" using 3 page_up_Some [OF 3(1)] by auto
    have room: "length (areas s1 l) + 1 \<le> cap (space_of s1 l)" using R(4) by simp
    note C = carve_off [OF R(1) l order_refl al(1) 3(3) al(2) room]
    note S = space_invD(1) [OF vm_offD(2) [OF R(1) l]]
    have "0 < len" using 3(1,2) using page_up_0 by (cases "len = 0") auto
    then show ?thesis
      using C mine_simps(2) [OF reserve_mine [OF ok l _ 3(6)] mine_simps(3) [OF C(3)]] R(2)
        carve_spec(2) [OF S al(1) 3(3) al(2), of x] 3(1,3-5,7)
      by (simp add: 3(8))
  qed
  then show "vm_ok st'" "mine l st st'"
    "view (areas st' l) x = (if r = Inr () \<and> addr \<le> x \<and> x < addr + the (page_up len) then None else view (areas st l) x)"
    "r = Inr () \<Longrightarrow> 4096 dvd addr \<and> page_up len \<noteq> None \<and> 0 < len \<and> MMAP_BASE \<le> addr \<and> addr + the (page_up len) \<le> MMAP_END"
    by blast+
qed

lemma hint_off:
  assumes off: "vm_off e st" and l: "l < MAX_PROCS" and h: "4096 dvd h"
  shows "vm_off e (put_space l ((space_of st l)\<lparr>sp_hint := h\<rparr>) st)"
    "areas (put_space l ((space_of st l)\<lparr>sp_hint := h\<rparr>) st) k = areas st k"
    "cap (space_of (put_space l ((space_of st l)\<lparr>sp_hint := h\<rparr>) st) l) = cap (space_of st l)"
    "mine l st (put_space l ((space_of st l)\<lparr>sp_hint := h\<rparr>) st)"
proof -
  let ?sp = "(space_of st l)\<lparr>sp_hint := h\<rparr>"
  note D = vm_offD [OF off]
  have ll: "l < length (vspaces st)" using D(1) l by simp
  have tot: "total ob ((vspaces st)[l := ?sp]) = total ob (vspaces st)" for ob
    using total_update [OF ll, of ob ?sp] by (simp add: space_of_def)
  have "space_inv ?sp" using D(2) [OF l] h by (simp add: space_inv_def cap_def)
  then have "\<forall>x \<in> set ((vspaces st)[l := ?sp]). space_inv x"
    using off set_update_subset_insert [of "vspaces st" l ?sp] by (auto simp: vm_off_def)
  then show "vm_off e (put_space l ?sp st)" using D(1,3) by (simp add: vm_off_def tot)
  show "areas (put_space l ?sp st) k = areas st k" "cap (space_of (put_space l ?sp st) l) = cap (space_of st l)"
    using space_of_put [OF ll] by (simp_all add: cap_def)
  then show "mine l st (put_space l ?sp st)" using space_of_put [OF ll, of ?sp] by (simp add: mine_def)
qed

text \<open>The two ways of choosing a place leave a free, aligned range of the region.\<close>

definition placed :: "nat \<Rightarrow> nat \<Rightarrow> nat \<Rightarrow> vm \<Rightarrow> bool" where
  "placed l start n st \<longleftrightarrow> vm_ok st \<and> length (areas st l) + 1 \<le> cap (space_of st l) \<and>
     free_range start n (areas st l) \<and> 4096 dvd start \<and> MMAP_BASE \<le> start \<and> start + n \<le> MMAP_END"

lemma free_range_None: "table_wf vs \<Longrightarrow> free_range a n vs \<Longrightarrow> a \<le> x \<Longrightarrow> x < a + n \<Longrightarrow> view vs x = None"
  by (rule free_range_view) (auto simp: table_wf_def)

lemma mmap_fixed_cases:
  assumes m: "mmap_fixed l root addr n flags st = (r, st')"
  obtains "st' = st" "\<exists>e. r = Inl e"
    | "4096 dvd addr" "MMAP_BASE \<le> addr" "addr + n \<le> MMAP_END" "overlaps addr (addr + n) (areas st l)" "r = Inr addr"
      "st' = snd (with_mmu (\<lambda>m. prod.swap (unmap_range root addr (addr + n) m)) (on_areas l (carve addr (addr + n)) st))"
    | "4096 dvd addr" "MMAP_BASE \<le> addr" "addr + n \<le> MMAP_END" "\<not> overlaps addr (addr + n) (areas st l)" "r = Inr addr" "st' = st"
  proof (cases "4096 dvd addr \<and> MMAP_BASE \<le> addr \<and> addr + n \<le> MMAP_END")
    case True
    then have ca: "checked_add addr n = Some (addr + n)" using MMAP_bound by (simp add: checked_add_def)
    have m': "mmap_fixed l root addr n flags st =
        (if overlaps addr (addr + n) (areas st l) then
           if flags AND MAP_NOREPLACE \<noteq> 0 then (Inl EEXIST, st)
           else (Inr addr, snd (with_mmu (\<lambda>m. prod.swap (unmap_range root addr (addr + n) m))
             (on_areas l (carve addr (addr + n)) st)))
         else (Inr addr, st))"
      using True unfolding mmap_fixed_def ca Let_def by (simp add: mod_eq_0_iff_dvd split_def)
    show thesis
    proof (cases "overlaps addr (addr + n) (areas st l)")
      case ov: True
      show thesis
      proof (cases "flags AND MAP_NOREPLACE \<noteq> 0")
        case True
        then show thesis using m ov unfolding m' by (intro that(1)) auto
      next
        case False
        then show thesis using m ov True unfolding m' by (intro that(2)) simp_all
      qed
    next
      case False
      then show thesis using m True unfolding m' by (intro that(3)) simp_all
    qed
  next
    case False
    then have "st' = st \<and> (\<exists>e. r = Inl e)"
      using m unfolding mmap_fixed_def by (simp add: checked_add_def mod_eq_0_iff_dvd split: if_splits) auto
    then show thesis using that(1) by blast
  qed

text \<open>The objects that nothing maps are not touched.\<close>

lemma carve_idle:
  assumes ok: "vm_ok st" and l: "l < MAX_PROCS" and r: "start < stop" "4096 dvd start" "4096 dvd stop"
    and ob: "ob \<noteq> 0" "vmaps st ob = 0"
  shows "obj_at (shm_view (on_areas l (carve start stop) st)) ob = obj_at (shm_view st) ob"
proof -
  note wf = space_invD(1) [OF vm_offD(2) [OF ok l]]
  obtain vs cs where c: "carve start stop (areas st l) = (vs, cs)" by fastforce
  have u0: "uses ob (areas st l) = 0"
    using vm_offD(3) [OF ok ob(1)] ob(2) total_ge [of l "vspaces st" ob] vm_offD(1) [OF ok] l by (simp add: space_of_def)
  have "ob \<notin> fst ` set cs"
  proof (cases "\<forall>c \<in> set cs. snd c = - 1")
    case True
    have "0 \<le> net ob cs" using carve_ref(2) [OF wf r(1), of ob] u0 c by simp
    then show ?thesis by (rule net_downs [OF True])
  next
    case False
    then obtain v where v: "v \<in> set (areas st l)" "cs = [(v_obj v, 1)]"
      using carve_shaped [OF wf r(1)] c by (auto simp: shaped_def)
    then show ?thesis using uses_pos [OF v(1)] u0 by auto
  qed
  then show ?thesis using obj_refs_other by (simp add: on_areas_def c)
qed

lemma mmu_objs [simp]: "obj_at (shm_view (snd (with_mmu f st))) ob = obj_at (shm_view st) ob"
  by (simp add: with_mmu_def set_mmu_def split_def Let_def shm_view_def obj_at_def)

lemma mmap_fixed_idle:
  assumes ok: "vm_ok st" and l: "l < MAX_PROCS" and n: "0 < n" "4096 dvd n" and ob: "ob \<noteq> 0" "vmaps st ob = 0"
    and m: "mmap_fixed l root addr n flags st = (r, st')"
  shows "obj_at (shm_view st') ob = obj_at (shm_view st) ob"
  using m
proof (cases rule: mmap_fixed_cases)
  case 2
  then show ?thesis using carve_idle [OF ok l _ 2(1) _ ob] n by simp
qed simp_all

lemma mmap_any_objs: "shm_view (snd (mmap_any l addr n st)) = shm_view st"
  by (simp add: mmap_any_def Let_def split: option.split)

lemma reserve_objs: "reserve l k st = (b, st') \<Longrightarrow> obj_at (shm_view st') ob = obj_at (shm_view st) ob"
  by (auto simp: reserve_def Let_def shm_view_def put_space_def obj_at_def split: if_splits option.splits prod.splits)

lemma mmap_fixed_spec:
  assumes ok: "vm_ok st" and l: "l < MAX_PROCS" and n: "0 < n" "4096 dvd n"
    and room: "length (areas st l) + 2 \<le> cap (space_of st l)"
    and m: "mmap_fixed l root addr n flags st = (r, st')"
  shows "case r of Inl e \<Rightarrow> st' = st | Inr start \<Rightarrow> start = addr \<and> placed l addr n st' \<and> mine l st st' \<and>
      (\<forall>x. view (areas st' l) x = (if addr \<le> x \<and> x < addr + n then None else view (areas st l) x))"
proof -
  note wf = space_invD(1) [OF vm_offD(2) [OF ok l]]
  show ?thesis
    using m
  proof (cases rule: mmap_fixed_cases)
    case 1
    then show ?thesis by auto
  next
    case 2
    have al: "addr < addr + n" "4096 dvd addr + n" using n 2(1) by auto
    note C = carve_off [OF ok l order_refl al(1) 2(1) al(2)]
    have room': "length (areas st l) + 1 \<le> cap (space_of st l)" using room by simp
    note c = carve_spec [OF wf al(1) 2(1) al(2)]
    have "free_range addr n (fst (carve addr (addr + n) (areas st l)))"
      using carve_free(1) [OF wf al(1)] by simp
    moreover have "length (fst (carve addr (addr + n) (areas st l))) + 1 \<le> cap (space_of st l)"
      using length_carve [OF wf al(1)] room by simp
    ultimately show ?thesis using C [OF room'] 2 c(2) onlyD(1) [OF C(3) [OF room']] mine_simps(3) [OF C(3) [OF room']]
      by (simp add: placed_def)
  next
    case 3
    have "free_range addr n (areas st l)" using not_overlaps_free [OF wf 3(4)] n by simp
    then show ?thesis using 3 ok room free_range_None [OF wf] by (simp add: placed_def mine_simps)
  qed
qed

lemma mmap_any_spec:
  assumes ok: "vm_ok st" and l: "l < MAX_PROCS" and n: "0 < n" "4096 dvd n"
    and room: "length (areas st l) + 2 \<le> cap (space_of st l)"
    and m: "mmap_any l addr n st = (r, st')"
  shows "case r of
      Inl e \<Rightarrow> st' = st \<and> e = ENOMEM \<and> (\<forall>b. MMAP_BASE \<le> b \<and> b + n \<le> MMAP_END \<longrightarrow> \<not> free_range b n (areas st l))
    | Inr start \<Rightarrow> placed l start n st' \<and> mine l st st' \<and> areas st' l = areas st l"
proof -
  note W = vm_offD(2) [OF ok l]
  note wf = space_invD(1) [OF W]
  note g = gap_spec [OF wf space_invD(3) [OF W]]
  consider "r = Inr (page_down addr)" "MMAP_BASE \<le> page_down addr" "page_down addr + n \<le> MMAP_END"
      "\<not> overlaps (page_down addr) (page_down addr + n) (areas st l)" "st' = st"
    | "gap (sp_hint (space_of st l)) n (areas st l) = None" "r = Inl ENOMEM" "st' = st"
    | a where "gap (sp_hint (space_of st l)) n (areas st l) = Some a" "r = Inr a"
        "st' = put_space l ((space_of st l)\<lparr>sp_hint := a + n\<rparr>) st"
  proof (cases "MMAP_BASE \<le> page_down addr \<and> page_down addr + n \<le> MMAP_END \<and>
      \<not> overlaps (page_down addr) (page_down addr + n) (areas st l)")
    case True
    then have ca: "checked_add (page_down addr) n = Some (page_down addr + n)"
      using MMAP_bound by (simp add: checked_add_def)
    show thesis using m True unfolding mmap_any_def Let_def ca by (intro that(1)) simp_all
  next
    case False
    then have "mmap_any l addr n st = (case gap (sp_hint (space_of st l)) n (areas st l) of
          None \<Rightarrow> (Inl ENOMEM, st)
        | Some a \<Rightarrow> (Inr a, put_space l ((space_of st l)\<lparr>sp_hint := a + n\<rparr>) st))"
      unfolding mmap_any_def Let_def by (simp add: checked_add_def) blast
    then show thesis using m that(2,3) by (cases "gap (sp_hint (space_of st l)) n (areas st l)") simp_all
  qed
  then show ?thesis
  proof cases
    case 1
    have "free_range (page_down addr) n (areas st l)" using not_overlaps_free [OF wf 1(4)] n by simp
    then show ?thesis using 1 ok room page_down_simps(3) by (simp add: placed_def mine_simps)
  next
    case 2
    then show ?thesis using g(2) by simp
  next
    case (3 a)
    note G = g(1) [OF 3(1)]
    have al: "4096 dvd a + n" using G n by simp
    note H = hint_off [OF ok l al]
    show ?thesis using G H room 3 by (simp add: placed_def)
  qed
qed

text \<open>The new area as the faults see it.\<close>

definition new_attr :: "nat \<Rightarrow> u64 \<Rightarrow> nat \<Rightarrow> nat \<Rightarrow> nat \<Rightarrow> nat \<Rightarrow> attr" where
  "new_attr start prot ob ino pgoff x =
     (prot, ob, ino, if ob = 0 \<and> ino = 0 then 0 else pgoff + (x - start) div 4096)"

lemma mmap_full_spec:
  assumes ok: "vm_ok st" and l: "l < MAX_PROCS" and ob: "ob \<noteq> 0 \<longrightarrow> pinned (shm_view st) ob"
    and m: "mmap_full (Some (l, root)) addr len prot flags ob ino pgoff st = (r, st')"
  shows "vm_ok st' \<and> mine l st st' \<and>
    (case r of
      Inl e \<Rightarrow> (\<forall>x. view (areas st' l) x = view (areas st l) x) \<and>
        (e = ENOMEM \<and> flags AND MAP_FIXED = 0 \<and> page_up len \<noteq> None \<and> fst (reserve l 2 st) \<longrightarrow>
          (\<forall>b. MMAP_BASE \<le> b \<and> b + the (page_up len) \<le> MMAP_END \<longrightarrow> \<not> free_range b (the (page_up len)) (areas st l)))
    | Inr start \<Rightarrow> (\<exists>n. page_up len = Some n \<and> 0 < n \<and> prot AND NOT 7 = 0 \<and>
        4096 dvd start \<and> MMAP_BASE \<le> start \<and> start + n \<le> MMAP_END \<and>
        (if flags AND MAP_FIXED \<noteq> 0 then start = addr else free_range start n (areas st l)) \<and>
        (\<forall>x. view (areas st' l) x =
          (if start \<le> x \<and> x < start + n then Some (new_attr start prot ob ino pgoff x) else view (areas st l) x))))"
proof -
  have err: ?thesis if "r = Inl e" "st' = st" "e \<noteq> ENOMEM \<or> page_up len = None" for e
    using ok that by (auto simp: mine_simps)
  show ?thesis
  proof (cases "page_up len")
    case None
    then show ?thesis using m by (intro err) (auto simp: mmap_full_def)
  next
    case (Some n)
    note n = page_up_Some [OF Some]
    show ?thesis
    proof (cases "n = 0 \<or> prot AND NOT 7 \<noteq> 0")
      case True
      then show ?thesis using m Some by (intro err) (auto simp: mmap_full_def EINVAL_def ENOMEM_def)
    next
      case nz: False
      obtain b s1 where r1: "reserve l 2 st = (b, s1)" by (cases "reserve l 2 st")
      note R = reserve_off [OF ok l order_refl r1]
      have m1: "mine l st s1" by (rule reserve_mine [OF ok l order_refl r1])
      show ?thesis
      proof (cases b)
        case False
        then show ?thesis using m R(1,2) m1 r1 Some nz by (auto simp: mmap_full_def)
      next
        case b: True
        define p where "p = (if flags AND MAP_FIXED \<noteq> 0 then mmap_fixed l root addr n flags s1 else mmap_any l addr n s1)"
        obtain r2 s2 where r2: "p = (r2, s2)" by (cases p)
        have room: "length (areas s1 l) + 2 \<le> cap (space_of s1 l)" using R(4) [OF b] by simp
        have n0: "0 < n" "4096 dvd n" using nz n by auto
        have m': "mmap_full (Some (l, root)) addr len prot flags ob ino pgoff st =
            (case p of (Inl e, st) \<Rightarrow> (Inl e, st) | (Inr start, st) \<Rightarrow>
               (Inr start, on_areas l (add_vma \<lparr>v_start = start, v_end = start + n, v_prot = prot,
                             v_obj = ob, v_ino = ino, v_pgoff = pgoff\<rparr>) (obj_ref (ob, 1) st)))"
          using nz b r1 Some unfolding mmap_full_def p_def by simp
        have fx: "flags AND MAP_FIXED \<noteq> 0 \<Longrightarrow> case r2 of Inl e \<Rightarrow> s2 = s1 | Inr start \<Rightarrow> start = addr \<and> placed l addr n s2 \<and> mine l s1 s2 \<and>
            (\<forall>x. view (areas s2 l) x = (if addr \<le> x \<and> x < addr + n then None else view (areas s1 l) x))"
          using mmap_fixed_spec [OF R(1) l n0 room, of root addr flags r2 s2] r2 by (simp add: p_def)
        have an: "flags AND MAP_FIXED = 0 \<Longrightarrow> case r2 of
            Inl e \<Rightarrow> s2 = s1 \<and> e = ENOMEM \<and> (\<forall>b. MMAP_BASE \<le> b \<and> b + n \<le> MMAP_END \<longrightarrow> \<not> free_range b n (areas s1 l))
          | Inr start \<Rightarrow> placed l start n s2 \<and> mine l s1 s2 \<and> areas s2 l = areas s1 l"
          using mmap_any_spec [OF R(1) l n0 room, of addr r2 s2] r2 by (simp add: p_def)
        show ?thesis
        proof (cases r2)
          case (Inl e)
          have "s2 = s1" using fx an Inl by (cases "flags AND MAP_FIXED = 0") auto
          moreover have "r = Inl e" "st' = s2" using m unfolding m' r2 Inl by auto
          ultimately show ?thesis using R(1,2) m1 an Inl Some by auto
        next
          case (Inr start)
          let ?v = "\<lparr>v_start = start, v_end = start + n, v_prot = prot, v_obj = ob, v_ino = ino, v_pgoff = pgoff\<rparr>"
          let ?s3 = "obj_ref (ob, 1) s2"
          have st': "r = Inr start" "st' = on_areas l (add_vma ?v) ?s3" using m unfolding m' r2 Inr by auto
          have pl: "placed l start n s2" "mine l s1 s2" using fx an Inr by (cases "flags AND MAP_FIXED = 0"; auto)+
          have m2: "mine l st s2" by (rule mine_simps(2) [OF m1 pl(2)])
          have live: "ob \<noteq> 0 \<longrightarrow> obj_at (shm_view s2) ob \<noteq> None"
          proof (rule impI, cases "vopened st ob")
            case True
            then show "obj_at (shm_view s2) ob \<noteq> None" using m2 by (auto simp: mine_def opened_def)
          next
            case False
            assume "ob \<noteq> 0"
            then have z: "obj_at (shm_view s1) ob \<noteq> None" "vmaps s1 ob = 0"
              using False ob pinned_cases [of "shm_view st" ob] reserve_objs [OF r1] R(6) by auto
            show "obj_at (shm_view s2) ob \<noteq> None"
            proof (cases "flags AND MAP_FIXED = 0")
              case True
              then show ?thesis using z mmap_any_objs [of l addr n s1] r2 by (auto simp: p_def)
            next
              case False
              then show ?thesis using mmap_fixed_idle [OF R(1) l n0 \<open>ob \<noteq> 0\<close> z(2)] z(1) r2 by (auto simp: p_def)
            qed
          qed
          note u = obj_ref_up [OF live]
          have so: "space_of ?s3 k = space_of s2 k" for k using u(3) by (simp add: space_of_def)
          have off: "vm_off (\<lambda>x. if ob = x then 1 else 0) ?s3"
            using pl(1) u(1,3) by (simp add: vm_off_def placed_def)
          have v: "vma_wf ?v" "free_range (v_start ?v) (v_end ?v - v_start ?v) (areas ?s3 l)"
            using pl(1) n0 by (auto simp: placed_def vma_wf_def so)
          have room3: "length (areas ?s3 l) + 1 \<le> cap (space_of ?s3 l)" using pl(1) by (simp add: placed_def so)
          note A = add_off [OF off l _ v room3, simplified]
          have ok': "vm_ok st'" using A(1) unfolding st' by simp
          have m3: "mine l st st'"
            using m2 u(2) so mine_simps(3) [OF A(3)] by (simp add: mine_def st')
          have vw: "view (areas st' l) x = (if start \<le> x \<and> x < start + n then Some (new_attr start prot ob ino pgoff x)
              else view (areas s2 l) x)" for x
            using A(2) add_vma_spec(2) [OF space_invD(1) [OF vm_offD(2) [OF off l]] v, of x]
            by (simp add: st' covers_def so attr_at_def new_attr_def)
          have fr: "if flags AND MAP_FIXED \<noteq> 0 then start = addr else free_range start n (areas st l)"
            using fx an Inr R(2) by (auto simp: placed_def)
          have old: "view (areas s2 l) x = view (areas st l) x" if "\<not> (start \<le> x \<and> x < start + n)" for x
            using that fx an Inr R(2) by (cases "flags AND MAP_FIXED = 0") auto
          show ?thesis using ok' m3 st'(1) pl(1) vw old fr Some nz n0 by (auto simp: placed_def)
        qed
      qed
    qed
  qed
qed

lemma mprotect_run:
  assumes ok: "vm_ok s1" and l: "l < MAX_PROCS" and r: "start < stop" "4096 dvd start" "4096 dvd stop"
    and room: "length (areas s1 l) + 2 \<le> cap (space_of s1 l)"
    and st': "st' = on_areas l (\<lambda>vs. (set_prot_loop stop prot (lower start vs) vs, []))
      (on_areas l (split_at stop) (on_areas l (split_at start) s1))"
  shows "vm_ok st'" "mine l s1 st'"
    "view (areas st' l) x = (if start \<le> x \<and> x < stop then map_option (\<lambda>(p, r). (prot, r)) (view (areas s1 l) x)
      else view (areas s1 l) x)"
proof -
  let ?s2 = "on_areas l (split_at start) s1"
  let ?s3 = "on_areas l (split_at stop) ?s2"
  let ?f = "\<lambda>vs. (set_prot_loop stop prot (lower start vs) vs, [])"
  have room1: "length (areas s1 l) + 1 \<le> cap (space_of s1 l)" using room by simp
  note W1 = space_invD(1) [OF vm_offD(2) [OF ok l]]
  note A = split_off [OF ok l r(2) room1]
  note sa = split_at_spec [OF W1 r(2)]
  have "length (areas ?s2 l) \<le> length (areas s1 l) + 1" using split_at_ref(3) [OF W1, of start] A(2) by simp
  then have room2: "length (areas ?s2 l) + 1 \<le> cap (space_of ?s2 l)" using room onlyD(1) [OF A(3)] by simp
  note W2 = space_invD(1) [OF vm_offD(2) [OF A(1) l]]
  note B = split_off [OF A(1) l r(3) room2]
  note sb = split_at_spec [OF W2 r(3)]
  have c: "cut_free start (areas ?s3 l)" "cut_free stop (areas ?s3 l)"
    using sb(3) sb(4) [of start] sa(3) by (simp_all add: B(2) A(2))
  note C = set_prot_off [OF B(1) l c r(1) refl, of prot]
  have eq: "st' = on_areas l ?f ?s3" by (rule st')
  show "vm_ok st'" unfolding eq by (rule C(1))
  show "mine l s1 st'" unfolding eq
    by (rule mine_simps(3), rule only_trans [OF A(3)], rule only_trans [OF B(3) C(3)])
  note W3 = space_invD(1) [OF vm_offD(2) [OF B(1) l]]
  have same: "view (areas ?s3 l) x = view (areas s1 l) x"
    using sb(2) [of x] sa(2) [of x] by (simp add: B(2) A(2))
  show "view (areas st' l) x = (if start \<le> x \<and> x < stop then map_option (\<lambda>(p, r). (prot, r)) (view (areas s1 l) x)
      else view (areas s1 l) x)"
    using set_prot_spec(4) [where prot = prot, OF W3 c r(1) refl, of x] unfolding eq C(2) same by simp
qed

lemma mprotect_spec:
  assumes ok: "vm_ok st" and l: "l < MAX_PROCS" and m: "mprotect (Some (l, root)) addr len prot st = (r, st')"
  shows "vm_ok st' \<and> mine l st st' \<and>
    (case r of
      Inl e \<Rightarrow> (\<forall>x. view (areas st' l) x = view (areas st l) x) \<and>
        (e = ENOMEM \<and> page_up len \<noteq> None \<and> addr + the (page_up len) \<le> u64_max \<and> fst (reserve l 2 st) \<longrightarrow>
          (\<exists>x. addr \<le> x \<and> x < addr + the (page_up len) \<and> view (areas st l) x = None))
    | Inr _ \<Rightarrow> (\<exists>n. page_up len = Some n \<and> 4096 dvd addr \<and> prot AND NOT 7 = 0 \<and>
        (\<forall>x. addr \<le> x \<and> x < addr + n \<longrightarrow> view (areas st l) x \<noteq> None) \<and>
        (\<forall>x. view (areas st' l) x =
          (if addr \<le> x \<and> x < addr + n then map_option (\<lambda>(p, r). (prot, r)) (view (areas st l) x)
           else view (areas st l) x))))"
proof (cases "4096 dvd addr \<and> prot AND NOT 7 = 0 \<and> (\<exists>n. page_up len = Some n \<and> addr + n \<le> u64_max)")
  case False
  then have "st' = st \<and> (\<exists>e. r = Inl e \<and> (e = ENOMEM \<longrightarrow> page_up len = None \<or> u64_max < addr + the (page_up len)))"
    using m unfolding mprotect_def
    by (auto simp: checked_add_def mod_eq_0_iff_dvd EINVAL_def ENOMEM_def split: if_splits option.splits)
  then show ?thesis using ok by (auto simp: mine_simps)
next
  case True
  then obtain n where t: "4096 dvd addr" "prot AND NOT 7 = 0" "page_up len = Some n" "addr + n \<le> u64_max" by blast
  then have ca: "checked_add addr n = Some (addr + n)" "checked_add addr 0 = Some addr"
    by (simp_all add: checked_add_def)
  note wf = space_invD(1) [OF vm_offD(2) [OF ok l]]
  have m1: "mprotect (Some (l, root)) addr len prot st =
    (if n = 0 then (Inr (), st) else if \<not> covered addr (addr + n) (areas st l) then (Inl ENOMEM, st)
     else case reserve l 2 st of (False, st) \<Rightarrow> (Inl ENOMEM, st) | (True, st) \<Rightarrow>
       (Inr (), snd (with_mmu (\<lambda>m. prod.swap (protect_range root addr (addr + n) (user_prot prot) m))
         (on_areas l (\<lambda>vs. (set_prot_loop (addr + n) prot (lower addr vs) vs, []))
           (on_areas l (split_at (addr + n)) (on_areas l (split_at addr) st))))))"
    unfolding mprotect_def Let_def by (simp add: mod_eq_0_iff_dvd t(1,3) t(2) [simplified] ca)
  show ?thesis
  proof (cases "n = 0 \<or> \<not> covered addr (addr + n) (areas st l)")
    case True
    then show ?thesis using m ok t covered_iff [OF wf, of addr "addr + n"] unfolding m1
      by (auto simp: mine_simps split: if_splits)
  next
    case False
    obtain b s1 where r1: "reserve l 2 st = (b, s1)" by (cases "reserve l 2 st")
    note R = reserve_off [OF ok l order_refl r1]
    have m2: "mine l st s1" by (rule reserve_mine [OF ok l order_refl r1])
    show ?thesis
    proof (cases b)
      case False
      then show ?thesis using m R(1,2) m2 r1 \<open>\<not> (n = 0 \<or> _)\<close> unfolding m1 by auto
    next
      case b: True
      have room: "length (areas s1 l) + 2 \<le> cap (space_of s1 l)" using R(4) [OF b] by simp
      have rg: "addr < addr + n" "4096 dvd addr + n" using False t page_up_Some [OF t(3)] by auto
      note P = mprotect_run [OF R(1) l rg(1) t(1) rg(2) room refl, of prot]
      have "r = Inr ()" "st' = snd (with_mmu (\<lambda>m. prod.swap (protect_range root addr (addr + n) (user_prot prot) m))
         (on_areas l (\<lambda>vs. (set_prot_loop (addr + n) prot (lower addr vs) vs, []))
           (on_areas l (split_at (addr + n)) (on_areas l (split_at addr) s1))))"
        using m r1 b False unfolding m1 by auto
      then show ?thesis using P mine_simps(2) [OF m2 P(2)] R(2) t False covered_iff [OF wf, of addr "addr + n"]
        by simp
    qed
  qed
qed

lemma add_anon_off:
  assumes ok: "vm_ok st" and l: "l < MAX_PROCS" and v: "a < b" "4096 dvd a" "4096 dvd b" "free_range a (b - a) (areas st l)"
    and room: "length (areas st l) + 1 \<le> cap (space_of st l)"
  shows "vm_ok (on_areas l (add_vma (anon a b prot)) st)"
    "areas (on_areas l (add_vma (anon a b prot)) st) l = fst (add_vma (anon a b prot) (areas st l))"
    "only l st (on_areas l (add_vma (anon a b prot)) st)"
proof -
  have v': "vma_wf (anon a b prot)" "free_range (v_start (anon a b prot)) (v_end (anon a b prot) - v_start (anon a b prot)) (areas st l)"
    using v by (simp_all add: anon_def vma_wf_def)
  note A = add_off [OF ok l _ v' room]
  have o: "ob \<noteq> 0 \<Longrightarrow> (if v_obj (anon a b prot) = ob then 1 else 0) \<le> (0::int)" for ob by (simp add: anon_def)
  show "vm_ok (on_areas l (add_vma (anon a b prot)) st)"
    using A(1) [OF o] by (simp add: vm_off_def) (simp add: anon_def)
  show "areas (on_areas l (add_vma (anon a b prot)) st) l = fst (add_vma (anon a b prot) (areas st l))"
    "only l st (on_areas l (add_vma (anon a b prot)) st)" using A(2,3) [OF o] by simp_all
qed

lemma mremap_grow_ok:
  assumes ok: "vm_ok st" and l: "l < MAX_PROCS" and room: "length (areas st l) + 2 \<le> cap (space_of st l)"
    and al: "4096 dvd old_addr" "4096 dvd n" "4096 dvd old_end" and lt: "0 < n" "old_addr < old_end \<and> old_end < old_addr + n"
    and m: "mremap_grow l root old_addr old_end n prot flags st = (r, st')"
  shows "vm_ok st' \<and> mine l st st'"
proof -
  note W = vm_offD(2) [OF ok l]
  note wf = space_invD(1) [OF W]
  have room1: "length (areas st l) + 1 \<le> cap (space_of st l)" using room by simp
  define ne where "ne = saturating_add old_addr n"
  note m' = m [unfolded mremap_grow_def ne_def [symmetric], unfolded Let_def]
  show ?thesis
  proof (cases "ne \<le> MMAP_END \<and> \<not> overlaps old_end ne (areas st l)")
    case True
    then have ne: "ne = old_addr + n"
      by (auto simp: ne_def saturating_add_def MMAP_END_def u64_max_def min_def split: if_splits)
    have v: "old_end < ne" "4096 dvd old_end" "4096 dvd ne" "free_range old_end (ne - old_end) (areas st l)"
      using al lt not_overlaps_free [OF wf conjunct2 [OF True]] by (simp_all add: ne)
    note A = add_anon_off [OF ok l v room1, of prot]
    have "st' = on_areas l (add_vma (anon old_end ne prot)) st" using m' True by simp
    then show ?thesis using A(1,3) by (simp add: mine_simps(3))
  next
    case no: False
    show ?thesis
    proof (cases "flags AND MREMAP_MAYMOVE = 0 \<or> gap (sp_hint (space_of st l)) n (areas st l) = None")
      case True
      then have "st' = st" using m' no by (auto split: if_splits)
      then show ?thesis using ok by (simp add: mine_simps)
    next
      case False
      then obtain na where na: "gap (sp_hint (space_of st l)) n (areas st l) = Some na" by auto
      note G = gap_spec(1) [OF wf space_invD(3) [OF W] na]
      have aln: "4096 dvd na + n" using G al by simp
      let ?s1 = "put_space l ((space_of st l)\<lparr>sp_hint := na + n\<rparr>) st"
      note H = hint_off [OF ok l aln]
      let ?s2 = "on_areas l (carve old_addr old_end) ?s1"
      have r1: "length (areas ?s1 l) + 1 \<le> cap (space_of ?s1 l)" using H(2,3) room1 by simp
      note C = carve_off [OF H(1) l order_refl conjunct1 [OF lt(2)] al(1,3) r1]
      let ?v = "anon na (na + n) prot"
      have "length (areas ?s2 l) \<le> length (areas st l) + 1"
        using length_carve [OF wf conjunct1 [OF lt(2)]] by (simp only: C(2) H(2))
      then have r2: "length (areas ?s2 l) + 1 \<le> cap (space_of ?s2 l)" using room onlyD(1) [OF C(3)] H(3) by simp
      have fr: "free_range na n (areas ?s2 l)"
        unfolding C(2) H(2) using carve_free(2) [OF wf conjunct1 [OF lt(2)]] G by blast
      have v: "na < na + n" "4096 dvd na" "free_range na (na + n - na) (areas ?s2 l)" using G lt fr by simp_all
      note A = add_anon_off [OF C(1) l v(1,2) aln v(3) r2, of prot]
      have st': "st' = snd (with_mmu (\<lambda>m. prod.swap (move_range root old_addr old_end na m)) (on_areas l (add_vma ?v) ?s2))"
        using m' no False na by auto
      have "mine l st (on_areas l (add_vma ?v) ?s2)"
        by (rule mine_simps(2) [OF H(4)], rule mine_simps(3), rule only_trans [OF C(3) A(3)])
      then show ?thesis using A(1) unfolding st' by simp
    qed
  qed
qed

lemma mremap_ok:
  assumes ok: "vm_ok st" and l: "l < MAX_PROCS"
    and m: "mremap (Some (l, root)) old_addr old_len new_len flags st = (r, st')"
  shows "vm_ok st' \<and> mine l st st'"
proof (cases "old_addr mod 4096 \<noteq> 0 \<or> old_addr < MMAP_BASE \<or> old_len = 0 \<or> new_len = 0 \<or> flags AND NOT MREMAP_MAYMOVE \<noteq> 0")
  case True
  then show ?thesis using m ok by (simp add: mremap_def mine_simps)
next
  case c1: False
  show ?thesis
  proof (cases "page_up old_len = None \<or> page_up new_len = None")
    case True
    then show ?thesis using m c1 ok by (auto simp: mremap_def mine_simps split: option.splits)
  next
    case False
    then obtain n' n where n: "page_up old_len = Some n'" "page_up new_len = Some n" by auto
    have al: "4096 dvd n'" "4096 dvd n" "4096 dvd old_addr" "0 < n'" "0 < n"
      using page_up_Some [OF n(1)] page_up_Some [OF n(2)] c1 by auto
    show ?thesis
    proof (cases "old_addr + n' \<le> MMAP_END")
      case False
      then show ?thesis using m c1 n ok
        by (auto simp: mremap_def checked_add_def mine_simps split: if_splits option.splits)
    next
      case fits: True
      then have ca: "checked_add old_addr n' = Some (old_addr + n')" using MMAP_bound by (simp add: checked_add_def)
      note m1 = m [unfolded mremap_def, unfolded if_not_P [OF c1] n option.case ca if_not_P [OF fits [folded not_less]]]
      show ?thesis
      proof (cases "n \<le> n'")
        case True
        then show ?thesis
        proof (cases "n = n'")
          case True
          then show ?thesis using m1 ok by (simp add: mine_simps)
        next
          case False
          obtain r2 s2 where mu: "munmap (Some (l, root)) (old_addr + n) (n' - n) st = (r2, s2)" by fastforce
          have "st' = s2" using m1 \<open>n \<le> n'\<close> False mu by (auto split: sum.splits)
          then show ?thesis using munmap_spec(1,2) [OF ok l mu] by simp
        qed
      next
        case grow: False
        show ?thesis
        proof (cases "find_vma old_addr (areas st l)")
          case None
          then show ?thesis using m1 ok grow by (simp add: mine_simps)
        next
          case (Some v)
          show ?thesis
          proof (cases "old_addr < v_start v \<or> v_end v < old_addr + n' \<or> v_obj v \<noteq> 0 \<or> v_ino v \<noteq> 0")
            case True
            then show ?thesis using m1 ok grow Some by (simp add: mine_simps)
          next
            case priv: False
            obtain b s1 where r1: "reserve l 2 st = (b, s1)" by (cases "reserve l 2 st")
            note R = reserve_off [OF ok l order_refl r1]
            have mi: "mine l st s1" by (rule reserve_mine [OF ok l order_refl r1])
            show ?thesis
            proof (cases b)
              case False
              then show ?thesis using m1 grow Some priv r1 R(1) mi by simp
            next
              case b: True
              have m2: "(r, st') = mremap_grow l root old_addr (old_addr + n') n (v_prot v) flags s1"
                using m1 grow Some priv r1 b by simp
              show ?thesis using mremap_grow_ok [OF R(1) l R(4) [OF b] al(3) al(2) _ al(5) _ m2 [symmetric]] al(1,3,4) grow mi
                by (auto simp: mine_simps(2))
            qed
          qed
        qed
      qed
    qed
  qed
qed

lemma discard_ok:
  "vm_ok st \<Longrightarrow> discard (Some (l, root)) addr len st = (r, st') \<Longrightarrow> vm_ok st' \<and> mine l st st' \<and> areas st' k = areas st k"
  unfolding discard_def Let_def by (auto simp: mine_simps split: if_splits option.splits)

lemma add_region_ok:
  assumes ok: "vm_ok st" and l: "l < MAX_PROCS" and v: "start < stop" "4096 dvd start" "4096 dvd stop"
    and m: "add_region l start stop prot st = (b, st')"
  shows "vm_ok st' \<and> mine l st st'"
proof -
  obtain c s1 where r1: "reserve l 1 st = (c, s1)" by (cases "reserve l 1 st")
  note R = reserve_off [OF ok l _ r1, simplified]
  have mi: "mine l st s1" by (rule reserve_mine [OF ok l _ r1]) simp
  show ?thesis
  proof (cases "c \<and> \<not> overlaps start stop (areas s1 l)")
    case True
    have f: "free_range start (stop - start) (areas s1 l)"
      using not_overlaps_free [OF space_invD(1) [OF vm_offD(2) [OF R(1) l]] conjunct2 [OF True] v(1)] .
    have room: "length (areas s1 l) + 1 \<le> cap (space_of s1 l)" using R(4) True by simp
    note A = add_anon_off [OF R(1) l v f room, of prot]
    have "st' = on_areas l (add_vma (anon start stop prot)) s1" using m True r1 by (simp add: add_region_def)
    then show ?thesis using A(1) mine_simps(2) [OF mi mine_simps(3) [OF A(3)]] by simp
  next
    case False
    then have "st' = s1" using m r1 by (auto simp: add_region_def split: bool.splits)
    then show ?thesis using R(1) mi by simp
  qed
qed

lemma add_region_over_ok:
  assumes ok: "vm_ok st" and l: "l < MAX_PROCS" and v: "4096 dvd start" "4096 dvd stop"
  shows "vm_ok (add_region_over l start stop prot st) \<and> mine l st (add_region_over l start stop prot st)"
proof (cases "start < stop")
  case False
  then show ?thesis using ok by (simp add: add_region_over_def mine_simps)
next
  case lt: True
  obtain c s1 where r1: "reserve l 2 st = (c, s1)" by (cases "reserve l 2 st")
  note R = reserve_off [OF ok l _ r1, simplified]
  have mi: "mine l st s1" by (rule reserve_mine [OF ok l _ r1]) simp
  show ?thesis
  proof (cases c)
    case True
    note wf = space_invD(1) [OF vm_offD(2) [OF R(1) l]]
    have room: "length (areas s1 l) + 1 \<le> cap (space_of s1 l)" using R(4) True by simp
    note C = carve_off [OF R(1) l order_refl lt v room]
    let ?s2 = "on_areas l (carve start stop) s1"
    have "length (areas ?s2 l) \<le> length (areas s1 l) + 1" using length_carve [OF wf lt] by (simp only: C(2))
    then have room2: "length (areas ?s2 l) + 1 \<le> cap (space_of ?s2 l)" using R(4) True onlyD(1) [OF C(3)] by simp
    have f: "free_range start (stop - start) (areas ?s2 l)" unfolding C(2) by (rule carve_free(1) [OF wf lt])
    note A = add_anon_off [OF C(1) l lt v f room2, of prot]
    show ?thesis using A(1) mine_simps(2) [OF mi mine_simps(3) [OF only_trans [OF C(3) A(3)]]] lt r1 True
      by (simp add: add_region_over_def)
  qed (use R(1) mi r1 lt in \<open>simp add: add_region_over_def\<close>)
qed

text \<open>fork and exit.\<close>

lemma net_areas: "net ob (map (\<lambda>v. (v_obj v, d)) vs) = d * int (uses ob vs)"
  by (induction vs) (auto simp: distrib_left)

lemma set_list_update: "i < length xs \<Longrightarrow> x \<in> set (xs[i := y]) \<Longrightarrow> x = y \<or> x \<in> set xs"
  using set_update_subset_insert [of xs i y] by blast

lemma put_off:
  assumes len: "length (vspaces st) = MAX_PROCS" and sp: "\<forall>sp \<in> set (vspaces st). space_inv sp" and l: "l < MAX_PROCS"
    and w: "space_inv sp"
    and m: "\<And>ob. ob \<noteq> 0 \<Longrightarrow> int (vmaps st ob) =
      int (total ob (vspaces st)) - int (uses ob (areas st l)) + int (uses ob (sp_vmas sp))"
  shows "vm_ok (put_space l sp st)"
proof -
  have ll: "l < length (vspaces st)" using len l by simp
  have "space_inv x" if "x \<in> set ((vspaces st)[l := sp])" for x using set_list_update [OF ll that] sp w by blast
  moreover have "int (vmaps st ob) = int (total ob ((vspaces st)[l := sp]))" if "ob \<noteq> 0" for ob
    using m [OF that] total_update [OF ll, of ob sp] by (simp add: space_of_def)
  ultimately show ?thesis by (simp add: vm_off_def len)
qed

lemma release_space_ok:
  assumes ok: "vm_ok st" and l: "l < MAX_PROCS"
  shows "vm_ok (release_space l st)" "areas (release_space l st) l = []" "mine l st (release_space l st)"
proof -
  let ?cs = "map (\<lambda>v. (v_obj v, - 1)) (areas st l)"
  let ?s1 = "obj_refs ?cs st"
  note D = vm_offD [OF ok]
  have le: "uses ob (areas st l) \<le> total ob (vspaces st)" for ob
    unfolding space_of_def by (rule total_ge) (use D(1) l in simp)
  have pos: "0 \<le> int (vmaps st ob) + net ob ?cs" if "ob \<noteq> 0" for ob
    using D(3) [OF that] le [of ob] by (simp add: net_areas)
  have o: "ob \<noteq> 0 \<longrightarrow> int (vmaps ?s1 ob) = int (vmaps st ob) + net ob ?cs" "vopened ?s1 ob = vopened st ob"
    "vspaces ?s1 = vspaces st" for ob
    using obj_refs_downs [of ?cs st ob, OF _ pos] by simp_all
  define s2 where "s2 = (if sp_table (space_of ?s1 l) \<noteq> 0
    then ?s1\<lparr>vfa := free_contig (sp_table (space_of ?s1 l)) (sp_pages (space_of ?s1 l)) (vfa ?s1)\<rparr> else ?s1)"
  have eq: "release_space l st = put_space l space_empty s2"
    unfolding release_space_def s2_def Let_def by simp
  have s2: "vspaces s2 = vspaces st" "obj_at (shm_view s2) ob = obj_at (shm_view ?s1) ob" for ob
    by (simp_all add: s2_def o shm_view_def obj_at_def)
  then have vm: "vmaps s2 ob = vmaps ?s1 ob" "vopened s2 ob = vopened ?s1 ob" for ob by (simp_all add: maps_def opened_def)
  have ar: "areas s2 l = areas st l" by (simp add: space_of_def s2)
  have we: "space_inv space_empty" by (simp add: space_inv_def space_empty_def MMAP_BASE_def)
  show "vm_ok (release_space l st)" unfolding eq
    by (rule put_off [OF _ _ l we])
      (use D ok o(1) in \<open>auto simp: s2 vm ar net_areas vm_off_def space_empty_def space_of_def\<close>)
  have ll: "l < length (vspaces s2)" using D(1) l s2 by simp
  show "areas (release_space l st) l = []" unfolding eq using space_of_put [OF ll, of space_empty] by (simp add: space_empty_def)
  show "mine l st (release_space l st)" unfolding eq mine_def
    using space_of_put [OF ll, of space_empty] by (simp add: vm o(2)) (simp add: space_of_def s2)
qed

lemma clone_space_ok:
  assumes ok: "vm_ok st" and l: "src < MAX_PROCS" "dst < MAX_PROCS" "src \<noteq> dst" and empty: "areas st dst = []"
  shows "vm_ok (clone_space src dst st)" "mine dst st (clone_space src dst st)"
    "areas (clone_space src dst st) dst = [] \<or> areas (clone_space src dst st) dst = areas st src"
proof -
  note D = vm_offD [OF ok]
  let ?s = "space_of st src"
  let ?e = "space_empty\<lparr>sp_hint := sp_hint ?s\<rparr>"
  let ?s1 = "put_space dst ?e st"
  have W: "space_inv ?s" by (rule D(2) [OF l(1)])
  have we: "space_inv ?e" using W by (simp add: space_inv_def space_empty_def cap_def)
  have ok1: "vm_ok ?s1"
    by (rule put_off [OF D(1) _ l(2) we]) (use ok D(3) empty in \<open>auto simp: vm_off_def space_empty_def\<close>)
  have ll: "dst < length (vspaces st)" using D(1) l by simp
  note so = space_of_put [OF ll, of ?e]
  have "vm_ok (clone_space src dst st) \<and> mine dst st (clone_space src dst st) \<and>
    (areas (clone_space src dst st) dst = [] \<or> areas (clone_space src dst st) dst = areas st src)"
  proof (cases "sp_table ?s = 0 \<or> sp_vmas ?s = [] \<or> alloc_contig (sp_pages ?s) (vfa ?s1) = None")
    case True
    then have "clone_space src dst st = ?s1"
      unfolding clone_space_def Let_def by (auto split: option.splits)
    then show ?thesis using ok1 so by (simp add: mine_def space_empty_def)
  next
    case False
    then obtain t fa where t: "alloc_contig (sp_pages ?s) (vfa ?s1) = Some (t, fa)" by auto
    let ?sp = "\<lparr>sp_table = t, sp_pages = sp_pages ?s, sp_vmas = sp_vmas ?s, sp_hint = sp_hint ?s\<rparr>"
    let ?s2 = "put_space dst ?sp (?s1\<lparr>vfa := fa\<rparr>)"
    let ?cs = "map (\<lambda>v. (v_obj v, 1)) (sp_vmas ?s)"
    have eq: "clone_space src dst st = obj_refs ?cs ?s2"
      using False t unfolding clone_space_def Let_def by simp
    have oa: "obj_at (shm_view ?s2) ob = obj_at (shm_view st) ob" for ob
      by (simp add: put_space_def shm_view_def obj_at_def)
    then have vm: "vmaps ?s2 ob = vmaps st ob" "vopened ?s2 ob = vopened st ob" for ob by (simp_all add: maps_def opened_def)
    have vs: "vspaces ?s2 = (vspaces st)[dst := ?sp]" by (simp add: put_space_def)
    have live: "\<forall>c \<in> set ?cs. snd c = 1 \<and> (fst c \<noteq> 0 \<longrightarrow> obj_at (shm_view ?s2) (fst c) \<noteq> None)"
    proof
      fix c assume "c \<in> set ?cs"
      then obtain v where v: "v \<in> set (areas st src)" "c = (v_obj v, 1)" by auto
      have "v_obj v \<noteq> 0 \<Longrightarrow> 0 < vmaps st (v_obj v)" using vm_off_live [OF ok l(1) _ v(1)] by simp
      then show "snd c = 1 \<and> (fst c \<noteq> 0 \<longrightarrow> obj_at (shm_view ?s2) (fst c) \<noteq> None)"
        unfolding v(2) oa by (auto simp: maps_def split: option.splits)
    qed
    note u = obj_refs_ups [OF live]
    have wsp: "space_inv ?sp" using W by (simp add: space_inv_def cap_def)
    have tot: "int (total ob ((vspaces st)[dst := ?sp])) = int (total ob (vspaces st)) + int (uses ob (areas st src))" for ob
      using total_update [OF ll, of ob ?sp] empty by (simp add: space_of_def)
    have spw: "\<forall>x \<in> set ((vspaces st)[dst := ?sp]). space_inv x"
      using set_list_update [OF ll] wsp ok by (auto simp: vm_off_def)
    have mp: "int (vmaps (obj_refs ?cs ?s2) ob) = int (total ob ((vspaces st)[dst := ?sp]))" if "ob \<noteq> 0" for ob
      using u [of ob] that D(3) [OF that] tot [of ob] unfolding vm by (simp add: net_areas)
    have vsp: "vspaces (obj_refs ?cs ?s2) = (vspaces st)[dst := ?sp]" using u by (simp add: vs)
    have ok2: "vm_ok (obj_refs ?cs ?s2)" unfolding vm_off_def vsp using spw D(1) mp by simp
    have so2: "space_of (obj_refs ?cs ?s2) k = (if k = dst then ?sp else space_of st k)" for k
      unfolding space_of_def [of "obj_refs ?cs ?s2"] vsp using ll by (simp add: space_of_def)
    have op: "vopened (obj_refs ?cs ?s2) ob = vopened st ob" for ob using u [of ob] unfolding vm by blast
    show ?thesis unfolding eq mine_def op using ok2 so2 by simp
  qed
  then show "vm_ok (clone_space src dst st)" "mine dst st (clone_space src dst st)"
    "areas (clone_space src dst st) dst = [] \<or> areas (clone_space src dst st) dst = areas st src" by blast+
qed

text \<open>A page fault touches no table and no count.\<close>

definition same_tables :: "vm \<Rightarrow> vm \<Rightarrow> bool" where
  "same_tables st st' \<longleftrightarrow> vspaces st' = vspaces st \<and> (\<forall>ob. vmaps st' ob = vmaps st ob \<and> vopened st' ob = vopened st ob)"

lemma same_tables_simps [simp]: "same_tables st st" "same_tables st (snd (with_mmu g st')) = same_tables st st'"
  "same_tables st (st'\<lparr>vmem := m\<rparr>) = same_tables st st'" "same_tables st (st'\<lparr>vfa := fa\<rparr>) = same_tables st st'"
  "same_tables st (drop_frame f st') = same_tables st st'" "same_tables st (zero_frame f st') = same_tables st st'"
proof -
  have "obj_at (shm_view (st\<lparr>vmem := m\<rparr>)) ob = obj_at (shm_view st) ob"
    "obj_at (shm_view (st\<lparr>vfa := fa\<rparr>)) ob = obj_at (shm_view st) ob" for st m fa ob
    by (simp_all add: shm_view_def obj_at_def)
  then have m: "maps (shm_view (st'\<lparr>vmem := m\<rparr>)) = maps (shm_view st')" "opened (shm_view (st'\<lparr>vmem := m\<rparr>)) = opened (shm_view st')"
    "maps (shm_view (st'\<lparr>vfa := fa\<rparr>)) = maps (shm_view st')" "opened (shm_view (st'\<lparr>vfa := fa\<rparr>)) = opened (shm_view st')" for st' m fa
    by (simp_all add: fun_eq_iff maps_def opened_def)
  show "same_tables st st" "same_tables st (snd (with_mmu g st')) = same_tables st st'"
    "same_tables st (st'\<lparr>vmem := m\<rparr>) = same_tables st st'" "same_tables st (st'\<lparr>vfa := fa\<rparr>) = same_tables st st'"
    by (simp_all add: same_tables_def m)
  show "same_tables st (drop_frame f st') = same_tables st st'" "same_tables st (zero_frame f st') = same_tables st st'"
    by (simp_all add: same_tables_def m drop_frame_def zero_frame_def)
qed

lemma same_tables_trans: "same_tables st st' \<Longrightarrow> same_tables st' st'' \<Longrightarrow> same_tables st st''"
  by (simp add: same_tables_def)

lemma same_tables_ok: "same_tables st st' \<Longrightarrow> vm_off e st \<Longrightarrow> vm_off e st'"
  by (simp add: same_tables_def vm_off_def)

lemma map_frame_same [simp]: "map_frame root va f flags st = (b, st') \<Longrightarrow> same_tables st0 st' = same_tables st0 st"
  unfolding map_frame_def by (metis same_tables_simps(2) snd_conv)

lemma obj_at_page:
  assumes "page oid pg al st = (r, st')"
  shows "obj_at st' ob = None \<longleftrightarrow> obj_at st ob = None"
    "obj_at st ob = Some x \<Longrightarrow> \<exists>y. obj_at st' ob = Some y \<and> so_map y = so_map x \<and> so_fd y = so_fd x \<and> so_named y = so_named x"
proof -
  have "(obj_at st' ob = None \<longleftrightarrow> obj_at st ob = None) \<and>
    (\<forall>x. obj_at st ob = Some x \<longrightarrow> (\<exists>y. obj_at st' ob = Some y \<and> so_map y = so_map x \<and> so_fd y = so_fd x \<and> so_named y = so_named x))"
  proof (cases "obj_at st oid")
    case (Some y)
    note i = obj_at_index [OF Some]
    have put: "obj_at (put_obj oid (y\<lparr>so_slots := sl\<rparr>) (st\<lparr>sfa := fa, smem := m\<rparr>)) ob =
        (if ob = oid then Some (y\<lparr>so_slots := sl\<rparr>) else obj_at st ob)" for sl fa m
      using i by (subst obj_at_put) auto
    show ?thesis using assms Some put unfolding page_def Let_def by (auto split: if_splits option.splits prod.splits)
  qed (use assms in \<open>simp add: page_def\<close>)
  then show "obj_at st' ob = None \<longleftrightarrow> obj_at st ob = None"
    "obj_at st ob = Some x \<Longrightarrow> \<exists>y. obj_at st' ob = Some y \<and> so_map y = so_map x \<and> so_fd y = so_fd x \<and> so_named y = so_named x" by auto
qed

lemma page_counts: "page oid pg al st = (r, st') \<Longrightarrow> maps st' ob = maps st ob \<and> opened st' ob = opened st ob"
  using obj_at_page [of oid pg al st r st' ob] by (cases "obj_at st ob") (auto simp: maps_def opened_def)

lemma with_shm_page_same: "with_shm (page oid pg al) st = (r, st') \<Longrightarrow> same_tables st st'"
  using page_counts [of oid pg al "shm_view st"] by (auto simp: with_shm_def same_tables_def Let_def split: prod.splits)

lemma fault_mapped_same: "fault_mapped root pg acc prot st = (b, st') \<Longrightarrow> same_tables st st'"
  unfolding fault_mapped_def copy_on_write_def Let_def
  by (auto split: if_splits option.splits prod.splits bool.splits)

lemma fault_object_same: "fault_object root pg v st = (b, st') \<Longrightarrow> same_tables st st'"
  unfolding fault_object_def Let_def using with_shm_page_same
  by (auto split: option.splits prod.splits)

lemma fault_anon_same: "fault_anon root pg v st = (b, st') \<Longrightarrow> same_tables st st'"
  unfolding fault_anon_def by (auto split: option.splits prod.splits bool.splits)

lemma fault_locked_same:
  assumes "fault_locked l root addr acc st = (x, st')"
  shows "same_tables st st'"
proof (cases "find_vma addr (areas st l)")
  case (Some v)
  have mp: "map_prod f (\<lambda>st. st) p = (a, b) \<Longrightarrow> \<exists>c. p = (c, b)" for f :: "bool \<Rightarrow> fault_step" and p and a and b :: vm
    by (cases p) auto
  show ?thesis using assms Some unfolding fault_locked_def Let_def
    by (auto dest!: mp simp: fault_mapped_same fault_object_same fault_anon_same split: if_splits)
qed (use assms in \<open>simp add: fault_locked_def\<close>)

lemma alloc_zeroed_same: "alloc_zeroed n st = (fs, st') \<Longrightarrow> same_tables st st'"
proof (induction n arbitrary: st fs st')
  case (Suc n)
  show ?case
  proof (cases "alloc_frame (vfa st)")
    case (Some p)
    obtain f fa where p: "p = (f, fa)" by (cases p)
    obtain fs2 st2 where r: "alloc_zeroed n (zero_frame f (st\<lparr>vfa := fa\<rparr>)) = (fs2, st2)" by fastforce
    have "same_tables st (zero_frame f (st\<lparr>vfa := fa\<rparr>))" by simp
    from same_tables_trans [OF this Suc.IH [OF r]] show ?thesis using Suc.prems Some p r by simp
  qed (use Suc.prems in simp)
qed simp

lemma read_ino_pages_same: "read_ino_pages rd ino off fs st = (b, st') \<Longrightarrow> same_tables st0 st \<Longrightarrow> same_tables st0 st'"
  by (induction fs arbitrary: off st) (auto split: sum.splits)

lemma drop_frames_same [simp]: "same_tables st0 (drop_frames fs st) = same_tables st0 st"
  unfolding drop_frames_def by (induction fs arbitrary: st) auto

lemma fault_load_same: "fault_load pg rd v n st = (x, st') \<Longrightarrow> same_tables st st'"
  unfolding fault_load_def Let_def
  by (auto split: prod.splits if_splits bool.splits)
    (blast dest: alloc_zeroed_same intro: read_ino_pages_same)+

lemma install_pages_same: "install_pages root pg v cv i fs st = (b, st') \<Longrightarrow> same_tables st0 st \<Longrightarrow> same_tables st0 st'"
  by (induction fs arbitrary: i st) (auto simp: Let_def split: if_splits prod.splits bool.splits)

lemma fault_install_same: "fault_install l root addr v fs st = (b, st') \<Longrightarrow> same_tables st st'"
  unfolding fault_install_def by (auto intro: install_pages_same split: option.splits)

lemma fault_same:
  assumes "fault rd cur addr acc st = (b, st')"
  shows "same_tables st st'"
proof (cases cur)
  case (Some c)
  obtain l root where c: "c = (l, root)" by (cases c)
  obtain x s1 where x: "fault_locked l root addr acc st = (x, s1)" by fastforce
  note S1 = fault_locked_same [OF x]
  show ?thesis
  proof (cases x)
    case (Load v n)
    obtain y s2 where y: "fault_load (page_down addr) rd v n s1 = (y, s2)" by fastforce
    have S2: "same_tables st s2" by (rule same_tables_trans [OF S1 fault_load_same [OF y]])
    then show ?thesis using assms Some c x Load y fault_install_same same_tables_trans [OF S2]
      by (cases y) (auto simp: fault_def)
  qed (use assms Some c x S1 in \<open>auto simp: fault_def\<close>)
qed (use assms in \<open>simp add: fault_def\<close>)

section \<open>Runs\<close>

text \<open>The calls on shared objects made by the rest of the kernel (descriptors, names, data).\<close>

inductive shm_call :: "shm \<Rightarrow> shm \<Rightarrow> bool" where
  create: "create nm st = Some (oid, st') \<Longrightarrow> shm_call st st'"
| create_anon: "create_anon sz st = (r, st') \<Longrightarrow> shm_call st st'"
| release: "shm_call st (release_unused oid st)"
| open_named: "open_named nm st = Some (oid, st') \<Longrightarrow> shm_call st st'"
| unlink: "unlink nm st = (b, st') \<Longrightarrow> shm_call st st'"
| fd_ref: "shm_call st (fd_ref oid d st)"
| truncate: "Shm.truncate oid sz st = (t, st') \<Longrightarrow> shm_call st st'"
| page: "page oid pg al st = (p, st') \<Longrightarrow> shm_call st st'"
| write_bytes: "rw_write oid off bs st = (w, st') \<Longrightarrow> shm_call st st'"

lemma maps_put:
  assumes "obj_at st oid = Some x" "so_used y" "so_map y = so_map x" "objs st' = objs st"
  shows "maps (put_obj oid y st') ob = maps st ob"
proof -
  have "obj_at st' = obj_at st" using assms(4) by (simp add: obj_at_def fun_eq_iff)
  moreover have "obj_at (put_obj oid y st') ob = (if ob = oid then Some y else obj_at st' ob)"
    using obj_at_index [OF assms(1)] assms(2,4) by (subst obj_at_put) auto
  ultimately show ?thesis using assms(1,3) by (simp add: maps_def)
qed

lemma maps_sfa [simp]: "maps (st\<lparr>sfa := fa\<rparr>) ob = maps st ob" "maps (st\<lparr>smem := m\<rparr>) ob = maps st ob"
  by (simp_all add: maps_def)

lemma create_maps:
  assumes "create nm st = Some (oid, st')"
  shows "maps st' ob = maps st ob" "\<exists>x. obj_at st' oid = Some x \<and> so_map x = 0"
proof -
  obtain i y where i: "position (\<lambda>ob. \<not> so_used ob) (objs st) = Some i" "oid = i + 1" "st' = put_obj (i + 1) y st"
    "so_used y" "so_map y = 0"
    using assms unfolding create_def Let_def by (auto simp: shm_empty_def split: option.splits)
  then have l: "i < length (objs st)" "\<not> so_used (objs st ! i)" by (auto simp: position_Some_iff)
  then have "maps st (i + 1) = 0" by (simp add: maps_def obj_at_def)
  moreover have p: "obj_at st' k = (if k = i + 1 then Some y else obj_at st k)" for k
    unfolding i(3) using l i(4) by (subst obj_at_put) auto
  ultimately show "maps st' ob = maps st ob" using i(5) by (simp add: maps_def)
  show "\<exists>x. obj_at st' oid = Some x \<and> so_map x = 0" using p i(2,5) by simp
qed

lemma grow_index_keeps: "grow_index x n fa = Some (y, fb) \<Longrightarrow>
  so_used y = so_used x \<and> so_map y = so_map x \<and> so_fd y = so_fd x \<and> so_named y = so_named x"
  by (auto simp: grow_index_def Let_def split: if_splits option.splits)

lemma create_anon_maps:
  assumes "create_anon sz st = (r, st')"
  shows "maps st' ob = maps st ob"
proof (cases "create None st")
  case (Some p)
  obtain oid s1 where p: "p = (oid, s1)" by (cases p)
  note C = create_maps [OF Some [unfolded p]]
  obtain x where x: "obj_at s1 oid = Some x" "so_map x = 0" using C(2) by blast
  let ?x = "x\<lparr>so_fd := 0\<rparr>"
  have u: "so_used x" using obj_at_index [OF x(1)] by simp
  have m: "maps (put_obj oid y s2) ob = maps st ob" if "so_used y" "so_map y = 0" "objs s2 = objs s1" for y s2
    using maps_put [OF x(1) that(1) _ that(3)] that(2) x(2) C(1) by simp
  have m2: "maps (put_obj oid y s2) ob = maps st ob" if "so_used y" "so_map y = 0" "objs s2 = objs (put_obj oid ?x s1)" for y s2
  proof -
    have "obj_at (put_obj oid ?x s1) oid = Some ?x" using obj_at_index [OF x(1)] by (subst obj_at_put) auto
    from maps_put [OF this that(1) _ that(3)] have "maps (put_obj oid y s2) ob = maps (put_obj oid ?x s1) ob"
      using that(2) x(2) by simp
    then show ?thesis using m [of ?x s1] u x(2) by simp
  qed
  show ?thesis using assms Some p x u m [of ?x s1] m2 unfolding create_anon_def Let_def
    by (auto split: if_splits option.splits prod.splits dest!: grow_index_keeps)
qed (use assms in \<open>simp add: create_anon_def\<close>)

lemma position_named:
  assumes "position (named n) (objs st) = Some i"
  shows "obj_at st (i + 1) = Some (objs st ! i)" "so_used (objs st ! i)"
  using assms by (auto simp: position_Some_iff named_def obj_at_def)

lemma truncate_maps:
  assumes "Shm.truncate oid sz st = (r, st')"
  shows "maps st' ob = maps st ob"
proof (cases "obj_at st oid")
  case (Some x)
  have u: "so_used x" using obj_at_index [OF Some] by simp
  show ?thesis using assms Some u maps_put [OF Some] unfolding Shm.truncate_def Let_def
    by (auto split: if_splits option.splits prod.splits dest!: grow_index_keeps)
qed (use assms in \<open>simp add: Shm.truncate_def split: if_splits\<close>)

lemma write_loop_maps: "write_loop oid at bs st = (r, st') \<Longrightarrow> maps st' ob = maps st ob"
proof (induction oid at bs st arbitrary: r st' rule: write_loop.induct)
  case (1 oid at bs st)
  show ?case
  proof (cases "bs = []")
    case False
    obtain p s1 where p: "page oid (at div 4096) True st = (p, s1)" by fastforce
    note P = page_counts [OF p, of ob]
    show ?thesis
    proof (cases p)
      case None
      then show ?thesis using "1.prems" False p P by (subst (asm) write_loop.simps) (simp add: Let_def)
    next
      case (Some pa)
      have "write_loop oid (at + min (4096 - at mod 4096) (length bs)) (drop (min (4096 - at mod 4096) (length bs)) bs)
          (s1\<lparr>smem := mem_write (smem s1) (pa + at mod 4096) (take (min (4096 - at mod 4096) (length bs)) bs)\<rparr>) = (r, st')"
        using "1.prems" False p Some by (subst (asm) write_loop.simps) (simp add: Let_def)
      from "1.IH" [OF False refl refl p [symmetric] Some this] show ?thesis using P by simp
    qed
  qed (use "1.prems" in \<open>simp add: write_loop.simps\<close>)
qed

lemma rw_write_maps: "rw_write oid off bs st = (r, st') \<Longrightarrow> maps st' ob = maps st ob"
  unfolding rw_write_def
  by (auto split: option.splits prod.splits sum.splits if_splits dest!: truncate_maps [of _ _ _ _ _ ob] write_loop_maps [of _ _ _ _ _ _ ob])

lemma shm_call_maps: "shm_call st st' \<Longrightarrow> maps st' ob = maps st ob"
proof (induction rule: shm_call.induct)
  case (open_named nm st oid st')
  then obtain i where i: "position (named nm) (objs st) = Some i"
    "st' = put_obj (i + 1) ((objs st ! i)\<lparr>so_fd := so_fd (objs st ! i) + 1\<rparr>) st" by (auto simp: open_named_def)
  note P = position_named [OF i(1)]
  show ?case unfolding i(2) by (rule maps_put [OF P(1)]) (simp_all add: P(2))
next
  case (unlink nm st b st')
  show ?case
  proof (cases "position (named nm) (objs st)")
    case (Some i)
    note P = position_named [OF Some]
    have "maps (put_obj (i + 1) ((objs st ! i)\<lparr>so_named := False\<rparr>) st) ob = maps st ob"
      by (rule maps_put [OF P(1)]) (simp_all add: P(2))
    then show ?thesis using unlink Some by (auto simp: unlink_def)
  qed (use unlink in \<open>simp add: unlink_def\<close>)
next
  case (fd_ref st oid d)
  show ?case
  proof (cases "obj_at st oid")
    case (Some x)
    have "maps (put_obj oid (x\<lparr>so_fd := add_refs (so_fd x) d\<rparr>) st) ob = maps st ob"
      by (rule maps_put [OF Some]) (use obj_at_index [OF Some] in simp_all)
    then show ?thesis using Some by (simp add: fd_ref_def Let_def)
  qed (simp add: fd_ref_def Let_def)
qed (auto simp: release_unused_def create_maps create_anon_maps truncate_maps page_counts rw_write_maps)

text \<open>
  The calls, as they interleave under the VM lock. A \<open>MAP_SHARED | MAP_ANONYMOUS\<close> mapping is the sequence
  \<open>create_anon\<close>, \<open>mmap\<close> and, when that failed, \<open>release_unused\<close>.
\<close>

inductive vm_step :: "vm \<Rightarrow> vm \<Rightarrow> bool" where
  mmap: "caller cur \<Longrightarrow> ob \<noteq> 0 \<longrightarrow> pinned (shm_view st) ob \<Longrightarrow>
    mmap_full cur addr len prot flags ob ino pgoff st = (ra, st') \<Longrightarrow> vm_step st st'"
| munmap: "caller cur \<Longrightarrow> munmap cur addr len st = (ru, st') \<Longrightarrow> vm_step st st'"
| mprotect: "caller cur \<Longrightarrow> mprotect cur addr len prot st = (ru, st') \<Longrightarrow> vm_step st st'"
| mremap: "caller cur \<Longrightarrow> mremap cur addr len len' flags st = (ra, st') \<Longrightarrow> vm_step st st'"
| discard: "caller cur \<Longrightarrow> discard cur addr len st = (ru, st') \<Longrightarrow> vm_step st st'"
| add_region: "l < MAX_PROCS \<Longrightarrow> start < stop \<Longrightarrow> 4096 dvd start \<Longrightarrow> 4096 dvd stop \<Longrightarrow>
    add_region l start stop prot st = (b, st') \<Longrightarrow> vm_step st st'"
| add_region_over: "l < MAX_PROCS \<Longrightarrow> 4096 dvd start \<Longrightarrow> 4096 dvd stop \<Longrightarrow> vm_step st (add_region_over l start stop prot st)"
| clone: "src < MAX_PROCS \<Longrightarrow> dst < MAX_PROCS \<Longrightarrow> src \<noteq> dst \<Longrightarrow> areas st dst = [] \<Longrightarrow> vm_step st (clone_space src dst st)"
| release: "l < MAX_PROCS \<Longrightarrow> vm_step st (release_space l st)"
| fault_lock: "fault_locked l root addr acc st = (fs, st') \<Longrightarrow> vm_step st st'"
| fault_load: "fault_load pg rd v n st = (fl, st') \<Longrightarrow> vm_step st st'"
| fault_install: "fault_install l root addr v frs st = (b, st') \<Longrightarrow> vm_step st st'"
| shm: "shm_call (shm_view st) sh \<Longrightarrow> vm_step st (set_shm sh st)"
| others: "vm_step st (st\<lparr>vpts := t, vfa := fa, vmem := m\<rparr>)"

definition vm_boot :: "(nat \<Rightarrow> nat \<Rightarrow> u64) \<Rightarrow> nat \<Rightarrow> frames \<Rightarrow> mem \<Rightarrow> vm" where
  "vm_boot t k fa m = \<lparr>vspaces = replicate MAX_PROCS space_empty, vpts = t, vkroot = k, vfa = fa,
     vobjs = replicate MAX_OBJS shm_empty, vmem = m\<rparr>"

inductive vm_reachable :: "vm \<Rightarrow> bool" where
  boot: "vm_reachable (vm_boot t k fa m)"
| step: "vm_reachable st \<Longrightarrow> vm_step st st' \<Longrightarrow> vm_reachable st'"

lemma vm_boot_ok: "vm_ok (vm_boot t k fa m)"
proof -
  have "space_inv space_empty" by (simp add: space_inv_def space_empty_def MMAP_BASE_def)
  moreover have "uses ob (sp_vmas space_empty) = 0" for ob by (simp add: space_empty_def)
  moreover have "maps \<lparr>objs = replicate MAX_OBJS shm_empty, sfa = fa, smem = m\<rparr> ob = 0" for ob
    by (simp add: maps_def obj_at_def shm_empty_def)
  ultimately show ?thesis
    by (simp add: vm_off_def vm_boot_def total_def shm_view_def sum_list_replicate)
qed

lemma no_space: "mmap_full None addr len prot flags ob ino pgoff st = (ra, st') \<Longrightarrow> st' = st"
  "munmap None addr len st = (ru, st') \<Longrightarrow> st' = st" "mprotect None addr len prot st = (ru, st') \<Longrightarrow> st' = st"
  "discard None addr len st = (ru, st') \<Longrightarrow> st' = st"
  by (auto simp: mmap_full_def munmap_def mprotect_def discard_def Let_def split: if_splits option.splits)

lemma no_space_mremap: "mremap None addr len len' flags st = (ra, st') \<Longrightarrow> st' = st"
  unfolding mremap_def by (auto dest!: no_space(2) split: if_splits option.splits prod.splits sum.splits)

lemma caller_cases:
  assumes "caller cur"
  obtains "cur = None" | l root where "cur = Some (l, root)" "l < MAX_PROCS"
  using assms by (cases cur) (auto simp: caller_def)

lemma vm_step_ok: "vm_step st st' \<Longrightarrow> vm_ok st \<Longrightarrow> vm_ok st'"
proof (induction rule: vm_step.induct)
  case (mmap cur ob st addr len prot flags ino pgoff ra st')
  then show ?case by (cases rule: caller_cases) (auto dest: no_space(1) conjunct1 [OF mmap_full_spec])
next
  case (munmap cur addr len st ru st')
  then show ?case by (cases rule: caller_cases) (auto dest: no_space(2) munmap_spec(1))
next
  case (mprotect cur addr len prot st ru st')
  then show ?case by (cases rule: caller_cases) (auto dest: no_space(3) conjunct1 [OF mprotect_spec])
next
  case (mremap cur addr len len' flags st ra st')
  then show ?case by (cases rule: caller_cases) (auto dest: no_space_mremap conjunct1 [OF mremap_ok])
next
  case (discard cur addr len st ru st')
  then show ?case by (cases rule: caller_cases) (auto dest: no_space(4) conjunct1 [OF discard_ok])
next
  case (shm st sh)
  then show ?case using shm_call_maps [OF shm(1)] by (simp add: vm_off_def)
next
  case (others st m fa t)
  have "obj_at (shm_view (st\<lparr>vpts := t, vfa := fa, vmem := m\<rparr>)) ob = obj_at (shm_view st) ob" for ob
    by (simp add: shm_view_def obj_at_def)
  then show ?case using others by (simp add: vm_off_def maps_def)
qed (auto dest: add_region_ok add_region_over_ok clone_space_ok(1) release_space_ok(1) fault_locked_same fault_load_same
    fault_install_same same_tables_ok)

lemma vm_reachable_ok: "vm_reachable st \<Longrightarrow> vm_ok st"
  by (induction rule: vm_reachable.induct) (auto intro: vm_boot_ok vm_step_ok)

section \<open>A small run\<close>

definition demo_vm :: vm where
  "demo_vm = vm_boot (\<lambda>_ _. 0) 0 (frames_init (frames_boot demo_platform)) (\<lambda>_. 0)"

lemma demo_frames:
  obtains t fa where "alloc_contig FIRST_PAGES (vfa demo_vm) = Some (t, fa)"
proof -
  have ok: "plat_ok demo_platform" by (auto simp: plat_ok_def demo_platform_def)
  let ?fa = "frames_init (frames_boot demo_platform)"
  note f = frames_init_inv [OF ok]
  have n: "num_frames demo_platform = 8" by (simp add: num_frames_def demo_platform_def PAGE_SIZE_def)
  have nr: "\<not> reserved demo_platform (addr_of demo_platform i)" for i
    by (simp add: reserved_def addr_of_def demo_platform_def)
  have u: "\<not> used ?fa i" if "i < 8" for i using f(3) n nr that by simp
  have inv: "frames_inv ?fa" "plat ?fa = demo_platform" using f by auto
  have "free_run ?fa 4 0" using u n by (simp add: free_run_def inv)
  then have "alloc_contig 4 ?fa \<noteq> None"
    using alloc_contig_None_iff [OF frames_invD(1) [OF inv(1)], of 4] by auto
  then show ?thesis using that by (auto simp: FIRST_PAGES_def demo_vm_def vm_boot_def)
qed

lemma demo_mmap:
  obtains st where "mmap (Some (0, 0)) 0 8192 3 0 demo_vm = (Inr MMAP_BASE, st)" "vm_reachable st"
    "areas st 0 = [anon MMAP_BASE (MMAP_BASE + 8192) 3]" "cap (space_of st 0) = 409"
proof -
  obtain t fa where a: "alloc_contig FIRST_PAGES (vfa demo_vm) = Some (t, fa)" by (rule demo_frames)
  let ?s1 = "put_space 0 (space_empty\<lparr>sp_table := t, sp_pages := FIRST_PAGES\<rparr>) (demo_vm\<lparr>vfa := fa\<rparr>)"
  have sp: "space_of demo_vm 0 = space_empty" "length (vspaces demo_vm) = MAX_PROCS"
    by (simp_all add: space_of_def demo_vm_def vm_boot_def MAX_PROCS_def)
  have r: "reserve 0 2 demo_vm = (True, ?s1)"
    using a by (simp add: reserve_def sp Let_def cap_def) (simp add: space_empty_def FIRST_PAGES_def MAX_PAGES_def)
  have s1: "space_of ?s1 0 = space_empty\<lparr>sp_table := t, sp_pages := FIRST_PAGES\<rparr>"
    using sp(2) by (simp add: space_of_def put_space_def MAX_PROCS_def)
  have pu: "page_up 8192 = Some 8192" by (simp add: page_up_def checked_add_def u64_max_def page_down_def)
  have g: "gap MMAP_BASE 8192 [] = Some MMAP_BASE"
    by (simp add: gap_def gap_from_def gap_loop.simps checked_add_def u64_max_def MMAP_BASE_def MMAP_END_def)
  let ?s2 = "put_space 0 ((space_of ?s1 0)\<lparr>sp_hint := MMAP_BASE + 8192\<rparr>) ?s1"
  have any: "mmap_any 0 0 8192 ?s1 = (Inr MMAP_BASE, ?s2)"
  proof -
    have h: "sp_hint (space_of ?s1 0) = MMAP_BASE" "areas ?s1 0 = []" unfolding s1 by (simp_all add: space_empty_def)
    have "\<not> MMAP_BASE \<le> page_down 0" by (simp add: page_down_def MMAP_BASE_def)
    then show ?thesis unfolding mmap_any_def Let_def h g by simp
  qed
  let ?v = "anon MMAP_BASE (MMAP_BASE + 8192) 3"
  let ?st = "on_areas 0 (add_vma ?v) ?s2"
  have zero: "obj_ref (0, 1) ?s2 = ?s2" by (simp add: obj_ref_def)
  have m: "mmap (Some (0, 0)) 0 8192 3 0 demo_vm = (Inr MMAP_BASE, ?st)"
    unfolding mmap_def mmap_full_def pu using r any zero by (simp add: anon_def)
  have len2: "length (vspaces ?s2) = MAX_PROCS" using sp(2) by (simp add: put_space_def)
  have s2: "space_of ?s2 0 = space_empty\<lparr>sp_table := t, sp_pages := FIRST_PAGES, sp_hint := MMAP_BASE + 8192\<rparr>"
    using sp(2) by (simp add: space_of_put MAX_PROCS_def s1)
  have ad: "add_vma ?v [] = ([?v], [])"
    by (simp add: add_vma_def lower_def lower_loop.simps insert_at_def)
  have st: "?st = put_space 0 (space_of ?s2 0\<lparr>sp_vmas := [?v]\<rparr>) ?s2"
    unfolding on_areas_def s2 by (simp add: space_empty_def ad obj_refs_def)
  have so: "space_of ?st 0 = space_of ?s2 0\<lparr>sp_vmas := [?v]\<rparr>"
    unfolding st using len2 by (subst space_of_put) (simp_all add: MAX_PROCS_def)
  have ar: "areas ?st 0 = [?v]" unfolding so by simp
  have cp: "cap (space_of ?st 0) = 409" unfolding so s2 by (simp add: cap_def FIRST_PAGES_def VMA_SIZE_def)
  have rc: "vm_reachable ?st"
  proof (rule vm_reachable.step)
    show "vm_reachable demo_vm" unfolding demo_vm_def by (rule vm_reachable.boot)
    show "vm_step demo_vm ?st"
      by (rule vm_step.mmap [of "Some (0, 0)", OF _ _ m [unfolded mmap_def]]) (simp_all add: caller_def MAX_PROCS_def)
  qed
  show ?thesis by (rule that [OF m rc ar cp])
qed

section \<open>Properties of the calls\<close>

text \<open>C14. Along every sequence of calls, faults, forks and exits, interleaved with the operations on
  shared objects and with any change of the page tables and the frames: the area tables of all
  processes are sorted, disjoint and page aligned and fit the memory reserved for them, and the
  mapping count of every shared object is the number of areas that map it, so that an object an
  area refers to is never freed. The object handed to mmap has a counted descriptor, a name, or no mapping yet
  (\<open>pinned\<close>), which covers \<open>create_anon\<close> and the names under \<open>/dev/shm\<close>; left out is the unnamed object that only
  mappings keep and that is mapped again through an uncounted descriptor.\<close>

theorem vm_tables_counted:
  assumes "vm_reachable st"
  shows "(\<forall>l < MAX_PROCS. table_wf (areas st l) \<and> length (areas st l) \<le> cap (space_of st l)) \<and>
    (\<forall>ob. ob \<noteq> 0 \<longrightarrow> vmaps st ob = (\<Sum>l < MAX_PROCS. uses ob (areas st l))) \<and>
    (\<forall>l < MAX_PROCS. \<forall>v \<in> set (areas st l). v_obj v \<noteq> 0 \<longrightarrow> obj_at (shm_view st) (v_obj v) \<noteq> None)"
proof -
  note ok = vm_reachable_ok [OF assms]
  note D = vm_offD [OF ok]
  have tot: "total ob (vspaces st) = (\<Sum>l < MAX_PROCS. uses ob (areas st l))" for ob
    using D(1) by (simp add: total_def sum_list_sum_nth space_of_def atLeast0LessThan)
  have "vmaps st ob = (\<Sum>l < MAX_PROCS. uses ob (areas st l))" if "ob \<noteq> 0" for ob
    using D(3) [OF that] unfolding tot [symmetric] by simp
  moreover have "obj_at (shm_view st) (v_obj v) \<noteq> None" if "l < MAX_PROCS" "v \<in> set (areas st l)" "v_obj v \<noteq> 0" for l v
    using vm_off_live [OF ok that(1) _ that(2,3)] by (auto simp: maps_def split: option.splits)
  ultimately show ?thesis using space_invD(1,2) [OF D(2)] by blast
qed

theorem vm_tables_counted_witness:
  "\<exists>st. vm_reachable st \<and> areas st 0 \<noteq> [] \<and> table_wf (areas st 0) \<and> (\<forall>ob. ob \<noteq> 0 \<longrightarrow> vmaps st ob = (\<Sum>l < MAX_PROCS. uses ob (areas st l)))"
proof -
  obtain st where st: "vm_reachable st" "areas st 0 = [anon MMAP_BASE (MMAP_BASE + 8192) 3]" by (rule demo_mmap) blast
  have "0 < MAX_PROCS" by (simp add: MAX_PROCS_def)
  note T = vm_tables_counted [OF st(1)]
  have "table_wf (areas st 0)" using conjunct1 [OF T] \<open>0 < MAX_PROCS\<close> by simp
  then show ?thesis using st conjunct1 [OF conjunct2 [OF T]] by (intro exI [of _ st] conjI) simp_all
qed

section \<open>The pages of a range\<close>

lemma page_entry_vpts: "vpts a = vpts b \<Longrightarrow> page_entry (mmu_view a) root x = page_entry (mmu_view b) root x"
  by (rule page_entry_pts) simp

lemma unmapped_pages:
  assumes wf: "Mmu.space_wf (mmu_view st) root" and s: "vpts s = vpts st" and al: "4096 dvd start" "4096 dvd stop"
    and st': "st' = snd (with_mmu (\<lambda>m. prod.swap (unmap_range root start stop m)) s)"
  shows "x < 2 ^ 38 \<Longrightarrow> page_entry (mmu_view st') root x =
      (if start \<le> x \<and> x < stop \<and> valid (page_entry (mmu_view st) root x) then 0 else page_entry (mmu_view st) root x)"
    and "t \<notin> space_tables (mmu_view st) root \<Longrightarrow> vpts st' t = vpts st t"
proof -
  obtain m' n where u: "unmap_range root start stop (mmu_view s) = (m', n)" by fastforce
  have v: "vpts st' = pts m'" by (simp add: st' vpts_with_mmu u)
  have "pts (mmu_view s) = pts (mmu_view st)" using s by simp
  note P = unmap_pages [OF wf this u]
  have "page_entry (mmu_view st') root x = page_entry m' root x" by (rule page_entry_pts) (simp add: v)
  then show "x < 2 ^ 38 \<Longrightarrow> page_entry (mmu_view st') root x =
      (if start \<le> x \<and> x < stop \<and> valid (page_entry (mmu_view st) root x) then 0 else page_entry (mmu_view st) root x)"
    using P(1) [of x] by (simp add: in_range_iff [OF al])
  show "t \<notin> space_tables (mmu_view st) root \<Longrightarrow> vpts st' t = vpts st t" using P(2) [of t] v by simp
qed

lemma mmap_full_pages:
  assumes ok: "vm_ok st" and l: "l < MAX_PROCS" and wf: "Mmu.space_wf (mmu_view st) root"
    and m: "mmap_full (Some (l, root)) addr len prot flags ob ino pgoff st = (r, st')"
  shows "x < 2 ^ 38 \<Longrightarrow> page_entry (mmu_view st') root x =
      (if r = Inr addr \<and> flags AND MAP_FIXED \<noteq> 0 \<and> overlaps addr (addr + the (page_up len)) (areas st l) \<and>
          addr \<le> x \<and> x < addr + the (page_up len) \<and> valid (page_entry (mmu_view st) root x)
       then 0 else page_entry (mmu_view st) root x)" (is "_ \<Longrightarrow> ?A x st'")
    and "t \<notin> space_tables (mmu_view st) root \<Longrightarrow> vpts st' t = vpts st t"
proof -
  have "(\<forall>x < 2 ^ 38. ?A x st') \<and> (\<forall>t. t \<notin> space_tables (mmu_view st) root \<longrightarrow> vpts st' t = vpts st t)"
  proof -
    have err: ?thesis if "r = Inl e" "vpts st' = vpts st" for e
      using that page_entry_vpts [OF that(2)] by simp
    show ?thesis
    proof (cases "page_up len = None \<or> page_up len = Some 0 \<or> prot AND NOT 7 \<noteq> 0")
      case True
      then have "st' = st \<and> (\<exists>e. r = Inl e)" using m by (auto simp: mmap_full_def split: option.splits)
      then show ?thesis using err by auto
    next
      case False
      then obtain n where n: "page_up len = Some n" "0 < n" "prot AND NOT 7 = 0" by auto
      obtain b s1 where r1: "reserve l 2 st = (b, s1)" by fastforce
      have v1: "vpts s1 = vpts st" and a1: "areas s1 l = areas st l"
        using vpts_reserve [OF r1] reserve_off(2) [OF ok l order_refl r1] by simp_all
      show ?thesis
      proof (cases b)
        case False
        then have "r = Inl ENOMEM" "st' = s1" using m n r1 by (simp_all add: mmap_full_def)
        then show ?thesis using v1 err by blast
      next
        case True
        define p where "p = (if flags AND MAP_FIXED \<noteq> 0 then mmap_fixed l root addr n flags s1 else mmap_any l addr n s1)"
        obtain r2 s2 where r2: "p = (r2, s2)" by fastforce
        have m': "mmap_full (Some (l, root)) addr len prot flags ob ino pgoff st =
            (case p of (Inl e, st) \<Rightarrow> (Inl e, st) | (Inr start, st) \<Rightarrow>
               (Inr start, on_areas l (add_vma \<lparr>v_start = start, v_end = start + n, v_prot = prot,
                             v_obj = ob, v_ino = ino, v_pgoff = pgoff\<rparr>) (obj_ref (ob, 1) st)))"
          using n True r1 unfolding mmap_full_def p_def by simp
        have rs: "r = r2" "vpts st' = vpts s2" using m unfolding m' r2 by (auto split: sum.splits)
        have pe: "page_entry (mmu_view st') root x = page_entry (mmu_view s2) root x" for x
          by (rule page_entry_vpts [OF rs(2)])
        show ?thesis
        proof (cases "flags AND MAP_FIXED = 0")
          case True
          then have "mmap_any l addr n s1 = (r2, s2)" using r2 by (simp add: p_def)
          then have v2: "vpts s2 = vpts st"
            using v1 by (auto simp: mmap_any_def Let_def split: if_splits option.splits)
          then show ?thesis using True rs pe page_entry_vpts [OF v2] by simp
        next
          case False
          then have "mmap_fixed l root addr n flags s1 = (r2, s2)" using r2 by (simp add: p_def)
          then show ?thesis
          proof (cases rule: mmap_fixed_cases)
            case 1
            then show ?thesis using rs v1 err by auto
          next
            case 2
            have "4096 dvd addr + n" using 2(1) page_up_Some [OF n(1)] by simp
            note U = unmapped_pages [OF wf _ 2(1) this 2(6), unfolded vpts_on_areas, OF v1]
            show ?thesis using U rs pe 2(4,5) False n(1) by (simp add: a1)
          next
            case 3
            have v2: "vpts s2 = vpts st" using 3(6) v1 by simp
            show ?thesis using 3(4) rs pe page_entry_vpts [OF v2] v2 n(1) by (simp add: a1)
          qed
        qed
      qed
    qed
  qed
  then show "x < 2 ^ 38 \<Longrightarrow> ?A x st'" "t \<notin> space_tables (mmu_view st) root \<Longrightarrow> vpts st' t = vpts st t" by blast+
qed

lemma munmap_pages:
  assumes wf: "Mmu.space_wf (mmu_view st) root" and m: "munmap (Some (l, root)) addr len st = (r, st')"
  shows "x < 2 ^ 38 \<Longrightarrow> page_entry (mmu_view st') root x =
      (if r = Inr () \<and> addr \<le> x \<and> x < addr + the (page_up len) \<and> valid (page_entry (mmu_view st) root x)
       then 0 else page_entry (mmu_view st) root x)"
    and "t \<notin> space_tables (mmu_view st) root \<Longrightarrow> vpts st' t = vpts st t"
proof -
  have "(\<forall>x < 2 ^ 38. page_entry (mmu_view st') root x =
      (if r = Inr () \<and> addr \<le> x \<and> x < addr + the (page_up len) \<and> valid (page_entry (mmu_view st) root x)
       then 0 else page_entry (mmu_view st) root x)) \<and> (\<forall>t. t \<notin> space_tables (mmu_view st) root \<longrightarrow> vpts st' t = vpts st t)"
    using m
  proof (cases rule: munmap_cases)
    case (2 s1)
    have v: "vpts st' = vpts st" using vpts_reserve [OF 2(2)] 2(3) by simp
    show ?thesis using 2(1) v page_entry_vpts [OF v] by simp
  next
    case (3 s1 n)
    have v: "vpts (on_areas l (carve addr (addr + n)) s1) = vpts st" using vpts_reserve [OF 3(6)] by simp
    have "4096 dvd addr + n" using 3(3) page_up_Some [OF 3(1)] by simp
    note U = unmapped_pages [OF wf v 3(3) this 3(8)]
    then show ?thesis using 3(1,7) by simp
  qed auto
  then show "x < 2 ^ 38 \<Longrightarrow> page_entry (mmu_view st') root x =
      (if r = Inr () \<and> addr \<le> x \<and> x < addr + the (page_up len) \<and> valid (page_entry (mmu_view st) root x)
       then 0 else page_entry (mmu_view st) root x)"
    "t \<notin> space_tables (mmu_view st) root \<Longrightarrow> vpts st' t = vpts st t" by blast+
qed

lemma mprotect_pages:
  assumes wf: "Mmu.space_wf (mmu_view st) root" and m: "mprotect (Some (l, root)) addr len prot st = (r, st')"
  shows "r = Inl e \<Longrightarrow> vpts st' = vpts st"
    and "r = Inr () \<Longrightarrow> x < 2 ^ 38 \<Longrightarrow> \<not> (addr \<le> x \<and> x < addr + the (page_up len) \<and> valid (page_entry (mmu_view st) root x)) \<Longrightarrow>
      page_entry (mmu_view st') root x = page_entry (mmu_view st) root x"
    and "r = Inr () \<Longrightarrow> x < 2 ^ 38 \<Longrightarrow> addr \<le> x \<Longrightarrow> x < addr + the (page_up len) \<Longrightarrow> valid (page_entry (mmu_view st) root x) \<Longrightarrow>
      valid (page_entry (mmu_view st') root x) \<and> pte_pa (page_entry (mmu_view st') root x) = pte_pa (page_entry (mmu_view st) root x) \<and>
      is_shared (page_entry (mmu_view st') root x) = is_shared (page_entry (mmu_view st) root x) \<and>
      allows prot (page_entry (mmu_view st') root x)"
    and "t \<notin> space_tables (mmu_view st) root \<Longrightarrow> vpts st' t = vpts st t"
proof -
  consider (fail) e where "r = Inl e" "vpts st' = vpts st" | (nothing) "r = Inr ()" "page_up len = Some 0" "st' = st"
    | (done1) n s2 where "page_up len = Some n" "4096 dvd addr" "r = Inr ()" "vpts s2 = vpts st"
        "st' = snd (with_mmu (\<lambda>m. prod.swap (protect_range root addr (addr + n) (user_prot prot) m)) s2)"
  proof (cases "4096 dvd addr \<and> prot AND NOT 7 = 0 \<and> (\<exists>n. page_up len = Some n \<and> addr + n \<le> u64_max)")
    case False
    then have "st' = st \<and> (\<exists>e. r = Inl e)"
      using m unfolding mprotect_def by (auto simp: checked_add_def mod_eq_0_iff_dvd split: if_splits option.splits)
    then show thesis using that(1) by auto
  next
    case True
    then obtain n where t: "4096 dvd addr" "prot AND NOT 7 = 0" "page_up len = Some n" "addr + n \<le> u64_max" by blast
    then have ca: "checked_add addr n = Some (addr + n)" "checked_add addr 0 = Some addr" by (simp_all add: checked_add_def)
    obtain b s1 where r1: "reserve l 2 st = (b, s1)" by fastforce
    let ?s2 = "on_areas l (\<lambda>vs. (set_prot_loop (addr + n) prot (lower addr vs) vs, []))
           (on_areas l (split_at (addr + n)) (on_areas l (split_at addr) s1))"
    have "mprotect (Some (l, root)) addr len prot st =
      (if n = 0 then (Inr (), st) else if \<not> covered addr (addr + n) (areas st l) then (Inl ENOMEM, st)
       else if \<not> b then (Inl ENOMEM, s1)
       else (Inr (), snd (with_mmu (\<lambda>m. prod.swap (protect_range root addr (addr + n) (user_prot prot) m)) ?s2)))"
      unfolding mprotect_def Let_def by (cases b) (simp_all add: mod_eq_0_iff_dvd t(1,3) t(2) [simplified] ca r1)
    note eq = this [unfolded m]
    have v: "vpts s1 = vpts st" by (rule vpts_reserve [OF r1])
    consider "n = 0" | e where "r = Inl e" "st' = st \<or> st' = s1" | "r = Inr ()"
        "st' = snd (with_mmu (\<lambda>m. prod.swap (protect_range root addr (addr + n) (user_prot prot) m)) ?s2)"
      using eq by (auto split: if_splits)
    then show thesis
    proof cases
      case 1
      then show thesis using that(2) eq t(3) by simp
    next
      case (2 e)
      then show thesis using that(1) v by auto
    next
      case 3
      have "vpts ?s2 = vpts st" using v by simp
      then show thesis by (rule that(3) [OF t(3,1) 3(1) _ 3(2)])
    qed
  qed
  note split = this
  show "r = Inl e \<Longrightarrow> vpts st' = vpts st" by (cases rule: split) auto
  have pr: "(\<not> (addr \<le> x \<and> x < addr + the (page_up len) \<and> valid (page_entry (mmu_view st) root x)) \<longrightarrow>
        page_entry (mmu_view st') root x = page_entry (mmu_view st) root x) \<and>
      (addr \<le> x \<longrightarrow> x < addr + the (page_up len) \<longrightarrow> valid (page_entry (mmu_view st) root x) \<longrightarrow>
        valid (page_entry (mmu_view st') root x) \<and> pte_pa (page_entry (mmu_view st') root x) = pte_pa (page_entry (mmu_view st) root x) \<and>
        is_shared (page_entry (mmu_view st') root x) = is_shared (page_entry (mmu_view st) root x) \<and>
        allows prot (page_entry (mmu_view st') root x))"
    if "r = Inr ()" "x < 2 ^ 38" for x
  proof (cases rule: split)
    case (done1 n s2)
    obtain m' k where u: "protect_range root addr (addr + n) (user_prot prot) (mmu_view s2) = (m', k)" by fastforce
    have v: "vpts st' = pts m'" by (simp add: done1(5) vpts_with_mmu u)
    have "pts (mmu_view s2) = pts (mmu_view st)" using done1(4) by simp
    note P = protect_pages [OF wf this u]
    have e: "page_entry (mmu_view st') root x = page_entry m' root x" by (rule page_entry_pts) (simp add: v)
    have i: "in_range addr (addr + n) x \<longleftrightarrow> addr \<le> x \<and> x < addr + n"
      by (rule in_range_iff) (use done1(2) page_up_Some [OF done1(1)] in simp_all)
    show ?thesis unfolding e using P(1,2) [OF that(2)] i done1(1) by simp
  qed (use that in auto)
  show "r = Inr () \<Longrightarrow> x < 2 ^ 38 \<Longrightarrow> \<not> (addr \<le> x \<and> x < addr + the (page_up len) \<and> valid (page_entry (mmu_view st) root x)) \<Longrightarrow>
      page_entry (mmu_view st') root x = page_entry (mmu_view st) root x"
    using pr by blast
  show "r = Inr () \<Longrightarrow> x < 2 ^ 38 \<Longrightarrow> addr \<le> x \<Longrightarrow> x < addr + the (page_up len) \<Longrightarrow> valid (page_entry (mmu_view st) root x) \<Longrightarrow>
      valid (page_entry (mmu_view st') root x) \<and> pte_pa (page_entry (mmu_view st') root x) = pte_pa (page_entry (mmu_view st) root x) \<and>
      is_shared (page_entry (mmu_view st') root x) = is_shared (page_entry (mmu_view st) root x) \<and>
      allows prot (page_entry (mmu_view st') root x)"
    using pr by blast
  show "t \<notin> space_tables (mmu_view st) root \<Longrightarrow> vpts st' t = vpts st t"
  proof (cases rule: split)
    case (done1 n s2)
    assume t: "t \<notin> space_tables (mmu_view st) root"
    obtain m' k where u: "protect_range root addr (addr + n) (user_prot prot) (mmu_view s2) = (m', k)" by fastforce
    have "pts (mmu_view s2) = pts (mmu_view st)" using done1(4) by simp
    from protect_pages(3) [OF wf this u t] show ?thesis by (simp add: done1(5) vpts_with_mmu u)
  qed auto
qed

text \<open>C15. A successful mmap returns a page-aligned range inside the mmap region: the requested address
  with \<open>MAP_FIXED\<close>, otherwise a range that was free. The range gets the requested protection,
  object or file, page offsets counted from its start, and every other address of the process
  keeps its view; the areas of the other processes do not change. A failed call changes no view,
  and without \<open>MAP_FIXED\<close> it fails for lack of room only when there is no free range of that length
  in the region. In the page tables, a \<open>MAP_FIXED\<close> range that replaces areas loses every page it had, so that
  the new area starts empty; no other page of the process and no table of another space changes. An object is
  handed over with a counted descriptor, a name, or no mapping yet (\<open>pinned\<close>).\<close>

theorem mmap_places:
  assumes "vm_reachable st" and "l < MAX_PROCS" and "ob \<noteq> 0 \<longrightarrow> pinned (shm_view st) ob"
    and "Mmu.space_wf (mmu_view st) root"
    and "mmap_full (Some (l, root)) addr len prot flags ob ino pgoff st = (r, st')"
  shows "(\<forall>k. k \<noteq> l \<longrightarrow> areas st' k = areas st k) \<and>
    (case r of
      Inl e \<Rightarrow> (\<forall>x. view (areas st' l) x = view (areas st l) x) \<and>
        (e = ENOMEM \<and> flags AND MAP_FIXED = 0 \<and> page_up len \<noteq> None \<and> fst (reserve l 2 st) \<longrightarrow>
          (\<forall>b. MMAP_BASE \<le> b \<and> b + the (page_up len) \<le> MMAP_END \<longrightarrow> \<not> free_range b (the (page_up len)) (areas st l)))
    | Inr start \<Rightarrow> (\<exists>n. page_up len = Some n \<and> 0 < n \<and> prot AND NOT 7 = 0 \<and> 4096 dvd start \<and> MMAP_BASE \<le> start \<and> start + n \<le> MMAP_END \<and>
        (if flags AND MAP_FIXED \<noteq> 0 then start = addr else free_range start n (areas st l)) \<and>
        (\<forall>x. view (areas st' l) x =
          (if start \<le> x \<and> x < start + n
           then Some (prot, ob, ino, if ob = 0 \<and> ino = 0 then 0 else pgoff + (x - start) div 4096)
           else view (areas st l) x)))) \<and>
    (\<forall>x < 2 ^ 38. page_entry (mmu_view st') root x =
      (if r = Inr addr \<and> flags AND MAP_FIXED \<noteq> 0 \<and>
          (\<exists>y. addr \<le> y \<and> y < addr + the (page_up len) \<and> view (areas st l) y \<noteq> None) \<and>
          addr \<le> x \<and> x < addr + the (page_up len) \<and> valid (page_entry (mmu_view st) root x)
       then 0 else page_entry (mmu_view st) root x)) \<and>
    (\<forall>t. t \<notin> space_tables (mmu_view st) root \<longrightarrow> vpts st' t = vpts st t)"
proof -
  note ok = vm_reachable_ok [OF assms(1)]
  note wf = space_invD(1) [OF vm_offD(2) [OF ok assms(2)]]
  have pages: "page_entry (mmu_view st') root x =
      (if r = Inr addr \<and> flags AND MAP_FIXED \<noteq> 0 \<and>
          (\<exists>y. addr \<le> y \<and> y < addr + the (page_up len) \<and> view (areas st l) y \<noteq> None) \<and>
          addr \<le> x \<and> x < addr + the (page_up len) \<and> valid (page_entry (mmu_view st) root x)
       then 0 else page_entry (mmu_view st) root x)" if "x < 2 ^ 38" for x
  proof (cases "addr \<le> x \<and> x < addr + the (page_up len)")
    case True
    then have lt: "addr < addr + the (page_up len)" by linarith
    from mmap_full_pages(1) [OF ok assms(2,4,5) that] show ?thesis unfolding overlaps_iff [OF wf lt] .
  qed (use mmap_full_pages(1) [OF ok assms(2,4,5) that] in auto)
  note spec = mmap_full_spec [OF ok assms(2,3,5), unfolded mine_def new_attr_def]
  then show ?thesis using pages mmap_full_pages(2) [OF ok assms(2,4,5)]
    by (intro conjI allI impI) (cases r; simp)+
qed

text \<open>A run with one area of two pages, the first of which is in the page table.\<close>

lemma demo_page:
  obtains st root a where "vm_reachable st" "areas st 0 = [anon MMAP_BASE (MMAP_BASE + 8192) 3]" "cap (space_of st 0) = 409"
    "Mmu.space_wf (mmu_view st) root" "page_entry (mmu_view st) root MMAP_BASE = pa_pte a OR user_prot 3 OR PTE_V"
proof -
  obtain s where s: "vm_reachable s" "areas s 0 = [anon MMAP_BASE (MMAP_BASE + 8192) 3]" "cap (space_of s 0) = 409"
    by (rule demo_mmap) blast
  obtain root m0 where m0: "Mmu.space_ok m0 root" "nfree (mfa m0) = 7" "\<And>i. user_idx i \<Longrightarrow> entry m0 root i = 0"
    by (rule demo_space) blast
  note ok = space_okD(1,2) [OF m0(1)]
  have v: "user_va MMAP_BASE" by (simp add: user_va_def vpn_def user_idx_iff MMAP_BASE_def)
  then have e: "entry m0 root (vpn MMAP_BASE 2) = 0" using m0(3) by (simp add: user_va_def)
  obtain m where m: "map_page root MMAP_BASE 1073741824 (user_prot 3) m0 = (True, m)"
    using map_page_enough(1) [OF ok e, of 1073741824 "user_prot 3"] m0(2)
    by (cases "map_page root MMAP_BASE 1073741824 (user_prot 3) m0") auto
  note M = map_page_spec [OF ok v m]
  have pe: "page_entry m root MMAP_BASE = pa_pte 1073741824 OR user_prot 3 OR PTE_V"
    using M(3) [of MMAP_BASE] v by (simp add: same_page_def user_va_def)
  let ?st = "s\<lparr>vpts := pts m, vfa := mfa m, vmem := vmem s\<rparr>"
  have pv: "pts (mmu_view ?st) = pts m" "mfa (mmu_view ?st) = mfa m" by (simp_all add: mmu_view_def)
  have "Mmu.space_wf (mmu_view ?st) root"
    by (rule space_frame_wf [OF M(1)]) (use pv Mmu.space_wfD(7) [OF M(1)] in auto)
  moreover have "vm_reachable ?st" by (rule vm_reachable.step [OF s(1) vm_step.others])
  moreover have "space_of ?st 0 = space_of s 0" by (simp add: space_of_def)
  ultimately show ?thesis using that [of ?st root 1073741824] s page_entry_pts [OF pv(1)] pe by simp
qed

lemma demo_room: "length (areas st 0) + k \<le> cap (space_of st 0) \<Longrightarrow> reserve 0 k st = (True, st)"
  by (simp add: reserve_def)

lemma page_up_4096: "page_up 4096 = Some 4096" "page_up 8192 = Some 8192"
  by (simp_all add: page_up_def checked_add_def u64_max_def page_down_def)

theorem mmap_places_witness:
  "\<exists>st st' root. mmap_full (Some (0, root)) MMAP_BASE 4096 1 MAP_FIXED 0 0 0 st = (Inr MMAP_BASE, st') \<and>
     valid (page_entry (mmu_view st) root MMAP_BASE) \<and> page_entry (mmu_view st') root MMAP_BASE = 0 \<and>
     view (areas st 0) MMAP_BASE = Some (3, 0, 0, 0) \<and> view (areas st' 0) MMAP_BASE = Some (1, 0, 0, 0) \<and>
     view (areas st' 0) (MMAP_BASE + 4096) = Some (3, 0, 0, 0)"
proof -
  obtain st root a where st: "vm_reachable st" "areas st 0 = [anon MMAP_BASE (MMAP_BASE + 8192) 3]" "cap (space_of st 0) = 409"
    "Mmu.space_wf (mmu_view st) root" "page_entry (mmu_view st) root MMAP_BASE = pa_pte a OR user_prot 3 OR PTE_V"
    by (rule demo_page) blast
  have v: "view (areas st 0) x = (if MMAP_BASE \<le> x \<and> x < MMAP_BASE + 8192 then Some (3, 0, 0, 0) else None)" for x
    by (simp add: st view_def covers_def anon_def attr_at_def)
  obtain r st' where m: "mmap_full (Some (0, root)) MMAP_BASE 4096 1 MAP_FIXED 0 0 0 st = (r, st')" by fastforce
  have fx: "MAP_FIXED AND MAP_FIXED \<noteq> 0" "MAP_FIXED AND MAP_NOREPLACE = 0"
    by (simp_all add: MAP_FIXED_def MAP_NOREPLACE_def bit1_def)
  have "r = Inr MMAP_BASE" using m st(2,3) demo_room [of st 2] fx
    by (auto simp: mmap_full_def page_up_4096 mmap_fixed_def checked_add_def u64_max_def MMAP_BASE_def MMAP_END_def Let_def
        split: prod.splits if_splits)
  moreover have "valid (page_entry (mmu_view st) root MMAP_BASE)" unfolding st(5) by (rule user_prot_bits(4))
  moreover have "\<exists>y. MMAP_BASE \<le> y \<and> y < MMAP_BASE + the (page_up 4096) \<and> view (areas st 0) y \<noteq> None"
    by (rule exI [of _ MMAP_BASE]) (simp add: v page_up_4096)
  moreover have "0 < MAX_PROCS" "MMAP_BASE < 2 ^ 38" by (simp_all add: MAX_PROCS_def MMAP_BASE_def)
  ultimately show ?thesis
    using mmap_places [OF st(1) _ _ st(4) m] m fx(1) v
    by (intro exI [of _ st] exI [of _ st'] exI [of _ root]) (simp add: page_up_4096)
qed

text \<open>C16. munmap removes exactly the requested pages: from the caller's view, cutting or splitting the
  areas that cross the borders, and from its page table, where every entry of the range is cleared. On failure
  nothing of the view or of the page table changes; no area of another process and no table of another space does.\<close>

theorem munmap_removes:
  assumes "vm_reachable st" and "l < MAX_PROCS" and "Mmu.space_wf (mmu_view st) root"
    and "munmap (Some (l, root)) addr len st = (r, st')"
  shows "(\<forall>k. k \<noteq> l \<longrightarrow> areas st' k = areas st k) \<and>
    (\<forall>x. view (areas st' l) x =
      (if r = Inr () \<and> addr \<le> x \<and> x < addr + the (page_up len) then None else view (areas st l) x)) \<and>
    (\<forall>x < 2 ^ 38. page_entry (mmu_view st') root x =
      (if r = Inr () \<and> addr \<le> x \<and> x < addr + the (page_up len) \<and> valid (page_entry (mmu_view st) root x)
       then 0 else page_entry (mmu_view st) root x)) \<and>
    (\<forall>t. t \<notin> space_tables (mmu_view st) root \<longrightarrow> vpts st' t = vpts st t)"
  using munmap_spec(2,3) [OF vm_reachable_ok [OF assms(1)] assms(2,4)] munmap_pages [OF assms(3,4)] by (simp add: mine_def)

theorem munmap_removes_witness:
  "\<exists>st st' root. munmap (Some (0, root)) MMAP_BASE 4096 st = (Inr (), st') \<and> view (areas st 0) MMAP_BASE = Some (3, 0, 0, 0) \<and>
     valid (page_entry (mmu_view st) root MMAP_BASE) \<and> page_entry (mmu_view st') root MMAP_BASE = 0 \<and>
     view (areas st' 0) MMAP_BASE = None \<and> view (areas st' 0) (MMAP_BASE + 4096) = Some (3, 0, 0, 0)"
proof -
  obtain st root a where st: "vm_reachable st" "areas st 0 = [anon MMAP_BASE (MMAP_BASE + 8192) 3]" "cap (space_of st 0) = 409"
    "Mmu.space_wf (mmu_view st) root" "page_entry (mmu_view st) root MMAP_BASE = pa_pte a OR user_prot 3 OR PTE_V"
    by (rule demo_page) blast
  have v: "view (areas st 0) x = (if MMAP_BASE \<le> x \<and> x < MMAP_BASE + 8192 then Some (3, 0, 0, 0) else None)" for x
    by (simp add: st view_def covers_def anon_def attr_at_def)
  obtain r st' where m: "munmap (Some (0, root)) MMAP_BASE 4096 st = (r, st')" by fastforce
  have "r = Inr ()" using m st(2,3) demo_room [of st 1]
    by (simp add: munmap_def page_up_4096 checked_add_def u64_max_def MMAP_BASE_def MMAP_END_def Let_def split: prod.splits)
  moreover have "valid (page_entry (mmu_view st) root MMAP_BASE)" unfolding st(5) by (rule user_prot_bits(4))
  moreover have "0 < MAX_PROCS" "MMAP_BASE < 2 ^ 38" by (simp_all add: MAX_PROCS_def MMAP_BASE_def)
  ultimately show ?thesis
    using munmap_removes [OF st(1) _ st(4) m] m v
    by (intro exI [of _ st] exI [of _ st'] exI [of _ root]) (simp add: page_up_4096)
qed

text \<open>C17. A successful mprotect covers only mapped addresses and changes exactly the protection of
  the requested pages: in the view, and in the page table, where every present page of the range keeps its frame
  and allows exactly what the new protection does. It fails for lack of memory only when some address of the range
  is not mapped (or the table cannot grow), and then changes neither.\<close>

theorem mprotect_changes:
  assumes "vm_reachable st" and "l < MAX_PROCS" and "Mmu.space_wf (mmu_view st) root"
    and "mprotect (Some (l, root)) addr len prot st = (r, st')"
  shows "(\<forall>k. k \<noteq> l \<longrightarrow> areas st' k = areas st k) \<and>
    (\<forall>t. t \<notin> space_tables (mmu_view st) root \<longrightarrow> vpts st' t = vpts st t) \<and>
    (case r of
      Inl e \<Rightarrow> (\<forall>x. view (areas st' l) x = view (areas st l) x) \<and> vpts st' = vpts st \<and>
        (e = ENOMEM \<and> page_up len \<noteq> None \<and> addr + the (page_up len) \<le> u64_max \<and> fst (reserve l 2 st) \<longrightarrow>
          (\<exists>x. addr \<le> x \<and> x < addr + the (page_up len) \<and> view (areas st l) x = None))
    | Inr _ \<Rightarrow> (\<exists>n. page_up len = Some n \<and>
        (\<forall>x. view (areas st' l) x =
          (if addr \<le> x \<and> x < addr + n
           then (case view (areas st l) x of Some (p, r) \<Rightarrow> Some (prot, r) | None \<Rightarrow> None) else view (areas st l) x) \<and>
          (addr \<le> x \<and> x < addr + n \<longrightarrow> view (areas st l) x \<noteq> None)) \<and>
        (\<forall>x < 2 ^ 38. let e = page_entry (mmu_view st) root x; e' = page_entry (mmu_view st') root x in
          if addr \<le> x \<and> x < addr + n \<and> valid e
          then valid e' \<and> pte_pa e' = pte_pa e \<and> is_shared e' = is_shared e \<and>
            (user_page e' \<longleftrightarrow> prot AND 7 \<noteq> 0) \<and> readable e' \<and> (writable e' \<longleftrightarrow> prot AND 2 \<noteq> 0) \<and>
            (executable e' \<longleftrightarrow> prot AND 4 \<noteq> 0)
          else e' = e)))"
proof -
  note m = mprotect_spec [OF vm_reachable_ok [OF assms(1)] assms(2,4)]
  note p = mprotect_pages [OF assms(3,4)]
  have mo: "map_option (\<lambda>(p, r). (prot, r)) o1 = (case o1 of Some (p, r) \<Rightarrow> Some (prot, r) | None \<Rightarrow> None)" for o1 :: "attr option"
    by (auto split: option.splits)
  show ?thesis
  proof (cases r)
    case (Inl e)
    then show ?thesis using m p(1) [of e] p(4) by (simp add: mine_def)
  next
    case (Inr u)
    then obtain n where n: "page_up len = Some n" "\<forall>x. addr \<le> x \<and> x < addr + n \<longrightarrow> view (areas st l) x \<noteq> None"
      "\<forall>x. view (areas st' l) x = (if addr \<le> x \<and> x < addr + n then map_option (\<lambda>(p, r). (prot, r)) (view (areas st l) x)
           else view (areas st l) x)" using m by auto
    have k: "\<forall>k. k \<noteq> l \<longrightarrow> areas st' k = areas st k" using m by (simp add: mine_def)
    have ok: "r = Inr ()" using Inr by simp
    have e: "let e = page_entry (mmu_view st) root x; e' = page_entry (mmu_view st') root x in
          if addr \<le> x \<and> x < addr + n \<and> valid e
          then valid e' \<and> pte_pa e' = pte_pa e \<and> is_shared e' = is_shared e \<and>
            (user_page e' \<longleftrightarrow> prot AND 7 \<noteq> 0) \<and> readable e' \<and> (writable e' \<longleftrightarrow> prot AND 2 \<noteq> 0) \<and>
            (executable e' \<longleftrightarrow> prot AND 4 \<noteq> 0)
          else e' = e" if "x < 2 ^ 38" for x
      using p(2,3) [OF ok that] n(1) by (simp add: Let_def allows_def)
    show ?thesis unfolding Inr using k p(4) n(1,2) n(3) [unfolded mo] e by simp
  qed
qed

theorem mprotect_changes_witness:
  "\<exists>st st' root. mprotect (Some (0, root)) MMAP_BASE 4096 1 st = (Inr (), st') \<and> view (areas st 0) MMAP_BASE = Some (3, 0, 0, 0) \<and>
     view (areas st' 0) MMAP_BASE = Some (1, 0, 0, 0) \<and> view (areas st' 0) (MMAP_BASE + 4096) = Some (3, 0, 0, 0) \<and>
     writable (page_entry (mmu_view st) root MMAP_BASE) \<and> \<not> writable (page_entry (mmu_view st') root MMAP_BASE)"
proof -
  obtain st root a where st: "vm_reachable st" "areas st 0 = [anon MMAP_BASE (MMAP_BASE + 8192) 3]" "cap (space_of st 0) = 409"
    "Mmu.space_wf (mmu_view st) root" "page_entry (mmu_view st) root MMAP_BASE = pa_pte a OR user_prot 3 OR PTE_V"
    by (rule demo_page) blast
  have v: "view (areas st 0) x = (if MMAP_BASE \<le> x \<and> x < MMAP_BASE + 8192 then Some (3, 0, 0, 0) else None)" for x
    by (simp add: st view_def covers_def anon_def attr_at_def)
  have wf: "table_wf (areas st 0)" by (simp add: st anon_def vma_wf_def MMAP_BASE_def)
  have c: "covered MMAP_BASE (MMAP_BASE + 4096) (areas st 0)" by (simp add: covered_iff [OF wf] v)
  obtain r st' where m: "mprotect (Some (0, root)) MMAP_BASE 4096 1 st = (r, st')" by fastforce
  have r: "r = Inr ()" using m st(2,3) c demo_room [of st 2] unfolding mprotect_def
    by (simp add: page_up_4096 checked_add_def u64_max_def MMAP_BASE_def Let_def split: prod.splits)
  have w: "valid (page_entry (mmu_view st) root MMAP_BASE)" "writable (page_entry (mmu_view st) root MMAP_BASE)"
    unfolding st(5) by (simp_all add: user_prot_bits)
  have b: "0 < MAX_PROCS" "MMAP_BASE < 2 ^ 38" by (simp_all add: MAX_PROCS_def MMAP_BASE_def)
  note P = mprotect_changes [OF st(1) b(1) st(4) m]
  have "view (areas st' 0) x = (if MMAP_BASE \<le> x \<and> x < MMAP_BASE + 4096
      then (case view (areas st 0) x of Some (p, r) \<Rightarrow> Some (1, r) | None \<Rightarrow> None) else view (areas st 0) x)" for x
    using P r by (simp add: page_up_4096)
  moreover have "\<not> writable (page_entry (mmu_view st') root MMAP_BASE)"
    using P r w(1) b(2) by (auto simp: page_up_4096 Let_def)
  ultimately show ?thesis using m v r w(2) by (intro exI [of _ st] exI [of _ st'] exI [of _ root]) simp
qed

section \<open>Copy on write\<close>

text \<open>A table without shared objects: its operations leave frames and memory alone.\<close>

definition privs :: "vma list \<Rightarrow> bool" where
  "privs vs \<longleftrightarrow> (\<forall>v \<in> set vs. v_obj v = 0)"

lemma obj_refs_none: "\<forall>c \<in> set cs. fst c = 0 \<Longrightarrow> obj_refs cs st = st"
  by (induction cs) (auto simp: obj_refs_def obj_ref_def)

lemma split_at_privs: "lower a vs \<le> length vs \<Longrightarrow> privs vs \<Longrightarrow>
  privs (fst (split_at a vs)) \<and> (\<forall>c \<in> set (snd (split_at a vs)). fst c = 0)"
  unfolding split_at_def Let_def privs_def
  by (auto simp: insert_at_def dest!: in_set_takeD in_set_dropD set_list_update [rotated])

lemma on_areas_privs:
  assumes "\<forall>c \<in> set (snd (f (areas st l))). fst c = 0"
  shows "mmu_view (on_areas l f st) = mmu_view st" "vmem (on_areas l f st) = vmem st"
  using obj_refs_none [OF assms] by (simp_all add: on_areas_def split_def mmu_view_def put_space_def)

lemma mmu_view_set: "pts (mmu_view (set_mmu m st)) = pts m" "mfa (mmu_view (set_mmu m st)) = mfa m"
  by (simp_all add: mmu_view_def set_mmu_def)

lemma space_ok_pts:
  assumes "Mmu.space_ok m root" "pts m' = pts m" "mfa m' = mfa m"
  shows "Mmu.space_ok m' root"
proof -
  note o = space_okD [OF assms(1)]
  have pe: "page_entry m' root x = page_entry m root x" for x by (rule page_entry_pts [OF assms(2)])
  have ts: "space_tables m' root = space_tables m root" by (rule space_frame(7)) (simp add: assms(2))
  have wf: "Mmu.space_wf m' root"
    by (rule space_frame_wf [OF o(1)]) (use assms Mmu.space_wfD(7) [OF o(1)] in auto)
  show ?thesis
    by (rule space_okI [OF wf]) (use o assms(3) in \<open>auto simp: mmu_ok_def private_at_def pe ts\<close>)
qed

lemma protect_translates:
  assumes wf: "Mmu.space_wf m root" and pr: "protect_range root start stop (user_prot prot) m = (m', n)"
    and x: "x < 2 ^ 38" "in_range start stop x" and p: "private_at m root x pa" and w: "prot AND 2 \<noteq> 0"
  shows "translate_user m' root x True = Some (pa + x mod 4096)"
proof -
  note P = protect_range_flat [OF wf pr]
  let ?e = "page_entry m root x"
  have v: "valid ?e" "pte_pa ?e = pa" using p by (simp_all add: private_at_def Let_def)
  have e: "page_entry m' root x = protect_entry (user_prot prot) ?e" using P(4) [OF x(1)] x(2) by simp
  have "prot AND 7 \<noteq> 0"
  proof
    assume "prot AND 7 = 0"
    then have "(prot AND 7) AND 2 = 0" by simp
    then show False using w by (simp add: and.assoc)
  qed
  then have b: "valid (page_entry m' root x)" "writable (page_entry m' root x)" "leaf (page_entry m' root x)"
    "user_page (page_entry m' root x)"
    using user_prot_bits [of 0 prot] w v(1) unfolding e
    by (auto simp: protect_entry_def entry_bits leaf_bits bit_or_iff bit_and_iff bit_pa_pte pte_bit_defs bit_bit1)
  obtain l0 where "leaf_table m' root x = Some l0" using valid_leaf_table [OF b(1)] by blast
  from translate_page [OF this x(1), of True] show ?thesis
    using b v(2) protect_entry_pa [OF flag_bits_user_prot, of prot ?e] pte_pa_aligned [of ?e]
    by (simp add: Let_def e mod_eq_0_iff_dvd)
qed

lemma outside_space:
  assumes "same_outside m m' root" "space_tables m other \<inter> space_tables m root = {}"
  shows "page_entry m' other y = page_entry m other y"
  by (rule space_frame(4)) (use assms in \<open>auto simp: same_outside_def\<close>)

text \<open>C20. mprotect and copy on write do not go together: asking again for write permission on a private
  page whose frame is still shared with another process (a fork keeps one frame under two
  read-only entries) makes the page writable in place. The frame keeps all its references and the
  other process keeps the same entry, so the writes of one process are seen by the other.\<close>

theorem mprotect_breaks_cow:
  assumes "Mmu.space_wf (mmu_view st) root" and "vm_reachable st" and "l < MAX_PROCS"
    and "privs (areas st l)" and "length (areas st l) + 2 \<le> cap (space_of st l)"
    and "mprotect (Some (l, root)) addr len prot st = (Inr (), st')" and "prot AND 2 \<noteq> 0"
    and "x < 2 ^ 38" and "addr \<le> x" and "x < addr + the (page_up len)"
    and "private_at (mmu_view st) root x pa" and "1 < addr_refs (vfa st) pa"
  shows "translate_user (mmu_view st') root x True = Some (pa + x mod 4096) \<and>
    addr_refs (vfa st') pa = addr_refs (vfa st) pa \<and>
    (\<forall>other y. space_tables (mmu_view st) other \<inter> space_tables (mmu_view st) root = {} \<longrightarrow>
      page_entry (mmu_view st') other y = page_entry (mmu_view st) other y)"
proof -
  note ok = vm_reachable_ok [OF assms(2)]
  note wf = space_invD(1) [OF vm_offD(2) [OF ok assms(3)]]
  obtain n where n: "page_up len = Some n" "4096 dvd addr" "0 < n" "addr + n \<le> u64_max"
    and st': "st' = snd (with_mmu (\<lambda>m. prod.swap (protect_range root addr (addr + n) (user_prot prot) m))
       (on_areas l (\<lambda>vs. (set_prot_loop (addr + n) prot (lower addr vs) vs, []))
         (on_areas l (split_at (addr + n)) (on_areas l (split_at addr) st))))"
    using assms(5,6,9,10) unfolding mprotect_def reserve_def
    by (auto simp: Let_def checked_add_def mod_eq_0_iff_dvd split: if_splits option.splits)
  let ?s1 = "on_areas l (split_at addr) st"
  let ?s2 = "on_areas l (split_at (addr + n)) ?s1"
  let ?s3 = "on_areas l (\<lambda>vs. (set_prot_loop (addr + n) prot (lower addr vs) vs, [])) ?s2"
  have room: "length (areas st l) + 1 \<le> cap (space_of st l)" using assms(5) by simp
  note A = split_off [OF ok assms(3) n(2) room]
  note wf1 = space_invD(1) [OF vm_offD(2) [OF A(1) assms(3)]]
  note p1 = split_at_privs [OF lower_spec(1) [OF wf] assms(4), of addr]
  have pr1: "privs (areas ?s1 l)" using p1 by (simp add: A(2))
  note p2 = split_at_privs [OF lower_spec(1) [OF wf1] pr1, of "addr + n"]
  have mv: "mmu_view ?s3 = mmu_view st"
    using on_areas_privs(1) [of "split_at addr" st l] on_areas_privs(1) [of "split_at (addr + n)" ?s1 l] p1 p2
    by (subst on_areas_privs(1)) auto
  obtain m' k where pr: "protect_range root addr (addr + n) (user_prot prot) (mmu_view st) = (m', k)" by fastforce
  have mv': "pts (mmu_view st') = pts m'" "vfa st' = mfa m'"
    using pr mv by (simp_all add: st' with_mmu_def set_mmu_def mmu_view_def)
  note P = protect_range_flat [OF assms(1) pr]
  have r: "in_range addr (addr + n) x"
  proof -
    have "page_down x < addr + n" using page_down_simps(1) [of x] assms(10) n(1) by simp
    moreover have "addr \<le> page_down x" using page_down_ge [OF n(2)] assms(9) by blast
    moreover have "page_down addr = addr" using n(2) by (simp add: page_down_def)
    ultimately show ?thesis by (simp add: in_range_def)
  qed
  have "translate_user m' root x True = Some (pa + x mod 4096)"
    by (rule protect_translates [OF assms(1) pr assms(8) r assms(11,7)])
  moreover have "translate_user (mmu_view st') root x True = translate_user m' root x True"
  proof -
    have "page_entry m' root x = protect_entry (user_prot prot) (page_entry (mmu_view st) root x)"
      using P(4) [OF assms(8)] r by simp
    then have "valid (page_entry m' root x)"
      using assms(11) by (simp add: private_at_def Let_def protect_entry_def is_shared_keep(3))
    then obtain l0 where l0: "leaf_table m' root x = Some l0" using valid_leaf_table by blast
    then have "leaf_table (mmu_view st') root x = Some l0" using leaf_table_pts [OF mv'(1)] by simp
    from translate_page [OF this assms(8)] translate_page [OF l0 assms(8)] show ?thesis
      by (simp add: page_entry_pts [OF mv'(1)])
  qed
  moreover have "addr_refs (vfa st') pa = addr_refs (vfa st) pa" using P(2) mv'(2) by (simp add: mmu_view_def)
  moreover have "page_entry (mmu_view st') other y = page_entry (mmu_view st) other y"
    if "space_tables (mmu_view st) other \<inter> space_tables (mmu_view st) root = {}" for other y
    using outside_space [OF P(3) that] page_entry_pts [OF mv'(1)] by simp
  ultimately show ?thesis by (intro conjI allI impI) simp_all
qed

text \<open>The ownership of a space depends on the counts only through being positive.\<close>

lemma space_ok_refs:
  assumes ok: "Mmu.space_ok m root" and fa: "frames_inv fa" "plat fa = plat (mfa m)"
    and keep: "\<And>a. 0 < addr_refs (mfa m) a \<Longrightarrow> 0 < addr_refs fa a"
  shows "Mmu.space_ok (m\<lparr>mfa := fa\<rparr>) root"
proof -
  note o = space_okD [OF ok]
  let ?m = "m\<lparr>mfa := fa\<rparr>"
  have pe: "page_entry ?m root x = page_entry m root x" for x by (rule page_entry_pts) simp
  have ts: "space_tables ?m root = space_tables m root" by (rule space_frame(7)) simp
  have wf: "Mmu.space_wf ?m root"
    by (rule space_frame_wf [OF o(1)]) (use keep Mmu.space_wfD(7) [OF o(1)] in auto)
  show ?thesis
  proof (rule space_okI [OF wf])
    show "mmu_ok ?m" using fa by (simp add: mmu_ok_def)
  next
    fix x b assume x: "x < 2 ^ 38" "private_at ?m root x b" "heap_frame (plat (mfa ?m)) b"
    then have "private_at m root x b" "heap_frame (plat (mfa m)) b" by (simp_all add: private_at_def pe fa)
    with o(3,4) x(1) keep ts show "0 < addr_refs (mfa ?m) b \<and> b \<notin> space_tables ?m root" by auto
  next
    fix x y b assume x: "x < 2 ^ 38" "y < 2 ^ 38" "private_at ?m root x b" "private_at ?m root y b" "heap_frame (plat (mfa ?m)) b"
    then show "same_page x y" using o(5) [OF x(1,2)] by (simp add: private_at_def pe fa)
  qed
qed

text \<open>A run in which a page of process 0 has a frame with two references.\<close>

lemma demo_shared:
  obtains st root a where "vm_reachable st" "Mmu.space_ok (mmu_view st) root" "privs (areas st 0)"
    "length (areas st 0) + 2 \<le> cap (space_of st 0)" "covered 4096 8192 (areas st 0)"
    "private_at (mmu_view st) root 4660 a" "addr_refs (vfa st) a = 2" "frames_inv (vfa st)"
    "view (areas st 0) 4660 = Some (3, 0, 0, 0)" "page_entry (mmu_view st) root 4660 = pa_pte a OR user_prot 3 OR PTE_V"
    "heap_frame (plat (vfa st)) a" "0 < nfree (vfa st)" "4096 dvd a" "a < 2 ^ 64"
proof -
  obtain s1 where s1: "vm_reachable s1" "areas s1 0 = [anon MMAP_BASE (MMAP_BASE + 8192) 3]" "cap (space_of s1 0) = 409"
    by (rule demo_mmap) blast
  let ?v = "anon 4096 8192 3"
  have low: "lower 4096 (areas s1 0) = 0"
    by (simp add: s1(2) lower_def lower_loop.simps anon_def MMAP_BASE_def)
  have ov: "\<not> overlaps 4096 8192 (areas s1 0)"
    by (simp add: overlaps_def low) (simp add: s1(2) anon_def MMAP_BASE_def)
  obtain s2 where s2: "add_region 0 4096 8192 3 s1 = (True, s2)" "s2 = on_areas 0 (add_vma ?v) s1"
    using demo_room [of s1 1] s1(2,3) ov by (simp add: add_region_def)
  have r2: "vm_reachable s2"
    by (rule vm_reachable.step [OF s1(1) vm_step.add_region [OF _ _ _ _ s2(1)]]) (simp_all add: MAX_PROCS_def)
  have ad: "add_vma ?v (areas s1 0) = ([?v, anon MMAP_BASE (MMAP_BASE + 8192) 3], [])"
    unfolding add_vma_def Let_def using low by (simp add: anon_def s1(2) insert_at_def mergeable_def MMAP_BASE_def)
  have ll: "0 < length (vspaces s1)" using vm_offD(1) [OF vm_reachable_ok [OF s1(1)]] by (simp add: MAX_PROCS_def)
  have ar: "areas s2 0 = [?v, anon MMAP_BASE (MMAP_BASE + 8192) 3]" "cap (space_of s2 0) = 409"
    unfolding s2(2) on_areas_def ad using s1(3) by (simp_all add: obj_refs_def space_of_put [OF ll] cap_def)
  obtain root a m where m: "Mmu.space_ok m root" "page_entry m root 4660 = pa_pte a OR user_prot 3 OR PTE_V"
    "4096 dvd a" "a < 2 ^ 64" "addr_refs (mfa m) a = 1" "heap_frame demo_platform a" "plat (mfa m) = demo_platform"
    "nfree (mfa m) = 4" by (rule demo_mapped) blast
  note ok = space_okD(1,2) [OF m(1)]
  have inv: "frames_inv (mfa m)" using ok(2) by (simp add: mmu_ok_def)
  note inc = inc_ref_funpow [OF inv, of a 1]
  let ?st = "s2\<lparr>vpts := pts m, vfa := inc_ref a (mfa m), vmem := vmem s2\<rparr>"
  have refs: "frames_inv (inc_ref a (mfa m))" "addr_refs (inc_ref a (mfa m)) = (addr_refs (mfa m))(a := 2)"
    "plat (inc_ref a (mfa m)) = demo_platform"
    using inc m(5,7) by (simp_all add: numeral_2_eq_2)
  have rc: "vm_reachable ?st" by (rule vm_reachable.step [OF r2 vm_step.others])
  have so: "space_of ?st 0 = space_of s2 0" by (simp add: space_of_def)
  have pv: "pts (mmu_view ?st) = pts m" "mfa (mmu_view ?st) = inc_ref a (mfa m)" by (simp_all add: mmu_view_def)
  have "Mmu.space_ok (m\<lparr>mfa := inc_ref a (mfa m)\<rparr>) root"
    by (rule space_ok_refs [OF m(1) refs(1)]) (use refs m(7) in auto)
  then have wf: "Mmu.space_ok (mmu_view ?st) root" by (rule space_ok_pts; subst pv; simp)
  have vw: "view (areas ?st 0) 4660 = Some (3, 0, 0, 0)"
    unfolding so ar by (simp add: view_def covers_def anon_def attr_at_def)
  have nf: "0 < nfree (inc_ref a (mfa m))" using m(8) by (simp add: inc_ref_def Let_def)
  have hp: "heap_frame (plat (vfa ?st)) a" using refs(3) m(6) by simp
  note pe = trans [OF page_entry_pts [OF pv(1)] m(2)]
  have pa: "private_at (mmu_view ?st) root 4660 a" unfolding private_at_def pe
    using user_prot_bits(4,5) [of a 3] pte_pa_entry [OF m(3,4) flag_bits_user_prot, of 3]
    by (simp add: Let_def)
  have pr: "privs (areas ?st 0)" unfolding so ar by (simp add: privs_def anon_def)
  have rm: "length (areas ?st 0) + 2 \<le> cap (space_of ?st 0)" unfolding so ar by simp
  have wfa: "table_wf (areas ?st 0)" unfolding so ar by (simp add: before_def anon_def vma_wf_def MMAP_BASE_def)
  have cv: "covered 4096 8192 (areas ?st 0)"
    unfolding covered_iff [OF wfa] unfolding so ar by (simp add: view_def covers_def anon_def)
  have a2: "addr_refs (vfa ?st) a = 2" "frames_inv (vfa ?st)" "0 < nfree (vfa ?st)" using refs nf by simp_all
  show ?thesis by (rule that [OF rc wf pr rm cv pa a2(1,2) vw pe hp a2(3) m(3,4)])
qed

theorem mprotect_breaks_cow_witness:
  "\<exists>st st' root a. mprotect (Some (0, root)) 4096 4096 3 st = (Inr (), st') \<and>
     addr_refs (vfa st') a = 2 \<and> translate_user (mmu_view st') root 4660 True = Some (a + 564)"
proof -
  obtain st root a where d: "vm_reachable st" "Mmu.space_ok (mmu_view st) root" "privs (areas st 0)"
    "length (areas st 0) + 2 \<le> cap (space_of st 0)" "covered 4096 8192 (areas st 0)"
    "private_at (mmu_view st) root 4660 a" "addr_refs (vfa st) a = 2"
    by (rule demo_shared) blast
  obtain r st' where m: "mprotect (Some (0, root)) 4096 4096 3 st = (r, st')" by fastforce
  have "r = Inr ()" using m d(5) demo_room [OF d(4)]
    unfolding mprotect_def by (simp add: page_up_4096 checked_add_def u64_max_def split: prod.splits)
  then have "mprotect (Some (0, root)) 4096 4096 3 st = (Inr (), st')" using m by simp
  from mprotect_breaks_cow [OF space_okD(1) [OF d(2)] d(1) _ d(3,4) this _ _ _ _ d(6)] d(7) this show ?thesis
    by (intro exI [of _ st] exI [of _ st'] exI [of _ root] exI [of _ a]) (simp add: page_up_4096 MAX_PROCS_def)
qed

section \<open>What a fault makes of a page\<close>

text \<open>A fresh frame mapped in a space that owns its pages.\<close>

lemma map_fresh:
  assumes ok: "Mmu.space_ok m root" and va: "user_va pg" "4096 dvd pg" and al: "alloc_frame (mfa m) = Some (f, fa)"
    and mp: "map_page root pg f (user_prot prot) (m\<lparr>mfa := fa\<rparr>) = (b, m2)"
  shows "Mmu.space_ok m2 root" "b \<Longrightarrow> page_entry m2 root pg = pa_pte f OR user_prot prot OR PTE_V"
    "x < 2 ^ 38 \<Longrightarrow> \<not> (b \<and> same_page pg x) \<Longrightarrow> page_entry m2 root x = page_entry m root x"
    "addr_refs (mfa m) f = 0" "addr_refs (mfa m2) f = 1" "0 < addr_refs (mfa m) a \<Longrightarrow> addr_refs (mfa m2) a = addr_refs (mfa m) a"
    "4096 dvd f" "f < 2 ^ 64" "plat (mfa m2) = plat (mfa m)" "heap_frame (plat (mfa m)) f"
proof -
  note o = space_okD [OF ok]
  let ?m1 = "m\<lparr>mfa := fa\<rparr>"
  have al': "mmu_alloc m = Some (f, ?m1)" by (simp add: mmu_alloc_def al)
  note A = mmu_allocD [OF o(2) al']
  have inv: "frames_inv (mfa m)" using o(2) by (simp add: mmu_ok_def)
  show h: "heap_frame (plat (mfa m)) f" using alloc_frame_Some [OF inv al] by metis
  have pl: "plat fa = plat (mfa m)" by (rule alloc_frame_plat [OF al])
  have pe: "page_entry ?m1 root x = page_entry m root x" for x by (rule page_entry_pts) simp
  have ts: "space_tables ?m1 root = space_tables m root" by (rule space_frame(7)) simp
  have np: "\<not> private_at m root x f" if "x < 2 ^ 38" for x using o(3) [OF that _ h] A(7) by auto
  have wf1: "Mmu.space_wf ?m1 root"
    by (rule space_frame_wf [OF o(1)]) (use A(8) Mmu.space_wfD(7) [OF o(1)] in auto)
  have ok1: "Mmu.space_ok ?m1 root"
  proof (rule space_okI [OF wf1 A(1)])
    fix x a assume x: "x < 2 ^ 38" "private_at ?m1 root x a" "heap_frame (plat (mfa ?m1)) a"
    then have "private_at m root x a" "heap_frame (plat (mfa m)) a" by (simp_all add: private_at_def pe pl)
    with o(3,4) x(1) A(8) ts show "0 < addr_refs (mfa ?m1) a \<and> a \<notin> space_tables ?m1 root" by auto
  next
    fix x y a assume x: "x < 2 ^ 38" "y < 2 ^ 38" "private_at ?m1 root x a" "private_at ?m1 root y a" "heap_frame (plat (mfa ?m1)) a"
    then show "same_page x y" using o(5) [OF x(1,2)] by (simp add: private_at_def pe pl)
  qed
  have r1: "0 < addr_refs (mfa ?m1) f" using A(8) by simp
  have nt: "f \<notin> space_tables ?m1 root" using Mmu.space_wfD(7) [OF o(1)] A(7) ts by fastforce
  have np1: "\<not> private_at ?m1 root x f" if "x < 2 ^ 38" for x using np [OF that] by (simp add: private_at_def pe)
  show "Mmu.space_ok m2 root" by (rule map_page_owns [OF ok1 va(1) A(4,5) r1 nt np1 mp])
  note M = map_page_spec [OF wf1 A(1) va(1) mp]
  have pg: "pg < 2 ^ 38" using va(1) by (simp add: user_va_def)
  show "b \<Longrightarrow> page_entry m2 root pg = pa_pte f OR user_prot prot OR PTE_V" using M(3) [OF pg] by (simp add: same_page_def)
  show "x < 2 ^ 38 \<Longrightarrow> \<not> (b \<and> same_page pg x) \<Longrightarrow> page_entry m2 root x = page_entry m root x" using M(3) [of x] pe by auto
  show "addr_refs (mfa m) f = 0" "4096 dvd f" "f < 2 ^ 64" by (rule A)+
  show "addr_refs (mfa m2) f = 1" using M(2) r1 A(8) by (simp add: extends_def)
  show "0 < addr_refs (mfa m) a \<Longrightarrow> addr_refs (mfa m2) a = addr_refs (mfa m) a" using M(2) A(7,8) by (auto simp: extends_def)
  show "plat (mfa m2) = plat (mfa m)" using map_page_plat [OF mp] pl by simp
qed

lemma mapped_translates:
  assumes "page_entry m root pg = pa_pte f OR user_prot prot OR PTE_V" "pg < 2 ^ 38" "4096 dvd pg" "4096 dvd f" "f < 2 ^ 64"
  shows "translate_user m root pg wr = (if prot AND 7 = 0 \<or> (wr \<and> prot AND 2 = 0) then None else Some f)"
proof -
  obtain l0 where "leaf_table m root pg = Some l0"
    using valid_leaf_table [of m root pg] user_prot_bits(4) assms(1) by auto
  from translate_page [OF this assms(2), of wr] show ?thesis
    using pte_pa_entry [OF assms(4,5) flag_bits_user_prot, of prot] assms(3,4)
    by (auto simp: assms(1) user_prot_bits Let_def mod_eq_0_iff_dvd)
qed

lemma user_va_region:
  assumes "MMAP_BASE \<le> x" "x < MMAP_END"
  shows "user_va x" "x < 2 ^ 38"
proof -
  have "128 \<le> x div 2 ^ 30 \<and> x div 2 ^ 30 < 252"
    using div_le_mono [OF assms(1), of "2 ^ 30"] less_mult_imp_div_less [of x 252 "2 ^ 30"] assms(2)
    by (simp add: MMAP_BASE_def MMAP_END_def)
  then show "x < 2 ^ 38" "user_va x" using assms(2)
    by (simp_all add: user_va_def vpn_def user_idx_iff MMAP_END_def)
qed

text \<open>The view decides what the fault finds.\<close>

lemma find_view:
  assumes "table_wf vs" "view vs x = Some (prot, ob, ino, k)"
  obtains v where "find_vma x vs = Some v" "v_prot v = prot" "v_obj v = ob" "v_ino v = ino"
  using assms by (auto simp: view_Some find_vma_covers attr_at_def)

text \<open>C18. A fault on an absent private anonymous page either is refused or fails for lack of frames, or
  maps a frame that nobody referenced, filled with zeros and owned once, with exactly the
  permissions of the area; no other page of the process changes, no allocated frame changes its
  count, no other byte of memory changes, and the process keeps owning its pages.\<close>

theorem fault_zero_page:
  assumes "vm_reachable st" and "l < MAX_PROCS" and "Mmu.space_ok (mmu_view st) root"
    and "view (areas st l) addr = Some (prot, 0, 0, k)" and "MMAP_BASE \<le> addr" and "addr < MMAP_END"
    and "\<not> valid (page_entry (mmu_view st) root (page_down addr))"
    and "fault rd (Some (l, root)) addr acc st = (True, st')"
  shows "access_ok acc prot \<and> Mmu.space_ok (mmu_view st') root \<and>
    (\<exists>f. heap_frame (plat (vfa st)) f \<and> addr_refs (vfa st) f = 0 \<and> addr_refs (vfa st') f = 1 \<and>
      (\<forall>wr. translate_user (mmu_view st') root (page_down addr) wr =
        (if wr \<and> prot AND 2 = 0 then None else Some f)) \<and>
      (\<forall>x < 2 ^ 38. \<not> same_page (page_down addr) x \<longrightarrow> page_entry (mmu_view st') root x = page_entry (mmu_view st) root x) \<and>
      (\<forall>a. 0 < addr_refs (vfa st) a \<longrightarrow> addr_refs (vfa st') a = addr_refs (vfa st) a) \<and>
      (\<forall>a. vmem st' a = (if f \<le> a \<and> a < f + 4096 then 0 else vmem st a)))"
proof -
  note wf = space_invD(1) [OF vm_offD(2) [OF vm_reachable_ok [OF assms(1)] assms(2)]]
  obtain v where v: "find_vma addr (areas st l) = Some v" "v_prot v = prot" "v_obj v = 0" "v_ino v = 0"
    by (rule find_view [OF wf assms(4)])
  let ?pg = "page_down addr"
  have pg: "4096 dvd ?pg" by (rule page_down_simps)
  have rg: "MMAP_BASE \<le> ?pg" "?pg < MMAP_END"
    using page_down_ge [of MMAP_BASE addr] page_down_simps(1) [of addr] assms(5,6) by (auto simp: MMAP_BASE_def)
  note u = user_va_region [OF rg]
  have nm: "\<not> is_mapped root ?pg (mmu_view st)" using is_mapped_flat [OF u(2)] assms(7) by simp
  have acc: "access_ok acc prot" and fa: "fault_anon root ?pg v st = (True, st')"
    using assms(8) v nm rg unfolding fault_def fault_locked_def
    by (cases "fault_anon root ?pg v st"; auto simp: Let_def split: if_splits)+
  obtain f fa where al: "alloc_frame (vfa st) = Some (f, fa)"
    and mf: "map_frame root ?pg f (user_prot prot) (zero_frame f (st\<lparr>vfa := fa\<rparr>)) = (True, st')"
    using fa v(2) unfolding fault_anon_def by (auto split: option.splits prod.splits bool.splits)
  let ?m = "mmu_view st"
  let ?z = "zero_frame f (st\<lparr>vfa := fa\<rparr>)"
  have z: "mmu_view ?z = ?m\<lparr>mfa := fa\<rparr>" by (simp add: zero_frame_def mmu_view_def)
  obtain m2 where m2: "map_page root ?pg f (user_prot prot) (?m\<lparr>mfa := fa\<rparr>) = (True, m2)" and st': "st' = set_mmu m2 ?z"
    using mf by (auto simp: map_frame_def with_mmu_def z Let_def split: prod.splits)
  have al': "alloc_frame (mfa ?m) = Some (f, fa)" using al by (simp add: mmu_view_def)
  note F = map_fresh [OF assms(3) u(1) pg al' m2]
  have mv: "pts (mmu_view st') = pts m2" "mfa (mmu_view st') = mfa m2"
    by (simp_all add: st' mmu_view_set del: pts_mmu_view)
  have vf: "vfa st' = mfa m2" "mfa ?m = vfa st" by (simp_all add: st' set_mmu_def mmu_view_def)
  have p7: "prot AND 7 \<noteq> 0"
  proof
    assume z: "prot AND 7 = 0"
    have "prot AND k = (prot AND 7) AND k" if "7 AND k = k" for k by (simp add: and.assoc that)
    from this [of 2] this [of 4] show False
      using acc z by (cases acc) (simp_all add: PROT_READ_def PROT_WRITE_def PROT_EXEC_def)
  qed
  have tr: "translate_user (mmu_view st') root ?pg wr = (if wr \<and> prot AND 2 = 0 then None else Some f)" for wr
    using mapped_translates [of "mmu_view st'" root ?pg f prot wr] F(2,7,8) p7 u(2) pg
    by (simp add: page_entry_pts [OF mv(1)])
  have mem: "vmem st' a = (if f \<le> a \<and> a < f + 4096 then 0 else vmem st a)" for a
    by (auto simp: st' set_mmu_def zero_frame_def mem_write_def)
  have pe: "page_entry (mmu_view st') root x = page_entry ?m root x" if "x < 2 ^ 38" "\<not> same_page ?pg x" for x
    using F(3) [OF that(1)] that(2) page_entry_pts [OF mv(1)] by simp
  have refs: "addr_refs (vfa st') a = addr_refs (vfa st) a" if "0 < addr_refs (vfa st) a" for a
    using F(6) [of a] that by (simp add: vf)
  have "Mmu.space_ok (mmu_view st') root" by (rule space_ok_pts [OF F(1) mv])
  moreover have "heap_frame (plat (vfa st)) f" "addr_refs (vfa st) f = 0" "addr_refs (vfa st') f = 1"
    using F(4,5,10) by (simp_all add: vf)
  ultimately show ?thesis using acc tr mem pe refs by blast
qed

lemma addr_refs_heap: "heap_frame (plat fa) a \<Longrightarrow> frames_inv fa \<Longrightarrow> 0 < addr_refs fa a \<Longrightarrow> ref_count fa a = addr_refs fa a"
  using ref_count_refs [of fa a] by (auto simp: addr_refs_def split: if_splits)

text \<open>Dropping a reference to a frame with two or more keeps the ownership of a space that no longer
  maps it.\<close>

lemma drop_shared:
  assumes ok: "Mmu.space_ok m root" and r: "1 < addr_refs (mfa m) a" and al: "4096 dvd a"
  shows "Mmu.space_ok (m\<lparr>mfa := free_frame a (mfa m)\<rparr>) root"
    "addr_refs (free_frame a (mfa m)) = (addr_refs (mfa m))(a := addr_refs (mfa m) a - 1)"
proof -
  note o = space_okD [OF ok]
  have inv: "frames_inv (mfa m)" using o(2) by (simp add: mmu_ok_def)
  note f = free_refs [OF inv al]
  let ?m = "m\<lparr>mfa := free_frame a (mfa m)\<rparr>"
  have pos: "0 < addr_refs (mfa m) a" using r by simp
  show rf: "addr_refs (free_frame a (mfa m)) = (addr_refs (mfa m))(a := addr_refs (mfa m) a - 1)" using f(2) pos by simp
  have pl: "plat (free_frame a (mfa m)) = plat (mfa m)"
    by (simp add: free_frame_def free_idx_locked_def Let_def set_used_def)
  show "Mmu.space_ok ?m root"
    by (rule space_ok_refs [OF ok _ pl]) (use f(1) pos r rf in auto)
qed

text \<open>C19. A write fault on a present private page whose frame has other owners: either the fault fails, or
  the page gets a fresh frame of its own with the same contents, writable, the shared frame loses
  exactly this owner, and nothing else changes.\<close>

theorem fault_copies_shared:
  assumes "vm_reachable st" and "l < MAX_PROCS" and "Mmu.space_ok (mmu_view st) root"
    and "view (areas st l) addr = Some (prot, ob, ino, k)" and "user_va (page_down addr)"
    and "translate_user (mmu_view st) root (page_down addr) False = Some old"
    and "private_at (mmu_view st) root (page_down addr) old"
    and "heap_frame (plat (vfa st)) old" and "1 < addr_refs (vfa st) old"
    and "fault rd (Some (l, root)) addr Write st = (True, st')"
  shows "prot AND 2 \<noteq> 0 \<and> Mmu.space_ok (mmu_view st') root \<and>
    addr_refs (vfa st') old = addr_refs (vfa st) old - 1 \<and>
    (\<exists>f. addr_refs (vfa st) f = 0 \<and> addr_refs (vfa st') f = 1 \<and>
      translate_user (mmu_view st') root (page_down addr) True = Some f \<and>
      (\<forall>x < 2 ^ 38. \<not> same_page (page_down addr) x \<longrightarrow> page_entry (mmu_view st') root x = page_entry (mmu_view st) root x) \<and>
      (\<forall>a. a \<noteq> old \<and> 0 < addr_refs (vfa st) a \<longrightarrow> addr_refs (vfa st') a = addr_refs (vfa st) a) \<and>
      (\<forall>a. vmem st' a = (if f \<le> a \<and> a < f + 4096 then vmem st (old + (a - f)) else vmem st a)))"
proof -
  note wf = space_invD(1) [OF vm_offD(2) [OF vm_reachable_ok [OF assms(1)] assms(2)]]
  obtain v where v: "find_vma addr (areas st l) = Some v" "v_prot v = prot" "v_obj v = ob" "v_ino v = ino"
    by (rule find_view [OF wf assms(4)])
  let ?pg = "page_down addr" and ?m = "mmu_view st"
  have pg: "4096 dvd ?pg" "?pg < 2 ^ 38" using page_down_simps(3) assms(5) by (auto simp: user_va_def)
  have pv: "valid (page_entry ?m root ?pg)" "pte_pa (page_entry ?m root ?pg) = old"
    using assms(7) by (simp_all add: private_at_def Let_def)
  have mp: "is_mapped root ?pg ?m" using is_mapped_flat [OF pg(2)] pv(1) by simp
  have od: "4096 dvd old" using pte_pa_aligned [of "page_entry ?m root ?pg"] pv(2) by simp
  have inv: "frames_inv (vfa st)" using space_okD(2) [OF assms(3)] by (simp add: mmu_ok_def mmu_view_def)
  have rc: "1 < ref_count (vfa st) (page_down old)"
    using addr_refs_heap [OF assms(8) inv] assms(9) od by (simp add: page_down_def)
  have w: "prot AND 2 \<noteq> 0" "access_ok Write prot"
    using assms(10) v unfolding fault_def fault_locked_def by (auto simp: PROT_WRITE_def split: if_splits)
  have cw: "copy_on_write root ?pg old (user_prot prot) st = (True, st')"
    using assms(10) v w mp assms(6) rc od unfolding fault_def fault_locked_def fault_mapped_def
    by (cases "copy_on_write root ?pg old (user_prot prot) st") (simp add: PROT_WRITE_def page_down_def Let_def)
  obtain f fa where al: "alloc_frame (vfa st) = Some (f, fa)"
    using cw unfolding copy_on_write_def by (auto split: option.splits)
  let ?z = "st\<lparr>vfa := fa, vmem := mem_write (vmem st) f (mem_read (vmem st) old 4096)\<rparr>"
  obtain m2 where m2: "map_page root ?pg f (user_prot prot) (?m\<lparr>mfa := fa\<rparr>) = (True, m2)"
    and st': "st' = drop_frame old (set_mmu m2 ?z)"
  proof -
    have z: "mmu_view ?z = ?m\<lparr>mfa := fa\<rparr>" by (simp add: mmu_view_def)
    obtain b m2 where q: "map_page root ?pg f (user_prot prot) (?m\<lparr>mfa := fa\<rparr>) = (b, m2)" by fastforce
    then have "map_frame root ?pg f (user_prot prot) ?z = (b, set_mmu m2 ?z)"
      by (simp add: map_frame_def with_mmu_def z)
    then have "b \<and> st' = drop_frame old (set_mmu m2 ?z)"
      using cw al unfolding copy_on_write_def Let_def by (cases b) auto
    then show thesis using q by (intro that [of m2]) simp_all
  qed
  have al': "alloc_frame (mfa ?m) = Some (f, fa)" using al by (simp add: mmu_view_def)
  note F = map_fresh [OF assms(3,5) pg(1) al' m2]
  have vf: "mfa ?m = vfa st" "vfa st' = free_frame old (mfa m2)" by (simp_all add: st' drop_frame_def set_mmu_def mmu_view_def)
  have ro: "addr_refs (mfa m2) old = addr_refs (vfa st) old" "1 < addr_refs (mfa m2) old"
    using F(6) [of old] assms(9) by (simp_all add: vf)
  note D = drop_shared [OF F(1) ro(2) od]
  have mv: "pts (mmu_view st') = pts m2" "mfa (mmu_view st') = free_frame old (mfa m2)"
    by (simp_all add: st' drop_frame_def set_mmu_def mmu_view_def del: pts_mmu_view)
  have ok: "Mmu.space_ok (mmu_view st') root" by (rule space_ok_pts [OF D(1)]) (use mv in simp_all)
  have fo: "f \<noteq> old" using F(4) assms(9) by (auto simp: vf)
  have p7: "prot AND 7 \<noteq> 0"
  proof
    assume z: "prot AND 7 = 0"
    have "prot AND 2 = (prot AND 7) AND 2" by (simp add: and.assoc)
    then show False using z w(1) by simp
  qed
  have tr: "translate_user (mmu_view st') root ?pg True = Some f"
    using mapped_translates [of "mmu_view st'" root ?pg f prot True] F(2,7,8) p7 w(1) pg
    by (simp add: page_entry_pts [OF mv(1)])
  have mem: "vmem st' a = (if f \<le> a \<and> a < f + 4096 then vmem st (old + (a - f)) else vmem st a)" for a
    by (auto simp: st' drop_frame_def set_mmu_def mem_write_def mem_read_def)
  have pe: "page_entry (mmu_view st') root x = page_entry ?m root x" if "x < 2 ^ 38" "\<not> same_page ?pg x" for x
    using F(3) [OF that(1)] that(2) page_entry_pts [OF mv(1)] by simp
  have rf: "addr_refs (vfa st') old = addr_refs (vfa st) old - 1" using D(2) ro(1) by (simp add: vf)
  have rs: "addr_refs (vfa st') a = addr_refs (vfa st) a" if "a \<noteq> old \<and> 0 < addr_refs (vfa st) a" for a
    using D(2) F(6) [of a] that by (simp add: vf)
  have "addr_refs (vfa st) f = 0" "addr_refs (vfa st') f = 1" using D(2) F(4,5) fo by (simp_all add: vf)
  then show ?thesis using w(1) ok rf tr pe rs mem by blast
qed

text \<open>Runs for the two faults.\<close>

lemma alloc_frame_some: "frames_inv fa \<Longrightarrow> 0 < nfree fa \<Longrightarrow> \<exists>f fb. alloc_frame fa = Some (f, fb) \<and> nfree fb = nfree fa - 1"
  using alloc_frame_free by blast

theorem fault_zero_page_witness:
  "\<exists>st st' root f. fault (\<lambda>_ _. Inr []) (Some (0, root)) MMAP_BASE Write st = (True, st') \<and>
     addr_refs (vfa st) f = 0 \<and> translate_user (mmu_view st') root MMAP_BASE True = Some f \<and> vmem st' f = 0"
proof -
  obtain s1 where s1: "vm_reachable s1" "areas s1 0 = [anon MMAP_BASE (MMAP_BASE + 8192) 3]" by (rule demo_mmap) blast
  obtain root m where m: "Mmu.space_ok m root" "nfree (mfa m) = 7" "\<And>x. page_entry m root x = 0"
    "\<And>i. user_idx i \<Longrightarrow> entry m root i = 0" "space_tables m root = {root}" by (rule demo_space) blast
  define st where "st = s1\<lparr>vpts := pts m, vfa := mfa m, vmem := (\<lambda>_. 7)\<rparr>"
  have rc: "vm_reachable st" unfolding st_def by (rule vm_reachable.step [OF s1(1) vm_step.others])
  have mv: "pts (mmu_view st) = pts m" "mfa (mmu_view st) = mfa m" "vfa st = mfa m" by (simp_all add: mmu_view_def st_def)
  have ok: "Mmu.space_ok (mmu_view st) root" by (rule space_ok_pts [OF m(1) mv(1,2)])
  have so: "areas st 0 = [anon MMAP_BASE (MMAP_BASE + 8192) 3]" using s1(2) by (simp add: space_of_def st_def)
  have vw: "view (areas st 0) MMAP_BASE = Some (3, 0, 0, 0)"
    unfolding so by (simp add: view_def covers_def anon_def attr_at_def)
  have pg: "page_down MMAP_BASE = MMAP_BASE" by (simp add: page_down_def MMAP_BASE_def)
  have rg: "MMAP_BASE < MMAP_END" by (simp add: MMAP_BASE_def MMAP_END_def)
  note u = user_va_region [OF order_refl rg]
  have nv: "\<not> valid (page_entry (mmu_view st) root (page_down MMAP_BASE))"
    using page_entry_pts [OF mv(1)] m(3) by simp
  have inv: "frames_inv (mfa m)" using space_okD(2) [OF m(1)] by (simp add: mmu_ok_def)
  obtain f fa where al: "alloc_frame (mfa m) = Some (f, fa)" "nfree fa = 6"
    using alloc_frame_some [OF inv] m(2) by auto
  let ?z = "zero_frame f (st\<lparr>vfa := fa\<rparr>)"
  have mz: "pts (mmu_view ?z) = pts m" "mfa (mmu_view ?z) = fa" by (simp_all add: zero_frame_def mmu_view_def st_def)
  have al': "mmu_alloc m = Some (f, m\<lparr>mfa := fa\<rparr>)" by (simp add: mmu_alloc_def al)
  note A = mmu_allocD [OF space_okD(2) [OF m(1)] al']
  have wfz: "Mmu.space_wf (mmu_view ?z) root" "mmu_ok (mmu_view ?z)" "entry (mmu_view ?z) root (vpn MMAP_BASE 2) = 0"
  proof -
    show "Mmu.space_wf (mmu_view ?z) root"
      by (rule space_frame_wf [OF space_okD(1) [OF m(1)]])
        (use mz A(8) Mmu.space_wfD(7) [OF space_okD(1) [OF m(1)]] in auto)
    show "mmu_ok (mmu_view ?z)" using A(1) mz by (simp add: mmu_ok_def)
    show "entry (mmu_view ?z) root (vpn MMAP_BASE 2) = 0"
      using m(4) [of "vpn MMAP_BASE 2"] u(1) unfolding entry_def mz(1) by (simp add: user_va_def)
  qed
  have fst: "fst (map_frame root MMAP_BASE f (user_prot 3) ?z)"
    using map_page_enough(1) [OF wfz, of f "user_prot 3"] al(2) mz(2)
    by (simp add: map_frame_def with_mmu_def split_def Let_def)
  obtain r st' where ft: "fault (\<lambda>_ _. Inr []) (Some (0, root)) MMAP_BASE Write st = (r, st')" by fastforce
  have wf: "table_wf (areas st 0)" unfolding so by (simp add: anon_def vma_wf_def MMAP_BASE_def)
  have fv: "find_vma MMAP_BASE (areas st 0) = Some (anon MMAP_BASE (MMAP_BASE + 8192) 3)"
    unfolding find_vma_covers [OF wf] unfolding so by (simp add: covers_def anon_def)
  have nm: "\<not> is_mapped root MMAP_BASE (mmu_view st)" using is_mapped_flat [OF u(2)] nv pg by simp
  have "fault_anon root MMAP_BASE (anon MMAP_BASE (MMAP_BASE + 8192) 3) st = (True, snd (map_frame root MMAP_BASE f (user_prot 3) ?z))"
    unfolding fault_anon_def mv(3) using fst al(1)
    by (cases "map_frame root MMAP_BASE f (user_prot 3) ?z") (simp add: anon_def)
  then have "fst (fault (\<lambda>_ _. Inr []) (Some (0, root)) MMAP_BASE Write st)"
    unfolding fault_def fault_locked_def pg using nm rg fv by (simp add: anon_def PROT_WRITE_def Let_def)
  then have "fault (\<lambda>_ _. Inr []) (Some (0, root)) MMAP_BASE Write st = (True, st')" using ft by simp
  note ft' = this
  have "0 < MAX_PROCS" by (simp add: MAX_PROCS_def)
  from fault_zero_page [OF rc this ok vw order_refl rg nv ft'] obtain g where
    "addr_refs (vfa st) g = 0" "\<forall>wr. translate_user (mmu_view st') root MMAP_BASE wr = (if wr \<and> (3::u64) AND 2 = 0 then None else Some g)"
    "\<forall>a. vmem st' a = (if g \<le> a \<and> a < g + 4096 then 0 else vmem st a)" unfolding pg by (elim conjE exE)
  then show ?thesis using ft' by (intro exI [of _ st] exI [of _ st'] exI [of _ root] exI [of _ g]) simp
qed

lemma map_page_existing:
  assumes "leaf_table m root va = Some l0"
  shows "fst (map_page root va pa flags m)"
proof -
  obtain l1 where s: "sub_table m root (vpn va 2) = Some l1" "sub_table m l1 (vpn va 1) = Some l0"
    using assms by (auto simp: leaf_table_Some)
  then have "next_table root (vpn va 2) m = (Some l1, m)" "next_table l1 (vpn va 1) m = (Some l0, m)"
    by (auto simp: sub_table_def next_table_def Let_def split: if_splits)
  then show ?thesis by (simp add: map_page_def)
qed

theorem fault_copies_shared_witness:
  "\<exists>st st' root old f. fault (\<lambda>_ _. Inr []) (Some (0, root)) 4660 Write st = (True, st') \<and>
     addr_refs (vfa st) old = 2 \<and> addr_refs (vfa st') old = 1 \<and> f \<noteq> old \<and> translate_user (mmu_view st') root 4096 True = Some f"
proof -
  obtain st root a where d: "vm_reachable st" "Mmu.space_ok (mmu_view st) root" "private_at (mmu_view st) root 4660 a"
    "addr_refs (vfa st) a = 2" "frames_inv (vfa st)" "view (areas st 0) 4660 = Some (3, 0, 0, 0)"
    "page_entry (mmu_view st) root 4660 = pa_pte a OR user_prot 3 OR PTE_V"
    "heap_frame (plat (vfa st)) a" "0 < nfree (vfa st)" "4096 dvd a" "a < 2 ^ 64"
    by (rule demo_shared) blast
  have pg: "page_down 4660 = 4096" by (simp add: page_down_def)
  have u: "user_va 4096" by (simp add: user_va_def vpn_def user_idx_iff)
  have sp: "same_page 4660 4096" by (simp add: same_page_def)
  have pe: "page_entry (mmu_view st) root 4096 = pa_pte a OR user_prot 3 OR PTE_V"
    using page_entry_same [of 4660 4096 "mmu_view st" root] sp d(7) by simp
  have tr: "translate_user (mmu_view st) root 4096 False = Some a"
    using mapped_translates [OF pe _ _ d(10,11), of False] by simp
  have pr: "private_at (mmu_view st) root 4096 a" using d(3) pe d(7) by (simp add: private_at_def)
  obtain l0 where l0: "leaf_table (mmu_view st) root 4096 = Some l0"
    using valid_leaf_table [of "mmu_view st" root 4096] pe user_prot_bits(4) by auto
  obtain f fa where al: "alloc_frame (vfa st) = Some (f, fa)" using alloc_frame_some [OF d(5,9)] by blast
  let ?z = "st\<lparr>vfa := fa, vmem := mem_write (vmem st) f (mem_read (vmem st) a 4096)\<rparr>"
  have "leaf_table (mmu_view ?z) root 4096 = Some l0"
    using l0 leaf_table_pts [of "mmu_view ?z" "mmu_view st"] by (simp add: mmu_view_def)
  then have "fst (map_frame root 4096 f (user_prot 3) ?z)"
    using map_page_existing by (simp add: map_frame_def with_mmu_def split_def Let_def)
  then have cw: "fst (copy_on_write root 4096 a (user_prot 3) st)"
    unfolding copy_on_write_def using al
    by (cases "map_frame root 4096 f (user_prot 3) ?z") (simp add: Let_def)
  have mp: "is_mapped root 4096 (mmu_view st)" using is_mapped_flat [of 4096] pe user_prot_bits(4) by simp
  obtain v where v: "find_vma 4660 (areas st 0) = Some v" "v_prot v = 3"
    by (rule find_view [OF space_invD(1) [OF vm_offD(2) [OF vm_reachable_ok [OF d(1)]]] d(6)]) (simp_all add: MAX_PROCS_def)
  have rc: "1 < ref_count (vfa st) (page_down a)"
    using addr_refs_heap [OF d(8,5)] d(4,10) by (simp add: page_down_def)
  have "page_down a = a" using d(10) by (simp add: page_down_def)
  then have "fst (fault (\<lambda>_ _. Inr []) (Some (0, root)) 4660 Write st)"
    using cw mp v tr rc unfolding fault_def fault_locked_def fault_mapped_def pg
    by (cases "copy_on_write root 4096 a (user_prot 3) st") (simp add: PROT_WRITE_def Let_def)
  then obtain st' where ft: "fault (\<lambda>_ _. Inr []) (Some (0, root)) 4660 Write st = (True, st')"
    by (cases "fault (\<lambda>_ _. Inr []) (Some (0, root)) 4660 Write st") auto
  from fault_copies_shared [OF d(1) _ d(2,6) _ _ _ d(8) _ ft, unfolded pg, OF _ u tr pr] d(4)
  have "addr_refs (vfa st') a = 1" "\<exists>f. addr_refs (vfa st) f = 0 \<and> translate_user (mmu_view st') root 4096 True = Some f"
    by (auto simp: MAX_PROCS_def)
  then show ?thesis using ft d(4) by (metis zero_neq_numeral)
qed

end
