(* ===== verification/Wakes.thy ===== *)
theory Wakes
  imports Frames
begin

text \<open>
  The kernel's event machinery (\<open>kernel/src/process.rs\<close>, "esperas de E/S", and
  \<open>kernel/src/file.rs\<close>, "acordares pendentes"): the 64 event counters \<open>IO_SEQ\<close>, hashed by
  wait key; the wake-ups queued while the FS lock is held (\<open>PENDING\<close>, at most 64 keys) and
  fired after it is released; and the per-CPU record \<open>BLOCK_ON\<close> of what the last operation
  that could not proceed is waiting for.

  The counters are \<open>nat\<close>: the code's \<open>AtomicU64\<close> would need \<open>2 ^ 64\<close> events to wrap. The
  record \<open>kern\<close> underneath, the frames and the kernel's memory, is extended step by step by
  the components that live behind the FS lock (\<open>Pipes\<close>, \<open>Unix\<close>, \<open>Files\<close>); each operation is
  defined on the smallest record that has its state.
\<close>

section \<open>State\<close>

record kern =
  kfa :: frames
  kmem :: mem

record waits = kern +
  iseq :: "nat list"
  pend :: "u64 list"
  pany :: bool
  block_on :: "nat \<Rightarrow> u64 \<times> nat \<times> nat"

definition EBLOCK :: errno where [errno_defs]: "EBLOCK = 0x7FFF0000"

definition POLL_KEY :: u64 where "POLL_KEY = 0x504F4C4C"

definition MAX_PENDING :: nat where "MAX_PENDING = 64"

section \<open>Event counters\<close>

definition key_bucket :: "u64 \<Rightarrow> nat" where
  "key_bucket key = unat (drop_bit 58 (key * 0x9E3779B97F4A7C15) AND 63)"

definition key_bit :: "u64 \<Rightarrow> u64" where
  "key_bit key = bit1 (key_bucket key)"

definition bump_io_seq :: "u64 \<Rightarrow> 'a waits_scheme \<Rightarrow> 'a waits_scheme" where
  "bump_io_seq key st =
     (let sq = (iseq st)[key_bucket key := iseq st ! key_bucket key + 1] in
      st\<lparr>iseq := sq[key_bucket POLL_KEY := sq ! key_bucket POLL_KEY + 1]\<rparr>)"


definition io_seq :: "u64 \<Rightarrow> 'a waits_scheme \<Rightarrow> nat" where
  "io_seq key st = iseq st ! key_bucket key"

text \<open>The loop of \<open>io_seq_mask\<close>: \<open>m &= m - 1\<close> clears the lowest set bit.\<close>

lemma clear_lowest_less: "m \<noteq> 0 \<Longrightarrow> unat (m AND (m - 1)) < unat (m :: 'a::len word)"
  by (metis word_and_le2 and.commute word_le_nat_alt measure_unat le_less_trans)

function sum_seq :: "nat list \<Rightarrow> u64 \<Rightarrow> nat \<Rightarrow> nat" where
  "sum_seq sq m acc =
     (if m = 0 then acc else sum_seq sq (m AND (m - 1)) (acc + sq ! trailing_zeros m))"
  by pat_completeness auto
termination
  by (relation "measure (\<lambda>(sq, m, acc). unat m)") (auto intro: clear_lowest_less)

declare sum_seq.simps [simp del]

definition io_seq_mask :: "u64 \<Rightarrow> 'a waits_scheme \<Rightarrow> nat" where
  "io_seq_mask msk st = (if msk = 0 then io_seq POLL_KEY st else sum_seq (iseq st) msk 0)"

section \<open>Pending wake-ups and blocking\<close>

definition push_wake :: "u64 \<Rightarrow> 'a waits_scheme \<Rightarrow> 'a waits_scheme" where
  "push_wake key st =
     (let st = (bump_io_seq key st)\<lparr>pany := True\<rparr> in
      if key \<in> set (pend st) then st
      else if length (pend st) < MAX_PENDING then st\<lparr>pend := pend st @ [key]\<rparr>
      else st)"

definition take_wakes :: "'a waits_scheme \<Rightarrow> u64 list \<times> 'a waits_scheme" where
  "take_wakes st = (pend st, st\<lparr>pany := False, pend := []\<rparr>)"

definition would_block_for :: "nat \<Rightarrow> u64 \<Rightarrow> nat \<Rightarrow> 'a waits_scheme \<Rightarrow> errno \<times> 'a waits_scheme" where
  "would_block_for cpu key ms st =
     (EBLOCK, st\<lparr>block_on := (block_on st)(cpu := (key, io_seq key st, ms))\<rparr>)"

definition would_block :: "nat \<Rightarrow> u64 \<Rightarrow> 'a waits_scheme \<Rightarrow> errno \<times> 'a waits_scheme" where
  "would_block cpu key st = would_block_for cpu key 0 st"

text \<open>\<open>take_block\<close>; \<open>tick ms\<close> is \<open>now() + ms_to_ticks(ms)\<close> of the platform.\<close>

definition take_block :: "nat \<Rightarrow> (nat \<Rightarrow> nat) \<Rightarrow> 'a waits_scheme \<Rightarrow> u64 \<times> nat \<times> nat" where
  "take_block cpu tick st =
     (case block_on st cpu of (k, seen, ms) \<Rightarrow> (k, seen, if ms > 0 then tick ms else 0))"

section \<open>Facts\<close>

definition waits_wf :: "'a waits_scheme \<Rightarrow> bool" where
  "waits_wf st \<longleftrightarrow> length (iseq st) = 64 \<and> length (pend st) \<le> MAX_PENDING \<and> distinct (pend st) \<and>
     (pend st \<noteq> [] \<longrightarrow> pany st)"

lemma key_bucket_less [simp]: "key_bucket key < 64"
proof -
  have "unat (drop_bit 58 (key * 0x9E3779B97F4A7C15) AND 63 :: u64) \<le> unat (63 :: u64)"
    using word_and_le1 word_le_nat_alt by blast
  then show ?thesis by (simp add: key_bucket_def)
qed

lemma bit_key_bit: "bit (key_bit key) b \<longleftrightarrow> b = key_bucket key"
  by (simp add: key_bit_def bit_bit1)

lemma bump_io_seq_simps [simp]:
  "pend (bump_io_seq key st) = pend st" "pany (bump_io_seq key st) = pany st"
  "kfa (bump_io_seq key st) = kfa st" "kmem (bump_io_seq key st) = kmem st"
  "block_on (bump_io_seq key st) = block_on st"
  "length (iseq (bump_io_seq key st)) = length (iseq st)"
  "waits.more (bump_io_seq key st) = waits.more st"
  by (simp_all add: bump_io_seq_def Let_def)

lemma push_wake_simps [simp]:
  "kfa (push_wake key st) = kfa st" "kmem (push_wake key st) = kmem st"
  "block_on (push_wake key st) = block_on st" "pany (push_wake key st)"
  "iseq (push_wake key st) = iseq (bump_io_seq key st)"
  "waits.more (push_wake key st) = waits.more st"
  by (simp_all add: push_wake_def Let_def)

lemma would_block_simps [simp]:
  "fst (would_block cpu key st) = EBLOCK"
  "iseq (snd (would_block cpu key st)) = iseq st" "pend (snd (would_block cpu key st)) = pend st"
  "kfa (snd (would_block cpu key st)) = kfa st" "kmem (snd (would_block cpu key st)) = kmem st"
  "waits.more (snd (would_block cpu key st)) = waits.more st"
  by (simp_all add: would_block_def would_block_for_def)

lemma push_wake_wf: "waits_wf st \<Longrightarrow> waits_wf (push_wake key st)"
  by (auto simp: waits_wf_def push_wake_def Let_def)

lemma take_wakes_wf: "waits_wf st \<Longrightarrow> waits_wf (snd (take_wakes st))"
  by (simp add: waits_wf_def take_wakes_def)

lemma bump_seq:
  assumes "length (iseq st) = 64"
  shows "iseq st ! b \<le> iseq (bump_io_seq key st) ! b"
    and "iseq st ! key_bucket key < iseq (bump_io_seq key st) ! key_bucket key"
    and "iseq st ! key_bucket POLL_KEY < iseq (bump_io_seq key st) ! key_bucket POLL_KEY"
  using assms by (simp_all add: bump_io_seq_def Let_def nth_list_update)

text \<open>\<open>m & (m - 1)\<close> is \<open>m\<close> without its lowest bit, so the loop adds up the counters of the mask.\<close>

lemma clear_lowest_eq:
  fixes m :: "'a::len word"
  assumes "m \<noteq> 0"
  shows "m AND (m - 1) = m AND NOT (bit1 (trailing_zeros m))"
proof -
  let ?t = "trailing_zeros m" let ?r = "m AND NOT (bit1 (trailing_zeros m))"
  note tz = trailing_zeros_less [OF assms] bit_trailing_zeros [OF assms] below_trailing_zeros [OF assms]
  have low: "\<not> bit ?r i" if "i \<le> ?t" for i
    using that tz(3) by (auto simp: clear_bit1 le_less)
  have "?r AND bit1 ?t = 0" by (rule bit_word_eqI) (auto simp: bit_simps bit_bit1)
  moreover have m: "m = ?r OR bit1 ?t"
    using tz(2) by (intro bit_word_eqI) (auto simp: bit_simps bit_bit1)
  ultimately have "m = ?r + bit1 ?t" by (metis disjunctive_add_eq_or)
  then have "m - 1 = ?r + mask ?t"
    by (simp add: mask_eq_exp_minus_1 bit1_def push_bit_eq_mult)
  moreover have "?r AND mask ?t = 0"
    using low by (intro bit_word_eqI) (auto simp: bit_simps bit_mask_iff clear_bit1)
  ultimately have "m - 1 = ?r OR mask ?t" by (metis disjunctive_add_eq_or)
  then show ?thesis
    using low tz(2) by (intro bit_word_eqI) (auto simp: bit_simps bit_mask_iff bit_bit1)
qed

lemma bits_clear_lowest:
  assumes "m \<noteq> (0 :: u64)"
  shows "{b. bit m b} = insert (trailing_zeros m) {b. bit (m AND (m - 1)) b}"
    and "trailing_zeros m \<notin> {b. bit (m AND (m - 1)) b}"
  using bit_trailing_zeros [OF assms] by (auto simp: clear_lowest_eq [OF assms] clear_bit1)

lemma sum_seq_eq: "sum_seq sq m acc = acc + (\<Sum>b | bit m b. sq ! b)"
proof (induction sq m acc rule: sum_seq.induct)
  case (1 sq m acc)
  have fin: "finite {b. bit m' b}" for m' :: u64 by simp
  show ?case
  proof (cases "m = 0")
    case False
    then show ?thesis
      using "1.IH" [OF False] bits_clear_lowest [OF False] fin
      by (subst sum_seq.simps) simp
  qed (simp add: sum_seq.simps)
qed

lemma io_seq_mask_eq:
  "msk \<noteq> 0 \<Longrightarrow> io_seq_mask msk st = (\<Sum>b | bit msk b. iseq st ! b)"
  by (simp add: io_seq_mask_def sum_seq_eq)

text \<open>C23. A process that polls several objects compares one number, the sum of the counters of their
  hash buckets, taken by a loop over the bits of the mask. The loop ends and computes exactly that sum,
  an event never lowers it, and an event on any object of the mask raises it, so the check
  \<open>io_seq_mask(mask) != seen\<close> of \<open>io_wait_mask\<close> cannot miss an event of an object polled.\<close>

theorem io_seq_mask_sees_events:
  assumes "waits_wf st" and "msk \<noteq> 0"
  shows "io_seq_mask msk st = (\<Sum>b | bit msk b. iseq st ! b) \<and>
    io_seq_mask msk st \<le> io_seq_mask msk (push_wake key st) \<and>
    (bit msk (key_bucket key) \<longrightarrow> io_seq_mask msk st < io_seq_mask msk (push_wake key st))"
proof -
  have len: "length (iseq st) = 64" using assms(1) by (simp add: waits_wf_def)
  have le: "iseq st ! b \<le> iseq (push_wake key st) ! b" for b
    using bump_seq(1) [OF len] by simp
  have "(\<Sum>b | bit msk b. iseq st ! b) < (\<Sum>b | bit msk b. iseq (push_wake key st) ! b)"
    if "bit msk (key_bucket key)"
    using that bump_seq(2) [OF len, of key] le by (intro sum_strict_mono_ex1) auto
  moreover have "(\<Sum>b | bit msk b. iseq st ! b) \<le> (\<Sum>b | bit msk b. iseq (push_wake key st) ! b)"
    using le by (intro sum_mono)
  ultimately show ?thesis by (simp add: io_seq_mask_eq [OF assms(2)])
qed

theorem io_seq_mask_sees_events_witness:
  "\<exists>st :: waits. waits_wf st \<and> io_seq_mask (key_bit 7) st < io_seq_mask (key_bit 7) (push_wake 7 st)"
proof -
  let ?st = "\<lparr>kfa = undefined, kmem = (\<lambda>_. 0), iseq = replicate 64 0, pend = [], pany = False, block_on = (\<lambda>_. (0, 0, 0))\<rparr>"
  have wf: "waits_wf ?st" by (simp add: waits_wf_def)
  have "key_bit 7 \<noteq> (0 :: u64)" using bit_key_bit [of 7 "key_bucket 7"] by auto
  from io_seq_mask_sees_events [OF wf this, of 7] wf show ?thesis by (auto simp: bit_key_bit)
qed

end
