(* ===== verification/Context.thy ===== *)
theory Context
  imports Prelude
begin

text \<open>
  The saved user context and the floating-point state of the riscv64 back end
  (\<open>kernel/src/arch/riscv64/context.rs\<close>), and the per-thread signal state and signal actions
  (\<open>kernel/src/signal.rs\<close>) that the scheduler consults when it posts a signal.

  A register file is the list of its 32 words; \<open>fp_save\<close> and \<open>fp_restore\<close> copy a whole
  \<open>fp_state\<close> from and to the hart, so the live registers of a hart are one \<open>fp_state\<close>. The
  address of the idle loop and the tops of the kernel stacks are parameters (linker symbols).
\<close>

section \<open>Contexts\<close>

record user_context =
  regs :: "u64 list"
  sepc :: u64
  sstatus :: u64

definition SSTATUS_SPP :: u64 where "SSTATUS_SPP = bit1 8"
definition SSTATUS_SPIE :: u64 where "SSTATUS_SPIE = bit1 5"
definition SSTATUS_SUM :: u64 where "SSTATUS_SUM = bit1 18"
definition SSTATUS_FS :: u64 where "SSTATUS_FS = push_bit 13 3"
definition FS_INITIAL :: u64 where "FS_INITIAL = bit1 13"
definition FS_CLEAN :: u64 where "FS_CLEAN = push_bit 13 2"

definition ctx_zeroed :: user_context where
  "ctx_zeroed = \<lparr>regs = replicate 32 0, sepc = 0, sstatus = 0\<rparr>"

definition set_sp :: "u64 \<Rightarrow> user_context \<Rightarrow> user_context" where
  "set_sp v c = c\<lparr>regs := (regs c)[2 := v]\<rparr>"

definition set_tls :: "u64 \<Rightarrow> user_context \<Rightarrow> user_context" where
  "set_tls v c = c\<lparr>regs := (regs c)[4 := v]\<rparr>"

definition set_ret :: "u64 \<Rightarrow> user_context \<Rightarrow> user_context" where
  "set_ret v c = c\<lparr>regs := (regs c)[10 := v]\<rparr>"

definition arg :: "nat \<Rightarrow> user_context \<Rightarrow> u64" where
  "arg i c = regs c ! (10 + i)"

definition syscall_num :: "user_context \<Rightarrow> u64" where
  "syscall_num c = regs c ! 17"

definition rewind_syscall :: "user_context \<Rightarrow> user_context" where
  "rewind_syscall c = c\<lparr>sepc := sepc c - 4\<rparr>"

definition skip_syscall :: "user_context \<Rightarrow> user_context" where
  "skip_syscall c = c\<lparr>sepc := sepc c + 4\<rparr>"

definition new_user :: "u64 \<Rightarrow> u64 \<Rightarrow> user_context" where
  "new_user entry sp =
     (set_sp sp ctx_zeroed)\<lparr>sepc := entry, sstatus := SSTATUS_SPIE OR SSTATUS_SUM OR FS_INITIAL\<rparr>"

definition new_idle :: "u64 \<Rightarrow> u64 \<Rightarrow> user_context" where
  "new_idle idle_addr stack_top =
     (set_sp stack_top ctx_zeroed)\<lparr>sepc := idle_addr, sstatus := SSTATUS_SPP OR SSTATUS_SPIE OR SSTATUS_SUM\<rparr>"

text \<open>\<open>fp_take_dirty\<close>: whether the process changed the FP registers, and its context marked Clean.\<close>

definition fp_dirty :: "user_context \<Rightarrow> bool" where
  "fp_dirty c \<longleftrightarrow> sstatus c AND SSTATUS_FS = SSTATUS_FS"

definition fp_take_dirty :: "user_context \<Rightarrow> bool \<times> user_context" where
  "fp_take_dirty c =
     (if fp_dirty c then (True, c\<lparr>sstatus := (sstatus c AND NOT SSTATUS_FS) OR FS_CLEAN\<rparr>)
      else (False, c))"

definition mark_fp_dirty :: "user_context \<Rightarrow> user_context" where
  "mark_fp_dirty c = c\<lparr>sstatus := sstatus c OR SSTATUS_FS\<rparr>"

record fp_state =
  fregs :: "u64 list"
  fcsr :: u64

definition fp_zeroed :: fp_state where
  "fp_zeroed = \<lparr>fregs = replicate 32 0, fcsr = 0\<rparr>"

text \<open>The privilege level the context returns to (\<open>sret\<close>): user mode unless SPP is set.\<close>

definition returns_to_user :: "user_context \<Rightarrow> bool" where
  "returns_to_user c \<longleftrightarrow> sstatus c AND SSTATUS_SPP = 0"

section \<open>Signal state and actions\<close>

definition SIGILL :: nat where "SIGILL = 4"
definition SIGTRAP :: nat where "SIGTRAP = 5"
definition SIGBUS :: nat where "SIGBUS = 7"
definition SIGFPE :: nat where "SIGFPE = 8"
definition SIGKILL :: nat where "SIGKILL = 9"
definition SIGSEGV :: nat where "SIGSEGV = 11"
definition SIGPIPE :: nat where "SIGPIPE = 13"
definition SIGALRM :: nat where "SIGALRM = 14"
definition SIGCHLD :: nat where "SIGCHLD = 17"
definition SIGSTOP :: nat where "SIGSTOP = 19"

definition UNBLOCKABLE :: u64 where
  "UNBLOCKABLE = bit1 (SIGKILL - 1) OR bit1 (SIGSTOP - 1)"

definition SA_ONSTACK :: u64 where "SA_ONSTACK = 0x08000000"
definition SA_RESTART :: u64 where "SA_RESTART = 0x10000000"
definition SA_NODEFER :: u64 where "SA_NODEFER = 0x40000000"
definition SA_RESETHAND :: u64 where "SA_RESETHAND = 0x80000000"
definition SIG_DFL :: u64 where "SIG_DFL = 0"
definition SIG_IGN :: u64 where "SIG_IGN = 1"

record sig_thread =
  sg_pending :: u64
  sg_mask :: u64
  sg_saved :: u64
  sg_suspended :: bool
  sg_alt_sp :: nat
  sg_alt_size :: nat
  sg_fault_addr :: nat
  sg_fault_code :: int
  sg_from :: u32

definition sig_new :: sig_thread where
  "sig_new = \<lparr>sg_pending = 0, sg_mask = 0, sg_saved = 0, sg_suspended = False, sg_alt_sp = 0,
     sg_alt_size = 0, sg_fault_addr = 0, sg_fault_code = 0, sg_from = 0\<rparr>"

record action =
  a_handler :: u64
  a_flags :: u64
  a_restorer :: u64
  a_mask :: u64

definition DFL :: action where
  "DFL = \<lparr>a_handler = SIG_DFL, a_flags = 0, a_restorer = 0, a_mask = 0\<rparr>"

text \<open>\<open>ACTIONS\<close>: for each slot the 64 actions of its process, signal \<open>n\<close> at index \<open>n - 1\<close>.\<close>

type_synonym sig_table = "nat \<Rightarrow> action list"

definition reset_actions :: "nat \<Rightarrow> sig_table \<Rightarrow> sig_table" where
  "reset_actions s t = t(s := replicate 64 DFL)"

definition copy_actions :: "nat \<Rightarrow> nat \<Rightarrow> sig_table \<Rightarrow> sig_table" where
  "copy_actions src dst t = t(dst := t src)"

definition exec_actions :: "nat \<Rightarrow> sig_table \<Rightarrow> sig_table" where
  "exec_actions s t = t(s := map (\<lambda>a. if a_handler a \<noteq> SIG_IGN then DFL else a) (t s))"

definition restarts :: "sig_table \<Rightarrow> nat \<Rightarrow> nat \<Rightarrow> bool" where
  "restarts t l sig \<longleftrightarrow> a_flags (t l ! (sig - 1)) AND SA_RESTART \<noteq> 0"

definition default_ignored :: "nat \<Rightarrow> bool" where
  "default_ignored sig \<longleftrightarrow> sig \<in> set [17, 18, 19, 20, 21, 22, 23, 28]"

definition would_act :: "sig_table \<Rightarrow> nat \<Rightarrow> nat \<Rightarrow> bool" where
  "would_act t l sig \<longleftrightarrow> sig = SIGKILL \<or>
     (let a = t l ! (sig - 1) in
      \<not> (a_handler a = SIG_IGN \<or> (a_handler a = SIG_DFL \<and> default_ignored sig)))"

section \<open>Facts\<close>

lemma fs_bits: "bit SSTATUS_FS 13" "\<not> bit FS_CLEAN 13" "bit SSTATUS_FS 14"
    "\<not> bit (SSTATUS_SPIE OR SSTATUS_SUM OR FS_INITIAL) 14"
  by code_simp+

lemma fp_take_dirty_clean: "\<not> fp_dirty (snd (fp_take_dirty c))"
proof -
  have "\<not> bit ((sstatus c AND NOT SSTATUS_FS) OR FS_CLEAN) 13"
    using fs_bits by (simp add: bit_or_iff bit_and_iff bit_not_iff)
  then show ?thesis
    using fs_bits(1) by (auto simp: fp_take_dirty_def fp_dirty_def) (metis bit_and_iff)
qed

lemma fp_take_dirty_fst: "fst (fp_take_dirty c) = fp_dirty c"
  by (simp add: fp_take_dirty_def)

lemma fp_dirty_simps [simp]:
  "fp_dirty (set_ret v c) = fp_dirty c" "fp_dirty (set_sp v c) = fp_dirty c"
  "fp_dirty (set_tls v c) = fp_dirty c" "fp_dirty (rewind_syscall c) = fp_dirty c"
  "fp_dirty (skip_syscall c) = fp_dirty c"
  by (simp_all add: fp_dirty_def set_ret_def set_sp_def set_tls_def rewind_syscall_def skip_syscall_def)

lemma new_user_fp: "\<not> fp_dirty (new_user e s)"
  using fs_bits(3,4) by (auto simp: fp_dirty_def new_user_def) (metis bit_and_iff)

lemma rewind_skip [simp]:
  "skip_syscall (rewind_syscall c) = c" "rewind_syscall (skip_syscall c) = c"
  by (simp_all add: rewind_syscall_def skip_syscall_def)

end
