(* ===== verification/Sched.thy ===== *)
theory Sched
  imports Locks Wakes Context
begin

text \<open>
  The process table and the scheduler of \<open>kernel/src/process.rs\<close>: the slot records, the
  round-robin \<open>dispatch\<close> with its floating-point switch, timed wake-ups, the posting of
  signals to sleeping threads, and the I/O waits. Termination, process creation and IPC are in
  \<open>Procs\<close> and \<open>Ipc\<close>.

  Every operation runs with \<open>SCHED\<close> held, so one operation is one atomic step on the record
  \<open>sched\<close>. \<open>PROCS\<close> is a map from slots below \<open>MAX_PROCS\<close>; the trap frame and the FP
  registers of each CPU are fields (\<open>frame\<close>, \<open>fpu\<close>), and the operations that return a new
  context change \<open>frame\<close> of the CPU they run on. The sentinel \<open>usize::MAX\<close> (\<open>IDLE\<close>, no
  parent, empty exit record) is \<open>None\<close>. Times, pids and addresses are \<open>nat\<close>; the clock is
  read from \<open>clock\<close> and does not move within one operation. Statistics only shown to users
  (\<open>LOAD_PCT\<close>) are kept; the console log lines are not modelled.

  The parts of the kernel behind other modules are reached through a record of services over
  the kernel state \<open>'a waits_scheme\<close>: address translation and \<open>free_user_space\<close>
  (\<open>arch::mmu\<close>), \<open>vm::release\<close> and \<open>clone_space\<close>, \<open>file::release\<close>, \<open>clone_table\<close> with
  the working directory, \<open>exec_cleanup\<close>, \<open>input::forget\<close>, and the mapping of a fresh zeroed
  page (\<open>alloc_frame\<close> with \<open>map_page_in\<close>, for \<open>sbrk\<close>).
\<close>

section \<open>State\<close>

datatype pstate = Unused | Ready | Running | SendBlocked | RecvBlocked | ReplyBlocked | Sleeping
  | FutexWait | WaitChild | VforkWait | IoWait | SigWait | Zombie

record message =
  m_tag :: u64
  m_data :: "u64 list"

definition msg_zero :: message where "msg_zero = \<lparr>m_tag = 0, m_data = replicate 6 0\<rparr>"

definition MAX_PROCS :: nat where "MAX_PROCS = 256"
definition NAME_LEN :: nat where "NAME_LEN = 24"
definition EXITS_MAX :: nat where "EXITS_MAX = 64"
definition HEAP_BASE :: nat where "HEAP_BASE = 0x1000000000"
definition HEAP_LIMIT :: nat where "HEAP_LIMIT = HEAP_BASE + 0x100000000"
definition QUANTUM_MS :: nat where "QUANTUM_MS = 10"
definition ABI_PULSAR :: nat where "ABI_PULSAR = 0"
definition ABI_LINUX :: nat where "ABI_LINUX = 1"

record process =
  p_pid :: nat
  p_state :: pstate
  p_ctx :: user_context
  p_fp :: fp_state
  p_root :: nat
  p_asid :: nat
  p_inbox :: message
  p_reply :: message
  p_peer :: nat
  p_send_to :: nat
  p_msg_ptr :: nat
  p_wake_at :: nat
  p_cpu :: nat
  p_cpu_time :: nat
  p_killed :: bool
  p_brk :: nat
  p_leader :: nat
  p_mm :: nat
  p_members :: nat
  p_vfork :: "nat option"
  p_io_key :: u64
  p_io_mask :: u64
  p_futex :: nat
  p_abi :: nat
  p_parent :: "nat option"
  p_status :: u32
  p_wait_pid :: int
  p_wait_ptr :: nat
  p_clear_tid :: nat
  p_alarm_at :: nat
  p_io_deadline :: nat
  p_in_poll :: bool
  p_alarm_every :: nat
  p_sig :: sig_thread
  p_name :: "u8 list"

definition empty_process :: process where
  "empty_process = \<lparr>p_pid = 0, p_state = Unused, p_ctx = ctx_zeroed, p_fp = fp_zeroed, p_root = 0,
     p_asid = 0, p_inbox = msg_zero, p_reply = msg_zero, p_peer = 0, p_send_to = 0, p_msg_ptr = 0,
     p_wake_at = 0, p_cpu = 0, p_cpu_time = 0, p_killed = False, p_brk = HEAP_BASE, p_leader = 0,
     p_mm = 0, p_members = 0, p_vfork = None, p_io_key = 0, p_io_mask = 0, p_futex = 0,
     p_abi = ABI_PULSAR, p_parent = None, p_status = 0, p_wait_pid = 0, p_wait_ptr = 0,
     p_clear_tid = 0, p_alarm_at = 0, p_io_deadline = 0, p_in_poll = False, p_alarm_every = 0,
     p_sig = sig_new, p_name = replicate NAME_LEN 0\<rparr>"

text \<open>Services of the other modules. \<open>sv_freq\<close> is \<open>arch::timer_freq()\<close>; \<open>sv_cpu_store root va bs\<close> is a store the
  kernel makes through a user pointer, translated by the processor under the loaded root.\<close>

record 'a services =
  sv_freq :: nat
  sv_idle :: u64
  sv_kstack :: "nat \<Rightarrow> u64"
  sv_kroot :: nat
  sv_translate :: "'a waits_scheme \<Rightarrow> nat \<Rightarrow> nat \<Rightarrow> nat option"
  sv_cpu_store :: "nat \<Rightarrow> nat \<Rightarrow> u8 list \<Rightarrow> 'a waits_scheme \<Rightarrow> 'a waits_scheme"
  sv_free_space :: "nat \<Rightarrow> 'a waits_scheme \<Rightarrow> 'a waits_scheme"
  sv_vm_release :: "nat \<Rightarrow> 'a waits_scheme \<Rightarrow> 'a waits_scheme"
  sv_vm_clone :: "nat \<Rightarrow> nat \<Rightarrow> 'a waits_scheme \<Rightarrow> 'a waits_scheme"
  sv_release_files :: "nat \<Rightarrow> 'a waits_scheme \<Rightarrow> 'a waits_scheme"
  sv_clone_files :: "nat \<Rightarrow> nat \<Rightarrow> 'a waits_scheme \<Rightarrow> 'a waits_scheme"
  sv_exec_files :: "nat \<Rightarrow> 'a waits_scheme \<Rightarrow> 'a waits_scheme"
  sv_forget_input :: "nat \<Rightarrow> 'a waits_scheme \<Rightarrow> 'a waits_scheme"
  sv_map_new :: "nat \<Rightarrow> nat \<Rightarrow> 'a waits_scheme \<Rightarrow> bool \<times> 'a waits_scheme"

text \<open>\<open>satp\<close> is what \<open>switch_space\<close> loaded on each CPU, \<open>timer\<close> the deadline of its timer, and
  \<open>ipis\<close> the interrupts sent so far.\<close>

record 'a sched =
  procs :: "nat \<Rightarrow> process"
  gens :: "nat \<Rightarrow> nat"
  current :: "nat \<Rightarrow> nat option"
  cur_abi :: "nat \<Rightarrow> nat"
  exits :: "(nat option \<times> nat option \<times> u32) list"
  exits_next :: nat
  rr_next :: nat
  last_switch :: "nat \<Rightarrow> nat"
  busy :: "nat \<Rightarrow> nat"
  idle_t :: "nat \<Rightarrow> nat"
  window_start :: "nat \<Rightarrow> nat"
  load_pct :: "nat \<Rightarrow> nat"
  online :: "nat \<Rightarrow> bool"
  last_crash :: "nat option"
  actions :: sig_table
  frame :: "nat \<Rightarrow> user_context"
  fpu :: "nat \<Rightarrow> fp_state"
  satp :: "nat \<Rightarrow> nat \<times> nat"
  timer :: "nat \<Rightarrow> nat"
  ipis :: "nat list"
  clock :: nat
  exe :: "nat \<Rightarrow> u8 list"
  cmdline :: "nat \<Rightarrow> u8 list"
  kst :: "'a waits_scheme"

definition sched_boot :: "'a waits_scheme \<Rightarrow> 'a sched" where
  "sched_boot k = \<lparr>procs = (\<lambda>_. empty_process), gens = (\<lambda>_. 0), current = (\<lambda>_. None),
     cur_abi = (\<lambda>_. ABI_PULSAR), exits = replicate EXITS_MAX (None, Some 0, 0), exits_next = 0,
     rr_next = 0, last_switch = (\<lambda>_. 0), busy = (\<lambda>_. 0), idle_t = (\<lambda>_. 0),
     window_start = (\<lambda>_. 0), load_pct = (\<lambda>_. 0), online = (\<lambda>_. False), last_crash = None,
     actions = (\<lambda>_. replicate 64 DFL), frame = (\<lambda>_. ctx_zeroed), fpu = (\<lambda>_. fp_zeroed),
     satp = (\<lambda>_. (0, 0)), timer = (\<lambda>_. 0), ipis = [], clock = 0, exe = (\<lambda>_. []),
     cmdline = (\<lambda>_. []), kst = k\<rparr>"

definition upd :: "nat \<Rightarrow> (process \<Rightarrow> process) \<Rightarrow> 'a sched \<Rightarrow> 'a sched" where
  "upd i f st = st\<lparr>procs := (procs st)(i := f (procs st i))\<rparr>"

definition pst :: "'a sched \<Rightarrow> nat \<Rightarrow> pstate" where
  "pst st i = p_state (procs st i)"

definition on_k :: "('a waits_scheme \<Rightarrow> 'a waits_scheme) \<Rightarrow> 'a sched \<Rightarrow> 'a sched" where
  "on_k f st = st\<lparr>kst := f (kst st)\<rparr>"

definition on_frame :: "nat \<Rightarrow> (user_context \<Rightarrow> user_context) \<Rightarrow> 'a sched \<Rightarrow> 'a sched" where
  "on_frame c f st = st\<lparr>frame := (frame st)(c := f (frame st c))\<rparr>"

definition send_ipi :: "nat \<Rightarrow> 'a sched \<Rightarrow> 'a sched" where
  "send_ipi c st = st\<lparr>ipis := ipis st @ [c]\<rparr>"

definition slots :: "nat list" where "slots = [0..<MAX_PROCS]"

definition alive :: "'a sched \<Rightarrow> nat \<Rightarrow> bool" where
  "alive st i \<longleftrightarrow> pst st i \<noteq> Unused \<and> pst st i \<noteq> Zombie"

definition minus1 :: u64 where "minus1 = - 1"

section \<open>Lookup and queries\<close>

definition slot_of_pid :: "nat \<Rightarrow> 'a sched \<Rightarrow> nat option" where
  "slot_of_pid pid st =
     (let s = pid mod MAX_PROCS in if alive st s \<and> p_pid (procs st s) = pid then Some s else None)"

definition is_alive :: "nat \<Rightarrow> 'a sched \<Rightarrow> bool" where
  "is_alive pid st \<longleftrightarrow> slot_of_pid pid st \<noteq> None"

definition current_ids :: "nat \<Rightarrow> 'a sched \<Rightarrow> nat \<times> nat \<times> nat" where
  "current_ids c st =
     (case current st c of None \<Rightarrow> (0, 0, 0)
      | Some s \<Rightarrow> let l = p_leader (procs st s) in
          (p_pid (procs st s), p_pid (procs st l),
           case p_parent (procs st l) of None \<Rightarrow> 0 | Some pp \<Rightarrow> pp))"

definition set_clear_tid :: "nat \<Rightarrow> nat \<Rightarrow> 'a sched \<Rightarrow> nat \<times> 'a sched" where
  "set_clear_tid c addr st =
     (case current st c of None \<Rightarrow> (0, st)
      | Some s \<Rightarrow> (p_pid (procs st s), upd s (\<lambda>p. p\<lparr>p_clear_tid := addr\<rparr>) st))"

definition is_own_thread :: "nat \<Rightarrow> nat \<Rightarrow> 'a sched \<Rightarrow> bool" where
  "is_own_thread c tid st =
     (case (slot_of_pid tid st, current st c) of
        (Some t, Some s) \<Rightarrow> p_leader (procs st t) = p_leader (procs st s)
      | _ \<Rightarrow> False)"

text \<open>The name field: \<open>name.len().min(NAME_LEN - 1)\<close> bytes, zero filled.\<close>

definition pad_name :: "u8 list \<Rightarrow> u8 list" where
  "pad_name bs = (let n = min (length bs) (NAME_LEN - 1) in take n bs @ replicate (NAME_LEN - n) 0)"

definition set_current_name :: "nat \<Rightarrow> u8 list \<Rightarrow> 'a sched \<Rightarrow> 'a sched" where
  "set_current_name c bs st =
     (case current st c of None \<Rightarrow> st | Some s \<Rightarrow> upd s (\<lambda>p. p\<lparr>p_name := pad_name bs\<rparr>) st)"

definition note_crash :: "nat \<Rightarrow> 'a sched \<Rightarrow> 'a sched" where
  "note_crash pid st = st\<lparr>last_crash := Some pid\<rparr>"

definition take_crash :: "'a sched \<Rightarrow> nat option \<times> 'a sched" where
  "take_crash st = (last_crash st, st\<lparr>last_crash := None\<rparr>)"

definition info_state :: "pstate \<Rightarrow> nat" where
  "info_state s =
     (case s of Running \<Rightarrow> 1 | Ready \<Rightarrow> 2
      | Sleeping \<Rightarrow> 3 | FutexWait \<Rightarrow> 3 | WaitChild \<Rightarrow> 3 | VforkWait \<Rightarrow> 3 | IoWait \<Rightarrow> 3 | SigWait \<Rightarrow> 3
      | _ \<Rightarrow> 4)"

definition ticks_to_ms :: "'a services \<Rightarrow> nat \<Rightarrow> nat" where
  "ticks_to_ms sv t = t * 1000 div sv_freq sv"

definition ms_to_ticks :: "'a services \<Rightarrow> nat \<Rightarrow> nat" where
  "ms_to_ticks sv ms = ms * sv_freq sv div 1000"

definition info :: "'a services \<Rightarrow> nat \<Rightarrow> 'a sched \<Rightarrow> (nat \<times> nat \<times> nat \<times> nat \<times> u8 list) option" where
  "info sv s st =
     (if s \<ge> MAX_PROCS then None
      else let p = procs st s in
        if \<not> alive st s then None
        else Some (p_pid p, info_state (p_state p), p_cpu p, ticks_to_ms sv (p_cpu_time p), p_name p))"

definition thread_stats :: "nat \<Rightarrow> 'a sched \<Rightarrow> nat \<times> nat" where
  "thread_stats c st =
     (case current st c of None \<Rightarrow> (0, 0)
      | Some s \<Rightarrow>
          let ts = filter (\<lambda>i. p_leader (procs st i) = p_leader (procs st s) \<and> alive st i) slots in
          (length ts, sum_list (map (\<lambda>i. p_cpu_time (procs st i)) ts)))"

section \<open>Waking CPUs and time keeping\<close>

definition idle_cpus :: "nat \<Rightarrow> 'a sched \<Rightarrow> nat list" where
  "idle_cpus me st = filter (\<lambda>c. c \<noteq> me \<and> online st c \<and> current st c = None) [0..<MAX_CPUS]"

definition kick_idle_cpus :: "nat \<Rightarrow> nat \<Rightarrow> 'a sched \<Rightarrow> 'a sched" where
  "kick_idle_cpus me n st = fold send_ipi (take n (idle_cpus me st)) st"

definition kick_idle_cpu :: "nat \<Rightarrow> 'a sched \<Rightarrow> 'a sched" where
  "kick_idle_cpu me = kick_idle_cpus me 1"

definition account :: "'a services \<Rightarrow> nat \<Rightarrow> nat \<Rightarrow> 'a sched \<Rightarrow> 'a sched" where
  "account sv c now st =
     (let dt = now - last_switch st c;
          st = st\<lparr>last_switch := (last_switch st)(c := now)\<rparr>;
          st = (case current st c of
                  None \<Rightarrow> st\<lparr>idle_t := (idle_t st)(c := idle_t st c + dt)\<rparr>
                | Some s \<Rightarrow> upd s (\<lambda>p. p\<lparr>p_cpu_time := p_cpu_time p + dt\<rparr>)
                    (st\<lparr>busy := (busy st)(c := busy st c + dt)\<rparr>))
      in if now - window_start st c \<ge> sv_freq sv then
           let total = max (busy st c + idle_t st c) 1 in
           st\<lparr>load_pct := (load_pct st)(c := busy st c * 100 div total),
              busy := (busy st)(c := 0), idle_t := (idle_t st)(c := 0),
              window_start := (window_start st)(c := now)\<rparr>
         else st)"

section \<open>Posting a signal\<close>

definition blocked :: "process \<Rightarrow> nat \<Rightarrow> bool" where
  "blocked p sig \<longleftrightarrow> sg_mask (p_sig p) AND bit1 (sig - 1) \<noteq> 0"

text \<open>The thread that gets the signal: the one named, or the leader, or the first thread of the process that
  does not block it.\<close>

definition signal_dest :: "nat \<Rightarrow> nat \<Rightarrow> bool \<Rightarrow> 'a sched \<Rightarrow> nat" where
  "signal_dest t sig thread st =
     (let l = p_leader (procs st t) in
      if thread then t
      else if blocked (procs st l) sig then
        (case List.find (\<lambda>i. p_leader (procs st i) = l \<and> alive st i \<and> \<not> blocked (procs st i) sig) slots of
           Some i \<Rightarrow> i | None \<Rightarrow> l)
      else l)"

definition eintr :: u64 where "eintr = - 4"

text \<open>What the pending signal does to its thread: the result says whether an idle CPU is to be woken.\<close>

definition interrupt_wait :: "bool \<Rightarrow> process \<Rightarrow> process \<times> bool" where
  "interrupt_wait restart p =
     (let linux = (p_abi p = ABI_LINUX) in
      if p_state p = WaitChild \<and> linux \<and> restart then
        (p\<lparr>p_ctx := rewind_syscall (p_ctx p), p_state := Ready\<rparr>, True)
      else if p_state p \<in> {Sleeping, FutexWait, WaitChild, SigWait} then
        (p\<lparr>p_ctx := (if linux then set_ret eintr (p_ctx p) else p_ctx p), p_wake_at := 0,
           p_state := Ready\<rparr>, True)
      else if p_state p = IoWait \<and> (p_io_key p = POLL_KEY \<or> \<not> restart) then
        (p\<lparr>p_ctx := set_ret eintr (skip_syscall (p_ctx p)), p_wake_at := 0, p_io_key := 0,
           p_io_deadline := 0, p_in_poll := False, p_state := Ready\<rparr>, True)
      else if p_state p = IoWait then (p\<lparr>p_wake_at := 0, p_state := Ready\<rparr>, True)
      else (p, False))"

definition post_signal_locked ::
  "nat \<Rightarrow> nat \<Rightarrow> nat \<Rightarrow> bool \<Rightarrow> nat \<Rightarrow> 'a sched \<Rightarrow> bool \<times> 'a sched" where
  "post_signal_locked me target sig thread info_pid st =
     (case slot_of_pid target st of
        None \<Rightarrow> (False, st)
      | Some t \<Rightarrow>
          let l = p_leader (procs st t) in
          if \<not> would_act (actions st) l sig then (True, st)
          else
            let d = signal_dest t sig thread st;
                st = upd d (\<lambda>p. p\<lparr>p_sig := (p_sig p)\<lparr>sg_pending := sg_pending (p_sig p) OR bit1 (sig - 1),
                                                 sg_from := of_nat info_pid\<rparr>\<rparr>) st;
                p = procs st d
            in if blocked p sig \<and> p_state p \<noteq> SigWait then (True, st)
               else
                 let (p', wake) = interrupt_wait (restarts (actions st) l sig) p;
                     st = upd d (\<lambda>_. p') st
                 in (True, if wake then kick_idle_cpu me st
                           else if p_state p = Running \<and> p_cpu p \<noteq> me then send_ipi (p_cpu p) st
                           else st))"

section \<open>Timed wake-ups\<close>

definition ring_alarm :: "nat \<Rightarrow> nat \<Rightarrow> nat \<Rightarrow> 'a sched \<Rightarrow> 'a sched" where
  "ring_alarm me now i st =
     (let p = procs st i in
      if p_alarm_at p \<noteq> 0 \<and> p_alarm_at p \<le> now \<and> alive st i then
        snd (post_signal_locked me (p_pid p) SIGALRM False 0
          (upd i (\<lambda>p. p\<lparr>p_alarm_at := (if p_alarm_every p \<noteq> 0 then now + p_alarm_every p else 0)\<rparr>) st))
      else st)"

definition expired :: "nat \<Rightarrow> process \<Rightarrow> bool" where
  "expired now p \<longleftrightarrow> p_wake_at p \<noteq> 0 \<and> p_wake_at p \<le> now"

definition timeout_wake :: "nat \<Rightarrow> process \<Rightarrow> process" where
  "timeout_wake now p =
     (if p_state p = Sleeping \<and> p_wake_at p \<le> now then
        p\<lparr>p_state := Ready, p_ctx := set_ret 0 (p_ctx p)\<rparr>
      else if p_state p = FutexWait \<and> expired now p then
        p\<lparr>p_state := Ready, p_wake_at := 0,
          p_ctx := set_ret (if p_abi p = ABI_LINUX then - 110 else - 2) (p_ctx p)\<rparr>
      else if p_state p = IoWait \<and> expired now p then p\<lparr>p_state := Ready, p_wake_at := 0\<rparr>
      else if p_state p = RecvBlocked \<and> expired now p then
        p\<lparr>p_state := Ready, p_wake_at := 0, p_ctx := set_ret minus1 (p_ctx p)\<rparr>
      else p)"

definition wake_sleepers :: "nat \<Rightarrow> nat \<Rightarrow> 'a sched \<Rightarrow> 'a sched" where
  "wake_sleepers me now st =
     fold (\<lambda>i. upd i (timeout_wake now)) slots (fold (ring_alarm me now) slots st)"

text \<open>The deadline loop of \<open>program_timer\<close>.\<close>

definition timed :: "process \<Rightarrow> bool" where
  "timed p \<longleftrightarrow> p_state p = Sleeping \<or>
     (p_state p \<in> {RecvBlocked, FutexWait, IoWait} \<and> p_wake_at p \<noteq> 0)"

definition earlier :: "nat \<Rightarrow> process \<Rightarrow> nat \<Rightarrow> nat" where
  "earlier now p deadline =
     (let d = (if timed p \<and> p_wake_at p < deadline then max (p_wake_at p) (now + 1) else deadline) in
      if p_alarm_at p \<noteq> 0 \<and> p_alarm_at p < d \<and> p_state p \<noteq> Unused
      then max (p_alarm_at p) (now + 1) else d)"

definition next_deadline :: "'a services \<Rightarrow> nat \<Rightarrow> 'a sched \<Rightarrow> nat" where
  "next_deadline sv now st =
     fold (\<lambda>i. earlier now (procs st i)) slots (now + ms_to_ticks sv QUANTUM_MS)"

definition program_timer :: "'a services \<Rightarrow> nat \<Rightarrow> nat \<Rightarrow> 'a sched \<Rightarrow> 'a sched" where
  "program_timer sv me now st = st\<lparr>timer := (timer st)(me := next_deadline sv now st)\<rparr>"

section \<open>Dispatch\<close>

definition pick :: "'a sched \<Rightarrow> nat option" where
  "pick st = List.find (\<lambda>i. pst st i = Ready) (map (\<lambda>off. (rr_next st + off) mod MAX_PROCS) slots)"

text \<open>The FP registers change hands only when the CPU changes process.\<close>

definition switch_fp :: "nat \<Rightarrow> nat option \<Rightarrow> nat option \<Rightarrow> 'a sched \<Rightarrow> 'a sched" where
  "switch_fp c prev chosen st =
     (if chosen = prev then st
      else
        let st = (case prev of
                    None \<Rightarrow> st
                  | Some q \<Rightarrow>
                      let (dirty, cx) = fp_take_dirty (p_ctx (procs st q));
                          st = upd q (\<lambda>p. p\<lparr>p_ctx := cx\<rparr>) st
                      in if dirty then upd q (\<lambda>p. p\<lparr>p_fp := fpu st c\<rparr>) st else st)
        in case chosen of None \<Rightarrow> st | Some i \<Rightarrow> st\<lparr>fpu := (fpu st)(c := p_fp (procs st i))\<rparr>)"

definition load :: "'a services \<Rightarrow> nat \<Rightarrow> nat option \<Rightarrow> 'a sched \<Rightarrow> 'a sched" where
  "load sv c chosen st =
     (case chosen of
        None \<Rightarrow> st\<lparr>current := (current st)(c := None), cur_abi := (cur_abi st)(c := ABI_PULSAR),
                 frame := (frame st)(c := new_idle (sv_idle sv) (sv_kstack sv c)),
                 satp := (satp st)(c := (sv_kroot sv, 0))\<rparr>
      | Some i \<Rightarrow>
          let st = upd i (\<lambda>p. p\<lparr>p_state := Running, p_cpu := c\<rparr>) st; p = procs st i in
          st\<lparr>current := (current st)(c := Some i), cur_abi := (cur_abi st)(c := p_abi p),
             frame := (frame st)(c := p_ctx p), satp := (satp st)(c := (p_root p, p_asid p))\<rparr>)"

definition dispatch :: "'a services \<Rightarrow> nat \<Rightarrow> 'a sched \<Rightarrow> 'a sched" where
  "dispatch sv c st =
     (let now = clock st;
          st = wake_sleepers c now (account sv c now st);
          prev = current st c;
          chosen = pick st;
          st = (case chosen of None \<Rightarrow> st | Some i \<Rightarrow> st\<lparr>rr_next := (i + 1) mod MAX_PROCS\<rparr>)
      in program_timer sv c now (load sv c chosen (switch_fp c prev chosen st)))"

definition save_current :: "nat \<Rightarrow> 'a sched \<Rightarrow> 'a sched" where
  "save_current c st =
     (case current st c of None \<Rightarrow> st | Some s \<Rightarrow> upd s (\<lambda>p. p\<lparr>p_ctx := frame st c\<rparr>) st)"

definition schedule :: "'a services \<Rightarrow> nat \<Rightarrow> 'a sched \<Rightarrow> 'a sched" where
  "schedule sv c st =
     (let st = save_current c st;
          st = (case current st c of
                  None \<Rightarrow> st
                | Some s \<Rightarrow> if pst st s = Running then upd s (\<lambda>p. p\<lparr>p_state := Ready\<rparr>) st else st)
      in dispatch sv c st)"

text \<open>\<open>block\<close>, called by the process of this CPU after it changed its state.\<close>

definition block_current :: "'a services \<Rightarrow> nat \<Rightarrow> 'a sched \<Rightarrow> 'a sched" where
  "block_current sv c st = dispatch sv c (save_current c st)"

definition preempt :: "'a services \<Rightarrow> nat \<Rightarrow> 'a sched \<Rightarrow> 'a sched" where
  "preempt sv c st = schedule sv c st"

definition on_ipi :: "'a services \<Rightarrow> nat \<Rightarrow> 'a sched \<Rightarrow> 'a sched" where
  "on_ipi sv c st = (if current st c = None then dispatch sv c st else st)"

definition enter_scheduler :: "'a services \<Rightarrow> nat \<Rightarrow> 'a sched \<Rightarrow> 'a sched" where
  "enter_scheduler sv c st =
     dispatch sv c (st\<lparr>last_switch := (last_switch st)(c := clock st),
       window_start := (window_start st)(c := clock st), online := (online st)(c := True),
       current := (current st)(c := None),
       frame := (frame st)(c := new_idle (sv_idle sv) (sv_kstack sv c))\<rparr>)"

text \<open>A syscall that sleeps: the process of CPU \<open>c\<close> changes its own record, then blocks.\<close>

definition sleep_as :: "'a services \<Rightarrow> nat \<Rightarrow> (process \<Rightarrow> process) \<Rightarrow> 'a sched \<Rightarrow> 'a sched" where
  "sleep_as sv c f st =
     (case current st c of None \<Rightarrow> st | Some s \<Rightarrow> block_current sv c (upd s f st))"

definition sleep_ticks :: "'a services \<Rightarrow> nat \<Rightarrow> nat \<Rightarrow> 'a sched \<Rightarrow> 'a sched" where
  "sleep_ticks sv c ticks st =
     sleep_as sv c (\<lambda>p. p\<lparr>p_wake_at := clock st + ticks, p_state := Sleeping\<rparr>)
       (on_frame c (set_ret 0) st)"

definition sleep :: "'a services \<Rightarrow> nat \<Rightarrow> nat \<Rightarrow> 'a sched \<Rightarrow> 'a sched" where
  "sleep sv c ms st = sleep_ticks sv c (ms_to_ticks sv ms) st"

section \<open>I/O waits\<close>

definition deliverable :: "process \<Rightarrow> bool" where
  "deliverable p \<longleftrightarrow> sg_pending (p_sig p) AND NOT (sg_mask (p_sig p)) \<noteq> 0"

definition io_wait_until :: "'a services \<Rightarrow> nat \<Rightarrow> u64 \<Rightarrow> nat \<Rightarrow> nat \<Rightarrow> 'a sched \<Rightarrow> 'a sched" where
  "io_wait_until sv c key seen deadline st =
     (case current st c of
        None \<Rightarrow> st
      | Some s \<Rightarrow>
          let st = on_frame c rewind_syscall st;
              st = (if key = POLL_KEY then upd s (\<lambda>p. p\<lparr>p_in_poll := True\<rparr>) st else st)
          in if io_seq key (kst st) \<noteq> seen then st
             else if deliverable (procs st s) then st
             else sleep_as sv c (\<lambda>p. p\<lparr>p_state := IoWait, p_io_key := key,
                    p_io_mask := (if key = POLL_KEY then - 1 else key_bit key), p_wake_at := deadline\<rparr>) st)"

definition io_wait_mask :: "'a services \<Rightarrow> nat \<Rightarrow> u64 \<Rightarrow> nat \<Rightarrow> nat \<Rightarrow> 'a sched \<Rightarrow> 'a sched" where
  "io_wait_mask sv c msk seen deadline st =
     (case current st c of
        None \<Rightarrow> st
      | Some s \<Rightarrow>
          let st = upd s (\<lambda>p. p\<lparr>p_in_poll := True\<rparr>) (on_frame c rewind_syscall st)
          in if msk \<noteq> 0 \<and> io_seq_mask msk (kst st) \<noteq> seen then st
             else if deliverable (procs st s) then st
             else sleep_as sv c (\<lambda>p. p\<lparr>p_state := IoWait, p_io_key := POLL_KEY,
                    p_io_mask := msk, p_wake_at := deadline\<rparr>) st)"

definition awaits :: "u64 \<Rightarrow> process \<Rightarrow> bool" where
  "awaits key p \<longleftrightarrow> p_state p = IoWait \<and>
     (p_io_key p = key \<or> (p_io_key p = POLL_KEY \<and> p_io_mask p AND key_bit key \<noteq> 0))"

definition io_wake_locked :: "nat \<Rightarrow> u64 \<Rightarrow> 'a sched \<Rightarrow> 'a sched" where
  "io_wake_locked me key st =
     (let ws = filter (\<lambda>i. awaits key (procs st i)) slots;
          st' = fold (\<lambda>i. upd i (\<lambda>p. p\<lparr>p_state := Ready\<rparr>)) ws st
      in if length ws > 0 then kick_idle_cpus me (length ws) st' else st')"

text \<open>\<open>file::flush_wakes\<close> and \<open>flush_wakes_sched_held\<close>: the keys queued behind the FS lock are woken in turn.\<close>

definition flush_wakes :: "nat \<Rightarrow> 'a sched \<Rightarrow> 'a sched" where
  "flush_wakes me st =
     (let (ks, k) = take_wakes (kst st) in fold (io_wake_locked me) ks (st\<lparr>kst := k\<rparr>))"

definition io_deadline :: "nat \<Rightarrow> nat \<Rightarrow> 'a sched \<Rightarrow> nat \<times> 'a sched" where
  "io_deadline c fresh st =
     (case current st c of None \<Rightarrow> (fresh, st)
      | Some s \<Rightarrow>
          let st = (if p_io_deadline (procs st s) = 0 then upd s (\<lambda>p. p\<lparr>p_io_deadline := fresh\<rparr>) st else st)
          in (p_io_deadline (procs st s), st))"

definition io_deadline_clear :: "nat \<Rightarrow> 'a sched \<Rightarrow> 'a sched" where
  "io_deadline_clear c st =
     (case current st c of None \<Rightarrow> st
      | Some s \<Rightarrow> upd s (\<lambda>p. p\<lparr>p_io_deadline := 0, p_in_poll := False\<rparr>) st)"

definition sig_suspend :: "'a services \<Rightarrow> nat \<Rightarrow> u64 \<Rightarrow> 'a sched \<Rightarrow> 'a sched" where
  "sig_suspend sv c msk st =
     (case current st c of
        None \<Rightarrow> st
      | Some s \<Rightarrow>
          let st = upd s (\<lambda>p. p\<lparr>p_sig := (p_sig p)\<lparr>sg_saved := sg_mask (p_sig p), sg_suspended := True,
                                                  sg_mask := msk\<rparr>\<rparr>) st;
              st = on_frame c (set_ret eintr) st
          in if deliverable (procs st s) then st
             else sleep_as sv c (\<lambda>p. p\<lparr>p_state := SigWait\<rparr>) st)"

text \<open>\<open>set_alarm\<close>: nanoseconds to ticks, rounding up.\<close>

definition ns_to_ticks :: "'a services \<Rightarrow> nat \<Rightarrow> nat" where
  "ns_to_ticks sv ns = div_ceil (ns * sv_freq sv) 1000000000 mod 2 ^ 64"

definition ticks_to_ns :: "'a services \<Rightarrow> nat \<Rightarrow> nat" where
  "ticks_to_ns sv t = t * 1000000000 div sv_freq sv mod 2 ^ 64"

definition set_alarm :: "'a services \<Rightarrow> nat \<Rightarrow> nat \<Rightarrow> nat \<Rightarrow> 'a sched \<Rightarrow> (nat \<times> nat) \<times> 'a sched" where
  "set_alarm sv c value every st =
     (case current st c of
        None \<Rightarrow> ((0, 0), st)
      | Some s \<Rightarrow>
          let l = p_leader (procs st s); now = clock st; p = procs st l;
              old = (if p_alarm_at p > now then ticks_to_ns sv (p_alarm_at p - now) else 0,
                     ticks_to_ns sv (p_alarm_every p));
              st = upd l (\<lambda>p. p\<lparr>p_alarm_at := (if value > 0 then now + max (ns_to_ticks sv value) 1 else 0),
                                 p_alarm_every := ns_to_ticks sv every\<rparr>) st
          in (old, if value > 0 then program_timer sv c now st else st))"

section \<open>More queries\<close>

definition current_pid :: "nat \<Rightarrow> 'a sched \<Rightarrow> nat option" where
  "current_pid c st = map_option (\<lambda>s. p_pid (procs st s)) (current st c)"

definition current_space :: "nat \<Rightarrow> 'a sched \<Rightarrow> (nat \<times> nat \<times> nat) option" where
  "current_space c st =
     map_option (\<lambda>s. (p_mm (procs st s), p_root (procs st s), p_asid (procs st s))) (current st c)"

definition current_leader :: "nat \<Rightarrow> 'a sched \<Rightarrow> nat option" where
  "current_leader c st = map_option (\<lambda>s. p_leader (procs st s)) (current st c)"

definition current_root :: "'a services \<Rightarrow> nat \<Rightarrow> 'a sched \<Rightarrow> nat" where
  "current_root sv c st = (case current st c of None \<Rightarrow> sv_kroot sv | Some s \<Rightarrow> p_root (procs st s))"

text \<open>\<open>name_str\<close>: the bytes before the first zero; the UTF-8 check of the code is not modelled.\<close>

definition name_str :: "u8 list \<Rightarrow> u8 list" where
  "name_str n = take (case position (\<lambda>b. b = 0) n of Some k \<Rightarrow> k | None \<Rightarrow> NAME_LEN) n"

definition cpu_load :: "nat \<Rightarrow> 'a sched \<Rightarrow> nat option" where
  "cpu_load c st = (if c \<ge> MAX_CPUS \<or> \<not> online st c then None else Some (load_pct st c))"

definition online_cpus :: "'a sched \<Rightarrow> nat" where
  "online_cpus st = length (filter (online st) [0..<MAX_CPUS])"

definition signal_hint :: "nat \<Rightarrow> 'a sched \<Rightarrow> bool" where
  "signal_hint c st \<longleftrightarrow> (case current st c of None \<Rightarrow> False | Some s \<Rightarrow> sg_pending (p_sig (procs st s)) \<noteq> 0)"

definition leader_pid_of :: "nat \<Rightarrow> 'a sched \<Rightarrow> nat" where
  "leader_pid_of t st = p_pid (procs st (p_leader (procs st t)))"

definition abi_of_slot :: "nat \<Rightarrow> 'a sched \<Rightarrow> nat" where
  "abi_of_slot t st = p_abi (procs st t)"

end
