(* ===== verification/Procs.thy ===== *)
theory Procs
  imports Sched
begin

text \<open>
  The life of a process (\<open>kernel/src/process.rs\<close>): creation of processes and threads, fork,
  vfork and exec, futexes, termination (\<open>reap\<close>, \<open>exit\<close>, \<open>kill\<close>), and waiting for children.

  User memory is written through \<open>sv_translate\<close> (\<open>arch::mmu::translate_user\<close> for writing) into
  the kernel's physical memory, except by \<open>wait_child\<close>, which stores through the pointer itself
  (\<open>sv_cpu_store\<close>). The \<open>setup\<close> callbacks of \<open>create_ex\<close> and \<open>exec_replace\<close> are
  functions on the whole state, as in the code. In \<open>reap\<close> the recursion descends from a leader to
  its threads only, which is its termination argument.
\<close>

section \<open>User memory\<close>

definition le64 :: "u64 \<Rightarrow> u8 list" where
  "le64 w = map (\<lambda>i. ucast (drop_bit (8 * i) w)) [0..<8]"

definition le32 :: "u32 \<Rightarrow> u8 list" where
  "le32 w = map (\<lambda>i. ucast (drop_bit (8 * i) w)) [0..<4]"

definition write_user :: "'a services \<Rightarrow> nat \<Rightarrow> nat \<Rightarrow> u8 list \<Rightarrow> 'a sched \<Rightarrow> 'a sched" where
  "write_user sv root va bs st =
     (case sv_translate sv (kst st) root va of
        None \<Rightarrow> st
      | Some pa \<Rightarrow> on_k (\<lambda>k. k\<lparr>kmem := mem_write (kmem k) pa bs\<rparr>) st)"

section \<open>Futexes\<close>

definition futex_wake_locked :: "nat \<Rightarrow> nat \<Rightarrow> nat \<Rightarrow> nat \<Rightarrow> 'a sched \<Rightarrow> nat \<times> 'a sched" where
  "futex_wake_locked me root addr n st =
     (let ws = take n (filter (\<lambda>i. let p = procs st i in
                  p_state p = FutexWait \<and> p_root p = root \<and> p_futex p = addr) slots);
          st = fold (\<lambda>i. upd i (\<lambda>p. p\<lparr>p_state := Ready, p_wake_at := 0, p_ctx := set_ret 0 (p_ctx p)\<rparr>)) ws st
      in (length ws, if length ws > 0 then kick_idle_cpus me (length ws) st else st))"

definition futex_wake :: "nat \<Rightarrow> nat \<Rightarrow> nat \<Rightarrow> 'a sched \<Rightarrow> nat \<times> 'a sched" where
  "futex_wake c addr n st =
     (case current st c of None \<Rightarrow> (0, st)
      | Some s \<Rightarrow> futex_wake_locked c (p_root (procs st s)) addr n st)"

text \<open>\<open>cur\<close> is the \<open>u32\<close> read at \<open>addr\<close> while \<open>SCHED\<close> is held.\<close>

definition futex_wait_ticks :: "'a services \<Rightarrow> nat \<Rightarrow> nat \<Rightarrow> u32 \<Rightarrow> u32 \<Rightarrow> nat \<Rightarrow> 'a sched \<Rightarrow> 'a sched" where
  "futex_wait_ticks sv c addr cur val ticks st =
     (case current st c of
        None \<Rightarrow> st
      | Some s \<Rightarrow>
          if cur \<noteq> val then
            on_frame c (set_ret (if p_abi (procs st s) = ABI_LINUX then - 11 else minus1)) st
          else sleep_as sv c (\<lambda>p. p\<lparr>p_state := FutexWait, p_futex := addr,
                 p_wake_at := (if ticks > 0 then clock st + ticks else 0)\<rparr>)
                 (on_frame c (set_ret 0) st))"

definition futex_wait :: "'a services \<Rightarrow> nat \<Rightarrow> nat \<Rightarrow> u32 \<Rightarrow> u32 \<Rightarrow> nat \<Rightarrow> 'a sched \<Rightarrow> 'a sched" where
  "futex_wait sv c addr cur val timeout_ms st =
     futex_wait_ticks sv c addr cur val (if timeout_ms > 0 then ms_to_ticks sv timeout_ms else 0) st"

section \<open>Creation\<close>

definition free_slot :: "'a sched \<Rightarrow> nat option" where
  "free_slot st = List.find (\<lambda>i. pst st i = Unused) slots"

text \<open>The pid of the next user of slot \<open>i\<close>, and the generation counted up.\<close>

definition take_pid :: "nat \<Rightarrow> 'a sched \<Rightarrow> nat \<times> 'a sched" where
  "take_pid i st = (i + MAX_PROCS * gens st i, st\<lparr>gens := (gens st)(i := gens st i + 1)\<rparr>)"

definition create_ex ::
  "nat \<Rightarrow> u64 \<Rightarrow> u64 \<Rightarrow> nat \<Rightarrow> nat \<Rightarrow> u8 list \<Rightarrow> nat \<Rightarrow> (nat \<Rightarrow> 'a sched \<Rightarrow> 'a sched) \<Rightarrow>
   'a sched \<Rightarrow> nat option \<times> 'a sched" where
  "create_ex c entry stack_top root asid name abi setup st =
     (let parent = (case current st c of None \<Rightarrow> None
                    | Some s \<Rightarrow> Some (p_pid (procs st (p_leader (procs st s))))) in
      case free_slot st of
        None \<Rightarrow> (None, st)
      | Some i \<Rightarrow>
          let (pid, st) = take_pid i st;
              st = upd i (\<lambda>_. empty_process\<lparr>p_pid := pid, p_ctx := new_user entry stack_top,
                     p_root := root, p_asid := asid, p_leader := i, p_mm := i, p_members := 1,
                     p_abi := abi, p_parent := parent, p_name := pad_name name\<rparr>) st;
              st = st\<lparr>actions := reset_actions i (actions st)\<rparr>;
              st = setup i st;
              st = upd i (\<lambda>p. p\<lparr>p_state := Ready\<rparr>) st
          in (Some (p_pid (procs st i)), kick_idle_cpu c st))"

text \<open>A thread of the space of slot \<open>m\<close> and the process of leader \<open>l\<close>: what \<open>thread_create\<close> and
  \<open>clone_thread\<close> have in common.\<close>

definition thread_of :: "'a sched \<Rightarrow> nat \<Rightarrow> nat \<Rightarrow> nat \<Rightarrow> process" where
  "thread_of st l m pid =
     empty_process\<lparr>p_pid := pid, p_root := p_root (procs st m), p_asid := p_asid (procs st m),
       p_leader := l, p_mm := m, p_abi := p_abi (procs st l), p_parent := p_parent (procs st l),
       p_name := p_name (procs st l)\<rparr>"

definition add_member :: "nat \<Rightarrow> 'a sched \<Rightarrow> 'a sched" where
  "add_member m = upd m (\<lambda>p. p\<lparr>p_members := p_members p + 1\<rparr>)"

definition thread_create :: "nat \<Rightarrow> u64 \<Rightarrow> u64 \<Rightarrow> u64 \<Rightarrow> 'a sched \<Rightarrow> nat option \<times> 'a sched" where
  "thread_create c entry stack_top av st =
     (case current st c of
        None \<Rightarrow> (None, st)
      | Some s \<Rightarrow>
          let l = p_leader (procs st s); m = p_mm (procs st s) in
          case free_slot st of
            None \<Rightarrow> (None, st)
          | Some i \<Rightarrow>
              let (pid, st) = take_pid i st;
                  t = (thread_of st l m pid)\<lparr>p_ctx := set_ret av (new_user entry stack_top), p_state := Ready\<rparr>;
                  st = add_member m (upd i (\<lambda>_. t) st)
              in (Some pid, kick_idle_cpu c st))"

definition clone_thread ::
  "nat \<Rightarrow> u64 \<Rightarrow> u64 option \<Rightarrow> nat \<Rightarrow> 'a sched \<Rightarrow> nat option \<times> 'a sched" where
  "clone_thread c stack tls clear_tid st =
     (case current st c of
        None \<Rightarrow> (None, st)
      | Some s \<Rightarrow>
          let l = p_leader (procs st s); m = p_mm (procs st s) in
          case free_slot st of
            None \<Rightarrow> (None, st)
          | Some i \<Rightarrow>
              let (pid, st) = take_pid i st;
                  cx = set_ret 0 (frame st c);
                  cx = (if stack \<noteq> 0 then set_sp stack cx else cx);
                  cx = (case tls of Some v \<Rightarrow> set_tls v cx | None \<Rightarrow> cx);
                  t = (thread_of st l m pid)\<lparr>p_ctx := cx, p_fp := fpu st c, p_clear_tid := clear_tid,
                        p_sig := sig_new\<lparr>sg_mask := sg_mask (p_sig (procs st s))\<rparr>, p_state := Ready\<rparr>;
                  st = add_member m (upd i (\<lambda>_. t) st)
              in (Some pid, kick_idle_cpu c st))"

text \<open>fork (\<open>new_root\<close> given) and vfork. The child's record is complete before it is stored.\<close>

definition fork_child ::
  "'a sched \<Rightarrow> nat \<Rightarrow> nat \<Rightarrow> nat \<Rightarrow> nat \<Rightarrow> (nat \<times> nat) option \<Rightarrow> u64 \<Rightarrow> u64 option \<Rightarrow> nat \<Rightarrow> process" where
  "fork_child st c s i pid new_root stack tls clear_tid =
     (let l = p_leader (procs st s); m = p_mm (procs st s);
          cx = set_ret 0 (frame st c);
          cx = (if stack \<noteq> 0 then set_sp stack cx else cx);
          cx = (case tls of Some v \<Rightarrow> set_tls v cx | None \<Rightarrow> cx);
          ch = empty_process\<lparr>p_pid := pid, p_ctx := cx, p_fp := fpu st c, p_leader := i,
                 p_abi := p_abi (procs st s), p_parent := Some (p_pid (procs st l)),
                 p_name := p_name (procs st l), p_brk := p_brk (procs st m),
                 p_clear_tid := clear_tid, p_sig := (p_sig (procs st s))\<lparr>sg_pending := 0\<rparr>,
                 p_state := Ready\<rparr>
      in case new_root of
           Some (root, asid) \<Rightarrow> ch\<lparr>p_root := root, p_asid := asid, p_mm := i, p_members := 1\<rparr>
         | None \<Rightarrow> ch\<lparr>p_root := p_root (procs st m), p_asid := p_asid (procs st m), p_mm := m,
                     p_vfork := Some s\<rparr>)"

definition fork ::
  "'a services \<Rightarrow> nat \<Rightarrow> (nat \<times> nat) option \<Rightarrow> u64 \<Rightarrow> u64 option \<Rightarrow> nat \<Rightarrow> 'a sched \<Rightarrow>
   nat option \<times> 'a sched" where
  "fork sv c new_root stack tls clear_tid st =
     (case current st c of
        None \<Rightarrow> (None, st)
      | Some s \<Rightarrow>
          (case free_slot st of
             None \<Rightarrow> (None, st)
           | Some i \<Rightarrow>
               let l = p_leader (procs st s); m = p_mm (procs st s);
                   (pid, st) = take_pid i st;
                   ch = fork_child st c s i pid new_root stack tls clear_tid;
                   st = (if new_root = None then add_member m st else st);
                   st = upd i (\<lambda>_. ch) st;
                   st = st\<lparr>actions := copy_actions l i (actions st)\<rparr>;
                   st = on_k (sv_clone_files sv l i) st;
                   st = st\<lparr>exe := (exe st)(i := exe st l), cmdline := (cmdline st)(i := cmdline st l)\<rparr>;
                   st = (if new_root \<noteq> None then on_k (sv_vm_clone sv m i) st else st);
                   st = kick_idle_cpu c st
               in (Some pid,
                   if new_root = None
                   then sleep_as sv c (\<lambda>p. p\<lparr>p_state := VforkWait\<rparr>) (on_frame c (set_ret (of_nat pid)) st)
                   else st)))"

section \<open>Termination\<close>

definition unblock_partner :: "nat \<Rightarrow> process \<Rightarrow> process" where
  "unblock_partner s p =
     (if (p_state p = ReplyBlocked \<and> p_peer p = s) \<or> (p_state p = SendBlocked \<and> p_send_to p = s)
      then p\<lparr>p_reply := msg_zero, p_ctx := set_ret minus1 (p_ctx p), p_state := Ready\<rparr>
      else p)"

definition wake_vfork_parent :: "nat \<Rightarrow> nat \<Rightarrow> 'a sched \<Rightarrow> 'a sched" where
  "wake_vfork_parent me s st =
     (let v = p_vfork (procs st s); st = upd s (\<lambda>p. p\<lparr>p_vfork := None\<rparr>) st in
      case v of
        None \<Rightarrow> st
      | Some q \<Rightarrow> if pst st q = VforkWait
                 then kick_idle_cpu me (upd q (\<lambda>p. p\<lparr>p_state := Ready\<rparr>) st) else st)"

definition free_mm :: "'a services \<Rightarrow> nat \<Rightarrow> 'a sched \<Rightarrow> 'a sched" where
  "free_mm sv m st =
     (let st = (if p_root (procs st m) \<noteq> 0 then on_k (sv_free_space sv (p_root (procs st m))) st else st);
          st = on_k (sv_vm_release sv m) st
      in upd m (\<lambda>p. p\<lparr>p_root := 0\<rparr>) st)"

definition drop_mm :: "'a services \<Rightarrow> nat \<Rightarrow> 'a sched \<Rightarrow> bool \<times> 'a sched" where
  "drop_mm sv s st =
     (let m = p_mm (procs st s);
          st = (if p_members (procs st m) > 0 then upd m (\<lambda>p. p\<lparr>p_members := p_members p - 1\<rparr>) st else st)
      in if m = s then
           if p_members (procs st s) > 0 then (True, st) else (False, free_mm sv s st)
         else
           let st = upd s (\<lambda>p. p\<lparr>p_root := 0, p_mm := s\<rparr>) st in
           if pst st m = Zombie \<and> p_members (procs st m) = 0
           then (False, upd m (\<lambda>p. p\<lparr>p_state := Unused\<rparr>) (free_mm sv m st))
           else (False, st))"

definition release :: "'a services \<Rightarrow> nat \<Rightarrow> 'a sched \<Rightarrow> 'a sched" where
  "release sv s st =
     (let (owner_busy, st) = drop_mm sv s st in
      upd s (\<lambda>p. p\<lparr>p_state := (if owner_busy then Zombie else Unused)\<rparr>) st)"

definition WAIT_REDO :: nat where "WAIT_REDO = u64_max"

text \<open>The loop of \<open>record_exit\<close> over the processes that wait for a child: \<open>True\<close> when one of them took
  the status, and whether a \<open>waitid\<close> caller is to run again.\<close>

fun exit_to_waiters ::
  "'a services \<Rightarrow> nat \<Rightarrow> nat \<Rightarrow> nat option \<Rightarrow> u32 \<Rightarrow> nat list \<Rightarrow> bool \<Rightarrow> 'a sched \<Rightarrow>
   bool \<times> bool \<times> 'a sched" where
  "exit_to_waiters sv me pid parent status [] redo st = (False, redo, st)"
| "exit_to_waiters sv me pid parent status (i # is) redo st =
     (let p = procs st i in
      if p_state p = WaitChild \<and> p_pid p \<noteq> pid \<and> Some (p_pid (procs st (p_leader p))) = parent \<and>
         (p_wait_pid p = -1 \<or> p_wait_pid p = int pid)
      then
        if p_wait_ptr p = WAIT_REDO then
          exit_to_waiters sv me pid parent status is True
            (upd i (\<lambda>p. p\<lparr>p_ctx := rewind_syscall (p_ctx p), p_state := Ready\<rparr>) st)
        else
          let st = (if p_wait_ptr p \<noteq> 0 then write_user sv (p_root p) (p_wait_ptr p) (le32 status) st else st);
              st = upd i (\<lambda>p. p\<lparr>p_ctx := set_ret (of_nat pid) (p_ctx p), p_state := Ready\<rparr>) st
          in (True, redo, kick_idle_cpu me st)
      else exit_to_waiters sv me pid parent status is redo st)"

definition tell_parent :: "nat \<Rightarrow> nat option \<Rightarrow> nat \<Rightarrow> 'a sched \<Rightarrow> 'a sched" where
  "tell_parent me parent pid st =
     (case parent of None \<Rightarrow> st
      | Some pp \<Rightarrow> snd (post_signal_locked me pp SIGCHLD False pid st))"

definition record_exit :: "'a services \<Rightarrow> nat \<Rightarrow> nat \<Rightarrow> 'a sched \<Rightarrow> 'a sched" where
  "record_exit sv me s st =
     (let p = procs st s; pid = p_pid p; parent = p_parent p; status = p_status p;
          (taken, redo, st) = exit_to_waiters sv me pid parent status slots False st
      in if taken then tell_parent me parent pid st
         else
           let st = (if redo then kick_idle_cpu me st else st);
               st = st\<lparr>exits := (exits st)[exits_next st := (Some pid, parent, status)],
                       exits_next := (exits_next st + 1) mod EXITS_MAX\<rparr>
           in tell_parent me parent pid st)"

definition mark_killed :: "nat \<Rightarrow> 'a sched \<Rightarrow> 'a sched" where
  "mark_killed i st = send_ipi (p_cpu (procs st i)) (upd i (\<lambda>p. p\<lparr>p_killed := True\<rparr>) st)"

text \<open>\<open>reap\<close>: the part before the threads, then the threads of a leader, then \<open>release\<close>.\<close>

definition reap_start :: "'a services \<Rightarrow> nat \<Rightarrow> nat \<Rightarrow> 'a sched \<Rightarrow> 'a sched" where
  "reap_start sv me s st =
     (let l = p_leader (procs st s);
          st = upd s (\<lambda>p. p\<lparr>p_killed := False, p_state := Unused\<rparr>) st;
          st = fold (\<lambda>i. upd i (unblock_partner s)) slots st;
          st = on_k (sv_forget_input sv (p_pid (procs st s))) st;
          st = wake_vfork_parent me s st
      in if l = s then flush_wakes me (on_k (sv_release_files sv s) (record_exit sv me s st)) else st)"

function reap :: "'a services \<Rightarrow> nat \<Rightarrow> nat \<Rightarrow> 'a sched \<Rightarrow> 'a sched" where
  "reap sv me s st =
     (let l = p_leader (procs st s);
          st = reap_start sv me s st;
          st = (if l = s then
                  fold (\<lambda>i st.
                    if i = s \<or> p_leader (procs st i) \<noteq> s then st
                    else if pst st i = Unused \<or> pst st i = Zombie then st
                    else if pst st i = Running then mark_killed i st
                    else reap sv me i st) slots st
                else st)
      in kick_idle_cpu me (release sv s st))"
  by pat_completeness auto
termination
  by (relation "measure (\<lambda>(sv, me, s, st). if p_leader (procs st s) = s then 1 else 0)") auto

declare reap.simps [simp del]

section \<open>Leaving and killing\<close>

definition account_and_leave :: "'a services \<Rightarrow> nat \<Rightarrow> nat \<Rightarrow> 'a sched \<Rightarrow> 'a sched" where
  "account_and_leave sv c s st =
     (let now = clock st; dt = now - last_switch st c;
          st = st\<lparr>last_switch := (last_switch st)(c := now), busy := (busy st)(c := busy st c + dt),
                  satp := (satp st)(c := (sv_kroot sv, 0))\<rparr>
      in upd s (\<lambda>p. p\<lparr>p_cpu_time := p_cpu_time p + dt\<rparr>) st)"

text \<open>\<open>CLONE_CHILD_CLEARTID\<close>: the tid word is zeroed and one waiter woken.\<close>

definition clear_tid_word :: "'a services \<Rightarrow> nat \<Rightarrow> nat \<Rightarrow> 'a sched \<Rightarrow> 'a sched" where
  "clear_tid_word sv me s st =
     (let ct = p_clear_tid (procs st s); root = p_root (procs st s) in
      if ct \<noteq> 0 \<and> sv_translate sv (kst st) root ct \<noteq> None
      then snd (futex_wake_locked me root ct 1 (write_user sv root ct (le32 0) st))
      else st)"

definition exit_locked :: "'a services \<Rightarrow> nat \<Rightarrow> 'a sched \<Rightarrow> 'a sched" where
  "exit_locked sv c st =
     (case current st c of
        None \<Rightarrow> st
      | Some s \<Rightarrow>
          let st = clear_tid_word sv c s st;
              st = upd s (\<lambda>p. p\<lparr>p_ctx := frame st c\<rparr>) st;
              st = st\<lparr>current := (current st)(c := None)\<rparr>
          in dispatch sv c (reap sv c s (account_and_leave sv c s st)))"

text \<open>The leader's turn in \<open>exit_group\<close> and \<open>oops_recover\<close>.\<close>

definition end_leader :: "'a services \<Rightarrow> nat \<Rightarrow> nat \<Rightarrow> 'a sched \<Rightarrow> 'a sched" where
  "end_leader sv c l st =
     (if pst st l = Unused \<or> pst st l = Zombie then st
      else if pst st l = Running then mark_killed l st
      else reap sv c l st)"

definition exit_group :: "'a services \<Rightarrow> nat \<Rightarrow> 'a sched \<Rightarrow> 'a sched" where
  "exit_group sv c st =
     (case current st c of
        None \<Rightarrow> st
      | Some s \<Rightarrow>
          let l = p_leader (procs st s);
              st = (if l \<noteq> s then end_leader sv c l st else st)
          in exit_locked sv c st)"

definition exit_if_killed :: "'a services \<Rightarrow> nat \<Rightarrow> 'a sched \<Rightarrow> bool \<times> 'a sched" where
  "exit_if_killed sv c st =
     (case current st c of
        None \<Rightarrow> (False, st)
      | Some s \<Rightarrow> if p_killed (procs st s) then (True, exit_locked sv c st) else (False, st))"

definition set_status_of :: "nat \<Rightarrow> u32 \<Rightarrow> 'a sched \<Rightarrow> 'a sched" where
  "set_status_of s status st = upd (p_leader (procs st s)) (\<lambda>p. p\<lparr>p_status := status\<rparr>) st"

definition set_status :: "nat \<Rightarrow> u32 \<Rightarrow> bool \<Rightarrow> 'a sched \<Rightarrow> 'a sched" where
  "set_status c status grp st =
     (case current st c of None \<Rightarrow> st
      | Some s \<Rightarrow> if grp \<or> p_leader (procs st s) = s then set_status_of s status st else st)"

definition exit_status :: "u64 \<Rightarrow> u32" where
  "exit_status code = push_bit 8 (ucast (code AND 0xFF))"

definition kill_sig :: "'a services \<Rightarrow> nat \<Rightarrow> nat \<Rightarrow> u32 \<Rightarrow> 'a sched \<Rightarrow> bool \<times> 'a sched" where
  "kill_sig sv c pid sig st =
     (case slot_of_pid pid st of
        None \<Rightarrow> (False, st)
      | Some s \<Rightarrow>
          let st = set_status_of s (sig AND 0x7F) st in
          (True,
           if current st c = Some s then exit_locked sv c st
           else if pst st s = Running then mark_killed s st
           else reap sv c s st))"

definition kill :: "'a services \<Rightarrow> nat \<Rightarrow> nat \<Rightarrow> 'a sched \<Rightarrow> bool \<times> 'a sched" where
  "kill sv c pid st = kill_sig sv c pid (of_nat SIGKILL) st"

definition oops_recover :: "'a services \<Rightarrow> nat \<Rightarrow> 'a sched \<Rightarrow> nat option \<times> 'a sched" where
  "oops_recover sv c st =
     (let st = on_frame c (\<lambda>_. new_idle (sv_idle sv) (sv_kstack sv c)) st in
      case current st c of
        None \<Rightarrow> (None, dispatch sv c st)
      | Some s \<Rightarrow>
          let l = p_leader (procs st s); pid = p_pid (procs st l);
              st = (set_status_of s 11 st)\<lparr>last_crash := Some pid\<rparr>;
              st = (if l \<noteq> s then end_leader sv c l st else st)
          in (Some pid, exit_locked sv c st))"

section \<open>Waiting for children\<close>

definition exit_of :: "nat \<Rightarrow> int \<Rightarrow> nat option \<times> nat option \<times> u32 \<Rightarrow> bool" where
  "exit_of me pid e =
     (case e of (Some q, parent, _) \<Rightarrow> parent = Some me \<and> (pid = -1 \<or> int q = pid)
      | (None, _) \<Rightarrow> False)"

definition has_child :: "nat \<Rightarrow> int \<Rightarrow> 'a sched \<Rightarrow> bool" where
  "has_child me pid st \<longleftrightarrow>
     List.find (\<lambda>i. let p = procs st i in alive st i \<and> p_leader p = p_pid p mod MAX_PROCS \<and>
       p_parent p = Some me \<and> (pid = -1 \<or> int (p_pid p) = pid)) slots \<noteq> None"

definition wait_child :: "'a services \<Rightarrow> nat \<Rightarrow> int \<Rightarrow> nat \<Rightarrow> bool \<Rightarrow> 'a sched \<Rightarrow> 'a sched" where
  "wait_child sv c pid status_ptr nohang st =
     (case current st c of
        None \<Rightarrow> st
      | Some s \<Rightarrow>
          let me = p_pid (procs st (p_leader (procs st s))) in
          case position (exit_of me pid) (exits st) of
            Some k \<Rightarrow>
              let (q, parent, status) = exits st ! k;
                  st = (if status_ptr \<noteq> 0 then on_k (sv_cpu_store sv (fst (satp st c)) status_ptr (le32 status)) st
                        else st);
                  st = on_frame c (set_ret (of_nat (the q))) st
              in st\<lparr>exits := (exits st)[k := (None, parent, status)]\<rparr>
          | None \<Rightarrow>
              if \<not> has_child me pid st then on_frame c (set_ret (- 10)) st
              else if nohang then on_frame c (set_ret 0) st
              else sleep_as sv c (\<lambda>p. p\<lparr>p_state := WaitChild, p_wait_pid := pid,
                                         p_wait_ptr := status_ptr\<rparr>) st)"

datatype waited = Found nat u32 | Nothing | NoChild | Blocked

definition waitid_child :: "'a services \<Rightarrow> nat \<Rightarrow> int \<Rightarrow> bool \<Rightarrow> bool \<Rightarrow> 'a sched \<Rightarrow> waited \<times> 'a sched" where
  "waitid_child sv c pid nohang nowait st =
     (case current st c of
        None \<Rightarrow> (NoChild, st)
      | Some s \<Rightarrow>
          let me = p_pid (procs st (p_leader (procs st s))) in
          case position (exit_of me pid) (exits st) of
            Some k \<Rightarrow>
              let (q, parent, status) = exits st ! k in
              (Found (the q) status,
               if nowait then st else st\<lparr>exits := (exits st)[k := (None, parent, status)]\<rparr>)
          | None \<Rightarrow>
              if \<not> has_child me pid st then (NoChild, st)
              else if nohang then (Nothing, st)
              else (Blocked, sleep_as sv c (\<lambda>p. p\<lparr>p_state := WaitChild, p_wait_pid := pid,
                                                   p_wait_ptr := WAIT_REDO\<rparr>) st))"

section \<open>Exec\<close>

definition end_threads :: "'a services \<Rightarrow> nat \<Rightarrow> nat \<Rightarrow> 'a sched \<Rightarrow> 'a sched" where
  "end_threads sv c s st =
     fold (\<lambda>i st. if i = s \<or> p_leader (procs st i) \<noteq> s then st
                  else if pst st i = Unused \<or> pst st i = Zombie then st
                  else if pst st i = Running then mark_killed i st
                  else reap sv c i st) slots st"

definition exec_replace ::
  "'a services \<Rightarrow> nat \<Rightarrow> nat \<Rightarrow> nat \<Rightarrow> u64 \<Rightarrow> u64 \<Rightarrow> nat \<Rightarrow> u8 list \<Rightarrow> (nat \<Rightarrow> 'a sched \<Rightarrow> 'a sched) \<Rightarrow>
   'a sched \<Rightarrow> bool \<times> 'a sched" where
  "exec_replace sv c root asid entry sp abi name setup st =
     (case current st c of
        None \<Rightarrow> (False, st)
      | Some s \<Rightarrow>
          if p_leader (procs st s) \<noteq> s then (False, st)
          else
            let st = end_threads sv c s st in
            if p_mm (procs st s) = s \<and> p_members (procs st s) > 1 then (False, st)
            else
              let st = st\<lparr>satp := (satp st)(c := (root, asid))\<rparr>;
                  st = wake_vfork_parent c s st;
                  st = snd (drop_mm sv s st);
                  st = upd s (\<lambda>p. p\<lparr>p_root := root, p_asid := asid, p_mm := s, p_members := 1,
                         p_abi := abi, p_brk := HEAP_BASE, p_clear_tid := 0, p_name := pad_name name,
                         p_fp := fp_zeroed\<rparr>) st;
                  st = st\<lparr>fpu := (fpu st)(c := fp_zeroed),
                          frame := (frame st)(c := new_user entry sp),
                          cur_abi := (cur_abi st)(c := abi)\<rparr>;
                  st = upd s (\<lambda>p. p\<lparr>p_sig := (p_sig p)\<lparr>sg_alt_sp := 0, sg_alt_size := 0\<rparr>\<rparr>) st;
                  st = st\<lparr>actions := exec_actions s (actions st)\<rparr>;
                  st = setup s st;
                  st = on_k (sv_exec_files sv s) st
              in (True, flush_wakes c st))"

section \<open>The heap\<close>

text \<open>\<open>sbrk\<close>: the range is reserved under \<open>SCHED\<close>, then mapped page by page without it; when memory
  runs out, the end goes back to what is mapped, unless another thread has moved it.\<close>

function map_heap :: "'a services \<Rightarrow> nat \<Rightarrow> nat \<Rightarrow> nat \<Rightarrow> 'a sched \<Rightarrow> nat option \<times> 'a sched" where
  "map_heap sv root page new st =
     (if page < new then
        let (ok, k) = sv_map_new sv root page (kst st); st = st\<lparr>kst := k\<rparr> in
        if ok then map_heap sv root (page + 4096) new st else (Some page, st)
      else (None, st))"
  by pat_completeness auto
termination
  by (relation "measure (\<lambda>(sv, root, page, new, st). new - page)") auto

declare map_heap.simps [simp del]

definition sbrk :: "'a services \<Rightarrow> nat \<Rightarrow> nat \<Rightarrow> 'a sched \<Rightarrow> nat option \<times> 'a sched" where
  "sbrk sv c inc st =
     (case current st c of
        None \<Rightarrow> (None, st)
      | Some s \<Rightarrow>
          let m = p_mm (procs st s); old = p_brk (procs st m); root = p_root (procs st m) in
          case checked_add old inc of
            None \<Rightarrow> (None, st)
          | Some new \<Rightarrow>
              if new > HEAP_LIMIT then (None, st)
              else
                let st = upd m (\<lambda>p. p\<lparr>p_brk := new\<rparr>) st in
                case map_heap sv root (div_ceil old 4096 * 4096) new st of
                  (None, st) \<Rightarrow> (Some old, st)
                | (Some page, st) \<Rightarrow>
                    (None, if p_brk (procs st m) = new
                           then upd m (\<lambda>p. p\<lparr>p_brk := max page old\<rparr>) st else st))"

definition brk :: "'a services \<Rightarrow> nat \<Rightarrow> nat \<Rightarrow> 'a sched \<Rightarrow> nat \<times> 'a sched" where
  "brk sv c addr st =
     (case current st c of
        None \<Rightarrow> (0, st)
      | Some s \<Rightarrow>
          let cur = p_brk (procs st (p_mm (procs st s))) in
          if addr \<le> cur then (cur, st)
          else case sbrk sv c (addr - cur) st of
                 (Some _, st) \<Rightarrow> (addr, st)
               | (None, st) \<Rightarrow> (p_brk (procs st (p_mm (procs st s))), st))"

section \<open>Executable path and arguments\<close>

definition EXE_MAX :: nat where "EXE_MAX = 256"
definition CMD_MAX :: nat where "CMD_MAX = 1024"

definition set_exe_path :: "nat \<Rightarrow> u8 list \<Rightarrow> 'a sched \<Rightarrow> 'a sched" where
  "set_exe_path s path st = st\<lparr>exe := (exe st)(s := take EXE_MAX path)\<rparr>"

definition exe_path :: "nat \<Rightarrow> nat \<Rightarrow> 'a sched \<Rightarrow> u8 list" where
  "exe_path c out_len st =
     (case current st c of None \<Rightarrow> [] | Some s \<Rightarrow> take out_len (exe st (p_leader (procs st s))))"

definition set_cmdline :: "nat \<Rightarrow> u8 list \<Rightarrow> 'a sched \<Rightarrow> 'a sched" where
  "set_cmdline s argv st = st\<lparr>cmdline := (cmdline st)(s := take CMD_MAX argv)\<rparr>"

definition cmdline_of :: "nat \<Rightarrow> nat \<Rightarrow> 'a sched \<Rightarrow> u8 list" where
  "cmdline_of c out_len st =
     (case current st c of None \<Rightarrow> [] | Some s \<Rightarrow> take out_len (cmdline st (p_leader (procs st s))))"

end
