(* ===== verification/Ipc.thy ===== *)
theory Ipc
  imports Procs
begin

text \<open>
  Synchronous message passing (\<open>kernel/src/process.rs\<close>, section IPC): send, receive with and
  without blocking, reply, and the delivery of a message into the memory of its receiver.
\<close>

section \<open>Operations\<close>

text \<open>\<open>write_msg\<close>: the seven words one by one, each through its own translation.\<close>

definition msg_words :: "message \<Rightarrow> u64 list" where
  "msg_words m = m_tag m # m_data m"

definition write_msg :: "'a services \<Rightarrow> nat \<Rightarrow> nat \<Rightarrow> message \<Rightarrow> 'a sched \<Rightarrow> 'a sched" where
  "write_msg sv root va m st =
     fold (\<lambda>i. write_user sv root (va + i * 8) (le64 (msg_words m ! i))) [0..<7] st"

definition deliver_recv :: "'a services \<Rightarrow> nat \<Rightarrow> 'a sched \<Rightarrow> 'a sched" where
  "deliver_recv sv p st =
     (let ptr = p_msg_ptr (procs st p);
          st = (if ptr \<noteq> 0 then write_msg sv (p_root (procs st p)) ptr (p_inbox (procs st p)) st else st);
          sender_pid = p_pid (procs st (p_peer (procs st p)))
      in upd p (\<lambda>q. q\<lparr>p_ctx := set_ret (of_nat sender_pid) (p_ctx q)\<rparr>) st)"

definition ipc_send :: "'a services \<Rightarrow> nat \<Rightarrow> nat \<Rightarrow> message \<Rightarrow> nat \<Rightarrow> 'a sched \<Rightarrow> bool \<times> 'a sched" where
  "ipc_send sv c dst_pid msg msg_ptr st =
     (case (current st c, slot_of_pid dst_pid st) of
        (Some me, Some dst) \<Rightarrow>
          if dst = me then (False, st)
          else
            let st = upd me (\<lambda>p. p\<lparr>p_msg_ptr := msg_ptr\<rparr>) st;
                st = (if pst st dst = RecvBlocked then
                        let st = upd dst (\<lambda>p. p\<lparr>p_wake_at := 0, p_inbox := msg, p_peer := me\<rparr>) st;
                            st = deliver_recv sv dst st;
                            st = upd dst (\<lambda>p. p\<lparr>p_state := Ready\<rparr>) st;
                            st = upd me (\<lambda>p. p\<lparr>p_state := ReplyBlocked, p_peer := dst\<rparr>) st
                        in kick_idle_cpu c st
                      else
                        upd me (\<lambda>p. p\<lparr>p_state := SendBlocked, p_send_to := dst, p_inbox := msg\<rparr>) st)
            in (True, block_current sv c st)
      | _ \<Rightarrow> (False, st))"

definition find_sender :: "nat \<Rightarrow> 'a sched \<Rightarrow> nat option" where
  "find_sender me st =
     List.find (\<lambda>s. pst st s = SendBlocked \<and> p_send_to (procs st s) = me)
       (map (\<lambda>off. (me + off) mod MAX_PROCS) [1..<MAX_PROCS + 1])"

definition accept_from :: "'a services \<Rightarrow> nat \<Rightarrow> nat \<Rightarrow> nat \<Rightarrow> nat \<Rightarrow> 'a sched \<Rightarrow> 'a sched" where
  "accept_from sv c me s msg_ptr st =
     (let st = upd me (\<lambda>p. p\<lparr>p_inbox := p_inbox (procs st s), p_peer := s\<rparr>) st;
          st = upd s (\<lambda>p. p\<lparr>p_state := ReplyBlocked, p_peer := me\<rparr>) st;
          st = (if msg_ptr \<noteq> 0 then write_msg sv (p_root (procs st me)) msg_ptr (p_inbox (procs st me)) st
                else st)
      in on_frame c (set_ret (of_nat (p_pid (procs st s)))) st)"

definition ipc_recv :: "'a services \<Rightarrow> nat \<Rightarrow> nat \<Rightarrow> nat \<Rightarrow> 'a sched \<Rightarrow> 'a sched" where
  "ipc_recv sv c msg_ptr timeout_ms st =
     (case current st c of
        None \<Rightarrow> st
      | Some me \<Rightarrow>
          (case find_sender me st of
             Some s \<Rightarrow> accept_from sv c me s msg_ptr st
           | None \<Rightarrow>
               sleep_as sv c (\<lambda>p. p\<lparr>p_msg_ptr := msg_ptr, p_state := RecvBlocked,
                 p_wake_at := (if timeout_ms > 0 then clock st + ms_to_ticks sv timeout_ms else 0)\<rparr>) st))"

definition ipc_try_recv :: "'a services \<Rightarrow> nat \<Rightarrow> nat \<Rightarrow> 'a sched \<Rightarrow> 'a sched" where
  "ipc_try_recv sv c msg_ptr st =
     (case current st c of
        None \<Rightarrow> st
      | Some me \<Rightarrow>
          (case find_sender me st of
             Some s \<Rightarrow> accept_from sv c me s msg_ptr st
           | None \<Rightarrow> on_frame c (set_ret minus1) st))"

definition ipc_reply :: "'a services \<Rightarrow> nat \<Rightarrow> nat \<Rightarrow> message \<Rightarrow> 'a sched \<Rightarrow> 'a sched" where
  "ipc_reply sv c to_pid msg st =
     (case current st c of
        None \<Rightarrow> st
      | Some me \<Rightarrow>
          let st = on_frame c (set_ret 0) st in
          case slot_of_pid to_pid st of
            None \<Rightarrow> st
          | Some to \<Rightarrow>
              if pst st to = ReplyBlocked \<and> p_peer (procs st to) = me then
                let st = upd to (\<lambda>p. p\<lparr>p_reply := msg\<rparr>) st;
                    ptr = p_msg_ptr (procs st to);
                    st = (if ptr \<noteq> 0 then write_msg sv (p_root (procs st to)) ptr (p_reply (procs st to)) st
                          else st);
                    st = upd to (\<lambda>p. p\<lparr>p_ctx := set_ret 0 (p_ctx p), p_state := Ready\<rparr>) st
                in kick_idle_cpu c st
              else st)"

end
