(* ===== verification/Sched_Inv.thy ===== *)
theory Sched_Inv
  imports Ipc
begin

text \<open>
  What the operations of \<open>Sched\<close>, \<open>Procs\<close> and \<open>Ipc\<close> keep of the process table.

  Most of them only wake sleepers or change fields no one else depends on: \<open>wakes\<close> is that
  relation, and each such helper has one lemma in the collection \<open>gently\<close>. The invariant itself
  has two halves. \<open>space_ok\<close> is about address spaces: with \<open>O\<close> the slots that use a space, the
  owner of each is held (in use, or a zombie that keeps it), owner and user agree on the root, and
  \<open>members\<close> counts the users. \<open>cpu_ok\<close> is about CPUs: a running process is current on exactly
  one CPU. Inside \<open>reap\<close>, \<open>exit\<close> and \<open>block\<close> they hold with an exception, which the lemmas name.
\<close>

section \<open>Steps that only wake\<close>

definition gentle :: "process \<Rightarrow> process \<Rightarrow> bool" where
  "gentle p q \<longleftrightarrow> p_pid q = p_pid p \<and> p_cpu q = p_cpu p \<and> p_mm q = p_mm p \<and> p_root q = p_root p \<and>
     p_asid q = p_asid p \<and> p_members q = p_members p \<and> p_leader q = p_leader p \<and>
     (p_state q = p_state p \<or>
      (p_state p \<notin> {Unused, Zombie, Running} \<and> p_state q = Ready)) \<and>
     (p_state q = SendBlocked \<longrightarrow> p_send_to q = p_send_to p) \<and>
     (p_state q = ReplyBlocked \<longrightarrow> p_peer q = p_peer p)"

definition wakes :: "'a sched \<Rightarrow> 'a sched \<Rightarrow> bool" where
  "wakes st st' \<longleftrightarrow> (\<forall>i. gentle (procs st i) (procs st' i)) \<and> gens st' = gens st \<and>
     current st' = current st \<and> online st' = online st"

named_theorems gently

lemma gentle_refl [simp, gently]: "gentle p p"
  by (simp add: gentle_def)

lemma gentle_trans: "gentle p q \<Longrightarrow> gentle q r \<Longrightarrow> gentle p r"
  by (auto simp: gentle_def)

lemma wakes_refl [simp, gently]: "wakes st st"
  by (simp add: wakes_def)

lemma wakes_trans [trans]: "wakes st st' \<Longrightarrow> wakes st' st'' \<Longrightarrow> wakes st st''"
  unfolding wakes_def using gentle_trans by metis

lemma wakes_upd [gently]: "gentle (procs st i) (f (procs st i)) \<Longrightarrow> wakes st (upd i f st)"
  by (auto simp: wakes_def upd_def)

lemma wakes_fold: "(\<And>i st. i \<in> set is \<Longrightarrow> wakes st (f i st)) \<Longrightarrow> wakes st (fold f is st)"
  by (induction "is" arbitrary: st) (auto intro: wakes_trans)

text \<open>Same table, same CPUs: what the services, the frames and the statistics change.\<close>

lemma wakes_same [gently]:
  "procs st' = procs st \<Longrightarrow> gens st' = gens st \<Longrightarrow> current st' = current st \<Longrightarrow> online st' = online st \<Longrightarrow>
   wakes st st'"
  by (simp add: wakes_def)

lemma on_k_simps [simp]:
  "procs (on_k f st) = procs st" "gens (on_k f st) = gens st" "current (on_k f st) = current st"
  "online (on_k f st) = online st" "kst (on_k f st) = f (kst st)" "frame (on_k f st) = frame st"
  "exits (on_k f st) = exits st" "fpu (on_k f st) = fpu st" "actions (on_k f st) = actions st"
  "pst (on_k f st) i = pst st i" "clock (on_k f st) = clock st" "exits_next (on_k f st) = exits_next st"
  by (simp_all add: on_k_def pst_def)

lemma on_frame_simps [simp]:
  "procs (on_frame c f st) = procs st" "gens (on_frame c f st) = gens st"
  "current (on_frame c f st) = current st" "online (on_frame c f st) = online st"
  "kst (on_frame c f st) = kst st" "frame (on_frame c f st) = (frame st)(c := f (frame st c))"
  "exits (on_frame c f st) = exits st" "fpu (on_frame c f st) = fpu st"
  "actions (on_frame c f st) = actions st" "pst (on_frame c f st) i = pst st i"
  "clock (on_frame c f st) = clock st"
  by (simp_all add: on_frame_def pst_def)

lemma upd_simps [simp]:
  "procs (upd i f st) = (procs st)(i := f (procs st i))" "gens (upd i f st) = gens st"
  "current (upd i f st) = current st" "online (upd i f st) = online st" "kst (upd i f st) = kst st"
  "frame (upd i f st) = frame st" "exits (upd i f st) = exits st" "fpu (upd i f st) = fpu st"
  "actions (upd i f st) = actions st" "clock (upd i f st) = clock st"
  "exits_next (upd i f st) = exits_next st" "rr_next (upd i f st) = rr_next st"
  by (simp_all add: upd_def)

lemma pst_upd [simp]: "pst (upd i f st) j = (if i = j then p_state (f (procs st i)) else pst st j)"
  by (simp add: pst_def)

lemma send_ipi_simps [simp]:
  "procs (send_ipi c st) = procs st" "gens (send_ipi c st) = gens st" "current (send_ipi c st) = current st"
  "online (send_ipi c st) = online st" "kst (send_ipi c st) = kst st" "frame (send_ipi c st) = frame st"
  "exits (send_ipi c st) = exits st" "fpu (send_ipi c st) = fpu st" "actions (send_ipi c st) = actions st"
  "pst (send_ipi c st) i = pst st i" "clock (send_ipi c st) = clock st"
  "exits_next (send_ipi c st) = exits_next st" "rr_next (send_ipi c st) = rr_next st"
  by (simp_all add: send_ipi_def pst_def)

lemma fold_send_ipi [simp]: "fold send_ipi cs st = st\<lparr>ipis := ipis st @ cs\<rparr>"
  by (induction cs arbitrary: st) (simp_all add: send_ipi_def)

lemma kick_simps [simp]:
  "procs (kick_idle_cpus me n st) = procs st" "gens (kick_idle_cpus me n st) = gens st"
  "current (kick_idle_cpus me n st) = current st" "online (kick_idle_cpus me n st) = online st"
  "kst (kick_idle_cpus me n st) = kst st" "frame (kick_idle_cpus me n st) = frame st"
  "exits (kick_idle_cpus me n st) = exits st" "fpu (kick_idle_cpus me n st) = fpu st"
  "actions (kick_idle_cpus me n st) = actions st" "pst (kick_idle_cpus me n st) i = pst st i"
  "clock (kick_idle_cpus me n st) = clock st" "exits_next (kick_idle_cpus me n st) = exits_next st"
  "rr_next (kick_idle_cpus me n st) = rr_next st"
  by (simp_all add: kick_idle_cpus_def pst_def)

lemma kick1_simps [simp]:
  "procs (kick_idle_cpu me st) = procs st" "gens (kick_idle_cpu me st) = gens st"
  "current (kick_idle_cpu me st) = current st" "online (kick_idle_cpu me st) = online st"
  "kst (kick_idle_cpu me st) = kst st" "frame (kick_idle_cpu me st) = frame st"
  "exits (kick_idle_cpu me st) = exits st" "fpu (kick_idle_cpu me st) = fpu st"
  "actions (kick_idle_cpu me st) = actions st" "pst (kick_idle_cpu me st) i = pst st i"
  "clock (kick_idle_cpu me st) = clock st" "exits_next (kick_idle_cpu me st) = exits_next st"
  "rr_next (kick_idle_cpu me st) = rr_next st"
  by (simp_all add: kick_idle_cpu_def)

lemma write_user_simps [simp]:
  "procs (write_user sv r va bs st) = procs st" "gens (write_user sv r va bs st) = gens st"
  "current (write_user sv r va bs st) = current st" "online (write_user sv r va bs st) = online st"
  "frame (write_user sv r va bs st) = frame st" "exits (write_user sv r va bs st) = exits st"
  "fpu (write_user sv r va bs st) = fpu st" "actions (write_user sv r va bs st) = actions st"
  "pst (write_user sv r va bs st) i = pst st i" "clock (write_user sv r va bs st) = clock st"
  "exits_next (write_user sv r va bs st) = exits_next st"
  by (simp_all add: write_user_def pst_def split: option.splits)

lemma wakes_on_k [gently]: "wakes st (on_k f st)"
  and wakes_on_frame [gently]: "wakes st (on_frame c g st)"
  and wakes_send_ipi [gently]: "wakes st (send_ipi c st)"
  and wakes_kick [gently]: "wakes st (kick_idle_cpus me n st)"
  and wakes_kick1 [gently]: "wakes st (kick_idle_cpu me st)"
  and wakes_write_user [gently]: "wakes st (write_user sv r va bs st)"
  by (simp_all add: wakes_same)

lemma wakes_account [gently]: "wakes st (account sv c now st)"
  by (auto simp: account_def Let_def wakes_def gentle_def split: option.splits)

lemma gentle_interrupt: "gentle p (fst (interrupt_wait r p))"
  by (auto simp: interrupt_wait_def gentle_def Let_def)

lemma interrupt_Running: "snd (interrupt_wait r p) \<or> fst (interrupt_wait r p) = p"
  by (auto simp: interrupt_wait_def Let_def)

lemma wakes_post_signal [gently]: "wakes st (snd (post_signal_locked me target sig thread ip st))"
proof -
  have *: "gentle (procs st d) (fst (interrupt_wait r (procs st d\<lparr>p_sig := s\<rparr>)))" for d s r
    using gentle_interrupt [of "procs st d\<lparr>p_sig := s\<rparr>" r] by (simp add: gentle_def)
  have **: "gentle (procs st d) (procs st d\<lparr>p_sig := s\<rparr>)" for d s by (simp add: gentle_def)
  show ?thesis
    by (auto simp: post_signal_locked_def Let_def wakes_def ** * split: option.splits prod.splits
        dest: arg_cong [where f = fst])
       (metis "*" fst_conv)+
qed

lemma wakes_ring_alarm [gently]: "wakes st (ring_alarm me now i st)"
proof -
  let ?st = "upd i (\<lambda>p. p\<lparr>p_alarm_at := if p_alarm_every p \<noteq> 0 then now + p_alarm_every p else 0\<rparr>) st"
  have "wakes st ?st" by (rule wakes_upd) (simp add: gentle_def)
  also have "wakes ?st (snd (post_signal_locked me (p_pid (procs st i)) SIGALRM False 0 ?st))"
    by (rule wakes_post_signal)
  finally show ?thesis by (simp add: ring_alarm_def Let_def)
qed

lemma gentle_timeout: "gentle p (timeout_wake now p)"
  by (auto simp: timeout_wake_def gentle_def)

lemma wakes_sleepers [gently]: "wakes st (wake_sleepers me now st)"
  unfolding wake_sleepers_def
  by (rule wakes_trans [OF wakes_fold wakes_fold]) (auto intro: gently gentle_timeout)

lemma wakes_program_timer [gently]: "wakes st (program_timer sv me now st)"
  by (simp add: program_timer_def wakes_same)

lemma wakes_ready:
  "(\<And>i. i \<in> set is \<Longrightarrow> p_state (procs st i) \<notin> {Unused, Zombie, Running}) \<Longrightarrow>
   (\<And>p. gentle p (f p\<lparr>p_state := p_state p\<rparr>)) \<Longrightarrow> (\<And>p. p_state (f p) = Ready) \<Longrightarrow>
   wakes st (fold (\<lambda>i. upd i f) is st)"
proof (induction "is" arbitrary: st)
  case (Cons i js)
  have "gentle (procs st i) (f (procs st i))"
    using Cons.prems(1) [of i] Cons.prems(2) [of "procs st i"] Cons.prems(3) [of "procs st i"]
    by (auto simp: gentle_def)
  then have "wakes st (upd i f st)" by (rule wakes_upd)
  also have "wakes (upd i f st) (fold (\<lambda>i. upd i f) js (upd i f st))"
    using Cons.prems by (intro Cons.IH) auto
  finally show ?case by simp
qed simp

lemma wakes_io_wake [gently]: "wakes st (io_wake_locked me key st)"
proof -
  let ?ws = "filter (\<lambda>i. awaits key (procs st i)) slots"
  have *: "wakes st (fold (\<lambda>i. upd i (\<lambda>p. p\<lparr>p_state := Ready\<rparr>)) ?ws st)"
    by (rule wakes_ready) (auto simp: awaits_def gentle_def)
  then show ?thesis
    by (auto simp: io_wake_locked_def Let_def intro: wakes_trans gently)
qed

lemma wakes_flush [gently]: "wakes st (flush_wakes me st)"
proof -
  have "wakes (st\<lparr>kst := k\<rparr>) (fold (io_wake_locked me) ks (st\<lparr>kst := k\<rparr>))" for ks k
    by (rule wakes_fold) (rule gently)
  moreover have "wakes st (st\<lparr>kst := k\<rparr>)" for k by (simp add: wakes_same)
  ultimately show ?thesis
    unfolding flush_wakes_def by (auto simp: take_wakes_def intro: wakes_trans)
qed

lemma wakes_futex_wake [gently]: "wakes st (snd (futex_wake_locked me root addr n st))"
proof -
  let ?ws = "take n (filter (\<lambda>i. let p = procs st i in
               p_state p = FutexWait \<and> p_root p = root \<and> p_futex p = addr) slots)"
  have *: "wakes st (fold (\<lambda>i. upd i (\<lambda>p. p\<lparr>p_state := Ready, p_wake_at := 0, p_ctx := set_ret 0 (p_ctx p)\<rparr>)) ?ws st)"
    by (rule wakes_ready) (auto simp: gentle_def Let_def dest: in_set_takeD)
  then show ?thesis
    by (auto simp: futex_wake_locked_def Let_def intro: wakes_trans gently)
qed

lemma wakes_clear_tid [gently]: "wakes st (clear_tid_word sv me s st)"
  by (auto simp: clear_tid_word_def Let_def intro: wakes_trans [OF wakes_write_user] gently)

lemma gentle_unblock: "gentle p (unblock_partner s p)"
  by (auto simp: unblock_partner_def gentle_def)

lemma wakes_vfork_parent [gently]: "wakes st (wake_vfork_parent me s st)"
proof -
  have "wakes st (upd s (\<lambda>p. p\<lparr>p_vfork := None\<rparr>) st)" by (rule wakes_upd) (simp add: gentle_def)
  moreover have "wakes st (kick_idle_cpu me (upd q (\<lambda>p. p\<lparr>p_state := Ready\<rparr>) st))"
    if "pst st q = VforkWait" for q and st :: "'a sched"
    using that by (auto simp: wakes_def gentle_def pst_def)
  ultimately show ?thesis
    by (auto simp: wake_vfork_parent_def Let_def split: option.splits intro: wakes_trans)
qed

lemma wakes_exit_to_waiters:
  "wakes st (snd (snd (exit_to_waiters sv me pid parent status is redo st)))"
proof (induction "is" arbitrary: redo st)
  case (Cons i js)
  let ?p = "procs st i"
  have up: "wakes st' (upd i (\<lambda>p. p\<lparr>p_ctx := f (p_ctx p), p_state := Ready\<rparr>) st')"
    if "p_state (procs st' i) = WaitChild" for f and st' :: "'a sched"
    by (rule wakes_upd) (simp add: gentle_def that)
  show ?case
  proof (cases "p_state ?p = WaitChild \<and> p_pid ?p \<noteq> pid \<and> Some (p_pid (procs st (p_leader ?p))) = parent \<and>
         (p_wait_pid ?p = -1 \<or> p_wait_pid ?p = int pid)")
    case True
    then have w: "p_state (procs st i) = WaitChild" by simp
    show ?thesis
    proof (cases "p_wait_ptr ?p = WAIT_REDO")
      case redo: True
      with True show ?thesis using Cons.IH up [OF w, of rewind_syscall] by (auto intro: wakes_trans)
    next
      case False
      let ?st = "if p_wait_ptr ?p \<noteq> 0 then write_user sv (p_root ?p) (p_wait_ptr ?p) (le32 status) st else st"
      have "wakes st ?st" by (simp add: wakes_write_user)
      also have "wakes ?st (upd i (\<lambda>p. p\<lparr>p_ctx := set_ret (of_nat pid) (p_ctx p), p_state := Ready\<rparr>) ?st)"
        using w by (intro up) simp
      finally have "wakes st (kick_idle_cpu me (upd i (\<lambda>p. p\<lparr>p_ctx := set_ret (of_nat pid) (p_ctx p), p_state := Ready\<rparr>) ?st))"
        by (rule wakes_trans) (rule wakes_kick1)
      with True False show ?thesis by (simp add: Let_def)
    qed
  next
    case False
    have "exit_to_waiters sv me pid parent status (i # js) redo st = exit_to_waiters sv me pid parent status js redo st"
      unfolding exit_to_waiters.simps Let_def by (rule if_not_P) (use False in simp)
    then show ?thesis using Cons.IH by simp
  qed
qed simp

lemma wakes_tell_parent [gently]: "wakes st (tell_parent me parent pid st)"
  by (auto simp: tell_parent_def split: option.splits intro: gently)

lemma wakes_record_exit [gently]: "wakes st (record_exit sv me s st)"
proof -
  obtain taken redo st1 where e: "exit_to_waiters sv me (p_pid (procs st s)) (p_parent (procs st s))
      (p_status (procs st s)) slots False st = (taken, redo, st1)" by (metis prod_cases3)
  have w: "wakes st st1" using wakes_exit_to_waiters [of st sv me] e by (metis snd_conv)
  have k: "wakes st (if redo then kick_idle_cpu me st1 else st1)"
    using w by (auto intro: wakes_trans gently)
  have "wakes st ((if redo then kick_idle_cpu me st1 else st1)\<lparr>exits := a, exits_next := b\<rparr>)" for a b
    using k by (simp add: wakes_def)
  then show ?thesis
    using w unfolding record_exit_def Let_def e prod.case
    by (cases taken) (simp_all only: if_True if_False, (blast intro: wakes_trans [OF _ wakes_tell_parent])+)
qed

text \<open>\<open>reap_start\<close> is: slot \<open>s\<close> dies, then only wake-ups.\<close>

lemma reap_start_wakes:
  "wakes (upd s (\<lambda>p. p\<lparr>p_killed := False, p_state := Unused\<rparr>) st) (reap_start sv me s st)"
proof -
  let ?a = "upd s (\<lambda>p. p\<lparr>p_killed := False, p_state := Unused\<rparr>) st"
  let ?b = "fold (\<lambda>i. upd i (unblock_partner s)) slots ?a"
  let ?c = "on_k (sv_forget_input sv (p_pid (procs ?b s))) ?b"
  let ?d = "wake_vfork_parent me s ?c"
  have "wakes ?a ?b" by (rule wakes_fold) (rule wakes_upd, rule gentle_unblock)
  also have "wakes ?b ?c" by (rule gently)
  also have "wakes ?c ?d" by (rule gently)
  finally have d: "wakes ?a ?d" .
  also have "wakes ?d (flush_wakes me (on_k (sv_release_files sv s) (record_exit sv me s ?d)))"
    by (rule wakes_trans [OF wakes_record_exit wakes_trans [OF wakes_on_k wakes_flush]])
  finally show ?thesis using d by (simp add: reap_start_def Let_def)
qed

section \<open>The invariant\<close>

text \<open>The slots in use, and the users of the space of \<open>m\<close> among the slots \<open>O\<close>.\<close>

definition in_use :: "'a sched \<Rightarrow> nat set" where
  "in_use st = {i. i < MAX_PROCS \<and> alive st i}"

definition users :: "nat set \<Rightarrow> 'a sched \<Rightarrow> nat \<Rightarrow> nat set" where
  "users U st m = {i \<in> U. p_mm (procs st i) = m}"

definition held_slot :: "nat set \<Rightarrow> 'a sched \<Rightarrow> nat \<Rightarrow> bool" where
  "held_slot U st m \<longleftrightarrow> m \<in> U \<or> (m < MAX_PROCS \<and> pst st m = Zombie)"

definition space_ok :: "nat set \<Rightarrow> 'a sched \<Rightarrow> bool" where
  "space_ok U st \<longleftrightarrow> U \<subseteq> {..<MAX_PROCS} \<and>
     (\<forall>i \<in> U. held_slot U st (p_mm (procs st i)) \<and> p_mm (procs st (p_mm (procs st i))) = p_mm (procs st i) \<and>
        p_root (procs st i) = p_root (procs st (p_mm (procs st i))) \<and> p_root (procs st i) \<noteq> 0 \<and>
        p_leader (procs st i) < MAX_PROCS) \<and>
     (\<forall>i < MAX_PROCS. pst st i = Zombie \<longrightarrow> i \<notin> U \<and> p_mm (procs st i) = i \<and> users U st i \<noteq> {}) \<and>
     (\<forall>m. held_slot U st m \<and> p_mm (procs st m) = m \<longrightarrow> p_members (procs st m) = card (users U st m)) \<and>
     (\<forall>i. held_slot U st i \<longrightarrow> p_pid (procs st i) mod MAX_PROCS = i \<and>
        p_pid (procs st i) div MAX_PROCS < gens st i)"

text \<open>CPUs, but for the slots in \<open>X\<close>: those may be in any state, and run nowhere.\<close>

definition cpu_ok :: "nat set \<Rightarrow> 'a sched \<Rightarrow> bool" where
  "cpu_ok X st \<longleftrightarrow>
     (\<forall>c i. current st c = Some i \<longrightarrow> i \<notin> X \<and> i < MAX_PROCS \<and> pst st i = Running \<and> p_cpu (procs st i) = c) \<and>
     (\<forall>i < MAX_PROCS. i \<notin> X \<longrightarrow> pst st i = Running \<longrightarrow> current st (p_cpu (procs st i)) = Some i)"

text \<open>CPU \<open>c\<close> is about to dispatch: nothing runs on it, whatever its \<open>current\<close> says.\<close>

definition cpu_ready :: "nat \<Rightarrow> 'a sched \<Rightarrow> bool" where
  "cpu_ready c st \<longleftrightarrow> cpu_ok {} (st\<lparr>current := (current st)(c := None)\<rparr>)"

definition sched_inv :: "'a sched \<Rightarrow> bool" where
  "sched_inv st \<longleftrightarrow> space_ok (in_use st) st \<and> cpu_ok {} st"

lemma gentle_state: "gentle p q \<Longrightarrow> p_state q = Zombie \<longleftrightarrow> p_state p = Zombie"
  and gentle_Unused: "gentle p q \<Longrightarrow> p_state q = Unused \<longleftrightarrow> p_state p = Unused"
  and gentle_Running: "gentle p q \<Longrightarrow> p_state q = Running \<longleftrightarrow> p_state p = Running"
  by (auto simp: gentle_def)

lemma wakes_alive: "wakes st st' \<Longrightarrow> alive st' i \<longleftrightarrow> alive st i"
  unfolding wakes_def alive_def pst_def using gentle_state gentle_Unused by metis

lemma wakes_in_use: "wakes st st' \<Longrightarrow> in_use st' = in_use st"
  by (simp add: in_use_def wakes_alive)

lemma wakes_fields:
  assumes "wakes st st'"
  shows "p_mm (procs st' i) = p_mm (procs st i)" "p_root (procs st' i) = p_root (procs st i)"
    "p_members (procs st' i) = p_members (procs st i)" "p_leader (procs st' i) = p_leader (procs st i)"
    "p_pid (procs st' i) = p_pid (procs st i)" "p_cpu (procs st' i) = p_cpu (procs st i)"
    "pst st' i = Zombie \<longleftrightarrow> pst st i = Zombie" "pst st' i = Running \<longleftrightarrow> pst st i = Running"
    "pst st' i = Unused \<longleftrightarrow> pst st i = Unused"
    "gens st' = gens st" "current st' = current st"
  using assms by (auto simp: wakes_def gentle_def pst_def dest!: spec [of _ i])

lemma wakes_space_ok: "wakes st st' \<Longrightarrow> space_ok U st' \<longleftrightarrow> space_ok U st"
  by (simp add: space_ok_def held_slot_def users_def wakes_fields)

lemma wakes_cpu_ok: "wakes st st' \<Longrightarrow> cpu_ok X st' \<longleftrightarrow> cpu_ok X st"
  by (simp add: cpu_ok_def wakes_fields)

lemma wakes_cpu_ready: "wakes st st' \<Longrightarrow> cpu_ready c st' \<longleftrightarrow> cpu_ready c st"
  by (simp add: cpu_ready_def cpu_ok_def wakes_fields pst_def [symmetric])
     (simp add: pst_def wakes_fields [unfolded pst_def])

lemma wakes_inv: "wakes st st' \<Longrightarrow> sched_inv st' \<longleftrightarrow> sched_inv st"
  by (simp add: sched_inv_def wakes_in_use wakes_space_ok wakes_cpu_ok)

text \<open>Changes that keep the fields of \<open>space_ok\<close> and the liveness of every slot.\<close>

definition same_spaces :: "'a sched \<Rightarrow> 'a sched \<Rightarrow> bool" where
  "same_spaces st st' \<longleftrightarrow> gens st' = gens st \<and>
     (\<forall>i. p_mm (procs st' i) = p_mm (procs st i) \<and> p_root (procs st' i) = p_root (procs st i) \<and>
        p_members (procs st' i) = p_members (procs st i) \<and> p_leader (procs st' i) = p_leader (procs st i) \<and>
        p_pid (procs st' i) = p_pid (procs st i) \<and>
        (pst st' i = Zombie \<longleftrightarrow> pst st i = Zombie) \<and> (pst st' i = Unused \<longleftrightarrow> pst st i = Unused))"

lemma same_spaces_ok: "same_spaces st st' \<Longrightarrow> space_ok U st' \<longleftrightarrow> space_ok U st"
  by (simp add: space_ok_def held_slot_def users_def same_spaces_def)

lemma same_spaces_in_use: "same_spaces st st' \<Longrightarrow> in_use st' = in_use st"
  by (simp add: in_use_def alive_def same_spaces_def)

lemma same_spaces_trans [trans]: "same_spaces a b \<Longrightarrow> same_spaces b c \<Longrightarrow> same_spaces a c"
  by (simp add: same_spaces_def)

lemma wakes_same_spaces: "wakes st st' \<Longrightarrow> same_spaces st st'"
  by (simp add: same_spaces_def wakes_fields)

lemma same_spaces_upd:
  "\<lbrakk>p_mm (f (procs st i)) = p_mm (procs st i); p_root (f (procs st i)) = p_root (procs st i);
    p_members (f (procs st i)) = p_members (procs st i); p_leader (f (procs st i)) = p_leader (procs st i);
    p_pid (f (procs st i)) = p_pid (procs st i);
    p_state (f (procs st i)) = Zombie \<longleftrightarrow> p_state (procs st i) = Zombie;
    p_state (f (procs st i)) = Unused \<longleftrightarrow> p_state (procs st i) = Unused\<rbrakk>
   \<Longrightarrow> same_spaces st (upd i f st)"
  by (auto simp: same_spaces_def pst_def)

section \<open>Dispatch\<close>

lemma find_SomeD: "List.find P xs = Some x \<Longrightarrow> x \<in> set xs \<and> P x"
  by (auto simp: find_Some_iff in_set_conv_nth)

lemma pick_SomeD: "pick st = Some i \<Longrightarrow> i < MAX_PROCS \<and> pst st i = Ready"
  unfolding pick_def by (auto dest!: find_SomeD simp: MAX_PROCS_def)

lemma switch_fp_wakes: "wakes st (switch_fp c prev chosen st)"
proof -
  have "gentle p (p\<lparr>p_ctx := a, p_fp := b\<rparr>)" "gentle p (p\<lparr>p_ctx := a\<rparr>)" for p a b
    by (simp_all add: gentle_def)
  then show ?thesis
    by (auto simp: switch_fp_def Let_def wakes_def fp_take_dirty_def split: option.splits)
qed

definition pre_load :: "'a services \<Rightarrow> nat \<Rightarrow> 'a sched \<Rightarrow> 'a sched" where
  "pre_load sv c st =
     (let st = wake_sleepers c (clock st) (account sv c (clock st) st); chosen = pick st in
      switch_fp c (current st c) chosen
        (case chosen of None \<Rightarrow> st | Some i \<Rightarrow> st\<lparr>rr_next := (i + 1) mod MAX_PROCS\<rparr>))"

definition chosen_by :: "'a services \<Rightarrow> nat \<Rightarrow> 'a sched \<Rightarrow> nat option" where
  "chosen_by sv c st = pick (wake_sleepers c (clock st) (account sv c (clock st) st))"

lemma dispatch_eq:
  "dispatch sv c st = program_timer sv c (clock st) (load sv c (chosen_by sv c st) (pre_load sv c st))"
  by (simp add: dispatch_def pre_load_def chosen_by_def Let_def)

lemma pre_load_wakes: "wakes st (pre_load sv c st)"
proof -
  let ?a = "wake_sleepers c (clock st) (account sv c (clock st) st)"
  have "wakes st ?a" by (rule wakes_trans [OF wakes_account wakes_sleepers])
  also have "wakes ?a (case pick ?a of None \<Rightarrow> ?a | Some i \<Rightarrow> ?a\<lparr>rr_next := (i + 1) mod MAX_PROCS\<rparr>)"
    by (auto split: option.split intro: wakes_same)
  finally show ?thesis
    unfolding pre_load_def Let_def by (rule wakes_trans) (rule switch_fp_wakes)
qed

lemma switch_fp_state [simp]: "pst (switch_fp c prev chosen st) i = pst st i"
  by (auto simp: switch_fp_def Let_def fp_take_dirty_def pst_def split: option.splits)

lemma chosen_ready:
  "chosen_by sv c st = Some i \<Longrightarrow> i < MAX_PROCS \<and> pst (pre_load sv c st) i = Ready"
  by (auto simp: chosen_by_def pre_load_def Let_def pst_def [symmetric] dest!: pick_SomeD split: option.split)
     (simp add: pst_def)

lemma load_space: "(case chosen of None \<Rightarrow> True | Some i \<Rightarrow> pst st i = Ready) \<Longrightarrow> same_spaces st (load sv c chosen st)"
  by (auto simp: load_def same_spaces_def Let_def pst_def split: option.splits)

lemma load_cpu:
  assumes "cpu_ready c st" and "\<And>i. chosen = Some i \<Longrightarrow> i < MAX_PROCS \<and> pst st i = Ready"
  shows "cpu_ok {} (load sv c chosen st)"
proof (cases chosen)
  case None
  then show ?thesis using assms(1) by (auto simp: load_def cpu_ready_def cpu_ok_def pst_def split: if_splits)
next
  case (Some i)
  have r: "i < MAX_PROCS" "p_state (procs st i) = Ready" using assms(2) Some by (auto simp: pst_def)
  have ready: "current st d = Some j \<Longrightarrow> d \<noteq> c \<Longrightarrow> j < MAX_PROCS \<and> p_state (procs st j) = Running \<and> p_cpu (procs st j) = d"
    "j < MAX_PROCS \<Longrightarrow> p_state (procs st j) = Running \<Longrightarrow>
       p_cpu (procs st j) \<noteq> c \<and> current st (p_cpu (procs st j)) = Some j" for d j
    using assms(1) by (auto simp: cpu_ready_def cpu_ok_def pst_def split: if_splits)
  show ?thesis
    using r ready by (auto simp: Some load_def cpu_ok_def pst_def Let_def)
qed

text \<open>The one fact the rest needs of the scheduler.\<close>

lemma dispatch_inv:
  assumes "cpu_ready c st"
  shows "cpu_ok {} (dispatch sv c st) \<and> same_spaces st (dispatch sv c st)"
proof -
  have ready: "i < MAX_PROCS \<and> pst (pre_load sv c st) i = Ready" if "chosen_by sv c st = Some i" for i
    using chosen_ready [OF that] .
  let ?l = "load sv c (chosen_by sv c st) (pre_load sv c st)"
  have "cpu_ready c (pre_load sv c st)" using assms wakes_cpu_ready [OF pre_load_wakes] by blast
  then have "cpu_ok {} ?l" using ready by (rule load_cpu)
  moreover have "same_spaces st ?l"
    using wakes_same_spaces [OF pre_load_wakes] by (rule same_spaces_trans) (rule load_space, use ready in \<open>auto split: option.split\<close>)
  ultimately show ?thesis
    unfolding dispatch_eq
    using wakes_cpu_ok [OF wakes_program_timer] wakes_same_spaces [OF wakes_program_timer] same_spaces_trans by blast
qed

lemma space_dispatch:
  assumes "space_ok (in_use st) st" "cpu_ready c st"
  shows "sched_inv (dispatch sv c st)"
  using assms dispatch_inv [OF assms(2), of sv]
  unfolding sched_inv_def by (metis same_spaces_in_use same_spaces_ok)

section \<open>Sleeping\<close>

lemma upd_current_ready:
  assumes "cpu_ok {} st" "current st c = Some s" "p_state (f (procs st s)) \<noteq> Running"
    "p_cpu (f (procs st s)) = p_cpu (procs st s)"
  shows "cpu_ready c (upd s f st)"
proof -
  have cur: "current st d = Some i \<Longrightarrow> i < MAX_PROCS \<and> p_state (procs st i) = Running \<and> p_cpu (procs st i) = d"
    and run: "i < MAX_PROCS \<Longrightarrow> p_state (procs st i) = Running \<Longrightarrow> current st (p_cpu (procs st i)) = Some i"
    for d i using assms(1) by (auto simp: cpu_ok_def pst_def)
  show ?thesis
    unfolding cpu_ready_def cpu_ok_def
  proof (intro conjI allI impI)
    fix d i assume "current ((upd s f st)\<lparr>current := (current (upd s f st))(c := None)\<rparr>) d = Some i"
    then have d: "d \<noteq> c" "current st d = Some i" by (auto split: if_splits)
    then have "i \<noteq> s" using cur [OF d(2)] cur [OF assms(2)] by auto
    then show "i < MAX_PROCS" "pst ((upd s f st)\<lparr>current := (current (upd s f st))(c := None)\<rparr>) i = Running"
      "p_cpu (procs ((upd s f st)\<lparr>current := (current (upd s f st))(c := None)\<rparr>) i) = d"
      using cur [OF d(2)] by (auto simp: pst_def)
  next
    fix i assume i: "i < MAX_PROCS" "pst ((upd s f st)\<lparr>current := (current (upd s f st))(c := None)\<rparr>) i = Running"
    then have n: "i \<noteq> s" "p_state (procs st i) = Running" using assms(3) by (auto simp: pst_def split: if_splits)
    then have "current st (p_cpu (procs st i)) = Some i" using run i(1) by blast
    moreover have "p_cpu (procs st i) \<noteq> c" using calculation assms(2) n(1) by auto
    ultimately show "current ((upd s f st)\<lparr>current := (current (upd s f st))(c := None)\<rparr>)
        (p_cpu (procs ((upd s f st)\<lparr>current := (current (upd s f st))(c := None)\<rparr>) i)) = Some i"
      using n(1) by simp
  qed simp_all
qed

lemma save_current_wakes [gently]: "wakes st (save_current c st)"
proof -
  have "gentle p (p\<lparr>p_ctx := cx\<rparr>)" for p cx by (simp add: gentle_def)
  then show ?thesis by (auto simp: save_current_def split: option.split intro: wakes_upd)
qed

lemma block_inv:
  assumes "space_ok (in_use st) st" "cpu_ready c st"
  shows "sched_inv (block_current sv c st)"
  unfolding block_current_def
  using assms space_dispatch wakes_in_use [OF save_current_wakes] wakes_space_ok [OF save_current_wakes]
    wakes_cpu_ready [OF save_current_wakes] by metis

text \<open>A process puts itself to sleep, in any state it can be woken from.\<close>

definition falls_asleep :: "(process \<Rightarrow> process) \<Rightarrow> bool" where
  "falls_asleep f \<longleftrightarrow> (\<forall>p. p_state (f p) \<notin> {Unused, Zombie, Running} \<and>
     p_mm (f p) = p_mm p \<and> p_root (f p) = p_root p \<and> p_members (f p) = p_members p \<and>
     p_leader (f p) = p_leader p \<and> p_pid (f p) = p_pid p \<and> p_cpu (f p) = p_cpu p)"

lemma falls_asleep_ready:
  assumes "sched_inv st" "current st c = Some s" "falls_asleep f"
  shows "space_ok (in_use (upd s f st)) (upd s f st) \<and> cpu_ready c (upd s f st)"
proof -
  have run: "p_state (procs st s) = Running"
    using assms(1,2) by (simp add: sched_inv_def cpu_ok_def pst_def)
  have f: "p_state (f (procs st s)) \<notin> {Unused, Zombie, Running}" "p_cpu (f (procs st s)) = p_cpu (procs st s)"
    using assms(3) by (auto simp: falls_asleep_def)
  have "same_spaces st (upd s f st)"
    using assms(3) run f by (intro same_spaces_upd) (auto simp: falls_asleep_def)
  then have "space_ok (in_use (upd s f st)) (upd s f st)"
    using assms(1) same_spaces_in_use same_spaces_ok unfolding sched_inv_def by metis
  moreover have "cpu_ready c (upd s f st)"
    using assms(1,2) f by (intro upd_current_ready) (auto simp: sched_inv_def)
  ultimately show ?thesis by simp
qed

lemma sleep_as_inv:
  assumes "sched_inv st" "falls_asleep f"
  shows "sched_inv (sleep_as sv c f st)"
proof (cases "current st c")
  case (Some s)
  from falls_asleep_ready [OF assms(1) Some assms(2)] Some show ?thesis
    by (simp add: sleep_as_def block_inv)
qed (simp add: sleep_as_def assms(1))

lemma cpu_ready_idle: "cpu_ok {} st \<Longrightarrow> current st c = None \<Longrightarrow> cpu_ready c st"
  by (simp add: cpu_ready_def fun_upd_idem)

lemma schedule_inv:
  assumes "sched_inv st"
  shows "sched_inv (schedule sv c st)"
proof -
  let ?a = "save_current c st"
  have a: "sched_inv ?a" using assms wakes_inv [OF save_current_wakes] by blast
  have cur: "current ?a = current st" by (rule wakes_fields(11) [OF save_current_wakes])
  show ?thesis
  proof (cases "current st c")
    case None
    then have "sched_inv (dispatch sv c ?a)"
      using a cur by (intro space_dispatch cpu_ready_idle) (auto simp: sched_inv_def)
    then show ?thesis using None cur by (simp add: schedule_def)
  next
    case (Some s)
    then have run: "pst ?a s = Running" using a cur by (auto simp: sched_inv_def cpu_ok_def)
    have "falls_asleep (\<lambda>p. p\<lparr>p_state := Ready\<rparr>)" by (simp add: falls_asleep_def)
    from falls_asleep_ready [OF a _ this, of c s] Some cur
    have "sched_inv (dispatch sv c (upd s (\<lambda>p. p\<lparr>p_state := Ready\<rparr>) ?a))" by (intro space_dispatch) auto
    then show ?thesis using Some cur run by (simp add: schedule_def)
  qed
qed

section \<open>Leaving a space\<close>

lemma free_mm_simps [simp]:
  "procs (free_mm sv m st) = (procs st)(m := (procs st m)\<lparr>p_root := 0\<rparr>)" "gens (free_mm sv m st) = gens st"
  "current (free_mm sv m st) = current st" "online (free_mm sv m st) = online st"
  "pst (free_mm sv m st) i = pst st i" "frame (free_mm sv m st) = frame st"
  "fpu (free_mm sv m st) = fpu st" "exits (free_mm sv m st) = exits st"
  by (simp_all add: free_mm_def Let_def pst_def)

lemma live_spaceD:
  assumes "space_ok U st"
  shows "U \<subseteq> {..<MAX_PROCS}"
    and "i \<in> U \<Longrightarrow> held_slot U st (p_mm (procs st i))"
    and "i \<in> U \<Longrightarrow> p_mm (procs st (p_mm (procs st i))) = p_mm (procs st i)"
    and "i \<in> U \<Longrightarrow> p_root (procs st i) = p_root (procs st (p_mm (procs st i))) \<and> p_root (procs st i) \<noteq> 0"
    and "i \<in> U \<Longrightarrow> p_leader (procs st i) < MAX_PROCS"
    and "i < MAX_PROCS \<Longrightarrow> pst st i = Zombie \<Longrightarrow> i \<notin> U \<and> p_mm (procs st i) = i \<and> users U st i \<noteq> {}"
    and "held_slot U st m \<Longrightarrow> p_mm (procs st m) = m \<Longrightarrow> p_members (procs st m) = card (users U st m)"
    and "held_slot U st i \<Longrightarrow> p_pid (procs st i) mod MAX_PROCS = i \<and> p_pid (procs st i) div MAX_PROCS < gens st i"
  using assms unfolding space_ok_def by blast+

lemma finite_users: "space_ok U st \<Longrightarrow> finite (users U st m)"
  by (auto simp: space_ok_def users_def intro: finite_subset)

lemma no_users_of_nonowner:
  "space_ok U st \<Longrightarrow> p_mm (procs st s) \<noteq> s \<Longrightarrow> i \<in> U \<Longrightarrow> p_mm (procs st i) \<noteq> s"
  using live_spaceD(3) by metis

text \<open>The slot \<open>s\<close> leaves the space of \<open>m\<close>: what the table looks like after \<open>drop_mm\<close>.\<close>

lemma drop_mm_cases:
  assumes "space_ok U st" "s \<in> U"
  defines "m \<equiv> p_mm (procs st s)"
  defines "n \<equiv> card (users (U - {s}) st m)"
  shows "m = s \<Longrightarrow> 0 < n \<Longrightarrow> drop_mm sv s st = (True, upd s (\<lambda>p. p\<lparr>p_members := n\<rparr>) st)"
    and "m = s \<Longrightarrow> n = 0 \<Longrightarrow> drop_mm sv s st = (False, free_mm sv s (upd s (\<lambda>p. p\<lparr>p_members := n\<rparr>) st))"
    and "m \<noteq> s \<Longrightarrow> \<not> (pst st m = Zombie \<and> n = 0) \<Longrightarrow>
      drop_mm sv s st = (False, upd s (\<lambda>p. p\<lparr>p_root := 0, p_mm := s\<rparr>) (upd m (\<lambda>p. p\<lparr>p_members := n\<rparr>) st))"
    and "m \<noteq> s \<Longrightarrow> pst st m = Zombie \<Longrightarrow> n = 0 \<Longrightarrow>
      drop_mm sv s st = (False, upd m (\<lambda>p. p\<lparr>p_state := Unused\<rparr>)
        (free_mm sv m (upd s (\<lambda>p. p\<lparr>p_root := 0, p_mm := s\<rparr>) (upd m (\<lambda>p. p\<lparr>p_members := n\<rparr>) st))))"
proof -
  have "held_slot U st m" "p_mm (procs st m) = m"
    using live_spaceD(2,3) [OF assms(1,2)] by (auto simp: m_def)
  then have "p_members (procs st m) = card (users U st m)" using live_spaceD(7) [OF assms(1)] by blast
  moreover have "users U st m = insert s (users (U - {s}) st m)" "s \<notin> users (U - {s}) st m"
    using assms(2) by (auto simp: users_def m_def)
  moreover have "finite (users (U - {s}) st m)"
    using finite_users [OF assms(1), of m] by (auto simp: users_def intro: rev_finite_subset)
  ultimately have mem: "p_members (procs st m) = Suc n" by (simp add: n_def)
  have up: "upd m (\<lambda>p. p\<lparr>p_members := p_members p - 1\<rparr>) st = upd m (\<lambda>p. p\<lparr>p_members := n\<rparr>) st"
    using mem by (simp add: upd_def)
  have d: "drop_mm sv s st =
     (let st = upd m (\<lambda>p. p\<lparr>p_members := n\<rparr>) st in
      if m = s then
           if p_members (procs st s) > 0 then (True, st) else (False, free_mm sv s st)
         else
           let st = upd s (\<lambda>p. p\<lparr>p_root := 0, p_mm := s\<rparr>) st in
           if pst st m = Zombie \<and> p_members (procs st m) = 0
           then (False, upd m (\<lambda>p. p\<lparr>p_state := Unused\<rparr>) (free_mm sv m st))
           else (False, st))"
    unfolding drop_mm_def m_def [symmetric] using mem up by (simp add: Let_def)
  show "m = s \<Longrightarrow> 0 < n \<Longrightarrow> drop_mm sv s st = (True, upd s (\<lambda>p. p\<lparr>p_members := n\<rparr>) st)"
    and "m = s \<Longrightarrow> n = 0 \<Longrightarrow> drop_mm sv s st = (False, free_mm sv s (upd s (\<lambda>p. p\<lparr>p_members := n\<rparr>) st))"
    unfolding d by (simp_all add: Let_def)
  show "m \<noteq> s \<Longrightarrow> \<not> (pst st m = Zombie \<and> n = 0) \<Longrightarrow>
      drop_mm sv s st = (False, upd s (\<lambda>p. p\<lparr>p_root := 0, p_mm := s\<rparr>) (upd m (\<lambda>p. p\<lparr>p_members := n\<rparr>) st))"
    and "m \<noteq> s \<Longrightarrow> pst st m = Zombie \<Longrightarrow> n = 0 \<Longrightarrow>
      drop_mm sv s st = (False, upd m (\<lambda>p. p\<lparr>p_state := Unused\<rparr>)
        (free_mm sv m (upd s (\<lambda>p. p\<lparr>p_root := 0, p_mm := s\<rparr>) (upd m (\<lambda>p. p\<lparr>p_members := n\<rparr>) st))))"
    unfolding d by (auto simp: Let_def pst_def)
qed

lemma leave_space:
  assumes ok: "space_ok U st" and s: "s \<in> U"
    and m: "m = p_mm (procs st s)" and n: "n = card (users (U - {s}) st m)"
    and gens: "gens st' = gens st"
    and others: "\<And>i. i \<noteq> s \<Longrightarrow> i \<noteq> m \<Longrightarrow> procs st' i = procs st i"
    and mm: "\<And>i. i \<noteq> s \<Longrightarrow> p_mm (procs st' i) = p_mm (procs st i)" "m = s \<Longrightarrow> p_mm (procs st' s) = s"
    and pid: "\<And>i. p_pid (procs st' i) = p_pid (procs st i)"
    and leader: "\<And>i. i \<noteq> s \<Longrightarrow> p_leader (procs st' i) = p_leader (procs st i)"
    and mem: "p_members (procs st' m) = n"
    and root: "0 < n \<Longrightarrow> p_root (procs st' m) = p_root (procs st m)"
    and zs: "pst st' s = Zombie \<longleftrightarrow> m = s \<and> 0 < n"
    and zm: "m \<noteq> s \<Longrightarrow> pst st' m = Zombie \<longleftrightarrow> pst st m = Zombie \<and> 0 < n"
  shows "space_ok (U - {s}) st'"
proof -
  note D = live_spaceD [OF ok]
  have users: "users (U - {s}) st' k = users (U - {s}) st k" for k by (auto simp: users_def mm)
  have fin: "finite (users (U - {s}) st k)" for k
    using finite_users [OF ok, of k] by (auto simp: users_def intro: rev_finite_subset)
  have pos: "0 < n \<longleftrightarrow> users (U - {s}) st m \<noteq> {}" using fin by (auto simp: n card_gt_0_iff)
  have m_user: "0 < n" if "i \<in> U - {s}" "p_mm (procs st i) = m" for i
    using that pos by (auto simp: users_def)
  have m_held: "held_slot U st m" "p_mm (procs st m) = m" using D(2,3) [OF s] by (auto simp: m)
  have sz: "pst st s \<noteq> Zombie" using D(1,6) s by blast
  have others_users: "users (U - {s}) st k = users U st k" if "k \<noteq> m" for k
    using that by (auto simp: users_def m)
  have not_s: "p_mm (procs st i) \<noteq> s" if "i \<in> U - {s}" "m \<noteq> s" for i
    using no_users_of_nonowner [OF ok, of s i] that by (auto simp: m)
  have held: "held_slot (U - {s}) st' k \<Longrightarrow> held_slot U st k" for k
    using zs zm s others sz by (cases "k = s \<or> k = m") (auto simp: held_slot_def pst_def)
  have held': "held_slot (U - {s}) st' (p_mm (procs st i))" if "i \<in> U - {s}" for i
  proof -
    have h: "held_slot U st (p_mm (procs st i))" using D(2) that by blast
    show ?thesis
    proof (cases "p_mm (procs st i) = m")
      case True
      then have "0 < n" using m_user that by blast
      then show ?thesis
        using h zs zm True D(1) s by (cases "m = s") (auto simp: held_slot_def)
    next
      case False
      moreover have "p_mm (procs st i) \<noteq> s" using not_s [OF that] False by auto
      ultimately show ?thesis using h others by (auto simp: held_slot_def pst_def)
    qed
  qed
  show ?thesis
    unfolding space_ok_def
  proof (intro conjI ballI allI impI)
    show "U - {s} \<subseteq> {..<MAX_PROCS}" using D(1) by blast
  next
    fix i assume i: "i \<in> U - {s}"
    then have iU: "i \<in> U" "i \<noteq> s" by auto
    let ?k = "p_mm (procs st i)"
    have e: "p_mm (procs st' i) = ?k" using mm iU by simp
    show "held_slot (U - {s}) st' (p_mm (procs st' i))" using held' [OF i] by (simp add: e)
    have ks: "?k = s \<Longrightarrow> m = s" using not_s [OF i] by blast
    show "p_mm (procs st' (p_mm (procs st' i))) = p_mm (procs st' i)"
      using D(3) [OF iU(1)] mm ks by (cases "?k = s") (auto simp: e)
    have rt: "p_root (procs st' j) = p_root (procs st j)" if "j = i \<or> j = ?k" for j
    proof (cases "j = m")
      case True
      have "0 < n"
      proof (cases "j = ?k")
        case False
        with that True have "i = m" by simp
        then have "p_mm (procs st i) = m" using m_held(2) by simp
        then show ?thesis using m_user i by blast
      qed (use True m_user i in auto)
      then show ?thesis using True root by simp
    next
      case False
      then have "j \<noteq> s" using that iU ks by auto
      then show ?thesis using others False by simp
    qed
    show "p_root (procs st' i) = p_root (procs st' (p_mm (procs st' i)))" "p_root (procs st' i) \<noteq> 0"
      using D(4) [OF iU(1)] rt by (auto simp: e)
    show "p_leader (procs st' i) < MAX_PROCS" using D(5) [OF iU(1)] leader iU by simp
  next
    fix i assume i: "i < MAX_PROCS" "pst st' i = Zombie"
    show "i \<notin> U - {s}" "p_mm (procs st' i) = i" "users (U - {s}) st' i \<noteq> {}"
      using i D(6) [OF i(1)] zs zm others mm pos users others_users
      by (cases "i = s"; cases "i = m"; auto simp: pst_def)+
  next
    fix k assume k: "held_slot (U - {s}) st' k \<and> p_mm (procs st' k) = k"
    then have h: "held_slot U st k" using held by blast
    have ks: "k = s \<Longrightarrow> m = s" using k zs by (auto simp: held_slot_def)
    show "p_members (procs st' k) = card (users (U - {s}) st' k)"
    proof (cases "k = m")
      case True
      then show ?thesis using mem n users by simp
    next
      case False
      then have "k \<noteq> s" using ks by auto
      then have "p_mm (procs st k) = k" using k mm by simp
      then show ?thesis
        using D(7) [OF h] others [OF \<open>k \<noteq> s\<close> False] users others_users [OF False] by simp
    qed
  next
    fix k assume "held_slot (U - {s}) st' k"
    then have "held_slot U st k" by (rule held)
    from D(8) [OF this] show "p_pid (procs st' k) mod MAX_PROCS = k" "p_pid (procs st' k) div MAX_PROCS < gens st' k"
      using pid gens by simp_all
  qed
qed

lemma users_minus: "users (U - {s}) st m = users U st m - {s}"
  by (auto simp: users_def)

text \<open>\<open>release\<close> of a slot that is being reaped (its state is \<open>Unused\<close> already).\<close>

lemma release_space:
  assumes "space_ok U st" "s \<in> U" "pst st s = Unused"
  shows "space_ok (U - {s}) (release sv s st)"
proof -
  let ?m = "p_mm (procs st s)" let ?n = "card (users (U - {s}) st ?m)"
  note C = drop_mm_cases [OF assms(1,2), of sv]
  consider "?m = s" "0 < ?n" | "?m = s" "?n = 0" | "?m \<noteq> s" "\<not> (pst st ?m = Zombie \<and> ?n = 0)"
    | "?m \<noteq> s" "pst st ?m = Zombie" "?n = 0" by blast
  then show ?thesis
  proof cases
    case 1
    show ?thesis
      using 1 C(1) assms(3)
      by (intro leave_space [OF assms(1,2) refl refl]) (simp_all add: release_def pst_def)
  next
    case 2
    show ?thesis
      using 2 C(2) assms(3)
      by (intro leave_space [OF assms(1,2) refl refl]) (simp_all add: release_def pst_def)
  next
    case 3
    show ?thesis
      using 3 C(3) assms(3)
      by (intro leave_space [OF assms(1,2) refl refl]) (auto simp add: release_def pst_def)
  next
    case 4
    show ?thesis
      using 4 C(4) assms(3)
      by (intro leave_space [OF assms(1,2) refl refl]) (auto simp add: release_def pst_def)
  qed
qed

lemma drop_mm_space:
  assumes "space_ok U st" "s \<in> U" "\<not> (p_mm (procs st s) = s \<and> 1 < p_members (procs st s))"
  shows "space_ok (U - {s}) (snd (drop_mm sv s st))"
proof -
  let ?m = "p_mm (procs st s)" let ?n = "card (users (U - {s}) st ?m)"
  note C = drop_mm_cases [OF assms(1,2), of sv]
  have sz: "pst st s \<noteq> Zombie" using live_spaceD(1,6) [OF assms(1)] assms(2) by blast
  have n0: "?m = s \<longrightarrow> ?n = 0"
  proof
    assume that: "?m = s"
    show "?n = 0"
  proof -
    have "p_members (procs st s) = card (users U st s)"
      using live_spaceD(2,7) [OF assms(1)] assms(2) that by metis
    moreover have "s \<in> users U st s" using assms(2) that by (simp add: users_def)
    moreover have "Suc (card (users U st s - {s})) = card (users U st s)"
      by (rule card_Suc_Diff1) (rule finite_users [OF assms(1)], rule calculation(2))
    ultimately have "p_members (procs st s) = Suc (card (users U st s - {s}))" by linarith
    then show ?thesis using assms(3) that by (simp add: users_minus)
  qed
  qed
  from n0 consider "?m = s" "?n = 0" | "?m \<noteq> s" "\<not> (pst st ?m = Zombie \<and> ?n = 0)"
    | "?m \<noteq> s" "pst st ?m = Zombie" "?n = 0" by argo
  then show ?thesis
  proof cases
    case 1
    show ?thesis
      using 1 C(2) sz
      by (intro leave_space [OF assms(1,2) refl refl]) (simp_all add: pst_def)
  next
    case 2
    show ?thesis
      using 2 C(3) sz
      by (intro leave_space [OF assms(1,2) refl refl]) (auto simp add: pst_def)
  next
    case 3
    show ?thesis
      using 3 C(4) sz
      by (intro leave_space [OF assms(1,2) refl refl]) (auto simp add: pst_def)
  qed
qed

text \<open>Leaving a space changes the state of a zombie at most.\<close>

lemma drop_mm_keeps:
  "current (snd (drop_mm sv s st)) = current st" "gens (snd (drop_mm sv s st)) = gens st"
  "p_cpu (procs (snd (drop_mm sv s st)) i) = p_cpu (procs st i)"
  "p_leader (procs (snd (drop_mm sv s st)) i) = p_leader (procs st i)"
  "p_pid (procs (snd (drop_mm sv s st)) i) = p_pid (procs st i)"
  "pst (snd (drop_mm sv s st)) i = pst st i \<or> (pst st i = Zombie \<and> pst (snd (drop_mm sv s st)) i = Unused)"
  by (auto simp: drop_mm_def Let_def pst_def)

lemma release_keeps:
  assumes "pst st s = Unused"
  shows "current (release sv s st) = current st"
    and "p_cpu (procs (release sv s st) i) = p_cpu (procs st i)"
    and "p_leader (procs (release sv s st) i) = p_leader (procs st i)"
    and "pst (release sv s st) i = Running \<longleftrightarrow> pst st i = Running"
    and "alive (release sv s st) i \<longleftrightarrow> alive st i"
  using assms drop_mm_keeps(3-6) [of sv s st i] drop_mm_keeps(1) [of sv s st]
  by (auto simp: release_def alive_def split: prod.splits)

lemma release_cpu: "pst st s = Unused \<Longrightarrow> cpu_ok X (release sv s st) \<longleftrightarrow> cpu_ok X st"
  by (simp add: cpu_ok_def release_keeps)

lemma release_in_use: "pst st s = Unused \<Longrightarrow> in_use (release sv s st) = in_use st"
  by (simp add: in_use_def release_keeps)

section \<open>Reaping\<close>

lemma space_ok_cong:
  assumes "gens st' = gens st" "\<And>i. p_mm (procs st' i) = p_mm (procs st i)"
    "\<And>i. p_root (procs st' i) = p_root (procs st i)" "\<And>i. p_members (procs st' i) = p_members (procs st i)"
    "\<And>i. p_leader (procs st' i) = p_leader (procs st i)" "\<And>i. p_pid (procs st' i) = p_pid (procs st i)"
    "\<And>i. pst st' i = Zombie \<longleftrightarrow> pst st i = Zombie"
  shows "space_ok U st' \<longleftrightarrow> space_ok U st"
  by (simp add: space_ok_def held_slot_def users_def assms)

text \<open>Slots \<open>P\<close> are being reaped: dead to everyone else, but their spaces are not left yet.\<close>

definition dying :: "nat set \<Rightarrow> 'a sched \<Rightarrow> bool" where
  "dying P st \<longleftrightarrow> space_ok (in_use st \<union> P) st \<and> cpu_ok {} st \<and> (\<forall>i \<in> P. pst st i = Unused)"

lemma wakes_dying: "wakes st st' \<Longrightarrow> dying P st' \<longleftrightarrow> dying P st"
  by (simp add: dying_def wakes_in_use wakes_space_ok wakes_cpu_ok wakes_fields(9))

lemma dying_empty: "dying {} st \<longleftrightarrow> sched_inv st"
  by (simp add: dying_def sched_inv_def)

lemma kill_slot:
  fixes st :: "'a sched"
  defines "f \<equiv> (\<lambda>p. p\<lparr>p_killed := False, p_state := Unused\<rparr>)"
  assumes "space_ok (in_use st \<union> P) st" "cpu_ok {s} st" "\<forall>i \<in> P. pst st i = Unused" "s \<in> in_use st"
  shows "dying (insert s P) (upd s f st)" "in_use (upd s f st) = in_use st - {s}"
proof -
  have al: "alive st s" using assms(5) by (simp add: in_use_def)
  show iu: "in_use (upd s f st) = in_use st - {s}"
    by (auto simp: in_use_def alive_def f_def)
  then have U: "in_use (upd s f st) \<union> insert s P = in_use st \<union> P" using assms(5) by blast
  have z: "pst (upd s f st) i = Zombie \<longleftrightarrow> pst st i = Zombie" for i using al by (auto simp: f_def alive_def)
  have "space_ok (in_use st \<union> P) (upd s f st)"
    using space_ok_cong [of "upd s f st" st] assms(2) z by (auto simp: f_def)
  moreover have "cpu_ok {} (upd s f st)"
    using assms(3) by (auto simp: cpu_ok_def f_def pst_def)
  ultimately show "dying (insert s P) (upd s f st)"
    unfolding dying_def U using assms(4) by (auto simp: f_def)
qed

lemma reap_start_dying:
  assumes "space_ok (in_use st \<union> P) st" "cpu_ok {s} st" "\<forall>i \<in> P. pst st i = Unused" "s \<in> in_use st"
  shows "dying (insert s P) (reap_start sv me s st) \<and> in_use (reap_start sv me s st) = in_use st - {s} \<and>
    current (reap_start sv me s st) = current st \<and>
    (\<forall>i. p_leader (procs (reap_start sv me s st) i) = p_leader (procs st i))"
  using kill_slot [OF assms]
  by (simp add: wakes_dying [OF reap_start_wakes] wakes_in_use [OF reap_start_wakes]
    wakes_fields(4,11) [OF reap_start_wakes])

lemma release_dying:
  assumes "dying (insert s P) st" "s \<notin> P"
  shows "dying P (release sv s st)"
proof -
  have u: "pst st s = Unused" using assms(1) by (simp add: dying_def)
  then have ns: "s \<notin> in_use st" by (simp add: in_use_def alive_def)
  have "space_ok (in_use st \<union> insert s P - {s}) (release sv s st)"
    using assms(1) u by (intro release_space) (auto simp: dying_def)
  moreover have "in_use st \<union> insert s P - {s} = in_use st \<union> P" using ns assms(2) by blast
  moreover have "pst (release sv s st) i = Unused" if "i \<in> P" for i
    using that assms drop_mm_keeps(6) [of sv s st i]
    by (auto simp: dying_def release_def split: prod.splits)
  ultimately show ?thesis
    using assms(1) u by (auto simp: dying_def release_cpu release_in_use)
qed

text \<open>A sleeping slot is not current anywhere.\<close>

lemma asleep_cpu_ok: "cpu_ok {} st \<Longrightarrow> pst st s \<noteq> Running \<Longrightarrow> cpu_ok {s} st"
  by (auto simp: cpu_ok_def)

lemma reap_thread_dying:
  assumes "dying P st" "s \<in> in_use st" "pst st s \<noteq> Running" "p_leader (procs st s) \<noteq> s"
  shows "dying P (reap sv me s st) \<and> in_use (reap sv me s st) = in_use st - {s} \<and>
    current (reap sv me s st) = current st \<and>
    (\<forall>i. p_leader (procs (reap sv me s st) i) = p_leader (procs st i))"
proof -
  have sP: "s \<notin> P" using assms(1,2) by (auto simp: dying_def in_use_def alive_def)
  let ?a = "reap_start sv me s st"
  have a: "dying (insert s P) ?a" "in_use ?a = in_use st - {s}" "current ?a = current st"
    "\<And>i. p_leader (procs ?a i) = p_leader (procs st i)"
    using reap_start_dying [of st P s sv me] assms asleep_cpu_ok [of st s] by (auto simp: dying_def)
  have u: "pst ?a s = Unused" using a(1) by (simp add: dying_def)
  have r: "reap sv me s st = kick_idle_cpu me (release sv s ?a)"
    using assms(4) by (simp add: reap.simps [of sv me s st] Let_def)
  show ?thesis
    unfolding r using release_dying [OF a(1) sP, of sv] a u
    by (simp add: wakes_dying [OF wakes_kick1] wakes_in_use [OF wakes_kick1] release_in_use release_keeps)
qed

lemma mark_killed_wakes [gently]: "wakes st (mark_killed i st)"
  by (auto simp: mark_killed_def wakes_def gentle_def)

text \<open>The loop over the threads of \<open>s\<close> in \<open>reap\<close> and \<open>exec_replace\<close>; with \<open>s\<close> dying or not.\<close>

lemma threads_dying:
  fixes sv :: "'a services" and me s :: nat and st :: "'a sched"
  assumes "dying P st" "\<And>i. i \<in> set is \<Longrightarrow> i < MAX_PROCS"
  defines "g \<equiv> (\<lambda>i st. if i = s \<or> p_leader (procs st i) \<noteq> s then st
                    else if pst st i = Unused \<or> pst st i = Zombie then st
                    else if pst st i = Running then mark_killed i st
                    else reap sv me i st)"
  shows "dying P (fold g is st) \<and> current (fold g is st) = current st \<and>
    in_use (fold g is st) \<subseteq> in_use st \<and> (s \<in> in_use st \<longrightarrow> s \<in> in_use (fold g is st)) \<and>
    (\<forall>i. p_leader (procs (fold g is st) i) = p_leader (procs st i))"
  using assms(1,2)
proof (induction "is" arbitrary: st)
  case (Cons i js)
  have step: "dying P (g i st) \<and> current (g i st) = current st \<and> in_use (g i st) \<subseteq> in_use st \<and>
      (s \<in> in_use st \<longrightarrow> s \<in> in_use (g i st)) \<and> (\<forall>j. p_leader (procs (g i st) j) = p_leader (procs st j))"
  proof (cases "i = s \<or> p_leader (procs st i) \<noteq> s \<or> pst st i = Unused \<or> pst st i = Zombie")
    case False
    show ?thesis
    proof (cases "pst st i = Running")
      case True
      then have "g i st = mark_killed i st" using False by (simp add: g_def)
      then show ?thesis
        using Cons.prems(1)
        by (simp add: wakes_dying [OF mark_killed_wakes] wakes_in_use [OF mark_killed_wakes]
          wakes_fields(4,11) [OF mark_killed_wakes])
    next
      case run: False
      then have g: "g i st = reap sv me i st" using False by (simp add: g_def)
      have "i \<in> in_use st" using False Cons.prems(2) by (simp add: in_use_def alive_def)
      from reap_thread_dying [OF Cons.prems(1) this run] False show ?thesis unfolding g by auto
    qed
  qed (use Cons.prems(1) in \<open>auto simp: g_def\<close>)
  have "dying P (fold g js (g i st)) \<and> current (fold g js (g i st)) = current (g i st) \<and>
      in_use (fold g js (g i st)) \<subseteq> in_use (g i st) \<and>
      (s \<in> in_use (g i st) \<longrightarrow> s \<in> in_use (fold g js (g i st))) \<and>
      (\<forall>j. p_leader (procs (fold g js (g i st)) j) = p_leader (procs (g i st) j))"
    by (rule Cons.IH) (use step Cons.prems(2) in auto)
  with step show ?case by auto
qed simp

lemma reap_inv:
  assumes "space_ok (in_use st) st" "cpu_ok {s} st" "s \<in> in_use st"
  shows "sched_inv (reap sv me s st) \<and> current (reap sv me s st) = current st \<and>
    in_use (reap sv me s st) \<subseteq> in_use st - {s}"
proof -
  let ?a = "reap_start sv me s st"
  have a: "dying {s} ?a" "in_use ?a = in_use st - {s}" "current ?a = current st"
    using reap_start_dying [of st "{}" s sv me] assms by auto
  define b where "b = (if p_leader (procs st s) = s then
      fold (\<lambda>i st. if i = s \<or> p_leader (procs st i) \<noteq> s then st
                    else if pst st i = Unused \<or> pst st i = Zombie then st
                    else if pst st i = Running then mark_killed i st
                    else reap sv me i st) slots ?a else ?a)"
  have r: "reap sv me s st = kick_idle_cpu me (release sv s b)"
    by (subst reap.simps) (simp add: Let_def b_def)
  have b: "dying {s} b \<and> current b = current st \<and> in_use b \<subseteq> in_use st - {s}"
    using threads_dying [OF a(1), of slots s sv me] a by (auto simp: b_def slots_def)
  then have "pst b s = Unused" by (simp add: dying_def)
  with b release_dying [of s "{}" b sv] show ?thesis
    unfolding r
    by (simp add: dying_empty wakes_inv [OF wakes_kick1] wakes_in_use [OF wakes_kick1] release_in_use release_keeps)
qed

section \<open>Joining a space\<close>

lemma join_space:
  assumes ok: "space_ok U st" and i: "i < MAX_PROCS" "i \<notin> U" "pst st i \<noteq> Zombie"
    and others: "\<And>j. j \<noteq> i \<Longrightarrow> j \<noteq> m \<Longrightarrow> procs st' j = procs st j"
    and gens: "\<And>j. gens st j \<le> gens st' j"
    and new: "p_mm (procs st' i) = m" "p_root (procs st' i) = p_root (procs st' m)" "p_root (procs st' i) \<noteq> 0"
      "p_leader (procs st' i) < MAX_PROCS" "p_pid (procs st' i) mod MAX_PROCS = i"
      "p_pid (procs st' i) div MAX_PROCS < gens st' i" "pst st' i \<noteq> Zombie"
    and m: "m \<noteq> i \<Longrightarrow> held_slot U st m \<and> p_mm (procs st m) = m \<and>
      procs st' m = (procs st m)\<lparr>p_members := p_members (procs st m) + 1\<rparr>"
      "m = i \<Longrightarrow> p_members (procs st' i) = 1"
  shows "space_ok (insert i U) st'"
proof -
  note D = live_spaceD [OF ok]
  have ni: "\<not> held_slot U st i" using i by (simp add: held_slot_def)
  have no_i: "p_mm (procs st j) \<noteq> i" if "j \<in> U" for j using D(2) [OF that] ni by auto
  have eq: "p_mm (procs st' j) = p_mm (procs st j)" "p_root (procs st' j) = p_root (procs st j)"
    "p_leader (procs st' j) = p_leader (procs st j)" "p_pid (procs st' j) = p_pid (procs st j)"
    "pst st' j = pst st j" if "j \<noteq> i" for j
    using that others [OF that] m(1) by (cases "j = m"; auto simp: pst_def)+
  have held: "held_slot (insert i U) st' j \<longleftrightarrow> j = i \<or> held_slot U st j" for j
    using new(7) eq i by (cases "j = i") (auto simp: held_slot_def)
  have mmU: "j \<in> U \<Longrightarrow> p_mm (procs st' j) = p_mm (procs st j)" for j using eq(1) [of j] i(2) by blast
  have users: "users (insert i U) st' k = (if k = m then insert i (users U st k) else users U st k)" for k
    using new(1) mmU by (auto simp: users_def)
  have iu: "i \<notin> users U st k" for k using i(2) by (simp add: users_def)
  have card: "card (insert i (users U st k)) = Suc (card (users U st k))" for k
    using iu finite_users [OF ok] by simp
  show ?thesis
    unfolding space_ok_def
  proof (intro conjI ballI allI impI)
    show "insert i U \<subseteq> {..<MAX_PROCS}" using D(1) i(1) by auto
  next
    fix j assume j: "j \<in> insert i U"
    have mi: "p_mm (procs st' m) = m" using m(1) new(1) by (cases "m = i") auto
    show "held_slot (insert i U) st' (p_mm (procs st' j))" "p_mm (procs st' (p_mm (procs st' j))) = p_mm (procs st' j)"
      "p_root (procs st' j) = p_root (procs st' (p_mm (procs st' j)))" "p_root (procs st' j) \<noteq> 0"
      "p_leader (procs st' j) < MAX_PROCS"
      using j new m(1) mi eq no_i D(2,3,4,5) [of j] i(2)
      by (cases "j = i"; auto simp: held)+
  next
    fix j assume j: "j < MAX_PROCS" "pst st' j = Zombie"
    then have "j \<noteq> i" using new(7) by auto
    with j eq D(6) [of j] show "j \<notin> insert i U" "p_mm (procs st' j) = j" "users (insert i U) st' j \<noteq> {}"
      by (auto simp: users)
  next
    fix k assume k: "held_slot (insert i U) st' k \<and> p_mm (procs st' k) = k"
    show "p_members (procs st' k) = card (users (insert i U) st' k)"
    proof (cases "k = i")
      case True
      then have "m = i" using k new(1) by simp
      moreover have "users U st i = {}" using no_i by (auto simp: users_def)
      ultimately show ?thesis using True m(2) by (simp add: users)
    next
      case False
      then have "p_members (procs st k) = card (users U st k)"
        using D(7) [of k] k held eq by auto
      then show ?thesis
        using False m(1) others [of k] card by (cases "k = m") (auto simp: users)
    qed
  next
    fix k assume "held_slot (insert i U) st' k"
    then have "k = i \<or> held_slot U st k" by (simp add: held)
    then show "p_pid (procs st' k) mod MAX_PROCS = k" "p_pid (procs st' k) div MAX_PROCS < gens st' k"
      using new(5,6) D(8) [of k] eq gens [of k] by (cases "k = i"; force)+
  qed
qed

lemma free_slotD: "free_slot st = Some i \<Longrightarrow> i < MAX_PROCS \<and> pst st i = Unused"
  by (auto simp: free_slot_def slots_def dest!: find_SomeD)

lemma current_in_use:
  "sched_inv st \<Longrightarrow> current st c = Some s \<Longrightarrow> s \<in> in_use st \<and> pst st s = Running"
  by (auto simp: sched_inv_def cpu_ok_def in_use_def alive_def)

lemma in_use_not_free: "free_slot st = Some i \<Longrightarrow> i \<notin> in_use st"
  by (auto simp: in_use_def alive_def dest: free_slotD)

text \<open>A slot becomes a process or thread that is ready to run.\<close>

lemma join_inv:
  assumes inv: "sched_inv st" and i: "free_slot st = Some i"
    and others: "\<And>j. j \<noteq> i \<Longrightarrow> j \<noteq> m \<Longrightarrow> procs st' j = procs st j"
    and gens: "\<And>j. gens st j \<le> gens st' j" and cur: "current st' = current st"
    and new: "p_mm (procs st' i) = m" "p_root (procs st' i) = p_root (procs st' m)" "p_root (procs st' i) \<noteq> 0"
      "p_leader (procs st' i) < MAX_PROCS" "p_pid (procs st' i) mod MAX_PROCS = i"
      "p_pid (procs st' i) div MAX_PROCS < gens st' i" "pst st' i = Ready"
    and m: "m \<noteq> i \<Longrightarrow> held_slot (in_use st) st m \<and> p_mm (procs st m) = m \<and>
      procs st' m = (procs st m)\<lparr>p_members := p_members (procs st m) + 1\<rparr>"
      "m = i \<Longrightarrow> p_members (procs st' i) = 1"
  shows "sched_inv st'"
proof -
  note fs = free_slotD [OF i] in_use_not_free [OF i]
  have "space_ok (insert i (in_use st)) st'"
    using inv fs new m by (intro join_space [OF _ _ _ _ others gens]) (auto simp: sched_inv_def)
  moreover have st: "pst st' j = pst st j \<and> p_cpu (procs st' j) = p_cpu (procs st j)" if "j \<noteq> i" for j
    using that others [OF that] m(1) by (cases "j = m") (auto simp: pst_def)
  moreover have "in_use st' = insert i (in_use st)"
  proof -
    have "alive st' j \<longleftrightarrow> j = i \<or> alive st j" for j
      using st [of j] new(7) by (cases "j = i") (auto simp: alive_def)
    then show ?thesis using fs by (auto simp: in_use_def)
  qed
  moreover have "cpu_ok {} st'"
  proof -
    have c: "cpu_ok {} st" using inv by (simp add: sched_inv_def)
    have ni: "current st d \<noteq> Some i" for d using c fs by (auto simp: cpu_ok_def)
    show ?thesis
      unfolding cpu_ok_def cur
    proof (intro conjI allI impI)
      fix d j assume d: "current st d = Some j"
      then have "j \<noteq> i" using ni by blast
      then show "j \<notin> {}" "j < MAX_PROCS" "pst st' j = Running" "p_cpu (procs st' j) = d"
        using d c st by (auto simp: cpu_ok_def)
    next
      fix j assume j: "j < MAX_PROCS" "pst st' j = Running"
      then have "j \<noteq> i" using new(7) by auto
      with j st c show "current st (p_cpu (procs st' j)) = Some j" by (auto simp: cpu_ok_def)
    qed
  qed
  ultimately show ?thesis by (simp add: sched_inv_def)
qed

text \<open>The callback of \<open>create_ex\<close> and \<open>exec_replace\<close> keeps its hands off the scheduler.\<close>

definition quiet :: "(nat \<Rightarrow> 'a sched \<Rightarrow> 'a sched) \<Rightarrow> bool" where
  "quiet setup \<longleftrightarrow> (\<forall>i st. procs (setup i st) = procs st \<and> gens (setup i st) = gens st \<and>
     current (setup i st) = current st \<and> online (setup i st) = online st)"

lemma create_inv:
  assumes "sched_inv st" "quiet setup" "root \<noteq> 0"
  shows "sched_inv (snd (create_ex c entry sp root asid name abi setup st))"
proof (cases "free_slot st")
  case None
  then show ?thesis using assms(1) by (simp add: create_ex_def Let_def)
next
  case (Some i)
  note fs = free_slotD [OF Some]
  have q: "procs (setup j t) = procs t" "gens (setup j t) = gens t" "current (setup j t) = current t" for j t
    using assms(2) by (auto simp: quiet_def)
  show ?thesis
    unfolding create_ex_def Let_def Some option.case take_pid_def prod.case snd_conv
    by (rule join_inv [OF assms(1) Some, where m = i])
       (use fs assms(3) in \<open>auto simp: q pst_def MAX_PROCS_def\<close>)
qed

lemma owner_held:
  assumes "sched_inv st" "current st c = Some s"
  shows "held_slot (in_use st) st (p_mm (procs st s)) \<and>
    p_mm (procs st (p_mm (procs st s))) = p_mm (procs st s) \<and>
    p_root (procs st (p_mm (procs st s))) \<noteq> 0 \<and> p_leader (procs st s) < MAX_PROCS"
proof -
  have "s \<in> in_use st" using current_in_use [OF assms] by simp
  moreover have "space_ok (in_use st) st" using assms(1) by (simp add: sched_inv_def)
  ultimately show ?thesis using live_spaceD(2,3,4,5) by metis
qed

lemma held_not_free: "free_slot st = Some i \<Longrightarrow> held_slot (in_use st) st m \<Longrightarrow> m \<noteq> i"
  by (auto simp: held_slot_def in_use_def alive_def dest: free_slotD)

lemma thread_create_inv:
  assumes "sched_inv st"
  shows "sched_inv (snd (thread_create c entry sp av st))"
proof (cases "current st c")
  case None
  then show ?thesis using assms by (simp add: thread_create_def)
next
  case (Some s)
  note own = owner_held [OF assms Some]
  show ?thesis
  proof (cases "free_slot st")
    case None
    then show ?thesis using assms Some by (simp add: thread_create_def Let_def)
  next
    case f: (Some i)
    note fs = free_slotD [OF f] and mi = held_not_free [OF f conjunct1 [OF own]]
    show ?thesis
      unfolding thread_create_def Some Let_def option.case f take_pid_def prod.case snd_conv
      by (rule join_inv [OF assms f, where m = "p_mm (procs st s)"])
         (use fs own mi in \<open>auto simp: pst_def MAX_PROCS_def add_member_def thread_of_def\<close>)
  qed
qed

lemma clone_thread_inv:
  assumes "sched_inv st"
  shows "sched_inv (snd (clone_thread c stack tls clear_tid st))"
proof (cases "current st c")
  case None
  then show ?thesis using assms by (simp add: clone_thread_def)
next
  case (Some s)
  note own = owner_held [OF assms Some]
  show ?thesis
  proof (cases "free_slot st")
    case None
    then show ?thesis using assms Some by (simp add: clone_thread_def Let_def)
  next
    case f: (Some i)
    note fs = free_slotD [OF f] and mi = held_not_free [OF f conjunct1 [OF own]]
    show ?thesis
      unfolding clone_thread_def Some Let_def option.case f take_pid_def prod.case snd_conv
      by (rule join_inv [OF assms f, where m = "p_mm (procs st s)"])
         (use fs own mi in \<open>auto simp: pst_def MAX_PROCS_def add_member_def thread_of_def\<close>)
  qed
qed

lemma fork_inv:
  assumes "sched_inv st" "\<And>root asid. new_root = Some (root, asid) \<Longrightarrow> root \<noteq> 0"
  shows "sched_inv (snd (fork sv c new_root stack tls clear_tid st))"
proof (cases "current st c")
  case None
  then show ?thesis using assms by (simp add: fork_def)
next
  case (Some s)
  note own = owner_held [OF assms(1) Some]
  show ?thesis
  proof (cases "free_slot st")
    case None
    then show ?thesis using assms Some by (simp add: fork_def)
  next
    case f: (Some i)
    note fs = free_slotD [OF f] and mi = held_not_free [OF f conjunct1 [OF own]]
    let ?l = "p_leader (procs st s)" let ?m = "p_mm (procs st s)"
    define st1 where "st1 = st\<lparr>gens := (gens st)(i := gens st i + 1)\<rparr>"
    define ch where "ch = fork_child st1 c s i (i + MAX_PROCS * gens st i) new_root stack tls clear_tid"
    define st2 where "st2 = upd i (\<lambda>_. ch) (if new_root = None then add_member ?m st1 else st1)"
    define st3 where "st3 = (let st = st2\<lparr>actions := copy_actions ?l i (actions st2)\<rparr>;
                   st = on_k (sv_clone_files sv ?l i) st;
                   st = st\<lparr>exe := (exe st)(i := exe st ?l), cmdline := (cmdline st)(i := cmdline st ?l)\<rparr>;
                   st = (if new_root \<noteq> None then on_k (sv_vm_clone sv ?m i) st else st)
               in kick_idle_cpu c st)"
    have fk: "snd (fork sv c new_root stack tls clear_tid st) =
      (if new_root = None
       then sleep_as sv c (\<lambda>p. p\<lparr>p_state := VforkWait\<rparr>) (on_frame c (set_ret (of_nat (i + MAX_PROCS * gens st i))) st3)
       else st3)"
      unfolding fork_def Some f option.case take_pid_def Let_def prod.case snd_conv
        st3_def st2_def ch_def st1_def [symmetric]
      by (simp add: st1_def)
    have inv2: "sched_inv st2"
    proof (cases new_root)
      case None
      then show ?thesis
        by (intro join_inv [OF assms(1) f, where m = ?m])
           (use fs own mi in \<open>auto simp: st2_def ch_def st1_def fork_child_def Let_def pst_def MAX_PROCS_def add_member_def\<close>)
    next
      case (Some r)
      then show ?thesis
        using assms(2) [of "fst r" "snd r"]
        by (intro join_inv [OF assms(1) f, where m = i])
           (use fs in \<open>auto simp: st2_def ch_def st1_def fork_child_def Let_def pst_def MAX_PROCS_def split: prod.split\<close>)
    qed
    have "wakes st2 st3" by (simp add: st3_def Let_def wakes_same)
    then have inv3: "sched_inv st3" using inv2 wakes_inv by blast
    then have "sched_inv (on_frame c g st3)" for g using wakes_inv [OF wakes_on_frame] by blast
    with inv3 show ?thesis
      unfolding fk by (simp add: sleep_as_inv falls_asleep_def)
  qed
qed

section \<open>Leaving the CPU for good\<close>

lemma exit_inv:
  assumes "sched_inv st"
  shows "sched_inv (exit_locked sv c st)"
proof (cases "current st c")
  case (Some s)
  note in_use = current_in_use [OF assms Some]
  let ?a = "clear_tid_word sv c s st"
  let ?b = "upd s (\<lambda>p. p\<lparr>p_ctx := frame ?a c\<rparr>) ?a"
  have "wakes st ?a" by (rule gently)
  also have "wakes ?a ?b" by (rule wakes_upd) (simp add: gentle_def)
  finally have w: "wakes st ?b" .
  let ?d = "account_and_leave sv c s (?b\<lparr>current := (current ?b)(c := None)\<rparr>)"
  have sb: "same_spaces ?b ?d"
    by (auto simp: account_and_leave_def Let_def same_spaces_def pst_def)
  have b: "sched_inv ?b" "current ?b = current st" "in_use ?b = in_use st"
    using assms wakes_inv [OF w] wakes_fields(11) [OF w] wakes_in_use [OF w] by auto
  have d: "space_ok (in_use ?d) ?d" "in_use ?d = in_use st"
    using b same_spaces_in_use [OF sb] same_spaces_ok [OF sb] by (auto simp: sched_inv_def)
  have cpus: "current ?b e = Some i \<Longrightarrow> i < MAX_PROCS \<and> pst ?b i = Running \<and> p_cpu (procs ?b i) = e"
     "i < MAX_PROCS \<Longrightarrow> pst ?b i = Running \<Longrightarrow> current ?b (p_cpu (procs ?b i)) = Some i" for e i
    using b(1) by (auto simp: sched_inv_def cpu_ok_def)
  have cs: "current ?b c = Some s" using Some b(2) by simp
  have "cpu_ok {s} ?d"
    unfolding cpu_ok_def
  proof (intro conjI allI impI)
    fix e i assume "current ?d e = Some i"
    then have e: "e \<noteq> c" "current ?b e = Some i"
      by (auto simp: account_and_leave_def Let_def split: if_splits)
    then have "i \<noteq> s" using cpus(1) [OF e(2)] cpus(1) [OF cs] by auto
    then show "i \<notin> {s}" "i < MAX_PROCS" "pst ?d i = Running" "p_cpu (procs ?d i) = e"
      using cpus(1) [OF e(2)] by (auto simp: account_and_leave_def Let_def pst_def)
  next
    fix i assume i: "i < MAX_PROCS" "i \<notin> {s}" "pst ?d i = Running"
    then have "pst ?b i = Running" by (auto simp: account_and_leave_def Let_def pst_def)
    with i have "current ?b (p_cpu (procs ?b i)) = Some i" using cpus(2) by blast
    moreover have "p_cpu (procs ?b i) \<noteq> c" using calculation cs i(2) by auto
    ultimately show "current ?d (p_cpu (procs ?d i)) = Some i"
      using i(2) by (auto simp: account_and_leave_def Let_def)
  qed
  from reap_inv [OF d(1) this, of sv c] d(2) in_use
  have r: "sched_inv (reap sv c s ?d)" "current (reap sv c s ?d) = current ?d" by auto
  have "sched_inv (dispatch sv c (reap sv c s ?d))"
    using r by (intro space_dispatch cpu_ready_idle) (auto simp: sched_inv_def account_and_leave_def Let_def)
  then show ?thesis by (simp add: exit_locked_def Some Let_def)
qed (simp add: exit_locked_def assms)

lemma reap_asleep_inv:
  assumes "sched_inv st" "s < MAX_PROCS" "alive st s" "pst st s \<noteq> Running"
  shows "sched_inv (reap sv c s st)"
  using assms reap_inv [of st s sv c] asleep_cpu_ok [of st s] by (auto simp: sched_inv_def in_use_def)

lemma end_leader_inv:
  assumes "sched_inv st" "l < MAX_PROCS"
  shows "sched_inv (end_leader sv c l st)"
  using assms reap_asleep_inv [OF assms] wakes_inv [OF mark_killed_wakes]
  by (auto simp: end_leader_def alive_def)

lemma leader_less: "sched_inv st \<Longrightarrow> current st c = Some s \<Longrightarrow> p_leader (procs st s) < MAX_PROCS"
  using owner_held by blast

lemma exit_group_inv: "sched_inv st \<Longrightarrow> sched_inv (exit_group sv c st)"
  by (auto simp: exit_group_def Let_def split: option.split intro!: exit_inv end_leader_inv leader_less)

lemma exit_if_killed_inv: "sched_inv st \<Longrightarrow> sched_inv (snd (exit_if_killed sv c st))"
  by (auto simp: exit_if_killed_def split: option.split intro: exit_inv)

lemma set_status_of_wakes [gently]: "wakes st (set_status_of s status st)"
  unfolding set_status_of_def by (rule wakes_upd) (simp add: gentle_def)

lemma set_status_wakes [gently]: "wakes st (set_status c status grp st)"
  by (auto simp: set_status_def split: option.split intro: gently)

lemma slot_of_pidD: "slot_of_pid pid st = Some s \<Longrightarrow> s < MAX_PROCS \<and> alive st s \<and> p_pid (procs st s) = pid"
  by (auto simp: slot_of_pid_def Let_def MAX_PROCS_def split: if_splits)

lemma kill_inv:
  assumes "sched_inv st"
  shows "sched_inv (snd (kill_sig sv c pid sig st))"
proof (cases "slot_of_pid pid st")
  case (Some s)
  let ?a = "set_status_of s (sig AND 0x7F) st"
  have a: "sched_inv ?a" using assms wakes_inv [OF set_status_of_wakes] by blast
  have "alive ?a s" "s < MAX_PROCS" using slot_of_pidD [OF Some] wakes_alive [OF set_status_of_wakes] by auto
  then show ?thesis
    using a by (auto simp: kill_sig_def Some Let_def intro: exit_inv reap_asleep_inv
        iffD2 [OF wakes_inv [OF mark_killed_wakes]])
qed (simp add: kill_sig_def assms)

lemma oops_inv:
  assumes "sched_inv st"
  shows "sched_inv (snd (oops_recover sv c st))"
proof -
  let ?a = "on_frame c (\<lambda>_. new_idle (sv_idle sv) (sv_kstack sv c)) st"
  have a: "sched_inv ?a" using assms wakes_inv [OF wakes_on_frame] by blast
  show ?thesis
  proof (cases "current st c")
    case None
    have "sched_inv (dispatch sv c ?a)"
      using a None by (intro space_dispatch cpu_ready_idle) (auto simp: sched_inv_def)
    then show ?thesis using None by (simp add: oops_recover_def)
  next
    case (Some s)
    let ?b = "(set_status_of s 11 ?a)\<lparr>last_crash := Some (p_pid (procs ?a (p_leader (procs ?a s))))\<rparr>"
    have "wakes ?a ?b"
      by (rule wakes_trans [OF set_status_of_wakes]) (rule wakes_same, simp_all)
    then have "sched_inv ?b" using a wakes_inv by blast
    then show ?thesis
      using Some leader_less [OF assms Some]
      by (auto simp: oops_recover_def Let_def intro!: exit_inv end_leader_inv)
  qed
qed

section \<open>Exec\<close>

lemma end_threads_inv:
  assumes "sched_inv st"
  shows "sched_inv (end_threads sv c s st) \<and> current (end_threads sv c s st) = current st \<and>
    (s \<in> in_use st \<longrightarrow> s \<in> in_use (end_threads sv c s st)) \<and>
    (\<forall>i. p_leader (procs (end_threads sv c s st) i) = p_leader (procs st i))"
  using threads_dying [of "{}" st slots s sv c] assms
  by (simp add: dying_empty end_threads_def slots_def)

text \<open>\<open>execve\<close>: the process leaves its space and becomes the only user of a new one.\<close>

lemma change_space_inv:
  assumes inv: "sched_inv b" and s: "s \<in> in_use b" "p_leader (procs b s) = s"
    and alone: "\<not> (p_mm (procs b s) = s \<and> 1 < p_members (procs b s))"
    and f: "\<And>p. p_root (f p) = root" "root \<noteq> 0" "\<And>p. p_mm (f p) = s" "\<And>p. p_members (f p) = 1"
      "\<And>p. p_leader (f p) = p_leader p" "\<And>p. p_pid (f p) = p_pid p" "\<And>p. p_state (f p) = p_state p"
      "\<And>p. p_cpu (f p) = p_cpu p"
  shows "sched_inv (upd s f (snd (drop_mm sv s b)))"
proof -
  define e where "e = snd (drop_mm sv s b)"
  have K: "current e = current b" "gens e = gens b" "p_cpu (procs e i) = p_cpu (procs b i)"
    "p_leader (procs e i) = p_leader (procs b i)" "p_pid (procs e i) = p_pid (procs b i)"
    "pst e i = pst b i \<or> (pst b i = Zombie \<and> pst e i = Unused)" for i
    unfolding e_def by (fact drop_mm_keeps)+
  have al: "alive e i \<longleftrightarrow> alive b i" "pst e i = Running \<longleftrightarrow> pst b i = Running" for i
    using K(6) [of i] by (auto simp: alive_def)
  have e: "space_ok (in_use b - {s}) e"
    using drop_mm_space [of "in_use b" b s sv] inv s alone by (simp add: sched_inv_def e_def)
  have st: "pst (upd s f e) i = pst e i" for i by (simp add: f pst_def)
  have "space_ok (insert s (in_use b - {s})) (upd s f e)"
  proof (rule join_space [OF e, where m = s])
    show "s < MAX_PROCS" "s \<notin> in_use b - {s}" using s by (auto simp: in_use_def)
    show "pst e s \<noteq> Zombie" "pst (upd s f e) s \<noteq> Zombie"
      unfolding st using s al(1) [of s] by (auto simp: in_use_def alive_def)
    show "p_pid (procs (upd s f e) s) mod MAX_PROCS = s" "p_pid (procs (upd s f e) s) div MAX_PROCS < gens (upd s f e) s"
      using live_spaceD(8) [of "in_use b" b s] inv s K(2,5) by (auto simp: f sched_inv_def held_slot_def)
    show "p_leader (procs (upd s f e) s) < MAX_PROCS" using s K(4) by (simp add: f in_use_def)
  qed (simp_all add: f)
  then have "space_ok (in_use b) (upd s f e)" using s(1) by (simp add: insert_absorb)
  moreover have "in_use (upd s f e) = in_use b"
    using al(1) by (simp add: in_use_def alive_def st del: pst_upd)
  moreover have "cpu_ok {} (upd s f e)"
    using inv al(2) K(1,3) by (auto simp: sched_inv_def cpu_ok_def st f simp del: pst_upd)
  ultimately show ?thesis by (simp add: sched_inv_def e_def)
qed

lemma exec_inv:
  assumes "sched_inv st" "quiet setup" "root \<noteq> 0"
  shows "sched_inv (snd (exec_replace sv c root asid entry sp abi name setup st))"
proof -
  consider "current st c = None" | s where "current st c = Some s" "p_leader (procs st s) \<noteq> s"
    | s where "current st c = Some s" "p_leader (procs st s) = s" by (cases "current st c") auto
  then show ?thesis
  proof cases
    case 1 then show ?thesis using assms(1) by (simp add: exec_replace_def)
  next
    case 2 then show ?thesis using assms(1) by (simp add: exec_replace_def)
  next
    case (3 s)
    let ?a = "end_threads sv c s st"
    have a: "sched_inv ?a" "current ?a c = Some s" "p_leader (procs ?a s) = s"
      using end_threads_inv [OF assms(1)] 3 by auto
    show ?thesis
    proof (cases "p_mm (procs ?a s) = s \<and> p_members (procs ?a s) > 1")
      case True
      then show ?thesis using a(1) 3 by (simp add: exec_replace_def Let_def)
    next
      case False
      let ?b = "wake_vfork_parent c s (?a\<lparr>satp := (satp ?a)(c := (root, asid))\<rparr>)"
      have w: "wakes ?a ?b" by (rule wakes_trans [OF wakes_same wakes_vfork_parent]) simp_all
      have b: "sched_inv ?b" "current ?b c = Some s" "\<not> (p_mm (procs ?b s) = s \<and> 1 < p_members (procs ?b s))"
        "p_leader (procs ?b s) = s"
        using a False wakes_inv [OF w] by (auto simp: wakes_fields [OF w])
      have s: "s \<in> in_use ?b" "pst ?b s = Running" using current_in_use [OF b(1,2)] by auto
      define f :: "process \<Rightarrow> process" where "f = (\<lambda>p. p\<lparr>p_root := root, p_asid := asid, p_mm := s, p_members := 1,
             p_abi := abi, p_brk := HEAP_BASE, p_clear_tid := 0, p_name := pad_name name, p_fp := fp_zeroed\<rparr>)"
      define g where "g = upd s f (snd (drop_mm sv s ?b))"
      have g: "sched_inv g"
        unfolding g_def using b s assms(3)
        by (intro change_space_inv [where root = root]) (simp_all add: f_def)
      define h where "h = on_k (sv_exec_files sv s) (setup s
        ((upd s (\<lambda>p. p\<lparr>p_sig := (p_sig p)\<lparr>sg_alt_sp := 0, sg_alt_size := 0\<rparr>\<rparr>)
          (g\<lparr>fpu := (fpu g)(c := fp_zeroed), frame := (frame g)(c := new_user entry sp),
              cur_abi := (cur_abi g)(c := abi)\<rparr>))\<lparr>actions := exec_actions s (actions g)\<rparr>))"
      have q: "procs (setup j t) = procs t" "gens (setup j t) = gens t" "current (setup j t) = current t"
        "online (setup j t) = online t" for j t using assms(2) by (auto simp: quiet_def)
      have "wakes g h" by (auto simp: h_def wakes_def q gentle_def)
      then have "sched_inv (flush_wakes c h)" using g wakes_inv [OF wakes_flush] wakes_inv by blast
      moreover have "exec_replace sv c root asid entry sp abi name setup st = (True, flush_wakes c h)"
        unfolding exec_replace_def 3 Let_def option.case h_def g_def f_def using 3 False by simp
      ultimately show ?thesis by simp
    qed
  qed
qed

section \<open>Waiting and IPC\<close>

lemma inv_wakes: "sched_inv st \<Longrightarrow> wakes st st' \<Longrightarrow> sched_inv st'"
  using wakes_inv by blast

lemma sleep_ticks_inv: "sched_inv st \<Longrightarrow> sched_inv (sleep_ticks sv c t st)"
  unfolding sleep_ticks_def
  by (rule sleep_as_inv) (auto simp: falls_asleep_def intro: inv_wakes gently)

lemma futex_wait_inv: "sched_inv st \<Longrightarrow> sched_inv (futex_wait_ticks sv c addr cur val t st)"
  by (auto simp: futex_wait_ticks_def falls_asleep_def split: option.split
      intro!: sleep_as_inv intro: inv_wakes gently)

lemma futex_wake_inv: "sched_inv st \<Longrightarrow> sched_inv (snd (futex_wake c addr n st))"
  by (auto simp: futex_wake_def split: option.split intro: inv_wakes gently)

lemma io_wait_until_inv:
  assumes "sched_inv st"
  shows "sched_inv (io_wait_until sv c key seen dl st)"
proof (cases "current st c")
  case (Some s)
  let ?a = "on_frame c rewind_syscall st"
  let ?b = "if key = POLL_KEY then upd s (\<lambda>p. p\<lparr>p_in_poll := True\<rparr>) ?a else ?a"
  have "wakes ?a ?b" by (auto intro: wakes_upd simp: gentle_def)
  then have "sched_inv ?b" using inv_wakes [OF inv_wakes [OF assms wakes_on_frame]] by blast
  then show ?thesis
    unfolding io_wait_until_def Some option.case Let_def
    by (auto simp: falls_asleep_def split del: if_split cong: if_cong split: if_split intro!: sleep_as_inv)
qed (simp add: io_wait_until_def assms)

lemma io_wait_mask_inv:
  assumes "sched_inv st"
  shows "sched_inv (io_wait_mask sv c msk seen dl st)"
proof (cases "current st c")
  case (Some s)
  let ?b = "upd s (\<lambda>p. p\<lparr>p_in_poll := True\<rparr>) (on_frame c rewind_syscall st)"
  have "wakes st ?b" by (rule wakes_trans [OF wakes_on_frame wakes_upd]) (simp add: gentle_def)
  then have "sched_inv ?b" using inv_wakes assms by blast
  then show ?thesis
    unfolding io_wait_mask_def Some option.case Let_def
    by (auto simp: falls_asleep_def intro!: sleep_as_inv)
qed (simp add: io_wait_mask_def assms)

lemma sig_suspend_inv:
  assumes "sched_inv st"
  shows "sched_inv (sig_suspend sv c msk st)"
proof (cases "current st c")
  case (Some s)
  let ?b = "on_frame c (set_ret eintr) (upd s (\<lambda>p. p\<lparr>p_sig := (p_sig p)\<lparr>sg_saved := sg_mask (p_sig p), sg_suspended := True, sg_mask := msk\<rparr>\<rparr>) st)"
  have "wakes st ?b" by (rule wakes_trans [OF wakes_upd wakes_on_frame]) (simp add: gentle_def)
  then have "sched_inv ?b" using inv_wakes assms by blast
  then show ?thesis
    unfolding sig_suspend_def Some option.case Let_def
    by (auto simp: falls_asleep_def intro!: sleep_as_inv)
qed (simp add: sig_suspend_def assms)

lemma set_alarm_wakes [gently]: "wakes st (snd (set_alarm sv c v e st))"
proof -
  have "wakes st (upd l (\<lambda>p. p\<lparr>p_alarm_at := a, p_alarm_every := b\<rparr>) st)" for l a b
    by (rule wakes_upd) (simp add: gentle_def)
  then show ?thesis
    by (auto simp: set_alarm_def Let_def split: option.split intro: wakes_trans [OF _ wakes_program_timer])
qed

lemma io_deadline_wakes [gently]: "wakes st (snd (io_deadline c fresh st))" "wakes st (io_deadline_clear c st)"
  by (auto simp: io_deadline_def io_deadline_clear_def Let_def gentle_def split: option.split intro: wakes_upd)

lemma wait_child_inv:
  assumes "sched_inv st"
  shows "sched_inv (wait_child sv c pid ptr nohang st)"
proof (cases "current st c")
  case (Some s)
  let ?me = "p_pid (procs st (p_leader (procs st s)))"
  show ?thesis
  proof (cases "position (exit_of ?me pid) (exits st)")
    case None
    then show ?thesis
      using assms
      by (auto simp: wait_child_def Some falls_asleep_def intro!: sleep_as_inv intro: inv_wakes gently)
  next
    case k: (Some k)
    have "wakes st (wait_child sv c pid ptr nohang st)"
      by (simp add: wait_child_def Some k Let_def wakes_same split: prod.split)
    then show ?thesis using assms inv_wakes by blast
  qed
qed (simp add: wait_child_def assms)

lemma waitid_child_inv:
  assumes "sched_inv st"
  shows "sched_inv (snd (waitid_child sv c pid nohang nowait st))"
proof (cases "current st c")
  case (Some s)
  let ?me = "p_pid (procs st (p_leader (procs st s)))"
  show ?thesis
  proof (cases "position (exit_of ?me pid) (exits st)")
    case None
    then show ?thesis
      using assms by (auto simp: waitid_child_def Some falls_asleep_def intro!: sleep_as_inv)
  next
    case k: (Some k)
    have "wakes st (snd (waitid_child sv c pid nohang nowait st))"
      by (simp add: waitid_child_def Some k Let_def wakes_same split: prod.split)
    then show ?thesis using assms inv_wakes by blast
  qed
qed (simp add: waitid_child_def assms)

lemma fold_write_user [simp]:
  "procs (fold (\<lambda>i. write_user sv r (va i) (bs i)) is st) = procs st"
  "gens (fold (\<lambda>i. write_user sv r (va i) (bs i)) is st) = gens st"
  "current (fold (\<lambda>i. write_user sv r (va i) (bs i)) is st) = current st"
  "online (fold (\<lambda>i. write_user sv r (va i) (bs i)) is st) = online st"
  "frame (fold (\<lambda>i. write_user sv r (va i) (bs i)) is st) = frame st"
  "exits (fold (\<lambda>i. write_user sv r (va i) (bs i)) is st) = exits st"
  "fpu (fold (\<lambda>i. write_user sv r (va i) (bs i)) is st) = fpu st"
  "actions (fold (\<lambda>i. write_user sv r (va i) (bs i)) is st) = actions st"
  "clock (fold (\<lambda>i. write_user sv r (va i) (bs i)) is st) = clock st"
  by (induction "is" arbitrary: st) simp_all

lemma write_msg_simps [simp]:
  "procs (write_msg sv r va m st) = procs st" "gens (write_msg sv r va m st) = gens st"
  "current (write_msg sv r va m st) = current st" "online (write_msg sv r va m st) = online st"
  "frame (write_msg sv r va m st) = frame st" "exits (write_msg sv r va m st) = exits st"
  "fpu (write_msg sv r va m st) = fpu st" "actions (write_msg sv r va m st) = actions st"
  "clock (write_msg sv r va m st) = clock st" "pst (write_msg sv r va m st) i = pst st i"
  by (simp_all add: write_msg_def pst_def)

lemma write_msg_wakes [gently]: "wakes st (write_msg sv root va m st)"
  by (rule wakes_same) simp_all

lemma deliver_recv_wakes [gently]: "wakes st (deliver_recv sv p st)"
proof -
  let ?a = "if p_msg_ptr (procs st p) \<noteq> 0
      then write_msg sv (p_root (procs st p)) (p_msg_ptr (procs st p)) (p_inbox (procs st p)) st else st"
  have "wakes st ?a" by (simp add: write_msg_wakes)
  then show ?thesis
    unfolding deliver_recv_def Let_def by (rule wakes_trans) (rule wakes_upd, simp add: gentle_def)
qed

lemma ipc_send_inv:
  assumes "sched_inv st"
  shows "sched_inv (snd (ipc_send sv c dst_pid msg ptr st))"
proof -
  consider "current st c = None \<or> slot_of_pid dst_pid st = None"
    | me where "current st c = Some me" "slot_of_pid dst_pid st = Some me"
    | me dst where "current st c = Some me" "slot_of_pid dst_pid st = Some dst" "dst \<noteq> me" by fastforce
  then show ?thesis
  proof cases
    case (3 me dst)
    let ?a = "upd me (\<lambda>p. p\<lparr>p_msg_ptr := ptr\<rparr>) st"
    have wa: "wakes st ?a" by (rule wakes_upd) (simp add: gentle_def)
    have a: "sched_inv ?a" using assms wa inv_wakes by blast
    show ?thesis
    proof (cases "pst ?a dst = RecvBlocked")
      case False
      let ?f = "\<lambda>p. p\<lparr>p_state := SendBlocked, p_send_to := dst, p_inbox := msg\<rparr>"
      have "falls_asleep ?f" by (simp add: falls_asleep_def)
      from falls_asleep_ready [OF a _ this, of c me] 3
      have "sched_inv (block_current sv c (upd me ?f ?a))" by (intro block_inv) simp_all
      then show ?thesis using 3 False by (simp add: ipc_send_def Let_def)
    next
      case True
      let ?b = "upd dst (\<lambda>p. p\<lparr>p_wake_at := 0, p_inbox := msg, p_peer := me\<rparr>) ?a"
      let ?d = "deliver_recv sv dst ?b"
      let ?e = "upd dst (\<lambda>p. p\<lparr>p_state := Ready\<rparr>) ?d"
      have wb: "wakes ?a ?b" using True by (intro wakes_upd) (simp add: gentle_def pst_def)
      have wd: "wakes ?b ?d" by (rule gently)
      have "pst ?d dst = RecvBlocked"
        using True by (simp add: deliver_recv_def Let_def pst_def)
      then have we: "wakes ?d ?e" by (intro wakes_upd) (simp add: gentle_def pst_def)
      have w: "wakes ?a ?e" using wb wd we wakes_trans by blast
      have e: "sched_inv ?e" using a w inv_wakes by blast
      let ?f = "\<lambda>p. p\<lparr>p_state := ReplyBlocked, p_peer := dst\<rparr>"
      have "falls_asleep ?f" by (simp add: falls_asleep_def)
      moreover have "current ?e c = Some me" using 3 wakes_fields(11) [OF w] by simp
      ultimately have "space_ok (in_use (upd me ?f ?e)) (upd me ?f ?e) \<and> cpu_ready c (upd me ?f ?e)"
        using falls_asleep_ready [OF e] by blast
      then have "sched_inv (block_current sv c (kick_idle_cpu c (upd me ?f ?e)))"
        by (intro block_inv) (simp_all add: wakes_in_use [OF wakes_kick1] wakes_space_ok [OF wakes_kick1]
          wakes_cpu_ready [OF wakes_kick1])
      then show ?thesis using 3 True by (simp add: ipc_send_def Let_def)
    qed
  qed (use assms in \<open>auto simp: ipc_send_def split: option.split\<close>)
qed

text \<open>The receiver takes the message of a sender that waits for it: that sender goes on waiting, for the reply.\<close>

lemma cpu_ok_upd:
  assumes "cpu_ok X st" "pst st s \<noteq> Running" "p_state (f (procs st s)) \<noteq> Running"
  shows "cpu_ok X (upd s f st)"
proof -
  note C = assms(1) [unfolded cpu_ok_def]
  have run: "pst (upd s f st) i = Running \<longleftrightarrow> pst st i = Running" for i
    using assms(2,3) by (auto simp: pst_def)
  have cpu: "p_cpu (procs (upd s f st) i) = p_cpu (procs st i)" if "pst st i = Running" for i
    using that assms(2) by auto
  show ?thesis
    unfolding cpu_ok_def upd_simps(3) using C cpu by (simp add: run del: pst_upd upd_simps(1))
qed

lemma accept_from_inv:
  assumes "sched_inv st" "pst st s = SendBlocked" "pst st me = Running"
  shows "sched_inv (accept_from sv c me s ptr st)"
proof -
  let ?a = "upd me (\<lambda>p. p\<lparr>p_inbox := p_inbox (procs st s), p_peer := s\<rparr>) st"
  let ?b = "upd s (\<lambda>p. p\<lparr>p_state := ReplyBlocked, p_peer := me\<rparr>) ?a"
  have wa: "wakes st ?a" using assms(3) by (intro wakes_upd) (simp add: gentle_def pst_def)
  have a: "sched_inv ?a" using assms(1) wa inv_wakes by blast
  have s: "pst ?a s = SendBlocked" using assms(2) by (auto simp: pst_def)
  then have sp: "same_spaces ?a ?b" by (intro same_spaces_upd) (simp_all add: pst_def)
  have "space_ok (in_use ?b) ?b"
    unfolding same_spaces_ok [OF sp] same_spaces_in_use [OF sp] using a by (simp only: sched_inv_def)
  moreover have "cpu_ok {} ?b"
  proof (rule cpu_ok_upd)
    show "cpu_ok {} ?a" using a by (simp only: sched_inv_def)
  qed (use s in \<open>simp_all del: pst_upd\<close>)
  ultimately have b: "sched_inv ?b" by (simp add: sched_inv_def)
  have "wakes ?b (accept_from sv c me s ptr st)"
    by (simp add: accept_from_def Let_def wakes_same)
  with b show ?thesis using inv_wakes by blast
qed

lemma find_senderD: "find_sender me st = Some s \<Longrightarrow> pst st s = SendBlocked \<and> p_send_to (procs st s) = me"
  by (auto simp: find_sender_def dest!: find_SomeD)

lemma ipc_recv_inv: "sched_inv st \<Longrightarrow> sched_inv (ipc_recv sv c ptr ms st)"
  by (auto simp: ipc_recv_def falls_asleep_def split: option.split
      intro!: sleep_as_inv accept_from_inv dest: find_senderD current_in_use)

lemma ipc_try_recv_inv: "sched_inv st \<Longrightarrow> sched_inv (ipc_try_recv sv c ptr st)"
  by (auto simp: ipc_try_recv_def split: option.split
      intro!: accept_from_inv intro: inv_wakes gently dest: find_senderD current_in_use)

lemma ipc_reply_wakes [gently]: "wakes st (ipc_reply sv c to_pid msg st)"
  by (auto simp: ipc_reply_def Let_def wakes_def gentle_def pst_def split: option.split)

section \<open>The heap\<close>

lemma map_heap_simps [simp]:
  "procs (snd (map_heap sv root pg new st)) = procs st" "gens (snd (map_heap sv root pg new st)) = gens st"
  "current (snd (map_heap sv root pg new st)) = current st" "online (snd (map_heap sv root pg new st)) = online st"
proof (induction sv root pg new st rule: map_heap.induct)
  case (1 sv root pg new st)
  { case 1 show ?case using "1.IH"(1) by (subst map_heap.simps) (auto simp: Let_def split: prod.split) }
  { case 2 show ?case using "1.IH"(2) by (subst map_heap.simps) (auto simp: Let_def split: prod.split) }
  { case 3 show ?case using "1.IH"(3) by (subst map_heap.simps) (auto simp: Let_def split: prod.split) }
  { case 4 show ?case using "1.IH"(4) by (subst map_heap.simps) (auto simp: Let_def split: prod.split) }
qed

lemma sbrk_wakes [gently]: "wakes st (snd (sbrk sv c inc st))"
proof (cases "current st c")
  case (Some s)
  let ?m = "p_mm (procs st s)"
  have br: "wakes t (upd ?m (\<lambda>p. p\<lparr>p_brk := b\<rparr>) t)" for t :: "'a sched" and b
    by (rule wakes_upd) (simp add: gentle_def)
  show ?thesis
  proof (cases "checked_add (p_brk (procs st ?m)) inc")
    case None
    show ?thesis unfolding sbrk_def Some Let_def option.case None by simp
  next
    case new: (Some new)
    let ?a = "upd ?m (\<lambda>p. p\<lparr>p_brk := new\<rparr>) st"
    obtain r t where t: "map_heap sv (p_root (procs st ?m)) (div_ceil (p_brk (procs st ?m)) 4096 * 4096) new ?a = (r, t)"
      by fastforce
    have "wakes ?a t" using map_heap_simps [of sv "p_root (procs st ?m)" "div_ceil (p_brk (procs st ?m)) 4096 * 4096" new ?a] t
      by (simp add: wakes_same)
    then have "wakes st t" using br wakes_trans by blast
    then show ?thesis
      using br unfolding sbrk_def Some Let_def option.case new t
      by (cases r) (auto intro: wakes_trans)
  qed
qed (simp add: sbrk_def)

lemma brk_wakes [gently]: "wakes st (snd (brk sv c addr st))"
  using sbrk_wakes [of st sv c "addr - b" for b]
  by (auto simp: brk_def Let_def split: option.split prod.split) (metis snd_conv)+

end
