(* ===== verification/Sched_Props.thy ===== *)
theory Sched_Props
  imports Sched_Inv
begin

text \<open>
  The scheduler as a state machine: \<open>sched_step\<close> has one rule for each operation a CPU performs
  with \<open>SCHED\<close> held, and one each for what happens outside it (user code runs, the clock moves,
  the rest of the kernel changes its state). The theorems of this theory are about the states
  reached from boot, about one CPU's view of an operation (\<open>reap\<close>, \<open>wait\<close>, futexes, IPC), and
  about the order in which the ready processes run.
\<close>

section \<open>The state machine\<close>

inductive sched_step :: "'a services \<Rightarrow> 'a sched \<Rightarrow> 'a sched \<Rightarrow> bool" for sv where
  user_step: "sched_step sv st (st\<lparr>frame := (frame st)(c := f), fpu := (fpu st)(c := g)\<rparr>)"
| clock_step: "clock st \<le> t \<Longrightarrow> sched_step sv st (st\<lparr>clock := t\<rparr>)"
| outside_step: "sched_step sv st (st\<lparr>kst := k\<rparr>)"
| enter_step: "current st c = None \<Longrightarrow> sched_step sv st (enter_scheduler sv c st)"
| preempt_step: "sched_step sv st (preempt sv c st)"
| ipi_step: "sched_step sv st (on_ipi sv c st)"
| create_step: "quiet setup \<Longrightarrow> root \<noteq> 0 \<Longrightarrow>
    sched_step sv st (snd (create_ex c entry sp root asid name abi setup st))"
| thread_step: "sched_step sv st (snd (thread_create c entry sp av st))"
| clone_step: "sched_step sv st (snd (clone_thread c stack tls clear_tid st))"
| fork_step: "(\<And>root asid. new_root = Some (root, asid) \<Longrightarrow> root \<noteq> 0) \<Longrightarrow>
    sched_step sv st (snd (fork sv c new_root stack tls clear_tid st))"
| exec_step: "quiet setup \<Longrightarrow> root \<noteq> 0 \<Longrightarrow>
    sched_step sv st (snd (exec_replace sv c root asid entry sp abi name setup st))"
| exit_step: "sched_step sv st (exit_locked sv c st)"
| exit_group_step: "sched_step sv st (exit_group sv c st)"
| exit_if_killed_step: "sched_step sv st (snd (exit_if_killed sv c st))"
| kill_step: "sched_step sv st (snd (kill_sig sv c pid sig st))"
| oops_step: "sched_step sv st (snd (oops_recover sv c st))"
| status_step: "sched_step sv st (set_status c status grp st)"
| clear_tid_step: "sched_step sv st (snd (set_clear_tid c addr st))"
| name_step: "sched_step sv st (set_current_name c bs st)"
| crash_step: "sched_step sv st (note_crash pid st)"
| take_crash_step: "sched_step sv st (snd (take_crash st))"
| sleep_step: "sched_step sv st (sleep_ticks sv c ticks st)"
| futex_wait_step: "sched_step sv st (futex_wait_ticks sv c addr cur val ticks st)"
| futex_wake_step: "sched_step sv st (snd (futex_wake c addr n st))"
| wait_step: "sched_step sv st (wait_child sv c wpid ptr nohang st)"
| waitid_step: "sched_step sv st (snd (waitid_child sv c wpid nohang nowait st))"
| io_wait_step: "sched_step sv st (io_wait_until sv c key seen dl st)"
| io_wait_mask_step: "sched_step sv st (io_wait_mask sv c msk seen dl st)"
| io_wake_step: "sched_step sv st (io_wake_locked c key st)"
| flush_step: "sched_step sv st (flush_wakes c st)"
| io_deadline_step: "sched_step sv st (snd (io_deadline c fresh st))"
| io_deadline_clear_step: "sched_step sv st (io_deadline_clear c st)"
| post_step: "sched_step sv st (snd (post_signal_locked c target sig thread ipid st))"
| suspend_step: "sched_step sv st (sig_suspend sv c msk st)"
| alarm_step: "sched_step sv st (snd (set_alarm sv c v e st))"
| send_step: "sched_step sv st (snd (ipc_send sv c dst msg ptr st))"
| recv_step: "sched_step sv st (ipc_recv sv c ptr ms st)"
| try_recv_step: "sched_step sv st (ipc_try_recv sv c ptr st)"
| reply_step: "sched_step sv st (ipc_reply sv c to_pid msg st)"
| sbrk_step: "sched_step sv st (snd (sbrk sv c inc st))"
| brk_step: "sched_step sv st (snd (brk sv c addr st))"

inductive reachable :: "'a services \<Rightarrow> 'a sched \<Rightarrow> bool" for sv where
  at_boot: "reachable sv (sched_boot k)"
| after: "reachable sv st \<Longrightarrow> sched_step sv st st' \<Longrightarrow> reachable sv st'"

lemma enter_inv:
  assumes "sched_inv st" "current st c = None"
  shows "sched_inv (enter_scheduler sv c st)"
proof -
  let ?a = "st\<lparr>last_switch := (last_switch st)(c := clock st),
       window_start := (window_start st)(c := clock st), online := (online st)(c := True),
       current := (current st)(c := None),
       frame := (frame st)(c := new_idle (sv_idle sv) (sv_kstack sv c))\<rparr>"
  have sp: "same_spaces st ?a" by (simp add: same_spaces_def pst_def)
  have "space_ok (in_use ?a) ?a"
    unfolding same_spaces_ok [OF sp] same_spaces_in_use [OF sp] using assms(1) by (simp only: sched_inv_def)
  moreover have "cpu_ok {} ?a"
    using assms by (simp add: sched_inv_def cpu_ok_def fun_upd_idem pst_def)
  ultimately show ?thesis
    unfolding enter_scheduler_def by (intro space_dispatch cpu_ready_idle) simp_all
qed

lemma on_ipi_inv: "sched_inv st \<Longrightarrow> sched_inv (on_ipi sv c st)"
  by (auto simp: on_ipi_def sched_inv_def [of st] intro: space_dispatch cpu_ready_idle)

lemma field_wakes:
  "wakes st (snd (set_clear_tid c addr st))" "wakes st (set_current_name c bs st)"
  by (auto simp: set_clear_tid_def set_current_name_def gentle_def split: option.split intro: wakes_upd)

lemma inv_fields:
  assumes "sched_inv st"
  shows "sched_inv (st\<lparr>frame := a, fpu := b\<rparr>)" "sched_inv (st\<lparr>clock := t\<rparr>)" "sched_inv (st\<lparr>kst := k\<rparr>)"
    "sched_inv (st\<lparr>last_crash := x\<rparr>)"
  by (rule inv_wakes [OF assms wakes_same]; simp)+

lemma sched_step_inv: "sched_step sv st st' \<Longrightarrow> sched_inv st \<Longrightarrow> sched_inv st'"
proof (induction rule: sched_step.induct)
  case (fork_step new_root st c stack tls clear_tid)
  then show ?case by (intro fork_inv) auto
next
  case (enter_step st c) then show ?case by (intro enter_inv)
qed (auto simp: preempt_def note_crash_def take_crash_def
      intro: inv_fields inv_wakes gently field_wakes enter_inv schedule_inv on_ipi_inv create_inv
        thread_create_inv clone_thread_inv exec_inv exit_inv exit_group_inv exit_if_killed_inv kill_inv
        oops_inv sleep_ticks_inv futex_wait_inv futex_wake_inv wait_child_inv waitid_child_inv
        io_wait_until_inv io_wait_mask_inv sig_suspend_inv ipc_send_inv ipc_recv_inv ipc_try_recv_inv)

lemma boot_inv: "sched_inv (sched_boot k)"
  by (simp add: sched_inv_def space_ok_def cpu_ok_def in_use_def alive_def held_slot_def pst_def
      sched_boot_def empty_process_def)

lemma reachable_inv: "reachable sv st \<Longrightarrow> sched_inv st"
  by (induction rule: reachable.induct) (auto intro: boot_inv sched_step_inv)

text \<open>C28. In every state the scheduler reaches, from any mix of system calls, interrupts and kills on any
  CPUs: the process a CPU calls current is running and last ran there; a running process is current on
  exactly one CPU; the pid of a live slot leads back to that slot and to no other, so no two live processes
  or threads share a pid.\<close>

theorem running_on_one_cpu:
  assumes "reachable sv st"
  shows "(\<forall>c i. current st c = Some i \<longrightarrow> i \<in> in_use st \<and> pst st i = Running \<and> p_cpu (procs st i) = c) \<and>
    (\<forall>i < MAX_PROCS. pst st i = Running \<longrightarrow> (\<exists>!c. current st c = Some i)) \<and>
    (\<forall>i \<in> in_use st. slot_of_pid (p_pid (procs st i)) st = Some i)"
proof -
  have inv: "sched_inv st" by (rule reachable_inv [OF assms])
  have cpus: "current st c = Some i \<Longrightarrow> i \<in> in_use st \<and> pst st i = Running \<and> p_cpu (procs st i) = c"
    "i < MAX_PROCS \<Longrightarrow> pst st i = Running \<Longrightarrow> current st (p_cpu (procs st i)) = Some i" for c i
    using inv current_in_use [OF inv] by (auto simp: sched_inv_def cpu_ok_def)
  moreover have "\<exists>!c. current st c = Some i" if "i < MAX_PROCS" "pst st i = Running" for i
    using cpus that by metis
  moreover have "slot_of_pid (p_pid (procs st i)) st = Some i" if "i \<in> in_use st" for i
  proof -
    have "p_pid (procs st i) mod MAX_PROCS = i"
      using live_spaceD(8) [of "in_use st" st i] inv that by (simp add: sched_inv_def held_slot_def)
    then show ?thesis using that by (simp add: slot_of_pid_def in_use_def)
  qed
  ultimately show ?thesis by blast
qed

text \<open>A machine of one process: created from boot, before any CPU has entered the scheduler.\<close>

definition plain_services :: "unit services" where
  "plain_services = \<lparr>sv_freq = 10000000, sv_idle = 0, sv_kstack = (\<lambda>_. 0), sv_kroot = 0x80300000,
     sv_translate = (\<lambda>k root va. Some (root + va)), sv_cpu_store = (\<lambda>root va bs k. k\<lparr>kmem := mem_write (kmem k) (root + va) bs\<rparr>),
     sv_free_space = (\<lambda>_. id), sv_vm_release = (\<lambda>_. id),
     sv_vm_clone = (\<lambda>_ _. id), sv_release_files = (\<lambda>_. id), sv_clone_files = (\<lambda>_ _. id),
     sv_exec_files = (\<lambda>_. id), sv_forget_input = (\<lambda>_. id), sv_map_new = (\<lambda>_ _ k. (True, k))\<rparr>"

definition no_setup :: "nat \<Rightarrow> 'a sched \<Rightarrow> 'a sched" where "no_setup i st = st"

lemma quiet_no_setup [simp]: "quiet no_setup"
  by (simp add: quiet_def no_setup_def)

definition plain_world :: waits where
  "plain_world = \<lparr>kfa = frames_boot riscv64_platform, kmem = (\<lambda>_. 0), iseq = replicate 64 0, pend = [],
     pany = False, block_on = (\<lambda>_. (0, 0, 0))\<rparr>"

definition one_process :: "unit sched" where
  "one_process = snd (create_ex 0 0x10000 0x20000 0x80400000 1 [] ABI_LINUX no_setup (sched_boot plain_world))"

lemma sched_boot_simps [simp]:
  "procs (sched_boot k) i = empty_process" "gens (sched_boot k) i = 0" "current (sched_boot k) c = None"
  "pst (sched_boot k) i = Unused"
  by (simp_all add: sched_boot_def pst_def empty_process_def)

lemma free_slot_boot [simp]: "free_slot (sched_boot k) = Some 0"
  by (simp add: free_slot_def slots_def MAX_PROCS_def upt_conv_Cons)

lemma one_process_reachable: "reachable plain_services one_process"
  unfolding one_process_def
  by (rule after [OF at_boot create_step]) simp_all

lemma one_process_slot:
  "0 \<in> in_use one_process" "p_pid (procs one_process 0) = 0"
  "p_mm (procs one_process 0) = 0" "pst one_process 0 = Ready"
  by (simp_all add: one_process_def create_ex_def Let_def take_pid_def no_setup_def in_use_def alive_def
      pst_def MAX_PROCS_def)

theorem running_on_one_cpu_witness:
  "reachable plain_services one_process \<and> slot_of_pid 0 one_process = Some 0"
  using running_on_one_cpu [OF one_process_reachable] one_process_reachable
    one_process_slot by fastforce

text \<open>C29. An address space outlives its users. In every reachable state each live process or thread runs on
  the page table of its space's owner, that table has not been freed (its root is not cleared), the owner's
  slot is not reused while the space has users (it is live, or a zombie that keeps it), and \<open>members\<close> is
  the number of those users, for threads, vfork children and zombies alike.\<close>

theorem space_outlives_users:
  assumes "reachable sv st" and "i \<in> in_use st"
  shows "(let m = p_mm (procs st i) in
     pst st m \<noteq> Unused \<and> p_mm (procs st m) = m \<and> p_root (procs st i) = p_root (procs st m) \<and>
     p_root (procs st m) \<noteq> 0 \<and> p_members (procs st m) = card {j \<in> in_use st. p_mm (procs st j) = m} \<and>
     0 < p_members (procs st m))"
proof -
  have ok: "space_ok (in_use st) st" using reachable_inv [OF assms(1)] by (simp add: sched_inv_def)
  note D = live_spaceD [OF ok]
  let ?m = "p_mm (procs st i)"
  have held: "held_slot (in_use st) st ?m" using D(2) assms(2) .
  have mem: "p_members (procs st ?m) = card (users (in_use st) st ?m)" using D(7) [OF held D(3) [OF assms(2)]] .
  have "i \<in> users (in_use st) st ?m" using assms(2) by (simp add: users_def)
  then have "0 < card (users (in_use st) st ?m)" using finite_users [OF ok] by (auto simp: card_gt_0_iff)
  moreover have "pst st ?m \<noteq> Unused" using held by (auto simp: held_slot_def in_use_def alive_def)
  ultimately show ?thesis
    using D(3,4) [OF assms(2)] mem unfolding Let_def users_def by simp
qed

theorem space_outlives_users_witness:
  "reachable plain_services one_process \<and> p_members (procs one_process 0) = 1 \<and>
   0 < p_root (procs one_process 0)"
  using space_outlives_users [OF one_process_reachable one_process_slot(1)] one_process_reachable
    one_process_slot
  by (simp add: Let_def one_process_def create_ex_def take_pid_def no_setup_def)

section \<open>No one waits for a dead partner\<close>

definition ipc_ok :: "'a sched \<Rightarrow> bool" where
  "ipc_ok st \<longleftrightarrow> (\<forall>i < MAX_PROCS.
     (pst st i = ReplyBlocked \<longrightarrow> p_peer (procs st i) \<in> in_use st) \<and>
     (pst st i = SendBlocked \<longrightarrow> p_send_to (procs st i) \<in> in_use st))"

text \<open>No new IPC waits, and no slot dies.\<close>

definition ipc_calm :: "'a sched \<Rightarrow> 'a sched \<Rightarrow> bool" where
  "ipc_calm st st' \<longleftrightarrow> in_use st \<subseteq> in_use st' \<and> (\<forall>i.
     (pst st' i = ReplyBlocked \<longrightarrow> pst st i = ReplyBlocked \<and> p_peer (procs st' i) = p_peer (procs st i)) \<and>
     (pst st' i = SendBlocked \<longrightarrow> pst st i = SendBlocked \<and> p_send_to (procs st' i) = p_send_to (procs st i)))"

lemma ipc_calm_ok: "ipc_ok st \<Longrightarrow> ipc_calm st st' \<Longrightarrow> ipc_ok st'"
  unfolding ipc_ok_def ipc_calm_def by (metis subsetD)

lemma ipc_calm_trans [trans]: "ipc_calm a b \<Longrightarrow> ipc_calm b c \<Longrightarrow> ipc_calm a c"
  unfolding ipc_calm_def by (metis subset_trans)

lemma wakes_calm: "wakes st st' \<Longrightarrow> ipc_calm st st'"
  unfolding ipc_calm_def using wakes_in_use [of st st'] by (auto simp: wakes_def gentle_def pst_def)

lemma load_calm:
  "(\<And>i. chosen = Some i \<Longrightarrow> pst st i = Ready) \<Longrightarrow> ipc_calm st (load sv c chosen st)"
  by (auto simp: load_def ipc_calm_def in_use_def alive_def Let_def pst_def split: option.splits)

lemma dispatch_calm: "ipc_calm st (dispatch sv c st)"
proof -
  have "ipc_calm st (pre_load sv c st)" by (rule wakes_calm) (rule pre_load_wakes)
  also have "ipc_calm (pre_load sv c st) (load sv c (chosen_by sv c st) (pre_load sv c st))"
    by (rule load_calm) (use chosen_ready in blast)
  also have "ipc_calm \<dots> (dispatch sv c st)"
    unfolding dispatch_eq by (rule wakes_calm) (rule wakes_program_timer)
  finally show ?thesis .
qed

lemma block_calm: "ipc_calm st (block_current sv c st)"
  unfolding block_current_def by (rule ipc_calm_trans [OF wakes_calm [OF save_current_wakes] dispatch_calm])

lemma sleep_as_calm:
  assumes "falls_asleep f" "\<And>p. p_state (f p) \<notin> {SendBlocked, ReplyBlocked}"
  shows "ipc_calm st (sleep_as sv c f st)"
proof (cases "current st c")
  case (Some s)
  have "ipc_calm st (upd s f st)"
    using assms by (auto simp: ipc_calm_def in_use_def alive_def falls_asleep_def pst_def)
  also have "ipc_calm \<dots> (sleep_as sv c f st)" by (simp add: sleep_as_def Some block_calm)
  finally show ?thesis .
qed (simp add: sleep_as_def ipc_calm_def)

lemma schedule_calm: "ipc_calm st (schedule sv c st)"
proof -
  let ?a = "save_current c st"
  have a: "ipc_calm st ?a" by (rule wakes_calm) (rule save_current_wakes)
  have "ipc_calm t (case current t c of None \<Rightarrow> t
      | Some s \<Rightarrow> if pst t s = Running then upd s (\<lambda>p. p\<lparr>p_state := Ready\<rparr>) t else t)" for t :: "'a sched"
    by (auto simp: ipc_calm_def in_use_def alive_def pst_def split: option.split)
  from ipc_calm_trans [OF a this] show ?thesis
    unfolding schedule_def Let_def by (rule ipc_calm_trans) (rule dispatch_calm)
qed

subsection \<open>Reaping answers everyone who waits\<close>

lemma procs_fold_upd:
  "distinct is \<Longrightarrow> procs (fold (\<lambda>i. upd i g) is st) j = (if j \<in> set is then g (procs st j) else procs st j)"
  by (induction "is" arbitrary: st) auto

lemma reap_start_after:
  "wakes (fold (\<lambda>i. upd i (unblock_partner s)) slots (upd s (\<lambda>p. p\<lparr>p_killed := False, p_state := Unused\<rparr>) st))
     (reap_start sv me s st)"
proof -
  let ?b = "fold (\<lambda>i. upd i (unblock_partner s)) slots (upd s (\<lambda>p. p\<lparr>p_killed := False, p_state := Unused\<rparr>) st)"
  let ?c = "on_k (sv_forget_input sv (p_pid (procs ?b s))) ?b"
  let ?d = "wake_vfork_parent me s ?c"
  have "wakes ?b ?c" by (rule gently)
  also have "wakes ?c ?d" by (rule gently)
  finally have d: "wakes ?b ?d" .
  also have "wakes ?d (flush_wakes me (on_k (sv_release_files sv s) (record_exit sv me s ?d)))"
    by (rule wakes_trans [OF wakes_record_exit wakes_trans [OF wakes_on_k wakes_flush]])
  finally show ?thesis using d by (simp add: reap_start_def Let_def)
qed

lemma unblock_keeps:
  "p_state (unblock_partner s p) = ReplyBlocked \<Longrightarrow>
     p_state p = ReplyBlocked \<and> p_peer p \<noteq> s \<and> p_peer (unblock_partner s p) = p_peer p"
  "p_state (unblock_partner s p) = SendBlocked \<Longrightarrow>
     p_state p = SendBlocked \<and> p_send_to p \<noteq> s \<and> p_send_to (unblock_partner s p) = p_send_to p"
  by (auto simp: unblock_partner_def split: if_splits)

lemma slots_props [simp]: "distinct slots" "j \<in> set slots \<longleftrightarrow> j < MAX_PROCS"
  by (auto simp: slots_def)

lemma reap_start_ipc:
  assumes "ipc_ok st"
  shows "ipc_ok (reap_start sv me s st)"
proof -
  let ?a = "upd s (\<lambda>p. p\<lparr>p_killed := False, p_state := Unused\<rparr>) st"
  let ?b = "fold (\<lambda>i. upd i (unblock_partner s)) slots ?a"
  have b: "procs ?b j = unblock_partner s (procs ?a j)" if "j < MAX_PROCS" for j
    using that by (simp add: procs_fold_upd)
  have alive: "in_use ?b = in_use st - {s}"
  proof -
    have "wakes ?a ?b" by (rule wakes_fold) (rule wakes_upd, rule gentle_unblock)
    then have "in_use ?b = in_use ?a" by (rule wakes_in_use)
    then show ?thesis by (auto simp: in_use_def alive_def)
  qed
  have old: "(p_state (procs st j) = ReplyBlocked \<longrightarrow> p_peer (procs st j) \<in> in_use st) \<and>
      (p_state (procs st j) = SendBlocked \<longrightarrow> p_send_to (procs st j) \<in> in_use st)" if "j < MAX_PROCS" for j
    using assms that by (simp add: ipc_ok_def pst_def)
  have "ipc_ok ?b"
    unfolding ipc_ok_def alive
  proof (intro allI impI conjI)
    fix j assume j: "j < MAX_PROCS" "pst ?b j = ReplyBlocked"
    then have "p_state (unblock_partner s (procs ?a j)) = ReplyBlocked" using b by (simp add: pst_def)
    from unblock_keeps(1) [OF this] show "p_peer (procs ?b j) \<in> in_use st - {s}"
      unfolding b [OF j(1)] using old [OF j(1)] by (auto split: if_splits)
  next
    fix j assume j: "j < MAX_PROCS" "pst ?b j = SendBlocked"
    then have "p_state (unblock_partner s (procs ?a j)) = SendBlocked" using b by (simp add: pst_def)
    from unblock_keeps(2) [OF this] show "p_send_to (procs ?b j) \<in> in_use st - {s}"
      unfolding b [OF j(1)] using old [OF j(1)] by (auto split: if_splits)
  qed
  then show ?thesis by (rule ipc_calm_ok) (rule wakes_calm, rule reap_start_after)
qed

lemma drop_mm_calm: "ipc_calm st (snd (drop_mm sv s st))"
  by (auto simp: drop_mm_def Let_def ipc_calm_def in_use_def alive_def pst_def)

lemma release_calm: "pst st s = Unused \<Longrightarrow> ipc_calm st (release sv s st)"
  using drop_mm_calm [of st sv s] drop_mm_keeps(6) [of sv s st s]
  by (auto simp: release_def ipc_calm_def in_use_def alive_def pst_def split: prod.splits)

lemma reap_start_dead: "pst (reap_start sv me s st) s = Unused"
  using wakes_fields(9) [OF reap_start_wakes [of s st sv me]] by (simp add: pst_def)

lemma release_dead: "j \<noteq> s \<Longrightarrow> pst st j = Unused \<Longrightarrow> pst (release sv s st) j = Unused"
  using drop_mm_keeps(6) [of sv s st j] by (auto simp: release_def split: prod.splits)

lemma fold_rule: "P st \<Longrightarrow> (\<And>i st. i \<in> set is \<Longrightarrow> P st \<Longrightarrow> P (f i st)) \<Longrightarrow> P (fold f is st)"
  by (induction "is" arbitrary: st) auto

lemma reap_ipc:
  fixes st :: "'a sched"
  assumes "ipc_ok st"
  shows "ipc_ok (reap sv me s st) \<and> (\<forall>j. j \<noteq> s \<longrightarrow> pst st j = Unused \<longrightarrow> pst (reap sv me s st) j = Unused)"
  using assms
proof (induction sv me s st rule: reap.induct)
  case (1 sv me s st)
  let ?a = "reap_start sv me s st"
  define D where "D = insert s {j. pst st j = Unused}"
  define P where "P t \<longleftrightarrow> ipc_ok t \<and> (\<forall>j \<in> D. pst t j = Unused)" for t :: "'a sched"
  define g where "g = (\<lambda>i st. if i = s \<or> p_leader (procs st i) \<noteq> s then st
                    else if pst st i = Unused \<or> pst st i = Zombie then st
                    else if pst st i = Running then mark_killed i st
                    else reap sv me i st)"
  have a: "P ?a"
    unfolding P_def D_def
    using reap_start_ipc [OF "1.prems", of sv me s] reap_start_dead [of sv me s st]
      wakes_fields(9) [OF reap_start_wakes [of s st sv me]] by auto
  have b: "P (if p_leader (procs st s) = s then fold g slots ?a else ?a)"
  proof (cases "p_leader (procs st s) = s")
    case True
    have "P (fold g slots ?a)"
    proof (rule fold_rule [where P = P])
      fix i t assume i: "i \<in> set slots" and t: "P t"
      show "P (g i t)"
      proof (cases "i = s \<or> p_leader (procs t i) \<noteq> s \<or> pst t i = Unused \<or> pst t i = Zombie \<or> pst t i = Running")
        case True
        have "P (mark_killed i t)"
          using t ipc_calm_ok [OF _ wakes_calm [OF mark_killed_wakes]] wakes_fields(9) [OF mark_killed_wakes]
          unfolding P_def by blast
        with True t show ?thesis by (auto simp: g_def)
      next
        case False
        then have g: "g i t = reap sv me i t" by (simp add: g_def)
        have "i \<notin> D" using False t by (auto simp: P_def)
        moreover have "ipc_ok (reap sv me i t) \<and> (\<forall>j. j \<noteq> i \<longrightarrow> pst t j = Unused \<longrightarrow> pst (reap sv me i t) j = Unused)"
          using "1.IH" [OF refl refl True i] False t by (simp add: P_def)
        ultimately show ?thesis using t unfolding g P_def by metis
      qed
    qed (rule a)
    with True show ?thesis by simp
  qed (use a in simp)
  define t where "t = (if p_leader (procs st s) = s then fold g slots ?a else ?a)"
  have r: "reap sv me s st = kick_idle_cpu me (release sv s t)"
    by (subst reap.simps) (simp add: Let_def t_def g_def)
  have t: "ipc_ok t" "\<forall>j \<in> D. pst t j = Unused" using b by (simp_all add: t_def P_def)
  have "ipc_ok (release sv s t)" using ipc_calm_ok [OF t(1) release_calm] t(2) by (simp add: D_def)
  then have "ipc_ok (reap sv me s st)" unfolding r using ipc_calm_ok wakes_calm [OF wakes_kick1] by blast
  moreover have "pst (reap sv me s st) j = Unused" if "j \<noteq> s" "pst st j = Unused" for j
    unfolding r using t(2) that by (simp add: D_def release_dead)
  ultimately show ?case by blast
qed

lemma end_leader_ipc: "ipc_ok st \<Longrightarrow> ipc_ok (end_leader sv c l st)"
  using reap_ipc [of st sv c l] ipc_calm_ok [OF _ wakes_calm [OF mark_killed_wakes]]
  by (auto simp: end_leader_def)

lemma exit_ipc:
  assumes "ipc_ok st"
  shows "ipc_ok (exit_locked sv c st)"
proof (cases "current st c")
  case (Some s)
  let ?a = "clear_tid_word sv c s st"
  let ?b = "upd s (\<lambda>p. p\<lparr>p_ctx := frame ?a c\<rparr>) ?a"
  let ?d = "account_and_leave sv c s (?b\<lparr>current := (current ?b)(c := None)\<rparr>)"
  have "wakes st ?a" by (rule gently)
  also have "wakes ?a ?b" by (rule wakes_upd) (simp add: gentle_def)
  finally have "ipc_calm st ?b" by (rule wakes_calm)
  also have "ipc_calm ?b ?d"
    by (simp add: account_and_leave_def Let_def ipc_calm_def in_use_def alive_def pst_def)
  finally have "ipc_ok ?d" using assms ipc_calm_ok by blast
  then have "ipc_ok (dispatch sv c (reap sv c s ?d))" using reap_ipc ipc_calm_ok [OF _ dispatch_calm] by blast
  then show ?thesis by (simp add: exit_locked_def Some Let_def)
qed (simp add: exit_locked_def assms)

subsection \<open>The other operations\<close>

lemma join_calm:
  assumes "free_slot st = Some i" "pst st' i = Ready"
    and "\<And>j. j \<noteq> i \<Longrightarrow> p_state (procs st' j) = p_state (procs st j) \<and>
      p_peer (procs st' j) = p_peer (procs st j) \<and> p_send_to (procs st' j) = p_send_to (procs st j)"
  shows "ipc_calm st st'"
proof -
  have s: "pst st' j = pst st j" if "j \<noteq> i" for j using assms(3) that by (simp add: pst_def)
  have "in_use st \<subseteq> in_use st'"
    using in_use_not_free [OF assms(1)] s by (auto simp: in_use_def alive_def) (metis s)+
  then show ?thesis
    unfolding ipc_calm_def using assms(2,3) s by (metis pstate.distinct)
qed

lemma upd_calm:
  assumes "p_state (f (procs st s)) = p_state (procs st s)" "p_peer (f (procs st s)) = p_peer (procs st s)"
    "p_send_to (f (procs st s)) = p_send_to (procs st s)"
  shows "ipc_calm st (upd s f st)"
  using assms by (auto simp: ipc_calm_def in_use_def alive_def pst_def)

lemma create_calm:
  assumes "quiet setup"
  shows "ipc_calm st (snd (create_ex c entry sp root asid name abi setup st))"
proof (cases "free_slot st")
  case None
  then show ?thesis by (simp add: create_ex_def Let_def ipc_calm_def)
next
  case (Some i)
  have q: "procs (setup j t) = procs t" for j t using assms by (auto simp: quiet_def)
  show ?thesis
    unfolding create_ex_def Let_def Some option.case take_pid_def prod.case snd_conv
    by (rule join_calm [OF Some]) (simp_all add: q pst_def)
qed

lemma thread_create_calm:
  "ipc_calm st (snd (thread_create c entry sp av st))"
proof (cases "current st c = None \<or> free_slot st = None")
  case False
  then obtain s i where c: "current st c = Some s" and i: "free_slot st = Some i" by auto
  show ?thesis
    unfolding thread_create_def c Let_def option.case i take_pid_def prod.case snd_conv
    by (rule join_calm [OF i]) (auto simp: pst_def add_member_def)
qed (auto simp: thread_create_def ipc_calm_def Let_def split: option.split)

lemma clone_thread_calm:
  "ipc_calm st (snd (clone_thread c stack tls clear_tid st))"
proof (cases "current st c = None \<or> free_slot st = None")
  case False
  then obtain s i where c: "current st c = Some s" and i: "free_slot st = Some i" by auto
  show ?thesis
    unfolding clone_thread_def c Let_def option.case i take_pid_def prod.case snd_conv
    by (rule join_calm [OF i]) (auto simp: pst_def add_member_def)
qed (auto simp: clone_thread_def ipc_calm_def Let_def split: option.split)

lemma fork_calm: "ipc_calm st (snd (fork sv c new_root stack tls clear_tid st))"
proof (cases "current st c = None \<or> free_slot st = None")
  case False
  then obtain s i where c: "current st c = Some s" and i: "free_slot st = Some i" by auto
  let ?l = "p_leader (procs st s)" let ?m = "p_mm (procs st s)"
  define st1 where "st1 = st\<lparr>gens := (gens st)(i := gens st i + 1)\<rparr>"
  define ch where "ch = fork_child st1 c s i (i + MAX_PROCS * gens st i) new_root stack tls clear_tid"
  define st2 where "st2 = upd i (\<lambda>_. ch) (if new_root = None then add_member ?m st1 else st1)"
  define st3 where "st3 = (let st = st2\<lparr>actions := copy_actions ?l i (actions st2)\<rparr>;
                 st = on_k (sv_clone_files sv ?l i) st;
                 st = st\<lparr>exe := (exe st)(i := exe st ?l), cmdline := (cmdline st)(i := cmdline st ?l)\<rparr>;
                 st = (if new_root \<noteq> None then on_k (sv_vm_clone sv ?m i) st else st)
             in kick_idle_cpu c st)"
  have fk: "snd (fork sv c new_root stack tls clear_tid st) =
    (if new_root = None
     then sleep_as sv c (\<lambda>p. p\<lparr>p_state := VforkWait\<rparr>) (on_frame c (set_ret (of_nat (i + MAX_PROCS * gens st i))) st3)
     else st3)"
    unfolding fork_def c i option.case take_pid_def Let_def prod.case snd_conv
      st3_def st2_def ch_def st1_def [symmetric]
    by (simp add: st1_def)
  have "p_state ch = Ready" by (simp add: ch_def fork_child_def Let_def split: option.split)
  then have "ipc_calm st st2"
    by (intro join_calm [OF i]) (auto simp: st2_def st1_def add_member_def pst_def)
  also have "ipc_calm st2 st3" by (rule wakes_calm) (simp add: st3_def Let_def wakes_same)
  finally have st3: "ipc_calm st st3" .
  have "ipc_calm st (on_frame c g st3)" for g using ipc_calm_trans [OF st3 wakes_calm [OF wakes_on_frame]] .
  then have "ipc_calm st (sleep_as sv c (\<lambda>p. p\<lparr>p_state := VforkWait\<rparr>) (on_frame c g st3))" for g
    by (rule ipc_calm_trans) (rule sleep_as_calm, simp_all add: falls_asleep_def)
  with st3 show ?thesis unfolding fk by simp
qed (auto simp: fork_def ipc_calm_def split: option.split)

lemma end_threads_ipc: "ipc_ok st \<Longrightarrow> ipc_ok (end_threads sv c s st)"
  unfolding end_threads_def
  using reap_ipc ipc_calm_ok [OF _ wakes_calm [OF mark_killed_wakes]]
  by (intro fold_rule [where P = ipc_ok]) auto

lemma exec_ipc:
  assumes "ipc_ok st" "quiet setup"
  shows "ipc_ok (snd (exec_replace sv c root asid entry sp abi name setup st))"
proof -
  consider "current st c = None" | s where "current st c = Some s" "p_leader (procs st s) \<noteq> s"
    | s where "current st c = Some s" "p_leader (procs st s) = s" by (cases "current st c") auto
  then show ?thesis
  proof cases
    case 1 then show ?thesis using assms(1) by (simp add: exec_replace_def)
  next
    case 2 then show ?thesis using assms(1) by (simp add: exec_replace_def)
  next
    case (3 s)
    let ?a = "end_threads sv c s st"
    have a: "ipc_ok ?a" using assms(1) by (rule end_threads_ipc)
    show ?thesis
    proof (cases "p_mm (procs ?a s) = s \<and> p_members (procs ?a s) > 1")
      case True
      then show ?thesis using a 3 by (simp add: exec_replace_def Let_def)
    next
      case False
      let ?b = "wake_vfork_parent c s (?a\<lparr>satp := (satp ?a)(c := (root, asid))\<rparr>)"
      have w: "wakes ?a ?b" by (rule wakes_trans [OF wakes_same wakes_vfork_parent]) simp_all
      define f :: "process \<Rightarrow> process" where "f = (\<lambda>p. p\<lparr>p_root := root, p_asid := asid, p_mm := s, p_members := 1,
             p_abi := abi, p_brk := HEAP_BASE, p_clear_tid := 0, p_name := pad_name name, p_fp := fp_zeroed\<rparr>)"
      define g where "g = upd s f (snd (drop_mm sv s ?b))"
      define h where "h = on_k (sv_exec_files sv s) (setup s
        ((upd s (\<lambda>p. p\<lparr>p_sig := (p_sig p)\<lparr>sg_alt_sp := 0, sg_alt_size := 0\<rparr>\<rparr>)
          (g\<lparr>fpu := (fpu g)(c := fp_zeroed), frame := (frame g)(c := new_user entry sp),
              cur_abi := (cur_abi g)(c := abi)\<rparr>))\<lparr>actions := exec_actions s (actions g)\<rparr>))"
      have q: "procs (setup j t) = procs t" "gens (setup j t) = gens t" "current (setup j t) = current t"
        "online (setup j t) = online t" for j t using assms(2) by (auto simp: quiet_def)
      have "ipc_calm ?a ?b" using w by (rule wakes_calm)
      also have "ipc_calm ?b (snd (drop_mm sv s ?b))" by (rule drop_mm_calm)
      also have "ipc_calm (snd (drop_mm sv s ?b)) g"
        unfolding g_def by (rule upd_calm) (simp_all add: f_def)
      also have "ipc_calm g h" by (rule wakes_calm) (auto simp: h_def wakes_def q gentle_def)
      also have "ipc_calm h (flush_wakes c h)" by (rule wakes_calm) (rule gently)
      finally have "ipc_ok (flush_wakes c h)" using a ipc_calm_ok by blast
      moreover have "exec_replace sv c root asid entry sp abi name setup st = (True, flush_wakes c h)"
        unfolding exec_replace_def 3 Let_def option.case h_def g_def f_def using 3 False by simp
      ultimately show ?thesis by simp
    qed
  qed
qed

lemma wakes_ipc: "wakes st st' \<Longrightarrow> ipc_ok st \<Longrightarrow> ipc_ok st'"
  using ipc_calm_ok wakes_calm by blast

lemma dispatch_ipc: "ipc_ok st \<Longrightarrow> ipc_ok (dispatch sv c st)"
  using ipc_calm_ok dispatch_calm by blast

lemmas ipc_moves = exit_ipc end_leader_ipc conjunct1 [OF reap_ipc] dispatch_ipc
  wakes_ipc [OF mark_killed_wakes] wakes_ipc [OF set_status_of_wakes] wakes_ipc [OF wakes_on_frame]

lemma kill_ipc: "ipc_ok st \<Longrightarrow> ipc_ok (snd (kill_sig sv c pid sig st))"
  by (auto simp: kill_sig_def Let_def split: option.split intro!: ipc_moves)

lemma exit_group_ipc: "ipc_ok st \<Longrightarrow> ipc_ok (exit_group sv c st)"
  by (auto simp: exit_group_def Let_def split: option.split intro!: exit_ipc end_leader_ipc)

lemma oops_ipc:
  assumes "ipc_ok st"
  shows "ipc_ok (snd (oops_recover sv c st))"
proof -
  let ?a = "on_frame c (\<lambda>_. new_idle (sv_idle sv) (sv_kstack sv c)) st"
  have a: "ipc_ok ?a" using assms ipc_calm_ok [OF _ wakes_calm [OF wakes_on_frame]] by blast
  have b: "ipc_ok ((set_status_of s x ?a)\<lparr>last_crash := y\<rparr>)" for s x y
  proof -
    have "wakes ?a ((set_status_of s x ?a)\<lparr>last_crash := y\<rparr>)"
      by (rule wakes_trans [OF set_status_of_wakes]) (rule wakes_same, simp_all)
    then show ?thesis using a ipc_calm_ok wakes_calm by blast
  qed
  show ?thesis
    using b by (auto simp: oops_recover_def Let_def split: option.split intro!: ipc_moves assms)
qed

lemma sleepers_calm:
  "ipc_calm st (sleep_ticks sv c t st)" "ipc_calm st (futex_wait_ticks sv c addr cur val t st)"
proof -
  have f: "ipc_calm st (on_frame c g st)" for g by (rule wakes_calm) (rule gently)
  show "ipc_calm st (sleep_ticks sv c t st)"
    unfolding sleep_ticks_def by (rule ipc_calm_trans [OF f sleep_as_calm]) (simp_all add: falls_asleep_def)
  have r: "ipc_calm st st" by (simp add: ipc_calm_def)
  show "ipc_calm st (futex_wait_ticks sv c addr cur val t st)"
    unfolding futex_wait_ticks_def
    by (auto split: option.split simp: r f falls_asleep_def intro!: ipc_calm_trans [OF f sleep_as_calm])
qed

lemma io_wait_calm:
  "ipc_calm st (io_wait_until sv c key seen dl st)" "ipc_calm st (io_wait_mask sv c msk seen dl st)"
  "ipc_calm st (sig_suspend sv c smsk st)"
proof -
  have r: "ipc_calm st st" by (simp add: ipc_calm_def)
  have f: "ipc_calm st (on_frame c g st)" for g by (rule wakes_calm) (rule gently)
  have u: "ipc_calm t (upd s (\<lambda>p. p\<lparr>p_in_poll := True\<rparr>) t)" for s and t :: "'a sched" by (rule upd_calm) simp_all
  have v: "ipc_calm t (upd s (\<lambda>p. p\<lparr>p_sig := x p\<rparr>) t)" for s x and t :: "'a sched" by (rule upd_calm) simp_all
  have g: "ipc_calm t (on_frame c g t)" for g and t :: "'a sched" by (rule wakes_calm) (rule gently)
  note sl = sleep_as_calm [of _ _ sv c]
  show "ipc_calm st (io_wait_until sv c key seen dl st)"
    unfolding io_wait_until_def Let_def
    by (auto split: option.split simp: r falls_asleep_def
        intro!: ipc_calm_trans [OF f u] f ipc_calm_trans [OF f sleep_as_calm]
          ipc_calm_trans [OF ipc_calm_trans [OF f u] sleep_as_calm])
  show "ipc_calm st (io_wait_mask sv c msk seen dl st)"
    unfolding io_wait_mask_def Let_def
    by (auto split: option.split simp: r falls_asleep_def
        intro!: ipc_calm_trans [OF f u] ipc_calm_trans [OF ipc_calm_trans [OF f u] sleep_as_calm])
  show "ipc_calm st (sig_suspend sv c smsk st)"
    unfolding sig_suspend_def Let_def
    by (auto split: option.split simp: r falls_asleep_def
        intro!: ipc_calm_trans [OF v g] ipc_calm_trans [OF ipc_calm_trans [OF v g] sleep_as_calm])
qed

lemma wait_calm: "ipc_calm st (wait_child sv c pid ptr nohang st)"
  "ipc_calm st (snd (waitid_child sv c pid nohang nowait st))"
proof -
  have r: "ipc_calm st st" by (simp add: ipc_calm_def)
  have f: "ipc_calm st (on_frame c g st)" for g by (rule wakes_calm) (rule gently)
  have e: "ipc_calm st (t\<lparr>exits := x\<rparr>)" if "procs t = procs st" for t :: "'a sched" and x
    using that by (simp add: ipc_calm_def in_use_def alive_def pst_def)
  show "ipc_calm st (wait_child sv c pid ptr nohang st)"
    by (auto simp: wait_child_def Let_def r f falls_asleep_def split: option.split prod.split
        intro!: sleep_as_calm e)
  show "ipc_calm st (snd (waitid_child sv c pid nohang nowait st))"
    by (auto simp: waitid_child_def Let_def r falls_asleep_def split: option.split prod.split
        intro!: sleep_as_calm e)
qed

text \<open>The two operations that make a process wait in IPC: its partner is alive.\<close>

lemma ipc_upd:
  assumes "ipc_ok st" "d \<in> in_use st" "s \<in> in_use st"
    and "p_state (f (procs st s)) = ReplyBlocked \<and> p_peer (f (procs st s)) = d \<or>
      p_state (f (procs st s)) = SendBlocked \<and> p_send_to (f (procs st s)) = d"
  shows "ipc_ok (upd s f st)"
proof -
  have "in_use (upd s f st) = in_use st"
    using assms(3,4) by (auto simp: in_use_def alive_def pst_def)
  then show ?thesis using assms unfolding ipc_ok_def by (auto simp: pst_def)
qed

lemma accept_from_ipc:
  assumes "ipc_ok st" "s \<in> in_use st" "me \<in> in_use st" "pst st me = Running"
  shows "ipc_ok (accept_from sv c me s ptr st)"
proof -
  let ?a = "upd me (\<lambda>p. p\<lparr>p_inbox := p_inbox (procs st s), p_peer := s\<rparr>) st"
  let ?b = "upd s (\<lambda>p. p\<lparr>p_state := ReplyBlocked, p_peer := me\<rparr>) ?a"
  have wa: "wakes st ?a" using assms(4) by (intro wakes_upd) (simp add: gentle_def pst_def)
  have "ipc_ok ?b"
    by (rule ipc_upd [OF wakes_ipc [OF wa assms(1)], where d = me])
       (simp_all add: wakes_in_use [OF wa] assms)
  moreover have "wakes ?b (accept_from sv c me s ptr st)"
    by (simp add: accept_from_def Let_def wakes_same)
  ultimately show ?thesis using wakes_ipc by blast
qed

lemma find_sender_in_use: "find_sender me st = Some s \<Longrightarrow> s \<in> in_use st"
  by (auto simp: find_sender_def in_use_def alive_def MAX_PROCS_def dest!: find_SomeD)

lemma ipc_recv_ipc:
  assumes "sched_inv st" "ipc_ok st"
  shows "ipc_ok (ipc_recv sv c ptr ms st)" "ipc_ok (ipc_try_recv sv c ptr st)"
  using assms find_sender_in_use current_in_use [OF assms(1)]
  by (auto simp: ipc_recv_def ipc_try_recv_def falls_asleep_def split: option.split
      intro!: accept_from_ipc ipc_calm_ok [OF assms(2) sleep_as_calm] wakes_ipc [OF wakes_on_frame])

lemma ipc_send_ipc:
  assumes "sched_inv st" "ipc_ok st"
  shows "ipc_ok (snd (ipc_send sv c dst_pid msg ptr st))"
proof -
  consider "current st c = None \<or> slot_of_pid dst_pid st = None"
    | me where "current st c = Some me" "slot_of_pid dst_pid st = Some me"
    | me dst where "current st c = Some me" "slot_of_pid dst_pid st = Some dst" "dst \<noteq> me" by fastforce
  then show ?thesis
  proof cases
    case (3 me dst)
    have me: "me \<in> in_use st" using current_in_use [OF assms(1) 3(1)] by simp
    have dst: "dst \<in> in_use st" using slot_of_pidD [OF 3(2)] by (simp add: in_use_def)
    let ?a = "upd me (\<lambda>p. p\<lparr>p_msg_ptr := ptr\<rparr>) st"
    have wa: "wakes st ?a" by (rule wakes_upd) (simp add: gentle_def)
    note blk = ipc_calm_ok [OF _ block_calm]
    show ?thesis
    proof (cases "pst ?a dst = RecvBlocked")
      case False
      have "ipc_ok (upd me (\<lambda>p. p\<lparr>p_state := SendBlocked, p_send_to := dst, p_inbox := msg\<rparr>) ?a)"
        by (rule ipc_upd [OF wakes_ipc [OF wa assms(2)], where d = dst])
           (simp_all add: wakes_in_use [OF wa] me dst)
      then show ?thesis using 3 False by (simp add: ipc_send_def Let_def blk)
    next
      case True
      let ?b = "upd dst (\<lambda>p. p\<lparr>p_wake_at := 0, p_inbox := msg, p_peer := me\<rparr>) ?a"
      let ?d = "deliver_recv sv dst ?b"
      let ?e = "upd dst (\<lambda>p. p\<lparr>p_state := Ready\<rparr>) ?d"
      have wb: "wakes ?a ?b" using True by (intro wakes_upd) (simp add: gentle_def pst_def)
      have wd: "wakes ?b ?d" by (rule gently)
      have "pst ?d dst = RecvBlocked"
        using True by (simp add: deliver_recv_def Let_def pst_def)
      then have we: "wakes ?d ?e" by (intro wakes_upd) (simp add: gentle_def pst_def)
      have w: "wakes st ?e" using wa wb wd we wakes_trans by blast
      have "ipc_ok (upd me (\<lambda>p. p\<lparr>p_state := ReplyBlocked, p_peer := dst\<rparr>) ?e)"
        by (rule ipc_upd [OF wakes_ipc [OF w assms(2)], where d = dst])
           (simp_all add: wakes_in_use [OF w] me dst)
      then have "ipc_ok (kick_idle_cpu c (upd me (\<lambda>p. p\<lparr>p_state := ReplyBlocked, p_peer := dst\<rparr>) ?e))"
        by (rule wakes_ipc [OF wakes_kick1])
      then show ?thesis using 3 True by (simp add: ipc_send_def Let_def blk)
    qed
  qed (use assms in \<open>auto simp: ipc_send_def split: option.split\<close>)
qed

lemma enter_calm: "ipc_calm st (enter_scheduler sv c st)"
  unfolding enter_scheduler_def
  by (rule ipc_calm_trans [OF _ dispatch_calm]) (simp add: ipc_calm_def in_use_def alive_def pst_def)

lemma inv_fields_wakes:
  "wakes st (st\<lparr>frame := a, fpu := b\<rparr>)" "wakes st (st\<lparr>clock := t\<rparr>)" "wakes st (st\<lparr>kst := k\<rparr>)"
  "wakes st (st\<lparr>last_crash := x\<rparr>)"
  by (rule wakes_same; simp)+

lemma sched_step_ipc: "sched_step sv st st' \<Longrightarrow> sched_inv st \<Longrightarrow> ipc_ok st \<Longrightarrow> ipc_ok st'"
proof (induction rule: sched_step.induct)
  case (fork_step new_root st c stack tls clear_tid)
  then show ?case using ipc_calm_ok fork_calm by blast
next
  case (ipi_step st c)
  then show ?case by (auto simp: on_ipi_def intro: dispatch_ipc)
qed (auto simp: preempt_def note_crash_def take_crash_def exit_if_killed_def futex_wake_def
      split: option.split
      intro: exit_ipc exit_group_ipc kill_ipc oops_ipc exec_ipc ipc_send_ipc ipc_recv_ipc
        ipc_calm_ok [OF _ schedule_calm] ipc_calm_ok [OF _ enter_calm] ipc_calm_ok [OF _ create_calm]
        ipc_calm_ok [OF _ thread_create_calm] ipc_calm_ok [OF _ clone_thread_calm]
        ipc_calm_ok [OF _ sleepers_calm(1)] ipc_calm_ok [OF _ sleepers_calm(2)]
        ipc_calm_ok [OF _ io_wait_calm(1)] ipc_calm_ok [OF _ io_wait_calm(2)] ipc_calm_ok [OF _ io_wait_calm(3)]
        ipc_calm_ok [OF _ wait_calm(1)] ipc_calm_ok [OF _ wait_calm(2)]
        wakes_ipc [OF inv_fields_wakes(1)] wakes_ipc [OF inv_fields_wakes(2)]
        wakes_ipc [OF inv_fields_wakes(3)] wakes_ipc [OF inv_fields_wakes(4)]
        wakes_ipc [OF field_wakes(1)] wakes_ipc [OF field_wakes(2)] wakes_ipc gently)

lemma reachable_ipc: "reachable sv st \<Longrightarrow> ipc_ok st"
proof (induction rule: reachable.induct)
  case (at_boot k)
  then show ?case by (simp add: ipc_ok_def)
next
  case (after st st')
  then show ?case using sched_step_ipc reachable_inv by blast
qed

text \<open>C30. No process waits for a dead partner. In every reachable state a sender whose message has not been
  taken waits for a live process, and a sender that waits for its reply waits for a live process. When that
  partner dies, the first thing \<open>reap\<close> does is to make the sender ready, with the state of the partner's
  slot already \<open>Unused\<close>, so it is not picked again.\<close>

theorem ipc_partner_alive:
  assumes "reachable sv st" and "i < MAX_PROCS"
    and "pst st i = ReplyBlocked \<and> s = p_peer (procs st i) \<or>
      pst st i = SendBlocked \<and> s = p_send_to (procs st i)"
  shows "s < MAX_PROCS \<and> alive st s \<and>
    (i \<noteq> s \<longrightarrow> pst (reap_start sv me s st) i = Ready \<and> pst (reap_start sv me s st) s = Unused)"
proof -
  have "s \<in> in_use st" using reachable_ipc [OF assms(1)] assms(2,3) by (auto simp: ipc_ok_def)
  moreover have "pst (reap_start sv me s st) i = Ready" if "i \<noteq> s"
  proof -
    let ?b = "fold (\<lambda>i. upd i (unblock_partner s)) slots (upd s (\<lambda>p. p\<lparr>p_killed := False, p_state := Unused\<rparr>) st)"
    have "pst ?b i = Ready"
      using that assms(2,3) by (auto simp: pst_def procs_fold_upd unblock_partner_def)
    then show ?thesis
      using reap_start_after [of s st sv me] by (auto simp: wakes_def gentle_def pst_def dest!: spec [of _ i])
  qed
  ultimately show ?thesis using reap_start_dead [of sv me s st] by (simp add: in_use_def)
qed

section \<open>What a dispatch does to one slot\<close>

lemma dispatch_slot:
  "procs (dispatch sv c st) j =
     (if chosen_by sv c st = Some j then (procs (pre_load sv c st) j)\<lparr>p_state := Running, p_cpu := c\<rparr>
      else procs (pre_load sv c st) j)"
  "current (dispatch sv c st) = (current st)(c := chosen_by sv c st)"
  using wakes_fields(11) [OF pre_load_wakes [of st sv c]]
  by (auto simp: dispatch_eq program_timer_def load_def Let_def split: option.split)

lemma wakes_Ready: "wakes st st' \<Longrightarrow> pst st i = Ready \<Longrightarrow> pst st' i = Ready"
  by (auto simp: wakes_def gentle_def pst_def dest!: spec [of _ i])

lemma dispatch_Ready:
  "pst st i = Ready \<Longrightarrow> chosen_by sv c st \<noteq> Some i \<Longrightarrow> pst (dispatch sv c st) i = Ready"
  using wakes_Ready [OF pre_load_wakes] by (simp add: pst_def dispatch_slot)

text \<open>A process blocked in IPC sleeps through timers and signals.\<close>

definition in_ipc :: "pstate \<Rightarrow> bool" where
  "in_ipc s \<longleftrightarrow> s = SendBlocked \<or> s = ReplyBlocked"

definition ipc_view :: "process \<Rightarrow> pstate \<times> nat \<times> nat \<times> nat \<times> nat \<times> message \<times> u64 list" where
  "ipc_view p = (p_state p, p_peer p, p_send_to p, p_pid p, p_msg_ptr p, p_inbox p, regs (p_ctx p))"

lemma interrupt_wait_ipc: "in_ipc (p_state p) \<Longrightarrow> interrupt_wait r p = (p, False)"
  by (auto simp: interrupt_wait_def in_ipc_def Let_def)

lemma post_signal_ipc:
  assumes "in_ipc (pst st i)"
  shows "ipc_view (procs (snd (post_signal_locked me target sig thread ipid st)) i) = ipc_view (procs st i)"
proof (cases "slot_of_pid target st")
  case (Some t)
  let ?d = "signal_dest t sig thread st"
  let ?st = "upd ?d (\<lambda>p. p\<lparr>p_sig := (p_sig p)\<lparr>sg_pending := sg_pending (p_sig p) OR bit1 (sig - 1),
                                                 sg_from := of_nat ipid\<rparr>\<rparr>) st"
  have "ipc_view (procs ?st i) = ipc_view (procs st i)" by (simp add: ipc_view_def)
  moreover have "ipc_view (fst (interrupt_wait r (procs ?st ?d))) = ipc_view (procs ?st ?d)" if "?d = i" for r
    using interrupt_wait_ipc [of "procs ?st ?d" r] assms that by (simp add: pst_def)
  ultimately show ?thesis
    by (auto simp: post_signal_locked_def Some Let_def split: prod.split) (metis fst_conv)+
qed (simp add: post_signal_locked_def)

lemma fold_view:
  "(\<And>j st. in_ipc (pst st i) \<Longrightarrow> ipc_view (procs (f j st) i) = ipc_view (procs st i)) \<Longrightarrow>
   in_ipc (pst st i) \<Longrightarrow> ipc_view (procs (fold f js st) i) = ipc_view (procs st i)"
proof (induction js arbitrary: st)
  case (Cons j js)
  have "ipc_view (procs (f j st) i) = ipc_view (procs st i)" using Cons.prems by blast
  moreover from this have "in_ipc (pst (f j st) i)" using Cons.prems(2) by (simp add: ipc_view_def pst_def)
  ultimately show ?case using Cons by simp
qed simp

lemma wake_sleepers_ipc:
  assumes "in_ipc (pst st i)"
  shows "ipc_view (procs (wake_sleepers me now st) i) = ipc_view (procs st i)"
proof -
  have r: "ipc_view (procs (ring_alarm me now j t) i) = ipc_view (procs t i)" if "in_ipc (pst t i)" for j and t :: "'a sched"
  proof -
    let ?t = "upd j (\<lambda>p. p\<lparr>p_alarm_at := if p_alarm_every p \<noteq> 0 then now + p_alarm_every p else 0\<rparr>) t"
    have v: "ipc_view (procs ?t i) = ipc_view (procs t i)" by (simp add: ipc_view_def)
    then have "in_ipc (pst ?t i)" using that by (simp add: ipc_view_def pst_def)
    from post_signal_ipc [OF this, of me "p_pid (procs t j)" SIGALRM False 0] v show ?thesis
      by (simp add: ring_alarm_def Let_def)
  qed
  have u: "ipc_view (procs (upd j (timeout_wake now) t) i) = ipc_view (procs t i)" if "in_ipc (pst t i)" for j and t :: "'a sched"
    using that by (auto simp: timeout_wake_def in_ipc_def pst_def)
  let ?a = "fold (ring_alarm me now) slots st"
  have a: "ipc_view (procs ?a i) = ipc_view (procs st i)" by (rule fold_view [OF r assms])
  then have "in_ipc (pst ?a i)" using assms by (simp add: ipc_view_def pst_def)
  from fold_view [OF u this, where js = slots] a show ?thesis by (simp add: wake_sleepers_def)
qed

lemma account_view: "ipc_view (procs (account sv c now st) i) = ipc_view (procs st i)"
  by (cases "current st c") (simp_all add: account_def Let_def ipc_view_def)

lemma switch_fp_view: "ipc_view (procs (switch_fp c prev ch st) i) = ipc_view (procs st i)"
  by (auto simp: switch_fp_def Let_def fp_take_dirty_def ipc_view_def split: option.splits)

lemma dispatch_ipc_view:
  assumes "in_ipc (pst st i)"
  shows "ipc_view (procs (dispatch sv c st) i) = ipc_view (procs st i)"
proof -
  let ?a = "account sv c (clock st) st"
  have "in_ipc (pst ?a i)" using account_view [of sv c "clock st" st i] assms by (simp add: ipc_view_def pst_def)
  from wake_sleepers_ipc [OF this, of c "clock st"]
  have p: "ipc_view (procs (pre_load sv c st) i) = ipc_view (procs st i)"
    unfolding pre_load_def Let_def switch_fp_view
    by (simp add: account_view split: option.split)
  then have "pst (pre_load sv c st) i \<noteq> Ready"
    using assms by (auto simp: ipc_view_def pst_def in_ipc_def)
  then have "chosen_by sv c st \<noteq> Some i" using chosen_ready [of sv c st i] by auto
  with p show ?thesis by (simp add: dispatch_slot)
qed

section \<open>Round robin\<close>

text \<open>The slots from \<open>rr_next\<close> on, in the order \<open>dispatch\<close> looks at them.\<close>

definition turn :: "nat \<Rightarrow> nat \<Rightarrow> nat" where
  "turn rr i = (i + MAX_PROCS - rr mod MAX_PROCS) mod MAX_PROCS"

lemma turn_less [simp]: "turn rr i < MAX_PROCS"
  by (simp add: turn_def MAX_PROCS_def)

lemma turn_slot:
  assumes "i < MAX_PROCS"
  shows "(rr + turn rr i) mod MAX_PROCS = i"
proof -
  let ?r = "rr mod MAX_PROCS"
  have r: "?r < MAX_PROCS" by (simp add: MAX_PROCS_def)
  have "(rr + turn rr i) mod MAX_PROCS = (?r + (i + MAX_PROCS - ?r)) mod MAX_PROCS"
    unfolding turn_def by (metis mod_add_left_eq mod_add_right_eq)
  also have "?r + (i + MAX_PROCS - ?r) = i + MAX_PROCS" using r by linarith
  finally show ?thesis using assms by simp
qed

lemma slot_turn:
  assumes "k < MAX_PROCS"
  shows "turn rr ((rr + k) mod MAX_PROCS) = k"
proof -
  let ?r = "rr mod MAX_PROCS"
  have r: "?r < MAX_PROCS" by (simp add: MAX_PROCS_def)
  have x: "(rr + k) mod MAX_PROCS = (?r + k) mod MAX_PROCS" by (simp add: mod_add_left_eq)
  show ?thesis
  proof (cases "?r + k < MAX_PROCS")
    case True
    then have "(rr + k) mod MAX_PROCS = ?r + k" using x by simp
    then have "turn rr ((rr + k) mod MAX_PROCS) = (k + MAX_PROCS) mod MAX_PROCS"
      using r by (simp add: turn_def add.commute)
    then show ?thesis using assms by simp
  next
    case False
    have "(?r + k) mod MAX_PROCS = (?r + k - MAX_PROCS) mod MAX_PROCS" using False by (intro le_mod_geq) simp
    also have "\<dots> = ?r + k - MAX_PROCS" using r assms by (intro mod_less) linarith
    finally have "(rr + k) mod MAX_PROCS + MAX_PROCS - ?r = k" using x False r by linarith
    then show ?thesis using assms by (simp add: turn_def)
  qed
qed

lemma pick_None: "pick st = None \<longleftrightarrow> (\<forall>i < MAX_PROCS. pst st i \<noteq> Ready)"
proof
  assume p: "pick st = None"
  show "\<forall>i < MAX_PROCS. pst st i \<noteq> Ready"
  proof (intro allI impI)
    fix i assume i: "i < MAX_PROCS"
    have "i \<in> set (map (\<lambda>off. (rr_next st + off) mod MAX_PROCS) slots)"
      using turn_slot [OF i, of "rr_next st"] by (auto intro!: image_eqI [where x = "turn (rr_next st) i"])
    then show "pst st i \<noteq> Ready" using p by (auto simp: pick_def find_None_iff)
  qed
next
  assume "\<forall>i < MAX_PROCS. pst st i \<noteq> Ready"
  then show "pick st = None" by (cases "pick st") (auto dest: pick_SomeD)
qed

lemma pick_order:
  assumes "pick st = Some i" "j < MAX_PROCS" "pst st j = Ready"
  shows "turn (rr_next st) i \<le> turn (rr_next st) j"
proof -
  let ?f = "\<lambda>off. (rr_next st + off) mod MAX_PROCS"
  obtain k where k: "k < MAX_PROCS" "?f k = i" "\<And>l. l < k \<Longrightarrow> pst st (?f l) \<noteq> Ready"
    using assms(1) unfolding pick_def find_Some_iff by (auto simp: slots_def)
  have "k = turn (rr_next st) i" using slot_turn [OF k(1), of "rr_next st"] k(2) by simp
  moreover have "\<not> turn (rr_next st) j < k"
    using k(3) [of "turn (rr_next st) j"] turn_slot [OF assms(2)] assms(3) by auto
  ultimately show ?thesis by simp
qed

lemma rr_fold: "(\<And>i st. rr_next (f i st) = rr_next st) \<Longrightarrow> rr_next (fold f is st) = rr_next st"
  by (induction "is" arbitrary: st) auto

lemma rr_post: "rr_next (snd (post_signal_locked me target sig thread ipid st)) = rr_next st"
  by (auto simp: post_signal_locked_def Let_def split: option.split prod.split)

lemma rr_sleepers: "rr_next (wake_sleepers me now st) = rr_next st"
  unfolding wake_sleepers_def
  by (simp add: rr_fold ring_alarm_def Let_def rr_post)

lemma rr_account: "rr_next (account sv c now st) = rr_next st"
  by (cases "current st c") (simp_all add: account_def Let_def)

lemma rr_switch_fp: "rr_next (switch_fp c prev ch st) = rr_next st"
  by (auto simp: switch_fp_def Let_def split: option.split prod.split)

lemma rr_load: "rr_next (load sv c ch st) = rr_next st"
  by (auto simp: load_def Let_def split: option.split)

lemma rr_dispatch:
  "rr_next (dispatch sv c st) =
     (case chosen_by sv c st of None \<Rightarrow> rr_next st | Some i \<Rightarrow> (i + 1) mod MAX_PROCS)"
  by (simp add: dispatch_def Let_def program_timer_def rr_load rr_switch_fp chosen_by_def rr_sleepers rr_account
      split: option.split)

lemma turn_next:
  assumes "i < MAX_PROCS" "j < MAX_PROCS" "i \<noteq> j" "turn rr i \<le> turn rr j"
  shows "turn ((i + 1) mod MAX_PROCS) j < turn rr j"
proof -
  let ?a = "turn rr i" let ?b = "turn rr j"
  have ne: "?a \<noteq> ?b" using turn_slot [OF assms(1), of rr] turn_slot [OF assms(2), of rr] assms(3) by metis
  have "((i + 1) mod MAX_PROCS + (?b - ?a - 1)) mod MAX_PROCS = ((rr + ?a) mod MAX_PROCS + 1 + (?b - ?a - 1)) mod MAX_PROCS"
    unfolding turn_slot [OF assms(1)] by (rule mod_add_left_eq)
  also have "\<dots> = (rr + ?a + 1 + (?b - ?a - 1)) mod MAX_PROCS"
    by (metis (no_types, lifting) add.assoc mod_add_left_eq)
  also have "rr + ?a + 1 + (?b - ?a - 1) = rr + ?b" using ne assms(4) by linarith
  also have "(rr + ?b) mod MAX_PROCS = j" by (rule turn_slot [OF assms(2)])
  finally have j: "((i + 1) mod MAX_PROCS + (?b - ?a - 1)) mod MAX_PROCS = j" .
  have "?b - ?a - 1 < MAX_PROCS" using turn_less [of rr j] by linarith
  from slot_turn [OF this, of "(i + 1) mod MAX_PROCS"] have "turn ((i + 1) mod MAX_PROCS) j = ?b - ?a - 1"
    unfolding j .
  then show ?thesis using ne assms(4) by linarith
qed

text \<open>One dispatch: the ready process \<open>j\<close> runs, or its turn comes closer.\<close>

lemma dispatch_turn:
  assumes "j < MAX_PROCS" "pst st j = Ready"
  shows "current (dispatch sv c st) c = Some j \<or>
    (pst (dispatch sv c st) j = Ready \<and> turn (rr_next (dispatch sv c st)) j < turn (rr_next st) j)"
proof -
  let ?a = "wake_sleepers c (clock st) (account sv c (clock st) st)"
  have aj: "pst ?a j = Ready"
    using assms(2) wakes_Ready [OF wakes_trans [OF wakes_account wakes_sleepers]] by blast
  have rr: "rr_next ?a = rr_next st" by (simp add: rr_sleepers rr_account)
  obtain i where i: "chosen_by sv c st = Some i"
    using aj assms(1) pick_None [of ?a] by (cases "chosen_by sv c st") (auto simp: chosen_by_def)
  show ?thesis
  proof (cases "i = j")
    case True
    then show ?thesis using i by (simp add: dispatch_slot)
  next
    case False
    have p: "pick ?a = Some i" using i by (simp add: chosen_by_def)
    have "turn (rr_next st) i \<le> turn (rr_next st) j" using pick_order [OF p assms(1) aj] by (simp add: rr)
    then have "turn ((i + 1) mod MAX_PROCS) j < turn (rr_next st) j"
      using pick_SomeD [OF p] assms(1) False by (intro turn_next) auto
    moreover have "pst (dispatch sv c st) j = Ready" using False i by (intro dispatch_Ready assms(2)) simp
    ultimately show ?thesis using i by (simp add: rr_dispatch)
  qed
qed

text \<open>C31. Round robin is fair. Take any run in which CPUs dispatch again and again, with anything in between
  that leaves \<open>rr_next\<close> alone and does not stop the ready process \<open>j\<close>: within 256 dispatches, on whatever
  CPUs, one of them runs \<open>j\<close>.\<close>

theorem ready_process_runs:
  fixes s m :: "nat \<Rightarrow> 'a sched"
  assumes "j < MAX_PROCS" and "pst (s 0) j = Ready"
    and "\<And>k. pst (s k) j = Ready \<Longrightarrow> pst (m k) j = Ready \<and> rr_next (m k) = rr_next (s k)"
    and "\<And>k. s (Suc k) = dispatch sv (c k) (m k)"
  shows "\<exists>k < MAX_PROCS. current (s (Suc k)) (c k) = Some j"
proof (rule ccontr)
  assume no: "\<not> ?thesis"
  have "pst (s k) j = Ready \<and> turn (rr_next (s k)) j + k \<le> turn (rr_next (s 0)) j" if "k \<le> MAX_PROCS" for k
    using that
  proof (induction k)
    case (Suc k)
    then have k: "pst (s k) j = Ready" "turn (rr_next (s k)) j + k \<le> turn (rr_next (s 0)) j" "k < MAX_PROCS" by auto
    note m = assms(3) [OF k(1)]
    have "current (s (Suc k)) (c k) \<noteq> Some j" using no k(3) by blast
    then show ?case
      using dispatch_turn [OF assms(1) conjunct1 [OF m], of sv "c k"] m k(2) by (auto simp: assms(4))
  qed (use assms(2) in simp)
  from this [OF order_refl] turn_less [of "rr_next (s 0)" j] show False by linarith
qed

theorem ready_process_runs_witness:
  "\<exists>k < MAX_PROCS. current ((dispatch plain_services 0 ^^ Suc k) one_process) 0 = Some 0"
  using ready_process_runs [of 0 "\<lambda>k. (dispatch plain_services 0 ^^ k) one_process"
      "\<lambda>k. (dispatch plain_services 0 ^^ k) one_process" plain_services "\<lambda>_. 0"] one_process_slot(4)
  by (simp add: MAX_PROCS_def)

text \<open>Two processes: a client that sends to a server which is not receiving yet.\<close>

definition two_processes :: "unit sched" where
  "two_processes = snd (create_ex 0 0x10000 0x20000 0x80500000 2 [] ABI_LINUX no_setup one_process)"

lemma two_processes_reachable: "reachable plain_services two_processes"
  unfolding two_processes_def by (rule after [OF one_process_reachable create_step]) simp_all

lemma one_process_rest:
  "i \<noteq> 0 \<Longrightarrow> procs one_process i = empty_process" "current one_process c = None" "gens one_process 1 = 0"
  by (simp_all add: one_process_def create_ex_def Let_def take_pid_def no_setup_def)

lemma two_processes_slots:
  "pst two_processes 0 = Ready" "pst two_processes 1 = Ready" "2 \<le> i \<Longrightarrow> pst two_processes i = Unused"
  "p_pid (procs two_processes 0) = 0" "p_pid (procs two_processes 1) = 1" "current two_processes c = None"
proof -
  have sl: "slots = 0 # 1 # [2..<MAX_PROCS]" by (simp add: slots_def MAX_PROCS_def upt_conv_Cons)
  then have free: "free_slot one_process = Some 1"
    unfolding free_slot_def sl
    using one_process_rest(1) [of 1] one_process_slot(4) by (simp add: pst_def empty_process_def)
  show "pst two_processes 0 = Ready" "pst two_processes 1 = Ready" "2 \<le> i \<Longrightarrow> pst two_processes i = Unused"
    "p_pid (procs two_processes 0) = 0" "p_pid (procs two_processes 1) = 1" "current two_processes c = None"
    using one_process_slot one_process_rest(1) [of i] one_process_rest(2,3)
    by (simp_all add: two_processes_def create_ex_def free Let_def take_pid_def no_setup_def pst_def empty_process_def MAX_PROCS_def)
qed

text \<open>CPU 0 picks one of them, and that one sends to the other.\<close>

lemma first_runs:
  "\<exists>s \<in> {0, 1}. let st = enter_scheduler plain_services 0 two_processes in
     current st 0 = Some s \<and> pst st (1 - s) = Ready \<and> p_pid (procs st (1 - s)) = 1 - s"
proof -
  let ?t = "two_processes\<lparr>last_switch := (last_switch two_processes)(0 := clock two_processes),
       window_start := (window_start two_processes)(0 := clock two_processes),
       online := (online two_processes)(0 := True), current := (current two_processes)(0 := None),
       frame := (frame two_processes)(0 := new_idle (sv_idle plain_services) (sv_kstack plain_services 0))\<rparr>"
  let ?d = "dispatch plain_services 0 ?t"
  note sl = two_processes_slots
  have t: "pst ?t i = pst two_processes i" "procs ?t i = procs two_processes i" for i by (simp_all add: pst_def)
  have r: "pst (pre_load plain_services 0 ?t) i = Ready" if "i \<in> {0, 1}" for i
    using wakes_Ready [OF pre_load_wakes, of ?t i] that sl t by auto
  have pid: "p_pid (procs (pre_load plain_services 0 ?t) i) = p_pid (procs two_processes i)" for i
    by (simp only: wakes_fields(5) [OF pre_load_wakes] t)
  let ?a = "wake_sleepers 0 (clock ?t) (account plain_services 0 (clock ?t) ?t)"
  have w: "wakes ?t ?a" by (rule wakes_trans [OF wakes_account wakes_sleepers])
  have a: "pst ?a i = Ready \<longleftrightarrow> i \<in> {0, 1}" for i
  proof
    show "i \<in> {0, 1} \<Longrightarrow> pst ?a i = Ready"
      using wakes_Ready [OF w, of i] sl t by auto
    have "pst ?a i = Unused" if "2 \<le> i"
      using wakes_fields(9) [OF w, of i] sl(3) [OF that] t by simp
    then show "pst ?a i = Ready \<Longrightarrow> i \<in> {0, 1}" by (cases "2 \<le> i") auto
  qed
  have "pst ?a 0 = Ready" using a by blast
  then have "pick ?a \<noteq> None" unfolding pick_None by (metis MAX_PROCS_def zero_less_numeral)
  then obtain s where p: "pick ?a = Some s" by blast
  then have s: "chosen_by plain_services 0 ?t = Some s" "s \<in> {0, 1}"
    using a [of s] pick_SomeD [OF p] by (simp_all add: chosen_by_def)
  have "1 - s \<in> {0, 1}" "1 - s \<noteq> s" using s(2) by auto
  then show ?thesis
    unfolding enter_scheduler_def Let_def
    using s r pid sl by (intro bexI [where x = s]) (auto simp: dispatch_slot pst_def)
qed

theorem ipc_partner_alive_witness:
  "\<exists>st i. reachable plain_services st \<and> pst st i = SendBlocked \<and> alive st (p_send_to (procs st i))"
proof -
  let ?st = "enter_scheduler plain_services 0 two_processes"
  have reach: "reachable plain_services ?st"
    by (rule after [OF two_processes_reachable enter_step]) (rule two_processes_slots(6))
  obtain s where s: "s \<in> {0, 1}" "current ?st 0 = Some s" "pst ?st (1 - s) = Ready" "p_pid (procs ?st (1 - s)) = 1 - s"
    using first_runs by (auto simp: Let_def)
  have d: "1 - s \<noteq> s" "1 - s < MAX_PROCS" "s < MAX_PROCS" using s(1) by (auto simp: MAX_PROCS_def)
  have slot: "slot_of_pid (1 - s) ?st = Some (1 - s)"
    using s(3,4) d by (simp add: slot_of_pid_def Let_def alive_def)
  let ?a = "upd s (\<lambda>p. p\<lparr>p_msg_ptr := 0\<rparr>) ?st"
  let ?b = "upd s (\<lambda>p. p\<lparr>p_state := SendBlocked, p_send_to := 1 - s, p_inbox := msg_zero\<rparr>) ?a"
  have snd: "snd (ipc_send plain_services 0 (1 - s) msg_zero 0 ?st) = block_current plain_services 0 ?b"
    using s slot d by (simp add: ipc_send_def Let_def)
  let ?c = "save_current 0 ?b"
  have cb: "current ?b 0 = Some s" using s(2) by simp
  have c: "pst ?c s = SendBlocked" "p_send_to (procs ?c s) = 1 - s"
    unfolding save_current_def cb option.case by (simp_all add: pst_def)
  from dispatch_ipc_view [of ?c s plain_services 0] c
  have v: "pst (block_current plain_services 0 ?b) s = SendBlocked"
    "p_send_to (procs (block_current plain_services 0 ?b) s) = 1 - s"
    by (simp_all add: block_current_def in_ipc_def ipc_view_def pst_def)
  have "reachable plain_services (block_current plain_services 0 ?b)"
    using after [OF reach send_step [of plain_services ?st 0 "1 - s" msg_zero 0]] unfolding snd .
  from ipc_partner_alive [OF this d(3), of "1 - s"] this v show ?thesis by metis
qed

end
