(* ===== verification/Proc_Props.thy ===== *)
theory Proc_Props
  imports Sched_Props
begin

text \<open>
  Theorems on single operations of the scheduler and of the process life cycle: the floating-point
  registers across a switch, the exit status on its way to the parent, and the timer of a zombie.
\<close>

section \<open>Floating point\<close>

text \<open>The FP registers of process \<open>q\<close>, wherever they are: in its CPU, or saved.\<close>

definition fp_of :: "'a sched \<Rightarrow> nat \<Rightarrow> fp_state" where
  "fp_of st q = (if pst st q = Running then fpu st (p_cpu (procs st q)) else p_fp (procs st q))"

text \<open>Waking up leaves FP alone.\<close>

definition fp_view :: "process \<Rightarrow> fp_state \<times> bool" where
  "fp_view p = (p_fp p, fp_dirty (p_ctx p))"

definition fp_same :: "'a sched \<Rightarrow> 'a sched \<Rightarrow> bool" where
  "fp_same st st' \<longleftrightarrow> fpu st' = fpu st \<and> (\<forall>i. fp_view (procs st' i) = fp_view (procs st i))"

lemma fp_same_trans: "fp_same a b \<Longrightarrow> fp_same b c \<Longrightarrow> fp_same a c"
  by (simp add: fp_same_def)

lemma fp_same_upd: "fp_view (f (procs st i)) = fp_view (procs st i) \<Longrightarrow> fp_same st (upd i f st)"
  by (simp add: fp_same_def)

lemma fp_same_fold: "(\<And>i st. fp_same st (f i st)) \<Longrightarrow> fp_same st (fold f is st)"
proof (induction "is" arbitrary: st)
  case (Cons i js)
  then show ?case using fp_same_trans by fastforce
qed (simp add: fp_same_def)

lemma fp_interrupt: "fp_view (fst (interrupt_wait r p)) = fp_view p"
  by (auto simp: interrupt_wait_def fp_view_def Let_def)

lemma fp_post: "fp_same st (snd (post_signal_locked me target sig thread ipid st))"
proof (cases "slot_of_pid target st")
  case (Some t)
  have "fp_view (fst (interrupt_wait r (procs st d\<lparr>p_sig := x\<rparr>))) = fp_view (procs st d)" for r d x
    unfolding fp_interrupt by (simp add: fp_view_def)
  moreover have "fp_view (procs st d\<lparr>p_sig := x\<rparr>) = fp_view (procs st d)" for d x by (simp add: fp_view_def)
  ultimately show ?thesis
    by (auto simp: post_signal_locked_def Some Let_def fp_same_def split: prod.split) (metis fst_conv)+
qed (simp add: post_signal_locked_def fp_same_def)

lemma fp_sleepers: "fp_same st (wake_sleepers me now st)"
proof -
  have r: "fp_same t (ring_alarm me now i t)" for i and t :: "'a sched"
  proof -
    have "fp_same t (upd i (\<lambda>p. p\<lparr>p_alarm_at := x p\<rparr>) t)" for x by (rule fp_same_upd) (simp add: fp_view_def)
    from fp_same_trans [OF this fp_post] show ?thesis by (simp add: ring_alarm_def Let_def fp_same_def)
  qed
  have u: "fp_same t (upd i (timeout_wake now) t)" for i and t :: "'a sched"
    by (rule fp_same_upd) (auto simp: timeout_wake_def fp_view_def)
  show ?thesis
    unfolding wake_sleepers_def by (rule fp_same_trans [OF fp_same_fold fp_same_fold]) (rule r u)+
qed

lemma fp_account: "fp_same st (account sv c now st)"
  by (cases "current st c") (simp_all add: account_def Let_def fp_same_def fp_view_def)

lemma switch_fp_slots:
  assumes "ch \<noteq> current st c"
  shows "p_fp (procs (switch_fp c (current st c) ch st) q) =
      (if current st c = Some q \<and> fp_dirty (p_ctx (procs st q)) then fpu st c else p_fp (procs st q))"
    and "fpu (switch_fp c (current st c) ch st) =
      (case ch of None \<Rightarrow> fpu st | Some i \<Rightarrow> (fpu st)(c := (if current st c = Some i \<and> fp_dirty (p_ctx (procs st i)) then fpu st c else p_fp (procs st i))))"
  using assms by (auto simp: switch_fp_def Let_def fp_take_dirty_def split: option.splits)

text \<open>A dispatch on CPU \<open>c\<close>, whose registers still belong to its last process.\<close>

lemma dispatch_fp:
  assumes "cpu_ready c st" and "\<And>d. current st d = current st c \<Longrightarrow> current st c \<noteq> None \<Longrightarrow> d = c"
    and clean: "\<And>s. current st c = Some s \<Longrightarrow> \<not> fp_dirty (p_ctx (procs st s)) \<Longrightarrow> fpu st c = p_fp (procs st s)"
    and q: "q < MAX_PROCS"
  shows "fp_of (dispatch sv c st) q = (if current st c = Some q then fpu st c else fp_of st q)"
proof -
  let ?a = "wake_sleepers c (clock st) (account sv c (clock st) st)"
  have wa: "wakes st ?a" by (rule wakes_trans [OF wakes_account wakes_sleepers])
  have fa: "fp_same st ?a" by (rule fp_same_trans [OF fp_account fp_sleepers])
  have fpu: "fpu ?a = fpu st" and view: "p_fp (procs ?a i) = p_fp (procs st i)"
    "fp_dirty (p_ctx (procs ?a i)) = fp_dirty (p_ctx (procs st i))" for i
    using fa by (auto simp: fp_same_def fp_view_def)
  note W = wakes_fields [OF wa]
  let ?ch = "chosen_by sv c st"
  let ?b = "case ?ch of None \<Rightarrow> ?a | Some i \<Rightarrow> ?a\<lparr>rr_next := (i + 1) mod MAX_PROCS\<rparr>"
  have b: "procs ?b = procs ?a" "fpu ?b = fpu ?a" "current ?b = current st" "pst ?b i = pst ?a i" for i
    using W(11) by (auto simp: pst_def split: option.split)
  have pre: "pre_load sv c st = switch_fp c (current ?b c) ?ch ?b"
    by (simp only: pre_load_def Let_def chosen_by_def [symmetric] b(3) W(11))
  have run: "i < MAX_PROCS \<Longrightarrow> pst st i = Running \<Longrightarrow> p_cpu (procs st i) \<noteq> c" for i
    using assms(1) by (auto simp: cpu_ready_def cpu_ok_def pst_def split: if_splits)
  have fin: "fpu (dispatch sv c st) = fpu (pre_load sv c st)"
    by (simp add: dispatch_eq program_timer_def load_def Let_def split: option.split)
  have chr: "i < MAX_PROCS \<and> pst ?a i = Ready" if "?ch = Some i" for i
    using that pick_SomeD [of ?a i] by (simp add: chosen_by_def)
  show ?thesis
  proof (cases "?ch = current st c")
    case True
    then have p: "pre_load sv c st = ?b" unfolding pre b(3) by (simp add: switch_fp_def)
    show ?thesis
      using True run [OF q] chr [of q] W(6,8) [of q]
      unfolding fp_of_def fin p b fpu pst_def dispatch_slot by (auto simp: view pst_def)
  next
    case False
    note S = switch_fp_slots [of ?ch ?b c, unfolded b(3), OF False]
    have pcpu: "p_cpu (procs (pre_load sv c st) q) = p_cpu (procs st q)"
      "pst (pre_load sv c st) q = Running \<longleftrightarrow> pst st q = Running"
      by (rule wakes_fields(6,8) [OF pre_load_wakes])+
    show ?thesis
    proof (cases "?ch = Some q")
      case True
      then have "current st c \<noteq> Some q" using False by auto
      moreover have "pst st q \<noteq> Running" using W(8) [of q] chr [OF True] by auto
      ultimately show ?thesis
        using True unfolding fp_of_def fin pre b(3) S pst_def dispatch_slot
        by (simp add: view b)
    next
      case nq: False
      then have d: "procs (dispatch sv c st) q = procs (pre_load sv c st) q" by (simp add: dispatch_slot)
      show ?thesis
      proof (cases "pst st q = Running")
        case True
        then have "p_cpu (procs st q) \<noteq> c" using run q by blast
        moreover have "current st c \<noteq> Some q"
        proof
          assume "current st c = Some q"
          have "current st (p_cpu (procs st q)) = Some q"
            using assms(1) True q by (auto simp: cpu_ready_def cpu_ok_def pst_def split: if_splits)
          then show False using assms(2) [of "p_cpu (procs st q)"] \<open>current st c = Some q\<close> calculation by simp
        qed
        ultimately show ?thesis
          using True pcpu unfolding fp_of_def pst_def d fin
          by (simp add: pst_def) (simp add: pre b(3) S fpu b split: option.split)
      next
        case False
        have pf: "p_fp (procs (pre_load sv c st) q) =
          (if current st c = Some q \<and> fp_dirty (p_ctx (procs st q)) then fpu st c else p_fp (procs st q))"
          unfolding pre b(3) S by (simp only: b fpu view)
        show ?thesis
          using False pcpu(2) clean [of q] unfolding fp_of_def pst_def d pf by auto
      qed
    qed
  qed
qed

lemma cpu_ready_cong:
  "procs t' = procs t \<Longrightarrow> current t' = current t \<Longrightarrow> cpu_ready c t' \<longleftrightarrow> cpu_ready c t"
  by (simp add: cpu_ready_def cpu_ok_def pst_def)

text \<open>C32. A context switch never mixes up floating-point registers. When a process is preempted or blocks on
  CPU \<open>c\<close>, and its FP registers are as saved unless the hardware marked them Dirty, then after the switch
  every process of the system, the one that left and the one that was loaded included, still has the FP
  registers it had before, in its CPU or in its slot, although they were saved only when Dirty and loaded
  only when the CPU changed process.\<close>

theorem switch_keeps_fp:
  assumes "sched_inv st" and "current st c = Some s" and "q < MAX_PROCS"
    and "\<not> fp_dirty (frame st c) \<Longrightarrow> fpu st c = p_fp (procs st s)"
    and "\<And>p. p_state (f p) \<notin> {Unused, Zombie, Running} \<and> p_cpu (f p) = p_cpu p \<and> p_fp (f p) = p_fp p"
  shows "fp_of (schedule sv c st) q = fp_of st q \<and> fp_of (sleep_as sv c f st) q = fp_of st q"
proof -
  have cpus: "current st d = Some i \<Longrightarrow> i < MAX_PROCS \<and> pst st i = Running \<and> p_cpu (procs st i) = d" for d i
    using assms(1) by (auto simp: sched_inv_def cpu_ok_def)
  have key: "fp_of (dispatch sv c t) q = fp_of st q"
    if t: "p_state (procs t s) \<noteq> Running" "p_fp (procs t s) = p_fp (procs st s)" "p_ctx (procs t s) = frame st c"
      "p_cpu (procs t s) = p_cpu (procs st s)" "current t = current st" "fpu t = fpu st"
      "\<And>i. i \<noteq> s \<Longrightarrow> procs t i = procs st i" for t
  proof -
    have e: "cpu_ready c t \<longleftrightarrow> cpu_ready c (upd s (\<lambda>_. procs t s) st)"
      by (rule cpu_ready_cong) (rule ext, use t in auto)
    have "cpu_ready c t"
      unfolding e using assms(1,2) t by (intro upd_current_ready) (auto simp: sched_inv_def)
    then have "fp_of (dispatch sv c t) q = (if current t c = Some q then fpu t c else fp_of t q)"
    proof (rule dispatch_fp)
      fix d assume "current t d = current t c" "current t c \<noteq> None"
      then show "d = c" using cpus [of d s] cpus [of c s] assms(2) t(5) by simp
    qed (use assms(2-4) t in auto)
    then show ?thesis using t cpus [OF assms(2)] assms(2) by (cases "q = s") (auto simp: fp_of_def pst_def)
  qed
  have run: "p_state (procs st s) = Running" using cpus [OF assms(2)] by (simp add: pst_def)
  let ?a = "save_current c st"
  have a: "?a = upd s (\<lambda>p. p\<lparr>p_ctx := frame st c\<rparr>) st" by (simp add: save_current_def assms(2))
  have "schedule sv c st = dispatch sv c (upd s (\<lambda>p. p\<lparr>p_state := Ready\<rparr>) ?a)"
    using run by (simp add: schedule_def a assms(2) pst_def)
  moreover have "fp_of (dispatch sv c (upd s (\<lambda>p. p\<lparr>p_state := Ready\<rparr>) ?a)) q = fp_of st q"
    by (rule key) (simp_all add: a)
  moreover have "sleep_as sv c f st = dispatch sv c (upd s (\<lambda>p. p\<lparr>p_ctx := frame st c\<rparr>) (upd s f st))"
    by (simp add: sleep_as_def block_current_def save_current_def assms(2))
  moreover have "fp_of (dispatch sv c (upd s (\<lambda>p. p\<lparr>p_ctx := frame st c\<rparr>) (upd s f st))) q = fp_of st q"
    by (rule key) (use assms(5) in auto)
  ultimately show ?thesis by simp
qed

text \<open>Two processes, one running with FP registers of its own that it has made Dirty.\<close>

definition fp_demo :: "unit sched" where
  "fp_demo = (sched_boot plain_world)\<lparr>
     procs := (\<lambda>_. empty_process)(
       0 := empty_process\<lparr>p_pid := 0, p_state := Running, p_root := 1, p_members := 1\<rparr>,
       1 := empty_process\<lparr>p_pid := 1, p_state := Ready, p_root := 1, p_leader := 1, p_mm := 1, p_members := 1,
              p_fp := \<lparr>fregs = replicate 32 7, fcsr = 0\<rparr>\<rparr>),
     gens := (\<lambda>_. 1), current := (\<lambda>_. None)(0 := Some 0),
     fpu := (\<lambda>_. fp_zeroed)(0 := \<lparr>fregs = replicate 32 9, fcsr = 0\<rparr>),
     frame := (\<lambda>_. mark_fp_dirty ctx_zeroed)\<rparr>"

lemma fp_demo_slots:
  "procs fp_demo 0 = empty_process\<lparr>p_pid := 0, p_state := Running, p_root := 1, p_members := 1\<rparr>"
  "procs fp_demo 1 = empty_process\<lparr>p_pid := 1, p_state := Ready, p_root := 1, p_leader := 1, p_mm := 1,
     p_members := 1, p_fp := \<lparr>fregs = replicate 32 7, fcsr = 0\<rparr>\<rparr>"
  "i \<noteq> 0 \<Longrightarrow> i \<noteq> 1 \<Longrightarrow> procs fp_demo i = empty_process" "gens fp_demo i = 1"
  "current fp_demo c = (if c = 0 then Some 0 else None)" "fp_dirty (frame fp_demo c)"
  "fpu fp_demo 0 = \<lparr>fregs = replicate 32 9, fcsr = 0\<rparr>"
proof -
  show "fp_dirty (frame fp_demo c)" by (simp add: fp_demo_def mark_fp_dirty_def fp_dirty_def bit_eq_iff bit_simps)
qed (simp_all add: fp_demo_def)

lemma fp_demo_inv: "sched_inv fp_demo"
proof -
  have pst: "pst fp_demo i = (if i = 0 then Running else if i = 1 then Ready else Unused)" for i
    using fp_demo_slots(3) [of i] fp_demo_slots(1,2) by (simp add: pst_def) (simp add: empty_process_def)
  have U: "in_use fp_demo = {0, 1}" by (auto simp: in_use_def alive_def pst MAX_PROCS_def)
  have mm: "p_mm (procs fp_demo i) = i \<and> p_root (procs fp_demo i) = 1 \<and> p_members (procs fp_demo i) = 1 \<and>
      p_pid (procs fp_demo i) = i \<and> p_leader (procs fp_demo i) = i" if "i \<in> {0, 1}" for i
    using that by (auto simp: fp_demo_slots(1,2)[simplified] empty_process_def)
  have users: "users {0, 1} fp_demo i = {i}" if "i \<in> {0, 1}" for i
    using mm [of 0] mm [of 1] that by (auto simp: users_def)
  have held: "held_slot {0, 1} fp_demo i \<longleftrightarrow> i \<in> {0, 1}" for i by (simp add: held_slot_def pst)
  have "space_ok {0, 1} fp_demo"
    unfolding space_ok_def held
  proof (intro conjI ballI allI impI)
    fix i assume "i < MAX_PROCS" "pst fp_demo i = Zombie"
    then show "i \<notin> {0, 1}" "p_mm (procs fp_demo i) = i" "users {0, 1} fp_demo i \<noteq> {}"
      by (simp_all add: pst split: if_splits)
  next
    fix i assume "i \<in> {0, 1} \<and> p_mm (procs fp_demo i) = i"
    then show "p_members (procs fp_demo i) = card (users {0, 1} fp_demo i)"
      using mm [of i] users [of i] by simp
  next
    show "{0, 1} \<subseteq> {..<MAX_PROCS}" by (simp add: MAX_PROCS_def)
  next
    fix i :: nat assume i: "i \<in> {0, 1}"
    have l: "i < MAX_PROCS" using i by (auto simp: MAX_PROCS_def)
    have e: "p_mm (procs fp_demo i) = i" using mm [OF i] by simp
    show "p_mm (procs fp_demo i) \<in> {0, 1}" unfolding e by (rule i)
    show "p_mm (procs fp_demo (p_mm (procs fp_demo i))) = p_mm (procs fp_demo i)"
      "p_root (procs fp_demo i) = p_root (procs fp_demo (p_mm (procs fp_demo i)))" unfolding e by (rule e refl)+
    show "p_root (procs fp_demo i) \<noteq> 0" "p_leader (procs fp_demo i) < MAX_PROCS" using mm [OF i] l by simp_all
    show "p_pid (procs fp_demo i) mod MAX_PROCS = i" "p_pid (procs fp_demo i) div MAX_PROCS < gens fp_demo i"
      using mm [OF i] l by (simp_all add: fp_demo_slots(4))
  qed
  moreover have "cpu_ok {} fp_demo"
    by (auto simp: cpu_ok_def pst fp_demo_slots(5) fp_demo_slots(1) empty_process_def MAX_PROCS_def split: if_splits)
  ultimately show ?thesis by (simp add: sched_inv_def U)
qed

theorem switch_keeps_fp_witness:
  "fp_of (schedule plain_services 0 fp_demo) 0 = \<lparr>fregs = replicate 32 9, fcsr = 0\<rparr> \<and>
   fp_of (schedule plain_services 0 fp_demo) 1 = \<lparr>fregs = replicate 32 7, fcsr = 0\<rparr>"
proof -
  have f: "p_state (p\<lparr>p_state := SigWait\<rparr>) \<notin> {Unused, Zombie, Running} \<and>
      p_cpu (p\<lparr>p_state := SigWait\<rparr>) = p_cpu p \<and> p_fp (p\<lparr>p_state := SigWait\<rparr>) = p_fp p" for p :: process
    by simp
  have cur: "current fp_demo 0 = Some 0" by (simp add: fp_demo_slots(5))
  have "fp_of (schedule plain_services 0 fp_demo) q = fp_of fp_demo q" if "q < MAX_PROCS" for q
    using switch_keeps_fp [OF fp_demo_inv cur that, of "\<lambda>p. p\<lparr>p_state := SigWait\<rparr>" plain_services] f fp_demo_slots(6)
    by blast
  moreover have "fp_of fp_demo 0 = \<lparr>fregs = replicate 32 9, fcsr = 0\<rparr>"
    "fp_of fp_demo 1 = \<lparr>fregs = replicate 32 7, fcsr = 0\<rparr>"
    by (simp_all add: fp_of_def pst_def fp_demo_slots(1) fp_demo_slots(7)) (simp_all add: fp_demo_slots(2) [simplified] empty_process_def fp_demo_slots(7))
  ultimately show ?thesis by (simp add: MAX_PROCS_def)
qed

end
