(* ===== verification/Ring.thy ===== *)
theory Ring
  imports Prelude
begin

text \<open>
  The byte rings of the kernel: \<open>pipe_read\<close>/\<open>pipe_write\<close> (\<open>kernel/src/file.rs\<close>) and
  \<open>read\<close>/\<open>write\<close> (\<open>kernel/src/unix.rs\<close>) share the same two copy loops over a circular
  buffer of \<open>cap\<close> bytes in kernel memory, written once here with the capacity and the
  buffer's address as arguments. The caller's buffer is the list of bytes read or written.

  The section on contents shows what the loops do to the bytes of the ring, and the locale
  \<open>fifo\<close> is the contract of a byte channel: whatever the interleaving of reads and
  writes, the bytes come out once each, in the order they went in.
\<close>

section \<open>The copy loops\<close>

text \<open>
  \<open>cap\<close> is a positive constant at every call (\<open>PIPE_CAP\<close>, \<open>CAP\<close>); the sources' \<open>%\<close>
  would panic on 0, so the loops stop there.
\<close>

lemma ring_chunk_pos:
  assumes "d < n" "0 < (cap :: nat)"
  shows "n - (d + min (n - d) (cap - k mod cap)) < n - d"
proof -
  have "k mod cap < cap" using assms(2) by simp
  then show ?thesis using assms(1) by auto
qed

function ring_read :: "nat \<Rightarrow> mem \<Rightarrow> nat \<Rightarrow> nat \<Rightarrow> nat \<Rightarrow> nat \<Rightarrow> u8 list" where
  "ring_read cap m buf head n done' =
     (if done' < n \<and> 0 < cap then
        let at = (head + done') mod cap;
            chunk = min (n - done') (cap - at)
        in mem_read m (buf + at) chunk @ ring_read cap m buf head n (done' + chunk)
      else [])"
  by pat_completeness auto
termination
  by (relation "measure (\<lambda>(cap, m, buf, head, n, d). n - d)") (auto intro: ring_chunk_pos)

function ring_write :: "nat \<Rightarrow> nat \<Rightarrow> nat \<Rightarrow> u8 list \<Rightarrow> nat \<Rightarrow> mem \<Rightarrow> mem" where
  "ring_write cap buf pos bs done' m =
     (if done' < length bs \<and> 0 < cap then
        let at = (pos + done') mod cap;
            chunk = min (length bs - done') (cap - at)
        in ring_write cap buf pos bs (done' + chunk)
             (mem_write m (buf + at) (take chunk (drop done' bs)))
      else m)"
  by pat_completeness auto
termination
  by (relation "measure (\<lambda>(cap, buf, pos, bs, d, m). length bs - d)") (auto intro: ring_chunk_pos)

declare ring_read.simps [simp del] ring_write.simps [simp del]

section \<open>Contents of a ring\<close>

definition ring_byte :: "nat \<Rightarrow> mem \<Rightarrow> nat \<Rightarrow> nat \<Rightarrow> u8" where
  "ring_byte cap m buf k = m (buf + k mod cap)"

definition ring_bytes :: "nat \<Rightarrow> mem \<Rightarrow> nat \<Rightarrow> nat \<Rightarrow> nat \<Rightarrow> u8 list" where
  "ring_bytes cap m buf head len = map (\<lambda>i. ring_byte cap m buf (head + i)) [0..<len]"

lemma length_ring_bytes [simp]: "length (ring_bytes cap m buf head len) = len"
  by (simp add: ring_bytes_def)

lemma nth_ring_bytes [simp]:
  "i < len \<Longrightarrow> ring_bytes cap m buf head len ! i = ring_byte cap m buf (head + i)"
  by (simp add: ring_bytes_def)

lemma ring_byte_mod [simp]: "ring_byte cap m buf (k mod cap + i) = ring_byte cap m buf (k + i)"
  by (simp add: ring_byte_def mod_add_left_eq)

lemma mod_run:
  assumes "i < chunk" "chunk \<le> cap - k mod cap" "0 < (cap :: nat)"
  shows "(k + i) mod cap = k mod cap + i"
proof -
  have "k mod cap + i < cap" using assms by linarith
  then show ?thesis by (metis mod_add_left_eq mod_less)
qed

lemma mem_read_run:
  assumes "chunk \<le> cap - k mod cap" "0 < cap"
  shows "mem_read m (buf + k mod cap) chunk = map (\<lambda>i. ring_byte cap m buf (k + i)) [0..<chunk]"
  using mod_run [OF _ assms] by (intro nth_equalityI) (auto simp: ring_byte_def add.assoc)

lemma ring_read_eq:
  assumes "0 < cap"
  shows "ring_read cap m buf head n done' = map (\<lambda>i. ring_byte cap m buf (head + i)) [done'..<n]"
  using assms
proof (induction cap m buf head n done' rule: ring_read.induct)
  case (1 cap m buf head n d)
  show ?case
  proof (cases "d < n")
    case True
    let ?at = "(head + d) mod cap"
    let ?c = "min (n - d) (cap - ?at)"
    have "map (\<lambda>i. ring_byte cap m buf (head + i)) [d..<n] =
        map (\<lambda>i. ring_byte cap m buf (head + d + i)) [0..<?c] @
        map (\<lambda>i. ring_byte cap m buf (head + i)) [d + ?c..<n]"
      by (intro nth_equalityI) (auto simp: nth_append add.assoc not_less)
    then show ?thesis
      using True "1.IH" [OF _ refl refl] "1.prems" mem_read_run [of ?c cap "head + d" m buf]
      by (subst ring_read.simps) (simp add: Let_def)
  qed (subst ring_read.simps, simp)
qed

lemma ring_read_bytes:
  "0 < cap \<Longrightarrow> ring_read cap m buf head n 0 = ring_bytes cap m buf head n"
  by (simp add: ring_read_eq ring_bytes_def)

lemma ring_write_outside:
  assumes "x < buf \<or> buf + cap \<le> x"
  shows "ring_write cap buf pos bs d m x = m x"
  using assms
proof (induction cap buf pos bs d m rule: ring_write.induct)
  case (1 cap buf pos bs d m)
  show ?case
  proof (cases "d < length bs \<and> 0 < cap")
    case True
    let ?at = "(pos + d) mod cap"
    have "?at < cap" using True by simp
    then show ?thesis
      using True "1.IH" [OF True refl refl "1.prems"] "1.prems"
      by (subst ring_write.simps) (auto simp: Let_def intro!: mem_write_out)
  qed (subst ring_write.simps, auto)
qed

lemma ring_index_inj:
  assumes "(p + i) mod cap = (p + j) mod cap" "i < cap" "j < (cap :: nat)"
  shows "i = j"
proof -
  have "int cap dvd (int p + int i) - (int p + int j)"
    using assms(1) by (metis mod_eq_dvd_iff of_nat_add of_nat_mod)
  then have "int i mod int cap = int j mod int cap" by (simp add: mod_eq_dvd_iff)
  then show ?thesis using assms(2,3) by simp
qed

lemma mem_write_run:
  assumes "0 < cap" "d \<le> length bs" "length bs \<le> cap" "i < cap"
    and c: "c = min (length bs - d) (cap - (pos + d) mod cap)"
  shows "ring_byte cap (mem_write m (buf + (pos + d) mod cap) (take c (drop d bs))) buf (pos + i) =
    (if d \<le> i \<and> i < d + c then bs ! i else ring_byte cap m buf (pos + i))"
proof (cases "d \<le> i \<and> i < d + c")
  case True
  then obtain j where j: "i = d + j" "j < c" by (metis add_less_cancel_left le_Suc_ex)
  have "(pos + d + j) mod cap = (pos + d) mod cap + j"
    using j(2) c assms(1) by (intro mod_run [of j c]) auto
  then show ?thesis
    using True j c assms(2)
      mem_write_in [of j "take c (drop d bs)" m "buf + (pos + d) mod cap"]
    by (simp add: ring_byte_def add.assoc)
next
  case False
  let ?at = "(pos + d) mod cap"
  have "(pos + i) mod cap < ?at \<or> ?at + c \<le> (pos + i) mod cap"
  proof (rule ccontr)
    assume "\<not> ?thesis"
    then obtain j where j: "(pos + i) mod cap = ?at + j" "j < c"
      by (metis add_less_cancel_left le_Suc_ex not_less)
    then have "(pos + i) mod cap = (pos + (d + j)) mod cap"
      using mod_run [of j c cap "pos + d"] c assms(1) by (simp add: add.assoc)
    then have "i = d + j"
      using ring_index_inj [of pos i cap "d + j"] j(2) c assms(1-4) by linarith
    with False j(2) show False by simp
  qed
  then have "mem_write m (buf + ?at) (take c (drop d bs)) (buf + (pos + i) mod cap) =
      m (buf + (pos + i) mod cap)"
    using c assms(2) by (intro mem_write_out) auto
  with False show ?thesis by (auto simp: ring_byte_def)
qed

lemma ring_write_byte:
  assumes "0 < cap" "length bs \<le> cap" "i < cap"
  shows "ring_byte cap (ring_write cap buf pos bs d m) buf (pos + i) =
    (if d \<le> i \<and> i < length bs then bs ! i else ring_byte cap m buf (pos + i))"
  using assms
proof (induction cap buf pos bs d m rule: ring_write.induct)
  case (1 cap buf pos bs d m)
  show ?case
  proof (cases "d < length bs \<and> 0 < cap")
    case True
    let ?c = "min (length bs - d) (cap - (pos + d) mod cap)"
    have "d + ?c \<le> length bs" using True by linarith
    then show ?thesis
      using True "1.IH" [OF True refl refl "1.prems"]
        mem_write_run [of cap d bs i ?c pos m buf] "1.prems"
      by (subst ring_write.simps) (auto simp: Let_def)
  qed (subst ring_write.simps, use "1.prems" in auto)
qed

lemma ring_bytes_append:
  "ring_bytes cap m buf head (k + n) = ring_bytes cap m buf head k @ ring_bytes cap m buf (head + k) n"
  by (rule nth_equalityI) (auto simp: nth_append add.assoc)

text \<open>Writing behind the contents appends; reading takes from the front.\<close>

lemma ring_write_bytes:
  assumes "0 < cap" "len + length bs \<le> cap"
  shows "ring_bytes cap (ring_write cap buf (head + len) bs 0 m) buf head (len + length bs) =
    ring_bytes cap m buf head len @ bs"
proof (rule nth_equalityI)
  fix i
  assume "i < length (ring_bytes cap (ring_write cap buf (head + len) bs 0 m) buf head (len + length bs))"
  then have i: "i < len + length bs" by simp
  let ?m = "ring_write cap buf (head + len) bs 0 m"
  show "ring_bytes cap ?m buf head (len + length bs) ! i = (ring_bytes cap m buf head len @ bs) ! i"
  proof (cases "i < len")
    case True
    let ?j = "i + (cap - len)"
    have "head + len + ?j = head + i + cap" using True assms by simp
    then have e: "ring_byte cap m' buf (head + len + ?j) = ring_byte cap m' buf (head + i)" for m'
      by (simp add: ring_byte_def mod_add_self2 flip: add.assoc)
    have "ring_byte cap ?m buf (head + len + ?j) = ring_byte cap m buf (head + len + ?j)"
    proof -
      have "\<not> ?j < length bs" "?j < cap" using True assms by linarith+
      then show ?thesis
        using ring_write_byte [of cap bs ?j buf "head + len" 0 m] assms by simp
    qed
    then have "ring_byte cap ?m buf (head + i) = ring_byte cap m buf (head + i)"
      unfolding e .
    with True i show ?thesis by (simp add: nth_append)
  next
    case False
    then obtain j where j: "i = len + j" "j < length bs" using i by (metis le_Suc_ex add_less_cancel_left not_less)
    then have "ring_byte cap ?m buf (head + len + j) = bs ! j"
      using assms by (subst ring_write_byte) auto
    with j show ?thesis by (simp add: nth_append add.assoc)
  qed
qed simp

lemma ring_bytes_split:
  "n \<le> len \<Longrightarrow> ring_bytes cap m buf head len =
    ring_bytes cap m buf head n @ ring_bytes cap m buf ((head + n) mod cap) (len - n)"
proof -
  assume "n \<le> len"
  moreover have "ring_bytes cap m buf (k mod cap) j = ring_bytes cap m buf k j" for k j
    by (rule nth_equalityI) auto
  ultimately show ?thesis using ring_bytes_append [of cap m buf head n "len - n"] by simp
qed

lemma ring_bytes_cong:
  assumes "\<And>x. buf \<le> x \<Longrightarrow> x < buf + cap \<Longrightarrow> m x = m' x" "0 < cap"
  shows "ring_bytes cap m buf head len = ring_bytes cap m' buf head len"
  using assms by (intro nth_equalityI) (auto simp: ring_byte_def)

section \<open>Byte channels\<close>

text \<open>
  A channel: \<open>put\<close> takes a list of items and says how many of them it accepted, \<open>get\<close>
  takes at most the number asked for, and \<open>other\<close> is whatever else the system does.
\<close>

datatype ('a, 'o) channel_op = Put "'a list" | Get nat | Other 'o

locale fifo =
  fixes inv :: "'s \<Rightarrow> bool"
    and items :: "'s \<Rightarrow> 'a list"
    and put :: "'a list \<Rightarrow> 's \<Rightarrow> nat \<times> 's"
    and get :: "nat \<Rightarrow> 's \<Rightarrow> 'a list \<times> 's"
    and other :: "'o \<Rightarrow> 's \<Rightarrow> 's"
  assumes put_law: "inv s \<Longrightarrow> put xs s = (n, s') \<Longrightarrow>
      inv s' \<and> n \<le> length xs \<and> items s' = items s @ take n xs"
    and get_law: "inv s \<Longrightarrow> get n s = (xs, s') \<Longrightarrow>
      inv s' \<and> length xs \<le> n \<and> items s = xs @ items s'"
    and other_law: "inv s \<Longrightarrow> inv (other x s) \<and> items (other x s) = items s"
begin

text \<open>What goes in and what comes out over a run of the system.\<close>

fun run :: "('a, 'o) channel_op list \<Rightarrow> 's \<Rightarrow> 'a list \<times> 'a list \<times> 's" where
  "run [] s = ([], [], s)"
| "run (Put xs # ops) s =
     (case put xs s of (n, s') \<Rightarrow> case run ops s' of (i, out, t) \<Rightarrow> (take n xs @ i, out, t))"
| "run (Get n # ops) s =
     (case get n s of (xs, s') \<Rightarrow> case run ops s' of (i, out, t) \<Rightarrow> (i, xs @ out, t))"
| "run (Other x # ops) s = run ops (other x s)"

lemma run_order:
  "inv s \<Longrightarrow> run ops s = (ins, outs, t) \<Longrightarrow> inv t \<and> items s @ ins = outs @ items t"
proof (induction ops s arbitrary: ins outs t rule: run.induct)
  case (2 xs ops s)
  obtain n s' where p: "put xs s = (n, s')" by fastforce
  obtain i out u where r: "run ops s' = (i, out, u)" by (cases "run ops s'") auto
  from put_law [OF "2.prems"(1) p] "2.IH" [OF p [symmetric] _ r] "2.prems"(2) p r
  show ?case by auto
next
  case (3 n ops s)
  obtain xs s' where g: "get n s = (xs, s')" by fastforce
  obtain i out u where r: "run ops s' = (i, out, u)" by (cases "run ops s'") auto
  from get_law [OF "3.prems"(1) g] "3.IH" [OF g [symmetric] _ r] "3.prems"(2) g r
  show ?case by auto
next
  case (4 x ops s)
  from other_law [OF "4.prems"(1)] "4.IH" "4.prems"(2) show ?case by auto
qed auto

end

end
