(* ===== verification/Spans.thy ===== *)
theory Spans
  imports Shm "HOL-Library.Multiset"
begin

text \<open>
  Ownership of contiguous blocks of frames. Pipes, local sockets and generated files keep
  their bytes in blocks taken with \<open>alloc_contig\<close> (\<open>kernel/src/frame_allocator.rs\<close>); a
  component's spans are the multiset of its (address, pages) pairs. \<open>spans_ok\<close> says that the
  blocks are apart from each other and that every frame of them has exactly one reference;
  allocating and freeing a block keep it.
\<close>

definition span_pages :: "nat \<times> nat \<Rightarrow> nat multiset" where
  "span_pages = (\<lambda>(b, n). mset (map (\<lambda>k. b + k * 4096) [0..<n]))"

definition held_pages :: "(nat \<times> nat) multiset \<Rightarrow> nat multiset" where
  "held_pages M = \<Sum>\<^sub># (image_mset span_pages M)"

definition spans_ok :: "frames \<Rightarrow> (nat \<times> nat) multiset \<Rightarrow> bool" where
  "spans_ok fa M \<longleftrightarrow> owned (set_mset (held_pages M)) fa \<and>
     (\<forall>a. count (held_pages M) a \<le> 1) \<and> (\<forall>(b, n) \<in># M. 4096 dvd b \<and> 0 < b)"

lemma set_span_pages [simp]: "set_mset (span_pages (b, n)) = block b n"
  by (auto simp: span_pages_def block_def image_iff)

lemma held_pages_add [simp]: "held_pages (add_mset x M) = span_pages x + held_pages M"
  by (simp add: held_pages_def)

lemma held_pages_empty [simp]: "held_pages {#} = {#}"
  by (simp add: held_pages_def)

lemma count_span_pages: "count (span_pages (b, n)) a = (if a \<in> block b n then 1 else 0)"
proof -
  have "distinct (map (\<lambda>k. b + k * 4096) [0..<n])" by (auto simp: distinct_map inj_on_def)
  then have "count (mset (map (\<lambda>k. b + k * 4096) [0..<n])) a =
      (if a \<in> set (map (\<lambda>k. b + k * 4096) [0..<n]) then 1 else 0)"
    by (meson distinct_count_atmost_1)
  also have "set (map (\<lambda>k. b + k * 4096) [0..<n]) = block b n" by (auto simp: block_def)
  finally show ?thesis by (simp add: span_pages_def)
qed

lemma spans_okD:
  assumes "spans_ok fa M"
  shows "frames_inv fa" and "owned (set_mset (held_pages M)) fa"
    and "(b, n) \<in># M \<Longrightarrow> 4096 dvd b \<and> 0 < b"
  using assms by (auto simp: spans_ok_def owned_def)

lemma spans_apart:
  assumes "spans_ok fa (add_mset (b, n) M)"
  shows "block b n \<inter> set_mset (held_pages M) = {}"
proof -
  have "count (span_pages (b, n) + held_pages M) a \<le> 1" for a
    using assms by (simp add: spans_ok_def)
  then have "a \<notin> block b n \<or> count (held_pages M) a = 0" for a
    by (metis add_eq_self_zero count_span_pages count_union le_add1 le_antisym nle_le)
  then show ?thesis by (metis disjoint_iff count_eq_zero_iff)
qed

lemma alloc_span:
  assumes "spans_ok fa M" "alloc_contig n fa = Some (b, fa')"
  shows "spans_ok fa' (add_mset (b, n) M)" "0 < b" "0 < n"
proof -
  note m = moved_alloc_block [OF spans_okD(2) [OF assms(1)] assms(2)]
  have "count (span_pages (b, n)) a + count (held_pages M) a \<le> 1" for a
  proof (cases "a \<in> block b n")
    case True
    then have "count (held_pages M) a = 0" using m(5) by (auto simp: not_in_iff)
    then show ?thesis by (simp add: count_span_pages)
  next
    case False
    then show ?thesis using assms(1) by (simp add: count_span_pages spans_ok_def)
  qed
  moreover have "owned (set_mset (held_pages (add_mset (b, n) M))) fa'"
    using moved_owned [OF m(1)] by (simp add: Un_commute)
  ultimately show "spans_ok fa' (add_mset (b, n) M)" "0 < b" "0 < n"
    using assms(1) m by (auto simp: spans_ok_def)
qed

lemma free_span:
  assumes "spans_ok fa (add_mset (b, n) M)"
  shows "spans_ok (free_contig b n fa) M"
proof -
  let ?F = "block b n \<union> set_mset (held_pages M)"
  have o: "owned ?F fa" and b: "4096 dvd b" using assms by (auto simp: spans_ok_def)
  have "owned (?F - block b n) (free_contig b n fa)"
    using moved_owned [OF moved_free_block [OF o _ b]] by auto
  moreover have "?F - block b n = set_mset (held_pages M)" using spans_apart [OF assms] by auto
  moreover have "count (held_pages M) a \<le> 1" for a
  proof -
    have "count (held_pages (add_mset (b, n) M)) a \<le> 1" using assms unfolding spans_ok_def by blast
    then show ?thesis by simp
  qed
  ultimately show ?thesis using assms by (auto simp: spans_ok_def)
qed

text \<open>The bytes of two spans do not overlap.\<close>

lemma block_bytes:
  assumes "4096 dvd b" "b \<le> x" "x < b + n * 4096"
  shows "x div 4096 * 4096 \<in> block b n"
proof -
  obtain q where q: "b = 4096 * q" using assms(1) by (rule dvdE)
  have "q \<le> x div 4096" using assms(2) q by simp
  moreover have "x div 4096 < q + n" using assms(3) q by (simp add: less_mult_imp_div_less)
  ultimately show ?thesis using q by (auto simp: block_def image_iff intro!: bexI [of _ "x div 4096 - q"])
qed

lemma spans_bytes_apart:
  assumes "spans_ok fa (add_mset (b, n) (add_mset (c, k) M))" "c \<le> x" "x < c + k * 4096"
  shows "x < b \<or> b + n * 4096 \<le> x"
proof (rule ccontr)
  assume "\<not> ?thesis"
  then have x: "b \<le> x" "x < b + n * 4096" by auto
  have d: "4096 dvd b" "4096 dvd c" using assms(1) by (auto simp: spans_ok_def)
  have "x div 4096 * 4096 \<in> block b n" using block_bytes [OF d(1) x] .
  moreover have "x div 4096 * 4096 \<in> block c k" using block_bytes [OF d(2) assms(2,3)] .
  ultimately show False using spans_apart [OF assms(1)] by auto
qed

section \<open>Spans of a table\<close>

text \<open>The spans of a table of objects, \<open>f\<close> giving those of one entry.\<close>

definition table_spans :: "('a \<Rightarrow> (nat \<times> nat) multiset) \<Rightarrow> 'a list \<Rightarrow> (nat \<times> nat) multiset" where
  "table_spans f xs = \<Sum>\<^sub># (image_mset f (mset xs))"

lemma table_spans_simps [simp]:
  "table_spans f [] = {#}"
  "table_spans f (x # xs) = f x + table_spans f xs"
  "table_spans f (xs @ ys) = table_spans f xs + table_spans f ys"
  by (simp_all add: table_spans_def)

lemma table_spans_nth:
  assumes "i < length xs"
  obtains M where "table_spans f xs = f (xs ! i) + M" "\<And>x. table_spans f (xs[i := x]) = f x + M"
proof
  let ?M = "table_spans f (take i xs) + table_spans f (drop (Suc i) xs)"
  have "table_spans f (take i xs @ xs ! i # drop (Suc i) xs) = f (xs ! i) + ?M"
    by (simp add: add.left_commute)
  then show "table_spans f xs = f (xs ! i) + ?M"
    using id_take_nth_drop [OF assms] by simp
  show "table_spans f (xs[i := x]) = f x + ?M" for x
    using assms by (simp add: upd_conv_take_nth_drop add.left_commute)
qed

lemma table_spans_less:
  assumes "i < j" "j < length xs"
  obtains M where "table_spans f xs = f (xs ! i) + (f (xs ! j) + M)"
proof -
  let ?ys = "drop (Suc i) xs"
  have "j - Suc i < length ?ys" "?ys ! (j - Suc i) = xs ! j" using assms by auto
  then obtain M where M: "table_spans f ?ys = f (xs ! j) + M"
    using table_spans_nth [of "j - Suc i" ?ys f] by auto
  have "table_spans f (take i xs @ xs ! i # ?ys) = f (xs ! i) + (f (xs ! j) + (table_spans f (take i xs) + M))"
    by (simp add: M ac_simps)
  then show thesis using that id_take_nth_drop [of i xs] assms by simp
qed

lemma table_spans_two:
  assumes "i < length xs" "j < length xs" "i \<noteq> j"
  obtains M where "table_spans f xs = f (xs ! i) + (f (xs ! j) + M)"
proof (cases "i < j")
  case True
  then show thesis using table_spans_less [of i j xs f] assms that by blast
next
  case False
  then obtain M where "table_spans f xs = f (xs ! j) + (f (xs ! i) + M)"
    using table_spans_less [of j i xs f] assms by (metis linorder_neqE_nat)
  then show thesis using that [of M] by (simp add: add.left_commute)
qed

end
