(* ===== verification/Handles.thy ===== *)
theory Handles
  imports Prelude
begin

text \<open>
  Open file descriptions (\<open>kernel/src/file.rs\<close>): the kinds of object a descriptor can stand
  for, the entry \<open>OpenFile\<close> of a descriptor table, and the \<open>open\<close> flags.
\<close>

datatype kind = Free | Console | File | Dir | PipeR | PipeW | DevNull | DevZero | DevRandom
  | Mem | Event | Epoll | Sock | Unix | USock | Listen | Shm

record open_file =
  f_kind :: kind
  f_ino :: nat
  f_flags :: u32
  f_cloexec :: bool
  f_off :: nat

definition O_ACCMODE :: u32 where "O_ACCMODE = 3"
definition O_WRONLY :: u32 where "O_WRONLY = 1"
definition O_RDWR :: u32 where "O_RDWR = 2"
definition O_CREAT :: u32 where "O_CREAT = 0x40"
definition O_EXCL :: u32 where "O_EXCL = 0x80"
definition O_TRUNC :: u32 where "O_TRUNC = 0x200"
definition O_APPEND :: u32 where "O_APPEND = 0x400"
definition O_NONBLOCK :: u32 where "O_NONBLOCK = 0x800"
definition O_DIRECTORY :: u32 where "O_DIRECTORY = 0x10000"
definition O_NOFOLLOW :: u32 where "O_NOFOLLOW = 0x20000"
definition O_CLOEXEC :: u32 where "O_CLOEXEC = 0x80000"

definition FREE_FILE :: open_file where
  "FREE_FILE = \<lparr>f_kind = Free, f_ino = 0, f_flags = 0, f_cloexec = False, f_off = 0\<rparr>"

definition CONSOLE_FILE :: open_file where
  "CONSOLE_FILE = \<lparr>f_kind = Console, f_ino = 0, f_flags = O_RDWR, f_cloexec = False, f_off = 0\<rparr>"

definition nonblock :: "u32 \<Rightarrow> bool" where
  "nonblock fl \<longleftrightarrow> fl AND O_NONBLOCK \<noteq> 0"

end
