(* ===== verification/Pipes.thy ===== *)
theory Pipes
  imports Ring Wakes Spans Handles
begin

text \<open>
  Pipes (\<open>kernel/src/file.rs\<close>): each is a ring of \<open>PIPE_CAP\<close> bytes in 16 contiguous frames,
  with the number of read and write descriptors open on it. A read of an empty pipe ends
  the file when no writer is left, and otherwise fails with \<open>EAGAIN\<close> or blocks; a write
  takes as many bytes as fit.

  The lemmas show that the operations keep every pipe a well-formed ring in frames of its
  own, and that one pipe is a byte channel (\<open>fifo\<close>) whatever happens to the others.
\<close>

record pipe =
  p_buf :: nat
  p_head :: nat
  p_len :: nat
  p_readers :: nat
  p_writers :: nat

record pipes_st = waits +
  pipes :: "pipe list"

definition MAX_PIPES :: nat where "MAX_PIPES = 256"
definition PIPE_PAGES :: nat where "PIPE_PAGES = 16"
definition PIPE_CAP :: nat where "PIPE_CAP = PIPE_PAGES * 4096"

definition ENFILE :: errno where [errno_defs]: "ENFILE = 23"

definition pipe_empty :: pipe where
  "pipe_empty = \<lparr>p_buf = 0, p_head = 0, p_len = 0, p_readers = 0, p_writers = 0\<rparr>"

text \<open>The wait keys: \<open>0x5049_5045_0000_0000 | i << 1\<close> for readers, with bit 0 for writers.\<close>

definition pkey_r :: "nat \<Rightarrow> u64" where
  "pkey_r i = 0x5049504500000000 OR push_bit 1 (word_of_nat i)"

definition pkey_w :: "nat \<Rightarrow> u64" where
  "pkey_w i = pkey_r i OR 1"

definition put_pipe :: "nat \<Rightarrow> pipe \<Rightarrow> 'a pipes_st_scheme \<Rightarrow> 'a pipes_st_scheme" where
  "put_pipe i p st = st\<lparr>pipes := (pipes st)[i := p]\<rparr>"

text \<open>\<open>pipe\<close>, before its two descriptors are installed (\<open>Files\<close>).\<close>

definition pipe_new :: "'a pipes_st_scheme \<Rightarrow> (errno + nat) \<times> 'a pipes_st_scheme" where
  "pipe_new st =
     (case position (\<lambda>p. p_buf p = 0) (pipes st) of
        None \<Rightarrow> (Inl ENFILE, st)
      | Some i \<Rightarrow>
          (case alloc_contig PIPE_PAGES (kfa st) of
             None \<Rightarrow> (Inl ENOSPC, st)
           | Some (buf, fa) \<Rightarrow>
               (Inr i, put_pipe i \<lparr>p_buf = buf, p_head = 0, p_len = 0, p_readers = 1, p_writers = 1\<rparr>
                  (st\<lparr>kfa := fa\<rparr>))))"

definition pipe_read ::
  "nat \<Rightarrow> u32 \<Rightarrow> nat \<Rightarrow> nat \<Rightarrow> 'a pipes_st_scheme \<Rightarrow> (errno + u8 list) \<times> 'a pipes_st_scheme" where
  "pipe_read cpu fd_flags i len st =
     (let p = pipes st ! i in
      if p_len p = 0 then
        if p_writers p = 0 then (Inr [], st)
        else if nonblock fd_flags then (Inl EAGAIN, st)
        else (case would_block cpu (pkey_r i) st of (e, st) \<Rightarrow> (Inl e, st))
      else
        let n = min len (p_len p);
            bs = ring_read PIPE_CAP (kmem st) (p_buf p) (p_head p) n 0;
            st = put_pipe i (p\<lparr>p_head := (p_head p + n) mod PIPE_CAP, p_len := p_len p - n\<rparr>) st
        in (Inr bs, push_wake (pkey_w i) st))"

definition pipe_write ::
  "nat \<Rightarrow> u32 \<Rightarrow> nat \<Rightarrow> u8 list \<Rightarrow> 'a pipes_st_scheme \<Rightarrow> (errno + nat) \<times> 'a pipes_st_scheme" where
  "pipe_write cpu fd_flags i src st =
     (let p = pipes st ! i; space = PIPE_CAP - p_len p in
      if p_readers p = 0 then (Inl EPIPE, st)
      else if space = 0 then
        if nonblock fd_flags then (Inl EAGAIN, st)
        else (case would_block cpu (pkey_w i) st of (e, st) \<Rightarrow> (Inl e, st))
      else
        let n = min (length src) space;
            m = ring_write PIPE_CAP (p_buf p) (p_head p + p_len p) (take n src) 0 (kmem st);
            st = put_pipe i (p\<lparr>p_len := p_len p + n\<rparr>) (st\<lparr>kmem := m\<rparr>)
        in (Inr n, push_wake (pkey_r i) st))"

text \<open>\<open>add_ref\<close> and \<open>drop_ref\<close> on a pipe's descriptors; the last one frees the ring.\<close>

definition pipe_add_ref :: "kind \<Rightarrow> nat \<Rightarrow> 'a pipes_st_scheme \<Rightarrow> 'a pipes_st_scheme" where
  "pipe_add_ref k i st =
     (let p = pipes st ! i in
      put_pipe i (if k = PipeR then p\<lparr>p_readers := p_readers p + 1\<rparr>
                  else p\<lparr>p_writers := p_writers p + 1\<rparr>) st)"

definition pipe_drop_ref :: "kind \<Rightarrow> nat \<Rightarrow> 'a pipes_st_scheme \<Rightarrow> 'a pipes_st_scheme" where
  "pipe_drop_ref k i st =
     (let p = pipes st ! i;
          (p, st) =
            (if k = PipeR then (p\<lparr>p_readers := p_readers p - 1\<rparr>, push_wake (pkey_w i) st)
             else (p\<lparr>p_writers := p_writers p - 1\<rparr>, push_wake (pkey_r i) st))
      in if p_readers p = 0 \<and> p_writers p = 0
         then put_pipe i pipe_empty (st\<lparr>kfa := free_contig (p_buf p) PIPE_PAGES (kfa st)\<rparr>)
         else put_pipe i p st)"

section \<open>The invariant\<close>

definition pipe_spans :: "pipe \<Rightarrow> (nat \<times> nat) multiset" where
  "pipe_spans p = (if p_buf p = 0 then {#} else {#(p_buf p, PIPE_PAGES)#})"

definition pipe_ok :: "pipe \<Rightarrow> bool" where
  "pipe_ok p \<longleftrightarrow> (if p_buf p = 0 then p = pipe_empty
     else p_head p < PIPE_CAP \<and> p_len p \<le> PIPE_CAP \<and> (0 < p_readers p \<or> 0 < p_writers p))"

text \<open>\<open>M\<close> stands for the blocks of the other components.\<close>

definition pipes_inv :: "(nat \<times> nat) multiset \<Rightarrow> 'a pipes_st_scheme \<Rightarrow> bool" where
  "pipes_inv M st \<longleftrightarrow> waits_wf st \<and> length (pipes st) = MAX_PIPES \<and> list_all pipe_ok (pipes st) \<and>
     spans_ok (kfa st) (table_spans pipe_spans (pipes st) + M)"

lemma PIPE_CAP_pos [simp]: "0 < PIPE_CAP"
  by (simp add: PIPE_CAP_def PIPE_PAGES_def)

lemma pipe_ok_empty [simp]: "pipe_ok pipe_empty"
  by (simp add: pipe_ok_def pipe_empty_def)

lemma pipe_spans_empty [simp]: "pipe_spans pipe_empty = {#}"
  by (simp add: pipe_spans_def pipe_empty_def)

lemma put_pipe_simps [simp]:
  "pipes (put_pipe i p st) = (pipes st)[i := p]" "kfa (put_pipe i p st) = kfa st"
  "kmem (put_pipe i p st) = kmem st" "iseq (put_pipe i p st) = iseq st"
  "pend (put_pipe i p st) = pend st" "pany (put_pipe i p st) = pany st"
  "block_on (put_pipe i p st) = block_on st" "pipes_st.more (put_pipe i p st) = pipes_st.more st"
  by (simp_all add: put_pipe_def)

lemma waits_pipes [simp]:
  "pipes (push_wake key st) = pipes st" "pipes (snd (would_block cpu key st)) = pipes st"
  "pipes_st.more (push_wake key st) = pipes_st.more st"
  "pipes_st.more (snd (would_block cpu key st)) = pipes_st.more st"
  by (simp_all add: push_wake_def bump_io_seq_def would_block_def would_block_for_def Let_def)

lemma waits_wf_cong:
  "iseq st' = iseq st \<Longrightarrow> pend st' = pend st \<Longrightarrow> pany st' = pany st \<Longrightarrow> waits_wf st' = waits_wf st"
  by (simp add: waits_wf_def)

lemma pipes_invD:
  assumes "pipes_inv M st"
  shows "waits_wf st" "length (pipes st) = MAX_PIPES" "frames_inv (kfa st)"
    and "i < MAX_PIPES \<Longrightarrow> pipe_ok (pipes st ! i)"
    and "spans_ok (kfa st) (table_spans pipe_spans (pipes st) + M)"
  using assms spans_okD(1) by (auto simp: pipes_inv_def list_all_length)

text \<open>A pipe may change as long as it stays a good ring in the same frames.\<close>

lemma table_spans_same:
  assumes "i < length xs" "f x = f (xs ! i)"
  shows "table_spans f (xs[i := x]) = table_spans f xs"
  using table_spans_nth [OF assms(1), of f] assms(2) by metis

lemma list_all_update: "list_all P xs \<Longrightarrow> P x \<Longrightarrow> list_all P (xs[i := x])"
  using set_update_subset_insert [of xs i x] by (auto simp: list_all_iff)

lemma put_pipe_inv:
  assumes "pipes_inv M st" "i < MAX_PIPES" "pipe_ok p" "p_buf p = p_buf (pipes st ! i)"
  shows "pipes_inv M (put_pipe i p st)"
  using assms table_spans_same [of i "pipes st" pipe_spans p]
  by (auto simp: pipes_inv_def list_all_update pipe_spans_def waits_wf_def)

lemma pipes_inv_cong:
  assumes "pipes_inv M st" "kfa st' = kfa st" "pipes st' = pipes st" "waits_wf st'"
  shows "pipes_inv M st'"
  using assms by (simp add: pipes_inv_def)

lemma push_wake_inv: "pipes_inv M st \<Longrightarrow> pipes_inv M (push_wake key st)"
  by (rule pipes_inv_cong, assumption) (auto simp: pipes_inv_def intro: push_wake_wf)

lemma would_block_wf: "waits_wf st \<Longrightarrow> waits_wf (snd (would_block cpu key st))"
  by (simp add: waits_wf_def would_block_def would_block_for_def)

lemma would_block_inv: "pipes_inv M st \<Longrightarrow> pipes_inv M (snd (would_block cpu key st))"
  by (rule pipes_inv_cong, assumption) (auto simp: pipes_inv_def intro: would_block_wf)

lemma kmem_inv: "pipes_inv M st \<Longrightarrow> pipes_inv M (st\<lparr>kmem := m\<rparr>)"
  by (simp add: pipes_inv_def waits_wf_def)

section \<open>The operations keep it\<close>

lemma pipe_new_inv:
  assumes inv: "pipes_inv M st" and e: "pipe_new st = (r, st')"
  shows "pipes_inv M st'"
    and "r = Inr i \<Longrightarrow> i < MAX_PIPES \<and> p_buf (pipes st ! i) = 0 \<and>
      (\<exists>buf. 0 < buf \<and> pipes st' = (pipes st)[i := \<lparr>p_buf = buf, p_head = 0, p_len = 0, p_readers = 1, p_writers = 1\<rparr>])"
proof -
  note d = pipes_invD [OF inv]
  have "pipes_inv M st' \<and> (r = Inr i \<longrightarrow> i < MAX_PIPES \<and> p_buf (pipes st ! i) = 0 \<and>
      (\<exists>buf. 0 < buf \<and> pipes st' = (pipes st)[i := \<lparr>p_buf = buf, p_head = 0, p_len = 0, p_readers = 1, p_writers = 1\<rparr>]))"
  proof (cases "\<exists>j b fa. position (\<lambda>p. p_buf p = 0) (pipes st) = Some j \<and> alloc_contig PIPE_PAGES (kfa st) = Some (b, fa)")
    case True
    then obtain j b fa where j: "position (\<lambda>p. p_buf p = 0) (pipes st) = Some j"
      and a: "alloc_contig PIPE_PAGES (kfa st) = Some (b, fa)" by blast
    let ?p = "\<lparr>p_buf = b, p_head = 0, p_len = 0, p_readers = 1, p_writers = 1\<rparr>"
    have jl: "j < length (pipes st)" "p_buf (pipes st ! j) = 0" using position_Some [OF j] by auto
    obtain N where N: "table_spans pipe_spans (pipes st) = pipe_spans (pipes st ! j) + N"
      "\<And>x. table_spans pipe_spans ((pipes st)[j := x]) = pipe_spans x + N"
      using table_spans_nth [OF jl(1), of pipe_spans] by blast
    have "spans_ok fa (add_mset (b, PIPE_PAGES) (table_spans pipe_spans (pipes st) + M))" "0 < b"
      using alloc_span [OF d(5) a] by auto
    moreover have "r = Inr j" "st' = put_pipe j ?p (st\<lparr>kfa := fa\<rparr>)"
      using e j a by (auto simp: pipe_new_def)
    ultimately show ?thesis
      using jl d inv by (auto simp: pipes_inv_def N pipe_spans_def list_all_update pipe_ok_def waits_wf_def)
  next
    case False
    then have "\<exists>x. r = Inl x" "st' = st" using e
      by (cases "position (\<lambda>p. p_buf p = 0) (pipes st)";
          cases "alloc_contig PIPE_PAGES (kfa st)"; auto simp: pipe_new_def)+
    then show ?thesis using inv by auto
  qed
  then show "pipes_inv M st'" "r = Inr i \<Longrightarrow> i < MAX_PIPES \<and> p_buf (pipes st ! i) = 0 \<and>
      (\<exists>buf. 0 < buf \<and> pipes st' = (pipes st)[i := \<lparr>p_buf = buf, p_head = 0, p_len = 0, p_readers = 1, p_writers = 1\<rparr>])"
    by blast+
qed

lemma pipe_read_cases:
  assumes "pipe_read cpu fl i len st = (r, st')" "p = pipes st ! i"
  obtains (stay) "r = Inr [] \<or> (\<exists>e. r = Inl e)" "st' = st \<or> st' = snd (would_block cpu (pkey_r i) st)"
      "p_len p = 0"
    | (take) n where "0 < p_len p" "n = min len (p_len p)"
      "r = Inr (ring_bytes PIPE_CAP (kmem st) (p_buf p) (p_head p) n)"
      "st' = push_wake (pkey_w i) (put_pipe i (p\<lparr>p_head := (p_head p + n) mod PIPE_CAP, p_len := p_len p - n\<rparr>) st)"
  using assms
  by (auto simp: pipe_read_def Let_def ring_read_bytes split: if_splits prod.splits)

lemma pipe_write_cases:
  assumes "pipe_write cpu fl i src st = (r, st')" "p = pipes st ! i"
  obtains (stay) e where "r = Inl e" "st' = st \<or> st' = snd (would_block cpu (pkey_w i) st)"
    | (put) n where "0 < p_readers p" "n = min (length src) (PIPE_CAP - p_len p)" "p_len p < PIPE_CAP" "r = Inr n"
      "st' = push_wake (pkey_r i) (put_pipe i (p\<lparr>p_len := p_len p + n\<rparr>)
         (st\<lparr>kmem := ring_write PIPE_CAP (p_buf p) (p_head p + p_len p) (take n src) 0 (kmem st)\<rparr>))"
  using assms
  by (auto simp: pipe_write_def Let_def split: if_splits prod.splits)

lemma pipe_read_inv:
  assumes inv: "pipes_inv M st" and i: "i < MAX_PIPES" and e: "pipe_read cpu fl i len st = (r, st')"
  shows "pipes_inv M st'"
  using e refl
proof (cases rule: pipe_read_cases)
  case stay
  then show ?thesis using inv would_block_inv by blast
next
  case (take n)
  have ok: "pipe_ok (pipes st ! i)" using pipes_invD(4) [OF inv i] .
  then have "p_buf (pipes st ! i) \<noteq> 0" using take(1) by (auto simp: pipe_ok_def pipe_empty_def split: if_splits)
  then show ?thesis unfolding take(4)
    using ok take(1,2) by (intro push_wake_inv put_pipe_inv inv i) (auto simp: pipe_ok_def)
qed

lemma pipe_write_inv:
  assumes inv: "pipes_inv M st" and i: "i < MAX_PIPES" and e: "pipe_write cpu fl i src st = (r, st')"
  shows "pipes_inv M st'"
  using e refl
proof (cases rule: pipe_write_cases)
  case (stay x)
  then show ?thesis using inv would_block_inv by blast
next
  case (put n)
  have ok: "pipe_ok (pipes st ! i)" using pipes_invD(4) [OF inv i] .
  then have "p_buf (pipes st ! i) \<noteq> 0" using put(1) by (auto simp: pipe_ok_def pipe_empty_def split: if_splits)
  then show ?thesis unfolding put(5)
    using ok put(2,3) by (intro push_wake_inv put_pipe_inv kmem_inv inv i) (auto simp: pipe_ok_def)
qed

lemma pipe_add_ref_inv:
  assumes "pipes_inv M st" "i < MAX_PIPES" "p_buf (pipes st ! i) \<noteq> 0"
  shows "pipes_inv M (pipe_add_ref k i st)"
  using assms pipes_invD(4) [OF assms(1,2)]
  by (auto simp: pipe_add_ref_def Let_def pipe_ok_def intro!: put_pipe_inv)

lemma free_pipe_inv:
  assumes inv: "pipes_inv M st" and i: "i < MAX_PIPES" and b: "p_buf (pipes st ! i) \<noteq> 0"
  shows "pipes_inv M (put_pipe i pipe_empty (st\<lparr>kfa := free_contig (p_buf (pipes st ! i)) PIPE_PAGES (kfa st)\<rparr>))"
proof -
  note d = pipes_invD [OF inv]
  have il: "i < length (pipes st)" using i d(2) by simp
  obtain N where N: "table_spans pipe_spans (pipes st) = pipe_spans (pipes st ! i) + N"
    "\<And>x. table_spans pipe_spans ((pipes st)[i := x]) = pipe_spans x + N"
    using table_spans_nth [OF il, of pipe_spans] by blast
  have "spans_ok (kfa st) (add_mset (p_buf (pipes st ! i), PIPE_PAGES) (N + M))"
    using d(5) N(1) b by (simp add: pipe_spans_def)
  from free_span [OF this] show ?thesis
    using inv by (simp add: pipes_inv_def N(2) list_all_update waits_wf_def)
qed

lemma pipe_drop_ref_inv:
  assumes inv: "pipes_inv M st" and i: "i < MAX_PIPES" and b: "p_buf (pipes st ! i) \<noteq> 0"
  shows "pipes_inv M (pipe_drop_ref k i st)"
proof -
  define key where "key = (if k = PipeR then pkey_w i else pkey_r i)"
  define p where "p = (let p = pipes st ! i in
    if k = PipeR then p\<lparr>p_readers := p_readers p - 1\<rparr> else p\<lparr>p_writers := p_writers p - 1\<rparr>)"
  let ?st = "push_wake key st"
  have inv': "pipes_inv M ?st" using inv by (rule push_wake_inv)
  have pb: "p_buf p = p_buf (pipes st ! i)" by (simp add: p_def Let_def)
  have eq: "pipe_drop_ref k i st = (if p_readers p = 0 \<and> p_writers p = 0
      then put_pipe i pipe_empty (?st\<lparr>kfa := free_contig (p_buf (pipes ?st ! i)) PIPE_PAGES (kfa ?st)\<rparr>)
      else put_pipe i p ?st)"
    by (simp add: pipe_drop_ref_def Let_def key_def p_def)
  show ?thesis
  proof (cases "p_readers p = 0 \<and> p_writers p = 0")
    case True
    then show ?thesis using free_pipe_inv [OF inv' i] b unfolding eq by simp
  next
    case False
    then have "pipe_ok p"
      using pipes_invD(4) [OF inv i] b pb by (auto simp: pipe_ok_def p_def Let_def)
    then show ?thesis using False put_pipe_inv [OF inv' i, of p] pb unfolding eq by auto
  qed
qed

section \<open>A pipe is a byte channel\<close>

definition pipe_bytes :: "nat \<Rightarrow> 'a pipes_st_scheme \<Rightarrow> u8 list" where
  "pipe_bytes i st = (let p = pipes st ! i in ring_bytes PIPE_CAP (kmem st) (p_buf p) (p_head p) (p_len p))"

lemma pipe_bytes_waits [simp]:
  "pipe_bytes i (push_wake key st) = pipe_bytes i st"
  "pipe_bytes i (snd (would_block cpu key st)) = pipe_bytes i st"
  by (simp_all add: pipe_bytes_def)

lemma pipe_read_bytes:
  assumes inv: "pipes_inv M st" and i: "i < MAX_PIPES" and e: "pipe_read cpu fl i len st = (r, st')"
  shows "r = Inr bs \<Longrightarrow> length bs \<le> len \<and> pipe_bytes i st = bs @ pipe_bytes i st'"
    and "r = Inl x \<Longrightarrow> pipe_bytes i st' = pipe_bytes i st"
    and "j < MAX_PIPES \<Longrightarrow> j \<noteq> i \<Longrightarrow> pipe_bytes j st' = pipe_bytes j st"
proof -
  have len: "length (pipes st) = MAX_PIPES" using pipes_invD(2) [OF inv] .
  have "(\<forall>bs. r = Inr bs \<longrightarrow> length bs \<le> len \<and> pipe_bytes i st = bs @ pipe_bytes i st') \<and>
    (\<forall>x. r = Inl x \<longrightarrow> pipe_bytes i st' = pipe_bytes i st) \<and>
    (\<forall>j < MAX_PIPES. j \<noteq> i \<longrightarrow> pipe_bytes j st' = pipe_bytes j st)"
    using e refl
  proof (cases rule: pipe_read_cases)
    case stay
    then show ?thesis by auto
  next
    case (take n)
    then show ?thesis
      using i len ring_bytes_split [of n "p_len (pipes st ! i)" PIPE_CAP "kmem st" "p_buf (pipes st ! i)" "p_head (pipes st ! i)"]
      by (auto simp: pipe_bytes_def Let_def)
  qed
  then show "r = Inr bs \<Longrightarrow> length bs \<le> len \<and> pipe_bytes i st = bs @ pipe_bytes i st'"
    "r = Inl x \<Longrightarrow> pipe_bytes i st' = pipe_bytes i st"
    "j < MAX_PIPES \<Longrightarrow> j \<noteq> i \<Longrightarrow> pipe_bytes j st' = pipe_bytes j st" by blast+
qed

text \<open>What a write to pipe \<open>i\<close> does to the memory is outside the ring of every other pipe.\<close>

lemma pipes_apart:
  assumes inv: "pipes_inv M st" and ij: "i < MAX_PIPES" "j < MAX_PIPES" "i \<noteq> j"
    and b: "p_buf (pipes st ! i) \<noteq> 0" "p_buf (pipes st ! j) \<noteq> 0"
    and x: "p_buf (pipes st ! j) \<le> x" "x < p_buf (pipes st ! j) + PIPE_CAP"
  shows "x < p_buf (pipes st ! i) \<or> p_buf (pipes st ! i) + PIPE_CAP \<le> x"
proof -
  note d = pipes_invD [OF inv]
  have "i < length (pipes st)" "j < length (pipes st)" using ij d(2) by simp_all
  then obtain N where N: "table_spans pipe_spans (pipes st) =
      pipe_spans (pipes st ! i) + (pipe_spans (pipes st ! j) + N)"
    using table_spans_two ij(3) by metis
  have "spans_ok (kfa st) (add_mset (p_buf (pipes st ! i), PIPE_PAGES)
      (add_mset (p_buf (pipes st ! j), PIPE_PAGES) (N + M)))"
    using d(5) b unfolding N pipe_spans_def by (simp add: add_mset_commute)
  from spans_bytes_apart [OF this] x show ?thesis by (simp add: PIPE_CAP_def)
qed

lemma pipe_write_bytes:
  assumes inv: "pipes_inv M st" and i: "i < MAX_PIPES" and e: "pipe_write cpu fl i src st = (r, st')"
  shows "r = Inr n \<Longrightarrow> n \<le> length src \<and> pipe_bytes i st' = pipe_bytes i st @ take n src"
    and "r = Inl x \<Longrightarrow> pipe_bytes i st' = pipe_bytes i st"
    and "j < MAX_PIPES \<Longrightarrow> j \<noteq> i \<Longrightarrow> pipe_bytes j st' = pipe_bytes j st"
proof -
  have len: "length (pipes st) = MAX_PIPES" using pipes_invD(2) [OF inv] .
  let ?p = "pipes st ! i"
  have "(\<forall>n. r = Inr n \<longrightarrow> n \<le> length src \<and> pipe_bytes i st' = pipe_bytes i st @ take n src) \<and>
    (\<forall>x. r = Inl x \<longrightarrow> pipe_bytes i st' = pipe_bytes i st) \<and>
    (\<forall>j < MAX_PIPES. j \<noteq> i \<longrightarrow> pipe_bytes j st' = pipe_bytes j st)"
    using e refl
  proof (cases rule: pipe_write_cases)
    case (stay x)
    then show ?thesis by auto
  next
    case (put n)
    have b: "p_buf ?p \<noteq> 0" using pipes_invD(4) [OF inv i] put(1)
      by (auto simp: pipe_ok_def pipe_empty_def split: if_splits)
    have same: "pipe_bytes j st' = pipe_bytes j st" if j: "j < MAX_PIPES" "j \<noteq> i" for j
    proof (cases "p_buf (pipes st ! j) = 0")
      case True
      then have "pipes st ! j = pipe_empty"
        using pipes_invD(4) [OF inv j(1)] by (simp add: pipe_ok_def)
      then show ?thesis unfolding put(5) using j by (simp add: pipe_bytes_def pipe_empty_def ring_bytes_def)
    next
      case False
      then show ?thesis unfolding put(5)
        using j pipes_apart [OF inv i j(1) _ b False]
        by (auto simp: pipe_bytes_def Let_def intro!: ring_bytes_cong ring_write_outside)
    qed
    have "p_len ?p + length (take n src) \<le> PIPE_CAP" "length (take n src) = n"
      using put(2,3) by auto
    with ring_write_bytes [OF PIPE_CAP_pos this(1), of "p_buf ?p" "p_head ?p" "kmem st"]
    have "pipe_bytes i st' = pipe_bytes i st @ take n src"
      unfolding put(5) using i len by (simp add: pipe_bytes_def Let_def)
    then show ?thesis using same put(2,4) by simp
  qed
  then show "r = Inr n \<Longrightarrow> n \<le> length src \<and> pipe_bytes i st' = pipe_bytes i st @ take n src"
    "r = Inl x \<Longrightarrow> pipe_bytes i st' = pipe_bytes i st"
    "j < MAX_PIPES \<Longrightarrow> j \<noteq> i \<Longrightarrow> pipe_bytes j st' = pipe_bytes j st" by blast+
qed

text \<open>
  What else may happen: any call on another pipe, and on pipe \<open>i\<close> itself duplicated and closed
  descriptors of either end, short of closing the last descriptor of the pipe.
\<close>

datatype pipe_call = New | Read_pipe u32 nat nat | Write_pipe u32 nat "u8 list" | Add_ref kind nat | Drop_ref kind nat

fun pipe_call_ok :: "nat \<Rightarrow> pipe_call \<Rightarrow> 'a pipes_st_scheme \<Rightarrow> bool" where
  "pipe_call_ok i New st = True"
| "pipe_call_ok i (Read_pipe fl j n) st \<longleftrightarrow> j < MAX_PIPES \<and> j \<noteq> i"
| "pipe_call_ok i (Write_pipe fl j bs) st \<longleftrightarrow> j < MAX_PIPES \<and> j \<noteq> i"
| "pipe_call_ok i (Add_ref k j) st \<longleftrightarrow> j < MAX_PIPES \<and> p_buf (pipes st ! j) \<noteq> 0"
| "pipe_call_ok i (Drop_ref k j) st \<longleftrightarrow> j < MAX_PIPES \<and> p_buf (pipes st ! j) \<noteq> 0 \<and>
     (j = i \<longrightarrow> (let p = pipes st ! i in
        if k = PipeR then 1 < p_readers p \<or> 0 < p_writers p else 0 < p_readers p \<or> 1 < p_writers p))"

fun pipe_do :: "nat \<Rightarrow> pipe_call \<Rightarrow> 'a pipes_st_scheme \<Rightarrow> 'a pipes_st_scheme" where
  "pipe_do cpu New st = snd (pipe_new st)"
| "pipe_do cpu (Read_pipe fl j n) st = snd (pipe_read cpu fl j n st)"
| "pipe_do cpu (Write_pipe fl j bs) st = snd (pipe_write cpu fl j bs st)"
| "pipe_do cpu (Add_ref k j) st = pipe_add_ref k j st"
| "pipe_do cpu (Drop_ref k j) st = pipe_drop_ref k j st"

definition pipe_other :: "nat \<Rightarrow> nat \<Rightarrow> pipe_call \<Rightarrow> 'a pipes_st_scheme \<Rightarrow> 'a pipes_st_scheme" where
  "pipe_other cpu i c st = (if pipe_call_ok i c st then pipe_do cpu c st else st)"

lemma pipe_ref_bytes:
  assumes "length (pipes st) = MAX_PIPES" "i < MAX_PIPES"
  shows "pipe_bytes i (pipe_add_ref k j st) = pipe_bytes i st"
    and "pipe_call_ok i (Drop_ref k j) st \<Longrightarrow> pipe_bytes i (pipe_drop_ref k j st) = pipe_bytes i st"
proof -
  show "pipe_bytes i (pipe_add_ref k j st) = pipe_bytes i st"
    using assms by (cases "j = i") (simp_all add: pipe_bytes_def pipe_add_ref_def Let_def)
  show "pipe_bytes i (pipe_drop_ref k j st) = pipe_bytes i st" if "pipe_call_ok i (Drop_ref k j) st"
    using assms that by (cases "j = i"; cases "k = PipeR")
      (auto simp: pipe_bytes_def pipe_drop_ref_def Let_def split: if_splits)
qed

lemma pipe_new_bytes:
  assumes "pipes_inv M st" "i < MAX_PIPES"
  shows "pipe_bytes i (snd (pipe_new st)) = pipe_bytes i st"
proof (cases "fst (pipe_new st)")
  case (Inl e)
  then have "snd (pipe_new st) = st" by (auto simp: pipe_new_def split: option.splits prod.splits)
  then show ?thesis by simp
next
  case (Inr j)
  obtain b where b: "j < MAX_PIPES" "p_buf (pipes st ! j) = 0"
    "pipes (snd (pipe_new st)) = (pipes st)[j := \<lparr>p_buf = b, p_head = 0, p_len = 0, p_readers = 1, p_writers = 1\<rparr>]"
    using pipe_new_inv(2) [OF assms(1) prod.collapse [symmetric] Inr] by blast
  have m: "kmem (snd (pipe_new st)) = kmem st" by (auto simp: pipe_new_def split: option.splits)
  have "pipes st ! j = pipe_empty" using pipes_invD(4) [OF assms(1) b(1)] b(2) by (simp add: pipe_ok_def)
  then show ?thesis using b(1,3) m assms(2) pipes_invD(2) [OF assms(1)]
    by (cases "i = j") (simp_all add: pipe_bytes_def pipe_empty_def ring_bytes_def)
qed

lemma pipe_other_law:
  assumes inv: "pipes_inv M st" and i: "i < MAX_PIPES"
  shows "pipes_inv M (pipe_other cpu i c st) \<and> pipe_bytes i (pipe_other cpu i c st) = pipe_bytes i st"
proof (cases "pipe_call_ok i c st")
  case True
  have len: "length (pipes st) = MAX_PIPES" using pipes_invD(2) [OF inv] .
  from True show ?thesis
  proof (cases c)
    case New
    then show ?thesis using pipe_new_inv(1) [OF inv] pipe_new_bytes [OF inv i]
      by (simp add: pipe_other_def) (metis prod.collapse)
  next
    case (Read_pipe fl j n)
    then show ?thesis
      using True pipe_read_inv [OF inv, of j] pipe_read_bytes(3) [OF inv, of j cpu fl n _ _ i] i
      by (auto simp: pipe_other_def) (metis prod.collapse)+
  next
    case (Write_pipe fl j bs)
    then show ?thesis
      using True pipe_write_inv [OF inv, of j] pipe_write_bytes(3) [OF inv, of j cpu fl bs _ _ i] i
      by (auto simp: pipe_other_def) (metis prod.collapse)+
  next
    case (Add_ref k j)
    then show ?thesis
      using True pipe_add_ref_inv [OF inv, of j k] pipe_ref_bytes(1) [OF len i] by (auto simp: pipe_other_def)
  next
    case (Drop_ref k j)
    then show ?thesis
      using True pipe_drop_ref_inv [OF inv, of j k] pipe_ref_bytes(2) [OF len i, of k j]
      by (simp add: pipe_other_def del: pipe_call_ok.simps) simp
  qed
qed (simp add: pipe_other_def inv)

text \<open>Blocking or not, a read or write that does not proceed moves no byte.\<close>

definition pipe_put :: "nat \<Rightarrow> u32 \<Rightarrow> nat \<Rightarrow> u8 list \<Rightarrow> 'a pipes_st_scheme \<Rightarrow> nat \<times> 'a pipes_st_scheme" where
  "pipe_put cpu fl i src st = (case pipe_write cpu fl i src st of
     (Inr n, st') \<Rightarrow> (n, st') | (Inl _, st') \<Rightarrow> (0, st'))"

definition pipe_get :: "nat \<Rightarrow> u32 \<Rightarrow> nat \<Rightarrow> nat \<Rightarrow> 'a pipes_st_scheme \<Rightarrow> u8 list \<times> 'a pipes_st_scheme" where
  "pipe_get cpu fl i len st = (case pipe_read cpu fl i len st of
     (Inr bs, st') \<Rightarrow> (bs, st') | (Inl _, st') \<Rightarrow> ([], st'))"

definition pipe_in_table :: "nat \<Rightarrow> nat" where "pipe_in_table i = i mod MAX_PIPES"

lemma pipe_in_table [simp]: "pipe_in_table i < MAX_PIPES" "i < MAX_PIPES \<Longrightarrow> pipe_in_table i = i"
  by (simp_all add: pipe_in_table_def MAX_PIPES_def)

interpretation pipe_channel: fifo "pipes_inv M" "pipe_bytes (pipe_in_table i)"
    "pipe_put cpu fl (pipe_in_table i)" "pipe_get cpu fl (pipe_in_table i)" "pipe_other cpu (pipe_in_table i)"
  for M i cpu fl
proof
  have i: "pipe_in_table i < MAX_PIPES" by simp
  fix st st' :: "'a pipes_st_scheme" and n xs x
  assume inv: "pipes_inv M st"
  show "pipes_inv M st' \<and> n \<le> length xs \<and>
      pipe_bytes (pipe_in_table i) st' = pipe_bytes (pipe_in_table i) st @ take n xs"
    if "pipe_put cpu fl (pipe_in_table i) xs st = (n, st')"
    using that pipe_write_inv [OF inv i] pipe_write_bytes(1,2) [OF inv i]
    by (fastforce simp: pipe_put_def split: prod.splits sum.splits)
  show "pipes_inv M st' \<and> length xs \<le> n \<and>
      pipe_bytes (pipe_in_table i) st = xs @ pipe_bytes (pipe_in_table i) st'"
    if "pipe_get cpu fl (pipe_in_table i) n st = (xs, st')"
    using that pipe_read_inv [OF inv i] pipe_read_bytes(1,2) [OF inv i]
    by (fastforce simp: pipe_get_def split: prod.splits sum.splits)
  show "pipes_inv M (pipe_other cpu (pipe_in_table i) x st) \<and>
      pipe_bytes (pipe_in_table i) (pipe_other cpu (pipe_in_table i) x st) = pipe_bytes (pipe_in_table i) st"
    by (rule pipe_other_law [OF inv i])
qed

section \<open>Properties\<close>

text \<open>A small machine for the concrete runs: 64 frames of heap, all free.\<close>

definition room_platform :: platform where
  "room_platform = \<lparr>heap_start = 4096, heap_size = 64 * 4096, fb_pa = 0, fb_region_bytes = 4096\<rparr>"

definition room_frames :: frames where
  "room_frames = frames_init (frames_boot room_platform)"

lemma room_inv:
  shows "frames_inv room_frames" "plat room_frames = room_platform"
    and "free_run room_frames 64 0"
proof -
  have ok: "plat_ok room_platform" by (simp add: plat_ok_def room_platform_def)
  then have r: "frames_reachable room_platform room_frames"
    by (auto simp: room_frames_def intro: frames_reachable.boot)
  show i: "frames_inv room_frames" "plat room_frames = room_platform"
    using frames_reachable_inv [OF ok r] by auto
  have n: "num_frames room_platform = 64"
    by (simp add: num_frames_def room_platform_def PAGE_SIZE_def)
  have "\<not> reserved room_platform (addr_of room_platform k)" for k
    by (simp add: reserved_def addr_of_def room_platform_def)
  then have "\<not> used room_frames k" if "k < 64" for k
    using frames_init_inv(3) [OF ok] n that by (simp add: room_frames_def)
  then show "free_run room_frames 64 0" using n i(2) by (simp add: free_run_def)
qed

lemma room_alloc:
  assumes "0 < k" "k \<le> 64"
  obtains b fa where "alloc_contig k room_frames = Some (b, fa)"
proof -
  have "free_run room_frames k 0" using room_inv(3) assms(2) by (simp add: free_run_def)
  then have "alloc_contig k room_frames \<noteq> None"
    using alloc_contig_None_iff [OF frames_invD(1) [OF room_inv(1)] assms(1)] by blast
  then show thesis using that by auto
qed

lemma spans_ok_none: "frames_inv fa \<Longrightarrow> spans_ok fa {#}"
  by (simp add: spans_ok_def owned_def)

definition pipes_boot :: "frames \<Rightarrow> mem \<Rightarrow> pipes_st" where
  "pipes_boot fa m = \<lparr>kfa = fa, kmem = m, iseq = replicate 64 0, pend = [], pany = False,
     block_on = (\<lambda>_. (0, 0, 0)), pipes = replicate MAX_PIPES pipe_empty\<rparr>"

lemma table_spans_replicate: "f e = {#} \<Longrightarrow> table_spans f (replicate n e) = {#}"
  by (induction n) auto

lemma pipes_boot_inv: "frames_inv fa \<Longrightarrow> pipes_inv {#} (pipes_boot fa m)"
  by (simp add: pipes_inv_def pipes_boot_def waits_wf_def table_spans_replicate spans_ok_none list_all_iff)

lemma pipe_demo:
  obtains b st where "pipe_new (pipes_boot room_frames m) = (Inr 0, st)" "pipes_inv {#} st"
    "pipes st ! 0 = \<lparr>p_buf = b, p_head = 0, p_len = 0, p_readers = 1, p_writers = 1\<rparr>"
    "length (pipes st) = MAX_PIPES" "kmem st = m"
proof -
  let ?s = "pipes_boot room_frames m"
  have inv: "pipes_inv {#} ?s" by (rule pipes_boot_inv [OF room_inv(1)])
  obtain b fa where a: "alloc_contig PIPE_PAGES room_frames = Some (b, fa)"
    using room_alloc [of PIPE_PAGES] by (auto simp: PIPE_PAGES_def)
  have "position (\<lambda>p. p_buf p = 0) (pipes ?s) = Some 0"
    by (simp add: position_Some_iff pipes_boot_def pipe_empty_def MAX_PIPES_def)
  then have "pipe_new ?s = (Inr 0, put_pipe 0 \<lparr>p_buf = b, p_head = 0, p_len = 0, p_readers = 1, p_writers = 1\<rparr>
      (?s\<lparr>kfa := fa\<rparr>))"
    using a by (simp add: pipe_new_def pipes_boot_def)
  then show thesis using that pipe_new_inv(1) [OF inv]
    by (simp add: pipes_boot_def MAX_PIPES_def)
qed

lemma pipe_in_table_0: "pipe_in_table 0 = 0"
  by (simp add: pipe_in_table_def)

lemmas pipe_run_0 = pipe_channel.run.simps [where i = 0, unfolded pipe_in_table_0]

text \<open>
  Progress: a pipe with bytes never blocks its reader, and reports the end only when it is empty and nobody is
  left to write; with a reader and room it takes what fits.
\<close>

lemma pipe_bytes_length [simp]: "length (pipe_bytes i st) = p_len (pipes st ! i)"
  by (simp add: pipe_bytes_def ring_bytes_def Let_def)

lemma take_upt_0: "take n [0..<k] = [0..<min n k]"
  by (cases "n \<le> k") (simp_all add: take_upt min_def)

lemma pipe_read_now:
  assumes "pipes_inv M st" "i < MAX_PIPES" and "pipe_bytes i st \<noteq> [] \<or> p_writers (pipes st ! i) = 0"
  shows "fst (pipe_read cpu fl i n st) = Inr (take n (pipe_bytes i st))"
proof (cases "p_len (pipes st ! i) = 0")
  case True
  then have "pipe_bytes i st = []" using pipe_bytes_length [of i st] by (simp del: pipe_bytes_length)
  then show ?thesis using assms(3) True by (simp add: pipe_read_def)
next
  case False
  then show ?thesis
    by (simp add: pipe_read_def Let_def ring_read_bytes pipe_bytes_def ring_bytes_def take_map take_upt_0)
qed

lemma pipe_write_now:
  assumes "0 < p_readers (pipes st ! i)" and "p_len (pipes st ! i) < PIPE_CAP"
  shows "fst (pipe_write cpu fl i src st) = Inr (min (length src) (PIPE_CAP - length (pipe_bytes i st)))"
  using assms by (simp add: pipe_write_def Let_def)

text \<open>C21. A pipe is a byte channel. Over any sequence of reads and writes of pipe \<open>i\<close>, mixed with
  any calls on the other pipes (creation, reads, writes, new and dropped descriptors) and with duplicating
  and closing descriptors of either end of pipe \<open>i\<close> while one is left, the bytes
  accepted by the writes come out of the reads once each and in order: what was in the pipe followed
  by what went in is what came out followed by what is left. What is left is not lost when one side closes: a read
  returns it at once, and the end of the stream is reported only when nothing is left and no writer is.
  A write with a reader takes what fits, and fails when no reader is left.\<close>

theorem pipe_stream_order:
  assumes "pipes_inv M st" and "i < MAX_PIPES"
    and "fifo.run (pipe_put cpu fl i) (pipe_get cpu fl i) (pipe_other cpu i) ops st = (ins, outs, st')"
  shows "pipe_bytes i st @ ins = outs @ pipe_bytes i st' \<and> pipes_inv M st' \<and>
    (pipe_bytes i st' \<noteq> [] \<or> p_writers (pipes st' ! i) = 0 \<longrightarrow>
      fst (pipe_read cpu fl i n st') = Inr (take n (pipe_bytes i st'))) \<and>
    (0 < p_readers (pipes st' ! i) \<and> length (pipe_bytes i st') < PIPE_CAP \<longrightarrow>
      fst (pipe_write cpu fl i src st') = Inr (min (length src) (PIPE_CAP - length (pipe_bytes i st')))) \<and>
    (p_readers (pipes st' ! i) = 0 \<longrightarrow> fst (pipe_write cpu fl i src st') = Inl EPIPE)"
proof -
  have r: "pipes_inv M st' \<and> pipe_bytes i st @ ins = outs @ pipe_bytes i st'"
    using pipe_channel.run_order [OF assms(1), where i = i and cpu = cpu and fl = fl and ops = ops] assms(2,3)
    by auto
  have "p_readers (pipes st' ! i) = 0 \<longrightarrow> fst (pipe_write cpu fl i src st') = Inl EPIPE"
    by (simp add: pipe_write_def Let_def)
  with r show ?thesis using pipe_read_now [of M st' i cpu fl n] pipe_write_now [of st' i cpu fl src] assms(2) by simp
qed

text \<open>The writer closes its end after the second write; the unread byte is still delivered, then the end.\<close>

theorem pipe_stream_order_witness:
  "\<exists>st st'. pipe_new (pipes_boot room_frames (\<lambda>_. 0)) = (Inr 0, st) \<and>
     fifo.run (pipe_put 0 0 0) (pipe_get 0 0 0) (pipe_other 0 0)
       [Put [1, 2, 3], Other (Add_ref PipeR 0), Get 2, Put [4], Other (Drop_ref PipeR 0), Other (Drop_ref PipeW 0), Get 1]
       st = ([1, 2, 3, 4], [1, 2, 3], st') \<and>
     pipe_bytes 0 st' = [4] \<and> fst (pipe_read 0 0 0 9 st') = Inr [4]"
proof -
  obtain b st where s: "pipe_new (pipes_boot room_frames (\<lambda>_. 0)) = (Inr 0, st)" "pipes_inv {#} st"
    "pipes st ! 0 = \<lparr>p_buf = b, p_head = 0, p_len = 0, p_readers = 1, p_writers = 1\<rparr>"
    "length (pipes st) = MAX_PIPES" "kmem st = (\<lambda>_. 0)"
    by (rule pipe_demo)
  have i: "0 < MAX_PIPES" by (simp add: MAX_PIPES_def)
  have b: "b \<noteq> 0" using pipes_invD(4) [OF s(2) i] unfolding s(3) by (auto simp: pipe_ok_def pipe_empty_def split: if_splits)
  obtain ins outs st' where r: "fifo.run (pipe_put 0 0 0) (pipe_get 0 0 0) (pipe_other 0 0)
      [Put [1, 2, 3], Other (Add_ref PipeR 0), Get 2, Put [4], Other (Drop_ref PipeR 0), Other (Drop_ref PipeW 0), Get 1]
      st = (ins, outs, st')" by (metis prod_cases3)
  have q: "ins = [1, 2, 3, 4] \<and> length outs = 3 \<and> p_writers (pipes st' ! 0) = 0"
    using r s(3-5) i b
    by (auto simp: pipe_run_0 pipe_put_def pipe_get_def pipe_other_def pipe_add_ref_def pipe_drop_ref_def
        pipe_write_def pipe_read_def Let_def PIPE_CAP_def PIPE_PAGES_def ring_read_eq)
  have "pipe_bytes 0 st = []" using s(3) by (simp add: pipe_bytes_def ring_bytes_def)
  with pipe_stream_order [OF s(2) i r, of 9 "[]"] q have "[1, 2, 3, 4] = outs @ pipe_bytes 0 st'"
    "fst (pipe_read 0 0 0 9 st') = Inr (take 9 (pipe_bytes 0 st'))" by auto
  moreover have "outs = [1, 2, 3] \<and> pipe_bytes 0 st' = [4]"
    using calculation(1) q by (auto simp: Cons_eq_append_conv)
  ultimately show ?thesis using s(1) r q by auto
qed

text \<open>C22. No write goes outside the pipe's own ring: in every state that satisfies the invariant,
  \<open>pipe_write\<close> leaves every byte of kernel memory outside the pipe's 16 frames as it was, never
  stores more than \<open>PIPE_CAP\<close> bytes, and keeps the read position inside the ring.\<close>

theorem pipe_write_confined:
  assumes "pipes_inv M st" and "i < MAX_PIPES" and "pipe_write cpu fl i src st = (r, st')"
    and "x < p_buf (pipes st ! i) \<or> p_buf (pipes st ! i) + PIPE_CAP \<le> x"
  shows "kmem st' x = kmem st x \<and> p_len (pipes st' ! i) \<le> PIPE_CAP \<and> p_head (pipes st' ! i) < PIPE_CAP"
proof (intro conjI)
  have "pipe_ok (pipes st' ! i)"
    using pipes_invD(4) [OF pipe_write_inv [OF assms(1-3)] assms(2)] .
  then show "p_len (pipes st' ! i) \<le> PIPE_CAP" "p_head (pipes st' ! i) < PIPE_CAP"
    by (auto simp: pipe_ok_def pipe_empty_def split: if_splits)
  show "kmem st' x = kmem st x"
    using assms(3) refl
  proof (cases rule: pipe_write_cases)
    case (put n)
    then show ?thesis using assms(4) by (simp add: ring_write_outside)
  qed auto
qed

theorem pipe_write_confined_witness:
  "\<exists>b st st'. pipe_new (pipes_boot room_frames (\<lambda>_. 7)) = (Inr 0, st) \<and> 0 < b \<and>
     p_buf (pipes st ! 0) = b \<and> pipe_write 0 0 0 [1, 2] st = (Inr 2, st') \<and> kmem st' (b - 1) = 7"
proof -
  obtain b st where s: "pipe_new (pipes_boot room_frames (\<lambda>_. 7)) = (Inr 0, st)" "pipes_inv {#} st"
    "pipes st ! 0 = \<lparr>p_buf = b, p_head = 0, p_len = 0, p_readers = 1, p_writers = 1\<rparr>"
    "length (pipes st) = MAX_PIPES" "kmem st = (\<lambda>_. 7)"
    by (rule pipe_demo)
  have i: "0 < MAX_PIPES" by (simp add: MAX_PIPES_def)
  have b: "0 < b" using pipe_new_inv(2) [OF pipes_boot_inv [OF room_inv(1)] s(1) refl] s(3)
    by (auto simp: pipes_boot_def MAX_PIPES_def)
  have w: "pipe_write 0 0 0 [1, 2] st = (Inr 2, snd (pipe_write 0 0 0 [1, 2] st))"
    using s(3) by (simp add: pipe_write_def Let_def PIPE_CAP_def PIPE_PAGES_def)
  have "b - 1 < p_buf (pipes st ! 0)" using s(3) b by simp
  then have "kmem (snd (pipe_write 0 0 0 [1, 2] st)) (b - 1) = kmem st (b - 1)"
    using pipe_write_confined [OF s(2) i w] by blast
  then show ?thesis using s b w by auto
qed

end
