(* ===== verification/Unix.thy ===== *)
theory Unix
  imports Pipes
begin

text \<open>
  Local sockets (\<open>kernel/src/unix.rs\<close>): connections with two ends and a queue in each
  direction, listeners with a backlog, and descriptors in flight (\<open>SCM_RIGHTS\<close>), attached to
  the position of the stream where their message starts. A queue is a ring of bytes; in packet
  mode (\<open>SOCK_SEQPACKET\<close>, \<open>SOCK_DGRAM\<close>) a second ring keeps the message sizes.

  An array with a counter of used entries (\<open>atts[..natt]\<close>, \<open>files[..n]\<close>, \<open>backlog[..n]\<close>) is the
  list of its used entries, and \<open>copy_within(1..n, 0)\<close> with \<open>n -= 1\<close> its tail; the rings
  (\<open>buf\<close>, \<open>msgs\<close>) are kept as rings. \<open>drop_ref\<close> of the last reference returns the descriptors
  still in flight, which the caller (\<open>Files.drop_refs\<close>) drops in turn.
\<close>

section \<open>State\<close>

record att =
  a_pos :: nat
  a_files :: "open_file list"

record queue =
  q_buf :: nat
  q_head :: nat
  q_len :: nat
  q_wpos :: nat
  q_rpos :: nat
  q_msgs :: "nat list"
  q_mhead :: nat
  q_mcount :: nat
  q_atts :: "att list"
  q_eof :: bool

record conn =
  c_used :: bool
  c_packet :: bool
  c_q :: "queue list"
  c_refs :: "nat list"
  c_port :: "nat list"

datatype skey = No_key | Ino nat | Abstract "u8 list" nat | Port nat

record listener =
  l_used :: bool
  l_refs :: nat
  l_packet :: bool
  l_key :: skey
  l_backlog :: "nat list"

record unix_st = pipes_st +
  conns :: "conn list"
  listeners :: "listener list"

definition CAP :: nat where "CAP = 64 * 1024"
definition PAGES :: nat where "PAGES = 16"
definition MSGQ :: nat where "MSGQ = 128"
definition ATTQ :: nat where "ATTQ = 8"
definition MAX_SENT :: nat where "MAX_SENT = 16"
definition MAX_CONNS :: nat where "MAX_CONNS = 512"
definition MAX_LISTEN :: nat where "MAX_LISTEN = 64"
definition BACKLOG :: nat where "BACKLOG = 16"

definition qempty :: queue where
  "qempty = \<lparr>q_buf = 0, q_head = 0, q_len = 0, q_wpos = 0, q_rpos = 0, q_msgs = replicate MSGQ 0,
     q_mhead = 0, q_mcount = 0, q_atts = [], q_eof = False\<rparr>"

definition cempty :: conn where
  "cempty = \<lparr>c_used = False, c_packet = False, c_q = [qempty, qempty], c_refs = [0, 0], c_port = [0, 0]\<rparr>"

definition lempty :: listener where
  "lempty = \<lparr>l_used = False, l_refs = 0, l_packet = False, l_key = No_key, l_backlog = []\<rparr>"

definition ukey_r :: "nat \<Rightarrow> nat \<Rightarrow> u64" where
  "ukey_r c e = 0x554E00000000 OR push_bit 2 (word_of_nat c) OR word_of_nat e"

definition ukey_l :: "nat \<Rightarrow> u64" where
  "ukey_l i = 0x554C00000000 OR word_of_nat i"

definition put_conn :: "nat \<Rightarrow> conn \<Rightarrow> 'a unix_st_scheme \<Rightarrow> 'a unix_st_scheme" where
  "put_conn c k st = st\<lparr>conns := (conns st)[c := k]\<rparr>"

definition put_queue :: "nat \<Rightarrow> nat \<Rightarrow> queue \<Rightarrow> 'a unix_st_scheme \<Rightarrow> 'a unix_st_scheme" where
  "put_queue c e q st = (let k = conns st ! c in put_conn c (k\<lparr>c_q := (c_q k)[e := q]\<rparr>) st)"

section \<open>Connections\<close>

definition conn_new :: "bool \<Rightarrow> 'a unix_st_scheme \<Rightarrow> (errno + nat) \<times> 'a unix_st_scheme" where
  "conn_new packet st =
     (case position (\<lambda>k. \<not> c_used k) (conns st) of
        None \<Rightarrow> (Inl ENOMEM, st)
      | Some c \<Rightarrow>
          (case alloc_contig PAGES (kfa st) of
             None \<Rightarrow> (Inl ENOMEM, st)
           | Some (a, fa) \<Rightarrow>
               (case alloc_contig PAGES fa of
                  None \<Rightarrow> (Inl ENOMEM, st\<lparr>kfa := free_contig a PAGES fa\<rparr>)
                | Some (b, fa) \<Rightarrow>
                    (Inr c, put_conn c
                       (cempty\<lparr>c_used := True, c_packet := packet,
                          c_q := [qempty\<lparr>q_buf := a\<rparr>, qempty\<lparr>q_buf := b\<rparr>], c_refs := [1, 1]\<rparr>)
                       (st\<lparr>kfa := fa\<rparr>)))))"

definition unix_add_ref :: "nat \<Rightarrow> nat \<Rightarrow> 'a unix_st_scheme \<Rightarrow> 'a unix_st_scheme" where
  "unix_add_ref c e st =
     (let k = conns st ! c in put_conn c (k\<lparr>c_refs := (c_refs k)[e := c_refs k ! e + 1]\<rparr>) st)"

definition in_flight :: "conn \<Rightarrow> open_file list" where
  "in_flight k = concat (map (\<lambda>q. concat (map a_files (q_atts q))) (c_q k))"

definition unix_drop_ref :: "nat \<Rightarrow> nat \<Rightarrow> 'a unix_st_scheme \<Rightarrow> open_file list \<times> 'a unix_st_scheme" where
  "unix_drop_ref c e st =
     (let k = conns st ! c;
          k = k\<lparr>c_refs := (c_refs k)[e := c_refs k ! e - 1]\<rparr>;
          st = put_conn c k st;
          st = (if c_refs k ! e = 0 then push_wake (ukey_r c e) (push_wake (ukey_r c (1 - e)) st) else st)
      in if c_refs k ! 0 = 0 \<and> c_refs k ! 1 = 0
         then (in_flight k,
               put_conn c cempty (st\<lparr>kfa := fold (\<lambda>q. free_contig (q_buf q) PAGES) (c_q k) (kfa st)\<rparr>))
         else ([], st))"

definition set_ports :: "nat \<Rightarrow> nat \<Rightarrow> nat \<Rightarrow> 'a unix_st_scheme \<Rightarrow> 'a unix_st_scheme" where
  "set_ports c a b st = put_conn c ((conns st ! c)\<lparr>c_port := [a, b]\<rparr>) st"

definition ports :: "nat \<Rightarrow> nat \<Rightarrow> 'a unix_st_scheme \<Rightarrow> nat \<times> nat" where
  "ports c e st = (let k = conns st ! c in (c_port k ! e, c_port k ! (1 - e)))"

section \<open>Reading and writing\<close>

text \<open>\<open>read\<close>: the descriptors attached to this position, then how much to copy and to consume.\<close>

definition take_fds :: "queue \<Rightarrow> open_file list \<times> queue" where
  "take_fds q =
     (if q_atts q \<noteq> [] \<and> a_pos (hd (q_atts q)) = q_rpos q
      then (a_files (hd (q_atts q)), q\<lparr>q_atts := tl (q_atts q)\<rparr>)
      else ([], q))"

definition take_amount :: "bool \<Rightarrow> nat \<Rightarrow> queue \<Rightarrow> (nat \<times> nat \<times> bool) \<times> queue" where
  "take_amount packet len q =
     (if packet then
        let m = q_msgs q ! q_mhead q in
        ((min len m, m, len < m), q\<lparr>q_mhead := (q_mhead q + 1) mod MSGQ, q_mcount := q_mcount q - 1\<rparr>)
      else
        let n = min len (q_len q);
            n = (if q_atts q \<noteq> [] \<and> a_pos (hd (q_atts q)) > q_rpos q
                 then min n (a_pos (hd (q_atts q)) - q_rpos q) else n)
        in ((n, n, False), q))"

definition unix_read :: "nat \<Rightarrow> nat \<Rightarrow> nat \<Rightarrow> nat \<Rightarrow> bool \<Rightarrow> 'a unix_st_scheme \<Rightarrow>
    (errno + u8 list \<times> bool \<times> open_file list) \<times> 'a unix_st_scheme" where
  "unix_read cpu c e len nb st =
     (let k = conns st ! c; q = c_q k ! e in
      if q_len q = 0 then
        if c_refs k ! (1 - e) = 0 \<or> q_eof q then (Inr ([], False, []), st)
        else if nb then (Inl EAGAIN, st)
        else (case would_block cpu (ukey_r c e) st of (err, st) \<Rightarrow> (Inl err, st))
      else
        case take_fds q of (fds, q) \<Rightarrow>
        case take_amount (c_packet k) len q of ((n, consume, trunc), q) \<Rightarrow>
        let bs = ring_read CAP (kmem st) (q_buf q) (q_head q) n 0;
            q = q\<lparr>q_head := (q_head q + consume) mod CAP, q_len := q_len q - consume,
                  q_rpos := q_rpos q + consume\<rparr>
        in (Inr (bs, trunc, fds), push_wake (ukey_r c (1 - e)) (put_queue c e q st)))"

definition unix_write :: "nat \<Rightarrow> nat \<Rightarrow> nat \<Rightarrow> u8 list \<Rightarrow> bool \<Rightarrow> open_file list \<Rightarrow> 'a unix_st_scheme \<Rightarrow>
    (errno + nat) \<times> 'a unix_st_scheme" where
  "unix_write cpu c e src nb files st =
     (let k = conns st ! c; len = length src; q = c_q k ! (1 - e); space = CAP - q_len q in
      if c_refs k ! (1 - e) = 0 then (Inl EPIPE, st)
      else if c_packet k \<and> len > CAP then (Inl EMSGSIZE, st)
      else if (if c_packet k then space < len \<or> q_mcount q = MSGQ else space = 0) then
        if nb then (Inl EAGAIN, st)
        else (case would_block cpu (ukey_r c (1 - e)) st of (err, st) \<Rightarrow> (Inl err, st))
      else if files \<noteq> [] \<and> (length (q_atts q) = ATTQ \<or> length files > MAX_SENT) then (Inl ENOBUFS, st)
      else
        let q = (if files = [] then q
                 else q\<lparr>q_atts := q_atts q @ [\<lparr>a_pos = q_wpos q, a_files = files\<rparr>]\<rparr>);
            n = (if c_packet k then len else min len space);
            m = ring_write CAP (q_buf q) (q_head q + q_len q) (take n src) 0 (kmem st);
            q = q\<lparr>q_len := q_len q + n, q_wpos := q_wpos q + n\<rparr>;
            q = (if c_packet k
                 then q\<lparr>q_msgs := (q_msgs q)[(q_mhead q + q_mcount q) mod MSGQ := n],
                        q_mcount := q_mcount q + 1\<rparr>
                 else q)
        in (Inr n, push_wake (ukey_r c (1 - e)) (put_queue c (1 - e) q (st\<lparr>kmem := m\<rparr>))))"

definition unix_shutdown :: "nat \<Rightarrow> nat \<Rightarrow> nat \<Rightarrow> 'a unix_st_scheme \<Rightarrow> 'a unix_st_scheme" where
  "unix_shutdown c e how st =
     (let st = (if how \<noteq> 0
                then push_wake (ukey_r c (1 - e))
                  (put_queue c (1 - e) ((c_q (conns st ! c) ! (1 - e))\<lparr>q_eof := True\<rparr>) st)
                else st)
      in if how \<noteq> 1
         then push_wake (ukey_r c e) (put_queue c e ((c_q (conns st ! c) ! e)\<lparr>q_eof := True\<rparr>) st)
         else st)"

definition unix_avail :: "nat \<Rightarrow> nat \<Rightarrow> 'a unix_st_scheme \<Rightarrow> nat" where
  "unix_avail c e st =
     (let k = conns st ! c; q = c_q k ! e in
      if c_packet k then if q_mcount q > 0 then q_msgs q ! q_mhead q else 0 else q_len q)"

text \<open>(something to read or the end, room to write, the other side gone)\<close>

definition unix_ready :: "nat \<Rightarrow> nat \<Rightarrow> 'a unix_st_scheme \<Rightarrow> bool \<times> bool \<times> bool" where
  "unix_ready c e st =
     (let k = conns st ! c; gone = c_refs k ! (1 - e) = 0; q = c_q k ! e; out = c_q k ! (1 - e) in
      (q_len q > 0 \<or> gone \<or> q_eof q,
       \<not> gone \<and> (if c_packet k then q_len out < CAP \<and> q_mcount out < MSGQ else q_len out < CAP),
       gone))"

section \<open>Listeners\<close>

definition find_listener :: "skey \<Rightarrow> 'a unix_st_scheme \<Rightarrow> nat option" where
  "find_listener key st = position (\<lambda>l. l_used l \<and> l_key l = key) (listeners st)"

definition is_bound :: "skey \<Rightarrow> 'a unix_st_scheme \<Rightarrow> bool" where
  "is_bound key st = (find_listener key st \<noteq> None)"

definition put_listener :: "nat \<Rightarrow> listener \<Rightarrow> 'a unix_st_scheme \<Rightarrow> 'a unix_st_scheme" where
  "put_listener i l st = st\<lparr>listeners := (listeners st)[i := l]\<rparr>"

definition unix_listen :: "skey \<Rightarrow> bool \<Rightarrow> 'a unix_st_scheme \<Rightarrow> (errno + nat) \<times> 'a unix_st_scheme" where
  "unix_listen key packet st =
     (if find_listener key st \<noteq> None then (Inl EADDRINUSE, st)
      else case position (\<lambda>l. \<not> l_used l) (listeners st) of
             None \<Rightarrow> (Inl ENOMEM, st)
           | Some i \<Rightarrow>
               (Inr i, put_listener i (lempty\<lparr>l_used := True, l_refs := 1, l_packet := packet, l_key := key\<rparr>) st))"

text \<open>\<open>listener_ref\<close>: with the last reference, the server ends never accepted are dropped by the caller.\<close>

definition listener_ref :: "nat \<Rightarrow> int \<Rightarrow> 'a unix_st_scheme \<Rightarrow> nat list \<times> 'a unix_st_scheme" where
  "listener_ref i delta st =
     (let l = listeners st ! i; l = l\<lparr>l_refs := nat (int (l_refs l) + delta)\<rparr> in
      if l_refs l = 0 then (l_backlog l, put_listener i lempty st) else ([], put_listener i l st))"

definition listener_ready :: "nat \<Rightarrow> 'a unix_st_scheme \<Rightarrow> bool" where
  "listener_ready i st \<longleftrightarrow> l_backlog (listeners st ! i) \<noteq> []"

definition unix_connect :: "skey \<Rightarrow> bool \<Rightarrow> 'a unix_st_scheme \<Rightarrow> (errno + nat) \<times> 'a unix_st_scheme" where
  "unix_connect key packet st =
     (case find_listener key st of
        None \<Rightarrow> (Inl ECONNREFUSED, st)
      | Some li \<Rightarrow>
          if l_packet (listeners st ! li) \<noteq> packet then (Inl ECONNREFUSED, st)
          else if length (l_backlog (listeners st ! li)) = BACKLOG then (Inl EAGAIN, st)
          else case conn_new packet st of
                 (Inl err, st) \<Rightarrow> (Inl err, st)
               | (Inr c, st) \<Rightarrow>
                   let l = listeners st ! li in
                   (Inr c, push_wake (ukey_l li) (put_listener li (l\<lparr>l_backlog := l_backlog l @ [c]\<rparr>) st)))"

definition unix_accept :: "nat \<Rightarrow> nat \<Rightarrow> bool \<Rightarrow> 'a unix_st_scheme \<Rightarrow> (errno + nat) \<times> 'a unix_st_scheme" where
  "unix_accept cpu i nb st =
     (let l = listeners st ! i in
      case l_backlog l of
        [] \<Rightarrow> if nb then (Inl EAGAIN, st)
              else (case would_block cpu (ukey_l i) st of (err, st) \<Rightarrow> (Inl err, st))
      | c # rest \<Rightarrow> (Inr c, put_listener i (l\<lparr>l_backlog := rest\<rparr>) st))"

section \<open>The invariant\<close>

text \<open>The sizes of the queued messages, oldest first.\<close>

definition msg_sizes :: "queue \<Rightarrow> nat list" where
  "msg_sizes q = map (\<lambda>i. q_msgs q ! ((q_mhead q + i) mod MSGQ)) [0..<q_mcount q]"

definition queue_ok :: "bool \<Rightarrow> queue \<Rightarrow> bool" where
  "queue_ok packet q \<longleftrightarrow> q_buf q \<noteq> 0 \<and> q_head q < CAP \<and> q_len q \<le> CAP \<and> q_wpos q = q_rpos q + q_len q \<and>
     length (q_msgs q) = MSGQ \<and> q_mhead q < MSGQ \<and> q_mcount q \<le> MSGQ \<and>
     (if packet then sum_list (msg_sizes q) = q_len q else q_mcount q = 0) \<and>
     length (q_atts q) \<le> ATTQ \<and>
     list_all (\<lambda>a. a_pos a \<le> q_wpos q \<and> a_files a \<noteq> [] \<and> length (a_files a) \<le> MAX_SENT) (q_atts q) \<and>
     sorted (map a_pos (q_atts q))"

definition conn_ok :: "conn \<Rightarrow> bool" where
  "conn_ok k \<longleftrightarrow> (if c_used k
     then length (c_q k) = 2 \<and> length (c_refs k) = 2 \<and> list_all (queue_ok (c_packet k)) (c_q k) \<and>
       (0 < c_refs k ! 0 \<or> 0 < c_refs k ! 1)
     else k = cempty)"

definition conn_spans :: "conn \<Rightarrow> (nat \<times> nat) multiset" where
  "conn_spans k = (if c_used k then mset (map (\<lambda>q. (q_buf q, PAGES)) (c_q k)) else {#})"

definition listener_ok :: "listener \<Rightarrow> bool" where
  "listener_ok l \<longleftrightarrow> (if l_used l then 0 < l_refs l \<and> length (l_backlog l) \<le> BACKLOG else l = lempty)"

definition unix_inv :: "(nat \<times> nat) multiset \<Rightarrow> 'a unix_st_scheme \<Rightarrow> bool" where
  "unix_inv M st \<longleftrightarrow> pipes_inv (table_spans conn_spans (conns st) + M) st \<and>
     length (conns st) = MAX_CONNS \<and> list_all conn_ok (conns st) \<and>
     length (listeners st) = MAX_LISTEN \<and> list_all listener_ok (listeners st)"

lemma CAP_pos [simp]: "0 < CAP" "CAP = PAGES * 4096" "0 < MSGQ"
  by (simp_all add: CAP_def PAGES_def MSGQ_def)

declare CAP_pos(2) [simp del]

lemma cempty_ok [simp]: "conn_ok cempty" "conn_spans cempty = {#}" "\<not> c_used cempty"
  by (simp_all add: conn_ok_def conn_spans_def cempty_def)

lemma lempty_ok [simp]: "listener_ok lempty" "\<not> l_used lempty"
  by (simp_all add: listener_ok_def lempty_def)

lemma put_conn_simps [simp]:
  "conns (put_conn c k st) = (conns st)[c := k]" "listeners (put_conn c k st) = listeners st"
  "pipes (put_conn c k st) = pipes st" "kfa (put_conn c k st) = kfa st" "kmem (put_conn c k st) = kmem st"
  "iseq (put_conn c k st) = iseq st" "pend (put_conn c k st) = pend st" "pany (put_conn c k st) = pany st"
  "block_on (put_conn c k st) = block_on st" "unix_st.more (put_conn c k st) = unix_st.more st"
  by (simp_all add: put_conn_def)

lemma put_queue_conn:
  "put_queue c e q st = put_conn c ((conns st ! c)\<lparr>c_q := (c_q (conns st ! c))[e := q]\<rparr>) st"
  by (simp add: put_queue_def Let_def)

lemma put_listener_simps [simp]:
  "listeners (put_listener i l st) = (listeners st)[i := l]" "conns (put_listener i l st) = conns st"
  "pipes (put_listener i l st) = pipes st" "kfa (put_listener i l st) = kfa st"
  "kmem (put_listener i l st) = kmem st" "iseq (put_listener i l st) = iseq st"
  "pend (put_listener i l st) = pend st" "pany (put_listener i l st) = pany st"
  "block_on (put_listener i l st) = block_on st" "unix_st.more (put_listener i l st) = unix_st.more st"
  by (simp_all add: put_listener_def)

lemma waits_unix [simp]:
  "conns (push_wake key st) = conns st" "listeners (push_wake key st) = listeners st"
  "conns (snd (would_block cpu key st)) = conns st" "listeners (snd (would_block cpu key st)) = listeners st"
  "unix_st.more (push_wake key st) = unix_st.more st"
  "unix_st.more (snd (would_block cpu key st)) = unix_st.more st"
  by (simp_all add: push_wake_def bump_io_seq_def would_block_def would_block_for_def Let_def)

lemma unix_invD:
  assumes "unix_inv M st"
  shows "pipes_inv (table_spans conn_spans (conns st) + M) st"
    and "length (conns st) = MAX_CONNS" "length (listeners st) = MAX_LISTEN"
    and "c < MAX_CONNS \<Longrightarrow> conn_ok (conns st ! c)"
    and "i < MAX_LISTEN \<Longrightarrow> listener_ok (listeners st ! i)"
  using assms by (auto simp: unix_inv_def list_all_length)

lemma used_conn:
  assumes "unix_inv M st" "c < MAX_CONNS" "c_used (conns st ! c)"
  shows "length (c_q (conns st ! c)) = 2" "length (c_refs (conns st ! c)) = 2"
    and "e < 2 \<Longrightarrow> queue_ok (c_packet (conns st ! c)) (c_q (conns st ! c) ! e)"
    and "0 < c_refs (conns st ! c) ! 0 \<or> 0 < c_refs (conns st ! c) ! 1"
  using unix_invD(4) [OF assms(1,2)] assms(3) by (auto simp: conn_ok_def list_all_length)

lemma unix_inv_cong:
  assumes "unix_inv M st" "kfa st' = kfa st" "pipes st' = pipes st" "conns st' = conns st"
    "listeners st' = listeners st" "waits_wf st'"
  shows "unix_inv M st'"
  using assms by (simp add: unix_inv_def pipes_inv_def)

lemma unix_waits: "unix_inv M st \<Longrightarrow> waits_wf st"
  by (simp add: unix_inv_def pipes_inv_def)

lemma unix_push_wake_inv: "unix_inv M st \<Longrightarrow> unix_inv M (push_wake key st)"
  by (rule unix_inv_cong, assumption) (auto intro: push_wake_wf unix_waits)

lemma unix_would_block_inv: "unix_inv M st \<Longrightarrow> unix_inv M (snd (would_block cpu key st))"
  by (rule unix_inv_cong, assumption) (auto intro: would_block_wf unix_waits)

lemma unix_kmem_inv: "unix_inv M st \<Longrightarrow> unix_inv M (st\<lparr>kmem := m\<rparr>)"
  by (rule unix_inv_cong, assumption) (auto simp: waits_wf_def dest: unix_waits)

lemma put_conn_inv:
  assumes "unix_inv M st" "c < MAX_CONNS" "conn_ok k" "conn_spans k = conn_spans (conns st ! c)"
  shows "unix_inv M (put_conn c k st)"
proof -
  note d = unix_invD [OF assms(1)]
  have "table_spans conn_spans ((conns st)[c := k]) = table_spans conn_spans (conns st)"
    using table_spans_same assms(2,4) d(2) by metis
  moreover have "pipes_inv (table_spans conn_spans (conns st) + M) (put_conn c k st)"
    using d(1) by (rule pipes_inv_cong) (use unix_waits [OF assms(1)] in \<open>auto simp: waits_wf_def\<close>)
  ultimately show ?thesis
    using assms(1,3) by (auto simp: unix_inv_def list_all_update)
qed

lemma put_listener_inv:
  assumes "unix_inv M st" "listener_ok l"
  shows "unix_inv M (put_listener i l st)"
proof -
  have "pipes_inv (table_spans conn_spans (conns st) + M) (put_listener i l st)"
    using unix_invD(1) [OF assms(1)]
    by (rule pipes_inv_cong) (use unix_waits [OF assms(1)] in \<open>auto simp: waits_wf_def\<close>)
  then show ?thesis using assms by (auto simp: unix_inv_def list_all_update)
qed

lemma put_queue_inv:
  assumes inv: "unix_inv M st" and c: "c < MAX_CONNS" "c_used (conns st ! c)" "e < 2"
    and q: "queue_ok (c_packet (conns st ! c)) q" "q_buf q = q_buf (c_q (conns st ! c) ! e)"
  shows "unix_inv M (put_queue c e q st)"
proof -
  let ?k = "conns st ! c"
  note u = used_conn [OF inv c(1,2)]
  have "map (\<lambda>q. (q_buf q, PAGES)) ((c_q ?k)[e := q]) = map (\<lambda>q. (q_buf q, PAGES)) (c_q ?k)"
    using u(1) c(3) q(2) by (simp add: map_update list_update_same_conv)
  then show ?thesis
    unfolding put_queue_conn using c u(1,2,4) q(1) u(3)
    by (intro put_conn_inv inv c(1)) (auto simp: conn_ok_def conn_spans_def list_all_length nth_list_update)
qed

section \<open>Creating and dropping connections\<close>

lemma new_conn_ok:
  assumes "0 < a" "0 < b"
  shows "conn_ok (cempty\<lparr>c_used := True, c_packet := packet,
      c_q := [qempty\<lparr>q_buf := a\<rparr>, qempty\<lparr>q_buf := b\<rparr>], c_refs := [1, 1]\<rparr>)"
  using assms by (simp add: conn_ok_def queue_ok_def qempty_def msg_sizes_def)

lemma conn_new_inv:
  assumes inv: "unix_inv M st" and e: "conn_new packet st = (r, st')"
  shows "unix_inv M st'" and "listeners st' = listeners st" and "pipes st' = pipes st" and "kmem st' = kmem st"
    and "r = Inl x \<Longrightarrow> conns st' = conns st"
    and "r = Inr c \<Longrightarrow> c < MAX_CONNS \<and> \<not> c_used (conns st ! c) \<and> (\<exists>a b. 0 < a \<and> 0 < b \<and>
      conns st' = (conns st)[c := cempty\<lparr>c_used := True, c_packet := packet,
          c_q := [qempty\<lparr>q_buf := a\<rparr>, qempty\<lparr>q_buf := b\<rparr>], c_refs := [1, 1]\<rparr>])"
proof -
  note d = unix_invD [OF inv]
  note sp = pipes_invD(5) [OF d(1)]
  have "unix_inv M st' \<and> listeners st' = listeners st \<and> pipes st' = pipes st \<and> kmem st' = kmem st \<and>
    (\<forall>x. r = Inl x \<longrightarrow> conns st' = conns st) \<and>
    (\<forall>c. r = Inr c \<longrightarrow> c < MAX_CONNS \<and> \<not> c_used (conns st ! c) \<and> (\<exists>a b. 0 < a \<and> 0 < b \<and>
      conns st' = (conns st)[c := cempty\<lparr>c_used := True, c_packet := packet,
          c_q := [qempty\<lparr>q_buf := a\<rparr>, qempty\<lparr>q_buf := b\<rparr>], c_refs := [1, 1]\<rparr>]))"
  proof (cases "position (\<lambda>k. \<not> c_used k) (conns st)")
    case None
    then show ?thesis using e inv by (auto simp: conn_new_def)
  next
    case (Some c)
    have cl: "c < length (conns st)" "\<not> c_used (conns st ! c)" using position_Some [OF Some] by auto
    then have ce: "conns st ! c = cempty" using d(2,4) by (simp add: conn_ok_def)
    show ?thesis
    proof (cases "alloc_contig PAGES (kfa st)")
      case None
      then show ?thesis using e inv Some by (auto simp: conn_new_def)
    next
      case A: (Some p)
      obtain a fa where p: "p = (a, fa)" by (cases p)
      note spa = alloc_span [OF sp A [unfolded p]]
      show ?thesis
      proof (cases "alloc_contig PAGES fa")
        case None
        have "spans_ok (free_contig a PAGES fa) (table_spans pipe_spans (pipes st) + (table_spans conn_spans (conns st) + M))"
          using free_span [OF spa(1)] by simp
        moreover have "r = Inl ENOMEM" "st' = st\<lparr>kfa := free_contig a PAGES fa\<rparr>"
          using e Some A p None by (auto simp: conn_new_def)
        ultimately show ?thesis using inv by (simp add: unix_inv_def pipes_inv_def waits_wf_def)
      next
        case B: (Some p')
        obtain b fb where p': "p' = (b, fb)" by (cases p')
        note spb = alloc_span [OF spa(1) B [unfolded p']]
        let ?k = "cempty\<lparr>c_used := True, c_packet := packet,
          c_q := [qempty\<lparr>q_buf := a\<rparr>, qempty\<lparr>q_buf := b\<rparr>], c_refs := [1, 1]\<rparr>"
        have r: "r = Inr c" "st' = put_conn c ?k (st\<lparr>kfa := fb\<rparr>)"
          using e Some A B p p' by (auto simp: conn_new_def)
        obtain N where N: "table_spans conn_spans (conns st) = conn_spans (conns st ! c) + N"
          "\<And>x. table_spans conn_spans ((conns st)[c := x]) = conn_spans x + N"
          using table_spans_nth [OF cl(1), of conn_spans] by blast
        have "spans_ok fb (table_spans pipe_spans (pipes st) + (table_spans conn_spans ((conns st)[c := ?k]) + M))"
          using spb(1) by (simp add: N ce conn_spans_def add_mset_commute)
        moreover have "conn_ok ?k" using new_conn_ok spa(2) spb(2) by blast
        ultimately have "unix_inv M st'"
          using inv unfolding r(2) by (auto simp: unix_inv_def pipes_inv_def waits_wf_def list_all_update)
        then show ?thesis using r cl d(2) spa(2) spb(2) by auto
      qed
    qed
  qed
  then show "unix_inv M st'" and "listeners st' = listeners st" and "pipes st' = pipes st" and "kmem st' = kmem st"
    and "r = Inl x \<Longrightarrow> conns st' = conns st"
    and "r = Inr c \<Longrightarrow> c < MAX_CONNS \<and> \<not> c_used (conns st ! c) \<and> (\<exists>a b. 0 < a \<and> 0 < b \<and>
      conns st' = (conns st)[c := cempty\<lparr>c_used := True, c_packet := packet,
          c_q := [qempty\<lparr>q_buf := a\<rparr>, qempty\<lparr>q_buf := b\<rparr>], c_refs := [1, 1]\<rparr>])"
    by blast+
qed

lemma conn_ok_refs:
  assumes "conn_ok k" "c_used k" "length rs = 2" "0 < rs ! 0 \<or> 0 < rs ! 1"
  shows "conn_ok (k\<lparr>c_refs := rs\<rparr>)"
  using assms by (simp add: conn_ok_def)

lemma unix_add_ref_inv:
  assumes inv: "unix_inv M st" and c: "c < MAX_CONNS" "c_used (conns st ! c)" "e < 2"
  shows "unix_inv M (unix_add_ref c e st)"
proof -
  note u = used_conn [OF inv c(1,2)]
  have "0 < ((c_refs (conns st ! c))[e := c_refs (conns st ! c) ! e + 1]) ! e" using u(2) c(3) by simp
  then show ?thesis unfolding unix_add_ref_def Let_def
    using unix_invD(4) [OF inv c(1)] u(2) c
    by (intro put_conn_inv inv c(1) conn_ok_refs) (auto simp: conn_spans_def less_2_cases_iff)
qed

text \<open>Freeing a connection's two rings.\<close>

lemma free_conn_inv:
  assumes inv: "unix_inv M st" and c: "c < MAX_CONNS" "c_used (conns st ! c)"
  shows "unix_inv M (put_conn c cempty
    (st\<lparr>kfa := fold (\<lambda>q. free_contig (q_buf q) PAGES) (c_q (conns st ! c)) (kfa st)\<rparr>))"
proof -
  note d = unix_invD [OF inv] and u = used_conn [OF inv c]
  obtain qa qb where q: "c_q (conns st ! c) = [qa, qb]"
    using u(1) by (metis (no_types) length_0_conv length_Suc_conv numeral_2_eq_2)
  have cl: "c < length (conns st)" using c d(2) by simp
  obtain N where N: "table_spans conn_spans (conns st) = conn_spans (conns st ! c) + N"
    "\<And>x. table_spans conn_spans ((conns st)[c := x]) = conn_spans x + N"
    using table_spans_nth [OF cl, of conn_spans] by blast
  let ?R = "table_spans pipe_spans (pipes st) + (N + M)"
  have "spans_ok (kfa st) (add_mset (q_buf qa, PAGES) (add_mset (q_buf qb, PAGES) ?R))"
    using pipes_invD(5) [OF d(1)] c(2) by (simp add: N(1) conn_spans_def q)
  from free_span [OF free_span [OF this]]
  have "spans_ok (free_contig (q_buf qb) PAGES (free_contig (q_buf qa) PAGES (kfa st))) ?R" .
  then show ?thesis
    using inv by (auto simp: unix_inv_def pipes_inv_def waits_wf_def list_all_update N(2) q)
qed

lemma unix_drop_ref_inv:
  assumes inv: "unix_inv M st" and c: "c < MAX_CONNS" "c_used (conns st ! c)" "e < 2"
    and e: "unix_drop_ref c e st = (fs, st')"
  shows "unix_inv M st'"
proof -
  let ?k = "conns st ! c"
  define rs where "rs = (c_refs ?k)[e := c_refs ?k ! e - 1]"
  define st1 where "st1 = (let st = put_conn c (?k\<lparr>c_refs := rs\<rparr>) st in
    if rs ! e = 0 then push_wake (ukey_r c e) (push_wake (ukey_r c (1 - e)) st) else st)"
  note d = unix_invD [OF inv] and u = used_conn [OF inv c(1,2)]
  have eq: "unix_drop_ref c e st = (if rs ! 0 = 0 \<and> rs ! 1 = 0
      then (in_flight ?k, put_conn c cempty (st1\<lparr>kfa := fold (\<lambda>q. free_contig (q_buf q) PAGES) (c_q ?k) (kfa st1)\<rparr>))
      else ([], st1))"
    by (simp add: unix_drop_ref_def Let_def st1_def in_flight_def rs_def)
  have st1: "kfa st1 = kfa st" "pipes st1 = pipes st" "listeners st1 = listeners st"
    "conns st1 = (conns st)[c := ?k\<lparr>c_refs := rs\<rparr>]"
    by (simp_all add: st1_def Let_def)
  have w1: "waits_wf st1"
  proof -
    have "waits_wf (put_conn c k st)" for k using unix_waits [OF inv] by (simp add: waits_wf_def)
    then show ?thesis by (simp add: st1_def Let_def push_wake_wf)
  qed
  show ?thesis
  proof (cases "rs ! 0 = 0 \<and> rs ! 1 = 0")
    case True
    then have st': "st' = put_conn c cempty (st1\<lparr>kfa := fold (\<lambda>q. free_contig (q_buf q) PAGES) (c_q ?k) (kfa st1)\<rparr>)"
      using e eq by simp
    have "waits_wf st'" unfolding st' using w1 by (simp add: waits_wf_def)
    then show ?thesis
      by (rule unix_inv_cong [OF free_conn_inv [OF inv c(1,2)], rotated -1]) (simp_all add: st' st1)
  next
    case False
    then have st': "st' = st1" using e unfolding eq by (simp only: if_False prod.inject)
    have "conn_ok (?k\<lparr>c_refs := rs\<rparr>)"
      using False d(4) [OF c(1)] c(2) u(2) by (intro conn_ok_refs) (auto simp: rs_def)
    then have "unix_inv M (put_conn c (?k\<lparr>c_refs := rs\<rparr>) st)"
      by (intro put_conn_inv inv c(1)) (simp_all add: conn_spans_def)
    then show ?thesis
      by (rule unix_inv_cong) (simp_all add: st' st1 w1)
  qed
qed

section \<open>One queue\<close>

text \<open>The ring of message sizes.\<close>

lemma msg_sizes_push:
  assumes "q_mcount q < MSGQ" "q_mhead q < MSGQ" "length (q_msgs q) = MSGQ"
  shows "msg_sizes (q\<lparr>q_msgs := (q_msgs q)[(q_mhead q + q_mcount q) mod MSGQ := n],
      q_mcount := q_mcount q + 1\<rparr>) = msg_sizes q @ [n]"
proof (rule nth_equalityI)
  fix i assume "i < length (msg_sizes (q\<lparr>q_msgs := (q_msgs q)[(q_mhead q + q_mcount q) mod MSGQ := n],
      q_mcount := q_mcount q + 1\<rparr>))"
  then have i: "i < q_mcount q \<or> i = q_mcount q" by (auto simp: msg_sizes_def)
  have "(q_mhead q + i) mod MSGQ \<noteq> (q_mhead q + q_mcount q) mod MSGQ" if "i < q_mcount q"
    using ring_index_inj [of "q_mhead q" i MSGQ "q_mcount q"] that assms(1) by auto
  then show "msg_sizes (q\<lparr>q_msgs := (q_msgs q)[(q_mhead q + q_mcount q) mod MSGQ := n],
      q_mcount := q_mcount q + 1\<rparr>) ! i = (msg_sizes q @ [n]) ! i"
    using i assms(3) by (auto simp: msg_sizes_def nth_append)
qed (simp add: msg_sizes_def)

lemma msg_sizes_pop:
  assumes "0 < q_mcount q" "q_mhead q < MSGQ"
  shows "msg_sizes q = q_msgs q ! q_mhead q #
    msg_sizes (q\<lparr>q_mhead := (q_mhead q + 1) mod MSGQ, q_mcount := q_mcount q - 1\<rparr>)"
proof -
  obtain k where k: "q_mcount q = Suc k" using assms(1) by (cases "q_mcount q") auto
  have "[0..<Suc k] = 0 # map Suc [0..<k]" by (simp add: upt_conv_Cons map_Suc_upt del: upt_Suc)
  then show ?thesis
    using assms(2) by (simp add: msg_sizes_def k mod_simps del: upt_Suc)
qed

lemma msg_sizes_cong:
  "q_msgs q' = q_msgs q \<Longrightarrow> q_mhead q' = q_mhead q \<Longrightarrow> q_mcount q' = q_mcount q \<Longrightarrow> msg_sizes q' = msg_sizes q"
  by (simp add: msg_sizes_def)

lemma take_fds_ok:
  assumes "queue_ok packet q" "take_fds q = (fds, q1)"
  shows "queue_ok packet q1" "q_buf q1 = q_buf q" "q_head q1 = q_head q" "q_len q1 = q_len q"
    "q_rpos q1 = q_rpos q" "q_eof q1 = q_eof q" "msg_sizes q1 = msg_sizes q"
    "length fds \<le> MAX_SENT" "concat (map a_files (q_atts q)) = fds @ concat (map a_files (q_atts q1))"
  using assms
  by (cases "q_atts q"; auto simp: take_fds_def queue_ok_def msg_sizes_def split: if_splits)+

lemma take_amount_ok:
  assumes ok: "queue_ok packet q" and len: "q_len q \<noteq> 0"
    and e: "take_amount packet len q = ((n, consume, trunc), q1)"
  defines "q2 \<equiv> q1\<lparr>q_head := (q_head q1 + consume) mod CAP, q_len := q_len q1 - consume, q_rpos := q_rpos q1 + consume\<rparr>"
  shows "queue_ok packet q2" "q_buf q2 = q_buf q" "q_head q1 = q_head q" "q_buf q1 = q_buf q" "q_atts q2 = q_atts q"
    and "n \<le> consume" "n \<le> len" "consume \<le> q_len q" "q_len q2 = q_len q - consume" "q_rpos q2 = q_rpos q + consume"
    and "q_head q2 = (q_head q + consume) mod CAP" "q_eof q2 = q_eof q"
    and "\<not> packet \<Longrightarrow> n = consume \<and> \<not> trunc"
    and "packet \<Longrightarrow> msg_sizes q = consume # msg_sizes q2 \<and> n = min len consume \<and> trunc = (len < consume)"
proof -
  have "queue_ok packet q2 \<and> q_buf q2 = q_buf q \<and> q_head q1 = q_head q \<and> q_buf q1 = q_buf q \<and> q_atts q2 = q_atts q \<and>
    n \<le> consume \<and> n \<le> len \<and> consume \<le> q_len q \<and> q_len q2 = q_len q - consume \<and> q_rpos q2 = q_rpos q + consume \<and>
    q_head q2 = (q_head q + consume) mod CAP \<and> q_eof q2 = q_eof q \<and> (\<not> packet \<longrightarrow> n = consume \<and> \<not> trunc) \<and>
    (packet \<longrightarrow> msg_sizes q = consume # msg_sizes q2 \<and> n = min len consume \<and> trunc = (len < consume))"
  proof (cases packet)
    case True
    let ?m = "q_msgs q ! q_mhead q"
    let ?q1 = "q\<lparr>q_mhead := (q_mhead q + 1) mod MSGQ, q_mcount := q_mcount q - 1\<rparr>"
    have s: "sum_list (msg_sizes q) = q_len q" using ok True by (simp add: queue_ok_def)
    then have m: "0 < q_mcount q" using len by (cases "q_mcount q") (auto simp: msg_sizes_def)
    have pop: "msg_sizes q = ?m # msg_sizes ?q1"
      using msg_sizes_pop [OF m] ok by (simp add: queue_ok_def)
    have e': "n = min len ?m" "consume = ?m" "trunc = (len < ?m)" "q1 = ?q1"
      using e True by (auto simp: take_amount_def Let_def)
    have sz: "msg_sizes q2 = msg_sizes ?q1" unfolding q2_def e'(4) by (rule msg_sizes_cong) simp_all
    have "?m \<le> q_len q" "sum_list (msg_sizes q2) = q_len q - ?m" using s sz unfolding pop by auto
    then show ?thesis
      using ok True m pop sz e' len by (auto simp: queue_ok_def q2_def)
  next
    case False
    then have e': "n = consume" "\<not> trunc" "q1 = q" "n \<le> len" "n \<le> q_len q"
      using e by (auto simp: take_amount_def Let_def split: if_splits)
    moreover have "msg_sizes q2 = msg_sizes q" unfolding q2_def e'(3) by (rule msg_sizes_cong) simp_all
    ultimately show ?thesis using ok False by (auto simp: queue_ok_def q2_def)
  qed
  then show "queue_ok packet q2" "q_buf q2 = q_buf q" "q_head q1 = q_head q" "q_buf q1 = q_buf q" "q_atts q2 = q_atts q"
    and "n \<le> consume" "n \<le> len" "consume \<le> q_len q" "q_len q2 = q_len q - consume" "q_rpos q2 = q_rpos q + consume"
    and "q_head q2 = (q_head q + consume) mod CAP" "q_eof q2 = q_eof q"
    and "\<not> packet \<Longrightarrow> n = consume \<and> \<not> trunc"
    and "packet \<Longrightarrow> msg_sizes q = consume # msg_sizes q2 \<and> n = min len consume \<and> trunc = (len < consume)"
    by blast+
qed

text \<open>What a write makes of the queue it goes to.\<close>

definition written :: "bool \<Rightarrow> nat \<Rightarrow> open_file list \<Rightarrow> queue \<Rightarrow> queue" where
  "written packet n files q =
     (let q = (if files = [] then q else q\<lparr>q_atts := q_atts q @ [\<lparr>a_pos = q_wpos q, a_files = files\<rparr>]\<rparr>);
          q = q\<lparr>q_len := q_len q + n, q_wpos := q_wpos q + n\<rparr>
      in if packet then q\<lparr>q_msgs := (q_msgs q)[(q_mhead q + q_mcount q) mod MSGQ := n], q_mcount := q_mcount q + 1\<rparr>
         else q)"

lemma written_simps [simp]:
  "q_buf (written packet n files q) = q_buf q" "q_head (written packet n files q) = q_head q"
  "q_len (written packet n files q) = q_len q + n" "q_eof (written packet n files q) = q_eof q"
  "q_rpos (written packet n files q) = q_rpos q" "q_wpos (written packet n files q) = q_wpos q + n"
  "q_atts (written packet n files q) =
     q_atts q @ (if files = [] then [] else [\<lparr>a_pos = q_wpos q, a_files = files\<rparr>])"
  by (simp_all add: written_def Let_def)

lemma written_ok:
  assumes ok: "queue_ok packet q" and n: "q_len q + n \<le> CAP" and m: "packet \<longrightarrow> q_mcount q < MSGQ"
    and f: "files \<noteq> [] \<longrightarrow> length (q_atts q) < ATTQ \<and> length files \<le> MAX_SENT"
  shows "queue_ok packet (written packet n files q)"
    and "msg_sizes (written packet n files q) = msg_sizes q @ (if packet then [n] else [])"
proof -
  let ?q = "(if files = [] then q else q\<lparr>q_atts := q_atts q @ [\<lparr>a_pos = q_wpos q, a_files = files\<rparr>]\<rparr>)
      \<lparr>q_len := q_len q + n, q_wpos := q_wpos q + n\<rparr>"
  have q: "q_msgs ?q = q_msgs q" "q_mhead ?q = q_mhead q" "q_mcount ?q = q_mcount q" by simp_all
  have w: "written packet n files q = (if packet
      then ?q\<lparr>q_msgs := (q_msgs ?q)[(q_mhead ?q + q_mcount ?q) mod MSGQ := n], q_mcount := q_mcount ?q + 1\<rparr> else ?q)"
    by (simp add: written_def Let_def)
  have "msg_sizes (?q\<lparr>q_msgs := (q_msgs ?q)[(q_mhead ?q + q_mcount ?q) mod MSGQ := n],
      q_mcount := q_mcount ?q + 1\<rparr>) = msg_sizes q @ [n]" if packet
    using msg_sizes_push [of ?q n] ok m that q msg_sizes_cong [OF q] unfolding queue_ok_def by simp
  then show sz: "msg_sizes (written packet n files q) = msg_sizes q @ (if packet then [n] else [])"
    using msg_sizes_cong [OF q] unfolding w by (cases packet) simp_all
  have mc: "q_mcount (written packet n files q) = q_mcount q + (if packet then 1 else 0)"
    "q_mhead (written packet n files q) = q_mhead q" "length (q_msgs (written packet n files q)) = length (q_msgs q)"
    by (simp_all add: written_def Let_def)
  have at: "list_all (\<lambda>a. a_pos a \<le> q_wpos q + n \<and> a_files a \<noteq> [] \<and> length (a_files a) \<le> MAX_SENT) (q_atts (written packet n files q))"
    "sorted (map a_pos (q_atts (written packet n files q)))" "length (q_atts (written packet n files q)) \<le> ATTQ"
    using ok f by (auto simp: queue_ok_def list_all_iff sorted_append)
  show "queue_ok packet (written packet n files q)"
    using ok n m sz mc at unfolding queue_ok_def by (auto simp del: written_simps(7))
qed

section \<open>Reads and writes of a connection\<close>

definition the_queue :: "nat \<Rightarrow> nat \<Rightarrow> 'a unix_st_scheme \<Rightarrow> queue" where
  "the_queue c e st = c_q (conns st ! c) ! e"

definition queue_bytes :: "nat \<Rightarrow> nat \<Rightarrow> 'a unix_st_scheme \<Rightarrow> u8 list" where
  "queue_bytes c e st = (let q = the_queue c e st in ring_bytes CAP (kmem st) (q_buf q) (q_head q) (q_len q))"

lemma unix_read_cases:
  assumes "unix_read cpu c e len nb st = (r, st')" "k = conns st ! c" "q = the_queue c e st"
  obtains (stay) "q_len q = 0" "r = Inr ([], False, []) \<and> (c_refs k ! (1 - e) = 0 \<or> q_eof q) \<or> (\<exists>x. r = Inl x)"
      "st' = st \<or> st' = snd (would_block cpu (ukey_r c e) st)"
    | (take) fds q1 n consume trunc q2 where "q_len q \<noteq> 0" "take_fds q = (fds, q1)"
      "take_amount (c_packet k) len q1 = ((n, consume, trunc), q2)"
      "r = Inr (ring_bytes CAP (kmem st) (q_buf q2) (q_head q2) n, trunc, fds)"
      "st' = push_wake (ukey_r c (1 - e)) (put_queue c e
         (q2\<lparr>q_head := (q_head q2 + consume) mod CAP, q_len := q_len q2 - consume, q_rpos := q_rpos q2 + consume\<rparr>) st)"
  using assms
  by (auto simp: unix_read_def the_queue_def Let_def ring_read_bytes split: if_splits prod.splits)

lemma unix_write_eq:
  "unix_write cpu c e src nb files st =
    (let k = conns st ! c; q = the_queue c (1 - e) st;
         n = (if c_packet k then length src else min (length src) (CAP - q_len q)) in
     if c_refs k ! (1 - e) = 0 then (Inl EPIPE, st)
     else if c_packet k \<and> length src > CAP then (Inl EMSGSIZE, st)
     else if (if c_packet k then CAP - q_len q < length src \<or> q_mcount q = MSGQ else CAP - q_len q = 0) then
       if nb then (Inl EAGAIN, st) else (case would_block cpu (ukey_r c (1 - e)) st of (err, st) \<Rightarrow> (Inl err, st))
     else if files \<noteq> [] \<and> (length (q_atts q) = ATTQ \<or> length files > MAX_SENT) then (Inl ENOBUFS, st)
     else (Inr n, push_wake (ukey_r c (1 - e)) (put_queue c (1 - e) (written (c_packet k) n files q)
            (st\<lparr>kmem := ring_write CAP (q_buf q) (q_head q + q_len q) (take n src) 0 (kmem st)\<rparr>))))"
  by (cases "files = []"; cases "c_packet (conns st ! c)")
     (simp_all add: unix_write_def written_def the_queue_def Let_def)

lemma unix_write_cases:
  assumes w: "unix_write cpu c e src nb files st = (r, st')" and k: "k = conns st ! c" and q: "q = the_queue c (1 - e) st"
  obtains (stay) x where "r = Inl x" "st' = st \<or> st' = snd (would_block cpu (ukey_r c (1 - e)) st)"
    | (put) n where "c_refs k ! (1 - e) \<noteq> 0" "n = (if c_packet k then length src else min (length src) (CAP - q_len q))"
      "n \<le> CAP - q_len q" "c_packet k \<longrightarrow> q_mcount q \<noteq> MSGQ" "\<not> c_packet k \<longrightarrow> q_len q < CAP"
      "files \<noteq> [] \<longrightarrow> length (q_atts q) \<noteq> ATTQ \<and> length files \<le> MAX_SENT" "r = Inr n"
      "st' = push_wake (ukey_r c (1 - e)) (put_queue c (1 - e) (written (c_packet k) n files q)
         (st\<lparr>kmem := ring_write CAP (q_buf q) (q_head q + q_len q) (take n src) 0 (kmem st)\<rparr>))"
proof -
  define n where "n = (if c_packet k then length src else min (length src) (CAP - q_len q))"
  note eq = w [unfolded unix_write_eq Let_def, folded k q, folded n_def]
  show thesis
  proof (cases r)
    case (Inl x)
    then have "st' = st \<or> st' = snd (would_block cpu (ukey_r c (1 - e)) st)"
      using eq by (simp split: if_splits prod.splits)
    then show thesis using stay Inl by blast
  next
    case (Inr m)
    note eq' = eq [unfolded Inr]
    have g: "c_refs k ! (1 - e) \<noteq> 0" "\<not> (c_packet k \<and> length src > CAP)"
      "\<not> (if c_packet k then CAP - q_len q < length src \<or> q_mcount q = MSGQ else CAP - q_len q = 0)"
      "\<not> (files \<noteq> [] \<and> (length (q_atts q) = ATTQ \<or> length files > MAX_SENT))"
      using eq' by (simp_all split: if_splits prod.splits)
    have r: "n = m \<and> push_wake (ukey_r c (1 - e)) (put_queue c (1 - e) (written (c_packet k) n files q)
         (st\<lparr>kmem := ring_write CAP (q_buf q) (q_head q + q_len q) (take n src) 0 (kmem st)\<rparr>)) = st'"
      using eq' unfolding if_not_P [OF g(1)] if_not_P [OF g(2)] if_not_P [OF g(3)] if_not_P [OF g(4)]
          prod.inject sum.inject .
    show thesis
    proof (rule put [of n])
      show "n \<le> CAP - q_len q" using g(3) unfolding n_def by (auto split: if_splits)
      show "r = Inr n" using Inr r by simp
    qed (use g r [THEN conjunct2, symmetric] in \<open>auto simp: n_def split: if_splits\<close>)
  qed
qed

lemma unix_read_inv:
  assumes inv: "unix_inv M st" and c: "c < MAX_CONNS" "c_used (conns st ! c)" "e < 2"
    and r: "unix_read cpu c e len nb st = (r, st')"
  shows "unix_inv M st'"
  using r refl refl
proof (cases rule: unix_read_cases)
  case stay
  then show ?thesis using inv unix_would_block_inv by blast
next
  case (take fds q1 n consume trunc q2)
  have ok: "queue_ok (c_packet (conns st ! c)) (the_queue c e st)"
    using used_conn(3) [OF inv c] by (simp add: the_queue_def)
  note f = take_fds_ok [OF ok take(2)]
  have "q_len q1 \<noteq> 0" using f(4) take(1) by simp
  note a = take_amount_ok [OF f(1) this take(3)]
  show ?thesis unfolding take(5)
    using a(1,2) f(2) by (intro unix_push_wake_inv put_queue_inv inv c) (auto simp: the_queue_def)
qed

lemma unix_write_inv:
  assumes inv: "unix_inv M st" and c: "c < MAX_CONNS" "c_used (conns st ! c)" "e < 2"
    and r: "unix_write cpu c e src nb files st = (r, st')"
  shows "unix_inv M st'"
  using r refl refl
proof (cases rule: unix_write_cases)
  case (stay x)
  then show ?thesis using inv unix_would_block_inv by blast
next
  case (put n)
  have e: "1 - e < 2" by simp
  have ok: "queue_ok (c_packet (conns st ! c)) (the_queue c (1 - e) st)"
    using used_conn(3) [OF inv c(1,2) e] by (simp add: the_queue_def)
  have "queue_ok (c_packet (conns st ! c)) (written (c_packet (conns st ! c)) n files (the_queue c (1 - e) st))"
  proof (rule written_ok(1) [OF ok])
    have b: "q_len (the_queue c (1 - e) st) \<le> CAP" "q_mcount (the_queue c (1 - e) st) \<le> MSGQ"
      "length (q_atts (the_queue c (1 - e) st)) \<le> ATTQ"
      using ok by (simp_all add: queue_ok_def)
    show "q_len (the_queue c (1 - e) st) + n \<le> CAP" using put(3) b(1) by linarith
    show "c_packet (conns st ! c) \<longrightarrow> q_mcount (the_queue c (1 - e) st) < MSGQ"
      using put(4) b(2) by auto
    show "files \<noteq> [] \<longrightarrow> length (q_atts (the_queue c (1 - e) st)) < ATTQ \<and> length files \<le> MAX_SENT"
      using put(6) b(3) by auto
  qed
  then show ?thesis unfolding put(8)
    using c e by (intro unix_push_wake_inv put_queue_inv unix_kmem_inv inv) (auto simp: the_queue_def)
qed

lemma unix_shutdown_inv:
  assumes inv: "unix_inv M st" and c: "c < MAX_CONNS" "c_used (conns st ! c)" "e < 2"
  shows "unix_inv M (unix_shutdown c e how st)"
proof -
  have one: "unix_inv M (push_wake key (put_queue c i ((c_q (conns s ! c) ! i)\<lparr>q_eof := True\<rparr>) s))"
    if "unix_inv M s" "c_used (conns s ! c)" "i < 2" for s :: "'a unix_st_scheme" and i key
  proof -
    have ok: "queue_ok (c_packet (conns s ! c)) (c_q (conns s ! c) ! i)"
      using used_conn(3) [OF that(1) c(1) that(2,3)] .
    have "msg_sizes ((c_q (conns s ! c) ! i)\<lparr>q_eof := True\<rparr>) = msg_sizes (c_q (conns s ! c) ! i)"
      by (rule msg_sizes_cong) simp_all
    then have "queue_ok (c_packet (conns s ! c)) ((c_q (conns s ! c) ! i)\<lparr>q_eof := True\<rparr>)"
      using ok by (auto simp: queue_ok_def)
    then show ?thesis using that c(1) by (intro unix_push_wake_inv put_queue_inv) simp_all
  qed
  define st1 where "st1 = (if how \<noteq> 0 then push_wake (ukey_r c (1 - e))
      (put_queue c (1 - e) ((c_q (conns st ! c) ! (1 - e))\<lparr>q_eof := True\<rparr>) st) else st)"
  have "unix_inv M st1" unfolding st1_def using one [OF inv c(2), of "1 - e"] inv by (cases "how = 0") simp_all
  moreover have "c_used (conns st1 ! c)"
    using c unix_invD(2) [OF inv] by (simp add: st1_def put_queue_conn)
  ultimately have "unix_inv M (push_wake (ukey_r c e) (put_queue c e ((c_q (conns st1 ! c) ! e)\<lparr>q_eof := True\<rparr>) st1))"
    using one c(3) by blast
  moreover have "unix_shutdown c e how st = (if how \<noteq> 1
      then push_wake (ukey_r c e) (put_queue c e ((c_q (conns st1 ! c) ! e)\<lparr>q_eof := True\<rparr>) st1) else st1)"
    unfolding unix_shutdown_def Let_def st1_def ..
  ultimately show ?thesis using \<open>unix_inv M st1\<close> by (cases "how = 1") simp_all
qed

section \<open>Rings apart\<close>

lemma the_queue_put:
  assumes "unix_inv M st" "c < MAX_CONNS" "c_used (conns st ! c)" "e < 2"
  shows "the_queue c' e' (put_queue c e q st) = (if c' = c \<and> e' = e then q else the_queue c' e' st)"
  using assms unix_invD(2) [OF assms(1)] used_conn(1) [OF assms(1-3)]
  by (cases "c' = c") (auto simp: the_queue_def put_queue_conn nth_list_update)

lemma the_queue_waits [simp]:
  "the_queue c e (push_wake key st) = the_queue c e st"
  "the_queue c e (snd (would_block cpu key st)) = the_queue c e st"
  "the_queue c e (st\<lparr>kmem := m\<rparr>) = the_queue c e st"
  by (simp_all add: the_queue_def)

lemma queue_bytes_waits [simp]:
  "queue_bytes c e (push_wake key st) = queue_bytes c e st"
  "queue_bytes c e (snd (would_block cpu key st)) = queue_bytes c e st"
  by (simp_all add: queue_bytes_def)

lemma two_queues:
  assumes inv: "unix_inv M st" and c: "c < MAX_CONNS" "c_used (conns st ! c)" "e < 2"
    and d: "d < MAX_CONNS" "c_used (conns st ! d)" "f < 2" and ne: "(c, e) \<noteq> (d, f)"
  obtains N where "table_spans conn_spans (conns st) =
    add_mset (q_buf (the_queue c e st), PAGES) (add_mset (q_buf (the_queue d f st), PAGES) N)"
proof -
  note D = unix_invD [OF inv]
  have two: "\<exists>q0 q1. c_q (conns st ! i) = [q0, q1]" if "i < MAX_CONNS" "c_used (conns st ! i)" for i
    using used_conn(1) [OF inv that] by (metis (no_types) length_0_conv length_Suc_conv numeral_2_eq_2)
  obtain a b where ab: "c_q (conns st ! c) = [a, b]" using two [OF c(1,2)] by blast
  show thesis
  proof (cases "c = d")
    case True
    have cl: "c < length (conns st)" using c D(2) by simp
    obtain N where N: "table_spans conn_spans (conns st) = conn_spans (conns st ! c) + N"
      using table_spans_nth [OF cl, of conn_spans] by blast
    have ef: "(e = 0 \<and> f = 1) \<or> (e = 1 \<and> f = 0)" using ne True c(3) d(3) by auto
    have cs: "conn_spans (conns st ! c) = {#(q_buf a, PAGES), (q_buf b, PAGES)#}"
      using c(2) ab by (simp add: conn_spans_def)
    have "table_spans conn_spans (conns st) =
        add_mset (q_buf (the_queue c e st), PAGES) (add_mset (q_buf (the_queue d f st), PAGES) N)"
      using ef ab unfolding N cs True [symmetric] by (auto simp: the_queue_def add_mset_commute)
    then show thesis by (rule that)
  next
    case False
    obtain a' b' where ab': "c_q (conns st ! d) = [a', b']" using two [OF d(1,2)] by blast
    obtain N where N: "table_spans conn_spans (conns st) = conn_spans (conns st ! c) + (conn_spans (conns st ! d) + N)"
      using table_spans_two [of c "conns st" d conn_spans] c d D(2) False by metis
    have cs: "conn_spans (conns st ! c) = {#(q_buf a, PAGES), (q_buf b, PAGES)#}"
      "conn_spans (conns st ! d) = {#(q_buf a', PAGES), (q_buf b', PAGES)#}"
      using c(2) d(2) ab ab' by (simp_all add: conn_spans_def)
    have "\<exists>N'. table_spans conn_spans (conns st) =
        add_mset (q_buf (the_queue c e st), PAGES) (add_mset (q_buf (the_queue d f st), PAGES) N')"
    proof
      show "table_spans conn_spans (conns st) =
        add_mset (q_buf (the_queue c e st), PAGES) (add_mset (q_buf (the_queue d f st), PAGES)
          (add_mset (q_buf (the_queue c (1 - e) st), PAGES) (add_mset (q_buf (the_queue d (1 - f) st), PAGES) N)))"
        using c(3) d(3) ab ab' by (auto simp: N cs the_queue_def less_2_cases_iff add_mset_commute)
    qed
    then show thesis using that by blast
  qed
qed

lemma queues_apart:
  assumes inv: "unix_inv M st" and c: "c < MAX_CONNS" "c_used (conns st ! c)" "e < 2"
    and d: "d < MAX_CONNS" "c_used (conns st ! d)" "f < 2" and ne: "(c, e) \<noteq> (d, f)"
    and x: "q_buf (the_queue d f st) \<le> x" "x < q_buf (the_queue d f st) + CAP"
  shows "x < q_buf (the_queue c e st) \<or> q_buf (the_queue c e st) + CAP \<le> x"
proof -
  obtain N where N: "table_spans conn_spans (conns st) =
    add_mset (q_buf (the_queue c e st), PAGES) (add_mset (q_buf (the_queue d f st), PAGES) N)"
    using two_queues [OF inv c d ne] .
  have "spans_ok (kfa st) (add_mset (q_buf (the_queue c e st), PAGES) (add_mset (q_buf (the_queue d f st), PAGES)
      (table_spans pipe_spans (pipes st) + (N + M))))"
    using pipes_invD(5) [OF unix_invD(1) [OF inv]] by (simp add: N)
  from spans_bytes_apart [OF this] x show ?thesis by (simp add: CAP_pos(2))
qed

lemma kmem_put_queue [simp]: "kmem (put_queue c e q st) = kmem st"
  by (simp add: put_queue_conn)

lemma unused_queue:
  assumes "unix_inv M st" "d < MAX_CONNS" "\<not> c_used (conns st ! d)" "f < 2"
  shows "the_queue d f st = qempty"
  using unix_invD(4) [OF assms(1,2)] assms(3,4)
  by (auto simp: conn_ok_def the_queue_def cempty_def less_2_cases_iff)

lemma qempty_bytes [simp]: "the_queue d f st = qempty \<Longrightarrow> queue_bytes d f st = []"
  by (simp add: queue_bytes_def qempty_def ring_bytes_def)

lemma queue_ok_here:
  assumes inv: "unix_inv M st" and c: "c < MAX_CONNS" "c_used (conns st ! c)" "e < 2"
  shows "queue_ok (c_packet (conns st ! c)) (the_queue c e st)"
  using used_conn(3) [OF inv c] by (simp add: the_queue_def)

lemma read_keeps_others:
  assumes inv: "unix_inv M st" and c: "c < MAX_CONNS" "c_used (conns st ! c)" "e < 2"
    and r: "unix_read cpu c e len nb st = (r, st')" and ne: "(d, f) \<noteq> (c, e)"
  shows "the_queue d f st' = the_queue d f st \<and> queue_bytes d f st' = queue_bytes d f st"
  using r refl refl
proof (cases rule: unix_read_cases)
  case (take fds q1 n consume trunc q2)
  have "the_queue d f st' = the_queue d f st" "kmem st' = kmem st"
    unfolding take(5) using ne by (auto simp: the_queue_put [OF inv c])
  then show ?thesis by (simp add: queue_bytes_def)
qed auto

lemma read_bytes:
  assumes inv: "unix_inv M st" and c: "c < MAX_CONNS" "c_used (conns st ! c)" "e < 2"
    and r: "unix_read cpu c e len nb st = (Inr (bs, trunc, fds), st')"
  obtains consume where "length bs \<le> consume" "length bs \<le> len" "consume \<le> q_len (the_queue c e st)"
    "bs = take (length bs) (queue_bytes c e st)" "queue_bytes c e st' = drop consume (queue_bytes c e st)"
    "\<not> c_packet (conns st ! c) \<Longrightarrow> length bs = consume \<and> \<not> trunc"
    "c_packet (conns st ! c) \<Longrightarrow> q_len (the_queue c e st) \<noteq> 0 \<Longrightarrow>
      msg_sizes (the_queue c e st) = consume # msg_sizes (the_queue c e st') \<and> length bs = min len consume \<and>
      trunc = (len < consume)"
    "q_rpos (the_queue c e st') = q_rpos (the_queue c e st) + consume"
    "q_len (the_queue c e st) = 0 \<Longrightarrow> st' = st \<and> bs = [] \<and> fds = []"
    "q_len (the_queue c e st) \<noteq> 0 \<Longrightarrow> fds = fst (take_fds (the_queue c e st)) \<and>
      q_atts (the_queue c e st') = q_atts (snd (take_fds (the_queue c e st)))"
  using r refl refl
proof (cases rule: unix_read_cases)
  case stay
  have "st' = st" using r stay(1) by (auto simp: unix_read_def the_queue_def Let_def split: if_splits prod.splits)
  then show thesis using that [of 0] stay by (auto simp: the_queue_def)
next
  case (take fds' q1 n consume trunc' q2)
  note f = take_fds_ok [OF queue_ok_here [OF inv c] take(2)]
  have l: "q_len q1 \<noteq> 0" using f(4) take(1) by simp
  note a = take_amount_ok [OF f(1) l take(3)]
  define q3 where "q3 = q2\<lparr>q_head := (q_head q2 + consume) mod CAP, q_len := q_len q2 - consume, q_rpos := q_rpos q2 + consume\<rparr>"
  have st': "the_queue c e st' = q3" "kmem st' = kmem st"
    unfolding take(5) using c by (auto simp: the_queue_put [OF inv c] q3_def)
  let ?q = "the_queue c e st"
  have bs: "bs = ring_bytes CAP (kmem st) (q_buf ?q) (q_head ?q) n" "fds = fds'" "trunc = trunc'"
    using take(4) a(3,4) f(2,3) by auto
  have b: "queue_bytes c e st = ring_bytes CAP (kmem st) (q_buf ?q) (q_head ?q) (q_len ?q)"
    by (simp add: queue_bytes_def Let_def)
  have n: "n \<le> consume" "consume \<le> q_len ?q" "n \<le> len" using a(6-8) f(4) by auto
  have "take n (queue_bytes c e st) = bs"
    using n unfolding b bs(1) by (simp add: ring_bytes_split [of n "q_len ?q"])
  moreover have "queue_bytes c e st' = drop consume (queue_bytes c e st)"
  proof -
    have "queue_bytes c e st' = ring_bytes CAP (kmem st) (q_buf ?q) ((q_head ?q + consume) mod CAP) (q_len ?q - consume)"
      using a(2,9,11) f(2-4) st' by (simp add: queue_bytes_def Let_def q3_def)
    then show ?thesis unfolding b using n by (simp add: ring_bytes_split [of consume "q_len ?q"])
  qed
  ultimately show thesis
    using that [of consume] n a(5,10,13,14) f(4,5,7) take(1,2) st'(1) bs
    by (auto simp flip: q3_def)
qed

lemma read_error:
  assumes "unix_read cpu c e len nb st = (Inl x, st')"
  shows "the_queue d f st' = the_queue d f st \<and> queue_bytes d f st' = queue_bytes d f st"
  using assms refl refl by (cases rule: unix_read_cases) auto

lemma write_bytes:
  assumes inv: "unix_inv M st" and c: "c < MAX_CONNS" "c_used (conns st ! c)" "e < 2"
    and w: "unix_write cpu c e src nb files st = (Inr n, st')"
  shows "n \<le> length src \<and> (c_packet (conns st ! c) \<longrightarrow> n = length src) \<and>
    the_queue c (1 - e) st' = written (c_packet (conns st ! c)) n files (the_queue c (1 - e) st) \<and>
    queue_bytes c (1 - e) st' = queue_bytes c (1 - e) st @ take n src \<and>
    msg_sizes (the_queue c (1 - e) st') = msg_sizes (the_queue c (1 - e) st) @
      (if c_packet (conns st ! c) then [n] else [])"
  using w refl refl
proof (cases rule: unix_write_cases)
  case (put m)
  have e: "1 - e < 2" by simp
  let ?q = "the_queue c (1 - e) st"
  have ok: "queue_ok (c_packet (conns st ! c)) ?q"
    using queue_ok_here [OF inv c(1,2) e] .
  then have b: "q_len ?q \<le> CAP" "q_mcount ?q \<le> MSGQ" "length (q_atts ?q) \<le> ATTQ"
    by (simp_all add: queue_ok_def)
  have m: "m = n" "n \<le> length src" "q_len ?q + n \<le> CAP" "length (take n src) = n"
  proof -
    show m: "m = n" using put(7) by simp
    show l: "n \<le> length src" using put(2) m by (auto split: if_splits)
    show "q_len ?q + n \<le> CAP" using put(3) b(1) m by linarith
    show "length (take n src) = n" using l by simp
  qed
  have st': "the_queue c (1 - e) st' = written (c_packet (conns st ! c)) n files ?q"
    "kmem st' = ring_write CAP (q_buf ?q) (q_head ?q + q_len ?q) (take n src) 0 (kmem st)"
    unfolding put(8) m(1) using unix_kmem_inv [OF inv] c e
    by (simp_all add: the_queue_put [where M = M])
  have "queue_bytes c (1 - e) st' = queue_bytes c (1 - e) st @ take n src"
    using ring_write_bytes [OF CAP_pos(1), of "q_len ?q" "take n src" "q_buf ?q" "q_head ?q" "kmem st"] m(3,4)
    unfolding queue_bytes_def Let_def st' by simp
  moreover have "msg_sizes (the_queue c (1 - e) st') = msg_sizes ?q @ (if c_packet (conns st ! c) then [n] else [])"
    unfolding st'(1) using put(4,6) b by (intro written_ok(2) ok m(3)) auto
  ultimately show ?thesis using st'(1) m(2) put(2) unfolding m(1) by auto
qed simp

lemma write_keeps_others:
  assumes inv: "unix_inv M st" and c: "c < MAX_CONNS" "c_used (conns st ! c)" "e < 2"
    and w: "unix_write cpu c e src nb files st = (r, st')" and d: "d < MAX_CONNS" "f < 2" and ne: "(d, f) \<noteq> (c, 1 - e)"
  shows "the_queue d f st' = the_queue d f st \<and> queue_bytes d f st' = queue_bytes d f st"
  using w refl refl
proof (cases rule: unix_write_cases)
  case (put n)
  have e: "1 - e < 2" by simp
  let ?q = "the_queue c (1 - e) st"
  have same: "the_queue d f st' = the_queue d f st"
    "kmem st' = ring_write CAP (q_buf ?q) (q_head ?q + q_len ?q) (take n src) 0 (kmem st)"
    unfolding put(8) using unix_kmem_inv [OF inv] c e ne
    by (auto simp: the_queue_put [where M = M])
  have "queue_bytes d f st' = queue_bytes d f st"
  proof (cases "c_used (conns st ! d)")
    case True
    show ?thesis
      using queues_apart [OF inv c(1,2) e d(1) True d(2)] ne
      by (auto simp: queue_bytes_def same Let_def intro!: ring_bytes_cong ring_write_outside)
  next
    case False
    then show ?thesis using unused_queue [OF inv d(1) False d(2)] same(1) by simp
  qed
  then show ?thesis using same(1) by simp
qed auto

lemma write_error:
  assumes "unix_write cpu c e src nb files st = (Inl x, st')"
  shows "the_queue d f st' = the_queue d f st \<and> queue_bytes d f st' = queue_bytes d f st"
  using assms refl refl by (cases rule: unix_write_cases) auto

section \<open>Channels\<close>

text \<open>Reading and writing leave the connections as they are but for their queues.\<close>

definition same_conns :: "'a unix_st_scheme \<Rightarrow> 'a unix_st_scheme \<Rightarrow> bool" where
  "same_conns st st' \<longleftrightarrow> (\<forall>d. c_used (conns st' ! d) = c_used (conns st ! d) \<and>
     c_packet (conns st' ! d) = c_packet (conns st ! d) \<and> c_refs (conns st' ! d) = c_refs (conns st ! d))"

lemma same_conns_refl [simp]: "same_conns st st"
  by (simp add: same_conns_def)

lemma same_conns_waits [simp]:
  "same_conns st (push_wake key st') = same_conns st st'"
  "same_conns st (snd (would_block cpu key st')) = same_conns st st'"
  by (simp_all add: same_conns_def)

lemma same_conns_trans: "same_conns a b \<Longrightarrow> same_conns b d \<Longrightarrow> same_conns a d"
  by (simp add: same_conns_def)

lemma same_conns_queue: "same_conns st (put_queue c e q st)" "same_conns st (put_queue c e q (st\<lparr>kmem := m\<rparr>))"
proof -
  have "(conns st)[c := (conns st ! c)\<lparr>c_q := x\<rparr>] ! d = (if d = c \<and> c < length (conns st)
      then (conns st ! c)\<lparr>c_q := x\<rparr> else conns st ! d)" for d x
    by (cases "c < length (conns st)"; cases "d = c") (simp_all add: not_less list_update_beyond)
  then show "same_conns st (put_queue c e q st)" "same_conns st (put_queue c e q (st\<lparr>kmem := m\<rparr>))"
    by (simp_all add: same_conns_def put_queue_conn)
qed

lemma read_same_conns: "unix_read cpu c e len nb st = (r, st') \<Longrightarrow> same_conns st st'"
  by (erule unix_read_cases [OF _ refl refl]) (auto simp: same_conns_queue)

lemma write_same_conns: "unix_write cpu c e src nb files st = (r, st') \<Longrightarrow> same_conns st st'"
  by (erule unix_write_cases [OF _ refl refl]) (auto simp: same_conns_queue)

text \<open>
  What else may happen while the queue towards end \<open>e\<close> of connection \<open>c\<close> is watched: every call of the module, on
  any connection and listener, but reading and writing that queue and dropping the last reference to \<open>c\<close>.
\<close>

datatype unix_call = New_conn bool | Read_end nat nat nat bool | Write_end nat nat "u8 list" bool "open_file list"
  | Shutdown nat nat nat | Add_end nat nat | Drop_end nat nat | Listen_on skey bool | Listener_count nat int
  | Connect_to skey bool | Accept nat bool

definition live_end :: "nat \<Rightarrow> nat \<Rightarrow> 'a unix_st_scheme \<Rightarrow> bool" where
  "live_end d f st \<longleftrightarrow> d < MAX_CONNS \<and> f < 2 \<and> c_used (conns st ! d)"

fun unix_call_ok :: "nat \<Rightarrow> nat \<Rightarrow> unix_call \<Rightarrow> 'a unix_st_scheme \<Rightarrow> bool" where
  "unix_call_ok c e (New_conn p) st = True"
| "unix_call_ok c e (Read_end d f len nb) st \<longleftrightarrow> live_end d f st \<and> (d, f) \<noteq> (c, e)"
| "unix_call_ok c e (Write_end d f src nb files) st \<longleftrightarrow> live_end d f st \<and> (d, 1 - f) \<noteq> (c, e)"
| "unix_call_ok c e (Shutdown d f how) st \<longleftrightarrow> live_end d f st"
| "unix_call_ok c e (Add_end d f) st \<longleftrightarrow> live_end d f st"
| "unix_call_ok c e (Drop_end d f) st \<longleftrightarrow> live_end d f st \<and>
     (d = c \<longrightarrow> (let r = c_refs (conns st ! c) in 0 < r ! (1 - f) \<or> 1 < r ! f))"
| "unix_call_ok c e (Listen_on key p) st = True"
| "unix_call_ok c e (Listener_count i delta) st \<longleftrightarrow> i < MAX_LISTEN \<and> l_used (listeners st ! i)"
| "unix_call_ok c e (Connect_to key p) st = True"
| "unix_call_ok c e (Accept i nb) st \<longleftrightarrow> i < MAX_LISTEN \<and> l_used (listeners st ! i)"

fun unix_do :: "nat \<Rightarrow> unix_call \<Rightarrow> 'a unix_st_scheme \<Rightarrow> 'a unix_st_scheme" where
  "unix_do cpu (New_conn p) st = snd (conn_new p st)"
| "unix_do cpu (Read_end d f len nb) st = snd (unix_read cpu d f len nb st)"
| "unix_do cpu (Write_end d f src nb files) st = snd (unix_write cpu d f src nb files st)"
| "unix_do cpu (Shutdown d f how) st = unix_shutdown d f how st"
| "unix_do cpu (Add_end d f) st = unix_add_ref d f st"
| "unix_do cpu (Drop_end d f) st = snd (unix_drop_ref d f st)"
| "unix_do cpu (Listen_on key p) st = snd (unix_listen key p st)"
| "unix_do cpu (Listener_count i delta) st = snd (listener_ref i delta st)"
| "unix_do cpu (Connect_to key p) st = snd (unix_connect key p st)"
| "unix_do cpu (Accept i nb) st = snd (unix_accept cpu i nb st)"

definition unix_other :: "nat \<Rightarrow> nat \<Rightarrow> nat \<Rightarrow> unix_call \<Rightarrow> 'a unix_st_scheme \<Rightarrow> 'a unix_st_scheme" where
  "unix_other cpu c e x st = (if unix_call_ok c e x st then unix_do cpu x st else st)"

text \<open>A watched queue keeps its bytes and its message sizes.\<close>

definition keeps :: "nat \<Rightarrow> nat \<Rightarrow> 'a unix_st_scheme \<Rightarrow> 'a unix_st_scheme \<Rightarrow> bool" where
  "keeps c e st st' \<longleftrightarrow> queue_bytes c e st' = queue_bytes c e st \<and>
     msg_sizes (the_queue c e st') = msg_sizes (the_queue c e st) \<and>
     c_used (conns st' ! c) = c_used (conns st ! c) \<and> c_packet (conns st' ! c) = c_packet (conns st ! c)"

lemma keeps_queue:
  "the_queue c e st' = the_queue c e st \<and> queue_bytes c e st' = queue_bytes c e st \<Longrightarrow> same_conns st st' \<Longrightarrow>
    keeps c e st st'"
  by (simp add: keeps_def same_conns_def)

lemma keeps_trans: "keeps c e a b \<Longrightarrow> keeps c e b d \<Longrightarrow> keeps c e a d"
  by (simp add: keeps_def)

lemma keeps_refl [simp]: "keeps c e st st"
  by (simp add: keeps_def)

lemma keeps_waits [simp]: "keeps c e st (push_wake key st') = keeps c e st st'"
  by (simp add: keeps_def)

lemma set_eof_keeps:
  assumes "unix_inv M st" "live_end d f st"
  shows "keeps c e st (put_queue d f ((c_q (conns st ! d) ! f)\<lparr>q_eof := True\<rparr>) st)"
proof -
  have l: "d < MAX_CONNS" "c_used (conns st ! d)" "f < 2" using assms(2) by (auto simp: live_end_def)
  let ?q = "(c_q (conns st ! d) ! f)\<lparr>q_eof := True\<rparr>"
  have "msg_sizes ?q = msg_sizes (c_q (conns st ! d) ! f)" by (rule msg_sizes_cong) simp_all
  then have "queue_bytes c e (put_queue d f ?q st) = queue_bytes c e st"
    "msg_sizes (the_queue c e (put_queue d f ?q st)) = msg_sizes (the_queue c e st)"
    by (auto simp: queue_bytes_def the_queue_put [OF assms(1) l] Let_def) (auto simp: the_queue_def)
  then show ?thesis using same_conns_queue(1) [of st d f ?q] by (simp add: keeps_def same_conns_def)
qed

lemma shutdown_keeps:
  assumes inv: "unix_inv M st" and l: "live_end d f st"
  shows "keeps c e st (unix_shutdown d f how st)"
proof -
  define st1 where "st1 = (if how \<noteq> 0 then push_wake (ukey_r d (1 - f))
      (put_queue d (1 - f) ((c_q (conns st ! d) ! (1 - f))\<lparr>q_eof := True\<rparr>) st) else st)"
  have l1: "live_end d (1 - f) st" using l by (simp add: live_end_def)
  have k1: "keeps c e st st1" unfolding st1_def using set_eof_keeps [OF inv l1] by simp
  have i1: "unix_inv M st1"
    using unix_shutdown_inv [OF inv, of d f 1] l
    by (cases "how = 0") (simp_all add: st1_def unix_shutdown_def live_end_def inv)
  have "live_end d f st1" using l same_conns_queue(1) [of st d]
    by (auto simp: st1_def live_end_def same_conns_def)
  from set_eof_keeps [OF i1 this]
  have "keeps c e st (push_wake (ukey_r d f) (put_queue d f ((c_q (conns st1 ! d) ! f)\<lparr>q_eof := True\<rparr>) st1))"
    using keeps_trans [OF k1] by simp
  moreover have "unix_shutdown d f how st = (if how \<noteq> 1
      then push_wake (ukey_r d f) (put_queue d f ((c_q (conns st1 ! d) ! f)\<lparr>q_eof := True\<rparr>) st1) else st1)"
    unfolding unix_shutdown_def Let_def st1_def ..
  ultimately show ?thesis using k1 by (cases "how = 1") simp_all
qed

lemma conn_new_keeps:
  assumes inv: "unix_inv M st" and c: "c_used (conns st ! c)"
  shows "keeps c e st (snd (conn_new p st))"
proof -
  note n = conn_new_inv [OF inv prod.collapse [symmetric], of p]
  have "conns (snd (conn_new p st)) ! c = conns st ! c"
  proof (cases "fst (conn_new p st)")
    case (Inl x)
    then show ?thesis using n(5) by simp
  next
    case (Inr d)
    then have "d \<noteq> c" using n(6) c by blast
    then show ?thesis using n(6) [OF Inr] by auto
  qed
  then show ?thesis using n(4) by (simp add: keeps_def queue_bytes_def the_queue_def)
qed

lemma accept_inv:
  assumes inv: "unix_inv M st" and i: "i < MAX_LISTEN" "l_used (listeners st ! i)"
    and r: "unix_accept cpu i nb st = (r, st')"
  shows "unix_inv M st'" "conns st' = conns st" "kmem st' = kmem st"
proof -
  have "unix_inv M st' \<and> conns st' = conns st \<and> kmem st' = kmem st"
  proof (cases "l_backlog (listeners st ! i)")
    case Nil
    then have "st' = st \<or> st' = snd (would_block cpu (ukey_l i) st)"
      using r by (auto simp: unix_accept_def Let_def split: if_splits prod.splits)
    then show ?thesis using inv unix_would_block_inv by auto
  next
    case (Cons c rest)
    have "listener_ok ((listeners st ! i)\<lparr>l_backlog := rest\<rparr>)"
      using unix_invD(5) [OF inv i(1)] i(2) Cons by (simp add: listener_ok_def)
    then show ?thesis using r Cons put_listener_inv [OF inv]
      by (auto simp: unix_accept_def Let_def)
  qed
  then show "unix_inv M st'" "conns st' = conns st" "kmem st' = kmem st" by auto
qed

definition fresh_conn :: "bool \<Rightarrow> nat \<Rightarrow> nat \<Rightarrow> conn" where
  "fresh_conn packet a b = cempty\<lparr>c_used := True, c_packet := packet,
     c_q := [qempty\<lparr>q_buf := a\<rparr>, qempty\<lparr>q_buf := b\<rparr>], c_refs := [1, 1]\<rparr>"

lemma find_listener_Some:
  "find_listener key st = Some i \<Longrightarrow> i < length (listeners st) \<and> l_used (listeners st ! i) \<and> l_key (listeners st ! i) = key"
  using position_Some by (fastforce simp: find_listener_def)

lemma unix_listen_inv:
  assumes "unix_inv M st" "unix_listen key packet st = (r, st')"
  shows "unix_inv M st'" "r = Inr i \<Longrightarrow> find_listener key st = None \<and> find_listener key st' = Some i"
proof -
  have "unix_inv M st' \<and> (r = Inr i \<longrightarrow> find_listener key st = None \<and> find_listener key st' = Some i)"
  proof (cases "find_listener key st = None \<and> position (\<lambda>l. \<not> l_used l) (listeners st) \<noteq> None")
    case True
    then obtain j where j: "position (\<lambda>l. \<not> l_used l) (listeners st) = Some j" by auto
    let ?l = "lempty\<lparr>l_used := True, l_refs := 1, l_packet := packet, l_key := key\<rparr>"
    have r: "r = Inr j" "st' = put_listener j ?l st" using assms(2) True j by (auto simp: unix_listen_def)
    have none: "\<not> (l_used (listeners st ! k) \<and> l_key (listeners st ! k) = key)" if "k < length (listeners st)" for k
      using True nth_mem [OF that] by (auto simp: find_listener_def position_None)
    have "find_listener key st' = Some j"
      using position_Some [OF j] none unfolding find_listener_def position_Some_iff r(2)
      by (fastforce simp: nth_list_update)
    moreover have "listener_ok ?l" by (simp add: listener_ok_def lempty_def)
    ultimately show ?thesis using r True put_listener_inv [OF assms(1)] by auto
  next
    case False
    then have "st' = st" "\<exists>x. r = Inl x" using assms(2) by (auto simp: unix_listen_def split: option.splits if_splits)
    then show ?thesis using assms(1) by auto
  qed
  then show "unix_inv M st'" "r = Inr i \<Longrightarrow> find_listener key st = None \<and> find_listener key st' = Some i" by auto
qed

lemma unix_connect_inv:
  assumes inv: "unix_inv M st" and e: "unix_connect key packet st = (r, st')"
  shows "unix_inv M st'"
    and "r = Inr c \<Longrightarrow> \<exists>i a b. find_listener key st = Some i \<and> l_packet (listeners st ! i) = packet \<and> c < MAX_CONNS \<and>
      \<not> c_used (conns st ! c) \<and> conns st' ! c = fresh_conn packet a b \<and> length (l_backlog (listeners st ! i)) < BACKLOG \<and>
      listeners st' = (listeners st)[i := (listeners st ! i)\<lparr>l_backlog := l_backlog (listeners st ! i) @ [c]\<rparr>]"
proof -
  have "unix_inv M st' \<and> (r = Inr c \<longrightarrow> (\<exists>i a b. find_listener key st = Some i \<and> l_packet (listeners st ! i) = packet \<and> c < MAX_CONNS \<and>
      \<not> c_used (conns st ! c) \<and> conns st' ! c = fresh_conn packet a b \<and> length (l_backlog (listeners st ! i)) < BACKLOG \<and>
      listeners st' = (listeners st)[i := (listeners st ! i)\<lparr>l_backlog := l_backlog (listeners st ! i) @ [c]\<rparr>]))"
  proof (cases "find_listener key st")
    case None
    then show ?thesis using e inv by (auto simp: unix_connect_def)
  next
    case (Some i)
    let ?l = "listeners st ! i"
    show ?thesis
    proof (cases "l_packet ?l = packet \<and> length (l_backlog ?l) \<noteq> BACKLOG")
      case False
      then show ?thesis using e inv Some by (auto simp: unix_connect_def split: if_splits)
    next
      case True
      obtain r1 s1 where n: "conn_new packet st = (r1, s1)" by fastforce
      note ni = conn_new_inv [OF inv n]
      have f: "i < MAX_LISTEN" "l_used ?l"
        using find_listener_Some [OF Some] unix_invD(3) [OF inv] by auto
      have lo: "length (l_backlog ?l) < BACKLOG"
        using unix_invD(5) [OF inv f(1)] f(2) True by (simp add: listener_ok_def)
      show ?thesis
      proof (cases r1)
        case (Inl x)
        then have "r = Inl x" "st' = s1" using e Some True n by (auto simp: unix_connect_def)
        then show ?thesis using ni(1) by simp
      next
        case (Inr d)
        let ?l' = "?l\<lparr>l_backlog := l_backlog ?l @ [d]\<rparr>"
        have r: "r = Inr d" "st' = push_wake (ukey_l i) (put_listener i ?l' s1)"
          using e Some True n Inr ni(2) by (auto simp: unix_connect_def Let_def)
        have "listener_ok ?l'" using unix_invD(5) [OF inv f(1)] f(2) lo by (simp add: listener_ok_def)
        then have "unix_inv M st'" unfolding r(2) by (intro unix_push_wake_inv put_listener_inv ni(1))
        moreover obtain a b where ab: "d < MAX_CONNS" "\<not> c_used (conns st ! d)" "conns s1 = (conns st)[d := fresh_conn packet a b]"
          using ni(6) [OF Inr] unfolding fresh_conn_def by blast
        moreover have "conns st' ! d = fresh_conn packet a b" using ab unix_invD(2) [OF inv] by (simp add: r(2))
        ultimately show ?thesis using r True Some lo ni(2) by auto
      qed
    qed
  qed
  then show "unix_inv M st'" "r = Inr c \<Longrightarrow> \<exists>i a b. find_listener key st = Some i \<and> l_packet (listeners st ! i) = packet \<and> c < MAX_CONNS \<and>
      \<not> c_used (conns st ! c) \<and> conns st' ! c = fresh_conn packet a b \<and> length (l_backlog (listeners st ! i)) < BACKLOG \<and>
      listeners st' = (listeners st)[i := (listeners st ! i)\<lparr>l_backlog := l_backlog (listeners st ! i) @ [c]\<rparr>]" by blast+
qed

lemma listener_ref_inv:
  assumes "unix_inv M st" "l_used (listeners st ! i)" "i < MAX_LISTEN"
  shows "unix_inv M (snd (listener_ref i delta st))"
proof -
  have "listener_ok ((listeners st ! i)\<lparr>l_refs := n\<rparr>)" if "n \<noteq> 0" for n
    using unix_invD(5) [OF assms(1,3)] assms(2) that by (simp add: listener_ok_def)
  then show ?thesis using put_listener_inv [OF assms(1)] by (simp add: listener_ref_def Let_def)
qed

text \<open>None of these calls touches the watched queue.\<close>

lemma keeps_same: "conns st' ! c = conns st ! c \<Longrightarrow> kmem st' = kmem st \<Longrightarrow> keeps c e st st'"
  by (simp add: keeps_def queue_bytes_def the_queue_def)

lemma listen_keeps: "keeps c e st (snd (unix_listen key p st))"
  by (rule keeps_same) (auto simp: unix_listen_def split: option.split)

lemma listener_ref_keeps: "keeps c e st (snd (listener_ref i delta st))"
  by (rule keeps_same) (auto simp: listener_ref_def Let_def)

lemma connect_keeps:
  assumes inv: "unix_inv M st" and c: "c_used (conns st ! c)"
  shows "keeps c e st (snd (unix_connect key p st))"
proof -
  have "keeps c e st s" if "conn_new p st = (r, s)" for r s
    using conn_new_keeps [OF inv c, of e p] that by simp
  then show ?thesis by (auto simp: unix_connect_def Let_def keeps_def queue_bytes_def the_queue_def
      split: option.split sum.split prod.split)
qed

lemma drop_ref_keeps:
  assumes inv: "unix_inv M st" and c: "c < MAX_CONNS" "c_used (conns st ! c)" and ok: "unix_call_ok c e (Drop_end d f) st"
  shows "keeps c e st (snd (unix_drop_ref d f st))"
proof (cases "d = c")
  case False
  then show ?thesis by (intro keeps_same) (simp_all add: unix_drop_ref_def Let_def)
next
  case True
  let ?k = "conns st ! c"
  define rs where "rs = (c_refs ?k)[f := c_refs ?k ! f - 1]"
  have f: "f = 0 \<or> f = 1" using ok by (auto simp: live_end_def)
  have l: "c < length (conns st)" "length (c_refs ?k) = 2"
    using c unix_invD(2) [OF inv] used_conn(2) [OF inv c] by simp_all
  have "\<not> (rs ! 0 = 0 \<and> rs ! 1 = 0)" using ok f l(2) True by (auto simp: rs_def Let_def)
  then have "conns (snd (unix_drop_ref d f st)) ! c = ?k\<lparr>c_refs := rs\<rparr>" "kmem (snd (unix_drop_ref d f st)) = kmem st"
    using l(1) True unfolding rs_def by (auto simp: unix_drop_ref_def Let_def)
  then show ?thesis by (simp add: keeps_def queue_bytes_def the_queue_def)
qed

lemma unix_other_keeps:
  assumes inv: "unix_inv M st" and c: "c < MAX_CONNS" "c_used (conns st ! c)" "e < 2"
  shows "unix_inv M (unix_other cpu c e x st) \<and> keeps c e st (unix_other cpu c e x st)"
proof (cases "unix_call_ok c e x st")
  case True
  show ?thesis
  proof (cases x)
    case (New_conn p)
    then show ?thesis using conn_new_inv(1) [OF inv prod.collapse [symmetric]] conn_new_keeps [OF inv c(2)]
      by (simp add: unix_other_def)
  next
    case (Read_end d f len nb)
    then have l: "d < MAX_CONNS" "c_used (conns st ! d)" "f < 2" "(c, e) \<noteq> (d, f)"
      using True by (auto simp: live_end_def)
    obtain r st' where r: "unix_read cpu d f len nb st = (r, st')" by fastforce
    then show ?thesis using True Read_end unix_read_inv [OF inv l(1-3) r]
        keeps_queue [OF read_keeps_others [OF inv l(1-3) r l(4)] read_same_conns [OF r]]
      by (simp add: unix_other_def)
  next
    case (Write_end d f src nb files)
    then have l: "d < MAX_CONNS" "c_used (conns st ! d)" "f < 2" "(c, e) \<noteq> (d, 1 - f)"
      using True by (auto simp: live_end_def)
    obtain r st' where r: "unix_write cpu d f src nb files st = (r, st')" by fastforce
    then show ?thesis using True Write_end unix_write_inv [OF inv l(1-3) r]
        keeps_queue [OF write_keeps_others [OF inv l(1-3) r c(1,3) l(4)] write_same_conns [OF r]]
      by (simp add: unix_other_def)
  next
    case (Shutdown d f how)
    then show ?thesis using True unix_shutdown_inv [OF inv] shutdown_keeps [OF inv]
      by (simp add: unix_other_def live_end_def)
  next
    case (Add_end d f)
    then have l: "d < MAX_CONNS" "c_used (conns st ! d)" "f < 2"
      using True by (auto simp: live_end_def)
    have "keeps c e st (unix_add_ref d f st)"
      using unix_invD(2) [OF inv] l by (cases "d = c")
        (auto simp: keeps_def queue_bytes_def the_queue_def unix_add_ref_def Let_def)
    then show ?thesis using True Add_end unix_add_ref_inv [OF inv l] by (simp add: unix_other_def)
  next
    case (Drop_end d f)
    then have l: "d < MAX_CONNS" "c_used (conns st ! d)" "f < 2"
      using True by (auto simp: live_end_def)
    show ?thesis using True Drop_end unix_drop_ref_inv [OF inv l prod.collapse [symmetric]]
        drop_ref_keeps [OF inv c(1,2), of e d f]
      by (simp add: unix_other_def del: unix_call_ok.simps)
  next
    case (Listen_on key p)
    then show ?thesis using unix_listen_inv(1) [OF inv prod.collapse [symmetric]] listen_keeps by (simp add: unix_other_def)
  next
    case (Listener_count i delta)
    then show ?thesis using True listener_ref_inv [OF inv] listener_ref_keeps by (simp add: unix_other_def)
  next
    case (Connect_to key p)
    then show ?thesis using unix_connect_inv(1) [OF inv prod.collapse [symmetric]] connect_keeps [OF inv c(2)]
      by (simp add: unix_other_def)
  next
    case (Accept i nb)
    obtain r st' where r: "unix_accept cpu i nb st = (r, st')" by fastforce
    then show ?thesis using True Accept accept_inv [OF inv _ _ r]
      by (simp add: unix_other_def keeps_def queue_bytes_def the_queue_def)
  qed
qed (simp add: unix_other_def inv)

text \<open>A stream is a channel of bytes, whatever the descriptors that travel with them.\<close>

definition stream_inv :: "(nat \<times> nat) multiset \<Rightarrow> nat \<Rightarrow> nat \<Rightarrow> 'a unix_st_scheme \<Rightarrow> bool" where
  "stream_inv M c e st \<longleftrightarrow> unix_inv M st \<and> live_end c e st \<and> \<not> c_packet (conns st ! c)"

definition stream_put :: "nat \<Rightarrow> bool \<Rightarrow> open_file list \<Rightarrow> nat \<Rightarrow> nat \<Rightarrow> u8 list \<Rightarrow> 'a unix_st_scheme \<Rightarrow>
    nat \<times> 'a unix_st_scheme" where
  "stream_put cpu nb files c e src st = (case unix_write cpu c (1 - e) src nb files st of
     (Inr n, st') \<Rightarrow> (n, st') | (Inl _, st') \<Rightarrow> (0, st'))"

definition stream_get :: "nat \<Rightarrow> bool \<Rightarrow> nat \<Rightarrow> nat \<Rightarrow> nat \<Rightarrow> 'a unix_st_scheme \<Rightarrow> u8 list \<times> 'a unix_st_scheme" where
  "stream_get cpu nb c e len st = (case unix_read cpu c e len nb st of
     (Inr (bs, _), st') \<Rightarrow> (bs, st') | (Inl _, st') \<Rightarrow> ([], st'))"

text \<open>In packet mode the queue is the list of its messages.\<close>

fun cut_up :: "nat list \<Rightarrow> 'a list \<Rightarrow> 'a list list" where
  "cut_up [] bs = []"
| "cut_up (n # ns) bs = take n bs # cut_up ns (drop n bs)"

definition packets :: "nat \<Rightarrow> nat \<Rightarrow> 'a unix_st_scheme \<Rightarrow> u8 list list" where
  "packets c e st = cut_up (msg_sizes (the_queue c e st)) (queue_bytes c e st)"

definition packet_inv :: "(nat \<times> nat) multiset \<Rightarrow> nat \<Rightarrow> nat \<Rightarrow> 'a unix_st_scheme \<Rightarrow> bool" where
  "packet_inv M c e st \<longleftrightarrow> unix_inv M st \<and> live_end c e st \<and> c_packet (conns st ! c)"

text \<open>One call of either side: the message that a write queued, what a read of a non-empty queue returned.\<close>

definition packet_put :: "nat \<Rightarrow> nat \<Rightarrow> nat \<times> u8 list \<times> bool \<times> open_file list \<Rightarrow> 'a unix_st_scheme \<Rightarrow>
    u8 list option \<times> 'a unix_st_scheme" where
  "packet_put c e p st = (case p of (cpu, m, nb, files) \<Rightarrow>
     (case unix_write cpu c (1 - e) m nb files st of (Inr _, st') \<Rightarrow> (Some m, st') | (Inl _, st') \<Rightarrow> (None, st')))"

definition packet_get :: "nat \<Rightarrow> nat \<Rightarrow> nat \<times> nat \<times> bool \<Rightarrow> 'a unix_st_scheme \<Rightarrow>
    (u8 list \<times> bool) option \<times> 'a unix_st_scheme" where
  "packet_get c e g st = (case g of (cpu, len, nb) \<Rightarrow>
     (case unix_read cpu c e len nb st of
        (Inr (bs, trunc, _), st') \<Rightarrow> (if q_len (the_queue c e st) = 0 then None else Some (bs, trunc), st')
      | (Inl _, st') \<Rightarrow> (None, st')))"

text \<open>What a read with a buffer of \<open>len\<close> bytes sees of a message: its first \<open>len\<close> bytes and whether there were more.\<close>

definition seen_of :: "nat \<times> nat \<times> bool \<Rightarrow> u8 list \<Rightarrow> u8 list \<times> bool" where
  "seen_of g m = (case g of (_, len, _) \<Rightarrow> (take len m, len < length m))"

lemma cut_up_append:
  "sum_list ns = length bs \<Longrightarrow> cut_up (ns @ [length m]) (bs @ m) = cut_up ns bs @ [m]"
  by (induction ns arbitrary: bs) auto

lemma length_cut_up: "sum_list (map length (cut_up ns bs)) \<le> length bs"
proof (induction ns arbitrary: bs)
  case (Cons n ns)
  have "sum_list (map length (cut_up ns (drop n bs))) \<le> length bs - n"
    using Cons.IH [of "drop n bs"] by simp
  moreover have "sum_list (map length (cut_up (n # ns) bs)) =
      min (length bs) n + sum_list (map length (cut_up ns (drop n bs)))" by simp
  ultimately show ?case by linarith
qed simp

lemma keep_live:
  assumes "same_conns st st'" "live_end c e st"
  shows "live_end c e st'" "c_packet (conns st' ! c) = c_packet (conns st ! c)"
  using assms by (simp_all add: same_conns_def live_end_def)

lemma queue_len:
  assumes "unix_inv M st" "live_end c e st"
  shows "length (queue_bytes c e st) = q_len (the_queue c e st)"
    and "c_packet (conns st ! c) \<Longrightarrow> sum_list (msg_sizes (the_queue c e st)) = q_len (the_queue c e st)"
    and "q_len (the_queue c e st) \<le> CAP"
  using queue_ok_here [OF assms(1), of c e] assms(2)
  by (auto simp: queue_bytes_def Let_def queue_ok_def live_end_def)

lemma write_packet:
  assumes "packet_inv M c e st" "unix_write cpu c (1 - e) m nb files st = (r, st')"
  shows "packet_inv M c e st' \<and> packets c e st' = packets c e st @ (case r of Inr _ \<Rightarrow> [m] | Inl _ \<Rightarrow> [])"
proof -
  have inv: "unix_inv M st" and l: "live_end c e st" and p: "c_packet (conns st ! c)"
    using assms(1) by (auto simp: packet_inv_def)
  have c: "c < MAX_CONNS" "c_used (conns st ! c)" "1 - e < 2" "1 - (1 - e) = e"
    using l by (auto simp: live_end_def)
  have i': "packet_inv M c e st'"
    using unix_write_inv [OF inv c(1-3) assms(2)] keep_live [OF write_same_conns [OF assms(2)] l] p
    by (simp add: packet_inv_def)
  show ?thesis
  proof (cases r)
    case (Inl x)
    then show ?thesis using i' write_error [of cpu c "1 - e" m nb files st x st' c e] assms(2) by (simp add: packets_def)
  next
    case (Inr n)
    note w = write_bytes [OF inv c(1-3) assms(2) [unfolded Inr], unfolded c(4)]
    have n: "n = length m" using w p by simp
    have s: "sum_list (msg_sizes (the_queue c e st)) = length (queue_bytes c e st)"
      using queue_len [OF inv l] p by simp
    have "msg_sizes (the_queue c e st') = msg_sizes (the_queue c e st) @ [length m]"
      "queue_bytes c e st' = queue_bytes c e st @ m"
      using w p n by auto
    then have "packets c e st' = packets c e st @ [m]"
      using cut_up_append [OF s, of m] by (simp only: packets_def)
    then show ?thesis using i' Inr by simp
  qed
qed

lemma read_packet:
  assumes "packet_inv M c e st" "unix_read cpu c e len nb st = (r, st')" "q_len (the_queue c e st) \<noteq> 0"
  obtains m fds where "packets c e st = m # packets c e st'" "packet_inv M c e st'"
    "r = Inr (take len m, len < length m, fds)"
proof -
  have inv: "unix_inv M st" and l: "live_end c e st" and p: "c_packet (conns st ! c)"
    using assms(1) by (auto simp: packet_inv_def)
  have c: "c < MAX_CONNS" "c_used (conns st ! c)" "e < 2" using l by (auto simp: live_end_def)
  have i': "packet_inv M c e st'"
    using unix_read_inv [OF inv c assms(2)] keep_live [OF read_same_conns [OF assms(2)] l] p
    by (simp add: packet_inv_def)
  have "\<exists>y. r = Inr y"
    using assms(2,3) by (auto simp: unix_read_def the_queue_def Let_def split: prod.splits)
  then obtain bs trunc fds where r: "r = Inr (bs, trunc, fds)" by (metis prod.exhaust)
  obtain k where k: "length bs \<le> k" "k \<le> q_len (the_queue c e st)"
    "bs = take (length bs) (queue_bytes c e st)" "queue_bytes c e st' = drop k (queue_bytes c e st)"
    "msg_sizes (the_queue c e st) = k # msg_sizes (the_queue c e st')" "length bs = min len k" "trunc = (len < k)"
    by (rule read_bytes [OF inv c assms(2) [unfolded r]]) (use assms(3) p in blast)
  let ?m = "take k (queue_bytes c e st)"
  have lm: "length ?m = k" using k(2) queue_len(1) [OF inv l] by simp
  have "packets c e st = ?m # packets c e st'" using k(4,5) by (simp add: packets_def)
  moreover have "bs = take len ?m" using k(3,6) by (metis take_take min.commute)
  moreover have "trunc = (len < length ?m)" using k(7) lm by simp
  ultimately show thesis using that [of ?m fds] i' r by blast
qed

lemma read_nothing:
  assumes "packet_inv M c e st" "unix_read cpu c e len nb st = (r, st')" "q_len (the_queue c e st) = 0"
  shows "packet_inv M c e st' \<and> packets c e st' = packets c e st"
proof -
  have inv: "unix_inv M st" and l: "live_end c e st" and p: "c_packet (conns st ! c)"
    using assms(1) by (auto simp: packet_inv_def)
  have c: "c < MAX_CONNS" "c_used (conns st ! c)" "e < 2" using l by (auto simp: live_end_def)
  have i': "packet_inv M c e st'"
    using unix_read_inv [OF inv c assms(2)] keep_live [OF read_same_conns [OF assms(2)] l] p
    by (simp add: packet_inv_def)
  show ?thesis
  proof (cases r)
    case (Inl x)
    then show ?thesis using i' read_error [of cpu c e len nb st x st' c e] assms(2) by (simp add: packets_def)
  next
    case (Inr y)
    then have "st' = st" using assms(2,3) by (auto simp: unix_read_def the_queue_def Let_def split: if_splits prod.splits)
    then show ?thesis using assms(1) by simp
  qed
qed

lemma other_stream:
  assumes "stream_inv M c e st"
  shows "stream_inv M c e (unix_other cpu c e x st) \<and> queue_bytes c e (unix_other cpu c e x st) = queue_bytes c e st"
  using assms unix_other_keeps [of M st c e cpu x] by (auto simp: stream_inv_def live_end_def keeps_def)

lemma other_packet:
  assumes "packet_inv M c e st"
  shows "packet_inv M c e (unix_other cpu c e x st) \<and> packets c e (unix_other cpu c e x st) = packets c e st"
  using assms unix_other_keeps [of M st c e cpu x]
  by (auto simp: packet_inv_def live_end_def keeps_def packets_def)

lemma write_stream:
  assumes "stream_inv M c e st" "unix_write cpu c (1 - e) src nb files st = (r, st')"
  shows "stream_inv M c e st' \<and> (case r of Inr n \<Rightarrow> n \<le> length src \<and> queue_bytes c e st' = queue_bytes c e st @ take n src
    | Inl _ \<Rightarrow> queue_bytes c e st' = queue_bytes c e st)"
proof -
  have inv: "unix_inv M st" and l: "live_end c e st" and p: "\<not> c_packet (conns st ! c)"
    using assms(1) by (auto simp: stream_inv_def)
  have c: "c < MAX_CONNS" "c_used (conns st ! c)" "1 - e < 2" "1 - (1 - e) = e"
    using l by (auto simp: live_end_def)
  have i': "stream_inv M c e st'"
    using unix_write_inv [OF inv c(1-3) assms(2)] keep_live [OF write_same_conns [OF assms(2)] l] p
    by (simp add: stream_inv_def)
  show ?thesis
  proof (cases r)
    case (Inl x)
    then show ?thesis using i' write_error [of cpu c "1 - e" src nb files st x st' c e] assms(2) by simp
  next
    case (Inr n)
    then show ?thesis using i' write_bytes [OF inv c(1-3) assms(2) [unfolded Inr], unfolded c(4)] by simp
  qed
qed

lemma read_stream:
  assumes "stream_inv M c e st" "unix_read cpu c e len nb st = (r, st')"
  shows "stream_inv M c e st' \<and> (case r of Inr (bs, _) \<Rightarrow> length bs \<le> len \<and> queue_bytes c e st = bs @ queue_bytes c e st'
    | Inl _ \<Rightarrow> queue_bytes c e st' = queue_bytes c e st)"
proof -
  have inv: "unix_inv M st" and l: "live_end c e st" and p: "\<not> c_packet (conns st ! c)"
    using assms(1) by (auto simp: stream_inv_def)
  have c: "c < MAX_CONNS" "c_used (conns st ! c)" "e < 2" using l by (auto simp: live_end_def)
  have i': "stream_inv M c e st'"
    using unix_read_inv [OF inv c assms(2)] keep_live [OF read_same_conns [OF assms(2)] l] p
    by (simp add: stream_inv_def)
  show ?thesis
  proof (cases r)
    case (Inl x)
    then show ?thesis using i' read_error [of cpu c e len nb st x st' c e] assms(2) by simp
  next
    case (Inr y)
    obtain bs trunc fds where r: "r = Inr (bs, trunc, fds)" using Inr by (metis prod.exhaust)
    have "length bs \<le> len \<and> queue_bytes c e st = bs @ queue_bytes c e st'"
      by (rule read_bytes [OF inv c assms(2) [unfolded r]]) (use p append_take_drop_id in metis)
    then show ?thesis using i' r by simp
  qed
qed

interpretation stream_channel: fifo "stream_inv M c e" "queue_bytes c e" "stream_put cpu nb files c e"
    "stream_get cpu nb c e" "unix_other cpu c e"
  for M c e cpu nb files
proof
  fix st st' :: "'a unix_st_scheme" and n xs x
  assume inv: "stream_inv M c e st"
  show "stream_inv M c e st' \<and> n \<le> length xs \<and> queue_bytes c e st' = queue_bytes c e st @ take n xs"
    if "stream_put cpu nb files c e xs st = (n, st')"
    using that write_stream [OF inv] by (fastforce simp: stream_put_def split: prod.splits sum.splits)
  show "stream_inv M c e st' \<and> length xs \<le> n \<and> queue_bytes c e st = xs @ queue_bytes c e st'"
    if "stream_get cpu nb c e n st = (xs, st')"
    using that read_stream [OF inv] by (fastforce simp: stream_get_def split: prod.splits sum.splits)
  show "stream_inv M c e (unix_other cpu c e x st) \<and> queue_bytes c e (unix_other cpu c e x st) = queue_bytes c e st"
    by (rule other_stream [OF inv])
qed

text \<open>
  A queue of messages: a send appends one message or none, a receive removes the first one and returns what it
  sees of it, or leaves the queue.
\<close>

datatype ('p, 'g, 'o) message_op = Send_op 'p | Receive_op 'g | Other_op 'o

locale message_queue =
  fixes inv :: "'s \<Rightarrow> bool"
    and items :: "'s \<Rightarrow> 'm list"
    and send :: "'p \<Rightarrow> 's \<Rightarrow> 'm option \<times> 's"
    and receive :: "'g \<Rightarrow> 's \<Rightarrow> 'r option \<times> 's"
    and seen :: "'g \<Rightarrow> 'm \<Rightarrow> 'r"
    and other :: "'o \<Rightarrow> 's \<Rightarrow> 's"
  assumes send_law: "inv s \<Longrightarrow> send p s = (x, s') \<Longrightarrow>
      inv s' \<and> items s' = items s @ (case x of None \<Rightarrow> [] | Some m \<Rightarrow> [m])"
    and receive_law: "inv s \<Longrightarrow> receive g s = (y, s') \<Longrightarrow>
      inv s' \<and> (case y of None \<Rightarrow> items s' = items s | Some r \<Rightarrow> \<exists>m. items s = m # items s' \<and> r = seen g m)"
    and other_law: "inv s \<Longrightarrow> inv (other z s) \<and> items (other z s) = items s"
begin

text \<open>The messages queued, and the receives that returned one with what they returned.\<close>

fun run :: "('p, 'g, 'o) message_op list \<Rightarrow> 's \<Rightarrow> 'm list \<times> ('g \<times> 'r) list \<times> 's" where
  "run [] s = ([], [], s)"
| "run (Send_op p # ops) s = (case send p s of (x, s') \<Rightarrow> case run ops s' of (ins, outs, t) \<Rightarrow>
     (case x of None \<Rightarrow> ins | Some m \<Rightarrow> m # ins, outs, t))"
| "run (Receive_op g # ops) s = (case receive g s of (y, s') \<Rightarrow> case run ops s' of (ins, outs, t) \<Rightarrow>
     (ins, case y of None \<Rightarrow> outs | Some r \<Rightarrow> (g, r) # outs, t))"
| "run (Other_op z # ops) s = run ops (other z s)"

lemma run_order:
  "inv s \<Longrightarrow> run ops s = (ins, outs, t) \<Longrightarrow>
    inv t \<and> (\<exists>ms. items s @ ins = ms @ items t \<and> list_all2 (\<lambda>m (g, r). r = seen g m) ms outs)"
proof (induction ops s arbitrary: ins outs t rule: run.induct)
  case (2 p ops s)
  obtain x s' where p: "send p s = (x, s')" by fastforce
  obtain i out u where r: "run ops s' = (i, out, u)" by (cases "run ops s'") auto
  from send_law [OF "2.prems"(1) p] "2.IH" [OF p [symmetric] _ r] "2.prems"(2) p r
  show ?case by (cases x) auto
next
  case (3 g ops s)
  obtain y s' where g: "receive g s = (y, s')" by fastforce
  obtain i out u where r: "run ops s' = (i, out, u)" by (cases "run ops s'") auto
  note law = receive_law [OF "3.prems"(1) g]
  obtain ms where ms: "items s' @ i = ms @ items u" "list_all2 (\<lambda>m (g, r). r = seen g m) ms out" "inv u"
    using "3.IH" [OF g [symmetric] _ r] law by blast
  show ?case
  proof (cases y)
    case None
    then show ?thesis using law ms "3.prems"(2) g r by auto
  next
    case (Some z)
    then obtain m where "items s = m # items s'" "z = seen g m" using law by auto
    then show ?thesis using Some ms "3.prems"(2) g r by (auto intro!: exI [of _ "m # ms"])
  qed
next
  case (4 z ops s)
  from other_law [OF "4.prems"(1)] "4.IH" "4.prems"(2) show ?case by auto
qed auto

end

interpretation packet_channel: message_queue "packet_inv M c e" "packets c e" "packet_put c e" "packet_get c e"
    seen_of "unix_other cpu c e"
  for M c e cpu
proof
  fix st st' :: "'a unix_st_scheme" and x p y g z
  assume inv: "packet_inv M c e st"
  show "packet_inv M c e st' \<and> packets c e st' = packets c e st @ (case x of None \<Rightarrow> [] | Some m \<Rightarrow> [m])"
    if "packet_put c e p st = (x, st')"
  proof -
    obtain k m nb files where p: "p = (k, m, nb, files)" by (metis prod_cases4)
    obtain r s where w: "unix_write k c (1 - e) m nb files st = (r, s)" by fastforce
    from write_packet [OF inv w] show ?thesis
      using that w by (cases r) (auto simp: packet_put_def p simp del: One_nat_def)
  qed
  show "packet_inv M c e st' \<and> (case y of None \<Rightarrow> packets c e st' = packets c e st
      | Some r \<Rightarrow> \<exists>m. packets c e st = m # packets c e st' \<and> r = seen_of g m)"
    if "packet_get c e g st = (y, st')"
  proof -
    obtain k len nb where g: "g = (k, len, nb)" by (metis prod_cases3)
    obtain r s where rd: "unix_read k c e len nb st = (r, s)" by fastforce
    have st': "st' = s" using that rd by (auto simp: packet_get_def g split: sum.splits)
    show ?thesis
    proof (cases "q_len (the_queue c e st) = 0")
      case True
      have "y = None" using that rd True by (auto simp: packet_get_def g split: sum.splits)
      moreover have "packet_inv M c e s \<and> packets c e s = packets c e st" by (rule read_nothing [OF inv rd True])
      ultimately show ?thesis by (simp add: st')
    next
      case False
      obtain m fds where m: "packets c e st = m # packets c e s" "packet_inv M c e s" "r = Inr (take len m, len < length m, fds)"
        using read_packet [OF inv rd] False by blast
      have "y = Some (take len m, len < length m)" using that rd m(3) False by (simp add: packet_get_def g)
      then show ?thesis using m(1,2) by (simp add: st' seen_of_def g)
    qed
  qed
  show "packet_inv M c e (unix_other cpu c e z st) \<and> packets c e (unix_other cpu c e z st) = packets c e st"
    by (rule other_packet [OF inv])
qed

end
