(* ===== verification/Files.thy ===== *)
theory Files
  imports Unix
begin

text \<open>
  The descriptor layer (\<open>kernel/src/file.rs\<close>): one table of 512 descriptors per process leader and
  the objects descriptors name by kind and index: pipes, event counters, epoll sets, generated
  texts, network sockets, unconnected local sockets, the two ends of local connections, listeners
  and shared-memory objects. Objects are counted by \<open>add_ref\<close> and \<open>drop_ref\<close>; a descriptor may also
  be in flight, attached to a message of a local socket.

  \<open>drop_ref\<close> may release a connection, and with it the descriptors in flight on it, by recursion;
  here \<open>drop_one\<close> drops one reference and returns the descriptors released, and \<open>drop_refs\<close> is the
  recursion with the pending calls written as a list. An index outside its table, which panics in
  the code, drops nothing; the invariant excludes it. The functions take the slot \<open>l\<close> of the
  caller's leader, which the code gets with \<open>leader()?\<close>; user buffers are byte lists.

  The parts of the kernel this file calls and that have no theory of their own (\<open>ext2.rs\<close>, \<open>net.rs\<close>,
  \<open>rng.rs\<close>, \<open>uart.rs\<close>, the mapped-inode query of \<open>vm.rs\<close>) are operations \<open>env\<close> on a state \<open>world\<close> of
  any type: every theorem holds whatever they do.
\<close>

section \<open>State\<close>

definition MAX_FDS :: nat where "MAX_FDS = 512"
definition LEADERS :: nat where "LEADERS = 256"
definition ROOT_INO :: nat where "ROOT_INO = 2"

definition EBADF :: errno where [errno_defs]: "EBADF = 9"
definition EMFILE :: errno where [errno_defs]: "EMFILE = 24"
definition ENOTTY :: errno where [errno_defs]: "ENOTTY = 25"
definition ESPIPE :: errno where [errno_defs]: "ESPIPE = 29"
definition ENOSYS :: errno where [errno_defs]: "ENOSYS = 38"
definition ENOTSOCK :: errno where [errno_defs]: "ENOTSOCK = 88"
definition EDESTADDRREQ :: errno where [errno_defs]: "EDESTADDRREQ = 89"
definition EOPNOTSUPP :: errno where [errno_defs]: "EOPNOTSUPP = 95"
definition EAFNOSUPPORT :: errno where [errno_defs]: "EAFNOSUPPORT = 97"
definition ECONNRESET :: errno where [errno_defs]: "ECONNRESET = 104"
definition EISCONN :: errno where [errno_defs]: "EISCONN = 106"
definition ENOTCONN :: errno where [errno_defs]: "ENOTCONN = 107"
definition EALREADY :: errno where [errno_defs]: "EALREADY = 114"
definition EINPROGRESS :: errno where [errno_defs]: "EINPROGRESS = 115"

record mem_file =
  m_buf :: nat
  m_len :: nat
  m_refs :: nat
  m_pages :: nat

record event_fd =
  e_used :: bool
  e_refs :: nat
  e_count :: nat
  e_sem :: bool

record ep_item =
  i_fd :: int
  i_events :: u32
  i_data :: u64
  i_off :: bool
  i_fired :: bool

record epoll_set =
  ep_used :: bool
  ep_refs :: nat
  ep_items :: "ep_item list"

datatype sock_state = Fresh | Connecting | Connected | Failed

record sock =
  s_used :: bool
  s_refs :: nat
  s_udp :: bool
  s_tcp :: "nat option"
  s_lport :: nat
  s_rip :: "u8 list"
  s_rport :: nat
  s_state :: sock_state
  s_err :: errno

record usock =
  u_used :: bool
  u_refs :: nat
  u_packet :: bool
  u_key :: skey

record 'e files_st = unix_st +
  tabs :: "nat \<Rightarrow> open_file list"
  cwds :: "nat \<Rightarrow> nat"
  orphans :: "nat list"
  mems :: "mem_file list"
  events :: "event_fd list"
  epolls :: "epoll_set list"
  socks :: "sock list"
  usocks :: "usock list"
  shobjs :: "shm_obj list"
  world :: 'e

definition mem_none :: mem_file where
  "mem_none = \<lparr>m_buf = 0, m_len = 0, m_refs = 0, m_pages = 0\<rparr>"

definition sock_none :: sock where
  "sock_none = \<lparr>s_used = False, s_refs = 0, s_udp = False, s_tcp = None, s_lport = 0,
     s_rip = [0, 0, 0, 0], s_rport = 0, s_state = Fresh, s_err = 0\<rparr>"

definition usock_none :: usock where
  "usock_none = \<lparr>u_used = False, u_refs = 0, u_packet = False, u_key = No_key\<rparr>"

definition epoll_none :: epoll_set where
  "epoll_none = \<lparr>ep_used = False, ep_refs = 0, ep_items = []\<rparr>"

definition DEFAULT_TABLE :: "open_file list" where
  "DEFAULT_TABLE = replicate 3 CONSOLE_FILE @ replicate (MAX_FDS - 3) FREE_FILE"

text \<open>An inode as this file reads it: \<open>kind()\<close> and \<open>size()\<close>.\<close>

datatype ino_kind = Regular | Directory | Symlink | Socket | Other_kind

record 'e env =
  x_mapped :: "nat \<Rightarrow> 'e \<Rightarrow> bool"
  x_release :: "nat \<Rightarrow> 'e \<Rightarrow> 'e"
  x_dirty :: "'e \<Rightarrow> nat"
  x_sync :: "'e \<Rightarrow> 'e"
  x_is_ext2 :: "'e \<Rightarrow> bool"
  x_create :: "nat \<Rightarrow> u8 list \<Rightarrow> nat \<Rightarrow> bool \<Rightarrow> 'e \<Rightarrow> (errno + nat \<times> bool) \<times> 'e"
  x_mknod :: "nat \<Rightarrow> u8 list \<Rightarrow> nat \<Rightarrow> 'e \<Rightarrow> (errno + nat) \<times> 'e"
  x_resolve :: "nat \<Rightarrow> u8 list \<Rightarrow> bool \<Rightarrow> 'e \<Rightarrow> (errno + nat) \<times> 'e"
  x_inode :: "nat \<Rightarrow> 'e \<Rightarrow> (errno + ino_kind \<times> nat) \<times> 'e"
  x_read :: "nat \<Rightarrow> nat \<Rightarrow> nat \<Rightarrow> 'e \<Rightarrow> (errno + u8 list) \<times> 'e"
  x_write :: "nat \<Rightarrow> nat \<Rightarrow> u8 list \<Rightarrow> 'e \<Rightarrow> (errno + nat) \<times> 'e"
  x_truncate :: "nat \<Rightarrow> nat \<Rightarrow> 'e \<Rightarrow> (errno + unit) \<times> 'e"
  x_legacy :: "'e \<Rightarrow> 'e"
  x_console :: "u8 list \<Rightarrow> 'e \<Rightarrow> 'e"
  x_random :: "nat \<Rightarrow> 'e \<Rightarrow> u8 list \<times> 'e"
  x_pid :: "'e \<Rightarrow> nat"
  x_exe :: "'e \<Rightarrow> u8 list"
  x_proc_text :: "string \<Rightarrow> nat \<Rightarrow> 'e \<Rightarrow> u8 list"
  x_port :: "'e \<Rightarrow> nat \<times> 'e"
  x_tcp_connect :: "u8 list \<Rightarrow> nat \<Rightarrow> 'e \<Rightarrow> nat option \<times> 'e"
  x_tcp_status :: "nat \<Rightarrow> 'e \<Rightarrow> nat \<times> 'e"
  x_tcp_close :: "nat \<Rightarrow> 'e \<Rightarrow> 'e"
  x_tcp_send :: "nat \<Rightarrow> u8 list \<Rightarrow> 'e \<Rightarrow> int \<times> 'e"
  x_tcp_recv :: "nat \<Rightarrow> nat \<Rightarrow> 'e \<Rightarrow> (int \<times> u8 list) \<times> 'e"
  x_tcp_ready :: "nat \<Rightarrow> 'e \<Rightarrow> (bool \<times> bool \<times> bool) \<times> 'e"
  x_tcp_avail :: "nat \<Rightarrow> 'e \<Rightarrow> nat \<times> 'e"
  x_tcp_lport :: "nat \<Rightarrow> 'e \<Rightarrow> nat"
  x_udp_send :: "u8 list \<Rightarrow> nat \<Rightarrow> nat \<Rightarrow> u8 list \<Rightarrow> 'e \<Rightarrow> bool \<times> 'e"
  x_udp_recv :: "nat \<Rightarrow> nat \<Rightarrow> 'e \<Rightarrow> (u8 list \<times> nat \<times> u8 list) option \<times> 'e"
  x_udp_pending :: "nat \<Rightarrow> 'e \<Rightarrow> bool \<times> 'e"
  x_udp_next :: "nat \<Rightarrow> 'e \<Rightarrow> nat \<times> 'e"

text \<open>Calls into the other parts: on the world, on the shared-memory objects, and \<open>?\<close>.\<close>

definition on_world :: "('e \<Rightarrow> 'r \<times> 'e) \<Rightarrow> ('e, 'm) files_st_scheme \<Rightarrow> 'r \<times> ('e, 'm) files_st_scheme" where
  "on_world f st = (case f (world st) of (r, w) \<Rightarrow> (r, st\<lparr>world := w\<rparr>))"

definition the_shm :: "('e, 'm) files_st_scheme \<Rightarrow> shm" where
  "the_shm st = \<lparr>objs = shobjs st, sfa = kfa st, smem = kmem st\<rparr>"

definition set_shm :: "shm \<Rightarrow> ('e, 'm) files_st_scheme \<Rightarrow> ('e, 'm) files_st_scheme" where
  "set_shm s st = st\<lparr>shobjs := objs s, kfa := sfa s, kmem := smem s\<rparr>"

section \<open>References\<close>

definition put_fd :: "nat \<Rightarrow> nat \<Rightarrow> open_file \<Rightarrow> ('e, 'm) files_st_scheme \<Rightarrow> ('e, 'm) files_st_scheme" where
  "put_fd l i f st = st\<lparr>tabs := (tabs st)(l := (tabs st l)[i := f])\<rparr>"

definition is_open :: "'e env \<Rightarrow> nat \<Rightarrow> ('e, 'm) files_st_scheme \<Rightarrow> bool" where
  "is_open ev ino st \<longleftrightarrow>
     list_ex (\<lambda>l. list_ex (\<lambda>f. (f_kind f = File \<or> f_kind f = Dir) \<and> f_ino f = ino) (tabs st l)) [0..<LEADERS] \<or>
     x_mapped ev ino (world st)"

definition add_orphan :: "nat \<Rightarrow> ('e, 'm) files_st_scheme \<Rightarrow> ('e, 'm) files_st_scheme" where
  "add_orphan ino st =
     (case position (\<lambda>s. s = 0) (orphans st) of
        None \<Rightarrow> st
      | Some s \<Rightarrow> st\<lparr>orphans := (orphans st)[s := ino]\<rparr>)"

definition after_close :: "'e env \<Rightarrow> nat \<Rightarrow> ('e, 'm) files_st_scheme \<Rightarrow> ('e, 'm) files_st_scheme" where
  "after_close ev ino st =
     (let st = (case position (\<lambda>s. s = ino) (orphans st) of
                  None \<Rightarrow> st
                | Some s \<Rightarrow>
                    if is_open ev ino st then st
                    else st\<lparr>world := x_release ev ino (world st), orphans := (orphans st)[s := 0]\<rparr>)
      in if x_dirty ev (world st) \<ge> 64 then st\<lparr>world := x_sync ev (world st)\<rparr> else st)"

definition add_ref :: "open_file \<Rightarrow> ('e, 'm) files_st_scheme \<Rightarrow> ('e, 'm) files_st_scheme" where
  "add_ref f st =
     (let i = f_ino f in
      case f_kind f of
        PipeR \<Rightarrow> pipe_add_ref PipeR i st
      | PipeW \<Rightarrow> pipe_add_ref PipeW i st
      | Mem \<Rightarrow> st\<lparr>mems := (mems st)[i := (mems st ! i)\<lparr>m_refs := m_refs (mems st ! i) + 1\<rparr>]\<rparr>
      | Event \<Rightarrow> st\<lparr>events := (events st)[i := (events st ! i)\<lparr>e_refs := e_refs (events st ! i) + 1\<rparr>]\<rparr>
      | Epoll \<Rightarrow> st\<lparr>epolls := (epolls st)[i := (epolls st ! i)\<lparr>ep_refs := ep_refs (epolls st ! i) + 1\<rparr>]\<rparr>
      | Sock \<Rightarrow> st\<lparr>socks := (socks st)[i := (socks st ! i)\<lparr>s_refs := s_refs (socks st ! i) + 1\<rparr>]\<rparr>
      | Unix \<Rightarrow> unix_add_ref (i div 2) (i mod 2) st
      | USock \<Rightarrow> st\<lparr>usocks := (usocks st)[i := (usocks st ! i)\<lparr>u_refs := u_refs (usocks st ! i) + 1\<rparr>]\<rparr>
      | Listen \<Rightarrow> snd (listener_ref i 1 st)
      | Shm \<Rightarrow> set_shm (fd_ref i 1 (the_shm st)) st
      | _ \<Rightarrow> st)"

text \<open>The server end of connection \<open>c\<close>, as \<open>listener_ref\<close> drops it when it was never accepted.\<close>

definition server_end :: "nat \<Rightarrow> open_file" where
  "server_end c = FREE_FILE\<lparr>f_kind := Unix, f_ino := c * 2 + 1\<rparr>"

definition drop_one :: "'e env \<Rightarrow> open_file \<Rightarrow> ('e, 'm) files_st_scheme \<Rightarrow>
    open_file list \<times> ('e, 'm) files_st_scheme" where
  "drop_one ev f st =
     (let i = f_ino f in
      case f_kind f of
        File \<Rightarrow> ([], after_close ev i st)
      | Dir \<Rightarrow> ([], after_close ev i st)
      | PipeR \<Rightarrow> ([], pipe_drop_ref PipeR i st)
      | PipeW \<Rightarrow> ([], pipe_drop_ref PipeW i st)
      | Mem \<Rightarrow>
          let m = (mems st ! i)\<lparr>m_refs := m_refs (mems st ! i) - 1\<rparr> in
          ([], if m_refs m = 0
               then st\<lparr>kfa := free_contig (m_buf m) (m_pages m) (kfa st), mems := (mems st)[i := mem_none]\<rparr>
               else st\<lparr>mems := (mems st)[i := m]\<rparr>)
      | Event \<Rightarrow>
          let e = (events st ! i)\<lparr>e_refs := e_refs (events st ! i) - 1\<rparr> in
          ([], st\<lparr>events := (events st)[i := if e_refs e = 0 then e\<lparr>e_used := False\<rparr> else e]\<rparr>)
      | Epoll \<Rightarrow>
          let e = (epolls st ! i)\<lparr>ep_refs := ep_refs (epolls st ! i) - 1\<rparr> in
          ([], st\<lparr>epolls := (epolls st)[i := if ep_refs e = 0 then e\<lparr>ep_used := False, ep_items := []\<rparr> else e]\<rparr>)
      | Sock \<Rightarrow>
          let k = (socks st ! i)\<lparr>s_refs := s_refs (socks st ! i) - 1\<rparr> in
          if s_refs k = 0 then
            ([], st\<lparr>world := (case s_tcp k of None \<Rightarrow> world st | Some h \<Rightarrow> x_tcp_close ev h (world st)),
                    socks := (socks st)[i := sock_none]\<rparr>)
          else ([], st\<lparr>socks := (socks st)[i := k]\<rparr>)
      | Unix \<Rightarrow> if i div 2 < length (conns st) then unix_drop_ref (i div 2) (i mod 2) st else ([], st)
      | USock \<Rightarrow>
          let u = (usocks st ! i)\<lparr>u_refs := u_refs (usocks st ! i) - 1\<rparr> in
          ([], st\<lparr>usocks := (usocks st)[i := if u_refs u = 0 then usock_none else u]\<rparr>)
      | Listen \<Rightarrow>
          if i < length (listeners st)
          then (case listener_ref i (- 1) st of (cs, st) \<Rightarrow> (map server_end cs, st)) else ([], st)
      | Shm \<Rightarrow> ([], set_shm (fd_ref i (- 1) (the_shm st)) st)
      | _ \<Rightarrow> ([], st))"

text \<open>What the recursion of \<open>drop_ref\<close> can still reach: descriptors in flight, connections not accepted.\<close>

definition weight :: "('e, 'm) files_st_scheme \<Rightarrow> nat" where
  "weight st = sum_list (map (\<lambda>k. length (in_flight k)) (conns st)) +
     sum_list (map (\<lambda>l. length (l_backlog l)) (listeners st))"

lemma in_flight_simps [simp]:
  "in_flight cempty = []" "in_flight (k\<lparr>c_refs := r\<rparr>) = in_flight k" "l_backlog lempty = []"
  by (simp_all add: in_flight_def cempty_def qempty_def lempty_def)

lemma sum_list_map_update:
  fixes g :: "'a \<Rightarrow> 'b::comm_monoid_add"
  assumes "i < length xs"
  shows "sum_list (map g (xs[i := x])) + g (xs ! i) = sum_list (map g xs) + g x"
  using assms
proof (induction xs arbitrary: i)
  case (Cons y ys)
  show ?case
  proof (cases i)
    case 0
    then show ?thesis by (simp add: ac_simps)
  next
    case (Suc j)
    then have "sum_list (map g (ys[j := x])) + g (ys ! j) = sum_list (map g ys) + g x"
      using Cons by simp
    then show ?thesis using Suc by (simp add: add.assoc)
  qed
qed simp

lemma weight_cong: "conns st' = conns st \<Longrightarrow> listeners st' = listeners st \<Longrightarrow> weight st' = weight st"
  by (simp add: weight_def)

lemma keep_conns [simp]:
  "conns (set_shm s st) = conns st" "listeners (set_shm s st) = listeners st"
  "conns (after_close ev i st) = conns st" "listeners (after_close ev i st) = listeners st"
  "conns (pipe_drop_ref k i st) = conns st" "listeners (pipe_drop_ref k i st) = listeners st"
  by (auto simp: set_shm_def after_close_def pipe_drop_ref_def put_pipe_def Let_def push_wake_def bump_io_seq_def
      split: option.splits)

lemma unix_drop_weight:
  assumes "c < length (conns st)" "unix_drop_ref c e st = (rest, st')"
  shows "length rest + weight st' \<le> weight st"
proof -
  let ?k = "(conns st ! c)\<lparr>c_refs := (c_refs (conns st ! c))[e := c_refs (conns st ! c) ! e - 1]\<rparr>"
  note u = sum_list_map_update [OF assms(1), of "\<lambda>k. length (in_flight k)"]
  have "conns st' = (conns st)[c := cempty] \<and> rest = in_flight (conns st ! c) \<or>
      conns st' = (conns st)[c := ?k] \<and> rest = []" "listeners st' = listeners st"
    using assms by (auto simp: unix_drop_ref_def Let_def split: if_splits)
  then show ?thesis using u [of cempty] u [of ?k] by (auto simp: weight_def)
qed

lemma listener_ref_weight:
  assumes "i < length (listeners st)" "listener_ref i d st = (cs, st')"
  shows "length cs + weight st' \<le> weight st"
proof -
  let ?l = "(listeners st ! i)\<lparr>l_refs := nat (int (l_refs (listeners st ! i)) + d)\<rparr>"
  note u = sum_list_map_update [OF assms(1), of "\<lambda>l. length (l_backlog l)"]
  have "listeners st' = (listeners st)[i := lempty] \<and> cs = l_backlog (listeners st ! i) \<or>
      listeners st' = (listeners st)[i := ?l] \<and> cs = []" "conns st' = conns st"
    using assms by (auto simp: listener_ref_def Let_def split: if_splits)
  then show ?thesis using u [of lempty] u [of ?l] by (auto simp: weight_def)
qed

lemma drop_one_simple:
  assumes "f_kind f \<notin> {Unix, Listen}"
  shows "fst (drop_one ev f st) = []" "conns (snd (drop_one ev f st)) = conns st"
    "listeners (snd (drop_one ev f st)) = listeners st"
  using assms by (simp_all add: drop_one_def Let_def split: kind.split)

lemma drop_one_unix:
  assumes "f_kind f = Unix"
  shows "drop_one ev f st = (if f_ino f div 2 < length (conns st)
    then unix_drop_ref (f_ino f div 2) (f_ino f mod 2) st else ([], st))"
  using assms by (simp add: drop_one_def Let_def)

lemma drop_one_listen:
  assumes "f_kind f = Listen"
  shows "drop_one ev f st = (if f_ino f < length (listeners st)
    then (case listener_ref (f_ino f) (- 1) st of (cs, st) \<Rightarrow> (map server_end cs, st)) else ([], st))"
  using assms by (simp add: drop_one_def)

lemma drop_one_weight:
  assumes "drop_one ev f st = (rest, st')"
  shows "length rest + weight st' \<le> weight st"
proof -
  consider "f_kind f \<notin> {Unix, Listen}" | "f_kind f = Unix" | "f_kind f = Listen" by blast
  then show ?thesis
  proof cases
    case 1
    then have "weight st' = weight st" "rest = []"
      using assms drop_one_simple [OF 1, of ev st] by (auto intro: weight_cong)
    then show ?thesis by simp
  next
    case 2
    then show ?thesis using assms unix_drop_weight by (fastforce simp: drop_one_unix split: if_splits)
  next
    case 3
    then show ?thesis
      using assms listener_ref_weight by (fastforce simp: drop_one_listen split: if_splits prod.splits)
  qed
qed

function drop_refs :: "'e env \<Rightarrow> open_file list \<Rightarrow> ('e, 'm) files_st_scheme \<Rightarrow> ('e, 'm) files_st_scheme" where
  "drop_refs ev [] st = st"
| "drop_refs ev (f # fs) st = (case drop_one ev f st of (rest, st) \<Rightarrow> drop_refs ev (rest @ fs) st)"
  by pat_completeness auto
termination
  by (relation "measure (\<lambda>(ev, fs, st). length fs + weight st)")
    (auto dest!: drop_one_weight [OF sym] simp: less_Suc_eq_le)

section \<open>The tables\<close>

text \<open>\<open>get\<close>: the descriptor number is an \<open>int\<close>, only its low 32 bits count.\<close>

definition get_fd :: "nat \<Rightarrow> nat \<Rightarrow> ('e, 'm) files_st_scheme \<Rightarrow> errno + open_file" where
  "get_fd l fd st =
     (let i = fd mod 2 ^ 32 in
      if i < length (tabs st l)
      then (if f_kind (tabs st l ! i) = Free then Inl EBADF else Inr (tabs st l ! i))
      else Inl EBADF)"

definition install :: "nat \<Rightarrow> open_file \<Rightarrow> nat \<Rightarrow> ('e, 'm) files_st_scheme \<Rightarrow>
    (errno + nat) \<times> ('e, 'm) files_st_scheme" where
  "install l f from st =
     (case List.find (\<lambda>i. f_kind (tabs st l ! i) = Free) [from..<MAX_FDS] of
        None \<Rightarrow> (Inl EMFILE, st)
      | Some i \<Rightarrow> (Inr i, put_fd l i f st))"

text \<open>\<open>install(..).inspect_err(|_| drop_ref(f))\<close>\<close>

definition install_or_drop :: "'e env \<Rightarrow> nat \<Rightarrow> open_file \<Rightarrow> ('e, 'm) files_st_scheme \<Rightarrow>
    (errno + nat) \<times> ('e, 'm) files_st_scheme" where
  "install_or_drop ev l f st =
     (case install l f 0 st of (Inl e, st) \<Rightarrow> (Inl e, drop_refs ev [f] st) | (Inr i, st) \<Rightarrow> (Inr i, st))"

definition release_files :: "'e env \<Rightarrow> nat \<Rightarrow> ('e, 'm) files_st_scheme \<Rightarrow> ('e, 'm) files_st_scheme" where
  "release_files ev l st =
     drop_refs ev (tabs st l) (st\<lparr>tabs := (tabs st)(l := DEFAULT_TABLE), cwds := (cwds st)(l := ROOT_INO)\<rparr>)"

definition clone_table :: "nat \<Rightarrow> nat \<Rightarrow> ('e, 'm) files_st_scheme \<Rightarrow> ('e, 'm) files_st_scheme" where
  "clone_table src dst st =
     (let t = tabs st src; st = fold add_ref t st in st\<lparr>tabs := (tabs st)(dst := t)\<rparr>)"

definition close_on_exec :: "'e env \<Rightarrow> nat \<Rightarrow> nat \<Rightarrow> ('e, 'm) files_st_scheme \<Rightarrow> ('e, 'm) files_st_scheme" where
  "close_on_exec ev l i st =
     (let f = tabs st l ! i in
      if f_kind f \<noteq> Free \<and> f_cloexec f then drop_refs ev [f] (put_fd l i FREE_FILE st) else st)"

definition exec_cleanup :: "'e env \<Rightarrow> nat \<Rightarrow> ('e, 'm) files_st_scheme \<Rightarrow> ('e, 'm) files_st_scheme" where
  "exec_cleanup ev l st = fold (close_on_exec ev l) [0..<MAX_FDS] st"

definition close :: "'e env \<Rightarrow> nat \<Rightarrow> nat \<Rightarrow> ('e, 'm) files_st_scheme \<Rightarrow> (errno + nat) \<times> ('e, 'm) files_st_scheme" where
  "close ev l fd st =
     (case get_fd l fd st of
        Inl e \<Rightarrow> (Inl e, st)
      | Inr f \<Rightarrow> (Inr 0, drop_refs ev [f] (put_fd l (fd mod 2 ^ 32) FREE_FILE st)))"

definition dup_ex :: "'e env \<Rightarrow> nat \<Rightarrow> nat \<Rightarrow> nat \<Rightarrow> bool \<Rightarrow> ('e, 'm) files_st_scheme \<Rightarrow>
    (errno + nat) \<times> ('e, 'm) files_st_scheme" where
  "dup_ex ev l fd newfd cloexec st =
     (case get_fd l fd st of
        Inl e \<Rightarrow> (Inl e, st)
      | Inr f \<Rightarrow>
          let f = f\<lparr>f_cloexec := cloexec\<rparr> in
          if newfd = u64_max \<or> newfd \<ge> 2 ^ 32 then
            let from = (if newfd = u64_max then 0 else newfd div 2 ^ 32) in
            (case install l f from st of (Inl e, st) \<Rightarrow> (Inl e, st) | (Inr r, st) \<Rightarrow> (Inr r, add_ref f st))
          else if newfd \<ge> MAX_FDS then (Inl EBADF, st)
          else if newfd = fd then (Inr fd, st)
          else
            let old = tabs st l ! newfd
            in (Inr newfd, drop_refs ev [old] (add_ref f (put_fd l newfd f st))))"

definition dup :: "'e env \<Rightarrow> nat \<Rightarrow> nat \<Rightarrow> nat \<Rightarrow> ('e, 'm) files_st_scheme \<Rightarrow>
    (errno + nat) \<times> ('e, 'm) files_st_scheme" where
  "dup ev l fd newfd st = dup_ex ev l fd newfd False st"

section \<open>New objects\<close>

definition pipe_fds :: "'e env \<Rightarrow> nat \<Rightarrow> u32 \<Rightarrow> ('e, 'm) files_st_scheme \<Rightarrow>
    (errno + nat \<times> nat) \<times> ('e, 'm) files_st_scheme" where
  "pipe_fds ev l flags st =
     and_then (pipe_new st) (\<lambda>i st.
       let fl = flags AND O_NONBLOCK; cl = (flags AND O_CLOEXEC \<noteq> 0) in
       case install l \<lparr>f_kind = PipeR, f_ino = i, f_flags = fl, f_cloexec = cl, f_off = 0\<rparr> 0 st of
         (Inl e, st) \<Rightarrow>
           let p = pipes st ! i in
           (Inl e, put_pipe i (p\<lparr>p_readers := 0, p_writers := 0, p_buf := 0\<rparr>)
              (st\<lparr>kfa := free_contig (p_buf p) PIPE_PAGES (kfa st)\<rparr>))
       | (Inr r, st) \<Rightarrow>
           (case install l \<lparr>f_kind = PipeW, f_ino = i, f_flags = fl OR O_WRONLY, f_cloexec = cl, f_off = 0\<rparr> 0 st of
              (Inr w, st) \<Rightarrow> (Inr (r, w), st)
            | (Inl e, st) \<Rightarrow>
                let f = tabs st l ! r; st = put_fd l r FREE_FILE st;
                    st = put_pipe i ((pipes st ! i)\<lparr>p_writers := 0\<rparr>) st
                in (Inl e, drop_refs ev [f] st)))"

definition eventfd :: "'e env \<Rightarrow> nat \<Rightarrow> nat \<Rightarrow> u32 \<Rightarrow> ('e, 'm) files_st_scheme \<Rightarrow>
    (errno + nat) \<times> ('e, 'm) files_st_scheme" where
  "eventfd ev l val flags st =
     (case position (\<lambda>e. \<not> e_used e) (events st) of
        None \<Rightarrow> (Inl ENFILE, st)
      | Some i \<Rightarrow>
          install_or_drop ev l
            \<lparr>f_kind = Event, f_ino = i, f_flags = O_RDWR OR (flags AND O_NONBLOCK),
               f_cloexec = (flags AND O_CLOEXEC \<noteq> 0), f_off = 0\<rparr>
            (st\<lparr>events := (events st)[i := \<lparr>e_used = True, e_refs = 1, e_count = val, e_sem = (flags AND 1 \<noteq> 0)\<rparr>]\<rparr>))"

definition epoll_create :: "'e env \<Rightarrow> nat \<Rightarrow> u32 \<Rightarrow> ('e, 'm) files_st_scheme \<Rightarrow>
    (errno + nat) \<times> ('e, 'm) files_st_scheme" where
  "epoll_create ev l flags st =
     (case position (\<lambda>e. \<not> ep_used e) (epolls st) of
        None \<Rightarrow> (Inl ENFILE, st)
      | Some i \<Rightarrow>
          install_or_drop ev l
            \<lparr>f_kind = Epoll, f_ino = i, f_flags = O_RDWR, f_cloexec = (flags AND O_CLOEXEC \<noteq> 0), f_off = 0\<rparr>
            (st\<lparr>epolls := (epolls st)[i := \<lparr>ep_used = True, ep_refs = 1, ep_items = []\<rparr>]\<rparr>))"

definition install_shm :: "'e env \<Rightarrow> nat \<Rightarrow> nat \<Rightarrow> u32 \<Rightarrow> ('e, 'm) files_st_scheme \<Rightarrow>
    (errno + nat) \<times> ('e, 'm) files_st_scheme" where
  "install_shm ev l oid flags st =
     install_or_drop ev l
       \<lparr>f_kind = Shm, f_ino = oid, f_flags = flags AND (O_ACCMODE OR O_NONBLOCK),
          f_cloexec = (flags AND O_CLOEXEC \<noteq> 0), f_off = 0\<rparr> st"

definition memfd :: "'e env \<Rightarrow> nat \<Rightarrow> bool \<Rightarrow> ('e, 'm) files_st_scheme \<Rightarrow>
    (errno + nat) \<times> ('e, 'm) files_st_scheme" where
  "memfd ev l cloexec st =
     (case create None (the_shm st) of
        None \<Rightarrow> (Inl ENFILE, st)
      | Some (oid, s) \<Rightarrow> install_shm ev l oid (O_RDWR OR (if cloexec then O_CLOEXEC else 0)) (set_shm s st))"

end
