(* ===== verification/Sockets.thy ===== *)
theory Sockets
  imports Files
begin

text \<open>
  Socket system calls (\<open>kernel/src/file.rs\<close>): sockets of the network (TCP and UDP over \<open>net.rs\<close>, a
  parameter) and local sockets, from the unconnected socket to the two ends of a connection, with
  descriptors sent along (\<open>SCM_RIGHTS\<close>). \<open>cpu\<close> is the CPU whose \<open>BLOCK_ON\<close> records a wait.
\<close>

definition SOCK_KEY :: u64 where "SOCK_KEY = 0x534F434B"
definition NET_SLICE_MS :: nat where "NET_SLICE_MS = 10"

type_synonym addr = "u8 list \<times> nat"

datatype sock_addr = Inet addr | Path_addr "u8 list" | Abstract_addr "u8 list" nat

definition put_sock :: "nat \<Rightarrow> sock \<Rightarrow> ('e, 'm) files_st_scheme \<Rightarrow> ('e, 'm) files_st_scheme" where
  "put_sock i k st = st\<lparr>socks := (socks st)[i := k]\<rparr>"

definition net_block :: "nat \<Rightarrow> u32 \<Rightarrow> ('e, 'm) files_st_scheme \<Rightarrow> (errno + 'r) \<times> ('e, 'm) files_st_scheme" where
  "net_block cpu fl st =
     (if nonblock fl then (Inl EAGAIN, st)
      else (case would_block_for cpu SOCK_KEY NET_SLICE_MS st of (e, st) \<Rightarrow> (Inl e, st)))"

section \<open>Network sockets\<close>

definition sock_progress :: "'e env \<Rightarrow> nat \<Rightarrow> ('e, 'm) files_st_scheme \<Rightarrow> ('e, 'm) files_st_scheme" where
  "sock_progress ev i st =
     (let k = socks st ! i in
      if s_state k \<noteq> Connecting then st
      else case s_tcp k of
          None \<Rightarrow> st
        | Some h \<Rightarrow>
            (case on_world (x_tcp_status ev h) st of
               (n, st) \<Rightarrow>
                 if n = 0 then st
                 else if n = 1 \<or> n = 2 then put_sock i (k\<lparr>s_state := Connected\<rparr>) st
                 else put_sock i (k\<lparr>s_state := Failed, s_err := ECONNREFUSED\<rparr>) st))"

text \<open>A socket with no local port yet gets one.\<close>

definition need_port :: "'e env \<Rightarrow> nat \<Rightarrow> ('e, 'm) files_st_scheme \<Rightarrow> ('e, 'm) files_st_scheme" where
  "need_port ev i st =
     (if s_lport (socks st ! i) = 0
      then (case on_world (x_port ev) st of (p, st) \<Rightarrow> put_sock i ((socks st ! i)\<lparr>s_lport := p\<rparr>) st)
      else st)"

definition sock_send :: "'e env \<Rightarrow> nat \<Rightarrow> u32 \<Rightarrow> nat \<Rightarrow> u8 list \<Rightarrow> addr option \<Rightarrow> ('e, 'm) files_st_scheme \<Rightarrow>
    (errno + nat) \<times> ('e, 'm) files_st_scheme" where
  "sock_send ev cpu fl i bs target st =
     (let k = socks st ! i in
      if s_udp k then
        (case (case target of Some a \<Rightarrow> Some a
               | None \<Rightarrow> if s_rport k \<noteq> 0 then Some (s_rip k, s_rport k) else None) of
           None \<Rightarrow> (Inl EDESTADDRREQ, st)
         | Some (ip, port) \<Rightarrow>
             if length bs > 1472 then (Inl EMSGSIZE, st)
             else
               let st = need_port ev i st in
               case on_world (x_udp_send ev ip port (s_lport (socks st ! i)) bs) st of
                 (ok, st) \<Rightarrow> if ok then (Inr (length bs), st) else (Inl EAGAIN, st))
      else
        let st = sock_progress ev i st; k = socks st ! i in
        case (s_state k, s_tcp k) of
          (Connected, Some h) \<Rightarrow>
            (case on_world (x_tcp_send ev h bs) st of
               (n, st) \<Rightarrow>
                 if n > 0 then (Inr (nat n), st)
                 else if n = 0 \<and> bs = [] then (Inr 0, st)
                 else if n = 0 then net_block cpu fl st
                 else (Inl EPIPE, st))
        | (Connecting, _) \<Rightarrow> net_block cpu fl st
        | _ \<Rightarrow> (Inl ENOTCONN, st))"

definition sock_recv :: "'e env \<Rightarrow> nat \<Rightarrow> u32 \<Rightarrow> nat \<Rightarrow> nat \<Rightarrow> ('e, 'm) files_st_scheme \<Rightarrow>
    (errno + u8 list \<times> addr) \<times> ('e, 'm) files_st_scheme" where
  "sock_recv ev cpu fl i len st =
     (let k = socks st ! i in
      if s_udp k then
        if s_lport k = 0 then (Inl EAGAIN, st)
        else (case on_world (x_udp_recv ev (s_lport k) len) st of
                (Some (ip, port, bs), st) \<Rightarrow> (Inr (bs, ip, port), st)
              | (None, st) \<Rightarrow> net_block cpu fl st)
      else
        let st = sock_progress ev i st; k = socks st ! i in
        case (s_state k, s_tcp k) of
          (Connected, Some h) \<Rightarrow>
            (case on_world (x_tcp_recv ev h len) st of
               ((n, bs), st) \<Rightarrow>
                 if n \<ge> 0 then (Inr (bs, s_rip k, s_rport k), st)
                 else if n = - 2 then net_block cpu fl st
                 else (Inl ECONNRESET, st))
        | (Connecting, _) \<Rightarrow> net_block cpu fl st
        | _ \<Rightarrow> (Inl ENOTCONN, st))"

definition socket :: "'e env \<Rightarrow> nat \<Rightarrow> nat \<Rightarrow> nat \<Rightarrow> ('e, 'm) files_st_scheme \<Rightarrow>
    (errno + nat) \<times> ('e, 'm) files_st_scheme" where
  "socket ev l domain ty st =
     (let base = ty mod 16; fl = word_of_nat ty;
          mk = (\<lambda>k i. \<lparr>f_kind = k, f_ino = i, f_flags = O_RDWR OR (fl AND O_NONBLOCK),
                       f_cloexec = (fl AND O_CLOEXEC \<noteq> 0), f_off = 0\<rparr>) in
      if domain = 1 then
        if base \<noteq> 1 \<and> base \<noteq> 5 then (Inl (if base = 2 then EOPNOTSUPP else EINVAL), st)
        else (case position (\<lambda>u. \<not> u_used u) (usocks st) of
                None \<Rightarrow> (Inl ENFILE, st)
              | Some i \<Rightarrow>
                  install_or_drop ev l (mk USock i)
                    (st\<lparr>usocks := (usocks st)[i := \<lparr>u_used = True, u_refs = 1, u_packet = (base = 5), u_key = No_key\<rparr>]\<rparr>))
      else if domain \<noteq> 2 then (Inl EAFNOSUPPORT, st)
      else if base \<noteq> 1 \<and> base \<noteq> 2 then (Inl EINVAL, st)
      else (case position (\<lambda>k. \<not> s_used k) (socks st) of
              None \<Rightarrow> (Inl ENFILE, st)
            | Some i \<Rightarrow>
                install_or_drop ev l (mk Sock i)
                  (put_sock i (sock_none\<lparr>s_used := True, s_refs := 1, s_udp := (base = 2)\<rparr>) st)))"

section \<open>Local sockets\<close>

definition unix_end :: "nat \<Rightarrow> nat \<Rightarrow> u32 \<Rightarrow> bool \<Rightarrow> open_file" where
  "unix_end c e fl cl = \<lparr>f_kind = Unix, f_ino = c * 2 + e, f_flags = O_RDWR OR (fl AND O_NONBLOCK),
     f_cloexec = cl, f_off = 0\<rparr>"

definition socketpair :: "'e env \<Rightarrow> nat \<Rightarrow> nat \<Rightarrow> nat \<Rightarrow> ('e, 'm) files_st_scheme \<Rightarrow>
    (errno + nat \<times> nat) \<times> ('e, 'm) files_st_scheme" where
  "socketpair ev l domain ty st =
     (let base = ty mod 16; fl = word_of_nat ty; cl = (fl AND O_CLOEXEC \<noteq> 0) in
      if domain \<noteq> 1 then (Inl EAFNOSUPPORT, st)
      else if base \<notin> {1, 2, 5} then (Inl EINVAL, st)
      else and_then (conn_new (base \<noteq> 1) st) (\<lambda>c st.
        let both = [unix_end c 0 fl cl, unix_end c 1 fl cl] in
        case install l (unix_end c 0 fl cl) 0 st of
          (Inl e, st) \<Rightarrow> (Inl e, drop_refs ev both st)
        | (Inr a, st) \<Rightarrow>
            (case install l (unix_end c 1 fl cl) 0 st of
               (Inl e, st) \<Rightarrow> (Inl e, drop_refs ev both (put_fd l a FREE_FILE st))
             | (Inr b, st) \<Rightarrow> (Inr (a, b), st))))"

definition unix_key :: "'e env \<Rightarrow> nat \<Rightarrow> sock_addr \<Rightarrow> bool \<Rightarrow> ('e, 'm) files_st_scheme \<Rightarrow>
    (errno + skey) \<times> ('e, 'm) files_st_scheme" where
  "unix_key ev l a making st =
     (case a of
        Inet _ \<Rightarrow> (Inl EINVAL, st)
      | Abstract_addr n len \<Rightarrow> (Inr (Abstract n len), st)
      | Path_addr path \<Rightarrow>
          let at = cwds st l in
          if making then
            (case on_world (x_mknod ev at path 493) st of
               (Inr ino, st) \<Rightarrow> (Inr (Ino ino), st\<lparr>world := x_legacy ev (world st)\<rparr>)
             | (Inl err, st) \<Rightarrow>
                 if err \<noteq> EEXIST then (Inl err, st)
                 else and_then (on_world (x_resolve ev at path True) st) (\<lambda>ino st.
                      and_then (on_world (x_inode ev ino) st) (\<lambda>(k, _) st.
                        if k = Socket \<and> \<not> is_bound (Ino ino) st then (Inr (Ino ino), st)
                        else (Inl EADDRINUSE, st))))
          else and_then (on_world (x_resolve ev at path True) st) (\<lambda>ino st.
               and_then (on_world (x_inode ev ino) st) (\<lambda>(k, _) st.
                 if k \<noteq> Socket then (Inl ECONNREFUSED, st) else (Inr (Ino ino), st))))"

definition listener_key :: "nat \<Rightarrow> 'a unix_st_scheme \<Rightarrow> skey" where
  "listener_key i st = l_key (listeners st ! i)"

definition accept :: "'e env \<Rightarrow> nat \<Rightarrow> nat \<Rightarrow> nat \<Rightarrow> u32 \<Rightarrow> ('e, 'm) files_st_scheme \<Rightarrow>
    (errno + nat \<times> nat option) \<times> ('e, 'm) files_st_scheme" where
  "accept ev cpu l fd flags st =
     (case get_fd l fd st of
        Inl e \<Rightarrow> (Inl e, st)
      | Inr f \<Rightarrow>
          if f_kind f \<noteq> Listen then (Inl EINVAL, st)
          else and_then (unix_accept cpu (f_ino f) (nonblock (f_flags f)) st) (\<lambda>c st.
            let nf = unix_end c 1 flags (flags AND O_CLOEXEC \<noteq> 0);
                peer = (case listener_key (f_ino f) st of Port _ \<Rightarrow> Some (snd (ports c 1 st)) | _ \<Rightarrow> None)
            in case install_or_drop ev l nf st of
                 (Inl e, st) \<Rightarrow> (Inl e, st)
               | (Inr n, st) \<Rightarrow> (Inr (n, peer), st)))"

text \<open>\<open>unix_read\<close> of this file: a plain read closes the descriptors that came along.\<close>

definition unix_read_fd :: "'e env \<Rightarrow> nat \<Rightarrow> open_file \<Rightarrow> nat \<Rightarrow> bool \<Rightarrow> ('e, 'm) files_st_scheme \<Rightarrow>
    (errno + u8 list) \<times> ('e, 'm) files_st_scheme" where
  "unix_read_fd ev cpu f len nb st =
     and_then (unix_read cpu (f_ino f div 2) (f_ino f mod 2) len (nb \<or> nonblock (f_flags f)) st)
       (\<lambda>(bs, trunc, fds) st. (Inr bs, drop_refs ev fds st))"

text \<open>\<open>sendmsg\<close>: the descriptors to send are looked up, counted, and dropped again on an error.\<close>

fun get_all :: "nat \<Rightarrow> nat list \<Rightarrow> ('e, 'm) files_st_scheme \<Rightarrow> errno + open_file list" where
  "get_all l [] st = Inr []"
| "get_all l (d # ds) st =
     (case get_fd l d st of
        Inl e \<Rightarrow> Inl e
      | Inr x \<Rightarrow> (case get_all l ds st of Inl e \<Rightarrow> Inl e | Inr xs \<Rightarrow> Inr (x\<lparr>f_cloexec := False\<rparr> # xs)))"

definition unix_send :: "'e env \<Rightarrow> nat \<Rightarrow> nat \<Rightarrow> nat \<Rightarrow> u8 list \<Rightarrow> nat list \<Rightarrow> bool \<Rightarrow> ('e, 'm) files_st_scheme \<Rightarrow>
    (errno + nat) \<times> ('e, 'm) files_st_scheme" where
  "unix_send ev cpu l fd bs ds nb st =
     (case get_fd l fd st of
        Inl e \<Rightarrow> (Inl e, st)
      | Inr f \<Rightarrow>
          if f_kind f \<noteq> Unix then (Inl ENOTSOCK, st)
          else if length ds > MAX_SENT then (Inl EINVAL, st)
          else case get_all l ds st of
              Inl e \<Rightarrow> (Inl e, st)
            | Inr files \<Rightarrow>
                (case unix_write cpu (f_ino f div 2) (f_ino f mod 2) bs (nb \<or> nonblock (f_flags f)) files
                        (fold add_ref files st) of
                   (Inl e, st) \<Rightarrow> (Inl e, drop_refs ev files st)
                 | (Inr n, st) \<Rightarrow> (Inr n, st)))"

text \<open>\<open>recvmsg\<close>: the descriptors received are installed while there is room, the others closed.\<close>

fun take_in :: "'e env \<Rightarrow> nat \<Rightarrow> bool \<Rightarrow> nat \<Rightarrow> open_file list \<Rightarrow> nat list \<Rightarrow> ('e, 'm) files_st_scheme \<Rightarrow>
    nat list \<times> ('e, 'm) files_st_scheme" where
  "take_in ev l cl room [] out st = (out, st)"
| "take_in ev l cl room (x # xs) out st =
     (case (if length out < room then install l (x\<lparr>f_cloexec := cl\<rparr>) 0 st else (Inl EMFILE, st)) of
        (Inr nfd, st) \<Rightarrow> take_in ev l cl room xs (out @ [nfd]) st
      | (Inl _, st) \<Rightarrow> take_in ev l cl room xs out (drop_refs ev [x] st))"

definition unix_recv :: "'e env \<Rightarrow> nat \<Rightarrow> nat \<Rightarrow> nat \<Rightarrow> nat \<Rightarrow> bool \<Rightarrow> bool \<Rightarrow> nat \<Rightarrow> ('e, 'm) files_st_scheme \<Rightarrow>
    (errno + u8 list \<times> nat list \<times> bool) \<times> ('e, 'm) files_st_scheme" where
  "unix_recv ev cpu l fd len nb cl room st =
     (case get_fd l fd st of
        Inl e \<Rightarrow> (Inl e, st)
      | Inr f \<Rightarrow>
          if f_kind f \<noteq> Unix then (Inl ENOTSOCK, st)
          else and_then (unix_read cpu (f_ino f div 2) (f_ino f mod 2) len (nb \<or> nonblock (f_flags f)) st)
            (\<lambda>(bs, trunc, fds) st. case take_in ev l cl room fds [] st of (out, st) \<Rightarrow> (Inr (bs, out, trunc), st)))"

definition shutdown :: "nat \<Rightarrow> nat \<Rightarrow> nat \<Rightarrow> ('e, 'm) files_st_scheme \<Rightarrow> (errno + nat) \<times> ('e, 'm) files_st_scheme" where
  "shutdown l fd how st =
     (case get_fd l fd st of
        Inl e \<Rightarrow> (Inl e, st)
      | Inr f \<Rightarrow>
          if f_kind f = Unix then (Inr 0, unix_shutdown (f_ino f div 2) (f_ino f mod 2) how st)
          else if f_kind f \<in> {Sock, USock, Listen} then (Inr 0, st)
          else (Inl ENOTSOCK, st))"

section \<open>Addresses\<close>

definition bind :: "'e env \<Rightarrow> nat \<Rightarrow> nat \<Rightarrow> sock_addr \<Rightarrow> ('e, 'm) files_st_scheme \<Rightarrow>
    (errno + nat) \<times> ('e, 'm) files_st_scheme" where
  "bind ev l fd sa st =
     (case get_fd l fd st of
        Inl e \<Rightarrow> (Inl e, st)
      | Inr f \<Rightarrow>
          let i = f_ino f in
          if f_kind f = USock then
            if u_key (usocks st ! i) \<noteq> No_key then (Inl EINVAL, st)
            else and_then (unix_key ev l sa True st) (\<lambda>key st.
              (Inr 0, st\<lparr>usocks := (usocks st)[i := (usocks st ! i)\<lparr>u_key := key\<rparr>]\<rparr>))
          else case sa of
              Inet (ip, port) \<Rightarrow>
                if f_kind f \<noteq> Sock then (Inl ENOTSOCK, st)
                else if port \<noteq> 0 then (Inr 0, put_sock i ((socks st ! i)\<lparr>s_lport := port\<rparr>) st)
                else (case on_world (x_port ev) st of
                        (p, st) \<Rightarrow> (Inr 0, put_sock i ((socks st ! i)\<lparr>s_lport := p\<rparr>) st))
            | _ \<Rightarrow> (Inl EINVAL, st))"

text \<open>The descriptor of a connected local socket takes the place of the unconnected one.\<close>

definition become :: "'e env \<Rightarrow> nat \<Rightarrow> nat \<Rightarrow> open_file \<Rightarrow> kind \<Rightarrow> nat \<Rightarrow> ('e, 'm) files_st_scheme \<Rightarrow>
    ('e, 'm) files_st_scheme" where
  "become ev l fd f k i st =
     drop_refs ev [f] (put_fd l (fd mod 2 ^ 32) (f\<lparr>f_kind := k, f_ino := i\<rparr>) st)"

definition tcp_connect :: "'e env \<Rightarrow> nat \<Rightarrow> u32 \<Rightarrow> nat \<Rightarrow> addr \<Rightarrow> ('e, 'm) files_st_scheme \<Rightarrow>
    (errno + nat) \<times> ('e, 'm) files_st_scheme" where
  "tcp_connect ev cpu fl i a st =
     (let k = socks st ! i in
      and_then
        (case s_state k of
           Connected \<Rightarrow> (Inl EISCONN, st)
         | Failed \<Rightarrow> (Inl (if s_err k \<noteq> 0 then s_err k else ECONNREFUSED), st)
         | Connecting \<Rightarrow> if nonblock fl then (Inl EALREADY, st) else (Inr (), st)
         | Fresh \<Rightarrow>
             (case on_world (x_tcp_connect ev (fst a) (snd a)) st of
                (None, st) \<Rightarrow> (Inl ENFILE, st)
              | (Some h, st) \<Rightarrow>
                  let st = put_sock i (k\<lparr>s_tcp := Some h, s_rip := fst a, s_rport := snd a, s_state := Connecting\<rparr>) st
                  in if nonblock fl then (Inl EINPROGRESS, st) else (Inr (), st)))
        (\<lambda>_ st.
           let st = sock_progress ev i st; k = socks st ! i in
           case s_state k of
             Connected \<Rightarrow> (Inr 0, st)
           | Failed \<Rightarrow> (Inl (s_err k), st)
           | _ \<Rightarrow> (case would_block_for cpu SOCK_KEY NET_SLICE_MS st of (e, st) \<Rightarrow> (Inl e, st))))"

definition connect :: "'e env \<Rightarrow> nat \<Rightarrow> nat \<Rightarrow> nat \<Rightarrow> sock_addr \<Rightarrow> ('e, 'm) files_st_scheme \<Rightarrow>
    (errno + nat) \<times> ('e, 'm) files_st_scheme" where
  "connect ev cpu l fd sa st =
     (case get_fd l fd st of
        Inl e \<Rightarrow> (Inl e, st)
      | Inr f \<Rightarrow>
          if f_kind f = USock then
            let u = usocks st ! f_ino f in
            and_then (unix_key ev l sa False st) (\<lambda>key st.
            and_then (unix_connect key (u_packet u) st) (\<lambda>c st. (Inr 0, become ev l fd f Unix (c * 2) st)))
          else case sa of
              Inet a \<Rightarrow>
                if hd (fst a) = 127 \<and> f_kind f = Sock \<and> \<not> s_udp (socks st ! f_ino f) then
                  and_then (unix_connect (Port (snd a)) False st) (\<lambda>c st.
                    case on_world (x_port ev) st of
                      (lport, st) \<Rightarrow> (Inr 0, become ev l fd f Unix (c * 2) (set_ports c lport (snd a) st)))
                else if f_kind f \<noteq> Sock then (Inl ENOTSOCK, st)
                else if s_udp (socks st ! f_ino f) then
                  let i = f_ino f;
                      st = put_sock i ((socks st ! i)\<lparr>s_rip := fst a, s_rport := snd a\<rparr>) st;
                      st = need_port ev i st
                  in (Inr 0, put_sock i ((socks st ! i)\<lparr>s_state := Connected\<rparr>) st)
                else tcp_connect ev cpu (f_flags f) (f_ino f) a st
            | _ \<Rightarrow> (Inl EINVAL, st))"

definition listen :: "'e env \<Rightarrow> nat \<Rightarrow> nat \<Rightarrow> ('e, 'm) files_st_scheme \<Rightarrow> (errno + nat) \<times> ('e, 'm) files_st_scheme" where
  "listen ev l fd st =
     (case get_fd l fd st of
        Inl e \<Rightarrow> (Inl e, st)
      | Inr f \<Rightarrow>
          let i = f_ino f in
          if f_kind f = Listen then (Inr 0, st)
          else and_then
            (if f_kind f = USock then
               let u = usocks st ! i in
               if u_key u = No_key then (Inl EINVAL, st) else unix_listen (u_key u) (u_packet u) st
             else if f_kind f = Sock \<and> \<not> s_udp (socks st ! i) then
               let st = need_port ev i st in unix_listen (Port (s_lport (socks st ! i))) False st
             else (Inl EOPNOTSUPP, st))
            (\<lambda>li st. (Inr 0, become ev l fd f Listen li st)))"

definition sendto :: "'e env \<Rightarrow> nat \<Rightarrow> nat \<Rightarrow> nat \<Rightarrow> u8 list \<Rightarrow> addr option \<Rightarrow> ('e, 'm) files_st_scheme \<Rightarrow>
    (errno + nat) \<times> ('e, 'm) files_st_scheme" where
  "sendto ev cpu l fd bs target st =
     (case get_fd l fd st of
        Inl e \<Rightarrow> (Inl e, st)
      | Inr f \<Rightarrow>
          if f_kind f = Sock then sock_send ev cpu (f_flags f) (f_ino f) bs target st
          else if f_kind f = Unix then
            unix_write cpu (f_ino f div 2) (f_ino f mod 2) bs (nonblock (f_flags f)) [] st
          else (Inl ENOTSOCK, st))"

definition recvfrom :: "'e env \<Rightarrow> nat \<Rightarrow> nat \<Rightarrow> nat \<Rightarrow> nat \<Rightarrow> bool \<Rightarrow> ('e, 'm) files_st_scheme \<Rightarrow>
    (errno + u8 list \<times> addr option) \<times> ('e, 'm) files_st_scheme" where
  "recvfrom ev cpu l fd len nb st =
     (case get_fd l fd st of
        Inl e \<Rightarrow> (Inl e, st)
      | Inr f \<Rightarrow>
          if f_kind f = Sock then
            and_then (sock_recv ev cpu (f_flags f OR (if nb then O_NONBLOCK else 0)) (f_ino f) len st)
              (\<lambda>(bs, a) st. (Inr (bs, Some a), st))
          else if f_kind f = Unix then
            and_then (unix_read_fd ev cpu f len nb st) (\<lambda>bs st.
              let p = ports (f_ino f div 2) (f_ino f mod 2) st in
              (Inr (bs, if fst p \<noteq> 0 then Some ([127, 0, 0, 1], snd p) else None), st))
          else (Inl ENOTSOCK, st))"

definition sock_names :: "'e env \<Rightarrow> nat \<Rightarrow> nat \<Rightarrow> u8 list \<Rightarrow> ('e, 'm) files_st_scheme \<Rightarrow> errno + addr \<times> addr" where
  "sock_names ev l fd our_ip st =
     (case get_fd l fd st of
        Inl e \<Rightarrow> Inl e
      | Inr f \<Rightarrow>
          let lo = [127, 0, 0, 1]; i = f_ino f in
          (case f_kind f of
             Unix \<Rightarrow> (case ports (i div 2) (i mod 2) st of
                        (local, remote) \<Rightarrow> if local = 0 then Inl 1 else Inr ((lo, local), (lo, remote)))
           | Listen \<Rightarrow> (case listener_key i st of Port p \<Rightarrow> Inr ((lo, p), ([0, 0, 0, 0], 0)) | _ \<Rightarrow> Inl 1)
           | USock \<Rightarrow> Inl 1
           | Sock \<Rightarrow>
               let k = socks st ! i in
               Inr ((our_ip, case s_tcp k of Some h \<Rightarrow> x_tcp_lport ev h (world st) | None \<Rightarrow> s_lport k),
                    (s_rip k, s_rport k))
           | _ \<Rightarrow> Inl ENOTSOCK))"

definition sock_error :: "'e env \<Rightarrow> nat \<Rightarrow> nat \<Rightarrow> ('e, 'm) files_st_scheme \<Rightarrow>
    (errno + errno) \<times> ('e, 'm) files_st_scheme" where
  "sock_error ev l fd st =
     (case get_fd l fd st of
        Inl e \<Rightarrow> (Inl e, st)
      | Inr f \<Rightarrow>
          if f_kind f \<noteq> Sock then (Inl ENOTSOCK, st)
          else
            let st = sock_progress ev (f_ino f) st; k = socks st ! f_ino f in
            if s_state k = Failed then (Inr (s_err k), put_sock (f_ino f) (k\<lparr>s_err := 0\<rparr>) st) else (Inr 0, st))"

definition is_socket :: "nat \<Rightarrow> nat \<Rightarrow> ('e, 'm) files_st_scheme \<Rightarrow> errno + bool" where
  "is_socket l fd st =
     (case get_fd l fd st of Inl e \<Rightarrow> Inl e | Inr f \<Rightarrow> Inr (f_kind f \<in> {Sock, Unix, USock, Listen}))"

definition is_unix :: "nat \<Rightarrow> nat \<Rightarrow> ('e, 'm) files_st_scheme \<Rightarrow> errno + bool" where
  "is_unix l fd st = (case get_fd l fd st of Inl e \<Rightarrow> Inl e | Inr f \<Rightarrow> Inr (f_kind f = Unix))"

end
