(* ===== verification/Fdops.thy ===== *)
theory Fdops
  imports Sockets
begin

text \<open>
  The system calls on one descriptor (\<open>kernel/src/file.rs\<close>): paths with a meaning of their own
  (\<open>/dev\<close>, \<open>/proc\<close>, \<open>/dev/shm\<close>), \<open>open\<close>, \<open>read\<close>, \<open>write\<close>, \<open>lseek\<close>, flags, sizes and the current directory.
\<close>

section \<open>Paths\<close>

definition bytes :: "string \<Rightarrow> u8 list" where
  "bytes s = map (\<lambda>c. of_char c) s"

fun strip_prefix :: "'a list \<Rightarrow> 'a list \<Rightarrow> 'a list option" where
  "strip_prefix [] ys = Some ys"
| "strip_prefix (x # xs) [] = None"
| "strip_prefix (x # xs) (y # ys) = (if x = y then strip_prefix xs ys else None)"

text \<open>\<open>parse::<T>()\<close> of an unsigned type whose largest value is \<open>limit\<close>: an optional \<open>+\<close>, then digits.\<close>

fun digits :: "nat \<Rightarrow> nat \<Rightarrow> u8 list \<Rightarrow> nat option" where
  "digits limit acc [] = Some acc"
| "digits limit acc (c # cs) =
     (if 48 \<le> c \<and> c \<le> 57 \<and> acc * 10 + unat (c - 48) \<le> limit
      then digits limit (acc * 10 + unat (c - 48)) cs else None)"

definition parse_uint :: "nat \<Rightarrow> u8 list \<Rightarrow> nat option" where
  "parse_uint limit cs =
     (let ds = (if cs \<noteq> [] \<and> hd cs = 43 then tl cs else cs) in if ds = [] then None else digits limit 0 ds)"

definition proc_self :: "nat \<Rightarrow> u8 list \<Rightarrow> u8 list option" where
  "proc_self pid path =
     (case strip_prefix (bytes ''/proc/'') path of
        None \<Rightarrow> None
      | Some rest \<Rightarrow>
          (case strip_prefix (bytes ''self/'') rest of
             Some r \<Rightarrow> Some r
           | None \<Rightarrow>
               (case position (\<lambda>c. c = 47) rest of
                  None \<Rightarrow> None
                | Some slash \<Rightarrow>
                    (case parse_uint u64_max (take slash rest) of
                       None \<Rightarrow> None
                     | Some n \<Rightarrow> if n = pid then Some (drop (slash + 1) rest) else None))))"

datatype special = Dev kind | Proc string

definition special_of :: "nat \<Rightarrow> u8 list \<Rightarrow> special option" where
  "special_of pid path =
     (if path = bytes ''/dev/null'' then Some (Dev DevNull)
      else if path = bytes ''/dev/zero'' then Some (Dev DevZero)
      else if path = bytes ''/dev/urandom'' \<or> path = bytes ''/dev/random'' then Some (Dev DevRandom)
      else if path = bytes ''/dev/tty'' \<or> path = bytes ''/dev/console'' then Some (Dev Console)
      else if path = bytes ''/proc/cpuinfo'' then Some (Proc ''cpuinfo'')
      else if path = bytes ''/proc/meminfo'' then Some (Proc ''meminfo'')
      else if path = bytes ''/proc/version'' then Some (Proc ''version'')
      else if path = bytes ''/proc/mounts'' then Some (Proc ''mounts'')
      else if path = bytes ''/sys/devices/system/cpu/online'' then Some (Proc ''sys_cpu_online'')
      else case proc_self pid path of
          None \<Rightarrow> None
        | Some r \<Rightarrow>
            map_option Proc
              (List.find (\<lambda>n. bytes n = r)
                 [''mounts'', ''mountinfo'', ''maps'', ''comm'', ''cmdline'', ''status'', ''stat'']))"

definition mem_pages :: "string \<Rightarrow> nat" where
  "mem_pages which = (if which = ''maps'' then 64 else if which = ''sys_cpu_online'' then 1 else 4)"

definition special_link :: "'e env \<Rightarrow> u8 list \<Rightarrow> ('e, 'm) files_st_scheme \<Rightarrow> u8 list option" where
  "special_link ev path st =
     (if proc_self (x_pid ev (world st)) path = Some (bytes ''exe'') then Some (x_exe ev (world st)) else None)"

definition shm_name :: "u8 list \<Rightarrow> u8 list option" where
  "shm_name path =
     (case strip_prefix (bytes ''/dev/shm/'') path of
        None \<Rightarrow> None
      | Some n \<Rightarrow> if n = [] \<or> 47 \<in> set n then None else Some n)"

section \<open>Opening\<close>

text \<open>\<open>open\<close> of \<open>/dev/shm/<name>\<close>.\<close>

definition open_shm :: "'e env \<Rightarrow> nat \<Rightarrow> u8 list \<Rightarrow> u32 \<Rightarrow> ('e, 'm) files_st_scheme \<Rightarrow>
    (errno + nat) \<times> ('e, 'm) files_st_scheme" where
  "open_shm ev l name flags st =
     (let found =
        (case open_named name (the_shm st) of
           Some (oid, s) \<Rightarrow>
             if flags AND O_CREAT \<noteq> 0 \<and> flags AND O_EXCL \<noteq> 0
             then (Inl EEXIST, set_shm (fd_ref oid (- 1) s) st)
             else (Inr oid, set_shm s st)
         | None \<Rightarrow>
             if flags AND O_CREAT \<noteq> 0
             then (case create (Some name) (the_shm st) of
                     None \<Rightarrow> (Inl ENFILE, st)
                   | Some (oid, s) \<Rightarrow> (Inr oid, set_shm s st))
             else (Inl ENOENT, st))
      in and_then found (\<lambda>oid st.
           let st = (if flags AND O_TRUNC \<noteq> 0 then set_shm (snd (Shm.truncate oid 0 (the_shm st))) st else st)
           in case install_shm ev l oid flags st of
                (r, st) \<Rightarrow> (r, set_shm (fd_ref oid (- 1) (the_shm st)) st)))"

text \<open>\<open>/proc/self/fd/N\<close>: a new description of what \<open>N\<close> has.\<close>

definition proc_fd :: "nat \<Rightarrow> u8 list \<Rightarrow> nat option" where
  "proc_fd pid path =
     (case proc_self pid path of
        None \<Rightarrow> None
      | Some r \<Rightarrow> (case strip_prefix (bytes ''fd/'') r of None \<Rightarrow> None | Some d \<Rightarrow> parse_uint (2 ^ 32 - 1) d))"

definition reopen :: "'e env \<Rightarrow> nat \<Rightarrow> nat \<Rightarrow> u32 \<Rightarrow> ('e, 'm) files_st_scheme \<Rightarrow>
    (errno + nat) \<times> ('e, 'm) files_st_scheme" where
  "reopen ev l n flags st =
     (case get_fd l n st of
        Inl e \<Rightarrow> (Inl e, st)
      | Inr f \<Rightarrow>
          let cl = (flags AND O_CLOEXEC \<noteq> 0);
              nf = (if f_kind f \<in> {File, Dir, Shm}
                    then f\<lparr>f_cloexec := cl, f_off := 0,
                           f_flags := flags AND (O_ACCMODE OR O_NONBLOCK OR O_APPEND)\<rparr>
                    else f\<lparr>f_cloexec := cl\<rparr>)
          in install_or_drop ev l nf (add_ref nf st))"

definition open_special :: "'e env \<Rightarrow> nat \<Rightarrow> special \<Rightarrow> u32 \<Rightarrow> ('e, 'm) files_st_scheme \<Rightarrow>
    (errno + nat) \<times> ('e, 'm) files_st_scheme" where
  "open_special ev l sp flags st =
     (let cl = (flags AND O_CLOEXEC \<noteq> 0); fl = flags AND (O_ACCMODE OR O_NONBLOCK) in
      case sp of
        Dev k \<Rightarrow> install l \<lparr>f_kind = k, f_ino = 0, f_flags = fl, f_cloexec = cl, f_off = 0\<rparr> 0 st
      | Proc which \<Rightarrow>
          let pages = mem_pages which in
          (case alloc_contig pages (kfa st) of
             None \<Rightarrow> (Inl ENOSPC, st)
           | Some (buf, fa) \<Rightarrow>
               let text = take (pages * 4096) (x_proc_text ev which (pages * 4096) (world st));
                   st = st\<lparr>kfa := fa, kmem := mem_write (kmem st) buf text\<rparr>
               in case position (\<lambda>m. m_buf m = 0) (mems st) of
                    None \<Rightarrow> (Inl ENFILE, st\<lparr>kfa := free_contig buf pages (kfa st)\<rparr>)
                  | Some i \<Rightarrow>
                      install_or_drop ev l
                        \<lparr>f_kind = Mem, f_ino = i, f_flags = fl AND NOT O_ACCMODE, f_cloexec = cl, f_off = 0\<rparr>
                        (st\<lparr>mems := (mems st)[i := \<lparr>m_buf = buf, m_len = length text, m_refs = 1, m_pages = pages\<rparr>]\<rparr>)))"

text \<open>\<open>open\<close> of a path of the disk.\<close>

definition open_disk :: "'e env \<Rightarrow> nat \<Rightarrow> nat \<Rightarrow> u8 list \<Rightarrow> u32 \<Rightarrow> nat \<Rightarrow> ('e, 'm) files_st_scheme \<Rightarrow>
    (errno + nat) \<times> ('e, 'm) files_st_scheme" where
  "open_disk ev l at path flags mode st =
     and_then
       (if flags AND O_CREAT \<noteq> 0
        then and_then (on_world (x_create ev at path mode (flags AND O_EXCL \<noteq> 0)) st) (\<lambda>(ino, created) st.
               (Inr (ino, created), if created then st\<lparr>world := x_legacy ev (world st)\<rparr> else st))
        else and_then (on_world (x_resolve ev at path (flags AND O_NOFOLLOW = 0)) st) (\<lambda>ino st.
               (Inr (ino, False), st)))
       (\<lambda>(ino, created) st.
     and_then (on_world (x_inode ev ino) st) (\<lambda>(ik, size) st.
       let acc = flags AND O_ACCMODE; trunc = flags AND O_TRUNC in
       case ik of
         Symlink \<Rightarrow> (Inl ELOOP, st)
       | Socket \<Rightarrow> (Inl EINVAL, st)
       | Other_kind \<Rightarrow> (Inl EINVAL, st)
       | _ \<Rightarrow>
           let k = (if ik = Directory then Dir else File) in
           if k = Dir \<and> acc \<noteq> 0 then (Inl EISDIR, st)
           else if k \<noteq> Dir \<and> flags AND O_DIRECTORY \<noteq> 0 then (Inl ENOTDIR, st)
           else
             and_then
               (if k = File \<and> trunc \<noteq> 0 \<and> acc \<noteq> 0 \<and> \<not> created
                then on_world (x_truncate ev ino 0) st else (Inr (), st))
               (\<lambda>_ st. install l
                  \<lparr>f_kind = k, f_ino = ino, f_flags = flags AND (O_ACCMODE OR O_APPEND OR O_NONBLOCK),
                     f_cloexec = (flags AND O_CLOEXEC \<noteq> 0), f_off = 0\<rparr> 0 st)))"

text \<open>
  \<open>open\<close>. \<open>/proc/self/exe\<close> opens the path of the executable, which \<open>realpath\<close> made canonical, so the
  call on it takes no further detour; \<open>open_path\<close> is the code of that call.
\<close>

definition open_path :: "'e env \<Rightarrow> nat \<Rightarrow> nat \<Rightarrow> u8 list \<Rightarrow> u32 \<Rightarrow> nat \<Rightarrow> ('e, 'm) files_st_scheme \<Rightarrow>
    (errno + nat) \<times> ('e, 'm) files_st_scheme" where
  "open_path ev l at path flags mode st =
     (case shm_name path of
        Some name \<Rightarrow> open_shm ev l name flags st
      | None \<Rightarrow>
          (case proc_fd (x_pid ev (world st)) path of
             Some n \<Rightarrow> reopen ev l n flags st
           | None \<Rightarrow>
               (case special_of (x_pid ev (world st)) path of
                  Some sp \<Rightarrow> open_special ev l sp flags st
                | None \<Rightarrow> open_disk ev l at path flags mode st)))"

definition open_file_at :: "'e env \<Rightarrow> nat \<Rightarrow> nat \<Rightarrow> u8 list \<Rightarrow> u32 \<Rightarrow> nat \<Rightarrow> ('e, 'm) files_st_scheme \<Rightarrow>
    (errno + nat) \<times> ('e, 'm) files_st_scheme" where
  "open_file_at ev l at path flags mode st =
     (if \<not> x_is_ext2 ev (world st) then (Inl ENOSYS, st)
      else if shm_name path = None \<and> proc_fd (x_pid ev (world st)) path = None then
        (case special_link ev path st of
           Some exe \<Rightarrow> open_path ev l ROOT_INO exe (flags AND NOT O_CREAT) mode st
         | None \<Rightarrow> open_path ev l at path flags mode st)
      else open_path ev l at path flags mode st)"

section \<open>Event counters\<close>

definition ekey :: "nat \<Rightarrow> u64" where
  "ekey i = 0x455600000000 OR word_of_nat i"

definition event_read :: "nat \<Rightarrow> u32 \<Rightarrow> nat \<Rightarrow> nat \<Rightarrow> ('e, 'm) files_st_scheme \<Rightarrow>
    (errno + u8 list) \<times> ('e, 'm) files_st_scheme" where
  "event_read cpu fl i len st =
     (if len < 8 then (Inl EINVAL, st)
      else
        let e = events st ! i in
        if e_count e = 0 then
          if nonblock fl then (Inl EAGAIN, st)
          else (case would_block cpu (ekey i) st of (err, st) \<Rightarrow> (Inl err, st))
        else
          let v = (if e_sem e then 1 else e_count e) in
          (Inr (le_bytes 8 v),
           push_wake (ekey i) (st\<lparr>events := (events st)[i := e\<lparr>e_count := e_count e - v\<rparr>]\<rparr>)))"

definition event_write :: "nat \<Rightarrow> u8 list \<Rightarrow> ('e, 'm) files_st_scheme \<Rightarrow> (errno + nat) \<times> ('e, 'm) files_st_scheme" where
  "event_write i bs st =
     (if length bs < 8 then (Inl EINVAL, st)
      else
        let v = le_val (take 8 bs); e = events st ! i in
        if v = u64_max then (Inl EINVAL, st)
        else (Inr 8, push_wake (ekey i)
          (st\<lparr>events := (events st)[i := e\<lparr>e_count := min (saturating_add (e_count e) v) (u64_max - 1)\<rparr>]\<rparr>)))"

section \<open>Reading and writing\<close>

definition set_off :: "nat \<Rightarrow> nat \<Rightarrow> nat \<Rightarrow> ('e, 'm) files_st_scheme \<Rightarrow> ('e, 'm) files_st_scheme" where
  "set_off l fd off st = put_fd l (fd mod 2 ^ 32) ((tabs st l ! (fd mod 2 ^ 32))\<lparr>f_off := off\<rparr>) st"

text \<open>\<open>/dev/urandom\<close>: chunks of at most 256 bytes.\<close>

function random_fill :: "'e env \<Rightarrow> nat \<Rightarrow> 'e \<Rightarrow> u8 list \<times> 'e" where
  "random_fill ev n w =
     (if n = 0 then ([], w)
      else case x_random ev (min n 256) w of
          (bs, w) \<Rightarrow> (case random_fill ev (n - min n 256) w of (cs, w) \<Rightarrow> (bs @ cs, w)))"
  by pat_completeness auto
termination by (relation "measure (\<lambda>(ev, n, w). n)") auto

declare random_fill.simps [simp del]

definition read_fd :: "'e env \<Rightarrow> nat \<Rightarrow> nat \<Rightarrow> nat \<Rightarrow> nat \<Rightarrow> nat option \<Rightarrow> ('e, 'm) files_st_scheme \<Rightarrow>
    (errno + u8 list) \<times> ('e, 'm) files_st_scheme" where
  "read_fd ev cpu l fd len at st =
     (case get_fd l fd st of
        Inl e \<Rightarrow> (Inl e, st)
      | Inr f \<Rightarrow>
          let i = f_ino f; off = (case at of Some p \<Rightarrow> p | None \<Rightarrow> f_off f);
              advance = (\<lambda>n st. if at = None then set_off l fd (off + n) st else st) in
          case f_kind f of
            Console \<Rightarrow> (Inr [], st)
          | DevNull \<Rightarrow> (Inr [], st)
          | DevZero \<Rightarrow> (Inr (replicate (min len (2 ^ 20)) 0), st)
          | DevRandom \<Rightarrow> (case on_world (random_fill ev (min len (2 ^ 20))) st of (bs, st) \<Rightarrow> (Inr bs, st))
          | Mem \<Rightarrow>
              let m = mems st ! i in
              if m_len m \<le> off then (Inr [], st)
              else let n = min len (m_len m - off)
                   in (Inr (mem_read (kmem st) (m_buf m + off) n), advance n st)
          | Dir \<Rightarrow> (Inl EISDIR, st)
          | File \<Rightarrow>
              if f_flags f AND O_ACCMODE = O_WRONLY then (Inl EBADF, st)
              else and_then (on_world (x_read ev i off len) st) (\<lambda>bs st. (Inr bs, advance (length bs) st))
          | PipeR \<Rightarrow> if at \<noteq> None then (Inl ESPIPE, st) else pipe_read cpu (f_flags f) i len st
          | Unix \<Rightarrow> unix_read_fd ev cpu f len False st
          | Shm \<Rightarrow> (case rw_read i off len (the_shm st) of (bs, n) \<Rightarrow> (Inr bs, advance n st))
          | USock \<Rightarrow> (Inl ENOTCONN, st)
          | Listen \<Rightarrow> (Inl ENOTCONN, st)
          | Event \<Rightarrow> event_read cpu (f_flags f) i len st
          | Sock \<Rightarrow> and_then (sock_recv ev cpu (f_flags f) i len st) (\<lambda>(bs, _) st. (Inr bs, st))
          | _ \<Rightarrow> (Inl EBADF, st))"

definition write_fd :: "'e env \<Rightarrow> nat \<Rightarrow> nat \<Rightarrow> nat \<Rightarrow> u8 list \<Rightarrow> nat option \<Rightarrow> ('e, 'm) files_st_scheme \<Rightarrow>
    (errno + nat) \<times> ('e, 'm) files_st_scheme" where
  "write_fd ev cpu l fd bs at st =
     (case get_fd l fd st of
        Inl e \<Rightarrow> (Inl e, st)
      | Inr f \<Rightarrow>
          let i = f_ino f;
              advance = (\<lambda>off n st. if at = None then set_off l fd (off + n) st else st) in
          case f_kind f of
            Console \<Rightarrow> (Inr (length bs), st\<lparr>world := x_console ev bs (world st)\<rparr>)
          | DevNull \<Rightarrow> (Inr (length bs), st)
          | DevZero \<Rightarrow> (Inr (length bs), st)
          | DevRandom \<Rightarrow> (Inr (length bs), st)
          | Dir \<Rightarrow> (Inl EISDIR, st)
          | File \<Rightarrow>
              if f_flags f AND O_ACCMODE = 0 then (Inl EBADF, st)
              else and_then
                (case at of
                   Some p \<Rightarrow> (Inr p, st)
                 | None \<Rightarrow>
                     if f_flags f AND O_APPEND \<noteq> 0
                     then and_then (on_world (x_inode ev i) st) (\<lambda>(_, size) st. (Inr size, st))
                     else (Inr (f_off f), st))
                (\<lambda>off st. and_then (on_world (x_write ev i off bs) st) (\<lambda>n st. (Inr n, advance off n st)))
          | PipeW \<Rightarrow> if at \<noteq> None then (Inl ESPIPE, st) else pipe_write cpu (f_flags f) i bs st
          | Unix \<Rightarrow> unix_write cpu (i div 2) (i mod 2) bs (nonblock (f_flags f)) [] st
          | Shm \<Rightarrow>
              let off = (case at of Some p \<Rightarrow> p | None \<Rightarrow> f_off f) in
              (case rw_write i off bs (the_shm st) of
                 (Inl e, s) \<Rightarrow> (Inl e, set_shm s st)
               | (Inr n, s) \<Rightarrow> (Inr n, advance off n (set_shm s st)))
          | USock \<Rightarrow> (Inl ENOTCONN, st)
          | Listen \<Rightarrow> (Inl ENOTCONN, st)
          | Event \<Rightarrow> event_write i bs st
          | Sock \<Rightarrow> sock_send ev cpu (f_flags f) i bs None st
          | _ \<Rightarrow> (Inl EBADF, st))"

text \<open>A \<open>u64\<close> read as an \<open>i64\<close>, and \<open>i64::checked_add\<close>.\<close>

definition as_i64 :: "nat \<Rightarrow> int" where
  "as_i64 n = (let m = int (n mod 2 ^ 64) in if m \<ge> 2 ^ 63 then m - 2 ^ 64 else m)"

definition checked_add_i64 :: "int \<Rightarrow> int \<Rightarrow> int option" where
  "checked_add_i64 a b = (if - (2 ^ 63) \<le> a + b \<and> a + b < 2 ^ 63 then Some (a + b) else None)"

definition lseek :: "'e env \<Rightarrow> nat \<Rightarrow> nat \<Rightarrow> int \<Rightarrow> nat \<Rightarrow> ('e, 'm) files_st_scheme \<Rightarrow>
    (errno + nat) \<times> ('e, 'm) files_st_scheme" where
  "lseek ev l fd off whence st =
     (case get_fd l fd st of
        Inl e \<Rightarrow> (Inl e, st)
      | Inr f \<Rightarrow>
          if f_kind f \<notin> {File, Dir, Mem, Shm} then (Inl ESPIPE, st)
          else and_then
            (if whence = 0 then (Inr 0, st)
             else if whence = 1 then (Inr (as_i64 (f_off f)), st)
             else if whence = 2 then
               if f_kind f = Mem then (Inr (as_i64 (m_len (mems st ! f_ino f))), st)
               else if f_kind f = Shm then (Inr (as_i64 (shm_size (the_shm st) (f_ino f))), st)
               else and_then (on_world (x_inode ev (f_ino f)) st) (\<lambda>(_, size) st. (Inr (as_i64 size), st))
             else (Inl EINVAL, st))
            (\<lambda>base st.
               case checked_add_i64 base off of
                 None \<Rightarrow> (Inl EINVAL, st)
               | Some new \<Rightarrow>
                   if new < 0 then (Inl EINVAL, st) else (Inr (nat new), set_off l fd (nat new) st)))"

section \<open>Attributes of a descriptor\<close>

definition get_cloexec :: "nat \<Rightarrow> nat \<Rightarrow> ('e, 'm) files_st_scheme \<Rightarrow> errno + bool" where
  "get_cloexec l fd st = (case get_fd l fd st of Inl e \<Rightarrow> Inl e | Inr f \<Rightarrow> Inr (f_cloexec f))"

definition set_cloexec :: "nat \<Rightarrow> nat \<Rightarrow> bool \<Rightarrow> ('e, 'm) files_st_scheme \<Rightarrow> (errno + nat) \<times> ('e, 'm) files_st_scheme" where
  "set_cloexec l fd b st =
     (case get_fd l fd st of
        Inl e \<Rightarrow> (Inl e, st)
      | Inr f \<Rightarrow> (Inr 0, put_fd l (fd mod 2 ^ 32) (f\<lparr>f_cloexec := b\<rparr>) st))"

definition get_flags :: "nat \<Rightarrow> nat \<Rightarrow> ('e, 'm) files_st_scheme \<Rightarrow> errno + u32" where
  "get_flags l fd st = (case get_fd l fd st of Inl e \<Rightarrow> Inl e | Inr f \<Rightarrow> Inr (f_flags f))"

definition set_flags :: "nat \<Rightarrow> nat \<Rightarrow> u32 \<Rightarrow> ('e, 'm) files_st_scheme \<Rightarrow> (errno + nat) \<times> ('e, 'm) files_st_scheme" where
  "set_flags l fd fl st =
     (case get_fd l fd st of
        Inl e \<Rightarrow> (Inl e, st)
      | Inr f \<Rightarrow>
          let msk = O_APPEND OR O_NONBLOCK in
          (Inr 0, put_fd l (fd mod 2 ^ 32) (f\<lparr>f_flags := (f_flags f AND NOT msk) OR (fl AND msk)\<rparr>) st))"

definition is_console :: "nat \<Rightarrow> nat \<Rightarrow> ('e, 'm) files_st_scheme \<Rightarrow> errno + bool" where
  "is_console l fd st = (case get_fd l fd st of Inl e \<Rightarrow> Inl e | Inr f \<Rightarrow> Inr (f_kind f = Console))"

definition fstat_ok :: "nat \<Rightarrow> nat \<Rightarrow> ('e, 'm) files_st_scheme \<Rightarrow> errno + unit" where
  "fstat_ok l fd st = (case get_fd l fd st of Inl e \<Rightarrow> Inl e | Inr f \<Rightarrow> Inr ())"

definition fd_obj :: "nat \<Rightarrow> nat \<Rightarrow> ('e, 'm) files_st_scheme \<Rightarrow> errno + nat option" where
  "fd_obj l fd st =
     (case get_fd l fd st of Inl e \<Rightarrow> Inl e | Inr f \<Rightarrow> Inr (if f_kind f = Shm then Some (f_ino f) else None))"

definition fd_file_ino :: "'e env \<Rightarrow> nat \<Rightarrow> nat \<Rightarrow> ('e, 'm) files_st_scheme \<Rightarrow>
    (errno + (nat \<times> nat) option) \<times> ('e, 'm) files_st_scheme" where
  "fd_file_ino ev l fd st =
     (case get_fd l fd st of
        Inl e \<Rightarrow> (Inl e, st)
      | Inr f \<Rightarrow>
          if f_kind f \<noteq> File \<or> f_flags f AND O_ACCMODE = O_WRONLY then (Inr None, st)
          else and_then (on_world (x_inode ev (f_ino f)) st) (\<lambda>(_, size) st. (Inr (Some (f_ino f, size)), st)))"

definition shm_truncate :: "nat \<Rightarrow> nat \<Rightarrow> ('e, 'm) files_st_scheme \<Rightarrow> (errno + nat) \<times> ('e, 'm) files_st_scheme" where
  "shm_truncate oid len st =
     (case Shm.truncate oid len (the_shm st) of
        (Inl e, s) \<Rightarrow> (Inl e, set_shm s st) | (Inr _, s) \<Rightarrow> (Inr 0, set_shm s st))"

definition ftruncate :: "'e env \<Rightarrow> nat \<Rightarrow> nat \<Rightarrow> nat \<Rightarrow> ('e, 'm) files_st_scheme \<Rightarrow>
    (errno + nat) \<times> ('e, 'm) files_st_scheme" where
  "ftruncate ev l fd len st =
     (case get_fd l fd st of
        Inl e \<Rightarrow> (Inl e, st)
      | Inr f \<Rightarrow>
          if f_kind f = Shm then shm_truncate (f_ino f) len st
          else if f_kind f \<noteq> File \<or> f_flags f AND O_ACCMODE = 0 then (Inl EINVAL, st)
          else and_then (on_world (x_truncate ev (f_ino f) len) st) (\<lambda>_ st. (Inr 0, st)))"

definition fallocate :: "'e env \<Rightarrow> nat \<Rightarrow> nat \<Rightarrow> nat \<Rightarrow> nat \<Rightarrow> nat \<Rightarrow> ('e, 'm) files_st_scheme \<Rightarrow>
    (errno + nat) \<times> ('e, 'm) files_st_scheme" where
  "fallocate ev l fd mode off len st =
     (if mode \<noteq> 0 then (Inl EOPNOTSUPP, st)
      else case checked_add off len of
          None \<Rightarrow> (Inl EINVAL, st)
        | Some stop \<Rightarrow>
            (case get_fd l fd st of
               Inl e \<Rightarrow> (Inl e, st)
             | Inr f \<Rightarrow>
                 if f_kind f = Shm then
                   if shm_size (the_shm st) (f_ino f) < stop then shm_truncate (f_ino f) stop st else (Inr 0, st)
                 else if f_kind f \<noteq> File \<or> f_flags f AND O_ACCMODE = 0 then (Inl EBADF, st)
                 else and_then (on_world (x_inode ev (f_ino f)) st) (\<lambda>(_, size) st.
                   if size < stop then and_then (on_world (x_truncate ev (f_ino f) stop) st) (\<lambda>_ st. (Inr 0, st))
                   else (Inr 0, st))))"

definition fionread :: "'e env \<Rightarrow> nat \<Rightarrow> nat \<Rightarrow> ('e, 'm) files_st_scheme \<Rightarrow>
    (errno + nat) \<times> ('e, 'm) files_st_scheme" where
  "fionread ev l fd st =
     (case get_fd l fd st of
        Inl e \<Rightarrow> (Inl e, st)
      | Inr f \<Rightarrow>
          let i = f_ino f in
          case f_kind f of
            PipeR \<Rightarrow> (Inr (p_len (pipes st ! i)), st)
          | Unix \<Rightarrow> (Inr (unix_avail (i div 2) (i mod 2) st), st)
          | Sock \<Rightarrow>
              let k = socks st ! i in
              if s_udp k then (case on_world (x_udp_next ev (s_lport k)) st of (n, st) \<Rightarrow> (Inr n, st))
              else (case s_tcp k of
                      None \<Rightarrow> (Inr 0, st)
                    | Some h \<Rightarrow> (case on_world (x_tcp_avail ev h) st of (n, st) \<Rightarrow> (Inr n, st)))
          | File \<Rightarrow> and_then (on_world (x_inode ev i) st) (\<lambda>(_, size) st. (Inr (size - f_off f), st))
          | Mem \<Rightarrow> (Inr (m_len (mems st ! i) - f_off f), st)
          | Event \<Rightarrow> (Inr 8, st)
          | Console \<Rightarrow> (Inr 0, st)
          | DevNull \<Rightarrow> (Inr 0, st)
          | DevZero \<Rightarrow> (Inr 0, st)
          | DevRandom \<Rightarrow> (Inr 0, st)
          | _ \<Rightarrow> (Inl ENOTTY, st))"

section \<open>The current directory\<close>

definition AT_FDCWD :: int where "AT_FDCWD = - 100"

definition dir_of :: "nat \<Rightarrow> int \<Rightarrow> ('e, 'm) files_st_scheme \<Rightarrow> errno + nat" where
  "dir_of l dirfd st =
     (if dirfd = AT_FDCWD then Inr (cwds st l)
      else case get_fd l (nat (dirfd mod 2 ^ 64)) st of
          Inl e \<Rightarrow> Inl e
        | Inr f \<Rightarrow> if f_kind f \<noteq> Dir then Inl ENOTDIR else Inr (f_ino f))"

definition set_cwd_of :: "nat \<Rightarrow> nat \<Rightarrow> ('e, 'm) files_st_scheme \<Rightarrow> ('e, 'm) files_st_scheme" where
  "set_cwd_of l ino st = st\<lparr>cwds := (cwds st)(l := ino)\<rparr>"

definition chdir :: "'e env \<Rightarrow> nat \<Rightarrow> nat \<Rightarrow> u8 list \<Rightarrow> ('e, 'm) files_st_scheme \<Rightarrow>
    (errno + nat) \<times> ('e, 'm) files_st_scheme" where
  "chdir ev l at path st =
     (if \<not> x_is_ext2 ev (world st) then (Inl ENOSYS, st)
      else and_then (on_world (x_resolve ev at path True) st) (\<lambda>ino st.
           and_then (on_world (x_inode ev ino) st) (\<lambda>(k, _) st.
             if k \<noteq> Directory then (Inl ENOTDIR, st) else (Inr 0, set_cwd_of l ino st))))"

end
