(* ===== verification/Polls.thy ===== *)
theory Polls
  imports Fdops
begin

text \<open>
  Readiness (\<open>kernel/src/file.rs\<close>): \<open>poll\<close> and \<open>epoll\<close>. A caller that finds nothing ready gets the mask
  of the event counters that can wake it and their sum, read under the same lock.
\<close>

definition POLLIN :: u32 where "POLLIN = 0x001"
definition POLLOUT :: u32 where "POLLOUT = 0x004"
definition POLLERR :: u32 where "POLLERR = 0x008"
definition POLLHUP :: u32 where "POLLHUP = 0x010"
definition POLLNVAL :: u32 where "POLLNVAL = 0x020"
definition EPOLLONESHOT :: u32 where "EPOLLONESHOT = 0x40000000"
definition EPOLLET :: u32 where "EPOLLET = 0x80000000"
definition EPOLL_MAX :: nat where "EPOLL_MAX = 256"

definition flag_if :: "bool \<Rightarrow> u32 \<Rightarrow> u32" where
  "flag_if b fl = (if b then fl else 0)"

text \<open>A descriptor given as \<open>i64\<close> is cast to \<open>u64\<close>.\<close>

definition fd_of :: "int \<Rightarrow> nat" where
  "fd_of fd = nat (fd mod 2 ^ 64)"

text \<open>The events ready on a descriptor, and whether the answer depends on the network.\<close>

definition ready_locked :: "'e env \<Rightarrow> nat \<Rightarrow> int \<Rightarrow> bool \<Rightarrow> ('e, 'm) files_st_scheme \<Rightarrow>
    (u32 \<times> bool) \<times> ('e, 'm) files_st_scheme" where
  "ready_locked ev l fd net st =
     (case get_fd l (fd_of fd) st of
        Inl _ \<Rightarrow> ((POLLNVAL, net), st)
      | Inr f \<Rightarrow>
          let i = f_ino f in
          case f_kind f of
            PipeR \<Rightarrow>
              let p = pipes st ! i; hup = (p_writers p = 0) in
              ((flag_if (p_len p > 0 \<or> hup) POLLIN OR flag_if hup POLLHUP, net), st)
          | PipeW \<Rightarrow>
              let p = pipes st ! i in
              ((if p_readers p = 0 then POLLERR else flag_if (p_len p < PIPE_CAP) POLLOUT, net), st)
          | Unix \<Rightarrow>
              (case unix_ready (i div 2) (i mod 2) st of
                 (d, w, hup) \<Rightarrow> ((flag_if d POLLIN OR flag_if w POLLOUT OR flag_if hup POLLHUP, net), st))
          | Listen \<Rightarrow> ((flag_if (listener_ready i st) POLLIN, net), st)
          | USock \<Rightarrow> ((POLLOUT, net), st)
          | Event \<Rightarrow> ((flag_if (e_count (events st ! i) > 0) POLLIN OR POLLOUT, net), st)
          | Sock \<Rightarrow>
              let k = socks st ! i in
              if s_udp k then
                (if s_lport k \<noteq> 0 then
                   (case on_world (x_udp_pending ev (s_lport k)) st of
                      (b, st) \<Rightarrow> ((POLLOUT OR flag_if b POLLIN, True), st))
                 else ((POLLOUT, True), st))
              else
                let st = sock_progress ev i st; k = socks st ! i in
                (case (s_state k, s_tcp k) of
                   (Failed, _) \<Rightarrow> ((POLLERR OR POLLHUP OR POLLOUT, True), st)
                 | (Connected, Some h) \<Rightarrow>
                     (case on_world (x_tcp_ready ev h) st of
                        ((r, w, hup), st) \<Rightarrow>
                          ((flag_if r POLLIN OR flag_if w POLLOUT OR flag_if hup POLLHUP, True), st))
                 | (Fresh, _) \<Rightarrow> ((POLLOUT OR POLLHUP, True), st)
                 | _ \<Rightarrow> ((0, True), st))
          | Console \<Rightarrow> ((POLLOUT, net), st)
          | Epoll \<Rightarrow> ((0, net), st)
          | Free \<Rightarrow> ((POLLNVAL, net), st)
          | _ \<Rightarrow> ((POLLIN OR POLLOUT, net), st))"

definition always_ready :: "nat \<Rightarrow> int \<Rightarrow> ('e, 'm) files_st_scheme \<Rightarrow> bool" where
  "always_ready l fd st =
     (case get_fd l (fd_of fd) st of
        Inl _ \<Rightarrow> False
      | Inr f \<Rightarrow> f_kind f \<in> {File, Dir, Mem, Shm, DevNull, DevZero, DevRandom, Console})"

definition wait_keys_locked :: "nat \<Rightarrow> int \<Rightarrow> ('e, 'm) files_st_scheme \<Rightarrow> u64" where
  "wait_keys_locked l fd st =
     (case get_fd l (fd_of fd) st of
        Inl _ \<Rightarrow> 0
      | Inr f \<Rightarrow>
          let i = f_ino f in
          (case f_kind f of
             PipeR \<Rightarrow> key_bit (pkey_r i)
           | PipeW \<Rightarrow> key_bit (pkey_w i)
           | Unix \<Rightarrow> key_bit (ukey_r (i div 2) (i mod 2)) OR key_bit (ukey_r (i div 2) (1 - i mod 2))
           | Listen \<Rightarrow> key_bit (ukey_l i)
           | Event \<Rightarrow> key_bit (ekey i)
           | Sock \<Rightarrow> key_bit SOCK_KEY
           | Epoll \<Rightarrow> - 1
           | _ \<Rightarrow> 0))"

text \<open>\<open>poll_fds\<close>: (fd, events) in, \<open>revents\<close> out, with the count, the network flag and the mask.\<close>

fun poll_loop :: "'e env \<Rightarrow> nat \<Rightarrow> (int \<times> u32) list \<Rightarrow> u32 list \<Rightarrow> nat \<Rightarrow> bool \<Rightarrow> u64 \<Rightarrow> ('e, 'm) files_st_scheme \<Rightarrow>
    (u32 list \<times> nat \<times> bool \<times> u64) \<times> ('e, 'm) files_st_scheme" where
  "poll_loop ev l [] out n net msk st = ((out, n, net, msk), st)"
| "poll_loop ev l ((fd, want) # its) out n net msk st =
     (if fd < 0 then poll_loop ev l its (out @ [0]) n net msk st
      else case ready_locked ev l fd net st of
          ((r, net), st) \<Rightarrow>
            let rev = r AND (want OR POLLERR OR POLLHUP OR POLLNVAL) in
            if rev \<noteq> 0 then poll_loop ev l its (out @ [rev]) (n + 1) net msk st
            else poll_loop ev l its (out @ [rev]) n net
                   (if n = 0 then msk OR wait_keys_locked l fd st else msk) st)"

definition poll_fds :: "'e env \<Rightarrow> nat \<Rightarrow> (int \<times> u32) list \<Rightarrow> ('e, 'm) files_st_scheme \<Rightarrow>
    (u32 list \<times> nat \<times> bool \<times> u64 \<times> nat) \<times> ('e, 'm) files_st_scheme" where
  "poll_fds ev l its st =
     (case poll_loop ev l its [] 0 False 0 st of
        ((out, n, net, msk), st) \<Rightarrow> ((out, n, net, msk, if n = 0 then io_seq_mask msk st else 0), st))"

section \<open>epoll\<close>

definition put_epoll :: "nat \<Rightarrow> ep_item list \<Rightarrow> ('e, 'm) files_st_scheme \<Rightarrow> ('e, 'm) files_st_scheme" where
  "put_epoll i its st = st\<lparr>epolls := (epolls st)[i := (epolls st ! i)\<lparr>ep_items := its\<rparr>]\<rparr>"

definition epoll_ctl :: "nat \<Rightarrow> nat \<Rightarrow> nat \<Rightarrow> int \<Rightarrow> u32 \<Rightarrow> u64 \<Rightarrow> ('e, 'm) files_st_scheme \<Rightarrow>
    (errno + nat) \<times> ('e, 'm) files_st_scheme" where
  "epoll_ctl l ep op fd want data st =
     (case get_fd l ep st of
        Inl e \<Rightarrow> (Inl e, st)
      | Inr e \<Rightarrow>
          if f_kind e \<noteq> Epoll then (Inl EINVAL, st)
          else case get_fd l (fd_of fd) st of
              Inl err \<Rightarrow> (Inl err, st)
            | Inr _ \<Rightarrow>
                if fd_of fd = ep then (Inl EINVAL, st)
                else
                  let i = f_ino e; its = ep_items (epolls st ! i);
                      new = \<lparr>i_fd = fd, i_events = want, i_data = data, i_off = False, i_fired = False\<rparr> in
                  case position (\<lambda>it. i_fd it = fd) its of
                    Some p \<Rightarrow>
                      if op = 1 then (Inl EEXIST, st)
                      else if op = 2 then (Inr 0, put_epoll i (butlast (its[p := last its])) st)
                      else if op = 3 then (Inr 0, put_epoll i (its[p := new]) st)
                      else (Inl EINVAL, st)
                  | None \<Rightarrow>
                      if op = 1 then
                        (if length its = EPOLL_MAX then (Inl ENOSPC, st) else (Inr 0, put_epoll i (its @ [new]) st))
                      else if op = 2 \<or> op = 3 then (Inl ENOENT, st)
                      else (Inl EINVAL, st))"

text \<open>\<open>epoll_scan\<close>: the (events, data) pairs written out, in the order of the set.\<close>

definition put_item :: "nat \<Rightarrow> nat \<Rightarrow> ep_item \<Rightarrow> ('e, 'm) files_st_scheme \<Rightarrow> ('e, 'm) files_st_scheme" where
  "put_item i k it st = put_epoll i ((ep_items (epolls st ! i))[k := it]) st"

definition scan_item :: "'e env \<Rightarrow> nat \<Rightarrow> nat \<Rightarrow> nat \<Rightarrow> (u32 \<times> u64) list \<times> bool \<times> u64 \<Rightarrow>
    ('e, 'm) files_st_scheme \<Rightarrow> ((u32 \<times> u64) list \<times> bool \<times> u64) \<times> ('e, 'm) files_st_scheme" where
  "scan_item ev l i k acc st =
     (case acc of (out, net, msk) \<Rightarrow>
      let it = ep_items (epolls st ! i) ! k in
      if i_off it then (acc, st)
      else case ready_locked ev l (i_fd it) net st of
          ((r, net), st) \<Rightarrow>
            let hit = r AND (i_events it OR POLLERR OR POLLHUP) in
            if r AND POLLNVAL \<noteq> 0 \<or> hit = 0 then
              ((out, net, if out = [] then msk OR wait_keys_locked l (i_fd it) st else msk), st)
            else
              let edge = (i_events it AND EPOLLET \<noteq> 0 \<and> always_ready l (i_fd it) st) in
              if edge \<and> i_fired it then ((out, net, msk), st)
              else
                let it = (if edge then it\<lparr>i_fired := True\<rparr> else it);
                    it = (if i_events it AND EPOLLONESHOT \<noteq> 0 then it\<lparr>i_off := True\<rparr> else it)
                in ((out @ [(hit, i_data it)], net, msk), put_item i k it st))"

fun scan_loop :: "'e env \<Rightarrow> nat \<Rightarrow> nat \<Rightarrow> nat \<Rightarrow> nat list \<Rightarrow> (u32 \<times> u64) list \<times> bool \<times> u64 \<Rightarrow>
    ('e, 'm) files_st_scheme \<Rightarrow> ((u32 \<times> u64) list \<times> bool \<times> u64) \<times> ('e, 'm) files_st_scheme" where
  "scan_loop ev l i room [] acc st = (acc, st)"
| "scan_loop ev l i room (k # ks) acc st =
     (if length (fst acc) \<ge> room then (acc, st)
      else case scan_item ev l i k acc st of (acc, st) \<Rightarrow> scan_loop ev l i room ks acc st)"

definition epoll_scan :: "'e env \<Rightarrow> nat \<Rightarrow> nat \<Rightarrow> nat \<Rightarrow> ('e, 'm) files_st_scheme \<Rightarrow>
    (errno + (u32 \<times> u64) list \<times> bool \<times> u64 \<times> nat) \<times> ('e, 'm) files_st_scheme" where
  "epoll_scan ev l ep room st =
     (case get_fd l ep st of
        Inl e \<Rightarrow> (Inl e, st)
      | Inr e \<Rightarrow>
          if f_kind e \<noteq> Epoll then (Inl EINVAL, st)
          else
            let i = f_ino e in
            case scan_loop ev l i room [0..<length (ep_items (epolls st ! i))] ([], False, 0) st of
              ((out, net, msk), st) \<Rightarrow>
                (Inr (out, net, msk, if out = [] then io_seq_mask msk st else 0), st))"

end
