(* ===== verification/Shm_Spans.thy ===== *)
theory Shm_Spans
  imports Spans
begin

text \<open>
  Shared-memory objects as owners of frames next to other owners: every operation of \<open>Shm\<close> moves
  frames only between its objects and the free pool (\<open>shm_moved\<close>), so the table of objects can be one
  of the holders \<open>Spans\<close> counts. This is what lets the descriptor layer keep pipes, connections,
  generated texts and shared memory in one allocator.
\<close>

definition shm_frames :: "shm \<Rightarrow> nat set" where
  "shm_frames st = (\<Union>i<MAX_OBJS. set (obj_frames (objs st ! i)))"

definition shm_moved :: "shm \<Rightarrow> shm \<Rightarrow> bool" where
  "shm_moved st st' \<longleftrightarrow> shm_inv st' \<and> moved (shm_frames st) (sfa st) (shm_frames st') (sfa st')"

lemma shm_owned: "shm_inv st \<Longrightarrow> owned (shm_frames st) (sfa st)"
  using shm_invD(1,5) by (auto simp: owned_def shm_frames_def)

lemma shm_moved_refl: "shm_inv st \<Longrightarrow> shm_moved st st"
  by (simp add: shm_moved_def moved_refl shm_owned)

lemma shm_moved_trans: "shm_moved st st' \<Longrightarrow> shm_moved st' st'' \<Longrightarrow> shm_moved st st''"
  by (auto simp: shm_moved_def intro: moved_trans)

lemma shm_moved_same:
  "shm_inv st' \<Longrightarrow> objs st' = objs st \<Longrightarrow> sfa st' = sfa st \<Longrightarrow> shm_moved st st'"
  using shm_owned [of st'] by (simp add: shm_moved_def shm_frames_def moved_refl)

lemma obj_moved:
  assumes inv: "shm_inv st" "shm_inv st'" and i: "i < MAX_OBJS" and o: "objs st' = (objs st)[i := ob]"
    and mv: "moved (set (obj_frames (objs st ! i))) (sfa st) (set (obj_frames ob)) (sfa st')"
  shows "shm_moved st st'"
proof -
  let ?R = "\<Union>j\<in>{..<MAX_OBJS} - {i}. set (obj_frames (objs st ! j))"
  have split: "(\<Union>j<MAX_OBJS. set (obj_frames (f j))) = set (obj_frames (f i)) \<union>
      (\<Union>j\<in>{..<MAX_OBJS} - {i}. set (obj_frames (f j)))" for f
    using i by blast
  have F: "shm_frames st = set (obj_frames (objs st ! i)) \<union> ?R"
    unfolding shm_frames_def by (rule split)
  have F': "shm_frames st' = set (obj_frames ob) \<union> ?R"
    unfolding shm_frames_def split using i shm_invD(2) [OF inv(1)] by (simp add: o)
  have dj: "set (obj_frames (objs st ! i)) \<inter> ?R = {}"
    using shm_invD(6) [OF inv(1) i] by fastforce
  have one: "addr_refs (sfa st) a = 1" if "a \<in> ?R" for a
    using that shm_invD(5) [OF inv(1)] by blast
  have mv': "addr_refs (sfa st') a = (if a \<in> set (obj_frames ob) then 1
      else if a \<in> set (obj_frames (objs st ! i)) then 0 else addr_refs (sfa st) a)" for a
    using mv by (simp add: moved_def)
  have "addr_refs (sfa st') a = (if a \<in> shm_frames st' then 1 else if a \<in> shm_frames st then 0
      else addr_refs (sfa st) a)" for a
  proof (cases "a \<in> ?R")
    case True
    then have "a \<notin> set (obj_frames (objs st ! i))" "a \<in> shm_frames st'" using dj unfolding F' by auto
    then show ?thesis using one [OF True] by (simp add: mv')
  next
    case False
    then have "a \<in> shm_frames st' \<longleftrightarrow> a \<in> set (obj_frames ob)"
      "a \<in> shm_frames st \<longleftrightarrow> a \<in> set (obj_frames (objs st ! i))" unfolding F F' by blast+
    then show ?thesis by (simp only: mv')
  qed
  moreover have "a \<in> shm_frames st \<or> addr_refs (sfa st) a = 0" if "a \<in> shm_frames st'" for a
  proof -
    have "a \<in> ?R \<or> a \<in> set (obj_frames ob)" using that unfolding F' by blast
    moreover have "a \<in> set (obj_frames (objs st ! i)) \<or> addr_refs (sfa st) a = 0" if "a \<in> set (obj_frames ob)"
      using mv that by (simp add: moved_def)
    moreover have "a \<in> shm_frames st" if "a \<in> ?R \<or> a \<in> set (obj_frames (objs st ! i))"
      using that unfolding F by blast
    ultimately show ?thesis by argo
  qed
  moreover have "frames_inv (sfa st')" using mv by (simp add: moved_def)
  ultimately show ?thesis unfolding shm_moved_def moved_def using inv(2) by (intro conjI allI ballI)
qed

lemma maybe_free_moved:
  assumes inv: "shm_inv st"
  shows "shm_moved st (maybe_free oid st)"
proof (cases "\<exists>ob. obj_at st oid = Some ob \<and> unreferenced ob")
  case True
  then obtain ob where ob: "obj_at st oid = Some ob" "unreferenced ob" by blast
  note m = maybe_free_spec(2) [OF inv ob]
  have i: "oid - 1 < MAX_OBJS" "ob = objs st ! (oid - 1)"
    using ob(1) shm_invD(2) [OF inv] by (auto simp: obj_at_Some)
  show ?thesis
    by (rule obj_moved [OF inv maybe_free_spec(1) [OF inv] i(1), of oid shm_empty]) (use m i(2) in simp_all)
next
  case False
  then have "maybe_free oid st = st" by (intro maybe_free_spec(3) [OF inv]) blast
  then show ?thesis using inv by (simp add: shm_moved_refl)
qed

lemma put_frames_moved:
  assumes inv: "shm_inv st" "shm_inv (put_obj oid ob st)" and ob: "obj_at st oid = Some ob'"
    and f: "obj_frames ob = obj_frames ob'"
  shows "shm_moved st (put_obj oid ob st)"
proof -
  have i: "oid - 1 < MAX_OBJS" "ob' = objs st ! (oid - 1)"
    using ob shm_invD(2) [OF inv(1)] by (auto simp: obj_at_Some)
  show ?thesis
    by (rule obj_moved [OF inv i(1), of ob])
      (use f i(2) moved_refl [OF shm_inv_owned [OF inv(1) i(1)]] in \<open>auto simp: put_obj_def\<close>)
qed

lemma fd_ref_moved:
  assumes inv: "shm_inv st"
  shows "shm_moved st (fd_ref oid d st)"
proof (cases "obj_at st oid")
  case None
  then show ?thesis using inv by (simp add: fd_ref_def maybe_free_moved shm_moved_refl)
next
  case (Some ob)
  let ?ob = "ob\<lparr>so_fd := add_refs (so_fd ob) d\<rparr>"
  have i: "shm_inv (put_obj oid ?ob st)"
    by (rule put_used_inv [OF inv Some]) (use Some in \<open>auto simp: obj_at_Some same_pages_def\<close>)
  have "shm_moved st (put_obj oid ?ob st)"
    by (rule put_frames_moved [OF inv i Some]) (simp add: obj_frames_def)
  then show ?thesis using Some maybe_free_moved [OF i] by (auto simp: fd_ref_def Let_def intro: shm_moved_trans)
qed

lemma create_moved:
  assumes inv: "shm_inv st" and c: "create nm st = Some (oid, st')"
  shows "shm_moved st st'"
proof -
  note s = create_spec [OF inv c]
  obtain i ob where i: "oid = i + 1" "position (\<lambda>ob. \<not> so_used ob) (objs st) = Some i"
    and st': "st' = put_obj oid ob st" and ob: "so_slots ob = []" "so_iframes ob = 0"
    using c by (auto simp: create_def Let_def shm_empty_def split: option.splits)
  have "i < MAX_OBJS" "\<not> so_used (objs st ! i)"
    using i(2) shm_invD(2) [OF inv] by (auto simp: position_Some_iff)
  then have "obj_frames (objs st ! i) = []" "obj_frames ob = []"
    using shm_invD(4) [OF inv, of i] ob by (simp_all add: obj_frames_def [of ob])
  then show ?thesis
    using \<open>i < MAX_OBJS\<close> i(1) shm_owned [OF inv]
    by (intro obj_moved [OF inv s(1), of i ob]) (auto simp: st' put_obj_def owned_def intro!: moved_refl)
qed

lemma open_named_moved:
  assumes inv: "shm_inv st" and o: "open_named n st = Some (oid, st')"
  shows "shm_moved st st'"
proof -
  obtain i where i: "position (named n) (objs st) = Some i" "oid = i + 1"
    and st': "st' = put_obj oid ((objs st ! i)\<lparr>so_fd := so_fd (objs st ! i) + 1\<rparr>) st"
    using o by (auto simp: open_named_def)
  have "obj_at st oid = Some (objs st ! i)"
    using i by (auto simp: obj_at_Some position_Some_iff named_def)
  then show ?thesis
    unfolding st' by (intro put_frames_moved [OF inv] put_used_inv [OF inv])
      (auto simp: obj_frames_def same_pages_def obj_at_Some)
qed

lemma truncate_moved:
  assumes inv: "shm_inv st" and t: "truncate oid sz st = (r, st')"
  shows "shm_moved st st'"
  using inv t
proof (rule truncate_cases)
  assume "st' = st" then show ?thesis using inv by (simp add: shm_moved_refl)
next
  assume "r = Inr ()"
  then have t': "truncate oid sz st = (Inr (), st')" using t by simp
  note s = truncate_spec [OF inv t']
  from s(8) show ?thesis by (elim exE conjE) (rule obj_moved [OF inv s(1)])
qed

lemma page_moved:
  assumes inv: "shm_inv st" and p: "page oid pg al st = (r, st')"
  shows "shm_moved st st'"
proof (cases "st' = st")
  case True
  then show ?thesis using inv by (simp add: shm_moved_refl)
next
  case False
  then obtain ob f fa where ob: "obj_at st oid = Some ob" and pg: "\<not> div_ceil (so_size ob) 4096 \<le> pg"
    and z: "so_slots ob ! pg = 0" and al: "alloc_frame (sfa st) = Some (f, fa)"
    and st': "st' = put_obj oid (ob\<lparr>so_slots := (so_slots ob)[pg := f]\<rparr>)
      (st\<lparr>sfa := fa, smem := mem_write (smem st) f (replicate 4096 0)\<rparr>)"
    using p by (auto simp: page_def Let_def split: option.splits if_splits)
  have i: "oid - 1 < MAX_OBJS" "ob = objs st ! (oid - 1)"
    using ob shm_invD(2) [OF inv] by (auto simp: obj_at_Some)
  have wf: "obj_wf ob" using shm_invD(3) [OF inv i(1)] i(2) by simp
  have own: "owned (set (obj_frames ob)) (sfa st)" using shm_inv_owned [OF inv i(1)] i(2) by simp
  note m = moved_alloc [OF own al]
  have len: "pg < length (so_slots ob)" using wf pg by (simp add: obj_wf_def)
  have "set ((so_slots ob)[pg := f]) - {0} = insert f (set (so_slots ob) - {0})"
    using m(2) unfolding set_update_hole [OF len z] by blast
  then have "set (obj_frames (ob\<lparr>so_slots := (so_slots ob)[pg := f]\<rparr>)) = insert f (set (obj_frames ob))"
    by (auto simp: obj_frames_set)
  then show ?thesis
    using m(1) i by (intro obj_moved [OF inv page_spec(1) [OF inv p] i(1)]) (auto simp: st')
qed

lemma write_loop_moved:
  "shm_inv st \<Longrightarrow> write_loop oid at bs st = (r, st') \<Longrightarrow> shm_moved st st'"
proof (induction oid at bs st arbitrary: r st' rule: write_loop.induct)
  case (1 oid at bs st)
  show ?case
  proof (cases "bs = []")
    case True
    then show ?thesis using 1(2,3) by (simp add: write_loop.simps shm_moved_refl)
  next
    case bs: False
    obtain p s where p: "page oid (at div 4096) True st = (p, s)" by (cases "page oid (at div 4096) True st")
    have m: "shm_moved st s" by (rule page_moved [OF 1(2) p])
    have s: "shm_inv s" using m by (simp add: shm_moved_def)
    show ?thesis
    proof (cases p)
      case None
      then show ?thesis using 1(3) bs p m by (subst (asm) write_loop.simps) (simp add: Let_def)
    next
      case (Some pa)
      let ?n = "min (4096 - at mod 4096) (length bs)"
      let ?s = "s\<lparr>smem := mem_write (smem s) (pa + at mod 4096) (take ?n bs)\<rparr>"
      have e: "write_loop oid (at + ?n) (drop ?n bs) ?s = (r, st')"
        using 1(3) bs p Some by (subst (asm) write_loop.simps) (simp add: Let_def)
      have i: "shm_inv ?s" using s by (rule shm_inv_smem)
      have "shm_moved ?s st'"
        by (rule 1(1) [OF bs refl refl _ _ i e]) (use p Some in auto)
      then show ?thesis using m shm_moved_same [OF i, of s] by (auto intro: shm_moved_trans)
    qed
  qed
qed

lemma rw_write_moved:
  assumes inv: "shm_inv st" and w: "rw_write oid off bs st = (r, st')"
  shows "shm_moved st st'"
proof (cases "off + length bs \<le> u64_max")
  case True
  obtain r1 s where t: "(if off + length bs > shm_size st oid then truncate oid (off + length bs) st
      else (Inr (), st)) = (r1, s)" by (metis surj_pair)
  have m: "shm_moved st s"
    using t inv truncate_moved [OF inv] by (auto simp: shm_moved_refl split: if_splits)
  obtain r2 s2 where l: "write_loop oid off bs s = (r2, s2)" by (metis surj_pair)
  have "shm_moved s s2" using write_loop_moved [OF _ l] m by (simp add: shm_moved_def)
  moreover have "st' = s \<or> st' = s2"
    using w True t l by (auto simp: rw_write_def checked_add_def split: sum.splits prod.splits if_splits)
  ultimately show ?thesis using m by (auto intro: shm_moved_trans)
next
  case False
  then have "st' = st" using w by (simp add: rw_write_def checked_add_def)
  then show ?thesis using inv by (simp add: shm_moved_refl)
qed

section \<open>The table of objects as a holder of spans\<close>

definition obj_spans :: "shm_obj \<Rightarrow> (nat \<times> nat) multiset" where
  "obj_spans ob = mset (map (\<lambda>a. (a, 1)) (obj_frames ob))"

definition obj_shape :: "shm_obj \<Rightarrow> bool" where
  "obj_shape ob \<longleftrightarrow> obj_wf ob \<and> (\<not> so_used ob \<longrightarrow> ob = shm_empty)"

lemma held_pages_union: "held_pages (A + B) = held_pages A + held_pages B"
  by (simp add: held_pages_def)

lemma held_obj_spans: "held_pages (obj_spans ob) = mset (obj_frames ob)"
proof -
  have "held_pages (mset (map (\<lambda>a. (a, 1)) xs)) = mset xs" for xs :: "nat list"
    by (induction xs) (simp_all add: span_pages_def)
  then show ?thesis by (simp add: obj_spans_def)
qed

lemma held_objs: "held_pages (table_spans obj_spans os) = mset (concat (map obj_frames os))"
  by (induction os) (simp_all add: held_pages_union held_obj_spans)

lemma shm_frames_concat:
  "length (objs st) = MAX_OBJS \<Longrightarrow> shm_frames st = set (concat (map obj_frames (objs st)))"
  unfolding shm_frames_def by (force simp: in_set_conv_nth)

lemma distinct_concat_nth:
  assumes "\<And>i. i < length xs \<Longrightarrow> distinct (xs ! i)"
    and "\<And>i j. i < length xs \<Longrightarrow> j < length xs \<Longrightarrow> i \<noteq> j \<Longrightarrow> set (xs ! i) \<inter> set (xs ! j) = {}"
  shows "distinct (concat xs)"
  using assms
proof (induction xs)
  case (Cons x xs)
  have "distinct (concat xs)"
  proof (rule Cons.IH)
    fix i assume "i < length xs" then show "distinct (xs ! i)" using Cons.prems(1) [of "Suc i"] by simp
  next
    fix i j assume "i < length xs" "j < length xs" "i \<noteq> j"
    then show "set (xs ! i) \<inter> set (xs ! j) = {}" using Cons.prems(2) [of "Suc i" "Suc j"] by simp
  qed
  moreover have "set x \<inter> set y = {}" if y: "y \<in> set xs" for y
  proof -
    obtain j where "j < length xs" "xs ! j = y" using y by (auto simp: in_set_conv_nth)
    then show ?thesis using Cons.prems(2) [of 0 "Suc j"] by simp
  qed
  ultimately show ?case using Cons.prems(1) [of 0] by auto
qed simp

lemma shm_distinct:
  assumes "shm_inv st"
  shows "distinct (concat (map obj_frames (objs st)))"
proof (rule distinct_concat_nth)
  fix i assume "i < length (map obj_frames (objs st))"
  then show "distinct (map obj_frames (objs st) ! i)"
    using shm_invD(2,3) [OF assms] by (simp add: obj_wf_def)
next
  fix i j assume "i < length (map obj_frames (objs st))" "j < length (map obj_frames (objs st))" "i \<noteq> j"
  then show "set (map obj_frames (objs st) ! i) \<inter> set (map obj_frames (objs st) ! j) = {}"
    using shm_invD(2,6) [OF assms] by simp
qed

lemma count_mset_le_1: "distinct xs \<longleftrightarrow> (\<forall>a. count (mset xs) a \<le> 1)"
proof -
  have "(\<forall>a. count (mset xs) a \<le> 1) \<longleftrightarrow> (\<forall>a. count (mset xs) a = (if a \<in> set xs then 1 else 0))"
    by (metis One_nat_def count_greater_eq_one_iff count_eq_zero_iff le_antisym set_mset_mset zero_le_one)
  then show ?thesis by (simp add: distinct_count_atmost_1)
qed

lemma distinct_concat_disjoint:
  "distinct (concat xs) \<Longrightarrow> i < length xs \<Longrightarrow> j < length xs \<Longrightarrow> i \<noteq> j \<Longrightarrow> set (xs ! i) \<inter> set (xs ! j) = {}"
proof (induction xs arbitrary: i j)
  case (Cons x xs)
  have in_concat: "k < length xs \<Longrightarrow> set (xs ! k) \<subseteq> set (concat xs)" for k by force
  have head: "set x \<inter> set (xs ! k) = {}" if "k < length xs" for k
    using Cons.prems(1) in_concat [OF that] by auto
  show ?case
  proof (cases i)
    case 0
    then obtain k where "j = Suc k" "k < length xs" using Cons.prems by (cases j) auto
    then show ?thesis using 0 head by simp
  next
    case (Suc m)
    show ?thesis
    proof (cases j)
      case 0
      then show ?thesis using Suc Cons.prems(2) head [of m] by auto
    next
      case (Suc k)
      then show ?thesis using \<open>i = Suc m\<close> Cons.IH [of m k] Cons.prems by simp
    qed
  qed
qed simp

lemma shm_of_spans:
  assumes ok: "spans_ok fa (table_spans obj_spans os + X)" and len: "length os = MAX_OBJS"
    and sh: "list_all obj_shape os"
  shows "shm_inv \<lparr>objs = os, sfa = fa, smem = m\<rparr>"
proof (rule shm_invI)
  let ?F = "concat (map obj_frames os)"
  have le: "count (held_pages (table_spans obj_spans os + X)) a \<le> 1" for a using ok by (simp add: spans_ok_def)
  have "count (mset ?F) a \<le> 1" for a using le [of a] by (simp add: held_pages_union held_objs)
  then have d: "distinct ?F" by (simp add: count_mset_le_1)
  have own: "owned (set ?F) fa"
    using spans_okD(2) [OF ok] by (auto simp: owned_def held_pages_union held_objs)
  show "frames_inv (sfa \<lparr>objs = os, sfa = fa, smem = m\<rparr>)" using own by (simp add: owned_def)
  show "length (objs \<lparr>objs = os, sfa = fa, smem = m\<rparr>) = MAX_OBJS" using len by simp
  fix i assume i: "i < MAX_OBJS"
  show "obj_wf (objs \<lparr>objs = os, sfa = fa, smem = m\<rparr> ! i)"
    "\<not> so_used (objs \<lparr>objs = os, sfa = fa, smem = m\<rparr> ! i) \<Longrightarrow> objs \<lparr>objs = os, sfa = fa, smem = m\<rparr> ! i = shm_empty"
    using sh i len by (auto simp: list_all_length obj_shape_def)
  fix a assume "a \<in> set (obj_frames (objs \<lparr>objs = os, sfa = fa, smem = m\<rparr> ! i))"
  then have "a \<in> set ?F" using i len by (force simp: in_set_conv_nth)
  then show "addr_refs (sfa \<lparr>objs = os, sfa = fa, smem = m\<rparr>) a = 1" using own by (auto simp: owned_def)
next
  fix i j assume "i < MAX_OBJS" "j < MAX_OBJS" "i \<noteq> j"
  moreover have "distinct (concat (map obj_frames os))"
  proof -
    have "count (mset (concat (map obj_frames os))) a \<le> 1" for a
    proof -
      have "count (held_pages (table_spans obj_spans os + X)) a \<le> 1" using ok by (simp add: spans_ok_def)
      then show ?thesis by (simp add: held_pages_union held_objs)
    qed
    then show ?thesis by (simp add: count_mset_le_1)
  qed
  ultimately show "set (obj_frames (objs \<lparr>objs = os, sfa = fa, smem = m\<rparr> ! i)) \<inter>
      set (obj_frames (objs \<lparr>objs = os, sfa = fa, smem = m\<rparr> ! j)) = {}"
    using distinct_concat_disjoint [of "map obj_frames os" i j] len by simp
qed

lemma addr_refs_aligned:
  assumes "frames_inv fa" "addr_refs fa a = 1"
  shows "4096 dvd a" "0 < a"
  using assms by (auto simp: addr_refs_def heap_frame_def frames_inv_def frames_wf_def plat_ok_def split: if_splits)

lemma spans_of_shm:
  assumes ok: "spans_ok (sfa s) (table_spans obj_spans (objs s) + X)"
    and inv: "shm_inv s" and mv: "shm_moved s s'"
  shows "spans_ok (sfa s') (table_spans obj_spans (objs s') + X)" "length (objs s') = MAX_OBJS"
    "list_all obj_shape (objs s')"
proof -
  have inv': "shm_inv s'" using mv by (simp add: shm_moved_def)
  note D = shm_invD [OF inv'] and len = shm_invD(2) [OF inv]
  show "length (objs s') = MAX_OBJS" by (rule D(2))
  then show "list_all obj_shape (objs s')" using D(3,4) by (simp add: list_all_length obj_shape_def)
  let ?F = "concat (map obj_frames (objs s))" and ?F' = "concat (map obj_frames (objs s'))"
  have m: "moved (set ?F) (sfa s) (set ?F') (sfa s')"
    using mv len D(2) by (simp add: shm_moved_def shm_frames_concat)
  have one: "count (mset ?F) a + count (held_pages X) a \<le> 1" for a
    using ok by (simp add: spans_ok_def held_pages_union held_objs)
  have X: "a \<notin> set ?F \<and> addr_refs (sfa s) a = 1" if "a \<in># held_pages X" for a
  proof -
    have "1 \<le> count (held_pages X) a" using that by simp
    then have "count (mset ?F) a = 0" using one [of a] by linarith
    then show ?thesis
      using that ok by (simp add: spans_ok_def owned_def held_pages_union count_eq_zero_iff)
  qed
  have X': "a \<notin> set ?F' \<and> addr_refs (sfa s') a = 1" if "a \<in># held_pages X" for a
    using X [OF that] m unfolding moved_def by (metis One_nat_def zero_neq_one)
  have F': "addr_refs (sfa s') a = 1" if "a \<in> set ?F'" for a using m that by (simp add: moved_def)
  have "count (mset ?F') a + count (held_pages X) a \<le> 1" for a
  proof (cases "a \<in># held_pages X")
    case True
    then have "count (mset ?F') a = 0" using X' by (simp add: count_eq_zero_iff)
    then show ?thesis using one [of a] by linarith
  next
    case False
    then have "count (held_pages X) a = 0" by (simp add: count_eq_zero_iff)
    then show ?thesis using shm_distinct [OF inv'] unfolding count_mset_le_1 by simp
  qed
  moreover have "4096 dvd b \<and> 0 < b" if "(b, n) \<in># table_spans obj_spans (objs s')" for b n
  proof -
    have "b \<in> set ?F'" using that by (auto simp: table_spans_def obj_spans_def)
    then show ?thesis using addr_refs_aligned [OF D(1)] F' by blast
  qed
  moreover have "4096 dvd b \<and> 0 < b" if "(b, n) \<in># X" for b n
    using ok that unfolding spans_ok_def by (metis (no_types, lifting) case_prodD union_iff)
  moreover have "owned (set_mset (held_pages (table_spans obj_spans (objs s') + X))) (sfa s')"
    using D(1) F' X' by (auto simp: owned_def held_pages_union held_objs)
  ultimately show "spans_ok (sfa s') (table_spans obj_spans (objs s') + X)"
    by (auto simp: spans_ok_def held_pages_union held_objs)
qed

section \<open>Descriptor counts\<close>

text \<open>The references descriptors hold on each object, 0 for a free slot.\<close>

definition shm_fds :: "shm_obj list \<Rightarrow> nat \<Rightarrow> nat" where
  "shm_fds os oid =
     (if 0 < oid \<and> oid - 1 < length os \<and> so_used (os ! (oid - 1)) then so_fd (os ! (oid - 1)) else 0)"

lemma shm_fds_obj: "shm_fds (objs s) oid = (case obj_at s oid of None \<Rightarrow> 0 | Some ob \<Rightarrow> so_fd ob)"
  by (simp add: shm_fds_def obj_at_def)

lemma shm_fds_set:
  "i < length os \<Longrightarrow> shm_fds (os[i := ob]) = (shm_fds os)(i + 1 := if so_used ob then so_fd ob else 0)"
  by (auto simp: shm_fds_def fun_eq_iff nth_list_update)

lemma shm_fds_put:
  assumes "obj_at s oid = Some x"
  shows "shm_fds ((objs s)[oid - 1 := ob]) = (shm_fds (objs s))(oid := if so_used ob then so_fd ob else 0)"
  using assms shm_fds_set [of "oid - 1" "objs s" ob] by (auto simp: obj_at_Some)

lemma shm_fds_keep:
  assumes "obj_at s oid = Some x" "so_used ob" "so_fd ob = so_fd x"
  shows "shm_fds ((objs s)[oid - 1 := ob]) = shm_fds (objs s)"
proof -
  have "shm_fds (objs s) oid = so_fd x" using assms(1) by (simp add: shm_fds_obj)
  then show ?thesis unfolding shm_fds_put [OF assms(1)] using assms(2,3) by (simp add: fun_upd_idem)
qed

lemma maybe_free_fds [simp]: "shm_fds (objs (maybe_free oid s)) = shm_fds (objs s)"
proof (cases "obj_at s oid")
  case (Some ob)
  have "shm_fds ((objs s)[oid - 1 := shm_empty]) = shm_fds (objs s)" if "so_fd ob = 0"
    unfolding shm_fds_put [OF Some] using that Some by (simp add: shm_empty_def shm_fds_obj fun_upd_idem)
  then show ?thesis using Some by (simp add: maybe_free_def Let_def put_obj_def)
qed (simp add: maybe_free_def)

lemma fd_ref_fds:
  "shm_fds (objs (fd_ref oid d s)) = (shm_fds (objs s))(oid := if obj_at s oid = None then 0 else add_refs (shm_fds (objs s) oid) d)"
proof (cases "obj_at s oid")
  case None
  then show ?thesis by (simp add: fd_ref_def Let_def fun_upd_idem shm_fds_obj)
next
  case (Some ob)
  have u: "shm_fds (objs s) oid = so_fd ob" using Some by (simp add: shm_fds_obj)
  have w: "so_used ob" using Some unfolding obj_at_Some by blast
  have "shm_fds (objs (fd_ref oid d s)) = shm_fds ((objs s)[oid - 1 := ob\<lparr>so_fd := add_refs (so_fd ob) d\<rparr>])"
    using Some by (simp add: fd_ref_def Let_def put_obj_def)
  then show ?thesis unfolding shm_fds_put [OF Some] using u w Some by simp
qed

lemma map_ref_fds: "shm_fds (objs (map_ref oid d s)) = shm_fds (objs s)"
proof (cases "obj_at s oid")
  case (Some ob)
  have "so_used ob" using Some unfolding obj_at_Some by blast
  then show ?thesis using Some shm_fds_keep [OF Some, of "ob\<lparr>so_map := add_refs (so_map ob) d\<rparr>"]
    by (simp add: map_ref_def Let_def put_obj_def)
qed (simp add: map_ref_def)

lemma unlink_fds: "shm_fds (objs (snd (unlink n s))) = shm_fds (objs s)"
proof (cases "position (named n) (objs s)")
  case (Some i)
  then have ob: "obj_at s (i + 1) = Some (objs s ! i)" by (auto simp: obj_at_Some position_Some_iff named_def)
  then have "so_used (objs s ! i)" by (simp add: obj_at_Some)
  then show ?thesis using Some shm_fds_keep [OF ob, of "(objs s ! i)\<lparr>so_named := False\<rparr>"]
    by (simp add: unlink_def put_obj_def)
qed (simp add: unlink_def)

lemma create_fds:
  assumes "create nm s = Some (oid, s')"
  shows "shm_fds (objs s) oid = 0" "shm_fds (objs s') = (shm_fds (objs s))(oid := 1)" "0 < oid" "oid - 1 < length (objs s)"
    "obj_at s' oid \<noteq> None"
proof -
  obtain i ob where i: "position (\<lambda>ob. \<not> so_used ob) (objs s) = Some i" "oid = i + 1" "s' = put_obj (i + 1) ob s"
    and ob: "so_used ob" "so_fd ob = 1"
    using assms by (auto simp: create_def Let_def shm_empty_def split: option.splits)
  have l: "i < length (objs s)" "\<not> so_used (objs s ! i)" using position_Some [OF i(1)] by simp_all
  show "shm_fds (objs s) oid = 0" "0 < oid" "oid - 1 < length (objs s)" using i(2) l by (simp_all add: shm_fds_def)
  show "shm_fds (objs s') = (shm_fds (objs s))(oid := 1)" using i l ob by (simp add: put_obj_def shm_fds_set)
  show "obj_at s' oid \<noteq> None" using i l ob by (simp add: obj_at_def put_obj_def)
qed

lemma grow_index_fds:
  "grow_index ob n fa = Some (ob', fa') \<Longrightarrow> so_fd ob' = so_fd ob \<and> so_used ob' = so_used ob"
  by (auto simp: grow_index_def Let_def split: if_splits option.splits)

lemma truncate_fds: "shm_fds (objs (snd (truncate oid sz s))) = shm_fds (objs s)"
proof (cases "MAX_SIZE < sz \<or> obj_at s oid = None")
  case False
  then obtain ob where ob: "\<not> MAX_SIZE < sz" "obj_at s oid = Some ob" by auto
  show ?thesis
  proof (cases "grow_index ob (div_ceil sz 4096) (sfa s)")
    case (Some p)
    obtain ob' fa where g: "grow_index ob (div_ceil sz 4096) (sfa s) = Some (ob', fa)" using Some by (cases p) simp
    have "so_used ob" using ob(2) unfolding obj_at_Some by blast
    then show ?thesis using ob(1) g grow_index_fds [OF g] shm_fds_keep [OF ob(2)]
      by (simp add: truncate_def Let_def ob(2) put_obj_def)
  qed (use ob in \<open>simp add: truncate_def Let_def\<close>)
qed (auto simp: truncate_def)

lemma page_fds: "shm_fds (objs (snd (page oid pg al s))) = shm_fds (objs s)"
proof (cases "obj_at s oid")
  case (Some ob)
  have "so_used ob" using Some unfolding obj_at_Some by blast
  then show ?thesis using shm_fds_keep [OF Some]
    by (simp add: page_def Let_def Some put_obj_def split: option.split)
qed (simp add: page_def)

lemma write_loop_fds: "shm_fds (objs (snd (write_loop oid at bs s))) = shm_fds (objs s)"
proof (induction oid at bs s rule: write_loop.induct)
  case (1 oid at bs s)
  show ?case
  proof (cases "bs = []")
    case False
    obtain p s1 where p: "page oid (at div 4096) True s = (p, s1)" by (cases "page oid (at div 4096) True s")
    have f: "shm_fds (objs s1) = shm_fds (objs s)" using page_fds [of oid "at div 4096" True s] p by simp
    show ?thesis
    proof (cases p)
      case None
      then show ?thesis using False p f by (subst write_loop.simps) (simp add: Let_def)
    next
      case (Some pa)
      then show ?thesis using 1 [OF False refl refl p [symmetric] Some] False p f
        by (subst write_loop.simps) (simp add: Let_def)
    qed
  qed (simp add: write_loop.simps)
qed

lemma rw_write_fds: "shm_fds (objs (snd (rw_write oid off bs s))) = shm_fds (objs s)"
proof -
  let ?t = "if off + length bs > shm_size s oid then truncate oid (off + length bs) s else (Inr (), s)"
  have t: "shm_fds (objs (snd ?t)) = shm_fds (objs s)" by (simp add: truncate_fds)
  show ?thesis
    using t write_loop_fds [of oid off bs "snd ?t"]
    by (auto simp: rw_write_def checked_add_def split: sum.split prod.splits option.splits if_splits)
qed

text \<open>Mapping and unlinking.\<close>

lemma map_ref_moved:
  assumes inv: "shm_inv st"
  shows "shm_moved st (map_ref oid d st)"
proof (cases "obj_at st oid")
  case None
  then show ?thesis using inv by (simp add: map_ref_def maybe_free_moved shm_moved_refl)
next
  case (Some ob)
  let ?ob = "ob\<lparr>so_map := add_refs (so_map ob) d\<rparr>"
  have i: "shm_inv (put_obj oid ?ob st)"
    by (rule put_used_inv [OF inv Some]) (use Some in \<open>auto simp: obj_at_Some same_pages_def\<close>)
  have "shm_moved st (put_obj oid ?ob st)"
    by (rule put_frames_moved [OF inv i Some]) (simp add: obj_frames_def)
  then show ?thesis using Some maybe_free_moved [OF i] by (auto simp: map_ref_def Let_def intro: shm_moved_trans)
qed

lemma unlink_moved:
  assumes inv: "shm_inv st"
  shows "shm_moved st (snd (unlink n st))"
proof (cases "position (named n) (objs st)")
  case (Some j)
  then have ob: "obj_at st (j + 1) = Some (objs st ! j)" by (auto simp: obj_at_Some position_Some_iff named_def)
  let ?ob = "(objs st ! j)\<lparr>so_named := False\<rparr>"
  have i: "shm_inv (put_obj (j + 1) ?ob st)"
    by (rule put_used_inv [OF inv ob]) (use ob in \<open>auto simp: obj_at_Some same_pages_def\<close>)
  have "shm_moved st (put_obj (j + 1) ?ob st)"
    by (rule put_frames_moved [OF inv i ob]) (simp add: obj_frames_def)
  then show ?thesis using Some maybe_free_moved [OF i] by (auto simp: unlink_def intro: shm_moved_trans)
qed (use inv in \<open>simp add: unlink_def shm_moved_refl\<close>)

end
