(* ===== verification/Unix_Props.thy ===== *)
theory Unix_Props
  imports Unix
begin

text \<open>
  Properties of the local sockets of \<open>kernel/src/unix.rs\<close>: a stream end is a byte channel and a
  packet end a message channel whatever else the system does; descriptors sent with
  \<open>SCM_RIGHTS\<close> arrive exactly with the bytes they were sent with, as long as no empty write
  carries descriptors; and the two ways the code falls short of this.
\<close>

section \<open>A concrete connection\<close>

definition unix_boot :: "frames \<Rightarrow> mem \<Rightarrow> unix_st" where
  "unix_boot fa m = \<lparr>kfa = fa, kmem = m, iseq = replicate 64 0, pend = [], pany = False,
     block_on = (\<lambda>_. (0, 0, 0)), pipes = replicate MAX_PIPES pipe_empty,
     conns = replicate MAX_CONNS cempty, listeners = replicate MAX_LISTEN lempty\<rparr>"

lemma unix_boot_inv: "frames_inv fa \<Longrightarrow> unix_inv {#} (unix_boot fa m)"
  by (simp add: unix_inv_def pipes_inv_def unix_boot_def waits_wf_def table_spans_replicate spans_ok_none list_all_iff)

lemma room_alloc_two:
  obtains a fa b fb where "alloc_contig PAGES room_frames = Some (a, fa)" "alloc_contig PAGES fa = Some (b, fb)"
proof -
  obtain a fa where a: "alloc_contig PAGES room_frames = Some (a, fa)"
    using room_alloc [of PAGES] by (auto simp: PAGES_def)
  have n: "num_frames room_platform = 64"
    by (simp add: num_frames_def room_platform_def PAGE_SIZE_def)
  obtain s where s: "free_run room_frames PAGES s" "frames_inv fa" "plat fa = room_platform"
      "frame_refs fa = (\<lambda>i. if s \<le> i \<and> i < s + PAGES then 1 else frame_refs room_frames i)"
    using alloc_contig_Some [OF room_inv(1) a] room_inv(2) by metis
  have room: "frame_refs room_frames i = 0" if "i < 64" for i
    using room_inv(3) that by (auto simp: frame_refs_def free_run_def)
  have "\<exists>t \<le> 48. \<forall>i. t \<le> i \<and> i < t + PAGES \<longrightarrow> \<not> (s \<le> i \<and> i < s + PAGES)"
  proof (cases "PAGES \<le> s")
    case True
    then show ?thesis by (intro exI [of _ 0]) auto
  next
    case False
    then show ?thesis by (intro exI [of _ 32]) (auto simp: PAGES_def)
  qed
  then obtain t where t: "t \<le> 48" "\<forall>i. t \<le> i \<and> i < t + PAGES \<longrightarrow> \<not> (s \<le> i \<and> i < s + PAGES)" by blast
  have "\<not> used fa i" if "t \<le> i" "i < t + PAGES" for i
  proof -
    have i: "i < 64" using that t(1) by (simp add: PAGES_def)
    then have "frame_refs fa i = 0" using t(2) that s(4) room by simp
    moreover have "used fa i \<longrightarrow> 1 \<le> refcount fa ! i"
      using frames_wfD(5) [OF frames_invD(1) [OF s(2)]] i n s(3) by simp
    ultimately show ?thesis using i n s(3) by (auto simp: frame_refs_def split: if_splits)
  qed
  then have "free_run fa PAGES t" using t(1) n s(3) by (simp add: free_run_def PAGES_def)
  then have "alloc_contig PAGES fa \<noteq> None"
    using alloc_contig_None_iff [OF frames_invD(1) [OF s(2)], of PAGES] by (auto simp: PAGES_def)
  then show thesis using that a by auto
qed

lemma conn_demo:
  obtains a b st where "conn_new packet (unix_boot room_frames m) = (Inr 0, st)" "unix_inv {#} st"
    "conns st ! 0 = fresh_conn packet a b" "length (conns st) = MAX_CONNS" "kmem st = m" "live_end 0 e st \<longleftrightarrow> e < 2"
proof -
  let ?s = "unix_boot room_frames m"
  have inv: "unix_inv {#} ?s" by (rule unix_boot_inv [OF room_inv(1)])
  obtain a fa b fb where al: "alloc_contig PAGES room_frames = Some (a, fa)" "alloc_contig PAGES fa = Some (b, fb)"
    by (rule room_alloc_two)
  have "position (\<lambda>k. \<not> c_used k) (conns ?s) = Some 0"
    by (simp add: position_Some_iff unix_boot_def MAX_CONNS_def)
  then have n: "conn_new packet ?s = (Inr 0, put_conn 0 (fresh_conn packet a b) (?s\<lparr>kfa := fb\<rparr>))"
    using al by (simp add: conn_new_def unix_boot_def fresh_conn_def)
  show thesis
    by (rule that [OF n conn_new_inv(1) [OF inv n]])
       (simp_all add: unix_boot_def MAX_CONNS_def live_end_def fresh_conn_def)
qed

section \<open>Properties\<close>

text \<open>
  What the next read and write do: bytes in the queue are returned at once, on an empty queue a read
  reports the end exactly when the other side has closed or was shut down, and a write to a closed end fails.
\<close>

lemma read_at_end:
  assumes "queue_bytes c e st = []" "unix_inv M st" "live_end c e st"
  shows "(\<exists>x. fst (unix_read cpu c e len nb st) = Inr x) \<longleftrightarrow> c_refs (conns st ! c) ! (1 - e) = 0 \<or> q_eof (the_queue c e st)"
proof -
  have "q_len (the_queue c e st) = 0" using assms(1) queue_len(1) [OF assms(2,3)] by simp
  then show ?thesis by (auto simp: unix_read_def the_queue_def Let_def split: prod.split)
qed

lemma stream_read_now:
  assumes "stream_inv M c e st" "queue_bytes c e st \<noteq> []" "0 < len"
  shows "\<exists>bs fds. fst (unix_read cpu c e len nb st) = Inr (bs, False, fds) \<and> bs \<noteq> []"
proof -
  let ?q = "the_queue c e st"
  have inv: "unix_inv M st" and l: "live_end c e st" and p: "\<not> c_packet (conns st ! c)"
    using assms(1) by (auto simp: stream_inv_def)
  have q: "q_len ?q \<noteq> 0" using assms(2) queue_len(1) [OF inv l] by (metis length_0_conv)
  obtain fds q1 where f: "take_fds ?q = (fds, q1)" by fastforce
  have q1: "q_len q1 = q_len ?q" "q_rpos q1 = q_rpos ?q" using f by (auto simp: take_fds_def split: if_splits)
  obtain n q2 where a: "take_amount False len q1 = ((n, n, False), q2)" "0 < n"
    using q q1 assms(3) by (auto simp: take_amount_def Let_def)
  have "fst (unix_read cpu c e len nb st) = Inr (ring_read CAP (kmem st) (q_buf q2) (q_head q2) n 0, False, fds)"
    using q p f a(1) by (simp add: unix_read_def the_queue_def Let_def)
  moreover have "ring_read CAP (kmem st) (q_buf q2) (q_head q2) n 0 \<noteq> []" using a(2) by (simp add: ring_read_eq)
  ultimately show ?thesis by blast
qed

lemma packet_read_now:
  assumes "packet_inv M c e st" "queue_bytes c e st \<noteq> []"
  shows "\<exists>fds. fst (unix_read cpu c e len nb st) = Inr (take len (hd (packets c e st)), len < length (hd (packets c e st)), fds)"
proof -
  obtain r s where r: "unix_read cpu c e len nb st = (r, s)" by fastforce
  have "q_len (the_queue c e st) \<noteq> 0"
    using assms queue_len(1) [of M st c e] by (metis length_0_conv packet_inv_def)
  from read_packet [OF assms(1) r this] show ?thesis unfolding r by (metis fst_conv list.sel(1))
qed

lemma write_closed: "c_refs (conns st ! c) ! (1 - e) = 0 \<Longrightarrow> fst (unix_write cpu c e src nb files st) = Inl EPIPE"
  by (simp add: unix_write_def Let_def)

text \<open>C24. A stream connection loses, repeats and reorders nothing. Over any sequence of writes of one
  end and reads of the other, mixed with every other call of the module (new, duplicated and closed ends, also of
  this connection as long as one is left, listening, connecting, accepting, closed listeners, shutdowns, and
  traffic on every other queue), the bytes queued before followed by the bytes accepted are the bytes
  read followed by the bytes still queued. What is queued survives the close of the writing end: a read returns
  some of it at once, and the end is reported on an empty queue exactly when the other end is closed or shut down;
  writes fail once the reading end is closed.\<close>

theorem unix_stream_order:
  assumes "stream_inv M c e st"
    and "fifo.run (stream_put cpu nb files c e) (stream_get cpu nb c e) (unix_other cpu c e) ops st = (ins, outs, st')"
  shows "queue_bytes c e st @ ins = outs @ queue_bytes c e st' \<and> stream_inv M c e st' \<and>
    (queue_bytes c e st' \<noteq> [] \<and> 0 < len \<longrightarrow>
      (\<exists>bs fds. fst (unix_read cpu c e len nb st') = Inr (bs, False, fds) \<and> bs \<noteq> [])) \<and>
    (queue_bytes c e st' = [] \<longrightarrow> ((\<exists>x. fst (unix_read cpu c e len nb st') = Inr x) \<longleftrightarrow>
      c_refs (conns st' ! c) ! (1 - e) = 0 \<or> q_eof (the_queue c e st'))) \<and>
    (c_refs (conns st' ! c) ! e = 0 \<longrightarrow> fst (unix_write cpu c (1 - e) src nb files st') = Inl EPIPE)"
proof -
  have r: "stream_inv M c e st' \<and> queue_bytes c e st @ ins = outs @ queue_bytes c e st'"
    using stream_channel.run_order [OF assms(1), where cpu = cpu and nb = nb and files = files and ops = ops] assms(2)
    by auto
  then have i: "unix_inv M st'" "live_end c e st'" "1 - (1 - e) = e" by (auto simp: stream_inv_def live_end_def)
  show ?thesis
    using r stream_read_now [of M c e st' len cpu nb] read_at_end [OF _ i(1,2)] write_closed [of st' c "1 - e", unfolded i(3)]
    by blast
qed

text \<open>C25. In packet mode the queue is a list of whole messages. Over any sequence of sends and receives of
  any sizes, with any buffers, mixed with every other call of the module as in C24, the messages queued before
  followed by those accepted are those received followed by those still queued: a receive takes exactly the first
  message, returns as much of it as the buffer holds, tells whether there was more, and the rest of that message is
  gone; no message is cut, merged, repeated or reordered. A receive finds a message at once as long as the queue has
  bytes. A queue whose messages are all empty has none (the flaw shown by \<open>unix_empty_message_unreadable\<close>): there a
  receive returns no message and leaves the queue, until bytes follow.\<close>

theorem unix_packet_order:
  assumes "packet_inv M c e st"
    and "message_queue.run (packet_put c e) (packet_get c e) (unix_other cpu c e) ops st = (ins, outs, st')"
  shows "(\<exists>ms. packets c e st @ ins = ms @ packets c e st' \<and>
      list_all2 (\<lambda>m ((_, len, _), bs, trunc). bs = take len m \<and> (trunc \<longleftrightarrow> len < length m)) ms outs) \<and>
    packet_inv M c e st' \<and>
    (queue_bytes c e st' \<noteq> [] \<longrightarrow> (\<exists>fds. fst (unix_read cpu c e len nb st') =
      Inr (take len (hd (packets c e st')), len < length (hd (packets c e st')), fds))) \<and>
    (queue_bytes c e st' = [] \<longrightarrow> ((\<exists>x. fst (unix_read cpu c e len nb st') = Inr x) \<longleftrightarrow>
      c_refs (conns st' ! c) ! (1 - e) = 0 \<or> q_eof (the_queue c e st')))"
proof -
  obtain ms where ms: "packet_inv M c e st'" "packets c e st @ ins = ms @ packets c e st'"
    "list_all2 (\<lambda>m (g, r). r = seen_of g m) ms outs"
    using packet_channel.run_order [OF assms(1), where cpu = cpu and ops = ops] assms(2) by blast
  have "list_all2 (\<lambda>m ((_, len, _), bs, trunc). bs = take len m \<and> (trunc \<longleftrightarrow> len < length m)) ms outs"
    using ms(3) by (rule list_all2_mono) (auto simp: seen_of_def)
  moreover have "unix_inv M st'" "live_end c e st'" using ms(1) by (auto simp: packet_inv_def)
  ultimately show ?thesis using ms(1,2) packet_read_now [OF ms(1)] read_at_end [of c e st' M] by blast
qed

lemma fresh_bytes:
  assumes "conns st ! 0 = fresh_conn packet a b" "e < 2"
  shows "queue_bytes 0 e st = []" "packets 0 e st = []"
  using assms by (auto simp: queue_bytes_def packets_def the_queue_def fresh_conn_def qempty_def ring_bytes_def
      msg_sizes_def less_2_cases_iff)

lemma all_out: "ins = outs @ rest \<Longrightarrow> length outs = length ins \<Longrightarrow> outs = ins"
  by simp

text \<open>The writing end is closed with a byte unread, which the next read returns; then the end.\<close>

theorem unix_stream_order_witness:
  "\<exists>st st'. conn_new False (unix_boot room_frames (\<lambda>_. 0)) = (Inr 0, st) \<and>
     fifo.run (stream_put 0 True [] 0 1) (stream_get 0 True 0 1) (unix_other 0 0 1)
       [Put [1, 2, 3], Get 2, Other (Write_end 0 1 [9] True []), Put [4], Other (Drop_end 0 0), Get 9] st =
       ([1, 2, 3, 4], [1, 2, 3, 4], st') \<and> fst (unix_read 0 0 1 9 True st') = Inr ([], False, [])"
proof -
  obtain a b st where s: "conn_new False (unix_boot room_frames (\<lambda>_. 0)) = (Inr 0, st)" "unix_inv {#} st"
    "conns st ! 0 = fresh_conn False a b" "length (conns st) = MAX_CONNS" "kmem st = (\<lambda>_. 0)" "live_end 0 1 st \<longleftrightarrow> (1 :: nat) < 2"
    by (rule conn_demo [where e = 1])
  have i: "0 < MAX_CONNS" by (simp add: MAX_CONNS_def)
  have inv: "stream_inv {#} 0 1 st" using s by (simp add: stream_inv_def fresh_conn_def)
  obtain ins outs st' where r: "fifo.run (stream_put 0 True [] 0 1) (stream_get 0 True 0 1) (unix_other 0 0 1)
      [Put [1, 2, 3], Get 2, Other (Write_end 0 1 [9] True []), Put [4], Other (Drop_end 0 0), Get 9] st = (ins, outs, st')"
    by (metis prod_cases3)
  have v: "ins = [1, 2, 3, 4] \<and> length outs = 4 \<and> c_refs (conns st' ! 0) ! 0 = 0"
    using r s(3-5) i
    by (auto simp: stream_channel.run.simps stream_put_def stream_get_def unix_other_def live_end_def
        unix_write_def unix_read_def Let_def CAP_def fresh_conn_def qempty_def cempty_def put_queue_conn
        take_fds_def take_amount_def ring_read_bytes ring_bytes_def unix_drop_ref_def)
  note t = unix_stream_order [OF inv r, of 9 "[]"]
  have "ins = outs @ queue_bytes 0 1 st'" using t fresh_bytes(1) [OF s(3), of 1] by simp
  note e = this
  have "length (outs @ queue_bytes 0 1 st') = 4" unfolding e [symmetric] using v by simp
  then have o: "outs = ins" "queue_bytes 0 1 st' = []" using v e by auto
  moreover obtain x where x: "fst (unix_read 0 0 1 9 True st') = Inr x"
    using conjunct1 [OF conjunct2 [OF conjunct2 [OF conjunct2 [OF t]]], rule_format, OF o(2)] v by (metis diff_self_eq_0)
  have "q_len (the_queue 0 1 st') = 0" using o(2) queue_len(1) [of "{#}" st' 0 1] t by (auto simp: stream_inv_def)
  then have "fst (unix_read 0 0 1 9 True st') = Inr ([], False, [])"
    using x by (auto simp: unix_read_def the_queue_def Let_def split: if_splits prod.splits)
  ultimately show ?thesis using s(1) r v by blast
qed

text \<open>Three messages, one of them empty; the first is read with a buffer that is too short.\<close>

theorem unix_packet_order_witness:
  "\<exists>st st'. conn_new True (unix_boot room_frames (\<lambda>_. 0)) = (Inr 0, st) \<and>
     message_queue.run (packet_put 0 1) (packet_get 0 1) (unix_other 0 0 1)
       [Send_op (0, [1, 2, 3], True, []), Send_op (0, [], True, []), Send_op (0, [4], True, []),
        Receive_op (0, 2, True), Other_op (Drop_end 0 0), Receive_op (0, 9, True), Receive_op (0, 9, True)] st =
       ([[1, 2, 3], [], [4]], [((0, 2, True), [1, 2], True), ((0, 9, True), [], False), ((0, 9, True), [4], False)], st') \<and>
     packets 0 1 st' = []"
proof -
  obtain a b st where s: "conn_new True (unix_boot room_frames (\<lambda>_. 0)) = (Inr 0, st)" "unix_inv {#} st"
    "conns st ! 0 = fresh_conn True a b" "length (conns st) = MAX_CONNS" "kmem st = (\<lambda>_. 0)" "live_end 0 1 st \<longleftrightarrow> (1 :: nat) < 2"
    by (rule conn_demo [where e = 1])
  have i: "0 < MAX_CONNS" by (simp add: MAX_CONNS_def)
  have inv: "packet_inv {#} 0 1 st" using s by (simp add: packet_inv_def fresh_conn_def)
  let ?ops = "[Send_op (0, [1, 2, 3], True, []), Send_op (0, [], True, []), Send_op (0, [4], True, []),
        Receive_op (0, 2, True), Other_op (Drop_end 0 0), Receive_op (0, 9, True), Receive_op (0, 9, True)]"
  obtain ins outs st' where r: "message_queue.run (packet_put 0 1) (packet_get 0 1) (unix_other 0 0 1) ?ops st = (ins, outs, st')"
    by (metis prod_cases3)
  have v: "ins = [[1, 2, 3], [], [4]] \<and> map fst outs = [(0, 2, True), (0, 9, True), (0, 9, True)]"
    using r s(3-5) i
    by (auto simp: packet_channel.run.simps packet_put_def packet_get_def the_queue_def unix_other_def live_end_def
        unix_write_def unix_read_def Let_def CAP_def fresh_conn_def qempty_def cempty_def put_queue_conn
        take_fds_def take_amount_def ring_read_bytes MSGQ_def unix_drop_ref_def)
  obtain ms where ms: "ins = ms @ packets 0 1 st'"
    "list_all2 (\<lambda>m ((_, len, _), bs, trunc). bs = take len m \<and> (trunc \<longleftrightarrow> len < length m)) ms outs"
    using conjunct1 [OF unix_packet_order [OF inv r]] fresh_bytes(2) [OF s(3), of 1] by auto
  have "length outs = 3" using v by (metis length_map length_Cons list.size(3) numeral_3_eq_3)
  have "length (ms @ packets 0 1 st') = 3" unfolding ms(1) [symmetric] using v by simp
  then have e: "ms = ins" "packets 0 1 st' = []" using ms(1) list_all2_lengthD [OF ms(2)] \<open>length outs = 3\<close> by auto
  have "outs = [((0, 2, True), [1, 2], True), ((0, 9, True), [], False), ((0, 9, True), [4], False)]"
    using ms(2) v unfolding e(1) by (auto simp: list_all2_Cons1)
  then show ?thesis using s(1) r v e(2) by blast
qed

section \<open>Descriptors in flight\<close>

text \<open>
  A healthy queue: attachments at strictly increasing positions, none of them already passed and
  each inside the bytes written so far.
\<close>

definition healthy :: "queue \<Rightarrow> bool" where
  "healthy q \<longleftrightarrow> sorted_wrt (<) (map a_pos (q_atts q)) \<and>
     list_all (\<lambda>a. q_rpos q \<le> a_pos a \<and> a_pos a < q_wpos q) (q_atts q)"

definition queued_files :: "queue \<Rightarrow> open_file list" where
  "queued_files q = concat (map a_files (q_atts q))"

lemma take_fds_healthy:
  assumes "healthy q" "take_fds q = (fds, q1)"
  shows "queued_files q = fds @ queued_files q1" "list_all (\<lambda>a. q_rpos q < a_pos a \<and> a_pos a < q_wpos q) (q_atts q1)"
    and "sorted_wrt (<) (map a_pos (q_atts q1))" "q_rpos q1 = q_rpos q" "q_wpos q1 = q_wpos q" "q_len q1 = q_len q"
proof -
  have "queued_files q = fds @ queued_files q1 \<and> list_all (\<lambda>a. q_rpos q < a_pos a \<and> a_pos a < q_wpos q) (q_atts q1) \<and>
    sorted_wrt (<) (map a_pos (q_atts q1)) \<and> q_rpos q1 = q_rpos q \<and> q_wpos q1 = q_wpos q \<and> q_len q1 = q_len q"
  proof (cases "q_atts q")
    case Nil
    then show ?thesis using assms by (auto simp: take_fds_def)
  next
    case (Cons a as)
    show ?thesis
    proof (cases "a_pos a = q_rpos q")
      case True
      then have "fds = a_files a" "q1 = q\<lparr>q_atts := as\<rparr>" using assms(2) Cons by (auto simp: take_fds_def)
      then show ?thesis using assms(1) Cons True by (auto simp: healthy_def queued_files_def list_all_iff)
    next
      case False
      then have "fds = []" "q1 = q" using assms(2) Cons by (auto simp: take_fds_def)
      then show ?thesis using assms(1) Cons False
        by (auto simp: healthy_def queued_files_def list_all_iff le_less)
    qed
  qed
  then show "queued_files q = fds @ queued_files q1" "list_all (\<lambda>a. q_rpos q < a_pos a \<and> a_pos a < q_wpos q) (q_atts q1)"
    "sorted_wrt (<) (map a_pos (q_atts q1))" "q_rpos q1 = q_rpos q" "q_wpos q1 = q_wpos q" "q_len q1 = q_len q" by auto
qed

text \<open>C26. Descriptors travel with the bytes they were sent with. On a stream whose queue is healthy, a
  read returns the descriptors of the attachment at the read position, if there is one, stops before
  the next attachment, and leaves a healthy queue; so no read passes a descriptor without delivering
  it, and the descriptors delivered followed by those still queued are those queued before.\<close>

theorem unix_fds_with_bytes:
  assumes "unix_inv M st" and "live_end c e st" and "\<not> c_packet (conns st ! c)" and "healthy (the_queue c e st)"
    and "unix_read cpu c e len nb st = (Inr (bs, trunc, fds), st')"
  shows "healthy (the_queue c e st') \<and> queued_files (the_queue c e st) = fds @ queued_files (the_queue c e st') \<and>
    (\<forall>a \<in> set (q_atts (the_queue c e st)). a_pos a < q_rpos (the_queue c e st) + length bs \<longrightarrow>
      a_pos a = q_rpos (the_queue c e st) \<and> fds = a_files a) \<and>
    q_rpos (the_queue c e st') = q_rpos (the_queue c e st) + length bs"
  using assms(5) refl refl
proof (cases rule: unix_read_cases)
  case stay
  have "st' = st" using assms(5) stay(1) by (auto simp: unix_read_def the_queue_def Let_def split: if_splits prod.splits)
  then show ?thesis using assms(4) stay by (auto simp: healthy_def list_all_iff queued_files_def)
next
  case (take fds' q1 n consume trunc' q2)
  let ?q = "the_queue c e st"
  have c: "c < MAX_CONNS" "c_used (conns st ! c)" "e < 2" using assms(2) by (auto simp: live_end_def)
  note t = take_fds_healthy [OF assms(4) take(2)]
  have q2: "q2 = q1" "n = consume" "n \<le> q_len q1"
    "q_atts q1 \<noteq> [] \<and> q_rpos q1 < a_pos (hd (q_atts q1)) \<longrightarrow> n \<le> a_pos (hd (q_atts q1)) - q_rpos q1"
    using take(3) assms(3) by (auto simp: take_amount_def Let_def split: if_splits)
  have lb: "length bs = n" "fds = fds'" using take(4) by auto
  have q': "the_queue c e st' = q1\<lparr>q_head := (q_head q1 + n) mod CAP, q_len := q_len q1 - n, q_rpos := q_rpos q1 + n\<rparr>"
    unfolding take(5) q2(1) using q2(2) by (simp add: the_queue_put [OF assms(1) c])
  have next_att: "q_rpos ?q + n \<le> a_pos a" if "a \<in> set (q_atts q1)" for a
  proof -
    obtain b bs' where b: "q_atts q1 = b # bs'" using \<open>a \<in> set (q_atts q1)\<close> by (cases "q_atts q1") auto
    have "a_pos b \<le> a_pos a" using t(3) that b by (auto simp: less_imp_le)
    moreover have "q_rpos ?q + n \<le> a_pos b" using q2(4) b t(2,4) by auto
    ultimately show ?thesis by simp
  qed
  have "healthy (the_queue c e st')" using t next_att by (auto simp: healthy_def q' list_all_iff)
  moreover have "a_pos a = q_rpos ?q \<and> fds = a_files a"
    if "a \<in> set (q_atts ?q)" "a_pos a < q_rpos ?q + length bs" for a
  proof -
    have "a \<notin> set (q_atts q1)" using next_att [of a] that(2) lb by auto
    then show ?thesis using take(2) that(1) lb(2) by (cases "q_atts ?q") (auto simp: take_fds_def split: if_splits)
  qed
  ultimately show ?thesis using t(1,4) lb by (auto simp: q' queued_files_def)
qed

text \<open>A write that carries bytes keeps the queue healthy.\<close>

lemma healthy_write:
  assumes "unix_inv M st" "live_end c e st" "healthy (the_queue c e st)"
    and w: "unix_write cpu c (1 - e) src nb files st = (Inr n, st')" and "src \<noteq> []"
  shows "healthy (the_queue c e st')"
proof -
  have c: "c < MAX_CONNS" "c_used (conns st ! c)" "1 - e < 2" "1 - (1 - e) = e" "e < 2"
    using assms(2) by (auto simp: live_end_def)
  have q': "the_queue c e st' = written (c_packet (conns st ! c)) n files (the_queue c e st)"
    using write_bytes [OF assms(1) c(1-3) w, unfolded c(4)] by blast
  have ok: "queue_ok (c_packet (conns st ! c)) (the_queue c e st)" using queue_ok_here [OF assms(1) c(1,2,5)] .
  have "0 < n"
    using w refl refl
  proof (cases rule: unix_write_cases)
    case (put m)
    then show ?thesis using \<open>src \<noteq> []\<close> unfolding c(4) by (cases "c_packet (conns st ! c)") auto
  qed simp
  then show ?thesis using assms(3) ok
    by (auto simp: q' healthy_def sorted_wrt_append list_all_iff queue_ok_def split: if_splits)
qed

text \<open>The exception (a flaw of the code): an attachment whose position the reader has passed is never
  delivered. Reads return no descriptor any more and the attachment stays at the front of the queue,
  also behind later writes; two messages sent with descriptors at the same position, the first of them
  empty, get there.\<close>

theorem unix_fds_stuck:
  assumes "unix_inv M st" and "live_end c e st" and "\<not> c_packet (conns st ! c)"
    and "q_atts (the_queue c e st) = a # as" and "a_pos a < q_rpos (the_queue c e st)"
  shows "(\<forall>cpu len nb bs trunc fds st'. unix_read cpu c e len nb st = (Inr (bs, trunc, fds), st') \<longrightarrow>
      fds = [] \<and> q_atts (the_queue c e st') = a # as \<and> a_pos a < q_rpos (the_queue c e st')) \<and>
    (\<forall>cpu src nb files n st'. unix_write cpu c (1 - e) src nb files st = (Inr n, st') \<longrightarrow>
      (\<exists>bs. q_atts (the_queue c e st') = a # bs) \<and> a_pos a < q_rpos (the_queue c e st'))"
proof (intro conjI allI impI)
  have c: "c < MAX_CONNS" "c_used (conns st ! c)" "e < 2" "1 - e < 2" "1 - (1 - e) = e"
    using assms(2) by (auto simp: live_end_def)
  have t: "take_fds (the_queue c e st) = ([], the_queue c e st)" using assms(4,5) by (simp add: take_fds_def)
  show "fds = []" "q_atts (the_queue c e st') = a # as" "a_pos a < q_rpos (the_queue c e st')"
    if r: "unix_read cpu c e len nb st = (Inr (bs, trunc, fds), st')" for cpu len nb bs trunc fds st'
  proof -
    obtain k where k: "q_rpos (the_queue c e st') = q_rpos (the_queue c e st) + k"
      "q_len (the_queue c e st) = 0 \<Longrightarrow> st' = st \<and> fds = []"
      "q_len (the_queue c e st) \<noteq> 0 \<Longrightarrow> fds = [] \<and> q_atts (the_queue c e st') = q_atts (the_queue c e st)"
      by (rule read_bytes [OF assms(1) c(1-3) r]) (use t in auto)
    then show "fds = []" "q_atts (the_queue c e st') = a # as" "a_pos a < q_rpos (the_queue c e st')"
      using assms(4,5) by (cases "q_len (the_queue c e st) = 0"; simp)+
  qed
  show "\<exists>bs. q_atts (the_queue c e st') = a # bs" "a_pos a < q_rpos (the_queue c e st')"
    if w: "unix_write cpu c (1 - e) src nb files st = (Inr n, st')" for cpu src nb files n st'
    using write_bytes [OF assms(1) c(1,2,4) w, unfolded c(5)] assms(4,5) by auto
qed

text \<open>A message of no bytes is queued and cannot be read (a flaw of the code): on an empty packet
  queue the write of an empty message succeeds and the message is in the queue, and yet the end is not
  readable and a read fails with \<open>EAGAIN\<close>, as if nothing had been sent.\<close>

theorem unix_empty_message_unreadable:
  assumes "packet_inv M c e st" and "q_len (the_queue c e st) = 0" and "\<not> q_eof (the_queue c e st)"
    and "c_refs (conns st ! c) ! (1 - e) \<noteq> 0"
    and "unix_write cpu c (1 - e) [] nb [] st = (Inr n, st')"
  shows "packets c e st' = packets c e st @ [[]] \<and> \<not> fst (unix_ready c e st') \<and>
    unix_read cpu c e len True st' = (Inl EAGAIN, st')"
proof -
  have inv: "unix_inv M st" and l: "live_end c e st" using assms(1) by (auto simp: packet_inv_def)
  have c: "c < MAX_CONNS" "c_used (conns st ! c)" "1 - e < 2" "1 - (1 - e) = e"
    using l by (auto simp: live_end_def)
  have w: "n = 0" "the_queue c e st' = written (c_packet (conns st ! c)) n [] (the_queue c e st)"
    using write_bytes [OF inv c(1-3) assms(5), unfolded c(4)] by auto
  then have q: "q_len (c_q (conns st' ! c) ! e) = 0" "\<not> q_eof (c_q (conns st' ! c) ! e)"
    using assms(2,3) by (auto simp flip: the_queue_def)
  have "c_refs (conns st' ! c) = c_refs (conns st ! c)"
    using write_same_conns [OF assms(5)] by (simp add: same_conns_def)
  then show ?thesis using q assms(4) write_packet [OF assms(1,5)]
    by (simp add: unix_ready_def unix_read_def Let_def)
qed

lemmas unix_eval = unix_write_def unix_read_def Let_def CAP_def MSGQ_def ATTQ_def MAX_SENT_def put_queue_conn
  take_fds_def take_amount_def the_queue_def fresh_conn_def qempty_def cempty_def

theorem unix_fds_with_bytes_witness:
  "\<exists>st s1 s2. conn_new False (unix_boot room_frames (\<lambda>_. 0)) = (Inr 0, st) \<and>
     unix_write 0 0 0 [1, 2] True [CONSOLE_FILE] st = (Inr 2, s1) \<and>
     unix_read 0 0 1 9 True s1 = (Inr ([1, 2], False, [CONSOLE_FILE]), s2) \<and> healthy (the_queue 0 1 s2)"
proof -
  obtain a b st where s: "conn_new False (unix_boot room_frames (\<lambda>_. 0)) = (Inr 0, st)" "unix_inv {#} st"
    "conns st ! 0 = fresh_conn False a b" "length (conns st) = MAX_CONNS" "kmem st = (\<lambda>_. 0)" "live_end 0 1 st \<longleftrightarrow> (1 :: nat) < 2"
    by (rule conn_demo [where e = 1])
  have i: "0 < MAX_CONNS" by (simp add: MAX_CONNS_def)
  have u: "c_used (conns st ! 0)" "\<not> c_packet (conns st ! 0)" using s(3) by (simp_all add: fresh_conn_def)
  define s1 where "s1 = snd (unix_write 0 0 0 [1, 2] True [CONSOLE_FILE] st)"
  have w: "unix_write 0 0 0 [1, 2] True [CONSOLE_FILE] st = (Inr 2, s1)"
    using s(3) by (simp add: s1_def unix_eval)
  have inv1: "unix_inv {#} s1" using unix_write_inv [OF s(2) i u(1) _ w] by simp
  have h: "healthy (the_queue 0 1 st)" using s(3) by (simp add: healthy_def the_queue_def fresh_conn_def qempty_def)
  have h1: "healthy (the_queue 0 1 s1)" using healthy_write [OF s(2) _ h _, of 0 "[1, 2]" True "[CONSOLE_FILE]"] w s(6) by simp
  have l1: "live_end 0 1 s1" "\<not> c_packet (conns s1 ! 0)" using keep_live [OF write_same_conns [OF w]] s(6) u(2) by auto
  obtain bs trunc fds s2 where r: "unix_read 0 0 1 9 True s1 = (Inr (bs, trunc, fds), s2)"
    "bs = [1, 2]" "trunc = False" "fds = [CONSOLE_FILE]"
  proof -
    have "stream_inv {#} 0 1 st" using s(2,6) u(2) by (simp add: stream_inv_def)
    then have "queue_bytes 0 1 s1 = [1, 2]"
      using write_stream [of "{#}" 0 1 st 0 "[1, 2]" True "[CONSOLE_FILE]"] w fresh_bytes(1) [OF s(3), of 1] by simp
    moreover have "fst (unix_read 0 0 1 9 True s1) = Inr (queue_bytes 0 1 s1, False, [CONSOLE_FILE])"
      using s(3,4) i by (simp add: s1_def unix_eval ring_read_bytes queue_bytes_def)
    ultimately show thesis using that by (metis prod.collapse)
  qed
  from unix_fds_with_bytes [OF inv1 l1 h1 r(1)] show ?thesis using s(1) w r by blast
qed

theorem unix_fds_stuck_witness:
  "\<exists>st s1 s2 s3. conn_new False (unix_boot room_frames (\<lambda>_. 0)) = (Inr 0, st) \<and>
     unix_write 0 0 0 [] True [CONSOLE_FILE] st = (Inr 0, s1) \<and>
     unix_write 0 0 0 [1, 2] True [FREE_FILE] s1 = (Inr 2, s2) \<and>
     snd (unix_read 0 0 1 1 True s2) = s3 \<and>
     (\<forall>bs trunc fds s4. unix_read 0 0 1 1 True s3 = (Inr (bs, trunc, fds), s4) \<longrightarrow> fds = [])"
proof -
  obtain a b st where s: "conn_new False (unix_boot room_frames (\<lambda>_. 0)) = (Inr 0, st)" "unix_inv {#} st"
    "conns st ! 0 = fresh_conn False a b" "length (conns st) = MAX_CONNS" "kmem st = (\<lambda>_. 0)" "live_end 0 1 st \<longleftrightarrow> (1 :: nat) < 2"
    by (rule conn_demo [where e = 1])
  have i: "0 < MAX_CONNS" by (simp add: MAX_CONNS_def)
  define s1 where "s1 = snd (unix_write 0 0 0 [] True [CONSOLE_FILE] st)"
  define s2 where "s2 = snd (unix_write 0 0 0 [1, 2] True [FREE_FILE] s1)"
  define s3 where "s3 = snd (unix_read 0 0 1 1 True s2)"
  have w1: "unix_write 0 0 0 [] True [CONSOLE_FILE] st = (Inr 0, s1)" using s(3) by (simp add: s1_def unix_eval)
  have w2: "unix_write 0 0 0 [1, 2] True [FREE_FILE] s1 = (Inr 2, s2)"
    using s(3,4) i by (simp add: s2_def s1_def unix_eval)
  have r3: "unix_read 0 0 1 1 True s2 = (fst (unix_read 0 0 1 1 True s2), s3)" by (simp add: s3_def)
  have l: "live_end 0 0 st" using s(6) by (simp add: live_end_def)
  have l1: "live_end 0 e s1" if "e < 2" for e using keep_live(1) [OF write_same_conns [OF w1] l] that by (simp add: live_end_def)
  have l2: "live_end 0 e s2" if "e < 2" for e using keep_live(1) [OF write_same_conns [OF w2] l1] that by (simp add: live_end_def)
  have l3: "live_end 0 e s3" if "e < 2" for e using keep_live(1) [OF read_same_conns [OF r3] l2] that by (simp add: live_end_def)
  have inv1: "unix_inv {#} s1" using unix_write_inv [OF s(2) i _ _ w1] l by (simp add: live_end_def)
  have inv2: "unix_inv {#} s2" using unix_write_inv [OF inv1 i _ _ w2] l1 [of 0] by (simp add: live_end_def)
  have inv3: "unix_inv {#} s3" using unix_read_inv [OF inv2 i _ _ r3] l2 [of 1] by (simp add: live_end_def)
  have q3: "the_queue 0 1 s3 = (the_queue 0 1 s3)\<lparr>q_atts := [\<lparr>a_pos = 0, a_files = [FREE_FILE]\<rparr>], q_rpos := 1\<rparr>"
    "\<not> c_packet (conns s3 ! 0)"
    using s(3,4) i by (simp_all add: s3_def s2_def s1_def unix_eval)
  have "q_atts (the_queue 0 1 s3) = \<lparr>a_pos = 0, a_files = [FREE_FILE]\<rparr> # []" "q_rpos (the_queue 0 1 s3) = 1"
    by (subst q3(1), simp)+
  then have "fds = []" if "unix_read 0 0 1 1 True s3 = (Inr (bs, trunc, fds), s4)" for bs trunc fds s4
    using unix_fds_stuck [OF inv3 l3 q3(2), of 1] that by auto
  then show ?thesis using s(1) w1 w2 s3_def by blast
qed

theorem unix_empty_message_unreadable_witness:
  "\<exists>st s1. conn_new True (unix_boot room_frames (\<lambda>_. 0)) = (Inr 0, st) \<and>
     unix_write 0 0 0 [] True [] st = (Inr 0, s1) \<and> packets 0 1 s1 = [[]] \<and>
     unix_read 0 0 1 9 True s1 = (Inl EAGAIN, s1)"
proof -
  obtain a b st where s: "conn_new True (unix_boot room_frames (\<lambda>_. 0)) = (Inr 0, st)" "unix_inv {#} st"
    "conns st ! 0 = fresh_conn True a b" "length (conns st) = MAX_CONNS" "kmem st = (\<lambda>_. 0)" "live_end 0 1 st \<longleftrightarrow> (1 :: nat) < 2"
    by (rule conn_demo [where e = 1])
  have inv: "packet_inv {#} 0 1 st" using s by (simp add: packet_inv_def fresh_conn_def)
  have q: "q_len (the_queue 0 1 st) = 0" "\<not> q_eof (the_queue 0 1 st)" "c_refs (conns st ! 0) ! (1 - 1) \<noteq> 0"
    using s(3) by (simp_all add: the_queue_def fresh_conn_def qempty_def)
  define s1 where "s1 = snd (unix_write 0 0 (1 - 1) [] True [] st)"
  have w: "unix_write 0 0 (1 - 1) [] True [] st = (Inr 0, s1)" using s(3) by (simp add: s1_def unix_eval)
  from unix_empty_message_unreadable [OF inv q w] show ?thesis
    using s(1) w fresh_bytes(2) [OF s(3), of 1] by simp
qed

section \<open>Listening, connecting, accepting\<close>

text \<open>C27. Client and server meet: the connection made by \<open>connect\<close> on a listener with an empty backlog
  is the one the next \<open>accept\<close> returns, and what the client (end 0) then writes is what the server
  (end 1) reads, up to the room in the ring and the size of the server's buffer.\<close>

theorem unix_connect_accept_talk:
  assumes "unix_inv M st" and "find_listener key st = Some i" and "l_backlog (listeners st ! i) = []"
    and "unix_connect key False st = (Inr c, s1)" and "unix_accept cpu i nb s1 = (r, s2)"
    and "unix_write cpu c 0 src nb [] s2 = (Inr n, s3)" and "unix_read cpu c 1 len nb s3 = (Inr (bs, trunc, fds), s4)"
    and "src \<noteq> []"
  shows "r = Inr c \<and> n = min (length src) CAP \<and> bs = take len (take CAP src) \<and> \<not> trunc \<and> fds = []"
proof -
  note ci = unix_connect_inv(1) [OF assms(1,4)]
  obtain a b where cn: "c < MAX_CONNS" "conns s1 ! c = fresh_conn False a b"
    "listeners s1 = (listeners st)[i := (listeners st ! i)\<lparr>l_backlog := [c]\<rparr>]"
    using unix_connect_inv(2) [OF assms(1,4) refl] assms(2,3) by auto
  have i: "i < MAX_LISTEN" "l_used (listeners st ! i)"
    using find_listener_Some [OF assms(2)] unix_invD(3) [OF assms(1)] by auto
  have l1: "listeners s1 ! i = (listeners st ! i)\<lparr>l_backlog := [c]\<rparr>"
    using cn(3) i(1) unix_invD(3) [OF assms(1)] by simp
  have r: "r = Inr c" using assms(5) l1 by (simp add: unix_accept_def Let_def)
  note ai = accept_inv [OF ci i(1) _ assms(5)]
  have s2: "unix_inv M s2" "conns s2 ! c = fresh_conn False a b" using ai l1 i(2) cn(2) by auto
  have cu: "c_used (conns s2 ! c)" "\<not> c_packet (conns s2 ! c)" using s2(2) by (simp_all add: fresh_conn_def)
  have q2: "the_queue c 1 s2 = qempty\<lparr>q_buf := b\<rparr>" by (simp add: the_queue_def s2(2) fresh_conn_def)
  note w = write_bytes [OF s2(1) cn(1) cu(1) _ assms(6), simplified]
  have qb: "queue_bytes c 1 s2 = []" unfolding queue_bytes_def q2 by (simp add: qempty_def ring_bytes_def)
  have n: "n = min (length src) CAP"
    using assms(6) refl refl
  proof (cases rule: unix_write_cases)
    case (put m)
    then show ?thesis using cu(2) q2 by (simp add: qempty_def)
  qed simp
  have s3: "unix_inv M s3" "queue_bytes c 1 s3 = take n src"
    "the_queue c 1 s3 = written False n [] (the_queue c 1 s2)"
    using unix_write_inv [OF s2(1) cn(1) cu(1) _ assms(6)] w cu(2) qb by auto
  have "0 < CAP" by (rule CAP_pos)
  then have q3: "q_len (the_queue c 1 s3) \<noteq> 0" "q_atts (the_queue c 1 s3) = []"
    unfolding s3(3) q2 using n assms(8) by (auto simp: qempty_def)
  have p3: "\<not> c_packet (conns s3 ! c)" "c_used (conns s3 ! c)"
    using write_same_conns [OF assms(6)] cu by (auto simp: same_conns_def)
  have res: "bs = take len (take n src) \<and> \<not> trunc \<and> fds = []"
    using assms(7) refl refl
  proof (cases rule: unix_read_cases)
    case (take fds' q1 k consume trunc' q')
    have t: "fds' = []" "q1 = the_queue c 1 s3" using take(2) q3(2) by (auto simp: take_fds_def)
    have k: "k = min len (q_len (the_queue c 1 s3))" "\<not> trunc'" "q' = the_queue c 1 s3"
      using take(3) p3(1) q3(2) unfolding t(2) by (auto simp: take_amount_def Let_def)
    have "k \<le> q_len (the_queue c 1 s3)" using k(1) by simp
    from ring_bytes_split [OF this]
    have "ring_bytes CAP (kmem s3) (q_buf q') (q_head q') k = take k (queue_bytes c 1 s3)"
      unfolding queue_bytes_def Let_def k(3) by simp
    moreover have "take k (queue_bytes c 1 s3) = take len (queue_bytes c 1 s3)"
    proof -
      have "length (queue_bytes c 1 s3) = q_len (the_queue c 1 s3)" by (simp add: queue_bytes_def Let_def)
      then have "k = min len (length (queue_bytes c 1 s3))" using k(1) by simp
      then show ?thesis by (simp add: min_def)
    qed
    ultimately show ?thesis using take(4) s3(2) t(1) k(2) by simp
  qed (use q3 in simp)
  have "take n src = take CAP src" unfolding n by (simp add: min_def)
  show ?thesis using r n res unfolding \<open>take n src = take CAP src\<close> by blast
qed

theorem unix_connect_accept_talk_witness:
  "\<exists>s0 s1 s2 s3 s4. unix_listen (Port 80) False (unix_boot room_frames (\<lambda>_. 0)) = (Inr 0, s0) \<and>
     unix_connect (Port 80) False s0 = (Inr 0, s1) \<and> unix_accept 0 0 True s1 = (Inr 0, s2) \<and>
     unix_write 0 0 0 [5, 6] True [] s2 = (Inr 2, s3) \<and> unix_read 0 0 1 9 True s3 = (Inr ([5, 6], False, []), s4)"
proof -
  let ?b = "unix_boot room_frames (\<lambda>_. 0)"
  have inv: "unix_inv {#} ?b" by (rule unix_boot_inv [OF room_inv(1)])
  have none: "find_listener (Port 80) ?b = None"
    by (simp add: find_listener_def position_None unix_boot_def)
  have p0: "position (\<lambda>l. \<not> l_used l) (listeners ?b) = Some 0"
    by (simp add: position_Some_iff unix_boot_def MAX_LISTEN_def)
  define s0 where "s0 = put_listener 0 (lempty\<lparr>l_used := True, l_refs := 1, l_packet := False, l_key := Port 80\<rparr>) ?b"
  have l: "unix_listen (Port 80) False ?b = (Inr 0, s0)" using none p0 by (simp add: unix_listen_def s0_def)
  note li = unix_listen_inv [OF inv l]
  have bl: "listeners s0 ! 0 = lempty\<lparr>l_used := True, l_refs := 1, l_packet := False, l_key := Port 80\<rparr>"
    by (simp add: s0_def unix_boot_def MAX_LISTEN_def)
  obtain a fa b fb where al: "alloc_contig PAGES room_frames = Some (a, fa)" "alloc_contig PAGES fa = Some (b, fb)"
    by (rule room_alloc_two)
  have "position (\<lambda>k. \<not> c_used k) (conns s0) = Some 0"
    by (simp add: position_Some_iff unix_boot_def s0_def MAX_CONNS_def)
  then have cn: "fst (unix_connect (Port 80) False s0) = Inr 0"
    using al li(2) [OF refl] bl by (simp add: unix_connect_def conn_new_def s0_def unix_boot_def lempty_def BACKLOG_def Let_def)
  define s1 where "s1 = snd (unix_connect (Port 80) False s0)"
  have c: "unix_connect (Port 80) False s0 = (Inr 0, s1)" using cn by (metis prod.collapse s1_def)
  obtain a b where k: "conns s1 ! 0 = fresh_conn False a b"
    "listeners s1 = (listeners s0)[0 := (listeners s0 ! 0)\<lparr>l_backlog := [0]\<rparr>]"
    using unix_connect_inv(2) [OF li(1) c refl] li(2) [OF refl] bl by (auto simp: lempty_def)
  obtain r s2 where ac: "unix_accept 0 0 True s1 = (r, s2)" by fastforce
  have s2: "conns s2 = conns s1" using ac k(2) by (auto simp: unix_accept_def Let_def s0_def unix_boot_def MAX_LISTEN_def)
  define s3 where "s3 = snd (unix_write 0 0 0 [5, 6] True [] s2)"
  have w: "unix_write 0 0 0 [5, 6] True [] s2 = (Inr 2, s3)" using s2 k(1) by (simp add: s3_def unix_eval)
  have len: "0 < length (conns s2)" using s2 unix_invD(2) [OF unix_connect_inv(1) [OF li(1) c]] by (simp add: MAX_CONNS_def)
  obtain bs trunc fds where rd: "fst (unix_read 0 0 1 9 True s3) = Inr (bs, trunc, fds)"
    using s2 k(1) len by (simp add: s3_def unix_eval)
  then have rd': "unix_read 0 0 1 9 True s3 = (Inr (bs, trunc, fds), snd (unix_read 0 0 1 9 True s3))" by (metis prod.collapse)
  have "r = Inr 0 \<and> 2 = min (length [5, 6 :: u8]) CAP \<and> bs = take 9 (take CAP [5, 6]) \<and> \<not> trunc \<and> fds = []"
    using unix_connect_accept_talk [OF li(1) _ _ c ac w rd'] li(2) [OF refl] bl by (simp add: lempty_def)
  then show ?thesis using l c ac w rd' by (auto simp: CAP_def)
qed

end
