(* ===== verification/Files_Inv.thy ===== *)
theory Files_Inv
  imports Polls Shm_Spans Unix_Props
begin

text \<open>
  The invariant of the descriptor layer. References to an object are held by the descriptors of the
  256 tables, by the descriptors in flight on local connections and, for the server end of a
  connection, by the backlog of the listener; \<open>counted W st\<close> says that every reference count of an
  object is the number of references held, where \<open>W\<close> collects the references an operation has in
  hand between two changes of the state. \<open>files_ok M st\<close> is the well-formedness of the objects; the
  memory of pipes, connections, generated texts and shared memory is apart from the blocks \<open>snd M\<close> of the
  rest of the system.

  \<open>open\<close> of a name under \<open>/dev/shm\<close> leaves a descriptor that is not counted (\<open>Files_Props\<close>), so the counts of
  shared-memory objects are exact in the runs without such a call. The flag \<open>fst M\<close> of the context \<open>M\<close> says
  whether they are claimed: every lemma is proved for both values, and only that call needs it to be false.
\<close>

section \<open>References held and references counted\<close>

definition obj_of :: "open_file \<Rightarrow> kind \<times> nat" where
  "obj_of f = (f_kind f, f_ino f)"

definition refs_of :: "open_file list \<Rightarrow> (kind \<times> nat) multiset" where
  "refs_of fs = mset (map obj_of fs)"

definition tracked :: "bool \<Rightarrow> kind \<Rightarrow> bool" where
  "tracked sh k \<longleftrightarrow> k \<in> {PipeR, PipeW, Mem, Event, Epoll, Sock, Unix, USock, Listen} \<or> sh \<and> k = Shm"

definition backlog_refs :: "listener \<Rightarrow> (kind \<times> nat) multiset" where
  "backlog_refs l = mset (map (\<lambda>c. (Unix, c * 2 + 1)) (l_backlog l))"

definition held :: "('e, 'm) files_st_scheme \<Rightarrow> (kind \<times> nat) multiset" where
  "held st = sum_list (map (\<lambda>l. refs_of (tabs st l)) [0..<LEADERS]) +
     sum_list (map (\<lambda>k. refs_of (in_flight k)) (conns st)) + sum_list (map backlog_refs (listeners st))"

definition nth0 :: "('a \<Rightarrow> nat) \<Rightarrow> 'a list \<Rightarrow> nat \<Rightarrow> nat" where
  "nth0 g xs i = (if i < length xs then g (xs ! i) else 0)"

definition refcount_of :: "('e, 'm) files_st_scheme \<Rightarrow> kind \<times> nat \<Rightarrow> nat" where
  "refcount_of st q =
     (case q of (k, i) \<Rightarrow>
        (case k of
           PipeR \<Rightarrow> nth0 p_readers (pipes st) i
         | PipeW \<Rightarrow> nth0 p_writers (pipes st) i
         | Mem \<Rightarrow> nth0 m_refs (mems st) i
         | Event \<Rightarrow> nth0 e_refs (events st) i
         | Epoll \<Rightarrow> nth0 ep_refs (epolls st) i
         | Sock \<Rightarrow> nth0 s_refs (socks st) i
         | Unix \<Rightarrow> nth0 (\<lambda>k. c_refs k ! (i mod 2)) (conns st) (i div 2)
         | USock \<Rightarrow> nth0 u_refs (usocks st) i
         | Listen \<Rightarrow> nth0 l_refs (listeners st) i
         | Shm \<Rightarrow> shm_fds (shobjs st) i
         | _ \<Rightarrow> 0))"

definition counted :: "bool \<Rightarrow> (kind \<times> nat) multiset \<Rightarrow> ('e, 'm) files_st_scheme \<Rightarrow> bool" where
  "counted sh W st \<longleftrightarrow> (\<forall>q. tracked sh (fst q) \<longrightarrow> count (held st + W) q = refcount_of st q)"

section \<open>Well-formed objects\<close>

definition mem_spans :: "mem_file \<Rightarrow> (nat \<times> nat) multiset" where
  "mem_spans m = (if m_buf m = 0 then {#} else {#(m_buf m, m_pages m)#})"

definition mem_ok :: "mem_file \<Rightarrow> bool" where
  "mem_ok m \<longleftrightarrow> (if m_buf m = 0 then m = mem_none else 0 < m_refs m)"

type_synonym context_of = "bool \<times> (nat \<times> nat) multiset"

definition all_spans :: "context_of \<Rightarrow> ('e, 'm) files_st_scheme \<Rightarrow> (nat \<times> nat) multiset" where
  "all_spans M st = table_spans mem_spans (mems st) + (table_spans obj_spans (shobjs st) + snd M)"

definition objects_ok :: "('e, 'm) files_st_scheme \<Rightarrow> bool" where
  "objects_ok st \<longleftrightarrow> list_all mem_ok (mems st) \<and>
     list_all (\<lambda>e. e_used e \<longleftrightarrow> 0 < e_refs e) (events st) \<and>
     list_all (\<lambda>e. ep_used e \<longleftrightarrow> 0 < ep_refs e) (epolls st) \<and>
     list_all (\<lambda>k. s_used k \<longleftrightarrow> 0 < s_refs k) (socks st) \<and>
     list_all (\<lambda>u. u_used u \<longleftrightarrow> 0 < u_refs u) (usocks st) \<and>
     list_all obj_shape (shobjs st) \<and> length (shobjs st) = MAX_OBJS \<and>
     (\<forall>l < LEADERS. length (tabs st l) = MAX_FDS)"

definition files_ok :: "context_of \<Rightarrow> ('e, 'm) files_st_scheme \<Rightarrow> bool" where
  "files_ok M st \<longleftrightarrow> unix_inv (all_spans M st) st \<and> objects_ok st"

section \<open>Accounting\<close>

lemma nth0_update [simp]:
  "nth0 g (xs[i := x]) j = (if j = i \<and> i < length xs then g x else nth0 g xs j)"
  by (auto simp: nth0_def nth_list_update)

lemma nth0_pos: "0 < nth0 g xs i \<Longrightarrow> i < length xs \<and> 0 < g (xs ! i)"
  by (auto simp: nth0_def split: if_splits)

lemma refs_of_simps [simp]:
  "refs_of [] = {#}" "refs_of (f # fs) = add_mset (obj_of f) (refs_of fs)"
  "refs_of (fs @ gs) = refs_of fs + refs_of gs"
  by (simp_all add: refs_of_def)

lemma obj_of_simps [simp]:
  "obj_of (f\<lparr>f_flags := x\<rparr>) = obj_of f" "obj_of (f\<lparr>f_cloexec := b\<rparr>) = obj_of f" "obj_of (f\<lparr>f_off := n\<rparr>) = obj_of f"
  "obj_of FREE_FILE = (Free, 0)" "fst (obj_of f) = f_kind f" "snd (obj_of f) = f_ino f"
  "obj_of CONSOLE_FILE = (Console, 0)" "obj_of (server_end c) = (Unix, c * 2 + 1)"
  by (simp_all add: obj_of_def FREE_FILE_def CONSOLE_FILE_def server_end_def)

lemma tracked_simps [simp]:
  "tracked sh PipeR" "tracked sh PipeW" "tracked sh Mem" "tracked sh Event" "tracked sh Epoll" "tracked sh Sock"
  "tracked sh Unix" "tracked sh USock" "tracked sh Listen" "\<not> tracked sh Free" "\<not> tracked sh Console"
  "\<not> tracked sh File" "\<not> tracked sh Dir" "\<not> tracked sh DevNull" "\<not> tracked sh DevZero" "\<not> tracked sh DevRandom"
  "tracked sh Shm = sh"
  by (simp_all add: tracked_def)

lemma tracked_weaken: "tracked False k \<Longrightarrow> tracked sh k"
  by (auto simp: tracked_def)

lemma held_cong:
  "tabs st' = tabs st \<Longrightarrow> map in_flight (conns st') = map in_flight (conns st) \<Longrightarrow>
   map l_backlog (listeners st') = map l_backlog (listeners st) \<Longrightarrow> held st' = held st"
proof -
  assume a: "tabs st' = tabs st" "map in_flight (conns st') = map in_flight (conns st)"
    "map l_backlog (listeners st') = map l_backlog (listeners st)"
  have "map (\<lambda>k. refs_of (in_flight k)) (conns st') = map (\<lambda>k. refs_of (in_flight k)) (conns st)"
    using arg_cong [OF a(2), of "map refs_of"] by (simp add: comp_def)
  moreover have "map backlog_refs (listeners st') = map backlog_refs (listeners st)"
    using arg_cong [OF a(3), of "map (\<lambda>cs. mset (map (\<lambda>c. (Unix, c * 2 + 1)) cs))"]
    unfolding map_map comp_def backlog_refs_def .
  ultimately show ?thesis using a(1) by (simp add: held_def)
qed

lemma refcount_of_cong:
  "pipes st' = pipes st \<Longrightarrow> mems st' = mems st \<Longrightarrow> events st' = events st \<Longrightarrow> epolls st' = epolls st \<Longrightarrow>
   socks st' = socks st \<Longrightarrow> conns st' = conns st \<Longrightarrow> usocks st' = usocks st \<Longrightarrow> listeners st' = listeners st \<Longrightarrow>
   shm_fds (shobjs st') = shm_fds (shobjs st) \<Longrightarrow> refcount_of st' = refcount_of st"
  by (rule ext) (simp add: refcount_of_def split: prod.split kind.split)

lemma countedD: "counted sh W st \<Longrightarrow> tracked sh (fst q) \<Longrightarrow> count (held st) q + count W q = refcount_of st q"
  by (simp add: counted_def del: split_paired_All)

lemma counted_same:
  assumes "counted sh W st" "held st' + W' = held st + W" "refcount_of st' = refcount_of st"
  shows "counted sh W' st'"
  using assms by (metis counted_def)

lemma counted_untracked:
  "\<not> tracked sh (fst q) \<Longrightarrow> counted sh (add_mset q W) st \<longleftrightarrow> counted sh W st"
  by (auto simp: counted_def simp del: split_paired_All)

lemma counted_weaken: "counted sh W st \<Longrightarrow> counted False W st"
  by (auto simp: counted_def tracked_weaken simp del: split_paired_All)

text \<open>A reference in hand, in a table, in flight or in a backlog is to a live object.\<close>

lemma in_hand_live: "counted sh (add_mset q W) st \<Longrightarrow> tracked sh (fst q) \<Longrightarrow> 0 < refcount_of st q"
  using countedD [of sh "add_mset q W" st q] by simp

lemma held_live: "counted sh W st \<Longrightarrow> q \<in># held st \<Longrightarrow> tracked sh (fst q) \<Longrightarrow> 0 < refcount_of st q"
  using countedD [of sh W st q] by (metis add_gr_0 count_greater_zero_iff)

lemma sum_list_mset_in: "x \<in># sum_list Ms \<longleftrightarrow> (\<exists>N \<in> set Ms. x \<in># N)"
  by (induction Ms) auto

lemma in_held:
  "q \<in># held st \<longleftrightarrow> (\<exists>l < LEADERS. \<exists>f \<in> set (tabs st l). obj_of f = q) \<or>
     (\<exists>k \<in> set (conns st). \<exists>f \<in> set (in_flight k). obj_of f = q) \<or>
     (\<exists>l \<in> set (listeners st). \<exists>c \<in> set (l_backlog l). q = (Unix, c * 2 + 1))"
  by (auto simp: held_def refs_of_def backlog_refs_def sum_list_mset_in)

lemma swap_shares:
  assumes "S' + R = S + R'" "add_mset old R' = add_mset new R"
  shows "add_mset old S' = add_mset new (S :: 'a multiset)"
proof (rule multiset_eqI)
  fix x
  have "count S' x + count R x = count S x + count R' x" using assms(1) by (metis count_union)
  moreover have "count (add_mset old R') x = count (add_mset new R) x" using assms(2) by simp
  ultimately show "count (add_mset old S') x = count (add_mset new S) x" by (auto split: if_splits)
qed

text \<open>One entry of a table of objects: its share of \<open>held\<close> and its reference count.\<close>

lemma held_put_fd:
  assumes "l < LEADERS" "i < length (tabs st l)"
  shows "add_mset (obj_of (tabs st l ! i)) (held (put_fd l i f st)) = add_mset (obj_of f) (held st)"
proof -
  let ?t = "(tabs st)(l := (tabs st l)[i := f])"
  let ?A = "map (\<lambda>l. refs_of (tabs st l)) [0..<LEADERS]" and ?r = "refs_of ((tabs st l)[i := f])"
  have A: "map (\<lambda>l. refs_of (?t l)) [0..<LEADERS] = ?A[l := ?r]"
    using assms(1) by (intro nth_equalityI) (auto simp: nth_list_update)
  have one: "add_mset (obj_of (tabs st l ! i)) ?r = add_mset (obj_of f) (refs_of (tabs st l))"
    using assms(2) by (simp add: refs_of_def map_update mset_update)
  have "sum_list (?A[l := ?r]) + refs_of (tabs st l) = sum_list ?A + ?r"
    using sum_list_map_update [of l ?A "\<lambda>x. x" ?r] assms(1) by simp
  from swap_shares [OF this one]
  have "add_mset (obj_of (tabs st l ! i)) (sum_list (map (\<lambda>l. refs_of (?t l)) [0..<LEADERS])) =
      add_mset (obj_of f) (sum_list ?A)" unfolding A .
  moreover obtain B where "held (put_fd l i f st) = sum_list (map (\<lambda>l. refs_of (?t l)) [0..<LEADERS]) + B"
    "held st = sum_list ?A + B"
    by (simp add: held_def put_fd_def add.assoc)
  ultimately show ?thesis by (metis union_mset_add_mset_left)
qed

section \<open>Fields that other layers leave alone\<close>

lemma waits_files [simp]:
  "tabs (push_wake key st) = tabs st" "mems (push_wake key st) = mems st" "events (push_wake key st) = events st"
  "epolls (push_wake key st) = epolls st" "socks (push_wake key st) = socks st" "usocks (push_wake key st) = usocks st"
  "shobjs (push_wake key st) = shobjs st" "world (push_wake key st) = world st"
  by (simp_all add: push_wake_def bump_io_seq_def Let_def)

lemma block_files [simp]:
  "tabs (snd (would_block_for c key ms st)) = tabs st" "mems (snd (would_block_for c key ms st)) = mems st"
  "events (snd (would_block_for c key ms st)) = events st" "epolls (snd (would_block_for c key ms st)) = epolls st"
  "socks (snd (would_block_for c key ms st)) = socks st" "usocks (snd (would_block_for c key ms st)) = usocks st"
  "shobjs (snd (would_block_for c key ms st)) = shobjs st"
  "conns (snd (would_block_for c key ms st)) = conns st" "listeners (snd (would_block_for c key ms st)) = listeners st"
  "pipes (snd (would_block_for c key ms st)) = pipes st" "kfa (snd (would_block_for c key ms st)) = kfa st"
  by (simp_all add: would_block_for_def)

lemma put_files [simp]:
  "tabs (put_pipe i p st) = tabs st" "mems (put_pipe i p st) = mems st" "events (put_pipe i p st) = events st"
  "epolls (put_pipe i p st) = epolls st" "socks (put_pipe i p st) = socks st" "usocks (put_pipe i p st) = usocks st"
  "shobjs (put_pipe i p st) = shobjs st" "conns (put_pipe i p st) = conns st" "listeners (put_pipe i p st) = listeners st"
  "tabs (put_conn c k st) = tabs st" "mems (put_conn c k st) = mems st" "events (put_conn c k st) = events st"
  "epolls (put_conn c k st) = epolls st" "socks (put_conn c k st) = socks st" "usocks (put_conn c k st) = usocks st"
  "shobjs (put_conn c k st) = shobjs st"
  "tabs (put_listener i x st) = tabs st" "mems (put_listener i x st) = mems st" "events (put_listener i x st) = events st"
  "epolls (put_listener i x st) = epolls st" "socks (put_listener i x st) = socks st"
  "usocks (put_listener i x st) = usocks st" "shobjs (put_listener i x st) = shobjs st"
  by (simp_all add: put_pipe_def put_conn_def put_listener_def)

lemma put_fd_simps [simp]:
  "tabs (put_fd l i f st) = (tabs st)(l := (tabs st l)[i := f])" "mems (put_fd l i f st) = mems st"
  "events (put_fd l i f st) = events st" "epolls (put_fd l i f st) = epolls st" "socks (put_fd l i f st) = socks st"
  "usocks (put_fd l i f st) = usocks st" "shobjs (put_fd l i f st) = shobjs st" "conns (put_fd l i f st) = conns st"
  "listeners (put_fd l i f st) = listeners st" "pipes (put_fd l i f st) = pipes st" "kfa (put_fd l i f st) = kfa st"
  "kmem (put_fd l i f st) = kmem st" "iseq (put_fd l i f st) = iseq st" "pend (put_fd l i f st) = pend st"
  "pany (put_fd l i f st) = pany st" "world (put_fd l i f st) = world st"
  by (simp_all add: put_fd_def)

section \<open>Quiet steps\<close>

text \<open>A step that keeps the invariant and neither takes nor gives a reference.\<close>

definition quiet :: "context_of \<Rightarrow> ('e, 'm) files_st_scheme \<Rightarrow> ('e, 'm) files_st_scheme \<Rightarrow> bool" where
  "quiet M st st' \<longleftrightarrow> files_ok M st' \<and> held st' = held st \<and> refcount_of st' = refcount_of st \<and>
     (\<forall>l. map obj_of (tabs st' l) = map obj_of (tabs st l))"

definition files_inv :: "context_of \<Rightarrow> (kind \<times> nat) multiset \<Rightarrow> ('e, 'm) files_st_scheme \<Rightarrow> bool" where
  "files_inv M W st \<longleftrightarrow> files_ok M st \<and> counted (fst M) W st"

lemma quiet_refl: "files_ok M st \<Longrightarrow> quiet M st st"
  by (simp add: quiet_def)

lemma quiet_trans: "quiet M st st' \<Longrightarrow> quiet M st' st'' \<Longrightarrow> quiet M st st''"
  by (simp add: quiet_def)

lemma quietD: "quiet M st st' \<Longrightarrow> files_ok M st'"
  by (simp add: quiet_def)

lemma quiet_counted: "quiet M st st' \<Longrightarrow> counted sh W st \<Longrightarrow> counted sh W st'"
  by (auto simp: quiet_def intro: counted_same)

lemma quiet_inv: "quiet M st st' \<Longrightarrow> files_inv M W st \<Longrightarrow> files_inv M W st'"
  by (auto simp: files_inv_def quietD quiet_counted)

lemma files_okD:
  assumes "files_ok M st"
  shows "unix_inv (all_spans M st) st" "objects_ok st" "length (pipes st) = MAX_PIPES" "waits_wf st"
    "i < MAX_PIPES \<Longrightarrow> pipe_ok (pipes st ! i)" "length (conns st) = MAX_CONNS" "length (listeners st) = MAX_LISTEN"
    "c < MAX_CONNS \<Longrightarrow> conn_ok (conns st ! c)" "li < MAX_LISTEN \<Longrightarrow> listener_ok (listeners st ! li)"
    "l < LEADERS \<Longrightarrow> length (tabs st l) = MAX_FDS"
  using assms unix_invD [of "all_spans M st" st] pipes_invD [of "table_spans conn_spans (conns st) + all_spans M st" st]
  by (auto simp: files_ok_def objects_ok_def)

text \<open>Steps that leave the allocator and every counted object alone.\<close>

lemma quiet_same:
  assumes ok: "files_ok M st"
    and "kfa st' = kfa st" "pipes st' = pipes st" "conns st' = conns st" "listeners st' = listeners st" "waits_wf st'"
      "mems st' = mems st" "shobjs st' = shobjs st"
    and "map e_refs (events st') = map e_refs (events st)" "map e_used (events st') = map e_used (events st)"
      "map ep_refs (epolls st') = map ep_refs (epolls st)" "map ep_used (epolls st') = map ep_used (epolls st)"
      "map s_refs (socks st') = map s_refs (socks st)" "map s_used (socks st') = map s_used (socks st)"
      "map u_refs (usocks st') = map u_refs (usocks st)" "map u_used (usocks st') = map u_used (usocks st)"
    and t: "\<And>l. map obj_of (tabs st' l) = map obj_of (tabs st l)"
  shows "quiet M st st'"
proof -
  have nth0: "nth0 g xs = nth0 g ys" if "map g xs = map g ys" for g :: "'z \<Rightarrow> nat" and xs ys
    using that by (intro ext) (auto simp: nth0_def dest: map_eq_imp_length_eq, metis length_map nth_map)
  have all: "list_all (\<lambda>x. P (f x) (g x)) xs \<longleftrightarrow> list_all (\<lambda>x. P (f x) (g x)) ys"
    if "map f xs = map f ys" "map g xs = map g ys" for P f g and xs ys :: "'z list"
  proof -
    have "list_all (\<lambda>x. P (f x) (g x)) xs \<longleftrightarrow> list_all2 P (map f xs) (map g xs)" for xs :: "'z list"
      by (induction xs) auto
    then show ?thesis using that by metis
  qed
  have len: "length (tabs st' l) = length (tabs st l)" for l using arg_cong [OF t, of length] by simp
  have "unix_inv (all_spans M st') st'"
    using files_okD(1) [OF ok] assms(2-8) by (auto simp: all_spans_def intro: unix_inv_cong)
  moreover have "objects_ok st'"
    using files_okD(2) [OF ok] assms(7,8) len
      all [of e_used "events st'" "events st" e_refs "\<lambda>u r. u = (0 < r)"]
      all [of ep_used "epolls st'" "epolls st" ep_refs "\<lambda>u r. u = (0 < r)"]
      all [of s_used "socks st'" "socks st" s_refs "\<lambda>u r. u = (0 < r)"]
      all [of u_used "usocks st'" "usocks st" u_refs "\<lambda>u r. u = (0 < r)"] assms(9-16)
    by (simp add: objects_ok_def)
  moreover have "refcount_of st' = refcount_of st"
    using assms(3-5,7,8) nth0 [OF assms(9)] nth0 [OF assms(11)] nth0 [OF assms(13)] nth0 [OF assms(15)]
    by (intro ext) (simp add: refcount_of_def split: prod.split kind.split)
  moreover have "held st' = held st"
    using assms(4,5) t by (simp add: held_def refs_of_def flip: mset_map)
  ultimately show ?thesis using t by (simp add: quiet_def files_ok_def)
qed

lemma quiet_world: "files_ok M st \<Longrightarrow> quiet M st (st\<lparr>world := w\<rparr>)"
  by (rule quiet_same) (auto simp: waits_wf_def dest: files_okD(4))

lemma quiet_on_world: "files_ok M st \<Longrightarrow> on_world f st = (r, st') \<Longrightarrow> quiet M st st'"
  by (auto simp: on_world_def quiet_world split: prod.splits)

lemma quiet_push_wake: "files_ok M st \<Longrightarrow> quiet M st (push_wake key st)"
  by (rule quiet_same) (auto intro: push_wake_wf dest: files_okD(4))

lemma block_wf: "waits_wf st \<Longrightarrow> waits_wf (snd (would_block_for c key ms st))"
  by (simp add: would_block_for_def waits_wf_def)

lemma quiet_block_snd: "files_ok M st \<Longrightarrow> quiet M st (snd (would_block_for c key ms st))"
  by (intro quiet_same block_wf) (auto dest: files_okD(4))

lemma quiet_block_for: "files_ok M st \<Longrightarrow> would_block_for c key ms st = (r, st') \<Longrightarrow> quiet M st st'"
  using quiet_block_snd by (metis snd_conv)

lemma quiet_block: "files_ok M st \<Longrightarrow> would_block c key st = (r, st') \<Longrightarrow> quiet M st st'"
  unfolding would_block_def by (rule quiet_block_for)

lemma quiet_kmem: "files_ok M st \<Longrightarrow> quiet M st (st\<lparr>kmem := m\<rparr>)"
  by (rule quiet_same) (auto simp: waits_wf_def dest: files_okD(4))

lemma quiet_put_fd:
  assumes "files_ok M st" "obj_of f = obj_of (tabs st l ! i)"
  shows "quiet M st (put_fd l i f st)"
proof -
  have "map obj_of ((tabs st l)[i := f]) = map obj_of (tabs st l)"
    using assms(2) by (simp add: map_update) (metis list_update_beyond list_update_id map_update not_le)
  then show ?thesis
    using assms(1) by (intro quiet_same) (auto simp: waits_wf_def dest: files_okD(4))
qed

lemma quiet_set_off: "files_ok M st \<Longrightarrow> quiet M st (set_off l fd off st)"
  unfolding set_off_def by (rule quiet_put_fd) simp_all

lemma map_update_same: "g x = g (xs ! i) \<Longrightarrow> map g (xs[i := x]) = map g xs"
  by (metis list_update_beyond list_update_id map_update not_le)

lemma quiet_put_sock:
  "files_ok M st \<Longrightarrow> s_refs k = s_refs (socks st ! i) \<Longrightarrow> s_used k = s_used (socks st ! i) \<Longrightarrow>
   quiet M st (put_sock i k st)"
  unfolding put_sock_def by (rule quiet_same) (auto simp: waits_wf_def map_update_same dest: files_okD(4))

lemma quiet_event:
  "files_ok M st \<Longrightarrow> e_refs e = e_refs (events st ! i) \<Longrightarrow> e_used e = e_used (events st ! i) \<Longrightarrow>
   quiet M st (st\<lparr>events := (events st)[i := e]\<rparr>)"
  by (rule quiet_same) (auto simp: waits_wf_def map_update_same dest: files_okD(4))

lemma quiet_epoll: "files_ok M st \<Longrightarrow> quiet M st (put_epoll i its st)"
  unfolding put_epoll_def by (rule quiet_same) (auto simp: waits_wf_def map_update_same dest: files_okD(4))

lemma quiet_usock:
  "files_ok M st \<Longrightarrow> u_refs u = u_refs (usocks st ! i) \<Longrightarrow> u_used u = u_used (usocks st ! i) \<Longrightarrow>
   quiet M st (st\<lparr>usocks := (usocks st)[i := u]\<rparr>)"
  by (rule quiet_same) (auto simp: waits_wf_def map_update_same dest: files_okD(4))

lemma quiet_cwd: "files_ok M st \<Longrightarrow> quiet M st (st\<lparr>cwds := f\<rparr>)"
  by (rule quiet_same) (auto simp: waits_wf_def dest: files_okD(4))

lemma quiet_orphans: "files_ok M st \<Longrightarrow> quiet M st (st\<lparr>world := w, orphans := os\<rparr>)"
  by (rule quiet_same) (auto simp: waits_wf_def dest: files_okD(4))

lemma quiet_after_close: "files_ok M st \<Longrightarrow> quiet M st (after_close ev ino st)"
proof -
  assume ok: "files_ok M st"
  let ?s = "case position (\<lambda>s. s = ino) (orphans st) of None \<Rightarrow> st
    | Some s \<Rightarrow> if is_open ev ino st then st
        else st\<lparr>world := x_release ev ino (world st), orphans := (orphans st)[s := 0]\<rparr>"
  have q: "quiet M st ?s" using ok by (auto intro: quiet_refl quiet_orphans split: option.split)
  then show ?thesis
    using quiet_world [OF quietD [OF q], of "x_sync ev (world ?s)"]
    unfolding after_close_def Let_def by (auto intro: quiet_trans simp del: fun_upd_apply)
qed

section \<open>Shared memory\<close>

lemma files_shm:
  assumes "files_ok M st"
  shows "shm_inv (the_shm st)"
    "spans_ok (kfa st) (table_spans obj_spans (shobjs st) + (table_spans pipe_spans (pipes st) +
       (table_spans conn_spans (conns st) + (table_spans mem_spans (mems st) + snd M))))"
proof -
  have "spans_ok (kfa st) (table_spans pipe_spans (pipes st) + (table_spans conn_spans (conns st) + all_spans M st))"
    using files_okD(1) [OF assms] by (auto simp: unix_inv_def pipes_inv_def)
  then show s: "spans_ok (kfa st) (table_spans obj_spans (shobjs st) + (table_spans pipe_spans (pipes st) +
       (table_spans conn_spans (conns st) + (table_spans mem_spans (mems st) + snd M))))"
    by (simp add: all_spans_def ac_simps)
  show "shm_inv (the_shm st)"
    unfolding the_shm_def using files_okD(2) [OF assms]
    by (intro shm_of_spans [OF s]) (auto simp: objects_ok_def)
qed

lemma set_shm_ok:
  assumes ok: "files_ok M st" and mv: "shm_moved (the_shm st) s"
  shows "files_ok M (set_shm s st)" "held (set_shm s st) = held st"
proof -
  note F = files_shm [OF ok]
  have sp: "spans_ok (sfa (the_shm st)) (table_spans obj_spans (objs (the_shm st)) + (table_spans pipe_spans (pipes st) +
       (table_spans conn_spans (conns st) + (table_spans mem_spans (mems st) + snd M))))"
    using F(2) by (simp add: the_shm_def)
  note S = spans_of_shm [OF sp F(1) mv]
  have "spans_ok (sfa s) (table_spans pipe_spans (pipes st) + (table_spans conn_spans (conns st) +
      (table_spans mem_spans (mems st) + (table_spans obj_spans (objs s) + snd M))))"
    using S(1) by (simp add: ac_simps)
  then have "unix_inv (all_spans M (set_shm s st)) (set_shm s st)"
    using files_okD(1) [OF ok] by (auto simp: unix_inv_def pipes_inv_def all_spans_def set_shm_def waits_wf_def)
  moreover have "objects_ok (set_shm s st)"
    using files_okD(2) [OF ok] S(2,3) by (auto simp: objects_ok_def set_shm_def)
  moreover have "held (set_shm s st) = held st" by (rule held_cong) (simp_all add: set_shm_def)
  ultimately show "files_ok M (set_shm s st)" "held (set_shm s st) = held st" by (simp_all add: files_ok_def)
qed

lemma quiet_shm:
  assumes ok: "files_ok M st" and mv: "shm_moved (the_shm st) s" and fds: "shm_fds (objs s) = shm_fds (shobjs st)"
  shows "quiet M st (set_shm s st)"
proof -
  have "refcount_of (set_shm s st) = refcount_of st" by (rule refcount_of_cong) (simp_all add: set_shm_def fds)
  then show ?thesis using set_shm_ok [OF ok mv] by (simp add: quiet_def set_shm_def)
qed

section \<open>Live objects\<close>

lemma live_pipe:
  assumes "files_ok M st" "0 < refcount_of st (PipeR, i) \<or> 0 < refcount_of st (PipeW, i)"
  shows "i < MAX_PIPES" "p_buf (pipes st ! i) \<noteq> 0"
proof -
  show i: "i < MAX_PIPES"
    using assms files_okD(3) [OF assms(1)] by (auto simp: refcount_of_def dest: nth0_pos)
  show "p_buf (pipes st ! i) \<noteq> 0"
    using assms files_okD(5) [OF assms(1) i]
    by (auto simp: refcount_of_def pipe_ok_def pipe_empty_def split: if_splits dest: nth0_pos)
qed

lemma live_conn:
  assumes "files_ok M st" "0 < refcount_of st (Unix, i)"
  shows "i div 2 < MAX_CONNS" "c_used (conns st ! (i div 2))"
proof -
  have n: "i div 2 < length (conns st)" "0 < c_refs (conns st ! (i div 2)) ! (i mod 2)"
    using assms(2) by (auto simp: refcount_of_def dest: nth0_pos)
  then show c: "i div 2 < MAX_CONNS" using files_okD(6) [OF assms(1)] by simp
  have "c_refs cempty ! (i mod 2) = 0" using mod_less_divisor [of 2 i] by (auto simp: cempty_def less_2_cases_iff)
  then show "c_used (conns st ! (i div 2))"
    using n(2) files_okD(8) [OF assms(1) c] by (auto simp: conn_ok_def split: if_splits)
qed

lemma live_listener:
  assumes "files_ok M st" "0 < refcount_of st (Listen, i)"
  shows "i < MAX_LISTEN" "l_used (listeners st ! i)"
proof -
  have n: "i < length (listeners st)" "0 < l_refs (listeners st ! i)"
    using assms(2) by (auto simp: refcount_of_def dest: nth0_pos)
  then show i: "i < MAX_LISTEN" using files_okD(7) [OF assms(1)] by simp
  show "l_used (listeners st ! i)"
    using n(2) files_okD(9) [OF assms(1) i] by (auto simp: listener_ok_def lempty_def split: if_splits)
qed

lemma live_mem:
  assumes "files_ok M st" "0 < refcount_of st (Mem, i)"
  shows "i < length (mems st)" "m_buf (mems st ! i) \<noteq> 0"
proof -
  show i: "i < length (mems st)" using assms(2) by (auto simp: refcount_of_def dest: nth0_pos)
  have "mem_ok (mems st ! i)" using files_okD(2) [OF assms(1)] i by (simp add: objects_ok_def list_all_length)
  then show "m_buf (mems st ! i) \<noteq> 0"
    using assms(2) by (auto simp: refcount_of_def mem_ok_def mem_none_def split: if_splits dest: nth0_pos)
qed

section \<open>Changing one reference count\<close>

lemma files_ok_unix:
  assumes "files_ok M st" "unix_inv (all_spans M st) st'"
    and "mems st' = mems st" "events st' = events st" "epolls st' = epolls st" "socks st' = socks st"
      "usocks st' = usocks st" "shobjs st' = shobjs st" "\<And>l. length (tabs st' l) = length (tabs st l)"
  shows "files_ok M st'"
  using assms by (simp add: files_ok_def objects_ok_def all_spans_def)

lemma files_ok_objects:
  assumes "files_ok M st" "kfa st' = kfa st" "pipes st' = pipes st" "conns st' = conns st"
    "listeners st' = listeners st" "waits_wf st'" "table_spans mem_spans (mems st') = table_spans mem_spans (mems st)"
    "shobjs st' = shobjs st" "objects_ok st'"
  shows "files_ok M st'"
  using assms unix_inv_cong [OF files_okD(1) [OF assms(1)]] by (auto simp: files_ok_def all_spans_def)

lemma bump:
  assumes "files_inv M W st" "files_ok M st'" "held st' = held st"
    "refcount_of st' = (refcount_of st)(q := refcount_of st q + 1)"
  shows "files_inv M (add_mset q W) st'"
  using assms by (auto simp: files_inv_def counted_def simp del: split_paired_All)

lemma unbump:
  assumes "files_inv M (add_mset q W) st" "files_ok M st'" "held st' + W' = held st + W"
    "refcount_of st' = (refcount_of st)(q := refcount_of st q - 1)"
  shows "files_inv M W' st'"
  unfolding files_inv_def counted_def
proof (intro conjI allI impI assms(2))
  fix p :: "kind \<times> nat" assume "tracked (fst M) (fst p)"
  then have "count (held st) p + count (add_mset q W) p = refcount_of st p"
    using assms(1) unfolding files_inv_def by (blast intro: countedD)
  then show "count (held st' + W') p = refcount_of st' p"
    unfolding assms(3,4) by (auto split: if_splits)
qed

lemma list_all_update_1: "list_all P xs \<Longrightarrow> (i < length xs \<Longrightarrow> P x) \<Longrightarrow> list_all P (xs[i := x])"
  by (cases "i < length xs") (auto simp: list_all_length nth_list_update list_update_beyond)

lemma mem_spans_update:
  "mem_spans m = mem_spans (xs ! i) \<Longrightarrow> table_spans mem_spans (xs[i := m]) = table_spans mem_spans xs"
  by (cases "i < length xs") (auto simp: list_update_beyond elim: table_spans_nth [of i xs mem_spans])

lemma refcount_upd:
  "mems st' = (mems st)[i := m] \<Longrightarrow> i < length (mems st) \<Longrightarrow> pipes st' = pipes st \<Longrightarrow> events st' = events st \<Longrightarrow>
     epolls st' = epolls st \<Longrightarrow> socks st' = socks st \<Longrightarrow> conns st' = conns st \<Longrightarrow> usocks st' = usocks st \<Longrightarrow>
     listeners st' = listeners st \<Longrightarrow> shobjs st' = shobjs st \<Longrightarrow> refcount_of st' = (refcount_of st)((Mem, i) := m_refs m)"
  "events st' = (events st)[i := e] \<Longrightarrow> i < length (events st) \<Longrightarrow> pipes st' = pipes st \<Longrightarrow> mems st' = mems st \<Longrightarrow>
     epolls st' = epolls st \<Longrightarrow> socks st' = socks st \<Longrightarrow> conns st' = conns st \<Longrightarrow> usocks st' = usocks st \<Longrightarrow>
     listeners st' = listeners st \<Longrightarrow> shobjs st' = shobjs st \<Longrightarrow> refcount_of st' = (refcount_of st)((Event, i) := e_refs e)"
  "epolls st' = (epolls st)[i := p] \<Longrightarrow> i < length (epolls st) \<Longrightarrow> pipes st' = pipes st \<Longrightarrow> mems st' = mems st \<Longrightarrow>
     events st' = events st \<Longrightarrow> socks st' = socks st \<Longrightarrow> conns st' = conns st \<Longrightarrow> usocks st' = usocks st \<Longrightarrow>
     listeners st' = listeners st \<Longrightarrow> shobjs st' = shobjs st \<Longrightarrow> refcount_of st' = (refcount_of st)((Epoll, i) := ep_refs p)"
  "socks st' = (socks st)[i := k] \<Longrightarrow> i < length (socks st) \<Longrightarrow> pipes st' = pipes st \<Longrightarrow> mems st' = mems st \<Longrightarrow>
     events st' = events st \<Longrightarrow> epolls st' = epolls st \<Longrightarrow> conns st' = conns st \<Longrightarrow> usocks st' = usocks st \<Longrightarrow>
     listeners st' = listeners st \<Longrightarrow> shobjs st' = shobjs st \<Longrightarrow> refcount_of st' = (refcount_of st)((Sock, i) := s_refs k)"
  "usocks st' = (usocks st)[i := u] \<Longrightarrow> i < length (usocks st) \<Longrightarrow> pipes st' = pipes st \<Longrightarrow> mems st' = mems st \<Longrightarrow>
     events st' = events st \<Longrightarrow> epolls st' = epolls st \<Longrightarrow> conns st' = conns st \<Longrightarrow> socks st' = socks st \<Longrightarrow>
     listeners st' = listeners st \<Longrightarrow> shobjs st' = shobjs st \<Longrightarrow> refcount_of st' = (refcount_of st)((USock, i) := u_refs u)"
  "listeners st' = (listeners st)[i := n] \<Longrightarrow> i < length (listeners st) \<Longrightarrow> pipes st' = pipes st \<Longrightarrow> mems st' = mems st \<Longrightarrow>
     events st' = events st \<Longrightarrow> epolls st' = epolls st \<Longrightarrow> conns st' = conns st \<Longrightarrow> socks st' = socks st \<Longrightarrow>
     usocks st' = usocks st \<Longrightarrow> shobjs st' = shobjs st \<Longrightarrow> refcount_of st' = (refcount_of st)((Listen, i) := l_refs n)"
  by (auto simp: fun_eq_iff refcount_of_def split: kind.split)

lemma refcount_pipe:
  "pipes st' = (pipes st)[i := p] \<Longrightarrow> i < length (pipes st) \<Longrightarrow> events st' = events st \<Longrightarrow> mems st' = mems st \<Longrightarrow>
     epolls st' = epolls st \<Longrightarrow> socks st' = socks st \<Longrightarrow> conns st' = conns st \<Longrightarrow> usocks st' = usocks st \<Longrightarrow>
     listeners st' = listeners st \<Longrightarrow> shobjs st' = shobjs st \<Longrightarrow>
     refcount_of st' = (refcount_of st)((PipeR, i) := p_readers p, (PipeW, i) := p_writers p)"
  by (auto simp: fun_eq_iff refcount_of_def split: kind.split)

lemma refcount_conn:
  "conns st' = (conns st)[c := k] \<Longrightarrow> c < length (conns st) \<Longrightarrow> events st' = events st \<Longrightarrow> mems st' = mems st \<Longrightarrow>
     epolls st' = epolls st \<Longrightarrow> socks st' = socks st \<Longrightarrow> pipes st' = pipes st \<Longrightarrow> usocks st' = usocks st \<Longrightarrow>
     listeners st' = listeners st \<Longrightarrow> shobjs st' = shobjs st \<Longrightarrow>
     refcount_of st' = (refcount_of st)((Unix, c * 2) := c_refs k ! 0, (Unix, c * 2 + 1) := c_refs k ! 1)"
proof (rule ext)
  fix q :: "kind \<times> nat"
  assume a: "conns st' = (conns st)[c := k]" "c < length (conns st)" "events st' = events st" "mems st' = mems st"
    "epolls st' = epolls st" "socks st' = socks st" "pipes st' = pipes st" "usocks st' = usocks st"
    "listeners st' = listeners st" "shobjs st' = shobjs st"
  obtain j i where q: "q = (j, i)" by (cases q)
  have par: "i div 2 = c \<Longrightarrow> i = c * 2 + i mod 2 \<and> (i mod 2 = 0 \<or> i mod 2 = 1)" by presburger
  show "refcount_of st' q =
      ((refcount_of st)((Unix, c * 2) := c_refs k ! 0, (Unix, c * 2 + 1) := c_refs k ! 1)) q"
  proof (cases "j = Unix \<and> i div 2 = c")
    case True
    then consider "i = c * 2" "i mod 2 = 0" | "i = c * 2 + 1" "i mod 2 = 1" using par by fastforce
    then show ?thesis unfolding q using True a(2) by cases (simp_all add: refcount_of_def a)
  next
    case False
    then show ?thesis unfolding q by (cases j) (auto simp: refcount_of_def a)
  qed
qed

section \<open>One more reference\<close>

definition recount :: "context_of \<Rightarrow> ('e, 'm) files_st_scheme \<Rightarrow> kind \<times> nat \<Rightarrow> nat \<Rightarrow>
    ('e, 'm) files_st_scheme \<Rightarrow> bool" where
  "recount M st q n st' \<longleftrightarrow> files_ok M st' \<and> held st' = held st \<and> tabs st' = tabs st \<and>
     refcount_of st' = (refcount_of st)(q := n)"

lemma in_table: "0 < refcount_of st (k, i) \<Longrightarrow> refcount_of st (k, i) = nth0 g xs i \<Longrightarrow> i < length xs \<and> 0 < g (xs ! i)"
  by (auto dest: nth0_pos)

lemma refcount_simps [simp]:
  "refcount_of st (PipeR, i) = nth0 p_readers (pipes st) i" "refcount_of st (PipeW, i) = nth0 p_writers (pipes st) i"
  "refcount_of st (Mem, i) = nth0 m_refs (mems st) i" "refcount_of st (Event, i) = nth0 e_refs (events st) i"
  "refcount_of st (Epoll, i) = nth0 ep_refs (epolls st) i" "refcount_of st (Sock, i) = nth0 s_refs (socks st) i"
  "refcount_of st (Unix, i) = nth0 (\<lambda>k. c_refs k ! (i mod 2)) (conns st) (i div 2)"
  "refcount_of st (USock, i) = nth0 u_refs (usocks st) i" "refcount_of st (Listen, i) = nth0 l_refs (listeners st) i"
  "refcount_of st (Shm, i) = shm_fds (shobjs st) i"
  by (simp_all add: refcount_of_def)

lemma nth0_less: "i < length xs \<Longrightarrow> nth0 g xs i = g (xs ! i)"
  by (simp add: nth0_def)

text \<open>The tables with a plain record per object.\<close>

lemma recount_mem:
  assumes ok: "files_ok M st" and i: "i < length (mems st)" and m: "mem_spans m = mem_spans (mems st ! i)" "mem_ok m"
  shows "recount M st (Mem, i) (m_refs m) (st\<lparr>mems := (mems st)[i := m]\<rparr>)"
proof -
  have "objects_ok (st\<lparr>mems := (mems st)[i := m]\<rparr>)"
    using files_okD(2) [OF ok] m(2) by (auto simp: objects_ok_def intro!: list_all_update_1)
  then have "files_ok M (st\<lparr>mems := (mems st)[i := m]\<rparr>)"
    using files_okD(4) [OF ok] m(1) by (intro files_ok_objects [OF ok]) (auto simp: waits_wf_def intro!: mem_spans_update)
  then show ?thesis using i unfolding recount_def by (intro conjI held_cong refcount_upd(1)) simp_all
qed

lemma recount_event:
  assumes ok: "files_ok M st" and i: "i < length (events st)" and e: "e_used e \<longleftrightarrow> 0 < e_refs e"
  shows "recount M st (Event, i) (e_refs e) (st\<lparr>events := (events st)[i := e]\<rparr>)"
proof -
  have "objects_ok (st\<lparr>events := (events st)[i := e]\<rparr>)"
    using files_okD(2) [OF ok] e by (auto simp: objects_ok_def intro!: list_all_update_1)
  then have "files_ok M (st\<lparr>events := (events st)[i := e]\<rparr>)"
    using files_okD(4) [OF ok] by (intro files_ok_objects [OF ok]) (auto simp: waits_wf_def)
  then show ?thesis using i unfolding recount_def by (intro conjI held_cong refcount_upd(2)) simp_all
qed

lemma recount_epoll:
  assumes ok: "files_ok M st" and i: "i < length (epolls st)" and e: "ep_used e \<longleftrightarrow> 0 < ep_refs e"
  shows "recount M st (Epoll, i) (ep_refs e) (st\<lparr>epolls := (epolls st)[i := e]\<rparr>)"
proof -
  have "objects_ok (st\<lparr>epolls := (epolls st)[i := e]\<rparr>)"
    using files_okD(2) [OF ok] e by (auto simp: objects_ok_def intro!: list_all_update_1)
  then have "files_ok M (st\<lparr>epolls := (epolls st)[i := e]\<rparr>)"
    using files_okD(4) [OF ok] by (intro files_ok_objects [OF ok]) (auto simp: waits_wf_def)
  then show ?thesis using i unfolding recount_def by (intro conjI held_cong refcount_upd(3)) simp_all
qed

lemma recount_sock:
  assumes ok: "files_ok M st" and i: "i < length (socks st)" and k: "s_used k \<longleftrightarrow> 0 < s_refs k"
  shows "recount M st (Sock, i) (s_refs k) (st\<lparr>socks := (socks st)[i := k]\<rparr>)"
proof -
  have "objects_ok (st\<lparr>socks := (socks st)[i := k]\<rparr>)"
    using files_okD(2) [OF ok] k by (auto simp: objects_ok_def intro!: list_all_update_1)
  then have "files_ok M (st\<lparr>socks := (socks st)[i := k]\<rparr>)"
    using files_okD(4) [OF ok] by (intro files_ok_objects [OF ok]) (auto simp: waits_wf_def)
  then show ?thesis using i unfolding recount_def by (intro conjI held_cong refcount_upd(4)) simp_all
qed

lemma recount_usock:
  assumes ok: "files_ok M st" and i: "i < length (usocks st)" and u: "u_used u \<longleftrightarrow> 0 < u_refs u"
  shows "recount M st (USock, i) (u_refs u) (st\<lparr>usocks := (usocks st)[i := u]\<rparr>)"
proof -
  have "objects_ok (st\<lparr>usocks := (usocks st)[i := u]\<rparr>)"
    using files_okD(2) [OF ok] u by (auto simp: objects_ok_def intro!: list_all_update_1)
  then have "files_ok M (st\<lparr>usocks := (usocks st)[i := u]\<rparr>)"
    using files_okD(4) [OF ok] by (intro files_ok_objects [OF ok]) (auto simp: waits_wf_def)
  then show ?thesis using i unfolding recount_def by (intro conjI held_cong refcount_upd(5)) simp_all
qed

lemma unix_pipe_inv:
  assumes "unix_inv M st" "pipes_inv (table_spans conn_spans (conns st) + M) st'" "conns st' = conns st"
    "listeners st' = listeners st"
  shows "unix_inv M st'"
  using assms by (simp add: unix_inv_def)

lemma add_ref_pipe:
  assumes ok: "files_ok M st" and k: "k = PipeR \<or> k = PipeW" and live: "0 < refcount_of st (k, i)"
  shows "recount M st (k, i) (refcount_of st (k, i) + 1) (pipe_add_ref k i st)"
proof -
  have i: "i < MAX_PIPES" "p_buf (pipes st ! i) \<noteq> 0" using live_pipe [OF ok, of i] k live by auto
  let ?st' = "pipe_add_ref k i st"
  obtain p where e: "?st' = put_pipe i p st"
    and p: "p_readers p = p_readers (pipes st ! i) + (if k = PipeR then 1 else 0)"
      "p_writers p = p_writers (pipes st ! i) + (if k = PipeR then 0 else 1)"
    by (simp add: pipe_add_ref_def Let_def)
  have "unix_inv (all_spans M st) ?st'"
    by (rule unix_pipe_inv [OF files_okD(1) [OF ok] pipe_add_ref_inv [OF unix_invD(1) [OF files_okD(1) [OF ok]] i]])
      (simp_all add: e)
  then have "files_ok M ?st'" by (intro files_ok_unix [OF ok]) (simp_all add: e)
  moreover have "refcount_of ?st' = (refcount_of st)((PipeR, i) := p_readers p, (PipeW, i) := p_writers p)"
    using i files_okD(3) [OF ok] by (intro refcount_pipe) (simp_all add: e)
  then have "refcount_of ?st' = (refcount_of st)((k, i) := refcount_of st (k, i) + 1)"
    using k i files_okD(3) [OF ok] by (auto simp: p nth0_less fun_eq_iff)
  moreover have "held ?st' = held st" "tabs ?st' = tabs st" by (rule held_cong, simp_all add: e)
  ultimately show ?thesis by (simp add: recount_def)
qed

lemma add_ref_listener:
  assumes ok: "files_ok M st" and live: "0 < refcount_of st (Listen, i)"
  shows "recount M st (Listen, i) (refcount_of st (Listen, i) + 1) (snd (listener_ref i 1 st))"
proof -
  note i = live_listener [OF ok live]
  let ?l = "(listeners st ! i)\<lparr>l_refs := l_refs (listeners st ! i) + 1\<rparr>" and ?st' = "snd (listener_ref i 1 st)"
  have e: "?st' = put_listener i ?l st" by (simp add: listener_ref_def Let_def nat_add_distrib)
  have "unix_inv (all_spans M st) ?st'"
    using files_okD(1) [OF ok] files_okD(9) [OF ok i(1)] i(2) unfolding e
    by (intro put_listener_inv) (auto simp: listener_ok_def)
  then have "files_ok M ?st'" by (intro files_ok_unix [OF ok]) (simp_all add: e)
  moreover have "refcount_of ?st' = (refcount_of st)((Listen, i) := l_refs ?l)"
    using i(1) files_okD(7) [OF ok] by (intro refcount_upd(6)) (simp_all add: e)
  moreover have "held ?st' = held st" "tabs ?st' = tabs st" by (rule held_cong, simp_all add: e map_update_same)
  ultimately show ?thesis using i(1) files_okD(7) [OF ok] by (simp add: recount_def nth0_less)
qed

text \<open>A connection whose reference counts change, its queues and descriptors staying.\<close>

lemma refcount_end:
  assumes st': "conns st' = (conns st)[c := k]" "c < length (conns st)" "e < 2"
    and k: "c_refs k = (c_refs (conns st ! c))[e := n]" "length (c_refs (conns st ! c)) = 2"
    and same: "events st' = events st" "mems st' = mems st" "epolls st' = epolls st" "socks st' = socks st"
      "pipes st' = pipes st" "usocks st' = usocks st" "listeners st' = listeners st" "shobjs st' = shobjs st"
  shows "refcount_of st' = (refcount_of st)((Unix, c * 2 + e) := n)"
proof -
  have r: "refcount_of st' = (refcount_of st)((Unix, c * 2) := c_refs k ! 0, (Unix, c * 2 + 1) := c_refs k ! 1)"
    by (rule refcount_conn) (use st' same in auto)
  have odd: "Suc (c * 2) mod 2 = 1" by presburger
  consider "e = 0" | "e = 1" using st'(3) by linarith
  then show ?thesis
    unfolding r by cases (use st'(2) k in \<open>auto simp: fun_eq_iff nth0_less odd\<close>)
qed

lemma add_ref_unix:
  assumes ok: "files_ok M st" and live: "0 < refcount_of st (Unix, i)"
  shows "recount M st (Unix, i) (refcount_of st (Unix, i) + 1) (unix_add_ref (i div 2) (i mod 2) st)"
proof -
  note c = live_conn [OF ok live]
  let ?c = "i div 2" and ?e = "i mod 2" and ?st' = "unix_add_ref (i div 2) (i mod 2) st"
  let ?k = "(conns st ! ?c)\<lparr>c_refs := (c_refs (conns st ! ?c))[?e := c_refs (conns st ! ?c) ! ?e + 1]\<rparr>"
  have e: "?st' = put_conn ?c ?k st" by (simp add: unix_add_ref_def Let_def)
  have len: "?c < length (conns st)" "length (c_refs (conns st ! ?c)) = 2"
    using c files_okD(6) [OF ok] used_conn(2) [OF files_okD(1) [OF ok] c] by simp_all
  have "unix_inv (all_spans M st) ?st'" using unix_add_ref_inv [OF files_okD(1) [OF ok] c, of ?e] by simp
  then have "files_ok M ?st'" by (intro files_ok_unix [OF ok]) (simp_all add: e)
  moreover have "refcount_of ?st' = (refcount_of st)((Unix, ?c * 2 + ?e) := refcount_of st (Unix, i) + 1)"
    using len by (intro refcount_end [where k = ?k]) (simp_all add: e nth0_less)
  moreover have "held ?st' = held st" "tabs ?st' = tabs st" by (rule held_cong, simp_all add: e map_update_same)
  ultimately show ?thesis by (simp add: recount_def)
qed

lemma refcount_shm:
  "shm_fds (objs s) = (shm_fds (shobjs st))(i := n) \<Longrightarrow> refcount_of (set_shm s st) = (refcount_of st)((Shm, i) := n)"
  by (auto simp: fun_eq_iff refcount_of_def set_shm_def split: kind.split)

text \<open>A change of the descriptor count of a shared-memory object.\<close>

lemma recount_shm:
  assumes ok: "files_ok M st" and mv: "shm_moved (the_shm st) s" and n: "shm_fds (objs s) = (shm_fds (shobjs st))(i := n)"
  shows "recount M st (Shm, i) n (set_shm s st)"
  unfolding recount_def using set_shm_ok [OF ok mv] refcount_shm [OF n] by (simp add: set_shm_def)

lemma recount_fd_ref:
  assumes ok: "files_ok M st"
  shows "recount M st (Shm, i) (if obj_at (the_shm st) i = None then 0 else add_refs (refcount_of st (Shm, i)) d)
    (set_shm (fd_ref i d (the_shm st)) st)"
  using fd_ref_fds [of i d "the_shm st"]
  by (intro recount_shm [OF ok fd_ref_moved [OF files_shm(1) [OF ok]]]) (simp add: the_shm_def)

lemma live_shm: "0 < refcount_of st (Shm, i) \<Longrightarrow> obj_at (the_shm st) i \<noteq> None"
  using shm_fds_obj [of "the_shm st" i] by (auto simp: the_shm_def split: option.splits)

lemma add_ref_recount:
  assumes ok: "files_ok M st" and live: "tracked (fst M) (f_kind f)" "0 < refcount_of st (obj_of f)"
  shows "recount M st (obj_of f) (refcount_of st (obj_of f) + 1) (add_ref f st)"
proof -
  let ?i = "f_ino f"
  note O = files_okD(2) [OF ok]
  have o: "obj_of f = (f_kind f, ?i)" by (simp add: obj_of_def)
  show ?thesis
  proof (cases "f_kind f")
    case Mem
    note i = live_mem [OF ok live(2) [unfolded o Mem]]
    show ?thesis
      using recount_mem [OF ok i(1), of "(mems st ! ?i)\<lparr>m_refs := m_refs (mems st ! ?i) + 1\<rparr>"] i
      by (simp add: o Mem add_ref_def Let_def mem_spans_def mem_ok_def nth0_less)
  next
    case Event
    have i: "?i < length (events st)" "0 < e_refs (events st ! ?i)" using live(2) by (auto simp: o Event dest: nth0_pos)
    then have "e_used (events st ! ?i)" using O by (auto simp: objects_ok_def list_all_length)
    then show ?thesis
      using recount_event [OF ok i(1), of "(events st ! ?i)\<lparr>e_refs := e_refs (events st ! ?i) + 1\<rparr>"] i
      by (simp add: o Event add_ref_def Let_def nth0_less)
  next
    case Epoll
    have i: "?i < length (epolls st)" "0 < ep_refs (epolls st ! ?i)" using live(2) by (auto simp: o Epoll dest: nth0_pos)
    then have "ep_used (epolls st ! ?i)" using O by (auto simp: objects_ok_def list_all_length)
    then show ?thesis
      using recount_epoll [OF ok i(1), of "(epolls st ! ?i)\<lparr>ep_refs := ep_refs (epolls st ! ?i) + 1\<rparr>"] i
      by (simp add: o Epoll add_ref_def Let_def nth0_less)
  next
    case Sock
    have i: "?i < length (socks st)" "0 < s_refs (socks st ! ?i)" using live(2) by (auto simp: o Sock dest: nth0_pos)
    then have "s_used (socks st ! ?i)" using O by (auto simp: objects_ok_def list_all_length)
    then show ?thesis
      using recount_sock [OF ok i(1), of "(socks st ! ?i)\<lparr>s_refs := s_refs (socks st ! ?i) + 1\<rparr>"] i
      by (simp add: o Sock add_ref_def Let_def nth0_less)
  next
    case USock
    have i: "?i < length (usocks st)" "0 < u_refs (usocks st ! ?i)" using live(2) by (auto simp: o USock dest: nth0_pos)
    then have "u_used (usocks st ! ?i)" using O by (auto simp: objects_ok_def list_all_length)
    then show ?thesis
      using recount_usock [OF ok i(1), of "(usocks st ! ?i)\<lparr>u_refs := u_refs (usocks st ! ?i) + 1\<rparr>"] i
      by (simp add: o USock add_ref_def Let_def nth0_less)
  next
    case PipeR
    then show ?thesis using add_ref_pipe [OF ok, of PipeR ?i] live(2) by (simp add: o add_ref_def Let_def)
  next
    case PipeW
    then show ?thesis using add_ref_pipe [OF ok, of PipeW ?i] live(2) by (simp add: o add_ref_def Let_def)
  next
    case Unix
    then show ?thesis using add_ref_unix [OF ok, of ?i] live(2) by (simp add: o add_ref_def Let_def)
  next
    case Listen
    then show ?thesis using add_ref_listener [OF ok, of ?i] live(2) by (simp add: o add_ref_def Let_def)
  next
    case Shm
    have o': "obj_at (the_shm st) ?i \<noteq> None" using live_shm live(2) by (simp add: o Shm del: refcount_simps)
    have "nat (int (refcount_of st (Shm, ?i)) + 1) = refcount_of st (Shm, ?i) + 1" by simp
    then show ?thesis using recount_fd_ref [OF ok, of ?i 1] o'
      by (simp add: o Shm add_ref_def Let_def add_refs_def del: refcount_simps)
  qed (use live in simp_all)
qed

section \<open>One reference less\<close>

lemma recountD:
  assumes "recount M st q n st'"
  shows "files_ok M st'" "held st' = held st" "tabs st' = tabs st" "refcount_of st' = (refcount_of st)(q := n)"
  using assms by (simp_all add: recount_def)

lemma recount_quiet: "recount M st q n st' \<Longrightarrow> quiet M st' st'' \<Longrightarrow> tabs st'' = tabs st' \<Longrightarrow> recount M st q n st''"
  by (simp add: recount_def quiet_def)

lemma recount_up:
  "recount M st q (refcount_of st q + 1) st' \<Longrightarrow> files_inv M W st \<Longrightarrow> files_inv M (add_mset q W) st'"
  by (rule bump) (simp_all add: recount_def)

lemma recount_down:
  "recount M st q (refcount_of st q - 1) st' \<Longrightarrow> files_inv M (add_mset q W) st \<Longrightarrow> files_inv M W st'"
  by (erule unbump) (simp_all add: recount_def)

lemma recount_untracked:
  assumes r: "recount M st q n st'" and u: "\<not> tracked (fst M) (fst q)" and inv: "files_inv M W st"
  shows "files_inv M W st'"
  unfolding files_inv_def counted_def
proof (intro conjI allI impI recountD(1) [OF r])
  fix p :: "kind \<times> nat" assume t: "tracked (fst M) (fst p)"
  then have "p \<noteq> q" using u by auto
  moreover have "count (held st + W) p = refcount_of st p"
    using inv t unfolding files_inv_def counted_def by blast
  ultimately show "count (held st' + W) p = refcount_of st' p" unfolding recountD(2,4) [OF r] by simp
qed

lemma add_ref_none: "\<not> tracked sh (f_kind f) \<Longrightarrow> f_kind f \<noteq> Shm \<Longrightarrow> add_ref f st = st"
  by (auto simp: add_ref_def tracked_def Let_def split: kind.split)

lemma add_ref_inv:
  assumes inv: "files_inv M W st" and live: "tracked (fst M) (f_kind f) \<Longrightarrow> 0 < refcount_of st (obj_of f)"
  shows "files_inv M (add_mset (obj_of f) W) (add_ref f st)" "tabs (add_ref f st) = tabs st"
    "refcount_of st q \<le> refcount_of (add_ref f st) q" "held (add_ref f st) = held st"
proof -
  have ok: "files_ok M st" using inv by (simp add: files_inv_def)
  have "files_inv M (add_mset (obj_of f) W) (add_ref f st) \<and> tabs (add_ref f st) = tabs st \<and>
      refcount_of st q \<le> refcount_of (add_ref f st) q \<and> held (add_ref f st) = held st"
  proof (cases "tracked (fst M) (f_kind f)")
    case True
    note r = add_ref_recount [OF ok True live [OF True]]
    show ?thesis using recount_up [OF r inv] recountD [OF r] by simp
  next
    case False
    have u: "files_inv M (add_mset (obj_of f) W) x \<longleftrightarrow> files_inv M W x" for x
      using False by (simp add: files_inv_def counted_untracked)
    show ?thesis
    proof (cases "f_kind f = Shm")
      case True
      note r = recount_fd_ref [OF ok, of "f_ino f" 1]
      have a: "add_ref f st = set_shm (fd_ref (f_ino f) 1 (the_shm st)) st" using True by (simp add: add_ref_def Let_def)
      have "files_inv M W (add_ref f st)" unfolding a by (rule recount_untracked [OF r _ inv]) (use False True in simp)
      moreover have "refcount_of st q \<le> refcount_of (add_ref f st) q"
        unfolding a recountD(4) [OF r] using shm_fds_obj [of "the_shm st" "f_ino f"]
        by (auto simp: add_refs_def the_shm_def)
      ultimately show ?thesis unfolding u using recountD(2,3) [OF r] by (simp add: a)
    next
      case not_shm: False
      then have e: "add_ref f st = st" by (rule add_ref_none [OF False])
      show ?thesis unfolding u e using inv by simp
    qed
  qed
  then show "files_inv M (add_mset (obj_of f) W) (add_ref f st)" "tabs (add_ref f st) = tabs st"
    "refcount_of st q \<le> refcount_of (add_ref f st) q" "held (add_ref f st) = held st" by simp_all
qed

lemma unix_inv_free:
  assumes "unix_inv (add_mset (b, n) X) st"
  shows "unix_inv X (st\<lparr>kfa := free_contig b n (kfa st)\<rparr>)"
proof -
  have "spans_ok (kfa st) (add_mset (b, n) (table_spans pipe_spans (pipes st) + (table_spans conn_spans (conns st) + X)))"
    using assms by (simp add: unix_inv_def pipes_inv_def)
  from free_span [OF this] show ?thesis
    using assms by (auto simp: unix_inv_def pipes_inv_def waits_wf_def)
qed

lemma drop_mem:
  assumes ok: "files_ok M st" and live: "0 < refcount_of st (Mem, i)" and k: "f_kind f = Mem" "f_ino f = i"
  shows "recount M st (Mem, i) (refcount_of st (Mem, i) - 1) (snd (drop_one ev f st))"
proof -
  note i = live_mem [OF ok live]
  let ?m = "(mems st ! i)\<lparr>m_refs := m_refs (mems st ! i) - 1\<rparr>"
  show ?thesis
  proof (cases "m_refs ?m = 0")
    case False
    have "recount M st (Mem, i) (m_refs ?m) (st\<lparr>mems := (mems st)[i := ?m]\<rparr>)"
      using i(2) False by (intro recount_mem [OF ok i(1)]) (auto simp: mem_spans_def mem_ok_def)
    then show ?thesis using False i(1) k by (simp add: drop_one_def Let_def nth0_less)
  next
    case True
    let ?a = "mems st ! i"
    let ?st' = "st\<lparr>kfa := free_contig (m_buf ?a) (m_pages ?a) (kfa st), mems := (mems st)[i := mem_none]\<rparr>"
    obtain K where K: "table_spans mem_spans (mems st) = mem_spans ?a + K"
      "\<And>x. table_spans mem_spans ((mems st)[i := x]) = mem_spans x + K" by (rule table_spans_nth [OF i(1), of mem_spans]) blast
    let ?X = "K + (table_spans obj_spans (shobjs st) + snd M)"
    have "unix_inv (add_mset (m_buf ?a, m_pages ?a) ?X) st"
      using files_okD(1) [OF ok] i(2) by (simp add: all_spans_def K(1) mem_spans_def)
    from unix_inv_free [OF this] have "unix_inv ?X (st\<lparr>kfa := free_contig (m_buf ?a) (m_pages ?a) (kfa st)\<rparr>)" .
    then have "unix_inv ?X ?st'" by (rule unix_inv_cong) (simp_all add: waits_wf_def files_okD(4) [OF ok, unfolded waits_wf_def])
    moreover have "mem_spans mem_none = {#}" "mem_ok mem_none" by (simp_all add: mem_spans_def mem_ok_def mem_none_def)
    ultimately have "files_ok M ?st'"
      using files_okD(2) [OF ok] by (auto simp: files_ok_def all_spans_def K(2) objects_ok_def intro!: list_all_update_1)
    moreover have "refcount_of ?st' = (refcount_of st)((Mem, i) := m_refs mem_none)"
      using i(1) by (intro refcount_upd(1)) simp_all
    moreover have "held ?st' = held st" by (rule held_cong) simp_all
    ultimately have "recount M st (Mem, i) 0 ?st'" by (simp add: recount_def mem_none_def)
    then show ?thesis using True i(1) k by (simp add: drop_one_def Let_def nth0_less)
  qed
qed

lemma drop_pipe:
  assumes ok: "files_ok M st" and k: "k = PipeR \<or> k = PipeW" and live: "0 < refcount_of st (k, i)"
  shows "recount M st (k, i) (refcount_of st (k, i) - 1) (pipe_drop_ref k i st)"
proof -
  have i: "i < MAX_PIPES" "p_buf (pipes st ! i) \<noteq> 0" using live_pipe [OF ok, of i] k live by auto
  let ?st' = "pipe_drop_ref k i st"
  define r where "r = p_readers (pipes st ! i) - (if k = PipeR then 1 else 0)"
  define w where "w = p_writers (pipes st ! i) - (if k = PipeR then 0 else 1)"
  obtain p where p: "pipes ?st' = (pipes st)[i := p]" "p_readers p = r" "p_writers p = w"
  proof (cases "r = 0 \<and> w = 0")
    case True
    then show ?thesis
      using k by (intro that [of pipe_empty]) (auto simp: pipe_drop_ref_def Let_def r_def w_def pipe_empty_def)
  next
    case False
    then show ?thesis
      using k by (intro that [of "(pipes st ! i)\<lparr>p_readers := r, p_writers := w\<rparr>"])
        (auto simp: pipe_drop_ref_def Let_def r_def w_def)
  qed
  have same: "conns ?st' = conns st" "listeners ?st' = listeners st" "tabs ?st' = tabs st" "mems ?st' = mems st"
    "events ?st' = events st" "epolls ?st' = epolls st" "socks ?st' = socks st" "usocks ?st' = usocks st"
    "shobjs ?st' = shobjs st"
    by (auto simp: pipe_drop_ref_def Let_def)
  have "unix_inv (all_spans M st) ?st'"
    by (rule unix_pipe_inv [OF files_okD(1) [OF ok] pipe_drop_ref_inv [OF unix_invD(1) [OF files_okD(1) [OF ok]] i]])
      (simp_all add: same)
  then have "files_ok M ?st'" by (intro files_ok_unix [OF ok]) (simp_all add: same)
  moreover have "refcount_of ?st' = (refcount_of st)((PipeR, i) := r, (PipeW, i) := w)"
    unfolding p(2,3) [symmetric] using i files_okD(3) [OF ok] by (intro refcount_pipe p(1)) (simp_all add: same)
  then have "refcount_of ?st' = (refcount_of st)((k, i) := refcount_of st (k, i) - 1)"
    using k i files_okD(3) [OF ok] by (auto simp: r_def w_def nth0_less fun_eq_iff)
  moreover have "held ?st' = held st" by (rule held_cong) (simp_all add: same)
  ultimately show ?thesis by (simp add: recount_def same)
qed

lemma drop_small:
  assumes ok: "files_ok M st" and live: "0 < refcount_of st (obj_of f)" and k: "f_kind f \<in> {Event, Epoll, Sock, USock}"
  shows "recount M st (obj_of f) (refcount_of st (obj_of f) - 1) (snd (drop_one ev f st))"
proof -
  let ?i = "f_ino f"
  have o: "obj_of f = (f_kind f, ?i)" by (simp add: obj_of_def)
  note O = files_okD(2) [OF ok]
  from k consider "f_kind f = Event" | "f_kind f = Epoll" | "f_kind f = Sock" | "f_kind f = USock" by blast
  then show ?thesis
  proof cases
    case 1
    have i: "?i < length (events st)" "0 < e_refs (events st ! ?i)" using live by (auto simp: o 1 dest: nth0_pos)
    then have u: "e_used (events st ! ?i)" using O by (auto simp: objects_ok_def list_all_length)
    let ?e = "(events st ! ?i)\<lparr>e_refs := e_refs (events st ! ?i) - 1\<rparr>"
    show ?thesis
      using recount_event [OF ok i(1), of "if e_refs ?e = 0 then ?e\<lparr>e_used := False\<rparr> else ?e"] i u
      by (cases "e_refs ?e = 0") (simp_all add: o 1 drop_one_def Let_def nth0_less)
  next
    case 2
    have i: "?i < length (epolls st)" "0 < ep_refs (epolls st ! ?i)" using live by (auto simp: o 2 dest: nth0_pos)
    then have u: "ep_used (epolls st ! ?i)" using O by (auto simp: objects_ok_def list_all_length)
    let ?e = "(epolls st ! ?i)\<lparr>ep_refs := ep_refs (epolls st ! ?i) - 1\<rparr>"
    show ?thesis
      using recount_epoll [OF ok i(1), of "if ep_refs ?e = 0 then ?e\<lparr>ep_used := False, ep_items := []\<rparr> else ?e"] i u
      by (cases "ep_refs ?e = 0") (simp_all add: o 2 drop_one_def Let_def nth0_less)
  next
    case 3
    have i: "?i < length (socks st)" "0 < s_refs (socks st ! ?i)" using live by (auto simp: o 3 dest: nth0_pos)
    then have u: "s_used (socks st ! ?i)" using O by (auto simp: objects_ok_def list_all_length)
    let ?k = "(socks st ! ?i)\<lparr>s_refs := s_refs (socks st ! ?i) - 1\<rparr>"
    show ?thesis
    proof (cases "s_refs ?k = 0")
      case True
      let ?w = "case s_tcp ?k of None \<Rightarrow> world st | Some h \<Rightarrow> x_tcp_close ev h (world st)"
      have r: "recount M st (Sock, ?i) 0 (st\<lparr>socks := (socks st)[?i := sock_none]\<rparr>)"
        using recount_sock [OF ok i(1), of sock_none] by (simp add: sock_none_def)
      have "recount M st (Sock, ?i) 0 (st\<lparr>socks := (socks st)[?i := sock_none], world := ?w\<rparr>)"
        by (rule recount_quiet [OF r quiet_world [OF recountD(1) [OF r]]]) simp
      also have "st\<lparr>socks := (socks st)[?i := sock_none], world := ?w\<rparr> = st\<lparr>world := ?w, socks := (socks st)[?i := sock_none]\<rparr>"
        by (cases st) simp
      finally show ?thesis using True i by (simp add: o 3 drop_one_def Let_def nth0_less)
    next
      case False
      then show ?thesis
        using recount_sock [OF ok i(1), of ?k] i u by (simp add: o 3 drop_one_def Let_def nth0_less)
    qed
  next
    case 4
    have i: "?i < length (usocks st)" "0 < u_refs (usocks st ! ?i)" using live by (auto simp: o 4 dest: nth0_pos)
    then have u: "u_used (usocks st ! ?i)" using O by (auto simp: objects_ok_def list_all_length)
    let ?u = "(usocks st ! ?i)\<lparr>u_refs := u_refs (usocks st ! ?i) - 1\<rparr>"
    show ?thesis
      using recount_usock [OF ok i(1), of "if u_refs ?u = 0 then usock_none else ?u"] i u
      by (cases "u_refs ?u = 0") (simp_all add: o 4 drop_one_def Let_def nth0_less usock_none_def)
  qed
qed

text \<open>Connections and listeners: what the last reference releases comes back as references in hand.\<close>

lemma shift_shares:
  assumes "a' + r = a + (r' :: 'a multiset)"
  shows "t + a' + l + r = t + a + l + r'"
proof (rule multiset_eqI)
  fix x
  have "count a' x + count r x = count a x + count r' x" using assms by (metis count_union)
  then show "count (t + a' + l + r) x = count (t + a + l + r') x" by simp
qed

lemma held_conn:
  assumes "c < length (conns st)" "conns st' = (conns st)[c := k]" "tabs st' = tabs st" "listeners st' = listeners st"
  shows "held st' + refs_of (in_flight (conns st ! c)) = held st + refs_of (in_flight k)"
proof -
  have "sum_list (map (\<lambda>k. refs_of (in_flight k)) (conns st')) + refs_of (in_flight (conns st ! c)) =
      sum_list (map (\<lambda>k. refs_of (in_flight k)) (conns st)) + refs_of (in_flight k)"
    using sum_list_map_update [OF assms(1), of "\<lambda>k. refs_of (in_flight k)" k] unfolding assms(2) .
  then show ?thesis unfolding held_def assms(3,4) by (rule shift_shares)
qed

lemma held_listener:
  assumes "i < length (listeners st)" "listeners st' = (listeners st)[i := x]" "tabs st' = tabs st" "conns st' = conns st"
  shows "held st' + backlog_refs (listeners st ! i) = held st + backlog_refs x"
proof -
  have "sum_list (map backlog_refs (listeners st')) + backlog_refs (listeners st ! i) =
      sum_list (map backlog_refs (listeners st)) + backlog_refs x"
    using sum_list_map_update [OF assms(1), of backlog_refs x] unfolding assms(2) .
  then show ?thesis unfolding held_def assms(3,4) using shift_shares [where l = "{#}"] by simp
qed

lemma unix_drop_ref_parts:
  assumes "k = (conns st ! c)\<lparr>c_refs := (c_refs (conns st ! c))[e := c_refs (conns st ! c) ! e - 1]\<rparr>"
  shows "conns (snd (unix_drop_ref c e st)) = (conns st)[c := if c_refs k ! 0 = 0 \<and> c_refs k ! 1 = 0 then cempty else k]"
    "fst (unix_drop_ref c e st) = (if c_refs k ! 0 = 0 \<and> c_refs k ! 1 = 0 then in_flight k else [])"
  unfolding unix_drop_ref_def Let_def assms [symmetric] by simp_all

lemma drop_unix:
  assumes inv: "files_inv M (add_mset (Unix, i) W) st" and d: "unix_drop_ref (i div 2) (i mod 2) st = (rest, st')"
  shows "files_inv M (refs_of rest + W) st'" "tabs st' = tabs st"
proof -
  have ok: "files_ok M st" and live: "0 < refcount_of st (Unix, i)"
    using inv in_hand_live [of "fst M" "(Unix, i)" W st] by (simp_all add: files_inv_def del: refcount_simps)
  note c = live_conn [OF ok live]
  let ?c = "i div 2" and ?e = "i mod 2"
  let ?k = "(conns st ! ?c)\<lparr>c_refs := (c_refs (conns st ! ?c))[?e := c_refs (conns st ! ?c) ! ?e - 1]\<rparr>"
  have len: "?c < length (conns st)" "length (c_refs (conns st ! ?c)) = 2"
    using c files_okD(6) [OF ok] used_conn(2) [OF files_okD(1) [OF ok] c] by simp_all
  have st': "st' = snd (unix_drop_ref ?c ?e st)" using d by simp
  have rest: "rest = fst (unix_drop_ref ?c ?e st)" using d by simp
  have parts: "conns st' = (conns st)[?c := if c_refs ?k ! 0 = 0 \<and> c_refs ?k ! 1 = 0 then cempty else ?k]"
    "rest = (if c_refs ?k ! 0 = 0 \<and> c_refs ?k ! 1 = 0 then in_flight ?k else [])"
    unfolding st' rest by (rule unix_drop_ref_parts [OF refl])+
  have same: "listeners st' = listeners st" "tabs st' = tabs st" "mems st' = mems st" "events st' = events st"
    "epolls st' = epolls st" "socks st' = socks st" "usocks st' = usocks st" "shobjs st' = shobjs st" "pipes st' = pipes st"
    unfolding st' by (simp_all add: unix_drop_ref_def Let_def)
  show "tabs st' = tabs st" by (rule same)
  have "unix_inv (all_spans M st) st'" by (rule unix_drop_ref_inv [OF files_okD(1) [OF ok] c _ d]) simp
  then have ok': "files_ok M st'" by (intro files_ok_unix [OF ok]) (simp_all add: same)
  have refs2: "refcount_of st' = (refcount_of st)((Unix, ?c * 2 + ?e) := c_refs (conns st ! ?c) ! ?e - 1)"
    if "conns st' = (conns st)[?c := ?k]"
    by (rule refcount_end [OF that len(1)]) (simp_all add: len same)
  obtain k' where k': "conns st' = (conns st)[?c := k']" "refs_of (in_flight k') + refs_of rest = refs_of (in_flight (conns st ! ?c))"
    and r: "refcount_of st' = (refcount_of st)((Unix, ?c * 2 + ?e) := c_refs (conns st ! ?c) ! ?e - 1)"
  proof (cases "c_refs ?k ! 0 = 0 \<and> c_refs ?k ! 1 = 0")
    case False
    then have "conns st' = (conns st)[?c := ?k]" "rest = []"
      unfolding parts by (simp_all only: if_False)
    then show ?thesis using refs2 by (intro that [of ?k]) simp_all
  next
    case True
    then have e: "conns st' = (conns st)[?c := cempty]" "rest = in_flight ?k"
      unfolding parts by (simp_all only: if_True simp_thms)
    have "refcount_of st' = refcount_of (put_conn ?c ?k st)"
    proof -
      have "refcount_of st' = (refcount_of st)((Unix, ?c * 2) := c_refs cempty ! 0, (Unix, ?c * 2 + 1) := c_refs cempty ! 1)"
        by (rule refcount_conn [OF e(1) len(1)]) (simp_all add: same)
      moreover have "refcount_of (put_conn ?c ?k st) =
          (refcount_of st)((Unix, ?c * 2) := c_refs ?k ! 0, (Unix, ?c * 2 + 1) := c_refs ?k ! 1)"
        by (rule refcount_conn [OF _ len(1)]) simp_all
      ultimately show ?thesis using True by (simp add: cempty_def)
    qed
    also have "\<dots> = (refcount_of st)((Unix, ?c * 2 + ?e) := c_refs (conns st ! ?c) ! ?e - 1)"
      by (rule refcount_end [OF _ len(1), where k = ?k]) (simp_all add: len)
    finally show ?thesis using e by (intro that [of cempty]) simp_all
  qed
  have "held st' + refs_of (in_flight (conns st ! ?c)) = held st + refs_of (in_flight k')"
    by (rule held_conn [OF len(1) k'(1)]) (simp_all add: same)
  then have "held st' + refs_of rest = held st" unfolding k'(2) [symmetric] by (simp add: ac_simps)
  moreover have "refcount_of st' = (refcount_of st)((Unix, i) := refcount_of st (Unix, i) - 1)"
    using r len by (simp add: nth0_less)
  ultimately show "files_inv M (refs_of rest + W) st'"
    by (intro unbump [OF inv ok']) (simp_all add: add.assoc [symmetric])
qed

lemma drop_listen:
  assumes inv: "files_inv M (add_mset (Listen, i) W) st" and d: "listener_ref i (- 1) st = (cs, st')"
  shows "files_inv M (refs_of (map server_end cs) + W) st'" "tabs st' = tabs st"
proof -
  have ok: "files_ok M st" and live: "0 < refcount_of st (Listen, i)"
    using inv in_hand_live [of "fst M" "(Listen, i)" W st] by (simp_all add: files_inv_def del: refcount_simps)
  note i = live_listener [OF ok live]
  let ?l = "(listeners st ! i)\<lparr>l_refs := l_refs (listeners st ! i) - 1\<rparr>"
  have len: "i < length (listeners st)" using i files_okD(7) [OF ok] by simp
  obtain x where x: "st' = put_listener i x st" "backlog_refs x + refs_of (map server_end cs) = backlog_refs (listeners st ! i)"
    and r: "l_refs x = l_refs (listeners st ! i) - 1"
  proof (cases "l_refs ?l = 0")
    case True
    then show ?thesis using d
      by (intro that [of lempty]) (auto simp: listener_ref_def Let_def lempty_def backlog_refs_def refs_of_def comp_def)
  next
    case False
    then show ?thesis using d
      by (intro that [of ?l]) (auto simp: listener_ref_def Let_def backlog_refs_def nat_diff_distrib)
  qed
  show "tabs st' = tabs st" by (simp add: x(1))
  have "unix_inv (all_spans M st) (snd (listener_ref i (- 1) st))"
    by (rule listener_ref_inv [OF files_okD(1) [OF ok] i(2,1)])
  then have ok': "files_ok M st'" using d by (intro files_ok_unix [OF ok]) (simp_all add: x(1))
  have "held st' + backlog_refs (listeners st ! i) = held st + backlog_refs x"
    by (rule held_listener [OF len]) (simp_all add: x(1))
  then have "held st' + refs_of (map server_end cs) = held st" unfolding x(2) [symmetric] by (simp add: ac_simps)
  moreover have "refcount_of st' = (refcount_of st)((Listen, i) := l_refs x)"
    using len by (intro refcount_upd(6)) (simp_all add: x(1))
  then have "refcount_of st' = (refcount_of st)((Listen, i) := refcount_of st (Listen, i) - 1)"
    using len r by (simp add: nth0_less)
  ultimately show "files_inv M (refs_of (map server_end cs) + W) st'"
    by (intro unbump [OF inv ok']) (simp_all add: add.assoc [symmetric])
qed

end
