(* ===== verification/Files_Steps.thy ===== *)
theory Files_Steps
  imports Files_Inv
begin

text \<open>
  The descriptor operations keep the invariant of \<open>Files_Inv\<close>. A step hands references around:
  \<open>files_inv M W st\<close> says that the state is consistent when the references \<open>W\<close> are in the hands of
  the operation. \<open>drop_refs\<close> gives its references up, \<open>install\<close> puts one into a table, \<open>unix_read\<close> and
  \<open>unix_write\<close> move them out of and into the messages of a connection.
\<close>

section \<open>Dropping references\<close>

lemma tabs_after_close [simp]: "tabs (after_close ev i st) = tabs st"
  by (auto simp: after_close_def Let_def split: option.splits)

lemma set_shm_tabs [simp]: "tabs (set_shm s st) = tabs st"
  by (simp add: set_shm_def)

lemma files_inv_untracked:
  "\<not> tracked (fst M) (fst q) \<Longrightarrow> files_inv M (add_mset q W) st \<longleftrightarrow> files_inv M W st"
  by (simp add: files_inv_def counted_untracked)

lemma drop_one_untracked:
  assumes inv: "files_inv M W st" and k: "\<not> tracked (fst M) (f_kind f)"
  shows "files_inv M W (snd (drop_one ev f st))" "tabs (snd (drop_one ev f st)) = tabs st"
proof -
  have ok: "files_ok M st" using inv by (simp add: files_inv_def)
  consider "f_kind f = File \<or> f_kind f = Dir" | "f_kind f = Shm" | "f_kind f \<notin> {File, Dir, Shm}" by blast
  then have "files_inv M W (snd (drop_one ev f st)) \<and> tabs (snd (drop_one ev f st)) = tabs st"
  proof cases
    case 1
    then show ?thesis using quiet_inv [OF quiet_after_close [OF ok] inv] by (auto simp: drop_one_def Let_def)
  next
    case 2
    then show ?thesis using recount_untracked [OF recount_fd_ref [OF ok] _ inv] k by (simp add: drop_one_def Let_def)
  next
    case 3
    then show ?thesis using k inv by (cases "f_kind f") (simp_all add: drop_one_def Let_def)
  qed
  then show "files_inv M W (snd (drop_one ev f st))" "tabs (snd (drop_one ev f st)) = tabs st" by simp_all
qed

lemma drop_one_inv:
  assumes inv: "files_inv M (add_mset (obj_of f) W) st" and d: "drop_one ev f st = (rest, st')"
  shows "files_inv M (refs_of rest + W) st'" "tabs st' = tabs st"
proof -
  have ok: "files_ok M st" and c: "counted (fst M) (add_mset (obj_of f) W) st" using inv by (simp_all add: files_inv_def)
  have o: "obj_of f = (f_kind f, f_ino f)" by (simp add: obj_of_def)
  have live: "tracked (fst M) (f_kind f) \<Longrightarrow> 0 < refcount_of st (obj_of f)" using in_hand_live [OF c] by simp
  have "files_inv M (refs_of rest + W) st' \<and> tabs st' = tabs st"
  proof (cases "f_kind f \<in> {Unix, Listen}")
    case True
    then consider "f_kind f = Unix" | "f_kind f = Listen" by blast
    then show ?thesis
    proof cases
      case 1
      have "0 < refcount_of st (Unix, f_ino f)" using live 1 by (simp only: o tracked_simps simp_thms)
      note n = live_conn [OF ok this]
      have d': "unix_drop_ref (f_ino f div 2) (f_ino f mod 2) st = (rest, st')"
        using d n(1) files_okD(6) [OF ok] by (simp add: drop_one_unix 1)
      show ?thesis using drop_unix [OF inv [unfolded o 1] d'] by simp
    next
      case 2
      have "0 < refcount_of st (Listen, f_ino f)" using live 2 by (simp only: o tracked_simps simp_thms)
      note n = live_listener [OF ok this]
      obtain cs where d': "listener_ref (f_ino f) (- 1) st = (cs, st')" "rest = map server_end cs"
        using d n(1) files_okD(7) [OF ok] by (auto simp: drop_one_listen 2 split: prod.splits)
      show ?thesis using drop_listen [OF inv [unfolded o 2] d'(1)] d'(2) by simp
    qed
  next
    case False
    have rest: "rest = []" "st' = snd (drop_one ev f st)" using drop_one_simple(1) [of f ev st] False d by simp_all
    show ?thesis
    proof (cases "tracked (fst M) (f_kind f)")
      case True
      have r: "recount M st (obj_of f) (refcount_of st (obj_of f) - 1) st'"
      proof (cases "f_kind f \<in> {Event, Epoll, Sock, USock}")
        case True
        then show ?thesis unfolding rest by (intro drop_small [OF ok live]) auto
      next
        case other: False
        then consider "f_kind f = Mem" | "f_kind f = PipeR \<or> f_kind f = PipeW" | "f_kind f = Shm"
          using True False by (auto simp: tracked_def)
        then show ?thesis
        proof cases
          case 1
          then show ?thesis unfolding rest o 1 using drop_mem [OF ok _ 1 refl] live [OF True] by (simp only: o 1)
        next
          case 2
          then have "st' = pipe_drop_ref (f_kind f) (f_ino f) st" unfolding rest by (auto simp: drop_one_def Let_def)
          then show ?thesis using drop_pipe [OF ok 2] live [OF True] by (simp only: o)
        next
          case 3
          have l: "0 < refcount_of st (Shm, f_ino f)" using live [OF True] by (simp only: o 3)
          have "add_refs (refcount_of st (Shm, f_ino f)) (- 1) = refcount_of st (Shm, f_ino f) - 1"
            by (simp add: add_refs_def nat_diff_distrib)
          then show ?thesis using recount_fd_ref [OF ok, of "f_ino f" "- 1"] live_shm [OF l]
            by (simp add: rest o 3 drop_one_def Let_def del: refcount_simps)
        qed
      qed
      show ?thesis using recount_down [OF r inv] recountD(3) [OF r] by (simp add: rest(1))
    next
      case untr: False
      then show ?thesis
        using drop_one_untracked [OF _ untr, of W st ev] inv by (simp add: rest files_inv_untracked)
    qed
  qed
  then show "files_inv M (refs_of rest + W) st'" "tabs st' = tabs st" by simp_all
qed

lemma drop_refs_inv:
  "files_inv M (refs_of fs + W) st \<Longrightarrow> files_inv M W (drop_refs ev fs st) \<and> tabs (drop_refs ev fs st) = tabs st"
proof (induction ev fs st rule: drop_refs.induct)
  case (2 ev f fs st)
  obtain rest st' where d: "drop_one ev f st = (rest, st')" by (cases "drop_one ev f st")
  have "files_inv M (add_mset (obj_of f) (refs_of fs + W)) st" using 2(2) by simp
  note s = drop_one_inv [OF this d]
  have "files_inv M (refs_of (rest @ fs) + W) st'" using s(1) by (simp add: add.assoc)
  from 2(1) [OF d [symmetric] this] show ?case using s(2) by (simp add: d)
qed simp

lemma drop_all_inv: "files_inv M (refs_of fs + W) st \<Longrightarrow> files_inv M W (drop_refs ev fs st)"
  by (simp add: drop_refs_inv)

lemma drop_ref_inv: "files_inv M (add_mset (obj_of f) W) st \<Longrightarrow> files_inv M W (drop_refs ev [f] st)"
  by (rule drop_all_inv) simp

section \<open>Putting a description into a table\<close>

lemma put_fd_inv:
  assumes inv: "files_inv M (add_mset (obj_of f) W) st" and l: "l < LEADERS" "i < MAX_FDS"
  shows "files_inv M (add_mset (obj_of (tabs st l ! i)) W) (put_fd l i f st)"
proof -
  have ok: "files_ok M st" and c: "counted (fst M) (add_mset (obj_of f) W) st" using inv by (simp_all add: files_inv_def)
  have len: "i < length (tabs st l)" using files_okD(10) [OF ok l(1)] l(2) by simp
  let ?st' = "put_fd l i f st"
  have "files_ok M ?st'"
    by (rule files_ok_unix [OF ok])
      (use unix_inv_cong [OF files_okD(1) [OF ok], of ?st'] files_okD(4) [OF ok] in \<open>simp_all add: waits_wf_def\<close>)
  moreover have "refcount_of ?st' = refcount_of st" by (rule refcount_of_cong) simp_all
  moreover have "held ?st' + add_mset (obj_of (tabs st l ! i)) W = held st + add_mset (obj_of f) W"
    using held_put_fd [OF l(1) len, of f] by (metis union_mset_add_mset_left union_mset_add_mset_right)
  ultimately show ?thesis unfolding files_inv_def by (intro conjI counted_same [OF c])
qed

lemma clear_fd_inv:
  "files_inv M W st \<Longrightarrow> l < LEADERS \<Longrightarrow> i < MAX_FDS \<Longrightarrow>
   files_inv M (add_mset (obj_of (tabs st l ! i)) W) (put_fd l i FREE_FILE st)"
  by (rule put_fd_inv) (simp_all add: files_inv_untracked)

lemma install_cases:
  assumes "install l f from st = (r, st')"
  obtains "r = Inl EMFILE" "st' = st"
    | i where "from \<le> i" "i < MAX_FDS" "f_kind (tabs st l ! i) = Free" "r = Inr i" "st' = put_fd l i f st"
proof (cases "List.find (\<lambda>i. f_kind (tabs st l ! i) = Free) [from..<MAX_FDS]")
  case None
  then show ?thesis using assms that(1) by (simp add: install_def)
next
  case (Some i)
  then obtain k where "k < length [from..<MAX_FDS]" "i = [from..<MAX_FDS] ! k" "f_kind (tabs st l ! i) = Free"
    unfolding find_Some_iff by blast
  then show ?thesis using assms Some by (intro that(2) [of i]) (simp_all add: install_def)
qed

lemma install_inv:
  assumes inv: "files_inv M (add_mset (obj_of f) W) st" and l: "l < LEADERS" and i: "install l f from st = (Inr i, st')"
  shows "files_inv M W st'"
  using i
proof (cases rule: install_cases)
  case (2 j)
  have "\<not> tracked (fst M) (fst (obj_of (tabs st l ! j)))" using 2(3) by simp
  from files_inv_untracked [OF this, THEN iffD1, OF put_fd_inv [OF inv l 2(2)]] show ?thesis unfolding 2(5) .
qed simp

lemma install_error: "install l f from st = (Inl e, st') \<Longrightarrow> st' = st \<and> e = EMFILE"
  by (auto elim: install_cases)

lemma install_or_drop_inv:
  assumes inv: "files_inv M (add_mset (obj_of f) W) st" and l: "l < LEADERS"
  shows "files_inv M W (snd (install_or_drop ev l f st))"
proof (cases "install l f 0 st")
  case (Pair r st')
  then show ?thesis
  proof (cases r)
    case (Inl e)
    then show ?thesis using Pair install_error [of l f 0 st e st'] drop_ref_inv [OF inv] by (simp add: install_or_drop_def)
  next
    case (Inr i)
    then show ?thesis using Pair install_inv [OF inv l] by (simp add: install_or_drop_def)
  qed
qed

lemma add_ref_put_fd: "add_ref g (put_fd l i f st) = put_fd l i f (add_ref g st)"
  by (cases "f_kind g")
    (simp_all add: add_ref_def Let_def put_fd_def pipe_add_ref_def put_pipe_def unix_add_ref_def put_conn_def
      listener_ref_def put_listener_def set_shm_def the_shm_def)

text \<open>The same reference twice: one stays in hand.\<close>

lemma add_refs_inv:
  assumes "files_inv M W st" "\<And>f. f \<in> set fs \<Longrightarrow> tracked (fst M) (f_kind f) \<Longrightarrow> 0 < refcount_of st (obj_of f)"
  shows "files_inv M (refs_of fs + W) (fold add_ref fs st) \<and> tabs (fold add_ref fs st) = tabs st \<and>
    held (fold add_ref fs st) = held st"
  using assms
proof (induction fs arbitrary: st W)
  case (Cons f fs)
  note a = add_ref_inv [OF Cons(2) Cons(3) [of f]]
  have a1: "files_inv M (add_mset (obj_of f) W) (add_ref f st)" and a2: "tabs (add_ref f st) = tabs st"
    and a4: "held (add_ref f st) = held st" using a by simp_all
  have "files_inv M (refs_of fs + add_mset (obj_of f) W) (fold add_ref fs (add_ref f st)) \<and>
      tabs (fold add_ref fs (add_ref f st)) = tabs (add_ref f st) \<and>
      held (fold add_ref fs (add_ref f st)) = held (add_ref f st)"
  proof (rule Cons(1) [OF a1])
    fix g assume "g \<in> set fs" "tracked (fst M) (f_kind g)"
    then have "0 < refcount_of st (obj_of g)" using Cons(3) by simp
    moreover have "refcount_of st (obj_of g) \<le> refcount_of (add_ref f st) (obj_of g)" using a(3) by simp
    ultimately show "0 < refcount_of (add_ref f st) (obj_of g)" by linarith
  qed
  then show ?case using a2 a4 by simp
qed simp

text \<open>A description looked up in a table, or in a message, names a live object.\<close>

lemma table_live:
  assumes inv: "files_inv M W st" and l: "l < LEADERS" and f: "f \<in> set (tabs st l)" "tracked (fst M) (f_kind f)"
  shows "0 < refcount_of st (obj_of f)"
proof -
  have "obj_of f \<in># held st" unfolding in_held using l f(1) by blast
  then show ?thesis using inv f(2) held_live [of "fst M" W st "obj_of f"] by (simp add: files_inv_def)
qed

lemma get_fd_cases:
  assumes "get_fd l fd st = Inr f"
  shows "fd mod 2 ^ 32 < length (tabs st l)" "tabs st l ! (fd mod 2 ^ 32) = f" "f_kind f \<noteq> Free" "f \<in> set (tabs st l)"
  using assms by (auto simp: get_fd_def Let_def split: if_splits)

section \<open>References in messages and backlogs\<close>

lemma reinv:
  assumes "files_inv M W st" "files_ok M st'"
    and "\<And>q. tracked (fst M) (fst q) \<Longrightarrow> count (held st' + W') q + refcount_of st q = count (held st + W) q + refcount_of st' q"
  shows "files_inv M W' st'"
  unfolding files_inv_def counted_def
proof (intro conjI allI impI assms(2))
  fix q :: "kind \<times> nat" assume t: "tracked (fst M) (fst q)"
  then have "count (held st + W) q = refcount_of st q"
    using assms(1) unfolding files_inv_def counted_def by blast
  then show "count (held st' + W') q = refcount_of st' q" using assms(3) [OF t] by linarith
qed

lemma moved_inv:
  assumes "files_inv M W st" "files_ok M st'" "held st' + W' = held st + W" "refcount_of st' = refcount_of st"
  shows "files_inv M W' st'"
  by (rule reinv [OF assms(1,2)]) (simp only: assms(3,4))

definition queue_files :: "queue \<Rightarrow> open_file list" where
  "queue_files q = concat (map a_files (q_atts q))"

lemma refs_of_concat: "refs_of (concat fss) = sum_list (map refs_of fss)"
  by (induction fss) simp_all

lemma in_flight_refs: "refs_of (in_flight k) = sum_list (map (\<lambda>q. refs_of (queue_files q)) (c_q k))"
  by (simp add: in_flight_def refs_of_concat comp_def queue_files_def)

lemma held_queue:
  assumes c: "c < length (conns st)" "e < length (c_q (conns st ! c))"
    and st': "conns st' = (conns st)[c := (conns st ! c)\<lparr>c_q := (c_q (conns st ! c))[e := q]\<rparr>]"
      "tabs st' = tabs st" "listeners st' = listeners st"
  shows "held st' + refs_of (queue_files (c_q (conns st ! c) ! e)) = held st + refs_of (queue_files q)"
proof -
  let ?k = "conns st ! c" and ?k' = "(conns st ! c)\<lparr>c_q := (c_q (conns st ! c))[e := q]\<rparr>"
  have one: "refs_of (in_flight ?k') + refs_of (queue_files (c_q ?k ! e)) = refs_of (in_flight ?k) + refs_of (queue_files q)"
    using sum_list_map_update [OF c(2), of "\<lambda>q. refs_of (queue_files q)" q] by (simp add: in_flight_refs)
  have all: "held st' + refs_of (in_flight ?k) = held st + refs_of (in_flight ?k')"
    by (rule held_conn [OF c(1) st'])
  show ?thesis
  proof (rule multiset_eqI)
    fix x
    have "count (held st') x + count (refs_of (in_flight ?k)) x = count (held st) x + count (refs_of (in_flight ?k')) x"
      using all by (metis count_union)
    moreover have "count (refs_of (in_flight ?k')) x + count (refs_of (queue_files (c_q ?k ! e))) x =
        count (refs_of (in_flight ?k)) x + count (refs_of (queue_files q)) x"
      using one by (metis count_union)
    ultimately show "count (held st' + refs_of (queue_files (c_q ?k ! e))) x = count (held st + refs_of (queue_files q)) x"
      by simp
  qed
qed

lemma refcount_queue:
  assumes "conns st' = (conns st)[c := (conns st ! c)\<lparr>c_q := qs\<rparr>]"
    and "events st' = events st" "mems st' = mems st" "epolls st' = epolls st" "socks st' = socks st"
      "pipes st' = pipes st" "usocks st' = usocks st" "listeners st' = listeners st" "shobjs st' = shobjs st"
  shows "refcount_of st' = refcount_of st"
proof -
  have "nth0 (\<lambda>k. c_refs k ! e) (conns st') = nth0 (\<lambda>k. c_refs k ! e) (conns st)" for e
    unfolding assms(1) by (rule ext) (auto simp: nth0_less)
  then show ?thesis by (intro ext) (simp add: refcount_of_def assms(2-) split: prod.split kind.split)
qed

text \<open>A message queue changes in place: what it gains comes from the hand, what it loses goes there.\<close>

lemma queue_inv:
  assumes inv: "files_inv M (refs_of fs + W) st" and c: "c < MAX_CONNS" "c_used (conns st ! c)" "e < 2"
    and u: "unix_inv (all_spans M st) st'"
    and st': "conns st' = (conns st)[c := (conns st ! c)\<lparr>c_q := (c_q (conns st ! c))[e := q]\<rparr>]"
      "tabs st' = tabs st" "listeners st' = listeners st" "events st' = events st" "mems st' = mems st"
      "epolls st' = epolls st" "socks st' = socks st" "pipes st' = pipes st" "usocks st' = usocks st"
      "shobjs st' = shobjs st"
    and q: "refs_of (queue_files (c_q (conns st ! c) ! e)) + refs_of fs = refs_of (queue_files q) + refs_of gs"
  shows "files_inv M (refs_of gs + W) st'"
proof -
  have ok: "files_ok M st" using inv by (simp add: files_inv_def)
  have len: "c < length (conns st)" "length (c_q (conns st ! c)) = 2"
    using c files_okD(6) [OF ok] used_conn(1) [OF files_okD(1) [OF ok] c(1,2)] by simp_all
  have ok': "files_ok M st'" by (rule files_ok_unix [OF ok u]) (simp_all add: st')
  have h: "held st' + refs_of (queue_files (c_q (conns st ! c) ! e)) = held st + refs_of (queue_files q)"
    by (rule held_queue [OF len(1) _ st'(1-3)]) (use len c(3) in simp)
  have "held st' + (refs_of gs + W) = held st + (refs_of fs + W)"
  proof (rule multiset_eqI)
    fix x
    let ?o = "refs_of (queue_files (c_q (conns st ! c) ! e))" and ?n = "refs_of (queue_files q)"
    have "count (held st') x + count ?o x = count (held st) x + count ?n x" using h by (metis count_union)
    moreover have "count ?o x + count (refs_of fs) x = count ?n x + count (refs_of gs) x" using q by (metis count_union)
    ultimately show "count (held st' + (refs_of gs + W)) x = count (held st + (refs_of fs + W)) x" by simp
  qed
  moreover have "refcount_of st' = refcount_of st" by (rule refcount_queue [OF st'(1)]) (simp_all add: st')
  ultimately show ?thesis by (rule moved_inv [OF inv ok'])
qed

text \<open>A connection end in hand, in a table or in flight: the connection is in use.\<close>

lemma end_ok:
  assumes inv: "files_inv M W st" and live: "0 < refcount_of st (Unix, i)"
  shows "i div 2 < MAX_CONNS" "c_used (conns st ! (i div 2))" "i mod 2 < 2" "i div 2 < length (conns st)"
proof -
  have ok: "files_ok M st" using inv by (simp add: files_inv_def)
  show "i div 2 < MAX_CONNS" "c_used (conns st ! (i div 2))" by (rule live_conn [OF ok live])+
  then show "i mod 2 < 2" "i div 2 < length (conns st)" using files_okD(6) [OF ok] by simp_all
qed

lemma block_keep [simp]:
  "tabs (snd (would_block c key st)) = tabs st" "listeners (snd (would_block c key st)) = listeners st"
  by (simp_all add: would_block_def)

lemma unix_read_refs:
  assumes inv: "files_inv M W st" and live: "0 < refcount_of st (Unix, i)"
    and r: "unix_read cpu (i div 2) (i mod 2) len nb st = (r, st')"
  shows "files_inv M (case r of Inl e \<Rightarrow> W | Inr (bs, t, fds) \<Rightarrow> refs_of fds + W) st'" "tabs st' = tabs st"
proof -
  note c = end_ok [OF inv live]
  have ok: "files_ok M st" using inv by (simp add: files_inv_def)
  have u: "unix_inv (all_spans M st) st'" by (rule unix_read_inv [OF files_okD(1) [OF ok] c(1-3) r])
  have "files_inv M (case r of Inl e \<Rightarrow> W | Inr (bs, t, fds) \<Rightarrow> refs_of fds + W) st' \<and> tabs st' = tabs st"
    using r refl refl
  proof (cases rule: unix_read_cases)
    case stay
    have "quiet M st st'" "tabs st' = tabs st"
      using stay(3) quiet_refl [OF ok] quiet_block_snd [OF ok] by (auto simp: would_block_def)
    then show ?thesis using stay(2) quiet_inv [OF _ inv] by (auto split: sum.split)
  next
    case (take fds q1 n consume trunc q2)
    have qok: "queue_ok (c_packet (conns st ! (i div 2))) (the_queue (i div 2) (i mod 2) st)"
      using used_conn(3) [OF files_okD(1) [OF ok] c(1-3)] by (simp add: the_queue_def)
    note f = take_fds_ok [OF qok take(2)]
    have "q_len q1 \<noteq> 0" using f(4) take(1) by simp
    note a = take_amount_ok [OF f(1) this take(3)]
    let ?q = "q2\<lparr>q_head := (q_head q2 + consume) mod CAP, q_len := q_len q2 - consume, q_rpos := q_rpos q2 + consume\<rparr>"
    have "refs_of (queue_files (c_q (conns st ! (i div 2)) ! (i mod 2))) = refs_of (queue_files ?q) + refs_of fds"
      using f(9) a(5) by (simp add: queue_files_def the_queue_def)
    then have "files_inv M (refs_of fds + W) st'"
      by (intro queue_inv [where fs = "[]", OF _ c(1-3) u]) (simp_all add: take(5) put_queue_conn inv)
    then show ?thesis by (simp add: take(4,5) put_queue_conn)
  qed
  then show "files_inv M (case r of Inl e \<Rightarrow> W | Inr (bs, t, fds) \<Rightarrow> refs_of fds + W) st'" "tabs st' = tabs st" by simp_all
qed

lemma unix_write_refs:
  assumes inv: "files_inv M (refs_of files + W) st" and live: "0 < refcount_of st (Unix, i)"
    and r: "unix_write cpu (i div 2) (i mod 2) src nb files st = (r, st')"
  shows "files_inv M (case r of Inl e \<Rightarrow> refs_of files + W | Inr n \<Rightarrow> W) st'" "tabs st' = tabs st"
proof -
  note c = end_ok [OF inv live]
  have ok: "files_ok M st" using inv by (simp add: files_inv_def)
  have u: "unix_inv (all_spans M st) st'" by (rule unix_write_inv [OF files_okD(1) [OF ok] c(1-3) r])
  have "files_inv M (case r of Inl e \<Rightarrow> refs_of files + W | Inr n \<Rightarrow> W) st' \<and> tabs st' = tabs st"
    using r refl refl
  proof (cases rule: unix_write_cases)
    case (stay x)
    have "quiet M st st'" "tabs st' = tabs st"
      using stay(2) quiet_refl [OF ok] quiet_block_snd [OF ok] by (auto simp: would_block_def)
    then show ?thesis using stay(1) quiet_inv [OF _ inv] by simp
  next
    case (put n)
    let ?k = "conns st ! (i div 2)"
    let ?q = "written (c_packet ?k) n files (the_queue (i div 2) (1 - i mod 2) st)"
    have e: "1 - i mod 2 < 2" by simp
    have "refs_of (queue_files (c_q ?k ! (1 - i mod 2))) + refs_of files = refs_of (queue_files ?q)"
      by (simp add: queue_files_def the_queue_def)
    then have "files_inv M (refs_of [] + W) st'"
      by (intro queue_inv [OF inv c(1,2) e u]) (simp_all add: put(8) put_queue_conn)
    then show ?thesis by (simp add: put(7,8) put_queue_conn)
  qed
  then show "files_inv M (case r of Inl e \<Rightarrow> refs_of files + W | Inr n \<Rightarrow> W) st'" "tabs st' = tabs st" by simp_all
qed

lemma quiet_unix:
  assumes ok: "files_ok M st" and u: "unix_inv (all_spans M st) st'"
    and same: "mems st' = mems st" "events st' = events st" "epolls st' = epolls st" "socks st' = socks st"
      "usocks st' = usocks st" "shobjs st' = shobjs st" "tabs st' = tabs st"
    and held: "held st' = held st" and refs: "refcount_of st' = refcount_of st"
  shows "quiet M st st'"
  using files_ok_unix [OF ok u] same held refs by (simp add: quiet_def)

text \<open>A change of a queue that keeps its attachments, as \<open>shutdown\<close> does.\<close>

lemma quiet_queue:
  assumes inv: "files_ok M st" and c: "c < MAX_CONNS" "c_used (conns st ! c)" "e < 2"
    and q: "queue_ok (c_packet (conns st ! c)) q" "q_buf q = q_buf (c_q (conns st ! c) ! e)"
      "q_atts q = q_atts (c_q (conns st ! c) ! e)"
  shows "quiet M st (put_queue c e q st)"
proof (rule quiet_unix [OF inv])
  have len: "c < length (conns st)" "length (c_q (conns st ! c)) = 2"
    using c files_okD(6) [OF inv] used_conn(1) [OF files_okD(1) [OF inv] c(1,2)] by simp_all
  show "unix_inv (all_spans M st) (put_queue c e q st)" by (rule put_queue_inv [OF files_okD(1) [OF inv] c q(1,2)])
  have "held (put_queue c e q st) + refs_of (queue_files (c_q (conns st ! c) ! e)) = held st + refs_of (queue_files q)"
    by (rule held_queue [OF len(1)]) (simp_all add: put_queue_conn len(2) c(3))
  then show "held (put_queue c e q st) = held st" using q(3) by (simp add: queue_files_def)
  show "refcount_of (put_queue c e q st) = refcount_of st" by (rule refcount_queue) (simp_all add: put_queue_conn)
qed (simp_all add: put_queue_conn)

lemma quiet_shut_one:
  assumes ok: "files_ok M st" and c: "c < MAX_CONNS" "c_used (conns st ! c)" "e < 2"
  shows "quiet M st (push_wake key (put_queue c e ((c_q (conns st ! c) ! e)\<lparr>q_eof := True\<rparr>) st))"
proof -
  have qok: "queue_ok (c_packet (conns st ! c)) (c_q (conns st ! c) ! e)"
    using used_conn(3) [OF files_okD(1) [OF ok] c] .
  have "msg_sizes ((c_q (conns st ! c) ! e)\<lparr>q_eof := True\<rparr>) = msg_sizes (c_q (conns st ! c) ! e)"
    by (rule msg_sizes_cong) simp_all
  then have "queue_ok (c_packet (conns st ! c)) ((c_q (conns st ! c) ! e)\<lparr>q_eof := True\<rparr>)"
    using qok by (auto simp: queue_ok_def)
  then have "quiet M st (put_queue c e ((c_q (conns st ! c) ! e)\<lparr>q_eof := True\<rparr>) st)"
    by (intro quiet_queue [OF ok c]) simp_all
  then show ?thesis using quiet_trans quiet_push_wake quietD by blast
qed

lemma quiet_shutdown:
  assumes ok: "files_ok M st" and c: "c < MAX_CONNS" "c_used (conns st ! c)" "e < 2"
  shows "quiet M st (unix_shutdown c e how st)"
proof -
  define st1 where "st1 = (if how \<noteq> 0 then push_wake (ukey_r c (1 - e))
      (put_queue c (1 - e) ((c_q (conns st ! c) ! (1 - e))\<lparr>q_eof := True\<rparr>) st) else st)"
  have e: "1 - e < 2" by simp
  have q1: "quiet M st st1"
    unfolding st1_def using quiet_shut_one [OF ok c(1,2) e] quiet_refl [OF ok] by (cases "how = 0") simp_all
  have "c_used (conns st1 ! c)" using c files_okD(6) [OF ok] by (simp add: st1_def put_queue_conn)
  from quiet_shut_one [OF quietD [OF q1] c(1) this c(3)]
  have "quiet M st (push_wake (ukey_r c e) (put_queue c e ((c_q (conns st1 ! c) ! e)\<lparr>q_eof := True\<rparr>) st1))"
    using quiet_trans [OF q1] by blast
  moreover have "unix_shutdown c e how st =
      (if how \<noteq> 1 then push_wake (ukey_r c e) (put_queue c e ((c_q (conns st1 ! c) ! e)\<lparr>q_eof := True\<rparr>) st1) else st1)"
    unfolding unix_shutdown_def Let_def st1_def ..
  ultimately show ?thesis using q1 by (cases "how = 1") simp_all
qed

lemma quiet_set_ports:
  assumes ok: "files_ok M st" and c: "c < MAX_CONNS" "c_used (conns st ! c)"
  shows "quiet M st (set_ports c a b st)"
proof (rule quiet_unix [OF ok])
  have len: "c < length (conns st)" using c files_okD(6) [OF ok] by simp
  let ?k = "(conns st ! c)\<lparr>c_port := [a, b]\<rparr>"
  have "conn_ok ?k" "conn_spans ?k = conn_spans (conns st ! c)"
    using unix_invD(4) [OF files_okD(1) [OF ok] c(1)] c(2) by (simp_all add: conn_ok_def conn_spans_def)
  then show "unix_inv (all_spans M st) (set_ports c a b st)"
    unfolding set_ports_def by (rule put_conn_inv [OF files_okD(1) [OF ok] c(1)])
  have "in_flight ?k = in_flight (conns st ! c)" by (simp add: in_flight_def)
  then show "held (set_ports c a b st) = held st" by (intro held_cong) (simp_all add: set_ports_def map_update_same)
  have "nth0 (\<lambda>k. c_refs k ! e) (conns (set_ports c a b st)) = nth0 (\<lambda>k. c_refs k ! e) (conns st)" for e
    by (rule ext) (auto simp: nth0_less set_ports_def)
  then show "refcount_of (set_ports c a b st) = refcount_of st"
    by (intro ext) (simp add: refcount_of_def set_ports_def split: prod.split kind.split)
qed (simp_all add: set_ports_def)

section \<open>New objects\<close>

lemma conn_new_files [simp]:
  "tabs (snd (conn_new p st)) = tabs st" "mems (snd (conn_new p st)) = mems st" "events (snd (conn_new p st)) = events st"
  "epolls (snd (conn_new p st)) = epolls st" "socks (snd (conn_new p st)) = socks st"
  "usocks (snd (conn_new p st)) = usocks st" "shobjs (snd (conn_new p st)) = shobjs st"
  by (simp_all add: conn_new_def split: option.split)

lemma conn_new_refs:
  assumes inv: "files_inv M W st" and n: "conn_new p st = (r, st')"
  shows "files_inv M (case r of Inl e \<Rightarrow> W | Inr c \<Rightarrow> {#(Unix, c * 2), (Unix, c * 2 + 1)#} + W) st'"
    "tabs st' = tabs st" "listeners st' = listeners st" "r = Inr c \<Longrightarrow> c < MAX_CONNS \<and> c_used (conns st' ! c)"
proof -
  have ok: "files_ok M st" using inv by (simp add: files_inv_def)
  note c = conn_new_inv [OF files_okD(1) [OF ok] n]
  have same: "tabs st' = tabs st" "mems st' = mems st" "events st' = events st" "epolls st' = epolls st"
    "socks st' = socks st" "usocks st' = usocks st" "shobjs st' = shobjs st"
    using conn_new_files [of p st] unfolding n by simp_all
  then show "tabs st' = tabs st" by simp
  show "listeners st' = listeners st" by (rule c(2))
  show "r = Inr c \<Longrightarrow> c < MAX_CONNS \<and> c_used (conns st' ! c)" for c
    using c(6) [of c] files_okD(6) [OF ok] by auto
  have ok': "files_ok M st'" by (rule files_ok_unix [OF ok c(1)]) (simp_all add: same)
  show "files_inv M (case r of Inl e \<Rightarrow> W | Inr c \<Rightarrow> {#(Unix, c * 2), (Unix, c * 2 + 1)#} + W) st'"
  proof (cases r)
    case (Inl x)
    then have "conns st' = conns st" by (rule c(5))
    then have "held st' = held st" "refcount_of st' = refcount_of st"
      by (intro held_cong refcount_of_cong; simp add: same c(2,3))+
    then show ?thesis using moved_inv [OF inv ok'] Inl by simp
  next
    case (Inr d)
    let ?k = "\<lambda>a b. cempty\<lparr>c_used := True, c_packet := p, c_q := [qempty\<lparr>q_buf := a\<rparr>, qempty\<lparr>q_buf := b\<rparr>], c_refs := [1, 1]\<rparr>"
    obtain a b where d: "d < MAX_CONNS" "\<not> c_used (conns st ! d)" "conns st' = (conns st)[d := ?k a b]"
      using c(6) [OF Inr] by blast
    have len: "d < length (conns st)" using d(1) files_okD(6) [OF ok] by simp
    have old: "conns st ! d = cempty" using unix_invD(4) [OF files_okD(1) [OF ok] d(1)] d(2) by (simp add: conn_ok_def)
    have h: "held st' = held st"
      using held_conn [OF len d(3) same(1) c(2)] by (simp add: old in_flight_def cempty_def qempty_def)
    have rc: "refcount_of st' = (refcount_of st)((Unix, d * 2) := 1, (Unix, d * 2 + 1) := 1)"
      using refcount_conn [OF d(3) len same(3,2,4,5) c(3) same(6) c(2)] by (simp add: same)
    have "Suc (d * 2) mod 2 = 1" by presburger
    then have zero: "refcount_of st (Unix, d * 2) = 0" "refcount_of st (Unix, d * 2 + 1) = 0"
      using len old by (simp_all add: nth0_less cempty_def)
    have "files_inv M ({#(Unix, d * 2), (Unix, d * 2 + 1)#} + W) st'"
      by (rule reinv [OF inv ok']) (use zero in \<open>auto simp: h rc simp del: refcount_simps\<close>)
    then show ?thesis using Inr by simp
  qed
qed

lemma put_listener_refs:
  assumes inv: "files_inv M (H + W) st" and i: "i < MAX_LISTEN" and ok: "listener_ok x" "l_refs x = l_refs (listeners st ! i)"
    and b: "backlog_refs (listeners st ! i) + H = backlog_refs x + H'"
  shows "files_inv M (H' + W) (put_listener i x st)"
proof -
  have fok: "files_ok M st" using inv by (simp add: files_inv_def)
  have len: "i < length (listeners st)" using i files_okD(7) [OF fok] by simp
  have "files_ok M (put_listener i x st)"
    by (rule files_ok_unix [OF fok put_listener_inv [OF files_okD(1) [OF fok] ok(1)]]) simp_all
  moreover have h: "held (put_listener i x st) + backlog_refs (listeners st ! i) = held st + backlog_refs x"
    by (rule held_listener [OF len]) simp_all
  have "held (put_listener i x st) + (H' + W) = held st + (H + W)"
  proof (rule multiset_eqI)
    fix q
    have "count (held (put_listener i x st)) q + count (backlog_refs (listeners st ! i)) q =
        count (held st) q + count (backlog_refs x) q" using h by (metis count_union)
    moreover have "count (backlog_refs (listeners st ! i)) q + count H q = count (backlog_refs x) q + count H' q"
      using b by (metis count_union)
    ultimately show "count (held (put_listener i x st) + (H' + W)) q = count (held st + (H + W)) q" by simp
  qed
  moreover have "refcount_of (put_listener i x st) = (refcount_of st)((Listen, i) := l_refs x)"
    by (rule refcount_upd(6)) (use len in simp_all)
  then have "refcount_of (put_listener i x st) = refcount_of st"
    using len ok(2) by (simp add: fun_eq_iff nth0_less)
  ultimately show ?thesis by (intro moved_inv [OF inv])
qed

lemma unix_listen_refs:
  assumes inv: "files_inv M W st" and n: "unix_listen key p st = (r, st')"
  shows "files_inv M (case r of Inl e \<Rightarrow> W | Inr i \<Rightarrow> add_mset (Listen, i) W) st'" "tabs st' = tabs st"
proof -
  have ok: "files_ok M st" using inv by (simp add: files_inv_def)
  consider e where "r = Inl e" "st' = st" | i where "position (\<lambda>l. \<not> l_used l) (listeners st) = Some i" "r = Inr i"
      "st' = put_listener i (lempty\<lparr>l_used := True, l_refs := 1, l_packet := p, l_key := key\<rparr>) st"
  proof (cases "find_listener key st = None \<and> position (\<lambda>l. \<not> l_used l) (listeners st) \<noteq> None")
    case True
    then obtain i where "position (\<lambda>l. \<not> l_used l) (listeners st) = Some i" by blast
    then show ?thesis using n True by (intro that(2) [of i]) (simp_all add: unix_listen_def)
  next
    case False
    then have "\<exists>e. unix_listen key p st = (Inl e, st)" by (auto simp: unix_listen_def)
    then show ?thesis using n that(1) by auto
  qed
  then have "files_inv M (case r of Inl e \<Rightarrow> W | Inr i \<Rightarrow> add_mset (Listen, i) W) st' \<and> tabs st' = tabs st"
  proof cases
    case 1
    then show ?thesis using inv by simp
  next
    case 2
    let ?x = "lempty\<lparr>l_used := True, l_refs := 1, l_packet := p, l_key := key\<rparr>"
    have i: "i < length (listeners st)" "\<not> l_used (listeners st ! i)" using position_Some [OF 2(1)] by simp_all
    then have old: "listeners st ! i = lempty"
      using files_okD(9) [OF ok] files_okD(7) [OF ok] by (auto simp: listener_ok_def)
    have x: "listener_ok ?x" "backlog_refs ?x = {#}" "backlog_refs lempty = {#}"
      by (simp_all add: listener_ok_def backlog_refs_def lempty_def)
    have ok': "files_ok M st'"
      unfolding 2(3) by (rule files_ok_unix [OF ok put_listener_inv [OF files_okD(1) [OF ok] x(1)]]) simp_all
    have "held st' + backlog_refs (listeners st ! i) = held st + backlog_refs ?x"
      by (rule held_listener [OF i(1)]) (simp_all add: 2(3))
    then have h: "held st' = held st" by (simp only: old x add_0_right)
    have "refcount_of st' = (refcount_of st)((Listen, i) := l_refs ?x)"
      by (rule refcount_upd(6)) (use i 2(3) in simp_all)
    moreover have "refcount_of st (Listen, i) = 0" using i(1) old by (simp add: nth0_less lempty_def)
    ultimately have "files_inv M (add_mset (Listen, i) W) st'" by (intro bump [OF inv ok' h]) simp
    then show ?thesis by (simp add: 2(2,3))
  qed
  then show "files_inv M (case r of Inl e \<Rightarrow> W | Inr i \<Rightarrow> add_mset (Listen, i) W) st'" "tabs st' = tabs st" by simp_all
qed

lemma find_listener_used:
  assumes "files_ok M st" "find_listener key st = Some i"
  shows "i < MAX_LISTEN" "l_used (listeners st ! i)"
  using position_Some [OF assms(2) [unfolded find_listener_def]] files_okD(7) [OF assms(1)] by auto

lemma unix_connect_refs:
  assumes inv: "files_inv M W st" and n: "unix_connect key p st = (r, st')"
  shows "files_inv M (case r of Inl e \<Rightarrow> W | Inr c \<Rightarrow> add_mset (Unix, c * 2) W) st'" "tabs st' = tabs st"
    "r = Inr c \<Longrightarrow> c < MAX_CONNS \<and> c_used (conns st' ! c)"
proof -
  have ok: "files_ok M st" using inv by (simp add: files_inv_def)
  have "files_inv M (case r of Inl e \<Rightarrow> W | Inr c \<Rightarrow> add_mset (Unix, c * 2) W) st' \<and> tabs st' = tabs st \<and>
      (r = Inr c \<longrightarrow> c < MAX_CONNS \<and> c_used (conns st' ! c))"
  proof (cases "\<exists>li. find_listener key st = Some li \<and> l_packet (listeners st ! li) = p \<and>
      length (l_backlog (listeners st ! li)) \<noteq> BACKLOG")
    case False
    then have "st' = st" "\<exists>e. r = Inl e" using n by (auto simp: unix_connect_def split: option.splits if_splits)
    then show ?thesis using inv by auto
  next
    case True
    then obtain li where li: "find_listener key st = Some li" "l_packet (listeners st ! li) = p"
      "length (l_backlog (listeners st ! li)) \<noteq> BACKLOG" by blast
    note u = find_listener_used [OF ok li(1)]
    obtain r1 st1 where c: "conn_new p st = (r1, st1)" by (cases "conn_new p st")
    note cn = conn_new_refs [OF inv c]
    show ?thesis
    proof (cases r1)
      case (Inl e)
      then have "r = Inl e" "st' = st1" using n li c by (simp_all add: unix_connect_def)
      then show ?thesis using cn(1,2) Inl by simp
    next
      case (Inr d)
      let ?l = "listeners st ! li"
      let ?x = "?l\<lparr>l_backlog := l_backlog ?l @ [d]\<rparr>"
      have st': "r = Inr d" "st' = push_wake (ukey_l li) (put_listener li ?x st1)"
        using n li c Inr by (simp_all add: unix_connect_def cn(3) Let_def)
      have x: "listener_ok ?x"
        using files_okD(9) [OF ok u(1)] u(2) li(3) by (auto simp: listener_ok_def)
      have "files_inv M ({#(Unix, d * 2 + 1)#} + add_mset (Unix, d * 2) W) st1"
        using cn(1) Inr by (simp add: add_mset_commute)
      from put_listener_refs [OF this u(1) x, of "{#}"]
      have "files_inv M (add_mset (Unix, d * 2) W) (put_listener li ?x st1)"
        by (simp add: cn(3) backlog_refs_def)
      moreover have "quiet M (put_listener li ?x st1) st'"
        unfolding st'(2) using calculation by (intro quiet_push_wake) (simp add: files_inv_def)
      ultimately have "files_inv M (add_mset (Unix, d * 2) W) st'" by (rule quiet_inv [rotated])
      then show ?thesis using cn(2) cn(4) [OF Inr] by (auto simp: st')
    qed
  qed
  then show "files_inv M (case r of Inl e \<Rightarrow> W | Inr c \<Rightarrow> add_mset (Unix, c * 2) W) st'" "tabs st' = tabs st"
    "r = Inr c \<Longrightarrow> c < MAX_CONNS \<and> c_used (conns st' ! c)" by simp_all
qed

lemma unix_accept_refs:
  assumes inv: "files_inv M W st" and live: "0 < refcount_of st (Listen, i)" and n: "unix_accept cpu i nb st = (r, st')"
  shows "files_inv M (case r of Inl e \<Rightarrow> W | Inr c \<Rightarrow> add_mset (Unix, c * 2 + 1) W) st'" "tabs st' = tabs st"
proof -
  have ok: "files_ok M st" using inv by (simp add: files_inv_def)
  note u = live_listener [OF ok live]
  have "files_inv M (case r of Inl e \<Rightarrow> W | Inr c \<Rightarrow> add_mset (Unix, c * 2 + 1) W) st' \<and> tabs st' = tabs st"
  proof (cases "l_backlog (listeners st ! i)")
    case Nil
    then have "(st' = st \<or> st' = snd (would_block cpu (ukey_l i) st)) \<and> (\<exists>e. r = Inl e)"
      using n by (auto simp: unix_accept_def Let_def split: if_splits prod.splits)
    moreover have "quiet M st (snd (would_block cpu (ukey_l i) st))"
      using quiet_block [OF ok] by (metis surj_pair snd_conv)
    ultimately show ?thesis using inv quiet_inv [OF _ inv] by fastforce
  next
    case (Cons c rest)
    let ?x = "(listeners st ! i)\<lparr>l_backlog := rest\<rparr>"
    have st': "r = Inr c" "st' = put_listener i ?x st" using n Cons by (simp_all add: unix_accept_def Let_def)
    have "listener_ok ?x" using files_okD(9) [OF ok u(1)] u(2) Cons by (simp add: listener_ok_def)
    moreover have "files_inv M ({#} + W) st" using inv by simp
    ultimately have "files_inv M ({#(Unix, c * 2 + 1)#} + W) (put_listener i ?x st)"
      using Cons by (intro put_listener_refs [where H = "{#}"] u(1)) (simp_all add: backlog_refs_def)
    then show ?thesis by (simp add: st')
  qed
  then show "files_inv M (case r of Inl e \<Rightarrow> W | Inr c \<Rightarrow> add_mset (Unix, c * 2 + 1) W) st'" "tabs st' = tabs st" by simp_all
qed

lemma pipe_new_refs:
  assumes inv: "files_inv M W st" and n: "pipe_new st = (r, st')"
  shows "files_inv M (case r of Inl e \<Rightarrow> W | Inr i \<Rightarrow> {#(PipeR, i), (PipeW, i)#} + W) st'" "tabs st' = tabs st"
    "r = Inr i \<Longrightarrow> i < MAX_PIPES"
proof -
  have ok: "files_ok M st" using inv by (simp add: files_inv_def)
  note p = pipe_new_inv [OF unix_invD(1) [OF files_okD(1) [OF ok]] n]
  have same: "tabs st' = tabs st" "mems st' = mems st" "events st' = events st" "epolls st' = epolls st"
    "socks st' = socks st" "usocks st' = usocks st" "shobjs st' = shobjs st" "conns st' = conns st" "listeners st' = listeners st"
    using n by (auto simp: pipe_new_def split: option.splits)
  show "r = Inr i \<Longrightarrow> i < MAX_PIPES" for i using p(2) by blast
  show "tabs st' = tabs st" by (rule same)
  have "unix_inv (all_spans M st) st'" by (rule unix_pipe_inv [OF files_okD(1) [OF ok] p(1) same(8,9)])
  then have ok': "files_ok M st'" by (intro files_ok_unix [OF ok]) (simp_all add: same)
  have h: "held st' = held st" by (rule held_cong) (simp_all add: same)
  show "files_inv M (case r of Inl e \<Rightarrow> W | Inr i \<Rightarrow> {#(PipeR, i), (PipeW, i)#} + W) st'"
  proof (cases r)
    case (Inl e)
    then have "pipes st' = pipes st" using n by (auto simp: pipe_new_def split: option.splits)
    then have "refcount_of st' = refcount_of st" by (intro refcount_of_cong) (simp_all add: same)
    then show ?thesis using moved_inv [OF inv ok', of W] h Inl by simp
  next
    case (Inr i)
    obtain buf where i: "i < MAX_PIPES" "p_buf (pipes st ! i) = 0"
      "pipes st' = (pipes st)[i := \<lparr>p_buf = buf, p_head = 0, p_len = 0, p_readers = 1, p_writers = 1\<rparr>]"
      using p(2) [OF Inr] by blast
    have len: "i < length (pipes st)" using i(1) files_okD(3) [OF ok] by simp
    have old: "pipes st ! i = pipe_empty" using files_okD(5) [OF ok i(1)] i(2) by (simp add: pipe_ok_def)
    have rc: "refcount_of st' = (refcount_of st)((PipeR, i) := 1, (PipeW, i) := 1)"
      using refcount_pipe [OF i(3) len] by (simp add: same)
    have zero: "refcount_of st (PipeR, i) = 0" "refcount_of st (PipeW, i) = 0"
      using len old by (simp_all add: nth0_less pipe_empty_def)
    have "files_inv M ({#(PipeR, i), (PipeW, i)#} + W) st'"
      by (rule reinv [OF inv ok']) (use zero in \<open>auto simp: h rc simp del: refcount_simps\<close>)
    then show ?thesis using Inr by simp
  qed
qed

text \<open>An unused slot of a plain table becomes an object with one reference, in hand.\<close>

lemma new_ref:
  assumes "files_inv M W st" "recount M st q 1 st'" "refcount_of st q = 0"
  shows "files_inv M (add_mset q W) st'"
  by (rule recount_up [OF _ assms(1)]) (use assms(2,3) in simp)

lemma new_event:
  assumes inv: "files_inv M W st" and p: "position (\<lambda>e. \<not> e_used e) (events st) = Some i" and e: "e_used e" "e_refs e = 1"
  shows "files_inv M (add_mset (Event, i) W) (st\<lparr>events := (events st)[i := e]\<rparr>)"
proof -
  have ok: "files_ok M st" using inv by (simp add: files_inv_def)
  have i: "i < length (events st)" "\<not> e_used (events st ! i)" using position_Some [OF p] by simp_all
  have "refcount_of st (Event, i) = 0" using i files_okD(2) [OF ok] by (auto simp: nth0_less objects_ok_def list_all_length)
  then show ?thesis using new_ref [OF inv] recount_event [OF ok i(1), of e] e by simp
qed

lemma new_epoll:
  assumes inv: "files_inv M W st" and p: "position (\<lambda>e. \<not> ep_used e) (epolls st) = Some i" and e: "ep_used e" "ep_refs e = 1"
  shows "files_inv M (add_mset (Epoll, i) W) (st\<lparr>epolls := (epolls st)[i := e]\<rparr>)"
proof -
  have ok: "files_ok M st" using inv by (simp add: files_inv_def)
  have i: "i < length (epolls st)" "\<not> ep_used (epolls st ! i)" using position_Some [OF p] by simp_all
  have "refcount_of st (Epoll, i) = 0" using i files_okD(2) [OF ok] by (auto simp: nth0_less objects_ok_def list_all_length)
  then show ?thesis using new_ref [OF inv] recount_epoll [OF ok i(1), of e] e by simp
qed

lemma new_sock:
  assumes inv: "files_inv M W st" and p: "position (\<lambda>k. \<not> s_used k) (socks st) = Some i" and k: "s_used k" "s_refs k = 1"
  shows "files_inv M (add_mset (Sock, i) W) (put_sock i k st)"
proof -
  have ok: "files_ok M st" using inv by (simp add: files_inv_def)
  have i: "i < length (socks st)" "\<not> s_used (socks st ! i)" using position_Some [OF p] by simp_all
  have "refcount_of st (Sock, i) = 0" using i files_okD(2) [OF ok] by (auto simp: nth0_less objects_ok_def list_all_length)
  then show ?thesis using new_ref [OF inv] recount_sock [OF ok i(1), of k] k by (simp add: put_sock_def)
qed

lemma new_usock:
  assumes inv: "files_inv M W st" and p: "position (\<lambda>u. \<not> u_used u) (usocks st) = Some i" and u: "u_used u" "u_refs u = 1"
  shows "files_inv M (add_mset (USock, i) W) (st\<lparr>usocks := (usocks st)[i := u]\<rparr>)"
proof -
  have ok: "files_ok M st" using inv by (simp add: files_inv_def)
  have i: "i < length (usocks st)" "\<not> u_used (usocks st ! i)" using position_Some [OF p] by simp_all
  have "refcount_of st (USock, i) = 0" using i files_okD(2) [OF ok] by (auto simp: nth0_less objects_ok_def list_all_length)
  then show ?thesis using new_ref [OF inv] recount_usock [OF ok i(1), of u] u by simp
qed

end
