(* ===== verification/Files_Calls.thy ===== *)
theory Files_Calls
  imports Files_Steps
begin

text \<open>
  Every call of the descriptor layer keeps the invariant of \<open>Files_Inv\<close>, one lemma per call. Calls that
  move references rest on the lemmas of \<open>Files_Steps\<close>; calls that move none are \<open>quiet\<close>, by the rules
  collected in \<open>calm\<close>.
\<close>

section \<open>Calls on the tables\<close>

lemma get_fd_index: "files_inv M W st \<Longrightarrow> l < LEADERS \<Longrightarrow> get_fd l fd st = Inr f \<Longrightarrow> fd mod 2 ^ 32 < MAX_FDS"
  using get_fd_cases(1) files_okD(10) by (metis files_inv_def)

lemma get_fd_live:
  "files_inv M W st \<Longrightarrow> l < LEADERS \<Longrightarrow> get_fd l fd st = Inr f \<Longrightarrow> tracked (fst M) (f_kind f) \<Longrightarrow> 0 < refcount_of st (obj_of f)"
  by (rule table_live [OF _ _ get_fd_cases(4)])

text \<open>The entry of a descriptor is overwritten and its old description dropped.\<close>

lemma replace_inv:
  assumes inv: "files_inv M (add_mset (obj_of g) W) st" and l: "l < LEADERS" and f: "get_fd l fd st0 = Inr f"
    and t: "tabs st = tabs st0" and len: "fd mod 2 ^ 32 < MAX_FDS"
  shows "files_inv M W (drop_refs ev [f] (put_fd l (fd mod 2 ^ 32) g st))"
proof -
  have "tabs st l ! (fd mod 2 ^ 32) = f" using get_fd_cases(2) [OF f] t by simp
  then show ?thesis using put_fd_inv [OF inv l len] drop_ref_inv [of M f W] by simp
qed

lemma close_inv:
  assumes inv: "files_inv M W st" and l: "l < LEADERS"
  shows "files_inv M W (snd (close ev l fd st))"
proof (cases "get_fd l fd st")
  case (Inr f)
  have "files_inv M (add_mset (obj_of FREE_FILE) W) st" using inv by (simp add: files_inv_untracked)
  from replace_inv [OF this l Inr refl get_fd_index [OF inv l Inr]] show ?thesis using Inr by (simp add: close_def)
qed (use inv in \<open>simp add: close_def\<close>)

lemma u32_index: "n < MAX_FDS \<Longrightarrow> n mod 2 ^ 32 = n"
  by (simp add: MAX_FDS_def)

lemma install_again:
  "install l f n st = (Inr j, st') \<Longrightarrow> tabs s = tabs st \<Longrightarrow> install l f n s = (Inr j, put_fd l j f s)"
  by (auto simp: install_def split: option.splits)

lemma dup_ex_inv:
  assumes inv: "files_inv M W st" and l: "l < LEADERS"
  shows "files_inv M W (snd (dup_ex ev l fd newfd cl st))"
proof (cases "get_fd l fd st")
  case (Inr f)
  let ?f = "f\<lparr>f_cloexec := cl\<rparr>"
  have a: "files_inv M (add_mset (obj_of ?f) W) (add_ref ?f st)" "tabs (add_ref ?f st) = tabs st"
    using add_ref_inv [OF inv, of ?f] get_fd_live [OF inv l Inr] by simp_all
  show ?thesis
  proof (cases "newfd = u64_max \<or> newfd \<ge> 2 ^ 32")
    case True
    let ?from = "if newfd = u64_max then 0 else newfd div 2 ^ 32"
    obtain r st' where i: "install l ?f ?from st = (r, st')" by (cases "install l ?f ?from st")
    have eq: "snd (dup_ex ev l fd newfd cl st) = (case r of Inl e \<Rightarrow> st' | Inr i \<Rightarrow> add_ref ?f st')"
      using True i Inr by (simp add: dup_ex_def Let_def split: sum.split)
    from i show ?thesis
    proof (cases rule: install_cases)
      case 1
      then show ?thesis using eq inv by simp
    next
      case (2 j)
      have "install l ?f ?from (add_ref ?f st) = (Inr j, put_fd l j ?f (add_ref ?f st))"
        by (rule install_again [OF i [unfolded 2(4,5)] a(2)])
      from install_inv [OF a(1) l this] show ?thesis unfolding eq 2(4,5) by (simp add: add_ref_put_fd)
    qed
  next
    case False
    show ?thesis
    proof (cases "newfd < MAX_FDS \<and> newfd \<noteq> fd")
      case True
      let ?old = "tabs st l ! newfd"
      have "files_inv M (add_mset (obj_of ?old) W) (put_fd l newfd ?f (add_ref ?f st))"
        using put_fd_inv [OF a(1) l, of newfd] True a(2) by simp
      from drop_ref_inv [OF this] show ?thesis
        using False True Inr by (simp add: dup_ex_def Let_def add_ref_put_fd)
    next
      case same: False
      then show ?thesis using False inv Inr by (auto simp: dup_ex_def Let_def)
    qed
  qed
qed (use inv in \<open>simp add: dup_ex_def\<close>)

lemma close_on_exec_inv:
  assumes inv: "files_inv M W st" and l: "l < LEADERS" "i < MAX_FDS"
  shows "files_inv M W (close_on_exec ev l i st)"
  using drop_ref_inv [OF clear_fd_inv [OF inv l]] inv by (simp add: close_on_exec_def Let_def)

lemma exec_cleanup_inv:
  assumes "files_inv M W st" "l < LEADERS"
  shows "files_inv M W (exec_cleanup ev l st)"
proof -
  have "\<forall>i \<in> set is. i < MAX_FDS \<Longrightarrow> files_inv M W (fold (close_on_exec ev l) is st)" for "is"
    using assms(1)
  proof (induction "is" arbitrary: st)
    case (Cons i "is")
    then show ?case using close_on_exec_inv [OF Cons(3) assms(2)] by simp
  qed simp
  then show ?thesis by (simp add: exec_cleanup_def)
qed

lemma held_set_table:
  assumes l: "l < LEADERS" and st': "tabs st' = (tabs st)(l := t)" "conns st' = conns st" "listeners st' = listeners st"
  shows "held st' + refs_of (tabs st l) = held st + refs_of t"
proof -
  let ?A = "map (\<lambda>l. refs_of (tabs st l)) [0..<LEADERS]"
  have A: "map (\<lambda>l. refs_of (tabs st' l)) [0..<LEADERS] = ?A[l := refs_of t]"
    using l by (intro nth_equalityI) (auto simp: nth_list_update st')
  have one: "sum_list (?A[l := refs_of t]) + refs_of (tabs st l) = sum_list ?A + refs_of t"
    using sum_list_map_update [of l ?A "\<lambda>x. x" "refs_of t"] l by simp
  show ?thesis
    unfolding held_def st'(2,3) A
    using shift_shares [OF one, of "{#}"] by (simp add: add.assoc)
qed

lemma set_table_inv:
  assumes inv: "files_inv M (refs_of t + W) st" and l: "l < LEADERS" "length t = MAX_FDS"
  shows "files_inv M (refs_of (tabs st l) + W) (st\<lparr>tabs := (tabs st)(l := t)\<rparr>)"
proof -
  let ?st' = "st\<lparr>tabs := (tabs st)(l := t)\<rparr>"
  have ok: "files_ok M st" using inv by (simp add: files_inv_def)
  have "unix_inv (all_spans M st) ?st'"
    using unix_inv_cong [OF files_okD(1) [OF ok], of ?st'] files_okD(4) [OF ok] by (simp add: waits_wf_def)
  then have ok': "files_ok M ?st'"
    by (intro files_ok_unix [OF ok]) (use files_okD(10) [OF ok] l in \<open>auto simp: fun_upd_def\<close>)
  have h: "held ?st' + refs_of (tabs st l) = held st + refs_of t" by (rule held_set_table [OF l(1)]) simp_all
  have "held ?st' + (refs_of (tabs st l) + W) = held st + (refs_of t + W)"
    using h by (metis add.assoc)
  moreover have "refcount_of ?st' = refcount_of st" by (rule refcount_of_cong) simp_all
  ultimately show ?thesis by (rule moved_inv [OF inv ok'])
qed

lemma untracked_refs:
  "\<forall>f \<in> set fs. \<not> tracked (fst M) (f_kind f) \<Longrightarrow> files_inv M (refs_of fs + W) st \<longleftrightarrow> files_inv M W st"
  by (induction fs) (simp_all add: files_inv_untracked)

lemma DEFAULT_TABLE_refs: "length DEFAULT_TABLE = MAX_FDS" "\<forall>f \<in> set DEFAULT_TABLE. \<not> tracked sh (f_kind f)"
  by (auto simp: DEFAULT_TABLE_def MAX_FDS_def CONSOLE_FILE_def FREE_FILE_def)

lemma release_files_inv:
  assumes inv: "files_inv M W st" and l: "l < LEADERS"
  shows "files_inv M W (release_files ev l st)"
proof -
  have "files_inv M (refs_of DEFAULT_TABLE + W) st" using inv untracked_refs DEFAULT_TABLE_refs(2) by blast
  from set_table_inv [OF this l DEFAULT_TABLE_refs(1)]
  have a: "files_inv M (refs_of (tabs st l) + W) (st\<lparr>tabs := (tabs st)(l := DEFAULT_TABLE)\<rparr>)" .
  have "quiet M (st\<lparr>tabs := (tabs st)(l := DEFAULT_TABLE)\<rparr>)
      (st\<lparr>tabs := (tabs st)(l := DEFAULT_TABLE)\<rparr>\<lparr>cwds := (cwds st)(l := ROOT_INO)\<rparr>)"
    by (rule quiet_cwd) (use a in \<open>simp add: files_inv_def\<close>)
  from quiet_inv [OF this a] show ?thesis unfolding release_files_def by (rule drop_all_inv)
qed

text \<open>A table given to a new process has no objects of its own yet.\<close>

definition fresh_table :: "nat \<Rightarrow> ('e, 'm) files_st_scheme \<Rightarrow> bool" where
  "fresh_table l st \<longleftrightarrow> list_all (\<lambda>f. f_kind f = Free \<or> f_kind f = Console) (tabs st l)"

lemma clone_table_inv:
  assumes inv: "files_inv M W st" and l: "src < LEADERS" "dst < LEADERS" and new: "fresh_table dst st"
  shows "files_inv M W (clone_table src dst st)"
proof -
  let ?t = "tabs st src"
  have a: "files_inv M (refs_of ?t + W) (fold add_ref ?t st)" "tabs (fold add_ref ?t st) = tabs st"
    using add_refs_inv [OF inv, of ?t] table_live [OF inv l(1)] by simp_all
  have len: "length ?t = MAX_FDS" using inv files_okD(10) [of M st src] l(1) by (simp add: files_inv_def)
  from set_table_inv [OF a(1) l(2) len]
  have "files_inv M (refs_of (tabs st dst) + W) (clone_table src dst st)" by (simp add: clone_table_def Let_def a(2))
  moreover have "\<forall>f \<in> set (tabs st dst). \<not> tracked (fst M) (f_kind f)"
    using new by (auto simp: fresh_table_def list_all_iff)
  ultimately show ?thesis using untracked_refs by blast
qed

section \<open>Calls that make objects\<close>

lemma and_then_inv:
  "(\<And>e s. r = (Inl e, s) \<Longrightarrow> files_inv M W s) \<Longrightarrow> (\<And>a s. r = (Inr a, s) \<Longrightarrow> files_inv M W (snd (k a s))) \<Longrightarrow>
   files_inv M W (snd (and_then r k))"
  by (cases r; cases "fst r") (auto simp: and_then_def)

lemma eventfd_inv:
  assumes inv: "files_inv M W st" and l: "l < LEADERS"
  shows "files_inv M W (snd (eventfd ev l v fl st))"
  unfolding eventfd_def using inv new_event [OF inv]
  by (auto simp: obj_of_def split: option.split intro!: install_or_drop_inv [OF _ l])

lemma epoll_create_inv:
  assumes inv: "files_inv M W st" and l: "l < LEADERS"
  shows "files_inv M W (snd (epoll_create ev l fl st))"
  unfolding epoll_create_def using inv new_epoll [OF inv]
  by (auto simp: obj_of_def split: option.split intro!: install_or_drop_inv [OF _ l])

lemma install_shm_inv:
  assumes inv: "files_inv M (add_mset (Shm, oid) W) st" and l: "l < LEADERS"
  shows "files_inv M W (snd (install_shm ev l oid fl st))"
  unfolding install_shm_def
  by (intro install_or_drop_inv [OF _ l]) (use inv in \<open>simp add: obj_of_def\<close>)

lemma the_shm_inv: "files_inv M W st \<Longrightarrow> shm_inv (the_shm st)"
  by (metis files_inv_def files_shm(1))

text \<open>Steps on the objects: those that keep the descriptor counts, a new object with its first reference, and any
  step at all where the counts are not claimed.\<close>

lemma shm_step: "files_inv M W st \<Longrightarrow> shm_moved (the_shm st) s \<Longrightarrow> shm_fds (objs s) = shm_fds (shobjs st) \<Longrightarrow>
    files_inv M W (set_shm s st)"
  by (rule quiet_inv [OF quiet_shm]) (simp_all add: files_inv_def)

lemma shm_create_step:
  assumes inv: "files_inv M W st" and c: "create nm (the_shm st) = Some (oid, s)"
  shows "files_inv M (add_mset (Shm, oid) W) (set_shm s st)"
proof -
  have ok: "files_ok M st" using inv by (simp add: files_inv_def)
  note f = create_fds [OF c]
  have o: "objs (the_shm st) = shobjs st" by (simp add: the_shm_def)
  have "recount M st (Shm, oid) (refcount_of st (Shm, oid) + 1) (set_shm s st)"
    using recount_shm [OF ok create_moved [OF the_shm_inv [OF inv] c], of oid 1] f(1,2) by (simp add: o)
  from recount_up [OF this inv] show ?thesis .
qed

lemma shm_any_step:
  assumes inv: "files_inv M W st" and mv: "shm_moved (the_shm st) s" and sh: "\<not> fst M"
  shows "files_inv M W (set_shm s st)"
proof -
  have ok: "files_ok M st" using inv by (simp add: files_inv_def)
  note S = set_shm_ok [OF ok mv]
  have "refcount_of (set_shm s st) (k, i) = refcount_of st (k, i)" if "k \<noteq> Shm" for k i
    using that by (cases k) (simp_all add: refcount_of_def set_shm_def)
  then show ?thesis using sh by (intro reinv [OF inv S(1)]) (auto simp: S(2) tracked_def simp del: refcount_simps)
qed

lemma memfd_inv:
  assumes inv: "files_inv M W st" and l: "l < LEADERS"
  shows "files_inv M W (snd (memfd ev l cl st))"
proof (cases "create None (the_shm st)")
  case (Some p)
  then obtain oid s where "create None (the_shm st) = Some (oid, s)" by (cases p) simp
  then show ?thesis
    using install_shm_inv [OF shm_create_step [OF inv] l] by (simp add: memfd_def)
qed (use inv in \<open>simp add: memfd_def\<close>)

lemma socket_inv:
  assumes inv: "files_inv M W st" and l: "l < LEADERS"
  shows "files_inv M W (snd (socket ev l d t st))"
proof -
  have u: "files_inv M W (snd (install_or_drop ev l \<lparr>f_kind = USock, f_ino = i, f_flags = a, f_cloexec = b, f_off = 0\<rparr>
      (st\<lparr>usocks := (usocks st)[i := \<lparr>u_used = True, u_refs = 1, u_packet = p, u_key = No_key\<rparr>]\<rparr>)))"
    if "position (\<lambda>u. \<not> u_used u) (usocks st) = Some i" for i a b p
    using new_usock [OF inv that, of "\<lparr>u_used = True, u_refs = 1, u_packet = p, u_key = No_key\<rparr>"]
    by (intro install_or_drop_inv [OF _ l]) (simp add: obj_of_def)
  have s: "files_inv M W (snd (install_or_drop ev l \<lparr>f_kind = Sock, f_ino = i, f_flags = a, f_cloexec = b, f_off = 0\<rparr>
      (put_sock i (sock_none\<lparr>s_used := True, s_refs := 1, s_udp := p\<rparr>) st)))"
    if "position (\<lambda>k. \<not> s_used k) (socks st) = Some i" for i a b p
    using new_sock [OF inv that, of "sock_none\<lparr>s_used := True, s_refs := 1, s_udp := p\<rparr>"]
    by (intro install_or_drop_inv [OF _ l]) (simp add: obj_of_def)
  show ?thesis
    unfolding socket_def Let_def using inv u s by (auto split: option.split)
qed

text \<open>\<open>pipe\<close>: the branches where the table of the caller is full undo what was done.\<close>

lemma undo_pipe:
  assumes inv: "files_inv M ({#(PipeR, i), (PipeW, i)#} + W) st" and i: "i < MAX_PIPES"
    and p: "pipes st ! i = \<lparr>p_buf = b, p_head = 0, p_len = 0, p_readers = 1, p_writers = 1\<rparr>"
  shows "files_inv M W (put_pipe i ((pipes st ! i)\<lparr>p_readers := 0, p_writers := 0, p_buf := 0\<rparr>)
    (st\<lparr>kfa := free_contig (p_buf (pipes st ! i)) PIPE_PAGES (kfa st)\<rparr>))"
proof -
  have ok: "files_ok M st" using inv by (simp add: files_inv_def)
  have e: "(pipes st ! i)\<lparr>p_readers := 0, p_writers := 0, p_buf := 0\<rparr> = pipe_empty" by (simp add: p pipe_empty_def)
  have b: "p_buf (pipes st ! i) \<noteq> 0"
    using files_okD(5) [OF ok i] p by (auto simp: pipe_ok_def pipe_empty_def split: if_splits)
  let ?st' = "put_pipe i pipe_empty (st\<lparr>kfa := free_contig (p_buf (pipes st ! i)) PIPE_PAGES (kfa st)\<rparr>)"
  have len: "i < length (pipes st)" using i files_okD(3) [OF ok] by simp
  have "unix_inv (all_spans M st) ?st'"
    by (rule unix_pipe_inv [OF files_okD(1) [OF ok] free_pipe_inv [OF unix_invD(1) [OF files_okD(1) [OF ok]] i b]]) simp_all
  then have ok': "files_ok M ?st'" by (intro files_ok_unix [OF ok]) simp_all
  have h: "held ?st' = held st" by (rule held_cong) simp_all
  have rc: "refcount_of ?st' = (refcount_of st)((PipeR, i) := 0, (PipeW, i) := 0)"
    using refcount_pipe [of ?st' st i pipe_empty] len by (simp add: pipe_empty_def)
  have one: "refcount_of st (PipeR, i) = 1" "refcount_of st (PipeW, i) = 1" using len p by (simp_all add: nth0_less)
  show ?thesis unfolding e
    by (rule reinv [OF inv ok']) (use one in \<open>auto simp: h rc simp del: refcount_simps\<close>)
qed

lemma undo_writer:
  assumes inv: "files_inv M (add_mset (PipeW, i) W) st" and p: "p_readers (pipes st ! i) = 1" "p_writers (pipes st ! i) = 1"
  shows "files_inv M W (put_pipe i ((pipes st ! i)\<lparr>p_writers := 0\<rparr>) st)"
proof -
  have ok: "files_ok M st" and c: "counted (fst M) (add_mset (PipeW, i) W) st" using inv by (simp_all add: files_inv_def)
  have live: "0 < refcount_of st (PipeW, i)" using in_hand_live [OF c] by simp
  note i = live_pipe [OF ok disjI2 [OF live]]
  let ?p = "(pipes st ! i)\<lparr>p_writers := 0\<rparr>"
  have len: "i < length (pipes st)" using i(1) files_okD(3) [OF ok] by simp
  have "pipe_ok ?p" using files_okD(5) [OF ok i(1)] i(2) p by (simp add: pipe_ok_def)
  then have "pipes_inv (table_spans conn_spans (conns st) + all_spans M st) (put_pipe i ?p st)"
    by (intro put_pipe_inv unix_invD(1) files_okD(1) ok i(1)) simp_all
  then have "unix_inv (all_spans M st) (put_pipe i ?p st)"
    by (rule unix_pipe_inv [OF files_okD(1) [OF ok]]) simp_all
  then have ok': "files_ok M (put_pipe i ?p st)" by (intro files_ok_unix [OF ok]) simp_all
  have "held (put_pipe i ?p st) = held st" by (rule held_cong) simp_all
  moreover have "refcount_of (put_pipe i ?p st) = (refcount_of st)((PipeR, i) := 1, (PipeW, i) := 0)"
    using refcount_pipe [of "put_pipe i ?p st" st i ?p] len p by simp
  then have "refcount_of (put_pipe i ?p st) = (refcount_of st)((PipeW, i) := refcount_of st (PipeW, i) - 1)"
    using len p by (auto simp: fun_eq_iff nth0_less)
  ultimately show ?thesis by (intro unbump [OF inv ok']) simp_all
qed

lemma install_pipes: "install l f n st = (r, st') \<Longrightarrow> pipes st' = pipes st"
  by (auto elim: install_cases)

lemma pipe_fds_inv:
  assumes inv: "files_inv M W st" and l: "l < LEADERS"
  shows "files_inv M W (snd (pipe_fds ev l fl st))"
  unfolding pipe_fds_def
proof (rule and_then_inv)
  fix e s assume "pipe_new st = (Inl e, s)"
  then show "files_inv M W s" using pipe_new_refs(1) [OF inv] by fastforce
next
  fix i s assume n: "pipe_new st = (Inr i, s)"
  note p = pipe_new_refs [OF inv n]
  obtain b where pi: "pipes s ! i = \<lparr>p_buf = b, p_head = 0, p_len = 0, p_readers = 1, p_writers = 1\<rparr>"
  proof -
    have "pipes_inv (table_spans conn_spans (conns st) + all_spans M st) st"
      using inv files_okD(1) unix_invD(1) by (metis files_inv_def)
    from pipe_new_inv(2) [OF this n refl] show ?thesis
      using that files_okD(3) [of M st] inv by (auto simp: files_inv_def)
  qed
  let ?F = "\<lparr>f_kind = PipeR, f_ino = i, f_flags = fl AND O_NONBLOCK, f_cloexec = (fl AND O_CLOEXEC \<noteq> 0), f_off = 0\<rparr>"
  let ?G = "\<lparr>f_kind = PipeW, f_ino = i, f_flags = (fl AND O_NONBLOCK) OR O_WRONLY, f_cloexec = (fl AND O_CLOEXEC \<noteq> 0), f_off = 0\<rparr>"
  have o: "obj_of ?F = (PipeR, i)" "obj_of ?G = (PipeW, i)" by (simp_all add: obj_of_def)
  have s: "files_inv M ({#(PipeR, i), (PipeW, i)#} + W) s" using p(1) by simp
  obtain r1 s1 where i1: "install l ?F 0 s = (r1, s1)" by (cases "install l ?F 0 s")
  show "files_inv M W (snd (let fl' = fl AND O_NONBLOCK; cl = fl AND O_CLOEXEC \<noteq> 0
       in case install l \<lparr>f_kind = PipeR, f_ino = i, f_flags = fl', f_cloexec = cl, f_off = 0\<rparr> 0 s of
         (Inl e, st) \<Rightarrow>
           let p = pipes st ! i in
           (Inl e, put_pipe i (p\<lparr>p_readers := 0, p_writers := 0, p_buf := 0\<rparr>)
              (st\<lparr>kfa := free_contig (p_buf p) PIPE_PAGES (kfa st)\<rparr>))
       | (Inr r, st) \<Rightarrow>
           (case install l \<lparr>f_kind = PipeW, f_ino = i, f_flags = fl' OR O_WRONLY, f_cloexec = cl, f_off = 0\<rparr> 0 st of
              (Inl e, st) \<Rightarrow>
                let f = tabs st l ! r; st = put_fd l r FREE_FILE st;
                    st = put_pipe i ((pipes st ! i)\<lparr>p_writers := 0\<rparr>) st
                in (Inl e, drop_refs ev [f] st)
            | (Inr w, st) \<Rightarrow> (Inr (r, w), st))))"
  proof (cases r1)
    case (Inl e)
    then have "s1 = s" using i1 install_error by blast
    then show ?thesis using undo_pipe [OF s p(3) [OF refl] pi] i1 Inl by (simp add: Let_def)
  next
    case (Inr r)
    have s1: "files_inv M (add_mset (PipeW, i) W) s1"
      using install_inv [OF _ l i1 [unfolded Inr]] s by (simp add: o)
    have r: "r < MAX_FDS" using i1 [unfolded Inr] by (auto elim: install_cases)
    obtain r2 s2 where i2: "install l ?G 0 s1 = (r2, s2)" by (cases "install l ?G 0 s1")
    show ?thesis
    proof (cases r2)
      case (Inl e)
      then have s2: "s2 = s1" using i2 install_error by blast
      let ?s3 = "put_fd l r FREE_FILE s1"
      have "files_inv M (add_mset (PipeW, i) (add_mset (obj_of (tabs s1 l ! r)) W)) ?s3"
        using clear_fd_inv [OF s1 l r] by (simp add: add_mset_commute)
      moreover have "pipes ?s3 ! i = pipes s ! i" using install_pipes [OF i1] by simp
      ultimately have "files_inv M (add_mset (obj_of (tabs s1 l ! r)) W)
          (put_pipe i ((pipes ?s3 ! i)\<lparr>p_writers := 0\<rparr>) ?s3)"
        by (intro undo_writer) (simp_all add: pi)
      from drop_ref_inv [OF this] show ?thesis using i1 i2 Inr Inl s2 by (simp add: Let_def)
    next
      case (Inr w)
      then show ?thesis using install_inv [OF _ l i2 [unfolded Inr]] s1 i1 i2 \<open>r1 = Inr r\<close> by (simp add: o Let_def)
    qed
  qed
qed

lemma unix_end_obj [simp]: "obj_of (unix_end c e fl cl) = (Unix, c * 2 + e)" "f_kind (unix_end c e fl cl) = Unix"
  by (simp_all add: unix_end_def obj_of_def)

lemma socketpair_inv:
  assumes inv: "files_inv M W st" and l: "l < LEADERS"
  shows "files_inv M W (snd (socketpair ev l d t st))"
proof -
  have main: "files_inv M W (snd (case install l (unix_end c 0 fl cl) 0 s of
          (Inl e, st) \<Rightarrow> (Inl e, drop_refs ev [unix_end c 0 fl cl, unix_end c 1 fl cl] st)
        | (Inr a, st) \<Rightarrow>
            (case install l (unix_end c 1 fl cl) 0 st of
               (Inl e, st) \<Rightarrow> (Inl e, drop_refs ev [unix_end c 0 fl cl, unix_end c 1 fl cl] (put_fd l a FREE_FILE st))
             | (Inr b, st) \<Rightarrow> (Inr (a, b), st))))"
    if n: "conn_new p st = (Inr c, s)" for p c s fl cl
  proof -
    let ?F = "unix_end c 0 fl cl" and ?G = "unix_end c 1 fl cl"
    have s: "files_inv M (refs_of [?F, ?G] + W) s"
      using conn_new_refs(1) [OF inv n] by simp
    obtain r1 s1 where i1: "install l ?F 0 s = (r1, s1)" by (cases "install l ?F 0 s")
    show ?thesis
    proof (cases r1)
      case (Inl e)
      then have "s1 = s" using i1 install_error by blast
      then show ?thesis using drop_all_inv [OF s] i1 Inl by simp
    next
      case (Inr a)
      have s1: "files_inv M (add_mset (obj_of ?G) W) s1" using install_inv [OF _ l i1 [unfolded Inr]] s by simp
      obtain a': "a < MAX_FDS" "s1 = put_fd l a ?F s"
        using i1 [unfolded Inr] by (auto elim: install_cases)
      obtain r2 s2 where i2: "install l ?G 0 s1 = (r2, s2)" by (cases "install l ?G 0 s1")
      show ?thesis
      proof (cases r2)
        case (Inl e)
        then have s2: "s2 = s1" using i2 install_error by blast
        have "length (tabs s l) = MAX_FDS" using s files_okD(10) [of M s] l by (simp add: files_inv_def)
        then have "tabs s1 l ! a = ?F" using a' by simp
        then have "files_inv M (refs_of [?F, ?G] + W) (put_fd l a FREE_FILE s1)"
          using clear_fd_inv [OF s1 l a'(1)] by simp
        from drop_all_inv [OF this] show ?thesis using i1 i2 Inr Inl s2 by simp
      next
        case r2: (Inr b)
        then show ?thesis using install_inv [OF s1 l i2 [unfolded r2]] i1 i2 Inr by simp
      qed
    qed
  qed
  have err: "files_inv M W s" if "conn_new p st = (Inl e, s)" for p e s
    using conn_new_refs(1) [OF inv that] by simp
  show ?thesis
    unfolding socketpair_def Let_def
    using inv main err by (auto intro!: and_then_inv simp del: and_then_def)
qed

section \<open>Calls that move no reference\<close>

text \<open>One more quiet step: backward rules, from the state after the step to the state before it.\<close>

named_theorems calm \<open>quiet steps as introduction rules\<close>

lemma calm_refl [calm]: "files_ok M st \<Longrightarrow> quiet M st st"
  by (rule quiet_refl)

lemma calm_world [calm]: "quiet M st s \<Longrightarrow> quiet M st (s\<lparr>world := w\<rparr>)"
  by (blast intro: quiet_trans quiet_world quietD)

lemma calm_kmem [calm]: "quiet M st s \<Longrightarrow> quiet M st (s\<lparr>kmem := m\<rparr>)"
  by (blast intro: quiet_trans quiet_kmem quietD)

lemma calm_cwd [calm]: "quiet M st s \<Longrightarrow> quiet M st (s\<lparr>cwds := f\<rparr>)"
  by (blast intro: quiet_trans quiet_cwd quietD)

lemma calm_sock [calm]:
  "quiet M st s \<Longrightarrow> s_refs k = s_refs (socks s ! i) \<Longrightarrow> s_used k = s_used (socks s ! i) \<Longrightarrow> quiet M st (put_sock i k s)"
  by (blast intro: quiet_trans quiet_put_sock quietD)

lemma calm_event [calm]:
  "quiet M st s \<Longrightarrow> e_refs e = e_refs (events s ! i) \<Longrightarrow> e_used e = e_used (events s ! i) \<Longrightarrow>
   quiet M st (s\<lparr>events := (events s)[i := e]\<rparr>)"
  by (blast intro: quiet_trans quiet_event quietD)

lemma calm_epoll [calm]: "quiet M st s \<Longrightarrow> quiet M st (put_epoll i its s)"
  by (blast intro: quiet_trans quiet_epoll quietD)

lemma calm_usock [calm]:
  "quiet M st s \<Longrightarrow> u_refs u = u_refs (usocks s ! i) \<Longrightarrow> u_used u = u_used (usocks s ! i) \<Longrightarrow>
   quiet M st (s\<lparr>usocks := (usocks s)[i := u]\<rparr>)"
  by (blast intro: quiet_trans quiet_usock quietD)

lemma calm_push_wake [calm]: "quiet M st s \<Longrightarrow> quiet M st (push_wake key s)"
  by (blast intro: quiet_trans quiet_push_wake quietD)

lemma calm_block_for [calm]: "quiet M st s \<Longrightarrow> quiet M st (snd (would_block_for c key ms s))"
  by (blast intro: quiet_trans quiet_block_snd quietD)

lemma calm_block [calm]: "quiet M st s \<Longrightarrow> quiet M st (snd (would_block c key s))"
  unfolding would_block_def by (rule calm_block_for)

lemma calm_fd [calm]: "quiet M st s \<Longrightarrow> obj_of f = obj_of (tabs s l ! i) \<Longrightarrow> quiet M st (put_fd l i f s)"
  by (blast intro: quiet_trans quiet_put_fd quietD)

lemma calm_set_off [calm]: "quiet M st s \<Longrightarrow> quiet M st (set_off l fd off s)"
  by (blast intro: quiet_trans quiet_set_off quietD)

lemma calm_on_world [calm]: "quiet M st s \<Longrightarrow> quiet M st (snd (on_world f s))"
  by (simp add: on_world_def split: prod.split) (blast intro: calm_world)

lemma calm_and_then [calm]:
  "quiet M st (snd r) \<Longrightarrow> (\<And>a s. r = (Inr a, s) \<Longrightarrow> quiet M st s \<Longrightarrow> quiet M st (snd (k a s))) \<Longrightarrow>
   quiet M st (snd (and_then r k))"
  by (cases r; cases "fst r") (auto simp: and_then_def)

lemma on_world_same:
  "on_world f st = (r, s) \<Longrightarrow> socks s = socks st \<and> tabs s = tabs st \<and> usocks s = usocks st \<and> mems s = mems st \<and>
   events s = events st \<and> epolls s = epolls st \<and> pipes s = pipes st \<and> conns s = conns st \<and> listeners s = listeners st"
  by (auto simp: on_world_def split: prod.splits)

lemma block_same:
  "socks (snd (would_block_for c key ms st)) = socks st"
  by simp

lemma calm_sock_progress [calm]: "quiet M st s \<Longrightarrow> quiet M st (sock_progress ev i s)"
  by (auto simp: sock_progress_def Let_def on_world_def split: option.split prod.split intro!: calm)

lemma calm_need_port [calm]: "quiet M st s \<Longrightarrow> quiet M st (need_port ev i s)"
  by (auto simp: need_port_def on_world_def split: prod.split intro!: calm)

lemma calm_net_block [calm]: "quiet M st s \<Longrightarrow> quiet M st (snd (net_block c fl s))"
proof -
  assume q: "quiet M st s"
  then have "quiet M st (snd (would_block_for c SOCK_KEY NET_SLICE_MS s))" by (rule calm_block_for)
  then show ?thesis using q by (auto simp: net_block_def split: prod.split)
qed

lemma quiet_sock_send: "files_ok M st \<Longrightarrow> quiet M st (snd (sock_send ev c fl i bs tg st))"
  by (auto simp: sock_send_def Let_def on_world_def split: option.split prod.split sock_state.split intro!: calm)

lemma quiet_sock_recv: "files_ok M st \<Longrightarrow> quiet M st (snd (sock_recv ev c fl i len st))"
  by (auto simp: sock_recv_def Let_def on_world_def split: option.split prod.split sock_state.split intro!: calm)

text \<open>The state after a wait, named by what the wait returned.\<close>

lemma blocked:
  "would_block_for c key ms s = (e, s') \<Longrightarrow> s' = snd (would_block_for c key ms s)"
  "would_block c key s = (e, s') \<Longrightarrow> s' = snd (would_block c key s)"
  by simp_all

lemma quiet_tcp_connect: "files_ok M st \<Longrightarrow> quiet M st (snd (tcp_connect ev c fl i a st))"
  by (auto simp: tcp_connect_def Let_def on_world_def and_then_def
      split: option.split prod.split sock_state.split sum.split dest!: blocked intro!: calm)

lemma quiet_unix_key: "files_ok M st \<Longrightarrow> quiet M st (snd (unix_key ev l a mk st))"
  by (auto simp: unix_key_def Let_def on_world_def and_then_def
      split: sock_addr.split prod.split sum.split intro!: calm)

lemma unix_key_same:
  "usocks (snd (unix_key ev l a mk st)) = usocks st" "tabs (snd (unix_key ev l a mk st)) = tabs st"
  by (simp_all add: unix_key_def Let_def on_world_def and_then_def split: sock_addr.split prod.split sum.split)

section \<open>Calls on sockets\<close>

lemma quiet_snd: "files_inv M W st \<Longrightarrow> quiet M st s \<Longrightarrow> files_inv M W s"
  by (rule quiet_inv)

lemma inv_ok: "files_inv M W st \<Longrightarrow> files_ok M st"
  by (simp add: files_inv_def)

lemma accept_call_inv:
  assumes inv: "files_inv M W st" and l: "l < LEADERS"
  shows "files_inv M W (snd (accept ev cpu l fd fl st))"
proof (cases "\<exists>f. get_fd l fd st = Inr f \<and> f_kind f = Listen")
  case True
  then obtain f where f: "get_fd l fd st = Inr f" "f_kind f = Listen" by blast
  have live: "0 < refcount_of st (Listen, f_ino f)"
    using get_fd_live [OF inv l f(1)] f(2) by (simp only: obj_of_def tracked_simps simp_thms)
  have "files_inv M W (snd (and_then (unix_accept cpu (f_ino f) (nonblock (f_flags f)) st) (\<lambda>c st.
            let nf = unix_end c 1 fl (fl AND O_CLOEXEC \<noteq> 0);
                peer = (case listener_key (f_ino f) st of Port _ \<Rightarrow> Some (snd (ports c 1 st)) | _ \<Rightarrow> None)
            in case install_or_drop ev l nf st of
                 (Inl e, st) \<Rightarrow> (Inl e, st)
               | (Inr n, st) \<Rightarrow> (Inr (n, peer), st))))"
  proof (rule and_then_inv)
    fix e s assume "unix_accept cpu (f_ino f) (nonblock (f_flags f)) st = (Inl e, s)"
    from unix_accept_refs(1) [OF inv live this] show "files_inv M W s" by simp
  next
    fix c s assume a: "unix_accept cpu (f_ino f) (nonblock (f_flags f)) st = (Inr c, s)"
    let ?nf = "unix_end c 1 fl (fl AND O_CLOEXEC \<noteq> 0)"
    have "files_inv M (add_mset (obj_of ?nf) W) s" using unix_accept_refs(1) [OF inv live a] by simp
    from install_or_drop_inv [OF this l, of ev] show "files_inv M W (snd (let nf = ?nf;
                peer = (case listener_key (f_ino f) s of Port _ \<Rightarrow> Some (snd (ports c 1 s)) | _ \<Rightarrow> None)
            in case install_or_drop ev l nf s of
                 (Inl e, st) \<Rightarrow> (Inl e, st)
               | (Inr n, st) \<Rightarrow> (Inr (n, peer), st)))"
      by (auto simp: Let_def split: prod.split sum.split)
  qed
  then show ?thesis using f by (simp add: accept_def)
qed (use inv in \<open>auto simp: accept_def split: sum.split\<close>)

lemma unix_live:
  assumes "files_inv M W st" "l < LEADERS" "get_fd l fd st = Inr f" "f_kind f = Unix"
  shows "0 < refcount_of st (Unix, f_ino f)"
  using get_fd_live [OF assms(1-3)] assms(4) by (simp only: obj_of_def tracked_simps simp_thms)

lemma unix_read_fd_inv:
  assumes inv: "files_inv M W st" and live: "0 < refcount_of st (Unix, f_ino f)"
  shows "files_inv M W (snd (unix_read_fd ev cpu f len nb st))"
  unfolding unix_read_fd_def
proof (rule and_then_inv)
  fix e s assume "unix_read cpu (f_ino f div 2) (f_ino f mod 2) len (nb \<or> nonblock (f_flags f)) st = (Inl e, s)"
  from unix_read_refs(1) [OF inv live this] show "files_inv M W s" by simp
next
  fix a s assume r: "unix_read cpu (f_ino f div 2) (f_ino f mod 2) len (nb \<or> nonblock (f_flags f)) st = (Inr a, s)"
  obtain bs t fds where a: "a = (bs, t, fds)" by (cases a)
  have "files_inv M (refs_of fds + W) s" using unix_read_refs(1) [OF inv live r] a by simp
  from drop_all_inv [OF this] show "files_inv M W (snd ((\<lambda>(bs, trunc, fds) st. (Inr bs, drop_refs ev fds st)) a s))"
    by (simp add: a)
qed

lemma get_all_live:
  assumes "files_inv M W st" "l < LEADERS"
  shows "get_all l ds st = Inr fs \<Longrightarrow> f \<in> set fs \<Longrightarrow> tracked (fst M) (f_kind f) \<Longrightarrow> 0 < refcount_of st (obj_of f)"
proof (induction ds arbitrary: fs)
  case (Cons d ds)
  obtain x xs where x: "get_fd l d st = Inr x" "get_all l ds st = Inr xs" "fs = x\<lparr>f_cloexec := False\<rparr> # xs"
    using Cons(2) by (auto split: sum.splits)
  show ?case
  proof (cases "f \<in> set xs")
    case False
    then have "f = x\<lparr>f_cloexec := False\<rparr>" using Cons(3) x(3) by simp
    then show ?thesis using get_fd_live [OF assms x(1)] Cons(4) by simp
  qed (rule Cons(1) [OF x(2) _ Cons(4)])
qed simp

lemma unix_send_inv:
  assumes inv: "files_inv M W st" and l: "l < LEADERS"
  shows "files_inv M W (snd (unix_send ev cpu l fd bs ds nb st))"
proof (cases "\<exists>f files. get_fd l fd st = Inr f \<and> f_kind f = Unix \<and> length ds \<le> MAX_SENT \<and> get_all l ds st = Inr files")
  case True
  then obtain f files where f: "get_fd l fd st = Inr f" "f_kind f = Unix" "length ds \<le> MAX_SENT" "get_all l ds st = Inr files"
    by blast
  let ?s = "fold add_ref files st"
  have a: "files_inv M (refs_of files + W) ?s" "held ?s = held st" "tabs ?s = tabs st"
    using add_refs_inv [OF inv, of files] get_all_live [OF inv l f(4)] by simp_all
  have "f \<in> set (tabs ?s l)" using get_fd_cases(4) [OF f(1)] a(3) by simp
  from table_live [OF a(1) l this] have live: "0 < refcount_of ?s (Unix, f_ino f)"
    using f(2) by (simp only: obj_of_def tracked_simps simp_thms)
  obtain r s where w: "unix_write cpu (f_ino f div 2) (f_ino f mod 2) bs (nb \<or> nonblock (f_flags f)) files ?s = (r, s)"
    by (metis surj_pair)
  note u = unix_write_refs(1) [OF a(1) live w]
  show ?thesis
  proof (cases r)
    case (Inl e)
    then have "files_inv M (refs_of files + W) s" using u by simp
    from drop_all_inv [OF this] show ?thesis using f w Inl by (simp add: unix_send_def)
  next
    case (Inr n)
    then show ?thesis using u f w by (simp add: unix_send_def)
  qed
next
  case False
  then have "snd (unix_send ev cpu l fd bs ds nb st) = st" by (auto simp: unix_send_def split: sum.split)
  then show ?thesis using inv by simp
qed

lemma take_in_inv:
  "files_inv M (refs_of xs + W) st \<Longrightarrow> l < LEADERS \<Longrightarrow> files_inv M W (snd (take_in ev l cl room xs out st))"
proof (induction ev l cl room xs out st rule: take_in.induct)
  case (2 ev l cl room x xs out st)
  have h: "files_inv M (add_mset (obj_of (x\<lparr>f_cloexec := cl\<rparr>)) (refs_of xs + W)) st" using 2(3) by simp
  obtain r s where i: "(if length out < room then install l (x\<lparr>f_cloexec := cl\<rparr>) 0 st else (Inl EMFILE, st)) = (r, s)"
    by (metis surj_pair)
  show ?case
  proof (cases r)
    case (Inl e)
    then have "s = st" using i install_error [of l "x\<lparr>f_cloexec := cl\<rparr>" 0 st e s] by (auto split: if_splits)
    then have "files_inv M (refs_of xs + W) (drop_refs ev [x] s)" using drop_ref_inv [of M x] h by simp
    from 2(1) [OF i [symmetric] Inl this 2(4)] show ?thesis using i Inl by simp
  next
    case (Inr n)
    then have "install l (x\<lparr>f_cloexec := cl\<rparr>) 0 st = (Inr n, s)" using i by (simp split: if_splits)
    from install_inv [OF h 2(4) this] have "files_inv M (refs_of xs + W) s" .
    from 2(2) [OF i [symmetric] Inr this 2(4)] show ?thesis using i Inr by simp
  qed
qed simp

lemma unix_recv_inv:
  assumes inv: "files_inv M W st" and l: "l < LEADERS"
  shows "files_inv M W (snd (unix_recv ev cpu l fd len nb cl room st))"
proof (cases "\<exists>f. get_fd l fd st = Inr f \<and> f_kind f = Unix")
  case True
  then obtain f where f: "get_fd l fd st = Inr f" "f_kind f = Unix" by blast
  note live = unix_live [OF inv l f]
  have "files_inv M W (snd (and_then (unix_read cpu (f_ino f div 2) (f_ino f mod 2) len (nb \<or> nonblock (f_flags f)) st)
            (\<lambda>(bs, trunc, fds) st. case take_in ev l cl room fds [] st of (out, st) \<Rightarrow> (Inr (bs, out, trunc), st))))"
  proof (rule and_then_inv)
    fix e s assume "unix_read cpu (f_ino f div 2) (f_ino f mod 2) len (nb \<or> nonblock (f_flags f)) st = (Inl e, s)"
    from unix_read_refs(1) [OF inv live this] show "files_inv M W s" by simp
  next
    fix a s assume r: "unix_read cpu (f_ino f div 2) (f_ino f mod 2) len (nb \<or> nonblock (f_flags f)) st = (Inr a, s)"
    obtain bs t fds where a: "a = (bs, t, fds)" by (cases a)
    have "files_inv M (refs_of fds + W) s" using unix_read_refs(1) [OF inv live r] a by simp
    from take_in_inv [OF this l]
    show "files_inv M W (snd ((\<lambda>(bs, trunc, fds) st. case take_in ev l cl room fds [] st of (out, st) \<Rightarrow>
        (Inr (bs, out, trunc), st)) a s))"
      by (simp add: a split: prod.split) (metis snd_conv)
  qed
  then show ?thesis using f by (simp add: unix_recv_def)
qed (use inv in \<open>auto simp: unix_recv_def split: sum.split\<close>)

lemma shutdown_inv:
  assumes inv: "files_inv M W st" and l: "l < LEADERS"
  shows "files_inv M W (snd (shutdown l fd how st))"
proof (cases "\<exists>f. get_fd l fd st = Inr f \<and> f_kind f = Unix")
  case True
  then obtain f where f: "get_fd l fd st = Inr f" "f_kind f = Unix" by blast
  from quiet_shutdown [OF inv_ok [OF inv] end_ok(1-3) [OF inv unix_live [OF inv l f]]]
  show ?thesis using f quiet_inv [OF _ inv] by (simp add: shutdown_def)
qed (use inv in \<open>auto simp: shutdown_def split: sum.split\<close>)

lemma bind_inv:
  assumes inv: "files_inv M W st" and l: "l < LEADERS"
  shows "files_inv M W (snd (bind ev l fd sa st))"
proof (cases "get_fd l fd st")
  case (Inr f)
  note ok = inv_ok [OF inv]
  have "quiet M st (snd (bind ev l fd sa st))"
    unfolding bind_def Inr using ok
    by (auto simp: Let_def on_world_def split: sock_addr.split prod.split intro!: calm quiet_unix_key)
  then show ?thesis by (rule quiet_inv [OF _ inv])
qed (use inv in \<open>simp add: bind_def\<close>)

text \<open>\<open>connect\<close> and \<open>listen\<close> put the new object in place of the socket.\<close>

lemma become_inv:
  assumes inv: "files_inv M (add_mset (k, i) W) s" and l: "l < LEADERS" and f: "get_fd l fd st = Inr f"
    and t: "tabs s = tabs st" and len: "fd mod 2 ^ 32 < MAX_FDS"
  shows "files_inv M W (become ev l fd f k i s)"
  unfolding become_def using inv by (intro replace_inv [OF _ l f t len]) (simp add: obj_of_def)

lemma sock_progress_tabs [simp]: "tabs (sock_progress ev i st) = tabs st"
  by (auto simp: sock_progress_def on_world_def Let_def put_sock_def split: option.split prod.split)

lemma need_port_tabs [simp]: "tabs (need_port ev i st) = tabs st"
  by (auto simp: need_port_def on_world_def put_sock_def split: prod.split)

lemma connect_inv:
  assumes inv: "files_inv M W st" and l: "l < LEADERS"
  shows "files_inv M W (snd (connect ev cpu l fd sa st))"
proof (cases "get_fd l fd st")
  case (Inr f)
  note ok = inv_ok [OF inv] and len = get_fd_index [OF inv l Inr]
  have meet: "files_inv M W (snd (and_then (unix_connect key p s) (\<lambda>c st. (Inr 0, become ev l fd f Unix (c * 2) (g c st)))))"
    if s: "files_inv M W s" "tabs s = tabs st"
      and g: "\<And>c s'. files_ok M s' \<Longrightarrow> c < MAX_CONNS \<Longrightarrow> c_used (conns s' ! c) \<Longrightarrow> quiet M s' (g c s') \<and> tabs (g c s') = tabs s'"
    for key p s g
  proof (rule and_then_inv)
    fix e s' assume "unix_connect key p s = (Inl e, s')"
    from unix_connect_refs(1) [OF s(1) this] show "files_inv M W s'" by simp
  next
    fix c s' assume c: "unix_connect key p s = (Inr c, s')"
    note u = unix_connect_refs [OF s(1) c]
    have h: "files_inv M (add_mset (Unix, c * 2) W) s'" using u(1) by simp
    from g [OF inv_ok [OF h]] u(3) have q: "quiet M s' (g c s')" "tabs (g c s') = tabs s'" by simp_all
    show "files_inv M W (snd (Inr 0, become ev l fd f Unix (c * 2) (g c s')))"
      using become_inv [OF quiet_inv [OF q(1) h] l Inr _ len] q(2) u(2) s(2) by simp
  qed
  have one: "files_inv M W (snd (and_then (unix_key ev l sa False st) (\<lambda>key st.
      and_then (unix_connect key p st) (\<lambda>c st. (Inr 0, become ev l fd f Unix (c * 2) st)))))" for p
  proof (rule and_then_inv)
    fix x s assume k: "unix_key ev l sa False st = (Inl x, s)"
    then show "files_inv M W s" using quiet_unix_key [OF ok] quiet_inv [OF _ inv] by (metis snd_conv)
  next
    fix key s assume k: "unix_key ev l sa False st = (Inr key, s)"
    have "files_inv M W s" using quiet_unix_key [OF ok] quiet_inv [OF _ inv] k by (metis snd_conv)
    moreover have "tabs s = tabs st" using unix_key_same(2) k by (metis snd_conv)
    ultimately show "files_inv M W (snd (and_then (unix_connect key p s) (\<lambda>c st. (Inr 0, become ev l fd f Unix (c * 2) st))))"
      by (rule meet) (simp add: quiet_refl)
  qed
  have two: "files_inv M W (snd (and_then (unix_connect key p st) (\<lambda>c st.
      case on_world (x_port ev) st of (lport, st) \<Rightarrow> (Inr 0, become ev l fd f Unix (c * 2) (set_ports c lport b st)))))" for key p b
  proof -
    let ?g = "\<lambda>c st. case on_world (x_port ev) st of (lport, st) \<Rightarrow> set_ports c lport b st"
    have "quiet M s' (?g c s') \<and> tabs (?g c s') = tabs s'"
      if "files_ok M s'" "c < MAX_CONNS" "c_used (conns s' ! c)" for c and s' :: "('a, 'b) files_st_scheme"
    proof -
      obtain p' s2 where w: "on_world (x_port ev) s' = (p', s2)" by (metis surj_pair)
      note q = quiet_on_world [OF that(1) w] and same = on_world_same [OF w]
      have "quiet M s2 (set_ports c p' b s2)"
        using that same by (intro quiet_set_ports quietD [OF q]) simp_all
      then show ?thesis using quiet_trans [OF q] w same by (simp add: set_ports_def)
    qed
    from meet [OF inv refl this] show ?thesis by (simp add: split_def)
  qed
  have three: "quiet M st (snd (tcp_connect ev cpu (f_flags f) (f_ino f) a st))" for a
    by (rule quiet_tcp_connect [OF ok])
  have four: "quiet M st (put_sock i ((socks (need_port ev i (put_sock i k st)) ! i)\<lparr>s_state := Connected\<rparr>)
      (need_port ev i (put_sock i k st)))" if "s_refs k = s_refs (socks st ! i)" "s_used k = s_used (socks st ! i)" for i k
    using that ok by (auto intro!: calm)
  show ?thesis
    unfolding connect_def Inr using one two quiet_inv [OF three inv] quiet_inv [OF four inv] inv
    by (auto simp: Let_def split: sock_addr.split)
qed (use inv in \<open>simp add: connect_def\<close>)

lemma listen_inv:
  assumes inv: "files_inv M W st" and l: "l < LEADERS"
  shows "files_inv M W (snd (listen ev l fd st))"
proof (cases "get_fd l fd st")
  case (Inr f)
  note ok = inv_ok [OF inv] and len = get_fd_index [OF inv l Inr]
  have meet: "files_inv M W (snd (and_then (unix_listen key p s) (\<lambda>li st. (Inr 0, become ev l fd f Listen li st))))"
    if s: "files_inv M W s" "tabs s = tabs st" for key p s
  proof (rule and_then_inv)
    fix e s' assume "unix_listen key p s = (Inl e, s')"
    from unix_listen_refs(1) [OF s(1) this] show "files_inv M W s'" by simp
  next
    fix i s' assume i: "unix_listen key p s = (Inr i, s')"
    note u = unix_listen_refs [OF s(1) i]
    show "files_inv M W (snd (Inr 0, become ev l fd f Listen i s'))"
      using become_inv [OF _ l Inr _ len, of M Listen i W s'] u s(2) by simp
  qed
  have np: "files_inv M W (need_port ev i st)" for i
    using quiet_inv [OF calm_need_port [OF quiet_refl [OF ok]] inv] .
  show ?thesis
    unfolding listen_def Inr
    using inv meet [OF inv refl] meet [OF np need_port_tabs] by (auto simp: Let_def and_then_def)
qed (use inv in \<open>simp add: listen_def\<close>)

lemma sendto_inv:
  assumes inv: "files_inv M W st" and l: "l < LEADERS"
  shows "files_inv M W (snd (sendto ev cpu l fd bs tg st))"
proof (cases "get_fd l fd st")
  case (Inr f)
  have u: "files_inv M W (snd (unix_write cpu (f_ino f div 2) (f_ino f mod 2) bs (nonblock (f_flags f)) [] st))"
    if k: "f_kind f = Unix"
  proof -
    obtain r s where w: "unix_write cpu (f_ino f div 2) (f_ino f mod 2) bs (nonblock (f_flags f)) [] st = (r, s)"
      by (metis surj_pair)
    have "files_inv M (refs_of [] + W) st" using inv by simp
    from unix_write_refs(1) [OF this unix_live [OF inv l Inr k] w] show ?thesis using w by (cases r) simp_all
  qed
  show ?thesis
    using inv u quiet_inv [OF quiet_sock_send [OF inv_ok [OF inv]] inv] Inr by (simp add: sendto_def)
qed (use inv in \<open>simp add: sendto_def\<close>)

lemma sock_error_inv:
  assumes inv: "files_inv M W st"
  shows "files_inv M W (snd (sock_error ev l fd st))"
proof -
  have "quiet M st (snd (sock_error ev l fd st))"
    unfolding sock_error_def using inv_ok [OF inv] by (auto simp: Let_def split: sum.split intro!: calm)
  then show ?thesis by (rule quiet_inv [OF _ inv])
qed

lemma recvfrom_inv:
  assumes inv: "files_inv M W st" and l: "l < LEADERS"
  shows "files_inv M W (snd (recvfrom ev cpu l fd len nb st))"
proof (cases "get_fd l fd st")
  case (Inr f)
  have u: "files_inv M W (snd (and_then (unix_read_fd ev cpu f len nb st) (\<lambda>bs st.
              let p = ports (f_ino f div 2) (f_ino f mod 2) st in
              (Inr (bs, if fst p \<noteq> 0 then Some ([127, 0, 0, 1 :: u8], snd p) else None), st))))"
    if k: "f_kind f = Unix"
    using unix_read_fd_inv [OF inv unix_live [OF inv l Inr k], of ev cpu len nb]
    by (auto simp: and_then_def Let_def split: prod.split sum.split)
  have s: "quiet M st (snd (and_then (sock_recv ev cpu fl i len st) (\<lambda>(bs, a) st. (Inr (bs, Some a), st))))" for fl i
    using quiet_sock_recv [OF inv_ok [OF inv], of ev cpu fl i len]
    by (auto simp: and_then_def split: prod.split sum.split)
  show ?thesis using inv u quiet_inv [OF s inv] Inr by (simp add: recvfrom_def)
qed (use inv in \<open>simp add: recvfrom_def\<close>)

section \<open>Reading and writing\<close>

lemma quiet_pipe:
  assumes ok: "files_ok M st" and i: "i < MAX_PIPES"
    and p: "pipes_inv (table_spans conn_spans (conns st) + all_spans M st) st'" "pipes st' = (pipes st)[i := p]"
      "p_readers p = p_readers (pipes st ! i)" "p_writers p = p_writers (pipes st ! i)"
    and same: "mems st' = mems st" "events st' = events st" "epolls st' = epolls st" "socks st' = socks st"
      "usocks st' = usocks st" "shobjs st' = shobjs st" "tabs st' = tabs st" "conns st' = conns st" "listeners st' = listeners st"
  shows "quiet M st st'"
proof (rule quiet_unix [OF ok])
  show "unix_inv (all_spans M st) st'" by (rule unix_pipe_inv [OF files_okD(1) [OF ok] p(1) same(8,9)])
  show "held st' = held st" by (rule held_cong) (simp_all add: same)
  have len: "i < length (pipes st)" using i files_okD(3) [OF ok] by simp
  have "refcount_of st' = (refcount_of st)((PipeR, i) := p_readers p, (PipeW, i) := p_writers p)"
    by (rule refcount_pipe [OF p(2) len]) (simp_all add: same)
  then show "refcount_of st' = refcount_of st" using p(3,4) len by (auto simp: fun_eq_iff nth0_less)
qed (simp_all add: same)

lemma quiet_pipe_read:
  assumes ok: "files_ok M st" and i: "i < MAX_PIPES" and r: "pipe_read cpu fl i len st = (r, st')"
  shows "quiet M st st'"
  using r refl
proof (cases rule: pipe_read_cases)
  case stay
  then show ?thesis using calm_refl [OF ok] calm_block by blast
next
  case (take n)
  show ?thesis
    by (rule quiet_pipe [OF ok i pipe_read_inv [OF unix_invD(1) [OF files_okD(1) [OF ok]] i r],
          of "(pipes st ! i)\<lparr>p_head := (p_head (pipes st ! i) + n) mod PIPE_CAP, p_len := p_len (pipes st ! i) - n\<rparr>"])
      (simp_all add: take)
qed

lemma quiet_pipe_write:
  assumes ok: "files_ok M st" and i: "i < MAX_PIPES" and r: "pipe_write cpu fl i src st = (r, st')"
  shows "quiet M st st'"
  using r refl
proof (cases rule: pipe_write_cases)
  case (stay e)
  then show ?thesis using calm_refl [OF ok] calm_block by blast
next
  case (put n)
  show ?thesis
    by (rule quiet_pipe [OF ok i pipe_write_inv [OF unix_invD(1) [OF files_okD(1) [OF ok]] i r],
          of "(pipes st ! i)\<lparr>p_len := p_len (pipes st ! i) + n\<rparr>"]) (simp_all add: put)
qed

lemma quiet_event_read: "files_ok M st \<Longrightarrow> quiet M st (snd (event_read c fl i len st))"
  unfolding event_read_def by (auto simp: Let_def split: prod.split dest!: blocked intro!: calm)

lemma quiet_event_write: "files_ok M st \<Longrightarrow> quiet M st (snd (event_write i bs st))"
  unfolding event_write_def by (auto simp: Let_def intro!: calm)

lemma pipe_live:
  assumes "files_inv M W st" "l < LEADERS" "get_fd l fd st = Inr f" "f_kind f = PipeR \<or> f_kind f = PipeW"
  shows "f_ino f < MAX_PIPES"
proof -
  have "tracked (fst M) (f_kind f)" using assms(4) by auto
  from get_fd_live [OF assms(1-3) this] have "0 < refcount_of st (f_kind f, f_ino f)" by (simp only: obj_of_def)
  then show ?thesis using live_pipe(1) [OF inv_ok [OF assms(1)]] assms(4) by metis
qed

lemma calm_off: "quiet M st s \<Longrightarrow> quiet M st (if b then set_off l fd off s else s)"
  by (simp add: calm_set_off)

lemma read_fd_inv:
  assumes inv: "files_inv M W st" and l: "l < LEADERS"
  shows "files_inv M W (snd (read_fd ev cpu l fd len at st))"
proof (cases "get_fd l fd st")
  case (Inr f)
  note ok = inv_ok [OF inv]
  show ?thesis
  proof (cases "f_kind f = Unix")
    case True
    then show ?thesis using unix_read_fd_inv [OF inv unix_live [OF inv l Inr True]] Inr by (simp add: read_fd_def)
  next
    case False
    have p: "quiet M st (snd (pipe_read cpu (f_flags f) (f_ino f) len st))" if "f_kind f = PipeR"
      using quiet_pipe_read [OF ok pipe_live [OF inv l Inr]] that by (metis surj_pair snd_conv)
    have s: "quiet M st (snd (and_then (sock_recv ev cpu (f_flags f) (f_ino f) len st) (\<lambda>(bs, _) st. (Inr bs, st))))"
      using quiet_sock_recv [OF ok, of ev cpu "f_flags f" "f_ino f" len]
      by (auto simp: and_then_def split: prod.split sum.split)
    have "quiet M st (snd (read_fd ev cpu l fd len at st))"
      unfolding read_fd_def Inr Let_def using False p s ok quiet_event_read [OF ok, of cpu "f_flags f" "f_ino f" len]
      by (cases "f_kind f") (auto simp: on_world_def split: prod.split intro!: calm calm_off)
    then show ?thesis by (rule quiet_inv [OF _ inv])
  qed
qed (use inv in \<open>simp add: read_fd_def\<close>)

lemma quiet_shm_step: "quiet M st s \<Longrightarrow> shm_moved (the_shm s) x \<Longrightarrow> shm_fds (objs x) = shm_fds (shobjs s) \<Longrightarrow>
    quiet M st (set_shm x s)"
  by (blast intro: quiet_trans quiet_shm quietD)

lemma the_shm_objs [simp]: "objs (the_shm st) = shobjs st"
  by (simp add: the_shm_def)

lemma write_fd_inv:
  assumes inv: "files_inv M W st" and l: "l < LEADERS"
  shows "files_inv M W (snd (write_fd ev cpu l fd bs at st))"
proof (cases "get_fd l fd st")
  case (Inr f)
  note ok = inv_ok [OF inv]
  show ?thesis
  proof (cases "f_kind f = Unix")
    case True
    obtain r s where w: "unix_write cpu (f_ino f div 2) (f_ino f mod 2) bs (nonblock (f_flags f)) [] st = (r, s)"
      by (metis surj_pair)
    have "files_inv M (refs_of [] + W) st" using inv by simp
    from unix_write_refs(1) [OF this unix_live [OF inv l Inr True] w] show ?thesis
      using w Inr True by (cases r) (simp_all add: write_fd_def)
  next
    case False
    have p: "quiet M st (snd (pipe_write cpu (f_flags f) (f_ino f) bs st))" if "f_kind f = PipeW"
      using quiet_pipe_write [OF ok pipe_live [OF inv l Inr]] that by (metis surj_pair snd_conv)
    have m: "quiet M st (set_shm (snd (rw_write i off bs (the_shm st))) st)" for i off
      using quiet_shm_step [OF quiet_refl [OF ok] rw_write_moved [OF the_shm_inv [OF inv] prod.collapse [symmetric]]]
        rw_write_fds [of i off bs "the_shm st"] by simp
    have s: "quiet M st (snd (case rw_write i off bs (the_shm st) of
                 (Inl e, s) \<Rightarrow> (Inl e, set_shm s st)
               | (Inr n, s) \<Rightarrow> (Inr n, if at = None then set_off l fd (off + n) (set_shm s st) else set_shm s st)))" for i off
      using m [of i off] by (cases "rw_write i off bs (the_shm st)"; cases "fst (rw_write i off bs (the_shm st))")
        (auto intro: calm_off calm_set_off)
    have "quiet M st (snd (write_fd ev cpu l fd bs at st))"
      unfolding write_fd_def Inr Let_def
      using False p s ok quiet_event_write [OF ok] quiet_sock_send [OF ok]
      by (cases "f_kind f") (auto simp: on_world_def split: prod.split option.split intro!: calm calm_off)
    then show ?thesis by (rule quiet_inv [OF _ inv])
  qed
qed (use inv in \<open>simp add: write_fd_def\<close>)

lemma lseek_inv:
  assumes inv: "files_inv M W st"
  shows "files_inv M W (snd (lseek ev l fd off wh st))"
proof -
  have "quiet M st (snd (lseek ev l fd off wh st))"
    unfolding lseek_def using inv_ok [OF inv]
    by (auto simp: on_world_def split: sum.split option.split prod.split intro!: calm)
  then show ?thesis by (rule quiet_inv [OF _ inv])
qed

section \<open>Opening\<close>

lemma truncate_step: "quiet M st s \<Longrightarrow> quiet M st (set_shm (snd (Shm.truncate oid len (the_shm s))) s)"
  by (intro quiet_shm_step truncate_moved [OF _ prod.collapse [symmetric]])
    (auto simp: truncate_fds intro: files_shm(1) dest: quietD)

text \<open>A name under \<open>/dev/shm\<close>: the descriptor installed is not counted.\<close>

lemma open_shm_inv:
  assumes inv: "files_inv M W st" and l: "l < LEADERS" and sh: "\<not> fst M"
  shows "files_inv M W (snd (open_shm ev l name fl st))"
proof -
  note si = the_shm_inv [OF inv]
  have found: "files_inv M W (set_shm s st)" if "open_named name (the_shm st) = Some (oid, s)" for oid s
    by (rule shm_any_step [OF inv open_named_moved [OF si that] sh])
  have excl: "files_inv M W (set_shm (fd_ref oid d s) st)" if "open_named name (the_shm st) = Some (oid, s)" for oid s d
  proof -
    note m = open_named_moved [OF si that]
    then have "shm_inv s" by (simp add: shm_moved_def)
    from shm_moved_trans [OF m fd_ref_moved [OF this]] show ?thesis by (rule shm_any_step [OF inv _ sh])
  qed
  have made: "files_inv M W (set_shm s st)" if "create (Some name) (the_shm st) = Some (oid, s)" for oid s
    by (rule shm_any_step [OF inv create_moved [OF si that] sh])
  have rest: "files_inv M W (snd (let st = (if fl AND O_TRUNC \<noteq> 0 then set_shm (snd (Shm.truncate oid 0 (the_shm s))) s else s)
           in case install_shm ev l oid fl st of
                (r, st) \<Rightarrow> (r, set_shm (fd_ref oid (- 1) (the_shm st)) st)))" if s: "files_inv M W s" for oid s
  proof -
    let ?s = "if fl AND O_TRUNC \<noteq> 0 then set_shm (snd (Shm.truncate oid 0 (the_shm s))) s else s"
    have "files_inv M W ?s"
      using quiet_inv [OF truncate_step [OF quiet_refl [OF inv_ok [OF s]]] s] s by simp
    then have "files_inv M (add_mset (Shm, oid) W) ?s" using sh by (simp add: files_inv_untracked)
    from install_shm_inv [OF this l] have i: "files_inv M W (snd (install_shm ev l oid fl ?s))" .
    from shm_any_step [OF this fd_ref_moved [OF the_shm_inv [OF i]] sh] show ?thesis by (simp add: Let_def split_def)
  qed
  show ?thesis
    unfolding open_shm_def Let_def
  proof (rule and_then_inv)
    fix e s assume "(case open_named name (the_shm st) of
           Some (oid, s) \<Rightarrow>
             if fl AND O_CREAT \<noteq> 0 \<and> fl AND O_EXCL \<noteq> 0
             then (Inl EEXIST, set_shm (fd_ref oid (- 1) s) st)
             else (Inr oid, set_shm s st)
         | None \<Rightarrow>
             if fl AND O_CREAT \<noteq> 0
             then (case create (Some name) (the_shm st) of
                     None \<Rightarrow> (Inl ENFILE, st)
                   | Some (oid, s) \<Rightarrow> (Inr oid, set_shm s st))
             else (Inl ENOENT, st)) = (Inl e, s)"
    then show "files_inv M W s" using inv excl by (auto split: option.splits if_splits)
  next
    fix oid s assume "(case open_named name (the_shm st) of
           Some (oid, s) \<Rightarrow>
             if fl AND O_CREAT \<noteq> 0 \<and> fl AND O_EXCL \<noteq> 0
             then (Inl EEXIST, set_shm (fd_ref oid (- 1) s) st)
             else (Inr oid, set_shm s st)
         | None \<Rightarrow>
             if fl AND O_CREAT \<noteq> 0
             then (case create (Some name) (the_shm st) of
                     None \<Rightarrow> (Inl ENFILE, st)
                   | Some (oid, s) \<Rightarrow> (Inr oid, set_shm s st))
             else (Inl ENOENT, st)) = (Inr oid, s)"
    then have "files_inv M W s" using found made by (auto split: option.splits if_splits)
    from rest [OF this] show "files_inv M W (snd (case install_shm ev l oid fl
        (if fl AND O_TRUNC \<noteq> 0 then set_shm (snd (Shm.truncate oid 0 (the_shm s))) s else s) of
        (r, st) \<Rightarrow> (r, set_shm (fd_ref oid (- 1) (the_shm st)) st)))" by (simp add: Let_def)
  qed
qed

lemma reopen_inv:
  assumes inv: "files_inv M W st" and l: "l < LEADERS"
  shows "files_inv M W (snd (reopen ev l n fl st))"
proof (cases "get_fd l n st")
  case (Inr f)
  define nf where "nf = (if f_kind f \<in> {File, Dir, Shm}
      then f\<lparr>f_cloexec := (fl AND O_CLOEXEC \<noteq> 0), f_off := 0, f_flags := fl AND (O_ACCMODE OR O_NONBLOCK OR O_APPEND)\<rparr>
      else f\<lparr>f_cloexec := (fl AND O_CLOEXEC \<noteq> 0)\<rparr>)"
  have o: "obj_of nf = obj_of f" "f_kind nf = f_kind f" by (simp_all add: nf_def obj_of_def)
  have "files_inv M (add_mset (obj_of nf) W) (add_ref nf st)"
    using add_ref_inv(1) [OF inv, of nf] get_fd_live [OF inv l Inr] o by simp
  from install_or_drop_inv [OF this l] show ?thesis unfolding reopen_def Inr Let_def nf_def by simp
qed (use inv in \<open>simp add: reopen_def\<close>)

lemma install_untracked:
  assumes inv: "files_inv M W st" and l: "l < LEADERS" and f: "\<not> tracked (fst M) (f_kind f)"
  shows "files_inv M W (snd (install l f n st))"
proof -
  obtain r s where i: "install l f n st = (r, s)" by (metis surj_pair)
  have "files_inv M (add_mset (obj_of f) W) st" using inv f by (simp add: files_inv_untracked)
  from install_inv [OF this l] i show ?thesis using inv install_error [of l f n st _ s] by (cases r) auto
qed

lemma free_alloc_inv:
  assumes ok: "files_ok M st" and a: "alloc_contig n (kfa st) = Some (b, fa)"
  shows "unix_inv (add_mset (b, n) (all_spans M st)) (st\<lparr>kfa := fa\<rparr>)"
proof -
  have "spans_ok (kfa st) (table_spans pipe_spans (pipes st) + (table_spans conn_spans (conns st) + all_spans M st))"
    using files_okD(1) [OF ok] by (auto simp: unix_inv_def pipes_inv_def)
  from alloc_span(1) [OF this a] show ?thesis
    using files_okD(1) [OF ok] by (auto simp: unix_inv_def pipes_inv_def waits_wf_def)
qed

lemma text_span:
  assumes ok: "files_ok M st" and a: "alloc_contig n (kfa st) = Some (b, fa)"
  shows "files_ok (fst M, add_mset (b, n) (snd M)) (st\<lparr>kfa := fa, kmem := m\<rparr>)" "0 < b"
proof -
  have "spans_ok (kfa st) (table_spans pipe_spans (pipes st) + (table_spans conn_spans (conns st) + all_spans M st))"
    using files_okD(1) [OF ok] by (auto simp: unix_inv_def pipes_inv_def)
  then show "0 < b" using alloc_span(2) a by blast
  have "unix_inv (add_mset (b, n) (all_spans M st)) (st\<lparr>kfa := fa, kmem := m\<rparr>)"
    by (rule unix_inv_cong [OF unix_kmem_inv [OF free_alloc_inv [OF ok a]]])
      (use files_okD(4) [OF ok] in \<open>simp_all add: waits_wf_def\<close>)
  then show "files_ok (fst M, add_mset (b, n) (snd M)) (st\<lparr>kfa := fa, kmem := m\<rparr>)"
    using files_okD(2) [OF ok] by (simp add: files_ok_def all_spans_def objects_ok_def)
qed

lemma open_special_inv:
  assumes inv: "files_inv M W st" and l: "l < LEADERS" and dev: "\<And>k. sp = Dev k \<Longrightarrow> \<not> tracked (fst M) k"
  shows "files_inv M W (snd (open_special ev l sp fl st))"
proof (cases sp)
  case (Dev k)
  then show ?thesis using install_untracked [OF inv l] dev by (simp add: open_special_def Let_def)
next
  case (Proc which)
  note ok = inv_ok [OF inv]
  let ?n = "mem_pages which"
  show ?thesis
  proof (cases "alloc_contig ?n (kfa st)")
    case None
    then show ?thesis using inv Proc by (simp add: open_special_def Let_def)
  next
    case (Some p)
    obtain b fa where p: "alloc_contig ?n (kfa st) = Some (b, fa)" using Some by (cases p) simp
    define tx where "tx = take (?n * 4096) (x_proc_text ev which (?n * 4096) (world st))"
    define s where "s = st\<lparr>kfa := fa, kmem := mem_write (kmem st) b tx\<rparr>"
    note t = text_span(1) [OF ok p, of "mem_write (kmem st) b tx", folded s_def] text_span(2) [OF ok p]
    have same: "mems s = mems st" "tabs s = tabs st" "conns s = conns st" "listeners s = listeners st" "pipes s = pipes st"
      "events s = events st" "epolls s = epolls st" "socks s = socks st" "usocks s = usocks st" "shobjs s = shobjs st"
      by (simp_all add: s_def)
    have keep: "held s' = held st" if "tabs s' = tabs s" "conns s' = conns s" "listeners s' = listeners s"
      for s' :: "('a, 'b) files_st_scheme"
      by (rule held_cong) (simp_all add: that same)
    have u: "unix_inv (add_mset (b, ?n) (all_spans M s)) s"
      using files_okD(1) [OF t(1)] by (simp add: all_spans_def)
    show ?thesis
    proof (cases "position (\<lambda>m. m_buf m = 0) (mems s)")
      case None
      let ?s = "s\<lparr>kfa := free_contig b ?n (kfa s)\<rparr>"
      have "unix_inv (all_spans M s) ?s" by (rule unix_inv_free [OF u])
      then have "files_ok M ?s"
        using files_okD(2) [OF ok] by (simp add: files_ok_def all_spans_def objects_ok_def same)
      moreover have "refcount_of ?s = refcount_of st" by (rule refcount_of_cong) (simp_all add: same)
      ultimately have "files_inv M W ?s" by (intro moved_inv [OF inv]) (simp_all add: keep)
      then show ?thesis using None p Proc by (simp add: open_special_def Let_def s_def tx_def)
    next
      case (Some i)
      let ?m = "\<lparr>m_buf = b, m_len = length tx, m_refs = 1, m_pages = ?n\<rparr>"
      let ?s = "s\<lparr>mems := (mems s)[i := ?m]\<rparr>"
      have i: "i < length (mems s)" "m_buf (mems s ! i) = 0" using position_Some [OF Some] by simp_all
      have "mem_ok (mems s ! i)" using files_okD(2) [OF t(1)] i(1) by (simp add: objects_ok_def list_all_length)
      then have old: "mems s ! i = mem_none" using i(2) by (simp add: mem_ok_def)
      obtain K where K: "table_spans mem_spans (mems s) = mem_spans (mems s ! i) + K"
        "\<And>x. table_spans mem_spans ((mems s)[i := x]) = mem_spans x + K" by (rule table_spans_nth [OF i(1), of mem_spans]) blast
      have "all_spans M ?s = add_mset (b, ?n) (all_spans M s)"
        using t(2) i(2) by (simp add: all_spans_def K mem_spans_def)
      then have "unix_inv (all_spans M ?s) ?s"
        using unix_inv_cong [OF u, of ?s] files_okD(4) [OF t(1)] by (simp add: waits_wf_def)
      moreover have "objects_ok ?s"
        using files_okD(2) [OF t(1)] t(2) by (auto simp: objects_ok_def mem_ok_def intro!: list_all_update_1)
      ultimately have ok': "files_ok M ?s" by (simp add: files_ok_def)
      have "refcount_of ?s = (refcount_of st)((Mem, i) := m_refs ?m)"
        by (rule refcount_upd(1)) (use i in \<open>simp_all add: same\<close>)
      moreover have "refcount_of st (Mem, i) = 0" using i(1) old same(1) by (simp add: nth0_less mem_none_def)
      ultimately have "files_inv M (add_mset (Mem, i) W) ?s" by (intro bump [OF inv ok']) (simp_all add: keep)
      then have "files_inv M (add_mset (obj_of \<lparr>f_kind = Mem, f_ino = i, f_flags = (fl AND (O_ACCMODE OR O_NONBLOCK)) AND NOT O_ACCMODE,
            f_cloexec = (fl AND O_CLOEXEC \<noteq> 0), f_off = 0\<rparr>) W) ?s" by (simp add: obj_of_def)
      from install_or_drop_inv [OF this l] show ?thesis
        using Some p Proc by (simp add: open_special_def Let_def s_def tx_def)
    qed
  qed
qed

lemma special_dev: "special_of pid path = Some (Dev k) \<Longrightarrow> \<not> tracked sh k"
  by (auto simp: special_of_def split: if_splits option.splits)

lemma on_world_inv: "files_inv M W st \<Longrightarrow> on_world f st = (r, s) \<Longrightarrow> files_inv M W s"
  by (rule quiet_inv [OF quiet_on_world [OF inv_ok]])

lemma world_inv: "files_inv M W st \<Longrightarrow> files_inv M W (st\<lparr>world := w\<rparr>)"
  by (rule quiet_inv [OF quiet_world [OF inv_ok]])

lemma open_disk_inv:
  assumes inv: "files_inv M W st" and l: "l < LEADERS"
  shows "files_inv M W (snd (open_disk ev l at path fl mode st))"
  unfolding open_disk_def
proof (rule and_then_inv)
  let ?first = "if fl AND O_CREAT \<noteq> 0
        then and_then (on_world (x_create ev at path mode (fl AND O_EXCL \<noteq> 0)) st) (\<lambda>(ino, created) st.
               (Inr (ino, created), if created then st\<lparr>world := x_legacy ev (world st)\<rparr> else st))
        else and_then (on_world (x_resolve ev at path (fl AND O_NOFOLLOW = 0)) st) (\<lambda>ino st. (Inr (ino, False), st))"
  have q: "quiet M st (snd ?first)" using inv_ok [OF inv] by (auto intro!: calm)
  then have first: "files_inv M W s" if "?first = (r, s)" for r s
    using quiet_inv [OF q inv] that by simp
  show "files_inv M W s" if "?first = (Inl e, s)" for e s by (rule first [OF that])
  show "files_inv M W (snd ((case a of (ino, created) \<Rightarrow> \<lambda>st.
     and_then (on_world (x_inode ev ino) st) (\<lambda>(ik, size) st.
       let acc = fl AND O_ACCMODE; trunc = fl AND O_TRUNC in
       case ik of
         Symlink \<Rightarrow> (Inl ELOOP, st)
       | Socket \<Rightarrow> (Inl EINVAL, st)
       | Other_kind \<Rightarrow> (Inl EINVAL, st)
       | _ \<Rightarrow>
           let k = (if ik = Directory then Dir else File) in
           if k = Dir \<and> acc \<noteq> 0 then (Inl EISDIR, st)
           else if k \<noteq> Dir \<and> fl AND O_DIRECTORY \<noteq> 0 then (Inl ENOTDIR, st)
           else
             and_then
               (if k = File \<and> trunc \<noteq> 0 \<and> acc \<noteq> 0 \<and> \<not> created
                then on_world (x_truncate ev ino 0) st else (Inr (), st))
               (\<lambda>_ st. install l
                  \<lparr>f_kind = k, f_ino = ino, f_flags = fl AND (O_ACCMODE OR O_APPEND OR O_NONBLOCK),
                     f_cloexec = (fl AND O_CLOEXEC \<noteq> 0), f_off = 0\<rparr> 0 st))) s))"
    if a: "?first = (Inr a, s)" for a s
  proof -
    note s = first [OF a]
    obtain ino created where p: "a = (ino, created)" by (cases a)
    have inst: "files_inv M W (snd (and_then (if b then on_world (x_truncate ev ino 0) s' else (Inr (), s'))
        (\<lambda>_ st. install l \<lparr>f_kind = k, f_ino = ino, f_flags = x, f_cloexec = y, f_off = 0\<rparr> 0 st)))"
      if s': "files_inv M W s'" and k: "k = Dir \<or> k = File" for s' b k x y
    proof (rule and_then_inv)
      show "files_inv M W s2" if "(if b then on_world (x_truncate ev ino 0) s' else (Inr (), s')) = (Inl e, s2)" for e s2
        using that on_world_inv [OF s'] by (auto split: if_splits)
      fix u s2 assume "(if b then on_world (x_truncate ev ino 0) s' else (Inr (), s')) = (Inr u, s2)"
      then have "files_inv M W s2" using s' on_world_inv [OF s'] by (auto split: if_splits)
      then show "files_inv M W (snd (install l \<lparr>f_kind = k, f_ino = ino, f_flags = x, f_cloexec = y, f_off = 0\<rparr> 0 s2))"
        using k by (intro install_untracked [OF _ l]) auto
    qed
    show ?thesis unfolding p prod.case
    proof (rule and_then_inv)
      show "files_inv M W s2" if "on_world (x_inode ev ino) s = (Inl e, s2)" for e s2 by (rule on_world_inv [OF s that])
      fix b s2 assume w: "on_world (x_inode ev ino) s = (Inr b, s2)"
      have s2: "files_inv M W s2" by (rule on_world_inv [OF s w])
      obtain ik size where b: "b = (ik, size)" by (cases b)
      show "files_inv M W (snd ((case b of (ik, size) \<Rightarrow> \<lambda>st.
       let acc = fl AND O_ACCMODE; trunc = fl AND O_TRUNC in
       case ik of
         Symlink \<Rightarrow> (Inl ELOOP, st)
       | Socket \<Rightarrow> (Inl EINVAL, st)
       | Other_kind \<Rightarrow> (Inl EINVAL, st)
       | _ \<Rightarrow>
           let k = (if ik = Directory then Dir else File) in
           if k = Dir \<and> acc \<noteq> 0 then (Inl EISDIR, st)
           else if k \<noteq> Dir \<and> fl AND O_DIRECTORY \<noteq> 0 then (Inl ENOTDIR, st)
           else
             and_then
               (if k = File \<and> trunc \<noteq> 0 \<and> acc \<noteq> 0 \<and> \<not> created
                then on_world (x_truncate ev ino 0) st else (Inr (), st))
               (\<lambda>_ st. install l
                  \<lparr>f_kind = k, f_ino = ino, f_flags = fl AND (O_ACCMODE OR O_APPEND OR O_NONBLOCK),
                     f_cloexec = (fl AND O_CLOEXEC \<noteq> 0), f_off = 0\<rparr> 0 st)) s2))"
        unfolding b prod.case Let_def
        using s2 inst [of s2 Dir False, OF s2] inst [of s2 File, OF s2] by (cases ik) simp_all
    qed
  qed
qed

lemma open_path_inv:
  assumes inv: "files_inv M W st" and l: "l < LEADERS" and sh: "fst M \<Longrightarrow> shm_name path = None"
  shows "files_inv M W (snd (open_path ev l at path fl mode st))"
proof -
  have sp: "files_inv M W (snd (open_special ev l sp fl st))" if "special_of (x_pid ev (world st)) path = Some sp" for sp
    by (rule open_special_inv [OF inv l]) (use special_dev that in blast)
  have "files_inv M W (snd (open_shm ev l name fl st))" if "shm_name path = Some name" for name
    by (rule open_shm_inv [OF inv l]) (use sh that in auto)
  then show ?thesis
    unfolding open_path_def
    using sp reopen_inv [OF inv l] open_disk_inv [OF inv l] by (simp split: option.split)
qed

text \<open>The paths by which \<open>open\<close> gets to a name under \<open>/dev/shm\<close>.\<close>

definition opens_shm :: "'e env \<Rightarrow> u8 list \<Rightarrow> ('e, 'm) files_st_scheme \<Rightarrow> bool" where
  "opens_shm ev path st \<longleftrightarrow> shm_name path \<noteq> None \<or>
     (case special_link ev path st of Some exe \<Rightarrow> shm_name exe \<noteq> None | None \<Rightarrow> False)"

lemma open_file_at_inv:
  assumes inv: "files_inv M W st" and l: "l < LEADERS" and sh: "fst M \<Longrightarrow> \<not> opens_shm ev path st"
  shows "files_inv M W (snd (open_file_at ev l at path fl mode st))"
proof -
  have "files_inv M W (snd (open_path ev l at path fl mode st))"
    by (rule open_path_inv [OF inv l]) (use sh in \<open>simp add: opens_shm_def\<close>)
  moreover have "files_inv M W (snd (open_path ev l at' exe fl' mode st))" if "special_link ev path st = Some exe" for exe at' fl'
    by (rule open_path_inv [OF inv l]) (use sh that in \<open>simp add: opens_shm_def\<close>)
  ultimately show ?thesis unfolding open_file_at_def using inv by (simp split: option.split)
qed

section \<open>Attributes, sizes, the current directory\<close>

lemma get_fd_obj: "get_fd l fd st = Inr f \<Longrightarrow> obj_of (tabs st l ! (fd mod 4294967296)) = obj_of f"
  using get_fd_cases(2) [of l fd st f] by simp

lemma set_cloexec_inv: "files_inv M W st \<Longrightarrow> files_inv M W (snd (set_cloexec l fd b st))"
proof -
  assume inv: "files_inv M W st"
  have "quiet M st (snd (set_cloexec l fd b st))"
    unfolding set_cloexec_def using inv_ok [OF inv]
    by (auto simp: get_fd_obj split: sum.split intro!: calm)
  then show ?thesis by (rule quiet_inv [OF _ inv])
qed

lemma set_flags_inv: "files_inv M W st \<Longrightarrow> files_inv M W (snd (set_flags l fd fl st))"
proof -
  assume inv: "files_inv M W st"
  have "quiet M st (snd (set_flags l fd fl st))"
    unfolding set_flags_def using inv_ok [OF inv]
    by (auto simp: Let_def get_fd_obj split: sum.split intro!: calm)
  then show ?thesis by (rule quiet_inv [OF _ inv])
qed

lemma calm_shm_truncate: "quiet M st s \<Longrightarrow> quiet M st (snd (shm_truncate oid len s))"
  using truncate_step [of M st s oid len] by (auto simp: shm_truncate_def split: prod.split sum.split)

lemma ftruncate_inv: "files_inv M W st \<Longrightarrow> files_inv M W (snd (ftruncate ev l fd len st))"
proof -
  assume inv: "files_inv M W st"
  have "quiet M st (snd (ftruncate ev l fd len st))"
    unfolding ftruncate_def using inv_ok [OF inv] by (auto split: sum.split intro!: calm calm_shm_truncate)
  then show ?thesis by (rule quiet_inv [OF _ inv])
qed

lemma fallocate_inv: "files_inv M W st \<Longrightarrow> files_inv M W (snd (fallocate ev l fd mode off len st))"
proof -
  assume inv: "files_inv M W st"
  have "quiet M st (snd (fallocate ev l fd mode off len st))"
    unfolding fallocate_def using inv_ok [OF inv]
    by (auto split: sum.split option.split intro!: calm calm_shm_truncate)
  then show ?thesis by (rule quiet_inv [OF _ inv])
qed

lemma fionread_inv: "files_inv M W st \<Longrightarrow> files_inv M W (snd (fionread ev l fd st))"
proof -
  assume inv: "files_inv M W st"
  have "quiet M st (snd (fionread ev l fd st))"
    unfolding fionread_def Let_def using inv_ok [OF inv]
    by (auto simp: on_world_def split: sum.split kind.split option.split prod.split intro!: calm)
  then show ?thesis by (rule quiet_inv [OF _ inv])
qed

lemma fd_file_ino_inv: "files_inv M W st \<Longrightarrow> files_inv M W (snd (fd_file_ino ev l fd st))"
proof -
  assume inv: "files_inv M W st"
  have "quiet M st (snd (fd_file_ino ev l fd st))"
    unfolding fd_file_ino_def using inv_ok [OF inv] by (auto split: sum.split intro!: calm)
  then show ?thesis by (rule quiet_inv [OF _ inv])
qed

lemma chdir_inv: "files_inv M W st \<Longrightarrow> files_inv M W (snd (chdir ev l at path st))"
proof -
  assume inv: "files_inv M W st"
  have "quiet M st (snd (chdir ev l at path st))"
    unfolding chdir_def set_cwd_of_def using inv_ok [OF inv] by (auto intro!: calm)
  then show ?thesis by (rule quiet_inv [OF _ inv])
qed

section \<open>poll and epoll\<close>

lemma calm_ready: "quiet M st s \<Longrightarrow> quiet M st (snd (ready_locked ev l fd net s))"
  unfolding ready_locked_def Let_def
  by (auto simp: on_world_def split: sum.split kind.split prod.split option.split sock_state.split intro!: calm)

lemma quiet_poll_loop: "quiet M s0 st \<Longrightarrow> quiet M s0 (snd (poll_loop ev l its out n net msk st))"
proof (induction ev l its out n net msk st rule: poll_loop.induct)
  case (2 ev l fd want its out n net msk st)
  have r: "quiet M s0 (snd (ready_locked ev l fd net st))" by (rule calm_ready [OF 2(4)])
  obtain rv net' st' where e: "ready_locked ev l fd net st = ((rv, net'), st')" by (metis surj_pair)
  have st': "quiet M s0 st'" using r e by simp
  show ?case
    using 2(1) [OF _ 2(4)] 2(2) [OF _ e [symmetric] refl refl _ st'] 2(3) [OF _ e [symmetric] refl refl _ st']
    by (simp add: e Let_def)
qed simp

lemma poll_fds_inv: "files_inv M W st \<Longrightarrow> files_inv M W (snd (poll_fds ev l its st))"
proof -
  assume inv: "files_inv M W st"
  have "quiet M st (snd (poll_fds ev l its st))"
    using quiet_poll_loop [OF quiet_refl [OF inv_ok [OF inv]], of ev l its "[]" 0 False 0]
    by (simp add: poll_fds_def split_def)
  then show ?thesis by (rule quiet_inv [OF _ inv])
qed

lemma epoll_ctl_inv: "files_inv M W st \<Longrightarrow> files_inv M W (snd (epoll_ctl l ep op fd want data st))"
proof -
  assume inv: "files_inv M W st"
  have "quiet M st (snd (epoll_ctl l ep op fd want data st))"
    unfolding epoll_ctl_def Let_def using inv_ok [OF inv] by (auto split: sum.split option.split intro!: calm)
  then show ?thesis by (rule quiet_inv [OF _ inv])
qed

lemma calm_scan_item: "quiet M s0 st \<Longrightarrow> quiet M s0 (snd (scan_item ev l i k acc st))"
proof -
  assume q: "quiet M s0 st"
  obtain out net msk where a: "acc = (out, net, msk)" by (cases acc)
  let ?fd = "i_fd (ep_items (epolls st ! i) ! k)"
  obtain r net' st' where e: "ready_locked ev l ?fd net st = ((r, net'), st')" by (metis surj_pair)
  have "quiet M s0 st'" using calm_ready [OF q, of ev l ?fd net] e by simp
  then show ?thesis unfolding scan_item_def a Let_def put_item_def using q by (auto simp: e intro!: calm)
qed

lemma quiet_scan_loop: "quiet M s0 st \<Longrightarrow> quiet M s0 (snd (scan_loop ev l i room ks acc st))"
proof (induction ev l i room ks acc st rule: scan_loop.induct)
  case (2 ev l i room k ks acc st)
  obtain acc' st' where e: "scan_item ev l i k acc st = (acc', st')" by (metis surj_pair)
  have st': "quiet M s0 st'" using calm_scan_item [OF 2(2), of ev l i k acc] e by simp
  show ?case using 2(1) [OF _ e [symmetric] st'] 2(2) by (simp add: e)
qed simp

lemma epoll_scan_inv: "files_inv M W st \<Longrightarrow> files_inv M W (snd (epoll_scan ev l ep room st))"
proof -
  assume inv: "files_inv M W st"
  have q: "quiet M st (snd (scan_loop ev l i room ks acc st))" for i ks acc
    by (rule quiet_scan_loop [OF quiet_refl [OF inv_ok [OF inv]]])
  have "quiet M st (snd (epoll_scan ev l ep room st))"
    unfolding epoll_scan_def Let_def using q quiet_refl [OF inv_ok [OF inv]] by (simp add: split_def split: sum.split)
  then show ?thesis by (rule quiet_inv [OF _ inv])
qed

end
