(* ===== verification/Files_Props.thy ===== *)
theory Files_Props
  imports Files_Calls
begin

text \<open>
  The descriptor layer as a state machine and its properties: \<open>do_call\<close> is one system call of a process
  leader, \<open>files_reach\<close> the states reached from boot by any calls of any processes, with the world outside
  (disk, network, console) moving between calls, and shared objects mapped, unmapped and unlinked.
\<close>

section \<open>The calls\<close>

datatype file_call =
    Close nat | Dup nat nat bool | Pipe u32 | Eventfd nat u32 | Epoll_create u32 | Memfd bool
  | Open nat "u8 list" u32 nat | Make_socket nat nat | Socketpair nat nat | Accept nat u32
  | Bind nat sock_addr | Connect nat sock_addr | Listen_on nat | Shutdown nat nat
  | Sendto nat "u8 list" "addr option" | Recvfrom nat nat bool | Sendmsg nat "u8 list" "nat list" bool
  | Recvmsg nat nat bool bool nat | Sock_error nat | Read_fd nat nat "nat option" | Write_fd nat "u8 list" "nat option"
  | Lseek nat int nat | Set_cloexec nat bool | Set_flags nat u32 | Ftruncate nat nat | Fallocate nat nat nat nat
  | Fionread nat | Chdir nat "u8 list" | Poll "(int \<times> u32) list" | Epoll_ctl nat nat int u32 u64 | Epoll_wait nat nat
  | Fork nat | Exec | Exit

fun do_call :: "'e env \<Rightarrow> nat \<Rightarrow> nat \<Rightarrow> file_call \<Rightarrow> ('e, 'm) files_st_scheme \<Rightarrow> ('e, 'm) files_st_scheme" where
  "do_call ev cpu l (Close fd) st = snd (close ev l fd st)"
| "do_call ev cpu l (Dup fd new cl) st = snd (dup_ex ev l fd new cl st)"
| "do_call ev cpu l (Pipe fl) st = snd (pipe_fds ev l fl st)"
| "do_call ev cpu l (Eventfd v fl) st = snd (eventfd ev l v fl st)"
| "do_call ev cpu l (Epoll_create fl) st = snd (epoll_create ev l fl st)"
| "do_call ev cpu l (Memfd cl) st = snd (memfd ev l cl st)"
| "do_call ev cpu l (Open at path fl mode) st = snd (open_file_at ev l at path fl mode st)"
| "do_call ev cpu l (Make_socket d t) st = snd (socket ev l d t st)"
| "do_call ev cpu l (Socketpair d t) st = snd (socketpair ev l d t st)"
| "do_call ev cpu l (Accept fd fl) st = snd (accept ev cpu l fd fl st)"
| "do_call ev cpu l (Bind fd a) st = snd (bind ev l fd a st)"
| "do_call ev cpu l (Connect fd a) st = snd (connect ev cpu l fd a st)"
| "do_call ev cpu l (Listen_on fd) st = snd (listen ev l fd st)"
| "do_call ev cpu l (Shutdown fd how) st = snd (shutdown l fd how st)"
| "do_call ev cpu l (Sendto fd bs a) st = snd (sendto ev cpu l fd bs a st)"
| "do_call ev cpu l (Recvfrom fd len nb) st = snd (recvfrom ev cpu l fd len nb st)"
| "do_call ev cpu l (Sendmsg fd bs ds nb) st = snd (unix_send ev cpu l fd bs ds nb st)"
| "do_call ev cpu l (Recvmsg fd len nb cl room) st = snd (unix_recv ev cpu l fd len nb cl room st)"
| "do_call ev cpu l (Sock_error fd) st = snd (sock_error ev l fd st)"
| "do_call ev cpu l (Read_fd fd len at) st = snd (read_fd ev cpu l fd len at st)"
| "do_call ev cpu l (Write_fd fd bs at) st = snd (write_fd ev cpu l fd bs at st)"
| "do_call ev cpu l (Lseek fd off wh) st = snd (lseek ev l fd off wh st)"
| "do_call ev cpu l (Set_cloexec fd b) st = snd (set_cloexec l fd b st)"
| "do_call ev cpu l (Set_flags fd fl) st = snd (set_flags l fd fl st)"
| "do_call ev cpu l (Ftruncate fd len) st = snd (ftruncate ev l fd len st)"
| "do_call ev cpu l (Fallocate fd mode off len) st = snd (fallocate ev l fd mode off len st)"
| "do_call ev cpu l (Fionread fd) st = snd (fionread ev l fd st)"
| "do_call ev cpu l (Chdir at path) st = snd (chdir ev l at path st)"
| "do_call ev cpu l (Poll its) st = snd (poll_fds ev l its st)"
| "do_call ev cpu l (Epoll_ctl ep op fd want data) st = snd (epoll_ctl l ep op fd want data st)"
| "do_call ev cpu l (Epoll_wait ep room) st = snd (epoll_scan ev l ep room st)"
| "do_call ev cpu l (Fork dst) st = clone_table l dst st"
| "do_call ev cpu l Exec st = exec_cleanup ev l st"
| "do_call ev cpu l Exit st = release_files ev l st"

text \<open>A child of \<open>fork\<close> gets a slot whose table \<open>release\<close> or the boot left.\<close>

definition call_ok :: "file_call \<Rightarrow> ('e, 'm) files_st_scheme \<Rightarrow> bool" where
  "call_ok c st \<longleftrightarrow> (case c of Fork dst \<Rightarrow> dst < LEADERS \<and> fresh_table dst st | _ \<Rightarrow> True)"

text \<open>The one call whose descriptor is not counted: \<open>open\<close> of a name under \<open>/dev/shm\<close> (C34).\<close>

definition call_opens_shm :: "'e env \<Rightarrow> file_call \<Rightarrow> ('e, 'm) files_st_scheme \<Rightarrow> bool" where
  "call_opens_shm ev c st \<longleftrightarrow> (case c of Open at path fl mode \<Rightarrow> opens_shm ev path st | _ \<Rightarrow> False)"

lemmas call_invs = close_inv dup_ex_inv pipe_fds_inv eventfd_inv epoll_create_inv memfd_inv open_file_at_inv socket_inv
  socketpair_inv accept_call_inv bind_inv connect_inv listen_inv shutdown_inv sendto_inv recvfrom_inv unix_send_inv
  unix_recv_inv sock_error_inv read_fd_inv write_fd_inv lseek_inv set_cloexec_inv set_flags_inv ftruncate_inv
  fallocate_inv fionread_inv chdir_inv poll_fds_inv epoll_ctl_inv epoll_scan_inv clone_table_inv exec_cleanup_inv
  release_files_inv

lemma do_call_inv:
  assumes "files_inv M W st" "l < LEADERS" "call_ok c st" "fst M \<Longrightarrow> \<not> call_opens_shm ev c st"
  shows "files_inv M W (do_call ev cpu l c st)"
  using assms by (cases c) (simp_all add: call_invs call_ok_def call_opens_shm_def)

section \<open>Reachable states\<close>

definition files_boot :: "frames \<Rightarrow> mem \<Rightarrow> 'e \<Rightarrow> 'e files_st" where
  "files_boot fa m w = \<lparr>kfa = fa, kmem = m, iseq = replicate 64 0, pend = [], pany = False,
     block_on = (\<lambda>_. (0, 0, 0)), pipes = replicate MAX_PIPES pipe_empty, conns = replicate MAX_CONNS cempty,
     listeners = replicate MAX_LISTEN lempty, tabs = (\<lambda>_. DEFAULT_TABLE), cwds = (\<lambda>_. ROOT_INO),
     orphans = replicate 32 0, mems = replicate 128 mem_none,
     events = replicate 256 \<lparr>e_used = False, e_refs = 0, e_count = 0, e_sem = False\<rparr>,
     epolls = replicate 128 epoll_none, socks = replicate 128 sock_none, usocks = replicate 128 usock_none,
     shobjs = replicate MAX_OBJS shm_empty, world = w\<rparr>"

text \<open>The flag says that no name under \<open>/dev/shm\<close> has been opened.\<close>

inductive files_reach :: "'e env \<Rightarrow> frames \<Rightarrow> mem \<Rightarrow> 'e \<Rightarrow> bool \<Rightarrow> 'e files_st \<Rightarrow> bool" for ev fa m w where
  boot: "files_reach ev fa m w True (files_boot fa m w)"
| call: "files_reach ev fa m w b st \<Longrightarrow> l < LEADERS \<Longrightarrow> call_ok c st \<Longrightarrow>
    files_reach ev fa m w (b \<and> \<not> call_opens_shm ev c st) (do_call ev cpu l c st)"
| outside: "files_reach ev fa m w b st \<Longrightarrow> files_reach ev fa m w b (st\<lparr>world := w'\<rparr>)"
| wake: "files_reach ev fa m w b st \<Longrightarrow> files_reach ev fa m w b (snd (take_wakes st))"
| maps: "files_reach ev fa m w b st \<Longrightarrow> files_reach ev fa m w b (set_shm (map_ref oid d (the_shm st)) st)"
| unlinks: "files_reach ev fa m w b st \<Longrightarrow> files_reach ev fa m w b (set_shm (snd (unlink name (the_shm st))) st)"

lemma reach_call:
  "files_reach ev fa m w True st \<Longrightarrow> l < LEADERS \<Longrightarrow> call_ok c st \<Longrightarrow> \<not> call_opens_shm ev c st \<Longrightarrow>
    files_reach ev fa m w True (do_call ev cpu l c st)"
  using files_reach.call [of ev fa m w True st l c cpu] by simp

lemma sum_list_none: "sum_list (map f xs) = {#}" if "\<And>x. x \<in> set xs \<Longrightarrow> f x = {#}"
  using that by (induction xs) auto

lemma files_boot_inv:
  assumes "frames_inv fa"
  shows "files_inv (sh, {#}) {#} (files_boot fa m w)"
proof -
  let ?st = "files_boot fa m w"
  have "all_spans (sh, {#}) ?st = {#}"
    by (simp add: all_spans_def files_boot_def table_spans_replicate mem_spans_def mem_none_def obj_spans_def
        obj_frames_def shm_empty_def)
  moreover have "unix_inv {#} ?st"
    using assms by (simp add: unix_inv_def pipes_inv_def files_boot_def waits_wf_def table_spans_replicate
        spans_ok_none list_all_iff)
  moreover have "objects_ok ?st"
    by (auto simp: objects_ok_def files_boot_def list_all_iff mem_ok_def mem_none_def epoll_none_def sock_none_def
        usock_none_def DEFAULT_TABLE_refs obj_shape_def)
  ultimately have ok: "files_ok (sh, {#}) ?st" by (simp add: files_ok_def)
  have "count (held ?st) q = refcount_of ?st q" if t: "tracked sh (fst q)" for q
  proof -
    have "q \<notin># held ?st"
    proof
      assume "q \<in># held ?st"
      then have "\<exists>f \<in> set DEFAULT_TABLE. obj_of f = q"
        by (auto simp: in_held files_boot_def LEADERS_def)
      then show False using DEFAULT_TABLE_refs(2) t by auto
    qed
    then have "count (held ?st) q = 0" by (simp add: count_eq_zero_iff)
    moreover have "refcount_of ?st q = 0"
      by (cases q; cases "fst q")
        (simp_all add: refcount_of_def nth0_def files_boot_def pipe_empty_def mem_none_def epoll_none_def sock_none_def
          usock_none_def lempty_def cempty_def nth_Cons' shm_fds_def shm_empty_def)
    ultimately show ?thesis by simp
  qed
  then have "counted sh {#} ?st" by (simp add: counted_def del: split_paired_All)
  then show ?thesis using ok by (simp add: files_inv_def)
qed

lemma files_inv_weaken: "files_inv (b, X) W st \<Longrightarrow> (b' \<Longrightarrow> b) \<Longrightarrow> files_inv (b', X) W st"
  by (cases b') (auto simp: files_inv_def files_ok_def all_spans_def counted_weaken)

lemma files_reach_inv:
  assumes "files_reach ev fa m w b st" "frames_inv fa"
  shows "files_inv (b, {#}) {#} st"
  using assms
proof (induction rule: files_reach.induct)
  case (call b st l c cpu)
  have "files_inv (b \<and> \<not> call_opens_shm ev c st, {#}) {#} st" by (rule files_inv_weaken [of b]) (use call in auto)
  then show ?case by (rule do_call_inv) (use call in auto)
next
  case (wake b st)
  have inv: "files_inv (b, {#}) {#} st" using wake by simp
  have "waits_wf (snd (take_wakes st))" by (rule take_wakes_wf [OF files_okD(4) [OF inv_ok [OF inv]]])
  then have "quiet (b, {#}) st (snd (take_wakes st))"
    by (intro quiet_same [OF inv_ok [OF inv]]) (simp_all add: take_wakes_def)
  from quiet_inv [OF this inv] show ?case .
next
  case (maps b st oid d)
  then have inv: "files_inv (b, {#}) {#} st" by simp
  show ?case by (rule shm_step [OF inv map_ref_moved [OF the_shm_inv [OF inv]]]) (simp add: map_ref_fds)
next
  case (unlinks b st name)
  then have inv: "files_inv (b, {#}) {#} st" by simp
  show ?case by (rule shm_step [OF inv unlink_moved [OF the_shm_inv [OF inv]]]) (simp add: unlink_fds)
qed (simp_all add: files_boot_inv world_inv)

section \<open>Descriptors name live objects\<close>





definition plain_env :: "unit env" where
  "plain_env = \<lparr>x_mapped = (\<lambda>_ _. False), x_release = (\<lambda>_ w. w), x_dirty = (\<lambda>_. 0), x_sync = (\<lambda>w. w), x_is_ext2 = (\<lambda>_. True),
     x_create = (\<lambda>_ _ _ _ w. (Inl ENOSPC, w)), x_mknod = (\<lambda>_ _ _ w. (Inl ENOSPC, w)), x_resolve = (\<lambda>_ _ _ w. (Inl ENOENT, w)),
     x_inode = (\<lambda>_ w. (Inr (Regular, 0), w)), x_read = (\<lambda>_ _ _ w. (Inr [], w)), x_write = (\<lambda>_ _ bs w. (Inr (length bs), w)),
     x_truncate = (\<lambda>_ _ w. (Inr (), w)), x_legacy = (\<lambda>w. w), x_console = (\<lambda>_ w. w), x_random = (\<lambda>n w. (replicate n 0, w)),
     x_pid = (\<lambda>_. 1), x_exe = (\<lambda>_. []), x_proc_text = (\<lambda>_ _ _. []), x_port = (\<lambda>w. (49152, w)),
     x_tcp_connect = (\<lambda>_ _ w. (None, w)), x_tcp_status = (\<lambda>_ w. (0, w)), x_tcp_close = (\<lambda>_ w. w),
     x_tcp_send = (\<lambda>_ _ w. (0, w)), x_tcp_recv = (\<lambda>_ _ w. ((- 2, []), w)), x_tcp_ready = (\<lambda>_ w. ((False, False, False), w)),
     x_tcp_avail = (\<lambda>_ w. (0, w)), x_tcp_lport = (\<lambda>_ _. 0), x_udp_send = (\<lambda>_ _ _ _ w. (True, w)),
     x_udp_recv = (\<lambda>_ _ w. (None, w)), x_udp_pending = (\<lambda>_ w. (False, w)), x_udp_next = (\<lambda>_ w. (0, w))\<rparr>"

lemma default_free: "List.find (\<lambda>i. f_kind (DEFAULT_TABLE ! i) = Free) [0..<MAX_FDS] = Some 3"
  unfolding find_Some_iff
proof (intro exI conjI)
  have n: "3 < MAX_FDS" by (simp add: MAX_FDS_def)
  show "3 < length [0..<MAX_FDS]" "3 = [0..<MAX_FDS] ! 3" using n by simp_all
  have three: "\<forall>j < 3. DEFAULT_TABLE ! j = CONSOLE_FILE" "DEFAULT_TABLE ! 3 = FREE_FILE"
    using n by (auto simp: DEFAULT_TABLE_def nth_append)
  show "f_kind (DEFAULT_TABLE ! ([0..<MAX_FDS] ! 3)) = Free" using n three(2) by (simp add: FREE_FILE_def)
  show "\<forall>j<3. f_kind (DEFAULT_TABLE ! ([0..<MAX_FDS] ! j)) \<noteq> Free" using n three(1) by (simp add: CONSOLE_FILE_def)
qed

abbreviation boot1 :: "unit files_st" where
  "boot1 \<equiv> files_boot room_frames (\<lambda>_. 0) ()"



section \<open>A descriptor of a named shared-memory object holds no reference\<close>

lemma obj_after_put: "obj_at st oid = Some ob \<Longrightarrow> so_used x \<Longrightarrow> obj_at (put_obj oid x st) oid = Some x"
  by (auto simp: obj_at_def put_obj_def split: if_splits)

lemma create_at:
  assumes "create (Some n) s = Some (oid, s')" "length n \<le> NAME_MAX"
  shows "obj_at s' oid = Some (shm_empty\<lparr>so_used := True, so_fd := 1, so_named := True, so_name := n\<rparr>)"
    "position (named n) (objs s) = None \<Longrightarrow> position (named n) (objs s') = Some (oid - 1)" "0 < oid"
proof -
  let ?ob = "shm_empty\<lparr>so_used := True, so_fd := 1, so_named := True, so_name := n\<rparr>"
  obtain i where i: "position (\<lambda>ob. \<not> so_used ob) (objs s) = Some i" "oid = i + 1" "s' = put_obj (i + 1) ?ob s"
    using assms by (auto simp: create_def Let_def split: option.splits)
  have l: "i < length (objs s)" using position_Some [OF i(1)] by simp
  show "obj_at s' oid = Some ?ob" "0 < oid" using i l by (simp_all add: obj_at_def put_obj_def)
  assume none: "position (named n) (objs s) = None"
  then have no: "j < length (objs s) \<Longrightarrow> \<not> named n (objs s ! j)" for j by (auto simp: position_None)
  show "position (named n) (objs s') = Some (oid - 1)"
    unfolding position_Some_iff using i l no by (auto simp: put_obj_def named_def nth_list_update)
qed

text \<open>C34. Opening a new name under \<open>/dev/shm\<close> (\<open>O_CREAT\<close>) succeeds, but the reference \<open>create\<close> took is given
  back after the descriptor is installed: the object's descriptor count is 0 while the descriptor names it. Only
  its name keeps it. \<open>unlink\<close> of the name then frees the object at once, and the open descriptor names a free
  slot, which the next object made takes over.\<close>

theorem open_shm_dangling:
  assumes "length name \<le> NAME_MAX" and "open_named name (the_shm st) = None"
    and "create (Some name) (the_shm st) = Some (oid, s)"
    and "List.find (\<lambda>i. f_kind (tabs st l ! i) = Free) [0..<MAX_FDS] = Some fd" and "fd < length (tabs st l)"
    and "flags AND O_CREAT \<noteq> 0" and "flags AND O_TRUNC = 0"
  shows "\<exists>st'. open_shm ev l name flags st = (Inr fd, st') \<and> obj_of (tabs st' l ! fd) = (Shm, oid) \<and>
    (\<exists>ob. obj_at (the_shm st') oid = Some ob \<and> so_fd ob = 0) \<and>
    (case unlink name (the_shm st') of (found, s') \<Rightarrow> found \<and> obj_at s' oid = None \<and>
       (\<exists>oid' s''. create None s' = Some (oid', s'')))"
proof -
  note c = create_at [OF assms(3,1)]
  let ?ob = "shm_empty\<lparr>so_used := True, so_fd := 1, so_named := True, so_name := name\<rparr>"
  let ?f = "\<lparr>f_kind = Shm, f_ino = oid, f_flags = flags AND (O_ACCMODE OR O_NONBLOCK),
          f_cloexec = (flags AND O_CLOEXEC \<noteq> 0), f_off = 0\<rparr>"
  let ?st1 = "put_fd l fd ?f (set_shm s st)"
  have none: "position (named name) (objs (the_shm st)) = None" using assms(2) by (simp add: open_named_def)
  have shm1: "the_shm ?st1 = s" by (cases s) (simp add: the_shm_def set_shm_def put_fd_def)
  let ?s2 = "put_obj oid (?ob\<lparr>so_fd := 0\<rparr>) s"
  have ob2: "obj_at ?s2 oid = Some (?ob\<lparr>so_fd := 0\<rparr>)" by (rule obj_after_put [OF c(1)]) simp
  have drop: "fd_ref oid (- 1) s = ?s2"
    using c(1) ob2 by (simp add: fd_ref_def Let_def maybe_free_def add_refs_def)
  let ?st' = "set_shm ?s2 ?st1"
  have o: "open_shm ev l name flags st = (Inr fd, ?st')"
    using assms(2-7) by (simp add: open_shm_def and_then_def install_shm_def install_or_drop_def install_def shm1 drop)
  have e: "obj_of (tabs ?st' l ! fd) = (Shm, oid)" using assms(5) by (simp add: obj_of_def)
  have shm2: "the_shm ?st' = ?s2" by (simp add: the_shm_def set_shm_def)
  have i: "oid - 1 < length (objs s)" "objs s ! (oid - 1) = ?ob"
    using c(1,3) by (auto simp: obj_at_Some)
  have at: "position (named name) (objs ?s2) = Some (oid - 1)"
    using c(2) [OF none] i unfolding position_Some_iff
    by (auto simp: put_obj_def named_def nth_list_update)
  let ?s3 = "put_obj oid (?ob\<lparr>so_fd := 0, so_named := False\<rparr>) ?s2"
  have unl: "unlink name ?s2 = (True, maybe_free oid ?s3)"
    using at i c(3) by (simp add: unlink_def put_obj_def)
  have ob3: "obj_at ?s3 oid = Some (?ob\<lparr>so_fd := 0, so_named := False\<rparr>)" by (rule obj_after_put [OF ob2]) simp
  let ?s4 = "maybe_free oid ?s3"
  have free: "objs ?s4 = (objs s)[oid - 1 := shm_empty]"
    unfolding maybe_free_def ob3 by (simp add: Let_def put_obj_def shm_empty_def)
  have gone: "obj_at ?s4 oid = None" unfolding obj_at_def free using i(1) by (simp add: shm_empty_def)
  have "position (\<lambda>ob. \<not> so_used ob) (objs ?s4) \<noteq> None"
  proof -
    have "\<not> so_used shm_empty" by (simp add: shm_empty_def)
    then show ?thesis unfolding position_None free using set_update_memI [OF i(1), of shm_empty] by blast
  qed
  then have new: "\<exists>oid' s''. create None ?s4 = Some (oid', s'')" by (auto simp: create_def Let_def)
  show ?thesis
  proof (intro exI conjI)
    show "open_shm ev l name flags st = (Inr fd, ?st')" by (rule o)
    show "obj_of (tabs ?st' l ! fd) = (Shm, oid)" by (rule e)
    show "obj_at (the_shm ?st') oid = Some (?ob\<lparr>so_fd := 0\<rparr>)" unfolding shm2 by (rule ob2)
    show "so_fd (?ob\<lparr>so_fd := 0\<rparr>) = 0" by simp
    show "case unlink name (the_shm ?st') of (found, s') \<Rightarrow> found \<and> obj_at s' oid = None \<and>
       (\<exists>oid' s''. create None s' = Some (oid', s''))"
      unfolding shm2 unl prod.case by (intro conjI TrueI gone new)
  qed
qed

lemma three_fds: "3 < MAX_FDS"
  by (simp add: MAX_FDS_def)

theorem open_shm_dangling_witness:
  "\<exists>oid st'. open_shm plain_env 0 [120] (O_CREAT OR O_RDWR) boot1 = (Inr 3, st') \<and> obj_of (tabs st' 0 ! 3) = (Shm, oid) \<and>
    (\<exists>ob. obj_at (the_shm st') oid = Some ob \<and> so_fd ob = 0) \<and>
    (case unlink [120] (the_shm st') of (found, s') \<Rightarrow> found \<and> obj_at s' oid = None \<and>
       (\<exists>oid' s''. create None s' = Some (oid', s'')))"
proof -
  have "position (named [120]) (objs (the_shm boot1)) = None"
    by (auto simp: position_None the_shm_def files_boot_def named_def shm_empty_def)
  then have a: "open_named [120] (the_shm boot1) = None" by (simp add: open_named_def)
  have "position (\<lambda>ob. \<not> so_used ob) (objs (the_shm boot1)) = Some 0"
    unfolding position_Some_iff by (simp add: the_shm_def files_boot_def shm_empty_def MAX_OBJS_def)
  then obtain s where b: "create (Some [120]) (the_shm boot1) = Some (1, s)" by (simp add: create_def Let_def)
  have t: "tabs boot1 0 = DEFAULT_TABLE" by (simp add: files_boot_def)
  have "\<exists>st'. open_shm plain_env 0 [120] (O_CREAT OR O_RDWR) boot1 = (Inr 3, st') \<and> obj_of (tabs st' 0 ! 3) = (Shm, 1) \<and>
    (\<exists>ob. obj_at (the_shm st') 1 = Some ob \<and> so_fd ob = 0) \<and>
    (case unlink [120] (the_shm st') of (found, s') \<Rightarrow> found \<and> obj_at s' 1 = None \<and>
       (\<exists>oid' s''. create None s' = Some (oid', s'')))"
    by (rule open_shm_dangling [OF _ a b])
      (simp_all add: t default_free DEFAULT_TABLE_refs three_fds NAME_MAX_def O_CREAT_def O_RDWR_def O_TRUNC_def)
  then show ?thesis by (rule exI)
qed

text \<open>A name longer than \<open>NAME_MAX\<close> is stored cut off and compared whole: it is never found again.\<close>

lemma long_name_lost:
  assumes "NAME_MAX < length n" "create (Some n) s = Some (oid, s')" "open_named n s = None"
  shows "open_named n s' = None"
proof -
  obtain i ob where i: "i < length (objs s)" "s' = put_obj (i + 1) ob s" "so_name ob = take NAME_MAX n"
    using assms(2) by (auto simp: create_def Let_def split: option.splits dest!: position_Some)
  have "length (so_name ob) \<noteq> length n" using assms(1) i(3) by simp
  then have "so_name ob \<noteq> n" by blast
  then have "\<not> named n ob" by (simp add: named_def)
  then show ?thesis
    using assms(3) i(1,2) unfolding open_named_def by (auto simp: position_None put_obj_def dest!: set_update_subset_insert [THEN subsetD])
qed

section \<open>The table of a new program\<close>

lemma tabs_drop_one: "tabs (snd (drop_one ev f st)) = tabs st"
  by (auto simp: drop_one_def Let_def pipe_drop_ref_def unix_drop_ref_def listener_ref_def split: kind.split prod.split)

lemma tabs_drop_refs [simp]: "tabs (drop_refs ev fs st) = tabs st"
proof (induction ev fs st rule: drop_refs.induct)
  case (2 ev f fs st)
  obtain rest s where d: "drop_one ev f st = (rest, s)" by (cases "drop_one ev f st")
  have "tabs s = tabs st" using tabs_drop_one [of ev f st] d by simp
  then show ?case using 2 [OF d [symmetric]] d by simp
qed simp

definition swept :: "open_file \<Rightarrow> open_file" where
  "swept f = (if f_kind f \<noteq> Free \<and> f_cloexec f then FREE_FILE else f)"

lemma swept_twice [simp]: "swept (swept f) = swept f"
  by (simp add: swept_def FREE_FILE_def)

lemma close_on_exec_tabs: "tabs (close_on_exec ev l i st) = (tabs st)(l := (tabs st l)[i := swept (tabs st l ! i)])"
  by (simp add: close_on_exec_def Let_def swept_def del: drop_refs.simps)

lemma exec_sweeps:
  "\<forall>i \<in> set is. i < length (tabs st l) \<Longrightarrow>
   length (tabs (fold (close_on_exec ev l) is st) l) = length (tabs st l) \<and>
   (\<forall>j < length (tabs st l). tabs (fold (close_on_exec ev l) is st) l ! j =
     (if j \<in> set is then swept (tabs st l ! j) else tabs st l ! j)) \<and>
   (\<forall>k. k \<noteq> l \<longrightarrow> tabs (fold (close_on_exec ev l) is st) k = tabs st k)"
proof (induction "is" arbitrary: st)
  case (Cons i "is")
  note t = close_on_exec_tabs [of ev l i st]
  have "\<forall>k \<in> set is. k < length (tabs (close_on_exec ev l i st) l)" using Cons(2) by (simp add: t)
  from Cons(1) [OF this] show ?case using Cons(2) by (auto simp: t nth_list_update)
qed simp

text \<open>C35. Across \<open>fork\<close> and \<open>execve\<close>: the new program's table is the parent's, entry by entry, with exactly the
  close-on-exec descriptors closed, and no other table changes. Every count stays exact: the objects of the new
  table, of all others and in flight have as many references as there are descriptions, shared-memory objects
  included as long as no name under \<open>/dev/shm\<close> has been opened (\<open>clean\<close>, as in C33).\<close>

theorem fork_exec_table:
  assumes "frames_inv fa" and "files_reach ev fa m w clean st" and "src < LEADERS" and "dst < LEADERS"
    and "fresh_table dst st" and "src \<noteq> dst"
  shows "tabs (do_call ev cpu dst Exec (do_call ev cpu src (Fork dst) st)) =
      (tabs st)(dst := map (\<lambda>f. if f_kind f \<noteq> Free \<and> f_cloexec f then FREE_FILE else f) (tabs st src)) \<and>
    (\<forall>q. tracked clean (fst q) \<longrightarrow>
      refcount_of (do_call ev cpu dst Exec (do_call ev cpu src (Fork dst) st)) q =
      count (held (do_call ev cpu dst Exec (do_call ev cpu src (Fork dst) st))) q)"
proof -
  let ?s1 = "do_call ev cpu src (Fork dst) st" and ?t = "tabs st src"
  let ?s2 = "do_call ev cpu dst Exec ?s1"
  have inv: "files_inv (clean, {#}) {#} st" by (rule files_reach_inv [OF assms(2,1)])
  have inv1: "files_inv (clean, {#}) {#} ?s1" by (rule do_call_inv [OF inv assms(3)]) (simp_all add: call_ok_def call_opens_shm_def assms)
  have inv2: "files_inv (clean, {#}) {#} ?s2" by (rule do_call_inv [OF inv1 assms(4)]) (simp_all add: call_ok_def call_opens_shm_def)
  have "tabs (fold add_ref ?t st) = tabs st"
    using add_refs_inv [OF inv, of ?t] table_live [OF inv assms(3)] by simp
  then have t1: "tabs (clone_table src dst st) = (tabs st)(dst := ?t)" by (simp add: clone_table_def Let_def)
  have len: "length ?t = MAX_FDS" by (rule files_okD(10) [OF inv_ok [OF inv] assms(3)])
  have s2: "?s2 = fold (close_on_exec ev dst) [0..<MAX_FDS] (clone_table src dst st)" by (simp add: exec_cleanup_def)
  have "\<forall>k \<in> set [0..<MAX_FDS]. k < length (tabs (clone_table src dst st) dst)" by (simp add: t1 len)
  note e = exec_sweeps [OF this, of ev, unfolded t1]
  have sw: "length (tabs ?s2 dst) = MAX_FDS" "\<And>j. j < MAX_FDS \<Longrightarrow> tabs ?s2 dst ! j = swept (?t ! j)"
    "\<And>k. k \<noteq> dst \<Longrightarrow> tabs ?s2 k = tabs st k"
    unfolding s2 using e len by simp_all
  have "tabs ?s2 dst = map swept ?t" by (rule nth_equalityI) (simp_all add: sw(1,2) len del: do_call.simps)
  then have "tabs ?s2 = (tabs st)(dst := map swept ?t)" using sw(3) by (auto simp: fun_eq_iff)
  moreover have "swept = (\<lambda>f. if f_kind f \<noteq> Free \<and> f_cloexec f then FREE_FILE else f)" by (simp add: fun_eq_iff swept_def)
  moreover have "refcount_of ?s2 q = count (held ?s2) q" if "tracked clean (fst q)" for q
    using countedD [of clean "{#}" ?s2 q] inv2 that by (simp add: files_inv_def)
  ultimately show ?thesis by (simp del: split_paired_All)
qed

theorem fork_exec_table_witness:
  "tabs (do_call plain_env 0 1 Exec (do_call plain_env 0 0 (Fork 1) (do_call plain_env 0 0 (Eventfd 5 O_CLOEXEC) boot1))) 1 ! 3 = FREE_FILE \<and>
   f_kind (tabs (do_call plain_env 0 0 (Eventfd 5 O_CLOEXEC) boot1) 0 ! 3) = Event"
proof -
  let ?st = "do_call plain_env 0 0 (Eventfd 5 O_CLOEXEC) boot1"
  have r: "files_reach plain_env room_frames (\<lambda>_. 0) () True ?st"
    by (intro reach_call files_reach.boot) (simp_all add: call_ok_def call_opens_shm_def LEADERS_def)
  have "position (\<lambda>e. \<not> e_used e) (events boot1) = Some 0" unfolding position_Some_iff by (simp add: files_boot_def)
  then have t: "tabs ?st = (\<lambda>_. DEFAULT_TABLE)(0 := DEFAULT_TABLE[3 := \<lparr>f_kind = Event, f_ino = 0, f_flags = O_RDWR OR (O_CLOEXEC AND O_NONBLOCK),
      f_cloexec = True, f_off = 0\<rparr>])"
    by (simp add: eventfd_def install_or_drop_def install_def default_free files_boot_def fun_eq_iff O_CLOEXEC_def)
  have f: "fresh_table 1 ?st"
    unfolding fresh_table_def t by (auto simp: DEFAULT_TABLE_def list_all_iff CONSOLE_FILE_def FREE_FILE_def)
  have len: "3 < length DEFAULT_TABLE" by (simp add: DEFAULT_TABLE_refs three_fds)
  from fork_exec_table [OF room_inv(1) r, of 0 1 0] f
  have "tabs (do_call plain_env 0 1 Exec (do_call plain_env 0 0 (Fork 1) ?st)) =
      (tabs ?st)(1 := map (\<lambda>f. if f_kind f \<noteq> Free \<and> f_cloexec f then FREE_FILE else f) (tabs ?st 0))"
    by (simp add: LEADERS_def del: do_call.simps)
  then have "tabs (do_call plain_env 0 1 Exec (do_call plain_env 0 0 (Fork 1) ?st)) 1 ! 3 = FREE_FILE"
    using len by (simp add: t del: do_call.simps)
  then show ?thesis using len by (simp add: t del: do_call.simps)
qed

end
