(* ===== verification/Signals.thy ===== *)
theory Signals
  imports Procs
begin

text \<open>
  Signal delivery and return (\<open>kernel/src/signal.rs\<close>, the riscv64 variant of the frame): the plan of
  \<open>deliver\<close>, the frame on the user stack, \<open>rt_sigreturn\<close>, faults turned into signals, and the signal system
  calls.

  The kernel reads and writes the frame through the address space of the running process. \<open>uv_translate\<close> is
  \<open>arch::mmu::translate_user\<close> byte by byte and \<open>uv_fault\<close> is \<open>vm::fault\<close>; both are fields of a record, as the
  services of the scheduler are. Each operation first makes its range accessible (\<open>user_ok\<close>) and then uses the
  translation of the state \<open>user_ok\<close> left. The console line of a fatal signal is not modelled.
\<close>

section \<open>User memory\<close>

record 'a user_vm =
  uv_translate :: "'a waits_scheme \<Rightarrow> nat \<Rightarrow> nat \<Rightarrow> bool \<Rightarrow> nat option"
  uv_fault :: "nat \<Rightarrow> nat \<Rightarrow> bool \<Rightarrow> 'a waits_scheme \<Rightarrow> bool \<times> 'a waits_scheme"

text \<open>The page loop of \<open>user_ok\<close>: a page that does not translate is faulted in once.\<close>

function touch_pages :: "'a user_vm \<Rightarrow> nat \<Rightarrow> nat \<Rightarrow> nat \<Rightarrow> bool \<Rightarrow> 'a waits_scheme \<Rightarrow> bool \<times> 'a waits_scheme" where
  "touch_pages uv root va stop wr k =
     (if va < stop then
        if uv_translate uv k root va wr \<noteq> None then touch_pages uv root (va + 4096) stop wr k
        else let (ok, k) = uv_fault uv root va wr k in
          if ok \<and> uv_translate uv k root va wr \<noteq> None then touch_pages uv root (va + 4096) stop wr k
          else (False, k)
      else (True, k))"
  by pat_completeness auto
termination by (relation "measure (\<lambda>(uv, root, va, stop, wr, k). stop - va)") auto

declare touch_pages.simps [simp del]

definition user_ok :: "'a services \<Rightarrow> 'a user_vm \<Rightarrow> nat \<Rightarrow> nat \<Rightarrow> nat \<Rightarrow> bool \<Rightarrow> 'a sched \<Rightarrow> bool \<times> 'a sched" where
  "user_ok sv uv c ptr len wr st =
     (if len = 0 then (True, st)
      else case checked_add ptr len of
        None \<Rightarrow> (False, st)
      | Some stop \<Rightarrow>
          let (ok, k) = touch_pages uv (current_root sv c st) (ptr div 4096 * 4096) stop wr (kst st)
          in (ok, st\<lparr>kst := k\<rparr>))"

definition user_map :: "'a services \<Rightarrow> 'a user_vm \<Rightarrow> nat \<Rightarrow> bool \<Rightarrow> 'a sched \<Rightarrow> nat \<Rightarrow> nat option" where
  "user_map sv uv c wr st a = uv_translate uv (kst st) (current_root sv c st) a wr"

definition ustore :: "(nat \<Rightarrow> nat option) \<Rightarrow> nat \<Rightarrow> u8 list \<Rightarrow> mem \<Rightarrow> mem" where
  "ustore tr a bs m =
     fold (\<lambda>i m. case tr (a + i) of Some p \<Rightarrow> m(p := bs ! i) | None \<Rightarrow> m) [0..<length bs] m"

definition uview :: "(nat \<Rightarrow> nat option) \<Rightarrow> mem \<Rightarrow> mem" where
  "uview tr m a = (case tr a of Some p \<Rightarrow> m p | None \<Rightarrow> 0)"

definition w64 :: "(nat \<Rightarrow> nat option) \<Rightarrow> nat \<Rightarrow> u64 \<Rightarrow> mem \<Rightarrow> mem" where
  "w64 tr a v m = ustore tr a (le_bytes 8 (unat v)) m"

definition w32 :: "(nat \<Rightarrow> nat option) \<Rightarrow> nat \<Rightarrow> u32 \<Rightarrow> mem \<Rightarrow> mem" where
  "w32 tr a v m = ustore tr a (le_bytes 4 (unat v)) m"

definition r64 :: "(nat \<Rightarrow> nat option) \<Rightarrow> mem \<Rightarrow> nat \<Rightarrow> u64" where
  "r64 tr m a = of_nat (le_val (mem_read (uview tr m) a 8))"

definition r32 :: "(nat \<Rightarrow> nat option) \<Rightarrow> mem \<Rightarrow> nat \<Rightarrow> u32" where
  "r32 tr m a = of_nat (le_val (mem_read (uview tr m) a 4))"

definition write_mem :: "mem \<Rightarrow> 'a sched \<Rightarrow> 'a sched" where
  "write_mem m st = on_k (\<lambda>k. k\<lparr>kmem := m\<rparr>) st"

section \<open>The frame\<close>

definition SIGPAGE_VA :: nat where "SIGPAGE_VA = 0x3F80000000"
definition SI_SIZE :: nat where "SI_SIZE = 128"
definition UC_SIGMASK :: nat where "UC_SIGMASK = 40"
definition UC_MCTX :: nat where "UC_MCTX = 176"
definition MCTX_SIZE :: nat where "MCTX_SIZE = 256 + 528"
definition FRAME_SIZE :: nat where
  "FRAME_SIZE = (SI_SIZE + UC_MCTX + MCTX_SIZE + 16 + 15) div 16 * 16"
definition SS_ONSTACK :: u64 where "SS_ONSTACK = 1"
definition SS_DISABLE :: u64 where "SS_DISABLE = 2"

definition context_sp :: "user_context \<Rightarrow> u64" where "context_sp f = regs f ! 2"

definition save_mcontext :: "(nat \<Rightarrow> nat option) \<Rightarrow> nat \<Rightarrow> user_context \<Rightarrow> fp_state \<Rightarrow> mem \<Rightarrow> mem" where
  "save_mcontext tr mc f fp m =
     (let m = w64 tr mc (sepc f) m;
          m = fold (\<lambda>i. w64 tr (mc + i * 8) (regs f ! i)) [1..<32] m;
          r = mc + 256;
          m = ustore tr r (replicate 528 0) m;
          m = fold (\<lambda>i. w64 tr (r + i * 8) (fregs fp ! i)) [0..<32] m
      in w32 tr (r + 256) (ucast (fcsr fp)) m)"

definition load_mcontext :: "(nat \<Rightarrow> nat option) \<Rightarrow> mem \<Rightarrow> nat \<Rightarrow> user_context \<Rightarrow> user_context \<times> fp_state" where
  "load_mcontext tr m mc f =
     (f\<lparr>sepc := r64 tr m mc, regs := fold (\<lambda>i xs. xs[i := r64 tr m (mc + i * 8)]) [1..<32] (regs f)\<rparr>,
      \<lparr>fregs = map (\<lambda>i. r64 tr m (mc + 256 + i * 8)) [0..<32], fcsr = ucast (r32 tr m (mc + 256 + 256))\<rparr>)"

text \<open>\<open>info\<close> is the code, the fault address and the sender's pid; \<open>alt\<close> the alternate stack to switch to.\<close>

definition frame_base :: "user_context \<Rightarrow> (nat \<times> nat) option \<Rightarrow> u64" where
  "frame_base f alt =
     (let top = (case alt of Some (sp, sz) \<Rightarrow> of_nat (sp + sz) | None \<Rightarrow> context_sp f)
      in (top - of_nat FRAME_SIZE) AND NOT 15)"

definition write_frame :: "(nat \<Rightarrow> nat option) \<Rightarrow> nat \<Rightarrow> nat \<Rightarrow> u64 \<Rightarrow> (nat \<times> nat) option \<Rightarrow> int \<times> nat \<times> u32 \<Rightarrow>
    user_context \<Rightarrow> fp_state \<Rightarrow> mem \<Rightarrow> mem" where
  "write_frame tr si sig old_mask alt si_info f fp m =
     (let uc = si + SI_SIZE;
          m = ustore tr si (replicate FRAME_SIZE 0) m;
          m = w32 tr si (of_nat sig) m;
          m = w32 tr (si + 8) (of_int (fst si_info)) m;
          m = (if fst si_info > 0 then w64 tr (si + 16) (of_nat (fst (snd si_info))) m
               else w32 tr (si + 16) (snd (snd si_info)) m);
          m = (case alt of
                 Some (sp, sz) \<Rightarrow>
                   w64 tr (uc + 32) (of_nat sz) (w32 tr (uc + 24) (ucast SS_ONSTACK) (w64 tr (uc + 16) (of_nat sp) m))
               | None \<Rightarrow> w32 tr (uc + 24) (ucast SS_DISABLE) m);
          m = w64 tr (uc + UC_SIGMASK) old_mask m
      in save_mcontext tr (uc + UC_MCTX) f fp m)"

definition enter_handler :: "nat \<Rightarrow> action \<Rightarrow> u64 \<Rightarrow> user_context \<Rightarrow> user_context" where
  "enter_handler sig act base f =
     f\<lparr>regs := (regs f)[1 := of_nat SIGPAGE_VA, 2 := base, 10 := of_nat sig, 11 := base, 12 := base + of_nat SI_SIZE],
       sepc := a_handler act\<rparr>"

definition build_frame :: "'a services \<Rightarrow> 'a user_vm \<Rightarrow> nat \<Rightarrow> nat \<Rightarrow> action \<Rightarrow> u64 \<Rightarrow> (nat \<times> nat) option \<Rightarrow>
    int \<times> nat \<times> u32 \<Rightarrow> 'a sched \<Rightarrow> bool \<times> 'a sched" where
  "build_frame sv uv c sig act old_mask alt si_info st =
     (let f = frame st c; base = frame_base f alt;
          (ok, st) = user_ok sv uv c (unat base) FRAME_SIZE True st
      in if \<not> ok then (False, st)
         else
           let m = write_frame (user_map sv uv c True st) (unat base) sig old_mask alt si_info f (fpu st c) (kmem (kst st))
           in (True, on_frame c (enter_handler sig act base) (write_mem m st)))"

section \<open>Delivery\<close>

datatype plan = NoSignal | Fatal nat | Handle nat action u64 "(nat \<times> nat) option" "int \<times> nat \<times> u32" bool

definition synchronous :: "nat \<Rightarrow> bool" where
  "synchronous sig \<longleftrightarrow> sig \<in> set [SIGSEGV, SIGBUS, SIGILL, SIGFPE, SIGTRAP]"

definition ready_signals :: "sig_thread \<Rightarrow> u64" where
  "ready_signals g = sg_pending g AND NOT (sg_mask g AND NOT UNBLOCKABLE)"

definition set_sig :: "nat \<Rightarrow> sig_thread \<Rightarrow> 'a sched \<Rightarrow> 'a sched" where
  "set_sig s g st = upd s (\<lambda>p. p\<lparr>p_sig := g\<rparr>) st"

definition on_altstack :: "sig_thread \<Rightarrow> nat \<Rightarrow> bool" where
  "on_altstack g sp \<longleftrightarrow> sg_alt_sp g \<noteq> 0 \<and> sg_alt_sp g < sp \<and> sp \<le> (sg_alt_sp g + sg_alt_size g) mod 2 ^ 64"

text \<open>The part of the plan for a signal with a handler, and the whole plan, run under \<open>SCHED\<close>.\<close>

definition plan_handler :: "nat \<Rightarrow> nat \<Rightarrow> nat \<Rightarrow> action \<Rightarrow> 'a sched \<Rightarrow> plan \<times> 'a sched" where
  "plan_handler c s sig a st =
     (let p = procs st s; g = p_sig p;
          old = (if sg_suspended g then sg_saved g else sg_mask g);
          m = old OR a_mask a;
          m = (if a_flags a AND SA_NODEFER = 0 then m OR bit1 (sig - 1) else m);
          st = (if a_flags a AND SA_RESETHAND \<noteq> 0
                then st\<lparr>actions := (actions st)(p_leader p := (actions st (p_leader p))[sig - 1 := DFL])\<rparr> else st);
          alt = (if a_flags a AND SA_ONSTACK \<noteq> 0 \<and> sg_alt_sp g \<noteq> 0 \<and> \<not> on_altstack g (unat (context_sp (frame st c)))
                 then Some (sg_alt_sp g, sg_alt_size g) else None);
          si_info = (if synchronous sig \<and> sg_fault_code g \<noteq> 0 then (sg_fault_code g, sg_fault_addr g, 0)
                  else (0, 0, sg_from g));
          g = g\<lparr>sg_suspended := False, sg_mask := m AND NOT UNBLOCKABLE\<rparr>;
          g = (if synchronous sig then g\<lparr>sg_fault_code := 0\<rparr> else g);
          st = upd s (\<lambda>p. p\<lparr>p_sig := g, p_in_poll := False,
                            p_io_deadline := (if p_in_poll p then 0 else p_io_deadline p)\<rparr>) st
      in (Handle sig a old alt si_info (p_in_poll p), st))"

definition plan_signal :: "nat \<Rightarrow> nat \<Rightarrow> 'a sched \<Rightarrow> plan \<times> 'a sched" where
  "plan_signal c s st =
     (let p = procs st s; g = p_sig p; ready = ready_signals g in
      if p_abi p \<noteq> ABI_LINUX then (NoSignal, set_sig s (g\<lparr>sg_pending := 0\<rparr>) st)
      else if ready = 0 then (NoSignal, st)
      else
        let sig = trailing_zeros ready + 1;
            st = set_sig s (g\<lparr>sg_pending := sg_pending g AND NOT (bit1 (sig - 1))\<rparr>) st;
            a = actions st (p_leader p) ! (sig - 1)
        in if sig = SIGKILL \<or> a_handler a = SIG_DFL then
             (if default_ignored sig \<and> sig \<noteq> SIGKILL then NoSignal else Fatal sig, st)
           else if a_handler a = SIG_IGN then (NoSignal, st)
           else plan_handler c s sig a st)"

definition die_of :: "'a services \<Rightarrow> nat \<Rightarrow> nat \<Rightarrow> 'a sched \<Rightarrow> 'a sched" where
  "die_of sv c sig st = exit_group sv c (set_status c (of_nat sig) True st)"

fun deliver_loop :: "nat \<Rightarrow> 'a services \<Rightarrow> 'a user_vm \<Rightarrow> nat \<Rightarrow> 'a sched \<Rightarrow> 'a sched" where
  "deliver_loop 0 sv uv c st = st"
| "deliver_loop (Suc n) sv uv c st =
     (if \<not> signal_hint c st then st
      else case current st c of
        None \<Rightarrow> deliver_loop n sv uv c st
      | Some s \<Rightarrow>
          (case plan_signal c s st of
             (NoSignal, st) \<Rightarrow> deliver_loop n sv uv c st
           | (Fatal sig, st) \<Rightarrow> die_of sv c sig st
           | (Handle sig act old_mask alt si_info interrupted, st) \<Rightarrow>
               let st = (if interrupted then on_frame c (\<lambda>f. set_ret eintr (skip_syscall f)) st else st);
                   (ok, st) = build_frame sv uv c sig act old_mask alt si_info st
               in if ok then st else die_of sv c SIGSEGV st))"

definition deliver :: "'a services \<Rightarrow> 'a user_vm \<Rightarrow> nat \<Rightarrow> 'a sched \<Rightarrow> 'a sched" where
  "deliver sv uv c st = deliver_loop 64 sv uv c st"

section \<open>Return from a handler\<close>

definition sigreturn :: "'a services \<Rightarrow> 'a user_vm \<Rightarrow> nat \<Rightarrow> 'a sched \<Rightarrow> 'a sched" where
  "sigreturn sv uv c st =
     (let base = unat (context_sp (frame st c));
          (ok, st) = user_ok sv uv c base (FRAME_SIZE - 16) False st
      in if \<not> ok then die_of sv c SIGSEGV st
         else
           let tr = user_map sv uv c False st; m = kmem (kst st); uc = base + SI_SIZE;
               (f, fp) = load_mcontext tr m (uc + UC_MCTX) (frame st c);
               msk = r64 tr m (uc + UC_SIGMASK) AND NOT UNBLOCKABLE;
               st = on_frame c (\<lambda>_. mark_fp_dirty f) (st\<lparr>fpu := (fpu st)(c := fp)\<rparr>)
           in case current st c of
                None \<Rightarrow> st
              | Some s \<Rightarrow> upd s (\<lambda>p. p\<lparr>p_sig := (p_sig p)\<lparr>sg_mask := msk, sg_suspended := False\<rparr>\<rparr>) st)"

section \<open>Faults\<close>

definition fault_signal :: "nat \<Rightarrow> nat \<Rightarrow> int \<Rightarrow> nat \<Rightarrow> 'a sched \<Rightarrow> bool \<times> 'a sched" where
  "fault_signal c sig code addr st =
     (case current st c of
        None \<Rightarrow> (False, st)
      | Some s \<Rightarrow>
          let p = procs st s; g = p_sig p; a = actions st (p_leader p) ! (sig - 1) in
          if p_abi p \<noteq> ABI_LINUX then (False, st)
          else if a_handler a = SIG_DFL \<or> a_handler a = SIG_IGN \<or> blocked p sig then (False, st)
          else if sg_fault_code g \<noteq> 0 \<and> sg_pending g AND bit1 (sig - 1) \<noteq> 0 then (False, st)
          else (True, set_sig s (g\<lparr>sg_pending := sg_pending g OR bit1 (sig - 1), sg_fault_addr := addr,
                                    sg_fault_code := code\<rparr>) st))"

section \<open>System calls\<close>

text \<open>A pointer argument of 0 means none; the others are checked before anything changes.\<close>

definition ptr_ok :: "'a services \<Rightarrow> 'a user_vm \<Rightarrow> nat \<Rightarrow> nat \<Rightarrow> nat \<Rightarrow> bool \<Rightarrow> 'a sched \<Rightarrow> bool \<times> 'a sched" where
  "ptr_ok sv uv c ptr len wr st = (if ptr = 0 then (True, st) else user_ok sv uv c ptr len wr st)"

definition put_user :: "'a services \<Rightarrow> 'a user_vm \<Rightarrow> nat \<Rightarrow> nat \<Rightarrow> u8 list \<Rightarrow> 'a sched \<Rightarrow> 'a sched" where
  "put_user sv uv c a bs st = write_mem (ustore (user_map sv uv c True st) a bs (kmem (kst st))) st"

definition get64 :: "'a services \<Rightarrow> 'a user_vm \<Rightarrow> nat \<Rightarrow> nat \<Rightarrow> 'a sched \<Rightarrow> u64" where
  "get64 sv uv c a st = r64 (user_map sv uv c False st) (kmem (kst st)) a"

definition get32 :: "'a services \<Rightarrow> 'a user_vm \<Rightarrow> nat \<Rightarrow> nat \<Rightarrow> 'a sched \<Rightarrow> u32" where
  "get32 sv uv c a st = r32 (user_map sv uv c False st) (kmem (kst st)) a"

definition get_action :: "'a services \<Rightarrow> 'a user_vm \<Rightarrow> nat \<Rightarrow> nat \<Rightarrow> 'a sched \<Rightarrow> action" where
  "get_action sv uv c a st = \<lparr>a_handler = get64 sv uv c a st, a_flags = get64 sv uv c (a + 8) st,
     a_restorer = get64 sv uv c (a + 16) st, a_mask = get64 sv uv c (a + 24) st\<rparr>"

definition action_bytes :: "action \<Rightarrow> u8 list" where
  "action_bytes a = le_bytes 8 (unat (a_handler a)) @ le_bytes 8 (unat (a_flags a)) @
     le_bytes 8 (unat (a_restorer a)) @ le_bytes 8 (unat (a_mask a))"

text \<open>The change of one action, run under \<open>SCHED\<close>: ignoring a signal drops it when it is pending.\<close>

definition set_action :: "nat \<Rightarrow> nat \<Rightarrow> action \<Rightarrow> 'a sched \<Rightarrow> 'a sched" where
  "set_action s sig n st =
     (let n = n\<lparr>a_mask := a_mask n AND NOT UNBLOCKABLE\<rparr>; l = p_leader (procs st s); g = p_sig (procs st s);
          st = st\<lparr>actions := (actions st)(l := (actions st l)[sig - 1 := n])\<rparr>
      in if a_handler n = SIG_IGN then set_sig s (g\<lparr>sg_pending := sg_pending g AND NOT (bit1 (sig - 1))\<rparr>) st
         else st)"

definition sys_sigaction :: "'a services \<Rightarrow> 'a user_vm \<Rightarrow> nat \<Rightarrow> nat \<Rightarrow> nat \<Rightarrow> nat \<Rightarrow> 'a sched \<Rightarrow>
    (errno + nat) \<times> 'a sched" where
  "sys_sigaction sv uv c sig act old st =
     (if sig = 0 \<or> sig > 64 then (Inl EINVAL, st)
      else
        let (ok, st) = ptr_ok sv uv c act 32 False st in
        if \<not> ok then (Inl EFAULT, st)
        else
          let (ok, st) = ptr_ok sv uv c old 32 True st in
          if \<not> ok then (Inl EFAULT, st)
          else if act \<noteq> 0 \<and> (sig = SIGKILL \<or> sig = SIGSTOP) then (Inl EINVAL, st)
          else case current st c of
            None \<Rightarrow> (Inl EINVAL, st)
          | Some s \<Rightarrow>
              let prev = actions st (p_leader (procs st s)) ! (sig - 1);
                  st = (if act \<noteq> 0 then set_action s sig (get_action sv uv c act st) st else st)
              in (Inr 0, if old \<noteq> 0 then put_user sv uv c old (action_bytes prev) st else st))"

definition new_mask :: "nat \<Rightarrow> u64 \<Rightarrow> u64 \<Rightarrow> u64 option" where
  "new_mask how prev v =
     (if how = 0 then Some (prev OR v) else if how = 1 then Some (prev AND NOT v)
      else if how = 2 then Some v else None)"

definition sys_sigprocmask :: "'a services \<Rightarrow> 'a user_vm \<Rightarrow> nat \<Rightarrow> nat \<Rightarrow> nat \<Rightarrow> nat \<Rightarrow> 'a sched \<Rightarrow>
    (errno + nat) \<times> 'a sched" where
  "sys_sigprocmask sv uv c how new old st =
     (let (ok, st) = ptr_ok sv uv c new 8 False st in
      if \<not> ok then (Inl EFAULT, st)
      else
        let (ok, st) = ptr_ok sv uv c old 8 True st in
        if \<not> ok then (Inl EFAULT, st)
        else case current st c of
          None \<Rightarrow> (Inl EINVAL, st)
        | Some s \<Rightarrow>
            let g = p_sig (procs st s); prev = sg_mask g;
                put = (\<lambda>st. (Inr 0, if old \<noteq> 0 then put_user sv uv c old (le_bytes 8 (unat prev)) st else st))
            in if new = 0 then put st
               else case new_mask how prev (get64 sv uv c new st) of
                 None \<Rightarrow> (Inl EINVAL, st)
               | Some m \<Rightarrow> put (set_sig s (g\<lparr>sg_mask := m AND NOT UNBLOCKABLE\<rparr>) st))"

definition sys_sigpending :: "'a services \<Rightarrow> 'a user_vm \<Rightarrow> nat \<Rightarrow> nat \<Rightarrow> 'a sched \<Rightarrow> (errno + nat) \<times> 'a sched" where
  "sys_sigpending sv uv c out st =
     (let (ok, st) = user_ok sv uv c out 8 True st in
      if \<not> ok then (Inl EFAULT, st)
      else
        let p = (case current st c of None \<Rightarrow> 0
                 | Some s \<Rightarrow> sg_pending (p_sig (procs st s)) AND sg_mask (p_sig (procs st s)))
        in (Inr 0, put_user sv uv c out (le_bytes 8 (unat p)) st))"

definition set_altstack :: "sig_thread \<Rightarrow> nat \<Rightarrow> u64 \<Rightarrow> nat \<Rightarrow> errno + sig_thread" where
  "set_altstack g sp flags sz =
     (if flags AND SS_DISABLE \<noteq> 0 then Inr (g\<lparr>sg_alt_sp := 0, sg_alt_size := 0\<rparr>)
      else if sz < 2048 then Inl ENOMEM
      else Inr (g\<lparr>sg_alt_sp := sp, sg_alt_size := sz\<rparr>))"

definition sys_sigaltstack :: "'a services \<Rightarrow> 'a user_vm \<Rightarrow> nat \<Rightarrow> nat \<Rightarrow> nat \<Rightarrow> nat \<Rightarrow> 'a sched \<Rightarrow>
    (errno + nat) \<times> 'a sched" where
  "sys_sigaltstack sv uv c ss old sp st =
     (let (ok, st) = ptr_ok sv uv c ss 24 False st in
      if \<not> ok then (Inl EFAULT, st)
      else
        let (ok, st) = ptr_ok sv uv c old 24 True st in
        if \<not> ok then (Inl EFAULT, st)
        else case current st c of
          None \<Rightarrow> (Inl EINVAL, st)
        | Some s \<Rightarrow>
            let g = p_sig (procs st s) in
            case (if ss = 0 then Inr g
                  else set_altstack g (unat (get64 sv uv c ss st)) (ucast (get32 sv uv c (ss + 8) st))
                         (unat (get64 sv uv c (ss + 16) st))) of
              Inl e \<Rightarrow> (Inl e, st)
            | Inr g' \<Rightarrow>
                let st = set_sig s g' st;
                    flags = (if sg_alt_sp g = 0 then SS_DISABLE else if on_altstack g sp then SS_ONSTACK else 0)
                in (Inr 0,
                    if old = 0 then st
                    else put_user sv uv c (old + 16) (le_bytes 8 (sg_alt_size g))
                           (put_user sv uv c (old + 8) (le_bytes 4 (unat flags))
                             (put_user sv uv c old (le_bytes 8 (sg_alt_sp g)) st))))"

text \<open>\<open>kill\<close>, \<open>tkill\<close> and \<open>tgkill\<close> of another process or thread.\<close>

definition send :: "'a services \<Rightarrow> nat \<Rightarrow> nat \<Rightarrow> nat \<Rightarrow> bool \<Rightarrow> 'a sched \<Rightarrow> (errno + nat) \<times> 'a sched" where
  "send sv c target sig thread st =
     (case slot_of_pid target st of
        None \<Rightarrow> (Inl ESRCH, st)
      | Some t \<Rightarrow>
          let me = fst (snd (current_ids c st));
              a = actions st (p_leader (procs st t)) ! (sig - 1);
              fatal = (sig = SIGKILL \<or> (a_handler a = SIG_DFL \<and> \<not> default_ignored sig));
              linux = (abi_of_slot t st = ABI_LINUX)
          in if a_handler a = SIG_IGN \<or> (a_handler a = SIG_DFL \<and> default_ignored sig \<and> sig \<noteq> SIGKILL) then (Inr 0, st)
             else if fatal \<and> \<not> (linux \<and> a_handler a > SIG_IGN) \<and> \<not> blocked (procs st t) sig then
               let (ok, st) = kill_sig sv c (leader_pid_of t st) (of_nat sig) st
               in (if ok then Inr 0 else Inl ESRCH, st)
             else
               let (ok, st) = post_signal_locked c target sig thread me st
               in (if ok then Inr 0 else Inl ESRCH, st))"

end
