(* ===== verification/Signal_Props.thy ===== *)
theory Signal_Props
  imports Signals Sched_Props
begin

text \<open>
  Properties of signal delivery and return: the frame of a handler is read back as it was written, and what
  a forged frame can and cannot change.
\<close>

section \<open>The view of a mapped range\<close>

text \<open>A range of user addresses whose bytes are mapped one to one.\<close>

definition maps :: "(nat \<Rightarrow> nat option) \<Rightarrow> nat \<Rightarrow> nat \<Rightarrow> bool" where
  "maps tr b n \<longleftrightarrow> (\<forall>x. b \<le> x \<and> x < b + n \<longrightarrow> tr x \<noteq> None) \<and> inj_on tr {b..<b + n}"

lemma ustore_Nil [simp]: "ustore tr a [] m = m"
  by (simp add: ustore_def)

lemma ustore_snoc:
  "ustore tr a (bs @ [b]) m =
     (case tr (a + length bs) of Some p \<Rightarrow> (ustore tr a bs m)(p := b) | None \<Rightarrow> ustore tr a bs m)"
proof -
  have "fold (\<lambda>i m. case tr (a + i) of Some p \<Rightarrow> m(p := (bs @ [b]) ! i) | None \<Rightarrow> m) [0..<length bs] m =
      fold (\<lambda>i m. case tr (a + i) of Some p \<Rightarrow> m(p := bs ! i) | None \<Rightarrow> m) [0..<length bs] m"
    by (rule fold_cong) (auto simp: nth_append fun_eq_iff split: option.split)
  then show ?thesis by (simp add: ustore_def split: option.split)
qed

lemma uview_ustore:
  assumes "maps tr b n" "b \<le> a" "a + length bs \<le> b + n" "b \<le> x" "x < b + n"
  shows "uview tr (ustore tr a bs m) x = mem_write (uview tr m) a bs x"
  using assms(3)
proof (induction bs rule: rev_induct)
  case (snoc y bs)
  have R: "b \<le> a + length bs" "a + length bs < b + n" using assms(2) snoc(2) by simp_all
  obtain p where p: "tr (a + length bs) = Some p" using assms(1) R unfolding maps_def by blast
  obtain q where q: "tr x = Some q" using assms(1,4,5) unfolding maps_def by blast
  have inj: "q = p \<longleftrightarrow> x = a + length bs"
    using assms(1,4,5) R p q inj_onD [of tr "{b..<b + n}" x "a + length bs"] unfolding maps_def by auto
  have IH: "uview tr (ustore tr a bs m) x = mem_write (uview tr m) a bs x" using snoc by simp
  show ?case
    using IH inj by (auto simp: ustore_snoc p q uview_def mem_write_def nth_append)
qed simp

lemma read_same:
  assumes "maps tr b n" "b \<le> a" "a + length bs \<le> b + n"
  shows "mem_read (uview tr (ustore tr a bs m)) a (length bs) = bs"
proof -
  have "mem_read (uview tr (ustore tr a bs m)) a (length bs) = mem_read (mem_write (uview tr m) a bs) a (length bs)"
    by (rule mem_read_cong) (use assms in \<open>simp add: uview_ustore [OF assms]\<close>)
  then show ?thesis by simp
qed

lemma read_other:
  assumes "maps tr b n" "b \<le> a" "a + length bs \<le> b + n" "b \<le> x" "x + k \<le> b + n"
    "x + k \<le> a \<or> a + length bs \<le> x"
  shows "mem_read (uview tr (ustore tr a bs m)) x k = mem_read (uview tr m) x k"
proof (rule mem_read_cong)
  fix i assume i: "i < k"
  then have "uview tr (ustore tr a bs m) (x + i) = mem_write (uview tr m) a bs (x + i)"
    using assms by (intro uview_ustore [OF assms(1-3)]) auto
  then show "uview tr (ustore tr a bs m) (x + i) = uview tr m (x + i)"
    using i assms(6) by (auto simp: mem_write_def)
qed

lemmas word_defs = w64_def w32_def

lemma r64_w64:
  assumes "maps tr b n" "b \<le> a" "a + 8 \<le> b + n"
  shows "r64 tr (w64 tr a v m) a = v"
proof -
  have "unat v < 256 ^ 8" using unsigned_less [of v] by simp
  moreover have "mem_read (uview tr (ustore tr a (le_bytes 8 (unat v)) m)) a 8 = le_bytes 8 (unat v)"
    using read_same [OF assms(1,2), of "le_bytes 8 (unat v)" m] assms(3) by simp
  ultimately show ?thesis by (simp add: r64_def w64_def)
qed

lemma r32_w32:
  assumes "maps tr b n" "b \<le> a" "a + 4 \<le> b + n"
  shows "r32 tr (w32 tr a v m) a = v"
proof -
  have "unat v < 256 ^ 4" using unsigned_less [of v] by simp
  moreover have "mem_read (uview tr (ustore tr a (le_bytes 4 (unat v)) m)) a 4 = le_bytes 4 (unat v)"
    using read_same [OF assms(1,2), of "le_bytes 4 (unat v)" m] assms(3) by simp
  ultimately show ?thesis by (simp add: r32_def w32_def)
qed

lemma r64_other:
  assumes "maps tr b n" "b \<le> a" "a + length bs \<le> b + n" "b \<le> x" "x + 8 \<le> b + n" "x + 8 \<le> a \<or> a + length bs \<le> x"
  shows "r64 tr (ustore tr a bs m) x = r64 tr m x"
  unfolding r64_def by (simp add: read_other [OF assms])

lemma r64_w64_other:
  assumes "maps tr b n" "b \<le> a" "a + 8 \<le> b + n" "b \<le> x" "x + 8 \<le> b + n" "x + 8 \<le> a \<or> a + 8 \<le> x"
  shows "r64 tr (w64 tr a v m) x = r64 tr m x"
  unfolding w64_def by (rule r64_other [OF assms(1)]) (use assms in auto)

lemma r64_w32_other:
  assumes "maps tr b n" "b \<le> a" "a + 4 \<le> b + n" "b \<le> x" "x + 8 \<le> b + n" "x + 8 \<le> a \<or> a + 4 \<le> x"
  shows "r64 tr (w32 tr a v m) x = r64 tr m x"
  unfolding w32_def by (rule r64_other [OF assms(1)]) (use assms in auto)

lemma r64_table_other:
  assumes "maps tr b n" "b \<le> a" "a + hi * 8 \<le> b + n" "b \<le> x" "x + 8 \<le> b + n" "x + 8 \<le> a + lo * 8 \<or> a + hi * 8 \<le> x"
  shows "r64 tr (fold (\<lambda>i. w64 tr (a + i * 8) (f i)) [lo..<hi] m) x = r64 tr m x"
  using assms(3,6)
proof (induction hi)
  case (Suc hi)
  show ?case
  proof (cases "lo \<le> hi")
    case True
    have "r64 tr (w64 tr (a + hi * 8) (f hi) (fold (\<lambda>i. w64 tr (a + i * 8) (f i)) [lo..<hi] m)) x =
        r64 tr (fold (\<lambda>i. w64 tr (a + i * 8) (f i)) [lo..<hi] m) x"
      by (rule r64_w64_other [OF assms(1)]) (use assms Suc(2,3) True in auto)
    then show ?thesis using Suc True by auto
  qed simp
qed simp

lemma r64_table:
  assumes "maps tr b n" "b \<le> a" "a + hi * 8 \<le> b + n" "lo \<le> k" "k < hi"
  shows "r64 tr (fold (\<lambda>i. w64 tr (a + i * 8) (f i)) [lo..<hi] m) (a + k * 8) = f k"
  using assms(3,5)
proof (induction hi)
  case (Suc hi)
  let ?m = "fold (\<lambda>i. w64 tr (a + i * 8) (f i)) [lo..<hi] m"
  have u: "fold (\<lambda>i. w64 tr (a + i * 8) (f i)) [lo..<Suc hi] m = w64 tr (a + hi * 8) (f hi) ?m"
    using assms(4) Suc(3) by simp
  show ?case
  proof (cases "k = hi")
    case True
    then show ?thesis unfolding u using assms Suc(2) by (simp add: r64_w64 [OF assms(1)])
  next
    case False
    have "r64 tr (w64 tr (a + hi * 8) (f hi) ?m) (a + k * 8) = r64 tr ?m (a + k * 8)"
      by (rule r64_w64_other [OF assms(1)]) (use assms Suc(2,3) False in auto)
    then show ?thesis unfolding u using Suc False by simp
  qed
qed simp

lemma frame_sizes: "FRAME_SIZE = 1104" "SI_SIZE = 128" "UC_MCTX = 176" "UC_SIGMASK = 40"
  by (simp_all add: FRAME_SIZE_def SI_SIZE_def UC_MCTX_def UC_SIGMASK_def MCTX_SIZE_def)

lemma save_mcontext_other:
  assumes "maps tr b n" "b \<le> mc" "mc + 784 \<le> b + n" "b \<le> x" "x + 8 \<le> mc"
  shows "r64 tr (save_mcontext tr mc f fp m) x = r64 tr m x"
  using assms
  by (simp add: save_mcontext_def Let_def r64_w32_other [OF assms(1)] r64_table_other [OF assms(1)]
      r64_other [OF assms(1)] r64_w64_other [OF assms(1)])

lemma saved_sepc:
  assumes "maps tr b n" "b \<le> mc" "mc + 784 \<le> b + n"
  shows "r64 tr (save_mcontext tr mc f fp m) mc = sepc f"
  using assms
  by (simp add: save_mcontext_def Let_def r64_w32_other [OF assms(1)] r64_table_other [OF assms(1)]
      r64_other [OF assms(1)] r64_w64 [OF assms(1)])

lemma saved_reg:
  assumes "maps tr b n" "b \<le> mc" "mc + 784 \<le> b + n" "1 \<le> k" "k < 32"
  shows "r64 tr (save_mcontext tr mc f fp m) (mc + k * 8) = regs f ! k"
  using assms
  by (simp add: save_mcontext_def Let_def r64_w32_other [OF assms(1)] r64_table_other [OF assms(1)]
      r64_other [OF assms(1)] r64_table [OF assms(1)])

lemma saved_freg:
  assumes "maps tr b n" "b \<le> mc" "mc + 784 \<le> b + n" "k < 32"
  shows "r64 tr (save_mcontext tr mc f fp m) (mc + 256 + k * 8) = fregs fp ! k"
  using assms
  by (simp add: save_mcontext_def Let_def r64_w32_other [OF assms(1)] r64_table [OF assms(1)])

lemma saved_fcsr:
  assumes "maps tr b n" "b \<le> mc" "mc + 784 \<le> b + n"
  shows "r32 tr (save_mcontext tr mc f fp m) (mc + 256 + 256) = ucast (fcsr fp)"
  unfolding save_mcontext_def Let_def by (rule r32_w32 [OF assms(1)]) (use assms in auto)

lemma frame_mask:
  assumes "maps tr si FRAME_SIZE"
  shows "r64 tr (write_frame tr si sig old alt si_info f fp m) (si + SI_SIZE + UC_SIGMASK) = old"
  using assms unfolding write_frame_def Let_def
  by (simp add: frame_sizes save_mcontext_other [of tr si 1104] r64_w64 [of tr si 1104])

lemma length_set_fold [simp]: "length (fold (\<lambda>i xs. xs[i := g i]) is xs) = length xs"
  by (induction "is" arbitrary: xs) auto

lemma nth_set_fold:
  "j < length xs \<Longrightarrow> fold (\<lambda>i xs. xs[i := g i]) [lo..<hi] xs ! j = (if lo \<le> j \<and> j < hi then g j else xs ! j)"
  by (induction hi) (auto simp: nth_list_update less_Suc_eq)

lemma r64_agree:
  assumes "mem_read v b n = mem_read (uview tr m) b n" "v = uview tr2 m2" "b \<le> x" "x + 8 \<le> b + n"
  shows "r64 tr2 m2 x = r64 tr m x"
proof -
  have "v (b + i) = uview tr m (b + i)" if "i < n" for i
    using arg_cong [OF assms(1), of "\<lambda>l. l ! i"] that by simp
  then have "v y = uview tr m y" if "b \<le> y" "y < b + n" for y
    using that by (metis add_diff_inverse_nat add_less_cancel_left leD)
  then have "mem_read v x 8 = mem_read (uview tr m) x 8"
    by (intro mem_read_cong) (use assms(3,4) in auto)
  then show ?thesis by (simp add: r64_def assms(2))
qed

lemma r32_agree:
  assumes "mem_read v b n = mem_read (uview tr m) b n" "v = uview tr2 m2" "b \<le> x" "x + 4 \<le> b + n"
  shows "r32 tr2 m2 x = r32 tr m x"
proof -
  have "v (b + i) = uview tr m (b + i)" if "i < n" for i
    using arg_cong [OF assms(1), of "\<lambda>l. l ! i"] that by simp
  then have "v y = uview tr m y" if "b \<le> y" "y < b + n" for y
    using that by (metis add_diff_inverse_nat add_less_cancel_left leD)
  then have "mem_read v x 4 = mem_read (uview tr m) x 4"
    by (intro mem_read_cong) (use assms(3,4) in auto)
  then show ?thesis by (simp add: r32_def assms(2))
qed

text \<open>What \<open>load_mcontext\<close> reads from an untouched frame, through any mapping that shows the same bytes.\<close>

lemma load_frame:
  assumes "maps tr si FRAME_SIZE" "length (regs f) = 32" "length (fregs fp) = 32" "unat (fcsr fp) < 2 ^ 32"
    and m: "m = write_frame tr si sig old alt si_info f fp m0"
    and eq: "mem_read (uview tr2 m2) si FRAME_SIZE = mem_read (uview tr m) si FRAME_SIZE"
    and g: "length (regs g) = 32"
  shows "load_mcontext tr2 m2 (si + SI_SIZE + UC_MCTX) g = (g\<lparr>sepc := sepc f, regs := (regs f)[0 := regs g ! 0]\<rparr>, fp)"
    "r64 tr2 m2 (si + SI_SIZE + UC_SIGMASK) = old"
proof -
  let ?mc = "si + SI_SIZE + UC_MCTX"
  note M = assms(1) [unfolded frame_sizes]
  obtain m1 where m1: "m = save_mcontext tr ?mc f fp m1" by (simp add: m write_frame_def Let_def)
  have mc: "si \<le> ?mc" "?mc + 784 \<le> si + 1104" by (simp_all add: frame_sizes)
  note agree = r64_agree [OF eq refl] r32_agree [OF eq refl]
  have pc: "r64 tr2 m2 ?mc = sepc f"
    unfolding agree(1) [of ?mc, unfolded frame_sizes, simplified] m1
    using agree(1) [of ?mc] saved_sepc [OF M mc] by (simp add: m1 frame_sizes)
  have reg: "r64 tr2 m2 (?mc + k * 8) = regs f ! k" if "1 \<le> k" "k < 32" for k
    using agree(1) [of "?mc + k * 8"] saved_reg [OF M mc that] that by (simp add: m1 frame_sizes)
  have freg: "r64 tr2 m2 (?mc + 256 + k * 8) = fregs fp ! k" if "k < 32" for k
    using agree(1) [of "?mc + 256 + k * 8"] saved_freg [OF M mc that] that by (simp add: m1 frame_sizes)
  have fc: "r32 tr2 m2 (?mc + 256 + 256) = ucast (fcsr fp)"
    using agree(2) [of "?mc + 256 + 256"] saved_fcsr [OF M mc] by (simp add: m1 frame_sizes)
  have "ucast (ucast (fcsr fp) :: u32) = fcsr fp"
    unfolding word_unat_eq_iff using assms(4) by (simp add: unsigned_ucast_eq unsigned_take_bit_eq take_bit_nat_eq_self)
  moreover have "map (\<lambda>i. r64 tr2 m2 (?mc + 256 + i * 8)) [0..<32] = fregs fp"
    by (rule nth_equalityI) (simp_all add: assms(3) freg)
  moreover have "fold (\<lambda>i xs. xs[i := r64 tr2 m2 (?mc + i * 8)]) [1..<32] (regs g) = (regs f)[0 := regs g ! 0]"
  proof (rule nth_equalityI)
    fix i assume "i < length (fold (\<lambda>i xs. xs[i := r64 tr2 m2 (?mc + i * 8)]) [1..<32] (regs g))"
    then have i: "i < 32" by (simp add: g)
    have "fold (\<lambda>i xs. xs[i := r64 tr2 m2 (?mc + i * 8)]) [1..<32] (regs g) ! i =
        (if 1 \<le> i \<and> i < 32 then r64 tr2 m2 (?mc + i * 8) else regs g ! i)"
      by (rule nth_set_fold) (simp add: g i)
    then show "fold (\<lambda>i xs. xs[i := r64 tr2 m2 (?mc + i * 8)]) [1..<32] (regs g) ! i = (regs f)[0 := regs g ! 0] ! i"
      using reg [of i] i assms(2) by (cases i) auto
  qed (simp add: g assms(2))
  ultimately show "load_mcontext tr2 m2 ?mc g = (g\<lparr>sepc := sepc f, regs := (regs f)[0 := regs g ! 0]\<rparr>, fp)"
    unfolding load_mcontext_def pc fc by simp
  show "r64 tr2 m2 (si + SI_SIZE + UC_SIGMASK) = old"
    using agree(1) [of "si + SI_SIZE + UC_SIGMASK"] frame_mask [OF assms(1), of sig old alt si_info f fp m0]
    by (simp add: m frame_sizes)
qed

section \<open>What the operations leave alone\<close>

lemma user_ok_Some:
  assumes "touch_pages uv (current_root sv c st) (ptr div 4096 * 4096) (ptr + len) wr (kst st) = (ok, k)"
    "ptr + len \<le> u64_max" "0 < len"
  shows "user_ok sv uv c ptr len wr st = (ok, st\<lparr>kst := k\<rparr>)"
proof -
  have "checked_add ptr len = Some (ptr + len)" using assms(2) by simp
  then show ?thesis using assms by (simp add: user_ok_def del: checked_add_Some)
qed

lemma upd_sig_root: "current_root sv c (upd s (\<lambda>p. p\<lparr>p_sig := g p\<rparr>) st) = current_root sv c st"
  by (simp add: current_root_def upd_def split: option.split)

text \<open>Planning a signal changes the signal state of the process and its actions, nothing a frame depends on.\<close>

definition sig_step :: "nat \<Rightarrow> 'a sched \<Rightarrow> 'a sched \<Rightarrow> bool" where
  "sig_step s st st' \<longleftrightarrow> kst st' = kst st \<and> frame st' = frame st \<and> fpu st' = fpu st \<and> current st' = current st \<and>
     (\<forall>i. p_root (procs st' i) = p_root (procs st i)) \<and> (\<forall>i. i \<noteq> s \<longrightarrow> procs st' i = procs st i)"

lemma sig_step_refl: "sig_step s st st"
  by (simp add: sig_step_def)

lemma sig_step_trans: "sig_step s st st1 \<Longrightarrow> sig_step s st1 st2 \<Longrightarrow> sig_step s st st2"
  by (simp add: sig_step_def)

lemma sig_step_acts: "sig_step s st (st\<lparr>actions := acts\<rparr>)"
  by (simp add: sig_step_def)

lemma sig_step_upd: "(\<And>p. p_root (F p) = p_root p) \<Longrightarrow> sig_step s st (upd s F st)"
  by (simp add: sig_step_def upd_def)

lemma sig_step_if: "sig_step s st st1 \<Longrightarrow> sig_step s st st2 \<Longrightarrow> sig_step s st (if q then st1 else st2)"
  by simp

lemma plan_handler_step: "sig_step s st (snd (plan_handler c s sig a st))"
  unfolding plan_handler_def Let_def snd_conv
  by (rule sig_step_trans [OF sig_step_if [OF sig_step_acts sig_step_refl] sig_step_upd]) simp

lemma set_sig_step: "sig_step s st (set_sig s g st)"
  unfolding set_sig_def by (rule sig_step_upd) simp

lemma plan_step: "sig_step s st (snd (plan_signal c s st))"
  unfolding plan_signal_def Let_def if_distrib [of snd] snd_conv
  by (intro sig_step_if sig_step_refl set_sig_step sig_step_trans [OF set_sig_step plan_handler_step])

lemma plan_keeps:
  assumes "plan_signal c s st = (pl, st')"
  shows "kst st' = kst st" "frame st' = frame st" "fpu st' = fpu st" "current st' = current st"
    "current_root sv c st' = current_root sv c st" "i \<noteq> s \<Longrightarrow> procs st' i = procs st i"
proof -
  have "sig_step s st st'" using plan_step [of s st c] assms by simp
  then show "kst st' = kst st" "frame st' = frame st" "fpu st' = fpu st" "current st' = current st"
    "current_root sv c st' = current_root sv c st" "i \<noteq> s \<Longrightarrow> procs st' i = procs st i"
    by (simp_all add: sig_step_def current_root_def split: option.split)
qed

lemma plan_hint:
  assumes "plan_signal c s st = (Handle sig act old alt si_info interrupted, st')" "current st c = Some s"
  shows "signal_hint c st"
  using assms by (auto simp: plan_signal_def signal_hint_def ready_signals_def Let_def split: if_splits)

lemma deliver_handles:
  assumes "plan_signal c s st = (Handle sig act old alt si_info interrupted, st1)" "current st c = Some s"
  shows "deliver sv uv c st =
    (let st = (if interrupted then on_frame c (\<lambda>f. set_ret eintr (skip_syscall f)) st1 else st1);
         (ok, st) = build_frame sv uv c sig act old alt si_info st
     in if ok then st else die_of sv c SIGSEGV st)"
proof -
  have "(64 :: nat) = Suc 63" by simp
  then show ?thesis unfolding deliver_def
    by (simp only: deliver_loop.simps) (simp add: plan_hint [OF assms] assms)
qed

lemma build_frame_ok:
  assumes "b = unat (frame_base (frame st c) alt)" "b + FRAME_SIZE \<le> u64_max"
    and "touch_pages uv (current_root sv c st) (b div 4096 * 4096) (b + FRAME_SIZE) True (kst st) = (True, k)"
  shows "build_frame sv uv c sig act old alt si_info st =
    (True, on_frame c (enter_handler sig act (frame_base (frame st c) alt))
       (st\<lparr>kst := k\<lparr>kmem := write_frame (\<lambda>a. uv_translate uv k (current_root sv c st) a True) b sig old alt si_info
             (frame st c) (fpu st c) (kmem k)\<rparr>\<rparr>))"
proof -
  have "user_ok sv uv c b FRAME_SIZE True st = (True, st\<lparr>kst := k\<rparr>)"
    by (rule user_ok_Some [OF assms(3,2)]) (simp add: frame_sizes)
  moreover have "user_map sv uv c True (st\<lparr>kst := k\<rparr>) = (\<lambda>a. uv_translate uv k (current_root sv c st) a True)"
    by (simp add: user_map_def current_root_def fun_eq_iff split: option.split)
  ultimately show ?thesis
    by (simp add: build_frame_def Let_def assms(1) write_mem_def on_k_def)
qed

lemma current_root_frame [simp]: "current_root sv c (on_frame c' f st) = current_root sv c st"
  by (simp add: current_root_def on_frame_def split: option.split)

text \<open>C36. A signal handler that leaves its frame alone changes nothing: \<open>deliver\<close> saves the interrupted context on
  the user stack and enters the handler, and \<open>sigreturn\<close> on the same bytes, at any later time and through whatever
  physical pages then hold them, gives back every register, the program counter, the floating-point registers and
  the signal mask of before (the one from before \<open>sigsuspend\<close> if the thread was suspended). A system call that the
  signal interrupted returns \<open>EINTR\<close>. It needs a stack range mapped one to one, and \<open>fcsr\<close> to fit its 32 bits.\<close>

theorem signal_round_trip:
  fixes sv :: "'a services" and st :: "'a sched"
  assumes cur: "current st c = Some s"
    and plan: "plan_signal c s st = (Handle sig act old alt si_info interrupted, st1)"
    and f: "f = (if interrupted then set_ret eintr (skip_syscall (frame st c)) else frame st c)"
    and b: "b = unat (frame_base f alt)" "b + FRAME_SIZE \<le> u64_max"
    and ok: "touch_pages uv (current_root sv c st) (b div 4096 * 4096) (b + FRAME_SIZE) True (kst st) = (True, k)"
    and tr: "tr = (\<lambda>a. uv_translate uv k (current_root sv c st) a True)" "maps tr b FRAME_SIZE"
    and shape: "length (regs f) = 32" "length (fregs (fpu st c)) = 32" "unat (fcsr (fpu st c)) < 2 ^ 32"
    and later: "current st3 c = Some s" "context_sp (frame st3 c) = of_nat b" "length (regs (frame st3 c)) = 32"
    and ok3: "touch_pages uv (current_root sv c st3) (b div 4096 * 4096) (b + (FRAME_SIZE - 16)) False (kst st3) = (True, k3)"
    and untouched: "mem_read (uview (\<lambda>a. uv_translate uv k3 (current_root sv c st3) a False) (kmem k3)) b FRAME_SIZE =
      mem_read (uview tr (kmem (kst (deliver sv uv c st)))) b FRAME_SIZE"
  shows "sepc (frame (deliver sv uv c st) c) = a_handler act \<and> context_sp (frame (deliver sv uv c st) c) = of_nat b \<and>
    regs (frame (deliver sv uv c st) c) ! 10 = of_nat sig \<and>
    regs (frame (sigreturn sv uv c st3) c) = (regs f)[0 := regs (frame st3 c) ! 0] \<and>
    sepc (frame (sigreturn sv uv c st3) c) = sepc f \<and>
    fpu (sigreturn sv uv c st3) c = fpu st c \<and>
    sg_mask (p_sig (procs (sigreturn sv uv c st3) s)) = old AND NOT UNBLOCKABLE"
proof -
  define X where "X = (if interrupted then on_frame c (\<lambda>f. set_ret eintr (skip_syscall f)) st1 else st1)"
  let ?base = "frame_base f alt"
  note keep = plan_keeps [OF plan]
  have st1: "frame X c = f" "kst X = kst st" "fpu X = fpu st" "current_root sv c X = current_root sv c st"
    using keep(1,2,3) keep(5) [of sv] by (simp_all add: f X_def)
  have bf: "build_frame sv uv c sig act old alt si_info X =
    (True, on_frame c (enter_handler sig act ?base)
       (X\<lparr>kst := k\<lparr>kmem := write_frame tr b sig old alt si_info f (fpu st c) (kmem k)\<rparr>\<rparr>))"
    using build_frame_ok [of b X c alt uv sv k sig act old si_info, unfolded st1, OF b ok] by (simp add: tr(1))
  let ?m = "write_frame tr b sig old alt si_info f (fpu st c) (kmem k)"
  have del: "deliver sv uv c st = on_frame c (enter_handler sig act ?base) (X\<lparr>kst := k\<lparr>kmem := ?m\<rparr>\<rparr>)"
    unfolding deliver_handles [OF plan cur] X_def [symmetric] Let_def bf by simp
  have base: "?base = of_nat b" using b(1) by simp
  have fr: "frame (deliver sv uv c st) c = enter_handler sig act ?base f"
    unfolding del by (simp add: on_frame_def st1(1))
  have mem: "kmem (kst (deliver sv uv c st)) = ?m" by (simp add: del on_frame_def)
  let ?tr3 = "\<lambda>a. uv_translate uv k3 (current_root sv c st3) a False"
  let ?f3 = "(frame st3 c)\<lparr>sepc := sepc f, regs := (regs f)[0 := regs (frame st3 c) ! 0]\<rparr>"
  note lf = load_frame [OF tr(2) shape refl untouched [unfolded mem] later(3)]
  have sp: "unat (context_sp (frame st3 c)) = b" using later(2) b(1) by simp
  have uo: "user_ok sv uv c b (FRAME_SIZE - 16) False st3 = (True, st3\<lparr>kst := k3\<rparr>)"
    by (rule user_ok_Some) (use ok3 b(2) in \<open>simp_all add: frame_sizes\<close>)
  have um: "user_map sv uv c False (st3\<lparr>kst := k3\<rparr>) = ?tr3"
    by (simp add: user_map_def current_root_def fun_eq_iff split: option.split)
  have sr: "sigreturn sv uv c st3 =
      upd s (\<lambda>p. p\<lparr>p_sig := (p_sig p)\<lparr>sg_mask := old AND NOT UNBLOCKABLE, sg_suspended := False\<rparr>\<rparr>)
        (on_frame c (\<lambda>_. mark_fp_dirty ?f3) (st3\<lparr>kst := k3, fpu := (fpu st3)(c := fpu st c)\<rparr>))"
    unfolding sigreturn_def Let_def sp uo prod.case um
    by (simp add: lf later(1) on_frame_def del: fun_upd_apply)
  have "length (regs f) = 32" by (rule shape(1))
  then show ?thesis unfolding fr sr
    by (simp add: base enter_handler_def context_sp_def on_frame_def upd_def mark_fp_dirty_def)
qed

text \<open>A Linux process with a handler for signal 10, which is pending, on a machine with a flat address space.\<close>

definition flat_vm :: "unit user_vm" where
  "flat_vm = \<lparr>uv_translate = (\<lambda>k root va wr. Some va), uv_fault = (\<lambda>root va wr k. (False, k))\<rparr>"

definition demo_action :: action where "demo_action = \<lparr>a_handler = 0x1000, a_flags = 0, a_restorer = 0, a_mask = 0\<rparr>"

definition signal_demo :: "unit sched" where
  "signal_demo = (sched_boot plain_world)\<lparr>
     procs := (\<lambda>_. empty_process)(0 := empty_process\<lparr>p_state := Running, p_abi := ABI_LINUX,
       p_sig := sig_new\<lparr>sg_pending := bit1 9\<rparr>\<rparr>),
     current := (\<lambda>_. None)(0 := Some 0), frame := (\<lambda>_. new_user 0x10000 0x20000),
     actions := (\<lambda>_. (replicate 64 DFL)[9 := demo_action])\<rparr>"

lemma demo_words: "(0x20000 - 1104 AND NOT 15 :: u64) = 129968" "trailing_zeros (bit1 9 :: u64) = 9"
  "bit1 9 \<noteq> (0 :: u64)"
  by code_simp+

lemma demo_plan: "\<exists>st1. plan_signal 0 0 signal_demo = (Handle 10 demo_action 0 None (0, 0, 0) False, st1)"
proof -
  have r: "ready_signals (p_sig (procs signal_demo 0)) = bit1 9"
    by (simp add: ready_signals_def signal_demo_def sig_new_def)
  have n: "SIGKILL \<noteq> 10" "\<not> synchronous 10" "p_abi (procs signal_demo 0) = ABI_LINUX"
    "demo_action = actions signal_demo (p_leader (procs signal_demo 0)) ! 9" "a_handler demo_action \<noteq> SIG_DFL"
    "a_handler demo_action \<noteq> SIG_IGN"
    by (simp_all add: SIGKILL_def synchronous_def SIGSEGV_def SIGBUS_def SIGILL_def SIGFPE_def SIGTRAP_def
        signal_demo_def demo_action_def SIG_DFL_def SIG_IGN_def)
  have "plan_signal 0 0 signal_demo = plan_handler 0 0 10 demo_action
      (set_sig 0 ((p_sig (procs signal_demo 0))\<lparr>sg_pending := sg_pending (p_sig (procs signal_demo 0)) AND NOT (bit1 9)\<rparr>) signal_demo)"
    using n(1,3,5,6) by (simp add: plan_signal_def Let_def r demo_words n(4) set_sig_def upd_def)
  then show ?thesis
    using n(2) by (simp add: plan_handler_def Let_def set_sig_def upd_def signal_demo_def sig_new_def
        demo_action_def empty_process_def)
qed

lemma flat_touch:
  "touch_pages flat_vm root 126976 (129968 + n) wr k = (True, k)" if "n \<le> 1104" "0 < n"
  using that by (simp add: touch_pages.simps [of _ _ 126976] touch_pages.simps [of _ _ 131072] flat_vm_def)

theorem signal_round_trip_witness:
  "\<exists>st3. sepc (frame (deliver plain_services flat_vm 0 signal_demo) 0) = 0x1000 \<and>
    sepc (frame st3 0) = 0x1004 \<and> sepc (frame (sigreturn plain_services flat_vm 0 st3) 0) = 0x10000 \<and>
    fpu (sigreturn plain_services flat_vm 0 st3) 0 = fpu signal_demo 0"
proof -
  let ?d = "deliver plain_services flat_vm 0 signal_demo"
  let ?st3 = "signal_demo\<lparr>frame := (\<lambda>_. new_user 0x1004 129968), kst := kst ?d\<rparr>"
  obtain st1 where p: "plan_signal 0 0 signal_demo = (Handle 10 demo_action 0 None (0, 0, 0) False, st1)"
    using demo_plan by blast
  have b: "129968 = unat (frame_base (frame signal_demo 0) None)"
    using demo_words(1) by (simp add: frame_base_def context_sp_def signal_demo_def new_user_def set_sp_def ctx_zeroed_def frame_sizes)
  have c: "current signal_demo 0 = Some 0" "current ?st3 0 = Some 0" by (simp_all add: signal_demo_def)
  have m: "maps (\<lambda>a. uv_translate flat_vm k r a True) 129968 FRAME_SIZE" for k r
    by (simp add: maps_def flat_vm_def inj_on_def)
  have l: "length (regs (new_user e s)) = 32" "context_sp (new_user e s) = s" for e s
    by (simp_all add: new_user_def set_sp_def ctx_zeroed_def context_sp_def)
  have st: "length (regs (frame signal_demo 0)) = 32" "length (fregs (fpu signal_demo 0)) = 32"
    "unat (fcsr (fpu signal_demo 0)) < 2 ^ 32" "sepc (frame signal_demo 0) = 0x10000"
    by (simp_all add: signal_demo_def l sched_boot_def fp_zeroed_def) (simp add: new_user_def)
  have t: "touch_pages flat_vm r (129968 div 4096 * 4096) (129968 + FRAME_SIZE) True k = (True, k)"
    "touch_pages flat_vm r (129968 div 4096 * 4096) (129968 + (FRAME_SIZE - 16)) False k = (True, k)" for r k
    using flat_touch [of 1104 r True k] flat_touch [of 1088 r False k] by (simp_all add: frame_sizes)
  have "sepc (frame ?d 0) = a_handler demo_action \<and> context_sp (frame ?d 0) = of_nat 129968 \<and>
    regs (frame ?d 0) ! 10 = of_nat 10 \<and>
    regs (frame (sigreturn plain_services flat_vm 0 ?st3) 0) = (regs (frame signal_demo 0))[0 := regs (frame ?st3 0) ! 0] \<and>
    sepc (frame (sigreturn plain_services flat_vm 0 ?st3) 0) = sepc (frame signal_demo 0) \<and>
    fpu (sigreturn plain_services flat_vm 0 ?st3) 0 = fpu signal_demo 0 \<and>
    sg_mask (p_sig (procs (sigreturn plain_services flat_vm 0 ?st3) 0)) = 0 AND NOT UNBLOCKABLE"
    by (rule signal_round_trip [OF c(1) p _ b _ t(1) refl m st(1-3) c(2) _ _ t(2)])
      (simp_all add: l frame_sizes u64_max_def flat_vm_def)
  then show ?thesis by (intro exI [of _ ?st3]) (simp add: st demo_action_def new_user_def set_sp_def ctx_zeroed_def)
qed

text \<open>C37. What a program can do by forging a frame: \<open>sigreturn\<close> takes the registers and the program counter from
  user memory, but the status register keeps every bit except the floating-point state, so the CPU returns to the
  privilege level it came from; register 0 stays; \<open>SIGKILL\<close> and \<open>SIGSTOP\<close> are not masked; and no other
  process, no other CPU and no physical page changes, apart from pages \<open>user_ok\<close> faulted in.\<close>

theorem sigreturn_confined:
  assumes "current st c = Some s"
    and "user_ok sv uv c (unat (context_sp (frame st c))) (FRAME_SIZE - 16) False st = (True, st1)"
  shows "sstatus (frame (sigreturn sv uv c st) c) = sstatus (frame st c) OR SSTATUS_FS \<and>
    returns_to_user (frame (sigreturn sv uv c st) c) = returns_to_user (frame st c) \<and>
    (0 < length (regs (frame st c)) \<longrightarrow> regs (frame (sigreturn sv uv c st) c) ! 0 = regs (frame st c) ! 0) \<and>
    sg_mask (p_sig (procs (sigreturn sv uv c st) s)) AND UNBLOCKABLE = 0 \<and>
    (\<forall>i. i \<noteq> s \<longrightarrow> procs (sigreturn sv uv c st) i = procs st i) \<and>
    (\<forall>d. d \<noteq> c \<longrightarrow> frame (sigreturn sv uv c st) d = frame st d \<and> fpu (sigreturn sv uv c st) d = fpu st d) \<and>
    kst (sigreturn sv uv c st) = kst st1"
proof -
  obtain k where st1: "st1 = st\<lparr>kst := k\<rparr>"
    using assms(2) by (auto simp: user_ok_def Let_def frame_sizes split: if_splits option.splits prod.splits)
  obtain f fp where f: "load_mcontext (user_map sv uv c False st1) (kmem (kst st1))
      (unat (context_sp (frame st c)) + SI_SIZE + UC_MCTX) (frame st c) = (f, fp)" by fastforce
  define msk where "msk = r64 (user_map sv uv c False st1) (kmem (kst st1)) (unat (context_sp (frame st c)) + SI_SIZE + UC_SIGMASK)"
  have sr: "sigreturn sv uv c st =
      upd s (\<lambda>p. p\<lparr>p_sig := (p_sig p)\<lparr>sg_mask := msk AND NOT UNBLOCKABLE, sg_suspended := False\<rparr>\<rparr>)
        (on_frame c (\<lambda>_. mark_fp_dirty f) (st1\<lparr>fpu := (fpu st1)(c := fp)\<rparr>))"
    using f assms(1) by (simp add: sigreturn_def Let_def assms(2) msk_def) (simp add: st1 on_frame_def)
  have ff: "sstatus f = sstatus (frame st c)" "0 < length (regs (frame st c)) \<Longrightarrow> regs f ! 0 = regs (frame st c) ! 0"
    using f by (auto simp: load_mcontext_def nth_set_fold)
  have "SSTATUS_FS AND SSTATUS_SPP = 0" by code_simp
  then have spp: "(x OR SSTATUS_FS) AND SSTATUS_SPP = x AND SSTATUS_SPP" for x
    by (simp add: bit.conj_disj_distrib2)
  have "(msk AND NOT UNBLOCKABLE) AND UNBLOCKABLE = 0"
    by (simp add: bit_eq_iff [of _ 0] bit_and_iff bit_not_iff)
  then show ?thesis unfolding sr
    using ff spp [of "sstatus (frame st c)"]
    by (simp add: st1 upd_def on_frame_def mark_fp_dirty_def returns_to_user_def)
qed

theorem sigreturn_confined_witness:
  "returns_to_user (frame (sigreturn plain_services flat_vm 0 signal_demo) 0) \<and>
   sg_mask (p_sig (procs (sigreturn plain_services flat_vm 0 signal_demo) 0)) AND UNBLOCKABLE = 0"
proof -
  have c: "current signal_demo 0 = Some 0" by (simp add: signal_demo_def)
  have t: "touch_pages flat_vm r 131072 (131072 + 1088) False k = (True, k)" for r k
    by (simp add: touch_pages.simps [of _ _ 131072] touch_pages.simps [of _ _ 135168] flat_vm_def)
  have sp: "unat (context_sp (frame signal_demo 0)) = 131072"
    by (simp add: signal_demo_def new_user_def set_sp_def ctx_zeroed_def context_sp_def)
  have "user_ok plain_services flat_vm 0 (unat (context_sp (frame signal_demo 0))) (FRAME_SIZE - 16) False signal_demo =
      (True, signal_demo\<lparr>kst := kst signal_demo\<rparr>)"
    unfolding sp by (rule user_ok_Some) (use t in \<open>simp_all add: frame_sizes u64_max_def\<close>)
  note x = sigreturn_confined [OF c this]
  have "(SSTATUS_SPIE OR SSTATUS_SUM OR FS_INITIAL) AND SSTATUS_SPP = 0" by code_simp
  then have "returns_to_user (frame signal_demo 0)"
    by (simp add: signal_demo_def returns_to_user_def new_user_def)
  then show ?thesis using x by simp
qed

definition can_deliver :: "sig_thread \<Rightarrow> nat \<Rightarrow> bool" where
  "can_deliver g sig \<longleftrightarrow> 1 \<le> sig \<and> bit (sg_pending g) (sig - 1) \<and>
     (\<not> bit (sg_mask g) (sig - 1) \<or> sig = SIGKILL \<or> sig = SIGSTOP)"

lemma bit_UNBLOCKABLE: "bit UNBLOCKABLE n \<longleftrightarrow> n = SIGKILL - 1 \<or> n = SIGSTOP - 1"
  by (auto simp: UNBLOCKABLE_def bit_or_iff bit_bit1 SIGKILL_def SIGSTOP_def)

lemma bit_unmasked: "bit ((p :: u64) AND NOT (m AND NOT u)) n \<longleftrightarrow> bit p n \<and> (\<not> bit m n \<or> bit u n)"
  by (auto simp: bit_simps dest: bit_imp_le_length)

lemma bit_ready: "bit (ready_signals g) n \<longleftrightarrow> can_deliver g (n + 1)"
proof -
  have "n + 1 = SIGKILL \<longleftrightarrow> n = SIGKILL - 1" "n + 1 = SIGSTOP \<longleftrightarrow> n = SIGSTOP - 1"
    by (auto simp: SIGKILL_def SIGSTOP_def)
  then show ?thesis
    unfolding ready_signals_def can_deliver_def bit_unmasked bit_UNBLOCKABLE by simp
qed

lemma bit_handler_mask:
  assumes "k < 64"
  shows "bit ((let m = old OR am in if q then m OR bit1 k else m) AND NOT UNBLOCKABLE :: u64) n \<longleftrightarrow>
    (bit old n \<or> bit am n \<or> (n = k \<and> q)) \<and> n \<noteq> SIGKILL - 1 \<and> n \<noteq> SIGSTOP - 1"
  using assms by (auto simp: Let_def bit_simps bit_bit1 bit_UNBLOCKABLE dest: bit_imp_le_length)

lemma lowest_ready:
  assumes "ready_signals g \<noteq> 0" "sig = trailing_zeros (ready_signals g) + 1"
  shows "can_deliver g sig" "n < sig \<Longrightarrow> \<not> can_deliver g n"
proof -
  show "can_deliver g sig" using bit_trailing_zeros [OF assms(1)] assms(2) by (simp add: bit_ready)
  assume n: "n < sig"
  show "\<not> can_deliver g n"
  proof
    assume d: "can_deliver g n"
    then have "bit (ready_signals g) (n - 1)" "n - 1 < trailing_zeros (ready_signals g)"
      using n assms(2) by (auto simp: bit_ready can_deliver_def)
    then show False using below_trailing_zeros [OF assms(1)] by blast
  qed
qed

lemma ready_none: "ready_signals g = 0 \<longleftrightarrow> (\<forall>n. \<not> can_deliver g n)"
proof
  assume "ready_signals g = 0"
  then have "\<not> can_deliver g (n + 1)" for n using bit_ready [of g n] by simp
  moreover have "\<not> can_deliver g 0" by (simp add: can_deliver_def)
  ultimately show "\<forall>n. \<not> can_deliver g n" by (metis not0_implies_Suc Suc_eq_plus1)
next
  assume "\<forall>n. \<not> can_deliver g n"
  then show "ready_signals g = 0" by (simp add: bit_eq_iff [of "ready_signals g"] bit_ready)
qed

lemma plan_handler_parts:
  assumes "plan_handler c s sig a st = (pl, st')"
  defines "old \<equiv> if sg_suspended (p_sig (procs st s)) then sg_saved (p_sig (procs st s)) else sg_mask (p_sig (procs st s))"
  shows "\<exists>alt i e. pl = Handle sig a old alt i e" "sg_pending (p_sig (procs st' s)) = sg_pending (p_sig (procs st s))"
    "sg_mask (p_sig (procs st' s)) =
      (let m = old OR a_mask a in if a_flags a AND SA_NODEFER = 0 then m OR bit1 (sig - 1) else m) AND NOT UNBLOCKABLE"
proof -
  have p: "pl = fst (plan_handler c s sig a st)" "st' = snd (plan_handler c s sig a st)" using assms(1) by simp_all
  show "\<exists>alt i e. pl = Handle sig a old alt i e" unfolding p old_def plan_handler_def Let_def fst_conv by blast
  show "sg_pending (p_sig (procs st' s)) = sg_pending (p_sig (procs st s))"
    unfolding p plan_handler_def Let_def snd_conv by (simp add: upd_def)
  show "sg_mask (p_sig (procs st' s)) =
      (let m = old OR a_mask a in if a_flags a AND SA_NODEFER = 0 then m OR bit1 (sig - 1) else m) AND NOT UNBLOCKABLE"
    unfolding p plan_handler_def Let_def snd_conv old_def by (simp add: upd_def)
qed

text \<open>Which signal a thread of a Linux process takes, and how: none when every pending signal is blocked
  (\<open>SIGKILL\<close> and \<open>SIGSTOP\<close> cannot be). Otherwise the one with the lowest number among the deliverable ones, which
  stops being pending while all others stay; \<open>SIGKILL\<close> always ends the process; a handler is entered only for an
  action that has one, and runs with the old mask, the mask of its action and (unless \<open>SA_NODEFER\<close>) its own
  signal blocked, never \<open>SIGKILL\<close> or \<open>SIGSTOP\<close>.\<close>

theorem signal_choice:
  fixes st :: "'a sched"
  assumes "p_abi (procs st s) = ABI_LINUX" and "plan_signal c s st = (pl, st')"
  shows "(if \<forall>n. \<not> can_deliver (p_sig (procs st s)) n then pl = NoSignal \<and> st' = st
    else \<exists>sig. can_deliver (p_sig (procs st s)) sig \<and> (\<forall>n < sig. \<not> can_deliver (p_sig (procs st s)) n) \<and>
      (\<forall>n. bit (sg_pending (p_sig (procs st' s))) n \<longleftrightarrow> bit (sg_pending (p_sig (procs st s))) n \<and> n \<noteq> sig - 1) \<and>
      (sig = SIGKILL \<longrightarrow> pl = Fatal sig) \<and>
      (case pl of NoSignal \<Rightarrow> True | Fatal m \<Rightarrow> m = sig
       | Handle m act old alt si_info interrupted \<Rightarrow> m = sig \<and>
           act = actions st (p_leader (procs st s)) ! (sig - 1) \<and> a_handler act \<noteq> SIG_DFL \<and> a_handler act \<noteq> SIG_IGN \<and>
           old = (if sg_suspended (p_sig (procs st s)) then sg_saved (p_sig (procs st s)) else sg_mask (p_sig (procs st s))) \<and>
           (\<forall>n. bit (sg_mask (p_sig (procs st' s))) n \<longleftrightarrow>
             (bit old n \<or> bit (a_mask act) n \<or> (n = sig - 1 \<and> a_flags act AND SA_NODEFER = 0)) \<and>
             n \<noteq> SIGKILL - 1 \<and> n \<noteq> SIGSTOP - 1)))"
proof (cases "ready_signals (p_sig (procs st s)) = 0")
  case True
  then show ?thesis using assms by (auto simp: ready_none [symmetric] plan_signal_def Let_def)
next
  case False
  let ?g = "p_sig (procs st s)"
  define sig where "sig = trailing_zeros (ready_signals ?g) + 1"
  note low = lowest_ready [OF False sig_def]
  let ?st1 = "set_sig s (?g\<lparr>sg_pending := sg_pending ?g AND NOT (bit1 (sig - 1))\<rparr>) st"
  let ?a = "actions st (p_leader (procs st s)) ! (sig - 1)"
  have sig64: "sig - 1 < 64" using low(1) bit_imp_le_length [of "sg_pending ?g" "sig - 1"] by (simp add: can_deliver_def)
  have P: "(pl, st') = (if sig = SIGKILL \<or> a_handler ?a = SIG_DFL then
       (if default_ignored sig \<and> sig \<noteq> SIGKILL then NoSignal else Fatal sig, ?st1)
     else if a_handler ?a = SIG_IGN then (NoSignal, ?st1) else plan_handler c s sig ?a ?st1)"
  proof -
    have "actions ?st1 = actions st" by (simp add: set_sig_def upd_def)
    then show ?thesis unfolding assms(2) [symmetric] plan_signal_def Let_def sig_def [symmetric] using False assms(1) by simp
  qed
  have pend: "bit (sg_pending (p_sig (procs ?st1 s))) n \<longleftrightarrow> bit (sg_pending ?g) n \<and> n \<noteq> sig - 1" for n
    by (simp add: set_sig_def upd_def clear_bit1)
  have ex: "\<not> (\<forall>n. \<not> can_deliver ?g n)" using low(1) by blast
  show ?thesis
  proof (cases "sig = SIGKILL \<or> a_handler ?a = SIG_DFL \<or> a_handler ?a = SIG_IGN")
    case True
    then have "st' = ?st1" "pl = NoSignal \<or> pl = Fatal sig" "sig = SIGKILL \<longrightarrow> pl = Fatal sig"
      using P by (auto split: if_splits)
    then show ?thesis unfolding if_not_P [OF ex] using low pend by (intro exI [of _ sig]) auto
  next
    case F: False
    then have h: "plan_handler c s sig ?a ?st1 = (pl, st')" using P by simp
    define old where "old = (if sg_suspended ?g then sg_saved ?g else sg_mask ?g)"
    have same: "(if sg_suspended (p_sig (procs ?st1 s)) then sg_saved (p_sig (procs ?st1 s)) else sg_mask (p_sig (procs ?st1 s))) = old"
      by (simp add: set_sig_def upd_def old_def)
    note parts = plan_handler_parts [OF h, unfolded same]
    obtain alt i e where "pl = Handle sig ?a old alt i e" using parts(1) by blast
    moreover note parts(2,3)
    ultimately show ?thesis unfolding if_not_P [OF ex] using low pend F
      by (intro exI [of _ sig]) (simp only: bit_handler_mask [OF sig64], simp add: old_def)
  qed
qed

theorem signal_choice_witness:
  "\<exists>pl st'. plan_signal 0 0 signal_demo = (pl, st') \<and> (\<forall>n. \<not> bit (sg_pending (p_sig (procs st' 0))) n)"
proof -
  obtain st1 where p: "plan_signal 0 0 signal_demo = (Handle 10 demo_action 0 None (0, 0, 0) False, st1)"
    using demo_plan by blast
  have pend: "bit (sg_pending (p_sig (procs signal_demo 0))) n \<longleftrightarrow> n = 9" for n
    by (auto simp: signal_demo_def bit_bit1)
  have "can_deliver (p_sig (procs signal_demo 0)) 10"
    by (simp add: can_deliver_def pend) (simp add: signal_demo_def sig_new_def)
  moreover have "p_abi (procs signal_demo 0) = ABI_LINUX" by (simp add: signal_demo_def)
  ultimately have "\<not> bit (sg_pending (p_sig (procs st1 0))) n" for n
    using signal_choice [OF _ p] pend by (auto split: if_splits)
  then show ?thesis using p by blast
qed

end
