(* ===== verification/Bcache.thy ===== *)
theory Bcache
  imports Prelude
begin

text \<open>
  The block cache of the ext2 driver (\<open>kernel/src/ext2.rs\<close>, section cache): 2048 sets of 8 slots, write-back,
  least recently used within a set, flushed in runs of consecutive blocks, with read-ahead. All runs with the
  \<open>FS\<close> lock held.

  A slot carries its block's bytes (in the code they are in \<open>CACHE_MEM\<close>, one block per slot). The device is the
  map \<open>disk\<close> from block numbers to contents; whether the \<open>n\<close>-th request succeeds is \<open>answers n\<close>, and a request
  that fails may leave anything in the blocks or slots it was to fill (\<open>torn\<close>).
\<close>

section \<open>State\<close>

definition WAYS :: nat where "WAYS = 8"
definition SETS :: nat where "SETS = 2048"
definition SLOTS :: nat where "SLOTS = WAYS * SETS"
definition MAX_SEGS :: nat where "MAX_SEGS = 62"

record slot =
  s_blk :: nat
  s_valid :: bool
  s_dirty :: bool
  s_used :: u32
  s_data :: "u8 list"

definition slot_empty :: slot where
  "slot_empty = \<lparr>s_blk = 0, s_valid = False, s_dirty = False, s_used = 0, s_data = []\<rparr>"

record bcache =
  slots :: "slot list"
  dirty_n :: nat
  tick :: u32
  bs :: nat
  disk :: "nat \<Rightarrow> u8 list"
  answers :: "nat \<Rightarrow> bool"
  torn :: "nat \<Rightarrow> u8 list"
  reqs :: nat

text \<open>The set of a block, and its slots.\<close>

definition set_of :: "nat \<Rightarrow> nat" where
  "set_of b = (b * 0x9E3779B9 mod 2 ^ 64) div 2 ^ 8 mod SETS"

definition ways :: "nat \<Rightarrow> nat list" where
  "ways b = [set_of b * WAYS..<set_of b * WAYS + WAYS]"

definition holds :: "nat \<Rightarrow> slot \<Rightarrow> bool" where
  "holds b s \<longleftrightarrow> s_valid s \<and> s_blk s = b"

definition find_slot :: "nat \<Rightarrow> ('a bcache_scheme) \<Rightarrow> nat option" where
  "find_slot b st = List.find (\<lambda>i. holds b (slots st ! i)) (ways b)"

definition set_slot :: "nat \<Rightarrow> (slot \<Rightarrow> slot) \<Rightarrow> 'a bcache_scheme \<Rightarrow> 'a bcache_scheme" where
  "set_slot i f st = st\<lparr>slots := (slots st)[i := f (slots st ! i)]\<rparr>"

definition bump_tick :: "'a bcache_scheme \<Rightarrow> 'a bcache_scheme" where
  "bump_tick st = st\<lparr>tick := tick st + 1\<rparr>"

section \<open>The device\<close>

text \<open>\<open>disk_io\<close> and \<open>transfer_sg\<close>: one request writes or reads consecutive blocks from \<open>b\<close> on.\<close>

definition write_blocks :: "nat \<Rightarrow> u8 list list \<Rightarrow> 'a bcache_scheme \<Rightarrow> bool \<times> 'a bcache_scheme" where
  "write_blocks b ds st =
     (let ok = answers st (reqs st) in
      (ok, st\<lparr>reqs := reqs st + 1,
              disk := (\<lambda>x. if b \<le> x \<and> x < b + length ds then (if ok then ds ! (x - b) else torn st x) else disk st x)\<rparr>))"

definition read_blocks :: "nat \<Rightarrow> nat \<Rightarrow> 'a bcache_scheme \<Rightarrow> bool \<times> u8 list list \<times> 'a bcache_scheme" where
  "read_blocks b n st =
     (let ok = answers st (reqs st) in
      (ok, map (\<lambda>x. if ok then disk st x else torn st x) [b..<b + n], st\<lparr>reqs := reqs st + 1\<rparr>))"

section \<open>Getting a block\<close>

text \<open>The victim loop: the first invalid slot, or else the one used longest ago.\<close>

fun pick_victim :: "'a bcache_scheme \<Rightarrow> nat list \<Rightarrow> nat \<Rightarrow> nat" where
  "pick_victim st [] v = v"
| "pick_victim st (i # is) v =
     (if \<not> s_valid (slots st ! i) then i
      else pick_victim st is
        (if tick st - s_used (slots st ! v) < tick st - s_used (slots st ! i) then i else v))"

definition mark_clean :: "nat \<Rightarrow> 'a bcache_scheme \<Rightarrow> 'a bcache_scheme" where
  "mark_clean i st = (set_slot i (\<lambda>s. s\<lparr>s_dirty := False\<rparr>) st)\<lparr>dirty_n := dirty_n st - 1\<rparr>"

definition evict :: "nat \<Rightarrow> 'a bcache_scheme \<Rightarrow> bool \<times> 'a bcache_scheme" where
  "evict v st =
     (let s = slots st ! v in
      if s_valid s \<and> s_dirty s then
        let (ok, st) = write_blocks (s_blk s) [s_data s] st in
        (ok, if ok then mark_clean v st else st)
      else (True, st))"

definition take_slot :: "nat \<Rightarrow> nat \<Rightarrow> 'a bcache_scheme \<Rightarrow> 'a bcache_scheme" where
  "take_slot v b st =
     set_slot v (\<lambda>s. \<lparr>s_blk = b, s_valid = False, s_dirty = False, s_used = tick st, s_data = s_data s\<rparr>) st"

definition bget :: "nat \<Rightarrow> bool \<Rightarrow> 'a bcache_scheme \<Rightarrow> (errno + nat) \<times> 'a bcache_scheme" where
  "bget b ld st =
     (let st = bump_tick st in
      case find_slot b st of
        Some i \<Rightarrow> (Inr i, set_slot i (\<lambda>s. s\<lparr>s_used := tick st\<rparr>) st)
      | None \<Rightarrow>
          let v = pick_victim st (ways b) (hd (ways b)); (ok, st) = evict v st in
          if \<not> ok then (Inl EIO, st)
          else
            let st = take_slot v b st in
            if ld then
              let (ok, ds, st) = read_blocks b 1 st; st = set_slot v (\<lambda>s. s\<lparr>s_data := ds ! 0\<rparr>) st in
              if ok then (Inr v, set_slot v (\<lambda>s. s\<lparr>s_valid := True\<rparr>) st) else (Inl EIO, st)
            else
              (Inr v, (set_slot v (\<lambda>s. s\<lparr>s_data := replicate (bs st) 0, s_dirty := True, s_valid := True\<rparr>) st)
                 \<lparr>dirty_n := dirty_n st + 1\<rparr>))"

section \<open>Flushing\<close>

text \<open>The number of consecutive blocks at the head of the sorted list, at most \<open>n\<close>.\<close>

fun run_len :: "nat \<Rightarrow> nat \<Rightarrow> (nat \<times> nat) list \<Rightarrow> nat" where
  "run_len b 0 xs = 0"
| "run_len b (Suc n) [] = 0"
| "run_len b (Suc n) (x # xs) = (if fst x = b then Suc (run_len (b + 1) n xs) else 0)"

lemma run_len_pos: "0 < n \<Longrightarrow> 0 < run_len (fst x) n (x # xs)"
  by (cases n) auto

function flush_runs :: "(nat \<times> nat) list \<Rightarrow> bool \<Rightarrow> 'a bcache_scheme \<Rightarrow> bool \<times> 'a bcache_scheme" where
  "flush_runs [] ok st = (ok, st)"
| "flush_runs (x # xs) ok st =
     (let k = run_len (fst x) MAX_SEGS (x # xs); run = take k (x # xs);
          (good, st) = write_blocks (fst x) (map (\<lambda>e. s_data (slots st ! snd e)) run) st
      in if good then flush_runs (drop k (x # xs)) ok (fold (\<lambda>e. mark_clean (snd e)) run st)
         else flush_runs (drop k (x # xs)) False st)"
  by pat_completeness auto
termination
  by (relation "measure (\<lambda>(xs, ok, st). length xs)") (use run_len_pos in \<open>auto simp: MAX_SEGS_def\<close>)

declare flush_runs.simps(2) [simp del]

definition dirty_list :: "'a bcache_scheme \<Rightarrow> (nat \<times> nat) list" where
  "dirty_list st =
     map (\<lambda>i. (s_blk (slots st ! i), i)) (filter (\<lambda>i. s_valid (slots st ! i) \<and> s_dirty (slots st ! i)) [0..<SLOTS])"

definition flush_dirty :: "'a bcache_scheme \<Rightarrow> bool \<times> 'a bcache_scheme" where
  "flush_dirty st =
     (if dirty_n st = 0 then (True, st)
      else let ds = dirty_list st in
        if ds = [] then (True, st\<lparr>dirty_n := 0\<rparr>) else flush_runs (sort_key fst ds) True st)"

definition bdirty :: "nat \<Rightarrow> 'a bcache_scheme \<Rightarrow> 'a bcache_scheme" where
  "bdirty b st =
     (case find_slot b st of
        None \<Rightarrow> st
      | Some i \<Rightarrow>
          if s_dirty (slots st ! i) then st
          else let st = (set_slot i (\<lambda>s. s\<lparr>s_dirty := True\<rparr>) st)\<lparr>dirty_n := dirty_n st + 1\<rparr> in
            if dirty_n st \<ge> 256 then snd (flush_dirty st) else st)"

text \<open>The pattern of every write: change the bytes of the block \<open>bget\<close> returned, then \<open>bdirty\<close>.\<close>

definition modify :: "nat \<Rightarrow> nat \<Rightarrow> (u8 list \<Rightarrow> u8 list) \<Rightarrow> 'a bcache_scheme \<Rightarrow> 'a bcache_scheme" where
  "modify b i f st = bdirty b (set_slot i (\<lambda>s. s\<lparr>s_data := f (s_data s)\<rparr>) st)"

definition forget_slot :: "nat \<Rightarrow> nat \<Rightarrow> 'a bcache_scheme \<Rightarrow> 'a bcache_scheme" where
  "forget_slot b i st =
     (if holds b (slots st ! i) then
        let st = (if s_dirty (slots st ! i) then st\<lparr>dirty_n := dirty_n st - 1\<rparr> else st) in
        set_slot i (\<lambda>s. s\<lparr>s_valid := False, s_dirty := False\<rparr>) st
      else st)"

definition bforget :: "nat \<Rightarrow> 'a bcache_scheme \<Rightarrow> 'a bcache_scheme" where
  "bforget b st = fold (forget_slot b) (ways b) st"

definition cached :: "nat \<Rightarrow> 'a bcache_scheme \<Rightarrow> bool" where
  "cached b st \<longleftrightarrow> find_slot b st \<noteq> None"

section \<open>Reading ahead\<close>

text \<open>A clean slot for block \<open>b\<close>, the least recently used one (\<open>min_by_key\<close> takes the first minimum).\<close>

definition age_key :: "'a bcache_scheme \<Rightarrow> nat \<Rightarrow> u32" where
  "age_key st i = (if s_valid (slots st ! i) then s_used (slots st ! i) - tick st else 0)"

definition may_take :: "'a bcache_scheme \<Rightarrow> nat \<Rightarrow> bool" where
  "may_take st i \<longleftrightarrow> \<not> (s_valid (slots st ! i) \<and> (s_dirty (slots st ! i) \<or> s_used (slots st ! i) = tick st))"

fun first_min :: "('b \<Rightarrow> u32) \<Rightarrow> 'b list \<Rightarrow> 'b option" where
  "first_min f [] = None"
| "first_min f (x # xs) =
     (case first_min f xs of None \<Rightarrow> Some x | Some y \<Rightarrow> if f y < f x then Some y else Some x)"

fun claim_slots :: "nat \<Rightarrow> nat \<Rightarrow> 'a bcache_scheme \<Rightarrow> nat list \<times> 'a bcache_scheme" where
  "claim_slots b 0 st = ([], st)"
| "claim_slots b (Suc n) st =
     (if cached b st then ([], st)
      else case first_min (age_key st) (filter (may_take st) (ways b)) of
        None \<Rightarrow> ([], st)
      | Some v \<Rightarrow> let (vs, st) = claim_slots (b + 1) n (take_slot v b st) in (v # vs, st))"

definition prefetch :: "nat \<Rightarrow> nat \<Rightarrow> 'a bcache_scheme \<Rightarrow> 'a bcache_scheme" where
  "prefetch b n st =
     (let (vs, st) = claim_slots b (min n MAX_SEGS) (bump_tick st) in
      if vs = [] then st
      else
        let (ok, ds, st) = read_blocks b (length vs) st in
        fold (\<lambda>j. set_slot (vs ! j) (\<lambda>s. s\<lparr>s_data := ds ! j, s_valid := ok\<rparr>)) [0..<length vs] st)"

end
