(* ===== verification/Ext2.thy ===== *)
theory Ext2
  imports Bcache
begin

text \<open>
  The ext2 driver (\<open>kernel/src/ext2.rs\<close>) above its block cache: superblock, group descriptors, bitmaps, inodes,
  the map from logical to physical blocks, reading, writing and truncating. Directories and paths are in
  \<open>Ext2_Dirs\<close>.

  Block numbers, sizes and counters are \<open>nat\<close>; what the code stores in 16 or 32 bits is cut when it is written
  to a block. The superblock's sectors are a field of their own (\<open>sb_disk\<close>): no other operation touches them.
  The real-time clock is the field \<open>rtc\<close>. Offsets read from damaged metadata that point past the end of a block
  read fewer bytes here, where the code reads the next slot's.
\<close>

section \<open>State\<close>

record inode =
  i_mode :: u16
  i_uid :: nat
  i_size_lo :: nat
  i_atime :: nat
  i_ctime :: nat
  i_mtime :: nat
  i_dtime :: nat
  i_gid :: nat
  i_links :: nat
  i_blocks512 :: nat
  i_flags :: nat
  i_osd1 :: nat
  i_block :: "nat list"
  i_generation :: nat
  i_file_acl :: nat
  i_size_hi :: nat
  i_faddr :: nat
  i_osd2 :: "u8 list"

record dentry =
  d_dir :: nat
  d_ino :: nat
  d_ft :: nat
  d_valid :: bool
  d_name :: "u8 list"

record ext2 = bcache +
  ppb :: nat
  nblocks :: nat
  ninodes :: nat
  bpg :: nat
  ipg :: nat
  groups :: nat
  first_data :: nat
  inode_size :: nat
  gdt_block :: nat
  free_blocks :: nat
  free_inodes :: nat
  mounted :: bool
  sb :: "u8 list"
  sb_counts :: "nat \<times> nat"
  sb_disk :: "u8 list"
  icache :: "(nat \<times> inode) list"
  dcache :: "dentry list"
  rtc :: nat

type_synonym 'a fsres = "(errno + 'a) \<times> ext2"

definition ROOT_INODE :: nat where "ROOT_INODE = 2"
definition S_IFMT :: u16 where "S_IFMT = 0xF000"
definition S_IFREG :: u16 where "S_IFREG = 0x8000"
definition S_IFDIR :: u16 where "S_IFDIR = 0x4000"
definition S_IFLNK :: u16 where "S_IFLNK = 0xA000"
definition MAGIC :: nat where "MAGIC = 0xEF53"
definition INCOMPAT_FILETYPE :: u32 where "INCOMPAT_FILETYPE = 2"
definition RO_SPARSE :: u32 where "RO_SPARSE = 1"
definition RO_LARGE_FILE :: u32 where "RO_LARGE_FILE = 2"
definition ICACHE_SLOTS :: nat where "ICACHE_SLOTS = 1024"

definition inode_zeroed :: inode where
  "inode_zeroed = \<lparr>i_mode = 0, i_uid = 0, i_size_lo = 0, i_atime = 0, i_ctime = 0, i_mtime = 0, i_dtime = 0, i_gid = 0,
     i_links = 0, i_blocks512 = 0, i_flags = 0, i_osd1 = 0, i_block = replicate 15 0, i_generation = 0, i_file_acl = 0,
     i_size_hi = 0, i_faddr = 0, i_osd2 = replicate 12 0\<rparr>"

definition i_kind :: "inode \<Rightarrow> u16" where "i_kind n = i_mode n AND S_IFMT"
definition is_dir :: "inode \<Rightarrow> bool" where "is_dir n \<longleftrightarrow> i_kind n = S_IFDIR"
definition i_size :: "inode \<Rightarrow> nat" where
  "i_size n = (if i_kind n = S_IFREG then i_size_lo n + i_size_hi n * 2 ^ 32 else i_size_lo n)"
definition set_size :: "nat \<Rightarrow> inode \<Rightarrow> inode" where
  "set_size s n = n\<lparr>i_size_lo := s mod 2 ^ 32, i_size_hi := (if i_kind n = S_IFREG then s div 2 ^ 32 mod 2 ^ 32 else i_size_hi n)\<rparr>"
definition fast_symlink :: "inode \<Rightarrow> bool" where "fast_symlink n \<longleftrightarrow> i_kind n = S_IFLNK \<and> i_blocks512 n = 0"

section \<open>Integers in blocks\<close>

definition int_at :: "nat \<Rightarrow> u8 list \<Rightarrow> nat \<Rightarrow> nat" where
  "int_at k d off = le_val (take k (drop off d))"

definition splice :: "nat \<Rightarrow> u8 list \<Rightarrow> u8 list \<Rightarrow> u8 list" where
  "splice off new d = take off d @ new @ drop (off + length new) d"

definition with_block :: "nat \<Rightarrow> (nat \<Rightarrow> u8 list \<Rightarrow> ext2 \<Rightarrow> 'a fsres) \<Rightarrow> ext2 \<Rightarrow> 'a fsres" where
  "with_block b k st = and_then (bget b True st) (\<lambda>i st. k i (s_data (slots st ! i)) st)"

definition rd32 :: "nat \<Rightarrow> nat \<Rightarrow> ext2 \<Rightarrow> nat fsres" where
  "rd32 b off = with_block b (\<lambda>i d st. (Inr (int_at 4 d off), st))"

definition wr32 :: "nat \<Rightarrow> nat \<Rightarrow> nat \<Rightarrow> ext2 \<Rightarrow> unit fsres" where
  "wr32 b off v = with_block b (\<lambda>i d st. (Inr (), modify b i (splice off (le_bytes 4 v)) st))"

section \<open>Superblock\<close>

definition sb_u32 :: "ext2 \<Rightarrow> nat \<Rightarrow> nat" where "sb_u32 st off = int_at 4 (sb st) off"
definition sb_u16 :: "ext2 \<Rightarrow> nat \<Rightarrow> nat" where "sb_u16 st off = int_at 2 (sb st) off"

text \<open>\<open>mount\<close>; \<open>mem\<close> says whether \<open>alloc_contig\<close> found the memory of the cache.\<close>

definition mount :: "bool \<Rightarrow> ext2 \<Rightarrow> bool \<times> ext2" where
  "mount mem st =
     (let ok = answers st (reqs st); st = st\<lparr>reqs := reqs st + 1, sb := (if ok then sb_disk st else sb st)\<rparr> in
      if \<not> ok \<or> sb_u16 st 56 \<noteq> MAGIC then (False, st)
      else
        let rev = sb_u32 st 76;
            incompat = (if rev \<ge> 1 then of_nat (sb_u32 st 96) else 0 :: u32);
            ro = (if rev \<ge> 1 then of_nat (sb_u32 st 100) else 0 :: u32)
        in if incompat AND NOT INCOMPAT_FILETYPE \<noteq> 0 \<or> ro AND NOT (RO_SPARSE OR RO_LARGE_FILE) \<noteq> 0 then (False, st)
           else
             let st = st\<lparr>bs := 1024 * 2 ^ (sb_u32 st 24 mod 64) mod 2 ^ 64\<rparr> in
             if bs st > 4096 then (False, st)
             else
               let st = st\<lparr>ppb := bs st div 4, ninodes := sb_u32 st 0, nblocks := sb_u32 st 4, free_blocks := sb_u32 st 12,
                           free_inodes := sb_u32 st 16, first_data := sb_u32 st 20, bpg := sb_u32 st 32, ipg := sb_u32 st 40,
                           inode_size := (if rev \<ge> 1 then sb_u16 st 88 else 128)\<rparr>;
                   st = st\<lparr>groups := div_ceil ((2 ^ 32 + nblocks st - first_data st) mod 2 ^ 32) (bpg st), gdt_block := first_data st + 1,
                           sb_counts := (free_blocks st, free_inodes st)\<rparr>
               in if \<not> mem then (False, st) else (True, st\<lparr>mounted := True\<rparr>))"

definition flush_super :: "ext2 \<Rightarrow> bool \<times> ext2" where
  "flush_super st =
     (let s = splice 48 (le_bytes 4 (rtc st)) (splice 16 (le_bytes 4 (free_inodes st)) (splice 12 (le_bytes 4 (free_blocks st)) (sb st)));
          ok = answers st (reqs st)
      in (ok, st\<lparr>sb := s, reqs := reqs st + 1, sb_disk := (if ok then s else sb_disk st)\<rparr>))"

definition sync :: "ext2 \<Rightarrow> bool \<times> ext2" where
  "sync st =
     (let (ok, st) =
            (if mounted st \<and> sb_counts st \<noteq> (free_blocks st, free_inodes st)
             then let (ok, st) = flush_super st in (ok, st\<lparr>sb_counts := (free_blocks st, free_inodes st)\<rparr>)
             else (True, st));
          (fl, st) = flush_dirty st
      in (fl \<and> ok, st))"

section \<open>Groups and bitmaps\<close>

definition GD_BLOCK_BITMAP :: nat where "GD_BLOCK_BITMAP = 0"
definition GD_INODE_BITMAP :: nat where "GD_INODE_BITMAP = 4"
definition GD_INODE_TABLE :: nat where "GD_INODE_TABLE = 8"
definition GD_FREE_BLOCKS :: nat where "GD_FREE_BLOCKS = 12"
definition GD_FREE_INODES :: nat where "GD_FREE_INODES = 14"
definition GD_USED_DIRS :: nat where "GD_USED_DIRS = 16"

definition gd_off :: "nat \<Rightarrow> ext2 \<Rightarrow> nat \<times> nat" where
  "gd_off g st = (let per = bs st div 32 in (gdt_block st + g div per, g mod per * 32))"

definition gd_u32 :: "nat \<Rightarrow> nat \<Rightarrow> ext2 \<Rightarrow> nat fsres" where
  "gd_u32 g field st = (let (b, off) = gd_off g st in rd32 b (off + field) st)"

definition gd_add16 :: "nat \<Rightarrow> nat \<Rightarrow> int \<Rightarrow> ext2 \<Rightarrow> unit fsres" where
  "gd_add16 g field delta st =
     (let (b, off) = gd_off g st in
      with_block b (\<lambda>i d st. (Inr (), modify b i
        (splice (off + field) (le_bytes 2 (nat (max (int (int_at 2 d (off + field)) + delta) 0)))) st)) st)"

text \<open>The scan of a bitmap word by word for a zero bit below \<open>limit\<close>.\<close>

definition word_at :: "u8 list \<Rightarrow> nat \<Rightarrow> u64" where
  "word_at d w = of_nat (int_at 8 d (w * 8))"

fun bitmap_scan :: "u8 list \<Rightarrow> nat \<Rightarrow> nat list \<Rightarrow> nat option" where
  "bitmap_scan d limit [] = None"
| "bitmap_scan d limit (w # ws) =
     (if word_at d w = - 1 then bitmap_scan d limit ws
      else let idx = w * 64 + trailing_zeros (NOT (word_at d w)) in if idx \<ge> limit then None else Some idx)"

definition set_bit_at :: "nat \<Rightarrow> u8 list \<Rightarrow> u8 list" where
  "set_bit_at idx d = splice (idx div 64 * 8) (le_bytes 8 (unat (word_at d (idx div 64) OR bit1 (idx mod 64)))) d"

definition bitmap_take :: "nat \<Rightarrow> nat \<Rightarrow> ext2 \<Rightarrow> nat option fsres" where
  "bitmap_take bm limit = with_block bm (\<lambda>i d st.
     case bitmap_scan d limit [0..<div_ceil limit 64] of
       None \<Rightarrow> (Inr None, st)
     | Some idx \<Rightarrow> (Inr (Some idx), modify bm i (set_bit_at idx) st))"

definition bit_set_at :: "nat \<Rightarrow> u8 list \<Rightarrow> bool" where
  "bit_set_at idx d \<longleftrightarrow> (d ! (idx div 8)) AND bit1 (idx mod 8) \<noteq> 0"

definition clear_bit_at :: "nat \<Rightarrow> u8 list \<Rightarrow> u8 list" where
  "clear_bit_at idx d = d[idx div 8 := (d ! (idx div 8)) AND NOT (bit1 (idx mod 8))]"

definition bitmap_clear :: "nat \<Rightarrow> nat \<Rightarrow> ext2 \<Rightarrow> bool fsres" where
  "bitmap_clear bm idx = with_block bm (\<lambda>i d st. (Inr (bit_set_at idx d), modify bm i (clear_bit_at idx) st))"

fun alloc_block_loop :: "nat list \<Rightarrow> nat \<Rightarrow> ext2 \<Rightarrow> nat fsres" where
  "alloc_block_loop [] goal st = (Inl ENOSPC, st)"
| "alloc_block_loop (k # ks) goal st =
     (let g = (goal + k) mod groups st in
      and_then (gd_u32 g GD_FREE_BLOCKS st) (\<lambda>free st.
        if free mod 2 ^ 16 = 0 then alloc_block_loop ks goal st
        else and_then (gd_u32 g GD_BLOCK_BITMAP st) (\<lambda>bm st.
          and_then (bitmap_take bm (min (nblocks st - first_data st - g * bpg st) (bpg st)) st) (\<lambda>r st.
            case r of
              None \<Rightarrow> alloc_block_loop ks goal st
            | Some i \<Rightarrow>
                and_then (gd_add16 g GD_FREE_BLOCKS (- 1) st) (\<lambda>_ st.
                  let st = st\<lparr>free_blocks := free_blocks st - 1\<rparr>; b = first_data st + g * bpg st + i in
                  and_then (bget b False st) (\<lambda>_ st. (Inr b, st)))))))"

definition alloc_block :: "nat \<Rightarrow> ext2 \<Rightarrow> nat fsres" where
  "alloc_block goal st =
     (if free_blocks st = 0 then (Inl ENOSPC, st) else alloc_block_loop [0..<groups st] goal st)"

definition free_block :: "nat \<Rightarrow> ext2 \<Rightarrow> unit fsres" where
  "free_block b st =
     (if b < first_data st \<or> b \<ge> nblocks st then (Inr (), st)
      else
        let g = (b - first_data st) div bpg st in
        and_then (gd_u32 g GD_BLOCK_BITMAP st) (\<lambda>bm st.
          and_then (bitmap_clear bm ((b - first_data st) mod bpg st) st) (\<lambda>was st.
            and_then (if was then and_then (gd_add16 g GD_FREE_BLOCKS 1 st) (\<lambda>_ st. (Inr (), st\<lparr>free_blocks := free_blocks st + 1\<rparr>))
                      else (Inr (), st))
              (\<lambda>_ st. (Inr (), bforget b st)))))"

fun alloc_inode_loop :: "nat list \<Rightarrow> bool \<Rightarrow> nat \<Rightarrow> ext2 \<Rightarrow> nat fsres" where
  "alloc_inode_loop [] dir goal st = (Inl ENOSPC, st)"
| "alloc_inode_loop (k # ks) dir goal st =
     (let g = (goal + k) mod groups st in
      and_then (gd_u32 g GD_FREE_INODES st) (\<lambda>free st.
        if free mod 2 ^ 16 = 0 then alloc_inode_loop ks dir goal st
        else and_then (gd_u32 g GD_INODE_BITMAP st) (\<lambda>bm st.
          and_then (bitmap_take bm (ipg st) st) (\<lambda>r st.
            case r of
              None \<Rightarrow> alloc_inode_loop ks dir goal st
            | Some i \<Rightarrow>
                and_then (gd_add16 g GD_FREE_INODES (- 1) st) (\<lambda>_ st.
                  and_then (if dir then gd_add16 g GD_USED_DIRS 1 st else (Inr (), st)) (\<lambda>_ st.
                    (Inr (g * ipg st + i + 1), st\<lparr>free_inodes := free_inodes st - 1\<rparr>)))))))"

definition alloc_inode :: "bool \<Rightarrow> nat \<Rightarrow> ext2 \<Rightarrow> nat fsres" where
  "alloc_inode dir goal st =
     (if free_inodes st = 0 then (Inl ENOSPC, st) else alloc_inode_loop [0..<groups st] dir goal st)"

definition icache_inv :: "nat \<Rightarrow> ext2 \<Rightarrow> ext2" where
  "icache_inv ino st =
     (let idx = ino mod ICACHE_SLOTS; e = icache st ! idx in
      if fst e = ino then st\<lparr>icache := (icache st)[idx := (0, snd e)]\<rparr> else st)"

definition free_inode :: "nat \<Rightarrow> bool \<Rightarrow> ext2 \<Rightarrow> unit fsres" where
  "free_inode ino dir st =
     (let g = (ino - 1) div ipg st in
      and_then (gd_u32 g GD_INODE_BITMAP st) (\<lambda>bm st.
        and_then (bitmap_clear bm ((ino - 1) mod ipg st) st) (\<lambda>was st.
          and_then
            (if was then
               and_then (gd_add16 g GD_FREE_INODES 1 st) (\<lambda>_ st.
                 and_then (if dir then gd_add16 g GD_USED_DIRS (- 1) st else (Inr (), st)) (\<lambda>_ st.
                   (Inr (), st\<lparr>free_inodes := free_inodes st + 1\<rparr>)))
             else (Inr (), st))
            (\<lambda>_ st. (Inr (), icache_inv ino st)))))"

section \<open>Inodes\<close>

text \<open>\<open>read_unaligned\<close> and \<open>write_unaligned\<close> of the packed \<open>Inode\<close>, 128 bytes.\<close>

definition decode_inode :: "u8 list \<Rightarrow> inode" where
  "decode_inode d = \<lparr>i_mode = of_nat (int_at 2 d 0), i_uid = int_at 2 d 2, i_size_lo = int_at 4 d 4, i_atime = int_at 4 d 8,
     i_ctime = int_at 4 d 12, i_mtime = int_at 4 d 16, i_dtime = int_at 4 d 20, i_gid = int_at 2 d 24, i_links = int_at 2 d 26,
     i_blocks512 = int_at 4 d 28, i_flags = int_at 4 d 32, i_osd1 = int_at 4 d 36,
     i_block = map (\<lambda>k. int_at 4 d (40 + 4 * k)) [0..<15], i_generation = int_at 4 d 100, i_file_acl = int_at 4 d 104,
     i_size_hi = int_at 4 d 108, i_faddr = int_at 4 d 112, i_osd2 = take 12 (drop 116 d)\<rparr>"

definition encode_inode :: "inode \<Rightarrow> u8 list" where
  "encode_inode n =
     le_bytes 2 (unat (i_mode n)) @ le_bytes 2 (i_uid n) @ le_bytes 4 (i_size_lo n) @ le_bytes 4 (i_atime n) @
     le_bytes 4 (i_ctime n) @ le_bytes 4 (i_mtime n) @ le_bytes 4 (i_dtime n) @ le_bytes 2 (i_gid n) @ le_bytes 2 (i_links n) @
     le_bytes 4 (i_blocks512 n) @ le_bytes 4 (i_flags n) @ le_bytes 4 (i_osd1 n) @ concat (map (le_bytes 4) (i_block n)) @
     le_bytes 4 (i_generation n) @ le_bytes 4 (i_file_acl n) @ le_bytes 4 (i_size_hi n) @ le_bytes 4 (i_faddr n) @ i_osd2 n"

definition icache_put :: "nat \<Rightarrow> inode \<Rightarrow> ext2 \<Rightarrow> ext2" where
  "icache_put ino n st = st\<lparr>icache := (icache st)[ino mod ICACHE_SLOTS := (ino, n)]\<rparr>"

definition inode_loc :: "nat \<Rightarrow> ext2 \<Rightarrow> (nat \<times> nat) fsres" where
  "inode_loc ino st =
     (if ino = 0 \<or> ino > ninodes st then (Inl EINVAL, st)
      else
        let g = (ino - 1) div ipg st; idx = (ino - 1) mod ipg st in
        and_then (gd_u32 g GD_INODE_TABLE st) (\<lambda>table st.
          let byte = idx * inode_size st in (Inr (table + byte div bs st, byte mod bs st), st)))"

definition read_inode :: "nat \<Rightarrow> ext2 \<Rightarrow> inode fsres" where
  "read_inode ino st =
     (let e = icache st ! (ino mod ICACHE_SLOTS) in
      if ino \<noteq> 0 \<and> fst e = ino then (Inr (snd e), st)
      else and_then (inode_loc ino st) (\<lambda>(b, off). with_block b (\<lambda>i d st.
        let n = decode_inode (take 128 (drop off d)) in (Inr n, icache_put ino n st))))"

definition write_inode :: "nat \<Rightarrow> inode \<Rightarrow> ext2 \<Rightarrow> unit fsres" where
  "write_inode ino n st =
     and_then (inode_loc ino st) (\<lambda>(b, off). with_block b (\<lambda>i d st.
       (Inr (), icache_put ino n (modify b i (splice off (encode_inode n)) st))))"

definition group_of :: "nat \<Rightarrow> ext2 \<Rightarrow> nat" where
  "group_of ino st = (ino - 1) div ipg st"

section \<open>The block map\<close>

text \<open>The indices on the way to logical block \<open>l\<close>: the entry of the inode, then one per level of indirection (the
  code's depth is their number less one).\<close>

definition block_path :: "nat \<Rightarrow> nat \<Rightarrow> nat list option" where
  "block_path p l =
     (if l < 12 then Some [l]
      else if l - 12 < p then Some [12, l - 12]
      else let l = l - 12 - p in
        if l < p * p then Some [13, l div p, l mod p]
        else let l = l - p * p in
          if l < p * p * p then Some [14, l div (p * p), l div p mod p, l mod p] else None)"

fun descend :: "nat \<Rightarrow> nat list \<Rightarrow> ext2 \<Rightarrow> nat fsres" where
  "descend b [] st = (Inr b, st)"
| "descend b (i # is) st = (if b = 0 then (Inr 0, st) else and_then (rd32 b (i * 4) st) (\<lambda>b. descend b is))"

definition bmap :: "inode \<Rightarrow> nat \<Rightarrow> ext2 \<Rightarrow> nat fsres" where
  "bmap n l st =
     (case block_path (ppb st) l of
        None \<Rightarrow> (Inr 0, st)
      | Some path \<Rightarrow> descend (i_block n ! hd path) (tl path) st)"

text \<open>Operations on an inode the caller holds: their state is the inode and the file system, so that a failure keeps
  the changes made to the inode before it.\<close>

type_synonym 'a nres = "(errno + 'a) \<times> inode \<times> ext2"

definition on_fs :: "(ext2 \<Rightarrow> 'a fsres) \<Rightarrow> inode \<times> ext2 \<Rightarrow> 'a nres" where
  "on_fs f s = (let (r, st) = f (snd s) in (r, fst s, st))"

definition on_node :: "(inode \<Rightarrow> inode) \<Rightarrow> inode \<times> ext2 \<Rightarrow> inode \<times> ext2" where
  "on_node f s = (f (fst s), snd s)"

definition add_blocks :: "nat \<Rightarrow> inode \<Rightarrow> inode" where
  "add_blocks per n = n\<lparr>i_blocks512 := (i_blocks512 n + per) mod 2 ^ 32\<rparr>"
definition sub_blocks :: "nat \<Rightarrow> inode \<Rightarrow> inode" where
  "sub_blocks per n = n\<lparr>i_blocks512 := i_blocks512 n - per\<rparr>"
definition put_block :: "nat \<Rightarrow> nat \<Rightarrow> inode \<Rightarrow> inode" where
  "put_block k b n = n\<lparr>i_block := (i_block n)[k := b]\<rparr>"

fun grow_path :: "nat \<Rightarrow> nat \<Rightarrow> nat \<Rightarrow> nat list \<Rightarrow> inode \<times> ext2 \<Rightarrow> nat nres" where
  "grow_path goal per b [] s = (Inr b, s)"
| "grow_path goal per b (i # is) s =
     and_then (on_fs (rd32 b (i * 4)) s) (\<lambda>next s.
       if next = 0 then
         and_then (on_fs (alloc_block goal) s) (\<lambda>next s.
           and_then (on_fs (wr32 b (i * 4) next) (on_node (add_blocks per) s)) (\<lambda>_. grow_path goal per next is))
       else grow_path goal per next is s)"

definition bmap_alloc :: "nat \<Rightarrow> nat \<Rightarrow> inode \<times> ext2 \<Rightarrow> nat nres" where
  "bmap_alloc ino l s =
     (case block_path (ppb (snd s)) l of
        None \<Rightarrow> (Inl EFBIG, s)
      | Some path \<Rightarrow>
          let goal = group_of ino (snd s); per = bs (snd s) div 512; k = hd path in
          and_then
            (if i_block (fst s) ! k = 0 then
               and_then (on_fs (alloc_block goal) s) (\<lambda>b s. (Inr (), on_node (add_blocks per \<circ> put_block k b) s))
             else (Inr (), s))
            (\<lambda>_ s. grow_path goal per (i_block (fst s) ! k) (tl path) s))"

text \<open>A \<open>?\<close> on such an operation: the inode's changes are lost with the error.\<close>

definition on_inode :: "(inode \<times> ext2 \<Rightarrow> 'a nres) \<Rightarrow> inode \<Rightarrow> ext2 \<Rightarrow> ('a \<times> inode) fsres" where
  "on_inode f n st = (case f (n, st) of (Inl e, _, st) \<Rightarrow> (Inl e, st) | (Inr a, n, st) \<Rightarrow> (Inr (a, n), st))"

section \<open>Truncating\<close>

text \<open>The loop of \<open>trunc_ind\<close> over the entries of the indirect block \<open>b\<close>: \<open>down\<close> says whether the child may go.\<close>

fun trunc_scan ::
  "(nat \<Rightarrow> nat \<Rightarrow> inode \<times> ext2 \<Rightarrow> bool nres) \<Rightarrow> nat \<Rightarrow> nat \<Rightarrow> nat \<Rightarrow> nat \<Rightarrow> nat list \<Rightarrow> bool \<Rightarrow> inode \<times> ext2 \<Rightarrow> bool nres"
where
  "trunc_scan down b span base keep [] vacant s = (Inr vacant, s)"
| "trunc_scan down b span base keep (i # is) vacant s =
     and_then (on_fs (rd32 b (i * 4)) s) (\<lambda>child s.
       if child = 0 then trunc_scan down b span base keep is vacant s
       else let cbase = base + i * span in
         if cbase + span \<le> keep then trunc_scan down b span base keep is False s
         else and_then (down child cbase s) (\<lambda>drop s.
           if drop then
             and_then (on_fs (free_block child) s) (\<lambda>_ s.
               and_then (on_fs (wr32 b (i * 4) 0) (on_node (sub_blocks (bs (snd s) div 512)) s)) (\<lambda>_.
                 trunc_scan down b span base keep is vacant))
           else trunc_scan down b span base keep is False s))"

text \<open>Level 0 is the data block itself: the test \<open>cbase >= keep\<close> of level 1.\<close>

primrec trunc_ind :: "nat \<Rightarrow> nat \<Rightarrow> nat \<Rightarrow> nat \<Rightarrow> inode \<times> ext2 \<Rightarrow> bool nres" where
  "trunc_ind 0 b base keep s = (Inr (keep \<le> base), s)"
| "trunc_ind (Suc lv) b base keep s =
     trunc_scan (\<lambda>child cbase. trunc_ind lv child cbase keep) b (ppb (snd s) ^ lv) base keep [0..<ppb (snd s)] True s"

fun trunc_direct :: "nat \<Rightarrow> nat list \<Rightarrow> inode \<times> ext2 \<Rightarrow> unit nres" where
  "trunc_direct keep [] s = (Inr (), s)"
| "trunc_direct keep (i # is) s =
     (if i \<ge> keep \<and> i_block (fst s) ! i \<noteq> 0 then
        and_then (on_fs (free_block (i_block (fst s) ! i)) s) (\<lambda>_ s.
          trunc_direct keep is (on_node (put_block i 0 \<circ> sub_blocks (bs (snd s) div 512)) s))
      else trunc_direct keep is s)"

fun trunc_levels :: "nat \<Rightarrow> (nat \<times> nat) list \<Rightarrow> inode \<times> ext2 \<Rightarrow> unit nres" where
  "trunc_levels keep [] s = (Inr (), s)"
| "trunc_levels keep ((lv, base) # ls) s =
     (let slot = 11 + lv; b = i_block (fst s) ! slot in
      if b = 0 then trunc_levels keep ls s
      else and_then (trunc_ind lv b base keep s) (\<lambda>empty s.
        if empty then
          and_then (on_fs (free_block (i_block (fst s) ! slot)) s) (\<lambda>_ s.
            trunc_levels keep ls (on_node (put_block slot 0 \<circ> sub_blocks (bs (snd s) div 512)) s))
        else trunc_levels keep ls s))"

definition zero_tail :: "nat \<Rightarrow> inode \<times> ext2 \<Rightarrow> unit nres" where
  "zero_tail len s =
     (let off = len mod bs (snd s) in
      if off = 0 then (Inr (), s)
      else and_then (on_fs (bmap (fst s) (len div bs (snd s))) s) (\<lambda>b s.
        if b = 0 then (Inr (), s)
        else on_fs (with_block b (\<lambda>i d st. (Inr (), modify b i (splice off (replicate (bs st - off) 0)) st))) s))"

definition truncate_inode :: "nat \<Rightarrow> inode \<times> ext2 \<Rightarrow> unit nres" where
  "truncate_inode len s =
     and_then
       (if len < i_size (fst s) \<and> \<not> fast_symlink (fst s) then
          let keep = div_ceil len (bs (snd s)); p = ppb (snd s) in
          and_then (trunc_direct keep [0..<12] s) (\<lambda>_ s.
            and_then (trunc_levels keep [(1, 12), (2, 12 + p), (3, 12 + p + p * p)] s) (\<lambda>_. zero_tail len))
        else (Inr (), s))
       (\<lambda>_ s. (Inr (), on_node (set_size len) s))"

section \<open>Data\<close>

text \<open>The contiguous run of the read-ahead, and the loop of \<open>read\<close>; the bytes copied to \<open>dst\<close> are the result.\<close>

fun run_ahead :: "inode \<Rightarrow> nat \<Rightarrow> nat \<Rightarrow> nat \<Rightarrow> nat \<Rightarrow> ext2 \<Rightarrow> nat fsres" where
  "run_ahead n l b run 0 st = (Inr run, st)"
| "run_ahead n l b run (Suc k) st =
     and_then (bmap n (l + run) st) (\<lambda>x st. if x = b + run then run_ahead n l b (run + 1) k st else (Inr run, st))"

definition read_chunk :: "inode \<Rightarrow> nat \<Rightarrow> nat \<Rightarrow> nat \<Rightarrow> ext2 \<Rightarrow> u8 list fsres" where
  "read_chunk n pos chunk left st =
     (let inblk = pos mod bs st; l = pos div bs st in
      and_then (bmap n l st) (\<lambda>b st.
        and_then
          (if b \<noteq> 0 \<and> \<not> cached b st then
             let max_rem = min (div_ceil (i_size n - (pos - inblk)) (bs st)) 32;
                 want = min (max (div_ceil left (bs st)) 8) max_rem in
             and_then (run_ahead n l b 1 (want - 1) st) (\<lambda>run st. (Inr (), prefetch b run st))
           else (Inr (), st))
          (\<lambda>_ st. if b = 0 then (Inr (replicate chunk 0), st)
                  else with_block b (\<lambda>i d st. (Inr (take chunk (drop inblk d)), st)) st)))"

lemma chunk_left:
  assumes "0 < b" "(i::nat) < n"
  shows "n - (i + min (b - x mod b) (n - i)) < n - i"
proof -
  have "0 < min (b - x mod b) (n - i)" using assms by (simp add: mod_less_divisor)
  then show ?thesis using assms(2) by linarith
qed

function file_read_loop :: "inode \<Rightarrow> nat \<Rightarrow> nat \<Rightarrow> u8 list \<Rightarrow> nat \<Rightarrow> ext2 \<Rightarrow> u8 list fsres" where
  "file_read_loop n off len out done1 st =
     (if done1 < len \<and> 0 < bs st then
        let pos = off + done1; chunk = min (bs st - pos mod bs st) (len - done1) in
        and_then (read_chunk n pos chunk (len - done1) st) (\<lambda>bytes. file_read_loop n off len (out @ bytes) (done1 + chunk))
      else (Inr out, st))"
  by pat_completeness auto
termination by (relation "measure (\<lambda>(n, off, len, out, done1, st). len - done1)") (auto intro: chunk_left)

declare file_read_loop.simps [simp del]

definition read_at :: "nat \<Rightarrow> nat \<Rightarrow> nat \<Rightarrow> ext2 \<Rightarrow> u8 list fsres" where
  "read_at ino off len st =
     and_then (read_inode ino st) (\<lambda>n st.
       if off \<ge> i_size n then (Inr [], st) else file_read_loop n off (min len (i_size n - off)) [] 0 st)"

text \<open>The loop of \<open>write\<close> ends with the bytes done and the error that stopped it, if any.\<close>

function file_write_loop :: "nat \<Rightarrow> nat \<Rightarrow> u8 list \<Rightarrow> nat \<Rightarrow> inode \<times> ext2 \<Rightarrow> (nat \<times> errno option) \<times> inode \<times> ext2" where
  "file_write_loop ino off src done1 s =
     (if done1 < length src \<and> 0 < bs (snd s) then
        let pos = off + done1; inblk = pos mod bs (snd s); chunk = min (bs (snd s) - inblk) (length src - done1) in
        case bmap_alloc ino (pos div bs (snd s)) s of
          (Inl e, s) \<Rightarrow> ((done1, Some e), s)
        | (Inr b, s) \<Rightarrow>
            (case bget b (\<not> (inblk = 0 \<and> chunk = bs (snd s))) (snd s) of
               (Inl e, st) \<Rightarrow> ((done1, Some e), fst s, st)
             | (Inr i, st) \<Rightarrow>
                 file_write_loop ino off src (done1 + chunk) (fst s, modify b i (splice inblk (take chunk (drop done1 src))) st))
      else ((done1, None), s))"
  by pat_completeness auto
termination by (relation "measure (\<lambda>(ino, off, src, done1, s). length src - done1)") (auto intro: chunk_left)

declare file_write_loop.simps [simp del]

definition stamp :: "nat \<Rightarrow> inode \<Rightarrow> inode" where
  "stamp t n = n\<lparr>i_mtime := t, i_ctime := t\<rparr>"

definition write_at :: "nat \<Rightarrow> nat \<Rightarrow> u8 list \<Rightarrow> ext2 \<Rightarrow> nat fsres" where
  "write_at ino off src st =
     and_then (read_inode ino st) (\<lambda>n st.
       if is_dir n then (Inl EISDIR, st)
       else if off + length src \<ge> 2 ^ 64 then (Inl EFBIG, st)
       else
         let ((done1, err), n, st) = file_write_loop ino off src 0 (n, st);
             n = (if off + done1 > i_size n then set_size (off + done1) n else n) in
         and_then (write_inode ino (stamp (rtc st) n) st) (\<lambda>_ st.
           case err of Some e \<Rightarrow> if done1 = 0 then (Inl e, st) else (Inr done1, st) | None \<Rightarrow> (Inr done1, st)))"

definition truncate_file :: "nat \<Rightarrow> nat \<Rightarrow> ext2 \<Rightarrow> unit fsres" where
  "truncate_file ino len st =
     and_then (read_inode ino st) (\<lambda>n st.
       if is_dir n then (Inl EISDIR, st)
       else and_then (on_inode (truncate_inode len) n st) (\<lambda>(_, n) st. write_inode ino (stamp (rtc st) n) st))"

end
