(* ===== verification/Ext2_Dirs.thy ===== *)
theory Ext2_Dirs
  imports Ext2
begin

text \<open>
  Directories and paths of the ext2 driver (\<open>kernel/src/ext2.rs\<close>, sections directories and paths): entries in a
  directory's blocks, the dentry cache, path resolution with symbolic links, and the calls that create, link,
  rename and remove names.

  What the code does with the bytes of one block is a function of these bytes: \<open>find_in_block\<close>, \<open>add_in_block\<close>
  and \<open>remove_in_block\<close> are its loops over the records of a block. A damaged record may make the code write
  past the block's end, into the next slot; here such a write lengthens the block's bytes.
\<close>

section \<open>The dentry cache\<close>

definition DCACHE_SLOTS :: nat where "DCACHE_SLOTS = 1024"
definition DCACHE_NAME_MAX :: nat where "DCACHE_NAME_MAX = 60"
definition FT_UNK :: nat where "FT_UNK = 0"
definition FT_REG :: nat where "FT_REG = 1"
definition FT_DIR :: nat where "FT_DIR = 2"
definition FT_SOCK :: nat where "FT_SOCK = 6"
definition FT_LNK :: nat where "FT_LNK = 7"
definition S_IFSOCK :: u16 where "S_IFSOCK = 0xC000"
definition MAX_LINKS :: nat where "MAX_LINKS = 16"
definition PATH_MAX :: nat where "PATH_MAX = 1024"
definition SLASH :: u8 where "SLASH = 47"
definition DOT :: u8 where "DOT = 46"
definition USER_ID :: nat where "USER_ID = 1000"

definition dcache_idx :: "nat \<Rightarrow> u8 list \<Rightarrow> nat" where
  "dcache_idx dir name =
     (let h = foldl (\<lambda>h b. (h XOR ucast b) * 0x100000001B3) (of_nat dir * 0x9E3779B97F4A7C15 :: u64) name
      in unat (drop_bit 16 h XOR h) mod DCACHE_SLOTS)"

definition dcache_put :: "nat \<Rightarrow> u8 list \<Rightarrow> nat \<Rightarrow> nat \<Rightarrow> ext2 \<Rightarrow> ext2" where
  "dcache_put dir name ino ft st =
     (if length name > DCACHE_NAME_MAX then st
      else st\<lparr>dcache := (dcache st)[dcache_idx dir name := \<lparr>d_dir = dir, d_ino = ino, d_ft = ft, d_valid = True, d_name = name\<rparr>]\<rparr>)"

definition dcache_hit :: "nat \<Rightarrow> u8 list \<Rightarrow> ext2 \<Rightarrow> bool" where
  "dcache_hit dir name st \<longleftrightarrow>
     (let e = dcache st ! dcache_idx dir name in
      length name \<le> DCACHE_NAME_MAX \<and> d_valid e \<and> d_dir e = dir \<and> d_name e = name)"

definition dcache_inv :: "nat \<Rightarrow> u8 list \<Rightarrow> ext2 \<Rightarrow> ext2" where
  "dcache_inv dir name st =
     (if dcache_hit dir name st
      then let k = dcache_idx dir name in st\<lparr>dcache := (dcache st)[k := (dcache st ! k)\<lparr>d_valid := False\<rparr>]\<rparr>
      else st)"

section \<open>The records of a block\<close>

definition de_ino :: "u8 list \<Rightarrow> nat \<Rightarrow> nat" where "de_ino d off = int_at 4 d off"
definition de_rec :: "u8 list \<Rightarrow> nat \<Rightarrow> nat" where "de_rec d off = int_at 2 d (off + 4)"
definition de_nlen :: "u8 list \<Rightarrow> nat \<Rightarrow> nat" where "de_nlen d off = int_at 1 d (off + 6)"
definition de_ft :: "u8 list \<Rightarrow> nat \<Rightarrow> nat" where "de_ft d off = int_at 1 d (off + 7)"
definition de_name :: "u8 list \<Rightarrow> nat \<Rightarrow> u8 list" where "de_name d off = take (de_nlen d off) (drop (off + 8) d)"

definition rec_need :: "nat \<Rightarrow> nat" where "rec_need nlen = (8 + nlen + 3) div 4 * 4"

definition de_matches :: "u8 list \<Rightarrow> u8 list \<Rightarrow> nat \<Rightarrow> bool" where
  "de_matches name d off \<longleftrightarrow> de_ino d off \<noteq> 0 \<and> de_nlen d off = length name \<and> de_name d off = name"

definition write_dirent :: "nat \<Rightarrow> nat \<Rightarrow> nat \<Rightarrow> u8 list \<Rightarrow> nat \<Rightarrow> u8 list \<Rightarrow> u8 list" where
  "write_dirent at ino rec name ft =
     splice at (le_bytes 4 ino @ le_bytes 2 rec @ le_bytes 1 (length name) @ le_bytes 1 ft @ name)"

text \<open>The inner loop of \<open>lookup\<close>; \<open>n\<close> is the block size.\<close>

function find_in_block :: "u8 list \<Rightarrow> u8 list \<Rightarrow> nat \<Rightarrow> nat \<Rightarrow> errno + (nat \<times> nat) option" where
  "find_in_block name d n off =
     (if off < n then
        let rec = de_rec d off in
        if rec < 8 \<or> off + rec > n then Inl EIO
        else if de_matches name d off then Inr (Some (de_ino d off, de_ft d off))
        else find_in_block name d n (off + rec)
      else Inr None)"
  by pat_completeness auto
termination by (relation "measure (\<lambda>(name, d, n, off). n - off)") auto

declare find_in_block.simps [simp del]

text \<open>The inner loop of \<open>dir_add\<close>. The subtraction \<open>rec - used\<close> wraps in the release build.\<close>

definition sub64 :: "nat \<Rightarrow> nat \<Rightarrow> nat" where
  "sub64 a b = (if b \<le> a then a - b else 2 ^ 64 + a - b)"

definition put_entry :: "u8 list \<Rightarrow> nat \<Rightarrow> nat \<Rightarrow> nat \<Rightarrow> nat \<Rightarrow> u8 list \<Rightarrow> u8 list" where
  "put_entry name ino ft used off d =
     (let rec = de_rec d off in
      if de_ino d off = 0 then write_dirent off ino rec name ft d
      else write_dirent (off + used) ino (sub64 rec used) name ft (splice (off + 4) (le_bytes 2 used) d))"

function add_in_block :: "u8 list \<Rightarrow> nat \<Rightarrow> nat \<Rightarrow> u8 list \<Rightarrow> nat \<Rightarrow> nat \<Rightarrow> errno + u8 list option" where
  "add_in_block name ino ft d n off =
     (if off < n then
        let rec = de_rec d off; used = (if de_ino d off = 0 then 0 else rec_need (de_nlen d off)) in
        if rec < 8 then Inl EIO
        else if sub64 rec used \<ge> rec_need (length name) then Inr (Some (put_entry name ino ft used off d))
        else add_in_block name ino ft d n (off + rec)
      else Inr None)"
  by pat_completeness auto
termination by (relation "measure (\<lambda>(name, ino, ft, d, n, off). n - off)") auto

declare add_in_block.simps [simp del]

text \<open>The inner loop of \<open>dir_remove\<close>: the record is merged into the one before it; the first one of a block only
  loses its inode.\<close>

definition cut_entry :: "nat \<Rightarrow> nat option \<Rightarrow> u8 list \<Rightarrow> u8 list" where
  "cut_entry off prev d =
     (case prev of
        Some po \<Rightarrow> splice (po + 4) (le_bytes 2 (de_rec d po + de_rec d off)) d
      | None \<Rightarrow> splice 0 (le_bytes 4 0) d)"

function remove_in_block :: "u8 list \<Rightarrow> u8 list \<Rightarrow> nat \<Rightarrow> nat \<Rightarrow> nat option \<Rightarrow> errno + u8 list option" where
  "remove_in_block name d n off prev =
     (if off < n then
        if de_rec d off < 8 then Inl EIO
        else if de_matches name d off then Inr (Some (cut_entry off prev d))
        else remove_in_block name d n (off + de_rec d off) (Some off)
      else Inr None)"
  by pat_completeness auto
termination by (relation "measure (\<lambda>(name, d, n, off, prev). n - off)") auto

declare remove_in_block.simps [simp del]

section \<open>Directories\<close>

record dirent =
  e_ino :: nat
  e_ft :: nat
  e_name :: "u8 list"
  e_next :: nat

text \<open>The loop of \<open>readdir\<close> on the inode \<open>n\<close>, whose size is \<open>len\<close>.\<close>

function readdir_loop :: "inode \<Rightarrow> nat \<Rightarrow> nat \<Rightarrow> ext2 \<Rightarrow> dirent option fsres" where
  "readdir_loop n len pos st =
     (if pos < len \<and> 0 < bs st then
        and_then (bmap n (pos div bs st) st) (\<lambda>b st'.
          if b = 0 then readdir_loop n len ((pos div bs st + 1) * bs st) st'
          else let off = pos mod bs st in
            and_then (with_block b (\<lambda>i d st. (Inr d, st)) st') (\<lambda>d st'.
              let rec = de_rec d off; nxt = pos + rec in
              if rec < 8 \<or> off + rec > bs st then (Inl EIO, st')
              else if de_ino d off \<noteq> 0 \<and> de_nlen d off > 0 then
                (Inr (Some \<lparr>e_ino = de_ino d off, e_ft = de_ft d off, e_name = de_name d off, e_next = nxt\<rparr>), st')
              else readdir_loop n len nxt st'))
      else (Inr None, st))"
  by pat_completeness auto
termination
  by (relation "measure (\<lambda>(n, len, pos, st). len - pos)")
    (auto intro!: diff_less_mono2 simp: dividend_less_div_times)

declare readdir_loop.simps [simp del]

definition readdir :: "nat \<Rightarrow> nat \<Rightarrow> ext2 \<Rightarrow> dirent option fsres" where
  "readdir dir pos st =
     and_then (read_inode dir st) (\<lambda>n st. if \<not> is_dir n then (Inl ENOTDIR, st) else readdir_loop n (i_size n) pos st)"

fun lookup_blocks :: "u8 list \<Rightarrow> inode \<Rightarrow> nat list \<Rightarrow> ext2 \<Rightarrow> (nat \<times> nat) option fsres" where
  "lookup_blocks name n [] st = (Inr None, st)"
| "lookup_blocks name n (l # ls) st =
     and_then (bmap n l st) (\<lambda>b st.
       if b = 0 then lookup_blocks name n ls st
       else and_then (with_block b (\<lambda>i d st. (find_in_block name d (bs st) 0, st)) st) (\<lambda>r st.
         case r of Some e \<Rightarrow> (Inr (Some e), st) | None \<Rightarrow> lookup_blocks name n ls st))"

definition lookup :: "nat \<Rightarrow> u8 list \<Rightarrow> ext2 \<Rightarrow> (nat \<times> nat) option fsres" where
  "lookup dir name st =
     (if dcache_hit dir name st then
        let e = dcache st ! dcache_idx dir name in (Inr (if d_ino e = 0 then None else Some (d_ino e, d_ft e)), st)
      else and_then (read_inode dir st) (\<lambda>n st.
        if \<not> is_dir n then (Inl ENOTDIR, st)
        else and_then (lookup_blocks name n [0..<i_size n div bs st] st) (\<lambda>r st.
          (Inr r, case r of Some (ino, ft) \<Rightarrow> dcache_put dir name ino ft st | None \<Rightarrow> dcache_put dir name 0 0 st))))"

definition touch_dir :: "nat \<Rightarrow> ext2 \<Rightarrow> unit fsres" where
  "touch_dir dir st = and_then (read_inode dir st) (\<lambda>n st. write_inode dir (stamp (rtc st) n) st)"

text \<open>The outer loops of \<open>dir_add\<close> and \<open>dir_remove\<close>: \<open>edit\<close> is the loop over one block; True when it changed it.\<close>

fun edit_blocks :: "(u8 list \<Rightarrow> nat \<Rightarrow> errno + u8 list option) \<Rightarrow> inode \<Rightarrow> nat list \<Rightarrow> ext2 \<Rightarrow> bool fsres" where
  "edit_blocks edit n [] st = (Inr False, st)"
| "edit_blocks edit n (l # ls) st =
     and_then (bmap n l st) (\<lambda>b st.
       if b = 0 then edit_blocks edit n ls st
       else and_then (with_block b (\<lambda>i d st.
              case edit d (bs st) of
                Inl e \<Rightarrow> (Inl e, st)
              | Inr None \<Rightarrow> (Inr False, st)
              | Inr (Some d') \<Rightarrow> (Inr True, modify b i (\<lambda>_. d') st)) st) (\<lambda>found st.
         if found then (Inr True, st) else edit_blocks edit n ls st))"

definition dir_add :: "nat \<Rightarrow> u8 list \<Rightarrow> nat \<Rightarrow> nat \<Rightarrow> ext2 \<Rightarrow> unit fsres" where
  "dir_add dir name ino ft st =
     and_then (read_inode dir (dcache_put dir name ino ft st)) (\<lambda>n st.
       let nblk = i_size n div bs st in
       and_then (edit_blocks (\<lambda>d len. add_in_block name ino ft d len 0) n [0..<nblk] st) (\<lambda>found st.
         if found then touch_dir dir st
         else and_then (on_inode (bmap_alloc dir nblk) n st) (\<lambda>(b, n). with_block b (\<lambda>i d st.
           let st = modify b i (write_dirent 0 ino (bs st) name ft) st in
           write_inode dir (stamp (rtc st) (set_size ((nblk + 1) * bs st) n)) st))))"

definition dir_remove :: "nat \<Rightarrow> u8 list \<Rightarrow> ext2 \<Rightarrow> unit fsres" where
  "dir_remove dir name st =
     and_then (read_inode dir (dcache_inv dir name st)) (\<lambda>n st.
       and_then (edit_blocks (\<lambda>d len. remove_in_block name d len 0 None) n [0..<i_size n div bs st] st) (\<lambda>found st.
         if found then touch_dir dir st else (Inl ENOENT, st)))"

lemma and_then_cases:
  assumes "and_then r k = (Inr a, st')"
  obtains x st where "r = (Inr x, st)" "k x st = (Inr a, st')"
  using assms by (auto simp: and_then_def split: prod.splits sum.splits)

lemma readdir_loop_next: "readdir_loop n len pos st = (Inr (Some e), st') \<Longrightarrow> pos < e_next e \<and> pos < len"
proof (induction n len pos st rule: readdir_loop.induct)
  case (1 n len pos st)
  have go: "pos < len \<and> 0 < bs st" using "1.prems" by (auto simp: readdir_loop.simps [of n len pos st] split: if_splits)
  obtain b st1 where b: "bmap n (pos div bs st) st = (Inr b, st1)"
    and k: "(if b = 0 then readdir_loop n len ((pos div bs st + 1) * bs st) st1
          else let off = pos mod bs st in
            and_then (with_block b (\<lambda>i d st. (Inr d, st)) st1) (\<lambda>d st'.
              let rec = de_rec d off; nxt = pos + rec in
              if rec < 8 \<or> off + rec > bs st then (Inl EIO, st')
              else if de_ino d off \<noteq> 0 \<and> de_nlen d off > 0 then
                (Inr (Some \<lparr>e_ino = de_ino d off, e_ft = de_ft d off, e_name = de_name d off, e_next = nxt\<rparr>), st')
              else readdir_loop n len nxt st')) = (Inr (Some e), st')"
    using "1.prems" go by (auto simp: readdir_loop.simps [of n len pos st] elim!: and_then_cases)
  have skip: "pos < (pos div bs st + 1) * bs st" using go by (simp add: dividend_less_div_times)
  show ?case
  proof (cases "b = 0")
    case True
    then show ?thesis using "1.IH"(1) [OF go, of b st1] k skip by force
  next
    case False
    then obtain d st2 where w: "with_block b (\<lambda>i d st. (Inr d, st)) st1 = (Inr d, st2)"
      and k2: "(let rec = de_rec d (pos mod bs st); nxt = pos + rec in
              if rec < 8 \<or> pos mod bs st + rec > bs st then (Inl EIO, st2)
              else if de_ino d (pos mod bs st) \<noteq> 0 \<and> de_nlen d (pos mod bs st) > 0 then
                (Inr (Some \<lparr>e_ino = de_ino d (pos mod bs st), e_ft = de_ft d (pos mod bs st), e_name = de_name d (pos mod bs st),
                   e_next = nxt\<rparr>), st2)
              else readdir_loop n len nxt st2) = (Inr (Some e), st')"
      using k by (auto simp: Let_def elim!: and_then_cases)
    let ?rec = "de_rec d (pos mod bs st)"
    have big: "\<not> (?rec < 8 \<or> pos mod bs st + ?rec > bs st)" using k2 by (auto simp: Let_def split: if_splits)
    show ?thesis
    proof (cases "de_ino d (pos mod bs st) \<noteq> 0 \<and> de_nlen d (pos mod bs st) > 0")
      case True
      then show ?thesis using k2 big go by (auto simp: Let_def)
    next
      case none: False
      then have "readdir_loop n len (pos + ?rec) st2 = (Inr (Some e), st')" using k2 big by (auto simp: Let_def)
      then show ?thesis using "1.IH"(2) [OF go False refl refl refl big none] big by force
    qed
  qed
qed

lemma readdir_next: "readdir dir pos st = (Inr (Some e), st') \<Longrightarrow> pos < e_next e"
  by (auto simp: readdir_def elim!: and_then_cases dest: readdir_loop_next split: if_splits)

end
