(* ===== verification/Ext2_Paths.thy ===== *)
theory Ext2_Paths
  imports Ext2_Dirs
begin

text \<open>
  Paths and the calls on names of the ext2 driver (\<open>kernel/src/ext2.rs\<close>, section paths): resolution with
  symbolic links, creation of files, directories, links and socket nodes, removal and renaming.

  Paths are byte lists; the code's buffers of \<open>PATH_MAX\<close> bytes with a length are the lists of that length.
\<close>

section \<open>Walking a directory\<close>

lemma readdir_nearer: "(Inr (Some d), st') = readdir dir pos st \<Longrightarrow> pos < e_next d"
  by (rule readdir_next) (rule sym)

text \<open>The size of a directory is a 32-bit field, so \<open>readdir\<close> finds nothing from \<open>2 ^ 32\<close> on: the guard only
  bounds the loop.\<close>

function dir_is_empty :: "nat \<Rightarrow> nat \<Rightarrow> ext2 \<Rightarrow> bool fsres" where
  "dir_is_empty dir pos st =
     (if 2 ^ 32 \<le> pos then (Inr True, st)
      else case readdir dir pos st of
        (Inl e, st) \<Rightarrow> (Inl e, st)
      | (Inr None, st) \<Rightarrow> (Inr True, st)
      | (Inr (Some d), st) \<Rightarrow>
          if e_name d \<noteq> [DOT] \<and> e_name d \<noteq> [DOT, DOT] then (Inr False, st) else dir_is_empty dir (e_next d) st)"
  by pat_completeness auto
termination
  by (relation "measure (\<lambda>(dir, pos, st). 2 ^ 32 - pos)") (auto dest: readdir_nearer)

declare dir_is_empty.simps [simp del]

definition set_dotdot :: "nat \<Rightarrow> nat \<Rightarrow> ext2 \<Rightarrow> unit fsres" where
  "set_dotdot dir parent st =
     and_then (read_inode dir (dcache_put dir [DOT, DOT] parent FT_DIR st)) (\<lambda>n st.
       and_then (bmap n 0 st) (\<lambda>b st.
         if b = 0 then (Inl EIO, st)
         else with_block b (\<lambda>i d st. (Inr (), modify b i (splice (de_rec d 0) (le_bytes 4 parent)) st)) st))"

section \<open>Resolving\<close>

definition readlink :: "nat \<Rightarrow> nat \<Rightarrow> ext2 \<Rightarrow> u8 list fsres" where
  "readlink ino room st =
     and_then (read_inode ino st) (\<lambda>n st.
       if i_kind n \<noteq> S_IFLNK then (Inl EINVAL, st)
       else let len = min (i_size n) room in
         if fast_symlink n then (Inr (take len (take 60 (concat (map (le_bytes 4) (i_block n))))), st)
         else read_at ino 0 len st)"

text \<open>The component at \<open>i\<close>: where it starts, and its bytes.\<close>

definition skip_slashes :: "u8 list \<Rightarrow> nat \<Rightarrow> nat" where
  "skip_slashes buf i = i + length (takeWhile (\<lambda>c. c = SLASH) (drop i buf))"

definition component_at :: "u8 list \<Rightarrow> nat \<Rightarrow> u8 list" where
  "component_at buf s = takeWhile (\<lambda>c. c \<noteq> SLASH) (drop s buf)"

definition starts_slash :: "u8 list \<Rightarrow> bool" where
  "starts_slash p \<longleftrightarrow> p \<noteq> [] \<and> hd p = SLASH"

lemma skip_slashes_ge: "i \<le> skip_slashes buf i"
  by (simp add: skip_slashes_def)

lemma skip_slashes_next:
  assumes "skip_slashes buf i < length buf"
  shows "buf ! skip_slashes buf i \<noteq> SLASH"
proof -
  let ?w = "takeWhile (\<lambda>c. c = SLASH) (drop i buf)"
  have "length ?w < length (drop i buf)" using assms by (simp add: skip_slashes_def)
  then show ?thesis using nth_length_takeWhile [of "\<lambda>c. c = SLASH" "drop i buf"] by (simp add: skip_slashes_def)
qed

lemma component_pos: "s < length buf \<Longrightarrow> buf ! s \<noteq> SLASH \<Longrightarrow> 0 < length (component_at buf s)"
  by (simp add: component_at_def Cons_nth_drop_Suc [symmetric])

lemma next_component:
  assumes "\<not> length buf \<le> skip_slashes buf i"
  shows "length buf - (skip_slashes buf i + length (component_at buf (skip_slashes buf i))) < length buf - i"
proof -
  have s: "skip_slashes buf i < length buf" using assms by simp
  have "0 < length (component_at buf (skip_slashes buf i))" by (rule component_pos [OF s skip_slashes_next [OF s]])
  then show ?thesis using s skip_slashes_ge [of i buf] by linarith
qed

definition walk_start :: "nat \<Rightarrow> u8 list \<Rightarrow> nat" where
  "walk_start start buf = (if starts_slash buf then ROOT_INODE else start)"

function walk_path :: "nat \<Rightarrow> bool \<Rightarrow> nat \<Rightarrow> u8 list \<Rightarrow> nat \<Rightarrow> nat \<Rightarrow> ext2 \<Rightarrow> nat fsres" where
  "walk_path start follow links buf cur i st =
     (let s = skip_slashes buf i in
      if length buf \<le> s then (Inr cur, st)
      else
        let comp = component_at buf s; i = s + length comp in
        if length comp > 255 then (Inl ENAMETOOLONG, st)
        else and_then (read_inode cur st) (\<lambda>dirn st.
          if \<not> is_dir dirn then (Inl ENOTDIR, st)
          else if comp = [DOT] then walk_path start follow links buf cur i st
          else and_then (lookup cur comp st) (\<lambda>r st.
            case r of
              None \<Rightarrow> (Inl ENOENT, st)
            | Some (ino, _) \<Rightarrow>
                and_then (read_inode ino st) (\<lambda>n st.
                  if i_kind n = S_IFLNK \<and> (follow \<or> \<not> list_all (\<lambda>c. c = SLASH) (drop i buf)) then
                    if links + 1 > MAX_LINKS then (Inl ELOOP, st)
                    else and_then (readlink ino PATH_MAX st) (\<lambda>target st.
                      let nb = (if starts_slash target then [] else take s buf) @ target @ drop i buf in
                      if length nb > PATH_MAX then (Inl ENAMETOOLONG, st)
                      else walk_path start follow (links + 1) nb (walk_start start nb) 0 st)
                  else walk_path start follow links buf ino i st))))"
  by pat_completeness auto
termination
  by (relation "measures [\<lambda>(start, follow, links, buf, cur, i, st). MAX_LINKS - links,
                          \<lambda>(start, follow, links, buf, cur, i, st). length buf - i]")
    (auto intro: next_component)

declare walk_path.simps [simp del]

definition resolve_at :: "nat \<Rightarrow> u8 list \<Rightarrow> bool \<Rightarrow> ext2 \<Rightarrow> nat fsres" where
  "resolve_at start path follow st =
     (if path = [] then (Inl ENOENT, st)
      else if length path > PATH_MAX then (Inl ENAMETOOLONG, st)
      else walk_path start follow 0 path (walk_start start path) 0 st)"

text \<open>\<open>realpath\<close>: \<open>out\<close> is the canonical path so far (empty for the root), \<open>cur\<close> its inode.\<close>

definition parent_text :: "u8 list \<Rightarrow> u8 list" where
  "parent_text out = rev (drop 1 (dropWhile (\<lambda>c. c \<noteq> SLASH) (rev out)))"

function real_walk :: "nat \<Rightarrow> u8 list \<Rightarrow> u8 list \<Rightarrow> nat \<Rightarrow> nat \<Rightarrow> ext2 \<Rightarrow> u8 list fsres" where
  "real_walk links buf out cur i st =
     (let s = skip_slashes buf i in
      if length buf \<le> s then (Inr (if out = [] then [SLASH] else out), st)
      else
        let comp = component_at buf s; i = s + length comp in
        if comp = [DOT] then real_walk links buf out cur i st
        else if comp = [DOT, DOT] then
          let out = parent_text out in
          if out = [] then real_walk links buf out ROOT_INODE i st
          else and_then (resolve_at ROOT_INODE out False st) (\<lambda>cur st. real_walk links buf out cur i st)
        else and_then (read_inode cur st) (\<lambda>dirn st.
          if \<not> is_dir dirn then (Inl ENOTDIR, st)
          else and_then (lookup cur comp st) (\<lambda>r st.
            case r of
              None \<Rightarrow> (Inl ENOENT, st)
            | Some (ino, _) \<Rightarrow>
                and_then (read_inode ino st) (\<lambda>n st.
                  if i_kind n = S_IFLNK then
                    if links + 1 > MAX_LINKS then (Inl ELOOP, st)
                    else and_then (readlink ino PATH_MAX st) (\<lambda>target st.
                      let nb = (if starts_slash target then [] else SLASH # out @ [SLASH]) @ target @ drop i buf in
                      if length nb > PATH_MAX then (Inl ENAMETOOLONG, st)
                      else real_walk (links + 1) nb [] ROOT_INODE 0 st)
                  else if length out + 1 + length comp > PATH_MAX then (Inl ENAMETOOLONG, st)
                  else real_walk links buf (out @ SLASH # comp) ino i st))))"
  by pat_completeness auto
termination
  by (relation "measures [\<lambda>(links, buf, out, cur, i, st). MAX_LINKS - links,
                          \<lambda>(links, buf, out, cur, i, st). length buf - i]")
    (auto intro: next_component)

declare real_walk.simps [simp del]

definition realpath :: "u8 list \<Rightarrow> ext2 \<Rightarrow> u8 list fsres" where
  "realpath path st =
     (if \<not> starts_slash path then (Inl EINVAL, st)
      else if length path > PATH_MAX then (Inl ENAMETOOLONG, st)
      else real_walk 0 path [] ROOT_INODE 0 st)"

text \<open>\<open>parent_of\<close>: trailing slashes are dropped, except a leading one.\<close>

fun drop_slashes :: "u8 list \<Rightarrow> u8 list" where
  "drop_slashes (a # b # r) = (if a = SLASH then drop_slashes (b # r) else a # b # r)"
| "drop_slashes r = r"

definition trim_path :: "u8 list \<Rightarrow> u8 list" where
  "trim_path path = rev (drop_slashes (rev path))"

definition split_path :: "u8 list \<Rightarrow> u8 list option \<times> u8 list" where
  "split_path p =
     (if SLASH \<in> set p
      then (let k = length (dropWhile (\<lambda>c. c \<noteq> SLASH) (rev p)) - 1 in (Some (take (max k 1) p), drop (k + 1) p))
      else (None, p))"

definition parent_of :: "nat \<Rightarrow> u8 list \<Rightarrow> ext2 \<Rightarrow> (nat \<times> u8 list) fsres" where
  "parent_of at path st =
     (let p = trim_path path; (up, name) = split_path p in
      if p = [] then (Inl ENOENT, st)
      else and_then (case up of Some u \<Rightarrow> resolve_at at u True st | None \<Rightarrow> (Inr at, st)) (\<lambda>dir st.
        if name = [] \<or> name = [DOT] \<or> name = [DOT, DOT] then (Inl EINVAL, st)
        else if length name > 255 then (Inl ENAMETOOLONG, st)
        else and_then (read_inode dir st) (\<lambda>n st. if is_dir n then (Inr (dir, name), st) else (Inl ENOTDIR, st))))"

section \<open>Creating\<close>

definition new_inode :: "u16 \<Rightarrow> nat \<Rightarrow> bool \<Rightarrow> ext2 \<Rightarrow> (nat \<times> inode) fsres" where
  "new_inode mode hint dir st =
     and_then (alloc_inode dir (group_of hint st) st) (\<lambda>ino st.
       let n = inode_zeroed\<lparr>i_mode := mode, i_uid := USER_ID, i_gid := USER_ID, i_atime := rtc st, i_ctime := rtc st,
                            i_mtime := rtc st, i_links := 1\<rparr> in
       and_then (inode_loc ino st) (\<lambda>(b, off). with_block b (\<lambda>i d st.
         (Inr (ino, n), modify b i (splice off (replicate (inode_size st) 0)) st))))"

definition perm_bits :: "u16 \<Rightarrow> u16" where "perm_bits perm = perm AND 0xFFF"

definition create_file :: "nat \<Rightarrow> u8 list \<Rightarrow> u16 \<Rightarrow> bool \<Rightarrow> ext2 \<Rightarrow> (nat \<times> bool) fsres" where
  "create_file at path perm excl st =
     and_then (parent_of at path st) (\<lambda>(dir, name) st.
       and_then (lookup dir name st) (\<lambda>r st.
         case r of
           Some (ino, _) \<Rightarrow>
             if excl then (Inl EEXIST, st)
             else and_then (read_inode ino st) (\<lambda>n st.
               if i_kind n = S_IFLNK then and_then (resolve_at at path True st) (\<lambda>ino st. (Inr (ino, False), st))
               else (Inr (ino, False), st))
         | None \<Rightarrow>
             and_then (new_inode (S_IFREG OR perm_bits perm) dir False st) (\<lambda>(ino, n) st.
               and_then (write_inode ino n st) (\<lambda>_ st.
                 and_then (dir_add dir name ino FT_REG st) (\<lambda>_ st. (Inr (ino, True), st))))))"

definition mknod_socket :: "nat \<Rightarrow> u8 list \<Rightarrow> u16 \<Rightarrow> ext2 \<Rightarrow> nat fsres" where
  "mknod_socket at path perm st =
     and_then (parent_of at path st) (\<lambda>(dir, name) st.
       and_then (lookup dir name st) (\<lambda>r st.
         if r \<noteq> None then (Inl EEXIST, st)
         else and_then (new_inode (S_IFSOCK OR perm_bits perm) dir False st) (\<lambda>(ino, n) st.
           and_then (write_inode ino n st) (\<lambda>_ st.
             and_then (dir_add dir name ino FT_SOCK st) (\<lambda>_ st. (Inr ino, st))))))"

definition add_link :: "nat \<Rightarrow> ext2 \<Rightarrow> unit fsres" where
  "add_link dir st = and_then (read_inode dir st) (\<lambda>n. write_inode dir (n\<lparr>i_links := (i_links n + 1) mod 2 ^ 16\<rparr>))"

definition sub_link :: "nat \<Rightarrow> ext2 \<Rightarrow> unit fsres" where
  "sub_link dir st = and_then (read_inode dir st) (\<lambda>n. write_inode dir (n\<lparr>i_links := i_links n - 1\<rparr>))"

definition mkdir :: "nat \<Rightarrow> u8 list \<Rightarrow> u16 \<Rightarrow> ext2 \<Rightarrow> nat fsres" where
  "mkdir at path perm st =
     and_then (parent_of at path st) (\<lambda>(dir, name) st.
       and_then (lookup dir name st) (\<lambda>r st.
         if r \<noteq> None then (Inl EEXIST, st)
         else and_then (new_inode (S_IFDIR OR perm_bits perm) dir True st) (\<lambda>(ino, n) st.
           and_then (on_inode (bmap_alloc ino 0) (n\<lparr>i_links := 2\<rparr>) st) (\<lambda>(b, n) st.
             and_then (with_block b (\<lambda>i d st.
                 (Inr (), modify b i (write_dirent 12 dir (bs st - 12) [DOT, DOT] FT_DIR \<circ> write_dirent 0 ino 12 [DOT] FT_DIR) st))
                 st) (\<lambda>_ st.
               and_then (write_inode ino (set_size (bs st) n) st) (\<lambda>_ st.
                 and_then (dir_add dir name ino FT_DIR st) (\<lambda>_ st.
                   and_then (add_link dir st) (\<lambda>_ st. (Inr ino, st)))))))))"

definition blocks_of_bytes :: "u8 list \<Rightarrow> nat list" where
  "blocks_of_bytes bytes = map (\<lambda>k. int_at 4 (bytes @ replicate 60 0) (4 * k)) [0..<15]"

definition symlink :: "u8 list \<Rightarrow> nat \<Rightarrow> u8 list \<Rightarrow> ext2 \<Rightarrow> unit fsres" where
  "symlink target at path st =
     (if target = [] \<or> length target \<ge> PATH_MAX then (Inl EINVAL, st)
      else and_then (parent_of at path st) (\<lambda>(dir, name) st.
        and_then (lookup dir name st) (\<lambda>r st.
          if r \<noteq> None then (Inl EEXIST, st)
          else and_then (new_inode (S_IFLNK OR 0x1FF) dir False st) (\<lambda>(ino, n) st.
            and_then
              (if length target < 60 then
                 write_inode ino (set_size (length target) (n\<lparr>i_block := blocks_of_bytes target\<rparr>)) st
               else and_then (write_inode ino n st) (\<lambda>_ st.
                 and_then (write_at ino 0 target st) (\<lambda>_ st. (Inr (), st))))
              (\<lambda>_. dir_add dir name ino FT_LNK)))))"

section \<open>Removing\<close>

definition release_inode :: "nat \<Rightarrow> ext2 \<Rightarrow> unit fsres" where
  "release_inode ino st =
     and_then (read_inode ino st) (\<lambda>n st.
       and_then (if fast_symlink n then (Inr ((), n), st) else on_inode (truncate_inode 0) n st) (\<lambda>(_, m) st.
         and_then (write_inode ino (m\<lparr>i_links := 0, i_dtime := rtc st\<rparr>) st) (\<lambda>_. free_inode ino (is_dir n))))"

definition drop_link :: "nat \<Rightarrow> bool \<Rightarrow> ext2 \<Rightarrow> bool fsres" where
  "drop_link ino can_free st =
     and_then (read_inode ino st) (\<lambda>n st.
       let n = n\<lparr>i_links := i_links n - 1, i_ctime := rtc st\<rparr>; orphan = (i_links n = 0) in
       if orphan \<and> can_free then and_then (release_inode ino st) (\<lambda>_ st. (Inr True, st))
       else and_then (write_inode ino n st) (\<lambda>_ st. (Inr orphan, st)))"

definition ft_of_kind :: "u16 \<Rightarrow> nat" where
  "ft_of_kind k = (if k = S_IFREG then FT_REG else if k = S_IFLNK then FT_LNK else if k = S_IFSOCK then FT_SOCK else FT_UNK)"

definition link_at :: "nat \<Rightarrow> u8 list \<Rightarrow> nat \<Rightarrow> u8 list \<Rightarrow> bool \<Rightarrow> ext2 \<Rightarrow> unit fsres" where
  "link_at old_at old_path new_at new_path follow st =
     and_then (resolve_at old_at old_path follow st) (\<lambda>old st.
       and_then (read_inode old st) (\<lambda>n st.
         if is_dir n then (Inl EPERM, st)
         else and_then (parent_of new_at new_path st) (\<lambda>(dir, name) st.
           and_then (lookup dir name st) (\<lambda>r st.
             if r \<noteq> None then (Inl EEXIST, st)
             else if i_links n + 1 \<ge> 2 ^ 16 then (Inl EMLINK, st)
             else and_then (write_inode old (n\<lparr>i_links := i_links n + 1, i_ctime := rtc st\<rparr>) st) (\<lambda>_.
               dir_add dir name old (ft_of_kind (i_kind n)))))))"

definition find_name :: "nat \<Rightarrow> u8 list \<Rightarrow> ext2 \<Rightarrow> (nat \<times> nat) fsres" where
  "find_name dir name st =
     and_then (lookup dir name st) (\<lambda>r st. case r of None \<Rightarrow> (Inl ENOENT, st) | Some e \<Rightarrow> (Inr e, st))"

definition unlink_at :: "nat \<Rightarrow> u8 list \<Rightarrow> (nat \<Rightarrow> bool) \<Rightarrow> ext2 \<Rightarrow> nat option fsres" where
  "unlink_at at path is_open st =
     and_then (parent_of at path st) (\<lambda>(dir, name) st.
       and_then (find_name dir name st) (\<lambda>(ino, _) st.
         and_then (read_inode ino st) (\<lambda>n st.
           if is_dir n then (Inl EISDIR, st)
           else and_then (dir_remove dir name st) (\<lambda>_ st.
             and_then (drop_link ino (\<not> is_open ino) st) (\<lambda>orphan st.
               (Inr (if orphan \<and> is_open ino then Some ino else None), st))))))"

definition rmdir :: "nat \<Rightarrow> u8 list \<Rightarrow> ext2 \<Rightarrow> unit fsres" where
  "rmdir at path st =
     and_then (parent_of at path st) (\<lambda>(dir, name) st.
       and_then (find_name dir name st) (\<lambda>(ino, _) st.
         and_then (read_inode ino st) (\<lambda>n st.
           if \<not> is_dir n then (Inl ENOTDIR, st)
           else and_then (dir_is_empty ino 0 st) (\<lambda>vacant st.
             if \<not> vacant then (Inl ENOTEMPTY, st)
             else and_then (dir_remove dir name st) (\<lambda>_ st.
               and_then (release_inode ino st) (\<lambda>_. sub_link dir))))))"

section \<open>Renaming\<close>

fun is_ancestor :: "nat \<Rightarrow> nat \<Rightarrow> nat \<Rightarrow> ext2 \<Rightarrow> bool fsres" where
  "is_ancestor 0 a b st = (Inr False, st)"
| "is_ancestor (Suc k) a b st =
     (if a = b then (Inr True, st)
      else if b = ROOT_INODE then (Inr False, st)
      else and_then (lookup b [DOT, DOT] st) (\<lambda>r st.
        case r of None \<Rightarrow> (Inl EIO, st) | Some (up, _) \<Rightarrow> is_ancestor k a up st))"

text \<open>The part of \<open>rename\<close> that removes the name it replaces; the result is the orphan it leaves, if any.\<close>

definition replace_target :: "nat \<Rightarrow> u8 list \<Rightarrow> nat \<Rightarrow> bool \<Rightarrow> (nat \<Rightarrow> bool) \<Rightarrow> ext2 \<Rightarrow> nat option fsres" where
  "replace_target ddir dname old moving_dir is_open st =
     and_then (read_inode old st) (\<lambda>n st.
       if is_dir n then
         if \<not> moving_dir then (Inl EISDIR, st)
         else and_then (dir_is_empty old 0 st) (\<lambda>vacant st.
           if \<not> vacant then (Inl ENOTEMPTY, st)
           else and_then (dir_remove ddir dname st) (\<lambda>_ st.
             and_then (release_inode old st) (\<lambda>_ st.
               and_then (sub_link ddir st) (\<lambda>_ st. (Inr None, st)))))
       else if moving_dir then (Inl ENOTDIR, st)
       else and_then (dir_remove ddir dname st) (\<lambda>_ st.
         and_then (drop_link old (\<not> is_open old) st) (\<lambda>orphan st.
           (Inr (if orphan \<and> is_open old then Some old else None), st))))"

definition rename_at ::
  "nat \<Rightarrow> u8 list \<Rightarrow> nat \<Rightarrow> u8 list \<Rightarrow> (nat \<Rightarrow> bool) \<Rightarrow> ext2 \<Rightarrow> nat option fsres" where
  "rename_at fat src tat dst is_open st =
     and_then (parent_of fat src st) (\<lambda>(sdir, sname) st.
       and_then (parent_of tat dst st) (\<lambda>(ddir, dname) st.
         and_then (find_name sdir sname st) (\<lambda>(ino, ft) st.
           and_then (read_inode ino st) (\<lambda>n st.
             let moving_dir = is_dir n in
             and_then (if moving_dir \<and> sdir \<noteq> ddir then is_ancestor 256 ino ddir st else (Inr False, st)) (\<lambda>inside st.
               if inside then (Inl EINVAL, st)
               else and_then (lookup ddir dname st) (\<lambda>r st.
                 if map_option fst r = Some ino then (Inr None, st)
                 else and_then
                   (case r of None \<Rightarrow> (Inr None, st) | Some (old, _) \<Rightarrow> replace_target ddir dname old moving_dir is_open st)
                   (\<lambda>orphan st.
                     and_then (dir_add ddir dname ino ft st) (\<lambda>_ st.
                       and_then (dir_remove sdir sname st) (\<lambda>_ st.
                         and_then
                           (if moving_dir \<and> sdir \<noteq> ddir then
                              and_then (set_dotdot ino ddir st) (\<lambda>_ st. and_then (sub_link sdir st) (\<lambda>_. add_link ddir))
                            else (Inr (), st))
                           (\<lambda>_ st. (Inr orphan, st)))))))))))"

section \<open>The path of a directory\<close>

text \<open>The name of \<open>cur\<close> in its parent; the position guard bounds the loop as in \<open>dir_is_empty\<close>.\<close>

function name_in_parent :: "nat \<Rightarrow> nat \<Rightarrow> nat \<Rightarrow> ext2 \<Rightarrow> u8 list option fsres" where
  "name_in_parent parent cur pos st =
     (if 2 ^ 32 \<le> pos then (Inr None, st)
      else case readdir parent pos st of
        (Inl e, st) \<Rightarrow> (Inl e, st)
      | (Inr None, st) \<Rightarrow> (Inr None, st)
      | (Inr (Some d), st) \<Rightarrow>
          if e_ino d = cur \<and> e_name d \<noteq> [DOT] \<and> e_name d \<noteq> [DOT, DOT] then (Inr (Some (e_name d)), st)
          else name_in_parent parent cur (e_next d) st)"
  by pat_completeness auto
termination
  by (relation "measure (\<lambda>(parent, cur, pos, st). 2 ^ 32 - pos)") (auto dest: readdir_nearer)

declare name_in_parent.simps [simp del]

fun path_up :: "nat \<Rightarrow> nat \<Rightarrow> u8 list \<Rightarrow> ext2 \<Rightarrow> u8 list fsres" where
  "path_up 0 cur path st = (Inr path, st)"
| "path_up (Suc k) cur path st =
     (if cur = ROOT_INODE then (Inr path, st)
      else and_then (find_name cur [DOT, DOT] st) (\<lambda>(parent, _) st.
        and_then (name_in_parent parent cur 0 st) (\<lambda>r st.
          case r of
            None \<Rightarrow> (Inl ENOENT, st)
          | Some name \<Rightarrow>
              if PATH_MAX - length path < length name + 1 then (Inl ENAMETOOLONG, st)
              else path_up k parent (SLASH # name @ path) st)))"

definition dir_path :: "nat \<Rightarrow> nat \<Rightarrow> ext2 \<Rightarrow> u8 list fsres" where
  "dir_path dir room st =
     and_then (path_up 256 dir [] st) (\<lambda>path st.
       let path = (if path = [] then [SLASH] else path) in
       if length path > room then (Inl ENAMETOOLONG, st) else (Inr path, st))"

end
