(* ===== verification/Bcache_Props.thy ===== *)
theory Bcache_Props
  imports Bcache
begin

text \<open>
  The block cache is transparent: whatever the device answers, a reader sees the last bytes written, and a flush
  that reports success leaves them on the disk.
\<close>

section \<open>The invariant and the view\<close>

text \<open>The contents a reader sees: the slot's bytes if the block is cached, else the disk's.\<close>

definition slot_at :: "nat \<Rightarrow> slot list \<Rightarrow> nat option" where
  "slot_at b ss = List.find (\<lambda>i. holds b (ss ! i)) (ways b)"

definition cview :: "slot list \<Rightarrow> (nat \<Rightarrow> u8 list) \<Rightarrow> nat \<Rightarrow> u8 list" where
  "cview ss dk b = (case slot_at b ss of Some i \<Rightarrow> s_data (ss ! i) | None \<Rightarrow> dk b)"

definition dset :: "slot list \<Rightarrow> nat set" where
  "dset ss = {i. i < SLOTS \<and> s_dirty (ss ! i)}"

text \<open>A dirty slot is valid, a valid slot is in the set of its block, a clean one agrees with the disk.\<close>

definition slot_ok :: "(nat \<Rightarrow> u8 list) \<Rightarrow> nat \<Rightarrow> slot \<Rightarrow> bool" where
  "slot_ok dk i s \<longleftrightarrow> (s_dirty s \<longrightarrow> s_valid s) \<and>
     (s_valid s \<longrightarrow> i \<in> set (ways (s_blk s)) \<and> (\<not> s_dirty s \<longrightarrow> s_data s = dk (s_blk s)))"

definition cinv :: "slot list \<Rightarrow> (nat \<Rightarrow> u8 list) \<Rightarrow> nat \<Rightarrow> bool" where
  "cinv ss dk n \<longleftrightarrow> length ss = SLOTS \<and> (\<forall>i < SLOTS. slot_ok dk i (ss ! i)) \<and>
     (\<forall>i < SLOTS. \<forall>j < SLOTS. holds (s_blk (ss ! i)) (ss ! j) \<and> s_valid (ss ! i) \<longrightarrow> i = j) \<and> n = card (dset ss)"

lemma ways_bound: "i \<in> set (ways b) \<Longrightarrow> i < SLOTS"
proof -
  assume "i \<in> set (ways b)"
  then have "i < set_of b * WAYS + WAYS" by (simp add: ways_def)
  moreover have "set_of b < SETS" by (simp add: set_of_def SETS_def)
  then have "Suc (set_of b) * WAYS \<le> SETS * WAYS" by (intro mult_le_mono1) simp
  ultimately show "i < SLOTS" by (simp add: SLOTS_def mult.commute)
qed

lemma ways_nonempty: "ways b \<noteq> []" "hd (ways b) \<in> set (ways b)"
  by (simp_all add: ways_def WAYS_def)

lemma slot_atD:
  assumes "slot_at b ss = Some i"
  shows "i < SLOTS" "holds b (ss ! i)" "i \<in> set (ways b)"
proof -
  show w: "i \<in> set (ways b)" "holds b (ss ! i)" using assms nth_mem by (auto simp: slot_at_def find_Some_iff)
  show "i < SLOTS" by (rule ways_bound [OF w(1)])
qed

lemma slot_at_holds:
  assumes "cinv ss dk n" "i < SLOTS" "holds b (ss ! i)"
  shows "slot_at b ss = Some i"
proof -
  have "i \<in> set (ways b)" using assms by (auto simp: cinv_def slot_ok_def holds_def)
  then have "slot_at b ss \<noteq> None" using assms(3) by (auto simp: slot_at_def find_None_iff)
  then obtain j where j: "slot_at b ss = Some j" by blast
  have "j = i" using slot_atD(1,2) [OF j] assms by (auto simp: cinv_def holds_def)
  then show ?thesis using j by simp
qed

lemma slot_at_None: "cinv ss dk n \<Longrightarrow> slot_at b ss = None \<longleftrightarrow> (\<forall>i < SLOTS. \<not> holds b (ss ! i))"
  using slot_at_holds slot_atD by (metis not_None_eq)

lemma cview_slot: "cinv ss dk n \<Longrightarrow> i < SLOTS \<Longrightarrow> holds b (ss ! i) \<Longrightarrow> cview ss dk b = s_data (ss ! i)"
  by (simp add: cview_def slot_at_holds)

lemma cview_disk: "cinv ss dk n \<Longrightarrow> (\<And>i. i < SLOTS \<Longrightarrow> \<not> holds b (ss ! i)) \<Longrightarrow> cview ss dk b = dk b"
  using slot_at_None [of ss dk n b] by (simp add: cview_def)

text \<open>One slot changes: what the invariant needs, and what the view becomes.\<close>

lemma card_dset_update:
  assumes "length ss = SLOTS" "i < SLOTS"
  shows "card (dset (ss[i := s])) = card (dset ss) - (if s_dirty (ss ! i) then 1 else 0) + (if s_dirty s then 1 else 0)"
proof -
  have fin: "finite (dset ss)" by (simp add: dset_def)
  have eq: "dset (ss[i := s]) = (if s_dirty s then insert i (dset ss - {i}) else dset ss - {i})"
    using assms by (auto simp: dset_def nth_list_update)
  have mem: "i \<in> dset ss \<longleftrightarrow> s_dirty (ss ! i)" using assms by (simp add: dset_def)
  have c: "i \<in> dset ss \<Longrightarrow> card (dset ss - {i}) = card (dset ss) - 1" "i \<in> dset ss \<Longrightarrow> 0 < card (dset ss)"
    using fin by (auto simp: card_Diff_singleton card_gt_0_iff)
  show ?thesis using fin mem c by (auto simp: eq insert_absorb)
qed

lemma cinv_update:
  assumes inv: "cinv ss dk n" and i: "i < SLOTS" and ok: "slot_ok dk i s"
    and only: "\<And>j. s_valid s \<Longrightarrow> j < SLOTS \<Longrightarrow> j \<noteq> i \<Longrightarrow> \<not> holds (s_blk s) (ss ! j)"
    and m: "m = n - (if s_dirty (ss ! i) then 1 else 0) + (if s_dirty s then 1 else 0)"
  shows "cinv (ss[i := s]) dk m"
  unfolding cinv_def
proof (intro conjI allI impI)
  show "length (ss[i := s]) = SLOTS" using inv by (simp add: cinv_def)
  show "slot_ok dk j (ss[i := s] ! j)" if "j < SLOTS" for j
    using inv ok i that by (auto simp: cinv_def nth_list_update)
  show "j = k" if "j < SLOTS" "k < SLOTS"
    "holds (s_blk (ss[i := s] ! j)) (ss[i := s] ! k) \<and> s_valid (ss[i := s] ! j)" for j k
  proof (rule ccontr)
    assume "j \<noteq> k"
    then consider "j = i" "k \<noteq> i" | "k = i" "j \<noteq> i" | "j \<noteq> i" "k \<noteq> i" "j \<noteq> k" by blast
    then show False
    proof cases
      case 1
      then show False using only [of k] that inv i by (auto simp: cinv_def)
    next
      case 2
      then have "s_valid s" "s_blk s = s_blk (ss ! j)" "s_valid (ss ! j)"
        using that inv i by (auto simp: cinv_def holds_def)
      then show False using only [of j] 2 that(1) by (auto simp: holds_def)
    next
      case 3
      then show False using that inv by (auto simp: cinv_def)
    qed
  qed
  show "m = card (dset (ss[i := s]))" using inv i m by (simp add: cinv_def card_dset_update)
qed

lemma cview_update:
  assumes inv: "cinv ss dk n" and inv': "cinv (ss[i := s]) dk m" and i: "i < SLOTS"
  shows "cview (ss[i := s]) dk b = (if holds b s then s_data s else if holds b (ss ! i) then dk b else cview ss dk b)"
proof -
  have l: "length ss = SLOTS" using inv by (simp add: cinv_def)
  have at: "ss[i := s] ! i = s" using l i by simp
  have other: "j \<noteq> i \<Longrightarrow> ss[i := s] ! j = ss ! j" for j by simp
  show ?thesis
  proof (cases "holds b s")
    case True
    then show ?thesis using cview_slot [OF inv' i, of b] by (simp add: at)
  next
    case F: False
    show ?thesis
    proof (cases "holds b (ss ! i)")
      case True
      then have "\<not> holds b (ss ! j)" if "j < SLOTS" "j \<noteq> i" for j
        using inv i that by (auto simp: cinv_def holds_def)
      then have "cview (ss[i := s]) dk b = dk b"
        by (intro cview_disk [OF inv']) (metis F at other)
      then show ?thesis using F True by simp
    next
      case False
      show ?thesis
      proof (cases "\<exists>j < SLOTS. holds b (ss ! j)")
        case True
        then obtain j where j: "j < SLOTS" "holds b (ss ! j)" by blast
        then have "j \<noteq> i" using False by auto
        then have "cview (ss[i := s]) dk b = s_data (ss ! j)"
          using cview_slot [OF inv' j(1), of b] j(2) other by simp
        then show ?thesis using F False cview_slot [OF inv j] by simp
      next
        case none: False
        have "cview (ss[i := s]) dk b = dk b"
          by (intro cview_disk [OF inv']) (metis F at other none)
        moreover have "cview ss dk b = dk b" by (intro cview_disk [OF inv]) (use none in blast)
        ultimately show ?thesis using F False by simp
      qed
    qed
  qed
qed

text \<open>The disk may change where a dirty slot covers it.\<close>

lemma cinv_disk:
  assumes inv: "cinv ss dk n" and d: "\<And>x. dk' x \<noteq> dk x \<Longrightarrow> \<exists>i < SLOTS. holds x (ss ! i) \<and> s_dirty (ss ! i)"
  shows "cinv ss dk' n" "cview ss dk' = cview ss dk"
proof -
  have same: "dk' (s_blk (ss ! i)) = dk (s_blk (ss ! i))" if "i < SLOTS" "s_valid (ss ! i)" "\<not> s_dirty (ss ! i)" for i
  proof (rule ccontr)
    assume "dk' (s_blk (ss ! i)) \<noteq> dk (s_blk (ss ! i))"
    then obtain j where "j < SLOTS" "holds (s_blk (ss ! i)) (ss ! j)" "s_dirty (ss ! j)" using d by blast
    then show False using inv that by (auto simp: cinv_def)
  qed
  show inv': "cinv ss dk' n" using inv same by (auto simp: cinv_def slot_ok_def)
  show "cview ss dk' = cview ss dk"
  proof (rule ext)
    fix b
    show "cview ss dk' b = cview ss dk b"
    proof (cases "\<exists>i < SLOTS. holds b (ss ! i)")
      case True
      then show ?thesis using cview_slot [OF inv] cview_slot [OF inv'] by metis
    next
      case False
      then have "dk' b = dk b" using d by blast
      then show ?thesis using False cview_disk [OF inv, of b] cview_disk [OF inv', of b] by auto
    qed
  qed
qed

definition cache_inv :: "'a bcache_scheme \<Rightarrow> bool" where
  "cache_inv st \<longleftrightarrow> cinv (slots st) (disk st) (dirty_n st)"

definition view :: "'a bcache_scheme \<Rightarrow> nat \<Rightarrow> u8 list" where
  "view st = cview (slots st) (disk st)"

lemma find_slot_at: "find_slot b st = slot_at b (slots st)"
  by (simp add: find_slot_def slot_at_def)

lemma inv_slots: "cache_inv st \<Longrightarrow> length (slots st) = SLOTS"
  "cache_inv st \<Longrightarrow> i < SLOTS \<Longrightarrow> slot_ok (disk st) i (slots st ! i)"
  "cache_inv st \<Longrightarrow> i < SLOTS \<Longrightarrow> j < SLOTS \<Longrightarrow> holds b (slots st ! i) \<Longrightarrow> holds b (slots st ! j) \<Longrightarrow> i = j"
  "cache_inv st \<Longrightarrow> dirty_n st = card (dset (slots st))"
  by (auto simp: cache_inv_def cinv_def holds_def)

text \<open>The change of one slot, with the count of dirty ones.\<close>

lemma slot_change:
  assumes inv: "cache_inv st" and i: "i < SLOTS" and ok: "slot_ok (disk st) i s"
    and only: "\<And>j. s_valid s \<Longrightarrow> j < SLOTS \<Longrightarrow> j \<noteq> i \<Longrightarrow> \<not> holds (s_blk s) (slots st ! j)"
    and m: "m = dirty_n st - (if s_dirty (slots st ! i) then 1 else 0) + (if s_dirty s then 1 else 0)"
    and st': "slots st' = (slots st)[i := s]" "disk st' = disk st" "dirty_n st' = m"
  shows "cache_inv st'"
    "view st' = (\<lambda>b. if holds b s then s_data s else if holds b (slots st ! i) then disk st b else view st b)"
proof -
  have c: "cinv ((slots st)[i := s]) (disk st) m"
    by (rule cinv_update [OF inv [unfolded cache_inv_def] i ok only m])
  then show "cache_inv st'" by (simp add: cache_inv_def st')
  show "view st' = (\<lambda>b. if holds b s then s_data s else if holds b (slots st ! i) then disk st b else view st b)"
    by (rule ext) (simp add: view_def st' cview_update [OF inv [unfolded cache_inv_def] c i])
qed

text \<open>Steps that keep the contents: \<open>calm st st'\<close>.\<close>

definition calm :: "'a bcache_scheme \<Rightarrow> 'a bcache_scheme \<Rightarrow> bool" where
  "calm st st' \<longleftrightarrow> (cache_inv st \<longrightarrow> cache_inv st' \<and> view st' = view st) \<and> bs st' = bs st"

lemma calmD: "calm st st' \<Longrightarrow> cache_inv st \<Longrightarrow> cache_inv st'" "calm st st' \<Longrightarrow> cache_inv st \<Longrightarrow> view st' = view st"
  "calm st st' \<Longrightarrow> cache_inv st \<Longrightarrow> bs st' = bs st"
  by (auto simp: calm_def)

lemma calm_self: "calm st st"
  by (simp add: calm_def)

lemma calm_trans: "calm st st1 \<Longrightarrow> calm st1 st2 \<Longrightarrow> calm st st2"
  by (simp add: calm_def)

lemma calm_same: "slots st' = slots st \<Longrightarrow> disk st' = disk st \<Longrightarrow> dirty_n st' = dirty_n st \<Longrightarrow> bs st' = bs st \<Longrightarrow> calm st st'"
  by (simp add: calm_def cache_inv_def view_def)

lemma calm_fold: "(\<And>x s. x \<in> set xs \<Longrightarrow> calm s (f x s)) \<Longrightarrow> calm st (fold f xs st)"
proof (induction xs arbitrary: st)
  case (Cons x xs)
  have "calm st (f x st)" by (rule Cons(2)) simp
  moreover have "calm (f x st) (fold f xs (f x st))" by (rule Cons(1)) (use Cons(2) in simp)
  ultimately show ?case by (simp add: calm_trans)
qed (simp add: calm_self)

lemma calm_used: "i < SLOTS \<Longrightarrow> calm st (set_slot i (\<lambda>s. s\<lparr>s_used := t\<rparr>) st)"
  unfolding calm_def
proof (intro conjI impI)
  let ?s = "slots st ! i"
  assume i: "i < SLOTS" and inv: "cache_inv st"
  note c = slot_change [OF inv i, of "?s\<lparr>s_used := t\<rparr>" "dirty_n st" "set_slot i (\<lambda>s. s\<lparr>s_used := t\<rparr>) st"]
  have ok: "slot_ok (disk st) i (?s\<lparr>s_used := t\<rparr>)" using inv_slots(2) [OF inv i] by (simp add: slot_ok_def)
  have only: "\<not> holds (s_blk (?s\<lparr>s_used := t\<rparr>)) (slots st ! j)" if "s_valid (?s\<lparr>s_used := t\<rparr>)" "j < SLOTS" "j \<noteq> i" for j
    using inv_slots(3) [OF inv i that(2), of "s_blk ?s"] that by (auto simp: holds_def)
  have n: "s_dirty ?s \<Longrightarrow> 0 < dirty_n st"
    using i inv_slots(4) [OF inv] by (auto simp: card_gt_0_iff dset_def)
  then have m: "dirty_n st = dirty_n st - (if s_dirty ?s then 1 else 0) + (if s_dirty (?s\<lparr>s_used := t\<rparr>) then 1 else 0)" by simp
  note c = c [OF ok only m]
  show "cache_inv (set_slot i (\<lambda>s. s\<lparr>s_used := t\<rparr>) st)" by (rule c(1)) (simp_all add: set_slot_def)
  have "view (set_slot i (\<lambda>s. s\<lparr>s_used := t\<rparr>) st) =
      (\<lambda>b. if holds b ?s then s_data ?s else if holds b ?s then disk st b else view st b)"
    using c(2) by (simp add: set_slot_def holds_def cong: if_cong)
  moreover have "view st b = s_data ?s" if "holds b ?s" for b
    unfolding view_def by (rule cview_slot [OF inv [unfolded cache_inv_def] i that])
  ultimately show "view (set_slot i (\<lambda>s. s\<lparr>s_used := t\<rparr>) st) = view st" by (auto simp: fun_eq_iff)
qed (simp add: set_slot_def)

lemma calm_tick: "calm st (bump_tick st)"
  by (rule calm_same) (simp_all add: bump_tick_def)

text \<open>Blocks that are dirty in the cache may be written, whatever the device answers.\<close>

lemma write_blocks_calm:
  assumes "\<And>x. b \<le> x \<Longrightarrow> x < b + length ds \<Longrightarrow> \<exists>i < SLOTS. holds x (slots st ! i) \<and> s_dirty (slots st ! i)"
  shows "calm st (snd (write_blocks b ds st))"
  unfolding calm_def
proof (intro conjI impI)
  let ?st' = "snd (write_blocks b ds st)"
  have s: "slots ?st' = slots st" "dirty_n ?st' = dirty_n st" by (simp_all add: write_blocks_def Let_def)
  assume inv: "cache_inv st"
  have d: "\<exists>i < SLOTS. holds x (slots st ! i) \<and> s_dirty (slots st ! i)" if "disk ?st' x \<noteq> disk st x" for x
    using that by (intro assms) (auto simp: write_blocks_def Let_def split: if_splits)
  note c = cinv_disk [OF inv [unfolded cache_inv_def] d]
  show "cache_inv ?st'" "view ?st' = view st" using c by (simp_all add: cache_inv_def view_def s)
qed (simp add: write_blocks_def Let_def)

lemma write_blocks_ok:
  "write_blocks b ds st = (True, st') \<Longrightarrow> x < length ds \<Longrightarrow> disk st' (b + x) = ds ! x"
  "write_blocks b ds st = (ok, st') \<Longrightarrow> slots st' = slots st"
  by (auto simp: write_blocks_def Let_def)

text \<open>A dirty slot whose bytes are on the disk becomes clean.\<close>

lemma mark_clean_calm:
  assumes "i < SLOTS" "s_dirty (slots st ! i)" "s_data (slots st ! i) = disk st (s_blk (slots st ! i))"
  shows "calm st (mark_clean i st)"
  unfolding calm_def
proof (intro conjI impI)
  let ?s = "slots st ! i"
  let ?t = "?s\<lparr>s_dirty := False\<rparr>"
  assume inv: "cache_inv st"
  have v: "s_valid ?s" using inv_slots(2) [OF inv assms(1)] assms(2) by (simp add: slot_ok_def)
  have ok: "slot_ok (disk st) i ?t" using inv_slots(2) [OF inv assms(1)] assms by (simp add: slot_ok_def)
  have only: "\<not> holds (s_blk ?t) (slots st ! j)" if "s_valid ?t" "j < SLOTS" "j \<noteq> i" for j
    using inv_slots(3) [OF inv assms(1) that(2), of "s_blk ?s"] that v by (auto simp: holds_def)
  note c = slot_change [OF inv assms(1) ok only, of "dirty_n st - 1" "mark_clean i st"]
  show "cache_inv (mark_clean i st)" by (rule c(1)) (simp_all add: mark_clean_def set_slot_def assms(2))
  have "view (mark_clean i st) = (\<lambda>b. if holds b ?t then s_data ?t else if holds b ?s then disk st b else view st b)"
    by (rule c(2)) (simp_all add: mark_clean_def set_slot_def assms(2))
  moreover have "view st b = s_data ?s" if "holds b ?s" for b
    unfolding view_def by (rule cview_slot [OF inv [unfolded cache_inv_def] assms(1) that])
  ultimately show "view (mark_clean i st) = view st" by (auto simp: fun_eq_iff holds_def)
qed (simp add: mark_clean_def set_slot_def)

text \<open>A clean slot may be given to another block.\<close>

lemma take_slot_calm:
  assumes "v < SLOTS" "\<not> s_dirty (slots st ! v)"
  shows "calm st (take_slot v b st)"
  unfolding calm_def
proof (intro conjI impI)
  let ?s = "slots st ! v"
  let ?t = "\<lparr>s_blk = b, s_valid = False, s_dirty = False, s_used = tick st, s_data = s_data ?s\<rparr>"
  assume inv: "cache_inv st"
  note c = slot_change [OF inv assms(1), of ?t "dirty_n st" "take_slot v b st"]
  show "cache_inv (take_slot v b st)" by (rule c(1)) (simp_all add: take_slot_def set_slot_def assms(2) slot_ok_def)
  have "view (take_slot v b st) = (\<lambda>x. if holds x ?t then s_data ?t else if holds x ?s then disk st x else view st x)"
    by (rule c(2)) (simp_all add: take_slot_def set_slot_def assms(2) slot_ok_def)
  moreover have "view st x = disk st x" if "holds x ?s" for x
    unfolding view_def cview_slot [OF inv [unfolded cache_inv_def] assms(1) that]
    using inv_slots(2) [OF inv assms(1)] that assms(2) by (auto simp: slot_ok_def holds_def)
  ultimately show "view (take_slot v b st) = view st" by (auto simp: fun_eq_iff holds_def)
qed (simp add: take_slot_def set_slot_def)

text \<open>An invalid slot is filled: with the disk's bytes, or as a fresh dirty block.\<close>

lemma fill_slot:
  assumes inv: "cache_inv st" and v: "v \<in> set (ways b)" and free: "\<not> s_valid (slots st ! v)"
    and none: "find_slot b st = None" and s: "s_blk s = b" "s_valid s" "s_dirty s \<or> s_data s = disk st b"
    and st': "slots st' = (slots st)[v := s]" "disk st' = disk st" "dirty_n st' = dirty_n st + (if s_dirty s then 1 else 0)"
  shows "cache_inv st'" "view st' = (view st)(b := s_data s)" "find_slot b st' = Some v"
proof -
  have vS: "v < SLOTS" by (rule ways_bound [OF v])
  have nd: "\<not> s_dirty (slots st ! v)" using inv_slots(2) [OF inv vS] free by (simp add: slot_ok_def)
  have no: "\<not> holds b (slots st ! j)" if "j < SLOTS" for j
    using none that slot_at_None [OF inv [unfolded cache_inv_def], of b] by (simp add: find_slot_at)
  have c: "cache_inv st'"
    "view st' = (\<lambda>x. if holds x s then s_data s else if holds x (slots st ! v) then disk st x else view st x)"
    by (rule slot_change [OF inv vS _ _ refl st'(1,2)];
        use v no s nd st'(3) in \<open>auto simp: slot_ok_def\<close>)+
  show "cache_inv st'" by (rule c(1))
  show "view st' = (view st)(b := s_data s)"
    unfolding c(2) using s free by (auto simp: holds_def fun_eq_iff)
  show "find_slot b st' = Some v"
    unfolding find_slot_at
    by (rule slot_at_holds [OF c(1) [unfolded cache_inv_def] vS])
      (use vS s in \<open>simp add: st' holds_def inv_slots(1) [OF inv]\<close>)
qed

lemma set_slot_simps [simp]:
  "disk (set_slot i f st) = disk st" "dirty_n (set_slot i f st) = dirty_n st" "bs (set_slot i f st) = bs st"
  "tick (set_slot i f st) = tick st" "slots (set_slot i f st) = (slots st)[i := f (slots st ! i)]"
  by (simp_all add: set_slot_def)

lemma take_slot_simps [simp]:
  "disk (take_slot v b st) = disk st" "dirty_n (take_slot v b st) = dirty_n st" "bs (take_slot v b st) = bs st"
  "tick (take_slot v b st) = tick st"
  "slots (take_slot v b st) = (slots st)[v := \<lparr>s_blk = b, s_valid = False, s_dirty = False, s_used = tick st, s_data = s_data (slots st ! v)\<rparr>]"
  by (simp_all add: take_slot_def)

lemma find_slot_None: "cache_inv st \<Longrightarrow> find_slot b st = None \<longleftrightarrow> (\<forall>i < SLOTS. \<not> holds b (slots st ! i))"
  unfolding find_slot_at cache_inv_def by (rule slot_at_None)

lemma find_slot_Some: "find_slot b st = Some i \<Longrightarrow> i < SLOTS \<and> holds b (slots st ! i)"
  unfolding find_slot_at using slot_atD by blast

lemma pick_victim_in: "pick_victim st is v \<in> set is \<or> pick_victim st is v = v"
  by (induction "is" arbitrary: v) (auto simp: Let_def)

lemma evict_spec:
  assumes "evict v st = (ok, st')" "v < SLOTS" "cache_inv st"
  shows "calm st st'" "ok \<Longrightarrow> \<not> s_dirty (slots st' ! v)" "\<And>i x. i < SLOTS \<Longrightarrow> holds x (slots st' ! i) = holds x (slots st ! i)"
proof -
  let ?s = "slots st ! v"
  have l: "length (slots st) = SLOTS" using assms(3) by (simp add: inv_slots)
  show "calm st st'" "ok \<Longrightarrow> \<not> s_dirty (slots st' ! v)" "\<And>i x. i < SLOTS \<Longrightarrow> holds x (slots st' ! i) = holds x (slots st ! i)"
  proof (atomize (full), cases "s_valid ?s \<and> s_dirty ?s")
    case True
    obtain k s1 where w: "write_blocks (s_blk ?s) [s_data ?s] st = (k, s1)" by fastforce
    note sl = write_blocks_ok(2) [OF w]
    have c1: "calm st s1"
      using write_blocks_calm [of "s_blk ?s" "[s_data ?s]" st] True assms(2) w by (auto simp: holds_def less_Suc_eq)
    show "calm st st' \<and> (ok \<longrightarrow> \<not> s_dirty (slots st' ! v)) \<and> (\<forall>i x. i < SLOTS \<longrightarrow> holds x (slots st' ! i) = holds x (slots st ! i))"
    proof (cases k)
      case k: True
      then have e: "ok" "st' = mark_clean v s1" using assms(1) True w by (simp_all add: evict_def Let_def)
      have "write_blocks (s_blk ?s) [s_data ?s] st = (True, s1)" using w k by simp
      from write_blocks_ok(1) [OF this, of 0] have "disk s1 (s_blk ?s) = s_data ?s" by simp
      then have "calm s1 (mark_clean v s1)" by (intro mark_clean_calm) (use True assms(2) in \<open>simp_all add: sl\<close>)
      then show ?thesis using c1 l assms(2) unfolding e(2)
        by (auto simp: mark_clean_def sl nth_list_update holds_def intro: calm_trans)
    next
      case False
      then have "\<not> ok" "st' = s1" using assms(1) True w by (simp_all add: evict_def Let_def)
      then show ?thesis using c1 by (simp add: sl)
    qed
  next
    case False
    then have "ok" "st' = st" using assms(1) by (auto simp: evict_def Let_def)
    moreover have "\<not> s_dirty ?s" using False inv_slots(2) [OF assms(3,2)] by (auto simp: slot_ok_def)
    ultimately show "calm st st' \<and> (ok \<longrightarrow> \<not> s_dirty (slots st' ! v)) \<and> (\<forall>i x. i < SLOTS \<longrightarrow> holds x (slots st' ! i) = holds x (slots st ! i))"
      by (simp add: calm_self)
  qed
qed

lemma invalid_data_calm:
  assumes "v < SLOTS" "\<not> s_valid (slots st ! v)" "\<not> s_valid (f (slots st ! v))" "\<not> s_dirty (f (slots st ! v))"
  shows "calm st (set_slot v f st)"
  unfolding calm_def
proof (intro conjI impI)
  assume inv: "cache_inv st"
  let ?t = "f (slots st ! v)"
  have nd: "\<not> s_dirty (slots st ! v)" using inv_slots(2) [OF inv assms(1)] assms(2) by (simp add: slot_ok_def)
  note c = slot_change [OF inv assms(1), of ?t "dirty_n st" "set_slot v f st"]
  show "cache_inv (set_slot v f st)" by (rule c(1)) (use assms nd in \<open>simp_all add: slot_ok_def\<close>)
  have "view (set_slot v f st) = (\<lambda>x. if holds x ?t then s_data ?t else if holds x (slots st ! v) then disk st x else view st x)"
    by (rule c(2)) (use assms nd in \<open>simp_all add: slot_ok_def\<close>)
  then show "view (set_slot v f st) = view st" using assms(2,3) by (simp add: holds_def)
qed simp

definition zeros :: "'a bcache_scheme \<Rightarrow> u8 list" where "zeros st = replicate (bs st) 0"

lemma bget_spec:
  assumes inv: "cache_inv st" and g: "bget b ld st = (r, st')"
  shows "cache_inv st' \<and> bs st' = bs st \<and>
    (case r of Inl e \<Rightarrow> e = EIO \<and> view st' = view st
     | Inr i \<Rightarrow> find_slot b st' = Some i \<and> view st' = (if ld \<or> cached b st then view st else (view st)(b := zeros st)))"
proof -
  let ?s0 = "bump_tick st"
  have inv0: "cache_inv ?s0" "view ?s0 = view st" "bs ?s0 = bs st" using calmD [OF calm_tick inv] by (auto simp: bump_tick_def)
  have f0: "find_slot b ?s0 = find_slot b st" by (simp add: find_slot_def bump_tick_def)
  show ?thesis
  proof (cases "find_slot b st")
    case (Some i)
    then have r: "r = Inr i" "st' = set_slot i (\<lambda>s. s\<lparr>s_used := tick ?s0\<rparr>) ?s0"
      using g f0 by (simp_all add: bget_def Let_def)
    have i: "i < SLOTS" "holds b (slots st ! i)" using find_slot_Some [OF Some] by auto
    note c = calmD [OF calm_used [OF i(1)] inv0(1), of "tick ?s0"]
    have "find_slot b st' = Some i"
      unfolding find_slot_at
      by (rule slot_at_holds [OF c(1) [folded r(2), unfolded cache_inv_def] i(1)])
        (use i inv_slots(1) [OF inv] in \<open>simp add: r(2) bump_tick_def holds_def\<close>)
    then show ?thesis using c inv0 Some by (simp add: r cached_def)
  next
    case None
    define v where "v = pick_victim ?s0 (ways b) (hd (ways b))"
    have v: "v \<in> set (ways b)"
      using pick_victim_in [of ?s0 "ways b" "hd (ways b)"] ways_nonempty(2) [of b] by (auto simp: v_def)
    have vS: "v < SLOTS" by (rule ways_bound [OF v])
    obtain ok s1 where e: "evict v ?s0 = (ok, s1)" by fastforce
    note ev = evict_spec [OF e vS inv0(1)]
    have inv1: "cache_inv s1" "view s1 = view st" "bs s1 = bs st" using calmD [OF ev(1) inv0(1)] inv0 by auto
    show ?thesis
    proof (cases ok)
      case False
      then have "r = Inl EIO" "st' = s1" using g None f0 e by (simp_all add: bget_def Let_def v_def)
      then show ?thesis using inv1 by simp
    next
      case True
      let ?s2 = "take_slot v b s1"
      have nd: "\<not> s_dirty (slots s1 ! v)" using ev(2) True by simp
      note c2 = calmD [OF take_slot_calm [OF vS nd, of b] inv1(1)]
      have l1: "length (slots s1) = SLOTS" using inv1(1) by (simp add: inv_slots)
      have "\<forall>i < SLOTS. \<not> holds b (slots ?s0 ! i)" using None f0 find_slot_None [OF inv0(1), of b] by simp
      then have "\<not> holds b (slots ?s2 ! i)" if "i < SLOTS" for i
        using ev(3) [OF that, of b] that l1 by (cases "i = v") (auto simp: holds_def)
      then have none: "find_slot b ?s2 = None" using find_slot_None [OF c2(1), of b] by simp
      have inval: "\<not> s_valid (slots ?s2 ! v)" "s_blk (slots ?s2 ! v) = b" "\<not> s_dirty (slots ?s2 ! v)"
        using l1 vS by simp_all
      show ?thesis
      proof (cases ld)
        case True
        obtain k ds s3 where rd: "read_blocks b 1 ?s2 = (k, ds, s3)" using prod_cases3 by blast
        have s3: "slots s3 = slots ?s2" "disk s3 = disk ?s2" "dirty_n s3 = dirty_n ?s2" "bs s3 = bs ?s2"
          "k \<Longrightarrow> ds ! 0 = disk ?s2 b" using rd by (auto simp: read_blocks_def Let_def)
        let ?s4 = "set_slot v (\<lambda>s. s\<lparr>s_data := ds ! 0\<rparr>) s3"
        have "calm ?s2 s3" by (rule calm_same) (simp_all add: s3)
        moreover have "calm s3 ?s4" by (rule invalid_data_calm [OF vS]) (use inval in \<open>simp_all add: s3(1)\<close>)
        ultimately have "calm ?s2 ?s4" by (rule calm_trans)
        note c4 = calmD [OF this c2(1)]
        show ?thesis
        proof (cases k)
          case False
          then have "r = Inl EIO" "st' = ?s4" using g None f0 e rd \<open>ok\<close> True by (simp_all add: bget_def Let_def v_def)
          then show ?thesis using c4 c2 inv1 by simp
        next
          case k: True
          let ?s5 = "set_slot v (\<lambda>s. s\<lparr>s_valid := True\<rparr>) ?s4"
          have r: "r = Inr v" "st' = ?s5" using g None f0 e rd \<open>ok\<close> True k by (simp_all add: bget_def Let_def v_def)
          have none4: "find_slot b ?s4 = None"
            unfolding find_slot_None [OF c4(1)]
            using none [unfolded find_slot_None [OF c2(1)]] l1 vS by (auto simp: s3 nth_list_update holds_def)
          note fs = fill_slot [OF c4(1) v _ none4, of "(slots ?s4 ! v)\<lparr>s_valid := True\<rparr>" ?s5]
          have "cache_inv ?s5 \<and> view ?s5 = (view ?s4)(b := s_data ((slots ?s4 ! v)\<lparr>s_valid := True\<rparr>)) \<and> find_slot b ?s5 = Some v"
            by (intro conjI; rule fs; use inval l1 vS s3 k in simp)
          moreover have "view ?s4 b = disk ?s4 b"
            unfolding view_def using none4 by (simp add: cview_def find_slot_at)
          ultimately show ?thesis using c4 c2 inv1 k l1 vS by (simp add: r True s3 fun_upd_idem)
        qed
      next
        case False
        let ?s3 = "(set_slot v (\<lambda>s. s\<lparr>s_data := replicate (bs ?s2) 0, s_dirty := True, s_valid := True\<rparr>) ?s2)\<lparr>dirty_n := dirty_n ?s2 + 1\<rparr>"
        have r: "r = Inr v" "st' = ?s3" using g None f0 e \<open>ok\<close> False by (simp_all add: bget_def Let_def v_def)
        note fs = fill_slot [OF c2(1) v _ none, of "(slots ?s2 ! v)\<lparr>s_data := replicate (bs ?s2) 0, s_dirty := True, s_valid := True\<rparr>" ?s3]
        have "cache_inv ?s3 \<and> view ?s3 = (view ?s2)(b := replicate (bs ?s2) 0) \<and> find_slot b ?s3 = Some v"
          by (intro conjI; (rule fs(1) fs(3) | rule fs(2) [THEN trans]); use inval l1 vS in simp)
        then show ?thesis using c2 inv1 None by (simp add: r False cached_def zeros_def)
      qed
    qed
  qed
qed

section \<open>Writing back\<close>

lemma run_len_le: "run_len b n xs \<le> length xs" "run_len b n xs \<le> n"
  by (induction b n xs rule: run_len.induct) auto

lemma run_len_nth: "j < run_len b n xs \<Longrightarrow> fst (xs ! j) = b + j"
proof (induction b n xs arbitrary: j rule: run_len.induct)
  case (3 b n x xs)
  then show ?case by (cases j) (auto split: if_splits)
qed simp_all

text \<open>Entries of the list of dirty blocks: the slot holds the block and is dirty.\<close>

definition entry_ok :: "'a bcache_scheme \<Rightarrow> nat \<times> nat \<Rightarrow> bool" where
  "entry_ok st e \<longleftrightarrow> snd e < SLOTS \<and> holds (fst e) (slots st ! snd e) \<and> s_dirty (slots st ! snd e)"

definition cleaned :: "nat set \<Rightarrow> 'a bcache_scheme \<Rightarrow> 'a bcache_scheme \<Rightarrow> bool" where
  "cleaned I st st' \<longleftrightarrow> length (slots st') = length (slots st) \<and>
     (\<forall>i < length (slots st). slots st' ! i = (if i \<in> I then (slots st ! i)\<lparr>s_dirty := False\<rparr> else slots st ! i))"

lemma cleaned_refl: "cleaned {} st st"
  by (simp add: cleaned_def)

lemma cleaned_trans: "cleaned I st s1 \<Longrightarrow> cleaned J s1 s2 \<Longrightarrow> cleaned (I \<union> J) st s2"
  by (auto simp: cleaned_def)

lemma cleaned_entry:
  "cleaned I st st' \<Longrightarrow> length (slots st) = SLOTS \<Longrightarrow> entry_ok st e \<Longrightarrow> snd e \<notin> I \<Longrightarrow> entry_ok st' e"
  by (auto simp: cleaned_def entry_ok_def)

lemma clean_run:
  assumes "cache_inv st" "distinct (map snd run)" "\<forall>e \<in> set run. entry_ok st e"
    "\<forall>e \<in> set run. s_data (slots st ! snd e) = disk st (fst e)"
  shows "calm st (fold (\<lambda>e. mark_clean (snd e)) run st) \<and> cleaned (snd ` set run) st (fold (\<lambda>e. mark_clean (snd e)) run st)"
  using assms
proof (induction run arbitrary: st)
  case (Cons e run)
  let ?s1 = "mark_clean (snd e) st"
  have e: "entry_ok st e" "s_data (slots st ! snd e) = disk st (fst e)" using Cons(4,5) by simp_all
  have c: "calm st ?s1" by (rule mark_clean_calm) (use e in \<open>auto simp: entry_ok_def holds_def\<close>)
  have l: "length (slots st) = SLOTS" by (rule inv_slots(1) [OF Cons(2)])
  have k: "cleaned {snd e} st ?s1"
    using e l by (auto simp: cleaned_def mark_clean_def entry_ok_def nth_list_update)
  have "\<forall>x \<in> set run. entry_ok ?s1 x"
  proof
    fix y assume y: "y \<in> set run"
    then have "snd y \<noteq> snd e" using Cons(3) by (auto simp: image_iff)
    then show "entry_ok ?s1 y" using Cons(4) y cleaned_entry [OF k l, of y] by simp
  qed
  moreover have "\<forall>x \<in> set run. s_data (slots ?s1 ! snd x) = disk ?s1 (fst x)"
  proof
    fix y assume y: "y \<in> set run"
    then have "snd e \<noteq> snd y" using Cons(3) by (auto simp: image_iff)
    then show "s_data (slots ?s1 ! snd y) = disk ?s1 (fst y)" using Cons(5) y by (simp add: mark_clean_def)
  qed
  ultimately have "calm ?s1 (fold (\<lambda>e. mark_clean (snd e)) run ?s1)"
    "cleaned (snd ` set run) ?s1 (fold (\<lambda>e. mark_clean (snd e)) run ?s1)"
    using Cons(1) [OF calmD(1) [OF c Cons(2)]] Cons(3) by auto
  then show ?case using calm_trans [OF c] cleaned_trans [OF k] by auto
qed (simp add: calm_self cleaned_refl)

lemma flush_runs_spec:
  assumes "cache_inv st" "distinct (map snd xs)" "\<forall>e \<in> set xs. entry_ok st e" "flush_runs xs ok st = (r, st')"
  shows "calm st st' \<and> (\<exists>I \<subseteq> snd ` set xs. cleaned I st st' \<and> (r \<longrightarrow> ok \<and> I = snd ` set xs))"
  using assms
proof (induction xs ok st arbitrary: r st' rule: flush_runs.induct)
  case (1 ok st)
  then show ?case using cleaned_refl calm_self by auto
next
  case (2 x xs ok st)
  let ?xs = "x # xs"
  define k where "k = run_len (fst x) MAX_SEGS ?xs"
  let ?run = "take k ?xs" and ?rest = "drop k ?xs"
  let ?ds = "map (\<lambda>e. s_data (slots st ! snd e)) ?run"
  have kl: "k \<le> length ?xs" unfolding k_def by (rule run_len_le)
  obtain good s1 where w: "write_blocks (fst x) ?ds st = (good, s1)" by fastforce
  note sl = write_blocks_ok(2) [OF w]
  have at: "fst (?xs ! j) = fst x + j" if "j < k" for j using run_len_nth that unfolding k_def by blast
  have cover: "\<exists>i < SLOTS. holds y (slots st ! i) \<and> s_dirty (slots st ! i)"
    if "fst x \<le> y" "y < fst x + length ?ds" for y
  proof -
    have j: "y - fst x < k" using that kl by simp
    then have "entry_ok st (?xs ! (y - fst x))" using "2.prems"(3) kl by (meson nth_mem order_less_le_trans)
    then show ?thesis using at [OF j] that by (auto simp: entry_ok_def)
  qed
  have c1: "calm st s1" using write_blocks_calm [of "fst x" ?ds st] cover w by simp
  note inv1 = calmD(1) [OF c1 "2.prems"(1)]
  have l: "length (slots st) = SLOTS" by (rule inv_slots(1) [OF "2.prems"(1)])
  have ent: "\<forall>e \<in> set ?xs. entry_ok s1 e" using "2.prems"(3) by (simp add: entry_ok_def sl)
  have ent': "\<forall>e \<in> set ?run. entry_ok s1 e" "\<forall>e \<in> set ?rest. entry_ok s1 e"
    using ent set_take_subset [of k ?xs] set_drop_subset [of k ?xs] by blast+
  have dist: "distinct (map snd ?run)" "distinct (map snd ?rest)" "snd ` set ?run \<inter> snd ` set ?rest = {}"
    using "2.prems"(2) append_take_drop_id [of k ?xs] by (metis distinct_append map_append set_map)+
  have un: "snd ` set ?xs = snd ` set ?run \<union> snd ` set ?rest"
    using append_take_drop_id [of k ?xs] by (metis image_Un set_append)
  have step: "flush_runs ?xs ok st =
      (if good then flush_runs ?rest ok (fold (\<lambda>e. mark_clean (snd e)) ?run s1) else flush_runs ?rest False s1)"
    using w by (simp add: flush_runs.simps Let_def k_def)
  show ?case
  proof (cases good)
    case True
    let ?s2 = "fold (\<lambda>e. mark_clean (snd e)) ?run s1"
    have data: "\<forall>e \<in> set ?run. s_data (slots s1 ! snd e) = disk s1 (fst e)"
    proof
      fix e assume "e \<in> set ?run"
      then obtain j where j: "j < length ?run" "e = ?run ! j" by (metis in_set_conv_nth)
      have "disk s1 (fst x + j) = ?ds ! j"
        by (rule write_blocks_ok(1)) (use w True j in auto)
      moreover have "fst e = fst x + j" using at [of j] j by simp
      ultimately show "s_data (slots s1 ! snd e) = disk s1 (fst e)" using j by (simp add: sl)
    qed
    have cr: "calm s1 ?s2" "cleaned (snd ` set ?run) s1 ?s2"
      using clean_run [OF inv1 dist(1) ent'(1) data] by auto
    have l1: "length (slots s1) = SLOTS" using l by (simp add: sl)
    have "\<forall>e \<in> set ?rest. entry_ok ?s2 e" using cleaned_entry [OF cr(2) l1] ent'(2) dist(3) by blast
    moreover have "flush_runs ?rest ok ?s2 = (r, st')" using "2.prems"(4) step True by simp
    ultimately obtain I where I: "calm ?s2 st'" "I \<subseteq> snd ` set ?rest" "cleaned I ?s2 st'" "r \<longrightarrow> ok \<and> I = snd ` set ?rest"
      using "2.IH"(1) [of k ?run "(good, s1)" good s1 r st'] k_def w True calmD(1) [OF cr(1) inv1] dist(2) by auto
    have "cleaned (snd ` set ?run \<union> I) s1 st'" by (rule cleaned_trans [OF cr(2) I(3)])
    then have "cleaned (snd ` set ?run \<union> I) st st'" by (simp add: cleaned_def sl)
    then show ?thesis using calm_trans [OF c1 calm_trans [OF cr(1) I(1)]] I(2,4) un by (intro conjI exI [of _ "snd ` set ?run \<union> I"]) auto
  next
    case False
    have "flush_runs ?rest False s1 = (r, st')" using "2.prems"(4) step False by simp
    then obtain I where I: "calm s1 st'" "I \<subseteq> snd ` set ?rest" "cleaned I s1 st'" "\<not> r"
      using "2.IH"(2) [of k ?run "(good, s1)" good s1 r st'] k_def w False inv1 dist(2) ent'(2) by auto
    then have "cleaned I st st'" by (simp add: cleaned_def sl)
    then show ?thesis using calm_trans [OF c1 I(1)] I(2,4) un by (intro conjI exI [of _ I]) auto
  qed
qed

lemma dirty_list_spec:
  assumes "cache_inv st"
  shows "distinct (map snd (dirty_list st))" "\<forall>e \<in> set (dirty_list st). entry_ok st e"
    "snd ` set (dirty_list st) = dset (slots st)"
proof -
  show "distinct (map snd (dirty_list st))" by (simp add: dirty_list_def comp_def)
  show "\<forall>e \<in> set (dirty_list st). entry_ok st e" by (auto simp: dirty_list_def entry_ok_def holds_def)
  show "snd ` set (dirty_list st) = dset (slots st)"
    using inv_slots(2) [OF assms] by (force simp: dirty_list_def dset_def slot_ok_def image_def)
qed

text \<open>Writing back keeps what readers see; if it reports success the disk holds exactly that.\<close>

lemma flush_dirty_spec:
  assumes inv: "cache_inv st" and f: "flush_dirty st = (r, st')"
  shows "calm st st'" "r \<Longrightarrow> disk st' = view st"
proof -
  have settled: "disk s = view s" if i: "cache_inv s" and d: "dset (slots s) = {}" for s :: "'a bcache_scheme"
  proof (rule ext)
    fix b
    show "disk s b = view s b"
    proof (cases "find_slot b s")
      case (Some j)
      have j: "j < SLOTS" "holds b (slots s ! j)" using find_slot_Some [OF Some] by auto
      then have "\<not> s_dirty (slots s ! j)" using d by (auto simp: dset_def)
      then have "s_data (slots s ! j) = disk s b" using inv_slots(2) [OF i j(1)] j(2) by (auto simp: slot_ok_def holds_def)
      then show ?thesis using Some by (simp add: view_def cview_def find_slot_at)
    qed (simp add: view_def cview_def find_slot_at)
  qed
  let ?d = "dirty_list st"
  note dl = dirty_list_spec [OF inv]
  have fin: "finite (dset (slots st))" by (simp add: dset_def)
  have n0: "dirty_n st = 0 \<longleftrightarrow> dset (slots st) = {}" using inv_slots(4) [OF inv] fin by simp
  show c: "calm st st'"
  proof (cases "dirty_n st = 0 \<or> ?d = []")
    case True
    then have "dirty_n st = 0" using n0 dl(3) by auto
    then show ?thesis using f by (simp add: flush_dirty_def calm_self)
  next
    case False
    then have "flush_runs (sort_key fst ?d) True st = (r, st')" using f by (simp add: flush_dirty_def Let_def)
    from flush_runs_spec [OF inv _ _ this] dl show ?thesis by (auto simp: distinct_map)
  qed
  assume r: r
  have "dset (slots st') = {}"
  proof (cases "dirty_n st = 0 \<or> ?d = []")
    case True
    then have z: "dirty_n st = 0" using n0 dl(3) by auto
    then show ?thesis using f n0 by (simp add: flush_dirty_def)
  next
    case False
    then have "flush_runs (sort_key fst ?d) True st = (r, st')" using f by (simp add: flush_dirty_def Let_def)
    from flush_runs_spec [OF inv _ _ this] dl r have "cleaned (dset (slots st)) st st'" by (auto simp: distinct_map)
    then show ?thesis using inv_slots(1) [OF inv] by (auto simp: cleaned_def dset_def)
  qed
  then show "disk st' = view st" using settled [of st'] calmD(1,2) [OF c inv] by simp
qed

lemma bs_write: "bs (snd (write_blocks b ds s)) = bs s"
  by (simp add: write_blocks_def Let_def)

lemma bs_clean: "bs (fold (\<lambda>e. mark_clean (snd e)) xs s) = bs s"
  by (induction xs arbitrary: s) (simp_all add: mark_clean_def)

lemma bs_flush_runs: "bs (snd (flush_runs xs ok s)) = bs s"
proof (induction xs ok s rule: flush_runs.induct)
  case (2 x xs ok s)
  let ?k = "run_len (fst x) MAX_SEGS (x # xs)"
  obtain good s1 where g: "write_blocks (fst x) (map (\<lambda>e. s_data (slots s ! snd e)) (take ?k (x # xs))) s = (good, s1)" by fastforce
  then have "bs s1 = bs s" using bs_write [of "fst x" "map (\<lambda>e. s_data (slots s ! snd e)) (take ?k (x # xs))" s] by simp
  then show ?case using g 2 [OF refl refl g [symmetric] refl] by (simp add: flush_runs.simps Let_def bs_clean)
qed simp
lemma flush_calm: "calm st (snd (flush_dirty st))"
proof (cases "cache_inv st")
  case True
  then show ?thesis using flush_dirty_spec(1) [OF True] by (metis prod.collapse)
next
  case False
  then show ?thesis by (simp add: calm_def flush_dirty_def Let_def bs_flush_runs)
qed

text \<open>A write to the block of a slot.\<close>

lemma modify_spec:
  assumes inv: "cache_inv st" and f: "find_slot b st = Some i"
  shows "cache_inv (modify b i g st)" "view (modify b i g st) = (view st)(b := g (view st b))" "bs (modify b i g st) = bs st"
proof -
  let ?s = "slots st ! i"
  let ?t = "?s\<lparr>s_data := g (s_data ?s), s_dirty := True\<rparr>"
  have i: "i < SLOTS" "holds b ?s" using find_slot_Some [OF f] by auto
  have l: "length (slots st) = SLOTS" by (rule inv_slots(1) [OF inv])
  have v: "view st b = s_data ?s" unfolding view_def by (rule cview_slot [OF inv [unfolded cache_inv_def] i])
  have only: "\<not> holds (s_blk ?t) (slots st ! j)" if "s_valid ?t" "j < SLOTS" "j \<noteq> i" for j
    using inv_slots(3) [OF inv i(1) that(2), of b] that i(2) by (auto simp: holds_def)
  have ok: "slot_ok (disk st) i ?t" using inv_slots(2) [OF inv i(1)] i(2) by (simp add: slot_ok_def holds_def)
  let ?X = "set_slot i (\<lambda>s. s\<lparr>s_data := g (s_data s)\<rparr>) st"
  have fX: "find_slot b ?X = Some i"
  proof -
    have "holds b (slots ?X ! j) = holds b (slots st ! j)" if "j < SLOTS" for j
      using l that by (cases "j = i") (auto simp: holds_def)
    then have "List.find (\<lambda>j. holds b (slots ?X ! j)) (ways b) = List.find (\<lambda>j. holds b (slots st ! j)) (ways b)"
      by (intro find_cong refl) (simp add: ways_bound)
    then show ?thesis using f by (simp add: find_slot_def)
  qed
  have pos: "s_dirty ?s \<Longrightarrow> 0 < dirty_n st"
    using i(1) inv_slots(4) [OF inv] by (auto simp: card_gt_0_iff dset_def)
  define Y where "Y = (if s_dirty ?s then ?X else (set_slot i (\<lambda>s. s\<lparr>s_dirty := True\<rparr>) ?X)\<lparr>dirty_n := dirty_n ?X + 1\<rparr>)"
  have keep: "s_dirty ?s \<Longrightarrow> ?t = ?s\<lparr>s_data := g (s_data ?s)\<rparr>" by (cases ?s) simp
  have "slots Y = (slots st)[i := ?t]"
  proof (cases "s_dirty ?s")
    case True
    show ?thesis unfolding keep [OF True] by (simp add: Y_def True)
  next
    case False
    then show ?thesis using i(1) l by (simp add: Y_def)
  qed
  then have Y: "slots Y = (slots st)[i := ?t]" "disk Y = disk st"
    "dirty_n Y = dirty_n st - (if s_dirty ?s then 1 else 0) + (if s_dirty ?t then 1 else 0)" "bs Y = bs st"
    using pos by (auto simp: Y_def)
  note c = slot_change [OF inv i(1) ok only refl Y(1-3)]
  have vY: "view Y = (view st)(b := g (view st b))"
    using c(2) i(2) v by (auto simp: holds_def fun_eq_iff)
  have m: "modify b i g st = (if s_dirty ?s \<or> dirty_n Y < 256 then Y else snd (flush_dirty Y))"
    using fX i(1) l by (simp add: modify_def bdirty_def Let_def Y_def)
  note fl = calmD [OF flush_calm c(1)]
  show "cache_inv (modify b i g st)" "view (modify b i g st) = (view st)(b := g (view st b))" "bs (modify b i g st) = bs st"
    using c(1) vY fl Y(4) by (simp_all add: m)
qed

text \<open>A freed block is dropped without being written.\<close>

lemma forget_slot_spec:
  assumes inv: "cache_inv st" and i: "i < SLOTS"
  shows "cache_inv (forget_slot b i st)" "x \<noteq> b \<Longrightarrow> view (forget_slot b i st) x = view st x"
    "disk (forget_slot b i st) = disk st" "bs (forget_slot b i st) = bs st"
    "\<not> holds b (slots (forget_slot b i st) ! i)"
    "\<not> holds b (slots st ! j) \<Longrightarrow> \<not> holds b (slots (forget_slot b i st) ! j)"
proof -
  let ?s = "slots st ! i"
  let ?t = "?s\<lparr>s_valid := False, s_dirty := False\<rparr>"
  have l: "length (slots st) = SLOTS" by (rule inv_slots(1) [OF inv])
  have d: "disk (forget_slot b i st) = disk st" "bs (forget_slot b i st) = bs st"
    by (simp_all add: forget_slot_def Let_def)
  show "disk (forget_slot b i st) = disk st" "bs (forget_slot b i st) = bs st" by (rule d)+
  show "\<not> holds b (slots (forget_slot b i st) ! i)"
    using l i by (simp add: forget_slot_def Let_def) (simp add: holds_def)
  show "\<not> holds b (slots st ! j) \<Longrightarrow> \<not> holds b (slots (forget_slot b i st) ! j)"
    using l i by (cases "i = j") (auto simp: forget_slot_def Let_def holds_def)
  have "cache_inv (forget_slot b i st) \<and> (x \<noteq> b \<longrightarrow> view (forget_slot b i st) x = view st x)"
  proof (cases "holds b ?s")
    case True
    have s: "slots (forget_slot b i st) = (slots st)[i := ?t]"
      "dirty_n (forget_slot b i st) = dirty_n st - (if s_dirty ?s then 1 else 0) + (if s_dirty ?t then 1 else 0)"
      using True by (simp_all add: forget_slot_def Let_def)
    note c = slot_change [OF inv i _ _ s(2) s(1) d(1) refl]
    have "cache_inv (forget_slot b i st)" by (rule c(1)) (simp_all add: slot_ok_def)
    moreover have "view (forget_slot b i st) =
        (\<lambda>y. if holds y ?t then s_data ?t else if holds y ?s then disk st y else view st y)"
      by (rule c(2)) (simp_all add: slot_ok_def)
    ultimately show ?thesis using True by (simp add: holds_def)
  next
    case False
    then show ?thesis using inv by (simp add: forget_slot_def)
  qed
  then show "cache_inv (forget_slot b i st)" "x \<noteq> b \<Longrightarrow> view (forget_slot b i st) x = view st x" by auto
qed

lemma bforget_spec:
  assumes inv: "cache_inv st"
  shows "cache_inv (bforget b st)" "view (bforget b st) = (view st)(b := disk st b)" "bs (bforget b st) = bs st"
    "disk (bforget b st) = disk st" "\<not> cached b (bforget b st)"
proof -
  have G: "cache_inv (fold (forget_slot b) is s) \<and> (\<forall>x. x \<noteq> b \<longrightarrow> view (fold (forget_slot b) is s) x = view s x) \<and>
      disk (fold (forget_slot b) is s) = disk s \<and> bs (fold (forget_slot b) is s) = bs s \<and>
      (\<forall>i. i \<in> set is \<or> \<not> holds b (slots s ! i) \<longrightarrow> \<not> holds b (slots (fold (forget_slot b) is s) ! i))"
    if "cache_inv s" "\<forall>i \<in> set is. i < SLOTS" for "is" and s :: "'a bcache_scheme"
    using that
  proof (induction "is" arbitrary: s)
    case (Cons i "is")
    have i: "i < SLOTS" using Cons(3) by simp
    note fs = forget_slot_spec [OF Cons(2) i, where b = b]
    from Cons(1) [OF fs(1)] Cons(3) show ?case using fs by auto
  qed simp
  have "\<forall>i \<in> set (ways b). i < SLOTS" using ways_bound by blast
  note g0 = G [OF inv this]
  note g = g0 [folded bforget_def]
  have none: "find_slot b (bforget b st) = None" using g by (simp add: find_slot_def find_None_iff)
  then have "view (bforget b st) b = disk st b" using g by (simp add: view_def cview_def find_slot_at)
  then show "view (bforget b st) = (view st)(b := disk st b)" using g by (auto simp: fun_eq_iff)
  show "cache_inv (bforget b st)" "bs (bforget b st) = bs st" "disk (bforget b st) = disk st" "\<not> cached b (bforget b st)"
    using g none by (simp_all add: cached_def)
qed

section \<open>Reading ahead\<close>

text \<open>Any 62 consecutive blocks fall in 62 different sets, so one read-ahead never takes a slot twice.\<close>

lemma set_of_bits: "set_of b = b * 0x9E3779B9 mod 2 ^ 19 div 2 ^ 8"
proof -
  have "take_bit 11 (drop_bit 8 (take_bit 64 x)) = drop_bit 8 (take_bit 19 x)" for x :: nat
    by (simp add: take_bit_drop_bit)
  then show ?thesis by (simp add: set_of_def SETS_def take_bit_eq_mod drop_bit_eq_div)
qed

lemma run_steps:
  "list_all (\<lambda>k. 2 ^ 8 \<le> (k * 0x9E3779B9 :: nat) mod 2 ^ 19 \<and> k * 0x9E3779B9 mod 2 ^ 19 \<le> 2 ^ 19 - 2 ^ 8) (1 # [2..<62])"
  by (simp add: upt_rec_numeral)

lemma run_sets_differ:
  assumes "0 < k" "k < 62"
  shows "set_of (b + k) \<noteq> set_of b"
proof -
  let ?x = "b * 0x9E3779B9 mod 2 ^ 19 :: nat" and ?d = "k * 0x9E3779B9 mod 2 ^ 19 :: nat"
  have "k = 1 \<or> 2 \<le> k" using assms(1) by linarith
  then have "k \<in> set (1 # [2..<62])"
    using assms(2) by (simp only: list.set set_upt atLeastLessThan_iff insert_iff) blast
  then have d: "2 ^ 8 \<le> ?d" "?d \<le> 2 ^ 19 - 2 ^ 8"
    using run_steps unfolding list_all_iff by blast+
  have "(b + k) * 0x9E3779B9 mod 2 ^ 19 = (?x + ?d) mod 2 ^ 19" by (simp add: add_mult_distrib mod_add_eq)
  also have "\<dots> = (if ?x + ?d < 2 ^ 19 then ?x + ?d else ?x + ?d - 2 ^ 19)"
    using mod_less_divisor [of "2 ^ 19" "b * 0x9E3779B9"] d(2) by (simp add: le_mod_geq)
  finally have e: "set_of (b + k) = (if ?x + ?d < 2 ^ 19 then ?x + ?d else ?x + ?d - 2 ^ 19) div 2 ^ 8"
    by (simp add: set_of_bits)
  have x: "?x < 2 ^ 19" by simp
  show ?thesis
  proof (cases "?x + ?d < 2 ^ 19")
    case True
    have "?x div 2 ^ 8 < (?x + ?d) div 2 ^ 8" using d(1) by (simp add: less_eq_div_iff_mult_less_eq flip: Suc_le_eq)
    then show ?thesis using e True by (simp add: set_of_bits)
  next
    case False
    have "?x + ?d - 2 ^ 19 + 2 ^ 8 \<le> ?x" using d(2) False by simp
    then have "(?x + ?d - 2 ^ 19 + 2 ^ 8) div 2 ^ 8 \<le> ?x div 2 ^ 8" by (rule div_le_mono)
    moreover have "(y + 2 ^ 8) div 2 ^ 8 = y div 2 ^ 8 + 1" for y :: nat by simp
    ultimately have "(?x + ?d - 2 ^ 19) div 2 ^ 8 < ?x div 2 ^ 8" by (metis Suc_eq_plus1 Suc_le_lessD)
    then show ?thesis using e False by (simp add: set_of_bits)
  qed
qed

lemma run_slots_differ:
  assumes "j < k" "k < 62" "v \<in> set (ways (b + j))" "w \<in> set (ways (b + k))"
  shows "v \<noteq> w"
proof
  assume "v = w"
  have "v div WAYS = set_of (b + j)" "w div WAYS = set_of (b + k)"
    using assms(3,4) by (auto simp: ways_def WAYS_def)
  then have "set_of ((b + j) + (k - j)) = set_of (b + j)" using \<open>v = w\<close> assms(1) by simp
  moreover have "0 < k - j" "k - j < 62" using assms(1,2) by simp_all
  ultimately show False using run_sets_differ by blast
qed

lemma first_min_in: "first_min f xs = Some x \<Longrightarrow> x \<in> set xs"
  by (induction xs) (auto split: option.splits if_splits)

text \<open>Slot \<open>v\<close> waits for the read of block \<open>b\<close>.\<close>

definition awaits :: "'a bcache_scheme \<Rightarrow> nat \<Rightarrow> nat \<Rightarrow> bool" where
  "awaits st b v \<longleftrightarrow> v \<in> set (ways b) \<and> s_blk (slots st ! v) = b \<and> \<not> s_valid (slots st ! v) \<and> \<not> s_dirty (slots st ! v) \<and>
     (\<forall>i < SLOTS. \<not> holds b (slots st ! i))"

lemma claim_slots_spec:
  assumes "cache_inv st" "claim_slots b n st = (vs, st')" "n \<le> 62"
  shows "calm st st' \<and> length vs \<le> n \<and> (\<forall>j < length vs. awaits st' (b + j) (vs ! j)) \<and>
    (\<forall>i. i \<notin> set vs \<longrightarrow> slots st' ! i = slots st ! i) \<and> (\<forall>x i. holds x (slots st' ! i) \<longrightarrow> holds x (slots st ! i))"
  using assms
proof (induction b n st arbitrary: vs st' rule: claim_slots.induct)
  case (1 b st)
  then show ?case by (simp add: calm_self)
next
  case (2 b n st)
  show ?case
  proof (cases "cached b st \<or> first_min (age_key st) (filter (may_take st) (ways b)) = None")
    case True
    then have "vs = []" "st' = st" using "2.prems"(2) by (auto split: if_splits)
    then show ?thesis by (simp add: calm_self)
  next
    case False
    then obtain v where v: "first_min (age_key st) (filter (may_take st) (ways b)) = Some v" and nc: "\<not> cached b st" by auto
    let ?s1 = "take_slot v b st"
    obtain vs' s2 where c: "claim_slots (b + 1) n ?s1 = (vs', s2)" by fastforce
    have r: "vs = v # vs'" "st' = s2" using "2.prems"(2) v nc c by simp_all
    have vw: "v \<in> set (ways b)" "may_take st v" using first_min_in [OF v] by auto
    have vS: "v < SLOTS" by (rule ways_bound [OF vw(1)])
    have nd: "\<not> s_dirty (slots st ! v)"
      using vw(2) inv_slots(2) [OF "2.prems"(1) vS] by (auto simp: may_take_def slot_ok_def)
    have c1: "calm st ?s1" by (rule take_slot_calm [OF vS nd])
    have l: "length (slots st) = SLOTS" by (rule inv_slots(1) [OF "2.prems"(1)])
    have "n \<le> 62" using "2.prems"(3) by simp
    note IH = "2.IH" [OF nc v calmD(1) [OF c1 "2.prems"(1)] c this]
    have h1: "holds x (slots ?s1 ! i) \<Longrightarrow> holds x (slots st ! i)" for x i
      using l vS by (cases "i = v") (auto simp: holds_def)
    have notin: "v \<notin> set vs'"
    proof
      assume "v \<in> set vs'"
      then obtain j where j: "j < length vs'" "vs' ! j = v" by (auto simp: in_set_conv_nth)
      then have "v \<in> set (ways (b + (1 + j)))" using IH by (auto simp: awaits_def)
      moreover have "1 + j < 62" using j(1) IH "2.prems"(3) by simp
      ultimately show False using run_slots_differ [of 0 "1 + j" v b v] vw(1) by simp
    qed
    have "slots s2 ! v = slots ?s1 ! v" using IH notin by blast
    then have at: "s_blk (slots s2 ! v) = b" "\<not> s_valid (slots s2 ! v)" "\<not> s_dirty (slots s2 ! v)" using l vS by simp_all
    have "\<not> holds b (slots s2 ! i)" if "i < SLOTS" for i
      using nc find_slot_None [OF "2.prems"(1), of b] IH h1 that by (auto simp: cached_def)
    then have "awaits s2 b v" using at vw by (simp add: awaits_def)
    moreover have "awaits s2 (b + Suc j) (vs' ! j)" if "j < length vs'" for j
      using IH that by (auto simp: add.assoc)
    ultimately have "\<forall>j < length vs. awaits st' (b + j) (vs ! j)"
      unfolding r by (auto simp: less_Suc_eq_0_disj)
    moreover have "slots st' ! i = slots st ! i" if "i \<notin> set vs" for i
      using IH that l by (simp add: r)
    ultimately show ?thesis using IH c1 h1 unfolding r by (auto intro: calm_trans)
  qed
qed

lemma awaits_fill:
  assumes inv: "cache_inv st" and w: "awaits st b v"
    and st': "st' = set_slot v (\<lambda>s. s\<lparr>s_data := d, s_valid := ok\<rparr>) st" and d: "ok \<Longrightarrow> d = disk st b"
  shows "cache_inv st'" "view st' = view st"
    "b' \<noteq> b \<Longrightarrow> v' \<noteq> v \<Longrightarrow> awaits st b' v' \<Longrightarrow> awaits st' b' v'"
proof -
  have vS: "v < SLOTS" using w ways_bound by (auto simp: awaits_def)
  have l: "length (slots st) = SLOTS" by (rule inv_slots(1) [OF inv])
  have none: "find_slot b st = None" using find_slot_None [OF inv] w by (auto simp: awaits_def)
  have "cache_inv st' \<and> view st' = view st"
  proof (cases ok)
    case True
    let ?t = "(slots st ! v)\<lparr>s_data := d, s_valid := ok\<rparr>"
    note f = fill_slot [OF inv _ _ none, of v ?t st']
    have "cache_inv st' \<and> view st' = (view st)(b := s_data ?t)"
      by (intro conjI; rule f; use w True d in \<open>simp add: awaits_def st'\<close>)
    moreover have "view st b = disk st b" using none by (simp add: view_def cview_def find_slot_at)
    ultimately show ?thesis using d True by (simp add: fun_upd_idem)
  next
    case False
    then have "calm st st'" unfolding st'
      by (intro invalid_data_calm [OF vS]) (use w in \<open>simp_all add: awaits_def\<close>)
    then show ?thesis using calmD(1,2) inv by blast
  qed
  then show "cache_inv st'" "view st' = view st" by auto
  assume n: "b' \<noteq> b" "v' \<noteq> v" "awaits st b' v'"
  have "\<not> holds b' (slots st' ! i)" if "i < SLOTS" for i
    using n w l that by (cases "i = v") (auto simp: st' awaits_def holds_def)
  then show "awaits st' b' v'" using n by (simp add: awaits_def st')
qed

lemma prefetch_spec:
  assumes inv: "cache_inv st"
  shows "cache_inv (prefetch b n st)" "view (prefetch b n st) = view st" "bs (prefetch b n st) = bs st"
proof -
  obtain vs s1 where c: "claim_slots b (min n MAX_SEGS) (bump_tick st) = (vs, s1)" by fastforce
  note inv0 = calmD [OF calm_tick inv]
  have "min n MAX_SEGS \<le> 62" by (simp add: MAX_SEGS_def)
  note cs = claim_slots_spec [OF inv0(1) c this]
  note inv1 = calmD [OF conjunct1 [OF cs] inv0(1)]
  have len: "length vs \<le> 62" using cs by (simp add: MAX_SEGS_def)
  have "cache_inv (prefetch b n st) \<and> view (prefetch b n st) = view st \<and> bs (prefetch b n st) = bs st"
  proof (cases "vs = []")
    case True
    then show ?thesis using c inv0 inv1 by (simp add: prefetch_def Let_def)
  next
    case False
    obtain ok ds s2 where rd: "read_blocks b (length vs) s1 = (ok, ds, s2)" using prod_cases3 by blast
    have s2: "slots s2 = slots s1" "disk s2 = disk s1" "dirty_n s2 = dirty_n s1" "bs s2 = bs s1"
      "\<And>j. ok \<Longrightarrow> j < length vs \<Longrightarrow> ds ! j = disk s1 (b + j)"
      using rd by (auto simp: read_blocks_def Let_def)
    have "calm s1 s2" by (rule calm_same) (simp_all add: s2)
    note inv2 = calmD [OF this inv1(1)]
    let ?F = "\<lambda>J. fold (\<lambda>j. set_slot (vs ! j) (\<lambda>s. s\<lparr>s_data := ds ! j, s_valid := ok\<rparr>)) [0..<J] s2"
    have "cache_inv (?F J) \<and> view (?F J) = view s2 \<and> disk (?F J) = disk s1 \<and> bs (?F J) = bs s1 \<and>
        (\<forall>j. J \<le> j \<and> j < length vs \<longrightarrow> awaits (?F J) (b + j) (vs ! j))" if "J \<le> length vs" for J
      using that
    proof (induction J)
      case 0
      then show ?case using inv2 cs by (simp add: s2 awaits_def)
    next
      case (Suc J)
      let ?s = "?F J"
      have IH: "cache_inv ?s" "view ?s = view s2" "disk ?s = disk s1" "bs ?s = bs s1"
        "\<And>j. J \<le> j \<Longrightarrow> j < length vs \<Longrightarrow> awaits ?s (b + j) (vs ! j)" using Suc by auto
      have J: "J < length vs" using Suc(2) by simp
      note f = awaits_fill [OF IH(1) IH(5) [OF order_refl J] refl, of ok "ds ! J"]
      have d: "ok \<Longrightarrow> ds ! J = disk ?s (b + J)" using s2(5) J IH(3) by simp
      have "awaits (?F (Suc J)) (b + j) (vs ! j)" if "Suc J \<le> j" "j < length vs" for j
      proof -
        have "vs ! j \<noteq> vs ! J"
          using run_slots_differ [of J j "vs ! J" b "vs ! j"] IH(5) [of J] IH(5) [of j] J that len
          by (auto simp: awaits_def)
        then show ?thesis using f(3) [OF d, of "b + j" "vs ! j"] IH(5) [of j] that by simp
      qed
      then show ?case using f(1,2) [OF d] IH by simp
    qed
    from this [OF order_refl] show ?thesis
      using c rd False inv0 inv1 inv2 s2 by (simp add: prefetch_def Let_def)
  qed
  then show "cache_inv (prefetch b n st)" "view (prefetch b n st) = view st" "bs (prefetch b n st) = bs st" by auto
qed

section \<open>The cache as a flat device\<close>

text \<open>\<open>runs st v\<close>: the cache is in state \<open>st\<close> after some operations that a device without a cache, started with the
  same contents, would have taken to the contents \<open>v\<close>. A failed operation is one that changes nothing in \<open>v\<close>.\<close>

inductive runs :: "'a bcache_scheme \<Rightarrow> (nat \<Rightarrow> u8 list) \<Rightarrow> bool" where
  start: "slots st = replicate SLOTS slot_empty \<Longrightarrow> dirty_n st = 0 \<Longrightarrow> runs st (disk st)"
| get: "runs st v \<Longrightarrow> bget b True st = (r, st') \<Longrightarrow> runs st' v"
| fresh: "runs st v \<Longrightarrow> bget b False st = (Inr i, st') \<Longrightarrow> \<not> cached b st \<Longrightarrow> runs st' (v(b := replicate (bs st) 0))"
| fresh_cached: "runs st v \<Longrightarrow> bget b False st = (Inr i, st') \<Longrightarrow> cached b st \<Longrightarrow> runs st' v"
| fresh_failed: "runs st v \<Longrightarrow> bget b False st = (Inl e, st') \<Longrightarrow> runs st' v"
| change: "runs st v \<Longrightarrow> find_slot b st = Some i \<Longrightarrow> runs (modify b i f st) (v(b := f (v b)))"
| forget: "runs st v \<Longrightarrow> runs (bforget b st) (v(b := disk st b))"
| ahead: "runs st v \<Longrightarrow> runs (prefetch b n st) v"
| flush: "runs st v \<Longrightarrow> flush_dirty st = (r, st') \<Longrightarrow> runs st' v"

lemma runs_inv: "runs st v \<Longrightarrow> cache_inv st \<and> view st = v"
proof (induction rule: runs.induct)
  case (start st)
  have at: "i < SLOTS \<Longrightarrow> slots st ! i = slot_empty" for i using start by simp
  have inv: "cache_inv st"
    using start at by (auto simp: cache_inv_def cinv_def slot_ok_def holds_def slot_empty_def dset_def)
  have "find_slot b st = None" for b
    using find_slot_None [OF inv, of b] at by (auto simp: holds_def slot_empty_def)
  then show ?case using inv by (simp add: view_def cview_def find_slot_at fun_eq_iff)
next
  case (get st v b r st')
  then show ?case using bget_spec [of st b True r st'] by (auto split: sum.splits)
next
  case (fresh st v b i st')
  then show ?case using bget_spec [of st b False "Inr i" st'] by (auto simp: zeros_def)
next
  case (fresh_cached st v b i st')
  then show ?case using bget_spec [of st b False "Inr i" st'] by auto
next
  case (fresh_failed st v b e st')
  then show ?case using bget_spec [of st b False "Inl e" st'] by auto
next
  case (flush st v r st')
  then show ?case using flush_dirty_spec(1) [of st r st'] calmD(1,2) by blast
qed (simp_all add: modify_spec bforget_spec prefetch_spec)

text \<open>C38. The write-back cache is transparent, whatever requests the device fails and whatever a failed request
  leaves behind: after any operations, a block got from the cache shows exactly what the last writes left (or the
  operation reports an error and changes nothing), and a flush that reports success has put exactly these
  contents on the disk.\<close>

theorem cache_transparent:
  assumes "runs st v"
  shows "(\<forall>b r st'. bget b True st = (r, st') \<longrightarrow>
      (case r of Inr i \<Rightarrow> find_slot b st' = Some i \<and> s_data (slots st' ! i) = v b | Inl e \<Rightarrow> e = EIO) \<and> runs st' v) \<and>
    (\<forall>st'. flush_dirty st = (True, st') \<longrightarrow> disk st' = v) \<and>
    dirty_n st = card {i. i < SLOTS \<and> s_dirty (slots st ! i)}"
proof (intro conjI allI impI)
  have inv: "cache_inv st" "view st = v" using runs_inv [OF assms] by auto
  show "case r of Inr i \<Rightarrow> find_slot b st' = Some i \<and> s_data (slots st' ! i) = v b | Inl e \<Rightarrow> e = EIO"
    if g: "bget b True st = (r, st')" for b r st'
  proof (cases r)
    case (Inr i)
    have s: "find_slot b st' = Some i" "view st' = v" using bget_spec [OF inv(1) g] Inr inv(2) by auto
    then have "s_data (slots st' ! i) = v b" by (auto simp: view_def cview_def find_slot_at)
    then show ?thesis using s Inr by simp
  qed (use bget_spec [OF inv(1) g] in simp)
  show "runs st' v" if "bget b True st = (r, st')" for b r st' by (rule runs.get [OF assms that])
  show "disk st' = v" if "flush_dirty st = (True, st')" for st' using flush_dirty_spec(2) [OF inv(1) that] inv(2) by simp
  show "dirty_n st = card {i. i < SLOTS \<and> s_dirty (slots st ! i)}" using inv_slots(4) [OF inv(1)] by (simp add: dset_def)
qed

definition cold_cache :: bcache where
  "cold_cache = \<lparr>slots = replicate SLOTS slot_empty, dirty_n = 0, tick = 0, bs = 4, disk = (\<lambda>b. [of_nat b, 1, 2, 3]),
     answers = (\<lambda>_. True), torn = (\<lambda>_. []), reqs = 0\<rparr>"

theorem cache_transparent_witness:
  "\<exists>i st'. bget 7 True cold_cache = (Inr i, st') \<and> s_data (slots st' ! i) = [7, 1, 2, 3]"
proof -
  have r: "runs cold_cache (disk cold_cache)" by (rule runs.start) (simp_all add: cold_cache_def)
  have n: "find_slot 7 (bump_tick cold_cache) = None"
    by (auto simp: find_slot_def find_None_iff bump_tick_def cold_cache_def holds_def slot_empty_def dest!: ways_bound)
  let ?v = "pick_victim (bump_tick cold_cache) (ways 7) (hd (ways 7))"
  have v: "?v < SLOTS"
    using pick_victim_in [of "bump_tick cold_cache" "ways 7" "hd (ways 7)"] ways_nonempty(2) [of 7] ways_bound by metis
  have "fst (bget 7 True cold_cache) = Inr ?v"
    using n v by (simp add: bget_def Let_def evict_def read_blocks_def bump_tick_def cold_cache_def slot_empty_def
        take_slot_def set_slot_def)
  then obtain st' where g: "bget 7 True cold_cache = (Inr ?v, st')" by (metis prod.collapse)
  have "s_data (slots st' ! ?v) = disk cold_cache 7"
    using conjunct1 [OF cache_transparent [OF r], rule_format, OF g] by simp
  then show ?thesis using g by (intro exI) (auto simp: cold_cache_def)
qed

end
