(* ===== verification/Ext2_Props.thy ===== *)
theory Ext2_Props
  imports Ext2_Paths Bcache_Props
begin

text \<open>
  Directory blocks: a block of well-formed records is a finite map from names to inode and type, and the loops
  of \<open>lookup\<close>, \<open>dir_add\<close> and \<open>dir_remove\<close> over its bytes are lookup, insertion and deletion of the map.
\<close>

section \<open>Bytes of a changed block\<close>

lemma splice_length [simp]: "off + length new \<le> length d \<Longrightarrow> length (splice off new d) = length d"
  by (simp add: splice_def)

lemma splice_take: "k \<le> off \<Longrightarrow> off \<le> length d \<Longrightarrow> take k (splice off new d) = take k d"
  by (simp add: splice_def min_def)

lemma splice_drop:
  "off + length new \<le> k \<Longrightarrow> off + length new \<le> length d \<Longrightarrow> drop k (splice off new d) = drop k d"
  by (simp add: splice_def min_def)

lemma splice_at:
  "off \<le> length d \<Longrightarrow> j \<le> length new \<Longrightarrow> drop (off + j) (splice off new d) = drop j new @ drop (off + length new) d"
  by (simp add: splice_def min_def drop_append)

lemma int_at_splice:
  "off \<le> length d \<Longrightarrow> j + k \<le> length new \<Longrightarrow> int_at k (splice off new d) (off + j) = le_val (take k (drop j new))"
  by (simp add: int_at_def splice_at)

lemma drop_mono_eq:
  assumes "drop a (d :: u8 list) = drop a d'" "a \<le> b"
  shows "drop b d = drop b d'"
proof -
  have "drop b x = drop (b - a) (drop a x)" for x :: "u8 list" using assms(2) by simp
  then show ?thesis using assms(1) by metis
qed

lemma take_drop_eq:
  assumes "take b (d :: u8 list) = take b d'" "off + k \<le> b"
  shows "take k (drop off d) = take k (drop off d')"
proof -
  have "take (off + k) x = take (off + k) (take b x)" for x :: "u8 list" using assms(2) by (simp add: min_def)
  then have "take (off + k) d = take (off + k) d'" using assms(1) by metis
  then show ?thesis by (simp add: take_drop add.commute)
qed

lemma int_at_after: "drop a d = drop a d' \<Longrightarrow> a \<le> off \<Longrightarrow> int_at k d off = int_at k d' off"
  using drop_mono_eq [of a d d' off] by (simp add: int_at_def)

lemma int_at_before: "take b d = take b d' \<Longrightarrow> off + k \<le> b \<Longrightarrow> int_at k d off = int_at k d' off"
  using take_drop_eq [of b d d' off k] by (simp add: int_at_def)

section \<open>A directory block as a map\<close>

text \<open>The live entries of a block from \<open>off\<close> on, and the records being well-formed: they tile the block and each
  holds its name.\<close>

function live :: "u8 list \<Rightarrow> nat \<Rightarrow> nat \<Rightarrow> (u8 list \<times> nat \<times> nat) list" where
  "live d n off =
     (if off < n \<and> 0 < de_rec d off then
        (if de_ino d off = 0 then [] else [(de_name d off, de_ino d off, de_ft d off)]) @ live d n (off + de_rec d off)
      else [])"
  by pat_completeness auto
termination by (relation "measure (\<lambda>(d, n, off). n - off)") auto

function dir_ok :: "u8 list \<Rightarrow> nat \<Rightarrow> nat \<Rightarrow> bool" where
  "dir_ok d n off \<longleftrightarrow>
     (if off < n \<and> 8 \<le> de_rec d off then
        off + de_rec d off \<le> n \<and> (de_ino d off \<noteq> 0 \<longrightarrow> rec_need (de_nlen d off) \<le> de_rec d off) \<and>
        dir_ok d n (off + de_rec d off)
      else off = n)"
  by pat_completeness auto
termination by (relation "measure (\<lambda>(d, n, off). n - off)") auto

declare live.simps [simp del] dir_ok.simps [simp del]

definition dir_block :: "u8 list \<Rightarrow> bool" where
  "dir_block d \<longleftrightarrow> dir_ok d (length d) 0 \<and> length d < 2 ^ 16 \<and> distinct (map fst (live d (length d) 0))"

definition names :: "u8 list \<Rightarrow> u8 list \<rightharpoonup> nat \<times> nat" where
  "names d = map_of (live d (length d) 0)"

text \<open>The entry of one record.\<close>

definition here :: "u8 list \<Rightarrow> nat \<Rightarrow> (u8 list \<times> nat \<times> nat) list" where
  "here d off = (if de_ino d off = 0 then [] else [(de_name d off, de_ino d off, de_ft d off)])"

lemma dir_okD:
  assumes "dir_ok d n off" "off < n"
  shows "8 \<le> de_rec d off" "off + de_rec d off \<le> n" "de_ino d off \<noteq> 0 \<Longrightarrow> rec_need (de_nlen d off) \<le> de_rec d off"
    "dir_ok d n (off + de_rec d off)" "live d n off = here d off @ live d n (off + de_rec d off)"
proof -
  show r: "8 \<le> de_rec d off" "off + de_rec d off \<le> n" "de_ino d off \<noteq> 0 \<Longrightarrow> rec_need (de_nlen d off) \<le> de_rec d off"
    "dir_ok d n (off + de_rec d off)"
    using assms dir_ok.simps [of d n off] by (simp_all split: if_splits)
  show "live d n off = here d off @ live d n (off + de_rec d off)"
    using r(1) assms(2) live.simps [of d n off] by (simp add: here_def)
qed

lemma dir_okI:
  assumes "off < n" "8 \<le> de_rec d off" "off + de_rec d off \<le> n" "de_ino d off \<noteq> 0 \<Longrightarrow> rec_need (de_nlen d off) \<le> de_rec d off"
    "dir_ok d n (off + de_rec d off)"
  shows "dir_ok d n off" "live d n off = here d off @ live d n (off + de_rec d off)"
proof -
  show "dir_ok d n off" using assms by (simp add: dir_ok.simps [of d n off])
  show "live d n off = here d off @ live d n (off + de_rec d off)"
    using assms(1,2) live.simps [of d n off] by (simp add: here_def)
qed

lemma dir_ok_le: "dir_ok d n off \<Longrightarrow> off \<le> n"
  using dir_ok.simps [of d n off] by (auto split: if_splits)

lemma live_end: "\<not> off < n \<Longrightarrow> live d n off = []"
  by (simp add: live.simps [of d n off])

lemma rec_need_bounds: "8 + k \<le> rec_need k" "rec_need k < 12 + k"
proof -
  have e: "rec_need k + (8 + k + 3) mod 4 = 8 + k + 3" by (simp add: rec_need_def)
  have "(8 + k + 3) mod 4 < 4" by simp
  then show "8 + k \<le> rec_need k" "rec_need k < 12 + k" using e by linarith+
qed

text \<open>The fields of a record depend on the bytes of the record only.\<close>

lemma record_after:
  assumes "drop a d = drop a d'" "a \<le> off"
  shows "de_ino d off = de_ino d' off" "de_rec d off = de_rec d' off" "de_nlen d off = de_nlen d' off"
    "de_ft d off = de_ft d' off" "de_name d off = de_name d' off"
proof -
  have e: "int_at k d (off + j) = int_at k d' (off + j)" for k j by (rule int_at_after [OF assms(1)]) (use assms(2) in simp)
  show n: "de_nlen d off = de_nlen d' off" by (simp add: de_nlen_def e)
  show "de_ino d off = de_ino d' off" "de_rec d off = de_rec d' off" "de_ft d off = de_ft d' off"
    using e [of 4 0] by (simp_all add: de_ino_def de_rec_def de_ft_def e)
  have "drop (off + 8) d = drop (off + 8) d'" by (rule drop_mono_eq [OF assms(1)]) (use assms(2) in simp)
  then show "de_name d off = de_name d' off" by (simp add: de_name_def n)
qed

lemma here_after: "drop a d = drop a d' \<Longrightarrow> a \<le> off \<Longrightarrow> here d off = here d' off"
  using record_after [of a d d' off] by (simp add: here_def)

lemma live_after: "drop a d = drop a d' \<Longrightarrow> a \<le> off \<Longrightarrow> live d n off = live d' n off"
proof (induction d n off rule: live.induct)
  case (1 d n off)
  note r = record_after [OF "1.prems"]
  show ?case
  proof (cases "off < n \<and> 0 < de_rec d off")
    case True
    then show ?thesis using "1.IH" [OF True "1.prems"(1)] "1.prems"(2) r
      by (simp add: live.simps [of d n off] live.simps [of d' n off])
  next
    case False
    then show ?thesis using r by (simp add: live.simps [of d n off] live.simps [of d' n off])
  qed
qed

lemma dir_ok_after: "drop a d = drop a d' \<Longrightarrow> a \<le> off \<Longrightarrow> dir_ok d n off \<longleftrightarrow> dir_ok d' n off"
proof (induction d n off rule: dir_ok.induct)
  case (1 d n off)
  note r = record_after [OF "1.prems"]
  show ?case
  proof (cases "off < n \<and> 8 \<le> de_rec d off")
    case True
    then have "dir_ok d n (off + de_rec d off) \<longleftrightarrow> dir_ok d' n (off + de_rec d off)"
      if "off + de_rec d off \<le> n" "de_ino d off \<noteq> 0 \<longrightarrow> rec_need (de_nlen d off) \<le> de_rec d off"
      using "1.IH" "1.prems" that by auto
    then show ?thesis using r by (auto simp: dir_ok.simps [of d n off] dir_ok.simps [of d' n off])
  next
    case False
    then show ?thesis using r by (auto simp: dir_ok.simps [of d n off] dir_ok.simps [of d' n off])
  qed
qed

lemma record_before:
  assumes "take b d = take b d'" "off + 8 \<le> b"
  shows "de_ino d off = de_ino d' off" "de_rec d off = de_rec d' off" "de_nlen d off = de_nlen d' off" "de_ft d off = de_ft d' off"
proof -
  have e: "int_at k d (off + j) = int_at k d' (off + j)" if "j + k \<le> 8" for k j
    by (rule int_at_before [OF assms(1)]) (use assms(2) that in simp)
  show "de_ino d off = de_ino d' off" "de_rec d off = de_rec d' off" "de_nlen d off = de_nlen d' off" "de_ft d off = de_ft d' off"
    using e [of 0 4] by (simp_all add: de_ino_def de_rec_def de_nlen_def de_ft_def e)
qed

lemma name_before:
  assumes "take b d = take b d'" "off + 8 + de_nlen d off \<le> b"
  shows "de_name d off = de_name d' off"
  using assms record_before(3) [OF assms(1), of off] take_drop_eq [OF assms(1), of "off + 8" "de_nlen d off"]
  by (simp add: de_name_def)

section \<open>Finding a name\<close>

lemma name_length:
  assumes "dir_ok d (length d) off" "off < length d" "de_ino d off \<noteq> 0"
  shows "length (de_name d off) = de_nlen d off" "off + 8 + de_nlen d off \<le> off + de_rec d off"
proof -
  show b: "off + 8 + de_nlen d off \<le> off + de_rec d off"
    using dir_okD(3) [OF assms(1,2,3)] rec_need_bounds(1) [of "de_nlen d off"] by linarith
  show "length (de_name d off) = de_nlen d off" using b dir_okD(2) [OF assms(1,2)] by (simp add: de_name_def)
qed

lemma matches_here:
  assumes "dir_ok d (length d) off" "off < length d"
  shows "de_matches name d off \<longleftrightarrow> here d off = [(name, de_ino d off, de_ft d off)]"
  using name_length(1) [OF assms] by (auto simp: de_matches_def here_def)

lemma not_matches: "\<not> de_matches name d off \<Longrightarrow> dir_ok d (length d) off \<Longrightarrow> off < length d \<Longrightarrow> name \<notin> fst ` set (here d off)"
  using name_length(1) [of d off] by (auto simp: de_matches_def here_def)

lemma find_in_block_live:
  "dir_ok d n off \<Longrightarrow> n = length d \<Longrightarrow> find_in_block name d n off = Inr (map_of (live d n off) name)"
proof (induction name d n off rule: find_in_block.induct)
  case (1 name d n off)
  show ?case
  proof (cases "off < n")
    case True
    note D = dir_okD [OF "1.prems"(1) True]
    have big: "\<not> (de_rec d off < 8 \<or> off + de_rec d off > n)" using D(1,2) by simp
    show ?thesis
    proof (cases "de_matches name d off")
      case m: True
      then have "here d off = [(name, de_ino d off, de_ft d off)]" using matches_here "1.prems" True by simp
      then show ?thesis using m True big D(5) by (simp add: find_in_block.simps [of name d n off])
    next
      case m: False
      have "find_in_block name d n (off + de_rec d off) = Inr (map_of (live d n (off + de_rec d off)) name)"
        using "1.IH" [OF True refl big m D(4) "1.prems"(2)] .
      moreover have "map_of (here d off) name = None" using not_matches [OF m] "1.prems" True by (simp add: map_of_eq_None_iff)
      ultimately show ?thesis using m True big D(5) by (simp add: find_in_block.simps [of name d n off] map_add_def)
    qed
  next
    case False
    then show ?thesis by (simp add: find_in_block.simps [of name d n off] live_end)
  qed
qed

section \<open>Adding a name\<close>

lemma int_at_bound: "int_at k d off < 256 ^ k"
proof -
  have "int_at k d off < 256 ^ length (take k (drop off d))" unfolding int_at_def by (rule le_val_less)
  also have "\<dots> \<le> 256 ^ k" by (rule power_increasing) simp_all
  finally show ?thesis .
qed

lemma rec_bound: "de_rec d off < 2 ^ 16"
  using int_at_bound [of 2 d "off + 4"] by (simp add: de_rec_def)

definition dirent_bytes :: "nat \<Rightarrow> nat \<Rightarrow> u8 list \<Rightarrow> nat \<Rightarrow> u8 list" where
  "dirent_bytes ino rec name ft = le_bytes 4 ino @ le_bytes 2 rec @ le_bytes 1 (length name) @ le_bytes 1 ft @ name"

lemma dirent_bytes_length [simp]: "length (dirent_bytes ino rec name ft) = 8 + length name"
  by (simp add: dirent_bytes_def)

lemma write_dirent_splice: "write_dirent at ino rec name ft = splice at (dirent_bytes ino rec name ft)"
  by (simp add: write_dirent_def dirent_bytes_def)

lemma write_dirent_fields:
  assumes "at + 8 + length name \<le> length d" "ino < 2 ^ 32" "rec < 2 ^ 16" "length name < 256" "ft < 256"
  shows "de_ino (write_dirent at ino rec name ft d) at = ino" "de_rec (write_dirent at ino rec name ft d) at = rec"
    "de_nlen (write_dirent at ino rec name ft d) at = length name" "de_ft (write_dirent at ino rec name ft d) at = ft"
    "de_name (write_dirent at ino rec name ft d) at = name"
proof -
  let ?e = "dirent_bytes ino rec name ft"
  have le: "at \<le> length d" using assms(1) by simp
  have f: "int_at k (splice at ?e d) (at + j) = le_val (take k (drop j ?e))" if "j + k \<le> 8" for j k
    by (rule int_at_splice [OF le]) (use that in simp)
  have d: "take 4 ?e = le_bytes 4 ino" "take 2 (drop 4 ?e) = le_bytes 2 rec"
    "take 1 (drop 6 ?e) = le_bytes 1 (length name)" "take 1 (drop 7 ?e) = le_bytes 1 ft" "drop 8 ?e = name"
    by (simp_all add: dirent_bytes_def)
  show "de_ino (write_dirent at ino rec name ft d) at = ino" "de_rec (write_dirent at ino rec name ft d) at = rec"
    "de_ft (write_dirent at ino rec name ft d) at = ft"
    using f [of 0 4] f [of 4 2] f [of 7 1] d assms(2,3,5)
    by (simp_all add: de_ino_def de_rec_def de_ft_def write_dirent_splice del: One_nat_def)
  show n: "de_nlen (write_dirent at ino rec name ft d) at = length name"
    using f [of 6 1] d(3) assms(4) by (simp add: de_nlen_def write_dirent_splice del: One_nat_def)
  show "de_name (write_dirent at ino rec name ft d) at = name"
    using splice_at [OF le, of 8 ?e] d(5) by (simp add: de_name_def n, simp add: write_dirent_splice)
qed

definition slack :: "u8 list \<Rightarrow> nat \<Rightarrow> nat" where
  "slack d off = de_rec d off - (if de_ino d off = 0 then 0 else rec_need (de_nlen d off))"

lemma put_entry_spec:
  assumes ok: "dir_ok d (length d) off" "off < length d" and room: "rec_need (length name) \<le> slack d off"
    and arg: "0 < ino" "ino < 2 ^ 32" "ft < 256" "length name < 256"
    and used: "used = (if de_ino d off = 0 then 0 else rec_need (de_nlen d off))"
    and d': "d' = put_entry name ino ft used off d"
  shows "length d' = length d" "take off d' = take off d" "dir_ok d' (length d) off"
    "live d' (length d) off = here d off @ (name, ino, ft) # live d (length d) (off + de_rec d off)"
proof -
  let ?n = "length d" and ?rec = "de_rec d off"
  note D = dir_okD [OF ok]
  have nb: "8 + length name \<le> rec_need (length name)" by (rule rec_need_bounds)
  have used_le: "used \<le> ?rec" using D(3) used by auto
  have fit: "used + rec_need (length name) \<le> ?rec" using room used used_le by (auto simp: slack_def)
  have rb: "?rec < 2 ^ 16" by (rule rec_bound)
  let ?at = "off + used" and ?r = "?rec - used"
  \<comment> \<open>The block after the shrinking of the record at \<open>off\<close>, if it was live.\<close>
  define d1 where "d1 = (if de_ino d off = 0 then d else splice (off + 4) (le_bytes 2 used) d)"
  have d1: "length d1 = ?n" "take off d1 = take off d" "drop (off + ?rec) d1 = drop (off + ?rec) d"
    using D(1,2) by (auto simp: d1_def splice_take splice_drop)
  have w: "d' = write_dirent ?at ino ?r name ft d1"
    using used used_le by (cases "de_ino d off = 0") (simp_all add: d' put_entry_def d1_def sub64_def Let_def)
  have at: "?at + 8 + length name \<le> off + ?rec" using fit nb by linarith
  have at2: "?at + 8 + length name \<le> length d1" using at D(2) d1(1) by linarith
  note F = write_dirent_fields [OF at2 arg(2) _ arg(4) arg(3), of ?r, folded w]
  have F2: "de_ino d' ?at = ino" "de_rec d' ?at = ?r" "de_nlen d' ?at = length name" "de_ft d' ?at = ft" "de_name d' ?at = name"
    using F rb by simp_all
  show len: "length d' = ?n" using at2 d1(1) by (simp add: w write_dirent_splice)
  have upto: "take ?at d' = take ?at d1" using at2 by (simp add: w write_dirent_splice splice_take)
  show tk: "take off d' = take off d"
  proof -
    have "take off x = take off (take ?at x)" for x :: "u8 list" by (simp add: min_def)
    then show ?thesis using upto d1(2) by metis
  qed
  have rest: "drop (off + ?rec) d' = drop (off + ?rec) d"
    using at at2 d1(3) by (simp add: w write_dirent_splice splice_drop)
  have tail: "dir_ok d' ?n (off + ?rec)" "live d' ?n (off + ?rec) = live d ?n (off + ?rec)"
    using dir_ok_after [OF rest order_refl] live_after [OF rest order_refl] D(4) by simp_all
  have e: "?at + ?r = off + ?rec" using used_le by simp
  have new: "dir_ok d' ?n ?at" "live d' ?n ?at = here d' ?at @ live d' ?n (?at + ?r)"
    using dir_okI [of ?at ?n d'] F2 at D(2) fit nb tail(1) e by simp_all
  have hn: "here d' ?at = [(name, ino, ft)]" using F2 arg(1) by (simp add: here_def)
  show "dir_ok d' ?n off" "live d' ?n off = here d off @ (name, ino, ft) # live d ?n (off + ?rec)"
  proof -
    have "dir_ok d' ?n off \<and> live d' ?n off = here d off @ live d' ?n ?at"
    proof (cases "de_ino d off = 0")
      case True
      then show ?thesis using new(1) used by (simp add: here_def)
    next
      case False
      have u: "used = rec_need (de_nlen d off)" "8 + de_nlen d off \<le> used" using False used rec_need_bounds(1) by simp_all
      have d1s: "d1 = splice (off + 4) (le_bytes 2 used) d" using False by (simp add: d1_def)
      have inn: "off + 4 + 2 \<le> length d" using D(1,2) by linarith
      have b: "take (off + 4) d1 = take (off + 4) d" using inn by (simp add: d1s splice_take)
      have a: "drop (off + 6) d1 = drop (off + 6) d" using inn by (simp add: d1s splice_drop)
      have one: "de_ino d1 off = de_ino d off" using int_at_before [OF b, of off 4] by (simp add: de_ino_def)
      have two: "de_rec d1 off = used"
        using int_at_splice [of "off + 4" d 0 2 "le_bytes 2 used"] inn used_le rb by (simp add: d1s de_rec_def)
      have three: "de_nlen d1 off = de_nlen d off" "de_ft d1 off = de_ft d off"
        using int_at_after [OF a, of "off + 6" 1] int_at_after [OF a, of "off + 7" 1] by (simp_all add: de_nlen_def de_ft_def)
      have four: "de_name d1 off = de_name d off" using drop_mono_eq [OF a, of "off + 8"] three(1) by (simp add: de_name_def)
      have hd: "de_ino d' off = de_ino d off" "de_rec d' off = used" "de_nlen d' off = de_nlen d off" "de_ft d' off = de_ft d off"
        using record_before [OF upto, of off] u(2) one two three by simp_all
      have nm: "de_name d' off = de_name d off" using name_before [OF upto, of off] u(2) hd(3) four by simp
      have "here d' off = here d off" using hd nm by (simp add: here_def)
      moreover have "dir_ok d' ?n off" "live d' ?n off = here d' off @ live d' ?n (off + used)"
        using dir_okI [of off ?n d'] hd u ok(2) at D(2) new(1) nb by simp_all
      ultimately show ?thesis by simp
    qed
    then show "dir_ok d' ?n off" "live d' ?n off = here d off @ (name, ino, ft) # live d ?n (off + ?rec)"
      using new(2) hn e tail(2) by simp_all
  qed
qed

text \<open>A change past a record keeps the record.\<close>

lemma keep_record:
  assumes ok: "dir_ok d n off" "off < n" and same: "take (off + de_rec d off) d' = take (off + de_rec d off) d"
    and tail: "dir_ok d' n (off + de_rec d off)"
  shows "take off d' = take off d" "dir_ok d' n off" "here d' off = here d off"
    "live d' n off = here d off @ live d' n (off + de_rec d off)"
proof -
  note D = dir_okD [OF ok]
  have h: "de_ino d' off = de_ino d off" "de_rec d' off = de_rec d off" "de_nlen d' off = de_nlen d off" "de_ft d' off = de_ft d off"
    using record_before [OF same, of off] D(1) by simp_all
  have nm: "de_name d' off = de_name d off" if "de_ino d off \<noteq> 0"
    using name_before [OF same, of off] h(3) D(3) [OF that] rec_need_bounds(1) [of "de_nlen d off"] by simp
  show hh: "here d' off = here d off" using h nm by (simp add: here_def)
  show "dir_ok d' n off" "live d' n off = here d off @ live d' n (off + de_rec d off)"
    using dir_okI [of off n d'] h D ok(2) tail hh by simp_all
  have "take off x = take off (take (off + de_rec d off) x)" for x :: "u8 list" by (simp add: min_def)
  then show "take off d' = take off d" using same by metis
qed

lemma add_in_block_spec:
  "dir_ok d n off \<Longrightarrow> n = length d \<Longrightarrow> 0 < ino \<Longrightarrow> ino < 2 ^ 32 \<Longrightarrow> ft < 256 \<Longrightarrow> length name < 256 \<Longrightarrow>
    (case add_in_block name ino ft d n off of
       Inl e \<Rightarrow> False
     | Inr None \<Rightarrow> True
     | Inr (Some d') \<Rightarrow> length d' = n \<and> take off d' = take off d \<and> dir_ok d' n off \<and>
         (\<exists>xs ys. live d n off = xs @ ys \<and> live d' n off = xs @ (name, ino, ft) # ys))"
proof (induction name ino ft d n off rule: add_in_block.induct)
  case (1 name ino ft d n off)
  show ?case
  proof (cases "off < n")
    case True
    let ?used = "if de_ino d off = 0 then 0 else rec_need (de_nlen d off)"
    note ok = "1.prems"(1) and n = "1.prems"(2) and arg = "1.prems"(3-6)
    note D = dir_okD [OF ok True]
    have used_le: "?used \<le> de_rec d off" using D(3) by simp
    have sub: "sub64 (de_rec d off) ?used = slack d off" using used_le by (simp add: sub64_def slack_def)
    show ?thesis
    proof (cases "rec_need (length name) \<le> slack d off")
      case room: True
      have r: "add_in_block name ino ft d n off = Inr (Some (put_entry name ino ft ?used off d))"
        using True D(1) room sub by (simp add: add_in_block.simps [of name ino ft d n off])
      note P = put_entry_spec [OF ok [unfolded n] True [unfolded n] room arg refl refl]
      show ?thesis unfolding r sum.case option.case
        by (intro conjI exI [of _ "here d off"] exI [of _ "live d n (off + de_rec d off)"] P [folded n] D(5))
    next
      case full: False
      have r: "add_in_block name ino ft d n off = add_in_block name ino ft d n (off + de_rec d off)"
        using True D(1) full sub by (simp add: add_in_block.simps [of name ino ft d n off])
      have IH: "case add_in_block name ino ft d n (off + de_rec d off) of
         Inl e \<Rightarrow> False
       | Inr None \<Rightarrow> True
       | Inr (Some d') \<Rightarrow> length d' = n \<and> take (off + de_rec d off) d' = take (off + de_rec d off) d \<and>
           dir_ok d' n (off + de_rec d off) \<and>
           (\<exists>xs ys. live d n (off + de_rec d off) = xs @ ys \<and> live d' n (off + de_rec d off) = xs @ (name, ino, ft) # ys)"
        by (rule "1.IH" [OF True refl refl _ _ D(4) n arg]) (use D(1) full sub in simp_all)
      show ?thesis
      proof (cases "add_in_block name ino ft d n (off + de_rec d off)")
        case (Inr o')
        show ?thesis
        proof (cases o')
          case (Some d')
          have I: "length d' = n" "take (off + de_rec d off) d' = take (off + de_rec d off) d" "dir_ok d' n (off + de_rec d off)"
            "\<exists>xs ys. live d n (off + de_rec d off) = xs @ ys \<and> live d' n (off + de_rec d off) = xs @ (name, ino, ft) # ys"
            using IH Inr Some by simp_all
          note K = keep_record [OF ok True I(2) I(3)]
          obtain xs ys where "live d n (off + de_rec d off) = xs @ ys" "live d' n (off + de_rec d off) = xs @ (name, ino, ft) # ys"
            using I(4) by blast
          then have "live d n off = (here d off @ xs) @ ys \<and> live d' n off = (here d off @ xs) @ (name, ino, ft) # ys"
            using K(4) D(5) by simp
          then have "\<exists>xs ys. live d n off = xs @ ys \<and> live d' n off = xs @ (name, ino, ft) # ys" by blast
          then show ?thesis unfolding r Inr Some sum.case option.case by (intro conjI I(1) K(1,2))
        qed (use r Inr in simp)
      qed (use IH in simp)
    qed
  next
    case False
    then show ?thesis by (simp add: add_in_block.simps [of name ino ft d n off])
  qed
qed

text \<open>The offsets of the records; a name is refused only when no record has room for it.\<close>

function records :: "u8 list \<Rightarrow> nat \<Rightarrow> nat \<Rightarrow> nat list" where
  "records d n off = (if off < n \<and> 0 < de_rec d off then off # records d n (off + de_rec d off) else [])"
  by pat_completeness auto
termination by (relation "measure (\<lambda>(d, n, off). n - off)") auto

declare records.simps [simp del]

lemma add_refused:
  "dir_ok d n off \<Longrightarrow> add_in_block name ino ft d n off = Inr None \<Longrightarrow> \<forall>x\<in>set (records d n off). slack d x < rec_need (length name)"
proof (induction name ino ft d n off rule: add_in_block.induct)
  case (1 name ino ft d n off)
  show ?case
  proof (cases "off < n")
    case True
    note D = dir_okD [OF "1.prems"(1) True]
    have sub: "sub64 (de_rec d off) (if de_ino d off = 0 then 0 else rec_need (de_nlen d off)) = slack d off"
      using D(3) by (simp add: sub64_def slack_def)
    have full: "\<not> rec_need (length name) \<le> slack d off" and r: "add_in_block name ino ft d n (off + de_rec d off) = Inr None"
      using "1.prems"(2) True D(1) sub by (simp_all add: add_in_block.simps [of name ino ft d n off] split: if_splits)
    have "\<forall>x\<in>set (records d n (off + de_rec d off)). slack d x < rec_need (length name)"
      by (rule "1.IH" [OF True refl refl _ _ D(4) r]) (use D(1) full sub in simp_all)
    then show ?thesis using full by (auto simp: records.simps [of d n off])
  qed (simp add: records.simps [of d n off])
qed

section \<open>Removing a name\<close>

text \<open>Removing from the record after \<open>po\<close> on, the removed record's space going to \<open>po\<close>.\<close>

lemma cut_entry_spec:
  assumes ok: "dir_ok d (length d) po" "po < length d" and off: "off = po + de_rec d po" "off < length d"
    and small: "length d < 2 ^ 16" and d': "d' = cut_entry off (Some po) d"
  shows "length d' = length d" "take po d' = take po d" "dir_ok d' (length d) po"
    "live d' (length d) po = here d po @ live d (length d) (off + de_rec d off)"
proof -
  let ?n = "length d" and ?r = "de_rec d po + de_rec d off"
  note P = dir_okD [OF ok]
  have ok2: "dir_ok d ?n off" using P(4) off(1) by simp
  note D = dir_okD [OF ok2 off(2)]
  have "?r < 2 ^ 16" using D(2) off(1) small by linarith
  note small = this
  have s: "d' = splice (po + 4) (le_bytes 2 ?r) d" by (simp add: d' cut_entry_def)
  have inn: "po + 6 \<le> ?n" using P(1,2) by linarith
  show len: "length d' = ?n" using inn by (simp add: s)
  have b: "take (po + 4) d' = take (po + 4) d" using inn by (simp add: s splice_take)
  have a: "drop (po + 6) d' = drop (po + 6) d" using inn by (simp add: s splice_drop)
  show "take po d' = take po d" using inn by (simp add: s splice_take)
  have f: "de_ino d' po = de_ino d po" "de_nlen d' po = de_nlen d po" "de_ft d' po = de_ft d po"
    using int_at_before [OF b, of po 4] int_at_after [OF a, of "po + 6" 1] int_at_after [OF a, of "po + 7" 1]
    by (simp_all add: de_ino_def de_nlen_def de_ft_def)
  have nm: "de_name d' po = de_name d po" using drop_mono_eq [OF a, of "po + 8"] f(2) by (simp add: de_name_def)
  have rc: "de_rec d' po = ?r" using int_at_splice [of "po + 4" d 0 2 "le_bytes 2 ?r"] inn small by (simp add: s de_rec_def)
  have rest: "drop (off + de_rec d off) d' = drop (off + de_rec d off) d"
    by (rule drop_mono_eq [OF a]) (use D(1) off(1) P(1) in linarith)
  have tail: "dir_ok d' ?n (off + de_rec d off)" "live d' ?n (off + de_rec d off) = live d ?n (off + de_rec d off)"
    using dir_ok_after [OF rest order_refl] live_after [OF rest order_refl] D(4) by simp_all
  have e: "po + ?r = off + de_rec d off" using off(1) by simp
  have h: "here d' po = here d po" using f nm by (simp add: here_def)
  show "dir_ok d' ?n po" "live d' ?n po = here d po @ live d ?n (off + de_rec d off)"
    using dir_okI [of po ?n d', unfolded rc e f h, OF ok(2) _ D(2) trans_le_add1 [OF P(3)] tail(1)] P(1) tail(2)
    by simp_all
qed

lemma remove_after:
  "prev = Some po \<Longrightarrow> dir_ok d n po \<Longrightarrow> po < n \<Longrightarrow> off = po + de_rec d po \<Longrightarrow> n = length d \<Longrightarrow> n < 2 ^ 16 \<Longrightarrow>
    (case remove_in_block name d n off prev of
       Inl e \<Rightarrow> False
     | Inr None \<Rightarrow> name \<notin> fst ` set (live d n off)
     | Inr (Some d') \<Rightarrow> length d' = n \<and> take po d' = take po d \<and> dir_ok d' n po \<and>
         (\<exists>xs e ys. live d n off = xs @ (name, e) # ys \<and> live d' n po = here d po @ xs @ ys))"
proof (induction name d n off prev arbitrary: po rule: remove_in_block.induct)
  case (1 name d n off prev)
  note ok = "1.prems"(2) and po = "1.prems"(3) and off = "1.prems"(4) and n = "1.prems"(5) and small = "1.prems"(6)
  note P = dir_okD [OF ok po]
  have ok2: "dir_ok d n off" using P(4) off by simp
  show ?case
  proof (cases "off < n")
    case True
    note D = dir_okD [OF ok2 True]
    show ?thesis
    proof (cases "de_matches name d off")
      case m: True
      have r: "remove_in_block name d n off prev = Inr (Some (cut_entry off (Some po) d))"
        using True D(1) m "1.prems"(1) by (simp add: remove_in_block.simps [of name d n off])
      note C = cut_entry_spec [OF ok [unfolded n] po [unfolded n] off True [unfolded n] small [unfolded n] refl, folded n]
      have h: "here d off = [(name, de_ino d off, de_ft d off)]" using m matches_here ok2 True n by simp
      have "live d n off = [] @ (name, de_ino d off, de_ft d off) # live d n (off + de_rec d off) \<and>
        live (cut_entry off (Some po) d) n po = here d po @ [] @ live d n (off + de_rec d off)" using D(5) h C(4) by simp
      then have "\<exists>xs e ys. live d n off = xs @ (name, e) # ys \<and> live (cut_entry off (Some po) d) n po = here d po @ xs @ ys"
        by blast
      then show ?thesis unfolding r sum.case option.case by (intro conjI C(1,2,3))
    next
      case m: False
      have r: "remove_in_block name d n off prev = remove_in_block name d n (off + de_rec d off) (Some off)"
        using True D(1) m by (simp add: remove_in_block.simps [of name d n off])
      have h: "name \<notin> fst ` set (here d off)" using not_matches [OF m] ok2 True n by simp
      have IH: "case remove_in_block name d n (off + de_rec d off) (Some off) of
         Inl e \<Rightarrow> False
       | Inr None \<Rightarrow> name \<notin> fst ` set (live d n (off + de_rec d off))
       | Inr (Some d') \<Rightarrow> length d' = n \<and> take off d' = take off d \<and> dir_ok d' n off \<and>
           (\<exists>xs e ys. live d n (off + de_rec d off) = xs @ (name, e) # ys \<and> live d' n off = here d off @ xs @ ys)"
        by (rule "1.IH" [OF True _ m refl ok2 True refl n small]) (use D(1) in simp)
      show ?thesis
      proof (cases "remove_in_block name d n (off + de_rec d off) (Some off)")
        case (Inr o')
        show ?thesis
        proof (cases o')
          case None
          then show ?thesis using IH Inr r h D(5) by auto
        next
          case (Some d')
          have I: "length d' = n" "take (po + de_rec d po) d' = take (po + de_rec d po) d" "dir_ok d' n (po + de_rec d po)"
            "\<exists>xs e ys. live d n (off + de_rec d off) = xs @ (name, e) # ys \<and> live d' n off = here d off @ xs @ ys"
            using IH Inr Some off by simp_all
          note K = keep_record [OF ok po I(2) I(3)]
          obtain xs e ys where "live d n (off + de_rec d off) = xs @ (name, e) # ys" "live d' n off = here d off @ xs @ ys"
            using I(4) by blast
          then have "live d n off = (here d off @ xs) @ (name, e) # ys \<and> live d' n po = here d po @ (here d off @ xs) @ ys"
            using K(4) D(5) off by simp
          then have "\<exists>xs e ys. live d n off = xs @ (name, e) # ys \<and> live d' n po = here d po @ xs @ ys" by blast
          then show ?thesis unfolding r Inr Some sum.case option.case by (intro conjI I(1) K(1,2))
        qed
      qed (use IH in simp)
    qed
  next
    case False
    then show ?thesis by (simp add: remove_in_block.simps [of name d n off] live_end)
  qed
qed

lemma remove_in_block_spec:
  assumes ok: "dir_ok d n 0" and n: "n = length d" and small: "n < 2 ^ 16"
  shows "case remove_in_block name d n 0 None of
       Inl e \<Rightarrow> False
     | Inr None \<Rightarrow> name \<notin> fst ` set (live d n 0)
     | Inr (Some d') \<Rightarrow> length d' = n \<and> dir_ok d' n 0 \<and>
         (\<exists>xs e ys. live d n 0 = xs @ (name, e) # ys \<and> live d' n 0 = xs @ ys)"
proof (cases "0 < n")
  case True
  note D = dir_okD [OF ok True]
  show ?thesis
  proof (cases "de_matches name d 0")
    case m: True
    let ?d = "splice 0 (le_bytes 4 0) d"
    have r: "remove_in_block name d n 0 None = Inr (Some ?d)"
      using True D(1) m by (simp add: remove_in_block.simps [of name d n 0] cut_entry_def)
    have h: "here d 0 = [(name, de_ino d 0, de_ft d 0)]" using m matches_here ok True n by simp
    have inn: "4 \<le> length d" using D(1,2) n by simp
    have a: "drop 4 ?d = drop 4 d" using inn by (simp add: splice_drop)
    have i: "de_ino ?d 0 = 0" using int_at_splice [of 0 d 0 4 "le_bytes 4 0"] by (simp add: de_ino_def)
    have rc: "de_rec ?d 0 = de_rec d 0" using int_at_after [OF a, of 4 2] by (simp add: de_rec_def)
    have rest: "drop (de_rec d 0) ?d = drop (de_rec d 0) d" by (rule drop_mono_eq [OF a]) (use D(1) in simp)
    have "dir_ok ?d n 0" "live ?d n 0 = here ?d 0 @ live ?d n (0 + de_rec ?d 0)"
      using dir_okI [of 0 n ?d] True D i rc dir_ok_after [OF rest order_refl, of n] by simp_all
    moreover have "live ?d n (0 + de_rec ?d 0) = live d n (de_rec d 0)" using live_after [OF rest order_refl, of n] rc by simp
    ultimately have k: "dir_ok ?d n 0" "live ?d n 0 = [] @ live d n (de_rec d 0)" using i by (simp_all add: here_def)
    have "live d n 0 = [] @ (name, de_ino d 0, de_ft d 0) # live d n (de_rec d 0)" using D(5) h by simp
    then have "\<exists>xs e ys. live d n 0 = xs @ (name, e) # ys \<and> live ?d n 0 = xs @ ys" using k(2) by blast
    moreover have "length ?d = n" using inn n by simp
    ultimately show ?thesis unfolding r sum.case option.case using k(1) by (intro conjI)
  next
    case m: False
    have r: "remove_in_block name d n 0 None = remove_in_block name d n (0 + de_rec d 0) (Some 0)"
      using True D(1) m by (simp add: remove_in_block.simps [of name d n 0])
    have h: "name \<notin> fst ` set (here d 0)" using not_matches [OF m] ok True n by simp
    note A = remove_after [OF refl ok True refl n small, of name]
    show ?thesis
    proof (cases "remove_in_block name d n (0 + de_rec d 0) (Some 0)")
      case (Inr o')
      show ?thesis
      proof (cases o')
        case None
        then show ?thesis using A Inr r h D(5) by auto
      next
        case (Some d')
        have I: "length d' = n" "dir_ok d' n 0"
          "\<exists>xs e ys. live d n (0 + de_rec d 0) = xs @ (name, e) # ys \<and> live d' n 0 = here d 0 @ xs @ ys"
          using A Inr Some by simp_all
        obtain xs e ys where "live d n (0 + de_rec d 0) = xs @ (name, e) # ys" "live d' n 0 = here d 0 @ xs @ ys"
          using I(3) by blast
        then have "live d n 0 = (here d 0 @ xs) @ (name, e) # ys \<and> live d' n 0 = (here d 0 @ xs) @ ys" using D(5) by simp
        then have "\<exists>xs e ys. live d n 0 = xs @ (name, e) # ys \<and> live d' n 0 = xs @ ys" by blast
        then show ?thesis unfolding r Inr Some sum.case option.case by (intro conjI I(1,2))
      qed
    qed (use A in simp)
  qed
next
  case False
  then have r: "remove_in_block name d n 0 None = Inr None" by (subst remove_in_block.simps) (use False in simp)
  show ?thesis unfolding r by (simp add: live_end [OF False])
qed

section \<open>The loops as operations of the map\<close>

lemma map_of_insert_mid:
  assumes "distinct (map fst (xs @ ys))" "map_of (xs @ ys) k = None"
  shows "map_of (xs @ (k, v) # ys) = (map_of (xs @ ys))(k \<mapsto> v)" "distinct (map fst (xs @ (k, v) # ys))"
proof -
  have k: "k \<notin> fst ` set xs" "k \<notin> fst ` set ys" using assms(2) by (auto simp: map_of_eq_None_iff)
  have x: "map_of xs k = None" using k(1) by (simp add: map_of_eq_None_iff)
  show "map_of (xs @ (k, v) # ys) = (map_of (xs @ ys))(k \<mapsto> v)"
    by (rule ext) (simp add: map_add_def x split: option.split)
  show "distinct (map fst (xs @ (k, v) # ys))" using assms(1) k by auto
qed

lemma map_of_remove_mid:
  assumes "distinct (map fst (xs @ (k, v) # ys))"
  shows "map_of (xs @ ys) = (map_of (xs @ (k, v) # ys))(k := None)" "distinct (map fst (xs @ ys))"
proof -
  have k: "map_of xs k = None" "map_of ys k = None" using assms by (auto simp: map_of_eq_None_iff)
  show "map_of (xs @ ys) = (map_of (xs @ (k, v) # ys))(k := None)"
    by (rule ext) (auto simp: map_add_def k split: option.split)
  show "distinct (map fst (xs @ ys))" using assms by auto
qed

text \<open>C39. A directory block is a finite map from names to inode and type. \<open>lookup\<close>'s loop over the block returns
  the map's value; \<open>dir_add\<close>'s inserts a new name and refuses it only when no record has room; \<open>dir_remove\<close>'s
  deletes the name, or reports that there is none. The records stay well-formed and the names distinct.\<close>

theorem directory_block_map:
  assumes "dir_block d" "0 < ino" "ino < 2 ^ 32" "ft < 256" "length name < 256"
  shows "find_in_block name d (length d) 0 = Inr (names d name) \<and>
    (names d name = None \<longrightarrow>
      (case add_in_block name ino ft d (length d) 0 of
         Inl e \<Rightarrow> False
       | Inr None \<Rightarrow> \<forall>x\<in>set (records d (length d) 0). slack d x < rec_need (length name)
       | Inr (Some d') \<Rightarrow> dir_block d' \<and> length d' = length d \<and> names d' = (names d)(name \<mapsto> (ino, ft)))) \<and>
    (case remove_in_block name d (length d) 0 None of
       Inl e \<Rightarrow> False
     | Inr None \<Rightarrow> names d name = None
     | Inr (Some d') \<Rightarrow> names d name \<noteq> None \<and> dir_block d' \<and> length d' = length d \<and> names d' = (names d)(name := None))"
proof (intro conjI impI)
  have ok: "dir_ok d (length d) 0" and small: "length d < 2 ^ 16" and dist: "distinct (map fst (live d (length d) 0))"
    using assms(1) by (simp_all add: dir_block_def)
  show "find_in_block name d (length d) 0 = Inr (names d name)"
    using find_in_block_live [OF ok refl] by (simp add: names_def)
  show "case add_in_block name ino ft d (length d) 0 of
         Inl e \<Rightarrow> False
       | Inr None \<Rightarrow> \<forall>x\<in>set (records d (length d) 0). slack d x < rec_need (length name)
       | Inr (Some d') \<Rightarrow> dir_block d' \<and> length d' = length d \<and> names d' = (names d)(name \<mapsto> (ino, ft))"
    if none: "names d name = None"
  proof (cases "add_in_block name ino ft d (length d) 0")
    case (Inr o')
    note S = add_in_block_spec [OF ok refl assms(2-5), unfolded Inr sum.case]
    show ?thesis
    proof (cases o')
      case None
      then show ?thesis using add_refused [OF ok, where name = name and ino = ino and ft = ft] Inr by simp
    next
      case (Some d')
      obtain xs ys where d': "length d' = length d" "dir_ok d' (length d) 0"
        "live d (length d) 0 = xs @ ys" "live d' (length d) 0 = xs @ (name, ino, ft) # ys"
        using S Some by auto
      note M = map_of_insert_mid [OF dist [unfolded d'(3)] none [unfolded names_def d'(3)]]
      show ?thesis unfolding Inr Some sum.case option.case dir_block_def names_def d'(1,3,4)
        using d'(2) small M by simp
    qed
  qed (use add_in_block_spec [OF ok refl assms(2-5)] in simp)
  show "case remove_in_block name d (length d) 0 None of
       Inl e \<Rightarrow> False
     | Inr None \<Rightarrow> names d name = None
     | Inr (Some d') \<Rightarrow> names d name \<noteq> None \<and> dir_block d' \<and> length d' = length d \<and> names d' = (names d)(name := None)"
    using remove_in_block_spec [OF ok refl small, of name] small dist
    by (auto simp: dir_block_def names_def map_of_eq_None_iff map_of_remove_mid simp del: map_of_append
        split: sum.splits option.splits)
qed

text \<open>The block \<open>mkdir\<close> writes (here of 40 bytes) and a first name in it.\<close>

definition fresh_dir :: "u8 list" where
  "fresh_dir = write_dirent 12 2 28 [DOT, DOT] FT_DIR (write_dirent 0 11 12 [DOT] FT_DIR (replicate 40 0))"

lemma le_bytes_numeral:
  "le_bytes 1 v = [word_of_nat v]" "le_bytes 2 v = [word_of_nat v, word_of_nat (v div 256)]"
  "le_bytes 4 v = [word_of_nat v, word_of_nat (v div 256), word_of_nat (v div 256 div 256), word_of_nat (v div 256 div 256 div 256)]"
proof -
  have n: "(1::nat) = Suc 0" "(2::nat) = Suc (Suc 0)" "(4::nat) = Suc (Suc (Suc (Suc 0)))" by simp_all
  show "le_bytes 1 v = [word_of_nat v]" "le_bytes 2 v = [word_of_nat v, word_of_nat (v div 256)]"
    "le_bytes 4 v = [word_of_nat v, word_of_nat (v div 256), word_of_nat (v div 256 div 256), word_of_nat (v div 256 div 256 div 256)]"
    unfolding n le_bytes.simps by (rule refl)+
qed

lemma fresh_dir_bytes:
  "fresh_dir = [11, 0, 0, 0, 12, 0, 1, 2, 46, 0, 0, 0, 2, 0, 0, 0, 28, 0, 2, 2, 46, 46] @ replicate 18 0"
proof -
  have r: "replicate 40 (0 :: u8) = replicate 9 0 @ replicate 3 0 @ replicate 10 0 @ replicate 18 0"
    by (simp add: replicate_add [symmetric])
  have t: "replicate 9 (0 :: u8) = [0, 0, 0, 0, 0, 0, 0, 0, 0]" "replicate 3 (0 :: u8) = [0, 0, 0]"
    "replicate 10 (0 :: u8) = [0, 0, 0, 0, 0, 0, 0, 0, 0, 0]" by (simp_all add: eval_nat_numeral)
  show ?thesis
    unfolding fresh_dir_def r by (simp add: t write_dirent_def splice_def FT_DIR_def DOT_def le_bytes_numeral del: One_nat_def)
qed

lemma fresh_dir_records:
  "length fresh_dir = 40" "de_ino fresh_dir 0 = 11" "de_rec fresh_dir 0 = 12" "de_nlen fresh_dir 0 = 1" "de_ft fresh_dir 0 = 2"
  "de_name fresh_dir 0 = [46]" "de_ino fresh_dir 12 = 2" "de_rec fresh_dir 12 = 28" "de_nlen fresh_dir 12 = 2"
  "de_ft fresh_dir 12 = 2" "de_name fresh_dir 12 = [46, 46]"
  by (simp_all add: fresh_dir_bytes de_ino_def de_rec_def de_nlen_def de_ft_def de_name_def int_at_def)

theorem directory_block_map_witness:
  "\<exists>d'. add_in_block [97] 12 FT_REG fresh_dir 40 0 = Inr (Some d') \<and> names d' [97] = Some (12, FT_REG) \<and>
     names d' [DOT, DOT] = Some (2, FT_DIR)"
proof -
  note f = fresh_dir_records
  have l: "live fresh_dir 40 0 = [([46], 11, 2), ([46, 46], 2, 2)]"
    by (simp add: live.simps [of fresh_dir 40 0] live.simps [of fresh_dir 40 12] live_end f)
  have "dir_ok fresh_dir 40 40" "dir_ok fresh_dir 40 12"
    by (simp_all add: dir_ok.simps [of fresh_dir 40 40] dir_ok.simps [of fresh_dir 40 12] f rec_need_def)
  then have "dir_ok fresh_dir 40 0" by (simp add: dir_ok.simps [of fresh_dir 40 0] f rec_need_def)
  then have d: "dir_block fresh_dir" by (simp add: dir_block_def f l)
  have n: "names fresh_dir [97] = None" "names fresh_dir [DOT, DOT] = Some (2, FT_DIR)" "length fresh_dir = 40"
    by (simp_all add: names_def f l DOT_def FT_DIR_def)
  have a: "\<exists>d'. add_in_block [97] 12 FT_REG fresh_dir 40 0 = Inr (Some d')"
    by (simp add: add_in_block.simps [of _ _ _ fresh_dir 40 0] add_in_block.simps [of _ _ _ fresh_dir 40 12] f rec_need_def sub64_def)
  then obtain d' where d': "add_in_block [97] 12 FT_REG fresh_dir 40 0 = Inr (Some d')" by blast
  have "names d' = (names fresh_dir)([97] \<mapsto> (12, FT_REG))"
    using directory_block_map [OF d, of 12 FT_REG "[97]"] n d' by (simp add: FT_REG_def)
  then have "names d' [97] = Some (12, FT_REG)" "names d' [DOT, DOT] = Some (2, FT_DIR)" using n(2) by (simp_all add: DOT_def)
  then show ?thesis using d' by blast
qed

end
