(* ===== verification/Ext2_Read.thy ===== *)
theory Ext2_Read
  imports Ext2_Props
begin

text \<open>
  Reading files: every block access of the driver sees the contents of \<open>view\<close>, so that \<open>read_at\<close> returns the bytes
  of the file as a function of the inode and the disk, whatever the cache and the read-ahead do.
\<close>

section \<open>Blocks through the cache\<close>

text \<open>The cache operations change no field of the file system, nor what the device will answer.\<close>

definition kept :: "'a bcache_scheme \<Rightarrow> 'a bcache_scheme \<Rightarrow> bool" where
  "kept st st' \<longleftrightarrow> bcache.more st' = bcache.more st \<and> answers st' = answers st"

lemma kept_self [simp]: "kept st st"
  by (simp add: kept_def)

lemma kept_trans [trans]: "kept st st1 \<Longrightarrow> kept st1 st2 \<Longrightarrow> kept st st2"
  by (simp add: kept_def)

lemma kept_set_slot [simp]: "kept st (set_slot i f st') \<longleftrightarrow> kept st st'"
  by (simp add: kept_def set_slot_def)

lemma kept_mark_clean [simp]: "kept st (mark_clean i st') \<longleftrightarrow> kept st st'"
  by (simp add: kept_def mark_clean_def set_slot_def)

lemma kept_bump [simp]: "kept st (bump_tick st') \<longleftrightarrow> kept st st'"
  by (simp add: kept_def bump_tick_def)

lemma kept_take_slot [simp]: "kept st (take_slot v b st') \<longleftrightarrow> kept st st'"
  by (simp add: take_slot_def)

lemma kept_evict: "evict v st = (ok, st') \<Longrightarrow> kept st st'"
  by (auto simp: evict_def write_blocks_def kept_def mark_clean_def set_slot_def Let_def split: if_splits)

lemma kept_bget: "bget b ld st = (r, st') \<Longrightarrow> kept st st'"
proof (cases "find_slot b (bump_tick st)")
  case None
  assume g: "bget b ld st = (r, st')"
  obtain ok s where e: "evict (pick_victim (bump_tick st) (ways b) (hd (ways b))) (bump_tick st) = (ok, s)" by fastforce
  have "kept st s" using kept_evict [OF e] by (simp add: kept_def bump_tick_def)
  then show ?thesis using g None e
    by (auto simp: bget_def Let_def read_blocks_def kept_def take_slot_def set_slot_def split: if_splits)
qed (auto simp: bget_def Let_def kept_def bump_tick_def set_slot_def)

lemma kept_claim: "claim_slots b n st = (vs, st') \<Longrightarrow> kept st st'"
proof (induction b n st arbitrary: vs st' rule: claim_slots.induct)
  case (2 b n st)
  then show ?case by (auto split: if_splits option.splits prod.splits simp: kept_def take_slot_def set_slot_def)
qed (simp add: kept_def)

lemma kept_fold_set: "kept st (fold (\<lambda>j. set_slot (f j) (g j)) js s) \<longleftrightarrow> kept st s"
  by (induction js arbitrary: s) simp_all

lemma kept_prefetch: "kept st (prefetch b n st)"
proof -
  obtain vs s where c: "claim_slots b (min n MAX_SEGS) (bump_tick st) = (vs, s)" by fastforce
  have k: "kept st s" using kept_claim [OF c] by (simp add: kept_def bump_tick_def)
  obtain ok ds s2 where r: "read_blocks b (length vs) s = (ok, ds, s2)" using prod_cases3 by blast
  have "kept st s2" using r k by (auto simp: read_blocks_def Let_def kept_def)
  then show ?thesis using k c r by (simp add: prefetch_def Let_def kept_fold_set [where f = "\<lambda>j. vs ! j"])
qed

lemma kept_fields:
  assumes "kept st (st' :: ext2)"
  shows "ppb st' = ppb st" "icache st' = icache st" "ninodes st' = ninodes st" "ipg st' = ipg st"
    "inode_size st' = inode_size st" "gdt_block st' = gdt_block st" "dcache st' = dcache st" "rtc st' = rtc st"
  using assms by (cases st; cases st'; simp add: kept_def)+

text \<open>\<open>gets st st'\<close>: only the cache was moved; the contents and the fields stay.\<close>

definition gets :: "ext2 \<Rightarrow> ext2 \<Rightarrow> bool" where
  "gets st st' \<longleftrightarrow> cache_inv st' \<and> view st' = view st \<and> bs st' = bs st \<and> kept st st'"

text \<open>A device that answers every request; an operation fails only on another one.\<close>

definition working :: "'a bcache_scheme \<Rightarrow> bool" where
  "working st \<longleftrightarrow> (\<forall>k. answers st k)"

definition fails :: "ext2 \<Rightarrow> errno + 'b \<Rightarrow> bool" where
  "fails st r \<longleftrightarrow> r = Inl EIO \<and> \<not> working st"

lemma fails_simps [simp]: "fails st (Inr x) \<longleftrightarrow> False" "fails st (Inl e) \<longleftrightarrow> e = EIO \<and> \<not> working st"
  by (simp_all add: fails_def)

lemma evict_working: "evict v st = (ok, st') \<Longrightarrow> working st \<Longrightarrow> ok"
  by (auto simp: evict_def write_blocks_def working_def Let_def split: if_splits)

lemma bget_working: "bget b ld st = (r, st') \<Longrightarrow> working st \<Longrightarrow> \<exists>i. r = Inr i"
proof (cases "find_slot b (bump_tick st)")
  case None
  assume g: "bget b ld st = (r, st')" and w: "working st"
  obtain ok s where e: "evict (pick_victim (bump_tick st) (ways b) (hd (ways b))) (bump_tick st) = (ok, s)" by fastforce
  have k: "kept st s" using kept_evict [OF e] by (simp add: kept_def bump_tick_def)
  have ok using evict_working [OF e] w by (simp add: working_def bump_tick_def)
  then show ?thesis using g None e k w
    by (auto simp: bget_def Let_def read_blocks_def kept_def working_def take_slot_def set_slot_def split: if_splits)
qed (auto simp: bget_def Let_def)

lemma gets_self: "cache_inv st \<Longrightarrow> gets st st"
  by (simp add: gets_def)

lemma gets_trans [trans]: "gets st st1 \<Longrightarrow> gets st1 st2 \<Longrightarrow> gets st st2"
  by (auto simp: gets_def intro: kept_trans)

lemma getsD: "gets st st' \<Longrightarrow> cache_inv st'" "gets st st' \<Longrightarrow> view st' = view st" "gets st st' \<Longrightarrow> bs st' = bs st"
  "gets st st' \<Longrightarrow> ppb st' = ppb st"
  by (auto simp: gets_def kept_fields)

lemma gets_fails: "gets st st1 \<Longrightarrow> fails st1 r \<longleftrightarrow> fails st r"
  by (simp add: gets_def kept_def fails_def working_def)

lemma with_block_cases:
  assumes inv: "cache_inv st" and w: "with_block b k st = (r, st')"
  obtains "fails st r" "gets st st'"
  | i st1 where "gets st st1" "find_slot b st1 = Some i" "k i (view st b) st1 = (r, st')"
proof -
  obtain q st1 where g: "bget b True st = (q, st1)" by fastforce
  note B = bget_spec [OF inv g]
  have k: "gets st st1" using B kept_bget [OF g] by (auto simp: gets_def split: sum.splits)
  show thesis
  proof (cases q)
    case (Inl e)
    then have "fails st r" using B w g bget_working [OF g] by (auto simp: with_block_def and_then_def fails_def)
    then show thesis using that(1) w g k Inl by (simp add: with_block_def and_then_def)
  next
    case (Inr i)
    then have f: "find_slot b st1 = Some i" using B by simp
    then have "s_data (slots st1 ! i) = view st1 b" by (auto simp: view_def cview_def find_slot_at)
    then have "s_data (slots st1 ! i) = view st b" using k by (simp add: gets_def)
    then show thesis using that(2) [OF k f] w g Inr by (simp add: with_block_def and_then_def)
  qed
qed

lemma rd32_spec:
  assumes inv: "cache_inv st" and r: "rd32 b off st = (r, st')"
  shows "gets st st' \<and> (fails st r \<or> r = Inr (int_at 4 (view st b) off))"
  using r unfolding rd32_def by (rule with_block_cases [OF inv]) auto

section \<open>The block map\<close>

text \<open>
  The blocks of a file in file order, as the format lays them out: the twelve blocks of the inode, then the leaves
  of three trees of depth 1, 2 and 3, each indirect block listing its \<open>p\<close> subtrees from left to right. An absent
  subtree is all holes. Nothing of the index arithmetic of \<open>block_path\<close> is used here.
\<close>

fun tree_blocks :: "nat \<Rightarrow> (nat \<Rightarrow> u8 list) \<Rightarrow> nat \<Rightarrow> nat \<Rightarrow> nat list" where
  "tree_blocks p v 0 b = [b]"
| "tree_blocks p v (Suc d) b =
     (if b = 0 then replicate (p ^ Suc d) 0
      else concat (map (\<lambda>k. tree_blocks p v d (int_at 4 (v b) (4 * k))) [0..<p]))"

definition file_blocks :: "nat \<Rightarrow> (nat \<Rightarrow> u8 list) \<Rightarrow> inode \<Rightarrow> nat list" where
  "file_blocks p v n =
     map (\<lambda>k. i_block n ! k) [0..<12] @ tree_blocks p v 1 (i_block n ! 12) @ tree_blocks p v 2 (i_block n ! 13) @
     tree_blocks p v 3 (i_block n ! 14)"

definition flat_bmap :: "nat \<Rightarrow> (nat \<Rightarrow> u8 list) \<Rightarrow> inode \<Rightarrow> nat \<Rightarrow> nat" where
  "flat_bmap p v n l = (if l < length (file_blocks p v n) then file_blocks p v n ! l else 0)"

declare tree_blocks.simps(2) [simp del]

lemma length_concat_const: "(\<And>xs. xs \<in> set xss \<Longrightarrow> length xs = m) \<Longrightarrow> length (concat xss) = length xss * m"
  by (induction xss) auto

lemma nth_concat_const:
  "(\<And>xs. xs \<in> set xss \<Longrightarrow> length xs = m) \<Longrightarrow> i < length xss * m \<Longrightarrow> concat xss ! i = xss ! (i div m) ! (i mod m)"
proof (induction xss arbitrary: i)
  case (Cons xs xss)
  have l: "length xs = m" using Cons.prems(1) by simp
  show ?case
  proof (cases "i < m")
    case True
    then show ?thesis by (simp add: nth_append l)
  next
    case False
    have m: "0 < m" using Cons.prems(2) by (cases m) auto
    have "i div m = Suc ((i - m) div m)" "i mod m = (i - m) mod m"
      using m False by (simp_all add: le_div_geq le_mod_geq)
    moreover have "concat xss ! (i - m) = xss ! ((i - m) div m) ! ((i - m) mod m)"
      by (rule Cons.IH) (use Cons.prems False in auto)
    ultimately show ?thesis using False by (simp add: nth_append l)
  qed
qed simp

lemma length_tree_blocks [simp]: "length (tree_blocks p v d b) = p ^ d"
proof (induction d arbitrary: b)
  case (Suc d)
  then have "length (concat (map (\<lambda>k. tree_blocks p v d (int_at 4 (v b) (4 * k))) [0..<p])) = p * p ^ d"
    using length_concat_const [of "map (\<lambda>k. tree_blocks p v d (int_at 4 (v b) (4 * k))) [0..<p]" "p ^ d"] by auto
  then show ?case by (simp add: tree_blocks.simps(2))
qed simp

lemma nth_tree_blocks:
  assumes "i < p ^ Suc d"
  shows "tree_blocks p v (Suc d) b ! i =
    (if b = 0 then 0 else tree_blocks p v d (int_at 4 (v b) (4 * (i div p ^ d))) ! (i mod p ^ d))"
proof (cases "b = 0")
  case False
  let ?ts = "map (\<lambda>k. tree_blocks p v d (int_at 4 (v b) (4 * k))) [0..<p]"
  have "concat ?ts ! i = ?ts ! (i div p ^ d) ! (i mod p ^ d)"
    by (rule nth_concat_const) (use assms in auto)
  moreover have "i div p ^ d < p"
    using assms by (cases "p = 0") (auto simp: div_less_iff_less_mult)
  ultimately show ?thesis using False by (simp add: tree_blocks.simps(2))
qed (use assms in \<open>simp add: tree_blocks.simps(2)\<close>)

lemma tree_blocks_zero: "i < p ^ d \<Longrightarrow> tree_blocks p v d 0 ! i = 0"
  by (cases d) (simp_all add: tree_blocks.simps(2))

text \<open>The walk of the code finds the entry of that list.\<close>

fun flat_descend :: "(nat \<Rightarrow> u8 list) \<Rightarrow> nat \<Rightarrow> nat list \<Rightarrow> nat" where
  "flat_descend v b [] = b"
| "flat_descend v b (i # is) = (if b = 0 then 0 else flat_descend v (int_at 4 (v b) (i * 4)) is)"

lemma descend_tree:
  shows descend_tree1: "i < p \<Longrightarrow> flat_descend v b [i] = tree_blocks p v 1 b ! i"
    and descend_tree2: "i < p * p \<Longrightarrow> flat_descend v b [i div p, i mod p] = tree_blocks p v 2 b ! i"
    and descend_tree3: "i < p * p * p \<Longrightarrow>
      flat_descend v b [i div (p * p), i div p mod p, i mod p] = tree_blocks p v 3 b ! i"
proof -
  have one: "flat_descend v b [i] = tree_blocks p v 1 b ! i" if "i < p" for b i
  proof -
    have "i < p ^ Suc 0" using that by simp
    from nth_tree_blocks [OF this, of v b] show ?thesis unfolding One_nat_def by (simp add: mult.commute [of i 4])
  qed
  have two: "flat_descend v b [i div p, i mod p] = tree_blocks p v 2 b ! i" if i: "i < p * p" for b i
  proof -
    let ?c = "int_at 4 (v b) (i div p * 4)"
    have "0 < p" using i by (cases p) auto
    then have c: "flat_descend v ?c [i mod p] = tree_blocks p v 1 ?c ! (i mod p)" by (intro one) simp
    have "tree_blocks p v 2 b ! i = (if b = 0 then 0 else tree_blocks p v 1 ?c ! (i mod p))"
      using nth_tree_blocks [of i p 1 v b] i by (simp add: numeral_2_eq_2 mult.commute [of 4])
    then show ?thesis unfolding flat_descend.simps(2) [of v b "i div p"] c by simp
  qed
  show "i < p \<Longrightarrow> flat_descend v b [i] = tree_blocks p v 1 b ! i" by (rule one)
  show "i < p * p \<Longrightarrow> flat_descend v b [i div p, i mod p] = tree_blocks p v 2 b ! i" by (rule two)
  show "flat_descend v b [i div (p * p), i div p mod p, i mod p] = tree_blocks p v 3 b ! i" if i: "i < p * p * p"
  proof -
    let ?c = "int_at 4 (v b) (i div (p * p) * 4)"
    have p: "0 < p" using i by (cases p) auto
    have q: "i mod (p * p) div p = i div p mod p" "i mod (p * p) mod p = i mod p"
      using p by (simp_all add: mod_mult2_eq mod_mod_cancel)
    have c: "flat_descend v ?c [i div p mod p, i mod p] = tree_blocks p v 2 ?c ! (i mod (p * p))"
      using two [of "i mod (p * p)" ?c] p by (simp add: q del: flat_descend.simps)
    have "p ^ 3 = p * p * p" "p ^ 2 = p * p" by (simp_all add: power3_eq_cube power2_eq_square)
    then have "tree_blocks p v 3 b ! i = (if b = 0 then 0 else tree_blocks p v 2 ?c ! (i mod (p * p)))"
      using nth_tree_blocks [of i p 2 v b] i by (simp add: mult.commute [of 4])
    then show ?thesis unfolding flat_descend.simps(2) [of v b "i div (p * p)"] c by simp
  qed
qed

lemma flat_bmap_path:
  "flat_bmap p v n l = (case block_path p l of None \<Rightarrow> 0 | Some path \<Rightarrow> flat_descend v (i_block n ! hd path) (tl path))"
proof -
  let ?f = "file_blocks p v n"
  have len: "length ?f = 12 + p + p * p + p * p * p"
    by (simp add: file_blocks_def power2_eq_square power3_eq_cube)
  consider "l < 12" | "12 \<le> l" "l - 12 < p" | "12 + p \<le> l" "l - 12 - p < p * p"
    | "12 + p + p * p \<le> l" "l - 12 - p - p * p < p * p * p" | "12 + p + p * p + p * p * p \<le> l" by linarith
  then show ?thesis
  proof cases
    case 1
    then show ?thesis using len by (simp add: flat_bmap_def block_path_def file_blocks_def nth_append)
  next
    case 2
    then have "?f ! l = tree_blocks p v 1 (i_block n ! 12) ! (l - 12)" by (simp add: file_blocks_def nth_append)
    moreover have "l < length ?f" using 2 len by linarith
    ultimately show ?thesis using 2 descend_tree(1) [OF 2(2), of v "i_block n ! 12"]
      by (simp add: flat_bmap_def block_path_def del: flat_descend.simps)
  next
    case 3
    then have "\<not> l - 12 < p" "\<not> l < 12" by linarith+
    then have "?f ! l = tree_blocks p v 2 (i_block n ! 13) ! (l - 12 - p)" using 3(2)
      by (simp add: file_blocks_def nth_append power2_eq_square)
    moreover have "l < length ?f" "\<not> l - 12 < p" "\<not> l < 12" using 3 len by linarith+
    ultimately show ?thesis using 3 descend_tree(2) [OF 3(2), of v "i_block n ! 13"]
      by (simp add: flat_bmap_def block_path_def Let_def del: flat_descend.simps)
  next
    case 4
    then have "\<not> l - 12 < p" "\<not> l - 12 - p < p * p" "\<not> l < 12" by linarith+
    then have "?f ! l = tree_blocks p v 3 (i_block n ! 14) ! (l - 12 - p - p * p)" using 4(2)
      by (simp add: file_blocks_def nth_append power2_eq_square)
    moreover have "l < length ?f" "\<not> l - 12 < p" "\<not> l - 12 - p < p * p" "\<not> l < 12" using 4 len by linarith+
    ultimately show ?thesis using 4 descend_tree(3) [OF 4(2), of v "i_block n ! 14"]
      by (simp add: flat_bmap_def block_path_def Let_def del: flat_descend.simps)
  next
    case 5
    then have "\<not> l < length ?f" "\<not> l - 12 < p" "\<not> l - 12 - p < p * p" "\<not> l - 12 - p - p * p < p * p * p" "\<not> l < 12"
      using len by linarith+
    then show ?thesis by (simp add: flat_bmap_def block_path_def Let_def)
  qed
qed

lemma descend_spec:
  "cache_inv st \<Longrightarrow> descend b is st = (r, st') \<Longrightarrow> gets st st' \<and> (fails st r \<or> r = Inr (flat_descend (view st) b is))"
proof (induction b "is" st arbitrary: r st' rule: descend.induct)
  case (1 b st)
  then show ?case by (auto intro: gets_self)
next
  case (2 b i "is" st)
  show ?case
  proof (cases "b = 0")
    case True
    then show ?thesis using 2 by (auto intro: gets_self)
  next
    case False
    obtain q st1 where q: "rd32 b (i * 4) st = (q, st1)" by fastforce
    note R = rd32_spec [OF "2.prems"(1) q]
    then have g: "gets st st1" by simp
    show ?thesis
    proof (cases q)
      case (Inl e)
      then show ?thesis using R q "2.prems"(2) False by (auto simp: and_then_def fails_def)
    next
      case (Inr x)
      then have x: "x = int_at 4 (view st b) (i * 4)" using R by (simp add: fails_def)
      have d: "descend (int_at 4 (view st b) (i * 4)) is st1 = (r, st')" using "2.prems"(2) False q x Inr by (simp add: and_then_def)
      have "gets st1 st' \<and> (fails st1 r \<or> r = Inr (flat_descend (view st1) (int_at 4 (view st b) (i * 4)) is))"
        by (rule "2.IH" [OF False getsD(1) [OF g] d])
      then show ?thesis using False getsD(2) [OF g] gets_trans [OF g] gets_fails [OF g, of r] by simp
    qed
  qed
qed

lemma bmap_spec:
  assumes "cache_inv st" "bmap n l st = (r, st')"
  shows "gets st st' \<and> (fails st r \<or> r = Inr (flat_bmap (ppb st) (view st) n l))"
proof (cases "block_path (ppb st) l")
  case None
  then show ?thesis using assms by (auto simp: bmap_def flat_bmap_path intro: gets_self)
next
  case (Some path)
  then show ?thesis using assms descend_spec [OF assms(1), of "i_block n ! hd path" "tl path"]
    by (simp add: bmap_def flat_bmap_path)
qed

section \<open>Reading a file\<close>

definition file_byte :: "nat \<Rightarrow> nat \<Rightarrow> (nat \<Rightarrow> u8 list) \<Rightarrow> inode \<Rightarrow> nat \<Rightarrow> u8" where
  "file_byte p s v n pos = (let b = flat_bmap p v n (pos div s) in if b = 0 then 0 else v b ! (pos mod s))"

lemma run_ahead_spec:
  "cache_inv st \<Longrightarrow> run_ahead n l b run k st = (r, st') \<Longrightarrow> gets st st' \<and> (fails st r \<or> (\<exists>m. r = Inr m))"
proof (induction n l b run k st arbitrary: r st' rule: run_ahead.induct)
  case (1 n l b run st)
  then show ?case by (auto intro: gets_self)
next
  case (2 n l b run k st)
  obtain q st1 where q: "bmap n (l + run) st = (q, st1)" by fastforce
  note B = bmap_spec [OF "2.prems"(1) q]
  then have g: "gets st st1" by simp
  show ?case
  proof (cases q)
    case (Inl e)
    then show ?thesis using B q "2.prems"(2) by (auto simp: and_then_def fails_def)
  next
    case (Inr x)
    show ?thesis
    proof (cases "x = b + run")
      case True
      then have "run_ahead n l b (run + 1) k st1 = (r, st')" using "2.prems"(2) q Inr by (simp add: and_then_def)
      then show ?thesis using "2.IH" [OF True getsD(1) [OF g]] gets_trans [OF g] gets_fails [OF g, of r] by blast
    next
      case False
      then show ?thesis using "2.prems"(2) q Inr g by (auto simp: and_then_def)
    qed
  qed
qed

lemma gets_prefetch: "cache_inv st \<Longrightarrow> gets st (prefetch b n st)"
  using prefetch_spec [of st b n] kept_prefetch [of st b n] by (simp add: gets_def)

lemma chunk_bytes:
  assumes "length d = s" "pos mod s + chunk \<le> s"
  shows "take chunk (drop (pos mod s) d) = map (\<lambda>x. d ! (x mod s)) [pos..<pos + chunk]"
proof (rule nth_equalityI)
  show "length (take chunk (drop (pos mod s) d)) = length (map (\<lambda>x. d ! (x mod s)) [pos..<pos + chunk])"
    using assms by simp
  fix i assume "i < length (take chunk (drop (pos mod s) d))"
  then have i: "i < chunk" "pos mod s + i < s" using assms by simp_all
  have "(pos + i) mod s = pos mod s + i" using i(2) by (metis mod_add_left_eq mod_less)
  then show "take chunk (drop (pos mod s) d) ! i = map (\<lambda>x. d ! (x mod s)) [pos..<pos + chunk] ! i"
    using i assms by simp
qed

lemma chunk_block:
  assumes "pos mod s + chunk \<le> s" "x \<in> set [pos..<pos + chunk]"
  shows "x div s = pos div s"
proof -
  have x: "x = pos + (x - pos)" "pos mod s + (x - pos) < s" using assms by auto
  have s: "0 < s" using x(2) by simp
  have "x = pos div s * s + (pos mod s + (x - pos))" using x(1) by simp
  then show ?thesis using x(2) s by (metis add.commute div_mult_self1_is_m div_mult_self3 div_less add_cancel_right_left less_not_refl2)
qed

lemma and_thenE:
  assumes "and_then q k = (r, st')"
  obtains e st1 where "q = (Inl e, st1)" "r = Inl e" "st' = st1"
  | a st1 where "q = (Inr a, st1)" "k a st1 = (r, st')"
  using assms by (auto simp: and_then_def split: prod.splits sum.splits)

lemma read_chunk_spec:
  assumes inv: "cache_inv st" and full: "\<forall>b. length (view st b) = bs st" and fits: "pos mod bs st + chunk \<le> bs st"
    and r: "read_chunk n pos chunk left st = (r, st')"
  shows "gets st st' \<and> (fails st r \<or> r = Inr (map (file_byte (ppb st) (bs st) (view st) n) [pos..<pos + chunk]))"
proof -
  let ?l = "pos div bs st" and ?in = "pos mod bs st"
  let ?B = "flat_bmap (ppb st) (view st) n ?l"
  let ?ahead = "\<lambda>b st1. if b \<noteq> 0 \<and> \<not> cached b st1 then
             let max_rem = min (div_ceil (i_size n - (pos - ?in)) (bs st1)) 32;
                 want = min (max (div_ceil left (bs st1)) 8) max_rem in
             and_then (run_ahead n ?l b 1 (want - 1) st1) (\<lambda>run st. (Inr (), prefetch b run st))
           else (Inr (), st1)"
  let ?get = "\<lambda>b st2. if b = 0 then (Inr (replicate chunk 0), st2)
                  else with_block b (\<lambda>i d st. (Inr (take chunk (drop ?in d)), st)) st2"
  have whole: "and_then (bmap n ?l st) (\<lambda>b st1. and_then (?ahead b st1) (\<lambda>_. ?get b)) = (r, st')"
    using r by (simp add: read_chunk_def Let_def)
  show ?thesis
  proof (rule and_thenE [OF whole])
    fix e st1 assume "bmap n ?l st = (Inl e, st1)" "r = Inl e" "st' = st1"
    then show ?thesis using bmap_spec [OF inv, of n ?l "Inl e"] by simp
  next
    fix b st1 assume m: "bmap n ?l st = (Inr b, st1)" and k: "and_then (?ahead b st1) (\<lambda>_. ?get b) = (r, st')"
    have g1: "gets st st1" and b: "b = ?B" using bmap_spec [OF inv m] by auto
    have ahead: "gets st1 st2 \<and> (fails st1 q \<or> q = Inr ())" if a: "?ahead b st1 = (q, st2)" for q st2
    proof (cases "b \<noteq> 0 \<and> \<not> cached b st1")
      case True
      obtain w where "and_then (run_ahead n ?l b 1 w st1) (\<lambda>run st. (Inr (), prefetch b run st)) = (q, st2)"
        using a True by (simp add: Let_def)
      then show ?thesis
      proof (rule and_thenE)
        fix e s assume "run_ahead n ?l b 1 w st1 = (Inl e, s)" "q = Inl e" "st2 = s"
        then show ?thesis using run_ahead_spec [OF getsD(1) [OF g1], of n ?l b 1 w "Inl e"] by simp
      next
        fix run s assume "run_ahead n ?l b 1 w st1 = (Inr run, s)" and e: "(Inr (), prefetch b run s) = (q, st2)"
        then have s: "gets st1 s" using run_ahead_spec [OF getsD(1) [OF g1], of n ?l b 1 w "Inr run"] by simp
        show ?thesis using gets_trans [OF s gets_prefetch [OF getsD(1) [OF s]]] e by auto
      qed
    qed (use a gets_self [OF getsD(1) [OF g1]] in auto)
    show ?thesis
    proof (rule and_thenE [OF k])
      fix e st2 assume "?ahead b st1 = (Inl e, st2)" "r = Inl e" "st' = st2"
      then show ?thesis using ahead [of "Inl e" st2] gets_trans [OF g1] gets_fails [OF g1, of "Inl e :: errno + u8 list"] by simp
    next
      fix u st2 assume a: "?ahead b st1 = (Inr u, st2)" and c: "?get b st2 = (r, st')"
      have g2: "gets st st2" using ahead [OF a] gets_trans [OF g1] by blast
      have byte: "file_byte (ppb st) (bs st) (view st) n x = (if b = 0 then 0 else view st b ! (x mod bs st))"
        if "x \<in> set [pos..<pos + chunk]" for x
        using chunk_block [OF fits that] by (simp add: file_byte_def b Let_def)
      have bytes: "map (file_byte (ppb st) (bs st) (view st) n) [pos..<pos + chunk] =
          map (\<lambda>x. if b = 0 then 0 else view st b ! (x mod bs st)) [pos..<pos + chunk]"
        by (rule map_cong [OF refl byte])
      show ?thesis
      proof (cases "b = 0")
        case True
        then show ?thesis using c g2 bytes by (auto simp: map_replicate_const)
      next
        case False
        then have w: "with_block b (\<lambda>i d st. (Inr (take chunk (drop ?in d)), st)) st2 = (r, st')" using c by simp
        have "map (file_byte (ppb st) (bs st) (view st) n) [pos..<pos + chunk] = take chunk (drop ?in (view st b))"
          unfolding bytes using chunk_bytes [OF _ fits, of "view st b"] full False by simp
        note m = this
        show ?thesis
        proof (rule with_block_cases [OF getsD(1) [OF g2] w])
          assume "fails st2 r" "gets st2 st'"
          then show ?thesis using gets_trans [OF g2] gets_fails [OF g2, of r] by blast
        next
          fix i st3 assume g3: "gets st2 st3" and e: "(Inr (take chunk (drop ?in (view st2 b))), st3) = (r, st')"
          show ?thesis using gets_trans [OF g2 g3] e unfolding m getsD(2) [OF g2] by blast
        qed
      qed
    qed
  qed
qed

lemma upt_split:
  assumes "i \<le> j" "j \<le> k"
  shows "[i..<k] = [i..<j] @ [j..<k]"
  using upt_add_eq_append [OF assms(1), of "k - j"] unfolding le_add_diff_inverse [OF assms(2)] .

lemma file_read_loop_spec:
  "cache_inv st \<Longrightarrow> \<forall>b. length (view st b) = bs st \<Longrightarrow> 0 < bs st \<Longrightarrow> done1 \<le> len \<Longrightarrow>
    file_read_loop n off len out done1 st = (r, st') \<Longrightarrow>
    gets st st' \<and> (fails st r \<or> r = Inr (out @ map (file_byte (ppb st) (bs st) (view st) n) [off + done1..<off + len]))"
proof (induction n off len out done1 st arbitrary: r st' rule: file_read_loop.induct)
  case (1 n off len out done1 st)
  show ?case
  proof (cases "done1 < len")
    case True
    let ?pos = "off + done1"
    let ?c = "min (bs st - ?pos mod bs st) (len - done1)"
    let ?f = "file_byte (ppb st) (bs st) (view st) n"
    have go: "done1 < len \<and> 0 < bs st" using True "1.prems"(3) by simp
    have k: "and_then (read_chunk n ?pos ?c (len - done1) st) (\<lambda>bytes. file_read_loop n off len (out @ bytes) (done1 + ?c)) = (r, st')"
      using "1.prems"(5) go by (simp add: file_read_loop.simps [of n off len out done1 st] Let_def)
    have fits: "?pos mod bs st + ?c \<le> bs st" using mod_less_divisor [OF "1.prems"(3), of ?pos] by linarith
    show ?thesis
    proof (rule and_thenE [OF k])
      fix e st1 assume "read_chunk n ?pos ?c (len - done1) st = (Inl e, st1)" "r = Inl e" "st' = st1"
      then show ?thesis using read_chunk_spec [OF "1.prems"(1,2) fits, of n "len - done1" "Inl e"] by simp
    next
      fix bytes st1
      assume c: "read_chunk n ?pos ?c (len - done1) st = (Inr bytes, st1)"
        and l: "file_read_loop n off len (out @ bytes) (done1 + ?c) st1 = (r, st')"
      have g: "gets st st1" and b: "bytes = map ?f [?pos..<?pos + ?c]" using read_chunk_spec [OF "1.prems"(1,2) fits c] by auto
      note G = getsD [OF g]
      have le: "done1 + ?c \<le> len" using True by simp
      have full: "\<forall>b. length (view st1 b) = bs st1" "0 < bs st1" using "1.prems"(2,3) by (simp_all add: G(2,3))
      have "gets st1 st' \<and> (fails st1 r \<or>
          r = Inr ((out @ bytes) @ map (file_byte (ppb st1) (bs st1) (view st1) n) [off + (done1 + ?c)..<off + len]))"
        by (rule "1.IH" [OF go refl refl G(1) full le l])
      moreover have "map ?f [?pos..<off + len] = bytes @ map ?f [off + (done1 + ?c)..<off + len]"
      proof -
        have "[?pos..<off + len] = [?pos..<?pos + ?c] @ [?pos + ?c..<off + len]" by (rule upt_split) (use le in simp_all)
        then show ?thesis by (simp add: b add.assoc)
      qed
      ultimately show ?thesis using gets_trans [OF g] gets_fails [OF g, of r] by (auto simp: G(2,3,4))
    qed
  next
    case False
    then have "(Inr out, st) = (r, st')" using "1.prems"(5) by (simp add: file_read_loop.simps [of n off len out done1 st])
    then show ?thesis using False "1.prems"(1,4) gets_self by auto
  qed
qed

lemma gd_u32_spec:
  assumes "cache_inv st" "gd_u32 g f st = (r, st')"
  shows "gets st st' \<and> (fails st r \<or> (\<exists>x. r = Inr x))"
proof -
  obtain b off where o: "gd_off g st = (b, off)" by fastforce
  then have "rd32 b (off + f) st = (r, st')" using assms(2) by (simp add: gd_u32_def)
  then show ?thesis using rd32_spec [OF assms(1)] by blast
qed

lemma read_inode_spec:
  assumes inv: "cache_inv st" and r: "read_inode ino st = (Inr n, st')"
  shows "cache_inv st' \<and> view st' = view st \<and> bs st' = bs st \<and> ppb st' = ppb st \<and> answers st' = answers st"
proof (cases "ino \<noteq> 0 \<and> fst (icache st ! (ino mod ICACHE_SLOTS)) = ino")
  case True
  then show ?thesis using r inv by (simp add: read_inode_def Let_def)
next
  case False
  let ?k = "\<lambda>(b, off). with_block b (\<lambda>i d st.
    (Inr (decode_inode (take 128 (drop off d))), icache_put ino (decode_inode (take 128 (drop off d))) st))"
  have "and_then (inode_loc ino st) ?k = (Inr n, st')" using r unfolding read_inode_def Let_def if_not_P [OF False] .
  then show ?thesis
  proof (rule and_thenE)
    fix loc st1 assume l: "inode_loc ino st = (Inr loc, st1)" and k: "?k loc st1 = (Inr n, st')"
    have g1: "gets st st1"
      using l gd_u32_spec [OF inv] by (auto simp: inode_loc_def Let_def split: if_splits elim!: and_thenE)
    obtain b off where w: "with_block b (\<lambda>i d st.
        (Inr (decode_inode (take 128 (drop off d))), icache_put ino (decode_inode (take 128 (drop off d))) st)) st1 = (Inr n, st')"
      using k by (auto split: prod.splits)
    show ?thesis
    proof (rule with_block_cases [OF getsD(1) [OF g1] w])
      fix i st2 assume g: "gets st1 st2"
        and e: "(Inr (decode_inode (take 128 (drop off (view st1 b)))), icache_put ino (decode_inode (take 128 (drop off (view st1 b)))) st2) =
          (Inr n, st')"
      have g2: "gets st st2" by (rule gets_trans [OF g1 g])
      have s: "st' = icache_put ino n st2" using e by auto
      have "cache_inv st'" "view st' = view st2" "bs st' = bs st2" "ppb st' = ppb st2" "answers st' = answers st2"
        using getsD(1) [OF g2] by (simp_all add: s icache_put_def cache_inv_def view_def)
      then show ?thesis using getsD [OF g2] g2 by (simp add: gets_def kept_def)
    qed simp
  qed simp
qed

text \<open>C40. Reading a file returns its bytes: those of its blocks, through direct and indirect pointers, and zeros
  for holes, from \<open>off\<close> to the end of the request or of the file, whatever is in the cache and whatever the
  read-ahead brings in. The contents of the disk stay, and only a failing device makes it fail.\<close>

theorem file_read_correct:
  assumes "cache_inv st" "0 < bs st" "\<forall>b. length (view st b) = bs st" "read_inode ino st = (Inr n, st1)"
    and "read_at ino off len st = (r, st')"
  shows "cache_inv st' \<and> view st' = view st \<and>
    (case r of Inl e \<Rightarrow> e = EIO \<and> \<not> working st
     | Inr bytes \<Rightarrow> bytes = map (file_byte (ppb st) (bs st) (view st) n) [off..<min (off + len) (i_size n)])"
proof -
  note I = read_inode_spec [OF assms(1,4)]
  have w: "working st1 = working st" using I by (simp add: working_def)
  show ?thesis
  proof (cases "off \<ge> i_size n")
    case True
    then show ?thesis using assms(4,5) I by (auto simp: read_at_def and_then_def)
  next
    case False
    let ?len = "min len (i_size n - off)"
    have l: "file_read_loop n off ?len [] 0 st1 = (r, st')" using assms(4,5) False by (simp add: read_at_def and_then_def)
    have "gets st1 st' \<and> (fails st1 r \<or> r = Inr ([] @ map (file_byte (ppb st1) (bs st1) (view st1) n) [off + 0..<off + ?len]))"
      by (rule file_read_loop_spec [OF _ _ _ _ l]) (use I assms(2,3) in simp_all)
    moreover have "off + ?len = min (off + len) (i_size n)" using False by simp
    ultimately show ?thesis using I w by (auto simp: gets_def fails_def)
  qed
qed

text \<open>A file of 112 bytes on blocks of eight bytes, two pointers each: its first block is 7, its fourteenth is the
  second entry of the indirect block 9, and the rest are holes.\<close>

definition small_file :: inode where
  "small_file = inode_zeroed\<lparr>i_mode := S_IFREG, i_size_lo := 112, i_block := [7, 0, 0, 0, 0, 0, 0, 0, 0, 0, 0, 0, 9, 0, 0]\<rparr>"

definition cold_fs :: ext2 where
  "cold_fs = \<lparr>slots = replicate SLOTS slot_empty, dirty_n = 0, tick = 0, bs = 8,
     disk = (\<lambda>b. if b = 9 then [0, 0, 0, 0, 6, 0, 0, 0] else [of_nat b, 1, 2, 3, 4, 5, 6, 7]),
     answers = (\<lambda>_. True), torn = (\<lambda>_. []), reqs = 0, ppb = 2, nblocks = 16, ninodes = 16, bpg = 16, ipg = 16, groups = 1,
     first_data = 0, inode_size = 128, gdt_block = 1, free_blocks = 4, free_inodes = 4, mounted = True, sb = [], sb_counts = (4, 4),
     sb_disk = [], icache = replicate 12 (0, inode_zeroed) @ [(12, small_file)], dcache = [], rtc = 0\<rparr>"

theorem file_read_correct_witness:
  "\<exists>st'. read_at 12 102 9 cold_fs = (Inr [0, 0, 6, 1, 2, 3, 4, 5, 6], st')"
proof -
  have r: "runs cold_fs (disk cold_fs)" by (rule runs.start) (simp_all add: cold_fs_def)
  have inv: "cache_inv cold_fs" and v: "view cold_fs = disk cold_fs" using runs_inv [OF r] by auto
  have i: "read_inode 12 cold_fs = (Inr small_file, cold_fs)"
    by (simp add: read_inode_def cold_fs_def ICACHE_SLOTS_def nth_append)
  obtain q st' where q: "read_at 12 102 9 cold_fs = (q, st')" by fastforce
  have len: "\<forall>b. length (view cold_fs b) = bs cold_fs" "0 < bs cold_fs" "working cold_fs"
    unfolding v by (simp_all add: cold_fs_def working_def)
  have s: "i_size small_file = 112" by (simp add: i_size_def i_kind_def small_file_def inode_zeroed_def S_IFREG_def S_IFMT_def)
  have f: "file_blocks 2 (disk cold_fs) small_file = [7, 0, 0, 0, 0, 0, 0, 0, 0, 0, 0, 0, 0, 6] @ [0, 0, 0, 0] @ [0, 0, 0, 0, 0, 0, 0, 0]"
  proof -
    have u: "[0..<12] = [0, 1, 2, 3, 4, 5, 6, 7, 8, 9, 10, 11 :: nat]" "[0..<2] = [0, 1 :: nat]" by code_simp+
    have t: "tree_blocks 2 (disk cold_fs) 1 9 = [0, 6]"
      unfolding One_nat_def tree_blocks.simps(2) u(2) by (simp add: cold_fs_def int_at_def)
    have z: "tree_blocks 2 w 2 0 = [0, 0, 0, 0]" "tree_blocks 2 w 3 0 = [0, 0, 0, 0, 0, 0, 0, 0]" for w
      using tree_blocks.simps(2) [of 2 w 1 0] tree_blocks.simps(2) [of 2 w 2 0]
      by (simp_all add: numeral_2_eq_2 numeral_3_eq_3)
    show ?thesis by (simp add: file_blocks_def small_file_def u(1) t [unfolded One_nat_def] z)
  qed
  have b: "map (file_byte (ppb cold_fs) (bs cold_fs) (disk cold_fs) small_file) [102..<min (102 + 9) 112] = [0, 0, 6, 1, 2, 3, 4, 5, 6]"
  proof -
    have p: "ppb cold_fs = 2" "bs cold_fs = 8" "disk cold_fs 6 = [6, 1, 2, 3, 4, 5, 6, 7]" by (simp_all add: cold_fs_def)
    show ?thesis by (simp add: upt_rec_numeral file_byte_def flat_bmap_def f p)
  qed
  have "case q of Inl e \<Rightarrow> e = EIO \<and> \<not> working cold_fs | Inr bytes \<Rightarrow> bytes = [0, 0, 6, 1, 2, 3, 4, 5, 6]"
    using conjunct2 [OF conjunct2 [OF file_read_correct [OF inv len(2,1) i q]]] unfolding v s b .
  then have "q = Inr [0, 0, 6, 1, 2, 3, 4, 5, 6]" using len(3) by (simp split: sum.splits)
  then show ?thesis using q by blast
qed

end
