(* ===== verification/Ext2_Inode.thy ===== *)
theory Ext2_Inode
  imports Ext2_Read
begin

text \<open>
  Inodes on disk: the 128 bytes decode to the inode they encode, and \<open>write_inode\<close> puts them in the inode's slot of
  the inode table and nowhere else.
\<close>

section \<open>Inodes on disk\<close>

definition inode_ok :: "inode \<Rightarrow> bool" where
  "inode_ok n \<longleftrightarrow> i_uid n < 2 ^ 16 \<and> i_gid n < 2 ^ 16 \<and> i_links n < 2 ^ 16 \<and>
     (\<forall>x \<in> {i_size_lo n, i_atime n, i_ctime n, i_mtime n, i_dtime n, i_blocks512 n, i_flags n, i_osd1 n, i_generation n,
            i_file_acl n, i_size_hi n, i_faddr n} \<union> set (i_block n). x < 2 ^ 32) \<and>
     length (i_block n) = 15 \<and> length (i_osd2 n) = 12"

lemma int_at_skip: "length p \<le> off \<Longrightarrow> int_at k (p @ r) off = int_at k r (off - length p)"
  by (simp add: int_at_def)

lemma int_at_here: "v < 256 ^ k \<Longrightarrow> int_at k (le_bytes k v @ r) 0 = v"
  by (simp add: int_at_def)

lemma length_words: "length (concat (map (le_bytes 4) xs)) = 4 * length xs"
  by (induction xs) simp_all

lemma int_at_words: "k < length xs \<Longrightarrow> xs ! k < 2 ^ 32 \<Longrightarrow> int_at 4 (concat (map (le_bytes 4) xs) @ r) (4 * k) = xs ! k"
proof (induction xs arbitrary: k)
  case (Cons x xs)
  show ?case
  proof (cases k)
    case 0
    then show ?thesis using Cons.prems by (simp add: int_at_here)
  next
    case (Suc m)
    then show ?thesis using Cons.IH [of m] Cons.prems by (simp add: int_at_skip)
  qed
qed simp

lemma encode_inode_length: "inode_ok n \<Longrightarrow> length (encode_inode n) = 128"
  by (simp add: encode_inode_def inode_ok_def length_words)

lemma decode_encode:
  assumes ok: "inode_ok n"
  shows "decode_inode (encode_inode n) = n"
proof -
  have b: "length (i_block n) = 15" "length (i_osd2 n) = 12" "\<And>k. k < 15 \<Longrightarrow> i_block n ! k < 2 ^ 32"
    using ok by (auto simp: inode_ok_def)
  have w: "length (concat (map (le_bytes 4) (i_block n))) = 60" by (simp add: length_words b(1))
  have u: "i_uid n < 256 ^ 2" "i_gid n < 256 ^ 2" "i_links n < 256 ^ 2" "i_size_lo n < 256 ^ 4" "i_atime n < 256 ^ 4" "i_ctime n < 256 ^ 4"
    "i_mtime n < 256 ^ 4" "i_dtime n < 256 ^ 4" "i_blocks512 n < 256 ^ 4" "i_flags n < 256 ^ 4" "i_osd1 n < 256 ^ 4"
    "i_generation n < 256 ^ 4" "i_file_acl n < 256 ^ 4" "i_size_hi n < 256 ^ 4" "i_faddr n < 256 ^ 4"
    using ok by (simp_all add: inode_ok_def)
  have m: "unat (i_mode n) < 256 ^ 2" using unsigned_less [of "i_mode n"] by simp
  have bl: "map (\<lambda>k. int_at 4 (encode_inode n) (40 + 4 * k)) [0..<15] = i_block n"
  proof (rule nth_equalityI)
    fix k assume "k < length (map (\<lambda>k. int_at 4 (encode_inode n) (40 + 4 * k)) [0..<15])"
    then have k: "k < 15" by simp
    then show "map (\<lambda>k. int_at 4 (encode_inode n) (40 + 4 * k)) [0..<15] ! k = i_block n ! k"
      using b int_at_words [of k "i_block n"] by (simp add: encode_inode_def int_at_skip)
  qed (simp add: b(1))
  have "drop 116 (encode_inode n) = i_osd2 n"
    by (simp add: encode_inode_def w)
  then show ?thesis
    using bl b(2) m by (simp add: decode_inode_def, intro inode.equality) (simp_all add: encode_inode_def int_at_skip int_at_here u [simplified] w)
qed

lemma kept_flush_runs: "flush_runs xs ok st = (r, st') \<Longrightarrow> kept st st'"
proof (induction xs ok st arbitrary: r st' rule: flush_runs.induct)
  case (2 x xs ok st)
  let ?k = "run_len (fst x) MAX_SEGS (x # xs)"
  obtain good s where w: "write_blocks (fst x) (map (\<lambda>e. s_data (slots st ! snd e)) (take ?k (x # xs))) st = (good, s)" by fastforce
  have k: "kept st s" using w by (auto simp: write_blocks_def kept_def Let_def)
  have "kept s (fold (\<lambda>e. mark_clean (snd e)) ys s)" for ys :: "(nat \<times> nat) list"
  proof -
    have "kept s (fold (\<lambda>e. mark_clean (snd e)) ys t) \<longleftrightarrow> kept s t" for t by (induction ys arbitrary: t) simp_all
    then show ?thesis by simp
  qed
  note f = this
  show ?case
  proof (cases good)
    case True
    have "kept (fold (\<lambda>e. mark_clean (snd e)) (take ?k (x # xs)) s) st'"
      by (rule "2.IH"(1) [OF refl refl refl w [symmetric] True]) (use "2.prems" w True in \<open>simp add: flush_runs.simps(2) Let_def\<close>)
    then show ?thesis using kept_trans [OF k kept_trans [OF f]] by blast
  next
    case False
    have "kept s st'"
      by (rule "2.IH"(2) [OF refl refl refl w [symmetric] False]) (use "2.prems" w False in \<open>simp add: flush_runs.simps(2) Let_def\<close>)
    then show ?thesis by (rule kept_trans [OF k])
  qed
qed simp

lemma kept_flush: "kept st (snd (flush_dirty st))"
proof -
  obtain r s where f: "flush_runs (sort_key fst (dirty_list st)) True st = (r, s)" by fastforce
  show ?thesis using kept_flush_runs [OF f] f by (simp add: flush_dirty_def Let_def) (simp add: kept_def)
qed

lemma kept_modify: "kept st (modify b i f st)"
proof -
  have "kept st (bdirty b s)" if "kept st s" for s
  proof (cases "find_slot b s")
    case (Some j)
    let ?s = "(set_slot j (\<lambda>x. x\<lparr>s_dirty := True\<rparr>) s)\<lparr>dirty_n := dirty_n (set_slot j (\<lambda>x. x\<lparr>s_dirty := True\<rparr>) s) + 1\<rparr>"
    have "kept st ?s" using that by (simp add: kept_def set_slot_def)
    then have "kept st (snd (flush_dirty ?s))" by (rule kept_trans [OF _ kept_flush])
    then show ?thesis using Some that \<open>kept st ?s\<close> unfolding bdirty_def Let_def by simp
  qed (simp add: bdirty_def that)
  then show ?thesis by (simp add: modify_def)
qed

lemma inode_loc_spec:
  assumes inv: "cache_inv st" and l: "inode_loc ino st = (Inr (b, off), st1)"
  shows "gets st st1" "ino \<noteq> 0" "off = (ino - 1) mod ipg st * inode_size st mod bs st"
proof -
  show i: "ino \<noteq> 0" using l by (cases "ino = 0") (simp_all add: inode_loc_def)
  have c: "\<not> (ino = 0 \<or> ninodes st < ino)" using l i by (cases "ninodes st < ino") (simp_all add: inode_loc_def)
  have e: "and_then (gd_u32 ((ino - 1) div ipg st) GD_INODE_TABLE st) (\<lambda>table st1.
      (Inr (table + (ino - 1) mod ipg st * inode_size st1 div bs st1, (ino - 1) mod ipg st * inode_size st1 mod bs st1), st1)) =
      (Inr (b, off), st1)"
    using l unfolding inode_loc_def Let_def if_not_P [OF c] .
  then have "gets st st1 \<and> off = (ino - 1) mod ipg st * inode_size st mod bs st"
  proof (rule and_thenE)
    fix t s assume t: "gd_u32 ((ino - 1) div ipg st) GD_INODE_TABLE st = (Inr t, s)"
      and k: "(Inr (t + (ino - 1) mod ipg st * inode_size s div bs s, (ino - 1) mod ipg st * inode_size s mod bs s), s) =
        (Inr (b, off), st1)"
    have g: "gets st s" using gd_u32_spec [OF inv t] by simp
    then show ?thesis using k kept_fields(5) [of st s] by (auto simp: gets_def)
  qed simp
  then show "gets st st1" "off = (ino - 1) mod ipg st * inode_size st mod bs st" by auto
qed

lemma slot_fits:
  assumes "128 \<le> (s::nat)" "s dvd b" "0 < b"
  shows "i * s mod b + 128 \<le> b"
proof -
  obtain m where m: "b = m * s" using assms(2) by (metis dvd_def mult.commute)
  have "i mod m < m" using m assms(3) by (cases m) simp_all
  then have "(i mod m + 1) * s \<le> m * s" by (intro mult_le_mono1) simp
  moreover have "i * s mod b = (i mod m) * s" by (simp add: m mult_mod_left)
  ultimately show ?thesis using assms(1) m by (simp add: mult.commute)
qed

text \<open>\<open>write_inode\<close> changes 128 bytes of one block of the disk, those of the inode's slot in the inode table:
  they decode to the inode written, and the inode cache serves the same one. A successful write thus survives
  the caches.\<close>

theorem inode_written:
  assumes "cache_inv st" "0 < bs st" "\<forall>b. length (view st b) = bs st" "length (icache st) = ICACHE_SLOTS"
    and "128 \<le> inode_size st" "inode_size st dvd bs st" "inode_ok n" "write_inode ino n st = (Inr (), st')"
  shows "cache_inv st' \<and> read_inode ino st' = (Inr n, st') \<and>
    (\<exists>b off st1. inode_loc ino st = (Inr (b, off), st1) \<and> off + 128 \<le> bs st \<and>
       view st' = (view st)(b := splice off (encode_inode n) (view st b)) \<and>
       decode_inode (take 128 (drop off (view st' b))) = n)"
proof -
  let ?k = "\<lambda>(b, off). with_block b (\<lambda>i d st. (Inr (), icache_put ino n (modify b i (splice off (encode_inode n)) st)))"
  have "and_then (inode_loc ino st) ?k = (Inr (), st')" using assms(8) by (simp add: write_inode_def)
  then obtain loc st1 where l: "inode_loc ino st = (Inr loc, st1)" "?k loc st1 = (Inr (), st')"
    by (rule and_thenE) auto
  obtain b off where loc: "loc = (b, off)" by fastforce
  note L = inode_loc_spec [OF assms(1) l(1) [unfolded loc]]
  have w: "with_block b (\<lambda>i d st. (Inr (), icache_put ino n (modify b i (splice off (encode_inode n)) st))) st1 = (Inr (), st')"
    using l(2) loc by simp
  have fits: "off + 128 \<le> bs st" unfolding L(3) by (rule slot_fits [OF assms(5,6,2)])
  obtain i st2 where g: "gets st1 st2" "find_slot b st2 = Some i"
    and e: "st' = icache_put ino n (modify b i (splice off (encode_inode n)) st2)"
    using w by (rule with_block_cases [OF getsD(1) [OF L(1)]]) auto
  have g2: "gets st st2" by (rule gets_trans [OF L(1) g(1)])
  note M = modify_spec [OF getsD(1) [OF g2] g(2), of "splice off (encode_inode n)"]
  have v: "view st' = (view st)(b := splice off (encode_inode n) (view st b))" and inv: "cache_inv st'"
    using M(1,2) getsD(2) [OF g2] by (simp_all add: e icache_put_def view_def cache_inv_def)
  have "drop (off + 0) (view st' b) = drop 0 (encode_inode n) @ drop (off + length (encode_inode n)) (view st b)"
    unfolding v fun_upd_same by (rule splice_at) (use fits assms(3) in simp_all)
  then have "take 128 (drop off (view st' b)) = encode_inode n" by (simp add: encode_inode_length [OF assms(7)])
  then have d: "decode_inode (take 128 (drop off (view st' b))) = n" by (simp add: decode_encode [OF assms(7)])
  have ic: "icache st2 = icache st" using g2 kept_fields(2) [of st st2] by (simp add: gets_def)
  have "icache (modify b i (splice off (encode_inode n)) st2) = icache st2" by (rule kept_fields(2) [OF kept_modify])
  then have "icache st' ! (ino mod ICACHE_SLOTS) = (ino, n)"
    using assms(4) ic by (simp add: e icache_put_def ICACHE_SLOTS_def)
  then have "read_inode ino st' = (Inr n, st')" using L(2) by (simp add: read_inode_def)
  then show ?thesis using inv v d fits l(1) loc by blast
qed

lemma write_inode_works:
  assumes inv: "cache_inv st" and w: "working st" and ino: "0 < ino" "ino \<le> ninodes st"
  shows "\<exists>st'. write_inode ino n st = (Inr (), st')"
proof -
  let ?g = "(ino - 1) div ipg st"
  obtain r s where t: "gd_u32 ?g GD_INODE_TABLE st = (r, s)" by fastforce
  note G = gd_u32_spec [OF inv t]
  then obtain x where x: "r = Inr x" using w by (auto simp: fails_def)
  have c: "\<not> (ino = 0 \<or> ino > ninodes st)" using ino by simp
  obtain b off where l: "inode_loc ino st = (Inr (b, off), s)"
    using t x unfolding inode_loc_def Let_def if_not_P [OF c] by (simp add: and_then_def)
  let ?wr = "with_block b (\<lambda>i d st. (Inr (), icache_put ino n (modify b i (splice off (encode_inode n)) st))) s"
  obtain q st' where q: "?wr = (q, st')" by fastforce
  have "q = Inr ()"
  proof (rule with_block_cases [OF getsD(1) q])
    show "gets st s" using G by simp
    assume "fails s q"
    then show "q = Inr ()" using gets_fails [of st s q] G w by (simp add: fails_def)
  qed auto
  then show ?thesis using l q by (simp add: write_inode_def and_then_def)
qed

definition blank_fs :: ext2 where
  "blank_fs = cold_fs\<lparr>bs := 128, ppb := 32, disk := \<lambda>_. replicate 128 0, icache := replicate 1024 (0, inode_zeroed)\<rparr>"

theorem inode_written_witness:
  "\<exists>st' b off. write_inode 12 small_file blank_fs = (Inr (), st') \<and> read_inode 12 st' = (Inr small_file, st') \<and>
     decode_inode (take 128 (drop off (view st' b))) = small_file"
proof -
  have r: "runs blank_fs (disk blank_fs)" by (rule runs.start) (simp_all add: blank_fs_def cold_fs_def)
  have inv: "cache_inv blank_fs" and v: "view blank_fs = disk blank_fs" using runs_inv [OF r] by auto
  have ok: "inode_ok small_file" by (simp add: inode_ok_def small_file_def inode_zeroed_def)
  have c: "0 < bs blank_fs" "length (icache blank_fs) = ICACHE_SLOTS" "128 \<le> inode_size blank_fs"
    "inode_size blank_fs dvd bs blank_fs" "working blank_fs" "12 \<le> ninodes blank_fs"
    by (simp_all add: blank_fs_def cold_fs_def ICACHE_SLOTS_def working_def)
  have l: "\<forall>b. length (view blank_fs b) = bs blank_fs" unfolding v by (simp add: blank_fs_def)
  obtain st' where w: "write_inode 12 small_file blank_fs = (Inr (), st')"
    using write_inode_works [OF inv c(5) _ c(6), of small_file] by auto
  show ?thesis using inode_written [OF inv c(1) l c(2,3,4) ok w] w by blast
qed

end
