(* ===== verification/Spec2Isabelle.thy ===== *)
theory Spec2Isabelle
  imports Frames Locks Mmu Shm Vm_Props Proc_Props Files_Props Signal_Props Ext2_Inode
begin

text \<open>
  Pulsar OS, a verification development of its kernel (\<open>kernel/src/\<close>, Rust).

  \<^bold>\<open>The program.\<close> A multi-core kernel for riscv64, x86_64 and aarch64 with the Linux system call ABI.
  Physical frames come from one allocator (\<open>frame_allocator.rs\<close>); page tables (\<open>arch/*/mmu.rs\<close>), shared
  memory (\<open>shm.rs\<close>), pipes and local sockets take their frames from it. \<open>vm.rs\<close> keeps the areas of each
  process and answers its page faults. \<open>process.rs\<close> is the process table, the scheduler, IPC, futexes,
  waiting and termination. \<open>file.rs\<close> is the layer of file descriptors over all objects, \<open>unix.rs\<close> the
  local sockets. Each subsystem runs under a spin lock of \<open>sync.rs\<close>, so an operation is one atomic step of
  its state; interleavings are sequences of steps, and the step relations below contain every order.

  \<^bold>\<open>Theories.\<close> Definitions keep the names of the functions they model; a state record models the
  statics of its module.

  \<^item> \<open>Prelude\<close>: machine types, error numbers, memory as a function from addresses to bytes, generic lemmas.
  \<^item> \<open>Frames\<close> (\<open>frame_allocator.rs\<close>): bitmap, reference counts, next-fit and contiguous search. Boot
    state, exactness of allocation and release, the word-skipping scan against a reference search.
  \<^item> \<open>Locks\<close> (\<open>sync.rs\<close>): lock words and the stacks of held locks; mutual exclusion and recovery after an
    oops.
  \<^item> \<open>Mmu\<close> (\<open>arch/riscv64/mmu.rs\<close>): three-level tables in memory; mapping, unmapping and protection as
    changes of the view \<open>translate\<close>, with exact reference counts of the frames.
  \<^item> \<open>Shm\<close>, \<open>Shm_Spans\<close> (\<open>shm.rs\<close>): objects, their pages and counts; ownership, release, contents.
  \<^item> \<open>Vmas\<close>, \<open>Vm\<close>, \<open>Vm_Props\<close> (\<open>vm.rs\<close>): the sorted area table with cutting, splitting and merging; all
    calls, faults and copy on write; the areas as a function from pages to attributes is the specification.
  \<^item> \<open>Ring\<close>, \<open>Wakes\<close>, \<open>Handles\<close>, \<open>Spans\<close>: byte rings, event counters and wake-ups, open file descriptions, and
    disjoint ownership of contiguous blocks; shared by the next theories.
  \<^item> \<open>Pipes\<close> (\<open>file.rs\<close>), \<open>Unix\<close>, \<open>Unix_Props\<close> (\<open>unix.rs\<close>): pipes and connections, each refining an abstract
    queue of bytes or messages whatever other operations come in between.
  \<^item> \<open>Files\<close>, \<open>Sockets\<close>, \<open>Fdops\<close>, \<open>Polls\<close> (\<open>file.rs\<close>): descriptor tables, reference counts of objects, socket
    calls, calls on a descriptor, \<open>poll\<close> and \<open>epoll\<close>. \<open>Files_Inv\<close>: every reference count is the number of
    references held by tables, messages in flight and backlogs. \<open>Files_Steps\<close>, \<open>Files_Calls\<close>: each call keeps
    it; \<open>Files_Props\<close>: every descriptor of a reachable state names a live object, and what fork and execve do
    to a table.
  \<^item> \<open>Context\<close>, \<open>Sched\<close>, \<open>Procs\<close>, \<open>Ipc\<close> (\<open>process.rs\<close>, \<open>arch/riscv64/context.rs\<close>): process slots, dispatch,
    timers, signals posted, creation, fork, exec, futexes, exit, wait and message passing. \<open>Sched_Inv\<close>: what
    each operation keeps. \<open>Sched_Props\<close>: reachable states and progress. \<open>Proc_Props\<close>: single operations.
  \<^item> \<open>Signals\<close>, \<open>Signal_Props\<close> (\<open>signal.rs\<close>): which pending signal is taken, the frame on the user stack, the
    return from it, and the calls on actions and masks.
  \<^item> \<open>Bcache\<close>, \<open>Bcache_Props\<close> (\<open>ext2.rs\<close>, cache): the write-back block cache over a device that may fail; it
    refines the map from blocks to the bytes last written.
  \<^item> \<open>Ext2\<close>, \<open>Ext2_Dirs\<close>, \<open>Ext2_Paths\<close> (\<open>ext2.rs\<close>): superblock, bitmaps, inodes, block map and file data;
    directories and the dentry cache; paths and the calls on names. \<open>Ext2_Props\<close>: a directory block as a map;
    \<open>Ext2_Read\<close>: a file's bytes as a function of its inode and the disk; \<open>Ext2_Inode\<close>: inodes on disk.

  \<^bold>\<open>Bounds and recursion.\<close> Sizes are those of the code (512 descriptors, 256 processes, 16 pages per pipe).
  Loops are structural or terminate by a measure: \<open>drop_refs\<close> by the descriptors still in flight and the
  connections not accepted, path resolution by the links and the bytes left, the scans by the indices left.
  No fuel is used; where the code itself counts rounds (64 signals per delivery, 62 blocks per read-ahead,
  256 levels up a directory) the model counts the same. Words keep their width where
  the code computes with bits (page table entries, masks, flags); addresses, sizes and counts are natural
  numbers with the code's checked and saturating operations written out.

  \<^bold>\<open>Parameters.\<close> Code of other modules enters as a record of functions: \<open>services\<close> for the scheduler,
  \<open>env\<close> for the descriptor layer (ext2, network, random numbers, console), \<open>user_vm\<close> for the faults a signal
  frame may take. The block device answers each request as the field \<open>answers\<close> of the cache says, and a failed
  request leaves arbitrary bytes. Every theorem holds for all of them unless it states a hypothesis on them.

  \<^bold>\<open>Not modelled.\<close> Memory ordering and TLB shootdowns (they have no effect on the modelled state); of
  \<open>ext2.rs\<close> the loader's \<open>read_all_phys\<close> and the statistics; the boot file systems, the network stack, the
  decoding of system calls,
  ELF loading, the x86_64 and aarch64 back ends (same interface as the riscv64 one modelled), device
  drivers, boot and assembly; the user programs and the vendored libraries.
\<close>

end
